(* ===== verification/Prelude.thy ===== *)
theory Prelude
  imports Main "HOL-Library.Monad_Syntax"
begin

text \<open>
  What every component of the development shares: unsigned 64-bit arithmetic on naturals with
  the wrap-around written out, the value a C++ function returns when the process may stop in
  \<open>EXIT\<close>, alignment, and facts on ordered lists.

  A \<open>uint64_t\<close> (or \<open>size_t\<close>) is a \<open>nat\<close> below \<open>2 ^ 64\<close>. Where the source adds or subtracts
  without a check, the model uses \<open>add64\<close> and \<open>sub64\<close>, which wrap as the hardware does; the
  collection \<open>u64_simps\<close> turns them into ordinary sums once a bound is known. Where the source
  checks first, the check is in the model and ordinary arithmetic follows it.

  A function that may end the process (\<open>EXIT\<close>, \<open>EXIT_IF\<close>) returns an \<open>option\<close>: \<open>None\<close> is the
  stopped process.
\<close>

named_theorems u64_simps \<open>unsigned 64-bit sums and differences that do not wrap\<close>
named_theorems iv_simps \<open>facts on half-open address intervals\<close>

type_synonym u64 = nat

abbreviation u64_modulus :: nat where
  "u64_modulus \<equiv> 18446744073709551616"

definition U64_MAX :: u64 where
  "U64_MAX = 18446744073709551615"

definition add64 :: "u64 \<Rightarrow> u64 \<Rightarrow> u64" where
  "add64 a b = (a + b) mod u64_modulus"

definition sub64 :: "u64 \<Rightarrow> u64 \<Rightarrow> u64" where
  "sub64 a b = (a + u64_modulus - b) mod u64_modulus"

lemma u64_modulus_power: "u64_modulus = 2 ^ 64"
  by simp

lemma U64_MAX_less: "x \<le> U64_MAX \<longleftrightarrow> x < u64_modulus"
  by (auto simp: U64_MAX_def)

lemma add64_le [u64_simps]: "a + b \<le> U64_MAX \<Longrightarrow> add64 a b = a + b"
  by (simp add: add64_def U64_MAX_def)

lemma sub64_le [u64_simps]:
  assumes "b \<le> a" and "a \<le> U64_MAX"
  shows "sub64 a b = a - b"
proof -
  have "a + u64_modulus - b = (a - b) + u64_modulus" using assms(1) by simp
  moreover have "a - b < u64_modulus" using assms(2) by (simp add: U64_MAX_def)
  ultimately show ?thesis by (simp only: sub64_def mod_add_self2 mod_less)
qed

lemma add64_bound: "add64 a b \<le> U64_MAX"
  by (simp add: U64_MAX_less add64_def)

lemma sub64_bound: "sub64 a b \<le> U64_MAX"
  by (simp add: U64_MAX_less sub64_def)

lemma wrap_add_sub: "y < M \<Longrightarrow> c < M \<Longrightarrow> ((y + c) mod M + M - c) mod M = (y :: nat)"
proof (cases "y + c < M")
  case False
  assume "y < M" and "c < M"
  with False have "(y + c) mod M = y + c - M" by (simp add: mod_if)
  with False \<open>y < M\<close> \<open>c < M\<close> show ?thesis by simp
qed simp

text \<open>A sum may wrap on the way to a difference that fits.\<close>

lemma sub64_add64:
  assumes "c \<le> x" and "a + (x - c) \<le> U64_MAX" and "c \<le> U64_MAX"
  shows "sub64 (add64 a x) c = a + (x - c)"
proof -
  have "a + x = a + (x - c) + c" using assms(1) by simp
  then show ?thesis
    using assms(2,3) unfolding U64_MAX_less by (simp only: add64_def sub64_def wrap_add_sub)
qed

subsection \<open>Half-open intervals\<close>

definition span :: "u64 \<Rightarrow> u64 \<Rightarrow> nat set" where
  "span a n = {a..<a + n}"

lemma span_iff [iv_simps]: "x \<in> span a n \<longleftrightarrow> a \<le> x \<and> x < a + n"
  by (simp add: span_def)

lemma span_0 [simp]: "span a 0 = {}"
  by (simp add: span_def)

lemma finite_span [simp]: "finite (span a n)"
  by (simp add: span_def)

lemma card_span [simp]: "card (span a n) = n"
  by (simp add: span_def)

lemma span_eq_empty [simp]: "span a n = {} \<longleftrightarrow> n = 0"
  by (simp add: span_def)

lemma span_split: "k \<le> n \<Longrightarrow> span a n = span a k \<union> span (a + k) (n - k)"
  by (auto simp: span_def)

lemma span_disjoint: "span a n \<inter> span b m = {} \<longleftrightarrow> n = 0 \<or> m = 0 \<or> a + n \<le> b \<or> b + m \<le> a"
proof -
  have "max a b \<in> span a n \<inter> span b m" if "n \<noteq> 0" "m \<noteq> 0" "b < a + n" "a < b + m"
    using that by (auto simp: span_def max_def)
  then show ?thesis by (fastforce simp: span_def)
qed

subsection \<open>Alignment\<close>

definition align_up :: "u64 \<Rightarrow> u64 \<Rightarrow> u64" where
  "align_up x k = x + (if x mod k \<noteq> 0 then k - x mod k else 0)"

lemma align_up_ge: "x \<le> align_up x k"
  by (simp add: align_up_def)

lemma align_up_next:
  assumes "0 < k" and "x mod k \<noteq> 0"
  shows "align_up x k = k * Suc (x div k)"
proof -
  have "x mod k \<le> k" using assms(1) by (simp add: less_imp_le)
  moreover have "x = k * (x div k) + x mod k" by simp
  ultimately have "x + (k - x mod k) = k * (x div k) + k" by linarith
  with assms(2) show ?thesis by (simp add: align_up_def)
qed

lemma align_up_dvd:
  assumes "0 < k"
  shows "k dvd align_up x k"
proof (cases "x mod k = 0")
  case True
  then show ?thesis by (simp add: align_up_def mod_eq_0_iff_dvd)
next
  case False
  from align_up_next [OF assms False] show ?thesis by (simp only: dvd_triv_left)
qed

text \<open>Of the multiples of \<open>k\<close> that are at least \<open>x\<close>, \<open>align_up x k\<close> is the least.\<close>

lemma align_up_least:
  assumes "k dvd y" and "x \<le> y"
  shows "align_up x k \<le> y"
proof (cases "x mod k = 0 \<or> k = 0")
  case True
  with assms show ?thesis by (auto simp: align_up_def)
next
  case False
  then have k: "0 < k" and r: "x mod k \<noteq> 0" by auto
  obtain q where y: "y = k * q" using assms(1) by (auto simp: dvd_def)
  have x: "x = k * (x div k) + x mod k" by simp
  have "x div k < q"
  proof (rule ccontr)
    assume "\<not> x div k < q"
    then have "k * q \<le> k * (x div k)" by (intro mult_le_mono2) simp
    with assms(2) y have "x \<le> k * (x div k)" by (blast intro: order_trans)
    with x r show False by linarith
  qed
  then have "k * Suc (x div k) \<le> k * q" by (intro mult_le_mono2) simp
  with y show ?thesis by (simp only: align_up_next [OF k r])
qed

subsection \<open>Ordered lists\<close>

text \<open>
  The split of an ordered list at a key. \<open>std::lower_bound\<close> stops at the first element whose
  key is at least \<open>k\<close>, \<open>std::upper_bound\<close> at the first whose key exceeds it; an iterator is the
  pair of what lies before it and what it has still to visit.
\<close>

definition lower_bound_by :: "('a \<Rightarrow> nat) \<Rightarrow> nat \<Rightarrow> 'a list \<Rightarrow> 'a list \<times> 'a list" where
  "lower_bound_by f k xs = (takeWhile (\<lambda>x. f x < k) xs, dropWhile (\<lambda>x. f x < k) xs)"

definition upper_bound_by :: "('a \<Rightarrow> nat) \<Rightarrow> nat \<Rightarrow> 'a list \<Rightarrow> 'a list \<times> 'a list" where
  "upper_bound_by f k xs = (takeWhile (\<lambda>x. f x \<le> k) xs, dropWhile (\<lambda>x. f x \<le> k) xs)"

lemma lower_bound_by_append: "lower_bound_by f k xs = (bs, fs) \<Longrightarrow> xs = bs @ fs"
  by (auto simp: lower_bound_by_def)

lemma upper_bound_by_append: "upper_bound_by f k xs = (bs, fs) \<Longrightarrow> xs = bs @ fs"
  by (auto simp: upper_bound_by_def)

lemma lower_bound_by_before: "lower_bound_by f k xs = (bs, fs) \<Longrightarrow> \<forall>x \<in> set bs. f x < k"
  by (auto simp: lower_bound_by_def dest: set_takeWhileD)

lemma upper_bound_by_before: "upper_bound_by f k xs = (bs, fs) \<Longrightarrow> \<forall>x \<in> set bs. f x \<le> k"
  by (auto simp: upper_bound_by_def dest: set_takeWhileD)

lemma dropWhile_sorted:
  "sorted_wrt (\<lambda>x y. f x \<le> f y) xs \<Longrightarrow> \<forall>x \<in> set (dropWhile (\<lambda>x. f x < (k::nat)) xs). k \<le> f x"
  by (induction xs) auto

lemma dropWhile_sorted_le:
  "sorted_wrt (\<lambda>x y. f x \<le> f y) xs \<Longrightarrow> \<forall>x \<in> set (dropWhile (\<lambda>x. f x \<le> (k::nat)) xs). k < f x"
  by (induction xs) auto

lemma lower_bound_by_after:
  "lower_bound_by f k xs = (bs, fs) \<Longrightarrow> sorted_wrt (\<lambda>x y. f x \<le> f y) xs \<Longrightarrow> \<forall>x \<in> set fs. k \<le> f x"
  by (simp add: lower_bound_by_def) (blast dest: dropWhile_sorted)

lemma upper_bound_by_after:
  "upper_bound_by f k xs = (bs, fs) \<Longrightarrow> sorted_wrt (\<lambda>x y. f x \<le> f y) xs \<Longrightarrow> \<forall>x \<in> set fs. k < f x"
  by (simp add: upper_bound_by_def) (blast dest: dropWhile_sorted_le)

lemma sorted_wrt_weaken:
  "sorted_wrt P xs \<Longrightarrow> (\<And>x y. x \<in> set xs \<Longrightarrow> y \<in> set xs \<Longrightarrow> P x y \<Longrightarrow> Q x y) \<Longrightarrow> sorted_wrt Q xs"
  by (rule sorted_wrt_mono_rel [of xs P Q])

end
