(* ===== verification/Ordered_Map.thy ===== *)
theory Ordered_Map
  imports Prelude
begin

text \<open>
  \<open>std::map\<close> with unsigned keys, as the list of its entries in key order. An iterator is the
  split of that list where it stands, so \<open>lower_bound\<close> and \<open>upper_bound\<close> are the splits of the
  prelude on the key, \<open>std::prev\<close> moves one entry over the split, and erasing the entry under the
  iterator drops the head of the second part. \<open>emplace\<close> leaves an existing entry alone.
\<close>

type_synonym 'v omap = "(u64 \<times> 'v) list"

definition omap_wf :: "'v omap \<Rightarrow> bool" where
  "omap_wf m \<longleftrightarrow> sorted_wrt (\<lambda>p q. fst p < fst q) m"

definition lower_bound :: "u64 \<Rightarrow> 'v omap \<Rightarrow> 'v omap \<times> 'v omap" where
  "lower_bound k m = lower_bound_by fst k m"

definition upper_bound :: "u64 \<Rightarrow> 'v omap \<Rightarrow> 'v omap \<times> 'v omap" where
  "upper_bound k m = upper_bound_by fst k m"

definition step_back :: "'v omap \<times> 'v omap \<Rightarrow> 'v omap \<times> 'v omap" where
  "step_back it = (butlast (fst it), last (fst it) # snd it)"

fun emplace :: "u64 \<Rightarrow> 'v \<Rightarrow> 'v omap \<Rightarrow> 'v omap" where
  "emplace k v [] = [(k, v)]"
| "emplace k v ((k', v') # m) =
     (if k < k' then (k, v) # (k', v') # m
      else if k = k' then (k', v') # m
      else (k', v') # emplace k v m)"

definition erase_key :: "u64 \<Rightarrow> 'v omap \<Rightarrow> 'v omap" where
  "erase_key k m = filter (\<lambda>p. fst p \<noteq> k) m"

lemma omap_wf_Nil [simp]: "omap_wf []"
  by (simp add: omap_wf_def)

lemma omap_wf_Cons [simp]: "omap_wf (p # m) \<longleftrightarrow> (\<forall>q \<in> set m. fst p < fst q) \<and> omap_wf m"
  by (simp add: omap_wf_def)

lemma omap_wf_append [simp]:
  "omap_wf (m @ n) \<longleftrightarrow> omap_wf m \<and> omap_wf n \<and> (\<forall>p \<in> set m. \<forall>q \<in> set n. fst p < fst q)"
  by (auto simp: omap_wf_def sorted_wrt_append)

lemma omap_wf_filter: "omap_wf m \<Longrightarrow> omap_wf (filter P m)"
  by (simp add: omap_wf_def sorted_wrt_filter)

lemma omap_wf_sorted: "omap_wf m \<Longrightarrow> sorted_wrt (\<lambda>p q. fst p \<le> fst q) m"
  unfolding omap_wf_def by (erule sorted_wrt_weaken) simp

lemma omap_wf_distinct: "omap_wf m \<Longrightarrow> distinct (map fst m)"
  by (induction m) auto

lemma lower_boundD:
  assumes "lower_bound k m = (bs, fs)" and "omap_wf m"
  shows "m = bs @ fs" and "\<forall>p \<in> set bs. fst p < k" and "\<forall>q \<in> set fs. k \<le> fst q"
  using lower_bound_by_append [OF assms(1) [unfolded lower_bound_def]]
    lower_bound_by_before [OF assms(1) [unfolded lower_bound_def]]
    lower_bound_by_after [OF assms(1) [unfolded lower_bound_def] omap_wf_sorted [OF assms(2)]]
  by simp_all

lemma upper_boundD:
  assumes "upper_bound k m = (bs, fs)" and "omap_wf m"
  shows "m = bs @ fs" and "\<forall>p \<in> set bs. fst p \<le> k" and "\<forall>q \<in> set fs. k < fst q"
  using upper_bound_by_append [OF assms(1) [unfolded upper_bound_def]]
    upper_bound_by_before [OF assms(1) [unfolded upper_bound_def]]
    upper_bound_by_after [OF assms(1) [unfolded upper_bound_def] omap_wf_sorted [OF assms(2)]]
  by simp_all

lemma step_back_append: "bs \<noteq> [] \<Longrightarrow> step_back (bs, fs) = (bs', fs') \<Longrightarrow> bs' @ fs' = bs @ fs"
  by (auto simp: step_back_def)

lemma emplace_middle:
  "\<forall>p \<in> set bs. fst p < k \<Longrightarrow> \<forall>q \<in> set fs. k < fst q \<Longrightarrow> emplace k v (bs @ fs) = bs @ (k, v) # fs"
  by (induction bs) (cases fs, auto)

lemma emplace_last: "\<forall>p \<in> set bs. fst p < k \<Longrightarrow> emplace k v bs = bs @ [(k, v)]"
  using emplace_middle [of bs k "[]"] by simp

lemma emplace_keys: "fst ` set (emplace k v m) = insert k (fst ` set m)"
  by (induction k v m rule: emplace.induct) auto

lemma emplace_wf: "omap_wf m \<Longrightarrow> omap_wf (emplace k v m)"
proof (induction k v m rule: emplace.induct)
  case (2 k v k' v' m)
  have "\<forall>q \<in> set (emplace k v m). k' < fst q" if "k' < k" "\<forall>q \<in> set m. k' < fst q"
  proof
    fix q assume "q \<in> set (emplace k v m)"
    then have "fst q \<in> insert k (fst ` set m)" using emplace_keys [of k v m] by blast
    with that show "k' < fst q" by auto
  qed
  with 2 show ?case by auto
qed simp

lemma emplace_subset: "set (emplace k v m) \<subseteq> insert (k, v) (set m)"
  by (induction k v m rule: emplace.induct) auto

lemma emplace_fresh_set: "k \<notin> fst ` set m \<Longrightarrow> set (emplace k v m) = insert (k, v) (set m)"
  by (induction k v m rule: emplace.induct) auto

lemma erase_key_middle:
  "omap_wf (bs @ (k, v) # fs) \<Longrightarrow> erase_key k (bs @ (k, v) # fs) = bs @ fs"
proof -
  assume wf: "omap_wf (bs @ (k, v) # fs)"
  then have "filter (\<lambda>p. fst p \<noteq> k) bs = bs" "filter (\<lambda>p. fst p \<noteq> k) fs = fs"
    by (auto simp: filter_id_conv)
  then show ?thesis by (simp add: erase_key_def)
qed

lemma erase_key_wf: "omap_wf m \<Longrightarrow> omap_wf (erase_key k m)"
  by (simp add: erase_key_def omap_wf_filter)

lemma map_of_wf: "omap_wf m \<Longrightarrow> map_of m k = Some v \<longleftrightarrow> (k, v) \<in> set m"
  by (rule map_of_eq_Some_iff [OF omap_wf_distinct])

lemma map_of_split:
  assumes "map_of m k = Some v"
  obtains bs fs where "m = bs @ (k, v) # fs"
  using map_of_SomeD [OF assms] by (auto dest: split_list)

end
