(* ===== verification/Intervals.thy ===== *)
theory Intervals
  imports Ordered_Map
begin

text \<open>
  Lists of half-open intervals \<open>(begin, end)\<close>, the representation behind \<open>RangeSet\<close> and behind
  the free lists of the memory managers. A list is \<open>apart\<close> when its intervals are non-empty,
  in order, and no two of them touch: then it is the only such list for its set of bytes
  (\<open>apart_canonical\<close>), so two histories that free the same bytes reach the same list.
\<close>

type_synonym ivals = "(u64 \<times> u64) list"

definition bytes_of :: "ivals \<Rightarrow> nat set" where
  "bytes_of xs = (\<Union>p \<in> set xs. {fst p..<snd p})"

definition apart :: "ivals \<Rightarrow> bool" where
  "apart xs \<longleftrightarrow> sorted_wrt (\<lambda>p q. snd p < fst q) xs \<and> (\<forall>p \<in> set xs. fst p < snd p)"

lemma bytes_of_simps [simp]:
  "bytes_of [] = {}"
  "bytes_of (p # xs) = {fst p..<snd p} \<union> bytes_of xs"
  "bytes_of (xs @ ys) = bytes_of xs \<union> bytes_of ys"
  by (auto simp: bytes_of_def)

lemma bytes_of_iff: "x \<in> bytes_of xs \<longleftrightarrow> (\<exists>p \<in> set xs. fst p \<le> x \<and> x < snd p)"
  by (auto simp: bytes_of_def)

lemma finite_bytes_of [simp]: "finite (bytes_of xs)"
  by (simp add: bytes_of_def)

lemma apart_Nil [simp]: "apart []"
  by (simp add: apart_def)

lemma apart_Cons [simp]:
  "apart (p # xs) \<longleftrightarrow> fst p < snd p \<and> (\<forall>q \<in> set xs. snd p < fst q) \<and> apart xs"
  by (auto simp: apart_def)

lemma apart_append [simp]:
  "apart (xs @ ys) \<longleftrightarrow> apart xs \<and> apart ys \<and> (\<forall>p \<in> set xs. \<forall>q \<in> set ys. snd p < fst q)"
  by (auto simp: apart_def sorted_wrt_append)

lemma apart_nonempty: "apart xs \<Longrightarrow> p \<in> set xs \<Longrightarrow> fst p < snd p"
  by (simp add: apart_def)

lemma apart_omap_wf: "apart xs \<Longrightarrow> omap_wf xs"
  by (induction xs) force+

lemma apart_last:
  assumes "apart xs" and "p \<in> set xs"
  shows "snd p \<le> snd (last xs)"
proof -
  have xs: "xs = butlast xs @ [last xs]" using assms(2) by (cases xs rule: rev_cases) auto
  then have "apart (butlast xs @ [last xs])" using assms(1) by simp
  then have l: "\<forall>q \<in> set (butlast xs). snd q < fst (last xs)" "fst (last xs) < snd (last xs)"
    by (simp_all only: apart_append apart_Cons) auto
  have "p \<in> set (butlast xs) \<or> p = last xs" using assms(2) by (subst (asm) xs) auto
  with l show ?thesis by (auto simp: less_imp_le less_trans)
qed

lemma apart_gap: "apart (xs @ (b, e) # ys) \<Longrightarrow> e \<notin> bytes_of (xs @ (b, e) # ys)"
  by (force simp: bytes_of_iff)

lemma apart_ends_outside:
  assumes "apart xs" and "p \<in> set xs"
  shows "snd p \<notin> bytes_of xs"
proof -
  from split_list [OF assms(2)] obtain as bs where xs: "xs = as @ p # bs" by blast
  show ?thesis using apart_gap [of as "fst p" "snd p" bs] assms(1) xs by simp
qed

lemma apart_canonical: "apart xs \<Longrightarrow> apart ys \<Longrightarrow> bytes_of xs = bytes_of ys \<Longrightarrow> xs = ys"
proof (induction xs arbitrary: ys)
  case Nil
  then show ?case by (cases ys) auto
next
  case (Cons p xs)
  obtain q ys' where ys: "ys = q # ys'" using Cons.prems by (cases ys) auto
  have pw: "fst p < snd p" "apart xs" "\<forall>r \<in> set xs. snd p < fst r"
    and qw: "fst q < snd q" "apart ys'" "\<forall>r \<in> set ys'. snd q < fst r"
    using Cons.prems ys by auto
  have beyond_p: "x \<in> bytes_of xs \<Longrightarrow> snd p < x" and beyond_q: "x \<in> bytes_of ys' \<Longrightarrow> snd q < x" for x
    using pw(3) qw(3) by (force simp: bytes_of_iff)+
  have same: "x \<in> bytes_of (p # xs) \<longleftrightarrow> x \<in> bytes_of (q # ys')" for x
    using Cons.prems(3) ys by simp
  have "fst p = fst q"
    using same [of "fst p"] same [of "fst q"] pw(1) qw(1) beyond_p [of "fst q"] beyond_q [of "fst p"]
    by auto
  moreover have "snd p = snd q"
    using same [of "snd p"] same [of "snd q"] pw(1) qw(1) beyond_p [of "snd p"] beyond_p [of "snd q"]
      beyond_q [of "snd p"] beyond_q [of "snd q"] \<open>fst p = fst q\<close> by (auto simp: not_less)
  ultimately have "p = q" by (simp add: prod_eq_iff)
  moreover have "x \<in> bytes_of xs \<longleftrightarrow> x \<in> bytes_of ys'" for x
    using same [of x] beyond_p [of x] beyond_q [of x] \<open>p = q\<close> by auto
  then have "bytes_of xs = bytes_of ys'" by blast
  ultimately show ?case using Cons.IH pw(2) qw(2) ys by simp
qed

text \<open>An interval inside the bytes of an \<open>apart\<close> list lies inside one of its entries.\<close>

lemma apart_contains_one:
  assumes "apart xs" and "a < e" and "{a..<e} \<subseteq> bytes_of xs"
  shows "\<exists>p \<in> set xs. fst p \<le> a \<and> e \<le> snd p"
proof -
  from assms(2,3) have "a \<in> bytes_of xs" by auto
  then obtain p where p: "p \<in> set xs" "fst p \<le> a" "a < snd p" by (auto simp: bytes_of_iff)
  have "e \<le> snd p"
  proof (rule ccontr)
    assume "\<not> e \<le> snd p"
    with p(3) assms(3) have "snd p \<in> bytes_of xs" by (simp add: subset_iff)
    with apart_ends_outside [OF assms(1) p(1)] show False by simp
  qed
  with p show ?thesis by blast
qed

lemma apart_disjoint_parts: "apart (xs @ ys) \<Longrightarrow> bytes_of xs \<inter> bytes_of ys = {}"
  by (force simp: bytes_of_iff)

end
