(* ===== verification/Range_Store.thy ===== *)
theory Range_Store
  imports Intervals
begin

text \<open>
  The interface of a set of bytes kept as ranges, in two strengths. A \<open>free_store\<close> is a free list:
  ranges are put back only when they are not free and cut out only when they are. A \<open>byte_set\<close>
  takes any range in both directions, as \<open>RangeSet\<close> does. Equal bytes mean equal stores, so every
  law about bytes is a law about the stored value itself.
\<close>

definition range_ok :: "u64 \<Rightarrow> u64 \<Rightarrow> bool" where
  "range_ok a n \<longleftrightarrow> 0 < n \<and> a + n \<le> U64_MAX"

locale free_store =
  fixes inv :: "'s \<Rightarrow> bool"
    and bytes :: "'s \<Rightarrow> nat set"
    and put :: "u64 \<Rightarrow> u64 \<Rightarrow> 's \<Rightarrow> 's"
    and cut :: "u64 \<Rightarrow> u64 \<Rightarrow> 's \<Rightarrow> 's"
  assumes canonical: "inv s \<Longrightarrow> inv t \<Longrightarrow> bytes s = bytes t \<Longrightarrow> s = t"
    and finite_bytes: "inv s \<Longrightarrow> finite (bytes s)"
    and put_inv: "inv s \<Longrightarrow> range_ok a n \<Longrightarrow> bytes s \<inter> span a n = {} \<Longrightarrow> inv (put a n s)"
    and put_bytes: "inv s \<Longrightarrow> range_ok a n \<Longrightarrow> bytes s \<inter> span a n = {} \<Longrightarrow>
      bytes (put a n s) = bytes s \<union> span a n"
    and cut_inv: "inv s \<Longrightarrow> range_ok a n \<Longrightarrow> span a n \<subseteq> bytes s \<Longrightarrow> inv (cut a n s)"
    and cut_bytes: "inv s \<Longrightarrow> range_ok a n \<Longrightarrow> span a n \<subseteq> bytes s \<Longrightarrow>
      bytes (cut a n s) = bytes s - span a n"
begin

lemma put_cut:
  assumes "inv s" and "range_ok a n" and "span a n \<subseteq> bytes s"
  shows "put a n (cut a n s) = s"
proof -
  have c: "inv (cut a n s)" "bytes (cut a n s) = bytes s - span a n"
    using assms by (simp_all add: cut_inv cut_bytes)
  then have d: "bytes (cut a n s) \<inter> span a n = {}" by blast
  have "bytes (put a n (cut a n s)) = bytes s"
    using put_bytes [OF c(1) assms(2) d] c(2) assms(3) by blast
  then show ?thesis using put_inv [OF c(1) assms(2) d] assms(1) by (intro canonical)
qed

lemma cut_put:
  assumes "inv s" and "range_ok a n" and "bytes s \<inter> span a n = {}"
  shows "cut a n (put a n s) = s"
proof -
  have p: "inv (put a n s)" "bytes (put a n s) = bytes s \<union> span a n"
    using assms by (simp_all add: put_inv put_bytes)
  then have d: "span a n \<subseteq> bytes (put a n s)" by blast
  have "bytes (cut a n (put a n s)) = bytes s"
    using cut_bytes [OF p(1) assms(2) d] p(2) assms(3) by blast
  then show ?thesis using cut_inv [OF p(1) assms(2) d] assms(1) by (intro canonical)
qed

lemma put_put_commute:
  assumes "inv s" and "range_ok a n" and "range_ok b m"
    and "bytes s \<inter> span a n = {}" and "bytes s \<inter> span b m = {}" and "span a n \<inter> span b m = {}"
  shows "put a n (put b m s) = put b m (put a n s)"
proof -
  have pa: "inv (put a n s)" "bytes (put a n s) = bytes s \<union> span a n"
    and pb: "inv (put b m s)" "bytes (put b m s) = bytes s \<union> span b m"
    using assms by (simp_all add: put_inv put_bytes)
  have da: "bytes (put a n s) \<inter> span b m = {}" and db: "bytes (put b m s) \<inter> span a n = {}"
    using pa(2) pb(2) assms by blast+
  show ?thesis
    using put_inv [OF pa(1) assms(3) da] put_inv [OF pb(1) assms(2) db]
      put_bytes [OF pa(1) assms(3) da] put_bytes [OF pb(1) assms(2) db] pa(2) pb(2)
    by (intro canonical) auto
qed

lemma put_card:
  "inv s \<Longrightarrow> range_ok a n \<Longrightarrow> bytes s \<inter> span a n = {} \<Longrightarrow> card (bytes (put a n s)) = card (bytes s) + n"
  by (simp add: put_bytes card_Un_disjoint finite_bytes)

lemma cut_card:
  "inv s \<Longrightarrow> range_ok a n \<Longrightarrow> span a n \<subseteq> bytes s \<Longrightarrow> card (bytes (cut a n s)) + n = card (bytes s)"
  using card_mono [of "bytes s" "span a n"]
  by (simp add: cut_bytes card_Diff_subset finite_bytes)

end

locale byte_set = free_store +
  assumes put_inv_any: "inv s \<Longrightarrow> range_ok a n \<Longrightarrow> inv (put a n s)"
    and put_bytes_any: "inv s \<Longrightarrow> range_ok a n \<Longrightarrow> bytes (put a n s) = bytes s \<union> span a n"
    and cut_inv_any: "inv s \<Longrightarrow> range_ok a n \<Longrightarrow> inv (cut a n s)"
    and cut_bytes_any: "inv s \<Longrightarrow> range_ok a n \<Longrightarrow> bytes (cut a n s) = bytes s - span a n"
begin

lemma put_known:
  assumes "inv s" and "range_ok a n" and "span a n \<subseteq> bytes s"
  shows "put a n s = s"
  using assms put_bytes_any [of s a n] by (intro canonical put_inv_any) auto

lemma cut_absent:
  assumes "inv s" and "range_ok a n" and "bytes s \<inter> span a n = {}"
  shows "cut a n s = s"
  using assms cut_bytes_any [of s a n] by (intro canonical cut_inv_any) auto

lemma put_put_any:
  assumes "inv s" and "range_ok a n" and "range_ok b m"
  shows "put a n (put b m s) = put b m (put a n s)"
  using assms by (intro canonical) (auto simp: put_inv_any put_bytes_any)

lemma cut_of_put:
  assumes "inv s" and "range_ok a n"
  shows "cut a n (put a n s) = cut a n s"
  using assms by (intro canonical) (auto simp: put_inv_any put_bytes_any cut_inv_any cut_bytes_any)

lemma put_of_cut:
  assumes "inv s" and "range_ok a n"
  shows "put a n (cut a n s) = put a n s"
  using assms by (intro canonical) (auto simp: put_inv_any put_bytes_any cut_inv_any cut_bytes_any)

end

end
