(* ===== verification/Range_Set.thy ===== *)
theory Range_Set
  imports Range_Store
begin

text \<open>
  \<open>RangeSet\<close> of \<open>src/src/graphics/host_gpu/rangeSet.h\<close>: the byte ranges the GPU caches own,
  kept as a map from the begin of each range to its end. The abstraction is the set of bytes
  (\<open>bytes_of\<close>); the invariant is \<open>apart\<close>.
\<close>

type_synonym range_set = ivals

text \<open>\<open>RangeSet::End\<close>: the checked end of a range; the process stops on an empty or wrapping one.\<close>

definition rs_end :: "u64 \<Rightarrow> u64 \<Rightarrow> u64 option" where
  "rs_end address size' =
     (if size' = 0 \<or> size' > U64_MAX - address then None else Some (address + size'))"

text \<open>The loop of \<open>Add\<close>: ranges that begin at or before \<open>last\<close> are erased and merged.\<close>

fun absorb :: "u64 \<Rightarrow> u64 \<Rightarrow> ivals \<Rightarrow> u64 \<times> u64 \<times> ivals" where
  "absorb begin last' [] = (begin, last', [])"
| "absorb begin last' ((b, e) # it) =
     (if b \<le> last' then absorb (min begin b) (max last' e) it else (begin, last', (b, e) # it))"

definition rs_add_at :: "u64 \<Rightarrow> u64 \<Rightarrow> range_set \<Rightarrow> range_set" where
  "rs_add_at address end m =
     (let it = lower_bound address m;
          it = (if fst it \<noteq> [] \<and> snd (last (fst it)) \<ge> address then step_back it else it);
          (begin, last', rest) = absorb address end (snd it)
      in emplace begin last' (fst it @ rest))"

definition rs_add :: "u64 \<Rightarrow> u64 \<Rightarrow> range_set \<Rightarrow> range_set option" where
  "rs_add address size' m = do { end \<leftarrow> rs_end address size'; Some (rs_add_at address end m) }"

text \<open>
  The loop of \<open>Subtract\<close>. The iterator survives \<open>emplace\<close>: the left remainder goes in front of it,
  and after the right remainder the loop ends.
\<close>

fun cut_loop :: "u64 \<Rightarrow> u64 \<Rightarrow> ivals \<Rightarrow> ivals \<Rightarrow> range_set" where
  "cut_loop address end before [] = before"
| "cut_loop address end before ((b, l) # it) =
     (if b < end then
        let before' = (if b < address then emplace b address before else before)
        in if l > end then emplace end l (before' @ it) else cut_loop address end before' it
      else before @ (b, l) # it)"

definition rs_subtract_at :: "u64 \<Rightarrow> u64 \<Rightarrow> range_set \<Rightarrow> range_set" where
  "rs_subtract_at address end m =
     (let it = lower_bound address m;
          it = (if fst it \<noteq> [] \<and> snd (last (fst it)) > address then step_back it else it)
      in cut_loop address end (fst it) (snd it))"

definition rs_subtract :: "u64 \<Rightarrow> u64 \<Rightarrow> range_set \<Rightarrow> range_set option" where
  "rs_subtract address size' m = do { end \<leftarrow> rs_end address size'; Some (rs_subtract_at address end m) }"

definition rs_clear :: "range_set \<Rightarrow> range_set" where
  "rs_clear m = []"

definition rs_intersects :: "u64 \<Rightarrow> u64 \<Rightarrow> range_set \<Rightarrow> bool option" where
  "rs_intersects address size' m = do {
     end \<leftarrow> rs_end address size';
     let it = lower_bound address m;
     Some (if fst it \<noteq> [] \<and> snd (last (fst it)) > address then True
           else snd it \<noteq> [] \<and> fst (hd (snd it)) < end) }"

definition rs_contains :: "u64 \<Rightarrow> u64 \<Rightarrow> range_set \<Rightarrow> bool option" where
  "rs_contains address size' m = do {
     end \<leftarrow> rs_end address size';
     let it = upper_bound address m;
     Some (if fst it = [] then False
           else fst (last (fst it)) \<le> address \<and> snd (last (fst it)) \<ge> end) }"

text \<open>\<open>ForEachIntersection\<close> as the list of the ranges \<open>(address, size)\<close> it visits, in order.\<close>

fun intersect_loop :: "u64 \<Rightarrow> u64 \<Rightarrow> ivals \<Rightarrow> (u64 \<times> u64) list" where
  "intersect_loop address end [] = []"
| "intersect_loop address end ((b, e) # it) =
     (if b < end then
        let begin = max address b; last' = min end e
        in (if begin < last' then (begin, last' - begin) # intersect_loop address end it
            else intersect_loop address end it)
      else [])"

definition rs_intersections :: "u64 \<Rightarrow> u64 \<Rightarrow> range_set \<Rightarrow> (u64 \<times> u64) list option" where
  "rs_intersections address size' m = do {
     end \<leftarrow> rs_end address size';
     let it = upper_bound address m;
     let it = (if fst it \<noteq> [] then step_back it else it);
     Some (intersect_loop address end (snd it)) }"

definition rs_empty :: "range_set \<Rightarrow> bool" where
  "rs_empty m \<longleftrightarrow> m = []"

subsection \<open>The end of a range\<close>

lemma rs_end_Some: "rs_end a n = Some e \<longleftrightarrow> range_ok a n \<and> e = a + n"
  by (auto simp: rs_end_def range_ok_def)

lemma rs_end_ok: "range_ok a n \<Longrightarrow> rs_end a n = Some (a + n)"
  by (simp add: rs_end_Some)

lemma rs_end_None: "rs_end a n = None \<longleftrightarrow> a \<le> U64_MAX \<longrightarrow> \<not> range_ok a n" if "a \<le> U64_MAX"
  using that by (auto simp: rs_end_def range_ok_def)

lemma span_ends: "span a n = {a..<a + n}"
  by (simp add: span_def)

subsection \<open>Adding\<close>

lemma interval_union:
  "b < l \<Longrightarrow> x < y \<Longrightarrow> x \<le> l \<Longrightarrow> b \<le> y \<Longrightarrow> {b..<l} \<union> {x..<y} = {min b x..<max l (y::nat)}"
  by (auto simp: min_def max_def)

lemma absorb_correct:
  "absorb b l xs = (b', l', r) \<Longrightarrow> apart xs \<Longrightarrow> b < l \<Longrightarrow> \<forall>q \<in> set xs. b \<le> snd q \<Longrightarrow>
     {b'..<l'} \<union> bytes_of r = {b..<l} \<union> bytes_of xs \<and> b' < l' \<and> apart r \<and>
     (\<forall>q \<in> set r. l' < fst q) \<and> (b' = b \<or> b' \<in> fst ` set xs)"
proof (induction b l xs arbitrary: b' l' r rule: absorb.induct)
  case (2 b l x y it)
  show ?case
  proof (cases "x \<le> l")
    case True
    from "2.prems" have xy: "x < y" "b \<le> y" "b < l" by auto
    have IH: "{b'..<l'} \<union> bytes_of r = {min b x..<max l y} \<union> bytes_of it \<and> b' < l' \<and> apart r \<and>
       (\<forall>q \<in> set r. l' < fst q) \<and> (b' = min b x \<or> b' \<in> fst ` set it)"
      using True "2.prems" by (intro "2.IH") (auto simp: min_def max_def)
    have "{b..<l} \<union> bytes_of ((x, y) # it) = {min b x..<max l y} \<union> bytes_of it"
      using interval_union [of b l x y] xy True by auto
    with IH show ?thesis by (auto simp: min_def split: if_splits)
  next
    case False
    with "2.prems" show ?thesis by fastforce
  qed
qed auto

text \<open>
  The position from which \<open>Add\<close> and \<open>Subtract\<close> work: what lies before the iterator ends below
  the range, what follows ends at or beyond its begin.
\<close>

lemma seek_apart:
  assumes "apart m" and "lower_bound a m = (bs, fs)"
    and "it = (if bs \<noteq> [] \<and> Q (snd (last bs)) then step_back (bs, fs) else (bs, fs))"
    and "\<And>x. Q x \<Longrightarrow> a \<le> x" and "\<And>x y. x < y \<Longrightarrow> \<not> Q y \<Longrightarrow> \<not> Q x"
  shows "m = fst it @ snd it" and "\<forall>p \<in> set (fst it). \<not> Q (snd p)"
    and "\<forall>q \<in> set (snd it). a < snd q \<or> Q (snd q)"
proof -
  note lb = lower_boundD [OF assms(2) apart_omap_wf [OF assms(1)]]
  show m: "m = fst it @ snd it"
    using assms(3) lb(1) by (auto simp: step_back_def)
  show "\<forall>q \<in> set (snd it). a < snd q \<or> Q (snd q)"
  proof
    fix q assume q: "q \<in> set (snd it)"
    then have "fst q < snd q" using m assms(1) by (auto intro: apart_nonempty)
    moreover have "a \<le> fst q \<or> Q (snd q)"
      using q assms(3) lb(3) by (auto simp: step_back_def split: if_splits)
    ultimately show "a < snd q \<or> Q (snd q)" by auto
  qed
  show "\<forall>p \<in> set (fst it). \<not> Q (snd p)"
  proof
    fix p assume p: "p \<in> set (fst it)"
    show "\<not> Q (snd p)"
    proof (cases "bs \<noteq> [] \<and> Q (snd (last bs))")
      case True
      then have it: "it = (butlast bs, last bs # fs)" using assms(3) by (simp add: step_back_def)
      then have "snd p < fst (last bs)" using m p assms(1) by auto
      moreover have "fst (last bs) < a" using lb(2) True by simp
      ultimately show ?thesis using assms(4) by fastforce
    next
      case False
      then have "fst it = bs" and "\<not> Q (snd (last bs))" using assms(3) p by auto
      moreover from this have "snd p \<le> snd (last bs)"
        using p assms(1) lb(1) by (auto intro: apart_last)
      ultimately show ?thesis using assms(5) by (auto simp: le_less)
    qed
  qed
qed

lemma rs_add_at_correct:
  assumes "apart m" and "a < e"
  shows "apart (rs_add_at a e m)" and "bytes_of (rs_add_at a e m) = bytes_of m \<union> {a..<e}"
proof -
  obtain bs fs where lb: "lower_bound a m = (bs, fs)" by fastforce
  define it where "it = (if bs \<noteq> [] \<and> snd (last bs) \<ge> a then step_back (bs, fs) else (bs, fs))"
  obtain b l r where ab: "absorb a e (snd it) = (b, l, r)" by (metis prod_cases3)
  have m: "m = fst it @ snd it" and before: "\<forall>p \<in> set (fst it). snd p < a"
    and after: "\<forall>q \<in> set (snd it). a \<le> snd q"
    using seek_apart [OF assms(1) lb, where Q = "\<lambda>x. a \<le> x", OF it_def] by auto
  have parts: "apart (fst it)" "apart (snd it)" "\<forall>p \<in> set (fst it). \<forall>q \<in> set (snd it). snd p < fst q"
    using assms(1) m by (metis apart_append)+
  from absorb_correct [OF ab parts(2) assms(2) after]
  have u: "{b..<l} \<union> bytes_of r = {a..<e} \<union> bytes_of (snd it)" and bl: "b < l" "apart r"
    "\<forall>q \<in> set r. l < fst q" and b: "b = a \<or> b \<in> fst ` set (snd it)" by auto
  have left: "\<forall>p \<in> set (fst it). snd p < b" using before b parts(3) by auto
  have keys: "\<forall>p \<in> set (fst it). fst p < b" "\<forall>q \<in> set r. b < fst q"
    using left bl parts(1) by (fastforce dest: apart_nonempty)+
  have eq: "rs_add_at a e m = fst it @ (b, l) # r"
    using lb ab emplace_middle [OF keys, of l] by (simp add: rs_add_at_def it_def [symmetric])
  show "apart (rs_add_at a e m)"
    unfolding eq using parts(1) bl left by fastforce
  have "bytes_of m = bytes_of (fst it) \<union> bytes_of (snd it)" by (subst m) simp
  then show "bytes_of (rs_add_at a e m) = bytes_of m \<union> {a..<e}"
    unfolding eq using u by auto
qed

subsection \<open>Subtracting\<close>

lemma cut_loop_correct:
  "apart (before @ it) \<Longrightarrow> \<forall>p \<in> set before. snd p \<le> a \<Longrightarrow> \<forall>q \<in> set it. a < snd q \<Longrightarrow> a < e \<Longrightarrow>
     apart (cut_loop a e before it) \<and>
     bytes_of (cut_loop a e before it) = bytes_of (before @ it) - {a..<e}"
proof (induction a e before it rule: cut_loop.induct)
  case (1 a e before)
  then show ?case by (force simp: bytes_of_iff)
next
  case (2 a e before b l it)
  define before' where "before' = (if b < a then emplace b a before else before)"
  have bl: "b < l" "\<forall>q \<in> set it. l < fst q" "apart it" "apart before" "a < l"
    "\<forall>p \<in> set before. snd p < b" "\<forall>p \<in> set before. \<forall>q \<in> set it. snd p < fst q"
    using "2.prems" by auto
  have keys: "\<forall>p \<in> set before. fst p < b" using bl by (fastforce dest: apart_nonempty)
  then have before': "before' = (if b < a then before @ [(b, a)] else before)"
    by (simp add: before'_def emplace_last)
  have below: "\<forall>p \<in> set before. snd p < l" using bl by auto
  have le: "\<forall>p \<in> set before'. snd p \<le> a" using "2.prems"(2) unfolding before' by auto
  have ap: "apart (before' @ it)" using bl unfolding before' by auto
  have lt: "\<forall>p \<in> set before'. fst p < e \<and> snd p < e"
  proof
    fix p assume p: "p \<in> set before'"
    then have "snd p < e" using le "2.prems"(4) by fastforce
    moreover have "fst p < snd p" using p ap by (auto intro: apart_nonempty)
    ultimately show "fst p < e \<and> snd p < e" by simp
  qed
  have kept: "bytes_of before' - {a..<e} = bytes_of before'" using le by (force simp: bytes_of_iff)
  have cut: "{b..<l} - {a..<e} = {b..<min a l} \<union> {max b e..<l}" if "b < e" using that "2.prems" by auto
  consider "\<not> b < e" | "b < e" "l > e" | "b < e" "\<not> l > e" by blast
  then show ?case
  proof cases
    case 1
    have "bytes_of before \<inter> {a..<e} = {}" using "2.prems" by (force simp: bytes_of_iff)
    moreover have "bytes_of ((b, l) # it) \<inter> {a..<e} = {}" using 1 bl by (force simp: bytes_of_iff)
    ultimately show ?thesis using 1 "2.prems" by auto
  next
    case 2
    have it_out: "bytes_of it \<inter> {a..<e} = {}" using 2 bl by (force simp: bytes_of_iff)
    have "\<forall>q \<in> set it. e < fst q" using 2 bl by auto
    then have eq: "cut_loop a e before ((b, l) # it) = before' @ (e, l) # it"
      using 2 lt emplace_middle [of before' e it l] by (simp add: before'_def [symmetric])
    show ?thesis
    proof
      show "apart (cut_loop a e before ((b, l) # it))"
        unfolding eq using ap bl lt 2 by auto
      have "bytes_of (before' @ (e, l) # it) = (bytes_of before \<union> {b..<l} \<union> bytes_of it) - {a..<e}"
        using kept it_out 2 bl(5) "2.prems"(2,4) unfolding before' by (auto simp: bytes_of_iff)
      then show "bytes_of (cut_loop a e before ((b, l) # it)) = bytes_of (before @ (b, l) # it) - {a..<e}"
        unfolding eq by auto
    qed
  next
    case 3
    have IH: "apart (cut_loop a e before' it) \<and>
       bytes_of (cut_loop a e before' it) = bytes_of (before' @ it) - {a..<e}"
      using 3 ap le "2.prems" "2.IH" [OF _ before'_def] by auto
    have "bytes_of (before' @ it) - {a..<e} = bytes_of (before @ (b, l) # it) - {a..<e}"
      using 3 bl unfolding before' by auto
    with IH 3 show ?thesis by (simp add: before'_def [symmetric])
  qed
qed

lemma rs_subtract_at_correct:
  assumes "apart m" and "a < e"
  shows "apart (rs_subtract_at a e m)" and "bytes_of (rs_subtract_at a e m) = bytes_of m - {a..<e}"
proof -
  obtain bs fs where lb: "lower_bound a m = (bs, fs)" by fastforce
  define it where "it = (if bs \<noteq> [] \<and> snd (last bs) > a then step_back (bs, fs) else (bs, fs))"
  have m: "m = fst it @ snd it" and before: "\<forall>p \<in> set (fst it). snd p \<le> a"
    and after: "\<forall>q \<in> set (snd it). a < snd q"
    using seek_apart [OF assms(1) lb, where Q = "\<lambda>x. a < x", OF it_def] by auto
  have "rs_subtract_at a e m = cut_loop a e (fst it) (snd it)"
    using lb by (simp add: rs_subtract_at_def it_def Let_def)
  with cut_loop_correct [of "fst it" "snd it" a e] before after assms m
  show "apart (rs_subtract_at a e m)" and "bytes_of (rs_subtract_at a e m) = bytes_of m - {a..<e}"
    by auto
qed

subsection \<open>Queries\<close>

lemma rs_intersects_correct:
  assumes "apart m" and "range_ok a n"
  shows "rs_intersects a n m = Some (bytes_of m \<inter> span a n \<noteq> {})"
proof -
  obtain bs fs where lb: "lower_bound a m = (bs, fs)" by fastforce
  note lbD = lower_boundD [OF lb apart_omap_wf [OF assms(1)]]
  have m: "m = bs @ fs" and ap: "apart bs" "apart fs" using lbD(1) assms(1) by auto
  have n: "0 < n" using assms(2) by (simp add: range_ok_def)
  have "(if bs \<noteq> [] \<and> snd (last bs) > a then True else fs \<noteq> [] \<and> fst (hd fs) < a + n) \<longleftrightarrow>
    bytes_of m \<inter> span a n \<noteq> {}"
  proof (cases "bs \<noteq> [] \<and> snd (last bs) > a")
    case True
    then have "a \<in> bytes_of m"
      using lbD(2) m by (auto simp: bytes_of_iff intro!: bexI [of _ "last bs"] less_imp_le)
    moreover have "a \<in> span a n" using n by (simp add: span_iff)
    ultimately show ?thesis using True by auto
  next
    case False
    have left: "bytes_of bs \<inter> span a n = {}"
    proof -
      have "snd p \<le> a" if "p \<in> set bs" for p
        using that False apart_last [OF ap(1) that] by auto
      then show ?thesis by (force simp: bytes_of_iff span_iff)
    qed
    have "fs \<noteq> [] \<and> fst (hd fs) < a + n \<longleftrightarrow> bytes_of fs \<inter> span a n \<noteq> {}"
    proof
      assume h: "fs \<noteq> [] \<and> fst (hd fs) < a + n"
      then obtain q r where fs: "fs = q # r" by (cases fs) auto
      then have "fst q \<in> bytes_of fs" and "fst q \<in> span a n"
        using h ap(2) lbD(3) by (auto simp: span_iff)
      then show "bytes_of fs \<inter> span a n \<noteq> {}" by blast
    next
      assume "bytes_of fs \<inter> span a n \<noteq> {}"
      then obtain x q where q: "q \<in> set fs" "fst q \<le> x" "x < a + n"
        by (auto simp: bytes_of_iff span_iff)
      then obtain h r where fs: "fs = h # r" by (cases fs) auto
      have "fst h \<le> fst q" using fs q(1) ap(2) by fastforce
      then show "fs \<noteq> [] \<and> fst (hd fs) < a + n" using fs q by simp
    qed
    with False left m show ?thesis by auto
  qed
  then show ?thesis
    by (simp only: rs_intersects_def rs_end_ok [OF assms(2)] bind.bind_lunit Let_def lb fst_conv snd_conv)
qed

lemma rs_contains_correct:
  assumes "apart m" and "range_ok a n"
  shows "rs_contains a n m = Some (span a n \<subseteq> bytes_of m)"
proof -
  obtain bs fs where ub: "upper_bound a m = (bs, fs)" by fastforce
  note ubD = upper_boundD [OF ub apart_omap_wf [OF assms(1)]]
  have m: "m = bs @ fs" and ap: "apart bs" using ubD(1) assms(1) by auto
  have n: "a < a + n" using assms(2) by (simp add: range_ok_def)
  have "bs \<noteq> [] \<and> fst (last bs) \<le> a \<and> snd (last bs) \<ge> a + n \<longleftrightarrow> span a n \<subseteq> bytes_of m"
  proof
    assume "bs \<noteq> [] \<and> fst (last bs) \<le> a \<and> snd (last bs) \<ge> a + n"
    then show "span a n \<subseteq> bytes_of m"
      using m by (auto simp: span_iff bytes_of_iff intro!: bexI [of _ "last bs"])
  next
    assume "span a n \<subseteq> bytes_of m"
    then obtain p where p: "p \<in> set m" "fst p \<le> a" "a + n \<le> snd p"
      using apart_contains_one [OF assms(1) n] by (auto simp: span_ends)
    then have "p \<in> set bs" using m ubD(3) by auto
    then have "bs \<noteq> []" and "snd p \<le> snd (last bs)" using apart_last [OF ap] by auto
    with p ubD(2) show "bs \<noteq> [] \<and> fst (last bs) \<le> a \<and> snd (last bs) \<ge> a + n" by auto
  qed
  then show ?thesis using ub assms(2) by (simp add: rs_contains_def rs_end_ok Let_def) blast
qed

lemma intersect_loop_correct:
  "apart it \<Longrightarrow> (\<Union>r \<in> set (intersect_loop a e it). span (fst r) (snd r)) = bytes_of it \<inter> {a..<e}"
proof (induction a e it rule: intersect_loop.induct)
  case (2 a e b l it)
  have IH: "b < e \<Longrightarrow> (\<Union>r \<in> set (intersect_loop a e it). span (fst r) (snd r)) = bytes_of it \<inter> {a..<e}"
    using 2 by (cases "max a b < min e l") auto
  show ?case
  proof (cases "b < e")
    case True
    have "span (max a b) (min e l - max a b) = {b..<l} \<inter> {a..<e}" if "max a b < min e l"
      using that by (auto simp: span_def)
    moreover have "{b..<l} \<inter> {a..<e} = {}" if "\<not> max a b < min e l" using that by auto
    ultimately show ?thesis using True IH by (auto simp: Let_def)
  next
    case False
    then have "bytes_of ((b, l) # it) \<inter> {a..<e} = {}" using 2 by (force simp: bytes_of_iff)
    with False show ?thesis by simp
  qed
qed simp

lemma rs_intersections_correct:
  assumes "apart m" and "range_ok a n"
  shows "\<exists>rs. rs_intersections a n m = Some rs \<and>
    (\<Union>r \<in> set rs. span (fst r) (snd r)) = bytes_of m \<inter> span a n"
proof -
  obtain bs fs where ub: "upper_bound a m = (bs, fs)" by fastforce
  define it where "it = (if bs \<noteq> [] then step_back (bs, fs) else (bs, fs))"
  note ubD = upper_boundD [OF ub apart_omap_wf [OF assms(1)]]
  have m: "m = fst it @ snd it" using ubD(1) by (simp add: it_def step_back_def)
  have ap: "apart (snd it)" "apart (fst it @ snd it)" using m assms(1) by auto
  have "snd p \<le> a" if "p \<in> set (fst it)" for p
  proof -
    from that have bs: "bs \<noteq> []" "p \<in> set (butlast bs)" "snd it = last bs # fs"
      by (auto simp: it_def step_back_def split: if_splits)
    then have "snd p < fst (last bs)" using that ap(2) by auto
    moreover have "fst (last bs) \<le> a" using ubD(2) bs(1) by simp
    ultimately show ?thesis by simp
  qed
  then have "bytes_of (fst it) \<inter> span a n = {}" by (force simp: bytes_of_iff span_iff)
  moreover have "bytes_of m = bytes_of (fst it) \<union> bytes_of (snd it)" by (subst m) simp
  ultimately show ?thesis
    using ub assms(2) intersect_loop_correct [OF ap(1), of a "a + n"]
    by (auto simp: rs_intersections_def rs_end_ok it_def span_ends Let_def)
qed

subsection \<open>The interface\<close>

interpretation rs: byte_set apart bytes_of "\<lambda>a n. rs_add_at a (a + n)" "\<lambda>a n. rs_subtract_at a (a + n)"
  by unfold_locales
    (auto simp: range_ok_def span_ends rs_add_at_correct rs_subtract_at_correct apart_canonical)

lemma rs_add_ok: "range_ok a n \<Longrightarrow> rs_add a n m = Some (rs_add_at a (a + n) m)"
  by (simp add: rs_add_def rs_end_ok)

lemma rs_subtract_ok: "range_ok a n \<Longrightarrow> rs_subtract a n m = Some (rs_subtract_at a (a + n) m)"
  by (simp add: rs_subtract_def rs_end_ok)

subsection \<open>Scripts of calls\<close>

datatype rs_op = Add u64 u64 | Subtract u64 u64 | Clear

fun rs_run :: "rs_op list \<Rightarrow> range_set \<Rightarrow> range_set option" where
  "rs_run [] m = Some m"
| "rs_run (Add a n # ops) m = do { m' \<leftarrow> rs_add a n m; rs_run ops m' }"
| "rs_run (Subtract a n # ops) m = do { m' \<leftarrow> rs_subtract a n m; rs_run ops m' }"
| "rs_run (Clear # ops) m = rs_run ops (rs_clear m)"

fun owned_bytes :: "rs_op list \<Rightarrow> nat set \<Rightarrow> nat set" where
  "owned_bytes [] B = B"
| "owned_bytes (Add a n # ops) B = owned_bytes ops (B \<union> span a n)"
| "owned_bytes (Subtract a n # ops) B = owned_bytes ops (B - span a n)"
| "owned_bytes (Clear # ops) B = owned_bytes ops {}"

lemma rs_run_correct:
  "rs_run ops m = Some m' \<Longrightarrow> apart m \<Longrightarrow> apart m' \<and> bytes_of m' = owned_bytes ops (bytes_of m)"
proof (induction ops m arbitrary: m' rule: rs_run.induct)
  case (2 a n ops m)
  then obtain m1 where m1: "rs_add a n m = Some m1" "rs_run ops m1 = Some m'"
    by (auto split: bind_splits)
  then have "range_ok a n" and "m1 = rs_add_at a (a + n) m"
    by (auto simp: rs_add_def rs_end_Some split: bind_splits)
  then have "apart m1" and "bytes_of m1 = bytes_of m \<union> span a n"
    using rs.put_inv_any rs.put_bytes_any "2.prems"(2) by auto
  with "2.IH" [OF m1] show ?case by simp
next
  case (3 a n ops m)
  then obtain m1 where m1: "rs_subtract a n m = Some m1" "rs_run ops m1 = Some m'"
    by (auto split: bind_splits)
  then have "range_ok a n" and "m1 = rs_subtract_at a (a + n) m"
    by (auto simp: rs_subtract_def rs_end_Some split: bind_splits)
  then have "apart m1" and "bytes_of m1 = bytes_of m - span a n"
    using rs.cut_inv_any rs.cut_bytes_any "3.prems"(2) by auto
  with "3.IH" [OF m1] show ?case by simp
qed (auto simp: rs_clear_def)

text \<open>C25: after any script of \<open>Add\<close>, \<open>Subtract\<close> and \<open>Clear\<close> calls on an empty \<open>RangeSet\<close> that does
  not stop the process, the map holds exactly the bytes the script owns, in non-empty ranges that
  are in order and never touch; two scripts that own the same bytes leave the same map.\<close>

theorem range_set_script_canonical:
  assumes "rs_run ops [] = Some m" and "rs_run ops' [] = Some m'"
  shows "apart m \<and> bytes_of m = owned_bytes ops {} \<and>
    (owned_bytes ops {} = owned_bytes ops' {} \<longleftrightarrow> m = m')"
  using rs_run_correct [OF assms(1)] rs_run_correct [OF assms(2)] apart_canonical [of m m'] by auto

theorem range_set_script_canonical_witness:
  "apart [(4096, 12288)] \<and> bytes_of [(4096, 12288)] = owned_bytes [Add 4096 4096, Add 8192 4096] {} \<and>
   (owned_bytes [Add 4096 4096, Add 8192 4096] {} = owned_bytes [Add 8192 4096, Add 4096 8192] {} \<longleftrightarrow>
    [(4096 :: nat, 12288 :: nat)] = [(4096, 12288)])"
  by (rule range_set_script_canonical)
    (simp_all add: rs_add_def rs_add_at_def rs_end_def U64_MAX_def lower_bound_def lower_bound_by_def
      step_back_def)

text \<open>the queries of a well-formed \<open>RangeSet\<close> are exact: \<open>Contains\<close> says whether every byte of
  the range is owned, \<open>Intersects\<close> whether some byte is, and \<open>Intersections\<close> returns ranges whose
  bytes are the owned bytes of the range.\<close>

theorem range_set_queries_exact:
  assumes "rs_run ops [] = Some m" and "range_ok a n"
  shows "rs_contains a n m = Some (span a n \<subseteq> owned_bytes ops {}) \<and>
    rs_intersects a n m = Some (owned_bytes ops {} \<inter> span a n \<noteq> {}) \<and>
    (\<exists>rs. rs_intersections a n m = Some rs \<and>
      (\<Union>r \<in> set rs. span (fst r) (snd r)) = owned_bytes ops {} \<inter> span a n)"
proof -
  have m: "apart m" "bytes_of m = owned_bytes ops {}" using rs_run_correct [OF assms(1)] by auto
  show ?thesis
    using rs_contains_correct [OF m(1) assms(2)] rs_intersects_correct [OF m(1) assms(2)]
      rs_intersections_correct [OF m(1) assms(2)] m(2) by simp
qed

theorem range_set_queries_exact_witness:
  "rs_run [Add 4096 4096, Add 16384 100] [] = Some [(4096, 8192), (16384, 16484)] \<and>
   range_ok 8000 8400 \<and>
   rs_contains 8000 8400 [(4096, 8192), (16384, 16484)] =
     Some (span 8000 8400 \<subseteq> owned_bytes [Add 4096 4096, Add 16384 100] {})"
proof -
  have r: "rs_run [Add 4096 4096, Add 16384 100] [] = Some [(4096, 8192), (16384, 16484)]"
    by (simp add: rs_add_def rs_add_at_def rs_end_def U64_MAX_def lower_bound_def lower_bound_by_def
        step_back_def)
  have k: "range_ok 8000 8400" by (simp add: range_ok_def U64_MAX_def)
  from range_set_queries_exact [OF r k] r k show ?thesis by blast
qed

end
