(* ===== verification/Free_List.thy ===== *)
theory Free_List
  imports Range_Set
begin

text \<open>
  The free lists of the memory managers of \<open>src/src/kernel/memory.cpp\<close>: a map from the begin of a
  free range to its size. \<open>PhysicalMemory\<close> and \<open>FlexibleMemory\<close> carry the same two routines,
  \<open>AddFreeRange\<close> and \<open>ConsumeFreeRange\<close>. Read as intervals, \<open>AddFreeRange\<close> computes what
  \<open>RangeSet::Add\<close> computes, which gives it its correctness.
\<close>

type_synonym free_list = "u64 omap"

subsection \<open>The code\<close>

text \<open>The loop of \<open>AddFreeRange\<close>: every following range that begins at or before \<open>end\<close> is erased.\<close>

fun free_absorb :: "u64 \<Rightarrow> free_list \<Rightarrow> u64 \<times> free_list" where
  "free_absorb end [] = (end, [])"
| "free_absorb end ((s, n) # next) =
     (if s \<le> end then free_absorb (max end (add64 s n)) next else (end, (s, n) # next))"

definition add_free_range :: "u64 \<Rightarrow> u64 \<Rightarrow> free_list \<Rightarrow> free_list" where
  "add_free_range start size' m =
     (let end = add64 start size';
          (before, next) = lower_bound start m;
          previous = last before;
          previous_end = add64 (fst previous) (snd previous);
          (start, end, before) =
            (if before \<noteq> [] \<and> previous_end \<ge> start
             then (fst previous, max end previous_end, butlast before)
             else (start, end, before));
          (end, next) = free_absorb end next
      in emplace start (sub64 end start) (before @ next))"

definition consume_free_range :: "u64 \<times> u64 \<Rightarrow> u64 \<Rightarrow> u64 \<Rightarrow> free_list \<Rightarrow> free_list" where
  "consume_free_range rng start size' m =
     (let range_start = fst rng;
          range_end = add64 (fst rng) (snd rng);
          m = erase_key range_start m;
          m = (if range_start < start then emplace range_start (sub64 start range_start) m else m)
      in (if add64 start size' < range_end
          then emplace (add64 start size') (sub64 (sub64 range_end start) size') m
          else m))"

text \<open>
  The lookup in front of a \<open>ConsumeFreeRange\<close> that does not come from a search: the range that
  begins last at or before the wanted one.
\<close>

definition free_range_at :: "u64 \<Rightarrow> free_list \<Rightarrow> (u64 \<times> u64) option" where
  "free_range_at start m =
     (let it = upper_bound start m in if fst it = [] then None else Some (last (fst it)))"

definition consume_at :: "u64 \<Rightarrow> u64 \<Rightarrow> free_list \<Rightarrow> free_list" where
  "consume_at start size' m =
     (case free_range_at start m of None \<Rightarrow> m | Some rng \<Rightarrow> consume_free_range rng start size' m)"

subsection \<open>Free lists as intervals\<close>

definition ivals_of :: "free_list \<Rightarrow> ivals" where
  "ivals_of m = map (\<lambda>r. (fst r, fst r + snd r)) m"

definition free_bytes :: "free_list \<Rightarrow> nat set" where
  "free_bytes m = bytes_of (ivals_of m)"

definition free_inv :: "free_list \<Rightarrow> bool" where
  "free_inv m \<longleftrightarrow> apart (ivals_of m) \<and> (\<forall>r \<in> set m. fst r + snd r \<le> U64_MAX)"

lemma ivals_of_simps [simp]:
  "ivals_of [] = []"
  "ivals_of (r # m) = (fst r, fst r + snd r) # ivals_of m"
  "ivals_of (m @ m') = ivals_of m @ ivals_of m'"
  by (simp_all add: ivals_of_def)

lemma ivals_of_empty_iff [simp]: "ivals_of m = [] \<longleftrightarrow> m = []"
  by (simp add: ivals_of_def)

lemma set_ivals_of: "set (ivals_of m) = (\<lambda>r. (fst r, fst r + snd r)) ` set m"
  by (simp add: ivals_of_def)

lemma last_ivals_of: "m \<noteq> [] \<Longrightarrow> last (ivals_of m) = (fst (last m), fst (last m) + snd (last m))"
  by (simp add: ivals_of_def last_map)

lemma butlast_ivals_of: "butlast (ivals_of m) = ivals_of (butlast m)"
  by (simp add: ivals_of_def map_butlast)

lemma ivals_of_inj: "ivals_of m = ivals_of m' \<Longrightarrow> m = m'"
  unfolding ivals_of_def by (erule map_injective) (auto simp: inj_def prod_eq_iff)

lemma free_bytes_iff: "x \<in> free_bytes m \<longleftrightarrow> (\<exists>r \<in> set m. x \<in> span (fst r) (snd r))"
  by (auto simp: free_bytes_def bytes_of_iff set_ivals_of span_iff)

lemma free_bytes_simps [simp]:
  "free_bytes [] = {}"
  "free_bytes (r # m) = span (fst r) (snd r) \<union> free_bytes m"
  "free_bytes (m @ m') = free_bytes m \<union> free_bytes m'"
  by (auto simp: free_bytes_def span_ends)

lemma free_inv_omap_wf: "free_inv m \<Longrightarrow> omap_wf m"
proof -
  assume "free_inv m"
  then have "omap_wf (ivals_of m)" by (simp add: free_inv_def apart_omap_wf)
  then show ?thesis by (simp add: omap_wf_def ivals_of_def sorted_wrt_map)
qed

lemma free_inv_canonical: "free_inv m \<Longrightarrow> free_inv m' \<Longrightarrow> free_bytes m = free_bytes m' \<Longrightarrow> m = m'"
  by (rule ivals_of_inj) (simp add: free_inv_def free_bytes_def apart_canonical)

lemma free_inv_range: "free_inv m \<Longrightarrow> r \<in> set m \<Longrightarrow> range_ok (fst r) (snd r)"
  by (force simp: free_inv_def range_ok_def set_ivals_of dest: apart_nonempty)

lemma finite_free_bytes [simp]: "finite (free_bytes m)"
  by (simp add: free_bytes_def)

lemma free_bytes_bound: "free_inv m \<Longrightarrow> x \<in> free_bytes m \<Longrightarrow> x < U64_MAX"
  by (force simp: free_bytes_iff free_inv_def span_iff)

lemma free_contains_one:
  assumes "free_inv m" and "0 < n" and "span a n \<subseteq> free_bytes m"
  shows "\<exists>r \<in> set m. fst r \<le> a \<and> a + n \<le> fst r + snd r"
  using apart_contains_one [of "ivals_of m" a "a + n"] assms
  by (auto simp: free_inv_def free_bytes_def span_ends set_ivals_of)

subsection \<open>\<open>AddFreeRange\<close> is \<open>RangeSet::Add\<close>\<close>

lemma lower_bound_ivals:
  "lower_bound k m = (bs, fs) \<Longrightarrow> lower_bound k (ivals_of m) = (ivals_of bs, ivals_of fs)"
  by (auto simp: lower_bound_def lower_bound_by_def ivals_of_def takeWhile_map dropWhile_map comp_def)

lemma emplace_ivals: "ivals_of (emplace k v m) = emplace k (k + v) (ivals_of m)"
  by (induction k v m rule: emplace.induct) auto

lemma free_absorb_ivals:
  "\<forall>r \<in> set m. b \<le> fst r \<and> fst r + snd r \<le> U64_MAX \<Longrightarrow>
     absorb b e (ivals_of m) = (b, fst (free_absorb e m), ivals_of (snd (free_absorb e m)))"
  by (induction e m rule: free_absorb.induct) (auto simp: add64_le min_def)

lemma free_absorb_bound:
  "e \<le> U64_MAX \<Longrightarrow> e \<le> fst (free_absorb e m) \<and> fst (free_absorb e m) \<le> U64_MAX \<and>
     set (snd (free_absorb e m)) \<subseteq> set m"
  by (induction e m rule: free_absorb.induct) (force simp: add64_bound)+

lemma add_free_range_ivals:
  assumes inv: "free_inv m" and ok: "range_ok a n"
  shows "ivals_of (add_free_range a n m) = rs_add_at a (a + n) (ivals_of m)"
    and "\<forall>r \<in> set (add_free_range a n m). fst r + snd r \<le> U64_MAX"
proof -
  obtain bs fs where lb: "lower_bound a m = (bs, fs)" by fastforce
  note lbD = lower_boundD [OF lb free_inv_omap_wf [OF inv]]
  have an: "add64 a n = a + n" "0 < n" "a + n \<le> U64_MAX" using ok by (simp_all add: range_ok_def u64_simps)
  have bnd: "fst r + snd r \<le> U64_MAX" if "r \<in> set bs \<or> r \<in> set fs" for r
    using that inv lbD(1) by (auto simp: free_inv_def)
  define p where "p = last bs"
  define merge where "merge \<longleftrightarrow> bs \<noteq> [] \<and> fst p + snd p \<ge> a"
  define s where "s = (if merge then fst p else a)"
  define e where "e = (if merge then max (a + n) (fst p + snd p) else a + n)"
  define bs' where "bs' = (if merge then butlast bs else bs)"
  have p: "bs \<noteq> [] \<Longrightarrow> fst p + snd p \<le> U64_MAX \<and> fst p < a" using bnd lbD(2) by (simp add: p_def)
  have se: "s \<le> e" "e \<le> U64_MAX" using an p by (auto simp: s_def e_def merge_def)
  have after: "\<forall>r \<in> set fs. s \<le> fst r \<and> fst r + snd r \<le> U64_MAX"
  proof
    fix r assume r: "r \<in> set fs"
    moreover have "s \<le> a" using p by (auto simp: s_def merge_def)
    ultimately show "s \<le> fst r \<and> fst r + snd r \<le> U64_MAX" using lbD(3) bnd by fastforce
  qed
  note fa = free_absorb_bound [OF se(2), of fs]
  have m': "add_free_range a n m = emplace s (fst (free_absorb e fs) - s) (bs' @ snd (free_absorb e fs))"
  proof -
    have "sub64 (fst (free_absorb e fs)) s = fst (free_absorb e fs) - s"
      using fa se by (intro sub64_le) auto
    then show ?thesis
      using lb an p by (auto simp: add_free_range_def Let_def p_def [symmetric] s_def e_def bs'_def
          merge_def add64_le split: prod.splits)
  qed
  have "rs_add_at a (a + n) (ivals_of m) =
    emplace s (fst (free_absorb e fs)) (ivals_of bs' @ ivals_of (snd (free_absorb e fs)))"
  proof (cases merge)
    case True
    then have bs: "bs \<noteq> []" by (simp add: merge_def)
    have "absorb a (a + n) ((fst p, fst p + snd p) # ivals_of fs) = absorb s e (ivals_of fs)"
      using True p [OF bs] an by (simp add: s_def e_def min_def)
    also have "\<dots> = (s, fst (free_absorb e fs), ivals_of (snd (free_absorb e fs)))"
      by (rule free_absorb_ivals [OF after])
    finally show ?thesis
      using True bs lower_bound_ivals [OF lb]
      by (simp add: rs_add_at_def merge_def p_def last_ivals_of butlast_ivals_of bs'_def step_back_def)
  next
    case False
    then have "absorb a (a + n) (ivals_of fs) = (s, fst (free_absorb e fs), ivals_of (snd (free_absorb e fs)))"
      using free_absorb_ivals [OF after] by (simp add: s_def e_def)
    then show ?thesis
      using False lower_bound_ivals [OF lb]
      by (cases "bs = []") (auto simp: rs_add_at_def Let_def merge_def p_def last_ivals_of bs'_def)
  qed
  moreover have "s + (fst (free_absorb e fs) - s) = fst (free_absorb e fs)" using fa se by simp
  ultimately show "ivals_of (add_free_range a n m) = rs_add_at a (a + n) (ivals_of m)"
    by (simp add: m' emplace_ivals)
  show "\<forall>r \<in> set (add_free_range a n m). fst r + snd r \<le> U64_MAX"
  proof
    fix r assume "r \<in> set (add_free_range a n m)"
    then have "r = (s, fst (free_absorb e fs) - s) \<or> r \<in> set bs' \<or> r \<in> set (snd (free_absorb e fs))"
      unfolding m' using emplace_subset by fastforce
    then show "fst r + snd r \<le> U64_MAX"
      using fa se bnd by (auto simp: bs'_def dest: in_set_butlastD split: if_splits)
  qed
qed

lemma add_free_range_correct:
  assumes "free_inv m" and "range_ok a n"
  shows "free_inv (add_free_range a n m)" and "free_bytes (add_free_range a n m) = free_bytes m \<union> span a n"
  using add_free_range_ivals [OF assms] assms rs_add_at_correct [of "ivals_of m" a "a + n"]
  by (auto simp: free_inv_def free_bytes_def range_ok_def span_ends)

subsection \<open>\<open>ConsumeFreeRange\<close>\<close>

lemma consume_free_range_split:
  assumes inv: "free_inv m" and m: "m = bs @ r # fs" and "0 < n"
    and a: "fst r \<le> a" "a + n \<le> fst r + snd r"
  shows "consume_free_range r a n m = bs @ (if fst r < a then [(fst r, a - fst r)] else []) @
    (if a + n < fst r + snd r then [(a + n, fst r + snd r - a - n)] else []) @ fs"
proof -
  define e where "e = fst r + snd r"
  have bnd: "e \<le> U64_MAX" "\<forall>p \<in> set bs \<union> set fs. fst p + snd p \<le> U64_MAX"
    using inv m by (auto simp: free_inv_def e_def)
  have ap: "apart (ivals_of bs)" "apart (ivals_of fs)" "fst r < e"
    "\<forall>p \<in> set bs. fst p + snd p < fst r" "\<forall>q \<in> set fs. e < fst q"
    using inv m by (auto simp: free_inv_def set_ivals_of e_def)
  have u: "add64 a n = a + n" "add64 (fst r) (snd r) = e" "sub64 a (fst r) = a - fst r"
    "sub64 (sub64 e a) n = e - a - n"
    using a bnd by (simp_all add: u64_simps e_def)
  have keys: "\<forall>p \<in> set bs. fst p < fst r" "\<forall>q \<in> set fs. fst r < fst q" using ap by fastforce+
  have er: "erase_key (fst r) m = bs @ fs"
    using erase_key_middle [of bs "fst r" "snd r" fs] free_inv_omap_wf [OF inv] m by simp
  define lp where "lp = (if fst r < a then [(fst r, a - fst r)] else [])"
  define rp where "rp = (if a + n < e then [(a + n, e - a - n)] else [])"
  have "(if fst r < a then emplace (fst r) (a - fst r) (bs @ fs) else bs @ fs) = (bs @ lp) @ fs"
    by (simp add: lp_def emplace_middle [OF keys])
  moreover have "(if a + n < e then emplace (a + n) (e - a - n) ((bs @ lp) @ fs) else (bs @ lp) @ fs) =
     (bs @ lp) @ rp @ fs"
  proof -
    have "\<forall>p \<in> set (bs @ lp). fst p < a + n" using keys a assms(3) by (fastforce simp: lp_def)
    moreover have "\<forall>q \<in> set fs. a + n < fst q" using a ap by (fastforce simp: e_def)
    ultimately show ?thesis by (simp only: rp_def emplace_middle) simp
  qed
  ultimately have "consume_free_range r a n m = bs @ lp @ rp @ fs"
    by (simp only: consume_free_range_def Let_def u er append_assoc)
  then show ?thesis by (simp only: lp_def rp_def e_def)
qed

lemma consume_free_range_correct:
  assumes inv: "free_inv m" and r: "r \<in> set m" and "0 < n"
    and a: "fst r \<le> a" "a + n \<le> fst r + snd r"
  shows "free_inv (consume_free_range r a n m)"
    and "free_bytes (consume_free_range r a n m) = free_bytes m - span a n"
proof -
  obtain bs fs where m: "m = bs @ r # fs" using split_list [OF r] by blast
  define e where "e = fst r + snd r"
  have bnd: "e \<le> U64_MAX" "\<forall>p \<in> set bs \<union> set fs. fst p + snd p \<le> U64_MAX"
    using inv m by (auto simp: free_inv_def e_def)
  have ap: "apart (ivals_of bs)" "apart (ivals_of fs)" "fst r < e"
    "\<forall>p \<in> set bs. fst p + snd p < fst r" "\<forall>q \<in> set fs. e < fst q"
    using inv m by (auto simp: free_inv_def set_ivals_of e_def)
  define lp where "lp = (if fst r < a then [(fst r, a - fst r)] else [])"
  define rp where "rp = (if a + n < e then [(a + n, e - a - n)] else [])"
  have eq: "consume_free_range r a n m = bs @ lp @ rp @ fs"
    using consume_free_range_split [OF inv m assms(3) a] by (simp only: lp_def rp_def e_def)
  have gap: "\<forall>p \<in> set bs. \<forall>q \<in> set fs. fst p + snd p < fst q" using ap(3-5) by fastforce
  show "free_inv (consume_free_range r a n m)"
    unfolding eq free_inv_def using ap bnd a assms(3) gap
    by (auto simp: lp_def rp_def set_ivals_of e_def)
  have "span a n \<inter> free_bytes bs = {}" "span a n \<inter> free_bytes fs = {}"
    using ap(4,5) a by (force simp: free_bytes_iff span_iff e_def)+
  moreover have "free_bytes lp \<union> free_bytes rp = span (fst r) (snd r) - span a n"
    using a assms(3) by (auto simp: lp_def rp_def span_iff e_def)
  moreover have "free_bytes m = free_bytes bs \<union> span (fst r) (snd r) \<union> free_bytes fs" by (simp add: m Un_assoc)
  ultimately show "free_bytes (consume_free_range r a n m) = free_bytes m - span a n"
    unfolding eq by auto
qed

lemma free_range_at_contains:
  assumes inv: "free_inv m" and "0 < n" and "span a n \<subseteq> free_bytes m"
  shows "\<exists>r \<in> set m. free_range_at a m = Some r \<and> fst r \<le> a \<and> a + n \<le> fst r + snd r"
proof -
  obtain r where r: "r \<in> set m" "fst r \<le> a" "a + n \<le> fst r + snd r"
    using free_contains_one [OF assms] by blast
  obtain bs fs where ub: "upper_bound a m = (bs, fs)" by fastforce
  note ubD = upper_boundD [OF ub free_inv_omap_wf [OF inv]]
  have rbs: "r \<in> set bs" using r ubD(1,3) by auto
  then have bs: "bs \<noteq> []" by auto
  have ap: "apart (ivals_of bs)" using inv ubD(1) by (simp add: free_inv_def)
  have "r = last bs"
  proof (rule ccontr)
    assume "r \<noteq> last bs"
    then have "r \<in> set (butlast bs)" using rbs bs by (metis append_butlast_last_id in_set_conv_decomp
          in_set_butlastD rotate1.simps(2) set_ConsD set_rotate1)
    moreover have "apart (ivals_of (butlast bs) @ [(fst (last bs), fst (last bs) + snd (last bs))])"
      using ap bs by (metis append_butlast_last_id ivals_of_simps)
    ultimately have "fst r + snd r < fst (last bs)" by (auto simp: set_ivals_of)
    moreover have "fst (last bs) \<le> a" using ubD(2) bs by simp
    ultimately show False using r(3) by simp
  qed
  then show ?thesis using r ub bs by (auto simp: free_range_at_def)
qed

lemma consume_at_correct:
  assumes "free_inv m" and "range_ok a n" and "span a n \<subseteq> free_bytes m"
  shows "free_inv (consume_at a n m)" and "free_bytes (consume_at a n m) = free_bytes m - span a n"
proof -
  have "0 < n" using assms(2) by (simp add: range_ok_def)
  with free_range_at_contains [OF assms(1) this assms(3)] consume_free_range_correct [OF assms(1)]
  show "free_inv (consume_at a n m)" and "free_bytes (consume_at a n m) = free_bytes m - span a n"
    by (auto simp: consume_at_def)
qed

lemma free_total: "apart (ivals_of free) \<Longrightarrow> sum_list (map snd free) = card (free_bytes free)"
proof (induction free)
  case (Cons r free)
  then have "span (fst r) (snd r) \<inter> free_bytes free = {}"
    by (force simp: free_bytes_iff span_iff set_ivals_of)
  with Cons show ?case by (simp add: card_Un_disjoint)
qed simp

interpretation fl: free_store free_inv free_bytes add_free_range consume_at
  by unfold_locales
    (auto simp: add_free_range_correct consume_at_correct dest: free_inv_canonical)

end
