(* ===== verification/Mem_Types.thy ===== *)
theory Mem_Types
  imports Free_List "HOL-Library.Word"
begin

unbundle bit_operations_syntax

text \<open>
  What the memory managers of \<open>src/src/kernel/memory.cpp\<close> share: the access modes of the host and of
  the GPU, the decoding of a guest protection word, names of ranges, alignment, the overlap test, and
  the pieces a block of address space is cut into when a part of it changes.
\<close>

subsection \<open>Modes and protection\<close>

text \<open>\<open>VirtualMemory::Mode\<close> and \<open>GpuAccessMode\<close>.\<close>

datatype vm_mode = NoAccess | Read | Write | ReadWrite | Execute | ExecuteRead | ExecuteWrite | ExecuteReadWrite

datatype gpu_mode = GpuNoAccess | GpuRead | GpuWrite | GpuReadWrite

definition PROT_CPU_READ :: int where "PROT_CPU_READ = 1"
definition PROT_CPU_WRITE :: int where "PROT_CPU_WRITE = 2"
definition PROT_CPU_EXEC :: int where "PROT_CPU_EXEC = 4"
definition PROT_GPU_READ :: int where "PROT_GPU_READ = 16"
definition PROT_GPU_WRITE :: int where "PROT_GPU_WRITE = 32"

lemmas prot_defs = PROT_CPU_READ_def PROT_CPU_WRITE_def PROT_CPU_EXEC_def PROT_GPU_READ_def
  PROT_GPU_WRITE_def

text \<open>A protection word is a C \<open>int\<close>; its bits are those of the two's complement integer.\<close>

definition decode_memory_protection :: "int \<Rightarrow> (vm_mode \<times> gpu_mode) option" where
  "decode_memory_protection prot =
     (let cpu_read = (prot AND PROT_CPU_READ \<noteq> 0);
          cpu_write = (prot AND PROT_CPU_WRITE \<noteq> 0);
          cpu_exec = (prot AND PROT_CPU_EXEC \<noteq> 0);
          gpu_read = (prot AND PROT_GPU_READ \<noteq> 0);
          gpu_write = (prot AND PROT_GPU_WRITE \<noteq> 0)
      in if prot AND (PROT_CPU_READ OR PROT_CPU_WRITE OR PROT_CPU_EXEC OR PROT_GPU_READ OR PROT_GPU_WRITE) = 0
            \<and> prot \<noteq> 0 then None
         else
           let gpu = (if gpu_read \<and> gpu_write then GpuReadWrite else if gpu_read then GpuRead
                      else if gpu_write then GpuWrite else GpuNoAccess);
               host_read = (cpu_read \<or> gpu_read);
               host_write = (cpu_write \<or> gpu_write);
               host_read = (if host_write then True else host_read);
               mode = (if cpu_exec then (if host_write then ExecuteReadWrite
                                         else if host_read then ExecuteRead else Execute)
                       else if host_write then ReadWrite
                       else if host_read then Read else NoAccess)
           in Some (mode, gpu))"

definition mode_reads :: "vm_mode \<Rightarrow> bool" where
  "mode_reads m \<longleftrightarrow> m \<in> {Read, ReadWrite, ExecuteRead, ExecuteReadWrite}"

definition mode_writes :: "vm_mode \<Rightarrow> bool" where
  "mode_writes m \<longleftrightarrow> m \<in> {Write, ReadWrite, ExecuteWrite, ExecuteReadWrite}"

definition mode_executes :: "vm_mode \<Rightarrow> bool" where
  "mode_executes m \<longleftrightarrow> m \<in> {Execute, ExecuteRead, ExecuteWrite, ExecuteReadWrite}"

definition gpu_reads :: "gpu_mode \<Rightarrow> bool" where
  "gpu_reads g \<longleftrightarrow> g \<in> {GpuRead, GpuReadWrite}"

definition gpu_writes :: "gpu_mode \<Rightarrow> bool" where
  "gpu_writes g \<longleftrightarrow> g \<in> {GpuWrite, GpuReadWrite}"

subsection \<open>Names\<close>

text \<open>
  \<open>CopyVirtualRangeName\<close> into a cleared array of 32 characters: at most 31 characters up to the first
  NUL. A null pointer is \<open>None\<close>.
\<close>

definition KERNEL_MAXIMUM_NAME_LENGTH :: nat where
  "KERNEL_MAXIMUM_NAME_LENGTH = 32"

definition copy_virtual_range_name :: "string option \<Rightarrow> string" where
  "copy_virtual_range_name name =
     (case name of None \<Rightarrow> []
      | Some s \<Rightarrow> take (KERNEL_MAXIMUM_NAME_LENGTH - 1) (takeWhile (\<lambda>c. c \<noteq> CHR 0x00) s))"

subsection \<open>Ranges\<close>

text \<open>\<open>VirtualRangesOverlap\<close>, with its saturating ends.\<close>

definition sat_end :: "u64 \<Rightarrow> u64 \<Rightarrow> u64" where
  "sat_end start size' = (if U64_MAX - start < size' then U64_MAX else start + size')"

definition virtual_ranges_overlap :: "u64 \<Rightarrow> u64 \<Rightarrow> u64 \<Rightarrow> u64 \<Rightarrow> bool" where
  "virtual_ranges_overlap left_start left_size right_start right_size \<longleftrightarrow>
     (if left_size = 0 \<or> right_size = 0 then False
      else let left_end = sat_end left_start left_size;
               right_end = sat_end right_start right_size
           in left_start < right_end \<and> right_start < left_end)"

text \<open>\<open>GetAlignedPos\<close>; \<open>None\<close> is the result that is not valid.\<close>

definition get_aligned_pos :: "u64 \<Rightarrow> u64 \<Rightarrow> u64 option" where
  "get_aligned_pos pos alignment =
     (if alignment = 0 then Some pos
      else let remainder = pos mod alignment;
               increment = (if remainder \<noteq> 0 then alignment - remainder else 0)
           in if increment > U64_MAX - pos then None else Some (pos + increment))"

definition is_gpu_address_range :: "u64 \<Rightarrow> u64 \<Rightarrow> bool" where
  "is_gpu_address_range vaddr size' \<longleftrightarrow>
     (let limit = 2 ^ 40 in vaddr \<noteq> 0 \<and> size' \<noteq> 0 \<and> vaddr < limit \<and> size' < limit - vaddr)"

definition aligned_to :: "u64 \<Rightarrow> u64 \<Rightarrow> bool" where
  "aligned_to k p \<longleftrightarrow> k = 0 \<or> k dvd p"

lemma sat_end_le: "a + n \<le> U64_MAX \<Longrightarrow> sat_end a n = a + n"
  by (auto simp: sat_end_def)

lemma sat_end_bound: "a \<le> U64_MAX \<Longrightarrow> sat_end a n \<le> U64_MAX"
  by (auto simp: sat_end_def)

lemma overlap_iff:
  assumes "a + n \<le> U64_MAX" and "b + m \<le> U64_MAX"
  shows "virtual_ranges_overlap a n b m \<longleftrightarrow> span a n \<inter> span b m \<noteq> {}"
  using assms by (auto simp: virtual_ranges_overlap_def Let_def sat_end_le span_disjoint)

text \<open>The aligned position is the least aligned one from \<open>pos\<close> on, and it is missing only when it
  does not fit 64 bits.\<close>

lemma get_aligned_pos_Some:
  assumes "pos \<le> U64_MAX" and "get_aligned_pos pos k = Some p"
  shows "pos \<le> p" and "aligned_to k p" and "p \<le> U64_MAX"
    and "\<And>q. pos \<le> q \<Longrightarrow> aligned_to k q \<Longrightarrow> p \<le> q"
proof -
  have p: "p = (if k = 0 then pos else align_up pos k)"
    using assms(2) by (auto simp: get_aligned_pos_def align_up_def Let_def split: if_splits)
  show "pos \<le> p" using p by (simp add: align_up_ge)
  show "aligned_to k p" using p by (auto simp: aligned_to_def intro: align_up_dvd)
  show "p \<le> U64_MAX"
    using assms by (auto simp: get_aligned_pos_def Let_def split: if_splits)
  show "\<And>q. pos \<le> q \<Longrightarrow> aligned_to k q \<Longrightarrow> p \<le> q"
    using p by (auto simp: aligned_to_def intro: align_up_least split: if_splits)
qed

lemma get_aligned_pos_None:
  assumes "pos \<le> U64_MAX" and "get_aligned_pos pos k = None" and "pos \<le> q" and "aligned_to k q"
  shows "U64_MAX < q"
proof -
  have k: "k \<noteq> 0" and a: "U64_MAX < align_up pos k"
    using assms(1,2) by (auto simp: get_aligned_pos_def align_up_def Let_def split: if_splits)
  then have "align_up pos k \<le> q"
    using assms(3,4) by (intro align_up_least) (auto simp: aligned_to_def)
  with a show ?thesis by simp
qed

lemma name_copy_length: "length (copy_virtual_range_name name) < KERNEL_MAXIMUM_NAME_LENGTH"
  by (auto simp: copy_virtual_range_name_def KERNEL_MAXIMUM_NAME_LENGTH_def split: option.splits)

lemma name_copy_idem: "copy_virtual_range_name (Some (copy_virtual_range_name name)) = copy_virtual_range_name name"
proof (cases name)
  case (Some s)
  have "\<forall>c \<in> set (take 31 (takeWhile (\<lambda>c. c \<noteq> CHR 0x00) s)). c \<noteq> CHR 0x00"
    by (auto dest: in_set_takeD set_takeWhileD)
  then have "takeWhile (\<lambda>c. c \<noteq> CHR 0x00) (take 31 (takeWhile (\<lambda>c. c \<noteq> CHR 0x00) s)) =
    take 31 (takeWhile (\<lambda>c. c \<noteq> CHR 0x00) s)"
    by (simp only: takeWhile_eq_all_conv)
  moreover have "KERNEL_MAXIMUM_NAME_LENGTH - 1 = 31" by (simp add: KERNEL_MAXIMUM_NAME_LENGTH_def)
  ultimately show ?thesis by (simp only: Some copy_virtual_range_name_def option.case take_take min.idem)
qed (simp add: copy_virtual_range_name_def)

subsection \<open>Pieces\<close>

text \<open>
  A list of things that cover address ranges, as the relation of the addresses covered and what
  covers them. Each manager has its own blocks; \<open>cover\<close> is stated for the function that reads the
  points of one block, so that the cutting of a list follows from the cutting of a block.
\<close>

definition cover :: "('b \<Rightarrow> 'p set) \<Rightarrow> 'b list \<Rightarrow> 'p set" where
  "cover pts bs = (\<Union>b \<in> set bs. pts b)"

lemma cover_simps [simp]:
  "cover pts [] = {}"
  "cover pts (b # bs) = pts b \<union> cover pts bs"
  "cover pts (as @ bs) = cover pts as \<union> cover pts bs"
  by (auto simp: cover_def)

lemma cover_iff: "x \<in> cover pts bs \<longleftrightarrow> (\<exists>b \<in> set bs. x \<in> pts b)"
  by (auto simp: cover_def)

lemma cover_concat: "cover pts (concat (map f bs)) = (\<Union>b \<in> set bs. cover pts (f b))"
  by (auto simp: cover_def)

lemma cover_concat_image:
  assumes "\<And>b. b \<in> set bs \<Longrightarrow> cover pts (f b) = g ` pts b"
  shows "cover pts (concat (map f bs)) = g ` cover pts bs"
proof -
  have "(\<Union>b \<in> set bs. cover pts (f b)) = (\<Union>b \<in> set bs. g ` pts b)" using assms by auto
  then show ?thesis by (simp only: cover_concat) (simp only: cover_def image_UN)
qed

lemma cover_concat_filter:
  assumes "\<And>b. b \<in> set bs \<Longrightarrow> cover pts (f b) = {x \<in> pts b. P x}"
  shows "cover pts (concat (map f bs)) = {x \<in> cover pts bs. P x}"
  using assms by (auto simp: cover_concat cover_iff)

lemma cover_set_eq: "set bs = set bs' \<Longrightarrow> cover pts bs = cover pts bs'"
  by (simp add: cover_def)

end
