(* ===== verification/Tiling.thy ===== *)
theory Tiling
  imports Mem_Types
begin

text \<open>
  Lists of blocks in address order that do not overlap (they may touch), the shape behind the
  allocated blocks, the virtual ranges and the flexible mappings. \<open>st\<close> and \<open>sz\<close> read the start and
  the size of a block; \<open>owned\<close> is the set of addresses the list covers.
\<close>

definition tiled :: "('b \<Rightarrow> u64) \<Rightarrow> ('b \<Rightarrow> u64) \<Rightarrow> 'b list \<Rightarrow> bool" where
  "tiled st sz bs \<longleftrightarrow> sorted_wrt (\<lambda>a b. st a + sz a \<le> st b) bs \<and> (\<forall>b \<in> set bs. range_ok (st b) (sz b))"

abbreviation block_span :: "('b \<Rightarrow> u64) \<Rightarrow> ('b \<Rightarrow> u64) \<Rightarrow> 'b \<Rightarrow> nat set" where
  "block_span st sz b \<equiv> span (st b) (sz b)"

definition owned :: "('b \<Rightarrow> u64) \<Rightarrow> ('b \<Rightarrow> u64) \<Rightarrow> 'b list \<Rightarrow> nat set" where
  "owned st sz bs = cover (block_span st sz) bs"

text \<open>Consecutive parts from \<open>c\<close> to \<open>e\<close>.\<close>

fun chain :: "('b \<Rightarrow> u64) \<Rightarrow> ('b \<Rightarrow> u64) \<Rightarrow> u64 \<Rightarrow> 'b list \<Rightarrow> u64 \<Rightarrow> bool" where
  "chain st sz c [] e \<longleftrightarrow> c = e"
| "chain st sz c (p # ps) e \<longleftrightarrow> st p = c \<and> 0 < sz p \<and> chain st sz (c + sz p) ps e"

lemma range_okD: "range_ok a n \<Longrightarrow> 0 < n" "range_ok a n \<Longrightarrow> a + n \<le> U64_MAX" "range_ok a n \<Longrightarrow> a < U64_MAX"
  by (auto simp: range_ok_def)

lemma tiled_Nil [simp]: "tiled st sz []"
  by (simp add: tiled_def)

lemma tiled_Cons [simp]:
  "tiled st sz (b # bs) \<longleftrightarrow> range_ok (st b) (sz b) \<and> (\<forall>c \<in> set bs. st b + sz b \<le> st c) \<and> tiled st sz bs"
  by (auto simp: tiled_def)

lemma tiled_append [simp]:
  "tiled st sz (as @ bs) \<longleftrightarrow> tiled st sz as \<and> tiled st sz bs \<and>
     (\<forall>a \<in> set as. \<forall>b \<in> set bs. st a + sz a \<le> st b)"
  by (auto simp: tiled_def sorted_wrt_append)

lemma tiled_range: "tiled st sz bs \<Longrightarrow> b \<in> set bs \<Longrightarrow> range_ok (st b) (sz b)"
  by (simp add: tiled_def)

lemma tiled_end: "tiled st sz bs \<Longrightarrow> b \<in> set bs \<Longrightarrow> st b + sz b \<le> U64_MAX"
  by (simp add: tiled_def range_ok_def)

lemma tiled_size_pos: "tiled st sz bs \<Longrightarrow> b \<in> set bs \<Longrightarrow> 0 < sz b"
  by (simp add: tiled_def range_ok_def)

lemma tiled_sorted: "tiled st sz bs \<Longrightarrow> sorted_wrt (\<lambda>a b. st a < st b) bs"
  by (rule sorted_wrt_weaken [where P = "\<lambda>a b. st a + sz a \<le> st b"]) (fastforce simp: tiled_def range_ok_def)+

lemma tiled_sorted_le: "tiled st sz bs \<Longrightarrow> sorted_wrt (\<lambda>a b. st a \<le> st b) bs"
  using sorted_wrt_weaken [OF tiled_sorted] by (metis less_imp_le)

lemma tiled_distinct: "tiled st sz bs \<Longrightarrow> distinct (map st bs)"
  by (induction bs) (fastforce simp: range_ok_def)+

lemma tiled_starts_inj: "tiled st sz bs \<Longrightarrow> a \<in> set bs \<Longrightarrow> b \<in> set bs \<Longrightarrow> st a = st b \<Longrightarrow> a = b"
  using tiled_distinct [of st sz bs] by (auto simp: distinct_map inj_on_def)

lemma tiled_map: "tiled st sz (map f bs) \<longleftrightarrow> tiled (st \<circ> f) (sz \<circ> f) bs"
  by (simp add: tiled_def sorted_wrt_map)

lemma tiled_unique:
  assumes "tiled st sz bs" and "a \<in> set bs" and "b \<in> set bs"
    and "x \<in> block_span st sz a" and "x \<in> block_span st sz b"
  shows "a = b"
  using assms
proof (induction bs)
  case (Cons c bs)
  then have "\<forall>d \<in> set bs. st c + sz c \<le> st d" by simp
  with Cons show ?case by (fastforce simp: span_iff)
qed simp

lemma owned_simps [simp]:
  "owned st sz [] = {}"
  "owned st sz (b # bs) = span (st b) (sz b) \<union> owned st sz bs"
  "owned st sz (as @ bs) = owned st sz as \<union> owned st sz bs"
  by (simp_all add: owned_def)

lemma owned_iff: "x \<in> owned st sz bs \<longleftrightarrow> (\<exists>b \<in> set bs. st b \<le> x \<and> x < st b + sz b)"
  by (simp add: owned_def cover_iff span_iff)

lemma owned_map: "owned st sz (map f bs) = owned (st \<circ> f) (sz \<circ> f) bs"
  by (simp add: owned_def cover_def)

lemma finite_owned [simp]: "finite (owned st sz bs)"
  by (simp add: owned_def cover_def)

lemma tiled_parts_disjoint: "tiled st sz (as @ bs) \<Longrightarrow> owned st sz as \<inter> owned st sz bs = {}"
  by (force simp: owned_iff)

lemma tiled_card: "tiled st sz bs \<Longrightarrow> card (owned st sz bs) = sum_list (map sz bs)"
proof (induction bs)
  case (Cons b bs)
  then have "span (st b) (sz b) \<inter> owned st sz bs = {}" by (force simp: owned_iff span_iff)
  with Cons show ?case by (simp add: card_Un_disjoint)
qed simp

subsection \<open>Looking up an address\<close>

text \<open>
  What the split at the upper bound of \<open>a\<close> says: only the last block before the split may hold \<open>a\<close>.
\<close>

lemma upper_split:
  assumes "tiled st sz bs" and "upper_bound_by st a bs = (xs, ys)"
  shows "bs = xs @ ys" and "\<forall>b \<in> set xs. st b \<le> a" and "\<forall>b \<in> set ys. a < st b"
  using upper_bound_by_append [OF assms(2)] upper_bound_by_before [OF assms(2)]
    upper_bound_by_after [OF assms(2) tiled_sorted_le [OF assms(1)]] by simp_all

lemma lower_split:
  assumes "tiled st sz bs" and "lower_bound_by st a bs = (xs, ys)"
  shows "bs = xs @ ys" and "\<forall>b \<in> set xs. st b < a" and "\<forall>b \<in> set ys. a \<le> st b"
  using lower_bound_by_append [OF assms(2)] lower_bound_by_before [OF assms(2)]
    lower_bound_by_after [OF assms(2) tiled_sorted_le [OF assms(1)]] by simp_all

lemma tiled_before_last:
  assumes "tiled st sz bs" and "b \<in> set bs" and "b \<noteq> last bs"
  shows "st b + sz b \<le> st (last bs)"
proof -
  have bs: "bs = butlast bs @ [last bs]" using assms(2) by (cases bs rule: rev_cases) auto
  then have "tiled st sz (butlast bs @ [last bs])" using assms(1) by simp
  then have l: "\<forall>c \<in> set (butlast bs). st c + sz c \<le> st (last bs)"
    by (simp only: tiled_append) simp
  have "b \<in> set (butlast bs) \<or> b = last bs" using assms(2) by (subst (asm) bs) auto
  with l assms(3) show ?thesis by blast
qed

lemma upper_split_owned:
  assumes "tiled st sz bs" and "upper_bound_by st a bs = (xs, ys)"
  shows "a \<in> owned st sz bs \<longleftrightarrow> xs \<noteq> [] \<and> a < st (last xs) + sz (last xs)"
proof
  note ub = upper_split [OF assms]
  assume "a \<in> owned st sz bs"
  then obtain b where b: "b \<in> set bs" "st b \<le> a" "a < st b + sz b" by (auto simp: owned_iff)
  then have bx: "b \<in> set xs" using ub by auto
  have "b = last xs"
  proof (rule ccontr)
    assume "b \<noteq> last xs"
    with bx have "st b + sz b \<le> st (last xs)" using ub(1) assms(1) by (intro tiled_before_last) auto
    moreover have "st (last xs) \<le> a" using ub(2) bx by (cases xs rule: rev_cases) auto
    ultimately show False using b(3) by simp
  qed
  with b bx show "xs \<noteq> [] \<and> a < st (last xs) + sz (last xs)" by auto
next
  note ub = upper_split [OF assms]
  assume x: "xs \<noteq> [] \<and> a < st (last xs) + sz (last xs)"
  then have "st (last xs) \<le> a" "last xs \<in> set bs" using ub by auto
  with x show "a \<in> owned st sz bs" by (auto simp: owned_iff)
qed

lemma upper_split_last:
  assumes "tiled st sz bs" and "upper_bound_by st a bs = (xs, ys)" and "b \<in> set bs"
    and "st b \<le> a" and "a < st b + sz b"
  shows "xs \<noteq> []" and "last xs = b"
proof -
  note ub = upper_split [OF assms(1,2)]
  have "a \<in> owned st sz bs" using assms(3-5) by (auto simp: owned_iff)
  then have l: "xs \<noteq> []" "a < st (last xs) + sz (last xs)"
    using upper_split_owned [OF assms(1,2)] by auto
  then show "xs \<noteq> []" by simp
  have "last xs \<in> set bs" "st (last xs) \<le> a" using l ub by auto
  with l assms show "last xs = b"
    by (intro tiled_unique [OF assms(1), of "last xs" b a]) (auto simp: span_iff)
qed

subsection \<open>Consecutive parts\<close>

lemma chain_le: "chain st sz c ps e \<Longrightarrow> c \<le> e"
  by (induction st sz c ps e rule: chain.induct) auto

lemma chain_owned: "chain st sz c ps e \<Longrightarrow> owned st sz ps = {c..<e}"
proof (induction st sz c ps e rule: chain.induct)
  case (2 st sz c p ps e)
  then show ?case using chain_le [of st sz "c + sz p" ps e] by (auto simp: span_iff)
qed simp

lemma chain_tiled: "chain st sz c ps e \<Longrightarrow> e \<le> U64_MAX \<Longrightarrow> tiled st sz ps \<and> (\<forall>p \<in> set ps. c \<le> st p)"
proof (induction st sz c ps e rule: chain.induct)
  case (2 st sz c p ps e)
  then show ?case using chain_le [of st sz "c + sz p" ps e] by (auto simp: range_ok_def)
qed simp

lemma chain_append: "chain st sz c (ps @ qs) e \<longleftrightarrow> (\<exists>d. chain st sz c ps d \<and> chain st sz d qs e)"
  by (induction ps arbitrary: c) auto

end
