(* ===== verification/Physical_Memory.thy ===== *)
theory Physical_Memory
  imports Tiling
begin

text \<open>
  \<open>PhysicalMemory\<close> of \<open>src/src/kernel/memory.cpp\<close>, the guest's direct memory: \<open>m_physical\<close>, the
  allocated blocks by start address, \<open>m_free\<close>, the free ranges, and \<open>m_mappings\<close>, the ranges of
  virtual addresses mapped to allocated memory. A method that returns \<open>false\<close> without a change is
  \<open>None\<close> in the result; the results that the source writes through pointers are the result's
  components. The outer \<open>option\<close> is the process that may stop (\<open>EXIT_IF\<close>).
\<close>

record ablock =
  pb_start :: u64
  pb_size :: u64
  pb_map_vaddr :: u64
  pb_map_size :: u64
  pb_host_vaddr :: u64
  pb_host_size :: u64
  pb_prot :: int
  pb_mode :: vm_mode
  pb_gpu :: gpu_mode
  pb_type :: int
  pb_pool :: bool
  pb_name :: string

record phys_mem =
  pm_physical :: "ablock omap"
  pm_free :: free_list
  pm_mappings :: "ablock list"

subsection \<open>Size\<close>

definition phys_total_size :: u64 where
  "phys_total_size = 13824 * 1024 * 1024"

definition phys_size :: "u64 \<Rightarrow> u64 option" where
  "phys_size flexible_size =
     (if flexible_size \<ge> phys_total_size then None else Some (phys_total_size - flexible_size))"

definition phys_init :: "u64 \<Rightarrow> phys_mem option" where
  "phys_init flexible_size = do {
     sz \<leftarrow> phys_size flexible_size;
     Some \<lparr>pm_physical = [], pm_free = [(0, sz)], pm_mappings = []\<rparr> }"

subsection \<open>Alloc and Available\<close>

text \<open>
  The search loop of \<open>Alloc\<close>, from an iterator of \<open>m_free\<close> on: the range it stops at and the
  aligned position in it.
\<close>

fun alloc_search :: "u64 \<Rightarrow> u64 \<Rightarrow> u64 \<Rightarrow> u64 \<Rightarrow> free_list \<Rightarrow> ((u64 \<times> u64) \<times> u64) option" where
  "alloc_search search_start search_end len alignment [] = None"
| "alloc_search search_start search_end len alignment (rng # rest) =
     (if fst rng < search_end then
        let range_end = min (add64 (fst rng) (snd rng)) search_end;
            lower = max (fst rng) search_start
        in (case get_aligned_pos lower alignment of
              None \<Rightarrow> alloc_search search_start search_end len alignment rest
            | Some free_pos \<Rightarrow>
                if free_pos < lower \<or> free_pos > range_end \<or> len > range_end - free_pos
                then alloc_search search_start search_end len alignment rest
                else Some (rng, free_pos))
      else None)"

definition new_block :: "u64 \<Rightarrow> u64 \<Rightarrow> int \<Rightarrow> bool \<Rightarrow> ablock" where
  "new_block start size' memory_type pool_expansion =
     \<lparr>pb_start = start, pb_size = size', pb_map_vaddr = 0, pb_map_size = 0, pb_host_vaddr = 0,
      pb_host_size = 0, pb_prot = 0, pb_mode = NoAccess, pb_gpu = GpuNoAccess, pb_type = memory_type,
      pb_pool = pool_expansion, pb_name = []\<rparr>"

definition phys_alloc ::
  "u64 \<Rightarrow> u64 \<Rightarrow> u64 \<Rightarrow> u64 \<Rightarrow> u64 \<Rightarrow> int \<Rightarrow> bool \<Rightarrow> phys_mem \<Rightarrow> (u64 option \<times> phys_mem) option" where
  "phys_alloc flexible_size search_start search_end len alignment memory_type pool_expansion s = do {
     sz \<leftarrow> phys_size flexible_size;
     let search_end = min search_end sz;
     if search_start \<ge> search_end then Some (None, s)
     else
       let it = upper_bound search_start (pm_free s);
           it = (if fst it \<noteq> [] then step_back it else it)
       in (case alloc_search search_start search_end len alignment (snd it) of
             None \<Rightarrow> Some (None, s)
           | Some (rng, free_pos) \<Rightarrow>
               if free_pos \<in> fst ` set (pm_physical s) then None
               else Some (Some free_pos,
                 s\<lparr>pm_free := consume_free_range rng free_pos len (pm_free s),
                   pm_physical := emplace free_pos (new_block free_pos len memory_type pool_expansion)
                     (pm_physical s)\<rparr>)) }"

text \<open>The loop of \<open>Available\<close>: the best address and size so far.\<close>

fun available_search :: "u64 \<Rightarrow> u64 \<Rightarrow> u64 \<Rightarrow> u64 \<times> u64 \<Rightarrow> free_list \<Rightarrow> u64 \<times> u64" where
  "available_search search_start search_end alignment best [] = best"
| "available_search search_start search_end alignment best (rng # rest) =
     (if fst rng \<ge> search_end then best
      else
        let range_end = min (add64 (fst rng) (snd rng)) search_end;
            lower = max (fst rng) search_start;
            best' = (case get_aligned_pos lower alignment of
                None \<Rightarrow> best
              | Some free_pos \<Rightarrow>
                  if free_pos \<ge> lower \<and> free_pos < range_end \<and> range_end - free_pos > snd best
                  then (free_pos, range_end - free_pos) else best)
        in available_search search_start search_end alignment best' rest)"

definition phys_available :: "u64 \<Rightarrow> u64 \<Rightarrow> u64 \<Rightarrow> u64 \<Rightarrow> phys_mem \<Rightarrow> (u64 \<times> u64) option option" where
  "phys_available flexible_size search_start search_end alignment s = do {
     sz \<leftarrow> phys_size flexible_size;
     let search_end = min search_end sz;
     Some (if search_start \<ge> search_end then None
           else let best = available_search search_start search_end alignment (0, 0) (pm_free s)
                in if snd best = 0 then None else Some best) }"

subsection \<open>Release\<close>

definition pb_end :: "ablock \<Rightarrow> u64" where
  "pb_end b = add64 (pb_start b) (pb_size b)"

text \<open>
  The block a release is aimed at: the one that starts last at or before \<open>start\<close>, when it belongs to
  no pool and holds the whole range.
\<close>

definition release_target :: "u64 \<Rightarrow> u64 \<Rightarrow> phys_mem \<Rightarrow> (u64 \<times> ablock) option" where
  "release_target start len s =
     (let it = upper_bound start (pm_physical s)
      in if fst it = [] then None
         else let (k, b) = last (fst it)
              in if pb_pool b \<or> start < pb_start b \<or> start \<ge> pb_end b \<or> len > sub64 (pb_end b) start
                 then None else Some (k, b))"

text \<open>The update of the entry under an iterator.\<close>

definition set_entry :: "u64 \<Rightarrow> 'v \<Rightarrow> 'v omap \<Rightarrow> 'v omap" where
  "set_entry k v m = map (\<lambda>p. if fst p = k then (k, v) else p) m"

definition shrink_block :: "u64 \<Rightarrow> ablock \<Rightarrow> ablock" where
  "shrink_block size' b =
     (let b = b\<lparr>pb_size := size'\<rparr>
      in if pb_map_vaddr b \<noteq> 0 then b\<lparr>pb_map_size := pb_size b\<rparr> else b)"

type_synonym release_out = "u64 \<times> u64 \<times> gpu_mode"

definition phys_release :: "u64 \<Rightarrow> u64 \<Rightarrow> phys_mem \<Rightarrow> (release_out \<times> phys_mem) option" where
  "phys_release start len s =
     (case release_target start len s of
        None \<Rightarrow> None
      | Some (k, b) \<Rightarrow>
          let free = add_free_range start len (pm_free s); blocks = pm_physical s
          in if start = pb_start b \<and> len = pb_size b then
               Some ((pb_map_vaddr b, pb_map_size b, pb_gpu b),
                 s\<lparr>pm_physical := erase_key k blocks, pm_free := free\<rparr>)
             else if start > pb_start b \<and> add64 start len < pb_end b then
               let old_start = pb_start b; old_end = pb_end b;
                   right = b\<lparr>pb_start := add64 start len, pb_size := sub64 old_end (add64 start len)\<rparr>;
                   right = (if pb_map_vaddr right \<noteq> 0
                     then right\<lparr>pb_map_vaddr := add64 (pb_map_vaddr right) (sub64 (pb_start right) old_start),
                                pb_map_size := pb_size right\<rparr>
                     else right)
               in Some ((if pb_map_vaddr b \<noteq> 0 then add64 (pb_map_vaddr b) (sub64 start old_start) else 0,
                         if pb_map_vaddr b \<noteq> 0 then len else 0, pb_gpu b),
                   s\<lparr>pm_physical := emplace (pb_start right) right
                        (set_entry k (shrink_block (sub64 start old_start) b) blocks),
                     pm_free := free\<rparr>)
             else if start = pb_start b \<and> len < pb_size b then
               let remaining = b\<lparr>pb_start := add64 (pb_start b) len, pb_size := sub64 (pb_size b) len\<rparr>;
                   remaining = (if pb_map_vaddr remaining \<noteq> 0
                     then remaining\<lparr>pb_map_vaddr := add64 (pb_map_vaddr remaining) len,
                                    pb_map_size := sub64 (pb_map_size remaining) len\<rparr>
                     else remaining)
               in Some ((pb_map_vaddr b, if pb_map_vaddr b \<noteq> 0 then len else 0, pb_gpu b),
                   s\<lparr>pm_physical := emplace (pb_start remaining) remaining (erase_key k blocks),
                     pm_free := free\<rparr>)
             else if start > pb_start b \<and> add64 start len = pb_end b then
               Some ((if pb_map_vaddr b \<noteq> 0 then add64 (pb_map_vaddr b) (sub64 start (pb_start b)) else 0,
                      if pb_map_vaddr b \<noteq> 0 then len else 0, pb_gpu b),
                 s\<lparr>pm_physical := set_entry k (shrink_block (sub64 start (pb_start b)) b) blocks,
                   pm_free := free\<rparr>)
             else None)"

definition phys_release_pool_expansion :: "u64 \<Rightarrow> u64 \<Rightarrow> phys_mem \<Rightarrow> phys_mem option" where
  "phys_release_pool_expansion phys_addr len s =
     (case map_of (pm_physical s) phys_addr of
        None \<Rightarrow> None
      | Some b \<Rightarrow> if \<not> pb_pool b \<or> pb_size b \<noteq> len then None
          else Some (s\<lparr>pm_physical := erase_key phys_addr (pm_physical s),
                       pm_free := add_free_range phys_addr len (pm_free s)\<rparr>))"

subsection \<open>Allocated spans\<close>

text \<open>
  The walk of \<open>CanMapDirect\<close> and \<open>Map\<close> over the allocated blocks. Every round moves \<open>current\<close>
  forward, also when an end wraps, because the round first checks \<open>current < block_end\<close>.
\<close>

function direct_walk :: "u64 \<Rightarrow> u64 \<Rightarrow> ablock omap \<Rightarrow> bool" where
  "direct_walk current end blocks =
     (if current < end then
        (case upper_bound current blocks of (before, following) \<Rightarrow>
          if before = [] then False
          else let b = snd (last before); block_end = pb_end b
               in if pb_pool b \<or> current < pb_start b \<or> current \<ge> block_end then False
                  else let next = min end block_end
                       in if next < end \<and>
                            (following = [] \<or> pb_start (snd (hd following)) \<noteq> next) then False
                          else direct_walk next end blocks)
      else True)"
  by auto
termination
  by (relation "measure (\<lambda>(current, end, blocks). end - current)") auto

definition phys_can_map_direct :: "u64 \<Rightarrow> u64 \<Rightarrow> phys_mem \<Rightarrow> bool" where
  "phys_can_map_direct phys_addr len s \<longleftrightarrow>
     (if len = 0 \<or> U64_MAX - phys_addr < len then False
      else direct_walk phys_addr (phys_addr + len) (pm_physical s))"

function span_walk :: "u64 \<Rightarrow> u64 \<Rightarrow> ablock omap \<Rightarrow> ablock list option" where
  "span_walk current end blocks =
     (if current < end then
        (case upper_bound current blocks of (before, following) \<Rightarrow>
          if before = [] then None
          else let b = snd (last before); block_end = pb_end b
               in if pb_pool b \<or> current < pb_start b \<or> current \<ge> block_end then None
                  else let part = b\<lparr>pb_start := current, pb_size := min end block_end - current\<rparr>;
                           next = current + (min end block_end - current)
                       in if next < end \<and>
                            (following = [] \<or> pb_start (snd (hd following)) \<noteq> next) then None
                          else do { parts \<leftarrow> span_walk next end blocks; Some (part # parts) })
      else Some [])"
  by auto
termination
  by (relation "measure (\<lambda>(current, end, blocks). end - current)") auto

definition phys_get_allocated_span :: "u64 \<Rightarrow> u64 \<Rightarrow> phys_mem \<Rightarrow> ablock list option" where
  "phys_get_allocated_span phys_addr len s =
     (if len = 0 \<or> U64_MAX - phys_addr < len then None
      else span_walk phys_addr (phys_addr + len) (pm_physical s))"

declare direct_walk.simps [simp del]
declare span_walk.simps [simp del]

subsection \<open>Mappings\<close>

text \<open>\<open>Map\<close>: the mapping inherits the rest of its block, the one that starts last at or before it.\<close>

definition phys_map :: "u64 \<Rightarrow> u64 \<Rightarrow> u64 \<Rightarrow> int \<Rightarrow> vm_mode \<Rightarrow> gpu_mode \<Rightarrow> phys_mem \<Rightarrow> phys_mem option" where
  "phys_map vaddr phys_addr len prot mode gpu s =
     (if len = 0 \<or> U64_MAX - phys_addr < len then None
      else
        let it = upper_bound phys_addr (pm_physical s)
        in if fst it = [] then None
           else if \<not> direct_walk phys_addr (phys_addr + len) (pm_physical s) then None
           else let mapping = (snd (last (fst it)))
                  \<lparr>pb_start := phys_addr, pb_size := len, pb_map_vaddr := vaddr, pb_map_size := len,
                   pb_host_vaddr := vaddr, pb_host_size := len, pb_prot := prot, pb_mode := mode,
                   pb_gpu := gpu\<rparr>
                in Some (s\<lparr>pm_mappings := pm_mappings s @ [mapping]\<rparr>))"

text \<open>
  The loop of \<open>Unmap\<close>: the GPU mode of the first mapping that holds the range, the host range of a
  mapping that is erased, the mappings as updated in place, and what is pushed behind them.
\<close>

fun unmap_loop :: "u64 \<Rightarrow> u64 \<Rightarrow> ablock list \<Rightarrow>
    (gpu_mode \<times> (u64 \<times> u64) option \<times> ablock list \<times> ablock list) option" where
  "unmap_loop vaddr size' [] = None"
| "unmap_loop vaddr size' (b # rest) =
     (let map_end = add64 (pb_map_vaddr b) (pb_map_size b); end = add64 vaddr size'
      in if pb_map_vaddr b = vaddr \<and> pb_map_size b = size' then
           Some (pb_gpu b, Some (pb_host_vaddr b, pb_host_size b), rest, [])
         else if vaddr > pb_map_vaddr b \<and> end < map_end then
           let right = b\<lparr>pb_start := add64 (pb_start b) (sub64 end (pb_map_vaddr b)),
                         pb_size := sub64 map_end end, pb_map_size := sub64 map_end end,
                         pb_map_vaddr := end\<rparr>;
               left = b\<lparr>pb_size := sub64 vaddr (pb_map_vaddr b), pb_map_size := sub64 vaddr (pb_map_vaddr b)\<rparr>
           in Some (pb_gpu b, None, left # rest, [right])
         else if vaddr = pb_map_vaddr b \<and> size' < pb_map_size b then
           Some (pb_gpu b, None,
             b\<lparr>pb_start := add64 (pb_start b) size', pb_size := sub64 (pb_size b) size',
               pb_map_vaddr := add64 (pb_map_vaddr b) size', pb_map_size := sub64 (pb_map_size b) size'\<rparr> # rest,
             [])
         else if vaddr > pb_map_vaddr b \<and> end = map_end then
           Some (pb_gpu b, None,
             b\<lparr>pb_size := sub64 vaddr (pb_map_vaddr b), pb_map_size := sub64 vaddr (pb_map_vaddr b)\<rparr> # rest, [])
         else
           (case unmap_loop vaddr size' rest of
              None \<Rightarrow> None
            | Some (gpu, host, kept, pushed) \<Rightarrow> Some (gpu, host, b # kept, pushed)))"

text \<open>\<open>Unmap\<close>: the GPU mode, and the host address to release (0 for none).\<close>

definition phys_unmap :: "u64 \<Rightarrow> u64 \<Rightarrow> phys_mem \<Rightarrow> ((gpu_mode \<times> u64) \<times> phys_mem) option" where
  "phys_unmap vaddr size' s =
     (case unmap_loop vaddr size' (pm_mappings s) of
        None \<Rightarrow> None
      | Some (gpu, host, kept, pushed) \<Rightarrow>
          let mappings = kept @ pushed;
              host_vaddr_to_release =
                (case host of None \<Rightarrow> 0
                 | Some (host_vaddr, host_size) \<Rightarrow>
                     if host_vaddr = 0 \<or> host_size = 0 then 0
                     else if list_ex (\<lambda>b. pb_host_vaddr b = host_vaddr \<and> pb_host_size b = host_size) mappings
                     then 0 else host_vaddr)
          in Some ((gpu, host_vaddr_to_release), s\<lparr>pm_mappings := mappings\<rparr>))"

definition protect_block :: "u64 \<Rightarrow> u64 \<Rightarrow> int \<Rightarrow> vm_mode \<Rightarrow> gpu_mode \<Rightarrow> ablock \<Rightarrow> ablock list" where
  "protect_block vaddr size' prot mode gpu b =
     (let block_end = add64 (pb_map_vaddr b) (pb_map_size b); end = vaddr + size'
      in if \<not> virtual_ranges_overlap vaddr size' (pb_map_vaddr b) (pb_map_size b) then [b]
         else
           let overlap_start = max vaddr (pb_map_vaddr b);
               overlap_end = min end block_end;
               left = b\<lparr>pb_size := sub64 overlap_start (pb_map_vaddr b),
                        pb_map_size := sub64 overlap_start (pb_map_vaddr b)\<rparr>;
               middle = b\<lparr>pb_start := sub64 (add64 (pb_start b) overlap_start) (pb_map_vaddr b),
                          pb_size := sub64 overlap_end overlap_start, pb_map_vaddr := overlap_start,
                          pb_map_size := sub64 overlap_end overlap_start, pb_prot := prot,
                          pb_mode := mode, pb_gpu := gpu\<rparr>;
               right = b\<lparr>pb_start := sub64 (add64 (pb_start b) overlap_end) (pb_map_vaddr b),
                         pb_size := sub64 block_end overlap_end, pb_map_vaddr := overlap_end,
                         pb_map_size := sub64 block_end overlap_end\<rparr>
           in (if pb_map_vaddr b < overlap_start then [left] else []) @ [middle] @
              (if overlap_end < block_end then [right] else []))"

definition phys_protect_mapping :: "u64 \<Rightarrow> u64 \<Rightarrow> int \<Rightarrow> vm_mode \<Rightarrow> gpu_mode \<Rightarrow> phys_mem \<Rightarrow> phys_mem" where
  "phys_protect_mapping vaddr size' prot mode gpu s =
     (if size' = 0 \<or> U64_MAX - vaddr < size' then s
      else s\<lparr>pm_mappings := concat (map (protect_block vaddr size' prot mode gpu) (pm_mappings s))\<rparr>)"

text \<open>\<open>Find\<close> by physical address, and by virtual address.\<close>

definition phys_find_block :: "u64 \<Rightarrow> bool \<Rightarrow> phys_mem \<Rightarrow> ablock option" where
  "phys_find_block phys_addr next s =
     (let it = upper_bound phys_addr (pm_physical s)
      in if fst it \<noteq> [] \<and> phys_addr < pb_end (snd (last (fst it))) then Some (snd (last (fst it)))
         else if next \<and> snd it \<noteq> [] then Some (snd (hd (snd it)))
         else None)"

definition phys_find_mapping :: "u64 \<Rightarrow> phys_mem \<Rightarrow> (u64 \<times> u64 \<times> int \<times> vm_mode \<times> gpu_mode) option" where
  "phys_find_mapping vaddr s =
     map_option (\<lambda>b. (pb_map_vaddr b, pb_map_size b, pb_prot b, pb_mode b, pb_gpu b))
       (List.find (\<lambda>b. vaddr \<ge> pb_map_vaddr b \<and> vaddr < add64 (pb_map_vaddr b) (pb_map_size b))
         (pm_mappings s))"

text \<open>The part of a mapping that \<open>FindMappings\<close> reports for a physical range.\<close>

definition alias_part :: "u64 \<Rightarrow> u64 \<Rightarrow> ablock \<Rightarrow> ablock" where
  "alias_part phys_addr len m =
     (let overlap_start = max phys_addr (pb_start m);
          overlap_end = min (add64 phys_addr len) (add64 (pb_start m) (pb_size m))
      in m\<lparr>pb_start := overlap_start, pb_size := sub64 overlap_end overlap_start,
           pb_map_vaddr := add64 (pb_map_vaddr m) (sub64 overlap_start (pb_start m)),
           pb_map_size := sub64 overlap_end overlap_start\<rparr>)"

definition phys_find_mappings :: "u64 \<Rightarrow> u64 \<Rightarrow> phys_mem \<Rightarrow> ablock list" where
  "phys_find_mappings phys_addr len s =
     sort_key pb_map_vaddr
       (map (alias_part phys_addr len)
         (filter (\<lambda>m. virtual_ranges_overlap phys_addr len (pb_start m) (pb_size m)) (pm_mappings s)))"

definition phys_set_virtual_range_name :: "u64 \<Rightarrow> u64 \<Rightarrow> string option \<Rightarrow> phys_mem \<Rightarrow> phys_mem" where
  "phys_set_virtual_range_name vaddr len name s =
     s\<lparr>pm_mappings := map (\<lambda>b. if virtual_ranges_overlap vaddr len (pb_map_vaddr b) (pb_map_size b)
         then b\<lparr>pb_name := copy_virtual_range_name name\<rparr> else b) (pm_mappings s)\<rparr>"

definition phys_set_virtual_range_memory_type :: "u64 \<Rightarrow> u64 \<Rightarrow> int \<Rightarrow> phys_mem \<Rightarrow> phys_mem" where
  "phys_set_virtual_range_memory_type vaddr len memory_type s =
     s\<lparr>pm_mappings := map (\<lambda>b. if virtual_ranges_overlap vaddr len (pb_map_vaddr b) (pb_map_size b)
         then b\<lparr>pb_type := memory_type\<rparr> else b) (pm_mappings s)\<rparr>"

end
