(* ===== verification/Physical_Arena.thy ===== *)
theory Physical_Arena
  imports Physical_Memory
begin

text \<open>
  The arena of \<open>PhysicalMemory\<close>: at every moment the free ranges and the allocated blocks partition
  the direct memory. \<open>Alloc\<close> is first fit over the aligned positions, \<open>Available\<close> reports the largest
  hole, \<open>Release\<close> takes out exactly the bytes it is asked for and keeps the attributes of the others.
\<close>

subsection \<open>Entries of an ordered map that are tiles\<close>

abbreviation entry_sz :: "('v \<Rightarrow> u64) \<Rightarrow> u64 \<times> 'v \<Rightarrow> u64" where
  "entry_sz f p \<equiv> f (snd p)"

lemma tiled_omap_wf: "tiled fst sz m \<Longrightarrow> omap_wf m"
  unfolding omap_wf_def by (rule tiled_sorted)

lemma upper_bound_tiled: "upper_bound k m = (bs, fs) \<Longrightarrow> upper_bound_by fst k m = (bs, fs)"
  by (simp add: upper_bound_def)

lemma tiled_emplace:
  assumes "tiled fst (entry_sz f) m" and "range_ok k (f v)"
    and "span k (f v) \<inter> owned fst (entry_sz f) m = {}"
  obtains bs fs where "m = bs @ fs" and "emplace k v m = bs @ (k, v) # fs"
    and "tiled fst (entry_sz f) (emplace k v m)"
proof -
  obtain bs fs where lb: "lower_bound_by fst k m = (bs, fs)" by fastforce
  note s = lower_split [OF assms(1) lb]
  have k: "k \<in> span k (f v)" using range_okD(1) [OF assms(2)] by (simp add: span_iff)
  have left: "\<forall>p \<in> set bs. fst p + f (snd p) \<le> k"
  proof
    fix p assume p: "p \<in> set bs"
    show "fst p + f (snd p) \<le> k"
    proof (rule ccontr)
      assume "\<not> ?thesis"
      then have "k \<in> owned fst (entry_sz f) m" using p s by (auto simp: owned_iff less_imp_le intro!: bexI [of _ p])
      with assms(3) k show False by blast
    qed
  qed
  have right: "\<forall>q \<in> set fs. k + f v \<le> fst q"
  proof
    fix q assume q: "q \<in> set fs"
    show "k + f v \<le> fst q"
    proof (rule ccontr)
      assume "\<not> ?thesis"
      then have "fst q \<in> span k (f v)" using q s by (auto simp: span_iff)
      moreover have "fst q \<in> owned fst (entry_sz f) m"
        using q s(1) tiled_size_pos [OF assms(1), of q] by (force simp: owned_iff)
      ultimately show False using assms(3) by blast
    qed
  qed
  have "\<forall>q \<in> set fs. k < fst q" using right range_okD(1) [OF assms(2)] by fastforce
  then have e: "emplace k v m = bs @ (k, v) # fs" using s emplace_middle by simp
  have "tiled fst (entry_sz f) (bs @ (k, v) # fs)"
    using assms(1,2) left right s(1) by auto
  then have "tiled fst (entry_sz f) (emplace k v m)" by (simp only: e)
  with that s(1) e show thesis by blast
qed

lemma set_entry_middle: "omap_wf (bs @ (k, v) # fs) \<Longrightarrow> set_entry k v' (bs @ (k, v) # fs) = bs @ (k, v') # fs"
  by (auto simp: set_entry_def intro!: map_idI)

text \<open>Pieces of one tile in its place.\<close>

lemma tiled_pieces:
  assumes "tiled st sz (bs @ b # fs)" and "tiled st sz ps"
    and "\<forall>p \<in> set ps. st b \<le> st p \<and> st p + sz p \<le> st b + sz b"
  shows "tiled st sz (bs @ ps @ fs)"
proof -
  have "\<forall>a \<in> set bs. \<forall>p \<in> set ps. st a + sz a \<le> st p" and "\<forall>p \<in> set ps. \<forall>c \<in> set fs. st p + sz p \<le> st c"
    using assms by (fastforce intro: order_trans)+
  with assms show ?thesis by auto
qed

subsection \<open>The invariant\<close>

definition blocks_ok :: "ablock omap \<Rightarrow> bool" where
  "blocks_ok m \<longleftrightarrow> tiled fst (entry_sz pb_size) m \<and> (\<forall>p \<in> set m. fst p = pb_start (snd p))"

definition block_pts :: "u64 \<times> ablock \<Rightarrow> (nat \<times> int \<times> bool \<times> string) set" where
  "block_pts p = (\<lambda>a. (a, pb_type (snd p), pb_pool (snd p), pb_name (snd p))) ` span (fst p) (pb_size (snd p))"

text \<open>The allocated bytes with what is known of each, and the allocated bytes alone.\<close>

definition alloc_pts :: "phys_mem \<Rightarrow> (nat \<times> int \<times> bool \<times> string) set" where
  "alloc_pts s = cover block_pts (pm_physical s)"

definition alloc_bytes :: "phys_mem \<Rightarrow> nat set" where
  "alloc_bytes s = owned fst (entry_sz pb_size) (pm_physical s)"

definition phys_inv :: "u64 \<Rightarrow> phys_mem \<Rightarrow> bool" where
  "phys_inv sz s \<longleftrightarrow> free_inv (pm_free s) \<and> blocks_ok (pm_physical s) \<and> sz \<le> U64_MAX \<and>
     free_bytes (pm_free s) \<inter> alloc_bytes s = {} \<and> free_bytes (pm_free s) \<union> alloc_bytes s = {0..<sz}"

lemma block_pts_bytes: "fst ` block_pts p = span (fst p) (pb_size (snd p))"
  by (auto simp: block_pts_def image_image)

lemma alloc_pts_bytes: "fst ` alloc_pts s = alloc_bytes s"
  by (simp add: alloc_pts_def alloc_bytes_def owned_def cover_def image_UN block_pts_bytes)

lemma block_pts_owned: "x \<in> cover block_pts ms \<Longrightarrow> fst x \<in> owned fst (entry_sz pb_size) ms"
  by (force simp: cover_iff owned_iff block_pts_def span_iff)

lemma block_pts_off:
  "x \<in> cover block_pts ms \<Longrightarrow> owned fst (entry_sz pb_size) ms \<inter> span k n = {} \<Longrightarrow> fst x \<notin> span k n"
  using block_pts_owned by blast

lemma phys_init_inv: "phys_init flexible_size = Some s \<Longrightarrow> phys_size flexible_size = Some sz \<Longrightarrow> phys_inv sz s"
  by (auto simp: phys_init_def phys_inv_def phys_size_def phys_total_size_def blocks_ok_def alloc_bytes_def
      free_inv_def U64_MAX_def span_def split: if_splits)

lemma phys_inv_parts:
  assumes "phys_inv sz s"
  shows "free_inv (pm_free s)" and "blocks_ok (pm_physical s)"
    and "tiled fst (entry_sz pb_size) (pm_physical s)" and "omap_wf (pm_physical s)"
    and "free_bytes (pm_free s) \<inter> alloc_bytes s = {}" and "free_bytes (pm_free s) \<union> alloc_bytes s = {0..<sz}"
    and "sz \<le> U64_MAX"
  using assms tiled_omap_wf by (auto simp: phys_inv_def blocks_ok_def)

subsection \<open>First fit\<close>

definition fits_in :: "u64 \<Rightarrow> u64 \<Rightarrow> u64 \<Rightarrow> u64 \<Rightarrow> free_list \<Rightarrow> u64 \<Rightarrow> bool" where
  "fits_in ss se len al m q \<longleftrightarrow> ss \<le> q \<and> aligned_to al q \<and> q + len \<le> se \<and>
     (\<exists>r \<in> set m. fst r \<le> q \<and> q + len \<le> fst r + snd r)"

lemma alloc_search_spec:
  assumes "\<forall>r \<in> set m. fst r + snd r \<le> U64_MAX" and "sorted_wrt (\<lambda>a b. fst a + snd a < fst b) m"
    and "ss < se" and "se \<le> U64_MAX" and "0 < len"
  shows "case alloc_search ss se len al m of
      None \<Rightarrow> (\<forall>q. \<not> fits_in ss se len al m q)
    | Some (r, p) \<Rightarrow> r \<in> set m \<and> fst r \<le> p \<and> p + len \<le> fst r + snd r \<and> fits_in ss se len al m p \<and>
        (\<forall>q. fits_in ss se len al m q \<longrightarrow> p \<le> q)"
  using assms(1,2)
proof (induction m)
  case (Cons r m)
  define e where "e = min (fst r + snd r) se"
  define l where "l = max (fst r) ss"
  have bnd: "fst r + snd r \<le> U64_MAX" and "\<forall>b \<in> set m. fst r + snd r < fst b" using Cons.prems by auto
  have later: "fits_in ss se len al (r # m) q \<longleftrightarrow>
      (l \<le> q \<and> aligned_to al q \<and> q + len \<le> e) \<or> fits_in ss se len al m q" for q
    by (auto simp: fits_in_def e_def l_def)
  have beyond: "fits_in ss se len al m q \<Longrightarrow> fst r + snd r < q" for q
    using Cons.prems by (fastforce simp: fits_in_def)
  have IH: "case alloc_search ss se len al m of
      None \<Rightarrow> (\<forall>q. \<not> fits_in ss se len al m q)
    | Some (r, p) \<Rightarrow> r \<in> set m \<and> fst r \<le> p \<and> p + len \<le> fst r + snd r \<and> fits_in ss se len al m p \<and>
        (\<forall>q. fits_in ss se len al m q \<longrightarrow> p \<le> q)"
    using Cons.prems by (intro Cons.IH) auto
  have lb: "l \<le> U64_MAX" using bnd assms by (auto simp: l_def)
  have skip: "alloc_search ss se len al (r # m) = alloc_search ss se len al m \<Longrightarrow>
      \<forall>q. l \<le> q \<longrightarrow> aligned_to al q \<longrightarrow> \<not> q + len \<le> e \<Longrightarrow> ?case"
    using IH later by (auto split: option.splits)
  show ?case
  proof (cases "fst r < se")
    case False
    then have "\<not> fits_in ss se len al (r # m) q" for q
      using Cons.prems assms(5) by (fastforce simp: fits_in_def)
    with False show ?thesis by simp
  next
    case True
    show ?thesis
    proof (cases "get_aligned_pos l al")
      case None
      have "\<not> q + len \<le> e" if "l \<le> q" "aligned_to al q" for q
        using get_aligned_pos_None [OF lb None that] bnd by (auto simp: e_def)
      with None True bnd show ?thesis
        by (intro skip) (auto simp: add64_le e_def [symmetric] l_def [symmetric] Let_def)
    next
      case (Some p)
      note p = get_aligned_pos_Some [OF lb Some]
      show ?thesis
      proof (cases "p > e \<or> len > e - p")
        case bad: True
        then have "\<not> q + len \<le> e" if "l \<le> q" "aligned_to al q" for q
          using p(4) [OF that] assms(5) by auto
        moreover have "alloc_search ss se len al (r # m) = alloc_search ss se len al m"
          using True Some bad bnd by (simp add: add64_le e_def [symmetric] l_def [symmetric] Let_def)
        ultimately show ?thesis by (intro skip) auto
      next
        case False
        then have fit: "p + len \<le> e" by auto
        have "alloc_search ss se len al (r # m) = Some (r, p)"
          using True Some False bnd p(1) by (simp add: add64_le e_def [symmetric] l_def [symmetric] Let_def)
        moreover have "p \<le> q" if "fits_in ss se len al (r # m) q" for q
          using that later [of q] beyond [of q] p(4) [of q] fit by (auto simp: e_def)
        moreover have "fits_in ss se len al (r # m) p" using later [of p] p fit by auto
        ultimately show ?thesis using fit p(1) by (auto simp: e_def l_def)
      qed
    qed
  qed
qed (simp add: fits_in_def)

lemma apart_ivals_sorted: "apart (ivals_of m) \<Longrightarrow> sorted_wrt (\<lambda>a b. fst a + snd a < fst b) m"
  by (simp add: apart_def ivals_of_def sorted_wrt_map)

definition fits :: "u64 \<Rightarrow> u64 \<Rightarrow> u64 \<Rightarrow> u64 \<Rightarrow> nat set \<Rightarrow> u64 \<Rightarrow> bool" where
  "fits ss se len al F q \<longleftrightarrow> ss \<le> q \<and> aligned_to al q \<and> q + len \<le> se \<and> span q len \<subseteq> F"

lemma fits_in_free:
  assumes "free_inv m" and "0 < len"
  shows "fits_in ss se len al m q \<longleftrightarrow> fits ss se len al (free_bytes m) q"
proof -
  have "span q len \<subseteq> free_bytes m" if "r \<in> set m" "fst r \<le> q" "q + len \<le> fst r + snd r" for r
    using that by (force simp: free_bytes_iff span_iff)
  then show ?thesis
    using free_contains_one [OF assms, of q] by (auto simp: fits_in_def fits_def)
qed

text \<open>The iterator of \<open>Alloc\<close> loses no candidate: what it skips ends before \<open>search_start\<close>.\<close>

lemma alloc_start_complete:
  assumes "free_inv m" and "upper_bound ss m = (bs, fs)" and "0 < len"
    and "it = (if bs \<noteq> [] then step_back (bs, fs) else (bs, fs))"
  shows "fits_in ss se len al (snd it) q \<longleftrightarrow> fits_in ss se len al m q"
    and "set (snd it) \<subseteq> set m" and "sorted_wrt (\<lambda>a b. fst a + snd a < fst b) (snd it)"
proof -
  note ub = upper_boundD [OF assms(2) free_inv_omap_wf [OF assms(1)]]
  have m: "m = fst it @ snd it" using assms(4) ub(1) by (auto simp: step_back_def)
  then show "set (snd it) \<subseteq> set m" by auto
  have so: "sorted_wrt (\<lambda>a b. fst a + snd a < fst b) m"
    using assms(1) by (simp add: free_inv_def apart_ivals_sorted)
  have parts: "sorted_wrt (\<lambda>a b. fst a + snd a < fst b) (fst it @ snd it)" using so m by simp
  then show "sorted_wrt (\<lambda>a b. fst a + snd a < fst b) (snd it)" by (simp only: sorted_wrt_append)
  have "fst r + snd r < ss" if r: "r \<in> set (fst it)" for r
  proof -
    have it: "it = (butlast bs, last bs # fs)" "bs \<noteq> []"
      using r assms(4) by (auto simp: step_back_def split: if_splits)
    then have "fst r + snd r < fst (last bs)" using parts r by (simp add: sorted_wrt_append)
    moreover have "fst (last bs) \<le> ss" using ub(2) it(2) by simp
    ultimately show ?thesis by simp
  qed
  then show "fits_in ss se len al (snd it) q \<longleftrightarrow> fits_in ss se len al m q"
    unfolding fits_in_def by (subst m) fastforce
qed

lemma phys_alloc_spec:
  assumes inv: "phys_inv sz s" and flex: "phys_size fx = Some sz" and len: "0 < len"
  shows "\<exists>s'. (phys_alloc fx ss se len al ty pool s = Some (None, s') \<and> s' = s \<and>
                (\<forall>q. \<not> fits ss (min se sz) len al (free_bytes (pm_free s)) q))
     \<or> (\<exists>p. phys_alloc fx ss se len al ty pool s = Some (Some p, s') \<and>
          fits ss (min se sz) len al (free_bytes (pm_free s)) p \<and>
          (\<forall>q. fits ss (min se sz) len al (free_bytes (pm_free s)) q \<longrightarrow> p \<le> q) \<and>
          free_bytes (pm_free s') = free_bytes (pm_free s) - span p len \<and>
          pm_physical s' = emplace p (new_block p len ty pool) (pm_physical s) \<and>
          p \<notin> fst ` set (pm_physical s) \<and>
          alloc_pts s' = alloc_pts s \<union> (\<lambda>a. (a, ty, pool, [])) ` span p len \<and>
          pm_mappings s' = pm_mappings s \<and> phys_inv sz s')"
proof (cases "ss < min se sz")
  case False
  then have "min se sz \<le> ss" by (simp only: not_less)
  then have "phys_alloc fx ss se len al ty pool s = Some (None, s)"
    by (simp only: phys_alloc_def flex Let_def bind.bind_lunit if_True)
  moreover have "\<not> fits ss (min se sz) len al (free_bytes (pm_free s)) q" for q
    using False len by (auto simp: fits_def)
  ultimately show ?thesis by blast
next
  case True
  note P = phys_inv_parts [OF inv]
  obtain bs fs where ub: "upper_bound ss (pm_free s) = (bs, fs)" by fastforce
  define it where "it = (if bs \<noteq> [] then step_back (bs, fs) else (bs, fs))"
  note start = alloc_start_complete [OF P(1) ub len it_def]
  have bnd: "\<forall>r \<in> set (snd it). fst r + snd r \<le> U64_MAX"
    using P(1) start(2) by (auto simp: free_inv_def)
  have se: "min se sz \<le> U64_MAX" using P(7) by simp
  note search = alloc_search_spec [OF bnd start(3) True se len, of al]
  have fits: "fits_in ss (min se sz) len al (snd it) q \<longleftrightarrow> fits ss (min se sz) len al (free_bytes (pm_free s)) q" for q
    using start(1) fits_in_free [OF P(1) len] by simp
  have eq: "phys_alloc fx ss se len al ty pool s =
     (case alloc_search ss (min se sz) len al (snd it) of
        None \<Rightarrow> Some (None, s)
      | Some (rng, p) \<Rightarrow> if p \<in> fst ` set (pm_physical s) then None
          else Some (Some p, s\<lparr>pm_free := consume_free_range rng p len (pm_free s),
             pm_physical := emplace p (new_block p len ty pool) (pm_physical s)\<rparr>))"
    by (simp only: phys_alloc_def flex bind.bind_lunit Let_def iffD2 [OF not_le True] if_False ub fst_conv snd_conv it_def)
  show ?thesis
  proof (cases "alloc_search ss (min se sz) len al (snd it)")
    case None
    with search fits eq show ?thesis by auto
  next
    case (Some rp)
    obtain r p where rp: "rp = (r, p)" by fastforce
    have r: "r \<in> set (pm_free s)" "fst r \<le> p" "p + len \<le> fst r + snd r"
      and fit: "fits ss (min se sz) len al (free_bytes (pm_free s)) p"
      and least: "\<forall>q. fits ss (min se sz) len al (free_bytes (pm_free s)) q \<longrightarrow> p \<le> q"
      using search Some rp fits start(2) by auto
    have ok: "range_ok p len" and sub: "span p len \<subseteq> free_bytes (pm_free s)" and psz: "p + len \<le> sz"
      using fit len P(7) by (auto simp: fits_def range_ok_def)
    have away: "span p len \<inter> alloc_bytes s = {}" using sub P(5) by blast
    define m' where "m' = emplace p (new_block p len ty pool) (pm_physical s)"
    define s' where "s' = s\<lparr>pm_free := consume_free_range r p len (pm_free s), pm_physical := m'\<rparr>"
    have sz_new: "pb_size (new_block p len ty pool) = len" "pb_start (new_block p len ty pool) = p"
      by (simp_all add: new_block_def)
    obtain ms ns where m: "pm_physical s = ms @ ns" "m' = ms @ (p, new_block p len ty pool) # ns"
      "tiled fst (entry_sz pb_size) m'"
      using tiled_emplace [OF P(3), of p "new_block p len ty pool"] ok away
      by (auto simp: sz_new m'_def alloc_bytes_def)
    have fresh: "p \<notin> fst ` set (pm_physical s)"
    proof
      assume "p \<in> fst ` set (pm_physical s)"
      then obtain b where "(p, b) \<in> set (pm_physical s)" by auto
      then have "p \<in> alloc_bytes s"
        using tiled_size_pos [OF P(3)] by (force simp: alloc_bytes_def owned_iff)
      moreover have "p \<in> span p len" using len by (simp add: span_iff)
      ultimately show False using away by blast
    qed
    have res: "phys_alloc fx ss se len al ty pool s = Some (Some p, s')"
      using eq Some rp fresh by (simp add: s'_def m'_def)
    note cons = consume_free_range_correct [OF P(1) r(1) len r(2,3)]
    have free: "free_bytes (pm_free s') = free_bytes (pm_free s) - span p len"
      by (simp add: s'_def cons)
    have pts: "alloc_pts s' = alloc_pts s \<union> (\<lambda>a. (a, ty, pool, [])) ` span p len"
      by (auto simp: s'_def alloc_pts_def m block_pts_def new_block_def)
    have ab: "alloc_bytes s' = alloc_bytes s \<union> span p len"
      by (auto simp: s'_def alloc_bytes_def m sz_new)
    have "blocks_ok m'"
      using m P(2) sz_new by (auto simp: blocks_ok_def)
    then have "phys_inv sz s'"
      unfolding phys_inv_def ab free using P sub away by (auto simp: s'_def cons)
    then show ?thesis
      using res fit least free pts fresh by (intro exI [of _ s']) (auto simp: s'_def m'_def)
  qed
qed

subsection \<open>The largest hole\<close>

definition hole :: "u64 \<Rightarrow> u64 \<Rightarrow> u64 \<Rightarrow> nat set \<Rightarrow> u64 \<Rightarrow> u64 \<Rightarrow> bool" where
  "hole ss se al F q n \<longleftrightarrow> 0 < n \<and> fits ss se n al F q"

lemma available_search_spec:
  assumes "\<forall>r \<in> set m. fst r + snd r \<le> U64_MAX" and "sorted_wrt (\<lambda>a b. fst a + snd a < fst b) m"
    and "ss < se" and "se \<le> U64_MAX"
  shows "case available_search ss se al best m of (p, n) \<Rightarrow>
     snd best \<le> n \<and> ((p, n) = best \<or> snd best < n \<and> fits_in ss se n al m p) \<and>
     (\<forall>q k. 0 < k \<longrightarrow> fits_in ss se k al m q \<longrightarrow> k \<le> n)"
  using assms(1,2)
proof (induction m arbitrary: best)
  case (Cons r m)
  define e where "e = min (fst r + snd r) se"
  define l where "l = max (fst r) ss"
  define best' where "best' = (case get_aligned_pos l al of None \<Rightarrow> best
     | Some p \<Rightarrow> if p \<ge> l \<and> p < e \<and> e - p > snd best then (p, e - p) else best)"
  have bnd: "fst r + snd r \<le> U64_MAX" using Cons.prems by auto
  have lb: "l \<le> U64_MAX" using bnd assms by (auto simp: l_def)
  have later: "fits_in ss se k al (r # m) q \<longleftrightarrow>
      (l \<le> q \<and> aligned_to al q \<and> q + k \<le> e) \<or> fits_in ss se k al m q" for q k
    by (auto simp: fits_in_def e_def l_def)
  have here: "k \<le> snd best'" if "0 < k" "l \<le> q" "aligned_to al q" "q + k \<le> e" for q k
  proof (cases "get_aligned_pos l al")
    case None
    then show ?thesis using get_aligned_pos_None [OF lb None that(2,3)] that(4) bnd by (auto simp: e_def)
  next
    case (Some p)
    then show ?thesis
      using get_aligned_pos_Some [OF lb Some] that by (fastforce simp: best'_def)
  qed
  have fit: "best' = best \<or> snd best < snd best' \<and> fits_in ss se (snd best') al (r # m) (fst best')"
    using get_aligned_pos_Some [OF lb] later by (auto simp: best'_def split: option.splits)
  then have ge: "snd best \<le> snd best'" by auto
  show ?case
  proof (cases "fst r < se")
    case False
    then have "\<not> fits_in ss se k al (r # m) q" if "0 < k" for q k
      using Cons.prems that by (fastforce simp: fits_in_def)
    with False show ?thesis by (cases best) auto
  next
    case True
    obtain p n where pn: "available_search ss se al best' m = (p, n)" by fastforce
    have eq: "available_search ss se al best (r # m) = (p, n)"
      using True bnd pn by (simp add: add64_le e_def [symmetric] l_def [symmetric] best'_def [symmetric] Let_def)
    have IH: "snd best' \<le> n \<and> ((p, n) = best' \<or> snd best' < n \<and> fits_in ss se n al m p) \<and>
       (\<forall>q k. 0 < k \<longrightarrow> fits_in ss se k al m q \<longrightarrow> k \<le> n)"
      using Cons.IH [of best'] Cons.prems pn by auto
    have "(p, n) = best \<or> snd best < n \<and> fits_in ss se n al (r # m) p"
      using IH fit ge later [of n p] by auto
    moreover have "k \<le> n" if "0 < k" "fits_in ss se k al (r # m) q" for q k
      using that later [of k q] here [of k q] IH by auto
    ultimately show ?thesis using IH ge eq by auto
  qed
qed (auto simp: fits_in_def)

lemma phys_available_spec:
  assumes inv: "phys_inv sz s" and flex: "phys_size fx = Some sz"
  shows "case phys_available fx ss se al s of None \<Rightarrow> False
     | Some None \<Rightarrow> \<forall>q n. \<not> hole ss (min se sz) al (free_bytes (pm_free s)) q n
     | Some (Some (p, n)) \<Rightarrow> hole ss (min se sz) al (free_bytes (pm_free s)) p n \<and>
         (\<forall>q k. hole ss (min se sz) al (free_bytes (pm_free s)) q k \<longrightarrow> k \<le> n)"
proof (cases "ss < min se sz")
  case False
  then have "min se sz \<le> ss" by (simp only: not_less)
  then have "phys_available fx ss se al s = Some None"
    by (simp only: phys_available_def flex Let_def bind.bind_lunit if_True)
  moreover have "\<not> hole ss (min se sz) al (free_bytes (pm_free s)) q n" for q n
    using False by (auto simp: fits_def hole_def)
  ultimately show ?thesis by simp
next
  case True
  note P = phys_inv_parts [OF inv]
  have bnd: "\<forall>r \<in> set (pm_free s). fst r + snd r \<le> U64_MAX"
    and so: "sorted_wrt (\<lambda>a b. fst a + snd a < fst b) (pm_free s)"
    using P(1) by (auto simp: free_inv_def apart_ivals_sorted)
  have se: "min se sz \<le> U64_MAX" using P(7) by simp
  obtain p n where pn: "available_search ss (min se sz) al (0, 0) (pm_free s) = (p, n)" by fastforce
  note spec = available_search_spec [OF bnd so True se, where al = al and best = "(0, 0)"]
  have hole: "hole ss (min se sz) al (free_bytes (pm_free s)) q k \<longleftrightarrow>
      0 < k \<and> fits_in ss (min se sz) k al (pm_free s) q" for q k
    using fits_in_free [OF P(1)] by (auto simp: hole_def)
  have "phys_available fx ss se al s = Some (if n = 0 then None else Some (p, n))"
    by (simp only: phys_available_def flex bind.bind_lunit Let_def iffD2 [OF not_le True] if_False pn snd_conv)
  with spec pn show ?thesis by (auto simp: hole)
qed

subsection \<open>Release\<close>

text \<open>The allocated entry that holds a range.\<close>

definition holds :: "u64 \<Rightarrow> u64 \<Rightarrow> u64 \<times> ablock \<Rightarrow> bool" where
  "holds start len p \<longleftrightarrow> fst p \<le> start \<and> start + len \<le> fst p + pb_size (snd p)"

lemma release_target_spec:
  assumes ok: "blocks_ok (pm_physical s)" and len: "0 < len"
  shows "case release_target start len s of
      None \<Rightarrow> \<forall>p \<in> set (pm_physical s). holds start len p \<longrightarrow> pb_pool (snd p)
    | Some (k, b) \<Rightarrow> (k, b) \<in> set (pm_physical s) \<and> holds start len (k, b) \<and> \<not> pb_pool b"
proof -
  have t: "tiled fst (entry_sz pb_size) (pm_physical s)" and st: "\<forall>p \<in> set (pm_physical s). fst p = pb_start (snd p)"
    using ok by (auto simp: blocks_ok_def)
  obtain bs fs where ub: "upper_bound start (pm_physical s) = (bs, fs)" by fastforce
  note split = upper_split [OF t upper_bound_tiled [OF ub]]
  note hold = upper_split_last [OF t upper_bound_tiled [OF ub]]
  show ?thesis
  proof (cases "bs = []")
    case True
    then have "release_target start len s = None" using ub by (simp add: release_target_def)
    moreover have "\<not> holds start len p" if "p \<in> set (pm_physical s)" for p
      using hold(1) [OF that] True len by (auto simp: holds_def)
    ultimately show ?thesis by simp
  next
    case False
    obtain k b where kb: "last bs = (k, b)" by fastforce
    then have kbs: "(k, b) \<in> set bs" using False by (metis last_in_set)
    then have kbm: "(k, b) \<in> set (pm_physical s)" "k \<le> start" using split by auto
    then have k: "pb_start b = k" using bspec [OF st kbm(1)] by simp
    then have bnd: "k + pb_size b \<le> U64_MAX" using tiled_end [OF t kbm(1)] by simp
    then have e: "pb_end b = k + pb_size b" by (simp add: pb_end_def k add64_le)
    have cond: "(pb_pool b \<or> start < pb_start b \<or> start \<ge> pb_end b \<or> len > sub64 (pb_end b) start) \<longleftrightarrow>
       pb_pool b \<or> \<not> holds start len (k, b)"
    proof (cases "start < k + pb_size b")
      case True
      then have "sub64 (k + pb_size b) start = k + pb_size b - start" using bnd by (simp add: sub64_le)
      with True kbm(2) k e show ?thesis by (auto simp: holds_def)
    next
      case False
      with len k e show ?thesis by (auto simp: holds_def)
    qed
    have uniq: "p = (k, b)" if "p \<in> set (pm_physical s)" "holds start len p" for p
      using hold(2) [OF that(1)] that(2) len kb by (auto simp: holds_def)
    have res: "release_target start len s = (if pb_pool b \<or> \<not> holds start len (k, b) then None else Some (k, b))"
      by (simp only: release_target_def Let_def ub fst_conv False if_False kb prod.case cond)
    show ?thesis
    proof (cases "pb_pool b \<or> \<not> holds start len (k, b)")
      case True
      have "pb_pool (snd p)" if "p \<in> set (pm_physical s)" "holds start len p" for p
        using uniq [OF that] True that(2) by (metis snd_conv)
      then show ?thesis by (simp only: res True if_True option.case) blast
    next
      case False
      then show ?thesis by (simp only: res if_False option.case prod.case) (simp add: kbm)
    qed
  qed
qed

text \<open>What a release leaves of its block: the part before the range and the part behind it.\<close>

lemma tag_filter: "(\<lambda>a. (a, t)) ` {a \<in> A. P a} = {x \<in> (\<lambda>a. (a, t)) ` A. P (fst x)}"
  by auto

lemma piece_pts:
  assumes "pb_type c = pb_type b" and "pb_pool c = pb_pool b" and "pb_name c = pb_name b"
    and "span q (pb_size c) = {a \<in> span k (pb_size b). P a}"
  shows "block_pts (q, c) = {x \<in> block_pts (k, b). P (fst x)}"
  by (simp only: block_pts_def fst_conv snd_conv assms tag_filter)

lemma release_pieces:
  assumes ok: "blocks_ok (bs @ (k, b) # fs)" and m: "pm_physical s = bs @ (k, b) # fs"
    and len: "0 < len" and hold: "holds start len (k, b)"
    and target: "release_target start len s = Some (k, b)"
  shows "\<exists>out ps. phys_release start len s =
       Some (out, s\<lparr>pm_physical := bs @ ps @ fs, pm_free := add_free_range start len (pm_free s)\<rparr>) \<and>
     tiled fst (entry_sz pb_size) ps \<and>
     (\<forall>p \<in> set ps. fst p = pb_start (snd p) \<and> k \<le> fst p \<and> fst p + pb_size (snd p) \<le> k + pb_size b) \<and>
     cover block_pts ps = {x \<in> block_pts (k, b). fst x \<notin> span start len}"
proof -
  have t: "tiled fst (entry_sz pb_size) (bs @ (k, b) # fs)" using ok by (simp only: blocks_ok_def)
  have k: "pb_start b = k" using ok by (simp add: blocks_ok_def)
  have wf: "omap_wf (bs @ (k, b) # fs)" by (rule tiled_omap_wf [OF t])
  have bnd: "k + pb_size b \<le> U64_MAX" using tiled_end [OF t, of "(k, b)"] by simp
  have before: "\<forall>p \<in> set bs. fst p < k" using wf by simp
  have after: "\<forall>q \<in> set fs. k + pb_size b \<le> fst q" using t by simp
  have h: "k \<le> start" "start + len \<le> k + pb_size b" using hold by (simp_all add: holds_def)
  have u: "pb_end b = k + pb_size b" "add64 start len = start + len" "sub64 start k = start - k"
    "sub64 (k + pb_size b) (start + len) = k + pb_size b - (start + len)"
    "add64 k len = k + len" "sub64 (pb_size b) len = pb_size b - len"
    using h bnd by (simp_all add: pb_end_def k u64_simps)
  have conclude: ?thesis
    if "\<exists>out. phys_release start len s =
         Some (out, s\<lparr>pm_physical := bs @ ps @ fs, pm_free := add_free_range start len (pm_free s)\<rparr>)"
      and "tiled fst (entry_sz pb_size) ps"
      and "\<forall>p \<in> set ps. fst p = pb_start (snd p) \<and> k \<le> fst p \<and> fst p + pb_size (snd p) \<le> k + pb_size b"
      and "cover block_pts ps = {x \<in> block_pts (k, b). fst x \<notin> span start len}" for ps
    using that by blast
  consider (all) "start = k" "len = pb_size b"
    | (mid) "k < start" "start + len < k + pb_size b"
    | (head) "start = k" "len < pb_size b"
    | (tail) "k < start" "start + len = k + pb_size b"
    using h by fastforce
  then show ?thesis
  proof cases
    case all
    have tg: "release_target k (pb_size b) s = Some (k, b)" using target all by simp
    from all show ?thesis
      using erase_key_middle [OF wf] m
      by (intro exI [of _ "(pb_map_vaddr b, pb_map_size b, pb_gpu b)"] exI [of _ "[]"])
        (auto simp: phys_release_def tg k Let_def block_pts_def)
  next
    case mid
    define l where "l = shrink_block (start - k) b"
    define r where "r = (let r = b\<lparr>pb_start := start + len, pb_size := k + pb_size b - (start + len)\<rparr>
       in if pb_map_vaddr r \<noteq> 0
          then r\<lparr>pb_map_vaddr := add64 (pb_map_vaddr r) (sub64 (pb_start r) k), pb_map_size := pb_size r\<rparr> else r)"
    have l: "pb_size l = start - k" "pb_start l = k" "pb_type l = pb_type b" "pb_pool l = pb_pool b" "pb_name l = pb_name b"
      by (simp_all add: l_def shrink_block_def Let_def k)
    have r: "pb_size r = k + pb_size b - (start + len)" "pb_start r = start + len" "pb_type r = pb_type b"
      "pb_pool r = pb_pool b" "pb_name r = pb_name b"
      by (simp_all add: r_def Let_def)
    have "emplace (start + len) r (set_entry k l (bs @ (k, b) # fs)) = bs @ [(k, l), (start + len, r)] @ fs"
      using emplace_middle [of "bs @ [(k, l)]" "start + len" fs r] before after h mid
      by (fastforce simp: set_entry_middle [OF wf])
    then have "\<exists>out. phys_release start len s =
       Some (out, s\<lparr>pm_physical := bs @ [(k, l), (start + len, r)] @ fs, pm_free := add_free_range start len (pm_free s)\<rparr>)"
      using mid by (auto simp: phys_release_def target m k u Let_def l_def r_def)
    moreover have "block_pts (k, l) = {x \<in> block_pts (k, b). fst x < start}"
      by (rule piece_pts) (use l h in \<open>auto simp: span_iff\<close>)
    moreover have "block_pts (start + len, r) = {x \<in> block_pts (k, b). start + len \<le> fst x}"
      by (rule piece_pts) (use r h in \<open>auto simp: span_iff\<close>)
    ultimately show ?thesis
      using l r h mid bnd len
      by (intro conclude [of "[(k, l), (start + len, r)]"]) (auto simp: range_ok_def span_iff)
  next
    case head
    have tg: "release_target k len s = Some (k, b)" using target head by simp
    define r where "r = (let r = b\<lparr>pb_start := k + len, pb_size := pb_size b - len\<rparr>
       in if pb_map_vaddr r \<noteq> 0
          then r\<lparr>pb_map_vaddr := add64 (pb_map_vaddr r) len, pb_map_size := sub64 (pb_map_size r) len\<rparr> else r)"
    have r: "pb_size r = pb_size b - len" "pb_start r = k + len" "pb_type r = pb_type b"
      "pb_pool r = pb_pool b" "pb_name r = pb_name b"
      by (simp_all add: r_def Let_def)
    have "emplace (k + len) r (erase_key k (bs @ (k, b) # fs)) = bs @ [(k + len, r)] @ fs"
      using emplace_middle [of bs "k + len" fs r] before after head
      by (fastforce simp: erase_key_middle [OF wf])
    then have "\<exists>out. phys_release start len s =
       Some (out, s\<lparr>pm_physical := bs @ [(k + len, r)] @ fs, pm_free := add_free_range start len (pm_free s)\<rparr>)"
      using head by (auto simp: phys_release_def tg m k u Let_def r_def)
    moreover have "block_pts (k + len, r) = {x \<in> block_pts (k, b). fst x \<notin> span start len}"
      by (rule piece_pts) (use r h head in \<open>auto simp: span_iff\<close>)
    ultimately show ?thesis
      using r h head bnd by (intro conclude [of "[(k + len, r)]"]) (auto simp: range_ok_def)
  next
    case tail
    define l where "l = shrink_block (start - k) b"
    have l: "pb_size l = start - k" "pb_start l = k" "pb_type l = pb_type b" "pb_pool l = pb_pool b" "pb_name l = pb_name b"
      by (simp_all add: l_def shrink_block_def Let_def k)
    have "set_entry k l (bs @ (k, b) # fs) = bs @ [(k, l)] @ fs" by (simp add: set_entry_middle [OF wf])
    then have "\<exists>out. phys_release start len s =
       Some (out, s\<lparr>pm_physical := bs @ [(k, l)] @ fs, pm_free := add_free_range start len (pm_free s)\<rparr>)"
      using tail by (auto simp: phys_release_def target m k u Let_def l_def)
    moreover have "block_pts (k, l) = {x \<in> block_pts (k, b). fst x \<notin> span start len}"
      by (rule piece_pts) (use l h tail in \<open>auto simp: span_iff\<close>)
    ultimately show ?thesis
      using l h tail bnd by (intro conclude [of "[(k, l)]"]) (auto simp: range_ok_def)
  qed
qed

lemma phys_release_spec:
  assumes inv: "phys_inv sz s" and len: "0 < len"
  shows "case phys_release start len s of
      None \<Rightarrow> \<forall>p \<in> set (pm_physical s). holds start len p \<longrightarrow> pb_pool (snd p)
    | Some (out, s') \<Rightarrow> (\<exists>p \<in> set (pm_physical s). holds start len p \<and> \<not> pb_pool (snd p)) \<and>
        alloc_pts s' = {x \<in> alloc_pts s. fst x \<notin> span start len} \<and>
        free_bytes (pm_free s') = free_bytes (pm_free s) \<union> span start len \<and>
        pm_mappings s' = pm_mappings s \<and> phys_inv sz s'"
proof -
  note P = phys_inv_parts [OF inv]
  note target = release_target_spec [OF P(2) len, of start]
  show ?thesis
  proof (cases "release_target start len s")
    case None
    with target show ?thesis by (auto simp: phys_release_def)
  next
    case (Some kb)
    obtain k b where kb: "kb = (k, b)" by fastforce
    with Some target have kbm: "(k, b) \<in> set (pm_physical s)" "holds start len (k, b)" "\<not> pb_pool b" by auto
    obtain bs fs where m: "pm_physical s = bs @ (k, b) # fs" using split_list [OF kbm(1)] by blast
    from release_pieces [OF P(2) [unfolded m] m len kbm(2)] Some kb
    obtain out ps where res: "phys_release start len s =
         Some (out, s\<lparr>pm_physical := bs @ ps @ fs, pm_free := add_free_range start len (pm_free s)\<rparr>)"
      and ps: "tiled fst (entry_sz pb_size) ps"
        "\<forall>p \<in> set ps. fst p = pb_start (snd p) \<and> k \<le> fst p \<and> fst p + pb_size (snd p) \<le> k + pb_size b"
      and pts: "cover block_pts ps = {x \<in> block_pts (k, b). fst x \<notin> span start len}" by auto
    define s' where "s' = s\<lparr>pm_physical := bs @ ps @ fs, pm_free := add_free_range start len (pm_free s)\<rparr>"
    have t: "tiled fst (entry_sz pb_size) (bs @ (k, b) # fs)" using P(3) m by simp
    have t': "tiled fst (entry_sz pb_size) (bs @ ps @ fs)"
      by (rule tiled_pieces [OF t ps(1)]) (use ps(2) in auto)
    have ok': "blocks_ok (pm_physical s')"
      using t' ps P(2) m by (auto simp: blocks_ok_def s'_def)
    have inb: "span start len \<subseteq> span k (pb_size b)" using kbm(2) by (auto simp: holds_def span_iff)
    have away: "owned fst (entry_sz pb_size) bs \<inter> span k (pb_size b) = {}"
      "owned fst (entry_sz pb_size) fs \<inter> span k (pb_size b) = {}"
      using t by (force simp: owned_iff span_iff)+
    have off: "fst x \<notin> span start len"
      if "x \<in> cover block_pts ms" "owned fst (entry_sz pb_size) ms \<inter> span k (pb_size b) = {}" for x ms
      using block_pts_off [OF that] inb by blast
    have alloc: "alloc_pts s' = {x \<in> alloc_pts s. fst x \<notin> span start len}"
      using pts off [of _ bs] off [of _ fs] away inb by (auto simp: alloc_pts_def s'_def m)
    have bytes: "alloc_bytes s' = alloc_bytes s - span start len"
      unfolding alloc_pts_bytes [symmetric] alloc by (auto simp: image_iff)
    have sub: "span start len \<subseteq> alloc_bytes s"
      using inb by (auto simp: alloc_bytes_def m)
    have "k + pb_size b \<le> U64_MAX" using tiled_end [OF t, of "(k, b)"] by simp
    then have ok: "range_ok start len" using kbm(2) len by (auto simp: range_ok_def holds_def)
    have free: "free_inv (pm_free s')" "free_bytes (pm_free s') = free_bytes (pm_free s) \<union> span start len"
      using add_free_range_correct [OF P(1) ok] by (simp_all add: s'_def)
    have "phys_inv sz s'"
      unfolding phys_inv_def bytes free(2) using free(1) ok' P sub by auto
    with res alloc free kbm show ?thesis by (auto simp: s'_def)
  qed
qed

lemma phys_release_pool_spec:
  assumes inv: "phys_inv sz s"
  shows "case phys_release_pool_expansion a len s of
      None \<Rightarrow> True
    | Some s' \<Rightarrow> alloc_pts s' = {x \<in> alloc_pts s. fst x \<notin> span a len} \<and>
        free_bytes (pm_free s') = free_bytes (pm_free s) \<union> span a len \<and>
        pm_mappings s' = pm_mappings s \<and> phys_inv sz s'"
proof (cases "\<exists>b. map_of (pm_physical s) a = Some b \<and> pb_pool b \<and> pb_size b = len")
  case False
  then have "phys_release_pool_expansion a len s = None"
    by (auto simp: phys_release_pool_expansion_def split: option.splits)
  then show ?thesis by simp
next
  case True
  note P = phys_inv_parts [OF inv]
  from True obtain b where b: "map_of (pm_physical s) a = Some b" "pb_pool b" "pb_size b = len" by blast
  obtain bs fs where m: "pm_physical s = bs @ (a, b) # fs" using map_of_split [OF b(1)] .
  have t: "tiled fst (entry_sz pb_size) (bs @ (a, b) # fs)" using P(3) m by simp
  have ok: "range_ok a len" using t b by simp
  define s' where "s' = s\<lparr>pm_physical := bs @ fs, pm_free := add_free_range a len (pm_free s)\<rparr>"
  have res: "phys_release_pool_expansion a len s = Some s'"
    using b m erase_key_middle [of bs a b fs] P(4) by (simp add: phys_release_pool_expansion_def s'_def)
  have away: "owned fst (entry_sz pb_size) bs \<inter> span a len = {}"
    "owned fst (entry_sz pb_size) fs \<inter> span a len = {}"
    using t b(3) by (force simp: owned_iff span_iff)+
  have in_b: "fst x \<in> span a len" if "x \<in> block_pts (a, b)" for x using that b(3) by (auto simp: block_pts_def)
  have alloc: "alloc_pts s' = {x \<in> alloc_pts s. fst x \<notin> span a len}"
    using block_pts_off [OF _ away(1)] block_pts_off [OF _ away(2)] in_b
    by (auto simp: alloc_pts_def s'_def m)
  have bytes: "alloc_bytes s' = alloc_bytes s - span a len"
    unfolding alloc_pts_bytes [symmetric] alloc by (auto simp: image_iff)
  have sub: "span a len \<subseteq> alloc_bytes s" using b by (auto simp: alloc_bytes_def m)
  have free: "free_inv (pm_free s')" "free_bytes (pm_free s') = free_bytes (pm_free s) \<union> span a len"
    using add_free_range_correct [OF P(1) ok] by (simp_all add: s'_def)
  have "tiled fst (entry_sz pb_size) (bs @ fs)" using t by simp
  moreover have "\<forall>p \<in> set (bs @ fs). fst p = pb_start (snd p)"
    using P(2) unfolding blocks_ok_def m by (intro ballI) (metis UnCI UnE list.set_intros(2) set_append)
  moreover have "pm_physical s' = bs @ fs" by (simp add: s'_def)
  ultimately have "blocks_ok (pm_physical s')" by (simp only: blocks_ok_def)
  then have "phys_inv sz s'"
    unfolding phys_inv_def bytes free(2) using free(1) P sub by auto
  with res alloc free show ?thesis by (simp add: s'_def)
qed

subsection \<open>Histories\<close>

text \<open>
  The operations that move memory between the free ranges and the blocks, with the callers' guards:
  \<open>KernelAllocateDirectMemory\<close> and the release entry points ask for a length that is not 0.
\<close>

datatype phys_op =
    PAlloc u64 u64 u64 u64 int bool
  | PRelease u64 u64
  | PReleasePool u64 u64
  | PMap u64 u64 u64 int vm_mode gpu_mode
  | PUnmap u64 u64
  | PProtect u64 u64 int vm_mode gpu_mode

fun phys_op_ok :: "phys_op \<Rightarrow> bool" where
  "phys_op_ok (PAlloc ss se len al ty pool) \<longleftrightarrow> 0 < len"
| "phys_op_ok (PRelease start len) \<longleftrightarrow> 0 < len"
| "phys_op_ok _ \<longleftrightarrow> True"

fun phys_step :: "u64 \<Rightarrow> phys_op \<Rightarrow> phys_mem \<Rightarrow> phys_mem option" where
  "phys_step fx (PAlloc ss se len al ty pool) s = map_option snd (phys_alloc fx ss se len al ty pool s)"
| "phys_step fx (PRelease start len) s =
     Some (case phys_release start len s of None \<Rightarrow> s | Some (out, s') \<Rightarrow> s')"
| "phys_step fx (PReleasePool a len) s =
     Some (case phys_release_pool_expansion a len s of None \<Rightarrow> s | Some s' \<Rightarrow> s')"
| "phys_step fx (PMap v a len prot mode gpu) s =
     Some (case phys_map v a len prot mode gpu s of None \<Rightarrow> s | Some s' \<Rightarrow> s')"
| "phys_step fx (PUnmap v len) s = Some (case phys_unmap v len s of None \<Rightarrow> s | Some (out, s') \<Rightarrow> s')"
| "phys_step fx (PProtect v len prot mode gpu) s = Some (phys_protect_mapping v len prot mode gpu s)"

fun phys_run :: "u64 \<Rightarrow> phys_op list \<Rightarrow> phys_mem \<Rightarrow> phys_mem option" where
  "phys_run fx [] s = Some s"
| "phys_run fx (op # ops) s = Option.bind (phys_step fx op s) (phys_run fx ops)"

lemma phys_inv_mappings: "phys_inv sz (s\<lparr>pm_mappings := ms\<rparr>) = phys_inv sz s"
  by (simp add: phys_inv_def alloc_bytes_def)

lemma phys_step_inv:
  assumes "phys_inv sz s" and "phys_size fx = Some sz" and "phys_op_ok op"
  shows "\<exists>s'. phys_step fx op s = Some s' \<and> phys_inv sz s'"
proof (cases op)
  case (PAlloc ss se len al ty pool)
  then show ?thesis using phys_alloc_spec [OF assms(1,2), of len ss se al ty pool] assms by auto
next
  case (PRelease start len)
  then show ?thesis using phys_release_spec [OF assms(1), of len start] assms
    by (auto split: option.splits)
next
  case (PReleasePool a len)
  then show ?thesis using phys_release_pool_spec [OF assms(1), of a len] assms
    by (auto split: option.splits)
next
  case (PMap v a len prot mode gpu)
  then show ?thesis using assms by (auto simp: phys_map_def Let_def phys_inv_mappings)
next
  case (PUnmap v len)
  then show ?thesis using assms
    by (auto simp: phys_unmap_def Let_def phys_inv_mappings split: option.splits)
next
  case (PProtect v len prot mode gpu)
  then show ?thesis using assms by (auto simp: phys_protect_mapping_def phys_inv_mappings)
qed

lemma phys_run_inv:
  "phys_inv sz s \<Longrightarrow> phys_size fx = Some sz \<Longrightarrow> list_all phys_op_ok ops \<Longrightarrow>
     \<exists>s'. phys_run fx ops s = Some s' \<and> phys_inv sz s'"
proof (induction ops arbitrary: s)
  case (Cons op ops)
  obtain s1 where "phys_step fx op s = Some s1" "phys_inv sz s1"
    using phys_step_inv [OF Cons.prems(1,2)] Cons.prems(3) by auto
  with Cons show ?case by auto
qed simp

lemma alloc_release_exact:
  assumes inv: "phys_inv sz s" and flex: "phys_size fx = Some sz" and len: "0 < len"
    and al: "phys_alloc fx ss se len al ty False s = Some (Some p, s')"
  shows "phys_release p len s' = Some ((0, 0, GpuNoAccess), s)"
proof -
  from phys_alloc_spec [OF inv flex len, of ss se al ty False] al
  have fit: "fits ss (min se sz) len al (free_bytes (pm_free s)) p"
    and free: "free_bytes (pm_free s') = free_bytes (pm_free s) - span p len"
    and phys: "pm_physical s' = emplace p (new_block p len ty False) (pm_physical s)"
    and fresh: "p \<notin> fst ` set (pm_physical s)"
    and maps: "pm_mappings s' = pm_mappings s" and inv': "phys_inv sz s'" by auto
  note P = phys_inv_parts [OF inv] and P' = phys_inv_parts [OF inv']
  have ok: "range_ok p len" and sub: "span p len \<subseteq> free_bytes (pm_free s)"
    using fit len P(7) by (auto simp: fits_def range_ok_def)
  define b where "b = new_block p len ty False"
  have bsz: "pb_size b = len" by (simp add: b_def new_block_def)
  obtain ms ns where m: "pm_physical s = ms @ ns" "pm_physical s' = ms @ (p, b) # ns"
  proof -
    have d: "span p (pb_size b) \<inter> owned fst (entry_sz pb_size) (pm_physical s) = {}"
      using sub P(5) by (auto simp: bsz alloc_bytes_def)
    obtain bs fs where "pm_physical s = bs @ fs" "emplace p b (pm_physical s) = bs @ (p, b) # fs"
      using tiled_emplace [OF P(3) _ d] ok bsz by metis
    then show thesis by (intro that) (simp_all only: phys b_def [symmetric])
  qed
  have mem: "(p, b) \<in> set (pm_physical s')" "holds p len (p, b)" using m by (auto simp: holds_def bsz)
  have "release_target p len s' = Some (p, b)"
  proof (cases "release_target p len s'")
    case None
    then have "pb_pool b" using release_target_spec [OF P'(2) len, of p] mem by fastforce
    then show ?thesis by (simp add: b_def new_block_def)
  next
    case (Some kc)
    obtain k c where kc: "kc = (k, c)" by fastforce
    then have "(k, c) \<in> set (pm_physical s')" "holds p len (k, c)"
      using release_target_spec [OF P'(2) len, of p] Some by auto
    then have "(k, c) = (p, b)"
      using mem len by (intro tiled_unique [OF P'(3), of _ _ p]) (auto simp: span_iff holds_def)
    with Some kc show ?thesis by simp
  qed
  moreover have "erase_key p (pm_physical s') = pm_physical s"
    using erase_key_middle [of ms p b ns] P'(4) m by simp
  moreover have "add_free_range p len (pm_free s') = pm_free s"
  proof (rule free_inv_canonical [OF _ P(1)])
    show "free_inv (add_free_range p len (pm_free s'))"
      and "free_bytes (add_free_range p len (pm_free s')) = free_bytes (pm_free s)"
      using add_free_range_correct [OF P'(1) ok] free sub by auto
  qed
  ultimately show ?thesis
    using maps by (simp add: phys_release_def b_def new_block_def)
qed

subsection \<open>Properties\<close>

definition arena_example :: phys_mem where
  "arena_example = \<lparr>pm_physical = [], pm_free = [(0, 13421772800)], pm_mappings = []\<rparr>"

lemma arena_example_init: "phys_size 1073741824 = Some 13421772800" "phys_inv 13421772800 arena_example"
proof -
  show sz: "phys_size 1073741824 = Some 13421772800" by (simp add: phys_size_def phys_total_size_def)
  have "phys_init 1073741824 = Some arena_example" by (simp add: phys_init_def sz arena_example_def)
  with sz show "phys_inv 13421772800 arena_example" by (rule phys_init_inv [rotated])
qed

text \<open>C2: \<open>PhysicalMemory::Alloc\<close> is first fit. It returns the lowest aligned address in the search window
  at which the whole length is free, records exactly that block and takes exactly those bytes from the free
  list; when there is no such address it fails and changes nothing. It never stops the process, and the
  free ranges and blocks still partition the direct memory.\<close>

theorem phys_alloc_first_fit:
  assumes "phys_inv sz s" and "phys_size fx = Some sz" and "0 < len"
  shows "case phys_alloc fx ss se len al ty pool s of
      None \<Rightarrow> False
    | Some (None, s') \<Rightarrow> s' = s \<and> (\<forall>q. \<not> fits ss (min se sz) len al (free_bytes (pm_free s)) q)
    | Some (Some p, s') \<Rightarrow>
        fits ss (min se sz) len al (free_bytes (pm_free s)) p \<and>
        (\<forall>q. fits ss (min se sz) len al (free_bytes (pm_free s)) q \<longrightarrow> p \<le> q) \<and>
        free_bytes (pm_free s') = free_bytes (pm_free s) - span p len \<and>
        alloc_pts s' = alloc_pts s \<union> (\<lambda>a. (a, ty, pool, [])) ` span p len \<and>
        pm_mappings s' = pm_mappings s \<and> phys_inv sz s'"
  using phys_alloc_spec [OF assms, of ss se al ty pool] by auto

theorem phys_alloc_first_fit_witness:
  "case phys_alloc 1073741824 100 1000000 16384 16384 3 False arena_example of
      None \<Rightarrow> False
    | Some (None, s') \<Rightarrow> s' = arena_example \<and>
        (\<forall>q. \<not> fits 100 (min 1000000 13421772800) 16384 16384 (free_bytes (pm_free arena_example)) q)
    | Some (Some p, s') \<Rightarrow>
        fits 100 (min 1000000 13421772800) 16384 16384 (free_bytes (pm_free arena_example)) p \<and>
        (\<forall>q. fits 100 (min 1000000 13421772800) 16384 16384 (free_bytes (pm_free arena_example)) q \<longrightarrow> p \<le> q) \<and>
        free_bytes (pm_free s') = free_bytes (pm_free arena_example) - span p 16384 \<and>
        alloc_pts s' = alloc_pts arena_example \<union> (\<lambda>a. (a, 3, False, [])) ` span p 16384 \<and>
        pm_mappings s' = pm_mappings arena_example \<and> phys_inv 13421772800 s'"
  by (rule phys_alloc_first_fit [OF arena_example_init(2,1)]) simp

text \<open>\<open>PhysicalMemory::Available\<close> reports a largest hole of the search window: an aligned address with
  the number of bytes free from it on, and no aligned address of the window has more; it reports nothing only
  when no aligned address of the window is free.\<close>

theorem phys_available_largest:
  assumes "phys_inv sz s" and "phys_size fx = Some sz"
  shows "case phys_available fx ss se al s of None \<Rightarrow> False
     | Some None \<Rightarrow> \<forall>q n. \<not> hole ss (min se sz) al (free_bytes (pm_free s)) q n
     | Some (Some (p, n)) \<Rightarrow> hole ss (min se sz) al (free_bytes (pm_free s)) p n \<and>
         (\<forall>q k. hole ss (min se sz) al (free_bytes (pm_free s)) q k \<longrightarrow> k \<le> n)"
  by (rule phys_available_spec [OF assms])

theorem phys_available_largest_witness:
  "case phys_available 1073741824 100 1000000 16384 arena_example of None \<Rightarrow> False
     | Some None \<Rightarrow> \<forall>q n. \<not> hole 100 (min 1000000 13421772800) 16384 (free_bytes (pm_free arena_example)) q n
     | Some (Some (p, n)) \<Rightarrow> hole 100 (min 1000000 13421772800) 16384 (free_bytes (pm_free arena_example)) p n \<and>
         (\<forall>q k. hole 100 (min 1000000 13421772800) 16384 (free_bytes (pm_free arena_example)) q k \<longrightarrow> k \<le> n)"
  by (rule phys_available_largest [OF arena_example_init(2,1)])

text \<open>C6: \<open>PhysicalMemory::Release\<close> succeeds exactly when the range lies inside one block that belongs to no
  pool; then the bytes of the range, and no others, go back to the free list, and every byte that stays
  allocated keeps its memory type, pool flag and name, whichever of the four cuts the range makes.\<close>

theorem phys_release_takes_exactly:
  assumes "phys_inv sz s" and "0 < len"
  shows "case phys_release start len s of
      None \<Rightarrow> \<forall>p \<in> set (pm_physical s). holds start len p \<longrightarrow> pb_pool (snd p)
    | Some (out, s') \<Rightarrow> (\<exists>p \<in> set (pm_physical s). holds start len p \<and> \<not> pb_pool (snd p)) \<and>
        alloc_pts s' = {x \<in> alloc_pts s. fst x \<notin> span start len} \<and>
        free_bytes (pm_free s') = free_bytes (pm_free s) \<union> span start len \<and>
        pm_mappings s' = pm_mappings s \<and> phys_inv sz s'"
  by (rule phys_release_spec [OF assms])

definition arena_one :: phys_mem where
  "arena_one = snd (the (phys_alloc 1073741824 100 1000000 65536 16384 3 False arena_example))"

lemma arena_one_eq:
  "phys_alloc 1073741824 100 1000000 65536 16384 3 False arena_example = Some (Some 16384, arena_one)"
  "arena_one = \<lparr>pm_physical = [(16384, new_block 16384 65536 3 False)],
     pm_free = [(0, 16384), (81920, 13421690880)], pm_mappings = []\<rparr>"
  "phys_inv 13421772800 arena_one"
proof -
  have "phys_alloc 1073741824 100 1000000 65536 16384 3 False arena_example =
    Some (Some 16384, \<lparr>pm_physical = [(16384, new_block 16384 65536 3 False)],
     pm_free = [(0, 16384), (81920, 13421690880)], pm_mappings = []\<rparr>)"
    by (simp add: phys_alloc_def arena_example_init(1) arena_example_def upper_bound_def upper_bound_by_def
        step_back_def get_aligned_pos_def add64_def sub64_def U64_MAX_def consume_free_range_def erase_key_def)
  then show al: "phys_alloc 1073741824 100 1000000 65536 16384 3 False arena_example = Some (Some 16384, arena_one)"
    and "arena_one = \<lparr>pm_physical = [(16384, new_block 16384 65536 3 False)],
     pm_free = [(0, 16384), (81920, 13421690880)], pm_mappings = []\<rparr>"
    by (simp_all add: arena_one_def)
  show "phys_inv 13421772800 arena_one"
    using phys_alloc_spec [OF arena_example_init(2,1), of 65536 100 1000000 16384 3 False] al by auto
qed

theorem phys_release_takes_exactly_witness:
  "case phys_release 32768 16384 arena_one of
      None \<Rightarrow> \<forall>p \<in> set (pm_physical arena_one). holds 32768 16384 p \<longrightarrow> pb_pool (snd p)
    | Some (out, s') \<Rightarrow> (\<exists>p \<in> set (pm_physical arena_one). holds 32768 16384 p \<and> \<not> pb_pool (snd p)) \<and>
        alloc_pts s' = {x \<in> alloc_pts arena_one. fst x \<notin> span 32768 16384} \<and>
        free_bytes (pm_free s') = free_bytes (pm_free arena_one) \<union> span 32768 16384 \<and>
        pm_mappings s' = pm_mappings arena_one \<and> phys_inv 13421772800 s'"
  by (rule phys_release_takes_exactly [OF arena_one_eq(3)]) simp

text \<open>C30: Releasing what \<open>Alloc\<close> returned gives back the very state before the allocation: the same blocks
  and the same list of free ranges, however the allocation cut them.\<close>

theorem phys_alloc_release_roundtrip:
  assumes "phys_inv sz s" and "phys_size fx = Some sz" and "0 < len"
    and "phys_alloc fx ss se len al ty False s = Some (Some p, s')"
  shows "phys_release p len s' = Some ((0, 0, GpuNoAccess), s)"
  by (rule alloc_release_exact [OF assms])

theorem phys_alloc_release_roundtrip_witness:
  "phys_release 16384 65536 arena_one = Some ((0, 0, GpuNoAccess), arena_example)"
  by (rule phys_alloc_release_roundtrip [OF arena_example_init(2,1) _ arena_one_eq(1)]) simp

text \<open>C1: From the initial state, no sequence of allocations, releases, pool releases and mapping changes
  stops the process, and after it the free ranges (kept apart and merged) and the allocated blocks still
  partition the direct memory: no byte is lost, and none is handed out twice.\<close>

theorem phys_history_partitions:
  assumes "phys_init fx = Some s0" and "list_all phys_op_ok ops"
  shows "case phys_run fx ops s0 of
      None \<Rightarrow> False
    | Some s \<Rightarrow> apart (ivals_of (pm_free s)) \<and> tiled fst (entry_sz pb_size) (pm_physical s) \<and>
        free_bytes (pm_free s) \<inter> alloc_bytes s = {} \<and>
        free_bytes (pm_free s) \<union> alloc_bytes s = {0..<the (phys_size fx)}"
proof -
  from assms(1) obtain sz where sz: "phys_size fx = Some sz"
    by (cases "phys_size fx") (auto simp: phys_init_def)
  from phys_run_inv [OF phys_init_inv [OF assms(1) sz] sz assms(2)] obtain s'
    where "phys_run fx ops s0 = Some s'" "phys_inv sz s'" by blast
  then show ?thesis using phys_inv_parts [of sz s'] sz by (simp add: free_inv_def)
qed

theorem phys_history_partitions_witness:
  "case phys_run 1073741824 [PAlloc 0 1000000 32768 0 3 False, PRelease 0 16384] arena_example of
      None \<Rightarrow> False
    | Some s \<Rightarrow> apart (ivals_of (pm_free s)) \<and> tiled fst (entry_sz pb_size) (pm_physical s) \<and>
        free_bytes (pm_free s) \<inter> alloc_bytes s = {} \<and>
        free_bytes (pm_free s) \<union> alloc_bytes s = {0..<the (phys_size 1073741824)}"
  by (rule phys_history_partitions) (simp_all add: phys_init_def arena_example_init(1) arena_example_def)

end
