(* ===== verification/Physical_Mappings.thy ===== *)
theory Physical_Mappings
  imports Physical_Arena
begin

text \<open>
  The mappings of \<open>PhysicalMemory\<close>. A mapping is read as the set of its points: a virtual address,
  the physical address behind it, the access attributes and the rest. \<open>ProtectMapping\<close> changes the
  attributes of the points of its range, \<open>Unmap\<close> removes the points of its range, \<open>FindMappings\<close>
  lists the points whose physical address lies in its range; \<open>CanMapDirect\<close> and
  \<open>GetAllocatedSpan\<close> say what physical bytes may be mapped.
\<close>

type_synonym access = "int \<times> vm_mode \<times> gpu_mode"
type_synonym map_point = "nat \<times> nat \<times> access \<times> int \<times> bool \<times> string \<times> u64 \<times> u64"

definition map_tag :: "ablock \<Rightarrow> int \<times> bool \<times> string \<times> u64 \<times> u64" where
  "map_tag b = (pb_type b, pb_pool b, pb_name b, pb_host_vaddr b, pb_host_size b)"

definition map_access :: "ablock \<Rightarrow> access" where
  "map_access b = (pb_prot b, pb_mode b, pb_gpu b)"

definition map_point :: "ablock \<Rightarrow> nat \<Rightarrow> map_point" where
  "map_point b a = (a, pb_start b + (a - pb_map_vaddr b), map_access b, map_tag b)"

definition map_pts :: "ablock \<Rightarrow> map_point set" where
  "map_pts b = map_point b ` span (pb_map_vaddr b) (pb_map_size b)"

definition mapping_ok :: "ablock \<Rightarrow> bool" where
  "mapping_ok b \<longleftrightarrow> range_ok (pb_map_vaddr b) (pb_map_size b) \<and> pb_size b = pb_map_size b \<and>
     pb_start b + pb_size b \<le> U64_MAX"

definition mapped :: "phys_mem \<Rightarrow> map_point set" where
  "mapped s = cover map_pts (pm_mappings s)"

text \<open>Mappings that are well formed and do not share a virtual address.\<close>

definition maps_inv :: "phys_mem \<Rightarrow> bool" where
  "maps_inv s \<longleftrightarrow> (\<forall>b \<in> set (pm_mappings s). mapping_ok b) \<and>
     sorted_wrt (\<lambda>b c. span (pb_map_vaddr b) (pb_map_size b) \<inter> span (pb_map_vaddr c) (pb_map_size c) = {})
       (pm_mappings s)"

lemma map_pts_iff:
  "x \<in> map_pts b \<longleftrightarrow> pb_map_vaddr b \<le> fst x \<and> fst x < pb_map_vaddr b + pb_map_size b \<and> x = map_point b (fst x)"
  by (auto simp: map_pts_def span_iff map_point_def)

lemma map_ptsD: "x \<in> map_pts b \<Longrightarrow> pb_map_vaddr b \<le> fst x \<and> fst x < pb_map_vaddr b + pb_map_size b"
  by (simp add: map_pts_iff)

lemma fst_map_pts: "fst ` map_pts b = span (pb_map_vaddr b) (pb_map_size b)"
  by (auto simp: map_pts_def map_point_def image_image)

lemma mapping_okD:
  assumes "mapping_ok b"
  shows "0 < pb_map_size b" and "pb_map_vaddr b + pb_map_size b \<le> U64_MAX"
    and "pb_size b = pb_map_size b" and "pb_start b + pb_map_size b \<le> U64_MAX"
  using assms by (auto simp: mapping_ok_def range_ok_def)

text \<open>A piece of a mapping: the same translation on a part of its range.\<close>

definition piece_of :: "ablock \<Rightarrow> u64 \<Rightarrow> u64 \<Rightarrow> ablock \<Rightarrow> bool" where
  "piece_of b v n c \<longleftrightarrow> pb_map_vaddr c = v \<and> pb_map_size c = n \<and> pb_size c = n \<and>
     pb_start c = pb_start b + (v - pb_map_vaddr b) \<and> map_tag c = map_tag b"

lemma piece_pts_map:
  assumes "piece_of b v n c" and "map_access c = map_access b"
    and "pb_map_vaddr b \<le> v" and "v + n \<le> pb_map_vaddr b + pb_map_size b"
  shows "map_pts c = {x \<in> map_pts b. fst x \<in> span v n}"
proof -
  have "map_point c a = map_point b a" if "v \<le> a" for a
    using assms that by (auto simp: piece_of_def map_point_def)
  then show ?thesis
    using assms by (auto simp: map_pts_def piece_of_def span_iff map_point_def)
qed

lemma piece_ok:
  "mapping_ok b \<Longrightarrow> piece_of b v n c \<Longrightarrow> 0 < n \<Longrightarrow> pb_map_vaddr b \<le> v \<Longrightarrow>
     v + n \<le> pb_map_vaddr b + pb_map_size b \<Longrightarrow> mapping_ok c"
  by (auto simp: mapping_ok_def piece_of_def range_ok_def)

subsection \<open>Protecting\<close>

definition reaccess :: "u64 \<Rightarrow> u64 \<Rightarrow> access \<Rightarrow> map_point \<Rightarrow> map_point" where
  "reaccess v n acc x = (case x of (a, p, old, tag) \<Rightarrow> (a, p, if a \<in> span v n then acc else old, tag))"

lemma reaccess_off: "fst x \<notin> span v n \<Longrightarrow> reaccess v n acc x = x"
  by (cases x) (auto simp: reaccess_def)

lemma protect_block_points:
  assumes ok: "mapping_ok b" and vn: "range_ok v n"
  shows "cover map_pts (protect_block v n prot mode gpu b) = reaccess v n (prot, mode, gpu) ` map_pts b"
    and "\<forall>c \<in> set (protect_block v n prot mode gpu b). mapping_ok c"
proof -
  note B = mapping_okD [OF ok] and V = range_okD [OF vn]
  define s where "s = max v (pb_map_vaddr b)"
  define e where "e = min (v + n) (pb_map_vaddr b + pb_map_size b)"
  let ?hit = "span v n \<inter> span (pb_map_vaddr b) (pb_map_size b) \<noteq> {}"
  have ov: "virtual_ranges_overlap v n (pb_map_vaddr b) (pb_map_size b) \<longleftrightarrow> ?hit"
    using B V by (intro overlap_iff) auto
  have "cover map_pts (protect_block v n prot mode gpu b) = reaccess v n (prot, mode, gpu) ` map_pts b \<and>
    (\<forall>c \<in> set (protect_block v n prot mode gpu b). mapping_ok c)"
  proof (cases ?hit)
    case False
    have "reaccess v n (prot, mode, gpu) x = x" if "x \<in> map_pts b" for x
      by (rule reaccess_off) (use that False fst_map_pts [of b] in blast)
    then show ?thesis using False ov ok by (simp add: protect_block_def)
  next
    case True
    then have se: "s < e" "pb_map_vaddr b \<le> s" "v \<le> s" "e \<le> v + n" "e \<le> pb_map_vaddr b + pb_map_size b"
      using B V by (auto simp: s_def e_def span_disjoint)
    have sv: "s = v \<or> s = pb_map_vaddr b" and ev: "e = v + n \<or> e = pb_map_vaddr b + pb_map_size b"
      by (auto simp: s_def e_def)
    have u: "add64 (pb_map_vaddr b) (pb_map_size b) = pb_map_vaddr b + pb_map_size b"
      "sub64 s (pb_map_vaddr b) = s - pb_map_vaddr b" "sub64 e s = e - s"
      "sub64 (pb_map_vaddr b + pb_map_size b) e = pb_map_vaddr b + pb_map_size b - e"
      using B se by (simp_all add: u64_simps)
    have st_s: "sub64 (add64 (pb_start b) s) (pb_map_vaddr b) = pb_start b + (s - pb_map_vaddr b)"
      by (rule sub64_add64) (use se B in simp_all)
    have st_e: "sub64 (add64 (pb_start b) e) (pb_map_vaddr b) = pb_start b + (e - pb_map_vaddr b)"
      by (rule sub64_add64) (use se B in simp_all)
    define l where "l = b\<lparr>pb_size := s - pb_map_vaddr b, pb_map_size := s - pb_map_vaddr b\<rparr>"
    define c where "c = b\<lparr>pb_start := pb_start b + (s - pb_map_vaddr b), pb_size := e - s, pb_map_vaddr := s,
      pb_map_size := e - s, pb_prot := prot, pb_mode := mode, pb_gpu := gpu\<rparr>"
    define r where "r = b\<lparr>pb_start := pb_start b + (e - pb_map_vaddr b),
      pb_size := pb_map_vaddr b + pb_map_size b - e, pb_map_vaddr := e,
      pb_map_size := pb_map_vaddr b + pb_map_size b - e\<rparr>"
    have eq: "protect_block v n prot mode gpu b = (if pb_map_vaddr b < s then [l] else []) @ [c] @
      (if e < pb_map_vaddr b + pb_map_size b then [r] else [])"
    proof -
      have "virtual_ranges_overlap v n (pb_map_vaddr b) (pb_map_size b)" using True ov by simp
      then show ?thesis
        by (simp only: protect_block_def Let_def u s_def [symmetric] e_def [symmetric] st_s st_e l_def c_def r_def
            not_True_eq_False if_False)
    qed
    have pl: "piece_of b (pb_map_vaddr b) (s - pb_map_vaddr b) l"
      and pr: "piece_of b e (pb_map_vaddr b + pb_map_size b - e) r"
      and pc: "piece_of b s (e - s) c"
      and acc: "map_access l = map_access b" "map_access r = map_access b" "map_access c = (prot, mode, gpu)"
      by (auto simp: piece_of_def l_def r_def c_def map_tag_def map_access_def)
    have in_l: "map_pts l = {x \<in> map_pts b. fst x < s}"
      using piece_pts_map [OF pl acc(1)] se by (auto simp: span_iff map_pts_iff)
    have in_r: "map_pts r = {x \<in> map_pts b. e \<le> fst x}"
      using piece_pts_map [OF pr acc(2)] se by (auto simp: span_iff map_pts_iff)
    have in_c: "map_pts c = reaccess v n (prot, mode, gpu) ` {x \<in> map_pts b. s \<le> fst x \<and> fst x < e}"
    proof -
      have "map_point c a = reaccess v n (prot, mode, gpu) (map_point b a)" if "s \<le> a" "a < e" for a
        using that se acc(3) by (auto simp: map_point_def reaccess_def c_def map_tag_def span_iff)
      moreover have "map_pts c = map_point c ` {s..<e}" using se by (auto simp: map_pts_def c_def span_def)
      moreover have "{x \<in> map_pts b. s \<le> fst x \<and> fst x < e} = map_point b ` {s..<e}"
        using se by (auto simp: map_pts_def span_iff map_point_def)
      ultimately show ?thesis by (simp add: image_image)
    qed
    have same: "reaccess v n (prot, mode, gpu) x = x" if "x \<in> map_pts b" "fst x < s \<or> e \<le> fst x" for x
      by (rule reaccess_off) (use that sv ev in \<open>auto simp: span_iff dest: map_ptsD\<close>)
    have split: "map_pts b = {x \<in> map_pts b. fst x < s} \<union> {x \<in> map_pts b. s \<le> fst x \<and> fst x < e} \<union>
      {x \<in> map_pts b. e \<le> fst x}" by auto
    have "reaccess v n (prot, mode, gpu) ` map_pts b = map_pts l \<union> map_pts c \<union> map_pts r"
      unfolding in_l in_c in_r by (subst split) (use same in \<open>auto simp: image_Un image_iff\<close>)
    moreover have "map_pts l = {}" if "\<not> pb_map_vaddr b < s" using that by (auto simp: in_l map_pts_iff)
    moreover have "map_pts r = {}" if "\<not> e < pb_map_vaddr b + pb_map_size b" using that by (auto simp: in_r map_pts_iff)
    ultimately show ?thesis
      using piece_ok [OF ok pl] piece_ok [OF ok pc] piece_ok [OF ok pr] se by (auto simp: eq)
  qed
  then show "cover map_pts (protect_block v n prot mode gpu b) = reaccess v n (prot, mode, gpu) ` map_pts b"
    and "\<forall>c \<in> set (protect_block v n prot mode gpu b). mapping_ok c" by auto
qed

lemma phys_protect_points:
  assumes "\<forall>b \<in> set (pm_mappings s). mapping_ok b" and "v \<le> U64_MAX"
  shows "mapped (phys_protect_mapping v n prot mode gpu s) =
      (if v + n \<le> U64_MAX then reaccess v n (prot, mode, gpu) ` mapped s else mapped s)"
proof (cases "n = 0 \<or> U64_MAX - v < n")
  case True
  have "reaccess v 0 acc = (\<lambda>x. x)" for acc by (rule ext) (auto simp: reaccess_def split: prod.splits)
  with True assms(2) show ?thesis by (auto simp: phys_protect_mapping_def)
next
  case False
  then have "range_ok v n" using assms(2) by (auto simp: range_ok_def)
  then have "cover map_pts (concat (map (protect_block v n prot mode gpu) (pm_mappings s))) =
     reaccess v n (prot, mode, gpu) ` cover map_pts (pm_mappings s)"
    using assms(1) protect_block_points by (intro cover_concat_image) auto
  then show ?thesis using False \<open>range_ok v n\<close> by (simp add: phys_protect_mapping_def mapped_def range_ok_def)
qed

subsection \<open>Unmapping\<close>

definition maps_range :: "u64 \<Rightarrow> u64 \<Rightarrow> ablock \<Rightarrow> bool" where
  "maps_range v n b \<longleftrightarrow> pb_map_vaddr b \<le> v \<and> v + n \<le> pb_map_vaddr b + pb_map_size b"

lemma unmap_loop_points:
  assumes "\<forall>b \<in> set ms. mapping_ok b" and "range_ok v n"
    and "sorted_wrt (\<lambda>b c. span (pb_map_vaddr b) (pb_map_size b) \<inter> span (pb_map_vaddr c) (pb_map_size c) = {}) ms"
  shows "case unmap_loop v n ms of
      None \<Rightarrow> \<forall>b \<in> set ms. \<not> maps_range v n b
    | Some (gpu, host, kept, pushed) \<Rightarrow> (\<exists>b \<in> set ms. maps_range v n b \<and> gpu = pb_gpu b) \<and>
        cover map_pts (kept @ pushed) = {x \<in> cover map_pts ms. fst x \<notin> span v n} \<and>
        (\<forall>b \<in> set (kept @ pushed). mapping_ok b)"
  using assms
proof (induction ms)
  case (Cons b ms)
  have ok: "mapping_ok b" using Cons.prems by simp
  note B = mapping_okD [OF ok] and V = range_okD [OF \<open>range_ok v n\<close>]
  have off: "fst x \<notin> span v n" if "maps_range v n b" "x \<in> cover map_pts ms" for x
  proof -
    have "\<forall>c \<in> set ms. span (pb_map_vaddr b) (pb_map_size b) \<inter> span (pb_map_vaddr c) (pb_map_size c) = {}"
      using Cons.prems(3) by simp
    moreover from that obtain c where "c \<in> set ms" "fst x \<in> span (pb_map_vaddr c) (pb_map_size c)"
      by (auto simp: cover_iff map_pts_iff span_iff)
    moreover have "span v n \<subseteq> span (pb_map_vaddr b) (pb_map_size b)"
      using that(1) by (auto simp: maps_range_def span_iff)
    ultimately show ?thesis by blast
  qed
  have u: "add64 (pb_map_vaddr b) (pb_map_size b) = pb_map_vaddr b + pb_map_size b" "add64 v n = v + n"
    using B V by (simp_all add: add64_le)
  have hit: ?case
    if "maps_range v n b" and "unmap_loop v n (b # ms) = Some (pb_gpu b, host, ls @ ms, rs)"
      and "cover map_pts (ls @ rs) = {x \<in> map_pts b. fst x \<notin> span v n}" and "\<forall>c \<in> set (ls @ rs). mapping_ok c"
    for host ls rs
  proof -
    have "cover map_pts ((ls @ ms) @ rs) = {x \<in> cover map_pts (b # ms). fst x \<notin> span v n}"
      using that(3) off [OF that(1)] by auto
    with that Cons.prems(1) show ?thesis by auto
  qed
  consider (all) "pb_map_vaddr b = v" "pb_map_size b = n"
    | (mid) "pb_map_vaddr b < v" "v + n < pb_map_vaddr b + pb_map_size b"
    | (head) "v = pb_map_vaddr b" "n < pb_map_size b"
    | (tail) "pb_map_vaddr b < v" "v + n = pb_map_vaddr b + pb_map_size b"
    | (miss) "\<not> maps_range v n b"
    by (fastforce simp: maps_range_def)
  then show ?case
  proof cases
    case all
    then show ?thesis
      by (intro hit [where ls = "[]" and rs = "[]"]) (auto simp: maps_range_def map_pts_iff span_iff Let_def u)
  next
    case mid
    define l where "l = b\<lparr>pb_size := v - pb_map_vaddr b, pb_map_size := v - pb_map_vaddr b\<rparr>"
    define r where "r = b\<lparr>pb_start := pb_start b + (v + n - pb_map_vaddr b),
      pb_size := pb_map_vaddr b + pb_map_size b - (v + n), pb_map_size := pb_map_vaddr b + pb_map_size b - (v + n),
      pb_map_vaddr := v + n\<rparr>"
    have u2: "sub64 v (pb_map_vaddr b) = v - pb_map_vaddr b" "sub64 (v + n) (pb_map_vaddr b) = v + n - pb_map_vaddr b"
      "sub64 (pb_map_vaddr b + pb_map_size b) (v + n) = pb_map_vaddr b + pb_map_size b - (v + n)"
      "add64 (pb_start b) (v + n - pb_map_vaddr b) = pb_start b + (v + n - pb_map_vaddr b)"
      using B mid by (simp_all add: u64_simps)
    have pl: "piece_of b (pb_map_vaddr b) (v - pb_map_vaddr b) l"
      and pr: "piece_of b (v + n) (pb_map_vaddr b + pb_map_size b - (v + n)) r"
      and acc: "map_access l = map_access b" "map_access r = map_access b"
      by (auto simp: piece_of_def l_def r_def map_tag_def map_access_def)
    have "map_pts l \<union> map_pts r = {x \<in> map_pts b. fst x \<notin> span v n}"
      using piece_pts_map [OF pl acc(1)] piece_pts_map [OF pr acc(2)] mid by (auto simp: span_iff map_pts_iff)
    then show ?thesis
      using mid piece_ok [OF ok pl] piece_ok [OF ok pr]
      by (intro hit [where ls = "[l]" and rs = "[r]"]) (auto simp: maps_range_def Let_def u u2 l_def r_def)
  next
    case head
    define r where "r = b\<lparr>pb_start := pb_start b + n, pb_size := pb_map_size b - n,
      pb_map_vaddr := pb_map_vaddr b + n, pb_map_size := pb_map_size b - n\<rparr>"
    have u2: "add64 (pb_start b) n = pb_start b + n" "sub64 (pb_size b) n = pb_map_size b - n"
      "add64 (pb_map_vaddr b) n = pb_map_vaddr b + n" "sub64 (pb_map_size b) n = pb_map_size b - n"
      using B head by (simp_all add: u64_simps)
    have pr: "piece_of b (pb_map_vaddr b + n) (pb_map_size b - n) r" and acc: "map_access r = map_access b"
      by (auto simp: piece_of_def r_def map_tag_def map_access_def)
    have "map_pts r = {x \<in> map_pts b. fst x \<notin> span v n}"
    proof -
      have "map_pts r = {x \<in> map_pts b. fst x \<in> span (pb_map_vaddr b + n) (pb_map_size b - n)}"
        by (rule piece_pts_map [OF pr acc]) (use head in simp_all)
      also have "\<dots> = {x \<in> map_pts b. fst x \<notin> span v n}"
        by (rule Collect_cong) (use head in \<open>auto simp: span_iff dest: map_ptsD\<close>)
      finally show ?thesis .
    qed
    then show ?thesis
      using head piece_ok [OF ok pr]
      by (intro hit [where ls = "[r]" and rs = "[]"]) (auto simp: maps_range_def Let_def u u2 r_def)
  next
    case tail
    define l where "l = b\<lparr>pb_size := v - pb_map_vaddr b, pb_map_size := v - pb_map_vaddr b\<rparr>"
    have u2: "sub64 v (pb_map_vaddr b) = v - pb_map_vaddr b" using B tail by (simp add: u64_simps)
    have pl: "piece_of b (pb_map_vaddr b) (v - pb_map_vaddr b) l" and acc: "map_access l = map_access b"
      by (auto simp: piece_of_def l_def map_tag_def map_access_def)
    have "map_pts l = {x \<in> map_pts b. fst x \<notin> span v n}"
    proof -
      have "map_pts l = {x \<in> map_pts b. fst x \<in> span (pb_map_vaddr b) (v - pb_map_vaddr b)}"
        by (rule piece_pts_map [OF pl acc]) (use tail in simp_all)
      also have "\<dots> = {x \<in> map_pts b. fst x \<notin> span v n}"
        by (rule Collect_cong) (use tail in \<open>fastforce simp: span_iff dest: map_ptsD\<close>)
      finally show ?thesis .
    qed
    then show ?thesis
      using tail piece_ok [OF ok pl]
      by (intro hit [where ls = "[l]" and rs = "[]"]) (auto simp: maps_range_def Let_def u u2 l_def)
  next
    case miss
    have skip: "unmap_loop v n (b # ms) = (case unmap_loop v n ms of None \<Rightarrow> None
        | Some (gpu, host, kept, pushed) \<Rightarrow> Some (gpu, host, b # kept, pushed))"
      using miss V by (auto simp: maps_range_def u Let_def)
    note IH = Cons.IH
    show ?thesis
    proof (cases "unmap_loop v n ms")
      case None
      then show ?thesis using skip Cons miss by auto
    next
      case (Some r)
      obtain gpu host kept pushed where r: "r = (gpu, host, kept, pushed)" by (cases r) auto
      have IH: "\<exists>b \<in> set ms. maps_range v n b \<and> gpu = pb_gpu b"
        "cover map_pts (kept @ pushed) = {x \<in> cover map_pts ms. fst x \<notin> span v n}"
        "\<forall>b \<in> set (kept @ pushed). mapping_ok b"
        using Cons Some r by auto
      from IH(1) obtain c where c: "c \<in> set ms" "maps_range v n c" by blast
      have "span (pb_map_vaddr b) (pb_map_size b) \<inter> span v n = {}"
      proof -
        have "span (pb_map_vaddr b) (pb_map_size b) \<inter> span (pb_map_vaddr c) (pb_map_size c) = {}"
          using Cons.prems(3) c(1) by simp
        moreover have "span v n \<subseteq> span (pb_map_vaddr c) (pb_map_size c)"
          using c(2) by (auto simp: maps_range_def span_iff)
        ultimately show ?thesis by blast
      qed
      then have "fst x \<notin> span v n" if "x \<in> map_pts b" for x using that fst_map_pts [of b] by blast
      with IH skip Some r ok show ?thesis by auto
    qed
  qed
qed simp

lemma phys_unmap_points:
  assumes "maps_inv s" and "range_ok v n"
  shows "case phys_unmap v n s of
      None \<Rightarrow> \<forall>b \<in> set (pm_mappings s). \<not> maps_range v n b
    | Some ((gpu, host), s') \<Rightarrow> (\<exists>b \<in> set (pm_mappings s). maps_range v n b \<and> gpu = pb_gpu b) \<and>
        mapped s' = {x \<in> mapped s. fst x \<notin> span v n} \<and>
        pm_physical s' = pm_physical s \<and> pm_free s' = pm_free s"
  using unmap_loop_points [of "pm_mappings s" v n] assms
  by (auto simp: phys_unmap_def maps_inv_def mapped_def Let_def split: option.splits)

subsection \<open>Finding the mappings of a physical range\<close>

lemma alias_part_points:
  assumes ok: "mapping_ok b" and len: "range_ok phys len"
    and hit: "virtual_ranges_overlap phys len (pb_start b) (pb_size b)"
  shows "map_pts (alias_part phys len b) = {x \<in> map_pts b. fst (snd x) \<in> span phys len}"
proof -
  note B = mapping_okD [OF ok] and L = range_okD [OF len]
  define s where "s = max phys (pb_start b)"
  define e where "e = min (phys + len) (pb_start b + pb_map_size b)"
  have "span phys len \<inter> span (pb_start b) (pb_map_size b) \<noteq> {}"
    using hit B L by (simp add: overlap_iff)
  then have se: "s < e" "pb_start b \<le> s" "phys \<le> s" "e \<le> phys + len" "e \<le> pb_start b + pb_map_size b"
    using B L by (auto simp: s_def e_def span_disjoint)
  have u: "add64 phys len = phys + len" "add64 (pb_start b) (pb_map_size b) = pb_start b + pb_map_size b"
    "sub64 e s = e - s" "sub64 s (pb_start b) = s - pb_start b"
    "add64 (pb_map_vaddr b) (s - pb_start b) = pb_map_vaddr b + (s - pb_start b)"
    using B L se by (simp_all add: u64_simps)
  define c where "c = b\<lparr>pb_start := s, pb_size := e - s, pb_map_vaddr := pb_map_vaddr b + (s - pb_start b),
    pb_map_size := e - s\<rparr>"
  have c: "alias_part phys len b = c"
    by (simp add: alias_part_def Let_def B(3) u s_def [symmetric] e_def [symmetric] c_def)
  have pc: "piece_of b (pb_map_vaddr b + (s - pb_start b)) (e - s) c" and acc: "map_access c = map_access b"
    using se by (auto simp: piece_of_def c_def map_tag_def map_access_def)
  have "map_pts c = {x \<in> map_pts b. fst x \<in> span (pb_map_vaddr b + (s - pb_start b)) (e - s)}"
    by (rule piece_pts_map [OF pc acc]) (use se in simp_all)
  also have "\<dots> = {x \<in> map_pts b. fst (snd x) \<in> span phys len}"
  proof (rule Collect_cong, rule conj_cong [OF refl])
    fix x assume x: "x \<in> map_pts b"
    then have p: "fst (snd x) = pb_start b + (fst x - pb_map_vaddr b)"
      by (auto simp: map_pts_def map_point_def)
    note xb = map_ptsD [OF x]
    define q where "q = fst (snd x)"
    have q: "q = pb_start b + (fst x - pb_map_vaddr b)" using p by (simp only: q_def)
    then have "pb_start b \<le> q" "q < pb_start b + pb_map_size b" using xb by auto
    then have "phys \<le> q \<and> q < phys + len \<longleftrightarrow> s \<le> q \<and> q < e" by (auto simp: s_def e_def)
    moreover have "s \<le> q \<longleftrightarrow> pb_map_vaddr b + (s - pb_start b) \<le> fst x"
      "q < e \<longleftrightarrow> fst x < pb_map_vaddr b + (s - pb_start b) + (e - s)"
      using q xb se by linarith+
    ultimately show "fst x \<in> span (pb_map_vaddr b + (s - pb_start b)) (e - s) \<longleftrightarrow> fst (snd x) \<in> span phys len"
      by (simp only: span_iff q_def [symmetric])
  qed
  finally show ?thesis by (simp add: c)
qed

lemma phys_find_mappings_points:
  assumes "\<forall>b \<in> set (pm_mappings s). mapping_ok b" and "range_ok phys len"
  shows "cover map_pts (phys_find_mappings phys len s) = {x \<in> mapped s. fst (snd x) \<in> span phys len}"
    and "sorted (map pb_map_vaddr (phys_find_mappings phys len s))"
proof -
  let ?hit = "\<lambda>m. virtual_ranges_overlap phys len (pb_start m) (pb_size m)"
  have off: "fst (snd x) \<notin> span phys len" if "b \<in> set (pm_mappings s)" "\<not> ?hit b" "x \<in> map_pts b" for b x
  proof -
    note B = mapping_okD [OF bspec [OF assms(1) that(1)]]
    have "span phys len \<inter> span (pb_start b) (pb_map_size b) = {}"
      using that(2) B range_okD(2) [OF assms(2)] by (simp add: overlap_iff)
    moreover have "fst (snd x) \<in> span (pb_start b) (pb_map_size b)"
      using that(3) by (auto simp: map_pts_def map_point_def span_iff)
    ultimately show ?thesis by blast
  qed
  have "cover map_pts (phys_find_mappings phys len s) =
    (\<Union>b \<in> {b \<in> set (pm_mappings s). ?hit b}. map_pts (alias_part phys len b))"
    by (auto simp: phys_find_mappings_def cover_def)
  also have "\<dots> = (\<Union>b \<in> {b \<in> set (pm_mappings s). ?hit b}. {x \<in> map_pts b. fst (snd x) \<in> span phys len})"
    using alias_part_points assms by (intro SUP_cong) auto
  also have "\<dots> = {x \<in> mapped s. fst (snd x) \<in> span phys len}"
    unfolding mapped_def cover_def using off by blast
  finally show "cover map_pts (phys_find_mappings phys len s) = {x \<in> mapped s. fst (snd x) \<in> span phys len}" .
  show "sorted (map pb_map_vaddr (phys_find_mappings phys len s))"
    by (simp add: phys_find_mappings_def)
qed

subsection \<open>What may be mapped\<close>

text \<open>The bytes that belong to blocks outside the pool.\<close>

definition direct_bytes :: "ablock omap \<Rightarrow> nat set" where
  "direct_bytes m = owned fst (entry_sz pb_size) (filter (\<lambda>p. \<not> pb_pool (snd p)) m)"

lemma direct_bytes_iff:
  "a \<in> direct_bytes m \<longleftrightarrow> (\<exists>p \<in> set m. \<not> pb_pool (snd p) \<and> fst p \<le> a \<and> a < fst p + pb_size (snd p))"
  by (simp only: direct_bytes_def owned_iff set_filter mem_Collect_eq) blast

text \<open>One round of the walk: the block at \<open>current\<close>, and what follows it.\<close>

lemma walk_round:
  assumes ok: "blocks_ok m" and ub: "upper_bound a m = (bs, fs)"
  shows "a \<in> direct_bytes m \<longleftrightarrow> bs \<noteq> [] \<and> \<not> (pb_pool (snd (last bs)) \<or> a < pb_start (snd (last bs)) \<or> a \<ge> pb_end (snd (last bs)))"
    and "bs \<noteq> [] \<Longrightarrow> last bs \<in> set m \<and> pb_start (snd (last bs)) = fst (last bs) \<and>
           pb_end (snd (last bs)) = fst (last bs) + pb_size (snd (last bs))"
    and "bs \<noteq> [] \<Longrightarrow> e = pb_end (snd (last bs)) \<Longrightarrow> a < e \<Longrightarrow>
           (fs = [] \<or> pb_start (snd (hd fs)) \<noteq> e) \<Longrightarrow> e \<notin> direct_bytes m"
proof -
  have t: "tiled fst (entry_sz pb_size) m" and st: "\<And>p. p \<in> set m \<Longrightarrow> pb_start (snd p) = fst p"
    using ok by (auto simp: blocks_ok_def)
  note split = upper_split [OF t upper_bound_tiled [OF ub]]
  show l: "bs \<noteq> [] \<Longrightarrow> last bs \<in> set m \<and> pb_start (snd (last bs)) = fst (last bs) \<and>
           pb_end (snd (last bs)) = fst (last bs) + pb_size (snd (last bs))"
  proof -
    assume "bs \<noteq> []"
    then have m: "last bs \<in> set m" using split(1) by simp
    then show ?thesis using st [OF m] tiled_end [OF t m] by (simp add: pb_end_def add64_le)
  qed
  show "a \<in> direct_bytes m \<longleftrightarrow> bs \<noteq> [] \<and> \<not> (pb_pool (snd (last bs)) \<or> a < pb_start (snd (last bs)) \<or> a \<ge> pb_end (snd (last bs)))"
  proof
    assume "a \<in> direct_bytes m"
    then obtain p where p: "p \<in> set m" "\<not> pb_pool (snd p)" "fst p \<le> a" "a < fst p + pb_size (snd p)"
      by (auto simp: direct_bytes_iff)
    from upper_split_last [OF t upper_bound_tiled [OF ub] p(1,3,4)] have "bs \<noteq> []" "last bs = p" by auto
    with l p show "bs \<noteq> [] \<and> \<not> (pb_pool (snd (last bs)) \<or> a < pb_start (snd (last bs)) \<or> a \<ge> pb_end (snd (last bs)))"
      by auto
  next
    assume h: "bs \<noteq> [] \<and> \<not> (pb_pool (snd (last bs)) \<or> a < pb_start (snd (last bs)) \<or> a \<ge> pb_end (snd (last bs)))"
    then show "a \<in> direct_bytes m"
      using l unfolding direct_bytes_iff by (intro bexI [of _ "last bs"]) auto
  qed
  assume bs: "bs \<noteq> []" and e: "e = pb_end (snd (last bs))" "a < e" and f: "fs = [] \<or> pb_start (snd (hd fs)) \<noteq> e"
  show "e \<notin> direct_bytes m"
  proof
    assume "e \<in> direct_bytes m"
    then obtain p where p: "p \<in> set m" "fst p \<le> e" "e < fst p + pb_size (snd p)"
      by (auto simp: direct_bytes_iff)
    have L: "last bs \<in> set m" "e = fst (last bs) + pb_size (snd (last bs))" using l [OF bs] e by auto
    have "p \<noteq> last bs" using p(3) L by auto
    have "p \<notin> set bs"
    proof
      assume "p \<in> set bs"
      with \<open>p \<noteq> last bs\<close> have "fst p + pb_size (snd p) \<le> fst (last bs)"
        using t split(1) by (intro tiled_before_last [where st = fst and sz = "entry_sz pb_size"]) auto
      with p(3) L show False by simp
    qed
    then have pf: "p \<in> set fs" using p(1) split(1) by auto
    then obtain q r where fs: "fs = q # r" by (cases fs) auto
    have q: "fst (last bs) + pb_size (snd (last bs)) \<le> fst q" "q \<in> set m" using t split(1) fs bs by auto
    have "fst q \<noteq> e" using f fs st [OF q(2)] by simp
    with q L have "e < fst q" by simp
    moreover have "fst q \<le> fst p"
    proof -
      have "p = q \<or> fst q + pb_size (snd q) \<le> fst p" using pf t split(1) fs by auto
      then show ?thesis by auto
    qed
    ultimately show False using p(2) by simp
  qed
qed

lemma direct_walk_correct:
  assumes "blocks_ok m"
  shows "direct_walk a e m \<longleftrightarrow> {a..<e} \<subseteq> direct_bytes m"
  using assms
proof (induction a e m rule: direct_walk.induct)
  case (1 a e m)
  show ?case
  proof (cases "a < e")
    case False
    then show ?thesis by (simp add: direct_walk.simps [of a e m])
  next
    case True
    obtain bs fs where ub: "upper_bound a m = (bs, fs)" by fastforce
    note R = walk_round [OF "1.prems" ub]
    show ?thesis
    proof (cases "a \<in> direct_bytes m")
      case False
      then have "\<not> direct_walk a e m" using True ub R(1) by (simp add: direct_walk.simps [of a e m]) (auto simp: Let_def)
      then show ?thesis using True False by auto
    next
      case inb: True
      define n where "n = min e (pb_end (snd (last bs)))"
      have bs: "bs \<noteq> []" and blk: "\<not> pb_pool (snd (last bs))" "\<not> a < pb_start (snd (last bs))" "a < pb_end (snd (last bs))"
        using inb R(1) by auto
      have part: "{a..<n} \<subseteq> direct_bytes m"
        using R(2) [OF bs] blk by (auto simp: n_def direct_bytes_iff intro!: bexI [of _ "last bs"])
      have split: "{a..<e} = {a..<n} \<union> {n..<e}" using True blk by (auto simp: n_def)
      have unf: "direct_walk a e m \<longleftrightarrow>
        (if n < e \<and> (fs = [] \<or> pb_start (snd (hd fs)) \<noteq> n) then False else direct_walk n e m)"
      proof -
        have "(pb_pool (snd (last bs)) \<or> a < pb_start (snd (last bs)) \<or> pb_end (snd (last bs)) \<le> a) = False"
          using blk by auto
        then show ?thesis
          by (simp only: direct_walk.simps [of a e m] True if_True ub prod.case bs if_False Let_def n_def)
      qed
      show ?thesis
      proof (cases "n < e \<and> (fs = [] \<or> pb_start (snd (hd fs)) \<noteq> n)")
        case gap: True
        then have "n = pb_end (snd (last bs))" by (auto simp: n_def)
        then have "n \<notin> direct_bytes m" using R(3) [OF bs] gap blk by auto
        moreover have "n \<in> {a..<e}" using gap True blk by (auto simp: n_def)
        ultimately show ?thesis using unf gap by auto
      next
        case False
        have "direct_walk n e m \<longleftrightarrow> {n..<e} \<subseteq> direct_bytes m"
          using "1.IH" [OF True ub [symmetric] bs refl refl _ n_def] False blk "1.prems" by auto
        with unf False split part show ?thesis by auto
      qed
    qed
  qed
qed

text \<open>The points of a part, as those of its block.\<close>

definition part_pts :: "ablock \<Rightarrow> (nat \<times> int \<times> bool \<times> string) set" where
  "part_pts b = block_pts (pb_start b, b)"

lemma span_walk_correct:
  assumes "blocks_ok m" and "a \<le> e"
  shows "case span_walk a e m of
      None \<Rightarrow> \<not> {a..<e} \<subseteq> direct_bytes m
    | Some parts \<Rightarrow> {a..<e} \<subseteq> direct_bytes m \<and> chain pb_start pb_size a parts e \<and>
        cover part_pts parts = {x \<in> cover block_pts m. fst x \<in> {a..<e}} \<and>
        (\<forall>b \<in> set parts. \<not> pb_pool b \<and> (\<exists>p \<in> set m. fst p \<le> pb_start b \<and> pb_start b + pb_size b \<le> fst p + pb_size (snd p)))"
  using assms
proof (induction a e m rule: span_walk.induct)
  case (1 a e m)
  have t: "tiled fst (entry_sz pb_size) m" using "1.prems" by (simp add: blocks_ok_def)
  show ?case
  proof (cases "a < e")
    case False
    then have "span_walk a e m = Some []" by (simp add: span_walk.simps [of a e m])
    then show ?thesis using False "1.prems"(2) by simp
  next
    case True
    obtain bs fs where ub: "upper_bound a m = (bs, fs)" by fastforce
    note R = walk_round [OF "1.prems"(1) ub]
    show ?thesis
    proof (cases "a \<in> direct_bytes m")
      case False
      then have "span_walk a e m = None" using True ub R(1) by (simp add: span_walk.simps [of a e m]) (auto simp: Let_def)
      then show ?thesis using True False by auto
    next
      case inb: True
      define b where "b = snd (last bs)"
      define n where "n = a + (min e (pb_end b) - a)"
      define part where "part = b\<lparr>pb_start := a, pb_size := min e (pb_end b) - a\<rparr>"
      have bs: "bs \<noteq> []" and blk: "\<not> pb_pool b" "\<not> a < pb_start b" "a < pb_end b"
        using inb R(1) by (auto simp: b_def)
      have mem: "(pb_start b, b) \<in> set m" and pe: "pb_end b = pb_start b + pb_size b"
        using R(2) [OF bs] by (auto simp: b_def)
      have n: "n = min e (pb_end b)" "a < n" "n \<le> e" "n \<le> pb_end b" using blk True by (auto simp: n_def)
      have part: "{a..<n} \<subseteq> direct_bytes m"
        using mem blk pe n by (auto simp: direct_bytes_iff intro!: bexI [of _ "(pb_start b, b)"])
      have split: "{a..<e} = {a..<n} \<union> {n..<e}" using n by auto
      have unf: "span_walk a e m =
        (if n < e \<and> (fs = [] \<or> pb_start (snd (hd fs)) \<noteq> n) then None
         else do { parts \<leftarrow> span_walk n e m; Some (part # parts) })"
      proof -
        have "(pb_pool b \<or> a < pb_start b \<or> pb_end b \<le> a) = False" using blk by auto
        then show ?thesis
          by (simp only: span_walk.simps [of a e m] True if_True ub prod.case bs if_False Let_def
              b_def [symmetric] n_def [symmetric] part_def [symmetric])
      qed
      have own: "x \<in> block_pts (pb_start b, b)" if "x \<in> cover block_pts m" "fst x \<in> {a..<n}" for x
      proof -
        from that(1) obtain p where p: "p \<in> set m" "x \<in> block_pts p" by (auto simp: cover_iff)
        then have "fst x \<in> span (fst p) (pb_size (snd p))" by (metis block_pts_bytes image_eqI)
        moreover have "fst x \<in> span (pb_start b) (pb_size b)" using that(2) n pe blk by (auto simp: span_iff)
        ultimately have "p = (pb_start b, b)" using tiled_unique [OF t p(1) mem, of "fst x"] by simp
        with p show ?thesis by simp
      qed
      have pp: "part_pts part = {x \<in> cover block_pts m. fst x \<in> {a..<n}}"
      proof -
        have "part_pts part = {x \<in> block_pts (pb_start b, b). fst x \<in> {a..<n}}"
          unfolding part_pts_def by (rule piece_pts) (use n blk pe in \<open>auto simp: part_def span_iff\<close>)
        also have "\<dots> = {x \<in> cover block_pts m. fst x \<in> {a..<n}}"
          using own mem unfolding cover_def by blast
        finally show ?thesis .
      qed
      show ?thesis
      proof (cases "n < e \<and> (fs = [] \<or> pb_start (snd (hd fs)) \<noteq> n)")
        case gap: True
        then have "n = pb_end b" using n(1) by auto
        then have "n \<notin> direct_bytes m" using R(3) [OF bs] gap blk by (auto simp: b_def)
        moreover have "n \<in> {a..<e}" using gap n by auto
        ultimately show ?thesis using unf gap by auto
      next
        case False
        have cond: "\<not> (pb_pool b \<or> a < pb_start b \<or> a \<ge> pb_end b)" using blk by auto
        have IH: "case span_walk n e m of
            None \<Rightarrow> \<not> {n..<e} \<subseteq> direct_bytes m
          | Some parts \<Rightarrow> {n..<e} \<subseteq> direct_bytes m \<and> chain pb_start pb_size n parts e \<and>
              cover part_pts parts = {x \<in> cover block_pts m. fst x \<in> {n..<e}} \<and>
              (\<forall>b \<in> set parts. \<not> pb_pool b \<and> (\<exists>p \<in> set m. fst p \<le> pb_start b \<and> pb_start b + pb_size b \<le> fst p + pb_size (snd p)))"
          using "1.IH" [OF True ub [symmetric] bs b_def refl cond refl n_def False "1.prems"(1) n(3)]
          by (simp only: part_def)
        show ?thesis
        proof (cases "span_walk n e m")
          case None
          then show ?thesis using unf False IH split by auto
        next
          case (Some parts)
          have "span_walk a e m = Some (part # parts)" using unf False Some by simp
          moreover have "chain pb_start pb_size a (part # parts) e"
            using IH Some n blk by (auto simp: part_def)
          moreover have "cover part_pts (part # parts) = {x \<in> cover block_pts m. fst x \<in> {a..<e}}"
            using IH Some pp split by auto
          moreover have "\<not> pb_pool part"
            "\<exists>p \<in> set m. fst p \<le> pb_start part \<and> pb_start part + pb_size part \<le> fst p + pb_size (snd p)"
            using blk n pe mem by (auto simp: part_def intro!: bexI [of _ "(pb_start b, b)"])
          ultimately show ?thesis using IH Some part split by auto
        qed
      qed
    qed
  qed
qed

subsection \<open>Properties\<close>

text \<open>\<open>GetAllocatedSpan\<close> succeeds exactly when every byte of the range belongs to an allocated block
  outside the pool; then its parts follow each other from the start to the end of the range without gap or
  overlap, each lies in one block, and together they carry the attributes of exactly those bytes.
  \<open>CanMapDirect\<close> answers the same question.\<close>

theorem phys_allocated_span_exact:
  assumes "phys_inv sz s" and "a \<le> U64_MAX"
  shows "(phys_can_map_direct a len s \<longleftrightarrow> phys_get_allocated_span a len s \<noteq> None) \<and>
    (phys_get_allocated_span a len s \<noteq> None \<longleftrightarrow> range_ok a len \<and> span a len \<subseteq> direct_bytes (pm_physical s)) \<and>
    (case phys_get_allocated_span a len s of None \<Rightarrow> True
     | Some parts \<Rightarrow> chain pb_start pb_size a parts (a + len) \<and>
         cover part_pts parts = {x \<in> alloc_pts s. fst x \<in> span a len} \<and> (\<forall>b \<in> set parts. \<not> pb_pool b))"
proof (cases "range_ok a len")
  case False
  then have "len = 0 \<or> U64_MAX - a < len" using assms(2) by (auto simp: range_ok_def)
  then show ?thesis using False by (simp add: phys_can_map_direct_def phys_get_allocated_span_def)
next
  case True
  then have guard: "\<not> (len = 0 \<or> U64_MAX - a < len)" by (auto simp: range_ok_def)
  have ok: "blocks_ok (pm_physical s)" using assms(1) by (simp add: phys_inv_def)
  have dw: "phys_can_map_direct a len s \<longleftrightarrow> span a len \<subseteq> direct_bytes (pm_physical s)"
    by (simp only: phys_can_map_direct_def guard if_False direct_walk_correct [OF ok] span_def)
  have sw: "phys_get_allocated_span a len s = span_walk a (a + len) (pm_physical s)"
    by (simp only: phys_get_allocated_span_def guard if_False)
  show ?thesis
    using span_walk_correct [OF ok, of a "a + len"] True dw
    by (cases "span_walk a (a + len) (pm_physical s)") (simp_all add: sw span_def alloc_pts_def)
qed

theorem phys_allocated_span_exact_witness:
  "(phys_can_map_direct 16384 65536 arena_one \<longleftrightarrow> phys_get_allocated_span 16384 65536 arena_one \<noteq> None) \<and>
    (phys_get_allocated_span 16384 65536 arena_one \<noteq> None \<longleftrightarrow>
       range_ok 16384 65536 \<and> span 16384 65536 \<subseteq> direct_bytes (pm_physical arena_one)) \<and>
    (case phys_get_allocated_span 16384 65536 arena_one of None \<Rightarrow> True
     | Some parts \<Rightarrow> chain pb_start pb_size 16384 parts (16384 + 65536) \<and>
         cover part_pts parts = {x \<in> alloc_pts arena_one. fst x \<in> span 16384 65536} \<and> (\<forall>b \<in> set parts. \<not> pb_pool b))"
  by (rule phys_allocated_span_exact [OF arena_one_eq(3)]) (simp add: U64_MAX_def)

definition arena_mapped :: phys_mem where
  "arena_mapped = the (phys_map 4294967296 16384 65536 3 ReadWrite GpuNoAccess arena_one)"

lemma arena_mapped_mappings:
  "pm_mappings arena_mapped = [(new_block 16384 65536 3 False)
     \<lparr>pb_map_vaddr := 4294967296, pb_map_size := 65536, pb_host_vaddr := 4294967296, pb_host_size := 65536,
      pb_prot := 3, pb_mode := ReadWrite\<rparr>]"
  "maps_inv arena_mapped"
proof -
  have u: "upper_bound 16384 (pm_physical arena_one) = ([(16384, new_block 16384 65536 3 False)], [])"
    by (simp add: arena_one_eq(2) upper_bound_def upper_bound_by_def)
  have w: "direct_walk 16384 81920 (pm_physical arena_one)"
    by (simp add: direct_walk.simps [of 16384 81920] direct_walk.simps [of 81920 81920] u pb_end_def add64_def new_block_def)
  show m: "pm_mappings arena_mapped = [(new_block 16384 65536 3 False)
     \<lparr>pb_map_vaddr := 4294967296, pb_map_size := 65536, pb_host_vaddr := 4294967296, pb_host_size := 65536,
      pb_prot := 3, pb_mode := ReadWrite\<rparr>]"
    by (simp add: arena_mapped_def phys_map_def U64_MAX_def u w Let_def new_block_def) (simp add: arena_one_eq(2))
  show "maps_inv arena_mapped"
    by (simp add: maps_inv_def m mapping_ok_def range_ok_def U64_MAX_def new_block_def)
qed

text \<open>\<open>ProtectMapping\<close> changes the access attributes of exactly the mapped addresses of its range.
  Every other address, and every translation from virtual to physical address, type and name, stays as it
  was, whichever mappings the range cuts. A range that wraps changes nothing.\<close>

theorem phys_protect_mapping_exact:
  assumes "maps_inv s" and "v \<le> U64_MAX"
  shows "mapped (phys_protect_mapping v n prot mode gpu s) =
      (if v + n \<le> U64_MAX then reaccess v n (prot, mode, gpu) ` mapped s else mapped s) \<and>
    alloc_pts (phys_protect_mapping v n prot mode gpu s) = alloc_pts s"
  using phys_protect_points [of s v n prot mode gpu] assms
  by (auto simp: maps_inv_def phys_protect_mapping_def alloc_pts_def)

theorem phys_protect_mapping_exact_witness:
  "mapped (phys_protect_mapping 4294983680 16384 1 Read GpuRead arena_mapped) =
      (if 4294983680 + 16384 \<le> U64_MAX then reaccess 4294983680 16384 (1, Read, GpuRead) ` mapped arena_mapped
       else mapped arena_mapped) \<and>
    alloc_pts (phys_protect_mapping 4294983680 16384 1 Read GpuRead arena_mapped) = alloc_pts arena_mapped"
  by (rule phys_protect_mapping_exact [OF arena_mapped_mappings(2)]) (simp add: U64_MAX_def)

text \<open>when mappings do not share virtual addresses, \<open>Unmap\<close> succeeds exactly when one mapping holds the
  whole range; it then removes exactly the translations of the range, keeps all others, and reports the GPU
  mode of that mapping.\<close>

theorem phys_unmap_exact:
  assumes "maps_inv s" and "range_ok v n"
  shows "case phys_unmap v n s of
      None \<Rightarrow> \<forall>b \<in> set (pm_mappings s). \<not> maps_range v n b
    | Some ((gpu, host), s') \<Rightarrow> (\<exists>b \<in> set (pm_mappings s). maps_range v n b \<and> gpu = pb_gpu b) \<and>
        mapped s' = {x \<in> mapped s. fst x \<notin> span v n} \<and>
        pm_physical s' = pm_physical s \<and> pm_free s' = pm_free s"
  by (rule phys_unmap_points [OF assms])

theorem phys_unmap_exact_witness:
  "case phys_unmap 4294983680 16384 arena_mapped of
      None \<Rightarrow> \<forall>b \<in> set (pm_mappings arena_mapped). \<not> maps_range 4294983680 16384 b
    | Some ((gpu, host), s') \<Rightarrow> (\<exists>b \<in> set (pm_mappings arena_mapped). maps_range 4294983680 16384 b \<and> gpu = pb_gpu b) \<and>
        mapped s' = {x \<in> mapped arena_mapped. fst x \<notin> span 4294983680 16384} \<and>
        pm_physical s' = pm_physical arena_mapped \<and> pm_free s' = pm_free arena_mapped"
  by (rule phys_unmap_exact [OF arena_mapped_mappings(2)]) (simp add: range_ok_def U64_MAX_def)

text \<open>\<open>FindMappings\<close> lists the aliases of a physical range: in order of virtual address, exactly the
  translations whose physical address lies in the range.\<close>

theorem phys_find_mappings_exact:
  assumes "maps_inv s" and "range_ok phys len"
  shows "cover map_pts (phys_find_mappings phys len s) = {x \<in> mapped s. fst (snd x) \<in> span phys len} \<and>
    sorted (map pb_map_vaddr (phys_find_mappings phys len s))"
  using phys_find_mappings_points [of s phys len] assms by (simp add: maps_inv_def)

theorem phys_find_mappings_exact_witness:
  "cover map_pts (phys_find_mappings 32768 4096 arena_mapped) = {x \<in> mapped arena_mapped. fst (snd x) \<in> span 32768 4096} \<and>
    sorted (map pb_map_vaddr (phys_find_mappings 32768 4096 arena_mapped))"
  by (rule phys_find_mappings_exact [OF arena_mapped_mappings(2)]) (simp add: range_ok_def U64_MAX_def)

end
