(* ===== verification/Virtual_Ranges.thy ===== *)
theory Virtual_Ranges
  imports Tiling
begin

text \<open>
  \<open>VirtualRanges\<close> of \<open>src/src/kernel/memory.cpp\<close>: the guest's address space as a vector of ranges in
  address order, each with its protection, memory type, kind and name. Neighbours that touch and
  agree are merged, except direct mappings and ranges that must not merge. A query or change that
  fails without effect is \<open>None\<close>.
\<close>

datatype vrange_type = Reserved | PoolReserved | Direct | Flexible | Pooled | Stack | Code | Runtime

definition is_reserved_range_type :: "vrange_type \<Rightarrow> bool" where
  "is_reserved_range_type t \<longleftrightarrow> t = Reserved \<or> t = PoolReserved"

definition is_pooled_range_type :: "vrange_type \<Rightarrow> bool" where
  "is_pooled_range_type t \<longleftrightarrow> t = Pooled \<or> t = PoolReserved"

definition is_committed_range_type :: "vrange_type \<Rightarrow> bool" where
  "is_committed_range_type t \<longleftrightarrow> \<not> is_reserved_range_type t"

definition is_private_committed_range_type :: "vrange_type \<Rightarrow> bool" where
  "is_private_committed_range_type t \<longleftrightarrow> t = Stack \<or> t = Code \<or> t = Runtime"

record vrange =
  vr_start :: u64
  vr_size :: u64
  vr_offset :: u64
  vr_prot :: int
  vr_memory_type :: int
  vr_type :: vrange_type
  vr_no_merge :: bool
  vr_name :: string

type_synonym vranges = "vrange list"

abbreviation vr_end :: "vrange \<Rightarrow> u64" where
  "vr_end r \<equiv> sat_end (vr_start r) (vr_size r)"

subsection \<open>Merging\<close>

definition same_merge_key :: "vrange \<Rightarrow> vrange \<Rightarrow> bool" where
  "same_merge_key left right \<longleftrightarrow>
     (if vr_no_merge left \<or> vr_no_merge right \<or> vr_type left = Direct \<or> vr_type right = Direct then False
      else vr_type left = vr_type right \<and> vr_prot left = vr_prot right \<and>
           vr_memory_type left = vr_memory_type right \<and> vr_name left = vr_name right)"

definition mergeable :: "vrange \<Rightarrow> vrange \<Rightarrow> bool" where
  "mergeable left right \<longleftrightarrow> vr_end left = vr_start right \<and> same_merge_key left right"

definition merge_pair :: "vrange \<Rightarrow> vrange \<Rightarrow> vrange" where
  "merge_pair left right = left\<lparr>vr_size := add64 (vr_size left) (vr_size right)\<rparr>"

text \<open>The second loop of \<open>MergeAroundUnlocked\<close>: the range at the index absorbs what follows it.\<close>

fun merge_next :: "vrange \<Rightarrow> vranges \<Rightarrow> vranges" where
  "merge_next current [] = [current]"
| "merge_next current (next # rest) =
     (if \<not> mergeable current next then current # next # rest
      else merge_next (merge_pair current next) rest)"

definition merge_around :: "nat \<Rightarrow> vranges \<Rightarrow> vranges" where
  "merge_around index rs =
     (if index \<ge> length rs then rs
      else
        let before = take index rs; current = rs ! index; after = drop (Suc index) rs
        in if index \<noteq> 0 \<and> mergeable (last before) current
           then butlast before @ merge_next (merge_pair (last before) current) after
           else before @ merge_next current after)"

text \<open>The loop of \<open>MergeUnlocked\<close>, with \<open>merged\<close> so far.\<close>

fun merge_scan :: "vranges \<Rightarrow> vranges \<Rightarrow> vranges" where
  "merge_scan merged [] = merged"
| "merge_scan merged (r # rs) =
     (if merged \<noteq> [] \<and> mergeable (last merged) r
      then merge_scan (butlast merged @ [merge_pair (last merged) r]) rs
      else merge_scan (merged @ [r]) rs)"

definition merge_unlocked :: "vranges \<Rightarrow> vranges" where
  "merge_unlocked rs = (if length rs < 2 then rs else merge_scan [] (sort_key vr_start rs))"

subsection \<open>Cutting\<close>

definition add_piece :: "vrange \<Rightarrow> u64 \<Rightarrow> u64 \<Rightarrow> vranges" where
  "add_piece source start end =
     (if end \<le> start then []
      else let piece = source\<lparr>vr_start := start, vr_size := end - start\<rparr>
           in [if vr_type piece = Direct
               then piece\<lparr>vr_offset := add64 (vr_offset piece) (sub64 start (vr_start source))\<rparr> else piece])"

definition remove_pieces :: "u64 \<Rightarrow> u64 \<Rightarrow> vrange \<Rightarrow> vranges" where
  "remove_pieces start size' r =
     (if \<not> virtual_ranges_overlap start size' (vr_start r) (vr_size r) then [r]
      else add_piece r (vr_start r) (max start (vr_start r)) @
           add_piece r (min (sat_end start size') (vr_end r)) (vr_end r))"

definition remove_unlocked :: "u64 \<Rightarrow> u64 \<Rightarrow> vranges \<Rightarrow> bool \<times> vranges" where
  "remove_unlocked start size' rs =
     (if size' = 0 then (False, rs)
      else (list_ex (\<lambda>r. virtual_ranges_overlap start size' (vr_start r) (vr_size r)) rs,
            concat (map (remove_pieces start size') rs)))"

definition edit_pieces :: "u64 \<Rightarrow> u64 \<Rightarrow> (vrange \<Rightarrow> vrange) \<Rightarrow> vrange \<Rightarrow> vranges" where
  "edit_pieces start size' edit r =
     (if \<not> virtual_ranges_overlap start size' (vr_start r) (vr_size r) then [r]
      else
        let mid_start = max start (vr_start r); mid_end = min (sat_end start size') (vr_end r);
            mid = r\<lparr>vr_start := mid_start, vr_size := sub64 mid_end mid_start\<rparr>;
            mid = (if vr_type mid = Direct
              then mid\<lparr>vr_offset := add64 (vr_offset mid) (sub64 mid_start (vr_start r))\<rparr> else mid)
        in add_piece r (vr_start r) mid_start @ [edit mid] @ add_piece r mid_end (vr_end r))"

definition edit_unlocked :: "u64 \<Rightarrow> u64 \<Rightarrow> (vrange \<Rightarrow> vrange) \<Rightarrow> vranges \<Rightarrow> vranges" where
  "edit_unlocked start size' edit rs =
     (if size' = 0 then rs else merge_unlocked (concat (map (edit_pieces start size' edit) rs)))"

subsection \<open>The methods\<close>

definition vr_lower_bound :: "u64 \<Rightarrow> vranges \<Rightarrow> vranges \<times> vranges" where
  "vr_lower_bound start rs = lower_bound_by vr_start start rs"

definition find_overlap :: "u64 \<Rightarrow> u64 \<Rightarrow> vranges \<Rightarrow> vrange option" where
  "find_overlap start size' rs =
     (case vr_lower_bound start rs of (before, after) \<Rightarrow>
        if after \<noteq> [] \<and> virtual_ranges_overlap start size' (vr_start (hd after)) (vr_size (hd after))
        then Some (hd after)
        else if before \<noteq> [] \<and> virtual_ranges_overlap start size' (vr_start (last before)) (vr_size (last before))
        then Some (last before)
        else None)"

definition vr_has_overlap :: "u64 \<Rightarrow> u64 \<Rightarrow> vranges \<Rightarrow> bool" where
  "vr_has_overlap start size' rs \<longleftrightarrow> find_overlap start size' rs \<noteq> None"

definition vr_query_overlap :: "u64 \<Rightarrow> u64 \<Rightarrow> vranges \<Rightarrow> vrange option" where
  "vr_query_overlap start size' rs = find_overlap start size' rs"

definition vr_add :: "u64 \<Rightarrow> u64 \<Rightarrow> u64 \<Rightarrow> int \<Rightarrow> int \<Rightarrow> vrange_type \<Rightarrow> string option \<Rightarrow> bool \<Rightarrow> vranges \<Rightarrow> vranges option" where
  "vr_add start size' offset protection memory_type type name disallow_merge rs =
     (if start = 0 \<or> size' = 0 then None
      else
        (case vr_lower_bound start rs of (before, after) \<Rightarrow>
          if after \<noteq> [] \<and> virtual_ranges_overlap start size' (vr_start (hd after)) (vr_size (hd after)) \<or>
             before \<noteq> [] \<and> virtual_ranges_overlap start size' (vr_start (last before)) (vr_size (last before))
          then None
          else
            let r = \<lparr>vr_start = start, vr_size = size', vr_offset = offset, vr_prot = protection,
                     vr_memory_type = memory_type, vr_type = type, vr_no_merge = disallow_merge,
                     vr_name = copy_virtual_range_name name\<rparr>
            in Some (merge_around (length before) (before @ r # after))))"

definition vr_remove :: "u64 \<Rightarrow> u64 \<Rightarrow> vranges \<Rightarrow> bool \<times> vranges" where
  "vr_remove start size' rs =
     (case vr_lower_bound start rs of (before, after) \<Rightarrow>
        if after \<noteq> [] \<and> vr_start (hd after) = start \<and> vr_size (hd after) = size'
        then (True, before @ tl after)
        else let (removed, out) = remove_unlocked start size' rs in (removed, merge_unlocked out))"

fun vr_release_reserved :: "u64 \<Rightarrow> u64 \<Rightarrow> vranges \<Rightarrow> vranges" where
  "vr_release_reserved start size' [] = []"
| "vr_release_reserved start size' (r # rs) =
     (if vr_start r = start \<and> vr_size r = size' \<and> is_reserved_range_type (vr_type r) then rs
      else r # vr_release_reserved start size' rs)"

definition vr_consume_reserved :: "u64 \<Rightarrow> u64 \<Rightarrow> vrange_type \<Rightarrow> vranges \<Rightarrow> vranges option" where
  "vr_consume_reserved start size' type rs =
     (if list_ex (\<lambda>r. vr_type r = type \<and> start \<ge> vr_start r \<and> sat_end start size' \<le> vr_end r) rs
      then Some (merge_unlocked (snd (remove_unlocked start size' rs))) else None)"

text \<open>
  The walk of \<open>ConsumeReservedSpan\<close>: \<open>None\<close> when a byte is not reserved, else the range of the first
  byte (the source stores it when \<open>current\<close> is still the start).
\<close>

function reserved_walk :: "u64 \<Rightarrow> u64 \<Rightarrow> vrange_type \<Rightarrow> vranges \<Rightarrow> bool" where
  "reserved_walk current end type rs =
     (if current < end then
        (case List.find (\<lambda>r. vr_type r = type \<and> current \<ge> vr_start r \<and> current < vr_end r) rs of
           None \<Rightarrow> False
         | Some candidate \<Rightarrow> reserved_walk (min end (vr_end candidate)) end type rs)
      else True)"
  by auto
termination
  by (relation "measure (\<lambda>(current, end, type, rs). end - current)") (auto simp: find_Some_iff)

declare reserved_walk.simps [simp del]

definition vr_consume_reserved_span :: "u64 \<Rightarrow> u64 \<Rightarrow> vrange_type \<Rightarrow> vranges \<Rightarrow> (vrange option \<times> vranges) option" where
  "vr_consume_reserved_span start size' type rs =
     (if size' = 0 then None
      else if \<not> reserved_walk start (sat_end start size') type rs then None
      else Some (if start < sat_end start size'
                 then List.find (\<lambda>r. vr_type r = type \<and> start \<ge> vr_start r \<and> start < vr_end r) rs else None,
                 merge_unlocked (snd (remove_unlocked start size' rs))))"

definition vr_rename :: "u64 \<Rightarrow> u64 \<Rightarrow> string option \<Rightarrow> vranges \<Rightarrow> vranges" where
  "vr_rename start size' name rs =
     (case vr_lower_bound start rs of (before, after) \<Rightarrow>
        if after \<noteq> [] \<and> vr_start (hd after) = start \<and> vr_size (hd after) = size'
        then merge_around (length before) (before @ (hd after)\<lparr>vr_name := copy_virtual_range_name name\<rparr> # tl after)
        else edit_unlocked start size' (\<lambda>r. r\<lparr>vr_name := copy_virtual_range_name name\<rparr>) rs)"

definition vr_protect :: "u64 \<Rightarrow> u64 \<Rightarrow> int \<Rightarrow> vranges \<Rightarrow> vranges" where
  "vr_protect start size' protection rs = edit_unlocked start size' (\<lambda>r. r\<lparr>vr_prot := protection\<rparr>) rs"

definition vr_set_memory_type :: "u64 \<Rightarrow> u64 \<Rightarrow> int \<Rightarrow> vranges \<Rightarrow> vranges" where
  "vr_set_memory_type start size' memory_type rs =
     edit_unlocked start size' (\<lambda>r. r\<lparr>vr_memory_type := memory_type\<rparr>) rs"

definition vr_query :: "u64 \<Rightarrow> int \<Rightarrow> vranges \<Rightarrow> vrange option" where
  "vr_query addr flags rs =
     (case upper_bound_by vr_start addr rs of (before, next) \<Rightarrow>
        if before \<noteq> [] \<and> addr < vr_end (last before) then Some (last before)
        else if flags \<noteq> 1 \<or> next = [] then None
        else Some (hd next))"

fun query_span_loop :: "u64 \<Rightarrow> u64 \<Rightarrow> vranges \<Rightarrow> vranges option" where
  "query_span_loop current end [] = None"
| "query_span_loop current end (r # rs) =
     (if vr_end r \<le> current then query_span_loop current end rs
      else if vr_start r > current then None
      else
        let part = r\<lparr>vr_start := current, vr_size := min end (vr_end r) - current\<rparr>;
            part = (if vr_type part = Direct
              then part\<lparr>vr_offset := add64 (vr_offset part) (sub64 current (vr_start r))\<rparr> else part);
            current = current + vr_size part
        in if current = end then Some [part]
           else map_option (\<lambda>ps. part # ps) (query_span_loop current end rs))"

definition vr_query_span :: "u64 \<Rightarrow> u64 \<Rightarrow> vranges \<Rightarrow> vranges option" where
  "vr_query_span start size' rs =
     (if start = 0 \<or> size' = 0 \<or> size' > U64_MAX - start then None
      else query_span_loop start (start + size') rs)"

fun clamp_loop :: "u64 \<Rightarrow> u64 \<Rightarrow> u64 \<Rightarrow> vranges \<Rightarrow> u64" where
  "clamp_loop clamped_size expected size' [] = clamped_size"
| "clamp_loop clamped_size expected size' (vma # rest) =
     (if vr_start vma = expected \<and> is_committed_range_type (vr_type vma) \<and> clamped_size < size' then
        let chunk = min (size' - clamped_size) (vr_size vma)
        in clamp_loop (clamped_size + chunk) (expected + chunk) size' rest
      else clamped_size)"

definition vr_clamp_range_size :: "u64 \<Rightarrow> u64 \<Rightarrow> vranges \<Rightarrow> u64" where
  "vr_clamp_range_size virtual_addr size' rs =
     (if virtual_addr = 0 \<or> size' = 0 \<or> size' > U64_MAX - virtual_addr then 0
      else
        (case upper_bound_by vr_start virtual_addr rs of (before, after) \<Rightarrow>
          if before = [] then 0
          else let vma = last before
               in if virtual_addr < vr_start vma \<or> virtual_addr \<ge> vr_end vma \<or>
                     \<not> is_committed_range_type (vr_type vma) then 0
                  else let clamped_size = min size' (vr_end vma - virtual_addr)
                       in clamp_loop clamped_size (virtual_addr + clamped_size) size' after))"

definition PAGE_TABLE_GRANULARITY :: u64 where
  "PAGE_TABLE_GRANULARITY = 2 * 1024 * 1024"

definition page_table_entries :: "bool \<Rightarrow> vrange \<Rightarrow> u64" where
  "page_table_entries gpu r =
     (if \<not> is_committed_range_type (vr_type r) \<or> vr_size r = 0 then 0
      else
        let has_cpu_access = (vr_prot r AND (PROT_CPU_READ OR PROT_CPU_WRITE OR PROT_CPU_EXEC) \<noteq> 0);
            has_gpu_access = (vr_prot r AND (PROT_GPU_READ OR PROT_GPU_WRITE) \<noteq> 0)
        in if (if gpu then \<not> has_gpu_access else \<not> has_cpu_access) then 0
           else (vr_end r - 1) div PAGE_TABLE_GRANULARITY - vr_start r div PAGE_TABLE_GRANULARITY + 1)"

definition vr_count_page_table_entries :: "bool \<Rightarrow> vranges \<Rightarrow> u64" where
  "vr_count_page_table_entries gpu rs = foldl (\<lambda>used r. add64 used (page_table_entries gpu r)) 0 rs"

end
