(* ===== verification/Range_Map.thy ===== *)
theory Range_Map
  imports Virtual_Ranges
begin

text \<open>
  \<open>VirtualRanges\<close> as a map of addresses. The points of a range are its addresses with the physical
  address behind a direct mapping and the attributes; \<open>vr_map\<close> collects them. Ranges are in order, do
  not overlap and are merged as far as the merge rule allows (\<open>vr_inv\<close>). Every change is the pointwise
  change of \<open>vr_map\<close> it should be, and every query is exact on it.
\<close>

type_synonym vr_attr = "int \<times> int \<times> vrange_type \<times> bool \<times> string"

definition vr_tag :: "vrange \<Rightarrow> vr_attr" where
  "vr_tag r = (vr_prot r, vr_memory_type r, vr_type r, vr_no_merge r, vr_name r)"

definition vr_point :: "vrange \<Rightarrow> nat \<Rightarrow> nat \<times> u64 option \<times> vr_attr" where
  "vr_point r a = (a, if vr_type r = Direct then Some (add64 (vr_offset r) (a - vr_start r)) else None, vr_tag r)"

definition vr_pts :: "vrange \<Rightarrow> (nat \<times> u64 option \<times> vr_attr) set" where
  "vr_pts r = vr_point r ` span (vr_start r) (vr_size r)"

definition vr_map :: "vranges \<Rightarrow> (nat \<times> u64 option \<times> vr_attr) set" where
  "vr_map rs = cover vr_pts rs"

abbreviation vr_tiled :: "vranges \<Rightarrow> bool" where
  "vr_tiled \<equiv> tiled vr_start vr_size"

abbreviation vr_owned :: "vranges \<Rightarrow> nat set" where
  "vr_owned \<equiv> owned vr_start vr_size"

definition vr_merged :: "vranges \<Rightarrow> bool" where
  "vr_merged rs \<longleftrightarrow> successively (\<lambda>a b. \<not> mergeable a b) rs"

definition vr_inv :: "vranges \<Rightarrow> bool" where
  "vr_inv rs \<longleftrightarrow> vr_tiled rs \<and> vr_merged rs"

lemma vr_map_simps [simp]:
  "vr_map [] = {}" "vr_map (r # rs) = vr_pts r \<union> vr_map rs" "vr_map (rs @ rs') = vr_map rs \<union> vr_map rs'"
  by (simp_all add: vr_map_def)

lemma fst_vr_pts: "fst ` vr_pts r = span (vr_start r) (vr_size r)"
  by (auto simp: vr_pts_def vr_point_def image_image)

lemma fst_vr_map: "fst ` vr_map rs = vr_owned rs"
  by (simp add: vr_map_def owned_def cover_def image_UN fst_vr_pts)

lemma vr_ptsD: "x \<in> vr_pts r \<Longrightarrow> vr_start r \<le> fst x \<and> fst x < vr_start r + vr_size r \<and> snd (snd x) = vr_tag r"
  by (auto simp: vr_pts_def vr_point_def span_iff)

lemma add64_assoc: "add64 (add64 a b) c = add64 a (b + c)"
  by (simp only: add64_def mod_add_left_eq add.assoc)

lemma add64_zero: "add64 (add64 a b) 0 = add64 a b"
  by (simp add: add64_assoc)

subsection \<open>Pieces of a range\<close>

definition vr_piece :: "vrange \<Rightarrow> u64 \<Rightarrow> u64 \<Rightarrow> vrange" where
  "vr_piece r s n = (let p = r\<lparr>vr_start := s, vr_size := n\<rparr>
     in if vr_type r = Direct then p\<lparr>vr_offset := add64 (vr_offset r) (s - vr_start r)\<rparr> else p)"

lemma vr_piece_simps [simp]:
  "vr_start (vr_piece r s n) = s" "vr_size (vr_piece r s n) = n" "vr_type (vr_piece r s n) = vr_type r"
  "vr_tag (vr_piece r s n) = vr_tag r"
  by (simp_all add: vr_piece_def Let_def vr_tag_def)

lemma vr_piece_point:
  assumes "vr_start r \<le> s" and "s \<le> a"
  shows "vr_point (vr_piece r s n) a = vr_point r a"
proof -
  have "s - vr_start r + (a - s) = a - vr_start r" using assms by simp
  then show ?thesis by (simp add: vr_point_def) (simp add: vr_piece_def add64_assoc)
qed

lemma vr_piece_pts:
  assumes "vr_start r \<le> s" and "s + n \<le> vr_start r + vr_size r"
  shows "vr_pts (vr_piece r s n) = {x \<in> vr_pts r. fst x \<in> span s n}"
proof -
  have "vr_pts (vr_piece r s n) = vr_point r ` span s n"
    using vr_piece_point [OF assms(1)] by (auto simp: vr_pts_def span_iff intro!: image_cong)
  moreover have "{x \<in> vr_pts r. fst x \<in> span s n} = vr_point r ` span s n"
    using assms by (auto simp: vr_pts_def span_iff vr_point_def)
  ultimately show ?thesis by simp
qed

lemma add_piece_eq:
  assumes "vr_start r \<le> s" and "s \<le> U64_MAX"
  shows "add_piece r s e = (if e \<le> s then [] else [vr_piece r s (e - s)])"
  using assms by (auto simp: add_piece_def Let_def vr_piece_def sub64_le)

text \<open>The addresses a call is about, with the saturating end of the source.\<close>

definition reach :: "u64 \<Rightarrow> u64 \<Rightarrow> nat set" where
  "reach start size' = {start..<sat_end start size'}"

lemma reach_span: "start + size' \<le> U64_MAX \<Longrightarrow> reach start size' = span start size'"
  by (simp add: reach_def sat_end_le span_def)

lemma overlap_reach:
  assumes "range_ok s n" and "start \<le> U64_MAX"
  shows "virtual_ranges_overlap start size' s n \<longleftrightarrow> reach start size' \<inter> span s n \<noteq> {}"
proof -
  note R = range_okD [OF assms(1)]
  have "reach start size' = span start (sat_end start size' - start)"
    using assms(2) by (auto simp: reach_def span_def sat_end_def)
  moreover have "sat_end start size' - start = 0 \<longleftrightarrow> size' = 0 \<or> start = U64_MAX"
    using assms(2) by (auto simp: sat_end_def)
  moreover have "start \<le> sat_end start size'" using assms(2) by (auto simp: sat_end_def)
  ultimately show ?thesis
    using R by (auto simp: virtual_ranges_overlap_def Let_def sat_end_le span_disjoint)
qed

text \<open>A range cut by a call into what lies before, in and behind the reach.\<close>

lemma cut_range:
  assumes ok: "range_ok (vr_start r) (vr_size r)" and st: "start \<le> U64_MAX"
    and hit: "virtual_ranges_overlap start size' (vr_start r) (vr_size r)"
    and s: "s = max start (vr_start r)" and e: "e = min (sat_end start size') (vr_end r)"
  shows "vr_start r \<le> s" "s < e" "e \<le> vr_start r + vr_size r" "vr_end r = vr_start r + vr_size r"
    and "vr_pts r = {x \<in> vr_pts r. fst x < s} \<union> {x \<in> vr_pts r. s \<le> fst x \<and> fst x < e} \<union> {x \<in> vr_pts r. e \<le> fst x}"
    and "\<And>x. x \<in> vr_pts r \<Longrightarrow> fst x \<in> reach start size' \<longleftrightarrow> s \<le> fst x \<and> fst x < e"
proof -
  note R = range_okD [OF ok]
  show ve: "vr_end r = vr_start r + vr_size r" using R by (simp add: sat_end_le)
  have "reach start size' \<inter> span (vr_start r) (vr_size r) \<noteq> {}" using hit overlap_reach [OF ok st] by simp
  then obtain a where "start \<le> a" "a < sat_end start size'" "vr_start r \<le> a" "a < vr_start r + vr_size r"
    by (auto simp: reach_def span_iff)
  then show "vr_start r \<le> s" "s < e" "e \<le> vr_start r + vr_size r"
    using R by (auto simp: s e ve)
  show "vr_pts r = {x \<in> vr_pts r. fst x < s} \<union> {x \<in> vr_pts r. s \<le> fst x \<and> fst x < e} \<union> {x \<in> vr_pts r. e \<le> fst x}"
    by auto
  show "\<And>x. x \<in> vr_pts r \<Longrightarrow> fst x \<in> reach start size' \<longleftrightarrow> s \<le> fst x \<and> fst x < e"
    using ve by (auto simp: reach_def s e dest: vr_ptsD)
qed

lemma add_piece_left:
  assumes "range_ok (vr_start r) (vr_size r)" and "vr_start r \<le> s" and "s \<le> vr_start r + vr_size r"
  shows "cover vr_pts (add_piece r (vr_start r) s) = {x \<in> vr_pts r. fst x < s}"
    and "vr_tiled (add_piece r (vr_start r) s)"
    and "\<forall>p \<in> set (add_piece r (vr_start r) s). vr_start r \<le> vr_start p \<and> vr_start p + vr_size p \<le> s"
proof -
  note R = range_okD [OF assms(1)]
  have eq: "add_piece r (vr_start r) s = (if s \<le> vr_start r then [] else [vr_piece r (vr_start r) (s - vr_start r)])"
    using R by (intro add_piece_eq) auto
  have "{x \<in> vr_pts r. fst x < s} = {x \<in> vr_pts r. fst x \<in> span (vr_start r) (s - vr_start r)}"
    using assms(2) by (auto simp: span_iff dest: vr_ptsD)
  then show "cover vr_pts (add_piece r (vr_start r) s) = {x \<in> vr_pts r. fst x < s}"
    using assms by (auto simp: eq vr_piece_pts dest: vr_ptsD)
  show "vr_tiled (add_piece r (vr_start r) s)"
    "\<forall>p \<in> set (add_piece r (vr_start r) s). vr_start r \<le> vr_start p \<and> vr_start p + vr_size p \<le> s"
    using R assms by (auto simp: eq range_ok_def)
qed

lemma add_piece_right:
  assumes "range_ok (vr_start r) (vr_size r)" and "vr_start r \<le> e" and "e \<le> vr_start r + vr_size r"
  shows "cover vr_pts (add_piece r e (vr_end r)) = {x \<in> vr_pts r. e \<le> fst x}"
    and "vr_tiled (add_piece r e (vr_end r))"
    and "\<forall>p \<in> set (add_piece r e (vr_end r)). e \<le> vr_start p \<and> vr_start p + vr_size p \<le> vr_start r + vr_size r"
proof -
  note R = range_okD [OF assms(1)]
  have ve: "vr_end r = vr_start r + vr_size r" using R by (simp add: sat_end_le)
  have eq: "add_piece r e (vr_end r) =
      (if vr_start r + vr_size r \<le> e then [] else [vr_piece r e (vr_start r + vr_size r - e)])"
    unfolding ve using R assms by (intro add_piece_eq) auto
  have "{x \<in> vr_pts r. e \<le> fst x} = {x \<in> vr_pts r. fst x \<in> span e (vr_start r + vr_size r - e)}"
    using assms(3) by (auto simp: span_iff dest: vr_ptsD)
  then show "cover vr_pts (add_piece r e (vr_end r)) = {x \<in> vr_pts r. e \<le> fst x}"
    using assms by (auto simp: eq vr_piece_pts dest: vr_ptsD)
  show "vr_tiled (add_piece r e (vr_end r))"
    "\<forall>p \<in> set (add_piece r e (vr_end r)). e \<le> vr_start p \<and> vr_start p + vr_size p \<le> vr_start r + vr_size r"
    using R assms by (auto simp: eq range_ok_def)
qed

definition within_range :: "vrange \<Rightarrow> vranges \<Rightarrow> bool" where
  "within_range r ps \<longleftrightarrow> vr_tiled ps \<and>
     (\<forall>p \<in> set ps. vr_start r \<le> vr_start p \<and> vr_start p + vr_size p \<le> vr_start r + vr_size r)"

lemma remove_pieces_points:
  assumes ok: "range_ok (vr_start r) (vr_size r)" and st: "start \<le> U64_MAX"
  shows "cover vr_pts (remove_pieces start size' r) = {x \<in> vr_pts r. fst x \<notin> reach start size'}"
    and "within_range r (remove_pieces start size' r)"
proof -
  have "cover vr_pts (remove_pieces start size' r) = {x \<in> vr_pts r. fst x \<notin> reach start size'} \<and>
    within_range r (remove_pieces start size' r)"
  proof (cases "virtual_ranges_overlap start size' (vr_start r) (vr_size r)")
    case False
    then have "fst x \<notin> reach start size'" if "x \<in> vr_pts r" for x
      using that fst_vr_pts [of r] overlap_reach [OF ok st] by blast
    with False ok show ?thesis by (auto simp: remove_pieces_def within_range_def)
  next
    case True
    define s where "s = max start (vr_start r)"
    define e where "e = min (sat_end start size') (vr_end r)"
    note C = cut_range [OF ok st True s_def e_def]
    have eq: "remove_pieces start size' r = add_piece r (vr_start r) s @ add_piece r e (vr_end r)"
      using True by (simp add: remove_pieces_def s_def e_def)
    have se: "s \<le> vr_start r + vr_size r" "vr_start r \<le> e" using C by auto
    note L = add_piece_left [OF ok C(1) se(1)] and Rt = add_piece_right [OF ok se(2) C(3)]
    have "{x \<in> vr_pts r. fst x \<notin> reach start size'} = {x \<in> vr_pts r. fst x < s} \<union> {x \<in> vr_pts r. e \<le> fst x}"
      using C(6) C(2) by (auto simp: not_less)
    then have "cover vr_pts (remove_pieces start size' r) = {x \<in> vr_pts r. fst x \<notin> reach start size'}"
      by (simp add: eq L(1) Rt(1))
    moreover have "within_range r (remove_pieces start size' r)"
      unfolding within_range_def eq using L(2,3) Rt(2,3) C by fastforce
    ultimately show ?thesis by simp
  qed
  then show "cover vr_pts (remove_pieces start size' r) = {x \<in> vr_pts r. fst x \<notin> reach start size'}"
    and "within_range r (remove_pieces start size' r)" by auto
qed

text \<open>An edit that changes attributes only.\<close>

definition attr_edit :: "(vrange \<Rightarrow> vrange) \<Rightarrow> (vr_attr \<Rightarrow> vr_attr) \<Rightarrow> bool" where
  "attr_edit edit f \<longleftrightarrow> (\<forall>r. vr_start (edit r) = vr_start r \<and> vr_size (edit r) = vr_size r \<and>
     vr_offset (edit r) = vr_offset r \<and> vr_type (edit r) = vr_type r \<and> vr_tag (edit r) = f (vr_tag r))"

definition retag :: "nat set \<Rightarrow> (vr_attr \<Rightarrow> vr_attr) \<Rightarrow> nat \<times> u64 option \<times> vr_attr \<Rightarrow> nat \<times> u64 option \<times> vr_attr" where
  "retag A f x = (if fst x \<in> A then (fst x, fst (snd x), f (snd (snd x))) else x)"

lemma edit_pieces_points:
  assumes ok: "range_ok (vr_start r) (vr_size r)" and st: "start \<le> U64_MAX" and ed: "attr_edit edit f"
  shows "cover vr_pts (edit_pieces start size' edit r) = retag (reach start size') f ` vr_pts r"
    and "within_range r (edit_pieces start size' edit r)"
proof -
  have "cover vr_pts (edit_pieces start size' edit r) = retag (reach start size') f ` vr_pts r \<and>
    within_range r (edit_pieces start size' edit r)"
  proof (cases "virtual_ranges_overlap start size' (vr_start r) (vr_size r)")
    case False
    then have "retag (reach start size') f x = x" if "x \<in> vr_pts r" for x
      using that fst_vr_pts [of r] overlap_reach [OF ok st] by (auto simp: retag_def)
    then have "retag (reach start size') f ` vr_pts r = vr_pts r" by (simp cong: image_cong)
    with False ok show ?thesis by (simp add: edit_pieces_def within_range_def)
  next
    case True
    define s where "s = max start (vr_start r)"
    define e where "e = min (sat_end start size') (vr_end r)"
    note C = cut_range [OF ok st True s_def e_def] and R = range_okD [OF ok]
    define mid where "mid = vr_piece r s (e - s)"
    have u: "sub64 e s = e - s" "sub64 s (vr_start r) = s - vr_start r" using C R by (simp_all add: sub64_le)
    have eq: "edit_pieces start size' edit r = add_piece r (vr_start r) s @ [edit mid] @ add_piece r e (vr_end r)"
      using True by (simp add: edit_pieces_def Let_def s_def [symmetric] e_def [symmetric] u mid_def vr_piece_def)
    have se: "s \<le> vr_start r + vr_size r" "vr_start r \<le> e" using C by auto
    note L = add_piece_left [OF ok C(1) se(1)] and Rt = add_piece_right [OF ok se(2) C(3)]
    have m: "vr_start (edit mid) = s" "vr_size (edit mid) = e - s"
      using ed by (simp_all add: attr_edit_def mid_def)
    have "vr_pts (edit mid) = retag (reach start size') f ` {x \<in> vr_pts r. s \<le> fst x \<and> fst x < e}"
    proof -
      have "vr_point (edit mid) a = retag (reach start size') f (vr_point r a)" if "s \<le> a" "a < e" for a
      proof -
        have "a \<in> reach start size'" using that by (auto simp: reach_def s_def e_def)
        moreover have "vr_point (edit mid) a = (a, fst (snd (vr_point mid a)), f (vr_tag r))"
          using ed by (simp add: attr_edit_def vr_point_def mid_def)
        ultimately show ?thesis
          using vr_piece_point [OF C(1) that(1)] by (simp add: mid_def retag_def vr_point_def)
      qed
      moreover have "{x \<in> vr_pts r. s \<le> fst x \<and> fst x < e} = vr_point r ` {s..<e}"
        using C by (auto simp: vr_pts_def span_iff vr_point_def)
      moreover have "vr_pts (edit mid) = vr_point (edit mid) ` {s..<e}"
        using C(2) by (simp add: vr_pts_def m span_def)
      ultimately show ?thesis by (simp add: image_image)
    qed
    moreover have "retag (reach start size') f ` {x \<in> vr_pts r. fst x < s} = {x \<in> vr_pts r. fst x < s}"
      "retag (reach start size') f ` {x \<in> vr_pts r. e \<le> fst x} = {x \<in> vr_pts r. e \<le> fst x}"
      using C(6) by (auto simp: retag_def image_iff)
    ultimately have "cover vr_pts (edit_pieces start size' edit r) = retag (reach start size') f ` vr_pts r"
      by (subst C(5)) (simp add: eq L(1) Rt(1) image_Un Un_assoc)
    moreover have "within_range r (edit_pieces start size' edit r)"
      unfolding within_range_def eq using L(2,3) Rt(2,3) C R m by (fastforce simp: range_ok_def)
    ultimately show ?thesis by simp
  qed
  then show "cover vr_pts (edit_pieces start size' edit r) = retag (reach start size') f ` vr_pts r"
    and "within_range r (edit_pieces start size' edit r)" by auto
qed

lemma within_tiled:
  assumes "vr_tiled rs" and "\<And>r. r \<in> set rs \<Longrightarrow> within_range r (f r)"
  shows "vr_tiled (concat (map f rs)) \<and> (\<forall>p \<in> set (concat (map f rs)). \<exists>r \<in> set rs.
     vr_start r \<le> vr_start p \<and> vr_start p + vr_size p \<le> vr_start r + vr_size r)"
  using assms
proof (induction rs)
  case (Cons r rs)
  then have w: "within_range r (f r)" by simp
  have IH: "vr_tiled (concat (map f rs))" "\<forall>p \<in> set (concat (map f rs)). \<exists>r \<in> set rs.
     vr_start r \<le> vr_start p \<and> vr_start p + vr_size p \<le> vr_start r + vr_size r"
    using Cons by auto
  have "\<forall>p \<in> set (f r). \<forall>q \<in> set (concat (map f rs)). vr_start p + vr_size p \<le> vr_start q"
  proof (intro ballI)
    fix p q assume p: "p \<in> set (f r)" and q: "q \<in> set (concat (map f rs))"
    have "vr_start p + vr_size p \<le> vr_start r + vr_size r" using w p by (simp add: within_range_def)
    moreover obtain r' where "r' \<in> set rs" "vr_start r' \<le> vr_start q" using bspec [OF IH(2) q] by blast
    moreover from this Cons.prems(1) have "vr_start r + vr_size r \<le> vr_start r'" by simp
    ultimately show "vr_start p + vr_size p \<le> vr_start q" by simp
  qed
  then show ?case using w IH by (auto simp: within_range_def)
qed simp

subsection \<open>Merging\<close>

lemma merge_pair_points:
  assumes a: "range_ok (vr_start a) (vr_size a)" and b: "range_ok (vr_start b) (vr_size b)" and m: "mergeable a b"
  shows "vr_pts (merge_pair a b) = vr_pts a \<union> vr_pts b"
    and "vr_start (merge_pair a b) = vr_start a"
    and "vr_size (merge_pair a b) = vr_size a + vr_size b" and "vr_start b = vr_start a + vr_size a"
    and "range_ok (vr_start (merge_pair a b)) (vr_size (merge_pair a b))"
proof -
  note A = range_okD [OF a] and B = range_okD [OF b]
  show st: "vr_start b = vr_start a + vr_size a"
    using m A by (simp add: mergeable_def sat_end_le)
  show s: "vr_start (merge_pair a b) = vr_start a" by (simp add: merge_pair_def)
  show sz: "vr_size (merge_pair a b) = vr_size a + vr_size b"
    using B st by (simp add: merge_pair_def add64_le)
  show "range_ok (vr_start (merge_pair a b)) (vr_size (merge_pair a b))"
    using A B st by (simp add: s sz range_ok_def)
  have key: "vr_type a \<noteq> Direct" "vr_type b \<noteq> Direct" "vr_tag a = vr_tag b"
    using m by (auto simp: mergeable_def same_merge_key_def vr_tag_def split: if_splits)
  have p: "vr_point (merge_pair a b) = (\<lambda>x. (x, None, vr_tag a))" "vr_point a = (\<lambda>x. (x, None, vr_tag a))"
    "vr_point b = (\<lambda>x. (x, None, vr_tag a))"
    using key by (auto simp: vr_point_def merge_pair_def vr_tag_def)
  have "span (vr_start a) (vr_size a + vr_size b) = span (vr_start a) (vr_size a) \<union> span (vr_start b) (vr_size b)"
    using st by (auto simp: span_iff)
  then show "vr_pts (merge_pair a b) = vr_pts a \<union> vr_pts b"
    by (simp add: vr_pts_def p s sz image_Un)
qed

lemma mergeable_left:
  "vr_end a' = vr_end a \<Longrightarrow> vr_tag a' = vr_tag a \<Longrightarrow> mergeable a' b = mergeable a b"
  by (auto simp: mergeable_def same_merge_key_def vr_tag_def)

lemma mergeable_right:
  "vr_start b' = vr_start b \<Longrightarrow> vr_tag b' = vr_tag b \<Longrightarrow> mergeable a b' = mergeable a b"
  by (auto simp: mergeable_def same_merge_key_def vr_tag_def)

lemma merge_pair_tag: "vr_tag (merge_pair a b) = vr_tag a"
  by (simp add: merge_pair_def vr_tag_def)

lemma mergeable_before: "mergeable c (merge_pair a b) = mergeable c a"
  by (rule mergeable_right) (simp_all add: merge_pair_tag, simp add: merge_pair_def)

lemma vr_merged_simps [simp]:
  "vr_merged []" "vr_merged [r]" "vr_merged (r # q # rs) \<longleftrightarrow> \<not> mergeable r q \<and> vr_merged (q # rs)"
  by (simp_all add: vr_merged_def)

lemma vr_merged_append:
  "vr_merged (xs @ ys) \<longleftrightarrow> vr_merged xs \<and> vr_merged ys \<and> (xs \<noteq> [] \<longrightarrow> ys \<noteq> [] \<longrightarrow> \<not> mergeable (last xs) (hd ys))"
  by (auto simp: vr_merged_def successively_append_iff)

lemma vr_merged_tl: "vr_merged (r # rs) \<Longrightarrow> vr_merged rs"
  by (cases rs) auto

lemma merge_scan_correct:
  assumes "vr_tiled (ms @ rs)" and "vr_merged ms"
  shows "vr_tiled (merge_scan ms rs) \<and> vr_merged (merge_scan ms rs) \<and> vr_map (merge_scan ms rs) = vr_map (ms @ rs)"
  using assms
proof (induction ms rs rule: merge_scan.induct)
  case (2 ms r rs)
  show ?case
  proof (cases "ms \<noteq> [] \<and> mergeable (last ms) r")
    case True
    define l where "l = last ms"
    have ms: "ms = butlast ms @ [l]" using True by (simp add: l_def)
    have t: "vr_tiled (butlast ms @ l # r # rs)" using "2.prems"(1) by (subst (asm) ms) simp
    then have P: "vr_pts (merge_pair l r) = vr_pts l \<union> vr_pts r" "vr_start (merge_pair l r) = vr_start l"
      "vr_size (merge_pair l r) = vr_size l + vr_size r" "vr_start r = vr_start l + vr_size l"
      "range_ok (vr_start (merge_pair l r)) (vr_size (merge_pair l r))"
      using True merge_pair_points [of l r] by (auto simp: l_def)
    have t': "vr_tiled ((butlast ms @ [merge_pair l r]) @ rs)" using t P by auto
    have "vr_merged (butlast ms @ [l])" using "2.prems"(2) ms by simp
    then have m': "vr_merged (butlast ms @ [merge_pair l r])"
      by (auto simp: vr_merged_append mergeable_before)
    have "vr_map ((butlast ms @ [merge_pair l r]) @ rs) = vr_map (butlast ms @ [l] @ r # rs)"
      using P(1) by auto
    also have "\<dots> = vr_map (ms @ r # rs)" using ms by (metis append.assoc)
    finally show ?thesis
      using "2.IH"(1) [OF True] t' m' True by (simp add: l_def)
  next
    case False
    then show ?thesis using 2 by (auto simp: vr_merged_append)
  qed
qed simp

lemma sort_tiled: "vr_tiled rs \<Longrightarrow> sort_key vr_start rs = rs"
  by (rule sort_key_id_if_sorted) (use tiled_sorted_le in \<open>auto simp: sorted_wrt_map\<close>)

lemma merge_unlocked_correct:
  assumes "vr_tiled rs"
  shows "vr_inv (merge_unlocked rs)" and "vr_map (merge_unlocked rs) = vr_map rs"
proof -
  have "vr_merged rs" if "length rs < 2" using that by (cases rs) auto
  then have "vr_inv (merge_unlocked rs) \<and> vr_map (merge_unlocked rs) = vr_map rs"
    using merge_scan_correct [of "[]" rs] assms by (auto simp: merge_unlocked_def vr_inv_def sort_tiled)
  then show "vr_inv (merge_unlocked rs)" and "vr_map (merge_unlocked rs) = vr_map rs" by auto
qed

lemma merge_next_correct:
  assumes "vr_tiled (c # rs)" and "vr_merged rs"
  shows "vr_tiled (merge_next c rs) \<and> vr_merged (merge_next c rs) \<and> vr_map (merge_next c rs) = vr_map (c # rs) \<and>
    merge_next c rs \<noteq> [] \<and> vr_start (hd (merge_next c rs)) = vr_start c \<and> vr_tag (hd (merge_next c rs)) = vr_tag c"
  using assms
proof (induction c rs rule: merge_next.induct)
  case (2 c n rs)
  show ?case
  proof (cases "mergeable c n")
    case True
    have P: "vr_pts (merge_pair c n) = vr_pts c \<union> vr_pts n" "vr_start (merge_pair c n) = vr_start c"
      "vr_size (merge_pair c n) = vr_size c + vr_size n" "vr_start n = vr_start c + vr_size c"
      "range_ok (vr_start (merge_pair c n)) (vr_size (merge_pair c n))"
      using True merge_pair_points [of c n] "2.prems"(1) by auto
    have "vr_tiled (merge_pair c n # rs)" using "2.prems"(1) P by auto
    then show ?thesis
      using "2.IH" True P "2.prems"(2) vr_merged_tl [of n rs] by (auto simp: merge_pair_tag)
  qed (use 2 in auto)
qed auto

lemma merge_around_correct:
  assumes t: "vr_tiled (bs @ c # fs)" and b: "vr_merged bs" and f: "vr_merged fs"
  shows "vr_inv (merge_around (length bs) (bs @ c # fs))"
    and "vr_map (merge_around (length bs) (bs @ c # fs)) = vr_map (bs @ c # fs)"
proof -
  have eq: "merge_around (length bs) (bs @ c # fs) =
    (if bs \<noteq> [] \<and> mergeable (last bs) c then butlast bs @ merge_next (merge_pair (last bs) c) fs
     else bs @ merge_next c fs)"
    by (simp add: merge_around_def Let_def)
  have join: "vr_inv (xs @ merge_next d fs) \<and> vr_map (xs @ merge_next d fs) = vr_map (xs @ d # fs)"
    if "vr_tiled (xs @ d # fs)" "vr_merged xs" "xs \<noteq> [] \<longrightarrow> \<not> mergeable (last xs) d" for xs d
  proof -
    have N: "vr_tiled (merge_next d fs)" "vr_merged (merge_next d fs)" "vr_map (merge_next d fs) = vr_map (d # fs)"
      "merge_next d fs \<noteq> []" "vr_start (hd (merge_next d fs)) = vr_start d" "vr_tag (hd (merge_next d fs)) = vr_tag d"
      using merge_next_correct [of d fs] that(1) f by auto
    have "\<forall>a \<in> set xs. \<forall>p \<in> set (merge_next d fs). vr_start a + vr_size a \<le> vr_start p"
    proof (intro ballI)
      fix a p assume a: "a \<in> set xs" and p: "p \<in> set (merge_next d fs)"
      have "vr_start (hd (merge_next d fs)) \<le> vr_start p"
        using N(1,4) p by (cases "merge_next d fs") auto
      moreover have "vr_start a + vr_size a \<le> vr_start d" using that(1) a by simp
      ultimately show "vr_start a + vr_size a \<le> vr_start p" using N(5) by simp
    qed
    moreover have "mergeable (last xs) (hd (merge_next d fs)) = mergeable (last xs) d"
      by (rule mergeable_right [OF N(5,6)])
    ultimately show ?thesis using N that by (auto simp: vr_inv_def vr_merged_append)
  qed
  show "vr_inv (merge_around (length bs) (bs @ c # fs))"
    and "vr_map (merge_around (length bs) (bs @ c # fs)) = vr_map (bs @ c # fs)"
  proof -
    have "vr_inv (merge_around (length bs) (bs @ c # fs)) \<and>
      vr_map (merge_around (length bs) (bs @ c # fs)) = vr_map (bs @ c # fs)"
    proof (cases "bs \<noteq> [] \<and> mergeable (last bs) c")
      case False
      then show ?thesis using join [OF t b] by (auto simp: eq)
    next
      case True
      define l where "l = last bs"
      have bs: "bs = butlast bs @ [l]" using True by (simp add: l_def)
      have t2: "vr_tiled (butlast bs @ l # c # fs)" using t by (subst (asm) bs) simp
      then have P: "vr_pts (merge_pair l c) = vr_pts l \<union> vr_pts c" "vr_start (merge_pair l c) = vr_start l"
        "vr_size (merge_pair l c) = vr_size l + vr_size c" "vr_start c = vr_start l + vr_size l"
        "range_ok (vr_start (merge_pair l c)) (vr_size (merge_pair l c))"
        using True merge_pair_points [of l c] by (auto simp: l_def)
      have t': "vr_tiled (butlast bs @ merge_pair l c # fs)" using t2 P by auto
      have bl: "vr_merged (butlast bs @ [l])" using b bs by simp
      have J: "vr_inv (butlast bs @ merge_next (merge_pair l c) fs) \<and>
        vr_map (butlast bs @ merge_next (merge_pair l c) fs) = vr_map (butlast bs @ merge_pair l c # fs)"
        by (rule join [OF t']) (use bl in \<open>auto simp: vr_merged_append mergeable_before\<close>)
      have "vr_map (butlast bs @ merge_pair l c # fs) = vr_map (butlast bs @ [l] @ c # fs)"
        using P(1) by auto
      also have "\<dots> = vr_map (bs @ c # fs)" using bs by (metis append.assoc)
      finally show ?thesis using J True by (simp add: eq l_def)
    qed
    then show "vr_inv (merge_around (length bs) (bs @ c # fs))"
      and "vr_map (merge_around (length bs) (bs @ c # fs)) = vr_map (bs @ c # fs)" by auto
  qed
qed

subsection \<open>The changes\<close>

lemma remove_unlocked_points:
  assumes t: "vr_tiled rs" and st: "start \<le> U64_MAX"
  shows "vr_tiled (snd (remove_unlocked start size' rs))"
    and "vr_map (snd (remove_unlocked start size' rs)) = {x \<in> vr_map rs. fst x \<notin> reach start size'}"
    and "fst (remove_unlocked start size' rs) \<longleftrightarrow> reach start size' \<inter> vr_owned rs \<noteq> {}"
proof -
  have ok: "range_ok (vr_start r) (vr_size r)" if "r \<in> set rs" for r using tiled_range [OF t that] .
  have z: "reach start 0 = {}" using st by (auto simp: reach_def sat_end_def)
  have c: "vr_map (concat (map (remove_pieces start size') rs)) = {x \<in> vr_map rs. fst x \<notin> reach start size'}"
    unfolding vr_map_def using remove_pieces_points(1) [OF ok st] by (intro cover_concat_filter)
  show "vr_tiled (snd (remove_unlocked start size' rs))"
    using within_tiled [OF t, of "remove_pieces start size'"] remove_pieces_points(2) [OF ok st] t
    by (auto simp: remove_unlocked_def)
  show "vr_map (snd (remove_unlocked start size' rs)) = {x \<in> vr_map rs. fst x \<notin> reach start size'}"
    using c z by (auto simp: remove_unlocked_def)
  have "reach start size' \<inter> vr_owned rs \<noteq> {} \<longleftrightarrow> (\<exists>r \<in> set rs. reach start size' \<inter> span (vr_start r) (vr_size r) \<noteq> {})"
    by (auto simp: owned_def cover_def)
  also have "\<dots> \<longleftrightarrow> (\<exists>r \<in> set rs. virtual_ranges_overlap start size' (vr_start r) (vr_size r))"
    using overlap_reach [OF ok st] by blast
  finally show "fst (remove_unlocked start size' rs) \<longleftrightarrow> reach start size' \<inter> vr_owned rs \<noteq> {}"
    by (auto simp: remove_unlocked_def list_ex_iff virtual_ranges_overlap_def)
qed

lemma edit_unlocked_points:
  assumes inv: "vr_inv rs" and st: "start \<le> U64_MAX" and ed: "attr_edit edit f"
  shows "vr_inv (edit_unlocked start size' edit rs)"
    and "vr_map (edit_unlocked start size' edit rs) = retag (reach start size') f ` vr_map rs"
proof -
  have t: "vr_tiled rs" using inv by (simp add: vr_inv_def)
  have ok: "range_ok (vr_start r) (vr_size r)" if "r \<in> set rs" for r using tiled_range [OF t that] .
  have z: "retag (reach start 0) f = (\<lambda>x. x)" using st by (auto simp: reach_def sat_end_def retag_def)
  have t': "vr_tiled (concat (map (edit_pieces start size' edit) rs))"
    using within_tiled [OF t, of "edit_pieces start size' edit"] edit_pieces_points(2) [OF ok st ed] by auto
  have "vr_map (concat (map (edit_pieces start size' edit) rs)) = retag (reach start size') f ` vr_map rs"
    unfolding vr_map_def using edit_pieces_points(1) [OF ok st ed] by (intro cover_concat_image)
  then show "vr_inv (edit_unlocked start size' edit rs)"
    and "vr_map (edit_unlocked start size' edit rs) = retag (reach start size') f ` vr_map rs"
    using merge_unlocked_correct [OF t'] inv z by (auto simp: edit_unlocked_def)
qed

lemma lower_bound_tiled: "vr_lower_bound a rs = (bs, fs) \<Longrightarrow> lower_bound_by vr_start a rs = (bs, fs)"
  by (simp add: vr_lower_bound_def)

text \<open>The neighbours of the insertion point decide whether a range overlaps anything.\<close>

lemma neighbours_decide:
  assumes t: "vr_tiled rs" and lb: "vr_lower_bound start rs = (bs, fs)" and ok: "range_ok start size'"
  shows "span start size' \<inter> vr_owned rs = {} \<longleftrightarrow>
     (bs = [] \<or> \<not> virtual_ranges_overlap start size' (vr_start (last bs)) (vr_size (last bs))) \<and>
     (fs = [] \<or> \<not> virtual_ranges_overlap start size' (vr_start (hd fs)) (vr_size (hd fs)))"
    and "span start size' \<inter> vr_owned rs = {} \<Longrightarrow>
      (\<forall>b \<in> set bs. vr_start b + vr_size b \<le> start) \<and> (\<forall>f \<in> set fs. start + size' \<le> vr_start f)"
proof -
  note L = lower_split [OF t lower_bound_tiled [OF lb]] and S = range_okD [OF ok]
  have ov: "virtual_ranges_overlap start size' (vr_start r) (vr_size r) \<longleftrightarrow> span start size' \<inter> span (vr_start r) (vr_size r) \<noteq> {}"
    if "r \<in> set rs" for r using tiled_end [OF t that] S by (intro overlap_iff) auto
  have sub: "span (vr_start r) (vr_size r) \<subseteq> vr_owned rs" if "r \<in> set rs" for r
    using that by (auto simp: owned_def cover_def)
  have ends: "(\<forall>b \<in> set bs. vr_start b + vr_size b \<le> start) \<and> (\<forall>f \<in> set fs. start + size' \<le> vr_start f)"
    if n: "bs = [] \<or> \<not> virtual_ranges_overlap start size' (vr_start (last bs)) (vr_size (last bs))"
      "fs = [] \<or> \<not> virtual_ranges_overlap start size' (vr_start (hd fs)) (vr_size (hd fs))"
  proof (intro conjI ballI)
    fix b assume b: "b \<in> set bs"
    then have lb: "last bs \<in> set bs" by (cases bs) auto
    then have l: "last bs \<in> set rs" "vr_start (last bs) < start" using L by auto
    have "span start size' \<inter> span (vr_start (last bs)) (vr_size (last bs)) = {}"
      using n(1) b ov [OF l(1)] by auto
    then have "vr_start (last bs) + vr_size (last bs) \<le> start"
      using S l(2) tiled_size_pos [OF t l(1)] by (auto simp: span_disjoint)
    moreover have "b = last bs \<or> vr_start b + vr_size b \<le> vr_start (last bs)"
      using tiled_before_last [of vr_start vr_size bs b] b t L(1) by auto
    ultimately show "vr_start b + vr_size b \<le> start" using l(2) by auto
  next
    fix f assume f: "f \<in> set fs"
    then obtain h r where fs: "fs = h # r" by (cases fs) auto
    then have h: "h \<in> set rs" "start \<le> vr_start h" using L by auto
    have "span start size' \<inter> span (vr_start h) (vr_size h) = {}" using n(2) fs ov [OF h(1)] by auto
    then have "start + size' \<le> vr_start h"
      using S h(2) tiled_size_pos [OF t h(1)] by (auto simp: span_disjoint)
    moreover have "f = h \<or> vr_start h + vr_size h \<le> vr_start f" using f fs t L(1) by auto
    ultimately show "start + size' \<le> vr_start f" by auto
  qed
  show A: "span start size' \<inter> vr_owned rs = {} \<longleftrightarrow>
     (bs = [] \<or> \<not> virtual_ranges_overlap start size' (vr_start (last bs)) (vr_size (last bs))) \<and>
     (fs = [] \<or> \<not> virtual_ranges_overlap start size' (vr_start (hd fs)) (vr_size (hd fs)))"
  proof
    assume d: "span start size' \<inter> vr_owned rs = {}"
    have "\<not> virtual_ranges_overlap start size' (vr_start r) (vr_size r)" if "r \<in> set rs" for r
      using d sub [OF that] ov [OF that] by blast
    then show "(bs = [] \<or> \<not> virtual_ranges_overlap start size' (vr_start (last bs)) (vr_size (last bs))) \<and>
     (fs = [] \<or> \<not> virtual_ranges_overlap start size' (vr_start (hd fs)) (vr_size (hd fs)))"
      using L(1) by auto
  next
    assume "(bs = [] \<or> \<not> virtual_ranges_overlap start size' (vr_start (last bs)) (vr_size (last bs))) \<and>
     (fs = [] \<or> \<not> virtual_ranges_overlap start size' (vr_start (hd fs)) (vr_size (hd fs)))"
    with ends show "span start size' \<inter> vr_owned rs = {}"
      using L(1) by (force simp: owned_iff span_iff)
  qed
  show "span start size' \<inter> vr_owned rs = {} \<Longrightarrow>
      (\<forall>b \<in> set bs. vr_start b + vr_size b \<le> start) \<and> (\<forall>f \<in> set fs. start + size' \<le> vr_start f)"
    using A ends by auto
qed

definition new_range :: "u64 \<Rightarrow> u64 \<Rightarrow> u64 \<Rightarrow> int \<Rightarrow> int \<Rightarrow> vrange_type \<Rightarrow> string option \<Rightarrow> bool \<Rightarrow> vrange" where
  "new_range start size' offset protection memory_type type name disallow_merge =
     \<lparr>vr_start = start, vr_size = size', vr_offset = offset, vr_prot = protection,
      vr_memory_type = memory_type, vr_type = type, vr_no_merge = disallow_merge,
      vr_name = copy_virtual_range_name name\<rparr>"

lemma vr_add_points:
  assumes inv: "vr_inv rs" and ok: "range_ok start size'" and nz: "start \<noteq> 0"
  shows "case vr_add start size' off prot mt ty name dm rs of
      None \<Rightarrow> span start size' \<inter> vr_owned rs \<noteq> {}
    | Some rs' \<Rightarrow> span start size' \<inter> vr_owned rs = {} \<and> vr_inv rs' \<and>
        vr_map rs' = vr_map rs \<union> vr_pts (new_range start size' off prot mt ty name dm)"
proof -
  have t: "vr_tiled rs" and m: "vr_merged rs" using inv by (simp_all add: vr_inv_def)
  obtain bs fs where lb: "vr_lower_bound start rs = (bs, fs)" by fastforce
  note L = lower_split [OF t lower_bound_tiled [OF lb]] and N = neighbours_decide [OF t lb ok]
  define r where "r = new_range start size' off prot mt ty name dm"
  have r: "vr_start r = start" "vr_size r = size'" by (simp_all add: r_def new_range_def)
  have guard: "\<not> (start = 0 \<or> size' = 0)" using nz range_okD(1) [OF ok] by simp
  have eq: "vr_add start size' off prot mt ty name dm rs =
    (if span start size' \<inter> vr_owned rs = {} then Some (merge_around (length bs) (bs @ r # fs)) else None)"
    unfolding N(1) by (auto simp: vr_add_def guard lb Let_def r_def new_range_def simp del: not_gr_zero)
  show ?thesis
  proof (cases "span start size' \<inter> vr_owned rs = {}")
    case True
    have "vr_tiled (bs @ r # fs)" using N(2) [OF True] t L(1) ok r by auto
    moreover have "vr_merged bs" "vr_merged fs" using m L(1) by (auto simp: vr_merged_append)
    ultimately show ?thesis
      using merge_around_correct [of bs r fs] eq True L(1) by (auto simp: r_def)
  next
    case False
    then show ?thesis by (simp add: eq)
  qed
qed

lemma vr_merged_remove:
  assumes t: "vr_tiled (bs @ r # fs)" and m: "vr_merged (bs @ r # fs)"
  shows "vr_merged (bs @ fs)"
proof -
  have "\<not> mergeable (last bs) (hd fs)" if "bs \<noteq> []" "fs \<noteq> []"
  proof -
    have "last bs \<in> set (bs @ r # fs)" using that by simp
    then have "vr_end (last bs) = vr_start (last bs) + vr_size (last bs)"
      using tiled_end [OF t] by (blast intro: sat_end_le)
    moreover have "vr_start (last bs) + vr_size (last bs) \<le> vr_start r" "0 < vr_size r"
      "vr_start r + vr_size r \<le> vr_start (hd fs)"
      using t that by (auto simp: range_ok_def)
    ultimately show ?thesis by (simp add: mergeable_def)
  qed
  with m show ?thesis by (auto simp: vr_merged_append dest: vr_merged_tl)
qed

lemma vr_remove_points:
  assumes inv: "vr_inv rs" and st: "start \<le> U64_MAX"
  shows "vr_inv (snd (vr_remove start size' rs))"
    and "vr_map (snd (vr_remove start size' rs)) = {x \<in> vr_map rs. fst x \<notin> reach start size'}"
    and "fst (vr_remove start size' rs) \<longleftrightarrow> reach start size' \<inter> vr_owned rs \<noteq> {}"
proof -
  have t: "vr_tiled rs" and m: "vr_merged rs" using inv by (simp_all add: vr_inv_def)
  obtain bs fs where lb: "vr_lower_bound start rs = (bs, fs)" by fastforce
  note L = lower_split [OF t lower_bound_tiled [OF lb]]
  have "vr_inv (snd (vr_remove start size' rs)) \<and>
    vr_map (snd (vr_remove start size' rs)) = {x \<in> vr_map rs. fst x \<notin> reach start size'} \<and>
    (fst (vr_remove start size' rs) \<longleftrightarrow> reach start size' \<inter> vr_owned rs \<noteq> {})"
  proof (cases "fs \<noteq> [] \<and> vr_start (hd fs) = start \<and> vr_size (hd fs) = size'")
    case True
    then obtain r fs' where fs: "fs = r # fs'" and r: "vr_start r = start" "vr_size r = size'" by (cases fs) auto
    have t': "vr_tiled (bs @ r # fs')" and m': "vr_merged (bs @ r # fs')" using t m L(1) fs by auto
    have eq: "vr_remove start size' rs = (True, bs @ fs')" using True lb fs by (simp add: vr_remove_def)
    have R: "reach start size' = span (vr_start r) (vr_size r)"
      using t' r by (auto intro!: reach_span simp: range_ok_def)
    have inv': "vr_inv (bs @ fs')" using vr_merged_remove [OF t' m'] t' by (simp add: vr_inv_def)
    have off: "fst x \<notin> span (vr_start r) (vr_size r)" if "x \<in> vr_map bs \<or> x \<in> vr_map fs'" for x
    proof -
      have "fst x \<in> vr_owned bs \<or> fst x \<in> vr_owned fs'" using that fst_vr_map by blast
      then show ?thesis using t' by (force simp: owned_iff span_iff)
    qed
    have on: "fst x \<in> span (vr_start r) (vr_size r)" if "x \<in> vr_pts r" for x using that fst_vr_pts by blast
    have "vr_map (bs @ fs') = {x \<in> vr_map (bs @ r # fs'). fst x \<notin> span (vr_start r) (vr_size r)}"
      unfolding vr_map_simps using off on by blast
    moreover have "span (vr_start r) (vr_size r) \<inter> vr_owned rs \<noteq> {}"
    proof -
      have "vr_start r \<in> span (vr_start r) (vr_size r)" using t' by (auto simp: range_ok_def span_iff)
      then show ?thesis by (auto simp: L(1) fs)
    qed
    moreover have "vr_map rs = vr_map (bs @ r # fs')" by (simp only: L(1) fs)
    ultimately show ?thesis unfolding eq R fst_conv snd_conv using inv' by simp
  next
    case False
    then have "vr_remove start size' rs =
      (fst (remove_unlocked start size' rs), merge_unlocked (snd (remove_unlocked start size' rs)))"
      using lb by (auto simp: vr_remove_def split: prod.splits)
    then show ?thesis
      using remove_unlocked_points [OF t st, of size'] merge_unlocked_correct by auto
  qed
  then show "vr_inv (snd (vr_remove start size' rs))"
    and "vr_map (snd (vr_remove start size' rs)) = {x \<in> vr_map rs. fst x \<notin> reach start size'}"
    and "fst (vr_remove start size' rs) \<longleftrightarrow> reach start size' \<inter> vr_owned rs \<noteq> {}" by auto
qed

text \<open>The addresses whose range satisfies a predicate.\<close>

definition kind_owned :: "(vrange_type \<Rightarrow> bool) \<Rightarrow> vranges \<Rightarrow> nat set" where
  "kind_owned P rs = vr_owned (filter (\<lambda>r. P (vr_type r)) rs)"

lemma kind_owned_iff:
  "a \<in> kind_owned P rs \<longleftrightarrow> (\<exists>r \<in> set rs. P (vr_type r) \<and> vr_start r \<le> a \<and> a < vr_start r + vr_size r)"
  by (auto simp: kind_owned_def owned_iff)

lemma kind_owned_map: "kind_owned P rs = fst ` {x \<in> vr_map rs. P (fst (snd (snd (snd (snd x)))))}"
proof -
  have "kind_owned P rs = (\<Union>r \<in> {r \<in> set rs. P (vr_type r)}. fst ` vr_pts r)"
    by (auto simp: kind_owned_def owned_def cover_def fst_vr_pts)
  also have "\<dots> = fst ` (\<Union>r \<in> {r \<in> set rs. P (vr_type r)}. vr_pts r)" by (simp only: image_UN)
  also have "(\<Union>r \<in> {r \<in> set rs. P (vr_type r)}. vr_pts r) = {x \<in> vr_map rs. P (fst (snd (snd (snd (snd x)))))}"
    by (auto simp: vr_map_def cover_iff vr_pts_def vr_point_def vr_tag_def)
  finally show ?thesis .
qed

lemma reserved_walk_correct:
  assumes "vr_tiled rs"
  shows "reserved_walk c e ty rs \<longleftrightarrow> {c..<e} \<subseteq> kind_owned (\<lambda>t. t = ty) rs"
  using assms
proof (induction c e ty rs rule: reserved_walk.induct)
  case (1 c e ty rs)
  let ?at = "\<lambda>r. vr_type r = ty \<and> c \<ge> vr_start r \<and> c < vr_end r"
  have ve: "vr_end r = vr_start r + vr_size r" if "r \<in> set rs" for r
    using tiled_end [OF "1.prems" that] by (simp add: sat_end_le)
  show ?case
  proof (cases "c < e")
    case False
    then show ?thesis by (simp add: reserved_walk.simps [of c e])
  next
    case True
    show ?thesis
    proof (cases "List.find ?at rs")
      case None
      then have "c \<notin> kind_owned (\<lambda>t. t = ty) rs" using ve by (auto simp: find_None_iff kind_owned_iff)
      then show ?thesis using None True by (auto simp: reserved_walk.simps [of c e])
    next
      case (Some r)
      then have r: "r \<in> set rs" "?at r" by (auto simp: find_Some_iff)
      have IH: "reserved_walk (min e (vr_end r)) e ty rs \<longleftrightarrow> {min e (vr_end r)..<e} \<subseteq> kind_owned (\<lambda>t. t = ty) rs"
        using "1.IH" [OF True Some "1.prems"] .
      have "{c..<min e (vr_end r)} \<subseteq> kind_owned (\<lambda>t. t = ty) rs"
        using r ve [OF r(1)] by (auto simp: kind_owned_iff intro!: bexI [of _ r])
      moreover have "{c..<e} = {c..<min e (vr_end r)} \<union> {min e (vr_end r)..<e}" using r(2) True by auto
      ultimately show ?thesis using IH True Some by (simp add: reserved_walk.simps [of c e])
    qed
  qed
qed

lemma query_span_loop_correct:
  assumes "vr_tiled rs" and "c < e"
  shows "case query_span_loop c e rs of
      None \<Rightarrow> \<not> {c..<e} \<subseteq> vr_owned rs
    | Some parts \<Rightarrow> {c..<e} \<subseteq> vr_owned rs \<and> chain vr_start vr_size c parts e \<and>
        cover vr_pts parts = {x \<in> vr_map rs. fst x \<in> {c..<e}}"
  using assms
proof (induction rs arbitrary: c)
  case (Cons r rs)
  have ok: "range_ok (vr_start r) (vr_size r)" and t: "vr_tiled rs" and later: "\<forall>q \<in> set rs. vr_start r + vr_size r \<le> vr_start q"
    using Cons.prems by auto
  note R = range_okD [OF ok]
  have ve: "vr_end r = vr_start r + vr_size r" using R by (simp add: sat_end_le)
  have beyond: "vr_start r + vr_size r \<le> a" if "a \<in> vr_owned rs" for a
    using that later by (force simp: owned_iff)
  have beyond_pts: "vr_start r + vr_size r \<le> fst x" if "x \<in> vr_map rs" for x
    using beyond that fst_vr_map by blast
  consider (past) "vr_end r \<le> c" | (gap) "c < vr_start r" | (here) "vr_start r \<le> c" "c < vr_end r" by linarith
  then show ?case
  proof cases
    case past
    have "{c..<e} \<subseteq> vr_owned (r # rs) \<longleftrightarrow> {c..<e} \<subseteq> vr_owned rs"
      using past ve by (auto simp: span_iff)
    moreover have "{x \<in> vr_map (r # rs). fst x \<in> {c..<e}} = {x \<in> vr_map rs. fst x \<in> {c..<e}}"
      using past ve by (auto dest: vr_ptsD)
    ultimately show ?thesis using Cons.IH [OF t Cons.prems(2)] past by (auto split: option.splits)
  next
    case gap
    then have "c \<notin> vr_owned (r # rs)" using beyond [of c] R by (auto simp: span_iff)
    then have "\<not> {c..<e} \<subseteq> vr_owned (r # rs)" using Cons.prems(2) by auto
    moreover have "query_span_loop c e (r # rs) = None" using gap ve R by simp
    ultimately show ?thesis by simp
  next
    case here
    define n where "n = min e (vr_end r)"
    define part where "part = vr_piece r c (n - c)"
    have n: "c < n" "n \<le> e" "n \<le> vr_start r + vr_size r" using here Cons.prems(2) by (auto simp: n_def ve)
    have u: "sub64 c (vr_start r) = c - vr_start r" using here R ve by (intro sub64_le) auto
    have eq: "query_span_loop c e (r # rs) =
      (if n = e then Some [part] else map_option (\<lambda>ps. part # ps) (query_span_loop n e rs))"
      using here n by (simp add: Let_def u n_def [symmetric] part_def vr_piece_def)
    have pp: "vr_pts part = {x \<in> vr_pts r. fst x \<in> {c..<n}}"
      using vr_piece_pts [of r c "n - c"] here n by (auto simp: part_def span_iff)
    have sub: "{c..<n} \<subseteq> span (vr_start r) (vr_size r)" using here n by (auto simp: span_iff)
    have rest: "{x \<in> vr_map (r # rs). fst x \<in> {c..<n}} = {x \<in> vr_pts r. fst x \<in> {c..<n}}"
      using n by (auto dest: beyond_pts)
    show ?thesis
    proof (cases "n = e")
      case True
      then show ?thesis using eq pp sub rest n here by (auto simp: part_def)
    next
      case False
      then have nr: "n = vr_start r + vr_size r" "n < e" using n by (auto simp: n_def ve)
      have IH: "case query_span_loop n e rs of
          None \<Rightarrow> \<not> {n..<e} \<subseteq> vr_owned rs
        | Some parts \<Rightarrow> {n..<e} \<subseteq> vr_owned rs \<and> chain vr_start vr_size n parts e \<and>
            cover vr_pts parts = {x \<in> vr_map rs. fst x \<in> {n..<e}}"
        by (rule Cons.IH [OF t nr(2)])
      have split: "{c..<e} = {c..<n} \<union> {n..<e}" using n by auto
      have "{n..<e} \<subseteq> vr_owned (r # rs) \<longleftrightarrow> {n..<e} \<subseteq> vr_owned rs" using nr by (auto simp: span_iff)
      then have A: "{c..<e} \<subseteq> vr_owned (r # rs) \<longleftrightarrow> {n..<e} \<subseteq> vr_owned rs" using split sub by auto
      have "{x \<in> vr_map (r # rs). fst x \<in> {n..<e}} = {x \<in> vr_map rs. fst x \<in> {n..<e}}"
        using nr by (auto dest: vr_ptsD)
      then have B: "{x \<in> vr_map (r # rs). fst x \<in> {c..<e}} = vr_pts part \<union> {x \<in> vr_map rs. fst x \<in> {n..<e}}"
        using rest pp split by blast
      show ?thesis
        using IH eq False A B n here by (auto split: option.splits simp: part_def)
    qed
  qed
qed simp

lemma clamp_loop_correct:
  assumes "vr_tiled rs" and "c \<le> size'" and "c < size' \<longrightarrow> (\<forall>r \<in> set rs. va + c \<le> vr_start r)"
  shows "c \<le> clamp_loop c (va + c) size' rs \<and> clamp_loop c (va + c) size' rs \<le> size' \<and>
    {va + c..<va + clamp_loop c (va + c) size' rs} \<subseteq> kind_owned is_committed_range_type rs \<and>
    (clamp_loop c (va + c) size' rs < size' \<longrightarrow> va + clamp_loop c (va + c) size' rs \<notin> kind_owned is_committed_range_type rs)"
  using assms
proof (induction rs arbitrary: c)
  case (Cons r rs)
  have t: "vr_tiled rs" and later: "\<forall>q \<in> set rs. vr_start r + vr_size r \<le> vr_start q"
    using Cons.prems by auto
  have C: "kind_owned is_committed_range_type (r # rs) =
    (if is_committed_range_type (vr_type r) then span (vr_start r) (vr_size r) else {}) \<union> kind_owned is_committed_range_type rs"
    by (simp add: kind_owned_def)
  show ?case
  proof (cases "vr_start r = va + c \<and> is_committed_range_type (vr_type r) \<and> c < size'")
    case True
    define k where "k = min (size' - c) (vr_size r)"
    define n where "n = clamp_loop (c + k) (va + (c + k)) size' rs"
    have eq: "clamp_loop c (va + c) size' (r # rs) = n"
      using True by (simp add: k_def n_def Let_def add.assoc)
    have k: "c + k \<le> size'" "k \<le> vr_size r" "c + k < size' \<Longrightarrow> k = vr_size r" using True by (auto simp: k_def)
    have st: "c + k < size' \<longrightarrow> (\<forall>q \<in> set rs. va + (c + k) \<le> vr_start q)" using k True later by auto
    have IH: "c + k \<le> n" "n \<le> size'" "{va + (c + k)..<va + n} \<subseteq> kind_owned is_committed_range_type rs"
      "n < size' \<longrightarrow> va + n \<notin> kind_owned is_committed_range_type rs"
      using Cons.IH [OF t k(1) st] by (simp_all add: n_def)
    have "{va + c..<va + n} \<subseteq> span (vr_start r) (vr_size r) \<union> {va + (c + k)..<va + n}"
      using True k by (auto simp: span_iff)
    moreover have "va + n \<notin> span (vr_start r) (vr_size r)" if "n < size'"
      using that IH True k by (auto simp: span_iff)
    ultimately show ?thesis unfolding eq C using True IH by auto
  next
    case False
    then have eq: "clamp_loop c (va + c) size' (r # rs) = c" by (simp only: clamp_loop.simps if_False)
    have "va + c \<notin> kind_owned is_committed_range_type (r # rs)" if c: "c < size'"
    proof -
      have st: "va + c \<le> vr_start r" and sz: "0 < vr_size r" using Cons.prems c by (auto simp: range_ok_def)
      have "va + c < vr_start q" if "q \<in> set rs" for q using later that st sz by fastforce
      then have "va + c \<notin> kind_owned is_committed_range_type rs" by (force simp: kind_owned_iff)
      moreover have "\<not> (is_committed_range_type (vr_type r) \<and> va + c \<in> span (vr_start r) (vr_size r))"
        using False c st by (auto simp: span_iff)
      ultimately show ?thesis by (auto simp: C)
    qed
    then show ?thesis using Cons.prems(2) by (simp only: eq) simp
  qed
qed (simp add: kind_owned_def)

lemma vr_clamp_correct:
  assumes t: "vr_tiled rs" and va: "va \<noteq> 0" and ok: "range_ok va size'"
  shows "vr_clamp_range_size va size' rs \<le> size' \<and>
    span va (vr_clamp_range_size va size' rs) \<subseteq> kind_owned is_committed_range_type rs \<and>
    (vr_clamp_range_size va size' rs < size' \<longrightarrow>
       va + vr_clamp_range_size va size' rs \<notin> kind_owned is_committed_range_type rs)"
proof -
  obtain bs fs where ub: "upper_bound_by vr_start va rs = (bs, fs)" by fastforce
  note U = upper_split [OF t ub]
  have guard: "\<not> (va = 0 \<or> size' = 0 \<or> size' > U64_MAX - va)" using va ok by (auto simp: range_ok_def)
  let ?C = "kind_owned is_committed_range_type rs"
  show ?thesis
  proof (cases "bs = [] \<or> va \<ge> vr_end (last bs) \<or> \<not> is_committed_range_type (vr_type (last bs))")
    case True
    have "vr_clamp_range_size va size' rs = 0"
      using True guard by (auto simp: vr_clamp_range_size_def ub Let_def simp del: not_gr_zero)
    moreover have "va \<notin> ?C"
    proof
      assume "va \<in> ?C"
      then obtain r where r: "r \<in> set rs" "is_committed_range_type (vr_type r)" "vr_start r \<le> va" "va < vr_start r + vr_size r"
        by (auto simp: kind_owned_iff)
      from upper_split_last [OF t ub r(1,3,4)] have "bs \<noteq> []" "last bs = r" by auto
      with True r tiled_end [OF t r(1)] show False by (simp add: sat_end_le)
    qed
    ultimately show ?thesis by simp
  next
    case False
    define r where "r = last bs"
    have r: "r \<in> set rs" "vr_start r \<le> va" "is_committed_range_type (vr_type r)" "bs \<noteq> []"
      using False U by (auto simp: r_def)
    have ve: "vr_end r = vr_start r + vr_size r" using tiled_end [OF t r(1)] by (simp add: sat_end_le)
    have inr: "va < vr_start r + vr_size r" using False ve by (simp add: r_def)
    define c where "c = min size' (vr_start r + vr_size r - va)"
    define n where "n = clamp_loop c (va + c) size' fs"
    have eq: "vr_clamp_range_size va size' rs = n"
      using False guard r(2) by (simp add: vr_clamp_range_size_def ub Let_def n_def c_def r_def [symmetric] ve [symmetric] not_le)
    have bsl: "bs = butlast bs @ [r]" using r(4) by (simp add: r_def)
    have tl: "vr_tiled (butlast bs @ r # fs)" using t U(1) by (subst (asm) U(1)) (subst (asm) bsl, simp)
    have C: "?C = kind_owned is_committed_range_type (butlast bs) \<union> span (vr_start r) (vr_size r) \<union>
        kind_owned is_committed_range_type fs"
    proof -
      have "rs = butlast bs @ r # fs" using U(1) bsl by (metis append.assoc append_Cons append_Nil)
      then have "?C = kind_owned is_committed_range_type (butlast bs @ r # fs)" by simp
      then show ?thesis using r(3) by (simp add: kind_owned_def Un_assoc)
    qed
    have st: "c < size' \<longrightarrow> (\<forall>q \<in> set fs. va + c \<le> vr_start q)" using tl inr by (auto simp: c_def)
    have L: "c \<le> n" "n \<le> size'" "{va + c..<va + n} \<subseteq> kind_owned is_committed_range_type fs"
      "n < size' \<longrightarrow> va + n \<notin> kind_owned is_committed_range_type fs"
      using clamp_loop_correct [of fs c size' va] tl st by (auto simp: n_def c_def)
    have "{va..<va + n} \<subseteq> span (vr_start r) (vr_size r) \<union> {va + c..<va + n}"
      using r(2) by (auto simp: c_def span_iff)
    then have "span va n \<subseteq> ?C" using L(3) by (auto simp: C span_def)
    moreover have "va + n \<notin> ?C" if n: "n < size'"
    proof -
      have "c = vr_start r + vr_size r - va" using n L(1) by (simp add: c_def)
      then have e: "vr_start r + vr_size r \<le> va + n" using L(1) inr by simp
      moreover have "\<forall>b \<in> set (butlast bs). vr_start b + vr_size b \<le> vr_start r" using tl by auto
      ultimately show ?thesis using L(4) n by (force simp: C kind_owned_iff span_iff)
    qed
    ultimately show ?thesis using L(2) by (simp only: eq) simp
  qed
qed

lemma vr_query_correct:
  assumes "vr_tiled rs"
  shows "case vr_query a flags rs of
      None \<Rightarrow> a \<notin> vr_owned rs \<and> (flags = 1 \<longrightarrow> (\<forall>r \<in> set rs. vr_start r < a))
    | Some r \<Rightarrow> r \<in> set rs \<and> (a \<in> span (vr_start r) (vr_size r) \<or>
        flags = 1 \<and> a \<notin> vr_owned rs \<and> a < vr_start r \<and> (\<forall>q \<in> set rs. a < vr_start q \<longrightarrow> vr_start r \<le> vr_start q))"
proof -
  obtain bs fs where ub: "upper_bound_by vr_start a rs = (bs, fs)" by fastforce
  note U = upper_split [OF assms ub] and O = upper_split_owned [OF assms ub]
  have ve: "vr_end (last bs) = vr_start (last bs) + vr_size (last bs)" if "bs \<noteq> []"
    using that U(1) tiled_end [OF assms, of "last bs"] by (simp add: sat_end_le)
  show ?thesis
  proof (cases "bs \<noteq> [] \<and> a < vr_end (last bs)")
    case True
    then have "last bs \<in> set rs" "vr_start (last bs) \<le> a" using U by auto
    with True ve show ?thesis by (auto simp: vr_query_def ub span_iff)
  next
    case False
    then have out: "a \<notin> vr_owned rs" using O ve by auto
    show ?thesis
    proof (cases "flags \<noteq> 1 \<or> fs = []")
      case True
      have "vr_start r < a" if "r \<in> set rs" "fs = []" for r
      proof -
        have "vr_start r \<le> a" using that U by auto
        moreover have "vr_start r \<noteq> a" using out that(1) tiled_size_pos [OF assms that(1)] by (auto simp: owned_iff)
        ultimately show ?thesis by simp
      qed
      then show ?thesis using True False out by (auto simp: vr_query_def ub)
    next
      case nx: False
      then obtain h r where fs: "fs = h # r" by (cases fs) auto
      have "vr_start h \<le> vr_start q" if "q \<in> set rs" "a < vr_start q" for q
      proof -
        have "q \<in> set fs" using that U by auto
        then show ?thesis using fs assms U(1) by auto
      qed
      moreover have "vr_query a flags rs = Some h" using nx False fs by (auto simp: vr_query_def ub)
      moreover have "h \<in> set rs" "a < vr_start h" using U fs by auto
      ultimately show ?thesis using nx out by simp
    qed
  qed
qed

lemma attr_edits:
  "attr_edit (\<lambda>r. r\<lparr>vr_name := n\<rparr>) (\<lambda>(p, m, t, d, _). (p, m, t, d, n))"
  "attr_edit (\<lambda>r. r\<lparr>vr_prot := prot\<rparr>) (\<lambda>(_, m, t, d, nm). (prot, m, t, d, nm))"
  "attr_edit (\<lambda>r. r\<lparr>vr_memory_type := mt\<rparr>) (\<lambda>(p, _, t, d, nm). (p, mt, t, d, nm))"
  by (simp_all add: attr_edit_def vr_tag_def)

lemma vr_rename_points:
  assumes inv: "vr_inv rs" and st: "start \<le> U64_MAX"
    and f_def: "f = (\<lambda>(p, m, t, d, _). (p, m, t, d, copy_virtual_range_name name))"
  shows "vr_inv (vr_rename start size' name rs)"
    and "vr_map (vr_rename start size' name rs) = retag (reach start size') f ` vr_map rs"
proof -
  have t: "vr_tiled rs" and m: "vr_merged rs" using inv by (simp_all add: vr_inv_def)
  obtain bs fs where lb: "vr_lower_bound start rs = (bs, fs)" by fastforce
  note L = lower_split [OF t lower_bound_tiled [OF lb]]
  have ed: "attr_edit (\<lambda>r. r\<lparr>vr_name := copy_virtual_range_name name\<rparr>) f"
    unfolding f_def by (rule attr_edits(1))
  have "vr_inv (vr_rename start size' name rs) \<and>
    vr_map (vr_rename start size' name rs) = retag (reach start size') f ` vr_map rs"
  proof (cases "fs \<noteq> [] \<and> vr_start (hd fs) = start \<and> vr_size (hd fs) = size'")
    case True
    then obtain r fs' where fs: "fs = r # fs'" and r: "vr_start r = start" "vr_size r = size'" by (cases fs) auto
    define r' where "r' = r\<lparr>vr_name := copy_virtual_range_name name\<rparr>"
    have t': "vr_tiled (bs @ r # fs')" and m': "vr_merged (bs @ r # fs')" using t m L(1) fs by auto
    have eq: "vr_rename start size' name rs = merge_around (length bs) (bs @ r' # fs')"
      using True lb fs by (simp add: vr_rename_def r'_def)
    have R: "reach start size' = span (vr_start r) (vr_size r)"
      using t' r by (auto intro!: reach_span simp: range_ok_def)
    have tr': "vr_tiled (bs @ r' # fs')" using t' by (simp add: r'_def)
    have mp: "vr_merged bs" "vr_merged fs'" using m' by (auto simp: vr_merged_append dest: vr_merged_tl)
    have keep: "retag (span (vr_start r) (vr_size r)) f ` vr_map ms = vr_map ms"
      if "vr_owned ms \<inter> span (vr_start r) (vr_size r) = {}" for ms
    proof -
      have "retag (span (vr_start r) (vr_size r)) f x = x" if "x \<in> vr_map ms" for x
        using that \<open>vr_owned ms \<inter> _ = {}\<close> fst_vr_map [of ms] by (force simp: retag_def)
      then show ?thesis by (simp cong: image_cong)
    qed
    have off: "vr_owned bs \<inter> span (vr_start r) (vr_size r) = {}" "vr_owned fs' \<inter> span (vr_start r) (vr_size r) = {}"
      using t' by (force simp: owned_iff span_iff)+
    have "vr_point r' a = retag (span (vr_start r) (vr_size r)) f (vr_point r a)"
      if "a \<in> span (vr_start r) (vr_size r)" for a
      using that by (simp add: retag_def vr_point_def r'_def f_def vr_tag_def)
    then have "vr_pts r' = retag (span (vr_start r) (vr_size r)) f ` vr_pts r"
      by (simp add: vr_pts_def image_image r'_def cong: image_cong)
    then have "vr_map (bs @ r' # fs') = retag (span (vr_start r) (vr_size r)) f ` vr_map (bs @ r # fs')"
      using keep [OF off(1)] keep [OF off(2)] by (simp add: image_Un)
    moreover have "vr_map rs = vr_map (bs @ r # fs')" by (simp only: L(1) fs)
    ultimately show ?thesis
      unfolding eq R using merge_around_correct [OF tr' mp] by simp
  next
    case False
    then have "vr_rename start size' name rs =
      edit_unlocked start size' (\<lambda>r. r\<lparr>vr_name := copy_virtual_range_name name\<rparr>) rs"
      using lb by (auto simp: vr_rename_def)
    with edit_unlocked_points [OF inv st ed] show ?thesis by simp
  qed
  then show "vr_inv (vr_rename start size' name rs)"
    and "vr_map (vr_rename start size' name rs) = retag (reach start size') f ` vr_map rs" by auto
qed

lemma vr_release_reserved_points:
  assumes inv: "vr_inv rs"
  shows "vr_inv (vr_release_reserved start size' rs)"
    and "vr_map (vr_release_reserved start size' rs) =
      (if \<exists>r \<in> set rs. vr_start r = start \<and> vr_size r = size' \<and> is_reserved_range_type (vr_type r)
       then {x \<in> vr_map rs. fst x \<notin> span start size'} else vr_map rs)"
proof -
  let ?hit = "\<lambda>r. vr_start r = start \<and> vr_size r = size' \<and> is_reserved_range_type (vr_type r)"
  have t: "vr_tiled rs" and m: "vr_merged rs" using inv by (simp_all add: vr_inv_def)
  have miss: "\<not> (\<exists>r \<in> set ms. ?hit r) \<Longrightarrow> vr_release_reserved start size' ms = ms" for ms
    by (induction ms) auto
  have first: "\<not> (\<exists>r \<in> set bs. ?hit r) \<Longrightarrow> ?hit r \<Longrightarrow> vr_release_reserved start size' (bs @ r # fs) = bs @ fs" for bs r fs
    by (induction bs) auto
  have "vr_inv (vr_release_reserved start size' rs) \<and> vr_map (vr_release_reserved start size' rs) =
      (if \<exists>r \<in> set rs. ?hit r then {x \<in> vr_map rs. fst x \<notin> span start size'} else vr_map rs)"
  proof (cases "\<exists>r \<in> set rs. ?hit r")
    case False
    then show ?thesis using inv by (simp only: miss [OF False] if_False)
  next
    case True
    then obtain bs r fs where rs: "rs = bs @ r # fs" and r: "?hit r" and b: "\<not> (\<exists>r \<in> set bs. ?hit r)"
      using split_list_first_prop [of rs ?hit] by blast
    have t': "vr_tiled (bs @ r # fs)" and m': "vr_merged (bs @ r # fs)" using t m rs by auto
    have off: "fst x \<notin> span start size'" if "x \<in> vr_map bs \<or> x \<in> vr_map fs" for x
    proof -
      have "fst x \<in> vr_owned bs \<or> fst x \<in> vr_owned fs" using that fst_vr_map by blast
      then show ?thesis using t' r by (force simp: owned_iff span_iff)
    qed
    have on: "fst x \<in> span start size'" if "x \<in> vr_pts r" for x using that fst_vr_pts r by blast
    have "vr_map (bs @ fs) = {x \<in> vr_map (bs @ r # fs). fst x \<notin> span start size'}"
      unfolding vr_map_simps using off on by blast
    moreover have "vr_inv (bs @ fs)" using vr_merged_remove [OF t' m'] t' by (simp add: vr_inv_def)
    ultimately show ?thesis using True first [OF b r, of fs] rs by simp
  qed
  then show "vr_inv (vr_release_reserved start size' rs)"
    and "vr_map (vr_release_reserved start size' rs) =
      (if \<exists>r \<in> set rs. ?hit r then {x \<in> vr_map rs. fst x \<notin> span start size'} else vr_map rs)" by auto
qed

lemma vr_consume_points:
  assumes inv: "vr_inv rs" and st: "start \<le> U64_MAX"
  shows "vr_inv (merge_unlocked (snd (remove_unlocked start size' rs)))"
    and "vr_map (merge_unlocked (snd (remove_unlocked start size' rs))) = {x \<in> vr_map rs. fst x \<notin> reach start size'}"
  using remove_unlocked_points [OF _ st] merge_unlocked_correct inv by (auto simp: vr_inv_def)

subsection \<open>Histories\<close>

datatype vr_op =
    VAdd u64 u64 u64 int int vrange_type "string option" bool
  | VRemove u64 u64
  | VReleaseReserved u64 u64
  | VConsumeReserved u64 u64 vrange_type
  | VConsumeReservedSpan u64 u64 vrange_type
  | VRename u64 u64 "string option"
  | VProtect u64 u64 int
  | VSetMemoryType u64 u64 int

fun vr_op_ok :: "vr_op \<Rightarrow> bool" where
  "vr_op_ok (VAdd start size' off prot mt ty name dm) \<longleftrightarrow> start \<le> U64_MAX \<and> start + size' \<le> U64_MAX"
| "vr_op_ok (VRemove start size') \<longleftrightarrow> start \<le> U64_MAX"
| "vr_op_ok (VReleaseReserved start size') \<longleftrightarrow> True"
| "vr_op_ok (VConsumeReserved start size' ty) \<longleftrightarrow> start \<le> U64_MAX"
| "vr_op_ok (VConsumeReservedSpan start size' ty) \<longleftrightarrow> start \<le> U64_MAX"
| "vr_op_ok (VRename start size' name) \<longleftrightarrow> start \<le> U64_MAX"
| "vr_op_ok (VProtect start size' prot) \<longleftrightarrow> start \<le> U64_MAX"
| "vr_op_ok (VSetMemoryType start size' mt) \<longleftrightarrow> start \<le> U64_MAX"

fun vr_step :: "vr_op \<Rightarrow> vranges \<Rightarrow> vranges" where
  "vr_step (VAdd start size' off prot mt ty name dm) rs =
     (case vr_add start size' off prot mt ty name dm rs of None \<Rightarrow> rs | Some rs' \<Rightarrow> rs')"
| "vr_step (VRemove start size') rs = snd (vr_remove start size' rs)"
| "vr_step (VReleaseReserved start size') rs = vr_release_reserved start size' rs"
| "vr_step (VConsumeReserved start size' ty) rs =
     (case vr_consume_reserved start size' ty rs of None \<Rightarrow> rs | Some rs' \<Rightarrow> rs')"
| "vr_step (VConsumeReservedSpan start size' ty) rs =
     (case vr_consume_reserved_span start size' ty rs of None \<Rightarrow> rs | Some (f, rs') \<Rightarrow> rs')"
| "vr_step (VRename start size' name) rs = vr_rename start size' name rs"
| "vr_step (VProtect start size' prot) rs = vr_protect start size' prot rs"
| "vr_step (VSetMemoryType start size' mt) rs = vr_set_memory_type start size' mt rs"

text \<open>What each operation means for the map of addresses.\<close>

fun vr_meaning :: "vr_op \<Rightarrow> vranges \<Rightarrow> (nat \<times> u64 option \<times> vr_attr) set" where
  "vr_meaning (VAdd start size' off prot mt ty name dm) rs =
     (if start \<noteq> 0 \<and> size' \<noteq> 0 \<and> span start size' \<inter> vr_owned rs = {}
      then vr_map rs \<union> vr_pts (new_range start size' off prot mt ty name dm) else vr_map rs)"
| "vr_meaning (VRemove start size') rs = {x \<in> vr_map rs. fst x \<notin> reach start size'}"
| "vr_meaning (VReleaseReserved start size') rs =
     (if \<exists>r \<in> set rs. vr_start r = start \<and> vr_size r = size' \<and> is_reserved_range_type (vr_type r)
      then {x \<in> vr_map rs. fst x \<notin> span start size'} else vr_map rs)"
| "vr_meaning (VConsumeReserved start size' ty) rs =
     (if \<exists>r \<in> set rs. vr_type r = ty \<and> vr_start r \<le> start \<and> sat_end start size' \<le> vr_start r + vr_size r
      then {x \<in> vr_map rs. fst x \<notin> reach start size'} else vr_map rs)"
| "vr_meaning (VConsumeReservedSpan start size' ty) rs =
     (if size' \<noteq> 0 \<and> reach start size' \<subseteq> kind_owned (\<lambda>t. t = ty) rs
      then {x \<in> vr_map rs. fst x \<notin> reach start size'} else vr_map rs)"
| "vr_meaning (VRename start size' name) rs =
     retag (reach start size') (\<lambda>(p, m, t, d, _). (p, m, t, d, copy_virtual_range_name name)) ` vr_map rs"
| "vr_meaning (VProtect start size' prot) rs =
     retag (reach start size') (\<lambda>(_, m, t, d, nm). (prot, m, t, d, nm)) ` vr_map rs"
| "vr_meaning (VSetMemoryType start size' mt) rs =
     retag (reach start size') (\<lambda>(p, _, t, d, nm). (p, mt, t, d, nm)) ` vr_map rs"

lemma vr_step_meaning:
  assumes inv: "vr_inv rs" and ok: "vr_op_ok op"
  shows "vr_inv (vr_step op rs) \<and> vr_map (vr_step op rs) = vr_meaning op rs"
proof (cases op)
  case (VAdd start size' off prot mt ty name dm)
  show ?thesis
  proof (cases "start = 0 \<or> size' = 0")
    case True
    then show ?thesis using inv VAdd by (auto simp: vr_add_def)
  next
    case False
    then have "range_ok start size'" using ok VAdd by (simp add: range_ok_def)
    with vr_add_points [OF inv this, of off prot mt ty name dm] False inv VAdd show ?thesis
      by (auto split: option.splits)
  qed
next
  case (VConsumeReserved start size' ty)
  have t: "vr_tiled rs" using inv by (simp add: vr_inv_def)
  have "list_ex (\<lambda>r. vr_type r = ty \<and> start \<ge> vr_start r \<and> sat_end start size' \<le> vr_end r) rs \<longleftrightarrow>
    (\<exists>r \<in> set rs. vr_type r = ty \<and> vr_start r \<le> start \<and> sat_end start size' \<le> vr_start r + vr_size r)"
    using tiled_end [OF t] by (auto simp: list_ex_iff sat_end_le)
  then show ?thesis
    using VConsumeReserved inv ok vr_consume_points [OF inv, of start size'] by (auto simp: vr_consume_reserved_def)
next
  case (VConsumeReservedSpan start size' ty)
  have t: "vr_tiled rs" using inv by (simp add: vr_inv_def)
  show ?thesis
    using VConsumeReservedSpan inv ok vr_consume_points [OF inv, of start size'] reserved_walk_correct [OF t, of start "sat_end start size'" ty]
    by (simp add: vr_consume_reserved_span_def reach_def)
next
  case (VProtect start size' prot)
  then show ?thesis using edit_unlocked_points [OF inv _ attr_edits(2)] ok by (simp add: vr_protect_def)
next
  case (VSetMemoryType start size' mt)
  then show ?thesis using edit_unlocked_points [OF inv _ attr_edits(3)] ok by (simp add: vr_set_memory_type_def)
next
  case (VRename start size' name)
  then show ?thesis using vr_rename_points [OF inv _ refl, of start size' name] ok by simp
next
  case (VReleaseReserved start size')
  then show ?thesis using vr_release_reserved_points [OF inv, of start size'] by simp
next
  case (VRemove start size')
  then show ?thesis using vr_remove_points [OF inv] ok by simp
qed

fun vr_run :: "vr_op list \<Rightarrow> vranges \<Rightarrow> vranges" where
  "vr_run [] rs = rs"
| "vr_run (op # ops) rs = vr_run ops (vr_step op rs)"

lemma vr_run_inv: "vr_inv rs \<Longrightarrow> list_all vr_op_ok ops \<Longrightarrow> vr_inv (vr_run ops rs)"
  by (induction ops arbitrary: rs) (use vr_step_meaning in auto)

lemma vr_inv_Nil: "vr_inv []"
  by (simp add: vr_inv_def)

subsection \<open>Properties\<close>

text \<open>C7: after any history of calls on the empty address space, the ranges are non-empty, in order, do not
  overlap, and no two neighbours could still be merged; and every operation then means its pointwise change:
  \<open>Add\<close> adds the addresses of the new range exactly when none of them is taken, the removals take out exactly
  the addresses they reach (when their condition on reserved ranges holds), and the edits change one attribute
  of exactly the addresses they reach. In particular direct mappings keep the physical address behind every
  address, however they are cut.\<close>

theorem vr_history_refines:
  assumes "list_all vr_op_ok ops" and "vr_op_ok op"
  shows "vr_tiled (vr_run ops []) \<and> vr_merged (vr_run ops []) \<and>
    vr_map (vr_step op (vr_run ops [])) = vr_meaning op (vr_run ops [])"
  using vr_step_meaning [OF vr_run_inv [OF vr_inv_Nil assms(1)] assms(2)] vr_run_inv [OF vr_inv_Nil assms(1)]
  by (simp add: vr_inv_def)

theorem vr_history_refines_witness:
  "vr_tiled (vr_run [VAdd 65536 65536 0 3 0 Direct None False] []) \<and>
   vr_merged (vr_run [VAdd 65536 65536 0 3 0 Direct None False] []) \<and>
   vr_map (vr_step (VProtect 81920 16384 1) (vr_run [VAdd 65536 65536 0 3 0 Direct None False] [])) =
     vr_meaning (VProtect 81920 16384 1) (vr_run [VAdd 65536 65536 0 3 0 Direct None False] [])"
  by (rule vr_history_refines) (simp_all add: U64_MAX_def)

text \<open>C31: \<open>Add\<close> returns success exactly when the range is not empty, does not start at 0 and meets no
  registered range, although it looks only at the two neighbours of the insertion point.\<close>

theorem vr_add_succeeds_iff_free:
  assumes "list_all vr_op_ok ops" and "start + size' \<le> U64_MAX"
  shows "vr_add start size' off prot mt ty name dm (vr_run ops []) \<noteq> None \<longleftrightarrow>
    start \<noteq> 0 \<and> size' \<noteq> 0 \<and> span start size' \<inter> vr_owned (vr_run ops []) = {}"
proof (cases "start = 0 \<or> size' = 0")
  case True
  then show ?thesis by (auto simp: vr_add_def)
next
  case False
  then have "range_ok start size'" using assms(2) by (simp add: range_ok_def)
  with vr_add_points [OF vr_run_inv [OF vr_inv_Nil assms(1)] this, of off prot mt ty name dm] False
  show ?thesis by (auto split: option.splits)
qed

theorem vr_add_succeeds_iff_free_witness:
  "vr_add 131072 4096 0 3 0 Stack None False (vr_run [VAdd 65536 65536 0 3 0 Direct None False] []) \<noteq> None \<longleftrightarrow>
    131072 \<noteq> (0::nat) \<and> 4096 \<noteq> (0::nat) \<and> span 131072 4096 \<inter> vr_owned (vr_run [VAdd 65536 65536 0 3 0 Direct None False] []) = {}"
  by (rule vr_add_succeeds_iff_free) (simp_all add: U64_MAX_def)

text \<open>\<open>QuerySpan\<close> succeeds exactly on a span that is mapped without holes; its parts follow each other from
  the first to the last address and carry exactly the attributes and physical addresses of the map.\<close>

theorem vr_query_span_exact:
  assumes "list_all vr_op_ok ops" and "start \<le> U64_MAX"
  shows "case vr_query_span start size' (vr_run ops []) of
      None \<Rightarrow> start = 0 \<or> \<not> range_ok start size' \<or> \<not> span start size' \<subseteq> vr_owned (vr_run ops [])
    | Some parts \<Rightarrow> start \<noteq> 0 \<and> range_ok start size' \<and> span start size' \<subseteq> vr_owned (vr_run ops []) \<and>
        chain vr_start vr_size start parts (start + size') \<and>
        cover vr_pts parts = {x \<in> vr_map (vr_run ops []). fst x \<in> span start size'}"
proof (cases "start = 0 \<or> size' = 0 \<or> size' > U64_MAX - start")
  case True
  then show ?thesis by (auto simp: vr_query_span_def range_ok_def)
next
  case False
  then have r: "start \<noteq> 0" "range_ok start size'" using assms(2) by (auto simp: range_ok_def)
  have t: "vr_tiled (vr_run ops [])" using vr_run_inv [OF vr_inv_Nil assms(1)] by (simp add: vr_inv_def)
  have "start < start + size'" using False by simp
  have eq: "vr_query_span start size' (vr_run ops []) = query_span_loop start (start + size') (vr_run ops [])"
    by (simp only: vr_query_span_def False if_False)
  show ?thesis
    unfolding eq using query_span_loop_correct [OF t \<open>start < start + size'\<close>] r
    by (cases "query_span_loop start (start + size') (vr_run ops [])") (simp_all only: option.case span_def, auto)
qed

theorem vr_query_span_exact_witness:
  "case vr_query_span 65536 16384 (vr_run [VAdd 65536 65536 0 3 0 Direct None False] []) of
      None \<Rightarrow> 65536 = (0::nat) \<or> \<not> range_ok 65536 16384 \<or>
        \<not> span 65536 16384 \<subseteq> vr_owned (vr_run [VAdd 65536 65536 0 3 0 Direct None False] [])
    | Some parts \<Rightarrow> 65536 \<noteq> (0::nat) \<and> range_ok 65536 16384 \<and>
        span 65536 16384 \<subseteq> vr_owned (vr_run [VAdd 65536 65536 0 3 0 Direct None False] []) \<and>
        chain vr_start vr_size 65536 parts (65536 + 16384) \<and>
        cover vr_pts parts = {x \<in> vr_map (vr_run [VAdd 65536 65536 0 3 0 Direct None False] []). fst x \<in> span 65536 16384}"
  by (rule vr_query_span_exact) (simp_all add: U64_MAX_def)

text \<open>\<open>ClampRangeSize\<close> returns the length of the longest prefix of the requested range that is committed
  memory: every address before the clamped end is committed, and the address at it is not, unless the whole
  request is.\<close>

theorem vr_clamp_range_size_maximal:
  assumes "list_all vr_op_ok ops" and "va \<noteq> 0" and "range_ok va size'"
  shows "vr_clamp_range_size va size' (vr_run ops []) \<le> size' \<and>
    span va (vr_clamp_range_size va size' (vr_run ops [])) \<subseteq> kind_owned is_committed_range_type (vr_run ops []) \<and>
    (vr_clamp_range_size va size' (vr_run ops []) = size' \<or>
       va + vr_clamp_range_size va size' (vr_run ops []) \<notin> kind_owned is_committed_range_type (vr_run ops []))"
proof -
  have t: "vr_tiled (vr_run ops [])" using vr_run_inv [OF vr_inv_Nil assms(1)] by (simp add: vr_inv_def)
  show ?thesis using vr_clamp_correct [OF t assms(2,3)] by auto
qed

theorem vr_clamp_range_size_maximal_witness:
  "vr_clamp_range_size 65536 100000 (vr_run [VAdd 65536 65536 0 3 0 Direct None False] []) \<le> 100000 \<and>
    span 65536 (vr_clamp_range_size 65536 100000 (vr_run [VAdd 65536 65536 0 3 0 Direct None False] []))
      \<subseteq> kind_owned is_committed_range_type (vr_run [VAdd 65536 65536 0 3 0 Direct None False] []) \<and>
    \<not> (vr_clamp_range_size 65536 100000 (vr_run [VAdd 65536 65536 0 3 0 Direct None False] []) \<noteq> 100000 \<and>
       65536 + vr_clamp_range_size 65536 100000 (vr_run [VAdd 65536 65536 0 3 0 Direct None False] [])
         \<in> kind_owned is_committed_range_type (vr_run [VAdd 65536 65536 0 3 0 Direct None False] []))"
  using vr_clamp_range_size_maximal [of "[VAdd 65536 65536 0 3 0 Direct None False]" 65536 100000]
  by (simp add: U64_MAX_def range_ok_def)

text \<open>\<open>Query\<close> returns the range that holds the address; without one it fails, or, when asked for the next
  range, returns the first one that starts beyond the address.\<close>

theorem vr_query_exact:
  assumes "list_all vr_op_ok ops"
  shows "case vr_query a flags (vr_run ops []) of
      None \<Rightarrow> a \<notin> vr_owned (vr_run ops []) \<and> (flags = 1 \<longrightarrow> (\<forall>r \<in> set (vr_run ops []). vr_start r < a))
    | Some r \<Rightarrow> r \<in> set (vr_run ops []) \<and> (a \<in> span (vr_start r) (vr_size r) \<or>
        flags = 1 \<and> a \<notin> vr_owned (vr_run ops []) \<and> a < vr_start r \<and>
        (\<forall>q \<in> set (vr_run ops []). a < vr_start q \<longrightarrow> vr_start r \<le> vr_start q))"
  using vr_query_correct vr_run_inv [OF vr_inv_Nil assms] by (simp add: vr_inv_def)

theorem vr_query_exact_witness:
  "case vr_query 4096 1 (vr_run [VAdd 65536 65536 0 3 0 Direct None False] []) of
      None \<Rightarrow> 4096 \<notin> vr_owned (vr_run [VAdd 65536 65536 0 3 0 Direct None False] []) \<and>
        (1 = (1::int) \<longrightarrow> (\<forall>r \<in> set (vr_run [VAdd 65536 65536 0 3 0 Direct None False] []). vr_start r < 4096))
    | Some r \<Rightarrow> r \<in> set (vr_run [VAdd 65536 65536 0 3 0 Direct None False] []) \<and>
        (4096 \<in> span (vr_start r) (vr_size r) \<or>
         1 = (1::int) \<and> 4096 \<notin> vr_owned (vr_run [VAdd 65536 65536 0 3 0 Direct None False] []) \<and> 4096 < vr_start r \<and>
         (\<forall>q \<in> set (vr_run [VAdd 65536 65536 0 3 0 Direct None False] []). 4096 < vr_start q \<longrightarrow> vr_start r \<le> vr_start q))"
  by (rule vr_query_exact) (simp add: U64_MAX_def)

end
