(* ===== verification/Guest_Backing.thy ===== *)
theory Guest_Backing
  imports Tiling
begin

text \<open>
  \<open>GuestBackingStore\<close> of \<open>src/src/kernel/memoryAddressSpace.inc\<close> on a POSIX host: one shared file holds
  the guest's direct memory, and views of it are mapped at fixed guest addresses. The store keeps the
  views in \<open>m_maps\<close>. Whether the n-th call of the host's \<open>mmap\<close> succeeds is the parameter \<open>os n\<close>, so a
  theorem holds for every pattern of failures. The outer \<open>option\<close> is the process that may stop
  (\<open>EXIT_IF\<close>).
\<close>

datatype failure_reason = FrNone | BackingUnavailable | PhysicalRangeOutOfBounds | FixedMapViewFailed
  | PlaceholderMapFailed | ProtectFailed | WrongHostAddress | AddressRangeUnavailable

record mentry =
  me_vaddr :: u64
  me_size :: u64
  me_offset :: u64
  me_mode :: vm_mode

record backing =
  gb_available :: bool
  gb_size :: u64
  gb_maps :: "mentry omap"
  gb_bytes :: "u64 \<Rightarrow> 8 word"
  gb_calls :: nat

definition os_call :: "(nat \<Rightarrow> bool) \<Rightarrow> backing \<Rightarrow> bool \<times> backing" where
  "os_call os s = (os (gb_calls s), s\<lparr>gb_calls := Suc (gb_calls s)\<rparr>)"

definition backing_range_ok :: "u64 \<Rightarrow> u64 \<Rightarrow> backing \<Rightarrow> bool" where
  "backing_range_ok offset size' s \<longleftrightarrow> size' \<noteq> 0 \<and> offset < gb_size s \<and> size' \<le> gb_size s - offset"

definition me_end :: "mentry \<Rightarrow> u64" where
  "me_end e = add64 (me_vaddr e) (me_size e)"

subsection \<open>Lookup\<close>

definition find_containing :: "u64 \<Rightarrow> u64 \<Rightarrow> mentry omap \<Rightarrow> mentry option" where
  "find_containing vaddr size' maps =
     (if size' = 0 \<or> U64_MAX - vaddr < size' then None
      else let it = upper_bound vaddr maps
           in if fst it = [] then None
              else let entry = snd (last (fst it))
                   in if vaddr + size' \<le> me_end entry then Some entry else None)"

lemma find_containing_progress: "find_containing c 1 maps = Some e \<Longrightarrow> c < me_end e"
  by (auto simp: find_containing_def Let_def split: if_splits)

function contains_walk :: "u64 \<Rightarrow> u64 \<Rightarrow> mentry omap \<Rightarrow> bool" where
  "contains_walk current end maps =
     (if current < end then
        (case find_containing current 1 maps of
           None \<Rightarrow> False
         | Some entry \<Rightarrow> if me_end entry \<le> current then False else contains_walk (min end (me_end entry)) end maps)
      else True)"
  by auto
termination
  by (relation "measure (\<lambda>(current, end, maps). end - current)") auto

definition gb_contains :: "u64 \<Rightarrow> u64 \<Rightarrow> backing \<Rightarrow> bool" where
  "gb_contains vaddr size' s \<longleftrightarrow>
     (if size' = 0 \<or> U64_MAX - vaddr < size' then False else contains_walk vaddr (vaddr + size') (gb_maps s))"

text \<open>
  The walk that \<open>Unmap\<close>, \<open>TryReadBacking\<close> and \<open>TryWriteBacking\<close> make over a range: its parts, each
  inside one view, as entries.
\<close>

function parts_walk :: "u64 \<Rightarrow> u64 \<Rightarrow> mentry omap \<Rightarrow> mentry list option" where
  "parts_walk current end maps =
     (if current < end then
        (case find_containing current 1 maps of
           None \<Rightarrow> None
         | Some entry \<Rightarrow>
             let part_size = min end (me_end entry) - current;
                 part = \<lparr>me_vaddr = current, me_size = part_size,
                         me_offset = sub64 (add64 (me_offset entry) current) (me_vaddr entry), me_mode = me_mode entry\<rparr>
             in do { parts \<leftarrow> parts_walk (current + part_size) end maps; Some (part # parts) })
      else Some [])"
  by auto
termination
  by (relation "measure (\<lambda>(current, end, maps). end - current)")
    (auto dest!: find_containing_progress [unfolded One_nat_def])

declare contains_walk.simps [simp del]
declare parts_walk.simps [simp del]

subsection \<open>Reading and writing\<close>

definition transfer_parts :: "u64 \<Rightarrow> u64 \<Rightarrow> backing \<Rightarrow> mentry list option" where
  "transfer_parts vaddr size' s =
     (if \<not> gb_available s \<or> size' = 0 \<or> U64_MAX - vaddr < size' then None
      else do {
        parts \<leftarrow> parts_walk vaddr (vaddr + size') (gb_maps s);
        if list_all (\<lambda>p. backing_range_ok (me_offset p) (me_size p) s) parts then Some parts else None })"

definition read_part :: "backing \<Rightarrow> mentry \<Rightarrow> (8 word) list" where
  "read_part s p = map (gb_bytes s) [me_offset p..<me_offset p + me_size p]"

definition gb_try_read :: "u64 \<Rightarrow> u64 \<Rightarrow> backing \<Rightarrow> (8 word) list option" where
  "gb_try_read vaddr size' s = do { parts \<leftarrow> transfer_parts vaddr size' s; Some (concat (map (read_part s) parts)) }"

definition write_part :: "u64 \<Rightarrow> (8 word) list \<Rightarrow> mentry \<Rightarrow> (u64 \<Rightarrow> 8 word) \<Rightarrow> (u64 \<Rightarrow> 8 word)" where
  "write_part vaddr data p m =
     (\<lambda>o'. if o' \<in> span (me_offset p) (me_size p) then data ! (me_vaddr p - vaddr + (o' - me_offset p)) else m o')"

definition gb_try_write :: "u64 \<Rightarrow> (8 word) list \<Rightarrow> u64 \<Rightarrow> backing \<Rightarrow> backing option" where
  "gb_try_write vaddr data size' s = do {
     parts \<leftarrow> transfer_parts vaddr size' s;
     Some (s\<lparr>gb_bytes := fold (write_part vaddr data) parts (gb_bytes s)\<rparr>) }"

text \<open>\<open>TryReadSparseBacking\<close>: unmapped bytes read as zero. The iterator starts at the view that reaches
  beyond \<open>vaddr\<close>, if there is one.\<close>

definition sparse_from :: "u64 \<Rightarrow> mentry omap \<Rightarrow> mentry omap" where
  "sparse_from vaddr maps =
     (let it = lower_bound vaddr maps
      in if fst it \<noteq> [] \<and> me_end (snd (last (fst it))) > vaddr then last (fst it) # snd it else snd it)"

definition sparse_parts :: "u64 \<Rightarrow> u64 \<Rightarrow> mentry omap \<Rightarrow> mentry list" where
  "sparse_parts vaddr end maps =
     map (\<lambda>p. let entry = snd p; start = max vaddr (me_vaddr entry)
       in \<lparr>me_vaddr = start, me_size = sub64 (min end (me_end entry)) start,
           me_offset = sub64 (add64 (me_offset entry) start) (me_vaddr entry), me_mode = me_mode entry\<rparr>)
       (takeWhile (\<lambda>p. me_vaddr (snd p) < end) (sparse_from vaddr maps))"

definition sparse_copy :: "backing \<Rightarrow> u64 \<Rightarrow> mentry \<Rightarrow> (8 word) list \<Rightarrow> (8 word) list" where
  "sparse_copy s vaddr p data =
     take (me_vaddr p - vaddr) data @ read_part s p @ drop (me_vaddr p - vaddr + me_size p) data"

definition gb_try_read_sparse :: "u64 \<Rightarrow> u64 \<Rightarrow> backing \<Rightarrow> (8 word) list option" where
  "gb_try_read_sparse vaddr size' s =
     (if \<not> gb_available s \<or> size' = 0 \<or> U64_MAX - vaddr < size' then None
      else
        let parts = sparse_parts vaddr (vaddr + size') (gb_maps s)
        in if list_all (\<lambda>p. backing_range_ok (me_offset p) (me_size p) s) parts
           then Some (fold (sparse_copy s vaddr) parts (replicate size' 0)) else None)"

definition gb_zero_range :: "u64 \<Rightarrow> u64 \<Rightarrow> backing \<Rightarrow> backing option" where
  "gb_zero_range offset size' s =
     (if \<not> gb_available s \<or> \<not> backing_range_ok offset size' s then None
      else Some (s\<lparr>gb_bytes := (\<lambda>o'. if o' \<in> span offset size' then 0 else gb_bytes s o')\<rparr>))"

subsection \<open>Mapping and unmapping\<close>

text \<open>\<open>MapExistingPlaceholderFixed\<close>; the result \<open>FrNone\<close> is success.\<close>

definition gb_map_fixed :: "(nat \<Rightarrow> bool) \<Rightarrow> u64 \<Rightarrow> u64 \<Rightarrow> u64 \<Rightarrow> vm_mode \<Rightarrow> backing \<Rightarrow> (failure_reason \<times> backing) option" where
  "gb_map_fixed os vaddr size' offset mode s =
     (if \<not> gb_available s then Some (BackingUnavailable, s)
      else if \<not> backing_range_ok offset size' s then Some (PhysicalRangeOutOfBounds, s)
      else
        let (mapped, s) = os_call os s
        in if \<not> mapped then Some (FixedMapViewFailed, s)
           else if vaddr \<in> fst ` set (gb_maps s) then None
           else Some (FrNone, s\<lparr>gb_maps := emplace vaddr
             \<lparr>me_vaddr = vaddr, me_size = size', me_offset = offset, me_mode = mode\<rparr> (gb_maps s)\<rparr>))"

text \<open>
  \<open>UnmapOne\<close>. Its error path unmaps the remainders it has just mapped, so the function calls itself;
  \<open>fuel\<close> bounds the depth, and 2 is enough because a remainder is unmapped exactly.
\<close>

definition take_entry :: "u64 \<Rightarrow> u64 \<Rightarrow> mentry omap \<Rightarrow> (mentry \<times> mentry omap) option" where
  "take_entry vaddr size' maps =
     (let it = upper_bound vaddr maps
      in if fst it = [] then None
         else let (k, entry) = last (fst it)
              in if add64 vaddr size' \<le> me_end entry then Some (entry, erase_key k maps) else None)"

fun unmap_one :: "nat \<Rightarrow> (nat \<Rightarrow> bool) \<Rightarrow> u64 \<Rightarrow> u64 \<Rightarrow> backing \<Rightarrow> (bool \<times> backing) option" where
  "unmap_one 0 os vaddr size' s = None"
| "unmap_one (Suc fuel) os vaddr size' s =
     (case take_entry vaddr size' (gb_maps s) of
        None \<Rightarrow> Some (False, s)
      | Some (old, rest) \<Rightarrow>
          if me_size old = 0 then Some (False, s\<lparr>gb_maps := rest\<rparr>)
          else
            let s = s\<lparr>gb_maps := rest\<rparr>; (unmapped, s) = os_call os s
            in if \<not> unmapped then Some (False, s\<lparr>gb_maps := emplace (me_vaddr old) old (gb_maps s)\<rparr>)
               else if vaddr = me_vaddr old \<and> size' = me_size old then Some (True, s)
               else
                 let left_size = sub64 vaddr (me_vaddr old); right_addr = add64 vaddr size';
                     right_size = sub64 (me_end old) right_addr
                 in do {
                   (l, s) \<leftarrow> (if left_size \<noteq> 0 then gb_map_fixed os (me_vaddr old) left_size (me_offset old) (me_mode old) s
                              else Some (FrNone, s));
                   (r, s) \<leftarrow> (if right_size \<noteq> 0
                              then gb_map_fixed os right_addr right_size
                                     (add64 (me_offset old) (sub64 right_addr (me_vaddr old))) (me_mode old) s
                              else Some (FrNone, s));
                   if l = FrNone \<and> r = FrNone then Some (True, s)
                   else do {
                     s \<leftarrow> (if left_size \<noteq> 0 \<and> gb_contains (me_vaddr old) left_size s
                           then (case unmap_one fuel os (me_vaddr old) left_size s of
                                   Some (True, s) \<Rightarrow> Some s | _ \<Rightarrow> None) else Some s);
                     s \<leftarrow> (if right_size \<noteq> 0 \<and> gb_contains right_addr right_size s
                           then (case unmap_one fuel os right_addr right_size s of
                                   Some (True, s) \<Rightarrow> Some s | _ \<Rightarrow> None) else Some s);
                     (m, s) \<leftarrow> gb_map_fixed os (me_vaddr old) (me_size old) (me_offset old) (me_mode old) s;
                     if m \<noteq> FrNone then None else Some (False, s) } })"

text \<open>The rollback of \<open>Unmap\<close>: the removed parts are mapped again, the last one first.\<close>

fun remap_all :: "(nat \<Rightarrow> bool) \<Rightarrow> mentry list \<Rightarrow> backing \<Rightarrow> backing option" where
  "remap_all os [] s = Some s"
| "remap_all os (p # ps) s = do {
     (m, s) \<leftarrow> gb_map_fixed os (me_vaddr p) (me_size p) (me_offset p) (me_mode p) s;
     if m \<noteq> FrNone then None else remap_all os ps s }"

fun unmap_parts :: "(nat \<Rightarrow> bool) \<Rightarrow> mentry list \<Rightarrow> mentry list \<Rightarrow> backing \<Rightarrow> (bool \<times> backing) option" where
  "unmap_parts os removed [] s = Some (True, s)"
| "unmap_parts os removed (p # ps) s = do {
     (unmapped, s) \<leftarrow> unmap_one 2 os (me_vaddr p) (me_size p) s;
     if unmapped then unmap_parts os (p # removed) ps s
     else do { s \<leftarrow> remap_all os removed s; Some (False, s) } }"

definition gb_unmap :: "(nat \<Rightarrow> bool) \<Rightarrow> u64 \<Rightarrow> u64 \<Rightarrow> backing \<Rightarrow> (bool \<times> backing) option" where
  "gb_unmap os vaddr size' s =
     (if size' = 0 \<or> U64_MAX - vaddr < size' then Some (False, s)
      else (case parts_walk vaddr (vaddr + size') (gb_maps s) of
              None \<Rightarrow> Some (False, s)
            | Some targets \<Rightarrow> unmap_parts os [] targets s))"

end
