(* ===== verification/Backing_Views.thy ===== *)
theory Backing_Views
  imports Guest_Backing Physical_Arena
begin

text \<open>
  What the guest sees of \<open>GuestBackingStore\<close>: the relation of virtual addresses to file offsets
  (\<open>views\<close>). Reads return the bytes behind it, writes change exactly those, and \<open>Unmap\<close> either removes
  exactly its range or leaves the relation as it was, whatever host calls fail on the way.
\<close>

abbreviation me_sz :: "u64 \<times> mentry \<Rightarrow> u64" where
  "me_sz p \<equiv> me_size (snd p)"

definition me_pts :: "mentry \<Rightarrow> (nat \<times> nat \<times> vm_mode) set" where
  "me_pts e = (\<lambda>a. (a, me_offset e + (a - me_vaddr e), me_mode e)) ` span (me_vaddr e) (me_size e)"

definition view_pts :: "mentry omap \<Rightarrow> (nat \<times> nat \<times> vm_mode) set" where
  "view_pts m = cover (\<lambda>p. me_pts (snd p)) m"

definition views :: "backing \<Rightarrow> (nat \<times> nat \<times> vm_mode) set" where
  "views s = view_pts (gb_maps s)"

definition maps_ok :: "u64 \<Rightarrow> mentry omap \<Rightarrow> bool" where
  "maps_ok sz m \<longleftrightarrow> tiled fst me_sz m \<and>
     (\<forall>p \<in> set m. me_vaddr (snd p) = fst p \<and> me_offset (snd p) + me_size (snd p) \<le> sz)"

definition bk_inv :: "backing \<Rightarrow> bool" where
  "bk_inv s \<longleftrightarrow> gb_available s \<and> gb_size s \<le> U64_MAX \<and> maps_ok (gb_size s) (gb_maps s)"

abbreviation viewed :: "mentry omap \<Rightarrow> nat set" where
  "viewed \<equiv> owned fst me_sz"

lemma view_pts_simps [simp]:
  "view_pts [] = {}" "view_pts (p # m) = me_pts (snd p) \<union> view_pts m" "view_pts (m @ m') = view_pts m \<union> view_pts m'"
  by (simp_all add: view_pts_def)

lemma fst_me_pts: "fst ` me_pts e = span (me_vaddr e) (me_size e)"
  by (simp add: me_pts_def image_image)

lemma me_ptsD: "x \<in> me_pts e \<Longrightarrow> me_vaddr e \<le> fst x \<and> fst x < me_vaddr e + me_size e"
  by (auto simp: me_pts_def span_iff)

lemma maps_okD:
  assumes "maps_ok sz m" and "(k, e) \<in> set m"
  shows "me_vaddr e = k" and "range_ok k (me_size e)" and "me_offset e + me_size e \<le> sz"
    and "me_end e = k + me_size e"
proof -
  have t: "tiled fst me_sz m" using assms(1) by (simp add: maps_ok_def)
  show k: "me_vaddr e = k" and "me_offset e + me_size e \<le> sz" using assms by (auto simp: maps_ok_def)
  show r: "range_ok k (me_size e)" using tiled_range [OF t assms(2)] by simp
  show "me_end e = k + me_size e" using r by (simp add: me_end_def k add64_le range_ok_def)
qed

lemma fst_view_pts: "maps_ok sz m \<Longrightarrow> fst ` view_pts m = viewed m"
  by (auto simp: view_pts_def owned_def cover_def image_UN fst_me_pts maps_ok_def)

lemma piece_me_pts:
  assumes "me_vaddr e \<le> v" and "v + n \<le> me_vaddr e + me_size e"
  shows "me_pts \<lparr>me_vaddr = v, me_size = n, me_offset = me_offset e + (v - me_vaddr e), me_mode = me_mode e\<rparr> =
    {x \<in> me_pts e. fst x \<in> span v n}"
  using assms by (auto simp: me_pts_def span_iff)

subsection \<open>Walking a range\<close>

lemma find_containing_spec:
  assumes ok: "maps_ok sz m" and c: "c < U64_MAX"
  shows "find_containing c 1 m = Some e \<longleftrightarrow> (\<exists>k. (k, e) \<in> set m \<and> c \<in> span k (me_size e))"
    and "find_containing c 1 m = None \<longleftrightarrow> c \<notin> viewed m"
proof -
  have t: "tiled fst me_sz m" using ok by (simp add: maps_ok_def)
  obtain bs fs where ub: "upper_bound c m = (bs, fs)" by fastforce
  note U = upper_split [OF t upper_bound_tiled [OF ub]] and O = upper_split_owned [OF t upper_bound_tiled [OF ub]]
  have guard: "\<not> ((1 :: nat) = 0 \<or> U64_MAX - c < 1)" using c by simp
  have eq: "find_containing c 1 m = (if bs \<noteq> [] \<and> c < fst (last bs) + me_sz (last bs) then Some (snd (last bs)) else None)"
  proof (cases "bs = []")
    case True
    then show ?thesis using guard ub by (simp add: find_containing_def)
  next
    case False
    have "(fst (last bs), snd (last bs)) \<in> set m" using False U(1) by simp
    from maps_okD(4) [OF ok this] show ?thesis
      using False guard ub by (auto simp: find_containing_def Let_def)
  qed
  show "find_containing c 1 m = None \<longleftrightarrow> c \<notin> viewed m" using eq O by auto
  show "find_containing c 1 m = Some e \<longleftrightarrow> (\<exists>k. (k, e) \<in> set m \<and> c \<in> span k (me_size e))"
  proof
    assume "find_containing c 1 m = Some e"
    then have "bs \<noteq> []" "c < fst (last bs) + me_sz (last bs)" "e = snd (last bs)"
      using eq by (auto split: if_splits)
    then show "\<exists>k. (k, e) \<in> set m \<and> c \<in> span k (me_size e)"
      using U by (intro exI [of _ "fst (last bs)"]) (auto simp: span_iff)
  next
    assume "\<exists>k. (k, e) \<in> set m \<and> c \<in> span k (me_size e)"
    then obtain k where k: "(k, e) \<in> set m" "k \<le> c" "c < k + me_size e" by (auto simp: span_iff)
    then have "bs \<noteq> []" "last bs = (k, e)"
      using upper_split_last [OF t upper_bound_tiled [OF ub] k(1)] by auto
    then show "find_containing c 1 m = Some e" using eq k by simp
  qed
qed

lemma contains_walk_correct:
  assumes "maps_ok sz m" and "e \<le> U64_MAX"
  shows "contains_walk c e m \<longleftrightarrow> {c..<e} \<subseteq> viewed m"
  using assms
proof (induction c e m rule: contains_walk.induct)
  case (1 c e m)
  show ?case
  proof (cases "c < e")
    case False
    then show ?thesis by (simp add: contains_walk.simps [of c e])
  next
    case True
    then have c: "c < U64_MAX" using "1.prems"(2) by simp
    note F = find_containing_spec [OF "1.prems"(1) c]
    show ?thesis
    proof (cases "find_containing c 1 m")
      case None
      then have "c \<notin> viewed m" using F(2) by simp
      then show ?thesis using None True by (auto simp: contains_walk.simps [of c e])
    next
      case (Some x)
      then obtain k where k: "(k, x) \<in> set m" "k \<le> c" "c < k + me_size x" using F(1) by (auto simp: span_iff)
      note E = maps_okD [OF "1.prems"(1) k(1)]
      have nx: "\<not> me_end x \<le> c" using E(4) k by simp
      have IH: "contains_walk (min e (me_end x)) e m \<longleftrightarrow> {min e (me_end x)..<e} \<subseteq> viewed m"
        using "1.IH" [OF True Some nx "1.prems"] .
      have "{c..<min e (me_end x)} \<subseteq> viewed m"
        using k E(4) by (auto simp: owned_iff intro!: bexI [of _ "(k, x)"])
      moreover have "{c..<e} = {c..<min e (me_end x)} \<union> {min e (me_end x)..<e}" using nx True by auto
      ultimately show ?thesis using IH True Some nx by (simp add: contains_walk.simps [of c e])
    qed
  qed
qed

lemma parts_walk_correct:
  assumes "maps_ok sz m" and "sz \<le> U64_MAX" and "e \<le> U64_MAX" and "c \<le> e"
  shows "case parts_walk c e m of
      None \<Rightarrow> \<not> {c..<e} \<subseteq> viewed m
    | Some parts \<Rightarrow> {c..<e} \<subseteq> viewed m \<and> chain me_vaddr me_size c parts e \<and>
        (\<Union>p \<in> set parts. me_pts p) = {x \<in> view_pts m. fst x \<in> {c..<e}} \<and>
        (\<forall>p \<in> set parts. me_offset p + me_size p \<le> sz \<and>
          (\<exists>q \<in> set m. fst q \<le> me_vaddr p \<and> me_vaddr p + me_size p \<le> fst q + me_sz q))"
  using assms
proof (induction c e m rule: parts_walk.induct)
  case (1 c e m)
  have t: "tiled fst me_sz m" using "1.prems"(1) by (simp add: maps_ok_def)
  show ?case
  proof (cases "c < e")
    case False
    then have "parts_walk c e m = Some []" by (simp add: parts_walk.simps [of c e])
    then show ?thesis using False "1.prems"(4) by simp
  next
    case True
    then have c: "c < U64_MAX" using "1.prems"(3) by simp
    note F = find_containing_spec [OF "1.prems"(1) c]
    show ?thesis
    proof (cases "find_containing c 1 m")
      case None
      then have "c \<notin> viewed m" using F(2) by simp
      then show ?thesis using None True by (auto simp: parts_walk.simps [of c e])
    next
      case (Some x)
      then obtain k where k: "(k, x) \<in> set m" "k \<le> c" "c < k + me_size x" using F(1) by (auto simp: span_iff)
      note E = maps_okD [OF "1.prems"(1) k(1)]
      define n where "n = min e (me_end x)"
      have n: "c < n" "n \<le> e" "n \<le> k + me_size x" using k True E(4) by (auto simp: n_def)
      have cn: "c + (n - c) = n" using n by simp
      define part where "part = \<lparr>me_vaddr = c, me_size = n - c, me_offset = me_offset x + (c - k), me_mode = me_mode x\<rparr>"
      have off: "sub64 (add64 (me_offset x) c) (me_vaddr x) = me_offset x + (c - k)"
        unfolding E(1) by (rule sub64_add64) (use k E(2,3) "1.prems"(2) in \<open>simp_all add: range_ok_def\<close>)
      have eq: "parts_walk c e m = do { parts \<leftarrow> parts_walk n e m; Some (part # parts) }"
        by (simp only: parts_walk.simps [of c e] True if_True Some option.case Let_def n_def [symmetric] off cn part_def)
      have pp: "me_pts part = {y \<in> me_pts x. fst y \<in> {c..<n}}"
        using piece_me_pts [of x c "n - c"] k n E(1) by (simp add: part_def span_def cn)
      have own: "y \<in> me_pts x" if "y \<in> view_pts m" "fst y \<in> {c..<n}" for y
      proof -
        from that(1) obtain q where q: "q \<in> set m" "y \<in> me_pts (snd q)" by (auto simp: view_pts_def cover_iff)
        have "fst y \<in> span (fst q) (me_sz q)"
          using q maps_okD(1) [OF "1.prems"(1), of "fst q" "snd q"] fst_me_pts [of "snd q"] by force
        moreover have "fst y \<in> span (fst (k, x)) (me_sz (k, x))" using that(2) n k by (auto simp: span_iff)
        ultimately have "q = (k, x)" by (rule tiled_unique [OF t q(1) k(1)])
        with q show ?thesis by simp
      qed
      have pv: "me_pts part = {y \<in> view_pts m. fst y \<in> {c..<n}}"
        unfolding pp using own k(1) by (force simp: view_pts_def cover_iff)
      have sub: "{c..<n} \<subseteq> viewed m" using k n by (auto simp: owned_iff intro!: bexI [of _ "(k, x)"])
      have split: "{c..<e} = {c..<n} \<union> {n..<e}" using n by auto
      have IH: "case parts_walk n e m of
          None \<Rightarrow> \<not> {n..<e} \<subseteq> viewed m
        | Some parts \<Rightarrow> {n..<e} \<subseteq> viewed m \<and> chain me_vaddr me_size n parts e \<and>
            (\<Union>p \<in> set parts. me_pts p) = {x \<in> view_pts m. fst x \<in> {n..<e}} \<and>
            (\<forall>p \<in> set parts. me_offset p + me_size p \<le> sz \<and>
              (\<exists>q \<in> set m. fst q \<le> me_vaddr p \<and> me_vaddr p + me_size p \<le> fst q + me_sz q))"
      proof -
        have "c + (min e (me_end x) - c) = n" by (simp only: n_def [symmetric] cn)
        then show ?thesis using "1.IH" [OF True Some refl refl "1.prems"(1-3)] n(2) by (simp only:)
      qed
      have here: "me_offset part + me_size part \<le> sz \<and>
          (\<exists>q \<in> set m. fst q \<le> me_vaddr part \<and> me_vaddr part + me_size part \<le> fst q + me_sz q)"
        using k n E(3) by (auto simp: part_def cn intro!: bexI [of _ "(k, x)"])
      show ?thesis
      proof (cases "parts_walk n e m")
        case None
        then show ?thesis using IH eq split by auto
      next
        case (Some parts)
        have "chain me_vaddr me_size c (part # parts) e" using IH Some n by (simp add: part_def cn)
        moreover have "(\<Union>p \<in> set (part # parts). me_pts p) = {x \<in> view_pts m. fst x \<in> {c..<e}}"
          using IH Some pv split by auto
        ultimately show ?thesis using IH Some eq here sub split by auto
      qed
    qed
  qed
qed

subsection \<open>Reading and writing\<close>

text \<open>The file offset behind a virtual address.\<close>

definition behind :: "backing \<Rightarrow> nat \<Rightarrow> nat \<Rightarrow> bool" where
  "behind s a o' \<longleftrightarrow> (\<exists>m. (a, o', m) \<in> views s)"

lemma behind_unique:
  assumes "bk_inv s" and "behind s a o1" and "behind s a o2"
  shows "o1 = o2"
proof -
  have ok: "maps_ok (gb_size s) (gb_maps s)" and t: "tiled fst me_sz (gb_maps s)"
    using assms(1) by (auto simp: bk_inv_def maps_ok_def)
  obtain m1 m2 where "(a, o1, m1) \<in> views s" "(a, o2, m2) \<in> views s" using assms by (auto simp: behind_def)
  then obtain p q where p: "p \<in> set (gb_maps s)" "(a, o1, m1) \<in> me_pts (snd p)"
    and q: "q \<in> set (gb_maps s)" "(a, o2, m2) \<in> me_pts (snd q)"
    by (auto simp: views_def view_pts_def cover_iff)
  have "a \<in> span (fst p) (me_sz p)" "a \<in> span (fst q) (me_sz q)"
    using p q maps_okD(1) [OF ok, of "fst p" "snd p"] maps_okD(1) [OF ok, of "fst q" "snd q"]
    by (auto simp: me_pts_def)
  then have "p = q" by (rule tiled_unique [OF t p(1) q(1)])
  with p(2) q(2) show ?thesis by (auto simp: me_pts_def)
qed

lemma transfer_parts_spec:
  assumes inv: "bk_inv s" and va: "va \<le> U64_MAX"
  shows "case transfer_parts va n s of
      None \<Rightarrow> \<not> range_ok va n \<or> \<not> span va n \<subseteq> viewed (gb_maps s)
    | Some parts \<Rightarrow> range_ok va n \<and> span va n \<subseteq> viewed (gb_maps s) \<and> chain me_vaddr me_size va parts (va + n) \<and>
        (\<Union>p \<in> set parts. me_pts p) = {x \<in> views s. fst x \<in> span va n} \<and>
        (\<forall>p \<in> set parts. me_offset p + me_size p \<le> gb_size s)"
proof (cases "range_ok va n")
  case False
  then have "transfer_parts va n s = None" using va by (auto simp: transfer_parts_def range_ok_def)
  with False show ?thesis by simp
next
  case True
  have ok: "maps_ok (gb_size s) (gb_maps s)" and sz: "gb_size s \<le> U64_MAX" and av: "gb_available s"
    using inv by (auto simp: bk_inv_def)
  have guard: "\<not> (\<not> gb_available s \<or> n = 0 \<or> U64_MAX - va < n)" using True av by (auto simp: range_ok_def)
  have le: "va + n \<le> U64_MAX" using True by (simp add: range_ok_def)
  note W = parts_walk_correct [OF ok sz le le_add1]
  show ?thesis
  proof (cases "parts_walk va (va + n) (gb_maps s)")
    case None
    then show ?thesis using W guard by (simp add: transfer_parts_def span_def)
  next
    case (Some parts)
    have sizes: "0 < me_size p" if "p \<in> set parts" for p
      using chain_tiled [of me_vaddr me_size va parts "va + n"] W Some le that
      by (auto dest: tiled_size_pos)
    have "list_all (\<lambda>p. backing_range_ok (me_offset p) (me_size p) s) parts"
      using W Some sizes by (fastforce simp: list_all_iff backing_range_ok_def)
    then have "transfer_parts va n s = Some parts" using Some guard by (simp add: transfer_parts_def)
    then show ?thesis using W Some True by (simp add: span_def views_def)
  qed
qed

lemma read_part_length [simp]: "length (read_part s p) = me_size p"
  by (simp add: read_part_def)

lemma chain_read_length:
  "chain me_vaddr me_size va parts e \<Longrightarrow> length (concat (map (read_part s) parts)) = e - va"
proof (induction parts arbitrary: va)
  case (Cons p ps)
  then have "chain me_vaddr me_size (va + me_size p) ps e" by auto
  with Cons.IH [OF this] chain_le [OF this] show ?case by simp
qed simp

lemma chain_read:
  "chain me_vaddr me_size va parts e \<Longrightarrow> i < e - va \<Longrightarrow> \<exists>p \<in> set parts. me_vaddr p \<le> va + i \<and>
     va + i < me_vaddr p + me_size p \<and>
     concat (map (read_part s) parts) ! i = gb_bytes s (me_offset p + (va + i - me_vaddr p))"
proof (induction parts arbitrary: va i)
  case (Cons p ps)
  have c: "me_vaddr p = va" "chain me_vaddr me_size (va + me_size p) ps e"
    using Cons.prems(1) by auto
  show ?case
  proof (cases "i < me_size p")
    case True
    then have "concat (map (read_part s) (p # ps)) ! i = gb_bytes s (me_offset p + i)"
      by (simp add: nth_append) (simp add: read_part_def)
    then show ?thesis using True c(1) by (intro bexI [of _ p]) auto
  next
    case False
    then have i: "i - me_size p < e - (va + me_size p)" using Cons.prems(2) by simp
    have v: "va + me_size p + (i - me_size p) = va + i" using False by simp
    from Cons.IH [OF c(2) i] obtain q where "q \<in> set ps" "me_vaddr q \<le> va + i" "va + i < me_vaddr q + me_size q"
      "concat (map (read_part s) ps) ! (i - me_size p) = gb_bytes s (me_offset q + (va + i - me_vaddr q))"
      unfolding v by blast
    moreover have "concat (map (read_part s) (p # ps)) ! i = concat (map (read_part s) ps) ! (i - me_size p)"
      using False by (simp add: nth_append)
    ultimately show ?thesis by (intro bexI [of _ q]) auto
  qed
qed simp

lemma gb_try_read_spec:
  assumes inv: "bk_inv s" and va: "va \<le> U64_MAX"
  shows "case gb_try_read va n s of
      None \<Rightarrow> \<not> range_ok va n \<or> \<not> span va n \<subseteq> viewed (gb_maps s)
    | Some data \<Rightarrow> range_ok va n \<and> span va n \<subseteq> viewed (gb_maps s) \<and> length data = n \<and>
        (\<forall>i < n. \<exists>o'. behind s (va + i) o' \<and> data ! i = gb_bytes s o')"
proof (cases "transfer_parts va n s")
  case None
  then show ?thesis using transfer_parts_spec [OF inv va, of n] by (simp add: gb_try_read_def)
next
  case (Some parts)
  then have P: "range_ok va n" "span va n \<subseteq> viewed (gb_maps s)" "chain me_vaddr me_size va parts (va + n)"
    "(\<Union>p \<in> set parts. me_pts p) = {x \<in> views s. fst x \<in> span va n}"
    using transfer_parts_spec [OF inv va, of n] by auto
  have "\<exists>o'. behind s (va + i) o' \<and> concat (map (read_part s) parts) ! i = gb_bytes s o'" if "i < n" for i
  proof -
    from that obtain p where p: "p \<in> set parts" "me_vaddr p \<le> va + i" "va + i < me_vaddr p + me_size p"
      "concat (map (read_part s) parts) ! i = gb_bytes s (me_offset p + (va + i - me_vaddr p))"
      using chain_read [OF P(3), of i s] by auto
    then have "(va + i, me_offset p + (va + i - me_vaddr p), me_mode p) \<in> (\<Union>p \<in> set parts. me_pts p)"
      by (auto simp: me_pts_def span_iff intro!: bexI [of _ p])
    then have "behind s (va + i) (me_offset p + (va + i - me_vaddr p))"
      unfolding P(4) behind_def by blast
    with p(4) show ?thesis by blast
  qed
  with P Some chain_read_length [OF P(3), of s] show ?thesis by (simp add: gb_try_read_def)
qed

lemma fold_write:
  assumes "\<And>q. q \<in> set parts \<Longrightarrow> o' \<in> span (me_offset q) (me_size q) \<Longrightarrow>
     data ! (me_vaddr q - va + (o' - me_offset q)) = d"
  shows "fold (write_part va data) parts m o' =
    (if \<exists>q \<in> set parts. o' \<in> span (me_offset q) (me_size q) then d else m o')"
  using assms by (induction parts arbitrary: m) (auto simp: write_part_def)

lemma gb_try_write_spec:
  assumes inv: "bk_inv s" and va: "va \<le> U64_MAX" and data: "length data = n"
    and inj: "\<And>a b o'. a \<in> span va n \<Longrightarrow> b \<in> span va n \<Longrightarrow> behind s a o' \<Longrightarrow> behind s b o' \<Longrightarrow> a = b"
  shows "case gb_try_write va data n s of
      None \<Rightarrow> \<not> range_ok va n \<or> \<not> span va n \<subseteq> viewed (gb_maps s)
    | Some s' \<Rightarrow> range_ok va n \<and> span va n \<subseteq> viewed (gb_maps s) \<and> bk_inv s' \<and> gb_maps s' = gb_maps s \<and>
        (\<forall>i < n. \<forall>o'. behind s (va + i) o' \<longrightarrow> gb_bytes s' o' = data ! i) \<and>
        (\<forall>o'. (\<forall>a \<in> span va n. \<not> behind s a o') \<longrightarrow> gb_bytes s' o' = gb_bytes s o')"
proof (cases "transfer_parts va n s")
  case None
  then show ?thesis using transfer_parts_spec [OF inv va, of n] by (simp add: gb_try_write_def)
next
  case (Some parts)
  then have P: "range_ok va n" "span va n \<subseteq> viewed (gb_maps s)" "chain me_vaddr me_size va parts (va + n)"
    "(\<Union>p \<in> set parts. me_pts p) = {x \<in> views s. fst x \<in> span va n}"
    using transfer_parts_spec [OF inv va, of n] by auto
  define s' where "s' = s\<lparr>gb_bytes := fold (write_part va data) parts (gb_bytes s)\<rparr>"
  have res: "gb_try_write va data n s = Some s'" using Some by (simp add: gb_try_write_def s'_def)
  have bounds: "va \<le> me_vaddr p \<and> me_vaddr p + me_size p \<le> va + n" if "p \<in> set parts" for p
  proof -
    have "va + n \<le> U64_MAX" using P(1) by (simp add: range_ok_def)
    then have "tiled me_vaddr me_size parts" "va \<le> me_vaddr p" using chain_tiled [OF P(3)] that by auto
    moreover from this have "block_span me_vaddr me_size p \<subseteq> {va..<va + n}"
      using chain_owned [OF P(3)] that by (auto simp: owned_def cover_def)
    moreover have "0 < me_size p" using tiled_size_pos [OF calculation(1) that] .
    ultimately show ?thesis by (auto simp: span_def)
  qed
  have hit: "behind s (me_vaddr p + (o' - me_offset p)) o' \<and> me_vaddr p + (o' - me_offset p) \<in> span va n"
    if "p \<in> set parts" "o' \<in> span (me_offset p) (me_size p)" for p o'
  proof -
    have "(me_vaddr p + (o' - me_offset p), o', me_mode p) \<in> (\<Union>p \<in> set parts. me_pts p)"
      using that by (auto simp: me_pts_def span_iff image_iff intro!: bexI [of _ p])
    then show ?thesis unfolding P(4) behind_def by auto
  qed
  have covered: "\<exists>p \<in> set parts. o' \<in> span (me_offset p) (me_size p) \<and> a = me_vaddr p + (o' - me_offset p)"
    if "behind s a o'" "a \<in> span va n" for a o'
  proof -
    from that obtain m where "(a, o', m) \<in> {x \<in> views s. fst x \<in> span va n}" by (auto simp: behind_def)
    then have "(a, o', m) \<in> (\<Union>p \<in> set parts. me_pts p)" by (simp only: P(4))
    then obtain p i where p: "p \<in> set parts" "me_vaddr p \<le> i" "i < me_vaddr p + me_size p"
      and e: "a = i" "o' = me_offset p + (i - me_vaddr p)" by (auto simp: me_pts_def span_iff)
    from p(2) obtain d where d: "i = me_vaddr p + d" by (auto simp: le_iff_add)
    with p e show ?thesis by (intro bexI [of _ p]) (simp_all add: span_iff)
  qed
  have new: "gb_bytes s' o' = data ! i" if i: "i < n" and b: "behind s (va + i) o'" for i o'
  proof -
    have in_va: "va + i \<in> span va n" using i by (simp add: span_iff)
    have "data ! (me_vaddr q - va + (o' - me_offset q)) = data ! i"
      if "q \<in> set parts" "o' \<in> span (me_offset q) (me_size q)" for q
    proof -
      have "me_vaddr q + (o' - me_offset q) = va + i" using inj [OF _ in_va _ b] hit [OF that] by blast
      then have "me_vaddr q - va + (o' - me_offset q) = i" using bounds [OF that(1)] by simp
      then show ?thesis by simp
    qed
    from fold_write [OF this, where m = "gb_bytes s"] covered [OF b in_va] show ?thesis by (auto simp: s'_def)
  qed
  have old: "gb_bytes s' o' = gb_bytes s o'" if "\<forall>a \<in> span va n. \<not> behind s a o'" for o'
  proof -
    have none: "\<not> (\<exists>q \<in> set parts. o' \<in> span (me_offset q) (me_size q))" using hit that by blast
    have "fold (write_part va data) parts (gb_bytes s) o' = gb_bytes s o'"
      using fold_write [of parts o' data va undefined "gb_bytes s"] none by auto
    then show ?thesis by (simp add: s'_def)
  qed
  have "bk_inv s'" using inv by (simp add: bk_inv_def s'_def)
  then show ?thesis using res P new old by (simp add: s'_def)
qed

subsection \<open>Unmapping, with every pattern of host failures\<close>

declare unmap_one.simps [simp del]

text \<open>What the operations leave alone.\<close>

definition same_store :: "backing \<Rightarrow> backing \<Rightarrow> bool" where
  "same_store s s' \<longleftrightarrow> gb_available s' = gb_available s \<and> gb_size s' = gb_size s \<and> gb_bytes s' = gb_bytes s"

lemma same_store_refl [simp]: "same_store s s"
  by (simp add: same_store_def)

lemma same_store_trans: "same_store s s' \<Longrightarrow> same_store s' s'' \<Longrightarrow> same_store s s''"
  by (simp add: same_store_def)

lemma same_store_maps [simp]: "same_store s (s\<lparr>gb_maps := m, gb_calls := c\<rparr>)" "same_store s (s\<lparr>gb_maps := m\<rparr>)"
  "same_store s (s\<lparr>gb_calls := c\<rparr>)"
  by (simp_all add: same_store_def)

text \<open>The store with other views and later in the sequence of host calls.\<close>

abbreviation at_maps :: "backing \<Rightarrow> mentry omap \<Rightarrow> nat \<Rightarrow> backing" where
  "at_maps s m c \<equiv> s\<lparr>gb_maps := m, gb_calls := c\<rparr>"

lemma at_maps_id: "at_maps s (gb_maps s) (gb_calls s) = s"
  by simp

lemma maps_ok_emplace:
  assumes ok: "maps_ok sz m" and r: "range_ok v n" and o': "off + n \<le> sz" and d: "span v n \<inter> viewed m = {}"
    and e_def: "e = \<lparr>me_vaddr = v, me_size = n, me_offset = off, me_mode = mode\<rparr>"
  shows "maps_ok sz (emplace v e m)" and "view_pts (emplace v e m) = view_pts m \<union> me_pts e"
    and "v \<notin> fst ` set m" and "viewed (emplace v e m) = viewed m \<union> span v n"
proof -
  have t: "tiled fst me_sz m" using ok by (simp add: maps_ok_def)
  have esz: "me_size e = n" by (simp add: e_def)
  obtain bs fs where m: "m = bs @ fs" "emplace v e m = bs @ (v, e) # fs" "tiled fst me_sz (emplace v e m)"
    using tiled_emplace [OF t, of v e] r d esz by metis
  show "view_pts (emplace v e m) = view_pts m \<union> me_pts e"
    "viewed (emplace v e m) = viewed m \<union> span v n"
    unfolding m(2) by (auto simp: m(1) esz)
  have "\<forall>p \<in> set (emplace v e m). me_vaddr (snd p) = fst p \<and> me_offset (snd p) + me_size (snd p) \<le> sz"
    unfolding m(2) using ok o' by (auto simp: m(1) maps_ok_def e_def)
  with m(3) show "maps_ok sz (emplace v e m)" by (simp add: maps_ok_def)
  show "v \<notin> fst ` set m"
  proof
    assume "v \<in> fst ` set m"
    then obtain x where "(v, x) \<in> set m" by auto
    then have "v \<in> viewed m" using tiled_size_pos [OF t] by (force simp: owned_iff)
    moreover have "v \<in> span v n" using r by (simp add: span_iff range_ok_def)
    ultimately show False using d by blast
  qed
qed

lemma gb_map_fixed_spec:
  assumes inv: "bk_inv s" and r: "range_ok v n" and o': "off + n \<le> gb_size s" and d: "span v n \<inter> viewed (gb_maps s) = {}"
    and e_def: "e = \<lparr>me_vaddr = v, me_size = n, me_offset = off, me_mode = mode\<rparr>"
  shows "gb_map_fixed os v n off mode s =
      (if os (gb_calls s) then Some (FrNone, at_maps s (emplace v e (gb_maps s)) (Suc (gb_calls s)))
       else Some (FixedMapViewFailed, at_maps s (gb_maps s) (Suc (gb_calls s))))"
    and "bk_inv (at_maps s (emplace v e (gb_maps s)) c)"
    and "view_pts (emplace v e (gb_maps s)) = views s \<union> me_pts e"
    and "viewed (emplace v e (gb_maps s)) = viewed (gb_maps s) \<union> span v n"
proof -
  have ok: "maps_ok (gb_size s) (gb_maps s)" using inv by (simp add: bk_inv_def)
  note E = maps_ok_emplace [OF ok r o' d e_def]
  have "backing_range_ok off n s" using r o' by (auto simp: backing_range_ok_def range_ok_def)
  then show "gb_map_fixed os v n off mode s =
      (if os (gb_calls s) then Some (FrNone, at_maps s (emplace v e (gb_maps s)) (Suc (gb_calls s)))
       else Some (FixedMapViewFailed, at_maps s (gb_maps s) (Suc (gb_calls s))))"
    using inv E(3) by (simp add: gb_map_fixed_def bk_inv_def os_call_def Let_def e_def)
  show "bk_inv (at_maps s (emplace v e (gb_maps s)) c)" using inv E(1) by (simp add: bk_inv_def)
  show "view_pts (emplace v e (gb_maps s)) = views s \<union> me_pts e" using E(2) by (simp add: views_def)
  show "viewed (emplace v e (gb_maps s)) = viewed (gb_maps s) \<union> span v n" by (rule E(4))
qed

lemma take_entry_spec:
  assumes ok: "maps_ok sz m" and r: "range_ok v n" and k: "(k, e) \<in> set m" "k \<le> v" "v + n \<le> k + me_size e"
  shows "\<exists>bs fs. m = bs @ (k, e) # fs \<and> take_entry v n m = Some (e, bs @ fs) \<and> maps_ok sz (bs @ fs) \<and>
    viewed (bs @ fs) \<inter> span k (me_size e) = {} \<and> view_pts m = view_pts (bs @ fs) \<union> me_pts e \<and>
    emplace k e (bs @ fs) = m"
proof -
  have t: "tiled fst me_sz m" using ok by (simp add: maps_ok_def)
  obtain xs ys where ub: "upper_bound v m = (xs, ys)" by fastforce
  have n: "0 < n" using r by (simp add: range_ok_def)
  have "xs \<noteq> []" "last xs = (k, e)"
    using upper_split_last [OF t upper_bound_tiled [OF ub] k(1)] k n by auto
  moreover have "me_end e = k + me_size e" using maps_okD [OF ok k(1)] by simp
  moreover have "add64 v n = v + n" using r by (simp add: range_ok_def add64_le)
  ultimately have take: "take_entry v n m = Some (e, erase_key k m)"
    using ub k(3) by (simp add: take_entry_def)
  obtain bs fs where m: "m = bs @ (k, e) # fs" using split_list [OF k(1)] by blast
  have er: "erase_key k m = bs @ fs" using erase_key_middle [of bs k e fs] tiled_omap_wf [OF t] m by simp
  have t': "tiled fst me_sz (bs @ (k, e) # fs)" using t m by simp
  have ok': "maps_ok sz (bs @ fs)" using ok t' by (auto simp: maps_ok_def m)
  have dis: "viewed (bs @ fs) \<inter> span k (me_size e) = {}" using t' by (force simp: owned_iff span_iff)
  have vp: "view_pts m = view_pts (bs @ fs) \<union> me_pts e" by (auto simp: m)
  have "\<forall>p \<in> set bs. fst p < k" "\<forall>q \<in> set fs. k < fst q" using tiled_omap_wf [OF t'] by auto
  then have "emplace k e (bs @ fs) = m" by (simp add: emplace_middle m)
  with m take er ok' dis vp show ?thesis by auto
qed


text \<open>A state of the same store with a given set of views.\<close>

definition now_maps :: "backing \<Rightarrow> backing \<Rightarrow> (u64 \<times> mentry) set \<Rightarrow> bool" where
  "now_maps s s' V \<longleftrightarrow> bk_inv s' \<and> same_store s s' \<and> set (gb_maps s') = V"

lemma now_maps_trans: "now_maps s s' V \<Longrightarrow> now_maps s' s'' V' \<Longrightarrow> now_maps s s'' V'"
  by (auto simp: now_maps_def same_store_def)

lemma view_pts_set: "view_pts m = (\<Union>p \<in> set m. me_pts (snd p))"
  by (auto simp: view_pts_def cover_def)

lemma viewed_set: "viewed m = (\<Union>p \<in> set m. span (fst p) (me_sz p))"
  by (auto simp: owned_def cover_def)

lemma gb_map_fixed_step:
  assumes inv: "bk_inv s" and r: "range_ok v n" and o': "off + n \<le> gb_size s" and d: "span v n \<inter> viewed (gb_maps s) = {}"
    and e_def: "e = \<lparr>me_vaddr = v, me_size = n, me_offset = off, me_mode = mode\<rparr>"
  shows "\<exists>r s'. gb_map_fixed os v n off mode s = Some (r, s') \<and>
    (if r = FrNone then now_maps s s' (insert (v, e) (set (gb_maps s)))
     else now_maps s s' (set (gb_maps s)) \<and> (\<exists>j. \<not> os j))"
proof -
  have ok: "maps_ok (gb_size s) (gb_maps s)" using inv by (simp add: bk_inv_def)
  note E = maps_ok_emplace [OF ok r o' d e_def]
  note M = gb_map_fixed_spec [OF inv r o' d e_def]
  have "set (emplace v e (gb_maps s)) = insert (v, e) (set (gb_maps s))"
    using E(3) by (rule emplace_fresh_set)
  then show ?thesis using M(1,2) inv by (auto simp: now_maps_def bk_inv_def)
qed

text \<open>Unmapping a view exactly makes one host call.\<close>

lemma unmap_one_exact:
  assumes inv: "bk_inv s" and k: "(k, e) \<in> set (gb_maps s)"
  shows "\<exists>b s'. unmap_one (Suc fuel) os k (me_size e) s = Some (b, s') \<and>
    (if b then now_maps s s' (set (gb_maps s) - {(k, e)})
     else now_maps s s' (set (gb_maps s)) \<and> (\<exists>j. \<not> os j))"
proof -
  have ok: "maps_ok (gb_size s) (gb_maps s)" using inv by (simp add: bk_inv_def)
  note E = maps_okD [OF ok k]
  from take_entry_spec [OF ok E(2) k] obtain bs fs where T: "gb_maps s = bs @ (k, e) # fs"
    "take_entry k (me_size e) (gb_maps s) = Some (e, bs @ fs)" "maps_ok (gb_size s) (bs @ fs)"
    "viewed (bs @ fs) \<inter> span k (me_size e) = {}" "emplace k e (bs @ fs) = gb_maps s" by auto
  have eq: "unmap_one (Suc fuel) os k (me_size e) s =
      (if os (gb_calls s) then Some (True, at_maps s (bs @ fs) (Suc (gb_calls s)))
       else Some (False, at_maps s (gb_maps s) (Suc (gb_calls s))))"
    using T(2,5) E(1,2) by (simp add: unmap_one.simps os_call_def Let_def range_ok_def)
  have "(k, e) \<notin> set (bs @ fs)"
  proof
    assume "(k, e) \<in> set (bs @ fs)"
    then have "k \<in> viewed (bs @ fs)" using E(2) by (force simp: viewed_set span_iff range_ok_def)
    moreover have "k \<in> span k (me_size e)" using E(2) by (simp add: span_iff range_ok_def)
    ultimately show False using T(4) by blast
  qed
  then have "set (bs @ fs) = set (gb_maps s) - {(k, e)}" using T(1) by auto
  then show ?thesis using eq inv T(3) by (auto simp: now_maps_def bk_inv_def)
qed

text \<open>The two optional steps of the split: mapping a remainder, and unmapping it again.\<close>

definition may_map :: "u64 \<Rightarrow> mentry \<Rightarrow> backing \<Rightarrow> bool" where
  "may_map v e s \<longleftrightarrow> me_vaddr e = v \<and> (me_size e \<noteq> 0 \<longrightarrow> range_ok v (me_size e) \<and>
     me_offset e + me_size e \<le> gb_size s \<and> span v (me_size e) \<inter> viewed (gb_maps s) = {})"

lemma optional_map_step:
  assumes inv: "bk_inv s" and m: "may_map v e s"
  shows "\<exists>r s'. (if me_size e \<noteq> 0 then gb_map_fixed os v (me_size e) (me_offset e) (me_mode e) s else Some (FrNone, s)) = Some (r, s') \<and>
    now_maps s s' (if r = FrNone \<and> me_size e \<noteq> 0 then insert (v, e) (set (gb_maps s)) else set (gb_maps s)) \<and>
    (r \<noteq> FrNone \<longrightarrow> me_size e \<noteq> 0 \<and> (\<exists>j. \<not> os j))"
proof (cases "me_size e = 0")
  case True
  then show ?thesis using inv by (simp add: now_maps_def)
next
  case False
  then have "e = \<lparr>me_vaddr = v, me_size = me_size e, me_offset = me_offset e, me_mode = me_mode e\<rparr>"
    "range_ok v (me_size e)" "me_offset e + me_size e \<le> gb_size s" "span v (me_size e) \<inter> viewed (gb_maps s) = {}"
    using m by (simp_all add: may_map_def)
  from gb_map_fixed_step [OF inv this(2-4,1), of os] show ?thesis using False by (auto split: if_splits)
qed

lemma gb_contains_spec:
  assumes "bk_inv s" and "range_ok v n"
  shows "gb_contains v n s \<longleftrightarrow> span v n \<subseteq> viewed (gb_maps s)"
proof -
  have "maps_ok (gb_size s) (gb_maps s)" using assms(1) by (simp add: bk_inv_def)
  from contains_walk_correct [OF this, of "v + n" v] show ?thesis
    using assms(2) by (auto simp: gb_contains_def range_ok_def span_def)
qed

lemma optional_unmap_step:
  assumes inv: "bk_inv s" and n: "n \<noteq> 0 \<Longrightarrow> range_ok v n"
    and e: "mapped \<Longrightarrow> n \<noteq> 0 \<and> (v, e) \<in> set (gb_maps s) \<and> me_size e = n"
    and d: "\<not> mapped \<Longrightarrow> n \<noteq> 0 \<Longrightarrow> span v n \<inter> viewed (gb_maps s) = {}"
  shows "case (if n \<noteq> 0 \<and> gb_contains v n s
      then (case unmap_one (Suc fuel) os v n s of Some (True, s) \<Rightarrow> Some s | _ \<Rightarrow> None) else Some s) of
      None \<Rightarrow> \<exists>j. \<not> os j
    | Some s' \<Rightarrow> now_maps s s' (if mapped then set (gb_maps s) - {(v, e)} else set (gb_maps s))"
proof (cases mapped)
  case True
  then have E: "n \<noteq> 0" "(v, e) \<in> set (gb_maps s)" "me_size e = n" using e by auto
  then have "span v n \<subseteq> viewed (gb_maps s)" by (force simp: viewed_set)
  then have c: "gb_contains v n s" using gb_contains_spec [OF inv n] E by simp
  from unmap_one_exact [OF inv E(2), of fuel os] obtain b s' where
    "unmap_one (Suc fuel) os v n s = Some (b, s')"
    "if b then now_maps s s' (set (gb_maps s) - {(v, e)}) else now_maps s s' (set (gb_maps s)) \<and> (\<exists>j. \<not> os j)"
    unfolding E(3) by blast
  then show ?thesis using c E True by (cases b) simp_all
next
  case False
  have none: "\<not> (n \<noteq> 0 \<and> gb_contains v n s)"
  proof
    assume *: "n \<noteq> 0 \<and> gb_contains v n s"
    then have "span v n \<subseteq> viewed (gb_maps s)" using gb_contains_spec [OF inv n] by simp
    moreover have "span v n \<noteq> {}" using * by simp
    ultimately show False using d False * by blast
  qed
  show ?thesis unfolding if_not_P [OF none] using False inv by (simp add: now_maps_def)
qed

text \<open>The parts of a view on either side of a range inside it.\<close>

definition left_part :: "u64 \<Rightarrow> mentry \<Rightarrow> mentry" where
  "left_part v e = e\<lparr>me_size := v - me_vaddr e\<rparr>"

definition right_part :: "u64 \<Rightarrow> u64 \<Rightarrow> mentry \<Rightarrow> mentry" where
  "right_part v n e = e\<lparr>me_vaddr := v + n, me_size := me_vaddr e + me_size e - (v + n),
     me_offset := me_offset e + (v + n - me_vaddr e)\<rparr>"

definition entry_of :: "mentry \<Rightarrow> (u64 \<times> mentry) set" where
  "entry_of e = (if me_size e = 0 then {} else {(me_vaddr e, e)})"

text \<open>The split that \<open>UnmapOne\<close> makes, once the view around the range is unmapped.\<close>

definition split_view :: "nat \<Rightarrow> (nat \<Rightarrow> bool) \<Rightarrow> mentry \<Rightarrow> mentry \<Rightarrow> mentry \<Rightarrow> backing \<Rightarrow> (bool \<times> backing) option" where
  "split_view fuel os e l r s = do {
     (x, s) \<leftarrow> (if me_size l \<noteq> 0 then gb_map_fixed os (me_vaddr l) (me_size l) (me_offset l) (me_mode l) s
                else Some (FrNone, s));
     (y, s) \<leftarrow> (if me_size r \<noteq> 0 then gb_map_fixed os (me_vaddr r) (me_size r) (me_offset r) (me_mode r) s
                else Some (FrNone, s));
     if x = FrNone \<and> y = FrNone then Some (True, s)
     else do {
       s \<leftarrow> (if me_size l \<noteq> 0 \<and> gb_contains (me_vaddr l) (me_size l) s
             then (case unmap_one fuel os (me_vaddr l) (me_size l) s of Some (True, s) \<Rightarrow> Some s | _ \<Rightarrow> None) else Some s);
       s \<leftarrow> (if me_size r \<noteq> 0 \<and> gb_contains (me_vaddr r) (me_size r) s
             then (case unmap_one fuel os (me_vaddr r) (me_size r) s of Some (True, s) \<Rightarrow> Some s | _ \<Rightarrow> None) else Some s);
       (m, s) \<leftarrow> gb_map_fixed os (me_vaddr e) (me_size e) (me_offset e) (me_mode e) s;
       if m \<noteq> FrNone then None else Some (False, s) } }"

lemma unmap_one_split:
  assumes inv: "bk_inv s" and k: "(k, e) \<in> set (gb_maps s)" and v: "range_ok v n" "k \<le> v" "v + n \<le> k + me_size e"
    and part: "\<not> (v = k \<and> n = me_size e)"
  shows "\<exists>s1. now_maps s s1 (set (gb_maps s) - {(k, e)}) \<and>
    unmap_one (Suc fuel) os v n s =
      (if os (gb_calls s) then split_view fuel os e (left_part v e) (right_part v n e) s1
       else Some (False, at_maps s (gb_maps s) (Suc (gb_calls s))))"
proof -
  have ok: "maps_ok (gb_size s) (gb_maps s)" and sz: "gb_size s \<le> U64_MAX" using inv by (simp_all add: bk_inv_def)
  note E = maps_okD [OF ok k]
  from take_entry_spec [OF ok v(1) k v(2,3)] obtain bs fs where T: "gb_maps s = bs @ (k, e) # fs"
    "take_entry v n (gb_maps s) = Some (e, bs @ fs)" "maps_ok (gb_size s) (bs @ fs)"
    "viewed (bs @ fs) \<inter> span k (me_size e) = {}" "emplace k e (bs @ fs) = gb_maps s" by auto
  have gone: "(k, e) \<notin> set (bs @ fs)"
  proof
    assume "(k, e) \<in> set (bs @ fs)"
    then have "k \<in> viewed (bs @ fs)" using E(2) by (force simp: viewed_set span_iff range_ok_def)
    moreover have "k \<in> span k (me_size e)" using E(2) by (simp add: span_iff range_ok_def)
    ultimately show False using T(4) by blast
  qed
  define s1 where "s1 = at_maps s (bs @ fs) (Suc (gb_calls s))"
  have "now_maps s s1 (set (gb_maps s) - {(k, e)})"
    using gone T(1,3) inv by (auto simp: now_maps_def bk_inv_def s1_def)
  moreover have "unmap_one (Suc fuel) os v n s =
      (if os (gb_calls s) then split_view fuel os e (left_part v e) (right_part v n e) s1
       else Some (False, at_maps s (gb_maps s) (Suc (gb_calls s))))"
  proof (cases "os (gb_calls s)")
    case False
    then show ?thesis using T(2,5) E(1,2) by (simp add: unmap_one.simps os_call_def Let_def range_ok_def)
  next
    case True
    have vn: "add64 v n = v + n" "v + n \<le> U64_MAX" using v(1) by (simp_all add: range_ok_def add64_le)
    have "sub64 v k = v - k" using v(2) vn by (intro sub64_le) simp_all
    moreover have "sub64 (k + me_size e) (v + n) = k + me_size e - (v + n)" "sub64 (v + n) k = v + n - k"
      using v E(2) vn by (simp_all add: sub64_le range_ok_def)
    moreover have "add64 (me_offset e) (v + n - k) = me_offset e + (v + n - k)"
      using v E(3) sz by (intro add64_le) simp
    moreover have "me_size e \<noteq> 0" using E(2) by (simp add: range_ok_def)
    ultimately show ?thesis
      using True T(2) E(1,4) vn(1) part
      by (simp add: unmap_one.simps os_call_def Let_def split_view_def left_part_def right_part_def s1_def cong: if_cong)
  qed
  ultimately show ?thesis by blast
qed

lemma absent_view:
  assumes "A \<inter> viewed m = {}" and "span (me_vaddr p) (me_size p) \<subseteq> A"
  shows "(me_vaddr p, p) \<notin> set m \<or> me_size p = 0"
proof (rule disjCI)
  assume ne: "me_size p \<noteq> 0"
  show "(me_vaddr p, p) \<notin> set m"
  proof
    assume "(me_vaddr p, p) \<in> set m"
    then have "span (me_vaddr p) (me_size p) \<subseteq> viewed m" by (force simp: viewed_set)
    moreover have "span (me_vaddr p) (me_size p) \<noteq> {}" using ne by simp
    ultimately show False using assms by blast
  qed
qed

lemma split_view_spec:
  assumes inv: "bk_inv s" and e: "range_ok (me_vaddr e) (me_size e)" "me_offset e + me_size e \<le> gb_size s"
    and d: "span (me_vaddr e) (me_size e) \<inter> viewed (gb_maps s) = {}"
    and v: "0 < n" "me_vaddr e \<le> v" "v + n \<le> me_vaddr e + me_size e"
  shows "case split_view (Suc fuel) os e (left_part v e) (right_part v n e) s of
      None \<Rightarrow> \<exists>j. \<not> os j
    | Some (b, s') \<Rightarrow>
        if b then now_maps s s' (set (gb_maps s) \<union> entry_of (left_part v e) \<union> entry_of (right_part v n e))
        else now_maps s s' (insert (me_vaddr e, e) (set (gb_maps s))) \<and> (\<exists>j. \<not> os j)"
proof -
  let ?l = "left_part v e" and ?r = "right_part v n e" and ?V = "set (gb_maps s)"
  have L: "me_vaddr ?l = me_vaddr e" "me_size ?l = v - me_vaddr e" "me_offset ?l = me_offset e"
    by (simp_all add: left_part_def)
  have R: "me_vaddr ?r = v + n" "me_size ?r = me_vaddr e + me_size e - (v + n)"
    "me_offset ?r = me_offset e + (v + n - me_vaddr e)"
    by (simp_all add: right_part_def)
  have lsub: "span (me_vaddr ?l) (me_size ?l) \<subseteq> span (me_vaddr e) (me_size e)"
    and rsub: "span (me_vaddr ?r) (me_size ?r) \<subseteq> span (me_vaddr e) (me_size e)"
    and lr: "span (me_vaddr ?l) (me_size ?l) \<inter> span (me_vaddr ?r) (me_size ?r) = {}"
    unfolding L R using v by (auto simp: span_iff)
  have lok: "me_size ?l \<noteq> 0 \<Longrightarrow> range_ok (me_vaddr ?l) (me_size ?l)" and rok: "me_size ?r \<noteq> 0 \<Longrightarrow> range_ok (me_vaddr ?r) (me_size ?r)"
    and off: "me_offset ?l + me_size ?l \<le> gb_size s" "me_offset ?r + me_size ?r \<le> gb_size s"
    unfolding L R using v e by (auto simp: range_ok_def)
  have in_store: "gb_size t = gb_size s" if "now_maps s t W" for t W
    using that by (simp add: now_maps_def same_store_def)
  have fresh: "(me_vaddr ?l, ?l) \<notin> ?V \<or> me_size ?l = 0" "(me_vaddr ?r, ?r) \<notin> ?V \<or> me_size ?r = 0"
    using absent_view [OF d lsub] absent_view [OF d rsub] by blast+
  have ne: "(me_vaddr ?r, ?r) \<noteq> (me_vaddr ?l, ?l)" using v by (simp add: L R)
  have "may_map (me_vaddr ?l) ?l s" using lok off d lsub by (auto simp: may_map_def)
  from optional_map_step [OF inv this, of os] obtain x s2 where s2:
    "(if me_size ?l \<noteq> 0 then gb_map_fixed os (me_vaddr ?l) (me_size ?l) (me_offset ?l) (me_mode ?l) s else Some (FrNone, s)) = Some (x, s2)"
    "now_maps s s2 (if x = FrNone \<and> me_size ?l \<noteq> 0 then insert (me_vaddr ?l, ?l) ?V else ?V)"
    "x \<noteq> FrNone \<longrightarrow> me_size ?l \<noteq> 0 \<and> (\<exists>j. \<not> os j)" by auto
  define lm where "lm \<longleftrightarrow> x = FrNone \<and> me_size ?l \<noteq> 0"
  define V2 where "V2 = (if lm then insert (me_vaddr ?l, ?l) ?V else ?V)"
  have n2: "now_maps s s2 V2" using s2(2) by (simp add: V2_def lm_def)
  then have i2: "bk_inv s2" "set (gb_maps s2) = V2" by (simp_all add: now_maps_def)
  have "may_map (me_vaddr ?r) ?r s2"
    using rok off in_store [OF n2] d rsub lr by (auto simp: may_map_def viewed_set i2(2) V2_def split: if_splits)
  from optional_map_step [OF i2(1) this, of os] obtain y s3 where s3:
    "(if me_size ?r \<noteq> 0 then gb_map_fixed os (me_vaddr ?r) (me_size ?r) (me_offset ?r) (me_mode ?r) s2 else Some (FrNone, s2)) = Some (y, s3)"
    "now_maps s2 s3 (if y = FrNone \<and> me_size ?r \<noteq> 0 then insert (me_vaddr ?r, ?r) V2 else V2)"
    "y \<noteq> FrNone \<longrightarrow> me_size ?r \<noteq> 0 \<and> (\<exists>j. \<not> os j)" unfolding i2(2) by auto
  define rm where "rm \<longleftrightarrow> y = FrNone \<and> me_size ?r \<noteq> 0"
  define V3 where "V3 = (if rm then insert (me_vaddr ?r, ?r) V2 else V2)"
  have n3: "now_maps s s3 V3" using now_maps_trans [OF n2 s3(2)] by (simp add: V3_def rm_def)
  then have i3: "bk_inv s3" "set (gb_maps s3) = V3" by (simp_all add: now_maps_def)
  show ?thesis
  proof (cases "x = FrNone \<and> y = FrNone")
    case True
    then have "split_view (Suc fuel) os e ?l ?r s = Some (True, s3)"
      unfolding split_view_def s2(1) s3(1) Option.bind_lunit prod.case by simp
    moreover have "V3 = ?V \<union> entry_of ?l \<union> entry_of ?r"
      using True by (auto simp: V3_def V2_def lm_def rm_def entry_of_def)
    ultimately show ?thesis using n3 by simp
  next
    case False
    then have fail: "\<exists>j. \<not> os j" using s2(3) s3(3) by blast
    define u where "u = (\<lambda>v n s. if n \<noteq> 0 \<and> gb_contains v n s
      then (case unmap_one (Suc fuel) os v n s of Some (True, s) \<Rightarrow> Some s | _ \<Rightarrow> None) else Some s)"
    have eq: "split_view (Suc fuel) os e ?l ?r s = do { s \<leftarrow> u (me_vaddr ?l) (me_size ?l) s3; s \<leftarrow> u (me_vaddr ?r) (me_size ?r) s;
       (m, s) \<leftarrow> gb_map_fixed os (me_vaddr e) (me_size e) (me_offset e) (me_mode e) s;
       if m \<noteq> FrNone then None else Some (False, s) }"
      unfolding split_view_def s2(1) s3(1) u_def Option.bind_lunit prod.case if_not_P [OF False] by (rule refl)
    have "\<not> lm \<Longrightarrow> me_size ?l \<noteq> 0 \<Longrightarrow> span (me_vaddr ?l) (me_size ?l) \<inter> viewed (gb_maps s3) = {}"
      using d lsub lr by (auto simp: viewed_set i3(2) V3_def V2_def)
    then have U4: "case u (me_vaddr ?l) (me_size ?l) s3 of None \<Rightarrow> \<exists>j. \<not> os j
      | Some s' \<Rightarrow> now_maps s3 s' (if lm then V3 - {(me_vaddr ?l, ?l)} else V3)"
      unfolding u_def i3(2) [symmetric]
      by (intro optional_unmap_step [OF i3(1) lok]) (auto simp: i3(2) V3_def V2_def lm_def)
    show ?thesis
    proof (cases "u (me_vaddr ?l) (me_size ?l) s3")
      case None
      then show ?thesis using eq fail by simp
    next
      case (Some s4)
      define V4 where "V4 = (if rm then insert (me_vaddr ?r, ?r) ?V else ?V)"
      have "(if lm then V3 - {(me_vaddr ?l, ?l)} else V3) = V4"
        using fresh ne by (auto simp: V4_def V3_def V2_def lm_def)
      then have n34: "now_maps s3 s4 V4" using U4 Some by simp
      then have i4: "bk_inv s4" "set (gb_maps s4) = V4" by (simp_all add: now_maps_def)
      have "\<not> rm \<Longrightarrow> me_size ?r \<noteq> 0 \<Longrightarrow> span (me_vaddr ?r) (me_size ?r) \<inter> viewed (gb_maps s4) = {}"
        using d rsub by (auto simp: viewed_set i4(2) V4_def)
      then have U5: "case u (me_vaddr ?r) (me_size ?r) s4 of None \<Rightarrow> \<exists>j. \<not> os j
        | Some s' \<Rightarrow> now_maps s4 s' (if rm then V4 - {(me_vaddr ?r, ?r)} else V4)"
        unfolding u_def i4(2) [symmetric]
        by (intro optional_unmap_step [OF i4(1) rok]) (auto simp: i4(2) V4_def rm_def)
      show ?thesis
      proof (cases "u (me_vaddr ?r) (me_size ?r) s4")
        case None
        then show ?thesis using eq fail Some by simp
      next
        case (Some s5)
        have "(if rm then V4 - {(me_vaddr ?r, ?r)} else V4) = ?V"
          using fresh by (auto simp: V4_def rm_def)
        then have "now_maps s4 s5 ?V" using U5 Some by simp
        then have n5: "now_maps s s5 ?V" using n3 n34 by (blast intro: now_maps_trans)
        then have i5: "bk_inv s5" "set (gb_maps s5) = ?V" by (simp_all add: now_maps_def)
        have "span (me_vaddr e) (me_size e) \<inter> viewed (gb_maps s5) = {}" using d by (simp add: viewed_set i5(2))
        moreover have "e = \<lparr>me_vaddr = me_vaddr e, me_size = me_size e, me_offset = me_offset e, me_mode = me_mode e\<rparr>" by simp
        moreover have "me_offset e + me_size e \<le> gb_size s5" using e(2) in_store [OF n5] by simp
        ultimately obtain m s6 where s6: "gb_map_fixed os (me_vaddr e) (me_size e) (me_offset e) (me_mode e) s5 = Some (m, s6)"
          "m = FrNone \<Longrightarrow> now_maps s5 s6 (insert (me_vaddr e, e) ?V)"
          using gb_map_fixed_step [OF i5(1) e(1)] unfolding i5(2) by meson
        show ?thesis
        proof (cases "m = FrNone")
          case True
          then have "now_maps s s6 (insert (me_vaddr e, e) ?V)" using s6(2) n5 by (blast intro: now_maps_trans)
          then show ?thesis using eq fail Some \<open>u (me_vaddr ?l) (me_size ?l) s3 = Some s4\<close> s6(1) True by simp
        next
          case F: False
          then show ?thesis using eq fail Some \<open>u (me_vaddr ?l) (me_size ?l) s3 = Some s4\<close> s6(1) by simp
        qed
      qed
    qed
  qed
qed

lemma unmap_one_spec:
  assumes inv: "bk_inv s" and k: "(k, e) \<in> set (gb_maps s)" and v: "range_ok v n" "k \<le> v" "v + n \<le> k + me_size e"
  shows "case unmap_one 2 os v n s of
      None \<Rightarrow> \<exists>j. \<not> os j
    | Some (b, s') \<Rightarrow>
        if b then now_maps s s' (set (gb_maps s) - {(k, e)} \<union> entry_of (left_part v e) \<union> entry_of (right_part v n e))
        else now_maps s s' (set (gb_maps s)) \<and> (\<exists>j. \<not> os j)"
proof -
  have ok: "maps_ok (gb_size s) (gb_maps s)" and t: "tiled fst me_sz (gb_maps s)"
    using inv by (auto simp: bk_inv_def maps_ok_def)
  note E = maps_okD [OF ok k]
  show ?thesis
  proof (cases "v = k \<and> n = me_size e")
    case True
    have "entry_of (left_part v e) = {}" "entry_of (right_part v n e) = {}"
      using True E(1) by (simp_all add: entry_of_def left_part_def right_part_def)
    moreover from unmap_one_exact [OF inv k, of "Suc 0" os] obtain b s' where
      "unmap_one (Suc (Suc 0)) os k (me_size e) s = Some (b, s')"
      "if b then now_maps s s' (set (gb_maps s) - {(k, e)}) else now_maps s s' (set (gb_maps s)) \<and> (\<exists>j. \<not> os j)"
      by blast
    ultimately show ?thesis using True by (simp add: numeral_2_eq_2)
  next
    case False
    from unmap_one_split [OF inv k v False, of "Suc 0" os] obtain s1 where s1:
      "now_maps s s1 (set (gb_maps s) - {(k, e)})"
      "unmap_one 2 os v n s = (if os (gb_calls s) then split_view (Suc 0) os e (left_part v e) (right_part v n e) s1
         else Some (False, at_maps s (gb_maps s) (Suc (gb_calls s))))" by (auto simp: numeral_2_eq_2)
    have V1: "set (gb_maps s1) = set (gb_maps s) - {(k, e)}" "bk_inv s1" "gb_size s1 = gb_size s"
      using s1(1) by (simp_all add: now_maps_def same_store_def)
    show ?thesis
    proof (cases "os (gb_calls s)")
      case F: False
      then show ?thesis using s1(2) inv by (auto simp: now_maps_def bk_inv_def)
    next
      case T: True
      have "span (me_vaddr e) (me_size e) \<inter> viewed (gb_maps s1) = {}"
      proof -
        have "False" if "a \<in> span k (me_size e)" "(q, x) \<in> set (gb_maps s) - {(k, e)}" "a \<in> span q (me_size x)" for a q x
          using tiled_unique [OF t, of "(q, x)" "(k, e)" a] k that by auto
        then show ?thesis unfolding E(1) viewed_set V1(1) by (metis (no_types, lifting) UN_E disjoint_iff prod.collapse)
      qed
      moreover have "range_ok (me_vaddr e) (me_size e)" "me_offset e + me_size e \<le> gb_size s1" "0 < n" "me_vaddr e \<le> v"
        "v + n \<le> me_vaddr e + me_size e" using E(1,2,3) v V1(3) by (simp_all add: range_ok_def)
      ultimately have S: "case split_view (Suc 0) os e (left_part v e) (right_part v n e) s1 of
          None \<Rightarrow> \<exists>j. \<not> os j
        | Some (b, s') \<Rightarrow>
            if b then now_maps s1 s' (set (gb_maps s1) \<union> entry_of (left_part v e) \<union> entry_of (right_part v n e))
            else now_maps s1 s' (insert (k, e) (set (gb_maps s1))) \<and> (\<exists>j. \<not> os j)"
        using split_view_spec [OF V1(2), where e = e and n = n and v = v and os = os and fuel = "0"] unfolding E(1) by blast
      have again: "insert (k, e) (set (gb_maps s) - {(k, e)}) = set (gb_maps s)" using k by auto
      show ?thesis
      proof (cases "split_view (Suc 0) os e (left_part v e) (right_part v n e) s1")
        case None
        then show ?thesis using S s1(2) T by simp
      next
        case (Some r)
        obtain b s' where r: "r = (b, s')" by fastforce
        show ?thesis
          using S Some r s1(2) T now_maps_trans [OF s1(1), of s'] unfolding V1(1) again by (auto split: if_splits)
      qed
    qed
  qed
qed

lemma views_eq: "views s = (\<Union>p \<in> set (gb_maps s). me_pts (snd p))"
  by (simp add: views_def view_pts_set)

lemma split_pts:
  assumes "me_vaddr e \<le> v" and "v + n \<le> me_vaddr e + me_size e"
  shows "(\<Union>p \<in> entry_of (left_part v e) \<union> entry_of (right_part v n e). me_pts (snd p)) =
    {x \<in> me_pts e. fst x \<notin> span v n}"
proof -
  have pts: "(\<Union>p \<in> entry_of x. me_pts (snd p)) = me_pts x" for x
    by (auto simp: entry_of_def me_pts_def)
  have left_of: "left_part v e = \<lparr>me_vaddr = me_vaddr e, me_size = v - me_vaddr e, me_offset = me_offset e, me_mode = me_mode e\<rparr>"
    by (cases e) (simp add: left_part_def)
  have right_of: "right_part v n e = \<lparr>me_vaddr = v + n, me_size = me_vaddr e + me_size e - (v + n),
      me_offset = me_offset e + (v + n - me_vaddr e), me_mode = me_mode e\<rparr>"
    by (cases e) (simp add: right_part_def)
  have "me_pts (left_part v e) = {x \<in> me_pts e. fst x \<in> span (me_vaddr e) (v - me_vaddr e)}"
    using piece_me_pts [of e "me_vaddr e" "v - me_vaddr e"] assms by (simp add: left_of)
  moreover have "me_pts (right_part v n e) = {x \<in> me_pts e. fst x \<in> span (v + n) (me_vaddr e + me_size e - (v + n))}"
    using piece_me_pts [of e "v + n" "me_vaddr e + me_size e - (v + n)"] assms by (simp add: right_of)
  ultimately show ?thesis
    using assms by (auto simp: pts UN_Un span_iff dest: me_ptsD)
qed

text \<open>In terms of what the guest sees: unmapping a range inside a view.\<close>

definition shows_views :: "backing \<Rightarrow> backing \<Rightarrow> (nat \<times> nat \<times> vm_mode) set \<Rightarrow> bool" where
  "shows_views s s' V \<longleftrightarrow> bk_inv s' \<and> same_store s s' \<and> views s' = V"

lemma shows_views_trans: "shows_views s s' V \<Longrightarrow> shows_views s' s'' V' \<Longrightarrow> shows_views s s'' V'"
  by (auto simp: shows_views_def same_store_def)

lemma unmap_one_views:
  assumes inv: "bk_inv s" and v: "range_ok v n"
    and q: "q \<in> set (gb_maps s)" "fst q \<le> v" "v + n \<le> fst q + me_sz q"
  shows "case unmap_one 2 os v n s of
      None \<Rightarrow> \<exists>j. \<not> os j
    | Some (b, s') \<Rightarrow>
        if b then shows_views s s' {x \<in> views s. fst x \<notin> span v n} \<and>
          (\<forall>c m. c + m \<le> v \<or> v + n \<le> c \<longrightarrow> 0 < m \<longrightarrow> (\<exists>p \<in> set (gb_maps s). fst p \<le> c \<and> c + m \<le> fst p + me_sz p) \<longrightarrow>
            (\<exists>p \<in> set (gb_maps s'). fst p \<le> c \<and> c + m \<le> fst p + me_sz p))
        else shows_views s s' (views s) \<and> (\<exists>j. \<not> os j)"
proof -
  obtain k e where ke: "q = (k, e)" by fastforce
  have ok: "maps_ok (gb_size s) (gb_maps s)" and t: "tiled fst me_sz (gb_maps s)"
    using inv by (auto simp: bk_inv_def maps_ok_def)
  have k: "(k, e) \<in> set (gb_maps s)" "k \<le> v" "v + n \<le> k + me_size e" using q ke by auto
  note E = maps_okD [OF ok k(1)]
  note U = unmap_one_spec [OF inv k(1) v k(2,3), of os]
  show ?thesis
  proof (cases "unmap_one 2 os v n s")
    case None
    then show ?thesis using U by simp
  next
    case (Some r)
    obtain b s' where r: "r = (b, s')" by fastforce
    show ?thesis
    proof (cases b)
      case False
      then show ?thesis using U Some r by (simp add: now_maps_def shows_views_def views_eq)
    next
      case True
      let ?P = "entry_of (left_part v e) \<union> entry_of (right_part v n e)"
      have n: "now_maps s s' (set (gb_maps s) - {(k, e)} \<union> ?P)" using U Some r True by (simp add: Un_assoc)
      then have maps: "set (gb_maps s') = set (gb_maps s) - {(k, e)} \<union> ?P" by (simp add: now_maps_def)
      have others: "(\<Union>p \<in> set (gb_maps s) - {(k, e)}. me_pts (snd p)) =
          {x \<in> (\<Union>p \<in> set (gb_maps s) - {(k, e)}. me_pts (snd p)). fst x \<notin> span v n}"
      proof -
        have "fst x \<notin> span v n" if "p \<in> set (gb_maps s)" "p \<noteq> (k, e)" "x \<in> me_pts (snd p)" for p x
        proof
          assume "fst x \<in> span v n"
          then have "fst x \<in> span k (me_size e)" using k by (auto simp: span_iff)
          moreover have "fst x \<in> span (fst p) (me_sz p)"
            using me_ptsD [OF that(3)] maps_okD(1) [OF ok, of "fst p" "snd p"] that(1) by (simp add: span_iff)
          ultimately show False using tiled_unique [OF t that(1) k(1), of "fst x"] that(2) by simp
        qed
        then show ?thesis by blast
      qed
      have "views s' = (\<Union>p \<in> set (gb_maps s) - {(k, e)}. me_pts (snd p)) \<union> {x \<in> me_pts e. fst x \<notin> span v n}"
        unfolding views_eq maps UN_Un using split_pts [of e v n] E(1) k by (simp add: UN_Un)
      also have "\<dots> = {x \<in> (\<Union>p \<in> insert (k, e) (set (gb_maps s) - {(k, e)}). me_pts (snd p)). fst x \<notin> span v n}"
        using others by auto
      also have "insert (k, e) (set (gb_maps s) - {(k, e)}) = set (gb_maps s)" using k(1) by auto
      finally have V: "views s' = {x \<in> views s. fst x \<notin> span v n}" by (simp only: views_eq)
      have "\<exists>p \<in> set (gb_maps s'). fst p \<le> c \<and> c + m \<le> fst p + me_sz p"
        if c: "c + m \<le> v \<or> v + n \<le> c" "0 < m" and p: "p \<in> set (gb_maps s)" "fst p \<le> c" "c + m \<le> fst p + me_sz p" for c m p
      proof (cases "p = (k, e)")
        case False
        then show ?thesis using p maps by auto
      next
        case True
        from c(1) show ?thesis
        proof
          assume "c + m \<le> v"
          then have "(k, left_part v e) \<in> set (gb_maps s')" using True p c(2) maps E(1) by (simp add: entry_of_def left_part_def)
          then show ?thesis using \<open>c + m \<le> v\<close> True p E(1) k by (intro bexI [of _ "(k, left_part v e)"]) (simp_all add: left_part_def)
        next
          assume "v + n \<le> c"
          then have "(v + n, right_part v n e) \<in> set (gb_maps s')"
            using True p c(2) maps E(1) by (simp add: entry_of_def right_part_def)
          then show ?thesis
            using \<open>v + n \<le> c\<close> True p E(1) k
            by (intro bexI [of _ "(v + n, right_part v n e)"]) (simp_all add: right_part_def)
        qed
      qed
      then show ?thesis using Some r True n V by (auto simp: now_maps_def shows_views_def)
    qed
  qed
qed

lemma remap_all_spec:
  assumes "bk_inv s" and "\<And>p. p \<in> set ps \<Longrightarrow> range_ok (me_vaddr p) (me_size p) \<and> me_offset p + me_size p \<le> gb_size s"
    and "owned me_vaddr me_size ps \<inter> fst ` views s = {}" and "sorted_wrt (\<lambda>p q. me_vaddr q + me_size q \<le> me_vaddr p) ps"
  shows "case remap_all os ps s of
      None \<Rightarrow> \<exists>j. \<not> os j
    | Some s' \<Rightarrow> shows_views s s' (views s \<union> (\<Union>p \<in> set ps. me_pts p))"
  using assms
proof (induction ps arbitrary: s)
  case Nil
  then show ?case by (simp add: shows_views_def)
next
  case (Cons p ps)
  have ok: "maps_ok (gb_size s) (gb_maps s)" using Cons.prems(1) by (simp add: bk_inv_def)
  have p: "range_ok (me_vaddr p) (me_size p)" "me_offset p + me_size p \<le> gb_size s" using Cons.prems(2) by auto
  have d: "span (me_vaddr p) (me_size p) \<inter> viewed (gb_maps s) = {}"
    using Cons.prems(3) fst_view_pts [OF ok] by (auto simp: views_def)
  have p_eq: "p = \<lparr>me_vaddr = me_vaddr p, me_size = me_size p, me_offset = me_offset p, me_mode = me_mode p\<rparr>" by simp
  from gb_map_fixed_step [OF Cons.prems(1) p d p_eq, of os] obtain r s1 where s1:
    "gb_map_fixed os (me_vaddr p) (me_size p) (me_offset p) (me_mode p) s = Some (r, s1)"
    "if r = FrNone then now_maps s s1 (insert (me_vaddr p, p) (set (gb_maps s))) else \<exists>j. \<not> os j"
    by (metis (full_types))
  show ?case
  proof (cases "r = FrNone")
    case False
    then show ?thesis using s1 by simp
  next
    case True
    then have n1: "shows_views s s1 (views s \<union> me_pts p)" using s1(2) by (auto simp: now_maps_def shows_views_def views_eq)
    then have s1': "bk_inv s1" "views s1 = views s \<union> me_pts p" "gb_size s1 = gb_size s"
      by (simp_all add: shows_views_def same_store_def)
    have "owned me_vaddr me_size ps \<inter> fst ` views s1 = {}"
    proof -
      have "owned me_vaddr me_size ps \<inter> span (me_vaddr p) (me_size p) = {}"
        using Cons.prems(4) by (fastforce simp: owned_iff span_iff)
      then show ?thesis using Cons.prems(3) by (auto simp: s1'(2) image_Un fst_me_pts)
    qed
    then have IH: "case remap_all os ps s1 of None \<Rightarrow> \<exists>j. \<not> os j
      | Some s' \<Rightarrow> shows_views s1 s' (views s1 \<union> (\<Union>p \<in> set ps. me_pts p))"
      using Cons.IH [OF s1'(1)] Cons.prems(2,4) s1'(3) by auto
    show ?thesis
    proof (cases "remap_all os ps s1")
      case None
      then show ?thesis using IH s1(1) True by simp
    next
      case (Some s')
      then have "shows_views s s' (views s1 \<union> (\<Union>p \<in> set ps. me_pts p))" using IH n1 by (auto intro: shows_views_trans)
      then show ?thesis using Some s1(1) True s1'(2) by (simp add: Un_assoc)
    qed
  qed
qed

lemma chain_rev_sorted:
  "chain st sz c ps e \<Longrightarrow> e \<le> U64_MAX \<Longrightarrow> sorted_wrt (\<lambda>p q. st q + sz q \<le> st p) (rev ps)"
proof (induction ps arbitrary: c)
  case (Cons p ps)
  then have c: "st p = c" "chain st sz (c + sz p) ps e" by auto
  then have "\<forall>q \<in> set ps. c + sz p \<le> st q" using chain_tiled [OF c(2)] Cons.prems(2) by blast
  then show ?case using Cons.IH [OF c(2)] Cons.prems(2) c(1) by (simp add: sorted_wrt_append)
qed simp

definition unmaps_progress :: "backing \<Rightarrow> u64 \<Rightarrow> u64 \<Rightarrow> u64 \<Rightarrow> mentry list \<Rightarrow> mentry list \<Rightarrow> backing \<Rightarrow> bool" where
  "unmaps_progress s0 va c e removed ps s \<longleftrightarrow> e \<le> U64_MAX \<and> gb_size s0 \<le> U64_MAX \<and>
     shows_views s0 s {x \<in> views s0. fst x \<notin> {va..<c}} \<and>
     chain me_vaddr me_size va (rev removed) c \<and> chain me_vaddr me_size c ps e \<and>
     (\<Union>p \<in> set removed. me_pts p) = {x \<in> views s0. fst x \<in> {va..<c}} \<and>
     (\<Union>p \<in> set ps. me_pts p) = {x \<in> views s0. fst x \<in> {c..<e}} \<and>
     (\<forall>p \<in> set removed \<union> set ps. me_offset p + me_size p \<le> gb_size s0) \<and>
     (\<forall>p \<in> set ps. \<exists>q \<in> set (gb_maps s). fst q \<le> me_vaddr p \<and> me_vaddr p + me_size p \<le> fst q + me_sz q)"

lemma rollback_spec:
  assumes P: "unmaps_progress s0 va c e removed ps s1" and s: "shows_views s1 s (views s1)"
  shows "case remap_all os removed s of None \<Rightarrow> \<exists>j. \<not> os j | Some s' \<Rightarrow> shows_views s0 s' (views s0)"
proof -
  have C: "chain me_vaddr me_size va (rev removed) c" and e: "e \<le> U64_MAX" "chain me_vaddr me_size c ps e"
    and s1: "shows_views s0 s1 {x \<in> views s0. fst x \<notin> {va..<c}}"
    and pts: "(\<Union>p \<in> set removed. me_pts p) = {x \<in> views s0. fst x \<in> {va..<c}}"
    and off: "\<forall>p \<in> set removed. me_offset p + me_size p \<le> gb_size s0"
    using P by (auto simp: unmaps_progress_def)
  have c: "c \<le> U64_MAX" using chain_le [OF e(2)] e(1) by simp
  have n: "shows_views s0 s {x \<in> views s0. fst x \<notin> {va..<c}}"
    using shows_views_trans [OF s1 s] s1 by (simp add: shows_views_def)
  then have s': "bk_inv s" "gb_size s = gb_size s0" "views s = {x \<in> views s0. fst x \<notin> {va..<c}}"
    by (auto simp: shows_views_def same_store_def)
  have ok: "range_ok (me_vaddr p) (me_size p) \<and> me_offset p + me_size p \<le> gb_size s" if "p \<in> set removed" for p
    using chain_tiled [OF C c] off that s'(2) tiled_range [of me_vaddr me_size "rev removed" p] by simp
  have "owned me_vaddr me_size removed = {va..<c}"
    using chain_owned [OF C] by (simp add: owned_def cover_def)
  then have "owned me_vaddr me_size removed \<inter> fst ` views s = {}" by (auto simp: s'(3))
  moreover have "sorted_wrt (\<lambda>p q. me_vaddr q + me_size q \<le> me_vaddr p) removed"
    using chain_rev_sorted [OF C c] by simp
  ultimately have "case remap_all os removed s of None \<Rightarrow> \<exists>j. \<not> os j
    | Some s'' \<Rightarrow> shows_views s s'' (views s \<union> (\<Union>p \<in> set removed. me_pts p))"
    using remap_all_spec [OF s'(1) ok] by blast
  moreover have "views s \<union> (\<Union>p \<in> set removed. me_pts p) = views s0" unfolding pts s'(3) by blast
  ultimately show ?thesis using n by (auto intro: shows_views_trans split: option.splits)
qed

lemma unmap_parts_spec:
  assumes "unmaps_progress s0 va c e removed ps s"
  shows "case unmap_parts os removed ps s of
      None \<Rightarrow> \<exists>j. \<not> os j
    | Some (b, s') \<Rightarrow>
        if b then shows_views s0 s' {x \<in> views s0. fst x \<notin> {va..<e}}
        else shows_views s0 s' (views s0) \<and> (\<exists>j. \<not> os j)"
  using assms
proof (induction ps arbitrary: removed c s)
  case Nil
  then show ?case by (auto simp: unmaps_progress_def)
next
  case (Cons p ps)
  note P = Cons.prems
  have s: "shows_views s0 s {x \<in> views s0. fst x \<notin> {va..<c}}" and e: "e \<le> U64_MAX"
    and C: "chain me_vaddr me_size va (rev removed) c" "me_vaddr p = c" "0 < me_size p" "chain me_vaddr me_size (c + me_size p) ps e"
    and pts: "(\<Union>p \<in> set removed. me_pts p) = {x \<in> views s0. fst x \<in> {va..<c}}"
      "(\<Union>p \<in> set (p # ps). me_pts p) = {x \<in> views s0. fst x \<in> {c..<e}}"
    using P by (auto simp: unmaps_progress_def)
  have inv: "bk_inv s" using s by (simp add: shows_views_def)
  have d: "c + me_size p \<le> e" using chain_le [OF C(4)] .
  have v: "range_ok (me_vaddr p) (me_size p)" using C d e by (simp add: range_ok_def)
  obtain q where q: "q \<in> set (gb_maps s)" "fst q \<le> me_vaddr p" "me_vaddr p + me_size p \<le> fst q + me_sz q"
    using P by (auto simp: unmaps_progress_def)
  note U = unmap_one_views [OF inv v q, of os]
  show ?case
  proof (cases "unmap_one 2 os (me_vaddr p) (me_size p) s")
    case None
    then show ?thesis using U by simp
  next
    case (Some r)
    obtain b s1 where r: "r = (b, s1)" by fastforce
    show ?thesis
    proof (cases b)
      case False
      then have "shows_views s s1 (views s)" "\<exists>j. \<not> os j" using U Some r by auto
      with rollback_spec [OF P this(1), of os] show ?thesis using Some r False by (auto split: option.splits)
    next
      case True
      then have u: "shows_views s s1 {x \<in> views s. fst x \<notin> span c (me_size p)}"
        "\<And>c' m. c' + m \<le> c \<or> c + me_size p \<le> c' \<Longrightarrow> 0 < m \<Longrightarrow>
           (\<exists>p \<in> set (gb_maps s). fst p \<le> c' \<and> c' + m \<le> fst p + me_sz p) \<Longrightarrow>
           (\<exists>p \<in> set (gb_maps s1). fst p \<le> c' \<and> c' + m \<le> fst p + me_sz p)"
        using U Some r C(2) by auto
      let ?d = "c + me_size p"
      have va: "va \<le> c" using chain_le [OF C(1)] .
      have vs: "views s = {x \<in> views s0. fst x \<notin> {va..<c}}" using s by (simp add: shows_views_def)
      have "{x \<in> views s. fst x \<notin> span c (me_size p)} = {x \<in> views s0. fst x \<notin> {va..<?d}}"
        unfolding vs by (rule Collect_cong) (use va in \<open>auto simp: span_iff\<close>)
      then have s1: "shows_views s0 s1 {x \<in> views s0. fst x \<notin> {va..<?d}}"
        using shows_views_trans [OF s u(1)] by simp
      have low: "c \<le> fst x \<and> fst x < ?d" if "x \<in> me_pts p" for x using me_ptsD [OF that] C(2) by simp
      have high: "?d \<le> fst x" if "x \<in> me_pts p'" "p' \<in> set ps" for x p'
        using me_ptsD [OF that(1)] chain_tiled [OF C(4) e] that(2) by force
      have pp: "me_pts p = {x \<in> views s0. fst x \<in> {c..<?d}}"
      proof
        show "me_pts p \<subseteq> {x \<in> views s0. fst x \<in> {c..<?d}}" using pts(2) low by fastforce
        show "{x \<in> views s0. fst x \<in> {c..<?d}} \<subseteq> me_pts p"
        proof
          fix x assume x: "x \<in> {x \<in> views s0. fst x \<in> {c..<?d}}"
          then have "x \<in> (\<Union>p \<in> set (p # ps). me_pts p)" unfolding pts(2) using d by auto
          then show "x \<in> me_pts p" using high x by fastforce
        qed
      qed
      have rest: "(\<Union>p \<in> set ps. me_pts p) = {x \<in> views s0. fst x \<in> {?d..<e}}"
      proof
        show "(\<Union>p \<in> set ps. me_pts p) \<subseteq> {x \<in> views s0. fst x \<in> {?d..<e}}"
          using pts(2) high by fastforce
        show "{x \<in> views s0. fst x \<in> {?d..<e}} \<subseteq> (\<Union>p \<in> set ps. me_pts p)"
        proof
          fix x assume x: "x \<in> {x \<in> views s0. fst x \<in> {?d..<e}}"
          then have "x \<in> (\<Union>p \<in> set (p # ps). me_pts p)" unfolding pts(2) by auto
          then show "x \<in> (\<Union>p \<in> set ps. me_pts p)" using low x by fastforce
        qed
      qed
      have gone: "(\<Union>p \<in> set (p # removed). me_pts p) = {x \<in> views s0. fst x \<in> {va..<?d}}"
        using pts(1) pp va by auto
      have within: "\<exists>q \<in> set (gb_maps s1). fst q \<le> me_vaddr p' \<and> me_vaddr p' + me_size p' \<le> fst q + me_sz q"
        if p': "p' \<in> set ps" for p'
      proof (rule u(2))
        show "me_vaddr p' + me_size p' \<le> c \<or> ?d \<le> me_vaddr p'" using chain_tiled [OF C(4) e] p' by auto
        show "0 < me_size p'" using chain_tiled [OF C(4) e] tiled_size_pos [OF _ p'] by blast
        show "\<exists>q \<in> set (gb_maps s). fst q \<le> me_vaddr p' \<and> me_vaddr p' + me_size p' \<le> fst q + me_sz q"
          using P p' by (auto simp: unmaps_progress_def)
      qed
      have "chain me_vaddr me_size va (rev (p # removed)) ?d" using C by (auto simp: chain_append)
      then have "unmaps_progress s0 va ?d e (p # removed) ps s1"
        using P s1 C(4) rest gone within unfolding unmaps_progress_def by auto
      from Cons.IH [OF this] show ?thesis using Some r True by simp
    qed
  qed
qed

text \<open>\<open>Unmap\<close> of a range all of which is mapped, and of others.\<close>

lemma gb_unmap_spec:
  assumes inv: "bk_inv s" and r: "range_ok va n"
  shows "if span va n \<subseteq> viewed (gb_maps s)
    then case gb_unmap os va n s of
        None \<Rightarrow> \<exists>j. \<not> os j
      | Some (b, s') \<Rightarrow> if b then shows_views s s' {x \<in> views s. fst x \<notin> span va n} else shows_views s s' (views s) \<and> (\<exists>j. \<not> os j)
    else gb_unmap os va n s = Some (False, s)"
proof -
  have ok: "maps_ok (gb_size s) (gb_maps s)" and sz: "gb_size s \<le> U64_MAX" using inv by (auto simp: bk_inv_def)
  have guard: "\<not> (n = 0 \<or> U64_MAX - va < n)" and le: "va + n \<le> U64_MAX" using r by (auto simp: range_ok_def)
  note W = parts_walk_correct [OF ok sz le le_add1]
  show ?thesis
  proof (cases "parts_walk va (va + n) (gb_maps s)")
    case None
    then show ?thesis using W guard by (simp add: gb_unmap_def span_def)
  next
    case (Some ps)
    then have "unmaps_progress s va va (va + n) [] ps s"
      using W inv sz le by (auto simp: unmaps_progress_def shows_views_def views_def)
    note U = unmap_parts_spec [OF this, of os]
    have eq: "gb_unmap os va n s = unmap_parts os [] ps s" using guard Some by (simp add: gb_unmap_def)
    have "{va..<va + n} \<subseteq> viewed (gb_maps s)" using W Some by simp
    with U show ?thesis unfolding span_def eq by (simp only: if_True)
  qed
qed

text \<open>C9: \<open>GuestBackingStore::Unmap\<close> is transactional under every pattern of host failures. If it returns
  true the whole range was mapped and exactly its addresses lose their views; if it returns false every
  view is as before, and either part of the range was unmapped memory (or the range is not a valid one)
  or a host call failed; and the process stops only when a host call has failed. File contents never change.\<close>

theorem gb_unmap_transactional:
  assumes inv: "bk_inv s" and va: "va \<le> U64_MAX"
  shows "case gb_unmap os va n s of
      None \<Rightarrow> \<exists>j. \<not> os j
    | Some (b, s') \<Rightarrow> bk_inv s' \<and> gb_bytes s' = gb_bytes s \<and> gb_size s' = gb_size s \<and>
        (if b then range_ok va n \<and> span va n \<subseteq> fst ` views s \<and> views s' = {x \<in> views s. fst x \<notin> span va n}
         else views s' = views s \<and> (\<not> range_ok va n \<or> \<not> span va n \<subseteq> fst ` views s \<or> (\<exists>j. \<not> os j)))"
proof (cases "range_ok va n")
  case False
  then have "gb_unmap os va n s = Some (False, s)" using va by (auto simp: gb_unmap_def range_ok_def)
  then show ?thesis using False inv by simp
next
  case True
  have seen: "viewed (gb_maps s) = fst ` views s" using fst_view_pts [of "gb_size s" "gb_maps s"] inv by (simp add: views_def bk_inv_def)
  note U = gb_unmap_spec [OF inv True, of os, unfolded seen]
  show ?thesis
  proof (cases "span va n \<subseteq> fst ` views s")
    case False
    then show ?thesis using U inv by simp
  next
    case sub: True
    show ?thesis
    proof (cases "gb_unmap os va n s")
      case None
      then show ?thesis using U sub by simp
    next
      case (Some r)
      obtain b s' where r: "r = (b, s')" by fastforce
      show ?thesis using U unfolding Some r if_P [OF sub] option.case prod.case
        by (cases b) (simp_all only: shows_views_def same_store_def True sub if_True if_False simp_thms)
    qed
  qed
qed

subsection \<open>Reads that skip unmapped memory\<close>

lemma sparse_from_filter:
  assumes ok: "maps_ok sz m"
  shows "sparse_from va m = filter (\<lambda>p. va < fst p + me_sz p) m"
proof -
  have t: "tiled fst me_sz m" using ok by (simp add: maps_ok_def)
  obtain bs fs where lb: "lower_bound va m = (bs, fs)" by fastforce
  have m: "m = bs @ fs" and B: "\<forall>p \<in> set bs. fst p < va" and F: "\<forall>q \<in> set fs. va \<le> fst q"
    using lower_boundD [OF lb tiled_omap_wf [OF t]] by auto
  have t': "tiled fst me_sz bs" "tiled fst me_sz fs" using t by (simp_all add: m)
  have "0 < me_sz q" if "q \<in> set fs" for q using tiled_size_pos [OF t'(2) that] .
  then have "filter (\<lambda>p. va < fst p + me_sz p) fs = fs" using F by (fastforce simp: filter_id_conv)
  moreover have "filter (\<lambda>p. va < fst p + me_sz p) bs = (if bs \<noteq> [] \<and> va < fst (last bs) + me_sz (last bs) then [last bs] else [])"
  proof (cases bs rule: rev_cases)
    case (snoc xs x)
    have "fst p + me_sz p \<le> fst x" if "p \<in> set xs" for p using t'(1) that by (simp add: snoc)
    moreover have "fst x < va" using B snoc by simp
    ultimately have "filter (\<lambda>p. va < fst p + me_sz p) xs = []" by (fastforce simp: filter_empty_conv)
    then show ?thesis by (simp add: snoc)
  qed simp
  moreover have "me_end (snd (last bs)) = fst (last bs) + me_sz (last bs)" if "bs \<noteq> []"
    using maps_okD(4) [OF ok, of "fst (last bs)" "snd (last bs)"] that by (simp add: m)
  moreover have "sparse_from va m = (if bs \<noteq> [] \<and> me_end (snd (last bs)) > va then last bs # fs else fs)"
    by (simp add: sparse_from_def lb Let_def)
  ultimately show ?thesis by (cases "bs = []") (simp_all add: m)
qed

lemma sparse_parts_spec:
  assumes ok: "maps_ok sz m" and sz: "sz \<le> U64_MAX" and n: "0 < n" and le: "va + n \<le> U64_MAX" and p: "p \<in> set (sparse_parts va (va + n) m)"
  shows "va \<le> me_vaddr p" and "me_vaddr p + me_size p \<le> va + n" and "0 < me_size p" and "me_offset p + me_size p \<le> sz"
    and "me_pts p \<subseteq> view_pts m"
proof -
  from p obtain k e where ke: "(k, e) \<in> set m" "va < k + me_size e" "me_vaddr e < va + n"
    and P: "p = \<lparr>me_vaddr = max va (me_vaddr e), me_size = sub64 (min (va + n) (me_end e)) (max va (me_vaddr e)),
        me_offset = sub64 (add64 (me_offset e) (max va (me_vaddr e))) (me_vaddr e), me_mode = me_mode e\<rparr>"
    unfolding sparse_parts_def sparse_from_filter [OF ok] by (auto simp: Let_def dest!: set_takeWhileD)
  note E = maps_okD [OF ok ke(1)]
  have v: "k < va + n" "0 < me_size e" "k + me_size e \<le> U64_MAX" using ke(3) E(1,2) by (auto simp: range_ok_def)
  have len: "sub64 (min (va + n) (k + me_size e)) (max va k) = min (va + n) (k + me_size e) - max va k"
    using v ke(2) le by (intro sub64_le) auto
  have off: "sub64 (add64 (me_offset e) (max va k)) k = me_offset e + (max va k - k)"
  proof (rule sub64_add64)
    have "max va k - k \<le> me_size e" using ke(2) by simp
    then show "me_offset e + (max va k - k) \<le> U64_MAX" using E(3) sz by linarith
    show "k \<le> U64_MAX" using v by simp
  qed simp
  have P': "p = \<lparr>me_vaddr = max va k, me_size = min (va + n) (k + me_size e) - max va k,
      me_offset = me_offset e + (max va k - k), me_mode = me_mode e\<rparr>"
    unfolding P E(1) E(4) len off by (rule refl)
  show "va \<le> me_vaddr p" "me_vaddr p + me_size p \<le> va + n" "0 < me_size p" "me_offset p + me_size p \<le> sz"
    unfolding P' using v ke E(3) n by auto
  have "me_pts p \<subseteq> me_pts e"
    unfolding P' using piece_me_pts [of e "max va k" "min (va + n) (k + me_size e) - max va k"] E(1) v ke by auto
  then show "me_pts p \<subseteq> view_pts m" using ke(1) by (force simp: view_pts_set)
qed

lemma sparse_parts_cover:
  assumes ok: "maps_ok sz m" and le: "va + n \<le> U64_MAX" and a: "a \<in> span va n" "a \<in> viewed m"
  shows "\<exists>p \<in> set (sparse_parts va (va + n) m). a \<in> span (me_vaddr p) (me_size p)"
proof -
  have t: "tiled fst me_sz m" using ok by (simp add: maps_ok_def)
  from a(2) obtain k e where ke: "(k, e) \<in> set m" "k \<le> a" "a < k + me_size e" by (auto simp: owned_iff)
  note E = maps_okD [OF ok ke(1)]
  let ?l = "filter (\<lambda>p. va < fst p + me_sz p) m"
  have a': "va \<le> a" "a < va + n" using a(1) by (simp_all add: span_iff)
  have "sorted_wrt (\<lambda>p q. fst p < fst q) ?l"
    using tiled_omap_wf [OF t] by (simp add: omap_wf_def sorted_wrt_filter)
  then have mono: "sorted_wrt (\<lambda>p q. me_vaddr (snd p) \<le> me_vaddr (snd q)) ?l"
    by (rule sorted_wrt_weaken) (use ok in \<open>auto simp: maps_ok_def\<close>)
  have tw: "x \<in> set (takeWhile (\<lambda>p. me_vaddr (snd p) < va + n) l)"
    if "sorted_wrt (\<lambda>p q. me_vaddr (snd p) \<le> me_vaddr (snd q)) l" "x \<in> set l" "me_vaddr (snd x) < va + n" for x and l :: "mentry omap"
    using that by (induction l) auto
  have "(k, e) \<in> set (takeWhile (\<lambda>p. me_vaddr (snd p) < va + n) ?l)"
    by (rule tw [OF mono]) (use ke a' E(1) in auto)
  then obtain p where p: "p \<in> set (sparse_parts va (va + n) m)" and P: "p = \<lparr>me_vaddr = max va (me_vaddr e),
      me_size = sub64 (min (va + n) (me_end e)) (max va (me_vaddr e)),
      me_offset = sub64 (add64 (me_offset e) (max va (me_vaddr e))) (me_vaddr e), me_mode = me_mode e\<rparr>"
    unfolding sparse_parts_def sparse_from_filter [OF ok] by (force simp: Let_def)
  have "sub64 (min (va + n) (k + me_size e)) (max va k) = min (va + n) (k + me_size e) - max va k"
    using a' ke le by (intro sub64_le) auto
  then have "me_vaddr p = max va k" "me_size p = min (va + n) (k + me_size e) - max va k" by (simp_all add: P E(1,4))
  then have "a \<in> span (me_vaddr p) (me_size p)" using a' ke by (simp add: span_iff)
  with p show ?thesis by blast
qed

lemma fold_sparse_length:
  assumes "\<And>p. p \<in> set parts \<Longrightarrow> va \<le> me_vaddr p \<and> me_vaddr p + me_size p \<le> va + length data"
  shows "length (fold (sparse_copy s va) parts data) = length data"
  using assms
proof (induction parts arbitrary: data)
  case (Cons p ps)
  then have p: "va \<le> me_vaddr p" "me_vaddr p + me_size p \<le> va + length data" by auto
  then have len: "length (sparse_copy s va p data) = length data" by (simp add: sparse_copy_def)
  have "length (fold (sparse_copy s va) ps (sparse_copy s va p data)) = length (sparse_copy s va p data)"
    using Cons.prems by (intro Cons.IH) (simp add: len)
  then show ?case by (simp add: len)
qed simp

lemma fold_sparse_copy:
  assumes "\<And>p. p \<in> set parts \<Longrightarrow> va \<le> me_vaddr p \<and> me_vaddr p + me_size p \<le> va + length data"
    and "i < length data"
    and "\<And>p. p \<in> set parts \<Longrightarrow> va + i \<in> span (me_vaddr p) (me_size p) \<Longrightarrow>
      gb_bytes s (me_offset p + (va + i - me_vaddr p)) = d"
  shows "fold (sparse_copy s va) parts data ! i = (if \<exists>p \<in> set parts. va + i \<in> span (me_vaddr p) (me_size p) then d else data ! i)"
  using assms
proof (induction parts arbitrary: data)
    case (Cons p ps)
    let ?data = "sparse_copy s va p data"
    have p: "va \<le> me_vaddr p" "me_vaddr p + me_size p \<le> va + length data" using Cons.prems(1) by auto
    have len: "length ?data = length data" using p by (simp add: sparse_copy_def)
    have nth: "?data ! i = (if va + i \<in> span (me_vaddr p) (me_size p) then d else data ! i)"
    proof (cases "va + i \<in> span (me_vaddr p) (me_size p)")
      case True
      then have "?data ! i = gb_bytes s (me_offset p + (va + i - me_vaddr p))"
        using p Cons.prems(2) by (auto simp: sparse_copy_def nth_append read_part_def span_iff add.commute)
      then show ?thesis using True Cons.prems(3) by simp
    next
      case False
      then consider "i < me_vaddr p - va" | "me_vaddr p - va + me_size p \<le> i" using p by (fastforce simp: span_iff)
      then have "?data ! i = data ! i" using p Cons.prems(2) by cases (auto simp: sparse_copy_def nth_append)
      then show ?thesis using False by simp
    qed
    have "fold (sparse_copy s va) ps ?data ! i = (if \<exists>p \<in> set ps. va + i \<in> span (me_vaddr p) (me_size p) then d else ?data ! i)"
      using Cons.prems by (intro Cons.IH) (simp_all add: len)
    then show ?case using nth by auto
qed simp

text \<open>\<open>TryReadBacking\<close> fails exactly when the range is invalid or some byte of it is unmapped;
  otherwise byte \<open>i\<close> of the result is the file byte behind the guest address \<open>vaddr + i\<close>, however many
  views the range crosses.\<close>

theorem gb_read_exact:
  assumes "bk_inv s" and "va \<le> U64_MAX"
  shows "case gb_try_read va n s of
      None \<Rightarrow> \<not> range_ok va n \<or> \<not> span va n \<subseteq> fst ` views s
    | Some data \<Rightarrow> range_ok va n \<and> span va n \<subseteq> fst ` views s \<and> length data = n \<and>
        (\<forall>i < n. \<exists>o'. behind s (va + i) o' \<and> data ! i = gb_bytes s o')"
proof -
  have "maps_ok (gb_size s) (gb_maps s)" using assms(1) by (simp add: bk_inv_def)
  from gb_try_read_spec [OF assms, of n, unfolded fst_view_pts [OF this, symmetric]] show ?thesis
    by (simp only: views_def)
qed

text \<open>C36: A write of \<open>n\<close> bytes that succeeds is what a read of the range then returns, and it changes no
  file byte that the range does not show, when no file byte is shown twice in the range.\<close>

theorem gb_write_read_roundtrip:
  assumes inv: "bk_inv s" and va: "va \<le> U64_MAX" and len: "length data = n"
    and inj: "\<And>a b o'. a \<in> span va n \<Longrightarrow> b \<in> span va n \<Longrightarrow> behind s a o' \<Longrightarrow> behind s b o' \<Longrightarrow> a = b"
    and w: "gb_try_write va data n s = Some s'"
  shows "gb_try_read va n s' = Some data \<and> views s' = views s \<and>
    (\<forall>o'. (\<forall>a \<in> span va n. \<not> behind s a o') \<longrightarrow> gb_bytes s' o' = gb_bytes s o')"
proof -
  have W: "range_ok va n" "span va n \<subseteq> viewed (gb_maps s)" "bk_inv s'" "gb_maps s' = gb_maps s"
    "\<forall>i < n. \<forall>o'. behind s (va + i) o' \<longrightarrow> gb_bytes s' o' = data ! i"
    "\<forall>o'. (\<forall>a \<in> span va n. \<not> behind s a o') \<longrightarrow> gb_bytes s' o' = gb_bytes s o'"
    using gb_try_write_spec [OF inv va len inj] w by auto
  have same: "behind s' a o' = behind s a o'" for a o' by (simp add: behind_def views_def W(4))
  obtain data' where r: "gb_try_read va n s' = Some data'" "length data' = n"
    "\<forall>i < n. \<exists>o'. behind s' (va + i) o' \<and> data' ! i = gb_bytes s' o'"
    using gb_try_read_spec [OF W(3) va, of n] W(1,2,4) by (auto split: option.splits)
  have "data' = data"
  proof (rule nth_equalityI)
    show "length data' = length data" using r(2) len by simp
    fix i assume "i < length data'"
    then show "data' ! i = data ! i" using r(2,3) W(5) same by auto
  qed
  with r(1) W(4,6) show ?thesis by (simp add: views_def)
qed

text \<open>\<open>TryReadSparseBacking\<close> accepts every valid range, mapped or not: a byte that a view shows is the
  file byte behind it, and a byte that none shows reads as zero.\<close>

theorem gb_sparse_read_exact:
  assumes inv: "bk_inv s" and va: "va \<le> U64_MAX"
  shows "case gb_try_read_sparse va n s of
      None \<Rightarrow> \<not> range_ok va n
    | Some data \<Rightarrow> range_ok va n \<and> length data = n \<and>
        (\<forall>i < n. (\<forall>o'. behind s (va + i) o' \<longrightarrow> data ! i = gb_bytes s o') \<and>
          (va + i \<notin> fst ` views s \<longrightarrow> data ! i = 0))"
proof (cases "range_ok va n")
  case False
  then have "gb_try_read_sparse va n s = None" using va by (auto simp: gb_try_read_sparse_def range_ok_def)
  with False show ?thesis by simp
next
  case True
  have ok: "maps_ok (gb_size s) (gb_maps s)" and sz: "gb_size s \<le> U64_MAX" and av: "gb_available s"
    using inv by (auto simp: bk_inv_def)
  have guard: "\<not> (\<not> gb_available s \<or> n = 0 \<or> U64_MAX - va < n)" and le: "va + n \<le> U64_MAX" and n: "0 < n"
    using True av by (auto simp: range_ok_def)
  let ?parts = "sparse_parts va (va + n) (gb_maps s)" and ?zero = "replicate n (0 :: 8 word)"
  note S = sparse_parts_spec [OF ok sz n le]
  have "list_all (\<lambda>p. backing_range_ok (me_offset p) (me_size p) s) ?parts"
    using S(3,4) by (fastforce simp: list_all_iff backing_range_ok_def)
  then have eq: "gb_try_read_sparse va n s = Some (fold (sparse_copy s va) ?parts ?zero)"
    using guard by (simp add: gb_try_read_sparse_def Let_def)
  have inside: "va \<le> me_vaddr p \<and> me_vaddr p + me_size p \<le> va + length ?zero" if "p \<in> set ?parts" for p
    using S(1,2) [OF that] by simp
  have shown: "behind s (va + i) (me_offset p + (va + i - me_vaddr p))"
    if "p \<in> set ?parts" "va + i \<in> span (me_vaddr p) (me_size p)" for p i
    using S(5) [OF that(1)] that(2) by (auto simp: behind_def views_def me_pts_def)
  have val: "fold (sparse_copy s va) ?parts ?zero ! i = gb_bytes s o'" if "i < n" "behind s (va + i) o'" for i o'
  proof -
    have "gb_bytes s (me_offset p + (va + i - me_vaddr p)) = gb_bytes s o'"
      if "p \<in> set ?parts" "va + i \<in> span (me_vaddr p) (me_size p)" for p
      using behind_unique [OF inv shown [OF that] \<open>behind s (va + i) o'\<close>] by simp
    note F = fold_sparse_copy [OF inside _ this]
    have "va + i \<in> viewed (gb_maps s)"
      using that(2) fst_view_pts [OF ok] by (force simp: behind_def views_def)
    then have "\<exists>p \<in> set ?parts. va + i \<in> span (me_vaddr p) (me_size p)"
      using that(1) by (intro sparse_parts_cover [OF ok le]) (simp_all add: span_iff)
    then show ?thesis using F that(1) by simp
  qed
  have zero: "fold (sparse_copy s va) ?parts ?zero ! i = 0" if "i < n" "va + i \<notin> fst ` views s" for i
  proof -
    have none: "\<not> (\<exists>p \<in> set ?parts. va + i \<in> span (me_vaddr p) (me_size p))"
      using shown that(2) by (force simp: behind_def)
    show ?thesis using fold_sparse_copy [OF inside, where i = i and s = s and d = "0"] none that(1) by auto
  qed
  have "length (fold (sparse_copy s va) ?parts ?zero) = n"
    using fold_sparse_length [OF inside] by simp
  then show ?thesis using eq True val zero by simp
qed

subsection \<open>The theorems on a concrete store\<close>

text \<open>Two views side by side of a 64-byte file, the second on its far end.\<close>

definition store_example :: backing where
  "store_example = \<lparr>gb_available = True, gb_size = 64,
     gb_maps = [(4096, \<lparr>me_vaddr = 4096, me_size = 4, me_offset = 0, me_mode = ReadWrite\<rparr>),
                (4100, \<lparr>me_vaddr = 4100, me_size = 2, me_offset = 62, me_mode = Read\<rparr>)],
     gb_bytes = (\<lambda>o'. of_nat o'), gb_calls = 0\<rparr>"

lemma store_example_inv: "bk_inv store_example"
  by (simp add: bk_inv_def maps_ok_def store_example_def range_ok_def U64_MAX_def)

lemma store_example_views:
  "views store_example = {(4096, 0, ReadWrite), (4097, 1, ReadWrite), (4098, 2, ReadWrite), (4099, 3, ReadWrite),
     (4100, 62, Read), (4101, 63, Read)}"
proof -
  have "span 4096 4 = {4096, 4097, 4098, 4099}" "span 4100 2 = {4100, 4101}" by (auto simp: span_iff)
  then show ?thesis by (auto simp: views_def store_example_def me_pts_def)
qed

lemmas example_eval = store_example_def U64_MAX_def parts_walk.simps find_containing_def upper_bound_def upper_bound_by_def
  lower_bound_def lower_bound_by_def me_end_def add64_def sub64_def Let_def backing_range_ok_def

lemma gb_unmap_transactional_witness:
  "\<exists>s'. gb_unmap (\<lambda>_. True) 4096 6 store_example = Some (True, s') \<and> bk_inv s' \<and> views s' = {}"
proof -
  have va: "(4096 :: u64) \<le> U64_MAX" by (simp add: U64_MAX_def)
  have "\<exists>s'. gb_unmap (\<lambda>_. True) 4096 6 store_example = Some (True, s')"
    by (simp add: gb_unmap_def example_eval unmap_one.simps numeral_2_eq_2 take_entry_def erase_key_def os_call_def)
  with gb_unmap_transactional [OF store_example_inv va, of "\<lambda>_. True" 6] show ?thesis
    by (auto simp: store_example_views span_iff)
qed

lemma gb_read_exact_witness:
  "gb_try_read 4098 4 store_example = Some [2, 3, 62, 63] \<and>
   (\<exists>o'. behind store_example (4098 + 2) o' \<and> (62 :: 8 word) = gb_bytes store_example o')"
proof -
  have va: "(4098 :: u64) \<le> U64_MAX" by (simp add: U64_MAX_def)
  have r: "gb_try_read 4098 4 store_example = Some [2, 3, 62, 63]"
    by (simp add: gb_try_read_def transfer_parts_def example_eval read_part_def upt_rec)
  with gb_read_exact [OF store_example_inv va, of 4]
  have all: "\<forall>i < 4. \<exists>o'. behind store_example (4098 + i) o' \<and> [2, 3, 62, 63] ! i = gb_bytes store_example o'" by simp
  show ?thesis using r all [rule_format, of 2] by simp
qed

lemma store_example_behind:
  "behind store_example a o' \<longleftrightarrow>
     (a, o') \<in> {(4096, 0), (4097, 1), (4098, 2), (4099, 3), (4100, 62), (4101, 63)}"
  by (auto simp: behind_def store_example_views)

lemma gb_write_read_roundtrip_witness:
  "\<exists>s'. gb_try_write 4098 [7, 8, 9] 3 store_example = Some s' \<and> gb_try_read 4098 3 s' = Some [7, 8, 9]"
proof -
  have va: "(4098 :: u64) \<le> U64_MAX" by (simp add: U64_MAX_def)
  obtain s' where w: "gb_try_write 4098 [7, 8, 9] 3 store_example = Some s'"
    by (simp add: gb_try_write_def transfer_parts_def example_eval)
  have inj: "a = b" if "behind store_example a o'" "behind store_example b o'" for a b o'
    using that by (auto simp: store_example_behind)
  from gb_write_read_roundtrip [OF store_example_inv va _ inj w] w show ?thesis by simp
qed

lemma replicate_4: "replicate 4 x = [x, x, x, x]"
  by (simp add: numeral_eq_Suc)

lemma gb_sparse_read_exact_witness:
  "gb_try_read_sparse 4094 4 store_example = Some [0, 0, 0, 1] \<and>
   \<not> (\<exists>o'. behind store_example (4094 + 3) o' \<and> (1 :: 8 word) \<noteq> gb_bytes store_example o')"
proof -
  have va: "(4094 :: u64) \<le> U64_MAX" by (simp add: U64_MAX_def)
  have r: "gb_try_read_sparse 4094 4 store_example = Some [0, 0, 0, 1]"
    by (simp add: gb_try_read_sparse_def sparse_parts_def sparse_from_def sparse_copy_def example_eval read_part_def upt_rec
        replicate_4)
  with gb_sparse_read_exact [OF store_example_inv va, of 4]
  have all: "\<forall>i < 4. \<forall>o'. behind store_example (4094 + i) o' \<longrightarrow> [0, 0, 0, 1] ! i = gb_bytes store_example o'" by simp
  show ?thesis using r all [rule_format, of 3] by simp
qed

end
