(* ===== verification/Guest_Space.thy ===== *)
theory Guest_Space
  imports Guest_Backing Free_List
begin

text \<open>
  \<open>GuestAddressSpace\<close> of \<open>src/src/kernel/memoryAddressSpace.inc\<close> on a POSIX host: the address ranges
  reserved for the guest (\<open>m_owned\<close>), which of them are free placeholders (\<open>m_free\<close>) and which are
  mapped, to the shared backing file or to private memory (\<open>m_mapped\<close>). Every host call takes the next
  result of the parameter \<open>os\<close>, counted in the backing store. Each public method runs under \<open>m_mutex\<close>,
  so it is one step. The outer \<open>option\<close> is the process that may stop.
\<close>

datatype mapping_type = BackingMapping | PrivateMapping

record mregion =
  mr_vaddr :: u64
  mr_size :: u64
  mr_type :: mapping_type

record guest_space =
  gs_free :: free_list
  gs_mapped :: "mregion omap"
  gs_owned :: "(u64 \<times> u64) list"
  gs_backing :: backing

definition HOST_SYSTEM_MANAGED_MIN :: u64 where "HOST_SYSTEM_MANAGED_MIN = 0x40000"
definition HOST_SYSTEM_MANAGED_MAX :: u64 where "HOST_SYSTEM_MANAGED_MAX = 0x7ffffbfff"
definition HOST_SYSTEM_RESERVED_MIN :: u64 where "HOST_SYSTEM_RESERVED_MIN = HOST_SYSTEM_MANAGED_MAX + 1"
definition HOST_SYSTEM_RESERVED_MAX :: u64 where "HOST_SYSTEM_RESERVED_MAX = 0xfffffffff"
definition HOST_USER_MIN :: u64 where "HOST_USER_MIN = 0x1000000000"
definition HOST_USER_MAX :: u64 where "HOST_USER_MAX = 0xfbffffffff"

definition GUEST_PAGE_SIZE :: u64 where
  "GUEST_PAGE_SIZE = 0x4000"

definition guest_free_range_contains :: "u64 \<Rightarrow> u64 \<Rightarrow> u64 \<Rightarrow> u64 \<Rightarrow> bool" where
  "guest_free_range_contains base range_size candidate size' \<longleftrightarrow>
     (if U64_MAX - base < range_size \<or> candidate < base then False
      else let range_end = base + range_size in candidate \<le> range_end \<and> size' \<le> range_end - candidate)"

definition gs_align_up :: "u64 \<Rightarrow> u64 \<Rightarrow> u64" where
  "gs_align_up value alignment =
     (if alignment = 0 then 0
      else let remainder = value mod alignment;
               increment = (if remainder \<noteq> 0 then alignment - remainder else 0)
           in if increment \<le> U64_MAX - value then value + increment else 0)"

text \<open>The mask \<open>~(alignment - 1)\<close> for an alignment that is a power of two.\<close>

definition gs_align_down :: "u64 \<Rightarrow> u64 \<Rightarrow> u64" where
  "gs_align_down value alignment = value - value mod alignment"

definition is_page_aligned :: "u64 \<Rightarrow> bool" where
  "is_page_aligned value \<longleftrightarrow> value mod GUEST_PAGE_SIZE = 0"

definition is_execute :: "vm_mode \<Rightarrow> bool" where
  "is_execute mode \<longleftrightarrow> mode = Execute \<or> mode = ExecuteRead \<or> mode = ExecuteWrite \<or> mode = ExecuteReadWrite"

definition gs_call :: "(nat \<Rightarrow> bool) \<Rightarrow> guest_space \<Rightarrow> bool \<times> guest_space" where
  "gs_call os g = (let (ok, s) = os_call os (gs_backing g) in (ok, g\<lparr>gs_backing := s\<rparr>))"

subsection \<open>The free placeholders\<close>

definition find_containing_free :: "u64 \<Rightarrow> u64 \<Rightarrow> free_list \<Rightarrow> (u64 \<times> u64) option" where
  "find_containing_free vaddr size' m =
     (let before = fst (upper_bound vaddr m)
      in if before = [] then None
         else let it = last before; end = add64 (fst it) (snd it)
              in if vaddr \<ge> fst it \<and> add64 vaddr size' \<le> end then Some it else None)"

definition set_value :: "u64 \<Rightarrow> 'v \<Rightarrow> 'v omap \<Rightarrow> 'v omap" where
  "set_value k v m = map (\<lambda>p. if fst p = k then (k, v) else p) m"

definition split_unlocked :: "u64 \<times> u64 \<Rightarrow> u64 \<Rightarrow> u64 \<Rightarrow> free_list \<Rightarrow> free_list" where
  "split_unlocked it vaddr size' m =
     (let base = fst it; end = add64 (fst it) (snd it)
      in if base = vaddr \<and> end = add64 vaddr size' then m
         else
           let (it, m) = (if base \<noteq> vaddr
                 then let m = emplace vaddr (sub64 end vaddr) (set_value base (sub64 vaddr base) m)
                      in ((vaddr, the (map_of m vaddr)), m)
                 else (it, m))
           in if snd it \<noteq> size'
              then emplace (add64 (fst it) size') (sub64 (snd it) size') (set_value (fst it) size' m)
              else m)"

definition consume_unlocked :: "u64 \<Rightarrow> u64 \<Rightarrow> free_list \<Rightarrow> bool \<times> free_list" where
  "consume_unlocked vaddr size' m =
     (case find_containing_free vaddr size' m of
        None \<Rightarrow> (False, m)
      | Some it \<Rightarrow>
          let m = split_unlocked it vaddr size' m
          in if map_of m vaddr = Some size' then (True, erase_key vaddr m) else (False, m))"

text \<open>The two loops of \<open>AddFreeUnlocked\<close>, over the ranges before the new one (nearest first) and after it.\<close>

fun join_before :: "u64 \<Rightarrow> free_list \<Rightarrow> u64 \<times> free_list" where
  "join_before base [] = (base, [])"
| "join_before base (prev # first) =
     (if add64 (fst prev) (snd prev) \<noteq> base then (base, prev # first) else join_before (fst prev) first)"

fun join_after :: "u64 \<Rightarrow> free_list \<Rightarrow> u64 \<times> free_list" where
  "join_after end [] = (end, [])"
| "join_after end (next # rest) =
     (if end = fst next then join_after (add64 (fst next) (snd next)) rest else (end, next # rest))"

definition add_free_unlocked :: "u64 \<Rightarrow> u64 \<Rightarrow> free_list \<Rightarrow> free_list" where
  "add_free_unlocked vaddr size' m =
     (if vaddr = 0 \<or> size' = 0 then m
      else
        let m = set_value vaddr size' (emplace vaddr size' m);
            (base, first) = join_before vaddr (rev (filter (\<lambda>p. fst p < vaddr) m));
            (end, rest) = join_after (add64 vaddr size') (filter (\<lambda>p. vaddr < fst p) m)
        in if base \<noteq> vaddr \<or> end \<noteq> add64 vaddr size' then emplace base (sub64 end base) (rev first @ rest) else m)"

fun free_aligned_search :: "u64 \<Rightarrow> u64 \<Rightarrow> u64 \<Rightarrow> u64 \<Rightarrow> free_list \<Rightarrow> u64" where
  "free_aligned_search search_start search_end size' alignment [] = 0"
| "free_aligned_search search_start search_end size' alignment ((base, range_size) # m) =
     (let candidate = gs_align_up (max base search_start) alignment
      in if candidate < search_end \<and> size' \<le> search_end - candidate \<and>
            guest_free_range_contains base range_size candidate size'
         then candidate else free_aligned_search search_start search_end size' alignment m)"

definition find_free_aligned_unlocked :: "u64 \<Rightarrow> u64 \<Rightarrow> u64 \<Rightarrow> u64 \<Rightarrow> free_list \<Rightarrow> u64" where
  "find_free_aligned_unlocked search_start search_end size' alignment m =
     (if search_start \<ge> search_end \<or> size' > search_end - search_start then 0
      else free_aligned_search search_start search_end size' alignment m)"

definition gs_reserve_aligned :: "u64 \<Rightarrow> u64 \<Rightarrow> u64 \<Rightarrow> guest_space \<Rightarrow> u64" where
  "gs_reserve_aligned search_addr size' alignment g =
     (if size' = 0 then 0
      else
        let alignment = max (if alignment \<noteq> 0 then alignment else GUEST_PAGE_SIZE) GUEST_PAGE_SIZE
        in if search_addr = 0
           then let addr = find_free_aligned_unlocked HOST_SYSTEM_MANAGED_MIN (HOST_SYSTEM_MANAGED_MAX + 1) size' alignment (gs_free g)
                in if addr \<noteq> 0 then addr
                   else find_free_aligned_unlocked HOST_USER_MIN (HOST_USER_MAX + 1) size' alignment (gs_free g)
           else find_free_aligned_unlocked search_addr (HOST_USER_MAX + 1) size' alignment (gs_free g))"

definition gs_find_free_aligned :: "u64 \<Rightarrow> u64 \<Rightarrow> u64 \<Rightarrow> u64 \<Rightarrow> guest_space \<Rightarrow> u64" where
  "gs_find_free_aligned search_start search_end size' alignment g =
     (if size' = 0 \<or> alignment = 0 then 0
      else find_free_aligned_unlocked search_start search_end size' (max alignment GUEST_PAGE_SIZE) (gs_free g))"

definition gs_reserve_fixed :: "u64 \<Rightarrow> u64 \<Rightarrow> guest_space \<Rightarrow> bool" where
  "gs_reserve_fixed vaddr size' g \<longleftrightarrow>
     \<not> (vaddr = 0 \<or> size' = 0 \<or> \<not> is_page_aligned vaddr \<or> \<not> is_page_aligned size') \<and>
     find_containing_free vaddr size' (gs_free g) \<noteq> None"

definition gs_release_free :: "u64 \<Rightarrow> u64 \<Rightarrow> guest_space \<Rightarrow> bool" where
  "gs_release_free vaddr size' g \<longleftrightarrow> find_containing_free vaddr size' (gs_free g) \<noteq> None"

definition gs_owns :: "u64 \<Rightarrow> u64 \<Rightarrow> guest_space \<Rightarrow> bool" where
  "gs_owns vaddr size' g \<longleftrightarrow> \<not> (size' = 0 \<or> U64_MAX - vaddr < size') \<and>
     list_ex (\<lambda>r. vaddr \<ge> fst r \<and> vaddr + size' \<le> add64 (fst r) (snd r)) (gs_owned g)"

definition gs_overlaps_owned :: "u64 \<Rightarrow> u64 \<Rightarrow> guest_space \<Rightarrow> bool" where
  "gs_overlaps_owned vaddr size' g \<longleftrightarrow> \<not> (size' = 0 \<or> U64_MAX - vaddr < size') \<and>
     list_ex (\<lambda>r. virtual_ranges_overlap vaddr size' (fst r) (snd r)) (gs_owned g)"

subsection \<open>The mapped regions\<close>

definition mr_end :: "mregion \<Rightarrow> u64" where
  "mr_end r = add64 (mr_vaddr r) (mr_size r)"

definition find_mapped_containing :: "u64 \<Rightarrow> mregion omap \<Rightarrow> (u64 \<times> mregion) option" where
  "find_mapped_containing vaddr m =
     (let before = fst (upper_bound vaddr m)
      in if before = [] then None
         else let it = last before in if vaddr < mr_end (snd it) then Some it else None)"

lemma find_mapped_progress: "find_mapped_containing c m = Some it \<Longrightarrow> c < mr_end (snd it)"
  by (auto simp: find_mapped_containing_def Let_def split: if_splits)

function mapped_walk :: "u64 \<Rightarrow> u64 \<Rightarrow> mapping_type \<Rightarrow> mregion omap \<Rightarrow> bool" where
  "mapped_walk current end type m =
     (if current < end then
        (case find_mapped_containing current m of
           None \<Rightarrow> False
         | Some it \<Rightarrow> if mr_type (snd it) \<noteq> type then False else mapped_walk (min end (mr_end (snd it))) end type m)
      else True)"
  by auto
termination
  by (relation "measure (\<lambda>(current, end, type, m). end - current)") (auto dest!: find_mapped_progress)

declare mapped_walk.simps [simp del]

definition contains_mapped_unlocked :: "u64 \<Rightarrow> u64 \<Rightarrow> mapping_type \<Rightarrow> mregion omap \<Rightarrow> bool" where
  "contains_mapped_unlocked vaddr size' type m \<longleftrightarrow>
     (if size' = 0 \<or> U64_MAX - vaddr < size' then False else mapped_walk vaddr (vaddr + size') type m)"

text \<open>\<open>AddMappedUnlocked\<close>; \<open>None\<close> is the result false.\<close>

definition add_mapped_unlocked :: "u64 \<Rightarrow> u64 \<Rightarrow> mapping_type \<Rightarrow> mregion omap \<Rightarrow> mregion omap option" where
  "add_mapped_unlocked vaddr size' type m =
     (if size' = 0 \<or> U64_MAX - vaddr < size' then None
      else
        let end = vaddr + size'; (before, next) = lower_bound vaddr m
        in if next \<noteq> [] \<and> mr_vaddr (snd (hd next)) < end then None
           else if before \<noteq> [] \<and> mr_end (snd (last before)) > vaddr then None
           else if vaddr \<in> fst ` set m then None
           else Some (emplace vaddr \<lparr>mr_vaddr = vaddr, mr_size = size', mr_type = type\<rparr> m))"

text \<open>One round of the loop of \<open>RemoveMappedUnlocked\<close>: the region around \<open>current\<close> leaves its two remainders.\<close>

definition cut_region :: "u64 \<Rightarrow> u64 \<Rightarrow> u64 \<times> mregion \<Rightarrow> mregion omap \<Rightarrow> (u64 \<times> mregion omap) option" where
  "cut_region current end it m =
     (let original = snd it; part_end = min end (mr_end original); m = erase_key (fst it) m
      in do {
        m \<leftarrow> (if mr_vaddr original < current
              then add_mapped_unlocked (mr_vaddr original) (sub64 current (mr_vaddr original)) (mr_type original) m else Some m);
        m \<leftarrow> (if part_end < mr_end original
              then add_mapped_unlocked part_end (sub64 (mr_end original) part_end) (mr_type original) m else Some m);
        Some (part_end, m) })"

function remove_mapped_walk :: "u64 \<Rightarrow> u64 \<Rightarrow> mregion omap \<Rightarrow> mregion omap option" where
  "remove_mapped_walk current end m =
     (if current < end then
        (case find_mapped_containing current m of
           None \<Rightarrow> None
         | Some it \<Rightarrow>
             (case cut_region current end it m of
                None \<Rightarrow> None
              | Some (part_end, m) \<Rightarrow> remove_mapped_walk part_end end m))
      else Some m)"
  by auto
termination
proof (relation "measure (\<lambda>(current, end, m). end - current)")
  fix current e m a b x xa y
  assume h: "current < e" "find_mapped_containing current m = Some a" "cut_region current e a m = Some b" "(x, y) = b"
  then have "current < x"
    by (auto simp: cut_region_def Let_def bind_eq_Some_conv dest!: find_mapped_progress)
  with h(1) show "((x, e, y), (current, e, m)) \<in> measure (\<lambda>(current, end, m). end - current)" by auto
qed simp

declare remove_mapped_walk.simps [simp del]

text \<open>\<open>RemoveMappedUnlocked\<close>: the outer \<open>option\<close> is the stopped process.\<close>

definition remove_mapped_unlocked :: "u64 \<Rightarrow> u64 \<Rightarrow> mapping_type \<Rightarrow> mregion omap \<Rightarrow> (bool \<times> mregion omap) option" where
  "remove_mapped_unlocked vaddr size' type m =
     (if \<not> contains_mapped_unlocked vaddr size' type m then Some (False, m)
      else do { m \<leftarrow> remove_mapped_walk vaddr (vaddr + size') m; Some (True, m) })"

subsection \<open>The operations on the whole space\<close>

definition host_mode :: "vm_mode \<Rightarrow> vm_mode" where
  "host_mode mode = (if is_execute mode then ExecuteReadWrite else ReadWrite)"

text \<open>\<open>MapBacking\<close>; the result \<open>FrNone\<close> is success.\<close>

definition gs_map_backing :: "(nat \<Rightarrow> bool) \<Rightarrow> u64 \<Rightarrow> u64 \<Rightarrow> u64 \<Rightarrow> vm_mode \<Rightarrow> guest_space \<Rightarrow> (failure_reason \<times> guest_space) option" where
  "gs_map_backing os vaddr size' backing_offset mode g =
     (let (consumed, free) = consume_unlocked vaddr size' (gs_free g); g = g\<lparr>gs_free := free\<rparr>
      in if \<not> consumed then Some (AddressRangeUnavailable, g)
         else do {
           (reason, s) \<leftarrow> gb_map_fixed os vaddr size' backing_offset (host_mode mode) (gs_backing g);
           if reason = FrNone
           then do {
             mapped \<leftarrow> add_mapped_unlocked vaddr size' BackingMapping (gs_mapped g);
             Some (FrNone, g\<lparr>gs_mapped := mapped, gs_backing := s\<rparr>) }
           else Some (reason, g\<lparr>gs_free := add_free_unlocked vaddr size' (gs_free g), gs_backing := s\<rparr>) })"

definition gs_unmap_backing :: "(nat \<Rightarrow> bool) \<Rightarrow> u64 \<Rightarrow> u64 \<Rightarrow> guest_space \<Rightarrow> (bool \<times> guest_space) option" where
  "gs_unmap_backing os vaddr size' g =
     (if \<not> contains_mapped_unlocked vaddr size' BackingMapping (gs_mapped g) then Some (False, g)
      else do {
        (unmapped, s) \<leftarrow> gb_unmap os vaddr size' (gs_backing g);
        if \<not> unmapped then Some (False, g\<lparr>gs_backing := s\<rparr>)
        else do {
          (removed, mapped) \<leftarrow> remove_mapped_unlocked vaddr size' BackingMapping (gs_mapped g);
          if \<not> removed then None
          else Some (True, g\<lparr>gs_mapped := mapped, gs_free := add_free_unlocked vaddr size' (gs_free g), gs_backing := s\<rparr>) } })"

definition gs_commit :: "(nat \<Rightarrow> bool) \<Rightarrow> u64 \<Rightarrow> u64 \<Rightarrow> guest_space \<Rightarrow> (bool \<times> guest_space) option" where
  "gs_commit os vaddr size' g =
     (let (consumed, free) = consume_unlocked vaddr size' (gs_free g); g = g\<lparr>gs_free := free\<rparr>
      in if \<not> consumed then Some (False, g)
         else
           let (protected, g) = gs_call os g
           in if protected
              then do {
                mapped \<leftarrow> add_mapped_unlocked vaddr size' PrivateMapping (gs_mapped g);
                Some (True, g\<lparr>gs_mapped := mapped\<rparr>) }
              else Some (False, g\<lparr>gs_free := add_free_unlocked vaddr size' (gs_free g)\<rparr>))"

text \<open>The regions that \<open>ReleaseCommitted\<close> restores; \<open>end()\<close> is not dereferenced because the range was
  found to be mapped.\<close>

function region_parts :: "u64 \<Rightarrow> u64 \<Rightarrow> mregion omap \<Rightarrow> (u64 \<times> u64) list" where
  "region_parts current end m =
     (if current < end then
        (case find_mapped_containing current m of
           None \<Rightarrow> []
         | Some it \<Rightarrow> let part_end = min end (mr_end (snd it)) in (current, part_end - current) # region_parts part_end end m)
      else [])"
  by auto
termination
  by (relation "measure (\<lambda>(current, end, m). end - current)") (auto dest!: find_mapped_progress)

declare region_parts.simps [simp del]

fun restore_placeholders :: "(nat \<Rightarrow> bool) \<Rightarrow> (u64 \<times> u64) list \<Rightarrow> guest_space \<Rightarrow> guest_space option" where
  "restore_placeholders os [] g = Some g"
| "restore_placeholders os (r # regions) g =
     (let (restored, g) = gs_call os g in if \<not> restored then None else restore_placeholders os regions g)"

definition gs_release_committed :: "(nat \<Rightarrow> bool) \<Rightarrow> u64 \<Rightarrow> u64 \<Rightarrow> guest_space \<Rightarrow> (bool \<times> guest_space) option" where
  "gs_release_committed os vaddr size' g =
     (if vaddr = 0 \<or> size' = 0 \<or> \<not> is_page_aligned vaddr \<or> \<not> is_page_aligned size' then Some (False, g)
      else if \<not> contains_mapped_unlocked vaddr size' PrivateMapping (gs_mapped g) then Some (False, g)
      else do {
        g \<leftarrow> restore_placeholders os (region_parts vaddr (vaddr + size') (gs_mapped g)) g;
        (removed, mapped) \<leftarrow> remove_mapped_unlocked vaddr size' PrivateMapping (gs_mapped g);
        if \<not> removed then None
        else Some (True, g\<lparr>gs_mapped := mapped, gs_free := add_free_unlocked vaddr size' (gs_free g)\<rparr>) })"

text \<open>\<open>Protect\<close> and \<open>ProtectTransient\<close>: one host call for each region that the range touches, in
  address order, until one fails. The list holds the ranges passed to the host.\<close>

definition protect_from :: "u64 \<Rightarrow> mregion omap \<Rightarrow> mregion omap" where
  "protect_from vaddr m =
     (let it = upper_bound vaddr m in if fst it \<noteq> [] then last (fst it) # snd it else snd it)"

definition protect_parts :: "u64 \<Rightarrow> u64 \<Rightarrow> mregion omap \<Rightarrow> (u64 \<times> u64) list" where
  "protect_parts vaddr end m =
     map (\<lambda>(range_start, range_end). (range_start, range_end - range_start))
       (filter (\<lambda>(range_start, range_end). range_start < range_end)
         (map (\<lambda>p. (max vaddr (mr_vaddr (snd p)), min end (mr_end (snd p))))
           (takeWhile (\<lambda>p. mr_vaddr (snd p) < end) (protect_from vaddr m))))"

fun protect_calls :: "(nat \<Rightarrow> bool) \<Rightarrow> (u64 \<times> u64) list \<Rightarrow> guest_space \<Rightarrow> bool \<times> guest_space" where
  "protect_calls os [] g = (True, g)"
| "protect_calls os (r # regions) g =
     (let (protected, g) = gs_call os g in if \<not> protected then (False, g) else protect_calls os regions g)"

definition gs_protect :: "(nat \<Rightarrow> bool) \<Rightarrow> u64 \<Rightarrow> u64 \<Rightarrow> guest_space \<Rightarrow> bool \<times> guest_space" where
  "gs_protect os vaddr size' g =
     (if size' = 0 \<or> U64_MAX - vaddr < size' then (False, g)
      else protect_calls os (protect_parts vaddr (vaddr + size') (gs_mapped g)) g)"

text \<open>\<open>ReserveGuestRegions\<close> on Linux: the gaps that \<open>/proc/self/maps\<close> leaves in each guest region are
  reserved, page aligned, when the host accepts the fixed mapping.\<close>

definition guest_regions :: "(u64 \<times> u64) list" where
  "guest_regions =
     [(HOST_SYSTEM_MANAGED_MIN, HOST_SYSTEM_MANAGED_MAX + 1), (HOST_SYSTEM_RESERVED_MIN, HOST_SYSTEM_RESERVED_MAX + 1),
      (HOST_USER_MIN, HOST_USER_MAX + 1)]"

definition reserve_range :: "(nat \<Rightarrow> bool) \<Rightarrow> u64 \<times> u64 \<Rightarrow> guest_space \<Rightarrow> guest_space" where
  "reserve_range os r g =
     (let start = gs_align_up (fst r) GUEST_PAGE_SIZE; end = gs_align_down (snd r) GUEST_PAGE_SIZE
      in if start = 0 \<or> end \<le> start then g
         else
           let size' = end - start; (reserved, g) = gs_call os g
           in if \<not> reserved then g
              else g\<lparr>gs_free := add_free_unlocked start size' (gs_free g), gs_owned := gs_owned g @ [(start, size')]\<rparr>)"

fun region_gaps :: "u64 \<Rightarrow> u64 \<Rightarrow> (u64 \<times> u64) list \<Rightarrow> (u64 \<times> u64) list" where
  "region_gaps current region_end [] = (if current < region_end then [(current, region_end)] else [])"
| "region_gaps current region_end ((mapping_start, mapping_end) # occupied) =
     (if mapping_end \<le> current then region_gaps current region_end occupied
      else if mapping_start \<ge> region_end then (if current < region_end then [(current, region_end)] else [])
      else
        let gap = (if mapping_start > current then [(current, min mapping_start region_end)] else []);
            current = max current mapping_end
        in if current \<ge> region_end then gap else gap @ region_gaps current region_end occupied)"

definition reserve_guest_regions :: "(nat \<Rightarrow> bool) \<Rightarrow> (u64 \<times> u64) list \<Rightarrow> guest_space \<Rightarrow> guest_space" where
  "reserve_guest_regions os occupied g =
     fold (reserve_range os) (concat (map (\<lambda>r. region_gaps (fst r) (snd r) occupied) guest_regions)) g"

end
