(* ===== verification/Flexible_Memory.thy ===== *)
theory Flexible_Memory
  imports Guest_Space
begin

text \<open>
  \<open>FlexibleMemory\<close> of \<open>src/src/kernel/memory.cpp\<close>: the part of the backing file behind direct memory, handed
  out to virtual ranges in pieces. \<open>m_allocated\<close> holds the pieces in the order of their virtual addresses,
  \<open>m_free\<close> the free ranges of the file. The methods that map or unmap call the guest address space and its
  backing file; the outer \<open>option\<close> is the process that may stop (\<open>EXIT_IF\<close>). \<open>sz\<close> is the configured size
  \<open>Size()\<close> and \<open>base\<close> the end of direct memory.
\<close>

record fblock =
  fb_vaddr :: u64
  fb_size :: u64
  fb_offset :: u64
  fb_host_vaddr :: u64
  fb_host_size :: u64
  fb_prot :: int
  fb_mode :: vm_mode
  fb_gpu :: gpu_mode
  fb_name :: string

record flex_mem =
  fx_allocated :: "fblock list"
  fx_free :: free_list
  fx_total :: u64

definition flex_init :: "u64 \<Rightarrow> u64 \<Rightarrow> flex_mem" where
  "flex_init base sz = \<lparr>fx_allocated = [], fx_free = [(base, sz)], fx_total = 0\<rparr>"

definition flex_available :: "u64 \<Rightarrow> flex_mem \<Rightarrow> u64" where
  "flex_available sz s = (if sz \<ge> fx_total s then sz - fx_total s else 0)"

subsection \<open>Map\<close>

text \<open>The loop that takes pieces off the front of the free list; the result also holds what is missing.\<close>

fun choose_blocks :: "fblock \<Rightarrow> u64 \<Rightarrow> u64 \<Rightarrow> free_list \<Rightarrow> fblock list \<times> u64" where
  "choose_blocks proto current remaining' [] = ([], remaining')"
| "choose_blocks proto current remaining' ((backing_offset, free_size) # free) =
     (if remaining' = 0 then ([], 0)
      else let chunk = min remaining' free_size;
               block = proto\<lparr>fb_vaddr := current, fb_size := chunk, fb_offset := backing_offset\<rparr>;
               (blocks, missing) = choose_blocks proto (add64 current chunk) (remaining' - chunk) free
           in (block # blocks, missing))"

text \<open>The rollback: what was mapped is unmapped, the last piece first.\<close>

fun unmap_mapped :: "(nat \<Rightarrow> bool) \<Rightarrow> fblock list \<Rightarrow> guest_space \<Rightarrow> guest_space option" where
  "unmap_mapped os [] g = Some g"
| "unmap_mapped os (b # mapped) g = do {
     (unmapped, g) \<leftarrow> gs_unmap_backing os (fb_vaddr b) (fb_size b) g;
     if \<not> unmapped then None else unmap_mapped os mapped g }"

text \<open>\<open>zero\<close> tells whether the pieces are cleared first, as \<open>Map\<close> does and \<open>Restore\<close> does not.\<close>

definition zero_backing :: "u64 \<Rightarrow> u64 \<Rightarrow> guest_space \<Rightarrow> guest_space option" where
  "zero_backing backing_offset size' g =
     map_option (\<lambda>s. g\<lparr>gs_backing := s\<rparr>) (gb_zero_range backing_offset size' (gs_backing g))"

fun map_blocks :: "(nat \<Rightarrow> bool) \<Rightarrow> bool \<Rightarrow> fblock list \<Rightarrow> fblock list \<Rightarrow> guest_space \<Rightarrow> (bool \<times> guest_space) option" where
  "map_blocks os zero mapped [] g = Some (True, g)"
| "map_blocks os zero mapped (b # blocks) g =
     (case (if zero then zero_backing (fb_offset b) (fb_size b) g else Some g) of
        None \<Rightarrow> do { g \<leftarrow> unmap_mapped os mapped g; Some (False, g) }
      | Some g \<Rightarrow> do {
          (reason, g) \<leftarrow> gs_map_backing os (fb_vaddr b) (fb_size b) (fb_offset b) (fb_mode b) g;
          if reason \<noteq> FrNone then do { g \<leftarrow> unmap_mapped os mapped g; Some (False, g) }
          else map_blocks os zero (b # mapped) blocks g })"

text \<open>Takes the pieces off the free list; \<open>check\<close> is the second \<open>EXIT_IF\<close>, which \<open>Restore\<close> does not have.\<close>

fun consume_blocks :: "bool \<Rightarrow> fblock list \<Rightarrow> free_list \<Rightarrow> free_list option" where
  "consume_blocks check [] free = Some free"
| "consume_blocks check (b # blocks) free =
     (case free_range_at (fb_offset b) free of
        None \<Rightarrow> None
      | Some r \<Rightarrow>
          if check \<and> (fb_offset b < fst r \<or> fb_size b > sub64 (add64 (fst r) (snd r)) (fb_offset b)) then None
          else consume_blocks check blocks (consume_free_range r (fb_offset b) (fb_size b) free))"

definition flex_map ::
  "(nat \<Rightarrow> bool) \<Rightarrow> u64 \<Rightarrow> u64 \<Rightarrow> u64 \<Rightarrow> int \<Rightarrow> vm_mode \<Rightarrow> gpu_mode \<Rightarrow> string option \<Rightarrow> flex_mem \<Rightarrow> guest_space \<Rightarrow>
   (bool \<times> flex_mem \<times> guest_space) option" where
  "flex_map os sz vaddr len prot mode gpu name s g =
     (if len = 0 \<or> len > flex_available sz s then Some (False, s, g)
      else
        let proto = \<lparr>fb_vaddr = 0, fb_size = 0, fb_offset = 0, fb_host_vaddr = vaddr, fb_host_size = len, fb_prot = prot,
                     fb_mode = mode, fb_gpu = gpu, fb_name = copy_virtual_range_name name\<rparr>;
            (blocks, missing) = choose_blocks proto vaddr len (fx_free s)
        in if missing \<noteq> 0 then Some (False, s, g)
           else do {
             (mapped, g) \<leftarrow> map_blocks os True [] blocks g;
             if \<not> mapped then Some (False, s, g)
             else do {
               free \<leftarrow> consume_blocks True blocks (fx_free s);
               Some (True, s\<lparr>fx_allocated := sort_key fb_vaddr (fx_allocated s @ blocks), fx_free := free,
                             fx_total := add64 (fx_total s) len\<rparr>, g) } })"

subsection \<open>Unmap\<close>

text \<open>The first loop of \<open>Unmap\<close>: the end of the covered part and the GPU access of the first block.\<close>

fun flex_walk :: "u64 \<Rightarrow> u64 \<Rightarrow> gpu_mode option \<Rightarrow> fblock list \<Rightarrow> u64 \<times> gpu_mode option" where
  "flex_walk end current found [] = (current, found)"
| "flex_walk end current found (b # bs) =
     (if add64 (fb_vaddr b) (fb_size b) \<le> current then flex_walk end current found bs
      else if fb_vaddr b > current \<or> fb_vaddr b \<ge> end then (current, found)
      else
        let found = (case found of None \<Rightarrow> Some (fb_gpu b) | Some m \<Rightarrow> Some m);
            current = min end (add64 (fb_vaddr b) (fb_size b))
        in if current = end then (current, found) else flex_walk end current found bs)"

definition flex_left_part :: "u64 \<Rightarrow> fblock \<Rightarrow> fblock list" where
  "flex_left_part overlap_start b =
     (if fb_vaddr b < overlap_start then [b\<lparr>fb_size := overlap_start - fb_vaddr b\<rparr>] else [])"

definition flex_right_part :: "u64 \<Rightarrow> fblock \<Rightarrow> fblock list" where
  "flex_right_part overlap_end b =
     (if overlap_end < add64 (fb_vaddr b) (fb_size b)
      then [b\<lparr>fb_vaddr := overlap_end, fb_size := add64 (fb_vaddr b) (fb_size b) - overlap_end,
              fb_offset := sub64 (add64 (fb_offset b) overlap_end) (fb_vaddr b)\<rparr>] else [])"

text \<open>The second loop: the remaining blocks, the bytes removed and the free list.\<close>

fun unmap_blocks :: "u64 \<Rightarrow> u64 \<Rightarrow> fblock list \<Rightarrow> free_list \<Rightarrow> fblock list \<times> u64 \<times> free_list" where
  "unmap_blocks vaddr size' [] free = ([], 0, free)"
| "unmap_blocks vaddr size' (b # bs) free =
     (if \<not> virtual_ranges_overlap vaddr size' (fb_vaddr b) (fb_size b)
      then case unmap_blocks vaddr size' bs free of (rest, removed, free) \<Rightarrow> (b # rest, removed, free)
      else
        let overlap_start = max vaddr (fb_vaddr b);
            overlap_end = min (vaddr + size') (add64 (fb_vaddr b) (fb_size b));
            overlap_size = overlap_end - overlap_start;
            free = add_free_range (sub64 (add64 (fb_offset b) overlap_start) (fb_vaddr b)) overlap_size free;
            (rest, removed, free) = unmap_blocks vaddr size' bs free
        in (flex_left_part overlap_start b @ flex_right_part overlap_end b @ rest, overlap_size + removed, free))"

text \<open>The result is the GPU access that the call stores, and whether it succeeded.\<close>

definition flex_unmap ::
  "(nat \<Rightarrow> bool) \<Rightarrow> u64 \<Rightarrow> u64 \<Rightarrow> flex_mem \<Rightarrow> guest_space \<Rightarrow> (bool \<times> gpu_mode option \<times> flex_mem \<times> guest_space) option" where
  "flex_unmap os vaddr size' s g =
     (if size' = 0 \<or> U64_MAX - vaddr < size' then Some (False, None, s, g)
      else case flex_walk (vaddr + size') vaddr None (fx_allocated s) of
          (current, found) \<Rightarrow>
            if found = None \<or> current \<noteq> vaddr + size' then Some (False, found, s, g)
            else do {
              (unmapped, g) \<leftarrow> gs_unmap_backing os vaddr size' g;
              if \<not> unmapped then Some (False, found, s, g)
              else case unmap_blocks vaddr size' (fx_allocated s) (fx_free s) of
                  (rest, removed, free) \<Rightarrow>
                    if removed \<noteq> size' \<or> removed > fx_total s then None
                    else Some (True, found, s\<lparr>fx_allocated := rest, fx_free := free, fx_total := fx_total s - removed\<rparr>, g) })"

subsection \<open>Snapshot and Restore\<close>

fun snapshot_walk :: "u64 \<Rightarrow> u64 \<Rightarrow> fblock list \<Rightarrow> fblock list option" where
  "snapshot_walk end current [] = None"
| "snapshot_walk end current (b # bs) =
     (let block_end = add64 (fb_vaddr b) (fb_size b)
      in if block_end \<le> current then snapshot_walk end current bs
         else if fb_vaddr b > current \<or> fb_vaddr b \<ge> end then None
         else
           let part_end = min end block_end;
               part = b\<lparr>fb_vaddr := current, fb_size := part_end - current,
                        fb_offset := add64 (fb_offset b) (current - fb_vaddr b)\<rparr>
           in if part_end = end then Some [part]
              else map_option (\<lambda>ps. part # ps) (snapshot_walk end part_end bs))"

text \<open>\<open>None\<close> is the result false, which leaves the list empty.\<close>

definition flex_snapshot :: "u64 \<Rightarrow> u64 \<Rightarrow> flex_mem \<Rightarrow> fblock list option" where
  "flex_snapshot vaddr size' s =
     (if size' = 0 \<or> U64_MAX - vaddr < size' then None else snapshot_walk (vaddr + size') vaddr (fx_allocated s))"

definition block_is_free :: "free_list \<Rightarrow> fblock \<Rightarrow> bool" where
  "block_is_free free b \<longleftrightarrow>
     (case free_range_at (fb_offset b) free of
        None \<Rightarrow> False
      | Some r \<Rightarrow> \<not> (fb_offset b < fst r \<or> fb_size b > sub64 (add64 (fst r) (snd r)) (fb_offset b)))"

definition flex_restore ::
  "(nat \<Rightarrow> bool) \<Rightarrow> fblock list \<Rightarrow> flex_mem \<Rightarrow> guest_space \<Rightarrow> (bool \<times> flex_mem \<times> guest_space) option" where
  "flex_restore os blocks s g =
     (if blocks = [] \<or> \<not> list_all (block_is_free (fx_free s)) blocks then Some (False, s, g)
      else do {
        (mapped, g) \<leftarrow> map_blocks os False [] blocks g;
        if \<not> mapped then Some (False, s, g)
        else do {
          free \<leftarrow> consume_blocks False blocks (fx_free s);
          Some (True, s\<lparr>fx_allocated := sort_key fb_vaddr (fx_allocated s @ blocks), fx_free := free,
                        fx_total := fold (\<lambda>b t. add64 t (fb_size b)) blocks (fx_total s)\<rparr>, g) } })"

subsection \<open>Protect, Find and names\<close>

definition protect_parts_of :: "u64 \<Rightarrow> u64 \<Rightarrow> int \<Rightarrow> vm_mode \<Rightarrow> gpu_mode \<Rightarrow> fblock \<Rightarrow> fblock list" where
  "protect_parts_of vaddr size' prot mode gpu b =
     (if \<not> virtual_ranges_overlap vaddr size' (fb_vaddr b) (fb_size b) then [b]
      else
        let overlap_start = max vaddr (fb_vaddr b);
            overlap_end = min (vaddr + size') (add64 (fb_vaddr b) (fb_size b));
            middle = b\<lparr>fb_vaddr := overlap_start, fb_size := overlap_end - overlap_start,
                       fb_offset := sub64 (add64 (fb_offset b) overlap_start) (fb_vaddr b),
                       fb_prot := prot, fb_mode := mode, fb_gpu := gpu\<rparr>
        in flex_left_part overlap_start b @ middle # flex_right_part overlap_end b)"

definition flex_protect :: "u64 \<Rightarrow> u64 \<Rightarrow> int \<Rightarrow> vm_mode \<Rightarrow> gpu_mode \<Rightarrow> flex_mem \<Rightarrow> flex_mem" where
  "flex_protect vaddr size' prot mode gpu s =
     (if size' = 0 \<or> U64_MAX - vaddr < size' then s
      else s\<lparr>fx_allocated := concat (map (protect_parts_of vaddr size' prot mode gpu) (fx_allocated s))\<rparr>)"

definition flex_find :: "u64 \<Rightarrow> flex_mem \<Rightarrow> fblock option" where
  "flex_find vaddr s = find (\<lambda>b. vaddr \<ge> fb_vaddr b \<and> vaddr < add64 (fb_vaddr b) (fb_size b)) (fx_allocated s)"

definition flex_set_name :: "u64 \<Rightarrow> u64 \<Rightarrow> string option \<Rightarrow> flex_mem \<Rightarrow> flex_mem" where
  "flex_set_name vaddr len name s =
     s\<lparr>fx_allocated := map (\<lambda>b. if virtual_ranges_overlap vaddr len (fb_vaddr b) (fb_size b)
                               then b\<lparr>fb_name := copy_virtual_range_name name\<rparr> else b) (fx_allocated s)\<rparr>"

end
