(* ===== verification/Shares.thy ===== *)
theory Shares
  imports Tiling "HOL-Library.Multiset"
begin

text \<open>
  Blocks in no particular order of which no two share a byte. Stated by counting, which makes the notion independent
  of the order and easy to split: \<open>st\<close> and \<open>sz\<close> read the begin and the size of a block.
\<close>

definition blocks_size :: "('b \<Rightarrow> u64) \<Rightarrow> 'b list \<Rightarrow> nat" where
  "blocks_size sz bs = sum_list (map sz bs)"

definition unshared_blocks :: "('b \<Rightarrow> u64) \<Rightarrow> ('b \<Rightarrow> u64) \<Rightarrow> 'b list \<Rightarrow> bool" where
  "unshared_blocks st sz bs \<longleftrightarrow> card (owned st sz bs) = blocks_size sz bs"

lemma blocks_size_simps [simp]:
  "blocks_size sz [] = 0" "blocks_size sz (b # bs) = sz b + blocks_size sz bs"
  "blocks_size sz (as @ bs) = blocks_size sz as + blocks_size sz bs"
  by (simp_all add: blocks_size_def)

lemma blocks_size_sort [simp]: "blocks_size sz (sort_key k bs) = blocks_size sz bs"
proof -
  have "mset (map sz (sort_key k bs)) = mset (map sz bs)" by simp
  then show ?thesis unfolding blocks_size_def by (metis sum_mset_sum_list)
qed

lemma owned_sort [simp]: "owned st sz (sort_key k bs) = owned st sz bs"
  by (simp add: owned_def cover_def)

lemma unshared_sort [simp]: "unshared_blocks st sz (sort_key k bs) = unshared_blocks st sz bs"
  by (simp add: unshared_blocks_def)

lemma card_owned_le: "card (owned st sz bs) \<le> blocks_size sz bs"
proof (induction bs)
  case (Cons b bs)
  have "card (owned st sz (b # bs)) \<le> card (span (st b) (sz b)) + card (owned st sz bs)"
    by (simp only: owned_simps) (rule card_Un_le)
  with Cons show ?case by simp
qed simp

lemma unshared_append [simp]:
  "unshared_blocks st sz (as @ bs) \<longleftrightarrow>
     unshared_blocks st sz as \<and> unshared_blocks st sz bs \<and> owned st sz as \<inter> owned st sz bs = {}"
proof -
  have "card (owned st sz as) + card (owned st sz bs) = card (owned st sz (as @ bs)) + card (owned st sz as \<inter> owned st sz bs)"
    by (simp only: owned_simps) (rule card_Un_Int; simp)
  moreover have "card (owned st sz as \<inter> owned st sz bs) = 0 \<longleftrightarrow> owned st sz as \<inter> owned st sz bs = {}"
    by (rule card_0_eq) simp
  ultimately show ?thesis
    using card_owned_le [of st sz as] card_owned_le [of st sz bs]
    unfolding unshared_blocks_def blocks_size_simps by linarith
qed

lemma unshared_simps [simp]:
  "unshared_blocks st sz []"
  "unshared_blocks st sz (b # bs) \<longleftrightarrow> unshared_blocks st sz bs \<and> span (st b) (sz b) \<inter> owned st sz bs = {}"
proof -
  show "unshared_blocks st sz []" by (simp add: unshared_blocks_def)
  have "unshared_blocks st sz [b]" by (simp add: unshared_blocks_def)
  then show "unshared_blocks st sz (b # bs) \<longleftrightarrow> unshared_blocks st sz bs \<and> span (st b) (sz b) \<inter> owned st sz bs = {}"
    using unshared_append [of st sz "[b]" bs] by simp
qed

lemma unshared_disjoint:
  "unshared_blocks st sz bs \<Longrightarrow> i < j \<Longrightarrow> j < length bs \<Longrightarrow>
   span (st (bs ! i)) (sz (bs ! i)) \<inter> span (st (bs ! j)) (sz (bs ! j)) = {}"
proof (induction bs arbitrary: i j)
  case (Cons b bs)
  obtain j' where j: "j = Suc j'" "j' < length bs" using Cons.prems by (cases j) auto
  have "span (st (bs ! j')) (sz (bs ! j')) \<subseteq> owned st sz bs"
    using j(2) by (force simp: owned_iff span_iff)
  then show ?case using Cons j by (cases i) auto
qed simp

text \<open>The order does not matter, and a part of the blocks shares no byte either.\<close>

lemma unshared_mset: "mset as = mset bs \<Longrightarrow> unshared_blocks st sz as \<longleftrightarrow> unshared_blocks st sz bs"
proof -
  assume eq: "mset as = mset bs"
  then have "set as = set bs" by (rule mset_eq_setD)
  then have "owned st sz as = owned st sz bs" by (simp add: owned_def cover_def)
  moreover have "mset (map sz as) = mset (map sz bs)" using eq by simp
  then have "blocks_size sz as = blocks_size sz bs" unfolding blocks_size_def by (metis sum_mset_sum_list)
  ultimately show ?thesis by (simp add: unshared_blocks_def)
qed

lemma unshared_subset: "mset as \<subseteq># mset bs \<Longrightarrow> unshared_blocks st sz bs \<Longrightarrow> unshared_blocks st sz as"
proof -
  assume sub: "mset as \<subseteq># mset bs" and bs: "unshared_blocks st sz bs"
  obtain C where "mset bs = mset as + C" using sub by (auto simp: mset_subset_eq_exists_conv)
  moreover obtain cs where "mset cs = C" using ex_mset by blast
  ultimately have "mset bs = mset (as @ cs)" by simp
  from unshared_mset [OF this, of st sz] bs show ?thesis by simp
qed

text \<open>Blocks that are cut into parts: the parts of each block have its bytes and its size.\<close>

lemma concat_unshared:
  assumes "\<And>b. b \<in> set bs \<Longrightarrow> unshared_blocks st sz (f b) \<and> blocks_size sz (f b) = sz b \<and> owned st sz (f b) = span (st b) (sz b)"
    and "unshared_blocks st sz bs"
  shows "unshared_blocks st sz (concat (map f bs)) \<and> blocks_size sz (concat (map f bs)) = blocks_size sz bs \<and>
    owned st sz (concat (map f bs)) = owned st sz bs"
  using assms by (induction bs) auto

lemma tiled_unshared: "tiled st sz bs \<Longrightarrow> unshared_blocks st sz bs"
  by (simp add: unshared_blocks_def blocks_size_def tiled_card)

subsection \<open>Translations\<close>

text \<open>
  Blocks that map the addresses from \<open>va b\<close> on to the bytes from \<open>st b\<close> on, with a tag for the access: the triples of
  address, byte and tag.
\<close>

definition block_points :: "('b \<Rightarrow> u64) \<Rightarrow> ('b \<Rightarrow> u64) \<Rightarrow> ('b \<Rightarrow> u64) \<Rightarrow> ('b \<Rightarrow> 't) \<Rightarrow> 'b \<Rightarrow> (nat \<times> nat \<times> 't) set" where
  "block_points va st sz tg b = (\<lambda>a. (a, st b + (a - va b), tg b)) ` span (va b) (sz b)"

definition points :: "('b \<Rightarrow> u64) \<Rightarrow> ('b \<Rightarrow> u64) \<Rightarrow> ('b \<Rightarrow> u64) \<Rightarrow> ('b \<Rightarrow> 't) \<Rightarrow> 'b list \<Rightarrow> (nat \<times> nat \<times> 't) set" where
  "points va st sz tg bs = cover (block_points va st sz tg) bs"

lemma points_simps [simp]:
  "points va st sz tg [] = {}"
  "points va st sz tg (b # bs) = block_points va st sz tg b \<union> points va st sz tg bs"
  "points va st sz tg (as @ bs) = points va st sz tg as \<union> points va st sz tg bs"
  by (simp_all add: points_def)

lemma block_points_iff:
  "(a, c, t) \<in> block_points va st sz tg b \<longleftrightarrow> va b \<le> a \<and> a < va b + sz b \<and> c = st b + (a - va b) \<and> t = tg b"
  by (auto simp: block_points_def span_iff)

lemma fst_points: "fst ` points va st sz tg bs = owned va sz bs"
  by (simp add: points_def owned_def cover_def image_UN block_points_def image_image)

lemma snd_points: "(\<lambda>p. fst (snd p)) ` points va st sz tg bs = owned st sz bs"
proof -
  have "(\<lambda>p. fst (snd p)) ` block_points va st sz tg b = span (st b) (sz b)" for b
  proof -
    have "(\<lambda>p. fst (snd p)) ` block_points va st sz tg b = (\<lambda>i. st b + i) ` (\<lambda>a. a - va b) ` span (va b) (sz b)"
      by (simp add: block_points_def image_image)
    also have "(\<lambda>a. a - va b) ` span (va b) (sz b) = {0..<sz b}"
      by (force simp: span_iff image_iff intro: bexI [of _ "x + va b" for x])
    finally show ?thesis by (simp add: span_def add.commute)
  qed
  then show ?thesis by (simp add: owned_def points_def cover_def image_UN)
qed

lemma finite_points [simp]: "finite (points va st sz tg bs)"
  by (simp add: points_def cover_def block_points_def)

lemma points_address_inj:
  assumes "unshared_blocks va sz bs"
  shows "inj_on fst (points va st sz tg bs)"
  using assms
proof (induction bs)
  case (Cons b bs)
  have inj: "inj_on fst (block_points va st sz tg b)" by (auto simp: inj_on_def block_points_def)
  have "fst ` block_points va st sz tg b = span (va b) (sz b)" by (simp add: block_points_def image_image)
  then have "fst ` block_points va st sz tg b \<inter> fst ` points va st sz tg bs = {}"
    using Cons.prems by (simp add: fst_points)
  then show ?case using Cons inj by (simp only: points_simps inj_on_Un) auto
qed simp

lemma points_byte_inj:
  assumes "unshared_blocks st sz bs"
  shows "inj_on (\<lambda>p. fst (snd p)) (points va st sz tg bs)"
  using assms
proof (induction bs)
  case (Cons b bs)
  have inj: "inj_on (\<lambda>p. fst (snd p)) (block_points va st sz tg b)"
    by (auto simp: inj_on_def block_points_def span_iff)
  have "(\<lambda>p. fst (snd p)) ` block_points va st sz tg b = span (st b) (sz b)"
    using snd_points [of va st sz tg "[b]"] by simp
  then have "(\<lambda>p. fst (snd p)) ` block_points va st sz tg b \<inter> (\<lambda>p. fst (snd p)) ` points va st sz tg bs = {}"
    using Cons.prems by (simp add: snd_points)
  then show ?case using Cons inj by (simp only: points_simps inj_on_Un) auto
qed simp

text \<open>Blocks cut out of others share no bytes when they share no addresses.\<close>

lemma unshared_bytes:
  assumes "points va st sz tg ps \<subseteq> points va st sz tg bs" and "unshared_blocks st sz bs" and "unshared_blocks va sz ps"
  shows "unshared_blocks st sz ps"
proof -
  have "card (owned st sz ps) = card (points va st sz tg ps)"
    unfolding snd_points [of va st sz tg, symmetric]
    by (rule card_image) (rule inj_on_subset [OF points_byte_inj [OF assms(2)] assms(1)])
  also have "\<dots> = card (owned va sz ps)"
    unfolding fst_points [of va st sz tg, symmetric]
    by (rule card_image [symmetric]) (rule points_address_inj [OF assms(3)])
  finally show ?thesis using assms(3) by (simp add: unshared_blocks_def)
qed

lemma concat_unshared_sub:
  assumes "\<And>b. b \<in> set bs \<Longrightarrow> unshared_blocks st sz (f b) \<and> owned st sz (f b) \<subseteq> span (st b) (sz b)" and "unshared_blocks st sz bs"
  shows "unshared_blocks st sz (concat (map f bs)) \<and> owned st sz (concat (map f bs)) \<subseteq> owned st sz bs"
  using assms
proof (induction bs)
  case (Cons b bs)
  then have IH: "unshared_blocks st sz (concat (map f bs)) \<and> owned st sz (concat (map f bs)) \<subseteq> owned st sz bs" by simp
  have b: "unshared_blocks st sz (f b)" "owned st sz (f b) \<subseteq> span (st b) (sz b)" using Cons.prems(1) by auto
  have "span (st b) (sz b) \<inter> owned st sz bs = {}" using Cons.prems(2) by simp
  then have "owned st sz (f b) \<inter> owned st sz (concat (map f bs)) = {}" using IH b(2) by blast
  then show ?case using IH b by auto
qed simp

end
