(* ===== verification/Flexible_Facts.thy ===== *)
theory Flexible_Facts
  imports Flexible_Memory Shares
begin

text \<open>
  The correctness of \<open>FlexibleMemory\<close>: the pieces in use and the free ranges share out the backing range of the
  manager through every history of its operations, whatever the host answers, and each operation changes the
  translation of exactly the addresses it is given.
\<close>

section \<open>Pieces that do not share backing\<close>

text \<open>The pieces are sorted by virtual address, so their backing ranges are in no order.\<close>

abbreviation fb_backing :: "fblock list \<Rightarrow> nat set" where
  "fb_backing \<equiv> owned fb_offset fb_size"

abbreviation total_size :: "fblock list \<Rightarrow> nat" where
  "total_size \<equiv> blocks_size fb_size"

abbreviation unshared :: "fblock list \<Rightarrow> bool" where
  "unshared \<equiv> unshared_blocks fb_offset fb_size"

definition fb_ok :: "fblock \<Rightarrow> bool" where
  "fb_ok b \<longleftrightarrow> 0 < fb_size b \<and> fb_vaddr b + fb_size b \<le> U64_MAX \<and> fb_offset b + fb_size b \<le> U64_MAX"

section \<open>Cutting a piece\<close>

type_synonym fpoint = "nat \<times> nat \<times> int \<times> vm_mode \<times> gpu_mode"

definition fb_access :: "fblock \<Rightarrow> int \<times> vm_mode \<times> gpu_mode" where
  "fb_access b = (fb_prot b, fb_mode b, fb_gpu b)"

text \<open>What a piece says of an address: the backing byte behind it and its access.\<close>

definition fb_pts :: "fblock \<Rightarrow> fpoint set" where
  "fb_pts b = (\<lambda>a. (a, fb_offset b + (a - fb_vaddr b), fb_access b)) ` span (fb_vaddr b) (fb_size b)"

definition translation :: "fblock list \<Rightarrow> fpoint set" where
  "translation bs = cover fb_pts bs"

lemma translation_simps [simp]:
  "translation [] = {}" "translation (b # bs) = fb_pts b \<union> translation bs"
  "translation (as @ bs) = translation as \<union> translation bs"
  by (simp_all add: translation_def)

lemma fb_pts_iff:
  "(a, c, x) \<in> fb_pts b \<longleftrightarrow> fb_vaddr b \<le> a \<and> a < fb_vaddr b + fb_size b \<and> c = fb_offset b + (a - fb_vaddr b) \<and> x = fb_access b"
  by (auto simp: fb_pts_def span_iff)

lemma translation_sort [simp]: "translation (sort_key k bs) = translation bs"
  by (simp add: translation_def cover_def)

text \<open>The two remainders of a piece around the part \<open>s..<e\<close>, and the backing of that part.\<close>

lemma cut_block:
  assumes ok: "fb_ok b" and s: "fb_vaddr b \<le> s" "s < e" "e \<le> fb_vaddr b + fb_size b"
  defines "ls \<equiv> flex_left_part s b @ flex_right_part e b" and "o' \<equiv> fb_offset b + (s - fb_vaddr b)"
  shows "list_all fb_ok ls" and "unshared ls" and "total_size ls + (e - s) = fb_size b"
    and "fb_backing ls \<union> span o' (e - s) = span (fb_offset b) (fb_size b)" and "fb_backing ls \<inter> span o' (e - s) = {}"
    and "sub64 (add64 (fb_offset b) s) (fb_vaddr b) = o'" and "range_ok o' (e - s)"
    and "translation ls = {p \<in> fb_pts b. fst p \<notin> {s..<e}}"
proof -
  have ends: "add64 (fb_vaddr b) (fb_size b) = fb_vaddr b + fb_size b" using ok by (simp add: fb_ok_def add64_le)
  have off: "sub64 (add64 (fb_offset b) x) (fb_vaddr b) = fb_offset b + (x - fb_vaddr b)"
    if "fb_vaddr b \<le> x" "x \<le> fb_vaddr b + fb_size b" for x
    using that ok by (intro sub64_add64) (auto simp: fb_ok_def)
  note parts = ls_def flex_left_part_def flex_right_part_def ends
  show "sub64 (add64 (fb_offset b) s) (fb_vaddr b) = o'" using off s by (simp add: o'_def)
  show "range_ok o' (e - s)" using s ok by (auto simp: range_ok_def o'_def fb_ok_def)
  show "list_all fb_ok ls" using s ok off [of e] by (auto simp: parts fb_ok_def)
  show "unshared ls" using s off [of e] by (auto simp: parts span_disjoint)
  show "total_size ls + (e - s) = fb_size b" using s by (auto simp: parts)
  show "fb_backing ls \<union> span o' (e - s) = span (fb_offset b) (fb_size b)"
    using s off [of e] by (auto simp: parts span_iff o'_def)
  show "fb_backing ls \<inter> span o' (e - s) = {}" using s off [of e] by (auto simp: parts span_iff o'_def)
  show "translation ls = {p \<in> fb_pts b. fst p \<notin> {s..<e}}"
    using s off [of e] by (auto simp: parts fb_pts_iff fb_access_def)
qed

text \<open>The part of a piece inside \<open>v..<v+n\<close>, as the loops compute it.\<close>

lemma overlap_part:
  assumes ok: "fb_ok b" and v: "v + n \<le> U64_MAX" and ov: "virtual_ranges_overlap v n (fb_vaddr b) (fb_size b)"
  defines "s \<equiv> max v (fb_vaddr b)" and "e \<equiv> min (v + n) (add64 (fb_vaddr b) (fb_size b))"
  shows "fb_vaddr b \<le> s" and "s < e" and "e \<le> fb_vaddr b + fb_size b" and "span v n \<inter> span (fb_vaddr b) (fb_size b) = {s..<e}"
proof -
  have ends: "add64 (fb_vaddr b) (fb_size b) = fb_vaddr b + fb_size b" using ok by (simp add: fb_ok_def add64_le)
  have "span v n \<inter> span (fb_vaddr b) (fb_size b) \<noteq> {}" using overlap_iff [OF v] ok ov by (simp add: fb_ok_def)
  then have "0 < n" "0 < fb_size b" "v < fb_vaddr b + fb_size b" "fb_vaddr b < v + n"
    by (auto simp: span_disjoint)
  then show "fb_vaddr b \<le> s" and "s < e" and "e \<le> fb_vaddr b + fb_size b" by (auto simp: s_def e_def ends)
  show "span v n \<inter> span (fb_vaddr b) (fb_size b) = {s..<e}" by (auto simp: s_def e_def ends span_iff)
qed

lemma no_overlap_part:
  "fb_ok b \<Longrightarrow> v + n \<le> U64_MAX \<Longrightarrow> \<not> virtual_ranges_overlap v n (fb_vaddr b) (fb_size b) \<Longrightarrow>
   span v n \<inter> span (fb_vaddr b) (fb_size b) = {}"
  using overlap_iff [of v n "fb_vaddr b" "fb_size b"] by (auto simp: fb_ok_def)

lemma fb_pts_outside:
  assumes "span v n \<inter> span (fb_vaddr b) (fb_size b) = {s..<e}"
  shows "{p \<in> fb_pts b. fst p \<notin> {s..<e}} = {p \<in> fb_pts b. fst p \<notin> span v n}"
proof -
  have "fst p \<in> span (fb_vaddr b) (fb_size b)" if "p \<in> fb_pts b" for p using that by (cases p) (auto simp: fb_pts_iff span_iff)
  then show ?thesis unfolding assms [symmetric] by blast
qed

section \<open>The loops\<close>

lemma choose_blocks_spec:
  assumes "apart (ivals_of free)" and "\<forall>r \<in> set free. fst r + snd r \<le> U64_MAX" and "current + need \<le> U64_MAX"
    and "choose_blocks proto current need free = (blocks, missing)"
  shows "missing \<le> need \<and> chain fb_vaddr fb_size current blocks (current + (need - missing)) \<and> list_all fb_ok blocks \<and>
    unshared blocks \<and> fb_backing blocks \<subseteq> free_bytes free \<and> total_size blocks = need - missing \<and>
    (\<forall>b \<in> set blocks. fb_access b = fb_access proto)"
  using assms
proof (induction free arbitrary: current need blocks missing)
  case Nil
  then show ?case by simp
next
  case (Cons r free)
  obtain o' n where r: "r = (o', n)" by (cases r)
  show ?case
  proof (cases "need = 0")
    case True
    then show ?thesis using Cons.prems(4) by (simp add: r)
  next
    case False
    define chunk where "chunk = min need n"
    define b where "b = proto\<lparr>fb_vaddr := current, fb_size := chunk, fb_offset := o'\<rparr>"
    obtain bs where bs: "choose_blocks proto (add64 current chunk) (need - chunk) free = (bs, missing)" "blocks = b # bs"
      using Cons.prems(4) False by (auto simp: r Let_def chunk_def b_def split: prod.splits)
    have ap: "0 < n" "apart (ivals_of free)" "\<forall>q \<in> set (ivals_of free). o' + n < fst q" "o' + n \<le> U64_MAX"
      using Cons.prems(1,2) by (auto simp: r)
    have chunk: "0 < chunk" "chunk \<le> need" "chunk \<le> n" using ap False by (auto simp: chunk_def)
    have nxt: "add64 current chunk = current + chunk" using chunk Cons.prems(3) by (intro add64_le) simp
    have IH: "missing \<le> need - chunk \<and> chain fb_vaddr fb_size (current + chunk) bs (current + chunk + (need - chunk - missing)) \<and>
      list_all fb_ok bs \<and> unshared bs \<and> fb_backing bs \<subseteq> free_bytes free \<and> total_size bs = need - chunk - missing \<and>
      (\<forall>b \<in> set bs. fb_access b = fb_access proto)"
      by (rule Cons.IH) (use ap(2) Cons.prems(2,3) bs(1) nxt chunk in auto)
    have "span o' chunk \<inter> free_bytes free = {}"
      using ap(3) chunk by (force simp: free_bytes_iff span_iff set_ivals_of)
    moreover have "span o' chunk \<subseteq> span o' n" using chunk by (auto simp: span_iff)
    moreover have "fb_ok b" using chunk ap(4) Cons.prems(3) by (auto simp: b_def fb_ok_def)
    moreover have "fb_access b = fb_access proto" by (simp add: b_def fb_access_def)
    moreover have "fb_vaddr b = current" "fb_size b = chunk" "fb_offset b = o'" by (simp_all add: b_def)
    ultimately show ?thesis using IH chunk Cons.prems(3) by (auto simp: bs(2) r)
  qed
qed

lemma consume_blocks_spec:
  assumes "free_inv free" and "list_all fb_ok blocks" and "unshared blocks" and "fb_backing blocks \<subseteq> free_bytes free"
  shows "\<exists>free'. consume_blocks check blocks free = Some free' \<and> free_inv free' \<and>
    free_bytes free' = free_bytes free - fb_backing blocks"
  using assms
proof (induction blocks arbitrary: free)
  case Nil
  then show ?case by simp
next
  case (Cons b blocks)
  have ok: "0 < fb_size b" and sub: "span (fb_offset b) (fb_size b) \<subseteq> free_bytes free"
    using Cons.prems by (auto simp: fb_ok_def)
  obtain r where r: "r \<in> set free" "free_range_at (fb_offset b) free = Some r" "fst r \<le> fb_offset b"
    "fb_offset b + fb_size b \<le> fst r + snd r"
    using free_range_at_contains [OF Cons.prems(1) ok sub] by blast
  note c = consume_free_range_correct [OF Cons.prems(1) r(1) ok r(3,4)]
  have "fst r + snd r \<le> U64_MAX" using Cons.prems(1) r(1) by (simp add: free_inv_def)
  then have fits: "\<not> (fb_offset b < fst r \<or> fb_size b > sub64 (add64 (fst r) (snd r)) (fb_offset b))"
    using r(3,4) by (simp add: u64_simps)
  have "fb_backing blocks \<subseteq> free_bytes (consume_free_range r (fb_offset b) (fb_size b) free)"
    using Cons.prems(3,4) by (auto simp: c(2))
  from Cons.IH [OF c(1) _ _ this] Cons.prems obtain free' where
    "consume_blocks check blocks (consume_free_range r (fb_offset b) (fb_size b) free) = Some free'" "free_inv free'"
    "free_bytes free' = free_bytes free - span (fb_offset b) (fb_size b) - fb_backing blocks"
    by (auto simp: c(2))
  then show ?case using r(2) fits by (auto simp: Diff_eq Int_assoc)
qed

lemma unmap_blocks_spec:
  assumes "free_inv free" and "list_all fb_ok bs" and "unshared bs" and "fb_backing bs \<inter> free_bytes free = {}"
    and "v + n \<le> U64_MAX" and "unmap_blocks v n bs free = (rest, removed, free')"
  shows "free_inv free' \<and> list_all fb_ok rest \<and> unshared rest \<and> fb_backing rest \<inter> free_bytes free' = {} \<and>
    fb_backing rest \<union> free_bytes free' = fb_backing bs \<union> free_bytes free \<and> fb_backing rest \<subseteq> fb_backing bs \<and>
    total_size rest + removed = total_size bs \<and> translation rest = {p \<in> translation bs. fst p \<notin> span v n}"
  using assms
proof (induction bs arbitrary: free rest removed)
  case Nil
  then show ?case by auto
next
  case (Cons b bs)
  have ok: "fb_ok b" "list_all fb_ok bs" "unshared bs" "span (fb_offset b) (fb_size b) \<inter> fb_backing bs = {}"
    using Cons.prems by auto
  show ?case
  proof (cases "virtual_ranges_overlap v n (fb_vaddr b) (fb_size b)")
    case False
    obtain r0 where r0: "unmap_blocks v n bs free = (r0, removed, free')" "rest = b # r0"
      using Cons.prems(6) False by (auto split: prod.splits)
    have "{p \<in> fb_pts b. fst p \<notin> span v n} = fb_pts b"
      using no_overlap_part [OF ok(1) Cons.prems(5) False] by (auto simp: fb_pts_def)
    moreover have dj: "fb_backing bs \<inter> free_bytes free = {}" "span (fb_offset b) (fb_size b) \<inter> free_bytes free = {}"
      using Cons.prems(4) by auto
    moreover note IH = Cons.IH [OF Cons.prems(1) ok(2,3) dj(1) Cons.prems(5) r0(1)]
    moreover have "span (fb_offset b) (fb_size b) \<inter> fb_backing r0 = {}" using IH ok(4) by blast
    moreover have "span (fb_offset b) (fb_size b) \<inter> free_bytes free' = {}" using IH ok(4) dj by blast
    ultimately show ?thesis using ok by (auto simp: r0(2))
  next
    case True
    define s where "s = max v (fb_vaddr b)"
    define e where "e = min (v + n) (add64 (fb_vaddr b) (fb_size b))"
    define ls where "ls = flex_left_part s b @ flex_right_part e b"
    define o' where "o' = fb_offset b + (s - fb_vaddr b)"
    note se = overlap_part [OF ok(1) Cons.prems(5) True, folded s_def e_def]
    note cut = cut_block [OF ok(1) se(1-3), folded ls_def o'_def]
    define free1 where "free1 = add_free_range o' (e - s) free"
    obtain r0 rm where r0: "unmap_blocks v n bs free1 = (r0, rm, free')" "rest = ls @ r0" "removed = (e - s) + rm"
      using Cons.prems(6) True
      by (auto simp: Let_def s_def [symmetric] e_def [symmetric] cut(6) free1_def [symmetric] ls_def split: prod.splits)
    have f1: "free_inv free1" "free_bytes free1 = free_bytes free \<union> span o' (e - s)"
      using add_free_range_correct [OF Cons.prems(1) cut(7)] by (simp_all add: free1_def)
    have sub: "span o' (e - s) \<subseteq> span (fb_offset b) (fb_size b)" "fb_backing ls \<subseteq> span (fb_offset b) (fb_size b)"
      using cut(4) by auto
    have "fb_backing bs \<inter> free_bytes free1 = {}" using Cons.prems(4) ok(4) sub by (auto simp: f1)
    from Cons.IH [OF f1(1) ok(2,3) this Cons.prems(5) r0(1)]
    have IH: "free_inv free'" "list_all fb_ok r0" "unshared r0" "fb_backing r0 \<inter> free_bytes free' = {}"
      "fb_backing r0 \<union> free_bytes free' = fb_backing bs \<union> free_bytes free1" "fb_backing r0 \<subseteq> fb_backing bs"
      "total_size r0 + rm = total_size bs" "translation r0 = {p \<in> translation bs. fst p \<notin> span v n}" by auto
    have pts: "translation ls = {p \<in> fb_pts b. fst p \<notin> span v n}" using cut(8) fb_pts_outside [OF se(4)] by simp
    have d1: "fb_backing ls \<inter> fb_backing r0 = {}" using sub(2) IH(6) ok(4) by blast
    have "fb_backing ls \<inter> free_bytes free1 = {}" using sub(2) cut(5) Cons.prems(4) by (auto simp: f1)
    then have d2: "fb_backing ls \<inter> free_bytes free' = {}" using IH(5) sub(2) ok(4) by blast
    have un: "fb_backing rest \<union> free_bytes free' = fb_backing (b # bs) \<union> free_bytes free"
    proof -
      have "fb_backing rest \<union> free_bytes free' = fb_backing ls \<union> (fb_backing bs \<union> free_bytes free1)"
        using IH(5) by (auto simp: r0(2))
      also have "\<dots> = (fb_backing ls \<union> span o' (e - s)) \<union> fb_backing bs \<union> free_bytes free" by (auto simp: f1)
      finally show ?thesis using cut(4) by simp
    qed
    have "translation rest = {p \<in> translation (b # bs). fst p \<notin> span v n}" using pts IH(8) by (auto simp: r0(2))
    moreover have "total_size rest + removed = total_size (b # bs)" using cut(3) IH(7) by (simp add: r0(2,3))
    ultimately show ?thesis using un d1 d2 cut(1,2) IH sub by (auto simp: r0(2))
  qed
qed


text \<open>\<open>choose_blocks\<close> comes up short only when the whole free list is smaller than the request.\<close>

lemma choose_blocks_missing: "snd (choose_blocks proto current need free) = need - sum_list (map snd free)"
proof (induction proto current need free rule: choose_blocks.induct)
  case (2 proto current need o' n free)
  show ?case
  proof (cases "need = 0")
    case False
    then show ?thesis using 2 by (auto simp: Let_def case_prod_beta min_def)
  qed simp
qed simp

lemma snapshot_walk_spec:
  assumes "snapshot_walk e c bs = Some ps" and "c < e" and "e \<le> U64_MAX" and "tiled fb_vaddr fb_size bs" and "list_all fb_ok bs"
    and "unshared bs"
  shows "list_all fb_ok ps \<and> unshared ps \<and> chain fb_vaddr fb_size c ps e \<and> fb_backing ps \<subseteq> fb_backing bs \<and>
    translation ps = {p \<in> translation bs. c \<le> fst p \<and> fst p < e}"
  using assms
proof (induction bs arbitrary: c ps)
  case (Cons b bs)
  have be: "add64 (fb_vaddr b) (fb_size b) = fb_vaddr b + fb_size b" using Cons.prems(5) by (simp add: fb_ok_def add64_le)
  show ?case
  proof (cases "fb_vaddr b + fb_size b \<le> c")
    case True
    then have "{p \<in> fb_pts b. c \<le> fst p \<and> fst p < e} = {}" by (auto simp: fb_pts_def span_iff)
    moreover have "snapshot_walk e c bs = Some ps" using Cons.prems(1) True be by simp
    ultimately show ?thesis using Cons.IH [of c ps] Cons.prems by auto
  next
    case False
    define pe where "pe = min e (fb_vaddr b + fb_size b)"
    define p where "p = b\<lparr>fb_vaddr := c, fb_size := pe - c, fb_offset := fb_offset b + (c - fb_vaddr b)\<rparr>"
    have c: "fb_vaddr b \<le> c" "fb_vaddr b < e" and step: "(if pe = e then Some [p] else map_option (\<lambda>ps. p # ps) (snapshot_walk e pe bs)) = Some ps"
      using Cons.prems(1,5) False be
      by (auto simp: Let_def pe_def p_def add64_le fb_ok_def split: if_splits)
    have pe: "c < pe" "pe \<le> e" "pe \<le> fb_vaddr b + fb_size b" using Cons.prems(2) False by (auto simp: pe_def)
    have ok: "fb_ok p" using pe c Cons.prems(3,5) by (auto simp: fb_ok_def p_def)
    have pts: "fb_pts p = {q \<in> fb_pts b. c \<le> fst q \<and> fst q < pe}"
      using pe c by (auto simp: fb_pts_iff p_def fb_access_def)
    have sub: "span (fb_offset p) (fb_size p) \<subseteq> span (fb_offset b) (fb_size b)" using pe c by (auto simp: p_def span_iff)
    have after: "fb_vaddr b + fb_size b \<le> fst q" if "q \<in> translation bs" for q
      using that Cons.prems(4) by (fastforce simp: translation_def cover_iff fb_pts_def span_iff)
    show ?thesis
    proof (cases "pe = e")
      case True
      then have ps: "ps = [p]" using step by simp
      have "{q \<in> translation bs. c \<le> fst q \<and> fst q < e} = {}" using after pe True by force
      then show ?thesis using ok pts sub pe True by (auto simp: ps) (auto simp: p_def)
    next
      case False
      then obtain qs where qs: "snapshot_walk e pe bs = Some qs" "ps = p # qs" using step by auto
      have peb: "pe = fb_vaddr b + fb_size b" using False by (auto simp: pe_def)
      have IH: "list_all fb_ok qs \<and> unshared qs \<and> chain fb_vaddr fb_size pe qs e \<and> fb_backing qs \<subseteq> fb_backing bs \<and>
        translation qs = {p \<in> translation bs. pe \<le> fst p \<and> fst p < e}"
        by (rule Cons.IH) (use qs pe False Cons.prems in auto)
      have "fb_vaddr p = c" "fb_size p = pe - c" by (simp_all add: p_def)
      moreover have "{q \<in> translation bs. c \<le> fst q \<and> fst q < e} = {q \<in> translation bs. pe \<le> fst q \<and> fst q < e}"
        using after pe peb by force
      moreover have "{q \<in> fb_pts b. c \<le> fst q \<and> fst q < e} = {q \<in> fb_pts b. c \<le> fst q \<and> fst q < pe}"
        using peb pe by (auto simp: fb_pts_iff)
      moreover have "span (fb_offset p) (fb_size p) \<inter> fb_backing qs = {}" using sub IH Cons.prems(6) by auto
      ultimately show ?thesis using IH ok pts sub pe by (auto simp: qs(2))
    qed
  qed
qed simp


section \<open>The state\<close>

text \<open>The pieces in use and the free ranges share out the configured range, and the total is their size.\<close>

definition flex_ok :: "u64 \<Rightarrow> u64 \<Rightarrow> flex_mem \<Rightarrow> bool" where
  "flex_ok base sz s \<longleftrightarrow>
     free_inv (fx_free s) \<and> list_all fb_ok (fx_allocated s) \<and> unshared (fx_allocated s) \<and>
     fb_backing (fx_allocated s) \<inter> free_bytes (fx_free s) = {} \<and>
     fb_backing (fx_allocated s) \<union> free_bytes (fx_free s) = span base sz \<and> fx_total s = total_size (fx_allocated s)"

lemma flex_okD:
  assumes "flex_ok base sz s"
  shows "free_inv (fx_free s)" "list_all fb_ok (fx_allocated s)" "unshared (fx_allocated s)"
    "fb_backing (fx_allocated s) \<inter> free_bytes (fx_free s) = {}"
    "fb_backing (fx_allocated s) \<union> free_bytes (fx_free s) = span base sz" "fx_total s = total_size (fx_allocated s)"
  using assms by (simp_all add: flex_ok_def)

lemma flex_ok_total:
  assumes "flex_ok base sz s"
  shows "fx_total s \<le> sz" and "sum_list (map snd (fx_free s)) = sz - fx_total s"
proof -
  note ok = flex_okD [OF assms]
  have "card (fb_backing (fx_allocated s)) + card (free_bytes (fx_free s)) = card (span base sz)"
    using ok(4) by (subst card_Un_disjoint [symmetric]) (simp_all add: ok(5))
  then have "fx_total s + card (free_bytes (fx_free s)) = sz" using ok(3,6) by (simp add: unshared_blocks_def)
  moreover have "sum_list (map snd (fx_free s)) = card (free_bytes (fx_free s))"
    using ok(1) by (intro free_total) (simp add: free_inv_def)
  ultimately show "fx_total s \<le> sz" and "sum_list (map snd (fx_free s)) = sz - fx_total s" by simp_all
qed

lemma flex_init_ok: "range_ok base sz \<Longrightarrow> flex_ok base sz (flex_init base sz)"
  by (auto simp: flex_ok_def flex_init_def free_inv_def range_ok_def)

text \<open>Pieces of free backing enter the allocation: the end of \<open>Map\<close> and of \<open>Restore\<close>.\<close>

lemma flex_ok_enter:
  assumes ok: "flex_ok base sz s" and b: "list_all fb_ok blocks" "unshared blocks" "fb_backing blocks \<subseteq> free_bytes (fx_free s)"
    and free: "free_inv free" "free_bytes free = free_bytes (fx_free s) - fb_backing blocks"
  shows "flex_ok base sz (s\<lparr>fx_allocated := sort_key fb_vaddr (fx_allocated s @ blocks), fx_free := free,
    fx_total := total_size (fx_allocated s) + total_size blocks\<rparr>)"
proof -
  note okD = flex_okD [OF ok]
  have "list_all fb_ok (sort_key fb_vaddr (fx_allocated s @ blocks))"
    using okD(2) b(1) by (simp add: list_all_iff) blast
  moreover have "fb_backing (fx_allocated s) \<inter> fb_backing blocks = {}" using okD(4) b(3) by blast
  ultimately show ?thesis
    using okD b free by (auto simp: flex_ok_def simp del: sort_key_simps)
qed

lemma flex_map_cases:
  assumes ok: "flex_ok base sz s" and v: "v + n \<le> U64_MAX" and sz: "sz \<le> U64_MAX"
    and run: "flex_map os sz v n prot mode gpu name s g = Some (r, s', g')"
  shows "\<not> r \<and> s' = s \<or>
    r \<and> 0 < n \<and> n \<le> flex_available sz s \<and> flex_ok base sz s' \<and>
    (\<exists>blocks. translation (fx_allocated s') = translation (fx_allocated s) \<union> translation blocks \<and>
       chain fb_vaddr fb_size v blocks (v + n) \<and> (\<forall>b \<in> set blocks. fb_access b = (prot, mode, gpu)) \<and>
       fb_backing blocks \<subseteq> free_bytes (fx_free s) \<and> free_bytes (fx_free s') = free_bytes (fx_free s) - fb_backing blocks)"
proof (cases "n = 0 \<or> n > flex_available sz s")
  case True
  then show ?thesis using run by (auto simp: flex_map_def)
next
  case False
  note okD = flex_okD [OF ok]
  define proto where "proto = \<lparr>fb_vaddr = 0, fb_size = 0, fb_offset = 0, fb_host_vaddr = v, fb_host_size = n, fb_prot = prot,
                     fb_mode = mode, fb_gpu = gpu, fb_name = copy_virtual_range_name name\<rparr>"
  obtain blocks missing where ch: "choose_blocks proto v n (fx_free s) = (blocks, missing)" by fastforce
  have fit: "fx_total s + n \<le> sz" using False flex_ok_total(1) [OF ok] by (auto simp: flex_available_def split: if_splits)
  then have "missing = 0" using choose_blocks_missing [of proto v n "fx_free s"] flex_ok_total [OF ok] by (simp add: ch)
  with choose_blocks_spec [OF _ _ v ch] okD(1)
  have bl: "chain fb_vaddr fb_size v blocks (v + n)" "list_all fb_ok blocks" "unshared blocks"
    "fb_backing blocks \<subseteq> free_bytes (fx_free s)" "total_size blocks = n" "\<forall>b \<in> set blocks. fb_access b = fb_access proto"
    by (auto simp: free_inv_def)
  obtain free where free: "consume_blocks True blocks (fx_free s) = Some free" "free_inv free"
    "free_bytes free = free_bytes (fx_free s) - fb_backing blocks"
    using consume_blocks_spec [OF okD(1) bl(2-4)] by blast
  have run': "do { (mapped, g) \<leftarrow> map_blocks os True [] blocks g;
             if \<not> mapped then Some (False, s, g)
             else Some (True, s\<lparr>fx_allocated := sort_key fb_vaddr (fx_allocated s @ blocks), fx_free := free,
                             fx_total := fx_total s + n\<rparr>, g) } = Some (r, s', g')"
    using run False \<open>missing = 0\<close> free(1) add64_le [of "fx_total s" n] fit sz
    by (simp add: flex_map_def Let_def proto_def [symmetric] ch cong: if_cong)
  show ?thesis
  proof (cases r)
    case False
    then show ?thesis using run' by (auto simp: bind_eq_Some_conv split: if_splits)
  next
    case True
    have s': "s' = s\<lparr>fx_allocated := sort_key fb_vaddr (fx_allocated s @ blocks), fx_free := free, fx_total := fx_total s + n\<rparr>"
      using run' True by (auto simp: bind_eq_Some_conv split: if_splits)
    have "flex_ok base sz s'"
      using flex_ok_enter [OF ok bl(2-4) free(2,3)] by (simp add: s' okD(6) bl(5))
    moreover have "fb_access proto = (prot, mode, gpu)" by (simp add: proto_def fb_access_def)
    ultimately show ?thesis using True False bl free \<open>\<not> (n = 0 \<or> n > flex_available sz s)\<close>
      by (auto simp: s' simp del: sort_key_simps)
  qed
qed

lemma flex_unmap_cases:
  assumes ok: "flex_ok base sz s" and run: "flex_unmap os v n s g = Some (r, m, s', g')"
  shows "\<not> r \<and> s' = s \<or>
    r \<and> 0 < n \<and> v + n \<le> U64_MAX \<and> flex_ok base sz s' \<and> fx_total s' + n = fx_total s \<and>
    translation (fx_allocated s') = {p \<in> translation (fx_allocated s). fst p \<notin> span v n} \<and>
    (\<exists>rest removed free. unmap_blocks v n (fx_allocated s) (fx_free s) = (rest, removed, free) \<and>
       s' = s\<lparr>fx_allocated := rest, fx_free := free, fx_total := fx_total s - n\<rparr>)"
proof (cases r)
  case False
  then show ?thesis using run
    by (auto simp: flex_unmap_def bind_eq_Some_conv split: if_splits prod.splits)
next
  case True
  note okD = flex_okD [OF ok]
  obtain rest removed free where ub: "unmap_blocks v n (fx_allocated s) (fx_free s) = (rest, removed, free)"
    by (metis prod_cases3)
  have *: "\<not> (n = 0 \<or> U64_MAX - v < n)" "removed = n" "removed \<le> fx_total s"
    "s' = s\<lparr>fx_allocated := rest, fx_free := free, fx_total := fx_total s - removed\<rparr>"
    using run True by (auto simp: flex_unmap_def bind_eq_Some_conv ub split: if_splits prod.splits)
  then have v: "v + n \<le> U64_MAX" by linarith
  note spec = unmap_blocks_spec [OF okD(1-4) v ub]
  have "flex_ok base sz s'" using spec okD(5,6) *(2-4) by (auto simp: flex_ok_def)
  then show ?thesis using spec * v True ub by auto
qed

lemma flex_restore_cases:
  assumes ok: "flex_ok base sz s" and sz: "sz \<le> U64_MAX"
    and bl: "list_all fb_ok blocks" "unshared blocks" "fb_backing blocks \<subseteq> free_bytes (fx_free s)"
    and run: "flex_restore os blocks s g = Some (r, s', g')"
  shows "\<not> r \<and> s' = s \<or>
    r \<and> flex_ok base sz s' \<and> translation (fx_allocated s') = translation (fx_allocated s) \<union> translation blocks"
proof (cases r)
  case False
  then show ?thesis using run by (auto simp: flex_restore_def bind_eq_Some_conv split: if_splits)
next
  case True
  note okD = flex_okD [OF ok]
  obtain free where free: "consume_blocks False blocks (fx_free s) = Some free" "free_inv free"
    "free_bytes free = free_bytes (fx_free s) - fb_backing blocks"
    using consume_blocks_spec [OF okD(1) bl] by blast
  define t where "t = total_size (fx_allocated s) + total_size blocks"
  note ok' = flex_ok_enter [OF ok bl free(2,3), folded t_def]
  have "t \<le> sz" using flex_ok_total(1) [OF ok'] by simp
  have sum: "fold (\<lambda>b t. add64 t (fb_size b)) bs x = x + total_size bs" if "x + total_size bs \<le> U64_MAX" for bs x
    using that by (induction bs arbitrary: x) (auto simp: add64_le)
  have "fold (\<lambda>b t. add64 t (fb_size b)) blocks (fx_total s) = t"
    using sum [of "fx_total s" blocks] \<open>t \<le> sz\<close> sz by (simp add: t_def okD(6))
  then have "s' = s\<lparr>fx_allocated := sort_key fb_vaddr (fx_allocated s @ blocks), fx_free := free, fx_total := t\<rparr>"
    using run True free(1) by (auto simp: flex_restore_def bind_eq_Some_conv split: if_splits)
  then show ?thesis using True ok' by (simp del: sort_key_simps)
qed

text \<open>\<open>Protect\<close> only cuts pieces; \<open>reaccess\<close> is its effect on one address.\<close>

definition flex_reaccess :: "u64 \<Rightarrow> u64 \<Rightarrow> int \<times> vm_mode \<times> gpu_mode \<Rightarrow> fpoint \<Rightarrow> fpoint" where
  "flex_reaccess v n access p = (if fst p \<in> span v n then (fst p, fst (snd p), access) else p)"

lemma protect_parts_of_spec:
  fixes prot :: int and mode :: vm_mode and gpu :: gpu_mode
  assumes ok: "fb_ok b" and v: "v + n \<le> U64_MAX"
  defines "ls \<equiv> protect_parts_of v n prot mode gpu b"
  shows "list_all fb_ok ls \<and> unshared ls \<and> total_size ls = fb_size b \<and> fb_backing ls = span (fb_offset b) (fb_size b) \<and>
    translation ls = flex_reaccess v n (prot, mode, gpu) ` fb_pts b"
proof (cases "virtual_ranges_overlap v n (fb_vaddr b) (fb_size b)")
  case False
  have "flex_reaccess v n (prot, mode, gpu) ` fb_pts b = fb_pts b"
    using no_overlap_part [OF ok v False] by (force simp: fb_pts_def flex_reaccess_def)
  then show ?thesis using False ok by (simp add: ls_def protect_parts_of_def)
next
  case True
  define s where "s = max v (fb_vaddr b)"
  define e where "e = min (v + n) (add64 (fb_vaddr b) (fb_size b))"
  define o' where "o' = fb_offset b + (s - fb_vaddr b)"
  define m where "m = b\<lparr>fb_vaddr := s, fb_size := e - s, fb_offset := o', fb_prot := prot, fb_mode := mode, fb_gpu := gpu\<rparr>"
  note se = overlap_part [OF ok v True, folded s_def e_def]
  note cut = cut_block [OF ok se(1-3), folded o'_def]
  have ls: "ls = flex_left_part s b @ m # flex_right_part e b"
    using True by (simp add: ls_def protect_parts_of_def Let_def s_def [symmetric] e_def [symmetric] cut(6) m_def)
  have m: "fb_vaddr m = s" "fb_size m = e - s" "fb_offset m = o'" "fb_access m = (prot, mode, gpu)"
    by (simp_all add: m_def fb_access_def)
  have "fb_ok m" using cut(7) se ok by (auto simp: fb_ok_def m range_ok_def)
  moreover have "fb_pts m = flex_reaccess v n (prot, mode, gpu) ` {p \<in> fb_pts b. fst p \<in> {s..<e}}"
  proof -
    have "{p \<in> fb_pts b. fst p \<in> {s..<e}} = (\<lambda>a. (a, fb_offset b + (a - fb_vaddr b), fb_access b)) ` {s..<e}"
      using se by (auto simp: fb_pts_def span_iff)
    moreover have "fb_pts m = (\<lambda>a. (a, o' + (a - s), (prot, mode, gpu))) ` {s..<e}"
      using se by (auto simp: fb_pts_def m span_def)
    moreover have "(a, o' + (a - s), (prot, mode, gpu)) =
      flex_reaccess v n (prot, mode, gpu) (a, fb_offset b + (a - fb_vaddr b), fb_access b)" if "a \<in> {s..<e}" for a
    proof -
      have "a \<in> span v n" using that se(4) by blast
      then show ?thesis using that se by (simp add: flex_reaccess_def o'_def)
    qed
    ultimately show ?thesis by (simp only: image_image) (rule image_cong; simp only:)
  qed
  moreover have "flex_reaccess v n (prot, mode, gpu) ` {p \<in> fb_pts b. fst p \<notin> {s..<e}} = {p \<in> fb_pts b. fst p \<notin> {s..<e}}"
    unfolding fb_pts_outside [OF se(4)] by (force simp: flex_reaccess_def)
  moreover have "translation ls = fb_pts m \<union> {p \<in> fb_pts b. fst p \<notin> {s..<e}}" using cut(8) by (auto simp: ls)
  moreover have "flex_reaccess v n (prot, mode, gpu) ` fb_pts b =
    flex_reaccess v n (prot, mode, gpu) ` {p \<in> fb_pts b. fst p \<in> {s..<e}} \<union>
    flex_reaccess v n (prot, mode, gpu) ` {p \<in> fb_pts b. fst p \<notin> {s..<e}}"
    by (subst image_Un [symmetric], rule arg_cong [of _ _ "(`) _"]) blast
  ultimately have "fb_ok m" "translation ls = flex_reaccess v n (prot, mode, gpu) ` fb_pts b" by simp_all
  then show ?thesis using cut(1-5) by (auto simp: ls m)
qed

lemma concat_parts:
  assumes "\<And>b. b \<in> set bs \<Longrightarrow> list_all fb_ok (f b) \<and> unshared (f b) \<and> total_size (f b) = fb_size b \<and>
    fb_backing (f b) = span (fb_offset b) (fb_size b)" and "unshared bs"
  shows "list_all fb_ok (concat (map f bs)) \<and> unshared (concat (map f bs)) \<and> total_size (concat (map f bs)) = total_size bs \<and>
    fb_backing (concat (map f bs)) = fb_backing bs"
  using assms by (induction bs) auto

lemma flex_protect_ok:
  assumes "flex_ok base sz s"
  shows "flex_ok base sz (flex_protect v n prot mode gpu s)"
    and "0 < n \<Longrightarrow> v + n \<le> U64_MAX \<Longrightarrow> translation (fx_allocated (flex_protect v n prot mode gpu s)) =
      flex_reaccess v n (prot, mode, gpu) ` translation (fx_allocated s)"
proof -
  note okD = flex_okD [OF assms]
  have parts: "fb_ok b" if "b \<in> set (fx_allocated s)" for b using okD(2) that by (simp add: list_all_iff)
  show "flex_ok base sz (flex_protect v n prot mode gpu s)"
  proof (cases "n = 0 \<or> U64_MAX - v < n")
    case False
    then have v: "v + n \<le> U64_MAX" by linarith
    have "list_all fb_ok (concat (map (protect_parts_of v n prot mode gpu) (fx_allocated s))) \<and>
      unshared (concat (map (protect_parts_of v n prot mode gpu) (fx_allocated s))) \<and>
      total_size (concat (map (protect_parts_of v n prot mode gpu) (fx_allocated s))) = total_size (fx_allocated s) \<and>
      fb_backing (concat (map (protect_parts_of v n prot mode gpu) (fx_allocated s))) = fb_backing (fx_allocated s)"
      by (rule concat_parts) (use protect_parts_of_spec [OF parts v] okD(3) in simp_all)
    then show ?thesis using False okD by (simp add: flex_protect_def flex_ok_def)
  qed (simp add: flex_protect_def assms)
  assume "0 < n" and v: "v + n \<le> U64_MAX"
  then have "fx_allocated (flex_protect v n prot mode gpu s) = concat (map (protect_parts_of v n prot mode gpu) (fx_allocated s))"
    by (auto simp: flex_protect_def)
  then show "translation (fx_allocated (flex_protect v n prot mode gpu s)) =
      flex_reaccess v n (prot, mode, gpu) ` translation (fx_allocated s)"
    using protect_parts_of_spec [OF parts v] by (simp only: translation_def) (intro cover_concat_image; simp)
qed

lemma flex_set_name_ok:
  assumes "flex_ok base sz s"
  shows "flex_ok base sz (flex_set_name v n name s)" and "translation (fx_allocated (flex_set_name v n name s)) = translation (fx_allocated s)"
proof -
  define f :: "fblock \<Rightarrow> fblock" where "f b = (if virtual_ranges_overlap v n (fb_vaddr b) (fb_size b) then b\<lparr>fb_name := copy_virtual_range_name name\<rparr> else b)" for b
  have f: "fb_vaddr (f b) = fb_vaddr b" "fb_size (f b) = fb_size b" "fb_offset (f b) = fb_offset b" "fb_access (f b) = fb_access b" for b
    by (simp_all add: f_def fb_access_def)
  have al: "flex_set_name v n name s = s\<lparr>fx_allocated := map f (fx_allocated s)\<rparr>"
    by (simp add: flex_set_name_def f_def [abs_def])
  have own: "fb_backing (map f bs) = fb_backing bs" "total_size (map f bs) = total_size bs" for bs
    by (simp_all add: owned_def cover_def f blocks_size_def comp_def)
  have "unshared (map f bs) = unshared bs" "list_all fb_ok (map f bs) = list_all fb_ok bs" for bs
    by (simp_all add: unshared_blocks_def own list_all_iff fb_ok_def f)
  with own assms show "flex_ok base sz (flex_set_name v n name s)" by (simp add: al flex_ok_def)
  show "translation (fx_allocated (flex_set_name v n name s)) = translation (fx_allocated s)"
    by (simp add: al translation_def cover_def fb_pts_def f)
qed

end
