(* ===== verification/Flexible_History.thy ===== *)
theory Flexible_History
  imports Flexible_Facts
begin

text \<open>
  Whole histories of \<open>FlexibleMemory\<close>, and the unmapping that is taken back from a snapshot.
\<close>

section \<open>Histories\<close>

text \<open>
  The states the manager can be in after any calls that return, on any guest address space and under any host
  behaviour. The callers pass \<open>Map\<close> a range that ends inside the address space and \<open>Restore\<close> pieces that share no
  byte and begin in free memory; whether the rest of a piece is free is for the check of \<open>Restore\<close> to find out.
\<close>

lemma block_is_free_sound:
  assumes inv: "free_inv free" and st: "fb_offset b \<in> free_bytes free" and ok: "block_is_free free b"
  shows "span (fb_offset b) (fb_size b) \<subseteq> free_bytes free"
proof -
  have "span (fb_offset b) 1 \<subseteq> free_bytes free" using st le_antisym by (fastforce simp: span_iff)
  then obtain r where r: "r \<in> set free" "free_range_at (fb_offset b) free = Some r" "fst r \<le> fb_offset b" "fb_offset b + 1 \<le> fst r + snd r"
    using free_range_at_contains [OF inv] by (metis zero_less_one)
  have "fst r + snd r \<le> U64_MAX" using inv r(1) by (simp add: free_inv_def)
  then have "fb_size b \<le> fst r + snd r - fb_offset b" using ok r(2-4) by (simp add: block_is_free_def u64_simps)
  then have "span (fb_offset b) (fb_size b) \<subseteq> span (fst r) (snd r)" using r(3,4) by (auto simp: span_iff)
  moreover have "span (fst r) (snd r) \<subseteq> free_bytes free" using r(1) unfolding subset_iff free_bytes_iff by blast
  ultimately show ?thesis by (rule subset_trans)
qed

lemma flex_restore_guarded:
  assumes ok: "flex_ok base sz s" and sz: "sz \<le> U64_MAX" and bl: "list_all fb_ok blocks" "unshared blocks"
    and st: "list_all (\<lambda>b. fb_offset b \<in> free_bytes (fx_free s)) blocks" and run: "flex_restore os blocks s g = Some (r, s', g')"
  shows "\<not> r \<and> s' = s \<or> flex_ok base sz s'"
proof (cases "list_all (block_is_free (fx_free s)) blocks")
  case True
  have "span (fb_offset b) (fb_size b) \<subseteq> free_bytes (fx_free s)" if "b \<in> set blocks" for b
    using block_is_free_sound [OF flex_okD(1) [OF ok]] True st that by (simp add: list_all_iff)
  then have "fb_backing blocks \<subseteq> free_bytes (fx_free s)" unfolding owned_def cover_def by blast
  from flex_restore_cases [OF ok sz bl this run] ok show ?thesis by blast
next
  case False
  then show ?thesis using run by (simp add: flex_restore_def)
qed

inductive flex_reach :: "u64 \<Rightarrow> u64 \<Rightarrow> flex_mem \<Rightarrow> bool" for base sz where
  start: "flex_reach base sz (flex_init base sz)"
| map: "flex_reach base sz s \<Longrightarrow> v + n \<le> U64_MAX \<Longrightarrow> flex_map os sz v n prot mode gpu name s g = Some (r, s', g') \<Longrightarrow>
    flex_reach base sz s'"
| unmap: "flex_reach base sz s \<Longrightarrow> flex_unmap os v n s g = Some (r, m, s', g') \<Longrightarrow> flex_reach base sz s'"
| restore: "flex_reach base sz s \<Longrightarrow> list_all fb_ok blocks \<Longrightarrow> unshared blocks \<Longrightarrow>
    list_all (\<lambda>b. fb_offset b \<in> free_bytes (fx_free s)) blocks \<Longrightarrow> flex_restore os blocks s g = Some (r, s', g') \<Longrightarrow> flex_reach base sz s'"
| protect: "flex_reach base sz s \<Longrightarrow> flex_reach base sz (flex_protect v n prot mode gpu s)"
| name: "flex_reach base sz s \<Longrightarrow> flex_reach base sz (flex_set_name v n name s)"

lemma flex_reach_ok: "flex_reach base sz s \<Longrightarrow> range_ok base sz \<Longrightarrow> flex_ok base sz s"
proof (induction rule: flex_reach.induct)
  case start
  then show ?case by (rule flex_init_ok)
next
  case (map s v n os prot mode gpu name g r s' g')
  have "sz \<le> U64_MAX" using map.prems by (simp add: range_ok_def)
  from flex_map_cases [OF map.IH [OF map.prems] map.hyps(2) this map.hyps(3)] map.IH [OF map.prems]
  show ?case by blast
next
  case (unmap s os v n g r m s' g')
  from flex_unmap_cases [OF unmap.IH [OF unmap.prems] unmap.hyps(2)] unmap.IH [OF unmap.prems]
  show ?case by blast
next
  case (restore s blocks os g r s' g')
  have "sz \<le> U64_MAX" using restore.prems by (simp add: range_ok_def)
  from flex_restore_guarded [OF restore.IH [OF restore.prems] this restore.hyps(2-5)] restore.IH [OF restore.prems]
  show ?case by blast
qed (simp_all add: flex_protect_ok flex_set_name_ok)

text \<open>C10: Whatever the calls of Map, Unmap, Restore, Protect and SetVirtualRangeName, on any guest address space and
  with any answers of the host, where the pieces given to Restore share no byte and each begins in free memory (those of
  its only caller do; for others the check of Restore can wrap, see \<open>restore_check_wraps\<close>): the pieces in use and the free ranges share out exactly the configured range: no
  byte of the backing file is in two pieces, none is both free and in use and none is lost, the free ranges stay
  ordered and merged, and the reported available size is the number of free bytes.\<close>

theorem flex_history_partitions:
  assumes "flex_reach base sz s" and "range_ok base sz"
  shows "free_inv (fx_free s) \<and>
    fb_backing (fx_allocated s) \<inter> free_bytes (fx_free s) = {} \<and>
    fb_backing (fx_allocated s) \<union> free_bytes (fx_free s) = {base..<base + sz} \<and>
    \<not> (\<exists>i j. i < j \<and> j < length (fx_allocated s) \<and>
      span (fb_offset (fx_allocated s ! i)) (fb_size (fx_allocated s ! i)) \<inter>
      span (fb_offset (fx_allocated s ! j)) (fb_size (fx_allocated s ! j)) \<noteq> {}) \<and>
    fx_total s = sum_list (map fb_size (fx_allocated s)) \<and> fx_total s \<le> sz \<and>
    flex_available sz s = card (free_bytes (fx_free s))"
proof -
  note ok = flex_reach_ok [OF assms]
  note okD = flex_okD [OF ok] and tot = flex_ok_total [OF ok]
  have "sum_list (map snd (fx_free s)) = card (free_bytes (fx_free s))"
    using okD(1) by (intro free_total) (simp add: free_inv_def)
  then have "flex_available sz s = card (free_bytes (fx_free s))" using tot by (simp add: flex_available_def)
  then show ?thesis using okD tot(1) unshared_disjoint [OF okD(3)]
    by (simp add: span_def blocks_size_def)
qed

section \<open>Taking an unmapping back\<close>

lemma backing_translation: "fb_backing bs = (\<lambda>p. fst (snd p)) ` translation bs"
proof -
  have "span (fb_offset b) (fb_size b) = (\<lambda>p. fst (snd p)) ` fb_pts b" for b
  proof -
    have "(\<lambda>p. fst (snd p)) ` fb_pts b = (\<lambda>i. fb_offset b + i) ` (\<lambda>a. a - fb_vaddr b) ` span (fb_vaddr b) (fb_size b)"
      by (simp add: fb_pts_def image_image)
    also have "(\<lambda>a. a - fb_vaddr b) ` span (fb_vaddr b) (fb_size b) = {0..<fb_size b}"
      by (force simp: span_iff image_iff intro: bexI [of _ "x + fb_vaddr b" for x])
    also have "(\<lambda>i. fb_offset b + i) ` {0..<fb_size b} = span (fb_offset b) (fb_size b)" by (simp add: span_def add.commute)
    finally show ?thesis ..
  qed
  then show ?thesis by (simp add: owned_def translation_def cover_def image_UN)
qed

lemma unshared_address:
  "unshared bs \<Longrightarrow> (a, c, x) \<in> translation bs \<Longrightarrow> (a', c, y) \<in> translation bs \<Longrightarrow> a = a'"
proof (induction bs)
  case (Cons b bs)
  have c: "c \<in> fb_backing bs" if "(z, c, w) \<in> translation bs" for z w using that by (force simp: backing_translation)
  have d: "c \<in> span (fb_offset b) (fb_size b)" if "(z, c, w) \<in> fb_pts b" for z w using that by (auto simp: fb_pts_iff span_iff)
  have dj: "span (fb_offset b) (fb_size b) \<inter> fb_backing bs = {}" using Cons.prems(1) by simp
  show ?case
  proof (cases "(a, c, x) \<in> fb_pts b")
    case True
    then have "(a', c, y) \<in> fb_pts b" using Cons.prems(3) c [of a' y] d [of a x] True dj by auto
    with True show ?thesis by (auto simp: fb_pts_iff)
  next
    case False
    then have "(a, c, x) \<in> translation bs" using Cons.prems(2) by simp
    moreover from this have "(a', c, y) \<in> translation bs" using Cons.prems(3) c [of a x] d [of a' y] dj by auto
    ultimately show ?thesis using Cons.IH Cons.prems(1) by simp
  qed
qed simp

lemma block_is_free_spec:
  assumes "free_inv free" and "fb_ok b" and "span (fb_offset b) (fb_size b) \<subseteq> free_bytes free"
  shows "block_is_free free b"
proof -
  obtain r where r: "r \<in> set free" "free_range_at (fb_offset b) free = Some r" "fst r \<le> fb_offset b"
    "fb_offset b + fb_size b \<le> fst r + snd r"
    using free_range_at_contains [OF assms(1) _ assms(3)] assms(2) by (auto simp: fb_ok_def)
  have "fst r + snd r \<le> U64_MAX" using assms(1) r(1) by (simp add: free_inv_def)
  then show ?thesis using r(2-4) by (simp add: block_is_free_def u64_simps)
qed

text \<open>C32: A caller that takes a snapshot of a range before it unmaps the range can take the unmapping back. The pieces
  of the snapshot are free right after the unmapping, so Restore does not refuse them, and when Restore succeeds every
  address has its backing byte and its access again and the free list is the one from before.\<close>

theorem flex_unmap_restore_roundtrip:
  assumes ok: "flex_ok base sz s" and sz: "sz \<le> U64_MAX" and tl: "tiled fb_vaddr fb_size (fx_allocated s)"
    and snap: "flex_snapshot v n s = Some parts"
    and un: "flex_unmap os v n s g = Some (True, m, s1, g1)"
  shows "parts \<noteq> [] \<and> list_all (block_is_free (fx_free s1)) parts \<and>
    (flex_restore os' parts s1 g2 = Some (True, s2, g3) \<longrightarrow>
      translation (fx_allocated s2) = translation (fx_allocated s) \<and> fx_free s2 = fx_free s \<and>
      fx_total s2 = fx_total s \<and> flex_ok base sz s2)"
proof -
  note okD = flex_okD [OF ok]
  have v: "0 < n" "v + n \<le> U64_MAX" and walk: "snapshot_walk (v + n) v (fx_allocated s) = Some parts"
    using snap by (auto simp: flex_snapshot_def split: if_splits)
  have ps: "list_all fb_ok parts" "unshared parts" "chain fb_vaddr fb_size v parts (v + n)"
    "translation parts = {p \<in> translation (fx_allocated s). v \<le> fst p \<and> fst p < v + n}"
    using snapshot_walk_spec [OF walk _ v(2) tl okD(2,3)] v by auto
  have s1: "flex_ok base sz s1" "translation (fx_allocated s1) = {p \<in> translation (fx_allocated s). fst p \<notin> span v n}"
    using flex_unmap_cases [OF ok un] by auto
  note s1D = flex_okD [OF s1(1)]
  have sub: "fb_backing parts \<subseteq> free_bytes (fx_free s1)"
  proof
    fix c assume c: "c \<in> fb_backing parts"
    then obtain a x where a: "(a, c, x) \<in> translation (fx_allocated s)" "v \<le> a" "a < v + n"
      by (auto simp: backing_translation ps(4))
    have "c \<notin> fb_backing (fx_allocated s1)"
    proof
      assume "c \<in> fb_backing (fx_allocated s1)"
      then obtain a' y where "(a', c, y) \<in> translation (fx_allocated s)" "a' \<notin> span v n"
        by (auto simp: backing_translation s1(2))
      with unshared_address [OF okD(3) a(1)] a(2,3) show False by (auto simp: span_iff)
    qed
    moreover have "c \<in> fb_backing (fx_allocated s)" using a(1) by (force simp: backing_translation)
    ultimately show "c \<in> free_bytes (fx_free s1)" using okD(5) s1D(5) by blast
  qed
  have "list_all (block_is_free (fx_free s1)) parts"
    using ps(1) sub block_is_free_spec [OF s1D(1)] by (fastforce simp: list_all_iff owned_def cover_def)
  moreover have "parts \<noteq> []" using ps(3) v(1) by auto
  moreover have "translation (fx_allocated s2) = translation (fx_allocated s) \<and> fx_free s2 = fx_free s \<and>
      fx_total s2 = fx_total s \<and> flex_ok base sz s2" if run: "flex_restore os' parts s1 g2 = Some (True, s2, g3)"
  proof -
    have s2: "flex_ok base sz s2" "translation (fx_allocated s2) = translation (fx_allocated s1) \<union> translation parts"
      using flex_restore_cases [OF s1(1) sz ps(1,2) sub run] by auto
    note s2D = flex_okD [OF s2(1)]
    have tr: "translation (fx_allocated s2) = translation (fx_allocated s)" by (auto simp: s2(2) s1(2) ps(4) span_iff)
    then have bk: "fb_backing (fx_allocated s2) = fb_backing (fx_allocated s)" by (simp add: backing_translation)
    have "free_bytes (fx_free s2) = free_bytes (fx_free s)" using okD(4,5) s2D(4,5) bk by blast
    then have "fx_free s2 = fx_free s" using free_inv_canonical [OF s2D(1) okD(1)] by simp
    moreover have "fx_total s2 = fx_total s" using okD(3,6) s2D(3,6) bk by (simp add: unshared_blocks_def)
    ultimately show ?thesis using tr s2(1) by blast
  qed
  ultimately show ?thesis by blast
qed

section \<open>An example\<close>

text \<open>A range of 32 bytes behind direct memory of 32 bytes, and a guest address space with one free placeholder; \<open>Map\<close>
  fills the placeholder.\<close>

definition flex_space :: guest_space where
  "flex_space = \<lparr>gs_free = [(4096, 16)], gs_mapped = [], gs_owned = [(4096, 16)],
     gs_backing = \<lparr>gb_available = True, gb_size = 64, gb_maps = [], gb_bytes = (\<lambda>_. 1), gb_calls = 0\<rparr>\<rparr>"

definition flex_space_mapped :: guest_space where
  "flex_space_mapped = \<lparr>gs_free = [], gs_mapped = [(4096, \<lparr>mr_vaddr = 4096, mr_size = 16, mr_type = BackingMapping\<rparr>)],
     gs_owned = [(4096, 16)],
     gs_backing = \<lparr>gb_available = True, gb_size = 64,
       gb_maps = [(4096, \<lparr>me_vaddr = 4096, me_size = 16, me_offset = 32, me_mode = ReadWrite\<rparr>)],
       gb_bytes = (\<lambda>c. if c \<in> span 32 16 then 0 else 1), gb_calls = 1\<rparr>\<rparr>"

definition flex_piece :: fblock where
  "flex_piece = \<lparr>fb_vaddr = 4096, fb_size = 16, fb_offset = 32, fb_host_vaddr = 4096, fb_host_size = 16, fb_prot = 3,
     fb_mode = ReadWrite, fb_gpu = GpuNoAccess, fb_name = []\<rparr>"

definition flex_mapped :: flex_mem where
  "flex_mapped = \<lparr>fx_allocated = [flex_piece], fx_free = [(48, 16)], fx_total = 16\<rparr>"

lemmas flex_eval = Let_def U64_MAX_def add64_def sub64_def upper_bound_def upper_bound_by_def
  lower_bound_def lower_bound_by_def

lemma flex_space_map:
  "gs_map_backing (\<lambda>_. True) 4096 16 32 ReadWrite
     (flex_space\<lparr>gs_backing := gs_backing flex_space\<lparr>gb_bytes := (\<lambda>c. if c \<in> span 32 16 then 0 else 1)\<rparr>\<rparr>) =
   Some (FrNone, flex_space_mapped)"
  by (simp add: gs_map_backing_def flex_space_def flex_space_mapped_def consume_unlocked_def find_containing_free_def
      split_unlocked_def erase_key_def gb_map_fixed_def backing_range_ok_def os_call_def host_mode_def is_execute_def
      add_mapped_unlocked_def flex_eval)

lemma flex_example_map:
  "flex_map (\<lambda>_. True) 32 4096 16 3 ReadWrite GpuNoAccess None (flex_init 32 32) flex_space = Some (True, flex_mapped, flex_space_mapped)"
proof -
  have ch: "choose_blocks \<lparr>fb_vaddr = 0, fb_size = 0, fb_offset = 0, fb_host_vaddr = 4096, fb_host_size = 16, fb_prot = 3,
     fb_mode = ReadWrite, fb_gpu = GpuNoAccess, fb_name = copy_virtual_range_name None\<rparr> 4096 16 [(32, 32)] = ([flex_piece], 0)"
    by (simp add: flex_piece_def copy_virtual_range_name_def)
  have "zero_backing 32 16 flex_space =
    Some (flex_space\<lparr>gs_backing := gs_backing flex_space\<lparr>gb_bytes := (\<lambda>c. if c \<in> span 32 16 then 0 else 1)\<rparr>\<rparr>)"
    by (simp add: zero_backing_def gb_zero_range_def backing_range_ok_def flex_space_def cong: if_cong)
  then have mb: "map_blocks (\<lambda>_. True) True [] [flex_piece] flex_space = Some (True, flex_space_mapped)"
    using flex_space_map by (simp add: flex_piece_def)
  have "consume_blocks True [flex_piece] [(32, 32)] = Some [(48, 16)]"
    by (simp add: flex_piece_def free_range_at_def consume_free_range_def erase_key_def flex_eval)
  then show ?thesis
    by (simp add: flex_map_def flex_init_def flex_available_def Let_def ch mb flex_mapped_def add64_def
        del: choose_blocks.simps map_blocks.simps consume_blocks.simps)
qed

lemma flex_mapped_reach: "flex_reach 32 32 flex_mapped" and flex_range: "range_ok 32 32"
proof -
  show "flex_reach 32 32 flex_mapped"
    by (rule flex_reach.map [OF flex_reach.start _ flex_example_map]) (simp add: U64_MAX_def)
  show "range_ok 32 32" by (simp add: range_ok_def U64_MAX_def)
qed

lemma flex_history_partitions_witness:
  "flex_reach 32 32 flex_mapped \<and> range_ok 32 32 \<and> fx_total flex_mapped = 16 \<and>
   fb_backing (fx_allocated flex_mapped) \<union> free_bytes (fx_free flex_mapped) = {32..<32 + 32} \<and>
   flex_available 32 flex_mapped = card (free_bytes (fx_free flex_mapped))"
  using flex_history_partitions [OF flex_mapped_reach flex_range] flex_mapped_reach flex_range
  by (simp add: flex_mapped_def flex_piece_def)

lemma flex_example_unmap:
  "\<exists>s1 g1. flex_unmap (\<lambda>_. True) 4096 16 flex_mapped flex_space_mapped = Some (True, Some GpuNoAccess, s1, g1)"
proof -
  have fm: "find_mapped_containing 4096 (gs_mapped flex_space_mapped) =
    Some (4096, \<lparr>mr_vaddr = 4096, mr_size = 16, mr_type = BackingMapping\<rparr>)"
    by (simp add: find_mapped_containing_def flex_space_mapped_def mr_end_def flex_eval)
  have c: "contains_mapped_unlocked 4096 16 BackingMapping (gs_mapped flex_space_mapped)"
    by (simp add: contains_mapped_unlocked_def mapped_walk.simps [of 4096] mapped_walk.simps [of 4112] fm mr_end_def flex_eval)
  have cut: "cut_region 4096 4112 (4096, \<lparr>mr_vaddr = 4096, mr_size = 16, mr_type = BackingMapping\<rparr>) (gs_mapped flex_space_mapped) =
    Some (4112, [])"
    by (simp add: cut_region_def flex_space_mapped_def mr_end_def erase_key_def flex_eval)
  have r: "remove_mapped_unlocked 4096 16 BackingMapping (gs_mapped flex_space_mapped) = Some (True, [])"
    by (simp add: remove_mapped_unlocked_def c remove_mapped_walk.simps [of 4096] remove_mapped_walk.simps [of 4112] fm cut)
  have "\<exists>s. gb_unmap (\<lambda>_. True) 4096 16 (gs_backing flex_space_mapped) = Some (True, s)"
    by (simp add: gb_unmap_def flex_space_mapped_def parts_walk.simps find_containing_def me_end_def unmap_one.simps numeral_2_eq_2
      take_entry_def erase_key_def os_call_def flex_eval)
  then obtain s where "gb_unmap (\<lambda>_. True) 4096 16 (gs_backing flex_space_mapped) = Some (True, s)" ..
  then have g: "\<exists>g1. gs_unmap_backing (\<lambda>_. True) 4096 16 flex_space_mapped = Some (True, g1)"
    by (simp add: gs_unmap_backing_def c r)
  have "flex_walk 4112 4096 None (fx_allocated flex_mapped) = (4112, Some GpuNoAccess)"
    by (simp add: flex_mapped_def flex_piece_def flex_eval)
  moreover have "unmap_blocks 4096 16 (fx_allocated flex_mapped) (fx_free flex_mapped) =
    ([], 16, add_free_range 32 16 [(48, 16)])"
    by (simp add: flex_mapped_def flex_piece_def virtual_ranges_overlap_def sat_end_def flex_left_part_def flex_right_part_def flex_eval)
  ultimately show ?thesis using g
    by (auto simp: flex_unmap_def U64_MAX_def flex_mapped_def)
qed

lemma flex_unmap_restore_roundtrip_witness:
  "\<exists>s1 g1. flex_unmap (\<lambda>_. True) 4096 16 flex_mapped flex_space_mapped = Some (True, Some GpuNoAccess, s1, g1) \<and>
     flex_snapshot 4096 16 flex_mapped = Some [flex_piece] \<and> block_is_free (fx_free s1) flex_piece"
proof -
  obtain s1 g1 where un: "flex_unmap (\<lambda>_. True) 4096 16 flex_mapped flex_space_mapped = Some (True, Some GpuNoAccess, s1, g1)"
    using flex_example_unmap by blast
  have snap: "flex_snapshot 4096 16 flex_mapped = Some [flex_piece]"
    by (simp add: flex_snapshot_def flex_mapped_def flex_piece_def flex_eval)
  have tl: "tiled fb_vaddr fb_size (fx_allocated flex_mapped)"
    by (simp add: flex_mapped_def flex_piece_def range_ok_def U64_MAX_def)
  have "(32 :: u64) \<le> U64_MAX" by (simp add: U64_MAX_def)
  from flex_unmap_restore_roundtrip [OF flex_reach_ok [OF flex_mapped_reach flex_range] this tl snap un] un snap
  show ?thesis by auto
qed

text \<open>The test of \<open>Restore\<close> subtracts the offset of a piece from the end of the last free range that begins before it.
  Behind that end the difference wraps, and a piece passes although none of its bytes is free.\<close>

lemma restore_check_wraps:
  "block_is_free [(0, 16)] flex_piece \<and> span (fb_offset flex_piece) (fb_size flex_piece) \<inter> free_bytes [(0, 16)] = {}"
  by (auto simp: block_is_free_def free_range_at_def flex_piece_def span_iff flex_eval)

end
