(* ===== verification/Pooled_Memory.thy ===== *)
theory Pooled_Memory
  imports Guest_Space
begin

text \<open>
  \<open>PooledMemory\<close> of \<open>src/src/kernel/memory.cpp\<close>: direct memory given to the pool in expansions and handed out in
  pieces to committed virtual ranges. \<open>m_free\<close> and \<open>m_expansions\<close> hold ranges as pairs of begin and size. Each method
  runs under the mutex of the class, so it is one step.
\<close>

type_synonym prange = "u64 \<times> u64"

record pmapping =
  pg_vaddr :: u64
  pg_size :: u64
  pg_phys :: u64
  pg_gpu :: gpu_mode

record pool =
  pl_free :: "prange list"
  pl_expansions :: "prange list"
  pl_mappings :: "pmapping list"

definition range_end :: "prange \<Rightarrow> u64" where
  "range_end r = add64 (fst r) (snd r)"

definition pg_end :: "pmapping \<Rightarrow> u64" where
  "pg_end m = add64 (pg_vaddr m) (pg_size m)"

subsection \<open>The free ranges\<close>

text \<open>The loop of \<open>AddFreeUnlocked\<close>; the merged ranges are in reverse order, so \<open>merged.back()\<close> is the head.
  \<open>std::sort\<close> is a sort by the begin; begins are distinct for ranges that are not empty and do not overlap.\<close>

fun merge_ranges :: "prange list \<Rightarrow> prange list \<Rightarrow> prange list" where
  "merge_ranges merged [] = rev merged"
| "merge_ranges merged (r # rs) =
     (case merged of
        [] \<Rightarrow> merge_ranges [r] rs
      | last' # before \<Rightarrow>
          if fst r \<le> range_end last'
          then let end = max (range_end last') (range_end r) in merge_ranges ((fst last', sub64 end (fst last')) # before) rs
          else merge_ranges (r # merged) rs)"

definition pool_add_free :: "u64 \<Rightarrow> u64 \<Rightarrow> prange list \<Rightarrow> prange list" where
  "pool_add_free start size' free =
     (if size' = 0 then free else merge_ranges [] (sort_key fst (free @ [(start, size')])))"

definition pool_expand :: "u64 \<Rightarrow> u64 \<Rightarrow> pool \<Rightarrow> pool" where
  "pool_expand phys_addr size' p =
     p\<lparr>pl_expansions := pl_expansions p @ [(phys_addr, size')], pl_free := pool_add_free phys_addr size' (pl_free p)\<rparr>"

text \<open>\<open>erase\<close> of the element that \<open>find_if\<close> returned is \<open>remove1\<close>: the first one equal to it.\<close>

definition pool_release_expansion :: "u64 \<Rightarrow> u64 \<Rightarrow> pool \<Rightarrow> bool \<times> pool" where
  "pool_release_expansion phys_addr size' p =
     (if (phys_addr, size') \<notin> set (pl_expansions p) then (False, p)
      else if list_ex (\<lambda>m. virtual_ranges_overlap phys_addr size' (pg_phys m) (pg_size m)) (pl_mappings p) then (False, p)
      else
        let end = add64 phys_addr size'
        in case find (\<lambda>r. phys_addr \<ge> fst r \<and> end \<le> range_end r) (pl_free p) of
            None \<Rightarrow> (False, p)
          | Some old \<Rightarrow>
              let left_size = sub64 phys_addr (fst old); right_size = sub64 (range_end old) end;
                  free = remove1 old (pl_free p);
                  free = (if left_size \<noteq> 0 then free @ [(fst old, left_size)] else free);
                  free = (if right_size \<noteq> 0 then free @ [(end, right_size)] else free)
              in (True, p\<lparr>pl_free := sort_key fst free, pl_expansions := remove1 (phys_addr, size') (pl_expansions p)\<rparr>))"

subsection \<open>Allocation\<close>

text \<open>The loop over the copy of the free ranges: the pieces taken, what is left of the ranges and what is missing.\<close>

fun take_ranges :: "gpu_mode \<Rightarrow> u64 \<Rightarrow> u64 \<Rightarrow> prange list \<Rightarrow> pmapping list \<times> prange list \<times> u64" where
  "take_ranges gpu current remaining' [] = ([], [], remaining')"
| "take_ranges gpu current remaining' (r # rs) =
     (if remaining' = 0 \<or> snd r = 0
      then case take_ranges gpu current remaining' rs of (ms, free, missing) \<Rightarrow> (ms, r # free, missing)
      else
        let part_size = min (snd r) remaining';
            (ms, free, missing) = take_ranges gpu (add64 current part_size) (remaining' - part_size) rs
        in (\<lparr>pg_vaddr = current, pg_size = part_size, pg_phys = fst r, pg_gpu = gpu\<rparr> # ms,
            (add64 (fst r) part_size, snd r - part_size) # free, missing))"

text \<open>The result \<open>None\<close> is false, which leaves the list of mappings empty.\<close>

definition pool_allocate :: "u64 \<Rightarrow> u64 \<Rightarrow> gpu_mode \<Rightarrow> pool \<Rightarrow> pmapping list option \<times> pool" where
  "pool_allocate vaddr size' gpu p =
     (if vaddr = 0 \<or> size' = 0 \<or> U64_MAX - vaddr < size' then (None, p)
      else case take_ranges gpu vaddr size' (pl_free p) of
          (ms, free, missing) \<Rightarrow>
            if missing \<noteq> 0 then (None, p)
            else (Some ms, p\<lparr>pl_free := filter (\<lambda>r. snd r \<noteq> 0) free, pl_mappings := pl_mappings p @ ms\<rparr>))"

subsection \<open>Queries\<close>

definition find_pooled :: "u64 \<Rightarrow> pmapping list \<Rightarrow> pmapping option" where
  "find_pooled current ms = find (\<lambda>m. current \<ge> pg_vaddr m \<and> current < pg_end m) ms"

lemma find_pooled_progress: "find_pooled c ms = Some m \<Longrightarrow> c < pg_end m"
  by (auto simp: find_pooled_def find_Some_iff)

function query_walk :: "u64 \<Rightarrow> u64 \<Rightarrow> pmapping list \<Rightarrow> pmapping list option" where
  "query_walk current end ms =
     (if current < end then
        (case find_pooled current ms of
           None \<Rightarrow> None
         | Some m \<Rightarrow>
             let part_size = min end (pg_end m) - current;
                 part = \<lparr>pg_vaddr = current, pg_size = part_size, pg_phys = add64 (pg_phys m) (current - pg_vaddr m),
                         pg_gpu = pg_gpu m\<rparr>
             in map_option (\<lambda>parts. part # parts) (query_walk (current + part_size) end ms))
      else Some [])"
  by auto
termination
  by (relation "measure (\<lambda>(current, end, ms). end - current)") (auto dest!: find_pooled_progress)

declare query_walk.simps [simp del]

definition pool_query :: "u64 \<Rightarrow> u64 \<Rightarrow> pool \<Rightarrow> pmapping list option" where
  "pool_query vaddr size' p =
     (if vaddr = 0 \<or> size' = 0 \<or> U64_MAX - vaddr < size' then None
      else query_walk vaddr (vaddr + size') (pl_mappings p))"

subsection \<open>Release\<close>

definition keep_parts :: "u64 \<Rightarrow> u64 \<Rightarrow> pmapping \<Rightarrow> pmapping list" where
  "keep_parts vaddr end m =
     (let cut_start = max vaddr (pg_vaddr m); cut_end = min end (pg_end m)
      in if cut_start \<ge> cut_end then [m]
         else (if pg_vaddr m < cut_start then [m\<lparr>pg_size := cut_start - pg_vaddr m\<rparr>] else []) @
              (if cut_end < pg_end m
               then [m\<lparr>pg_vaddr := cut_end, pg_size := pg_end m - cut_end,
                       pg_phys := add64 (pg_phys m) (cut_end - pg_vaddr m)\<rparr>] else []))"

text \<open>The result is the GPU access of the first mapping; \<open>None\<close> is the result false.\<close>

definition pool_release :: "u64 \<Rightarrow> u64 \<Rightarrow> pool \<Rightarrow> gpu_mode option \<times> pool" where
  "pool_release vaddr size' p =
     (case pool_query vaddr size' p of
        None \<Rightarrow> (None, p)
      | Some released \<Rightarrow>
          (Some (pg_gpu (hd released)),
           p\<lparr>pl_mappings := concat (map (keep_parts vaddr (vaddr + size')) (pl_mappings p)),
             pl_free := fold (\<lambda>m free. pool_add_free (pg_phys m) (pg_size m) free) released (pl_free p)\<rparr>))"

definition pool_available :: "pool \<Rightarrow> u64" where
  "pool_available p = fold (\<lambda>r available. add64 available (snd r)) (pl_free p) 0"

subsection \<open>\<open>UnmapPooledBackingTransactional\<close>\<close>

fun remap_pooled :: "(nat \<Rightarrow> bool) \<Rightarrow> vm_mode \<Rightarrow> pmapping list \<Rightarrow> guest_space \<Rightarrow> guest_space option" where
  "remap_pooled os mode [] g = Some g"
| "remap_pooled os mode (m # removed) g = do {
     (reason, g) \<leftarrow> gs_map_backing os (pg_vaddr m) (pg_size m) (pg_phys m) mode g;
     if reason \<noteq> FrNone then None else remap_pooled os mode removed g }"

fun unmap_pooled :: "(nat \<Rightarrow> bool) \<Rightarrow> vm_mode \<Rightarrow> pmapping list \<Rightarrow> pmapping list \<Rightarrow> guest_space \<Rightarrow> (bool \<times> guest_space) option" where
  "unmap_pooled os mode removed [] g = Some (True, g)"
| "unmap_pooled os mode removed (m # ms) g = do {
     (unmapped, g) \<leftarrow> gs_unmap_backing os (pg_vaddr m) (pg_size m) g;
     if unmapped then unmap_pooled os mode (m # removed) ms g
     else do { g \<leftarrow> remap_pooled os mode removed g; Some (False, g) } }"

end
