(* ===== verification/Pooled_Facts.thy ===== *)
theory Pooled_Facts
  imports Pooled_Memory Shares
begin

text \<open>
  The correctness of \<open>PooledMemory\<close>: every byte of an expansion is either free or behind exactly one committed address,
  through every history of the pool, and a query returns the bytes behind a range exactly when all of it is committed.
\<close>

abbreviation pg_points :: "pmapping list \<Rightarrow> (nat \<times> nat \<times> gpu_mode) set" where
  "pg_points \<equiv> points pg_vaddr pg_phys pg_size pg_gpu"

definition pg_ok :: "pmapping \<Rightarrow> bool" where
  "pg_ok m \<longleftrightarrow> 0 < pg_size m \<and> pg_vaddr m + pg_size m \<le> U64_MAX \<and> pg_phys m + pg_size m \<le> U64_MAX"

lemma pg_end_eq: "pg_ok m \<Longrightarrow> pg_end m = pg_vaddr m + pg_size m"
  by (simp add: pg_end_def pg_ok_def add64_le)

section \<open>The free ranges\<close>

lemma merge_ranges_spec:
  assumes "apart (ivals_of (rev merged))" and "\<forall>r \<in> set merged \<union> set rs. range_ok (fst r) (snd r)"
    and "sorted (map fst rs)" and "merged \<noteq> [] \<Longrightarrow> \<forall>r \<in> set rs. fst (hd merged) \<le> fst r"
  shows "free_inv (merge_ranges merged rs) \<and> free_bytes (merge_ranges merged rs) = free_bytes merged \<union> free_bytes rs"
  using assms
proof (induction merged rs rule: merge_ranges.induct)
  case (1 merged)
  have "free_bytes (rev merged) = free_bytes merged" by (auto simp: free_bytes_iff)
  with 1 show ?case by (auto simp: free_inv_def range_ok_def)
next
  case (2 merged r rs)
  have rok: "fst r + snd r \<le> U64_MAX" "0 < snd r" using 2(5) by (auto simp: range_ok_def)
  show ?case
  proof (cases merged)
    case Nil
    then show ?thesis using 2 rok by auto
  next
    case (Cons l before)
    have lok: "fst l + snd l \<le> U64_MAX" "0 < snd l" using 2(5) Cons by (auto simp: range_ok_def)
    have ends: "range_end l = fst l + snd l" "range_end r = fst r + snd r" using rok lok by (simp_all add: range_end_def add64_le)
    have lr: "fst l \<le> fst r" using 2(7) Cons by simp
    show ?thesis
    proof (cases "fst r \<le> range_end l")
      case True
      define e where "e = max (fst l + snd l) (fst r + snd r)"
      have e: "sub64 e (fst l) = e - fst l" "fst l < e" "e \<le> U64_MAX" using rok lok by (auto simp: e_def sub64_le)
      have "free_inv (merge_ranges ((fst l, e - fst l) # before) rs) \<and>
        free_bytes (merge_ranges ((fst l, e - fst l) # before) rs) = free_bytes ((fst l, e - fst l) # before) \<union> free_bytes rs"
        using 2(2) [OF Cons True refl] 2(4-7) Cons e by (auto simp: ends e_def [symmetric] range_ok_def set_ivals_of)
      moreover have "span (fst l) (e - fst l) = span (fst l) (snd l) \<union> span (fst r) (snd r)"
        using True lr by (auto simp: span_iff e_def ends)
      ultimately show ?thesis using True Cons e by (auto simp: ends e_def [symmetric])
    next
      case False
      have "free_inv (merge_ranges (r # merged) rs) \<and>
        free_bytes (merge_ranges (r # merged) rs) = free_bytes (r # merged) \<union> free_bytes rs"
      proof (rule 2(3) [OF Cons False])
        show "apart (ivals_of (rev (r # merged)))"
          using 2(4) Cons False ends lr rok apart_last [of "ivals_of (rev merged)"]
          by (fastforce simp: set_ivals_of)
      qed (use 2(5,6) in auto)
      then show ?thesis using False Cons by auto
    qed
  qed
qed

lemma pool_add_free_spec:
  assumes "free_inv free" and "range_ok a n"
  shows "free_inv (pool_add_free a n free)" and "free_bytes (pool_add_free a n free) = free_bytes free \<union> span a n"
proof -
  have ok: "\<forall>r \<in> set (free @ [(a, n)]). range_ok (fst r) (snd r)" using assms free_inv_range by auto
  have "free_bytes (sort_key fst (free @ [(a, n)])) = free_bytes (free @ [(a, n)])"
    unfolding free_bytes_iff set_eq_iff by simp
  then show "free_inv (pool_add_free a n free)" and "free_bytes (pool_add_free a n free) = free_bytes free \<union> span a n"
    using merge_ranges_spec [of "[]" "sort_key fst (free @ [(a, n)])"] ok assms(2)
    by (auto simp: pool_add_free_def range_ok_def simp del: sort_key_simps)
qed

text \<open>So the pool merges its free ranges exactly as the other two managers do.\<close>

lemma pool_add_free_eq: "free_inv free \<Longrightarrow> range_ok a n \<Longrightarrow> pool_add_free a n free = add_free_range a n free"
  by (rule free_inv_canonical) (simp_all add: pool_add_free_spec add_free_range_correct)

lemma take_ranges_none: "take_ranges gpu current 0 free = ([], free, 0)"
  by (induction free) auto

lemma take_ranges_spec:
  assumes "apart (ivals_of free)" and "\<forall>r \<in> set free. fst r + snd r \<le> U64_MAX" and "current + need \<le> U64_MAX"
    and "take_ranges gpu current need free = (ms, left', missing)"
  shows "missing = need - sum_list (map snd free) \<and> chain pg_vaddr pg_size current ms (current + (need - missing)) \<and>
    list_all pg_ok ms \<and> unshared_blocks pg_phys pg_size ms \<and> (\<forall>m \<in> set ms. pg_gpu m = gpu) \<and>
    owned pg_phys pg_size ms \<subseteq> free_bytes free \<and>
    apart (ivals_of (filter (\<lambda>r. snd r \<noteq> 0) left')) \<and>
    (\<forall>r \<in> set left'. fst r + snd r \<le> U64_MAX \<and> (\<exists>q \<in> set free. fst q \<le> fst r \<and> fst r + snd r = fst q + snd q)) \<and>
    free_bytes (filter (\<lambda>r. snd r \<noteq> 0) left') = free_bytes free - owned pg_phys pg_size ms"
  using assms
proof (induction free arbitrary: current need ms left' missing)
  case Nil
  then show ?case by simp
next
  case (Cons r free)
  have ap: "0 < snd r" "apart (ivals_of free)" "\<forall>q \<in> set free. fst r + snd r < fst q" "fst r + snd r \<le> U64_MAX"
    using Cons.prems(1,2) by (auto simp: set_ivals_of)
  have dj: "span (fst r) (snd r) \<inter> free_bytes free = {}" using ap(3) by (force simp: free_bytes_iff span_iff)
  show ?case
  proof (cases "need = 0")
    case True
    have "ms = []" "left' = r # free" "missing = 0" using Cons.prems(4) by (auto simp: True take_ranges_none)
    moreover have "filter (\<lambda>r. snd r \<noteq> 0) free = free"
      using ap(2) by (force simp: filter_id_conv set_ivals_of dest!: apart_nonempty)
    ultimately show ?thesis using ap Cons.prems(2) True by (auto simp: set_ivals_of)
  next
    case False
    define part where "part = min (snd r) need"
    have part: "0 < part" "part \<le> need" "part \<le> snd r" using ap False by (auto simp: part_def)
    have nxt: "add64 current part = current + part" "add64 (fst r) part = fst r + part"
      using part ap Cons.prems(3) by (simp_all add: add64_le)
    obtain ms' l' where l': "take_ranges gpu (current + part) (need - part) free = (ms', l', missing)"
      "ms = \<lparr>pg_vaddr = current, pg_size = part, pg_phys = fst r, pg_gpu = gpu\<rparr> # ms'" "left' = (fst r + part, snd r - part) # l'"
      using Cons.prems(4) False ap(1) by (auto simp: Let_def part_def [symmetric] nxt split: prod.splits)
    have IH: "missing = need - part - sum_list (map snd free)"
      "chain pg_vaddr pg_size (current + part) ms' (current + part + (need - part - missing))"
      "list_all pg_ok ms'" "unshared_blocks pg_phys pg_size ms'" "\<forall>m \<in> set ms'. pg_gpu m = gpu"
      "owned pg_phys pg_size ms' \<subseteq> free_bytes free" "apart (ivals_of (filter (\<lambda>r. snd r \<noteq> 0) l'))"
      "\<forall>r \<in> set l'. fst r + snd r \<le> U64_MAX \<and> (\<exists>q \<in> set free. fst q \<le> fst r \<and> fst r + snd r = fst q + snd q)"
      "free_bytes (filter (\<lambda>r. snd r \<noteq> 0) l') = free_bytes free - owned pg_phys pg_size ms'"
      using Cons.IH [OF ap(2) _ _ l'(1)] Cons.prems(2,3) part by auto
    have sub: "span (fst r) part \<subseteq> span (fst r) (snd r)" using part by (auto simp: span_iff)
    have miss: "missing = need - sum_list (map snd (r # free))"
    proof (cases "need \<le> snd r")
      case False
      then show ?thesis using IH(1) by (simp add: part_def)
    qed (simp add: IH(1) part_def)
    have ch: "chain pg_vaddr pg_size current ms (current + (need - missing))"
      using IH(1,2) part by (simp add: l'(2))
    have unsh: "unshared_blocks pg_phys pg_size ms" "owned pg_phys pg_size ms \<subseteq> free_bytes (r # free)"
      using IH(4,6) dj sub by (auto simp: l'(2))
    have bytes: "free_bytes (filter (\<lambda>r. snd r \<noteq> 0) left') = free_bytes (r # free) - owned pg_phys pg_size ms"
    proof -
      have "span (fst r + part) (snd r - part) = span (fst r) (snd r) - span (fst r) part" by (auto simp: span_iff)
      moreover have "free_bytes (filter (\<lambda>r. snd r \<noteq> 0) left') =
        span (fst r + part) (snd r - part) \<union> free_bytes (filter (\<lambda>r. snd r \<noteq> 0) l')" by (simp add: l'(3))
      ultimately show ?thesis using IH(6,9) dj sub by (simp add: l'(2)) blast
    qed
    have after: "\<forall>q \<in> set l'. fst r + snd r < fst q" using IH(8) ap(3) by fastforce
    then have "apart (ivals_of (filter (\<lambda>r. snd r \<noteq> 0) left'))"
      using IH(7) part by (auto simp: l'(3) set_ivals_of)
    moreover have "\<forall>r' \<in> set left'. fst r' + snd r' \<le> U64_MAX \<and> (\<exists>q \<in> set (r # free). fst q \<le> fst r' \<and> fst r' + snd r' = fst q + snd q)"
      using IH(8) ap(4) part by (auto simp: l'(3))
    moreover have "list_all pg_ok ms" using IH(3) part ap(4) Cons.prems(3) by (simp add: l'(2) pg_ok_def)
    ultimately show ?thesis using miss ch unsh bytes IH(5) by (simp add: l'(2))
  qed
qed

section \<open>Queries and releases\<close>

lemma find_pooled_Some:
  assumes "find_pooled c ms = Some m" and "list_all pg_ok ms"
  shows "m \<in> set ms" and "pg_ok m" and "pg_vaddr m \<le> c" and "c < pg_vaddr m + pg_size m"
proof -
  show m: "m \<in> set ms" using assms(1) by (auto simp: find_pooled_def find_Some_iff)
  then show ok: "pg_ok m" using assms(2) by (simp add: list_all_iff)
  show "pg_vaddr m \<le> c" and "c < pg_vaddr m + pg_size m"
    using assms(1) pg_end_eq [OF ok] by (auto simp: find_pooled_def find_Some_iff)
qed

lemma find_pooled_None:
  "find_pooled c ms = None \<Longrightarrow> list_all pg_ok ms \<Longrightarrow> c \<notin> owned pg_vaddr pg_size ms"
  by (auto simp: find_pooled_def find_None_iff owned_iff list_all_iff pg_end_eq)

lemma query_walk_spec:
  assumes "list_all pg_ok ms" and "unshared_blocks pg_vaddr pg_size ms" and "current \<le> end" and "end \<le> U64_MAX"
  shows "case query_walk current end ms of
      None \<Rightarrow> \<not> {current..<end} \<subseteq> owned pg_vaddr pg_size ms
    | Some ps \<Rightarrow> {current..<end} \<subseteq> owned pg_vaddr pg_size ms \<and> chain pg_vaddr pg_size current ps end \<and> list_all pg_ok ps \<and>
        pg_points ps = {p \<in> pg_points ms. current \<le> fst p \<and> fst p < end}"
  using assms
proof (induction current "end" ms rule: query_walk.induct)
  case (1 current e ms)
  show ?case
  proof (cases "current < e")
    case False
    then show ?thesis using 1(4) by (simp add: query_walk.simps)
  next
    case True
    show ?thesis
    proof (cases "find_pooled current ms")
      case None
      then show ?thesis using find_pooled_None [OF None 1(2)] True by (auto simp: query_walk.simps [of current])
    next
      case (Some m)
      note m = find_pooled_Some [OF Some 1(2)]
      define n where "n = min e (pg_end m) - current"
      define part where "part = \<lparr>pg_vaddr = current, pg_size = n, pg_phys = add64 (pg_phys m) (current - pg_vaddr m), pg_gpu = pg_gpu m\<rparr>"
      have n: "0 < n" "current + n \<le> e" "current + n \<le> pg_vaddr m + pg_size m"
        using True m(2-4) by (auto simp: n_def pg_end_eq)
      have ph: "pg_phys part = pg_phys m + (current - pg_vaddr m)"
        using m(2-4) add64_le [of "pg_phys m" "current - pg_vaddr m"] by (auto simp: part_def pg_ok_def)
      have p: "pg_vaddr part = current" "pg_size part = n" "pg_gpu part = pg_gpu m" by (simp_all add: part_def)
      have pok: "pg_ok part" using n m(2,3) 1(5) by (auto simp: pg_ok_def ph p)
      have walk: "query_walk current e ms = map_option (\<lambda>parts. part # parts) (query_walk (current + n) e ms)"
        using True Some by (simp add: query_walk.simps [of current] Let_def n_def part_def)
      have IH: "case query_walk (current + n) e ms of
        None \<Rightarrow> \<not> {current + n..<e} \<subseteq> owned pg_vaddr pg_size ms
      | Some ps \<Rightarrow> {current + n..<e} \<subseteq> owned pg_vaddr pg_size ms \<and> chain pg_vaddr pg_size (current + n) ps e \<and> list_all pg_ok ps \<and>
        pg_points ps = {p \<in> pg_points ms. current + n \<le> fst p \<and> fst p < e}"
        using 1(1) [OF True Some n_def] 1(2,3,5) n by simp
      have own: "{current..<current + n} \<subseteq> owned pg_vaddr pg_size ms"
        using m n by (auto simp: owned_iff intro!: bexI [of _ m])
      have split: "{current..<e} = {current..<current + n} \<union> {current + n..<e}" using n by auto
      have here: "block_points pg_vaddr pg_phys pg_size pg_gpu part = {p \<in> pg_points ms. current \<le> fst p \<and> fst p < current + n}"
      proof
        show "block_points pg_vaddr pg_phys pg_size pg_gpu part \<subseteq> {p \<in> pg_points ms. current \<le> fst p \<and> fst p < current + n}"
          using m n by (auto simp: block_points_iff points_def cover_iff p ph intro!: bexI [of _ m])
        show "{p \<in> pg_points ms. current \<le> fst p \<and> fst p < current + n} \<subseteq> block_points pg_vaddr pg_phys pg_size pg_gpu part"
        proof
          fix q assume q: "q \<in> {p \<in> pg_points ms. current \<le> fst p \<and> fst p < current + n}"
          let ?q = "(fst q, pg_phys m + (fst q - pg_vaddr m), pg_gpu m)"
          have "?q \<in> pg_points ms" using q m n by (auto simp: points_def cover_iff block_points_iff intro!: bexI [of _ m])
          then have "q = ?q" using q inj_onD [OF points_address_inj [OF 1(3)], of q ?q pg_phys pg_gpu] by auto
          then show "q \<in> block_points pg_vaddr pg_phys pg_size pg_gpu part"
            using q m n by (cases q) (auto simp: block_points_iff p ph)
        qed
      qed
      show ?thesis
      proof (cases "query_walk (current + n) e ms")
        case None
        then show ?thesis using IH split by (auto simp: walk)
      next
        case (Some ps)
        have "{p \<in> pg_points ms. current \<le> fst p \<and> fst p < e} =
          {p \<in> pg_points ms. current \<le> fst p \<and> fst p < current + n} \<union> {p \<in> pg_points ms. current + n \<le> fst p \<and> fst p < e}"
          using n by auto
        then show ?thesis using IH Some own split here pok n by (auto simp: walk p)
      qed
    qed
  qed
qed

lemma keep_parts_spec:
  assumes ok: "pg_ok m" and "v < e"
  shows "list_all pg_ok (keep_parts v e m)" and "unshared_blocks pg_vaddr pg_size (keep_parts v e m)"
    and "owned pg_vaddr pg_size (keep_parts v e m) \<subseteq> span (pg_vaddr m) (pg_size m)"
    and "pg_points (keep_parts v e m) = {p \<in> block_points pg_vaddr pg_phys pg_size pg_gpu m. \<not> (v \<le> fst p \<and> fst p < e)}"
proof -
  have ends: "pg_end m = pg_vaddr m + pg_size m" by (rule pg_end_eq [OF ok])
  have ph: "add64 (pg_phys m) (c - pg_vaddr m) = pg_phys m + (c - pg_vaddr m)"
    if "c \<le> pg_vaddr m + pg_size m" for c using that ok by (intro add64_le) (auto simp: pg_ok_def)
  note parts = keep_parts_def Let_def ends
  show "list_all pg_ok (keep_parts v e m)" using ok ph [of e] by (auto simp: parts pg_ok_def)
  show "unshared_blocks pg_vaddr pg_size (keep_parts v e m)" using assms(2) by (auto simp: parts span_disjoint)
  show "owned pg_vaddr pg_size (keep_parts v e m) \<subseteq> span (pg_vaddr m) (pg_size m)"
    by (auto simp: parts span_iff owned_iff split: if_splits)
  show "pg_points (keep_parts v e m) = {p \<in> block_points pg_vaddr pg_phys pg_size pg_gpu m. \<not> (v \<le> fst p \<and> fst p < e)}"
    using ok assms(2) ph [of e] by (auto simp: parts block_points_iff)
qed

lemma free_fold_spec:
  "free_inv free \<Longrightarrow> list_all pg_ok ms \<Longrightarrow>
   free_inv (fold (\<lambda>m. pool_add_free (pg_phys m) (pg_size m)) ms free) \<and>
   free_bytes (fold (\<lambda>m. pool_add_free (pg_phys m) (pg_size m)) ms free) = free_bytes free \<union> owned pg_phys pg_size ms"
proof (induction ms arbitrary: free)
  case (Cons m ms)
  then have "range_ok (pg_phys m) (pg_size m)" by (simp add: pg_ok_def range_ok_def)
  with Cons pool_add_free_spec [OF Cons.prems(1) this] show ?case by auto
qed simp

section \<open>The state\<close>

definition pool_ok :: "pool \<Rightarrow> bool" where
  "pool_ok p \<longleftrightarrow>
     free_inv (pl_free p) \<and> list_all pg_ok (pl_mappings p) \<and>
     unshared_blocks pg_phys pg_size (pl_mappings p) \<and> unshared_blocks pg_vaddr pg_size (pl_mappings p) \<and>
     list_all (\<lambda>r. range_ok (fst r) (snd r)) (pl_expansions p) \<and> unshared_blocks fst snd (pl_expansions p) \<and>
     owned pg_phys pg_size (pl_mappings p) \<inter> free_bytes (pl_free p) = {} \<and>
     owned pg_phys pg_size (pl_mappings p) \<union> free_bytes (pl_free p) = owned fst snd (pl_expansions p)"

lemma pool_okD:
  assumes "pool_ok p"
  shows "free_inv (pl_free p)" "list_all pg_ok (pl_mappings p)" "unshared_blocks pg_phys pg_size (pl_mappings p)"
    "unshared_blocks pg_vaddr pg_size (pl_mappings p)" "list_all (\<lambda>r. range_ok (fst r) (snd r)) (pl_expansions p)"
    "unshared_blocks fst snd (pl_expansions p)" "owned pg_phys pg_size (pl_mappings p) \<inter> free_bytes (pl_free p) = {}"
    "owned pg_phys pg_size (pl_mappings p) \<union> free_bytes (pl_free p) = owned fst snd (pl_expansions p)"
  using assms by (simp_all add: pool_ok_def)

lemma pool_free_eq:
  "pool_ok p \<Longrightarrow> free_bytes (pl_free p) = owned fst snd (pl_expansions p) - owned pg_phys pg_size (pl_mappings p)"
  unfolding pool_ok_def by blast

lemma pool_expand_ok:
  assumes "pool_ok p" and "range_ok a n" and "span a n \<inter> owned fst snd (pl_expansions p) = {}"
  shows "pool_ok (pool_expand a n p)"
proof -
  note okD = pool_okD [OF assms(1)] and add = pool_add_free_spec [OF pool_okD(1) [OF assms(1)] assms(2)]
  show ?thesis unfolding pool_ok_def pool_expand_def using okD assms add by (auto simp: Un_assoc)
qed

lemma pool_allocate_ok:
  assumes ok: "pool_ok p" and fresh: "span v n \<inter> owned pg_vaddr pg_size (pl_mappings p) = {}"
  shows "pool_ok (snd (pool_allocate v n gpu p)) \<and>
    (case fst (pool_allocate v n gpu p) of
       None \<Rightarrow> snd (pool_allocate v n gpu p) = p \<and> (v = 0 \<or> n = 0 \<or> U64_MAX - v < n \<or> card (free_bytes (pl_free p)) < n)
     | Some ms \<Rightarrow> pl_mappings (snd (pool_allocate v n gpu p)) = pl_mappings p @ ms \<and> chain pg_vaddr pg_size v ms (v + n) \<and>
         n \<le> card (free_bytes (pl_free p)) \<and> owned pg_phys pg_size ms \<subseteq> free_bytes (pl_free p))"
proof (cases "v = 0 \<or> n = 0 \<or> U64_MAX - v < n")
  case True
  then have "pool_allocate v n gpu p = (None, p)" by (simp add: pool_allocate_def)
  then show ?thesis using ok True by auto
next
  case False
  note okD = pool_okD [OF ok]
  have v: "v + n \<le> U64_MAX" using False by linarith
  obtain ms left' missing where tk: "take_ranges gpu v n (pl_free p) = (ms, left', missing)" by (metis prod_cases3)
  have bnd: "\<forall>r \<in> set (pl_free p). fst r + snd r \<le> U64_MAX" and ap: "apart (ivals_of (pl_free p))"
    using okD(1) by (simp_all add: free_inv_def)
  note spec = take_ranges_spec [OF ap bnd v tk]
  have total: "sum_list (map snd (pl_free p)) = card (free_bytes (pl_free p))" by (rule free_total [OF ap])
  show ?thesis
  proof (cases "missing = 0")
    case False
    then show ?thesis using ok spec total \<open>\<not> (v = 0 \<or> n = 0 \<or> U64_MAX - v < n)\<close> by (simp add: pool_allocate_def tk)
  next
    case True
    have ch: "chain pg_vaddr pg_size v ms (v + n)" using spec True by simp
    have tl: "unshared_blocks pg_vaddr pg_size ms" "owned pg_vaddr pg_size ms = span v n"
      using chain_tiled [OF ch v] chain_owned [OF ch] by (auto simp: tiled_unshared span_def)
    have "pool_ok (p\<lparr>pl_free := filter (\<lambda>r. snd r \<noteq> 0) left', pl_mappings := pl_mappings p @ ms\<rparr>)"
      unfolding pool_ok_def using okD spec tl fresh by (auto simp: free_inv_def)
    then show ?thesis using True False spec total ch by (simp add: pool_allocate_def tk)
  qed
qed

lemma pool_query_spec:
  assumes "pool_ok p"
  shows "case pool_query v n p of
      None \<Rightarrow> v = 0 \<or> n = 0 \<or> U64_MAX - v < n \<or> \<not> span v n \<subseteq> owned pg_vaddr pg_size (pl_mappings p)
    | Some ps \<Rightarrow> v \<noteq> 0 \<and> 0 < n \<and> v + n \<le> U64_MAX \<and> span v n \<subseteq> owned pg_vaddr pg_size (pl_mappings p) \<and>
        chain pg_vaddr pg_size v ps (v + n) \<and> list_all pg_ok ps \<and>
        pg_points ps = {q \<in> pg_points (pl_mappings p). fst q \<in> span v n}"
proof (cases "v = 0 \<or> n = 0 \<or> U64_MAX - v < n")
  case True
  then show ?thesis by (auto simp: pool_query_def)
next
  case False
  then have v: "v + n \<le> U64_MAX" by linarith
  note okD = pool_okD [OF assms]
  have sp: "span v n = {v..<v + n}" by (simp add: span_def)
  have "fst q \<in> span v n \<longleftrightarrow> v \<le> fst q \<and> fst q < v + n" for q :: "nat \<times> nat \<times> gpu_mode" by (simp add: span_iff)
  with query_walk_spec [OF okD(2,4) le_add1 v] False v show ?thesis
    by (auto simp: pool_query_def sp [symmetric] split: option.splits)
qed

lemma pool_release_ok:
  assumes ok: "pool_ok p"
  shows "pool_ok (snd (pool_release v n p)) \<and>
    (if fst (pool_release v n p) = None then snd (pool_release v n p) = p
     else pg_points (pl_mappings (snd (pool_release v n p))) = {q \<in> pg_points (pl_mappings p). fst q \<notin> span v n} \<and>
       free_bytes (pl_free (snd (pool_release v n p))) =
         free_bytes (pl_free p) \<union> {c. \<exists>a t. (a, c, t) \<in> pg_points (pl_mappings p) \<and> a \<in> span v n})"
proof (cases "pool_query v n p")
  case None
  then show ?thesis using ok by (simp add: pool_release_def)
next
  case (Some ps)
  note okD = pool_okD [OF ok]
  have q: "0 < n" "v + n \<le> U64_MAX" "chain pg_vaddr pg_size v ps (v + n)" "list_all pg_ok ps"
    "pg_points ps = {q \<in> pg_points (pl_mappings p). fst q \<in> span v n}"
    using pool_query_spec [OF ok, of v n] Some by auto
  define kept where "kept = concat (map (keep_parts v (v + n)) (pl_mappings p))"
  have mok: "pg_ok m" if "m \<in> set (pl_mappings p)" for m using that okD(2) by (simp add: list_all_iff)
  have vn: "v < v + n" using q(1) by simp
  have kept: "list_all pg_ok kept" "pg_points kept = {q \<in> pg_points (pl_mappings p). fst q \<notin> span v n}"
    "unshared_blocks pg_vaddr pg_size kept"
  proof -
    show "list_all pg_ok kept" using keep_parts_spec(1) [OF mok vn] by (auto simp: kept_def list_all_iff)
    show "pg_points kept = {q \<in> pg_points (pl_mappings p). fst q \<notin> span v n}"
      unfolding kept_def points_def span_iff
      by (rule cover_concat_filter) (use keep_parts_spec(4) [OF mok vn] in \<open>simp add: points_def\<close>)
    show "unshared_blocks pg_vaddr pg_size kept"
      using concat_unshared_sub [of "pl_mappings p" pg_vaddr pg_size "keep_parts v (v + n)"] keep_parts_spec(2,3) [OF mok vn] okD(4)
      by (simp add: kept_def)
  qed
  have unsh: "unshared_blocks pg_phys pg_size kept"
    by (rule unshared_bytes [OF _ okD(3) kept(3)]) (use kept(2) in auto)
  define free' where "free' = fold (\<lambda>m. pool_add_free (pg_phys m) (pg_size m)) ps (pl_free p)"
  have free': "free_inv free'" "free_bytes free' = free_bytes (pl_free p) \<union> owned pg_phys pg_size ps"
    using free_fold_spec [OF okD(1) q(4)] by (simp_all add: free'_def)
  have inj: "inj_on (\<lambda>p. fst (snd p)) (pg_points (pl_mappings p))" by (rule points_byte_inj [OF okD(3)])
  have disj: "owned pg_phys pg_size kept \<inter> owned pg_phys pg_size ps = {}"
    unfolding snd_points [of pg_vaddr pg_phys pg_size pg_gpu, symmetric] kept(2) q(5)
    by (subst inj_on_image_Int [OF inj, symmetric]) auto
  have un: "owned pg_phys pg_size kept \<union> owned pg_phys pg_size ps = owned pg_phys pg_size (pl_mappings p)"
    unfolding snd_points [of pg_vaddr pg_phys pg_size pg_gpu, symmetric] kept(2) q(5) image_Un [symmetric]
    by (rule arg_cong [where f = "image _"]) blast
  have bytes: "owned pg_phys pg_size ps = {c. \<exists>a t. (a, c, t) \<in> pg_points (pl_mappings p) \<and> a \<in> span v n}"
    unfolding snd_points [of pg_vaddr pg_phys pg_size pg_gpu, symmetric] q(5) by force
  have res: "pool_release v n p = (Some (pg_gpu (hd ps)), p\<lparr>pl_mappings := kept, pl_free := free'\<rparr>)"
    by (simp add: pool_release_def Some kept_def free'_def)
  have "pool_ok (p\<lparr>pl_mappings := kept, pl_free := free'\<rparr>)"
  proof -
    have "owned pg_phys pg_size kept \<inter> free_bytes free' = {}" using okD(7) un disj by (auto simp: free')
    moreover have "owned pg_phys pg_size kept \<union> free_bytes free' = owned fst snd (pl_expansions p)"
      using okD(8) un by (auto simp: free')
    ultimately show ?thesis unfolding pool_ok_def using okD kept unsh free'(1) by simp
  qed
  then show ?thesis by (simp add: res kept(2) free'(2) bytes)
qed

lemma sort_consume:
  assumes inv: "free_inv m" and r: "r \<in> set m" and "0 < n" and a: "fst r \<le> a" "a + n \<le> fst r + snd r"
  shows "sort_key fst (remove1 r m @ (if fst r < a then [(fst r, a - fst r)] else []) @
    (if a + n < fst r + snd r then [(a + n, fst r + snd r - a - n)] else [])) = consume_free_range r a n m"
proof -
  obtain bs fs where m: "m = bs @ r # fs" and nin: "r \<notin> set bs" using split_list_first [OF r] by blast
  note eq = consume_free_range_split [OF inv m assms(3) a]
  have wf: "omap_wf (consume_free_range r a n m)"
    using consume_free_range_correct(1) [OF inv r assms(3) a] by (rule free_inv_omap_wf)
  have rem: "remove1 r m = bs @ fs" using nin by (simp add: m remove1_append)
  have "sorted_wrt (<) (map fst (consume_free_range r a n m))"
    using wf by (simp add: omap_wf_def sorted_wrt_map)
  then have sd: "sorted (map fst (consume_free_range r a n m))" "distinct (map fst (consume_free_range r a n m))"
    by (auto simp: strict_sorted_iff)
  show ?thesis
  proof (rule sort_key_inj_key_eq)
    show "mset (remove1 r m @ (if fst r < a then [(fst r, a - fst r)] else []) @
      (if a + n < fst r + snd r then [(a + n, fst r + snd r - a - n)] else [])) = mset (consume_free_range r a n m)"
      by (simp add: rem eq)
    then have "set (remove1 r m @ (if fst r < a then [(fst r, a - fst r)] else []) @
      (if a + n < fst r + snd r then [(a + n, fst r + snd r - a - n)] else [])) = set (consume_free_range r a n m)"
      by (rule mset_eq_setD)
    then show "inj_on fst (set (remove1 r m @ (if fst r < a then [(fst r, a - fst r)] else []) @
      (if a + n < fst r + snd r then [(a + n, fst r + snd r - a - n)] else [])))"
      using sd(2) by (simp only: distinct_map)
  qed (rule sd(1))
qed

lemma pool_release_expansion_ok:
  assumes ok: "pool_ok p"
  shows "pool_ok (snd (pool_release_expansion a n p)) \<and>
    (fst (pool_release_expansion a n p) \<longleftrightarrow>
      (a, n) \<in> set (pl_expansions p) \<and> span a n \<inter> owned pg_phys pg_size (pl_mappings p) = {}) \<and>
    (if fst (pool_release_expansion a n p)
     then free_bytes (pl_free (snd (pool_release_expansion a n p))) = free_bytes (pl_free p) - span a n
     else snd (pool_release_expansion a n p) = p)"
proof (cases "(a, n) \<in> set (pl_expansions p)")
  case False
  then have "pool_release_expansion a n p = (False, p)" by (simp add: pool_release_expansion_def)
  then show ?thesis using ok False by simp
next
  case True
  note okD = pool_okD [OF ok]
  have an: "0 < n" "a + n \<le> U64_MAX" using True okD(5) by (auto simp: list_all_iff range_ok_def)
  have ov: "list_ex (\<lambda>m. virtual_ranges_overlap a n (pg_phys m) (pg_size m)) (pl_mappings p) \<longleftrightarrow>
    span a n \<inter> owned pg_phys pg_size (pl_mappings p) \<noteq> {}"
  proof -
    have "virtual_ranges_overlap a n (pg_phys m) (pg_size m) \<longleftrightarrow> span a n \<inter> span (pg_phys m) (pg_size m) \<noteq> {}"
      if "m \<in> set (pl_mappings p)" for m
      using overlap_iff [OF an(2)] that okD(2) by (auto simp: list_all_iff pg_ok_def)
    then show ?thesis by (auto simp: list_ex_iff owned_def cover_def)
  qed
  show ?thesis
  proof (cases "span a n \<inter> owned pg_phys pg_size (pl_mappings p) = {}")
    case False
    then have "pool_release_expansion a n p = (False, p)" using ov by (simp add: pool_release_expansion_def)
    then show ?thesis using ok False by simp
  next
    case dj: True
    have "span a n \<subseteq> owned fst snd (pl_expansions p)" using True by (force simp: owned_iff span_iff)
    then have sub: "span a n \<subseteq> free_bytes (pl_free p)" using dj okD(8) by blast
    define P where "P r \<longleftrightarrow> a \<ge> fst r \<and> add64 a n \<le> range_end r" for r :: prange
    have P: "P r \<longleftrightarrow> fst r \<le> a \<and> a + n \<le> fst r + snd r" if "r \<in> set (pl_free p)" for r
      using that okD(1) an by (auto simp: P_def free_inv_def range_end_def add64_le)
    obtain q where "q \<in> set (pl_free p)" "P q" using free_contains_one [OF okD(1) an(1) sub] P by blast
    then have "find P (pl_free p) \<noteq> None" unfolding find_None_iff by blast
    then obtain r where r: "find P (pl_free p) = Some r" by blast
    then have rin: "r \<in> set (pl_free p)" and "P r" by (auto simp: find_Some_iff)
    then have ra: "fst r \<le> a" "a + n \<le> fst r + snd r" "fst r + snd r \<le> U64_MAX" using P okD(1) by (auto simp: free_inv_def)
    have u: "add64 a n = a + n" "range_end r = fst r + snd r" "sub64 a (fst r) = a - fst r"
      "sub64 (fst r + snd r) (a + n) = fst r + snd r - (a + n)"
      using ra an by (simp_all add: u64_simps range_end_def)
    define free' where "free' = consume_free_range r a n (pl_free p)"
    note cons = consume_free_range_correct [OF okD(1) rin an(1) ra(1,2), folded free'_def]
    note srt = sort_consume [OF okD(1) rin an(1) ra(1,2), folded free'_def]
    have res: "pool_release_expansion a n p =
      (True, p\<lparr>pl_free := free', pl_expansions := remove1 (a, n) (pl_expansions p)\<rparr>)"
      using True ov dj r srt
      by (cases "fst r < a"; cases "a + n < fst r + snd r")
        (simp_all add: pool_release_expansion_def Let_def P_def [abs_def] u del: sort_key_simps)
    obtain es es' where es: "pl_expansions p = es @ (a, n) # es'" "(a, n) \<notin> set es" using split_list_first [OF True] by blast
    then have rem: "remove1 (a, n) (pl_expansions p) = es @ es'" by (simp add: remove1_append)
    have own: "owned fst snd (es @ es') = owned fst snd (pl_expansions p) - span a n" "unshared_blocks fst snd (es @ es')"
      using okD(6) by (auto simp: es(1))
    have "pool_ok (p\<lparr>pl_free := free', pl_expansions := remove1 (a, n) (pl_expansions p)\<rparr>)"
    proof -
      have "list_all (\<lambda>r. range_ok (fst r) (snd r)) (es @ es')" using okD(5) by (simp add: es(1))
      moreover have "owned pg_phys pg_size (pl_mappings p) \<inter> free_bytes free' = {}" using okD(7) by (auto simp: cons)
      moreover have "owned pg_phys pg_size (pl_mappings p) \<union> free_bytes free' = owned fst snd (es @ es')"
        unfolding own(1) cons(2) okD(8) [symmetric] using dj by auto
      ultimately show ?thesis unfolding pool_ok_def using okD(1-4) cons(1) own(2) by (simp add: rem del: owned_simps)
    qed
    then show ?thesis using True dj cons by (simp add: res)
  qed
qed

section \<open>Histories\<close>

text \<open>
  What the callers guarantee: an expansion is direct memory that no other expansion has (\<open>PhysicalMemory\<close> hands it out),
  and a range is committed only where nothing is committed yet. Releases and queries take any arguments.
\<close>

inductive pool_reach :: "pool \<Rightarrow> bool" where
  start: "pool_reach \<lparr>pl_free = [], pl_expansions = [], pl_mappings = []\<rparr>"
| expand: "pool_reach p \<Longrightarrow> range_ok a n \<Longrightarrow> span a n \<inter> owned fst snd (pl_expansions p) = {} \<Longrightarrow> pool_reach (pool_expand a n p)"
| shrink: "pool_reach p \<Longrightarrow> pool_reach (snd (pool_release_expansion a n p))"
| allocate: "pool_reach p \<Longrightarrow> span v n \<inter> owned pg_vaddr pg_size (pl_mappings p) = {} \<Longrightarrow>
    pool_reach (snd (pool_allocate v n gpu p))"
| release: "pool_reach p \<Longrightarrow> pool_reach (snd (pool_release v n p))"

lemma pool_reach_ok: "pool_reach p \<Longrightarrow> pool_ok p"
proof (induction rule: pool_reach.induct)
  case start
  then show ?case by (simp add: pool_ok_def free_inv_def)
qed (simp_all add: pool_expand_ok pool_release_expansion_ok pool_allocate_ok pool_release_ok)

lemma pool_available_free:
  assumes "free_inv (pl_free p)"
  shows "pool_available p = card (free_bytes (pl_free p))"
proof -
  have sum: "fold (\<lambda>r available. add64 available (snd r)) rs x = x + sum_list (map snd rs)"
    if "x + sum_list (map snd rs) \<le> U64_MAX" for rs :: "prange list" and x
    using that by (induction rs arbitrary: x) (auto simp: add64_le)
  have tot: "sum_list (map snd (pl_free p)) = card (free_bytes (pl_free p))"
    using assms by (intro free_total) (simp add: free_inv_def)
  have "free_bytes (pl_free p) \<subseteq> {..<U64_MAX}" using free_bytes_bound [OF assms] by auto
  then have "card (free_bytes (pl_free p)) \<le> U64_MAX" using card_mono [of "{..<U64_MAX}"] by fastforce
  then show ?thesis using sum [of 0 "pl_free p"] tot by (simp add: pool_available_def)
qed

text \<open>C11: Whatever the order of expansions, releases of expansions, commits and decommits, every byte of the pool's
  expansions is either free or behind exactly one committed address: the bytes behind the mappings and the free bytes
  are disjoint and together are the expansions, no two mappings share an address or a byte, and the reported available
  size is the number of free bytes.\<close>

theorem pool_history_partitions:
  assumes "pool_reach p"
  shows "owned pg_phys pg_size (pl_mappings p) \<inter> free_bytes (pl_free p) = {} \<and>
    owned pg_phys pg_size (pl_mappings p) \<union> free_bytes (pl_free p) = owned fst snd (pl_expansions p) \<and>
    inj_on fst (points pg_vaddr pg_phys pg_size pg_gpu (pl_mappings p)) \<and>
    inj_on (\<lambda>q. fst (snd q)) (points pg_vaddr pg_phys pg_size pg_gpu (pl_mappings p)) \<and>
    free_inv (pl_free p) \<and> pool_available p = card (free_bytes (pl_free p))"
  using pool_okD [OF pool_reach_ok [OF assms]] points_address_inj points_byte_inj pool_available_free by blast

text \<open>Committing succeeds exactly when the arguments make sense and enough bytes are free, wherever they lie. The
  committed range can then be queried: the answer lists consecutive parts over the whole range, and decommitting the same
  range restores the mappings and the free ranges from before the commit.\<close>

theorem pool_commit_decommit:
  assumes "pool_reach p" and "span v n \<inter> owned pg_vaddr pg_size (pl_mappings p) = {}"
  shows "(fst (pool_allocate v n gpu p) \<noteq> None \<longleftrightarrow>
      v \<noteq> 0 \<and> 0 < n \<and> v + n \<le> U64_MAX \<and> n \<le> card (free_bytes (pl_free p))) \<and>
    (\<forall>ms. fst (pool_allocate v n gpu p) = Some ms \<longrightarrow>
      (let p' = snd (pool_allocate v n gpu p); (m, p'') = pool_release v n p'
       in (\<exists>parts. pool_query v n p' = Some parts \<and> chain pg_vaddr pg_size v parts (v + n) \<and>
             points pg_vaddr pg_phys pg_size pg_gpu parts = points pg_vaddr pg_phys pg_size pg_gpu ms) \<and>
          m = Some gpu \<and> pl_free p'' = pl_free p \<and>
          points pg_vaddr pg_phys pg_size pg_gpu (pl_mappings p'') = points pg_vaddr pg_phys pg_size pg_gpu (pl_mappings p)))"
proof -
  have ok: "pool_ok p" by (rule pool_reach_ok [OF assms(1)])
  note al = pool_allocate_ok [OF ok assms(2), of gpu]
  have succ: "fst (pool_allocate v n gpu p) \<noteq> None \<longleftrightarrow>
      v \<noteq> 0 \<and> 0 < n \<and> v + n \<le> U64_MAX \<and> n \<le> card (free_bytes (pl_free p))"
  proof (cases "fst (pool_allocate v n gpu p)")
    case None
    then show ?thesis using al by auto
  next
    case (Some ms)
    then have "\<not> (v = 0 \<or> n = 0 \<or> U64_MAX - v < n)" by (auto simp: pool_allocate_def split: if_splits)
    then show ?thesis using al Some by auto
  qed
  have "(\<exists>parts. pool_query v n p' = Some parts \<and> chain pg_vaddr pg_size v parts (v + n) \<and> pg_points parts = pg_points ms) \<and>
      fst (pool_release v n p') = Some gpu \<and> pl_free (snd (pool_release v n p')) = pl_free p \<and>
      pg_points (pl_mappings (snd (pool_release v n p'))) = pg_points (pl_mappings p)"
    if run: "fst (pool_allocate v n gpu p) = Some ms" and p': "p' = snd (pool_allocate v n gpu p)" for ms p'
  proof -
    have a: "pool_ok p'" "pl_mappings p' = pl_mappings p @ ms" "chain pg_vaddr pg_size v ms (v + n)"
      using al run by (simp_all add: p')
    have v: "v \<noteq> 0" "0 < n" "v + n \<le> U64_MAX" using succ run by auto
    have gms: "\<forall>m \<in> set ms. pg_gpu m = gpu"
    proof -
      obtain ms' l' missing where tk: "take_ranges gpu v n (pl_free p) = (ms', l', missing)" by (metis prod_cases3)
      have inv: "apart (ivals_of (pl_free p))" "\<forall>r \<in> set (pl_free p). fst r + snd r \<le> U64_MAX"
        using pool_okD(1) [OF ok] by (simp_all add: free_inv_def)
      have "ms' = ms" using run by (auto simp: pool_allocate_def tk split: if_splits)
      then show ?thesis using take_ranges_spec [OF inv v(3) tk] by blast
    qed
    have own: "owned pg_vaddr pg_size ms = span v n" using chain_owned [OF a(3)] by (simp add: span_def)
    have old: "fst q \<notin> span v n" if "q \<in> pg_points (pl_mappings p)" for q
      using assms(2) that fst_points [of pg_vaddr pg_phys pg_size pg_gpu "pl_mappings p"] by blast
    have new: "fst q \<in> span v n" if "q \<in> pg_points ms" for q
      using that fst_points [of pg_vaddr pg_phys pg_size pg_gpu ms] own by blast
    have "span v n \<subseteq> owned pg_vaddr pg_size (pl_mappings p')" using own by (simp add: a(2))
    then obtain parts where parts: "pool_query v n p' = Some parts" "chain pg_vaddr pg_size v parts (v + n)"
      "pg_points parts = {q \<in> pg_points (pl_mappings p'). fst q \<in> span v n}"
      using pool_query_spec [OF a(1), of v n] v by (cases "pool_query v n p'") auto
    have pts: "pg_points parts = pg_points ms" using parts(3) old new by (auto simp: a(2))
    obtain m0 rest where m0: "parts = m0 # rest" using parts(2) v(2) by (cases parts) auto
    have "block_points pg_vaddr pg_phys pg_size pg_gpu m0 \<subseteq> pg_points ms" using pts m0 by auto
    moreover have "(pg_vaddr m0, pg_phys m0, pg_gpu m0) \<in> block_points pg_vaddr pg_phys pg_size pg_gpu m0"
      using parts(2) m0 by (simp add: block_points_iff)
    ultimately have "(pg_vaddr m0, pg_phys m0, pg_gpu m0) \<in> pg_points ms" by blast
    then have gpu: "pg_gpu m0 = gpu" using gms by (auto simp: points_def cover_iff block_points_iff)
    have fst_rel: "fst (pool_release v n p') = Some gpu" using parts(1) m0 gpu by (simp add: pool_release_def)
    note rel = pool_release_ok [OF a(1), of v n]
    have keep: "pg_points (pl_mappings (snd (pool_release v n p'))) = pg_points (pl_mappings p)"
    proof -
      have "pg_points (pl_mappings (snd (pool_release v n p'))) = {q \<in> pg_points (pl_mappings p'). fst q \<notin> span v n}"
        using rel fst_rel by simp
      also have "\<dots> = pg_points (pl_mappings p)" using old new unfolding a(2) points_simps by blast
      finally show ?thesis .
    qed
    have okr: "pool_ok (snd (pool_release v n p'))" using rel by blast
    have ex: "pl_expansions (snd (pool_release v n p')) = pl_expansions p"
      by (auto simp: pool_release_def p' pool_allocate_def split: option.splits prod.splits)
    have "owned pg_phys pg_size (pl_mappings (snd (pool_release v n p'))) = owned pg_phys pg_size (pl_mappings p)"
      unfolding snd_points [of pg_vaddr pg_phys pg_size pg_gpu, symmetric] keep ..
    then have "free_bytes (pl_free (snd (pool_release v n p'))) = free_bytes (pl_free p)"
      unfolding pool_free_eq [OF okr] pool_free_eq [OF ok] ex by simp
    then have "pl_free (snd (pool_release v n p')) = pl_free p"
      by (rule free_inv_canonical [OF pool_okD(1) [OF okr] pool_okD(1) [OF ok]])
    then show ?thesis using parts(1,2) pts fst_rel keep by blast
  qed
  with succ show ?thesis by (simp add: Let_def case_prod_beta)
qed

section \<open>An example\<close>

text \<open>Two expansions of 8 bytes with a hole between them, and a commit of 12 bytes across both.\<close>

definition pool_example :: pool where
  "pool_example = pool_expand 32 8 (pool_expand 16 8 \<lparr>pl_free = [], pl_expansions = [], pl_mappings = []\<rparr>)"

lemma pool_example_state:
  "pool_example = \<lparr>pl_free = [(16, 8), (32, 8)], pl_expansions = [(16, 8), (32, 8)], pl_mappings = []\<rparr>"
  by (simp add: pool_example_def pool_expand_def pool_add_free_def range_end_def add64_def)

lemma pool_example_reach: "pool_reach pool_example"
  unfolding pool_example_def
  by (intro pool_reach.intros) (auto simp: range_ok_def U64_MAX_def span_iff pool_expand_def)

lemma pool_example_allocate:
  "fst (pool_allocate 4096 12 GpuRead pool_example) =
     Some [\<lparr>pg_vaddr = 4096, pg_size = 8, pg_phys = 16, pg_gpu = GpuRead\<rparr>,
           \<lparr>pg_vaddr = 4104, pg_size = 4, pg_phys = 32, pg_gpu = GpuRead\<rparr>]"
  by (simp add: pool_example_state pool_allocate_def add64_def U64_MAX_def)

lemma pool_history_partitions_witness:
  "pool_reach pool_example \<and> pool_available pool_example = card (free_bytes (pl_free pool_example)) \<and>
   free_bytes (pl_free pool_example) = owned fst snd (pl_expansions pool_example)"
  using pool_history_partitions [OF pool_example_reach] pool_example_reach by (simp add: pool_example_state)

lemma pool_commit_decommit_witness:
  "fst (pool_allocate 4096 12 GpuRead pool_example) \<noteq> None \<and>
   fst (pool_release 4096 12 (snd (pool_allocate 4096 12 GpuRead pool_example))) = Some GpuRead \<and>
   pl_free (snd (pool_release 4096 12 (snd (pool_allocate 4096 12 GpuRead pool_example)))) = [(16, 8), (32, 8)]"
proof -
  have "span 4096 12 \<inter> owned pg_vaddr pg_size (pl_mappings pool_example) = {}" by (simp add: pool_example_state)
  from pool_commit_decommit [OF pool_example_reach this, of GpuRead] pool_example_allocate
  show ?thesis by (simp add: Let_def case_prod_beta) (simp add: pool_example_state)
qed

end
