(* ===== verification/Calendar.thy ===== *)
theory Calendar
  imports Prelude "HOL-Library.Signed_Division"
begin

text \<open>
  The calendar of \<open>src/src/common/dateTime.cpp\<close>: a \<open>Date\<close> is its Julian day number, a \<open>Time\<close> its
  milliseconds since midnight. An \<open>int\<close> of the source is an \<open>int\<close> here; \<open>/\<close> and \<open>%\<close> truncate as in C
  (\<open>sdiv\<close>, \<open>smod\<close>). No intermediate value leaves 32 bits as long as the day number stays within
  500 million of zero, more than a million years either way. A format function that stops the process
  (\<open>EXIT_IF\<close>) returns \<open>None\<close>.
\<close>

section \<open>The code\<close>

subsection \<open>Conversions\<close>

type_synonym jd = int

definition DATE_JD_INVALID :: jd where
  "DATE_JD_INVALID = -2147483648"

definition TIME_MS_INVALID :: int where
  "TIME_MS_INVALID = -1"

definition TIME_MS_IN_DAY :: int where
  "TIME_MS_IN_DAY = 24 * 3600 * 1000"

definition floor_div :: "int \<Rightarrow> int \<Rightarrow> int" where
  "floor_div a b =
     (if b < 0 \<and> a < 0 then a sdiv b
      else let (a, b) = (if b < 0 then (- a, - b) else (a, b))
           in (a - (if a < 0 then b - 1 else 0)) sdiv b)"

definition ymd_to_jd :: "int \<Rightarrow> int \<Rightarrow> int \<Rightarrow> jd" where
  "ymd_to_jd year month day =
     (let t_year = (if year < 0 then year + 1 else year);
          a = floor_div (14 - month) 12;
          y = t_year + 4800 - a;
          m = month + 12 * a - 3
      in day + floor_div (153 * m + 2) 5 + 365 * y + floor_div y 4 - floor_div y 100 + floor_div y 400 - 32045)"

definition jd_to_ymd :: "jd \<Rightarrow> int \<times> int \<times> int" where
  "jd_to_ymd jd =
     (let a = jd + 32044;
          b = floor_div (4 * a + 3) 146097;
          c = a - floor_div (146097 * b) 4;
          d = floor_div (4 * c + 3) 1461;
          e = c - floor_div (1461 * d) 4;
          m = floor_div (5 * e + 2) 153;
          t_day = e - floor_div (153 * m + 2) 5 + 1;
          t_month = m + 3 - 12 * floor_div m 10;
          t_year = 100 * b + d - 4800 + floor_div m 10;
          t_year = (if t_year \<le> 0 then t_year - 1 else t_year)
      in (t_year, t_month, t_day))"

definition hms_to_ms :: "int \<Rightarrow> int \<Rightarrow> int \<Rightarrow> int \<Rightarrow> int" where
  "hms_to_ms hour minute second msec = hour * 60 * 60 * 1000 + minute * 60 * 1000 + second * 1000 + msec"

definition ms_to_hms :: "int \<Rightarrow> int \<times> int \<times> int \<times> int" where
  "ms_to_hms ms =
     (ms sdiv (60 * 60 * 1000), (ms smod (60 * 60 * 1000)) sdiv (60 * 1000), (ms sdiv 1000) smod 60, ms smod 1000)"

subsection \<open>Date\<close>

type_synonym date = jd

definition date_is_leap_year :: "int \<Rightarrow> bool" where
  "date_is_leap_year year \<longleftrightarrow>
     (let year = (if year < 1 then year + 1 else year)
      in (year smod 4 = 0 \<and> year smod 100 \<noteq> 0) \<or> year smod 400 = 0)"

definition date_days_in_month :: "int \<Rightarrow> int" where
  "date_days_in_month month =
     (let month = (if month < 1 \<or> month > 12 then 0 else month)
      in [0, 31, 28, 31, 30, 31, 30, 31, 31, 30, 31, 30, 31] ! nat month)"

definition date_is_valid :: "int \<Rightarrow> int \<Rightarrow> int \<Rightarrow> bool" where
  "date_is_valid year month day \<longleftrightarrow>
     (if year = 0 then False
      else day \<ge> 1 \<and> (day \<le> date_days_in_month month \<or> (day = 29 \<and> month = 2 \<and> date_is_leap_year year)))"

definition date_is_invalid :: "date \<Rightarrow> bool" where
  "date_is_invalid d \<longleftrightarrow> d = DATE_JD_INVALID"

definition date_set :: "int \<Rightarrow> int \<Rightarrow> int \<Rightarrow> date" where
  "date_set year month day = (if date_is_valid year month day then ymd_to_jd year month day else DATE_JD_INVALID)"

definition date_get :: "date \<Rightarrow> int \<times> int \<times> int" where
  "date_get d = (if date_is_invalid d then (0, 0, 0) else jd_to_ymd d)"

definition date_year :: "date \<Rightarrow> int" where
  "date_year d = (if date_is_invalid d then 0 else fst (jd_to_ymd d))"

definition date_month :: "date \<Rightarrow> int" where
  "date_month d = (if date_is_invalid d then 0 else fst (snd (jd_to_ymd d)))"

definition date_day :: "date \<Rightarrow> int" where
  "date_day d = (if date_is_invalid d then 0 else snd (snd (jd_to_ymd d)))"

definition date_month_length :: "date \<Rightarrow> int" where
  "date_month_length d =
     (if date_is_invalid d then 0
      else let (year, month, _) = jd_to_ymd d
           in if month = 2 \<and> date_is_leap_year year then 29 else date_days_in_month month)"

definition date_in_leap_year :: "date \<Rightarrow> bool" where
  "date_in_leap_year d \<longleftrightarrow> (if date_is_invalid d then False else date_is_leap_year (fst (jd_to_ymd d)))"

definition date_days_in_year :: "date \<Rightarrow> int" where
  "date_days_in_year d = (if date_is_invalid d then 0 else if date_in_leap_year d then 366 else 365)"

definition days_in_year :: "int \<Rightarrow> int" where
  "days_in_year year = (if date_is_leap_year year then 366 else 365)"

definition date_day_of_week :: "date \<Rightarrow> int" where
  "date_day_of_week d =
     (if date_is_invalid d then 0 else if d \<ge> 0 then d smod 7 + 1 else (d + 1) smod 7 + 7)"

definition date_day_of_year :: "date \<Rightarrow> int" where
  "date_day_of_year d = (if date_is_invalid d then 0 else d - ymd_to_jd (date_year d) 1 1 + 1)"

definition date_quarter :: "date \<Rightarrow> int" where
  "date_quarter d = (if date_is_invalid d then 0 else (date_month d - 1) sdiv 3 + 1)"

subsection \<open>Time\<close>

type_synonym time = int

definition time_of_msec :: "int \<Rightarrow> time" where
  "time_of_msec msec = (if msec < 0 \<or> msec \<ge> TIME_MS_IN_DAY then TIME_MS_INVALID else msec)"

definition time_is_invalid :: "time \<Rightarrow> bool" where
  "time_is_invalid t \<longleftrightarrow> t < 0 \<or> t \<ge> TIME_MS_IN_DAY"

definition time_is_valid :: "int \<Rightarrow> int \<Rightarrow> int \<Rightarrow> int \<Rightarrow> bool" where
  "time_is_valid hour minute second msec \<longleftrightarrow>
     (hour \<ge> 0 \<and> hour \<le> 23) \<and> (minute \<ge> 0 \<and> minute \<le> 59) \<and> (second \<ge> 0 \<and> second \<le> 59) \<and> (msec \<ge> 0 \<and> msec \<le> 999)"

definition time_set :: "int \<Rightarrow> int \<Rightarrow> int \<Rightarrow> int \<Rightarrow> time" where
  "time_set hour minute second msec =
     (if time_is_valid hour minute second msec then hms_to_ms hour minute second msec else TIME_MS_INVALID)"

definition time_get :: "time \<Rightarrow> int \<times> int \<times> int \<times> int" where
  "time_get t = (if time_is_invalid t then (-1, -1, -1, -1) else ms_to_hms t)"

definition time_hour24 :: "time \<Rightarrow> int" where
  "time_hour24 t = (if time_is_invalid t then -1 else fst (ms_to_hms t))"

definition time_hour12 :: "time \<Rightarrow> int" where
  "time_hour12 t =
     (if time_is_invalid t then -1 else let h = fst (ms_to_hms t) smod 12 in if h = 0 then 12 else h)"

definition time_minute :: "time \<Rightarrow> int" where
  "time_minute t = (if time_is_invalid t then -1 else fst (snd (ms_to_hms t)))"

definition time_second :: "time \<Rightarrow> int" where
  "time_second t = (if time_is_invalid t then -1 else fst (snd (snd (ms_to_hms t))))"

definition time_msec :: "time \<Rightarrow> int" where
  "time_msec t = (if time_is_invalid t then -1 else snd (snd (snd (ms_to_hms t))))"

definition time_is_am :: "time \<Rightarrow> bool" where
  "time_is_am t \<longleftrightarrow> (if time_is_invalid t then False else fst (ms_to_hms t) < 12)"

definition time_is_pm :: "time \<Rightarrow> bool" where
  "time_is_pm t \<longleftrightarrow> (if time_is_invalid t then False else fst (ms_to_hms t) \<ge> 12)"

definition wrap_day :: "int \<Rightarrow> int" where
  "wrap_day r = (let r = (if r < 0 then r + TIME_MS_IN_DAY else r) in if r \<ge> TIME_MS_IN_DAY then r - TIME_MS_IN_DAY else r)"

text \<open>\<open>operator+\<close> and \<open>operator-\<close>; \<open>None\<close> is the stopped process.\<close>

definition time_plus :: "time \<Rightarrow> int \<Rightarrow> time option" where
  "time_plus t secs =
     (let ms_secs = secs * 1000
      in if ms_secs > TIME_MS_IN_DAY \<or> ms_secs < - TIME_MS_IN_DAY then None
         else if time_is_invalid t then Some TIME_MS_INVALID
         else Some (time_of_msec (wrap_day (t + ms_secs))))"

definition time_minus :: "time \<Rightarrow> int \<Rightarrow> time option" where
  "time_minus t secs =
     (let ms_secs = secs * 1000
      in if ms_secs > TIME_MS_IN_DAY \<or> ms_secs < - TIME_MS_IN_DAY then None
         else if time_is_invalid t then Some TIME_MS_INVALID
         else Some (time_of_msec (wrap_day (t - ms_secs))))"

text \<open>\<open>operator+=\<close> and \<open>operator-=\<close>: an invalid time stays what it is.\<close>

definition time_add_assign :: "time \<Rightarrow> int \<Rightarrow> time option" where
  "time_add_assign t secs =
     (let ms_secs = secs * 1000
      in if ms_secs > TIME_MS_IN_DAY \<or> ms_secs < - TIME_MS_IN_DAY then None
         else if \<not> time_is_invalid t then Some (wrap_day (t + ms_secs)) else Some t)"

definition time_sub_assign :: "time \<Rightarrow> int \<Rightarrow> time option" where
  "time_sub_assign t secs =
     (let ms_secs = secs * 1000
      in if ms_secs > TIME_MS_IN_DAY \<or> ms_secs < - TIME_MS_IN_DAY then None
         else if \<not> time_is_invalid t then Some (wrap_day (t - ms_secs)) else Some t)"

subsection \<open>DateTime\<close>

record date_time =
  dt_date :: date
  dt_time :: time

definition dt_is_invalid :: "date_time \<Rightarrow> bool" where
  "dt_is_invalid dt \<longleftrightarrow> date_is_invalid (dt_date dt) \<or> time_is_invalid (dt_time dt)"

definition dt_less :: "date_time \<Rightarrow> date_time \<Rightarrow> bool" where
  "dt_less a b \<longleftrightarrow> dt_date a < dt_date b \<or> (dt_date a = dt_date b \<and> dt_time a < dt_time b)"

definition dt_le :: "date_time \<Rightarrow> date_time \<Rightarrow> bool" where
  "dt_le a b \<longleftrightarrow> \<not> dt_less b a"

subsection \<open>Formatting\<close>

text \<open>The decimal digits of a number, and \<open>fmt::format\<close> with a zero-padded width.\<close>

fun digits_of :: "nat \<Rightarrow> string" where
  "digits_of n = (if n < 10 then [char_of (48 + n)] else digits_of (n div 10) @ [char_of (48 + n mod 10)])"

declare digits_of.simps [simp del]

definition pad_zero :: "nat \<Rightarrow> string \<Rightarrow> string" where
  "pad_zero w s = replicate (w - length s) CHR ''0'' @ s"

definition fmt_int :: "nat \<Rightarrow> int \<Rightarrow> string" where
  "fmt_int w n = (if n < 0 then CHR ''-'' # pad_zero (w - 1) (digits_of (nat (- n))) else pad_zero w (digits_of (nat n)))"

definition month_short :: "string list" where
  "month_short = [''Jan'', ''Feb'', ''Mar'', ''Apr'', ''May'', ''Jun'', ''Jul'', ''Aug'', ''Sep'', ''Oct'', ''Nov'', ''Dec'']"

definition month_long :: "string list" where
  "month_long = [''January'', ''February'', ''March'', ''April'', ''May'', ''June'', ''July'', ''August'', ''September'',
     ''October'', ''November'', ''December'']"

definition day_short :: "string list" where
  "day_short = [''Mon'', ''Tue'', ''Wed'', ''Thu'', ''Fri'', ''Sat'', ''Sun'']"

definition day_long :: "string list" where
  "day_long = [''Monday'', ''Tuesday'', ''Wednesday'', ''Thursday'', ''Friday'', ''Saturday'', ''Sunday'']"

text \<open>
  \<open>f.compare(i, n, lit) == 0\<close> for a literal of length \<open>n\<close>; \<open>f\<close> is what is left of the format at \<open>i\<close>.
  \<open>format_date\<close> gives the text and how far \<open>i\<close> moves on beyond the loop's own step; the inner \<open>None\<close>
  is the result false.
\<close>

definition at_token :: "string \<Rightarrow> string \<Rightarrow> bool" where
  "at_token lit f \<longleftrightarrow> take (length lit) f = lit"

definition year_text :: "nat \<Rightarrow> date \<Rightarrow> string option" where
  "year_text skip d = (let y = date_year d in if y < 0 \<or> y > 9999 then None else Some (drop skip (fmt_int 4 y)))"

definition format_date :: "date \<Rightarrow> string \<Rightarrow> (string \<times> nat) option option" where
  "format_date d f =
     (if at_token ''YYYY'' f then do { s \<leftarrow> year_text 0 d; Some (Some (s, 3)) }
      else if at_token ''YYY'' f then do { s \<leftarrow> year_text 1 d; Some (Some (s, 2)) }
      else if at_token ''YY'' f then do { s \<leftarrow> year_text 2 d; Some (Some (s, 1)) }
      else if at_token ''Y'' f then do { s \<leftarrow> year_text 3 d; Some (Some (s, 0)) }
      else if at_token ''Q'' f then Some (Some (fmt_int 0 (date_quarter d), 0))
      else if at_token ''MM'' f then Some (Some (fmt_int 2 (date_month d), 1))
      else if at_token ''MONTH'' f then Some (Some (month_long ! nat (date_month d - 1), 4))
      else if at_token ''MON'' f then Some (Some (month_short ! nat (date_month d - 1), 2))
      else if at_token ''DDD'' f then Some (Some (fmt_int 3 (date_day_of_year d), 2))
      else if at_token ''DD'' f then Some (Some (fmt_int 2 (date_day d), 1))
      else if at_token ''DY'' f then Some (Some (day_short ! nat (date_day_of_week d - 1), 1))
      else if at_token ''DAY'' f then Some (Some (day_long ! nat (date_day_of_week d - 1), 2))
      else if at_token ''D'' f then Some (Some (fmt_int 0 (date_day_of_week d), 0))
      else if at_token ''J'' f then Some (Some (fmt_int 0 d, 0))
      else Some None)"

definition format_time :: "time \<Rightarrow> string \<Rightarrow> (string \<times> nat) option" where
  "format_time t f =
     (if at_token ''HH24'' f then Some (fmt_int 2 (time_hour24 t), 3)
      else if at_token ''HH12'' f then Some (fmt_int 2 (time_hour12 t), 3)
      else if at_token ''HH'' f then Some (fmt_int 2 (time_hour12 t), 1)
      else if at_token ''MI'' f then Some (fmt_int 2 (time_minute t), 1)
      else if at_token ''SSSSS'' f then Some (fmt_int 5 (t sdiv 1000), 4)
      else if at_token ''SS'' f then Some (fmt_int 2 (time_second t), 1)
      else if at_token ''FFF'' f then Some (fmt_int 3 (time_msec t), 2)
      else if at_token ''AM'' f then Some (if time_is_am t then ''AM'' else ''PM'', 1)
      else if at_token ''A.M.'' f then Some (if time_is_am t then ''A.M.'' else ''P.M.'', 3)
      else None)"

function date_text :: "date \<Rightarrow> string \<Rightarrow> string option" where
  "date_text d [] = Some []"
| "date_text d (c # f) =
     (case format_date d (c # f) of
        None \<Rightarrow> None
      | Some None \<Rightarrow> do { r \<leftarrow> date_text d f; Some (c # r) }
      | Some (Some (s, n)) \<Rightarrow> do { r \<leftarrow> date_text d (drop n f); Some (s @ r) })"
  by pat_completeness auto
termination
  by (relation "measure (\<lambda>(d, f). length f)") auto

definition date_to_string :: "date \<Rightarrow> string \<Rightarrow> string option" where
  "date_to_string d format = (if date_is_invalid d then Some [] else date_text d format)"

function time_text :: "time \<Rightarrow> string \<Rightarrow> string" where
  "time_text t [] = []"
| "time_text t (c # f) =
     (case format_time t (c # f) of
        None \<Rightarrow> c # time_text t f
      | Some (s, n) \<Rightarrow> s @ time_text t (drop n f))"
  by pat_completeness auto
termination
  by (relation "measure (\<lambda>(t, f). length f)") auto

definition time_to_string :: "time \<Rightarrow> string \<Rightarrow> string" where
  "time_to_string t format = (if time_is_invalid t then [] else time_text t format)"

function dt_text :: "date_time \<Rightarrow> string \<Rightarrow> string option" where
  "dt_text dt [] = Some []"
| "dt_text dt (c # f) =
     (case format_date (dt_date dt) (c # f) of
        None \<Rightarrow> None
      | Some (Some (s, n)) \<Rightarrow> do { r \<leftarrow> dt_text dt (drop n f); Some (s @ r) }
      | Some None \<Rightarrow>
          (case format_time (dt_time dt) (c # f) of
             Some (s, n) \<Rightarrow> do { r \<leftarrow> dt_text dt (drop n f); Some (s @ r) }
           | None \<Rightarrow> do { r \<leftarrow> dt_text dt f; Some (c # r) }))"
  by pat_completeness auto
termination
  by (relation "measure (\<lambda>(dt, f). length f)") auto

definition dt_to_string :: "date_time \<Rightarrow> string \<Rightarrow> string option" where
  "dt_to_string dt format = (if dt_is_invalid dt then Some [] else dt_text dt format)"

end
