(* ===== verification/Rtc.thy ===== *)
theory Rtc
  imports Calendar
begin

text \<open>
  The real-time-clock library of \<open>src/src/libs/libRtc.cpp\<close>. A tick is a microsecond since the first of
  January of the year 1. A pointer argument is an \<open>option\<close> (\<open>None\<close> is \<open>nullptr\<close>); a pointer that the
  function writes through is an argument with the old contents and a result with the new ones. The host
  clock is the argument \<open>now_us\<close>. Signed 64-bit products of the source that overflow are undefined there;
  here they are exact and the sum wraps.
\<close>

definition RTC_OK :: int where "RTC_OK = 0"
definition RTC_ERROR_DATETIME_UNINITIALIZED :: int where "RTC_ERROR_DATETIME_UNINITIALIZED = 0x7ffef9fe"
definition RTC_ERROR_INVALID_POINTER :: int where "RTC_ERROR_INVALID_POINTER = -2135621630"
definition RTC_ERROR_INVALID_VALUE :: int where "RTC_ERROR_INVALID_VALUE = -2135621629"
definition RTC_ERROR_INVALID_YEAR :: int where "RTC_ERROR_INVALID_YEAR = -2135621624"
definition RTC_ERROR_INVALID_MONTH :: int where "RTC_ERROR_INVALID_MONTH = -2135621623"
definition RTC_ERROR_INVALID_DAY :: int where "RTC_ERROR_INVALID_DAY = -2135621622"
definition RTC_ERROR_INVALID_HOUR :: int where "RTC_ERROR_INVALID_HOUR = -2135621621"
definition RTC_ERROR_INVALID_MINUTE :: int where "RTC_ERROR_INVALID_MINUTE = -2135621620"
definition RTC_ERROR_INVALID_SECOND :: int where "RTC_ERROR_INVALID_SECOND = -2135621619"
definition RTC_ERROR_INVALID_MICROSECOND :: int where "RTC_ERROR_INVALID_MICROSECOND = -2135621618"

lemmas rtc_codes = RTC_OK_def RTC_ERROR_DATETIME_UNINITIALIZED_def RTC_ERROR_INVALID_POINTER_def RTC_ERROR_INVALID_VALUE_def
  RTC_ERROR_INVALID_YEAR_def RTC_ERROR_INVALID_MONTH_def RTC_ERROR_INVALID_DAY_def RTC_ERROR_INVALID_HOUR_def
  RTC_ERROR_INVALID_MINUTE_def RTC_ERROR_INVALID_SECOND_def RTC_ERROR_INVALID_MICROSECOND_def

definition RTC_UNIX_EPOCH_TICKS :: u64 where "RTC_UNIX_EPOCH_TICKS = 0xdcbffeff2bc000"
definition RTC_WIN32_FILETIME_EPOCH_TICKS :: u64 where "RTC_WIN32_FILETIME_EPOCH_TICKS = 0xb36168b6a58000"

text \<open>\<open>RtcDateTime\<close>: six \<open>uint16_t\<close> fields and a \<open>uint32_t\<close>.\<close>

record rtc_time =
  rt_year :: nat
  rt_month :: nat
  rt_day :: nat
  rt_hour :: nat
  rt_minute :: nat
  rt_second :: nat
  rt_microsecond :: nat

definition rtc_check_valid :: "rtc_time option \<Rightarrow> int" where
  "rtc_check_valid time =
     (case time of
        None \<Rightarrow> RTC_ERROR_INVALID_POINTER
      | Some t \<Rightarrow>
          if rt_year t = 0 \<or> rt_year t > 9999 then RTC_ERROR_INVALID_YEAR
          else if rt_month t = 0 \<or> rt_month t > 12 then RTC_ERROR_INVALID_MONTH
          else if rt_day t = 0 \<or> \<not> date_is_valid (int (rt_year t)) (int (rt_month t)) (int (rt_day t)) then RTC_ERROR_INVALID_DAY
          else if rt_hour t \<ge> 24 then RTC_ERROR_INVALID_HOUR
          else if rt_minute t \<ge> 60 then RTC_ERROR_INVALID_MINUTE
          else if rt_second t \<ge> 60 then RTC_ERROR_INVALID_SECOND
          else if rt_microsecond t \<ge> 1000000 then RTC_ERROR_INVALID_MICROSECOND
          else RTC_OK)"

definition get_days_in_month :: "int \<Rightarrow> int \<Rightarrow> int" where
  "get_days_in_month year month =
     (if year \<le> 0 \<or> year > 9999 then RTC_ERROR_INVALID_YEAR
      else if month \<le> 0 \<or> month > 12 then RTC_ERROR_INVALID_MONTH
      else if month = 2 \<and> date_is_leap_year year then 29
      else date_days_in_month month)"

definition rtc_is_leap_year :: "int \<Rightarrow> int" where
  "rtc_is_leap_year year =
     (if year \<le> 0 \<or> year > 9999 then RTC_ERROR_INVALID_YEAR else if date_is_leap_year year then 1 else 0)"

definition rtc_get_day_of_week :: "int \<Rightarrow> int \<Rightarrow> int \<Rightarrow> int" where
  "rtc_get_day_of_week year month day =
     (let days = get_days_in_month year month
      in if days < 0 then days
         else if day \<le> 0 \<or> day > days then RTC_ERROR_INVALID_DAY
         else let dow = date_day_of_week (date_set year month day) in if dow = 7 then 0 else dow)"

definition rtc_get_tick_resolution :: int where
  "rtc_get_tick_resolution = 1000000"

definition rtc_get_current_clock_local_time :: "date_time \<Rightarrow> rtc_time option \<Rightarrow> int \<times> rtc_time option" where
  "rtc_get_current_clock_local_time now time =
     (case time of
        None \<Rightarrow> (RTC_ERROR_DATETIME_UNINITIALIZED, None)
      | Some _ \<Rightarrow>
          (RTC_OK, Some \<lparr>rt_year = nat (date_year (dt_date now) mod 65536), rt_month = nat (date_month (dt_date now) mod 65536),
             rt_day = nat (date_day (dt_date now) mod 65536), rt_hour = nat (time_hour24 (dt_time now) mod 65536),
             rt_minute = nat (time_minute (dt_time now) mod 65536), rt_second = nat (time_second (dt_time now) mod 65536),
             rt_microsecond = nat (time_msec (dt_time now) * 1000 mod 4294967296)\<rparr>))"

subsection \<open>Ticks\<close>

definition TICKS_PER_DAY :: u64 where "TICKS_PER_DAY = 86400000000"

text \<open>The calendar part of \<open>RtcSetTick\<close>: year, month and day of a day number.\<close>

definition rtc_civil :: "u64 \<Rightarrow> u64 \<times> u64 \<times> u64" where
  "rtc_civil days =
     (let days = add64 days 307;
          j = sub64 (4 * days) 1;
          ly = j div 146097;
          j = sub64 j (146097 * ly);
          ld = j div 4;
          j = (4 * ld + 3) div 1461;
          ld = sub64 (4 * ld + 7) (1461 * j) div 4;
          lm = sub64 (5 * ld) 3 div 153;
          ld = sub64 (5 * ld + 2) (153 * lm) div 5;
          ly = 100 * ly + j
      in if lm < 10 then (ly, lm + 3, ld) else (ly + 1, lm - 9, ld))"

definition rtc_set_tick :: "rtc_time option \<Rightarrow> u64 option \<Rightarrow> int \<times> rtc_time option" where
  "rtc_set_tick time tick =
     (case (time, tick) of
        (Some _, Some tick) \<Rightarrow>
          let days = tick div TICKS_PER_DAY; usec = tick mod TICKS_PER_DAY; (ly, lm, ld) = rtc_civil days
          in if ly = 0 \<or> ly > 9999 then (RTC_ERROR_INVALID_VALUE, time)
             else
               let t = \<lparr>rt_year = ly mod 65536, rt_month = lm mod 65536, rt_day = ld mod 65536,
                        rt_hour = usec div 3600000000 mod 65536,
                        rt_minute = usec mod 3600000000 div 60000000 mod 65536,
                        rt_second = usec mod 3600000000 mod 60000000 div 1000000 mod 65536,
                        rt_microsecond = usec mod 3600000000 mod 60000000 mod 1000000 mod 4294967296\<rparr>
               in (rtc_check_valid (Some t), Some t)
      | _ \<Rightarrow> (RTC_ERROR_INVALID_POINTER, time))"

text \<open>The day number that \<open>RtcGetTick\<close> computes.\<close>

definition rtc_day_number :: "u64 \<Rightarrow> u64 \<Rightarrow> u64 \<Rightarrow> u64" where
  "rtc_day_number year month day =
     (let (year, month) = (if month > 2 then (year, month - 3) else (sub64 year 1, month + 9));
          c = year div 100;
          ya = year - 100 * c;
          days = (146097 * c) div 4 + (1461 * ya) div 4 + (153 * month + 2) div 5 + day
      in sub64 days 307)"

definition rtc_get_tick :: "rtc_time option \<Rightarrow> u64 option \<Rightarrow> int \<times> u64 option" where
  "rtc_get_tick time tick =
     (case (time, tick) of
        (Some t, Some _) \<Rightarrow>
          let valid = rtc_check_valid time
          in if valid \<noteq> RTC_OK then (valid, tick)
             else
               let days = rtc_day_number (rt_year t) (rt_month t) (rt_day t) * TICKS_PER_DAY mod u64_modulus;
                   usec = rt_hour t * 3600000000 + rt_minute t * 60000000 + rt_second t * 1000000 + rt_microsecond t
               in (RTC_OK, Some (add64 days usec))
      | _ \<Rightarrow> (RTC_ERROR_INVALID_POINTER, tick))"

text \<open>\<open>uint64_t + int64_t\<close> is a sum modulo \<open>2^64\<close>.\<close>

definition add_signed :: "u64 \<Rightarrow> int \<Rightarrow> u64" where
  "add_signed tick n = nat ((int tick + n) mod int u64_modulus)"

definition rtc_get_current_tick :: "u64 \<Rightarrow> u64 option \<Rightarrow> int \<times> u64 option" where
  "rtc_get_current_tick now_us tick =
     (case tick of None \<Rightarrow> (RTC_ERROR_DATETIME_UNINITIALIZED, None)
      | Some _ \<Rightarrow> (RTC_OK, Some (add64 RTC_UNIX_EPOCH_TICKS now_us)))"

definition rtc_get_current_clock :: "u64 \<Rightarrow> rtc_time option \<Rightarrow> int \<Rightarrow> int \<times> rtc_time option" where
  "rtc_get_current_clock now_us time time_zone_minutes =
     (case time of
        None \<Rightarrow> (RTC_ERROR_DATETIME_UNINITIALIZED, None)
      | Some _ \<Rightarrow>
          (case rtc_get_current_tick now_us (Some 0) of
             (ret, Some tick) \<Rightarrow>
               if ret \<noteq> RTC_OK then (ret, time)
               else rtc_set_tick time (Some (add_signed tick (time_zone_minutes * 60000000)))
           | (ret, None) \<Rightarrow> (ret, time)))"

definition rtc_convert_utc_to_local_time :: "u64 option \<Rightarrow> u64 option \<Rightarrow> int \<times> u64 option" where
  "rtc_convert_utc_to_local_time utc local_time =
     (case (utc, local_time) of (Some u, Some _) \<Rightarrow> (RTC_OK, Some u) | _ \<Rightarrow> (RTC_ERROR_INVALID_POINTER, local_time))"

definition rtc_convert_local_time_to_utc :: "u64 option \<Rightarrow> u64 option \<Rightarrow> int \<times> u64 option" where
  "rtc_convert_local_time_to_utc local_time utc =
     (case (local_time, utc) of (Some l, Some _) \<Rightarrow> (RTC_OK, Some l) | _ \<Rightarrow> (RTC_ERROR_INVALID_POINTER, utc))"

subsection \<open>RFC 3339\<close>

text \<open>\<open>snprintf\<close> with a buffer of \<open>n\<close> bytes keeps \<open>n - 1\<close> characters; \<open>%02d\<close> and \<open>%04u\<close> are \<open>fmt_int\<close>.\<close>

definition rfc_zone :: "int \<Rightarrow> string" where
  "rfc_zone time_zone_minutes =
     (if time_zone_minutes = 0 then ''Z''
      else let sign = (if time_zone_minutes < 0 then CHR ''-'' else CHR ''+'');
               minutes = (if time_zone_minutes < 0 then - time_zone_minutes else time_zone_minutes)
           in take 7 (sign # fmt_int 2 (minutes sdiv 60) @ '':'' @ fmt_int 2 (minutes smod 60)))"

definition rfc_text :: "rtc_time \<Rightarrow> string \<Rightarrow> string" where
  "rfc_text t zone =
     take 31 (fmt_int 4 (int (rt_year t)) @ ''-'' @ fmt_int 2 (int (rt_month t)) @ ''-'' @ fmt_int 2 (int (rt_day t)) @ ''T'' @
       fmt_int 2 (int (rt_hour t)) @ '':'' @ fmt_int 2 (int (rt_minute t)) @ '':'' @ fmt_int 2 (int (rt_second t)) @ ''.'' @
       fmt_int 2 (int (rt_microsecond t div 10000)) @ zone)"

definition rtc_format_rfc3339 :: "u64 \<Rightarrow> string option \<Rightarrow> u64 option \<Rightarrow> int \<Rightarrow> int \<times> string option" where
  "rtc_format_rfc3339 now_us date_time utc time_zone_minutes =
     (case date_time of
        None \<Rightarrow> (RTC_ERROR_INVALID_POINTER, None)
      | Some _ \<Rightarrow>
          let tick = (case utc of None \<Rightarrow> add64 RTC_UNIX_EPOCH_TICKS now_us | Some u \<Rightarrow> u);
              offset_ticks = time_zone_minutes * 60000000
          in if offset_ticks < 0 \<and> tick < nat (- offset_ticks) then (RTC_ERROR_INVALID_VALUE, date_time)
             else
               (case rtc_set_tick (Some \<lparr>rt_year = 0, rt_month = 0, rt_day = 0, rt_hour = 0, rt_minute = 0, rt_second = 0, rt_microsecond = 0\<rparr>)
                       (Some (add_signed tick offset_ticks)) of
                  (ret, Some t) \<Rightarrow>
                    if ret \<noteq> RTC_OK then (ret, date_time) else (RTC_OK, Some (rfc_text t (rfc_zone time_zone_minutes)))
                | (ret, None) \<Rightarrow> (ret, date_time)))"

text \<open>
  \<open>sscanf\<close>: a conversion skips white space and reads an optional sign and digits. \<open>%hu\<close> keeps the low 16
  bits of what \<open>strtoul\<close> returns, which saturates; \<open>%02d\<close> reads at most two characters.
\<close>

definition is_digit :: "char \<Rightarrow> bool" where
  "is_digit c \<longleftrightarrow> 48 \<le> (of_char c :: nat) \<and> (of_char c :: nat) \<le> 57"

definition digit_value :: "char \<Rightarrow> nat" where
  "digit_value c = of_char c - 48"

definition is_space :: "char \<Rightarrow> bool" where
  "is_space c \<longleftrightarrow> (of_char c :: nat) \<in> {9, 10, 11, 12, 13, 32}"

definition number_of :: "string \<Rightarrow> nat" where
  "number_of ds = foldl (\<lambda>n c. 10 * n + digit_value c) 0 ds"

definition scan_sign :: "string \<Rightarrow> bool \<times> string" where
  "scan_sign s = (case s of c # r \<Rightarrow> if c = CHR ''-'' then (True, r) else if c = CHR ''+'' then (False, r) else (False, s) | [] \<Rightarrow> (False, []))"

definition scan_hu :: "string \<Rightarrow> (nat \<times> string) option" where
  "scan_hu s =
     (let (neg, s) = scan_sign (dropWhile is_space s); ds = takeWhile is_digit s; n = number_of ds
      in if ds = [] then None
         else Some ((if n > U64_MAX then U64_MAX else if neg then sub64 0 n else n) mod 65536, drop (length ds) s))"

definition scan_char :: "char \<Rightarrow> string \<Rightarrow> string option" where
  "scan_char c s = (case s of c' # r \<Rightarrow> if c' = c then Some r else None | [] \<Rightarrow> None)"

definition scan_d2 :: "string \<Rightarrow> (int \<times> string) option" where
  "scan_d2 s =
     (let s = dropWhile is_space s; (neg, r) = scan_sign s; w = (if length r < length s then 1 else 2);
          ds = take w (takeWhile is_digit r)
      in if ds = [] then None else Some ((if neg then - int (number_of ds) else int (number_of ds)), drop (length ds) r))"

definition scan_date_time :: "string \<Rightarrow> (rtc_time \<times> string) option" where
  "scan_date_time s = do {
     (y, s) \<leftarrow> scan_hu s; s \<leftarrow> scan_char CHR ''-'' s;
     (m, s) \<leftarrow> scan_hu s; s \<leftarrow> scan_char CHR ''-'' s;
     (d, s) \<leftarrow> scan_hu s; s \<leftarrow> scan_char CHR ''T'' s;
     (h, s) \<leftarrow> scan_hu s; s \<leftarrow> scan_char CHR '':'' s;
     (mi, s) \<leftarrow> scan_hu s; s \<leftarrow> scan_char CHR '':'' s;
     (sec, s) \<leftarrow> scan_hu s;
     Some (\<lparr>rt_year = y, rt_month = m, rt_day = d, rt_hour = h, rt_minute = mi, rt_second = sec, rt_microsecond = 0\<rparr>, s) }"

text \<open>The fraction: the first six digits count, fewer are scaled up.\<close>

fun scan_fraction :: "nat \<Rightarrow> nat \<Rightarrow> string \<Rightarrow> nat \<times> nat \<times> string" where
  "scan_fraction microsecond digits [] = (microsecond, digits, [])"
| "scan_fraction microsecond digits (c # pos) =
     (if is_digit c
      then scan_fraction (if digits < 6 then microsecond * 10 + digit_value c else microsecond) (Suc digits) pos
      else (microsecond, digits, c # pos))"

definition scale_fraction :: "nat \<Rightarrow> nat \<Rightarrow> nat" where
  "scale_fraction microsecond digits = (if digits > 0 \<and> digits < 6 then microsecond * 10 ^ (6 - digits) else microsecond)"

definition rtc_parse_rfc3339 :: "u64 option \<Rightarrow> string option \<Rightarrow> int \<times> u64 option" where
  "rtc_parse_rfc3339 utc date_time =
     (case (utc, date_time) of
        (Some _, Some s) \<Rightarrow>
          (case scan_date_time s of
             None \<Rightarrow> (RTC_ERROR_INVALID_VALUE, utc)
           | Some (t, pos) \<Rightarrow>
               let (t, pos) = (if pos \<noteq> [] \<and> hd pos = CHR ''.''
                     then let (us, n, pos) = scan_fraction 0 0 (tl pos) in (t\<lparr>rt_microsecond := scale_fraction us n\<rparr>, pos)
                     else (t, pos));
                   (ret, utc) = rtc_get_tick (Some t) utc
               in if ret \<noteq> RTC_OK then (ret, utc)
                  else if pos = [] \<or> hd pos = CHR ''Z'' then (RTC_OK, utc)
                  else if hd pos \<noteq> CHR ''+'' \<and> hd pos \<noteq> CHR ''-'' then (RTC_ERROR_INVALID_VALUE, utc)
                  else
                    (case do { (zh, r) \<leftarrow> scan_d2 (tl pos); r \<leftarrow> scan_char CHR '':'' r; (zm, r) \<leftarrow> scan_d2 r; Some (zh, zm) } of
                       None \<Rightarrow> (RTC_ERROR_INVALID_VALUE, utc)
                     | Some (zone_hour, zone_min) \<Rightarrow>
                         let zone_minutes = zone_hour * 60 + zone_min;
                             zone_minutes = (if hd pos = CHR ''-'' then - zone_minutes else zone_minutes);
                             offset_ticks = zone_minutes * 60000000
                         in if offset_ticks > 0 \<and> the utc < nat offset_ticks then (RTC_ERROR_INVALID_VALUE, utc)
                            else (RTC_OK, map_option (\<lambda>tick. add_signed tick (- offset_ticks)) utc)))
      | _ \<Rightarrow> (RTC_ERROR_INVALID_POINTER, utc))"

subsection \<open>Other clocks\<close>

definition rtc_get_time_t :: "rtc_time option \<Rightarrow> int option \<Rightarrow> int \<times> int option" where
  "rtc_get_time_t time seconds =
     (case (time, seconds) of
        (Some _, Some _) \<Rightarrow>
          (case rtc_get_tick time (Some 0) of
             (ret, Some tick) \<Rightarrow>
               if ret \<noteq> RTC_OK then (ret, seconds)
               else (RTC_OK, Some (if tick < RTC_UNIX_EPOCH_TICKS then 0 else int ((tick - RTC_UNIX_EPOCH_TICKS) div 1000000)))
           | (ret, None) \<Rightarrow> (ret, seconds))
      | _ \<Rightarrow> (RTC_ERROR_INVALID_POINTER, seconds))"

definition rtc_get_win32_file_time :: "rtc_time option \<Rightarrow> u64 option \<Rightarrow> int \<times> u64 option" where
  "rtc_get_win32_file_time time win32_time =
     (case (time, win32_time) of
        (Some _, Some _) \<Rightarrow>
          (case rtc_get_tick time (Some 0) of
             (ret, Some tick) \<Rightarrow>
               if ret \<noteq> RTC_OK then (ret, win32_time)
               else (RTC_OK, Some (if tick < RTC_WIN32_FILETIME_EPOCH_TICKS then 0
                       else (tick - RTC_WIN32_FILETIME_EPOCH_TICKS) * 10 mod u64_modulus))
           | (ret, None) \<Rightarrow> (ret, win32_time))
      | _ \<Rightarrow> (RTC_ERROR_INVALID_POINTER, win32_time))"

definition rtc_set_win32_file_time :: "rtc_time option \<Rightarrow> u64 \<Rightarrow> int \<times> rtc_time option" where
  "rtc_set_win32_file_time time win32_time =
     (case time of
        None \<Rightarrow> (RTC_ERROR_INVALID_POINTER, None)
      | Some _ \<Rightarrow>
          if win32_time div 10 > U64_MAX - RTC_WIN32_FILETIME_EPOCH_TICKS then (RTC_ERROR_INVALID_VALUE, time)
          else rtc_set_tick time (Some (win32_time div 10 + RTC_WIN32_FILETIME_EPOCH_TICKS)))"

definition rtc_set_time_t :: "rtc_time option \<Rightarrow> int \<Rightarrow> int \<times> rtc_time option" where
  "rtc_set_time_t time seconds =
     (case time of
        None \<Rightarrow> (RTC_ERROR_INVALID_POINTER, None)
      | Some _ \<Rightarrow>
          if seconds < 0 then (RTC_ERROR_INVALID_VALUE, time)
          else if nat seconds > (U64_MAX - RTC_UNIX_EPOCH_TICKS) div 1000000 then (RTC_ERROR_INVALID_VALUE, time)
          else rtc_set_tick time (Some (nat seconds * 1000000 + RTC_UNIX_EPOCH_TICKS)))"

definition rtc_tick_add_ticks :: "u64 option \<Rightarrow> u64 option \<Rightarrow> int \<Rightarrow> int \<times> u64 option" where
  "rtc_tick_add_ticks dst src ticks =
     (case (dst, src) of (Some _, Some s) \<Rightarrow> (RTC_OK, Some (add_signed s ticks)) | _ \<Rightarrow> (RTC_ERROR_INVALID_POINTER, dst))"

definition rtc_tick_add_seconds :: "u64 option \<Rightarrow> u64 option \<Rightarrow> int \<Rightarrow> int \<times> u64 option" where
  "rtc_tick_add_seconds dst src seconds = rtc_tick_add_ticks dst src (seconds * 1000000)"

definition rtc_tick_add_minutes :: "u64 option \<Rightarrow> u64 option \<Rightarrow> int \<Rightarrow> int \<times> u64 option" where
  "rtc_tick_add_minutes dst src minutes = rtc_tick_add_ticks dst src (minutes * 60000000)"

definition rtc_tick_add_hours :: "u64 option \<Rightarrow> u64 option \<Rightarrow> int \<Rightarrow> int \<times> u64 option" where
  "rtc_tick_add_hours dst src hours = rtc_tick_add_ticks dst src (hours * 3600000000)"

definition rtc_tick_add_days :: "u64 option \<Rightarrow> u64 option \<Rightarrow> int \<Rightarrow> int \<times> u64 option" where
  "rtc_tick_add_days dst src days = rtc_tick_add_ticks dst src (days * 86400000000)"

definition rtc_tick_add_weeks :: "u64 option \<Rightarrow> u64 option \<Rightarrow> int \<Rightarrow> int \<times> u64 option" where
  "rtc_tick_add_weeks dst src weeks = rtc_tick_add_ticks dst src (weeks * 604800000000)"

end
