(* ===== verification/Calendar_Facts.thy ===== *)
theory Calendar_Facts
  imports Calendar
begin

text \<open>
  The calendar conversions of \<open>dateTime.cpp\<close> are inverse to each other on all valid dates, day numbers
  count days without gaps, and the weekday and the time of day follow from them. The proofs count years
  from March, so that the leap day is the last of its year.
\<close>

subsection \<open>Division\<close>

lemma sdiv_nonneg: "0 \<le> a \<Longrightarrow> 0 < b \<Longrightarrow> a sdiv b = a div (b :: int)"
  by (cases "a = 0") (simp_all add: signed_divide_int_def)

lemma smod_nonneg: "0 \<le> a \<Longrightarrow> 0 < b \<Longrightarrow> a smod b = a mod (b :: int)"
  by (cases "a = 0") (simp_all add: signed_modulo_int_def)

lemma sdiv_neg: "a < 0 \<Longrightarrow> 0 < b \<Longrightarrow> a sdiv b = - ((- a) div (b :: int))"
  by (simp add: signed_divide_int_def)

lemma smod_neg: "a < 0 \<Longrightarrow> 0 < b \<Longrightarrow> a smod b = - ((- a) mod (b :: int))"
  by (simp add: signed_modulo_int_def)

lemma smod_eq_0: "0 < b \<Longrightarrow> a smod b = 0 \<longleftrightarrow> a mod (b :: int) = 0"
  by (cases "0 \<le> a") (auto simp: smod_nonneg smod_neg mod_eq_0_iff_dvd)

lemma div_eqI: "0 \<le> x - k * q \<Longrightarrow> x - k * q < k \<Longrightarrow> x div k = (q :: int)"
  by (rule int_div_pos_eq [of x k q "x - k * q"]) simp_all

lemma floor_div_eq: "0 < b \<Longrightarrow> floor_div a b = a div b"
proof (cases "a < 0")
  case True
  assume b: "0 < b"
  define q where "q = (- a + b - 1) div b"
  have "a - (b - 1) < 0" using True b by simp
  then have "floor_div a b = - q" using True b by (simp add: floor_div_def sdiv_neg q_def algebra_simps)
  moreover have "a div b = - q"
  proof (rule div_eqI)
    have "b * q \<le> - a + b - 1" "- a + b - 1 < b * q + b"
      using b mult_div_mod_eq [of b "- a + b - 1"] pos_mod_bound [OF b, of "- a + b - 1"] pos_mod_sign [OF b, of "- a + b - 1"]
      unfolding q_def by linarith+
    then show "0 \<le> a - b * - q" "a - b * - q < b" by simp_all
  qed
  ultimately show ?thesis by simp
qed (simp add: floor_div_def sdiv_nonneg)

subsection \<open>Years that begin in March\<close>

definition leap :: "int \<Rightarrow> bool" where
  "leap y \<longleftrightarrow> y mod 4 = 0 \<and> (y mod 100 \<noteq> 0 \<or> y mod 400 = 0)"

definition year_start :: "int \<Rightarrow> int" where
  "year_start y = 365 * y + y div 4 - y div 100 + y div 400"

lemma quarter: "((4 * k + 1) * b) div 4 = k * b + b div (4 :: int)" "((4 * k + 1) * b) mod 4 = b mod (4 :: int)"
proof -
  have *: "(4 * k + 1) * b = b + k * b * 4" by (simp add: algebra_simps)
  show "((4 * k + 1) * b) div 4 = k * b + b div 4" unfolding * by (subst div_mult_self1) simp_all
  show "((4 * k + 1) * b) mod 4 = b mod 4" unfolding * by (rule mod_mult_self1)
qed

lemmas century_quarter = quarter [of 36524, simplified]
lemmas year_quarter = quarter [of 365, simplified]

lemma century_split:
  assumes "0 \<le> d" and "d < 100"
  shows "year_start (100 * b + d) = (146097 * b) div 4 + (1461 * d) div 4"
proof -
  have eq: "100 * b + d = d + 25 * b * 4" by simp
  have 4: "(100 * b + d) div 4 = 25 * b + d div 4" unfolding eq by (subst div_mult_self1) simp_all
  have 100: "(100 * b + d) div 100 = b" using assms by simp
  have 400: "(100 * b + d) div 400 = b div 4"
    using zdiv_zmult2_eq [of 4 "100 * b + d" 100] 100 by simp
  show ?thesis unfolding year_start_def 4 100 400 century_quarter(1) year_quarter(1) by (simp add: algebra_simps)
qed

lemma year_start_bounds:
  assumes "0 \<le> Y"
  shows "365 * Y \<le> year_start Y" and "year_start Y \<le> 366 * Y"
proof -
  have le: "Y div 100 \<le> Y div 4" "Y div 4 \<le> Y div 1" "Y div 400 \<le> Y div 100" "0 \<le> Y div 400"
    using assms zdiv_mono2 [of Y 4 100] zdiv_mono2 [of Y 1 4] zdiv_mono2 [of Y 100 400] by (simp_all add: pos_imp_zdiv_nonneg_iff)
  obtain A B C where ABC: "Y div 4 = A" "Y div 100 = B" "Y div 400 = C" by blast
  show "365 * Y \<le> year_start Y" "year_start Y \<le> 366 * Y"
    using le unfolding year_start_def ABC by simp_all
qed

lemma hundreds_mod_4: "(100 * b + d + 1) mod 4 = (d + 1) mod (4 :: int)"
proof -
  have "100 * b + d + 1 = (d + 1) + 25 * b * 4" by simp
  then show ?thesis by (simp only: mod_mult_self1)
qed

lemma mod_4_pred: "(b + 1) mod 4 = 0 \<longleftrightarrow> b mod 4 = (3 :: int)"
  by presburger

lemma quarters: "4 * ((146097 * b) div 4) = 146097 * b - b mod (4 :: int)" "4 * ((1461 * d) div 4) = 1461 * d - d mod (4 :: int)"
  using mult_div_mod_eq [of 4 "146097 * b"] mult_div_mod_eq [of 4 "1461 * d"] century_quarter(2) [of b] year_quarter(2) [of d]
  by simp_all

lemma leap_year_of_century:
  assumes "0 \<le> d" and "d < 100" and "leap (100 * b + d + 1)"
  shows "d mod 4 = 3" and "d = 99 \<Longrightarrow> b mod 4 = 3"
proof -
  have "(100 * b + d + 1) mod 4 = (d + 1) mod 4" by (rule hundreds_mod_4)
  then have "(d + 1) mod 4 = 0" using assms(3) by (simp add: leap_def)
  then show "d mod 4 = 3" by (simp only: mod_4_pred)
  show "b mod 4 = 3" if "d = 99"
  proof -
    have eq: "100 * b + d + 1 = 100 * (b + 1)" using that by simp
    then have "(100 * b + d + 1) mod 100 = 0" by (simp only: mod_mult_self1_is_0)
    then have "(100 * (b + 1)) mod (100 * 4) = 0" using assms(3) by (simp add: leap_def eq)
    then have "(b + 1) mod 4 = 0" by (simp only: mult_mod_right [symmetric])
    then show ?thesis by (simp only: mod_4_pred)
  qed
qed

text \<open>Decoding the day \<open>a\<close> that lies \<open>e\<close> days into the year \<open>100 b + d\<close>: century, year and day.\<close>

lemma decode_century:
  assumes d: "0 \<le> d" "d < 100" and e: "0 \<le> e" "e \<le> 365" "e = 365 \<Longrightarrow> leap (100 * b + d + 1)"
    and a: "a = year_start (100 * b + d) + e"
  shows "(4 * a + 3) div 146097 = b" and "(4 * (a - (146097 * b) div 4) + 3) div 1461 = d"
    and "a - (146097 * b) div 4 - (1461 * d) div 4 = e"
proof -
  obtain P Q where PQ: "(146097 * b) div 4 = P" "(1461 * d) div 4 = Q" by blast
  obtain u v where uv: "b mod 4 = u" "d mod 4 = v" by blast
  have q: "4 * P = 146097 * b - u" "4 * Q = 1461 * d - v" using quarters [of b] quarters [of d] by (simp_all add: PQ uv)
  have m4: "0 \<le> v" "v < 4" "0 \<le> u" "u < 4" unfolding uv [symmetric] by simp_all
  have a': "a = P + Q + e" using a century_split [OF d] by (simp add: PQ)
  have l: "v = 3 \<and> (d = 99 \<longrightarrow> u = 3)" if "e = 365"
    using leap_year_of_century [OF d e(3) [OF that]] unfolding uv by blast
  show "a - (146097 * b) div 4 - (1461 * d) div 4 = e" by (simp add: PQ a')
  have e1: "4 * e + 3 - v < 1461" using e(2) l m4 by (cases "e = 365") auto
  show "(4 * (a - (146097 * b) div 4) + 3) div 1461 = d"
  proof (rule div_eqI)
    show "0 \<le> 4 * (a - (146097 * b) div 4) + 3 - 1461 * d" unfolding PQ a' using q m4 e(1) by simp
    show "4 * (a - (146097 * b) div 4) + 3 - 1461 * d < 1461" unfolding PQ a' using q e1 by simp
  qed
  have "1461 * d - v + 4 * e + 3 - u < 146097"
  proof (cases "d = 99")
    case True
    then have "v = 3" using uv(2) by simp
    then show ?thesis using True e(2) l m4 by (cases "e = 365") auto
  next
    case False
    then have "d \<le> 98" using d by simp
    then show ?thesis using e m4 by simp
  qed
  moreover have "0 \<le> 1461 * d - v + 4 * e + 3 - u" using d e m4 q uv by (cases "d = 0") auto
  ultimately show "(4 * a + 3) div 146097 = b"
    by (intro div_eqI) (use q in \<open>simp_all add: a'\<close>)
qed

text \<open>Every day number is one of these.\<close>

lemma div_bounds: "0 < k \<Longrightarrow> 0 \<le> x - k * (x div k)" "0 < k \<Longrightarrow> x - k * (x div k) < (k :: int)"
  by (simp_all add: minus_mult_div_eq_mod)

lemma century_exists:
  obtains b d e where "0 \<le> d" "d < 100" "0 \<le> e" "e \<le> 365" "e = 365 \<Longrightarrow> leap (100 * b + d + 1)"
    "a = year_start (100 * b + d) + e"
proof -
  obtain b where b: "0 \<le> 4 * a + 3 - 146097 * b" "4 * a + 3 - 146097 * b < 146097"
    using div_bounds [of 146097 "4 * a + 3"] by auto
  obtain P u where P: "(146097 * b) div 4 = P" "b mod 4 = u" by blast
  have u: "4 * P = 146097 * b - u" "0 \<le> u" "u < 4" using quarters [of b] P pos_mod_bound [of 4 b] by (auto simp: P)
  define c where "c = a - P"
  have c: "0 \<le> c" "4 * c + 3 - u \<le> 146096" using b u unfolding c_def by (simp_all add: algebra_simps)
  then have c2: "c \<le> 36524" "c = 36524 \<Longrightarrow> u = 3" using u by linarith+
  obtain d where d: "0 \<le> 4 * c + 3 - 1461 * d" "4 * c + 3 - 1461 * d < 1461"
    using div_bounds [of 1461 "4 * c + 3"] by auto
  have d2: "0 \<le> d" "d < 100" using c c2 d by linarith+
  obtain Q v where Q: "(1461 * d) div 4 = Q" "d mod 4 = v" by blast
  have v: "4 * Q = 1461 * d - v" "0 \<le> v" "v < 4" using quarters [of d] Q pos_mod_bound [of 4 d] by (auto simp: Q)
  define e where "e = c - Q"
  have e: "0 \<le> e" "4 * e + 3 - v \<le> 1460" using d v unfolding e_def by (simp_all add: algebra_simps)
  then have e2: "e \<le> 365" "e = 365 \<Longrightarrow> v = 3" using v by linarith+
  have lp: "leap (100 * b + d + 1)" if "e = 365"
  proof -
    have "(d + 1) mod 4 = 0" using e2(2) that Q(2) by (simp only: mod_4_pred)
    then have four: "(100 * b + d + 1) mod 4 = 0" by (simp only: hundreds_mod_4)
    show ?thesis
    proof (cases "d = 99")
      case True
      have "c = 36524" using that c2 v True e2 unfolding e_def by linarith
      then have "(b + 1) mod 4 = 0" using c2(2) P(2) by (simp only: mod_4_pred)
      then have "(100 * (b + 1)) mod (100 * 4) = 0" by (simp only: mult_mod_right [symmetric])
      moreover have "100 * b + d + 1 = 100 * (b + 1)" using True by simp
      ultimately have "(100 * b + d + 1) mod 400 = 0" by (simp only:) simp
      then show ?thesis using four by (simp add: leap_def)
    next
      case False
      then have "(100 * b + d + 1) mod 100 = d + 1" using d2 by (simp add: add.assoc)
      then show ?thesis using four d2 by (simp add: leap_def)
    qed
  qed
  have "a = year_start (100 * b + d) + e" using century_split [OF d2, of b] by (simp add: P Q e_def c_def)
  with d2 e(1) e2(1) lp show thesis by (rule that)
qed

subsection \<open>Months that begin in March\<close>

definition march_length :: "int \<Rightarrow> int" where
  "march_length m = [31, 30, 31, 30, 31, 31, 30, 31, 30, 31, 31, 29] ! nat m"

lemma month_range: "0 \<le> m \<Longrightarrow> m \<le> 11 \<Longrightarrow> m \<in> {0, 1, 2, 3, 4, 5, 6, 7, 8, 9, 10, 11 :: int}"
  by (simp only: insert_iff empty_iff) presburger

lemma decode_month:
  assumes "0 \<le> m" and "m \<le> 11" and "1 \<le> d" and "d \<le> march_length m" and "e = (153 * m + 2) div 5 + d - 1"
  shows "(5 * e + 2) div 153 = m" and "0 \<le> e" and "e \<le> 365" and "e = 365 \<longleftrightarrow> m = 11 \<and> d = 29"
proof -
  have m: "m \<in> {0, 1, 2, 3, 4, 5, 6, 7, 8, 9, 10, 11}" using month_range assms(1,2) by blast
  show "(5 * e + 2) div 153 = m"
    by (rule div_eqI) (use m assms(3-5) in \<open>auto simp: march_length_def\<close>)
  show "0 \<le> e" "e \<le> 365" "e = 365 \<longleftrightarrow> m = 11 \<and> d = 29" using m assms(3-5) by (auto simp: march_length_def)
qed

lemma month_exists:
  assumes "0 \<le> e" and "e \<le> 365"
  obtains m d where "0 \<le> m" "m \<le> 11" "1 \<le> d" "d \<le> march_length m" "e = (153 * m + 2) div 5 + d - 1"
proof -
  have "\<exists>m \<in> {0, 1, 2, 3, 4, 5, 6, 7, 8, 9, 10, 11}. (153 * m + 2) div 5 \<le> e \<and> e < (153 * m + 2) div 5 + march_length m"
    using assms by (simp add: march_length_def) presburger
  then obtain m where m: "m \<in> {0, 1, 2, 3, 4, 5, 6, 7, 8, 9, 10, 11}" "(153 * m + 2) div 5 \<le> e" "e < (153 * m + 2) div 5 + march_length m"
    by blast
  then show thesis by (intro that [of m "e - (153 * m + 2) div 5 + 1"]) auto
qed

subsection \<open>From years that begin in January\<close>

text \<open>A calendar year without the missing year 0, and the March year of a month.\<close>

definition astronomical :: "int \<Rightarrow> int" where
  "astronomical y = (if y < 0 then y + 1 else y)"

definition march_year :: "int \<Rightarrow> int \<Rightarrow> int" where
  "march_year y m = (if m \<le> 2 then astronomical y - 1 else astronomical y)"

definition march_month :: "int \<Rightarrow> int" where
  "march_month m = (if m \<le> 2 then m + 9 else m - 3)"

lemma is_leap_year: "y \<noteq> 0 \<Longrightarrow> date_is_leap_year y = leap (astronomical y)"
  by (cases "y < 0") (auto simp: date_is_leap_year_def leap_def astronomical_def Let_def smod_eq_0)

lemma year_start_shift: "year_start (y + 4800) = year_start y + 1753164"
proof -
  have "(y + 4800) div 4 = y div 4 + 1200" "(y + 4800) div 100 = y div 100 + 48" "(y + 4800) div 400 = y div 400 + 12"
    using div_mult_self1 [of 4 y 1200] div_mult_self1 [of 100 y 48] div_mult_self1 [of 400 y 12] by simp_all
  then show ?thesis by (simp add: year_start_def)
qed

lemma leap_shift: "leap (y + 4800) = leap y"
proof -
  have "(y + 4800) mod 4 = y mod 4" "(y + 4800) mod 100 = y mod 100" "(y + 4800) mod 400 = y mod 400"
    using mod_mult_self1 [of y 1200 4] mod_mult_self1 [of y 48 100] mod_mult_self1 [of y 12 400] by simp_all
  then show ?thesis by (simp add: leap_def)
qed

lemma valid_date_range: "date_is_valid y m d \<Longrightarrow> 1 \<le> m \<and> m \<le> 12 \<and> 1 \<le> d"
  by (auto simp: date_is_valid_def date_days_in_month_def split: if_splits)

lemma calendar_month_range: "1 \<le> m \<Longrightarrow> m \<le> 12 \<Longrightarrow> m \<in> {1, 2, 3, 4, 5, 6, 7, 8, 9, 10, 11, 12 :: int}"
  by (simp only: insert_iff empty_iff) presburger

lemma valid_date_march:
  "date_is_valid y m d \<longleftrightarrow> y \<noteq> 0 \<and> 1 \<le> m \<and> m \<le> 12 \<and> 1 \<le> d \<and> d \<le> march_length (march_month m) \<and>
     (m = 2 \<and> d = 29 \<longrightarrow> leap (astronomical y))"
proof (cases "y \<noteq> 0 \<and> 1 \<le> m \<and> m \<le> 12")
  case True
  then have "m \<in> {1, 2, 3, 4, 5, 6, 7, 8, 9, 10, 11, 12}" using calendar_month_range by blast
  then show ?thesis using True
    by (auto simp: date_is_valid_def date_days_in_month_def march_length_def march_month_def is_leap_year)
next
  case False
  then show ?thesis using valid_date_range [of y m d] by (auto simp: date_is_valid_def)
qed

text \<open>The day number of a date, counted in March years.\<close>

definition march_day :: "int \<Rightarrow> int \<Rightarrow> int \<Rightarrow> int" where
  "march_day y m d = year_start y + (153 * m + 2) div 5 + d - 1"

lemma ymd_to_jd_march:
  assumes "1 \<le> m" and "m \<le> 12"
  shows "ymd_to_jd y m d = march_day (march_year y m) (march_month m) d + 1721120"
proof -
  have a: "floor_div (14 - m) 12 = (if m \<le> 2 then 1 else 0)" using calendar_month_range [OF assms] by (auto simp: floor_div_eq)
  have "(if y < 0 then y + 1 else y) + 4800 - floor_div (14 - m) 12 = march_year y m + 4800"
    "m + 12 * floor_div (14 - m) 12 - 3 = march_month m"
    unfolding a by (simp_all add: march_year_def march_month_def astronomical_def)
  note parts = this
  have "ymd_to_jd y m d = d + (153 * march_month m + 2) div 5 + year_start (march_year y m + 4800) - 32045"
    unfolding ymd_to_jd_def Let_def parts unfolding year_start_def floor_div_eq [OF zero_less_numeral] by simp
  then show ?thesis by (simp add: year_start_shift march_day_def)
qed

text \<open>The date of the day \<open>e\<close> of a March year.\<close>

definition calendar_year :: "int \<Rightarrow> int \<Rightarrow> int" where
  "calendar_year y m = (let t = (if m \<ge> 10 then y + 1 else y) in if t \<le> 0 then t - 1 else t)"

definition calendar_month :: "int \<Rightarrow> int" where
  "calendar_month m = (if m \<ge> 10 then m - 9 else m + 3)"

lemma jd_to_ymd_march:
  assumes m: "0 \<le> m" "m \<le> 11" and d: "1 \<le> d" "d \<le> march_length m" and l: "m = 11 \<Longrightarrow> d = 29 \<Longrightarrow> leap (y + 1)"
  shows "jd_to_ymd (march_day y m d + 1721120) = (calendar_year y m, calendar_month m, d)"
proof -
  define e where "e = (153 * m + 2) div 5 + d - 1"
  note M = decode_month [OF m d e_def]
  define Y where "Y = y + 4800"
  obtain b D where bD: "Y = 100 * b + D" "0 \<le> D" "D < 100"
  proof
    show "Y = 100 * (Y div 100) + Y mod 100" by simp
  qed simp_all
  have "y + 1 + 4800 = 100 * b + D + 1" using bD(1) by (simp add: Y_def)
  then have leap': "e = 365 \<Longrightarrow> leap (100 * b + D + 1)"
    using M(4) l leap_shift [of "y + 1"] by (simp only: simp_thms)
  define N where "N = march_day y m d + 1721120 + 32044"
  have a: "N = year_start (100 * b + D) + e"
    using year_start_shift [of y] by (simp add: N_def march_day_def e_def bD(1) [symmetric] Y_def)
  note C = decode_century [OF bD(2,3) M(2,3) leap' a]
  have eqs: "floor_div (4 * N + 3) 146097 = b" "floor_div (4 * (N - floor_div (146097 * b) 4) + 3) 1461 = D"
    "N - floor_div (146097 * b) 4 - floor_div (1461 * D) 4 = e" "floor_div (5 * e + 2) 153 = m"
    unfolding floor_div_eq [OF zero_less_numeral] by (simp_all only: C M(1))
  have "m div 10 = (if m \<ge> 10 then 1 else 0)" using month_range [OF m] by auto
  then have m10: "floor_div m 10 = (if m \<ge> 10 then 1 else 0)" by (simp only: floor_div_eq)
  have day: "e - floor_div (153 * m + 2) 5 + 1 = d" by (simp add: floor_div_eq e_def)
  have y: "100 * b + D - 4800 = y" using bD(1) by (simp add: Y_def)
  show ?thesis
    unfolding jd_to_ymd_def Let_def N_def [symmetric] eqs day m10 y by (simp add: calendar_year_def calendar_month_def)
qed

lemma calendar_of_march:
  assumes "date_is_valid y m d"
  shows "calendar_year (march_year y m) (march_month m) = y" and "calendar_month (march_month m) = m"
    and "0 \<le> march_month m" and "march_month m \<le> 11"
    and "march_month m = 11 \<Longrightarrow> d = 29 \<Longrightarrow> leap (march_year y m + 1)"
proof -
  have v: "y \<noteq> 0" "1 \<le> m" "m \<le> 12" "m = 2 \<Longrightarrow> d = 29 \<Longrightarrow> leap (astronomical y)"
    using assms by (auto simp: valid_date_march)
  show "calendar_month (march_month m) = m" "0 \<le> march_month m" "march_month m \<le> 11"
    using v by (simp_all add: calendar_month_def march_month_def)
  have "march_month m \<ge> 10 \<longleftrightarrow> m \<le> 2" using v by (simp add: march_month_def)
  then show "calendar_year (march_year y m) (march_month m) = y"
    using v(1) by (simp add: calendar_year_def march_year_def astronomical_def)
  show "leap (march_year y m + 1)" if "march_month m = 11" "d = 29"
  proof -
    have "m = 2" using that(1) v by (simp add: march_month_def split: if_splits)
    then show ?thesis using v(4) that(2) by (simp add: march_year_def)
  qed
qed

lemma jd_roundtrip:
  assumes v: "date_is_valid y m d"
  shows "jd_to_ymd (ymd_to_jd y m d) = (y, m, d)"
proof -
  note C = calendar_of_march [OF v]
  have "1 \<le> m" "m \<le> 12" "1 \<le> d" "d \<le> march_length (march_month m)" using v by (simp_all add: valid_date_march)
  from ymd_to_jd_march [OF this(1,2)] jd_to_ymd_march [OF C(3,4) this(3,4) C(5)] show ?thesis
    by (simp only: C)
qed

lemma jd_exists: "\<exists>y m d. date_is_valid y m d \<and> ymd_to_jd y m d = jd"
proof -
  obtain b D e where D: "0 \<le> D" "D < 100" "0 \<le> e" "e \<le> 365" "e = 365 \<Longrightarrow> leap (100 * b + D + 1)"
    "jd - 1721120 = year_start (100 * b + D) + e" by (rule century_exists [of "jd - 1721120"]) blast
  obtain m d where m: "0 \<le> m" "m \<le> 11" "1 \<le> d" "d \<le> march_length m" "e = (153 * m + 2) div 5 + d - 1"
    by (rule month_exists [OF D(3,4)])
  define y where "y = 100 * b + D"
  have l: "m = 11 \<Longrightarrow> d = 29 \<Longrightarrow> leap (y + 1)" using decode_month(4) [OF m] D(5) by (simp add: y_def)
  have "march_day y m d + 1721120 = jd" using D(6) m(5) by (simp add: march_day_def y_def)
  moreover have "march_year (calendar_year y m) (calendar_month m) = y" "march_month (calendar_month m) = m"
    using m by (auto simp: march_year_def calendar_year_def calendar_month_def march_month_def astronomical_def Let_def)
  moreover have "1 \<le> calendar_month m" "calendar_month m \<le> 12" using m by (auto simp: calendar_month_def)
  ultimately have "ymd_to_jd (calendar_year y m) (calendar_month m) d = jd" by (simp add: ymd_to_jd_march)
  moreover have "date_is_valid (calendar_year y m) (calendar_month m) d"
    unfolding valid_date_march
    using m l \<open>march_month (calendar_month m) = m\<close>
    by (auto simp: calendar_year_def calendar_month_def astronomical_def Let_def)
  ultimately show ?thesis by blast
qed

lemma date_jd_bijection_all: "let (y, m, d) = jd_to_ymd jd in date_is_valid y m d \<and> ymd_to_jd y m d = jd"
proof -
  obtain y m d where v: "date_is_valid y m d" "ymd_to_jd y m d = jd" using jd_exists by blast
  then have "jd_to_ymd jd = (y, m, d)" using jd_roundtrip by blast
  with v show ?thesis by simp
qed

subsection \<open>The theorems\<close>

text \<open>\<open>YmdToJd\<close> and \<open>JdToYmd\<close> are inverse to each other: a valid date survives the way to its day number
  and back, and every day number is the number of exactly one valid date, the one \<open>JdToYmd\<close> returns.\<close>

theorem date_jd_bijection:
  "(date_is_valid y m d \<longrightarrow> jd_to_ymd (ymd_to_jd y m d) = (y, m, d)) \<and>
   (let (y', m', d') = jd_to_ymd jd in date_is_valid y' m' d' \<and> ymd_to_jd y' m' d' = jd)"
  using jd_roundtrip date_jd_bijection_all by blast

lemma date_jd_bijection_witness:
  "date_is_valid 2024 2 29 \<and> jd_to_ymd (ymd_to_jd 2024 2 29) = (2024, 2, 29) \<and>
   (let (y', m', d') = jd_to_ymd 0 in date_is_valid y' m' d' \<and> ymd_to_jd y' m' d' = 0)"
proof -
  have "date_is_valid 2024 2 29" by code_simp
  with date_jd_bijection [of 2024 2 29 0] show ?thesis by simp
qed

text \<open>The day after a date, from the lengths of the months.\<close>

definition month_length :: "int \<Rightarrow> int \<Rightarrow> int" where
  "month_length y m = (if m = 2 \<and> date_is_leap_year y then 29 else date_days_in_month m)"

definition next_ymd :: "int \<times> int \<times> int \<Rightarrow> int \<times> int \<times> int" where
  "next_ymd = (\<lambda>(y, m, d).
     if d < month_length y m then (y, m, d + 1)
     else if m < 12 then (y, m + 1, 1)
     else (if y = -1 then 1 else y + 1, 1, 1))"

lemma valid_month_length:
  "date_is_valid y m d \<longleftrightarrow> y \<noteq> 0 \<and> 1 \<le> m \<and> m \<le> 12 \<and> 1 \<le> d \<and> d \<le> month_length y m"
  using valid_date_range [of y m d] by (auto simp: date_is_valid_def month_length_def date_days_in_month_def)

lemma div_succ:
  assumes "0 < k"
  shows "(y + 1) div k = y div k + (if (y + 1) mod k = (0 :: int) then 1 else 0)"
proof -
  obtain q r where qr: "y div k = q" "y mod k = r" by blast
  have y: "y = k * q + r" using mult_div_mod_eq [of k y] by (simp add: qr)
  have r: "0 \<le> r" "r < k" using assms by (simp_all add: qr [symmetric])
  show ?thesis
  proof (cases "r = k - 1")
    case True
    then have eq: "y + 1 = (q + 1) * k" by (simp add: y algebra_simps)
    have "(y + 1) div k = q + 1" "(y + 1) mod k = 0" unfolding eq using assms by simp_all
    then show ?thesis by (simp add: qr)
  next
    case False
    have eq: "y + 1 = (r + 1) + q * k" by (simp add: y algebra_simps)
    have "(r + 1) mod k = r + 1" "(r + 1) div k = 0" using False r by (auto intro: div_eqI mod_pos_pos_trivial)
    then have "(y + 1) div k = q" "(y + 1) mod k = r + 1"
      unfolding eq mod_mult_self1 using assms by (simp_all add: div_mult_self1)
    then show ?thesis using r by (simp add: qr)
  qed
qed

lemma mod_dvd_0: "b dvd a \<Longrightarrow> x mod a = 0 \<Longrightarrow> x mod b = (0 :: int)"
  by (auto simp: mod_eq_0_iff_dvd intro: dvd_trans)

lemma leap_count:
  "(p400 \<Longrightarrow> p100) \<Longrightarrow> (p100 \<Longrightarrow> p4) \<Longrightarrow>
   (if p4 then 1 else 0) - (if p100 then 1 else 0) + (if p400 then 1 else 0) =
   (if p4 \<and> (\<not> p100 \<or> p400) then 1 else (0 :: int))"
  by (cases p4; cases p100; cases p400) simp_all

lemma valid_date_small: "date_is_valid y m d \<Longrightarrow> 1 \<le> m \<and> m \<le> 12 \<and> 1 \<le> d \<and> d \<le> 31"
  using calendar_month_range [of m]
  by (auto simp: valid_month_length month_length_def date_days_in_month_def split: if_splits)

lemma year_start_next: "year_start (y + 1) = year_start y + (if leap (y + 1) then 366 else 365)"
proof -
  have m: "(y + 1) mod 400 = 0 \<Longrightarrow> (y + 1) mod 100 = 0" "(y + 1) mod 100 = 0 \<Longrightarrow> (y + 1) mod 4 = 0"
    by (rule mod_dvd_0 [of 100 400] mod_dvd_0 [of 4 100]; simp)+
  define i where "i = (\<lambda>k. if (y + 1) mod k = 0 then 1 else (0 :: int))"
  have "year_start (y + 1) = 365 * y + 365 + (y div 4 + i 4) - (y div 100 + i 100) + (y div 400 + i 400)"
    unfolding year_start_def i_def by (simp only: div_succ zero_less_numeral) simp
  then have "year_start (y + 1) = year_start y + 365 + (i 4 - i 100 + i 400)"
    unfolding year_start_def by linarith
  moreover have "i 4 - i 100 + i 400 = (if leap (y + 1) then 1 else 0)"
    unfolding i_def leap_def by (rule leap_count [OF m])
  ultimately show ?thesis by simp
qed

lemma ymd_to_jd_day: "1 \<le> m \<Longrightarrow> m \<le> 12 \<Longrightarrow> ymd_to_jd y m (d + 1) = ymd_to_jd y m d + 1"
  by (simp add: ymd_to_jd_march march_day_def)

lemma ymd_to_jd_month:
  assumes y: "y \<noteq> 0" and m: "1 \<le> m" "m < 12"
  shows "ymd_to_jd y (m + 1) 1 = ymd_to_jd y m (month_length y m) + 1"
proof (cases "m = 2")
  case True
  have "year_start (astronomical y) = year_start (astronomical y - 1) + (if leap (astronomical y) then 366 else 365)"
    using year_start_next [of "astronomical y - 1"] by simp
  then show ?thesis
    using True by (simp add: ymd_to_jd_march march_day_def march_year_def march_month_def month_length_def
        date_days_in_month_def is_leap_year [OF y])
next
  case False
  have "m \<in> {1, 3, 4, 5, 6, 7, 8, 9, 10, 11}" using m False calendar_month_range [of m] by auto
  then show ?thesis
    by (auto simp: ymd_to_jd_march march_day_def march_year_def march_month_def month_length_def date_days_in_month_def)
qed

lemma ymd_to_jd_year:
  assumes "y \<noteq> 0"
  shows "ymd_to_jd (if y = -1 then 1 else y + 1) 1 1 = ymd_to_jd y 12 31 + 1"
proof -
  have "astronomical (if y = -1 then 1 else y + 1) = astronomical y + 1" using assms by (auto simp: astronomical_def)
  then show ?thesis by (simp add: ymd_to_jd_march march_day_def march_year_def march_month_def)
qed

lemma next_ymd_valid:
  assumes "date_is_valid y m d"
  shows "case next_ymd (y, m, d) of (y', m', d') \<Rightarrow> date_is_valid y' m' d' \<and> ymd_to_jd y' m' d' = ymd_to_jd y m d + 1"
proof -
  have v: "y \<noteq> 0" "1 \<le> m" "m \<le> 12" "1 \<le> d" "d \<le> month_length y m" using assms by (auto simp: valid_month_length)
  have len: "1 \<le> month_length y' m'" if "1 \<le> m'" "m' \<le> 12" for y' m'
    using calendar_month_range [OF that] by (auto simp: month_length_def date_days_in_month_def)
  consider "d < month_length y m" | "d = month_length y m" "m < 12" | "d = month_length y m" "m = 12" using v by linarith
  then show ?thesis
  proof cases
    case 1
    then show ?thesis using v ymd_to_jd_day [of m y d] by (simp add: next_ymd_def valid_month_length)
  next
    case 2
    then show ?thesis using v ymd_to_jd_month [of y m] len by (simp add: next_ymd_def valid_month_length)
  next
    case 3
    have "month_length y 12 = 31" by (simp add: month_length_def date_days_in_month_def)
    then show ?thesis using 3 v ymd_to_jd_year [of y] len by (simp add: next_ymd_def valid_month_length)
  qed
qed

text \<open>Day numbers count days: the date of \<open>jd + 1\<close> is the calendar's next day after the date of \<open>jd\<close>
  (month lengths, leap years and the missing year 0 included), the weekday moves on with it through 1 to 7,
  and 1 January 2000 is day 2451545, a Saturday.\<close>

theorem date_next_day:
  "jd_to_ymd (jd + 1) = next_ymd (jd_to_ymd jd) \<and>
   (jd \<noteq> DATE_JD_INVALID \<longrightarrow> date_day_of_week jd = jd mod 7 + 1) \<and>
   jd_to_ymd 2451545 = (2000, 1, 1) \<and> date_day_of_week 2451545 = 6"
proof (intro conjI impI)
  obtain y m d where v: "date_is_valid y m d" "ymd_to_jd y m d = jd" using jd_exists by blast
  obtain y' m' d' where n: "next_ymd (y, m, d) = (y', m', d')" by (cases "next_ymd (y, m, d)") blast
  have v': "date_is_valid y' m' d'" "ymd_to_jd y' m' d' = jd + 1" using next_ymd_valid [OF v(1)] n v(2) by auto
  from jd_roundtrip [OF v'(1)] jd_roundtrip [OF v(1)] show "jd_to_ymd (jd + 1) = next_ymd (jd_to_ymd jd)"
    by (simp only: v v' n)
  show "date_day_of_week jd = jd mod 7 + 1" if "jd \<noteq> DATE_JD_INVALID"
  proof (cases "0 \<le> jd")
    case True
    then show ?thesis using that by (simp add: date_day_of_week_def date_is_invalid_def smod_nonneg)
  next
    case False
    show ?thesis
    proof (cases "jd = -1")
      case True
      then show ?thesis by (simp add: date_day_of_week_def date_is_invalid_def DATE_JD_INVALID_def smod_nonneg)
    next
      case F: False
      have "date_day_of_week jd = - ((- (jd + 1)) mod 7) + 7"
        using False F that by (simp add: date_day_of_week_def date_is_invalid_def smod_neg)
      moreover have "- ((- (jd + 1)) mod 7) + 7 = jd mod 7 + 1" by presburger
      ultimately show ?thesis by simp
    qed
  qed
  show "jd_to_ymd 2451545 = (2000, 1, 1)" "date_day_of_week 2451545 = 6"
    by code_simp+
qed

lemma date_next_day_witness: "jd_to_ymd 2451546 = next_ymd (2000, 1, 1) \<and> date_day_of_week 2451546 = 7"
  using date_next_day [of 2451545] date_next_day [of 2451546] by (simp add: DATE_JD_INVALID_def)

text \<open>\<open>Time\<close> arithmetic is arithmetic modulo the day: for a valid time and at most a day of seconds,
  \<open>+\<close> and \<open>-\<close> give the wrapped sum, undo each other and agree with \<open>+=\<close> and \<open>-=\<close>; more than a day of
  seconds stops the process. The fields of a valid time are the ones it was made from.\<close>

theorem time_arithmetic:
  "(time_is_valid h mi s ms \<longrightarrow> time_get (time_set h mi s ms) = (h, mi, s, ms)) \<and>
   (\<not> time_is_invalid t \<and> \<bar>secs\<bar> \<le> 86400 \<longrightarrow>
      time_plus t secs = Some ((t + secs * 1000) mod TIME_MS_IN_DAY) \<and>
      time_minus ((t + secs * 1000) mod TIME_MS_IN_DAY) secs = Some t \<and>
      time_add_assign t secs = time_plus t secs \<and> time_sub_assign t secs = time_minus t secs) \<and>
   (\<bar>secs\<bar> > 86400 \<longrightarrow> time_plus t secs = None \<and> time_minus t secs = None)"
proof (intro conjI impI)
  show "time_get (time_set h mi s ms) = (h, mi, s, ms)" if "time_is_valid h mi s ms"
  proof -
    have v: "0 \<le> h" "h \<le> 23" "0 \<le> mi" "mi \<le> 59" "0 \<le> s" "s \<le> 59" "0 \<le> ms" "ms \<le> 999"
      using that by (simp_all add: time_is_valid_def)
    define n where "n = h * 3600000 + mi * 60000 + s * 1000 + ms"
    have n: "0 \<le> n" "n < 86400000" using v by (simp_all add: n_def)
    have "n div 3600000 = h" using v by (intro div_eqI) (simp_all add: n_def)
    moreover have "n mod 3600000 = mi * 60000 + s * 1000 + ms"
      using calculation mult_div_mod_eq [of 3600000 n] by (simp add: n_def)
    moreover have "(mi * 60000 + s * 1000 + ms) div 60000 = mi" using v by (intro div_eqI) simp_all
    moreover have "n div 1000 = h * 3600 + mi * 60 + s" using v by (intro div_eqI) (simp_all add: n_def)
    moreover have "(h * 3600 + mi * 60 + s) mod 60 = s" using v
    proof -
      have "h * 3600 + mi * 60 + s = s + (h * 60 + mi) * 60" by simp
      then show ?thesis using v by (simp only: mod_mult_self1) simp
    qed
    moreover have "n mod 1000 = ms"
    proof -
      have "n = ms + (h * 3600 + mi * 60 + s) * 1000" by (simp add: n_def)
      then show ?thesis using v by (simp only: mod_mult_self1) simp
    qed
    moreover have "time_set h mi s ms = n" using that by (simp add: time_set_def hms_to_ms_def n_def)
    moreover have "ms_to_hms n = (n div 3600000, (n mod 3600000) div 60000, (n div 1000) mod 60, n mod 1000)"
    proof -
      have "n sdiv 3600000 = n div 3600000" "n smod 3600000 = n mod 3600000" "n sdiv 1000 = n div 1000" "n smod 1000 = n mod 1000"
        using n(1) by (simp_all only: sdiv_nonneg smod_nonneg zero_less_numeral)
      moreover have "(n mod 3600000) sdiv 60000 = (n mod 3600000) div 60000" by (rule sdiv_nonneg) simp_all
      moreover have "(n div 1000) smod 60 = (n div 1000) mod 60" using n(1) by (intro smod_nonneg) (simp_all add: pos_imp_zdiv_nonneg_iff)
      moreover have "(60 * 60 * 1000 :: int) = 3600000" "(60 * 1000 :: int) = 60000" by simp_all
      ultimately show ?thesis unfolding ms_to_hms_def by (simp only:)
    qed
    moreover have "\<not> time_is_invalid n" using n by (simp add: time_is_invalid_def TIME_MS_IN_DAY_def)
    ultimately show ?thesis unfolding time_get_def by (simp only: if_False)
  qed
  assume "\<not> time_is_invalid t \<and> \<bar>secs\<bar> \<le> 86400"
  then have t: "0 \<le> t" "t < 86400000" and s: "- 86400 \<le> secs" "secs \<le> 86400"
    by (auto simp: time_is_invalid_def TIME_MS_IN_DAY_def)
  have wrap: "wrap_day (a + b) = (a + b) mod 86400000"
    if "0 \<le> a" "a < 86400000" "- 86400000 \<le> b" "b \<le> 86400000" for a b
  proof -
    consider "a + b < 0" | "0 \<le> a + b" "a + b < 86400000" | "86400000 \<le> a + b" by linarith
    then show ?thesis
    proof cases
      case 1
      have "(a + b) mod 86400000 = (a + b + 86400000) mod 86400000" by (rule mod_add_self2 [symmetric])
      also have "\<dots> = a + b + 86400000" by (rule mod_pos_pos_trivial) (use 1 that in linarith)+
      finally show ?thesis using 1 that by (simp add: wrap_day_def TIME_MS_IN_DAY_def)
    next
      case 2
      then show ?thesis by (simp add: wrap_day_def TIME_MS_IN_DAY_def)
    next
      case 3
      have "(a + b) mod 86400000 = (a + b - 86400000) mod 86400000" by (simp only: minus_mod_self2)
      also have "\<dots> = a + b - 86400000" by (rule mod_pos_pos_trivial) (use 3 that in linarith)+
      finally show ?thesis using 3 that by (simp add: wrap_day_def TIME_MS_IN_DAY_def)
    qed
  qed
  have plus: "wrap_day (t + secs * 1000) = (t + secs * 1000) mod 86400000" using wrap [of t "secs * 1000"] t s by simp
  have minus: "wrap_day (u - secs * 1000) = (u - secs * 1000) mod 86400000" if "0 \<le> u" "u < 86400000" for u
    using wrap [of u "- (secs * 1000)"] that s by simp
  have valid: "\<not> time_is_invalid (u mod 86400000)" for u
    using pos_mod_sign [of 86400000 u] pos_mod_bound [of 86400000 u] by (simp add: time_is_invalid_def TIME_MS_IN_DAY_def not_less)
  have keep: "time_of_msec (u mod 86400000) = u mod 86400000" for u
    using valid [of u] by (simp add: time_of_msec_def time_is_invalid_def)
  have guard: "\<not> (secs * 1000 > TIME_MS_IN_DAY \<or> secs * 1000 < - TIME_MS_IN_DAY)" using s by (simp add: TIME_MS_IN_DAY_def)
  have tv: "\<not> time_is_invalid t" using t by (simp add: time_is_invalid_def TIME_MS_IN_DAY_def)
  have day: "TIME_MS_IN_DAY = 86400000" by (simp add: TIME_MS_IN_DAY_def)
  note run = time_plus_def time_minus_def time_add_assign_def time_sub_assign_def Let_def
  show "time_plus t secs = Some ((t + secs * 1000) mod TIME_MS_IN_DAY)"
    unfolding run if_not_P [OF guard] if_not_P [OF tv] plus keep unfolding day by (rule refl)
  show "time_add_assign t secs = time_plus t secs"
    unfolding run if_not_P [OF guard] if_not_P [OF tv] if_P [OF tv] plus keep by (rule refl)
  show "time_sub_assign t secs = time_minus t secs"
    unfolding run if_not_P [OF guard] if_not_P [OF tv] if_P [OF tv] minus [OF t] keep by (rule refl)
  define u where "u = (t + secs * 1000) mod 86400000"
  have du: "(t + secs * 1000) mod TIME_MS_IN_DAY = u" by (simp add: u_def day)
  have u: "0 \<le> u" "u < 86400000" "\<not> time_is_invalid u" using valid by (simp_all add: u_def)
  have "(u - secs * 1000) mod 86400000 = t" using t by (simp add: u_def mod_diff_left_eq)
  then show "time_minus ((t + secs * 1000) mod TIME_MS_IN_DAY) secs = Some t"
    unfolding du run if_not_P [OF guard] if_not_P [OF u(3)] minus [OF u(1,2)] keep by (rule arg_cong)
next
  show "time_plus t secs = None" "time_minus t secs = None" if "86400 < \<bar>secs\<bar>"
    using that by (auto simp: time_plus_def time_minus_def TIME_MS_IN_DAY_def Let_def)
qed

lemma time_arithmetic_witness:
  "time_get (time_set 23 59 58 7) = (23, 59, 58, 7) \<and> time_plus 86398007 3 = Some 1007 \<and> time_plus 0 90000 = None"
proof -
  have v: "time_is_valid 23 59 58 7" and i: "\<not> time_is_invalid 86398007" by (simp_all add: time_is_valid_def time_is_invalid_def TIME_MS_IN_DAY_def)
  show ?thesis
    using time_arithmetic [of 23 59 58 7 86398007 3] time_arithmetic [of 23 59 58 7 0 90000] v i by (simp add: TIME_MS_IN_DAY_def)
qed

end
