(* ===== verification/Rtc_Facts.thy ===== *)
theory Rtc_Facts
  imports Rtc Calendar_Facts
begin

text \<open>
  The tick arithmetic of \<open>libRtc.cpp\<close> agrees with the calendar of \<open>dateTime.cpp\<close>, which is written
  quite differently: the day number of a tick is a Julian day number shifted by 1721426. The round
  trips between ticks, date-times, Unix and Win32 times and RFC 3339 text follow.
\<close>

subsection \<open>The calendar part\<close>

lemma decode_ticks_day:
  assumes D: "0 \<le> D" "D < 100" and e: "0 \<le> e" "e \<le> 365" "e = 365 \<Longrightarrow> leap (100 * b + D + 1)"
    and a: "a = year_start (100 * b + D) + e"
    and m: "0 \<le> m" "m \<le> 11" "1 \<le> d" "d \<le> march_length m" "e = (153 * m + 2) div 5 + d - 1"
  shows "(4 * a + 3) div 146097 = b" and "(4 * a + 3 - 146097 * b) div 4 = a - (146097 * b) div 4"
    and "(4 * (a - (146097 * b) div 4) + 3) div 1461 = D"
    and "(4 * (a - (146097 * b) div 4) + 7 - 1461 * D) div 4 = e + 1"
    and "(5 * e + 2) div 153 = m" and "(5 * e + 7 - 153 * m) div 5 = d"
proof -
  note C = decode_century [OF D e a] and M = decode_month [OF m]
  show "(4 * a + 3) div 146097 = b" by (rule C(1))
  show "(4 * (a - (146097 * b) div 4) + 3) div 1461 = D" by (rule C(2))
  show "(5 * e + 2) div 153 = m" by (rule M(1))
  obtain P Q u v where PQ: "(146097 * b) div 4 = P" "(1461 * D) div 4 = Q" "b mod 4 = u" "D mod 4 = v" by blast
  have q: "4 * P = 146097 * b - u" "4 * Q = 1461 * D - v" using quarters [of b] quarters [of D] by (simp_all add: PQ)
  have r: "0 \<le> u" "u < 4" "0 \<le> v" "v < 4" by (simp_all add: PQ(3,4) [symmetric])
  show "(4 * a + 3 - 146097 * b) div 4 = a - (146097 * b) div 4"
    unfolding PQ by (rule div_eqI) (use q r in \<open>simp_all add: algebra_simps\<close>)
  have "a - P - Q = e" using C(3) by (simp add: PQ)
  then show "(4 * (a - (146097 * b) div 4) + 7 - 1461 * D) div 4 = e + 1"
    unfolding PQ by (intro div_eqI) (use q r in \<open>simp_all add: algebra_simps\<close>)
  obtain w k where w: "(153 * m + 2) div 5 = k" "(153 * m + 2) mod 5 = w" by blast
  have "5 * k + w = 153 * m + 2" "0 \<le> w" "w < 5" using mult_div_mod_eq [of 5 "153 * m + 2"] by (simp_all add: w [symmetric])
  then show "(5 * e + 7 - 153 * m) div 5 = d" unfolding m(5) w by (intro div_eqI) simp_all
qed

lemma sub64_div: "x + r \<le> U64_MAX \<Longrightarrow> sub64 (x + r) (k * (x div k)) = x mod k + r"
proof -
  assume x: "x + r \<le> U64_MAX"
  have "k * (x div k) \<le> x + r" by (simp add: trans_le_add1)
  then have "sub64 (x + r) (k * (x div k)) = x + r - k * (x div k)" using x by (intro sub64_le)
  also have "\<dots> = x mod k + r" by (simp add: minus_mult_div_eq_mod [symmetric])
  finally show ?thesis .
qed

lemma rtc_civil_mod:
  assumes n: "n \<le> 10000000000"
  shows "rtc_civil n =
    (let a = 4 * (n + 306) + 3; ly = a div 146097; c = 4 * (a mod 146097 div 4) + 3; j = c div 1461;
         ld = c mod 1461 div 4 + 1; f = 5 * ld - 3; lm = f div 153; ld = f mod 153 div 5 + 1; ly = 100 * ly + j
     in if lm < 10 then (ly, lm + 3, ld) else (ly + 1, lm - 9, ld))"
proof -
  have small: "x mod 146097 < 146097" "x mod 1461 < 1461" "x mod 153 < 153" for x :: nat by simp_all
  define a where "a = 4 * (n + 306) + 3"
  have a: "a \<le> 50000000000" using n by (simp add: a_def)
  have 1: "sub64 (4 * add64 n 307) 1 = a" using n by (simp add: u64_simps U64_MAX_def a_def)
  have 2: "sub64 a (146097 * (a div 146097)) = a mod 146097" using sub64_div [of a 0] a by (simp add: U64_MAX_def)
  define c where "c = 4 * (a mod 146097 div 4) + 3"
  have c: "c \<le> 146103" using small(1) [of a] by (simp add: c_def)
  have c7: "4 * (a mod 146097 div 4) + 7 = c + 4" by (simp add: c_def)
  have 3: "sub64 (4 * (a mod 146097 div 4) + 7) (1461 * (c div 1461)) = c mod 1461 + 4"
    unfolding c7 using sub64_div [of c 4] c by (simp add: U64_MAX_def)
  have 4: "(c mod 1461 + 4) div 4 = c mod 1461 div 4 + 1" by simp
  define ld where "ld = c mod 1461 div 4 + 1"
  have ld: "1 \<le> ld" "ld \<le> 366" using small(2) [of c] by (simp_all add: ld_def)
  have 5: "sub64 (5 * ld) 3 = 5 * ld - 3" using ld by (intro sub64_le) (simp_all add: U64_MAX_def)
  define f where "f = 5 * ld - 3"
  have f2: "5 * ld + 2 = f + 5" using ld by (simp add: f_def)
  have 6: "sub64 (5 * ld + 2) (153 * (f div 153)) = f mod 153 + 5"
    unfolding f2 using sub64_div [of f 5] ld by (simp add: U64_MAX_def f_def)
  have 7: "(f mod 153 + 5) div 5 = f mod 153 div 5 + 1" by simp
  show ?thesis
    unfolding rtc_civil_def Let_def 1 2 c_def [symmetric] a_def [symmetric] 3 4 ld_def [symmetric] 5 f_def [symmetric] 6 7 by (rule refl)
qed

lemma rtc_civil_correct:
  assumes n: "n \<le> 10000000000"
  shows "case rtc_civil n of (y, m, d) \<Rightarrow> jd_to_ymd (int n + 1721426) = (int y, int m, int d) \<and> 0 < y"
proof -
  define a where "a = int n + 306"
  obtain b D e where D: "0 \<le> D" "D < 100" "0 \<le> e" "e \<le> 365" "e = 365 \<Longrightarrow> leap (100 * b + D + 1)"
    "a = year_start (100 * b + D) + e" by (rule century_exists [of a]) blast
  obtain m d where m: "0 \<le> m" "m \<le> 11" "1 \<le> d" "d \<le> march_length m" "e = (153 * m + 2) div 5 + d - 1"
    by (rule month_exists [OF D(3,4)])
  note T = decode_ticks_day [OF D m] and M = decode_month [OF m]
  define N where "N = 4 * (n + 306) + 3"
  have N: "int N = 4 * a + 3" by (simp add: N_def a_def)
  define c where "c = 4 * (N mod 146097 div 4) + 3"
  have century: "int (N div 146097) = b" using T(1) by (simp add: zdiv_int N)
  have "int (N mod 146097) = 4 * a + 3 - 146097 * b"
    using T(1) minus_mult_div_eq_mod [of "4 * a + 3" 146097] by (simp add: zmod_int N)
  then have c: "int c = 4 * (a - (146097 * b) div 4) + 3" using T(2) by (simp add: c_def zdiv_int)
  have year_of: "int (c div 1461) = D" using T(3) by (simp add: zdiv_int c)
  have "int (c mod 1461) = int c - 1461 * D"
    using T(3) minus_mult_div_eq_mod [of "int c" 1461] by (simp add: zmod_int c)
  then have ld: "int (c mod 1461 div 4 + 1) = e + 1"
  proof -
    assume "int (c mod 1461) = int c - 1461 * D"
    then have "int (c mod 1461 div 4 + 1) = (4 * (a - (146097 * b) div 4) + 3 - 1461 * D) div 4 + 1" by (simp add: zdiv_int c)
    also have "\<dots> = (4 * (a - (146097 * b) div 4) + 7 - 1461 * D) div 4" using div_add_self2 [of 4 "4 * (a - (146097 * b) div 4) + 3 - 1461 * D"]
      by (simp add: algebra_simps)
    finally show ?thesis using T(4) by simp
  qed
  define f where "f = 5 * (c mod 1461 div 4 + 1) - 3"
  have f: "int f = 5 * e + 2" using ld by (simp add: f_def)
  have lm: "int (f div 153) = m" using T(5) by (simp add: zdiv_int f)
  have "int (f mod 153) = 5 * e + 2 - 153 * m" using T(5) minus_mult_div_eq_mod [of "5 * e + 2" 153] by (simp add: zmod_int f)
  then have "int (f mod 153 div 5 + 1) = (5 * e + 2 - 153 * m) div 5 + 1" by (simp add: zdiv_int)
  also have "\<dots> = (5 * e + 7 - 153 * m) div 5" using div_add_self2 [of 5 "5 * e + 2 - 153 * m"] by (simp add: algebra_simps)
  finally have dd: "int (f mod 153 div 5 + 1) = d" using T(6) by simp
  have jd: "jd_to_ymd (int n + 1721426) = (calendar_year (100 * b + D) m, calendar_month m, d)"
  proof -
    have jn: "int n + 1721426 = march_day (100 * b + D) m d + 1721120" using D(6) m(5) by (simp add: march_day_def a_def)
    have l: "m = 11 \<Longrightarrow> d = 29 \<Longrightarrow> leap (100 * b + D + 1)" using M(4) D(5) by simp
    show ?thesis unfolding jn by (rule jd_to_ymd_march [OF m(1-4) l])
  qed
  have year: "0 < 100 * b + D \<or> m \<ge> 10 \<and> 0 \<le> 100 * b + D"
  proof -
    have "0 \<le> b" using century by linarith
    then consider "0 < 100 * b + D" | "b = 0" "D = 0" using D(1) by linarith
    then show ?thesis
    proof cases
      case 2
      then have "306 \<le> e" using D(6) by (simp add: year_start_def a_def)
      then have "m \<ge> 10" using m month_range [OF m(1,2)] by (auto simp: march_length_def)
      then show ?thesis using 2 by simp
    qed simp
  qed
  have civil: "rtc_civil n = (if f div 153 < 10 then (100 * (N div 146097) + c div 1461, f div 153 + 3, f mod 153 div 5 + 1)
      else (100 * (N div 146097) + c div 1461 + 1, f div 153 - 9, f mod 153 div 5 + 1))"
    unfolding rtc_civil_mod [OF n] Let_def N_def c_def f_def by (rule refl)
  have ly: "int (100 * (N div 146097) + c div 1461) = 100 * b + D" using century year_of by simp
  obtain Z where Z: "100 * (N div 146097) + c div 1461 = Z" by blast
  have sm: "f div 153 < 10 \<longleftrightarrow> m < 10" using lm by linarith
  show ?thesis
  proof (cases "m < 10")
    case True
    then show ?thesis using civil [unfolded Z] ly [unfolded Z] sm jd lm dd year by (simp add: calendar_year_def calendar_month_def)
  next
    case False
    then have "int (f div 153 - 9) = m - 9" using lm by (simp add: of_nat_diff)
    then show ?thesis using False civil [unfolded Z] ly [unfolded Z] sm jd lm dd year by (simp add: calendar_year_def calendar_month_def)
  qed
qed

lemma rtc_day_number_jd:
  assumes v: "date_is_valid (int y) (int m) (int d)" and y: "0 < y" "y \<le> 9999"
  shows "int (rtc_day_number y m d) = ymd_to_jd (int y) (int m) (int d) - 1721426" and "rtc_day_number y m d \<le> 4000000"
proof -
  have m: "1 \<le> m" "m \<le> 12" and d: "1 \<le> d" "int d \<le> march_length (march_month (int m))" using v by (auto simp: valid_date_march)
  define Y where "Y = (if m > 2 then y else y - 1)"
  define M where "M = (if m > 2 then m - 3 else m + 9)"
  have MY: "int M = march_month (int m)" "int Y = march_year (int y) (int m)"
    using m y by (auto simp: M_def Y_def march_month_def march_year_def astronomical_def of_nat_diff)
  have M11: "int M \<le> 11" "0 \<le> int M" using m by (auto simp: M_def)
  define e where "e = (153 * int M + 2) div 5 + int d - 1"
  have E: "0 \<le> e" "e \<le> 365" using decode_month [OF M11(2,1) _ _ e_def] d MY by simp_all
  define c where "c = Y div 100"
  define ya where "ya = Y - 100 * c"
  have ya: "Y = 100 * c + ya" "ya < 100" by (simp_all add: ya_def c_def minus_mult_div_eq_mod)
  define days where "days = (146097 * c) div 4 + (1461 * ya) div 4 + (153 * M + 2) div 5 + d"
  have "int days = (146097 * int c) div 4 + (1461 * int ya) div 4 + (153 * int M + 2) div 5 + int d"
    by (simp add: days_def zdiv_int)
  also have "\<dots> = year_start (int Y) + e + 1"
  proof -
    have "int Y = 100 * int c + int ya" using ya(1) by (simp only: of_nat_add of_nat_mult of_nat_numeral)
    moreover have "year_start (100 * int c + int ya) = (146097 * int c) div 4 + (1461 * int ya) div 4"
      using ya(2) by (intro century_split) simp_all
    ultimately show ?thesis by (simp only: e_def)
  qed
  finally have days: "int days = year_start (int Y) + e + 1" .
  have Yb: "int Y \<le> 9999" using y by (auto simp: Y_def)
  have ys: "365 * int Y \<le> year_start (int Y)" "year_start (int Y) \<le> 366 * int Y" by (simp_all add: year_start_bounds)
  have ge: "307 \<le> days"
  proof (cases "Y = 0")
    case True
    then have "m \<le> 2" using y by (auto simp: Y_def split: if_splits)
    then have "306 \<le> e" using d(1) m by (auto simp: e_def M_def le_Suc_eq numeral_2_eq_2)
    then show ?thesis using days True by (simp add: year_start_def)
  next
    case False
    then show ?thesis using days ys(1) E(1) by simp
  qed
  have le: "days \<le> 4000307" using days ys(2) E(2) Yb by simp
  have "rtc_day_number y m d = sub64 days 307"
  proof (cases "m > 2")
    case True
    then show ?thesis unfolding rtc_day_number_def Let_def by (simp add: days_def c_def ya_def Y_def M_def)
  next
    case False
    have "sub64 y 1 = y - 1" using y by (intro sub64_le) (simp_all add: U64_MAX_def)
    then show ?thesis using False unfolding rtc_day_number_def Let_def by (simp add: days_def c_def ya_def Y_def M_def)
  qed
  also have "\<dots> = days - 307" using ge le by (intro sub64_le) (simp_all add: U64_MAX_def)
  finally have eq: "rtc_day_number y m d = days - 307" .
  show "rtc_day_number y m d \<le> 4000000" using eq le by simp
  have "ymd_to_jd (int y) (int m) (int d) = march_day (int Y) (int M) (int d) + 1721120"
    unfolding MY using m by (intro ymd_to_jd_march) simp_all
  then show "int (rtc_day_number y m d) = ymd_to_jd (int y) (int m) (int d) - 1721426"
    using eq ge days by (simp add: of_nat_diff march_day_def e_def)
qed

subsection \<open>Ticks and date-times\<close>

definition rtc_valid :: "rtc_time \<Rightarrow> bool" where
  "rtc_valid t \<longleftrightarrow> 0 < rt_year t \<and> rt_year t \<le> 9999 \<and> date_is_valid (int (rt_year t)) (int (rt_month t)) (int (rt_day t)) \<and>
     rt_hour t < 24 \<and> rt_minute t < 60 \<and> rt_second t < 60 \<and> rt_microsecond t < 1000000"

lemma check_valid_OK: "rtc_check_valid (Some t) = RTC_OK \<longleftrightarrow> rtc_valid t"
  using valid_date_range [of "int (rt_year t)" "int (rt_month t)" "int (rt_day t)"]
  by (auto simp: rtc_check_valid_def rtc_valid_def rtc_codes)

definition day_usec :: "rtc_time \<Rightarrow> nat" where
  "day_usec t = rt_hour t * 3600000000 + rt_minute t * 60000000 + rt_second t * 1000000 + rt_microsecond t"

definition tick_of :: "rtc_time \<Rightarrow> nat" where
  "tick_of t = rtc_day_number (rt_year t) (rt_month t) (rt_day t) * TICKS_PER_DAY + day_usec t"

lemma day_usec_bound: "rtc_valid t \<Longrightarrow> day_usec t < TICKS_PER_DAY"
  by (simp add: rtc_valid_def day_usec_def TICKS_PER_DAY_def)

lemma rtc_valid_day: "rtc_valid t \<Longrightarrow> rtc_day_number (rt_year t) (rt_month t) (rt_day t) \<le> 4000000"
  by (intro rtc_day_number_jd(2)) (auto simp: rtc_valid_def)

lemma rtc_get_tick_valid: "rtc_valid t \<Longrightarrow> rtc_get_tick (Some t) (Some u) = (RTC_OK, Some (tick_of t))"
  and tick_of_bound: "rtc_valid t \<Longrightarrow> tick_of t \<le> 345600086400000000"
proof -
  assume v: "rtc_valid t"
  then have b: "rtc_day_number (rt_year t) (rt_month t) (rt_day t) \<le> 4000000" by (rule rtc_valid_day)
  have u: "day_usec t < 86400000000" using day_usec_bound [OF v] by (simp add: TICKS_PER_DAY_def)
  show le: "tick_of t \<le> 345600086400000000" using b u by (simp add: tick_of_def TICKS_PER_DAY_def)
  show "rtc_get_tick (Some t) (Some u) = (RTC_OK, Some (tick_of t))"
    using b le check_valid_OK [of t] v
    by (simp add: rtc_get_tick_def Let_def tick_of_def day_usec_def TICKS_PER_DAY_def u64_simps U64_MAX_def)
qed

lemma usec_fields:
  fixes u :: nat
  assumes "h < 24" and "mi < 60" and "s < 60" and "us < 1000000"
    and u: "u = h * 3600000000 + mi * 60000000 + s * 1000000 + us"
  shows "u div 3600000000 = h" and "u mod 3600000000 div 60000000 = mi"
    and "u mod 3600000000 mod 60000000 div 1000000 = s" and "u mod 3600000000 mod 60000000 mod 1000000 = us"
proof -
  have 1: "u = (mi * 60000000 + s * 1000000 + us) + h * 3600000000" "mi * 60000000 + s * 1000000 + us < 3600000000"
    using assms by simp_all
  have m1: "u mod 3600000000 = mi * 60000000 + s * 1000000 + us" unfolding 1(1) mod_mult_self1 using 1(2) by (rule mod_less)
  show "u div 3600000000 = h" unfolding 1(1) using 1(2) by (simp add: div_mult_self1)
  have 2: "u mod 3600000000 = (s * 1000000 + us) + mi * 60000000" "s * 1000000 + us < 60000000" using m1 assms by simp_all
  have m2: "u mod 3600000000 mod 60000000 = s * 1000000 + us" unfolding 2(1) mod_mult_self1 using 2(2) by (rule mod_less)
  show "u mod 3600000000 div 60000000 = mi" unfolding 2(1) using 2(2) by (simp add: div_mult_self1)
  have 3: "u mod 3600000000 mod 60000000 = us + s * 1000000" using m2 by simp
  show "u mod 3600000000 mod 60000000 div 1000000 = s" unfolding 3 using assms(4) by (simp add: div_mult_self1)
  show "u mod 3600000000 mod 60000000 mod 1000000 = us" unfolding 3 mod_mult_self1 using assms(4) by (rule mod_less)
qed

lemma usec_bounds:
  fixes u :: nat
  assumes "u < 86400000000"
  shows "u div 3600000000 < 24" and "u mod 3600000000 div 60000000 < 60"
    and "u mod 3600000000 mod 60000000 div 1000000 < 60" and "u mod 3600000000 mod 60000000 mod 1000000 < 1000000"
    and "u = u div 3600000000 * 3600000000 + u mod 3600000000 div 60000000 * 60000000 +
       u mod 3600000000 mod 60000000 div 1000000 * 1000000 + u mod 3600000000 mod 60000000 mod 1000000"
proof -
  define a b where "a = u mod 3600000000" and "b = a mod 60000000"
  have "a < 3600000000" "b < 60000000" by (simp_all add: a_def b_def)
  then show "u div 3600000000 < 24" "u mod 3600000000 div 60000000 < 60"
    "u mod 3600000000 mod 60000000 div 1000000 < 60" "u mod 3600000000 mod 60000000 mod 1000000 < 1000000"
    using assms unfolding a_def b_def by (simp_all add: less_mult_imp_div_less)
  show "u = u div 3600000000 * 3600000000 + u mod 3600000000 div 60000000 * 60000000 +
      u mod 3600000000 mod 60000000 div 1000000 * 1000000 + u mod 3600000000 mod 60000000 mod 1000000"
    by (simp only: add.assoc div_mult_mod_eq)
qed

text \<open>What \<open>RtcSetTick\<close> makes of a tick.\<close>

definition time_of_tick :: "u64 \<Rightarrow> rtc_time" where
  "time_of_tick k =
     (let (y, m, d) = rtc_civil (k div TICKS_PER_DAY); u = k mod TICKS_PER_DAY
      in \<lparr>rt_year = y, rt_month = m, rt_day = d, rt_hour = u div 3600000000, rt_minute = u mod 3600000000 div 60000000,
          rt_second = u mod 3600000000 mod 60000000 div 1000000, rt_microsecond = u mod 3600000000 mod 60000000 mod 1000000\<rparr>)"

lemma rtc_set_tick_spec:
  assumes k: "k \<le> U64_MAX"
  shows "if fst (jd_to_ymd (int (k div TICKS_PER_DAY) + 1721426)) > 9999
    then rtc_set_tick (Some t0) (Some k) = (RTC_ERROR_INVALID_VALUE, Some t0)
    else rtc_valid (time_of_tick k) \<and> rtc_set_tick (Some t0) (Some k) = (RTC_OK, Some (time_of_tick k)) \<and>
      tick_of (time_of_tick k) = k"
proof -
  have "k div TICKS_PER_DAY \<le> U64_MAX div TICKS_PER_DAY" using k by (rule div_le_mono)
  then have n: "k div TICKS_PER_DAY \<le> 10000000000" by (simp add: TICKS_PER_DAY_def U64_MAX_def)
  define n where "n = k div TICKS_PER_DAY"
  define w where "w = k mod TICKS_PER_DAY"
  obtain y m d where c: "rtc_civil n = (y, m, d)" by (cases "rtc_civil n") blast
  have jd: "jd_to_ymd (int n + 1721426) = (int y, int m, int d)" "0 < y"
    using rtc_civil_correct [OF n [folded n_def]] c by auto
  have v: "date_is_valid (int y) (int m) (int d)" "ymd_to_jd (int y) (int m) (int d) = int n + 1721426"
    using date_jd_bijection_all [of "int n + 1721426"] jd by (auto simp: Let_def)
  have md: "m \<le> 12" "d \<le> 31" "0 < m" "0 < d"
    using valid_date_small [OF v(1)] by auto
  obtain h mi s us where f: "w div 3600000000 = h" "w mod 3600000000 div 60000000 = mi"
    "w mod 3600000000 mod 60000000 div 1000000 = s" "w mod 3600000000 mod 60000000 mod 1000000 = us" by blast
  have "w < 86400000000" by (simp add: w_def TICKS_PER_DAY_def)
  note U = usec_bounds [OF this, unfolded f]
  have t: "time_of_tick k = \<lparr>rt_year = y, rt_month = m, rt_day = d, rt_hour = h, rt_minute = mi, rt_second = s, rt_microsecond = us\<rparr>"
    unfolding time_of_tick_def n_def [symmetric] w_def [symmetric] c Let_def prod.case f by (rule refl)
  have set: "rtc_set_tick (Some t0) (Some k) = (if y = 0 \<or> y > 9999 then (RTC_ERROR_INVALID_VALUE, Some t0)
    else (let t = \<lparr>rt_year = y mod 65536, rt_month = m mod 65536, rt_day = d mod 65536, rt_hour = h mod 65536,
       rt_minute = mi mod 65536, rt_second = s mod 65536, rt_microsecond = us mod 4294967296\<rparr> in (rtc_check_valid (Some t), Some t)))"
    unfolding rtc_set_tick_def prod.case option.case Let_def n_def [symmetric] w_def [symmetric] c f by (rule refl)
  show ?thesis
  proof (cases "9999 < y")
    case True
    then show ?thesis using jd set by (simp add: n_def [symmetric])
  next
    case False
    then have valid: "rtc_valid (time_of_tick k)" using jd(2) v(1) U(1-4) by (simp add: rtc_valid_def t)
    have "rtc_day_number y m d = n" using rtc_day_number_jd(1) [OF v(1) jd(2)] False v(2) by simp
    then have "tick_of (time_of_tick k) = n * TICKS_PER_DAY + w" using U(5) by (simp add: tick_of_def day_usec_def t)
    then have "tick_of (time_of_tick k) = k" by (simp add: n_def w_def)
    moreover have "rtc_set_tick (Some t0) (Some k) = (rtc_check_valid (Some (time_of_tick k)), Some (time_of_tick k))"
      unfolding set t using False jd(2) md U(1-4) by (simp add: Let_def)
    ultimately show ?thesis using False jd valid check_valid_OK [of "time_of_tick k"] by (simp add: n_def [symmetric])
  qed
qed

lemma time_of_tick_of: "rtc_valid t \<Longrightarrow> time_of_tick (tick_of t) = t \<and> fst (jd_to_ymd (int (tick_of t div TICKS_PER_DAY) + 1721426)) \<le> 9999"
proof -
  assume v: "rtc_valid t"
  have dv: "date_is_valid (int (rt_year t)) (int (rt_month t)) (int (rt_day t))" "0 < rt_year t" "rt_year t \<le> 9999"
    using v by (auto simp: rtc_valid_def)
  note J = rtc_day_number_jd [OF dv]
  define n where "n = rtc_day_number (rt_year t) (rt_month t) (rt_day t)"
  have u: "day_usec t < TICKS_PER_DAY" by (rule day_usec_bound [OF v])
  have k: "tick_of t div TICKS_PER_DAY = n" "tick_of t mod TICKS_PER_DAY = day_usec t"
    using u unfolding tick_of_def n_def [symmetric] by (simp_all add: TICKS_PER_DAY_def)
  have jd: "jd_to_ymd (int n + 1721426) = (int (rt_year t), int (rt_month t), int (rt_day t))"
    using J(1) jd_roundtrip [OF dv(1)] by (simp add: n_def)
  have "n \<le> 10000000000" using J(2) by (simp add: n_def)
  then have "rtc_civil n = (rt_year t, rt_month t, rt_day t)"
    using rtc_civil_correct [of n] jd by (cases "rtc_civil n") auto
  moreover have f: "rt_hour t < 24" "rt_minute t < 60" "rt_second t < 60" "rt_microsecond t < 1000000"
    using v by (auto simp: rtc_valid_def)
  ultimately have "time_of_tick (tick_of t) = t"
    using usec_fields [OF f day_usec_def] by (simp add: time_of_tick_def k Let_def)
  then show "time_of_tick (tick_of t) = t \<and> fst (jd_to_ymd (int (tick_of t div TICKS_PER_DAY) + 1721426)) \<le> 9999"
    using jd dv(3) by (simp add: k)
qed

text \<open>C13: \<open>RtcGetTick\<close> and \<open>RtcSetTick\<close> are inverse to each other. A valid date-time has a tick, and setting
  that tick gives the date-time back; setting any 64-bit tick either gives a valid date-time whose tick it is,
  or fails with \<open>RTC_ERROR_INVALID_VALUE\<close> and writes nothing, exactly when its year is beyond 9999.\<close>

theorem rtc_tick_roundtrip:
  "(rtc_check_valid (Some t) = RTC_OK \<longrightarrow>
      (\<exists>k. rtc_get_tick (Some t) (Some u) = (RTC_OK, Some k) \<and> rtc_set_tick (Some t0) (Some k) = (RTC_OK, Some t))) \<and>
   (k \<le> U64_MAX \<longrightarrow>
      (if fst (jd_to_ymd (int (k div TICKS_PER_DAY) + 1721426)) > 9999
       then rtc_set_tick (Some t0) (Some k) = (RTC_ERROR_INVALID_VALUE, Some t0)
       else \<exists>t'. rtc_set_tick (Some t0) (Some k) = (RTC_OK, Some t') \<and> rtc_check_valid (Some t') = RTC_OK \<and>
              rtc_get_tick (Some t') (Some u) = (RTC_OK, Some k)))"
proof (intro conjI impI)
  assume "rtc_check_valid (Some t) = RTC_OK"
  then have v: "rtc_valid t" by (simp add: check_valid_OK)
  have "tick_of t \<le> U64_MAX" using tick_of_bound [OF v] by (simp add: U64_MAX_def)
  then have "rtc_set_tick (Some t0) (Some (tick_of t)) = (RTC_OK, Some t)"
    using rtc_set_tick_spec [of "tick_of t" t0] time_of_tick_of [OF v] by simp
  with rtc_get_tick_valid [OF v] show "\<exists>k. rtc_get_tick (Some t) (Some u) = (RTC_OK, Some k) \<and> rtc_set_tick (Some t0) (Some k) = (RTC_OK, Some t)"
    by blast
next
  assume "k \<le> U64_MAX"
  from rtc_set_tick_spec [OF this, of t0] show "if fst (jd_to_ymd (int (k div TICKS_PER_DAY) + 1721426)) > 9999
       then rtc_set_tick (Some t0) (Some k) = (RTC_ERROR_INVALID_VALUE, Some t0)
       else \<exists>t'. rtc_set_tick (Some t0) (Some k) = (RTC_OK, Some t') \<and> rtc_check_valid (Some t') = RTC_OK \<and>
              rtc_get_tick (Some t') (Some u) = (RTC_OK, Some k)"
    using rtc_get_tick_valid [of "time_of_tick k" u] by (auto simp: check_valid_OK split: if_splits)
qed

lemma rtc_example_valid:
  "rtc_valid \<lparr>rt_year = 2024, rt_month = 2, rt_day = 29, rt_hour = 12, rt_minute = 30, rt_second = 15, rt_microsecond = 250000\<rparr>"
proof -
  have "date_is_valid 2024 2 29" by code_simp
  then show ?thesis by (simp add: rtc_valid_def)
qed

abbreviation rtc_example :: rtc_time where
  "rtc_example \<equiv> \<lparr>rt_year = 2024, rt_month = 2, rt_day = 29, rt_hour = 12, rt_minute = 30, rt_second = 15, rt_microsecond = 250000\<rparr>"

lemma rtc_tick_roundtrip_witness:
  "(\<exists>k. rtc_get_tick (Some rtc_example) (Some 0) = (RTC_OK, Some k) \<and> rtc_set_tick (Some rtc_example) (Some k) = (RTC_OK, Some rtc_example)) \<and>
   (\<exists>t'. rtc_set_tick (Some rtc_example) (Some 0) = (RTC_OK, Some t') \<and> rtc_get_tick (Some t') (Some 0) = (RTC_OK, Some 0))"
proof -
  have "\<not> fst (jd_to_ymd (int (0 div TICKS_PER_DAY) + 1721426)) > 9999"
    by (simp add: TICKS_PER_DAY_def) code_simp
  then show ?thesis
    using rtc_tick_roundtrip [of rtc_example 0 rtc_example 0] rtc_example_valid by (auto simp: check_valid_OK)
qed

lemma mod_succ: "(if n mod 7 + 1 = 7 then 0 else n mod 7 + 1) = (n + 1) mod (7 :: int)"
proof -
  obtain m where m: "n mod 7 = m" by blast
  have "0 \<le> m" "m < 7" unfolding m [symmetric] by simp_all
  then have "(if m + 1 = 7 then 0 else m + 1) = (m + 1) mod 7" by auto
  then show ?thesis by (simp only: m [symmetric] mod_add_left_eq)
qed

text \<open>The ticks agree with the other calendar of the repository: the tick of a valid date-time is the
  Julian day number that \<open>Common::Date\<close> computes for its date, shifted to 1 January of the year 1 and scaled to
  microseconds, plus the time of day; and \<open>RtcGetDayOfWeek\<close> is the weekday of that day counted from a Monday,
  with Sunday as 0.\<close>

theorem rtc_tick_is_julian_day:
  assumes "rtc_check_valid (Some t) = RTC_OK"
  shows "\<exists>k. rtc_get_tick (Some t) (Some u) = (RTC_OK, Some k) \<and>
    int k = (ymd_to_jd (int (rt_year t)) (int (rt_month t)) (int (rt_day t)) - 1721426) * 86400000000 +
      int (rt_hour t * 3600000000 + rt_minute t * 60000000 + rt_second t * 1000000 + rt_microsecond t) \<and>
    rtc_get_day_of_week (int (rt_year t)) (int (rt_month t)) (int (rt_day t)) = (int (k div TICKS_PER_DAY) + 1) mod 7"
proof -
  have v: "rtc_valid t" using assms by (simp add: check_valid_OK)
  then have dv: "date_is_valid (int (rt_year t)) (int (rt_month t)) (int (rt_day t))" "0 < rt_year t" "rt_year t \<le> 9999"
    by (auto simp: rtc_valid_def)
  define n where "n = rtc_day_number (rt_year t) (rt_month t) (rt_day t)"
  have jd: "ymd_to_jd (int (rt_year t)) (int (rt_month t)) (int (rt_day t)) = int n + 1721426"
    using rtc_day_number_jd(1) [OF dv] by (simp add: n_def)
  have div: "tick_of t div TICKS_PER_DAY = n"
    using day_usec_bound [OF v] by (simp add: tick_of_def n_def [symmetric] TICKS_PER_DAY_def)
  have tick: "int (tick_of t) = int n * 86400000000 + int (day_usec t)" by (simp add: tick_of_def n_def TICKS_PER_DAY_def)
  have "get_days_in_month (int (rt_year t)) (int (rt_month t)) = month_length (int (rt_year t)) (int (rt_month t))"
    using dv valid_date_range [OF dv(1)] by (simp add: get_days_in_month_def month_length_def)
  moreover have "int (rt_day t) \<le> month_length (int (rt_year t)) (int (rt_month t))" "1 \<le> int (rt_day t)"
    using dv(1) by (simp_all add: valid_month_length)
  moreover have "date_day_of_week (int n + 1721426) = int n mod 7 + 1"
  proof -
    have "int n + 1721426 \<noteq> DATE_JD_INVALID" by (simp add: DATE_JD_INVALID_def)
    then have "date_day_of_week (int n + 1721426) = (int n + 245918 * 7) mod 7 + 1"
      by (simp add: date_day_of_week_def date_is_invalid_def smod_nonneg)
    then show ?thesis by (simp only: mod_mult_self1)
  qed
  ultimately have "rtc_get_day_of_week (int (rt_year t)) (int (rt_month t)) (int (rt_day t)) =
      (if int n mod 7 + 1 = 7 then 0 else int n mod 7 + 1)"
    using dv(1) by (simp add: rtc_get_day_of_week_def Let_def date_set_def jd)
  also have "\<dots> = (int n + 1) mod 7" by (rule mod_succ)
  finally show ?thesis using rtc_get_tick_valid [OF v, of u] tick jd by (simp add: div day_usec_def)
qed

lemma rtc_tick_is_julian_day_witness:
  "\<exists>k. rtc_get_tick (Some rtc_example) (Some 0) = (RTC_OK, Some k) \<and> rtc_get_day_of_week 2024 2 29 = (int (k div TICKS_PER_DAY) + 1) mod 7"
  using rtc_tick_is_julian_day [of rtc_example 0] rtc_example_valid by (auto simp: check_valid_OK)

text \<open>Unix and Win32 times survive the way through a date-time: \<open>RtcSetTime_t\<close> refuses negative seconds, and
  when it accepts \<open>RtcGetTime_t\<close> returns the seconds it was given; \<open>RtcSetWin32FileTime\<close> keeps the microseconds.\<close>

theorem rtc_host_times_roundtrip:
  "(case rtc_set_time_t (Some old) seconds of (ret, t) \<Rightarrow>
      if ret = RTC_OK then 0 \<le> seconds \<and> rtc_get_time_t t (Some x) = (RTC_OK, Some seconds)
      else ret = RTC_ERROR_INVALID_VALUE \<and> t = Some old) \<and>
   (w \<le> U64_MAX \<longrightarrow> (case rtc_set_win32_file_time (Some old) w of (ret, t) \<Rightarrow>
      if ret = RTC_OK then rtc_get_win32_file_time t (Some y) = (RTC_OK, Some (w - w mod 10))
      else ret = RTC_ERROR_INVALID_VALUE \<and> t = Some old))"
proof (intro conjI impI)
  have ne: "RTC_ERROR_INVALID_VALUE \<noteq> RTC_OK" by (simp add: rtc_codes)
  have e1: "RTC_UNIX_EPOCH_TICKS \<le> U64_MAX" "RTC_WIN32_FILETIME_EPOCH_TICKS \<le> U64_MAX"
    by (simp_all add: RTC_UNIX_EPOCH_TICKS_def RTC_WIN32_FILETIME_EPOCH_TICKS_def U64_MAX_def)
  show "case rtc_set_time_t (Some old) seconds of (ret, t) \<Rightarrow>
      if ret = RTC_OK then 0 \<le> seconds \<and> rtc_get_time_t t (Some x) = (RTC_OK, Some seconds)
      else ret = RTC_ERROR_INVALID_VALUE \<and> t = Some old"
  proof (cases "seconds < 0 \<or> nat seconds > (U64_MAX - RTC_UNIX_EPOCH_TICKS) div 1000000")
    case True
    then show ?thesis using ne by (auto simp: rtc_set_time_t_def)
  next
    case False
    define k where "k = nat seconds * 1000000 + RTC_UNIX_EPOCH_TICKS"
    have "nat seconds * 1000000 \<le> U64_MAX - RTC_UNIX_EPOCH_TICKS"
      using False by (simp add: not_less less_eq_div_iff_mult_less_eq)
    then have k: "k \<le> U64_MAX" using e1(1) by (simp add: k_def)
    have eq: "rtc_set_time_t (Some old) seconds = rtc_set_tick (Some old) (Some k)"
      using False by (simp add: rtc_set_time_t_def k_def)
    have sec: "(k - RTC_UNIX_EPOCH_TICKS) div 1000000 = nat seconds" "\<not> k < RTC_UNIX_EPOCH_TICKS" by (simp_all add: k_def)
    show ?thesis unfolding eq
      using rtc_set_tick_spec [OF k, of old] rtc_get_tick_valid [of "time_of_tick k" 0] ne False sec
      by (auto simp: rtc_get_time_t_def split: if_splits)
  qed
  assume w: "w \<le> U64_MAX"
  show "case rtc_set_win32_file_time (Some old) w of (ret, t) \<Rightarrow>
      if ret = RTC_OK then rtc_get_win32_file_time t (Some y) = (RTC_OK, Some (w - w mod 10))
      else ret = RTC_ERROR_INVALID_VALUE \<and> t = Some old"
  proof (cases "w div 10 > U64_MAX - RTC_WIN32_FILETIME_EPOCH_TICKS")
    case True
    then show ?thesis using ne by (simp add: rtc_set_win32_file_time_def)
  next
    case False
    define k where "k = w div 10 + RTC_WIN32_FILETIME_EPOCH_TICKS"
    have k: "k \<le> U64_MAX" using False e1(2) by (simp add: k_def)
    have eq: "rtc_set_win32_file_time (Some old) w = rtc_set_tick (Some old) (Some k)"
      using False by (simp add: rtc_set_win32_file_time_def k_def)
    have "w div 10 * 10 < u64_modulus" using w by (simp add: U64_MAX_def)
    then have same: "(k - RTC_WIN32_FILETIME_EPOCH_TICKS) * 10 mod u64_modulus = w - w mod 10" "\<not> k < RTC_WIN32_FILETIME_EPOCH_TICKS"
      by (simp_all add: k_def minus_mod_eq_div_mult [symmetric])
    show ?thesis unfolding eq
      using rtc_set_tick_spec [OF k, of old] rtc_get_tick_valid [of "time_of_tick k" 0] ne same
      by (auto simp: rtc_get_win32_file_time_def split: if_splits)
  qed
qed

lemma rtc_host_times_roundtrip_witness:
  "case rtc_set_win32_file_time (Some rtc_example) 133500000000000009 of (ret, t) \<Rightarrow>
     if ret = RTC_OK then rtc_get_win32_file_time t (Some 0) = (RTC_OK, Some (133500000000000009 - 133500000000000009 mod 10))
     else ret = RTC_ERROR_INVALID_VALUE \<and> t = Some rtc_example"
proof -
  have "(133500000000000009 :: nat) \<le> U64_MAX" by (simp add: U64_MAX_def)
  with rtc_host_times_roundtrip [where old = rtc_example and w = 133500000000000009 and y = 0 and seconds = 0 and x = 0] show ?thesis
    by (elim conjE impE)
qed

subsection \<open>RFC 3339\<close>

lemma is_digit_char: "d < 10 \<Longrightarrow> is_digit (char_of (48 + d)) \<and> digit_value (char_of (48 + d)) = d"
  by (simp add: is_digit_def digit_value_def)

lemma number_of_snoc: "number_of (s @ [c]) = 10 * number_of s + digit_value c"
  by (simp add: number_of_def)

lemma digits_of_digits: "list_all is_digit (digits_of n) \<and> number_of (digits_of n) = n \<and> digits_of n \<noteq> []"
proof (induction n rule: digits_of.induct)
  case (1 n)
  show ?case
  proof (cases "n < 10")
    case True
    then show ?thesis using is_digit_char [of n] by (simp add: digits_of.simps [of n] number_of_def)
  next
    case False
    have "n mod 10 < 10" by simp
    from is_digit_char [OF this] 1 False show ?thesis
      by (simp add: digits_of.simps [of n] number_of_snoc)
  qed
qed

lemma digits_of_length: "n < 10 ^ w \<Longrightarrow> 0 < w \<Longrightarrow> length (digits_of n) \<le> w"
proof (induction w arbitrary: n)
  case (Suc w)
  show ?case
  proof (cases "n < 10")
    case True
    then show ?thesis by (simp add: digits_of.simps [of n])
  next
    case False
    then have "n div 10 < 10 ^ w" using Suc.prems(1) by (simp add: less_mult_imp_div_less)
    moreover have "0 < w" using False Suc.prems(1) by (cases w) auto
    ultimately have "length (digits_of (n div 10)) \<le> w" using Suc.IH by blast
    then show ?thesis using False by (simp add: digits_of.simps [of n])
  qed
qed simp

lemma number_of_zeros: "number_of (replicate k CHR ''0'' @ s) = number_of s"
proof -
  have "foldl (\<lambda>n c. 10 * n + digit_value c) 0 (replicate k CHR ''0'') = 0"
    by (induction k) (simp_all add: digit_value_def)
  then show ?thesis by (simp add: number_of_def)
qed

text \<open>What the parser relies on: a padded number is a block of digits with its value.\<close>

definition digit_block :: "nat \<Rightarrow> nat \<Rightarrow> string \<Rightarrow> bool" where
  "digit_block w n ds \<longleftrightarrow> length ds = w \<and> list_all is_digit ds \<and> number_of ds = n \<and> 0 < w"

lemma fmt_int_block: "n < 10 ^ w \<Longrightarrow> 0 < w \<Longrightarrow> digit_block w n (fmt_int w (int n))"
  using digits_of_digits [of n] digits_of_length [of n w]
  by (simp add: digit_block_def fmt_int_def pad_zero_def number_of_zeros list_all_iff) (auto simp: is_digit_def)

lemma takeWhile_block: "list_all P xs \<Longrightarrow> \<not> P c \<Longrightarrow> takeWhile P (xs @ c # r) = xs"
  by (induction xs) auto

lemma digit_not_space: "is_digit c \<Longrightarrow> \<not> is_space c \<and> c \<noteq> CHR ''-'' \<and> c \<noteq> CHR ''+''"
  by (auto simp: is_digit_def is_space_def)

lemma block_head:
  assumes "digit_block w n ds"
  shows "dropWhile is_space (ds @ r) = ds @ r" and "scan_sign (ds @ r) = (False, ds @ r)"
proof -
  obtain c ds' where c: "ds = c # ds'" "is_digit c" using assms by (cases ds) (auto simp: digit_block_def)
  show "dropWhile is_space (ds @ r) = ds @ r" "scan_sign (ds @ r) = (False, ds @ r)"
    using digit_not_space [OF c(2)] by (simp_all add: c(1) scan_sign_def)
qed

lemma scan_hu_block:
  assumes b: "digit_block w n ds" and n: "n < 65536" and c: "\<not> is_digit c"
  shows "scan_hu (ds @ c # r) = Some (n, c # r)"
proof -
  have "takeWhile is_digit (ds @ c # r) = ds" using b c by (simp add: digit_block_def takeWhile_block)
  moreover have "ds \<noteq> []" "number_of ds = n" using b by (auto simp: digit_block_def)
  ultimately show ?thesis using n by (simp add: scan_hu_def block_head [OF b] U64_MAX_def)
qed

lemma scan_d2_block:
  assumes b: "digit_block 2 n ds"
  shows "scan_d2 (ds @ r) = Some (int n, r)"
proof -
  obtain c1 c2 where ds: "ds = [c1, c2]" "is_digit c1" "is_digit c2"
    using b by (auto simp: digit_block_def length_Suc_conv numeral_2_eq_2)
  moreover have "number_of ds = n" using b by (simp add: digit_block_def)
  ultimately show ?thesis using digit_not_space [OF ds(2)] by (simp add: scan_d2_def scan_sign_def)
qed

lemma scan_fraction_block:
  assumes b: "digit_block 2 n ds" and c: "\<not> is_digit c"
  shows "scan_fraction 0 0 (ds @ c # r) = (n, 2, c # r)"
proof -
  obtain c1 c2 where ds: "ds = [c1, c2]" "is_digit c1" "is_digit c2"
    using b by (auto simp: digit_block_def length_Suc_conv numeral_2_eq_2)
  moreover have "number_of ds = n" using b by (simp add: digit_block_def)
  ultimately show ?thesis using c by (simp add: number_of_def)
qed

lemma marks_not_digits:
  "\<not> is_digit CHR ''-''" "\<not> is_digit CHR ''T''" "\<not> is_digit CHR '':''" "\<not> is_digit CHR ''.''" "\<not> is_digit CHR ''Z''" "\<not> is_digit CHR ''+''"
  by (simp_all add: is_digit_def)

text \<open>Blocks glued with the marks of the format.\<close>

lemma scan_date_time_blocks:
  assumes "digit_block w1 y a" "digit_block w2 m b" "digit_block w3 d c" "digit_block w4 h e" "digit_block w5 mi f" "digit_block w6 s g"
    and "y < 65536" "m < 65536" "d < 65536" "h < 65536" "mi < 65536" "s < 65536" and "\<not> is_digit x"
  shows "scan_date_time (a @ CHR ''-'' # b @ CHR ''-'' # c @ CHR ''T'' # e @ CHR '':'' # f @ CHR '':'' # g @ x # r) =
    Some (\<lparr>rt_year = y, rt_month = m, rt_day = d, rt_hour = h, rt_minute = mi, rt_second = s, rt_microsecond = 0\<rparr>, x # r)"
  using assms by (simp add: scan_date_time_def scan_hu_block marks_not_digits scan_char_def)

definition truncated :: "rtc_time \<Rightarrow> rtc_time" where
  "truncated t = t\<lparr>rt_microsecond := rt_microsecond t div 10000 * 10000\<rparr>"

lemma truncated_valid: "rtc_valid t \<Longrightarrow> rtc_valid (truncated t)"
  by (auto simp: rtc_valid_def truncated_def intro: le_less_trans [OF div_times_less_eq_dividend])

lemma tick_of_truncated: "rtc_valid t \<Longrightarrow> tick_of (truncated t) = tick_of t - tick_of t mod 10000"
proof -
  assume "rtc_valid t"
  define us where "us = rt_microsecond t"
  define base where "base = rtc_day_number (rt_year t) (rt_month t) (rt_day t) * 8640000 + rt_hour t * 360000 + rt_minute t * 6000 + rt_second t * 100"
  have t: "tick_of t = us + base * 10000" "tick_of (truncated t) = us div 10000 * 10000 + base * 10000"
    by (simp_all add: tick_of_def day_usec_def TICKS_PER_DAY_def base_def us_def truncated_def algebra_simps)
  then have "tick_of t mod 10000 = us mod 10000" by (simp only: mod_mult_self1)
  moreover have "us = us div 10000 * 10000 + us mod 10000" by simp
  ultimately show ?thesis using t by linarith
qed

lemma rfc_zone_spec:
  assumes z: "\<bar>z\<bar> < 6000" "z \<noteq> 0"
  shows "\<exists>a b. digit_block 2 (nat \<bar>z\<bar> div 60) a \<and> digit_block 2 (nat \<bar>z\<bar> mod 60) b \<and>
    rfc_zone z = (if z < 0 then CHR ''-'' else CHR ''+'') # a @ CHR '':'' # b"
proof -
  define n where "n = nat \<bar>z\<bar>"
  have n: "\<bar>z\<bar> = int n" "n < 6000" using z by (simp_all add: n_def)
  have small: "n div 60 < 10 ^ 2" "n mod 60 < 10 ^ 2" using n(2) by (simp_all add: less_mult_imp_div_less order_less_trans [of _ 60])
  note A = fmt_int_block [OF small(1)] and B = fmt_int_block [OF small(2)]
  have m: "(if z < 0 then - z else z) = int n" using n(1) by auto
  have "int n sdiv 60 = int (n div 60)" "int n smod 60 = int (n mod 60)" by (simp_all add: sdiv_nonneg smod_nonneg zdiv_int zmod_int)
  then have "rfc_zone z = take 7 ((if z < 0 then CHR ''-'' else CHR ''+'') # fmt_int 2 (int (n div 60)) @ '':'' @ fmt_int 2 (int (n mod 60)))"
    using z(2) by (simp only: rfc_zone_def Let_def m if_False)
  moreover have "length (fmt_int 2 (int (n div 60))) = 2" "length (fmt_int 2 (int (n mod 60))) = 2"
    using A B by (simp_all add: digit_block_def)
  ultimately have "rfc_zone z = (if z < 0 then CHR ''-'' else CHR ''+'') # fmt_int 2 (int (n div 60)) @ CHR '':'' # fmt_int 2 (int (n mod 60))"
    by simp
  then show ?thesis using A B by (auto simp: n_def)
qed

lemma rfc_text_blocks:
  assumes v: "rtc_valid t" and z: "length zone \<le> 6"
  shows "\<exists>a b c d e f g. digit_block 4 (rt_year t) a \<and> digit_block 2 (rt_month t) b \<and> digit_block 2 (rt_day t) c \<and>
    digit_block 2 (rt_hour t) d \<and> digit_block 2 (rt_minute t) e \<and> digit_block 2 (rt_second t) f \<and>
    digit_block 2 (rt_microsecond t div 10000) g \<and>
    rfc_text t zone = a @ CHR ''-'' # b @ CHR ''-'' # c @ CHR ''T'' # d @ CHR '':'' # e @ CHR '':'' # f @ CHR ''.'' # g @ zone"
proof -
  have date: "date_is_valid (int (rt_year t)) (int (rt_month t)) (int (rt_day t))" using v by (simp add: rtc_valid_def)
  have m: "rt_month t \<le> 12" "rt_day t \<le> 31" using valid_date_small [OF date] by simp_all
  then have small: "rt_year t < 10 ^ 4" "rt_month t < 10 ^ 2" "rt_day t < 10 ^ 2" "rt_hour t < 10 ^ 2" "rt_minute t < 10 ^ 2" "rt_second t < 10 ^ 2"
    "rt_microsecond t div 10000 < 10 ^ 2"
    using v m by (simp_all add: rtc_valid_def less_mult_imp_div_less)
  note B = small [THEN fmt_int_block]
  have "length (fmt_int 4 (int (rt_year t))) = 4" "length (fmt_int 2 (int (rt_month t))) = 2" "length (fmt_int 2 (int (rt_day t))) = 2"
    "length (fmt_int 2 (int (rt_hour t))) = 2" "length (fmt_int 2 (int (rt_minute t))) = 2" "length (fmt_int 2 (int (rt_second t))) = 2"
    "length (fmt_int 2 (int (rt_microsecond t div 10000))) = 2"
    using B by (simp_all add: digit_block_def)
  then have "rfc_text t zone = fmt_int 4 (int (rt_year t)) @ CHR ''-'' # fmt_int 2 (int (rt_month t)) @ CHR ''-'' # fmt_int 2 (int (rt_day t)) @
      CHR ''T'' # fmt_int 2 (int (rt_hour t)) @ CHR '':'' # fmt_int 2 (int (rt_minute t)) @ CHR '':'' # fmt_int 2 (int (rt_second t)) @
      CHR ''.'' # fmt_int 2 (int (rt_microsecond t div 10000)) @ zone"
    using z by (simp add: rfc_text_def)
  moreover have "0 < (4 :: nat)" "0 < (2 :: nat)" by simp_all
  ultimately show ?thesis using B by blast
qed

lemma add_signed_pos: "tick + n \<le> U64_MAX \<Longrightarrow> add_signed tick (int n) = tick + n"
  by (simp add: add_signed_def U64_MAX_less flip: of_nat_add)

lemma add_signed_neg: "n \<le> tick \<Longrightarrow> tick \<le> U64_MAX \<Longrightarrow> add_signed tick (- int n) = tick - n"
  by (simp add: add_signed_def U64_MAX_less flip: of_nat_diff)

lemma tick_add_zone:
  assumes "k < 9223372036854775808" and "\<bar>z\<bar> < 6000" and "\<not> (z * 60000000 < 0 \<and> k < nat (- (z * 60000000)))"
  shows "int (add_signed k (z * 60000000)) = int k + z * 60000000"
proof (cases "0 \<le> z")
  case True
  then obtain n where z: "z = int n" using nonneg_int_cases by blast
  have "z * 60000000 = int (n * 60000000)" by (simp add: z)
  then show ?thesis using add_signed_pos [of k "n * 60000000"] assms(1,2) by (simp add: z U64_MAX_def)
next
  case False
  then obtain n where z: "z = - int n" by (metis int_cases2 less_imp_le linorder_not_le of_nat_0_le_iff)
  have "z * 60000000 = - int (n * 60000000)" by (simp add: z)
  moreover have "n * 60000000 \<le> k" using assms(3) False by (simp add: z)
  ultimately show ?thesis using add_signed_neg [of "n * 60000000" k] assms(1) by (simp add: U64_MAX_def)
qed

lemma zone_minutes_sum: "int (p div 60) * 60 + int (p mod 60) = int p"
proof -
  have "int (p div 60) * 60 + int (p mod 60) = int (p div 60 * 60 + p mod 60)" by (simp only: of_nat_add of_nat_mult of_nat_numeral)
  also have "\<dots> = int p" by (simp only: div_mult_mod_eq)
  finally show ?thesis .
qed

lemma zone_ticks_sum: "3600000000 * int (p div 60) + int (p mod 60) * 60000000 = int p * 60000000"
proof -
  have "(int (p div 60) * 60 + int (p mod 60)) * 60000000 = int p * 60000000" by (simp only: zone_minutes_sum)
  then show ?thesis by (simp add: distrib_right)
qed

text \<open>What a formatted tick scans as: the fields of the tick shifted to the zone, without what the text leaves out.\<close>

lemma rfc3339_scanned:
  assumes k: "k < 9223372036854775808" and z: "\<bar>zone\<bar> < 6000"
    and fmt: "rtc_format_rfc3339 now (Some buffer) (Some k) zone = (RTC_OK, Some text)"
  obtains l t g where "int l = int k + zone * 60000000" and "l \<le> U64_MAX"
    and "scan_date_time text = Some (t\<lparr>rt_microsecond := 0\<rparr>, CHR ''.'' # g @ rfc_zone zone)"
    and "scan_fraction 0 0 (g @ rfc_zone zone) = (rt_microsecond t div 10000, 2, rfc_zone zone)"
    and "t\<lparr>rt_microsecond := scale_fraction (rt_microsecond t div 10000) 2\<rparr> = truncated t"
    and "rtc_get_tick (Some (truncated t)) (Some u) = (RTC_OK, Some (l - l mod 10000))"
proof -
  define l where "l = add_signed k (zone * 60000000)"
  have ne: "RTC_ERROR_INVALID_VALUE \<noteq> RTC_OK" by (simp add: rtc_codes)
  have guard: "\<not> (zone * 60000000 < 0 \<and> k < nat (- (zone * 60000000)))"
    using fmt ne by (auto simp: rtc_format_rfc3339_def Let_def split: if_splits)
  have l: "int l = int k + zone * 60000000" unfolding l_def by (rule tick_add_zone [OF k z guard])
  then have lb: "l \<le> U64_MAX" using k z by (simp add: U64_MAX_def)
  define t where "t = time_of_tick l"
  let ?t0 = "\<lparr>rt_year = 0, rt_month = 0, rt_day = 0, rt_hour = 0, rt_minute = 0, rt_second = 0, rt_microsecond = 0\<rparr>"
  have out: "(case rtc_set_tick (Some ?t0) (Some l) of
      (ret, Some t) \<Rightarrow> if ret \<noteq> RTC_OK then (ret, Some buffer) else (RTC_OK, Some (rfc_text t (rfc_zone zone)))
    | (ret, None) \<Rightarrow> (ret, Some buffer)) = (RTC_OK, Some text)"
    using fmt unfolding rtc_format_rfc3339_def Let_def option.case if_not_P [OF guard] l_def .
  have T: "rtc_valid t" "tick_of t = l" "text = rfc_text t (rfc_zone zone)"
    using out rtc_set_tick_spec [OF lb, of ?t0] ne by (auto simp: t_def split: if_splits)
  have zl: "length (rfc_zone zone) \<le> 6"
  proof (cases "zone = 0")
    case False
    from rfc_zone_spec [OF z this] show ?thesis by (auto simp: digit_block_def)
  qed (simp add: rfc_zone_def)
  from rfc_text_blocks [OF T(1) zl] obtain a b c d e f g where B:
    "digit_block 4 (rt_year t) a" "digit_block 2 (rt_month t) b" "digit_block 2 (rt_day t) c" "digit_block 2 (rt_hour t) d"
    "digit_block 2 (rt_minute t) e" "digit_block 2 (rt_second t) f" "digit_block 2 (rt_microsecond t div 10000) g"
    "text = a @ CHR ''-'' # b @ CHR ''-'' # c @ CHR ''T'' # d @ CHR '':'' # e @ CHR '':'' # f @ CHR ''.'' # g @ rfc_zone zone"
    unfolding T(3) by blast
  have small: "rt_year t < 65536" "rt_month t < 65536" "rt_day t < 65536" "rt_hour t < 65536" "rt_minute t < 65536" "rt_second t < 65536"
    using T(1) valid_date_small [of "int (rt_year t)" "int (rt_month t)" "int (rt_day t)"] by (auto simp: rtc_valid_def)
  have scan: "scan_date_time text = Some (t\<lparr>rt_microsecond := 0\<rparr>, CHR ''.'' # g @ rfc_zone zone)"
    unfolding B(8) using scan_date_time_blocks [OF B(1-6) small marks_not_digits(4)] by simp
  obtain x r where zone: "rfc_zone zone = x # r" "\<not> is_digit x"
  proof (cases "zone = 0")
    case True
    then show thesis by (intro that [of "CHR ''Z''" "[]"]) (simp_all add: rfc_zone_def is_digit_def)
  next
    case False
    then show thesis using rfc_zone_spec [OF z False] that marks_not_digits by (metis (full_types))
  qed
  have frac: "scan_fraction 0 0 (g @ rfc_zone zone) = (rt_microsecond t div 10000, 2, rfc_zone zone)"
    unfolding zone(1) by (rule scan_fraction_block [OF B(7) zone(2)])
  have us: "t\<lparr>rt_microsecond := scale_fraction (rt_microsecond t div 10000) 2\<rparr> = truncated t"
    by (simp add: scale_fraction_def truncated_def)
  have tick: "rtc_get_tick (Some (truncated t)) (Some u) = (RTC_OK, Some (l - l mod 10000))"
    using rtc_get_tick_valid [OF truncated_valid [OF T(1)]] tick_of_truncated [OF T(1)] by (simp add: T(2))
  show thesis by (rule that [OF l lb scan frac us tick])
qed

text \<open>C37: Text written by \<open>RtcFormatRFC3339\<close> is read back by \<open>RtcParseRFC3339\<close>: for a tick below \<open>2 ^ 63\<close> and a zone
  of less than 100 hours, whenever formatting succeeds, parsing the text succeeds and returns the tick rounded
  down to the hundredth of a second that the text shows.\<close>

theorem rfc3339_roundtrip:
  assumes k: "k < 9223372036854775808" and z: "\<bar>zone\<bar> < 6000"
    and fmt: "rtc_format_rfc3339 now (Some buffer) (Some k) zone = (RTC_OK, Some text)"
  shows "rtc_parse_rfc3339 (Some u) (Some text) = (RTC_OK, Some (k - k mod 10000))"
proof -
  obtain l t g where l: "int l = int k + zone * 60000000" and lb: "l \<le> U64_MAX"
    and scan: "scan_date_time text = Some (t\<lparr>rt_microsecond := 0\<rparr>, CHR ''.'' # g @ rfc_zone zone)"
    and frac: "scan_fraction 0 0 (g @ rfc_zone zone) = (rt_microsecond t div 10000, 2, rfc_zone zone)"
    and us: "t\<lparr>rt_microsecond := scale_fraction (rt_microsecond t div 10000) 2\<rparr> = truncated t"
    and tick_l: "rtc_get_tick (Some (truncated t)) (Some u) = (RTC_OK, Some (l - l mod 10000))"
    by (rule rfc3339_scanned [OF assms])
  define q where "q = l - l mod 10000"
  have tick: "rtc_get_tick (Some (truncated t)) (Some u) = (RTC_OK, Some q)" using tick_l by (simp add: q_def)
  note parse = rtc_parse_rfc3339_def Let_def scan frac us tick
  have plus: "(x + p * 60000000) mod 10000 = x mod 10000" for x p :: nat
  proof -
    have "x + p * 60000000 = x + p * 6000 * 10000" by simp
    then show ?thesis by (simp only: mod_mult_self1)
  qed
  consider "zone = 0" | p where "zone = int p" "0 < p" | p where "zone = - int p" "0 < p"
    by (metis int_cases2 less_nat_zero_code neq0_conv of_nat_0 minus_zero)
  then show ?thesis
  proof cases
    case 1
    then have "q = k - k mod 10000" "rfc_zone zone = ''Z''" using l by (simp_all add: q_def rfc_zone_def)
    then show ?thesis using frac by (simp add: parse)
  next
    case 2
    then have lp: "l = k + p * 60000000" using l by simp
    then have q: "q = (k - k mod 10000) + p * 60000000" using plus [of k p] by (simp add: q_def)
    have "\<bar>zone\<bar> < 6000" "zone \<noteq> 0" using z 2 by auto
    from rfc_zone_spec [OF this] 2 obtain za zb where Z: "digit_block 2 (p div 60) za" "digit_block 2 (p mod 60) zb"
      "rfc_zone zone = CHR ''+'' # za @ CHR '':'' # zb" by auto
    have d: "scan_d2 zb = Some (int (p mod 60), [])" using scan_d2_block [OF Z(2), of "[]"] by simp
    have le: "p * 60000000 \<le> q" by (simp add: q)
    have "q \<le> U64_MAX" using lb by (simp add: q_def)
    then have a: "add_signed q (- int (p * 60000000)) = k - k mod 10000"
      using add_signed_neg [of "p * 60000000" q] le by (simp add: q)
    have n: "\<not> q < nat (int (p * 60000000))" using le by simp
    show ?thesis
      using frac a n by (simp add: parse Z(3) scan_d2_block [OF Z(1)] scan_char_def d zone_minutes_sum zone_ticks_sum)
  next
    case 3
    then have lp: "k = l + p * 60000000" using l by simp
    then have q: "k - k mod 10000 = q + p * 60000000" using plus [of l p] by (simp add: q_def)
    have "\<bar>zone\<bar> < 6000" "zone \<noteq> 0" using z 3 by auto
    from rfc_zone_spec [OF this] 3 obtain za zb where Z: "digit_block 2 (p div 60) za" "digit_block 2 (p mod 60) zb"
      "rfc_zone zone = CHR ''-'' # za @ CHR '':'' # zb" by auto
    have d: "scan_d2 zb = Some (int (p mod 60), [])" using scan_d2_block [OF Z(2), of "[]"] by simp
    have "q + p * 60000000 \<le> U64_MAX" using k q [symmetric] by (simp add: U64_MAX_def)
    then have a: "add_signed q (int (p * 60000000)) = k - k mod 10000"
      using add_signed_pos [of q "p * 60000000"] by (simp add: q)
    show ?thesis
      using frac a by (simp add: parse Z(3) scan_d2_block [OF Z(1)] scan_char_def d zone_minutes_sum zone_ticks_sum)
  qed
qed

lemma rfc3339_roundtrip_witness:
  "\<exists>out. rtc_format_rfc3339 0 (Some []) (Some 63844807815250123) 90 = (RTC_OK, Some out) \<and>
     rtc_parse_rfc3339 (Some 0) (Some out) = (RTC_OK, Some 63844807815250000)"
proof -
  have ex: "\<exists>out. rtc_format_rfc3339 0 (Some []) (Some 63844807815250123) 90 = (RTC_OK, Some out)"
  proof -
    have l: "add_signed 63844807815250123 5400000000 = 63844813215250123" by (simp add: add_signed_def)
    have "(63844813215250123 :: nat) \<le> U64_MAX" by (simp add: U64_MAX_def)
    moreover have "\<not> fst (jd_to_ymd (int (63844813215250123 div TICKS_PER_DAY) + 1721426)) > 9999"
      by (simp add: TICKS_PER_DAY_def) code_simp
    ultimately show ?thesis
      using rtc_set_tick_spec [of 63844813215250123 "\<lparr>rt_year = 0, rt_month = 0, rt_day = 0, rt_hour = 0, rt_minute = 0, rt_second = 0, rt_microsecond = 0\<rparr>"]
      by (simp add: rtc_format_rfc3339_def Let_def l)
  qed
  then obtain out where f: "rtc_format_rfc3339 0 (Some []) (Some 63844807815250123) 90 = (RTC_OK, Some out)" by blast
  from rfc3339_roundtrip [OF _ _ f, of 0] f show ?thesis by auto
qed

end
