(* ===== verification/Wait_Support.thy ===== *)
theory Wait_Support
  imports Prelude
begin

text \<open>
  What the kernel objects share: the result codes (\<open>libs/errno.h\<close>), the deadline of a blocking call
  (\<open>WaitSupport::Deadline\<close>, \<open>kernel/waitDeadline.h\<close>) and the table of opaque handles
  (\<open>HandleRegistry\<close>, \<open>kernel/handleRegistry.h\<close>). A C \<open>int\<close> is an \<open>int\<close>, an unsigned word a \<open>nat\<close>; a
  pointer that may be null is an option. The monotonic clock is a parameter of every operation that reads it.
\<close>

section \<open>Result codes\<close>

definition OK :: int where "OK = 0"
definition KERNEL_ERROR_EPERM :: int where "KERNEL_ERROR_EPERM = -2147352575"
definition KERNEL_ERROR_ENOENT :: int where "KERNEL_ERROR_ENOENT = -2147352574"
definition KERNEL_ERROR_ESRCH :: int where "KERNEL_ERROR_ESRCH = -2147352573"
definition KERNEL_ERROR_EBADF :: int where "KERNEL_ERROR_EBADF = -2147352567"
definition KERNEL_ERROR_ENOMEM :: int where "KERNEL_ERROR_ENOMEM = -2147352564"
definition KERNEL_ERROR_EACCES :: int where "KERNEL_ERROR_EACCES = -2147352563"
definition KERNEL_ERROR_EFAULT :: int where "KERNEL_ERROR_EFAULT = -2147352562"
definition KERNEL_ERROR_EBUSY :: int where "KERNEL_ERROR_EBUSY = -2147352560"
definition KERNEL_ERROR_EINVAL :: int where "KERNEL_ERROR_EINVAL = -2147352554"
definition KERNEL_ERROR_ETIMEDOUT :: int where "KERNEL_ERROR_ETIMEDOUT = -2147352516"
definition KERNEL_ERROR_ECANCELED :: int where "KERNEL_ERROR_ECANCELED = -2147352491"
definition POSIX_EINVAL :: int where "POSIX_EINVAL = 22"
definition POSIX_EAGAIN :: int where "POSIX_EAGAIN = 35"
definition POSIX_ETIMEDOUT :: int where "POSIX_ETIMEDOUT = 60"
definition POSIX_EOVERFLOW :: int where "POSIX_EOVERFLOW = 84"

lemmas error_codes =
  OK_def KERNEL_ERROR_EPERM_def KERNEL_ERROR_ENOENT_def KERNEL_ERROR_ESRCH_def KERNEL_ERROR_EBADF_def
  KERNEL_ERROR_ENOMEM_def KERNEL_ERROR_EACCES_def KERNEL_ERROR_EFAULT_def KERNEL_ERROR_EBUSY_def
  KERNEL_ERROR_EINVAL_def KERNEL_ERROR_ETIMEDOUT_def KERNEL_ERROR_ECANCELED_def
  POSIX_EINVAL_def POSIX_EAGAIN_def POSIX_ETIMEDOUT_def POSIX_EOVERFLOW_def

section \<open>Deadlines\<close>

record deadline =
  dl_start :: u64
  dl_finite :: bool
  dl_budget :: nat

text \<open>\<open>make_deadline\<close> is the constructor; \<open>timeout\<close> is the pointer to the microseconds the caller grants.\<close>

definition make_deadline :: "u64 \<Rightarrow> nat option \<Rightarrow> deadline" where
  "make_deadline now timeout =
     \<lparr>dl_start = now, dl_finite = (timeout \<noteq> None), dl_budget = (case timeout of None \<Rightarrow> 0 | Some t \<Rightarrow> t)\<rparr>"

definition remaining :: "deadline \<Rightarrow> u64 \<Rightarrow> nat" where
  "remaining d now =
     (let elapsed = (if now \<ge> dl_start d then now - dl_start d else 0)
      in if elapsed \<ge> dl_budget d then 0 else dl_budget d - elapsed)"

definition expired :: "deadline \<Rightarrow> u64 \<Rightarrow> bool" where
  "expired d now \<longleftrightarrow> dl_finite d \<and> remaining d now = 0"

definition park_slice :: "deadline \<Rightarrow> u64 \<Rightarrow> nat" where
  "park_slice d now = (if dl_finite d then min (remaining d now) 10000 else 10000)"

definition update_timeout :: "deadline \<Rightarrow> u64 \<Rightarrow> nat option \<Rightarrow> nat option" where
  "update_timeout d now timeout = map_option (\<lambda>_. remaining d now) timeout"

lemma expired_iff: "expired d now \<longleftrightarrow> dl_finite d \<and> dl_start d + dl_budget d \<le> now \<or> dl_finite d \<and> dl_budget d = 0"
  by (auto simp: expired_def remaining_def Let_def split: if_splits)

lemma expired_mono: "expired d now \<Longrightarrow> now \<le> now' \<Longrightarrow> expired d now'"
  by (auto simp: expired_iff)

lemma park_slice_bound: "park_slice d now \<le> 10000" "dl_finite d \<Longrightarrow> park_slice d now \<le> remaining d now"
  by (simp_all add: park_slice_def)

lemma remaining_bound: "remaining d now \<le> dl_budget d"
  by (simp add: remaining_def Let_def)

lemma infinite_never_expires: "\<not> expired (make_deadline now None) later"
  by (simp add: expired_def make_deadline_def)

section \<open>Handle tables\<close>

text \<open>
  The contract of a table of handles: \<open>put\<close> returns 0 when the handles have run out and a handle never issued
  before otherwise; \<open>drop\<close> ends the acquisition of one handle and of no other.
\<close>

locale handle_table =
  fixes issued :: "'s \<Rightarrow> nat set"
    and lookup :: "nat \<Rightarrow> 's \<Rightarrow> 'a option"
    and put :: "'a \<Rightarrow> 's \<Rightarrow> nat \<times> 's"
    and remove_handle :: "nat \<Rightarrow> 's \<Rightarrow> 's"
    and ok :: "'s \<Rightarrow> bool"
  assumes known: "ok s \<Longrightarrow> lookup h s = Some x \<Longrightarrow> h \<in> issued s"
    and no_null: "ok s \<Longrightarrow> 0 \<notin> issued s"
    and put_ok: "ok s \<Longrightarrow> ok (snd (put x s))"
    and put_full: "ok s \<Longrightarrow> fst (put x s) = 0 \<Longrightarrow> snd (put x s) = s"
    and put_fresh: "ok s \<Longrightarrow> fst (put x s) \<noteq> 0 \<Longrightarrow>
      fst (put x s) \<notin> issued s \<and> issued (snd (put x s)) = insert (fst (put x s)) (issued s)"
    and put_lookup: "ok s \<Longrightarrow> fst (put x s) \<noteq> 0 \<Longrightarrow>
      lookup h (snd (put x s)) = (if h = fst (put x s) then Some x else lookup h s)"
    and remove_ok: "ok s \<Longrightarrow> ok (remove_handle h s)"
    and remove_issued: "issued (remove_handle h s) = issued s"
    and remove_lookup: "lookup h' (remove_handle h s) = (if h' = h then None else lookup h' s)"
begin

definition stale :: "nat \<Rightarrow> 's \<Rightarrow> bool" where
  "stale h s \<longleftrightarrow> h \<in> issued s \<and> lookup h s = None"

lemma put_keeps_stale:
  assumes "ok s" and "stale h s"
  shows "stale h (snd (put x s))"
proof (cases "fst (put x s) = 0")
  case True
  then show ?thesis using assms put_full by simp
next
  case False
  then show ?thesis using assms put_fresh [of s x] put_lookup [of s x h] by (auto simp: stale_def)
qed

lemma remove_keeps_stale: "stale h s \<Longrightarrow> stale h (remove_handle h' s)"
  by (simp add: stale_def remove_issued remove_lookup)

lemma removed_is_stale: "ok s \<Longrightarrow> lookup h s = Some x \<Longrightarrow> stale h (remove_handle h s)"
  by (auto simp: stale_def remove_issued remove_lookup intro: known)

lemma put_not_stale: "ok s \<Longrightarrow> stale h s \<Longrightarrow> fst (put x s) \<noteq> h"
  using put_fresh [of s x] no_null [of s] by (cases "h = 0") (auto simp: stale_def)

end

record 'a registry =
  reg_next :: nat
  reg_objects :: "nat \<rightharpoonup> 'a"

definition reg_empty :: "'a registry" where
  "reg_empty = \<lparr>reg_next = 1, reg_objects = Map.empty\<rparr>"

definition reg_insert :: "'a \<Rightarrow> 'a registry \<Rightarrow> nat \<times> 'a registry" where
  "reg_insert x r =
     (if reg_next r = U64_MAX then (0, r)
      else (reg_next r, r\<lparr>reg_next := reg_next r + 1, reg_objects := (reg_objects r)(reg_next r \<mapsto> x)\<rparr>))"

definition reg_acquire :: "nat \<Rightarrow> 'a registry \<Rightarrow> 'a option" where
  "reg_acquire h r = reg_objects r h"

definition reg_remove :: "nat \<Rightarrow> 'a registry \<Rightarrow> 'a option \<times> 'a registry" where
  "reg_remove h r =
     (case reg_objects r h of
        None \<Rightarrow> (None, r)
      | Some x \<Rightarrow> (Some x, r\<lparr>reg_objects := (reg_objects r)(h := None)\<rparr>))"

definition reg_ok :: "'a registry \<Rightarrow> bool" where
  "reg_ok r \<longleftrightarrow> 1 \<le> reg_next r \<and> dom (reg_objects r) \<subseteq> {1..<reg_next r}"

definition reg_issued :: "'a registry \<Rightarrow> nat set" where
  "reg_issued r = {1..<reg_next r}"

lemma reg_empty_ok [simp]: "reg_ok reg_empty"
  by (simp add: reg_ok_def reg_empty_def)

interpretation reg: handle_table reg_issued reg_acquire reg_insert "\<lambda>h r. snd (reg_remove h r)" reg_ok
  by unfold_locales
    (auto simp: reg_issued_def reg_acquire_def reg_insert_def reg_remove_def reg_ok_def subset_iff dom_def split: option.splits if_splits)

end
