(* ===== verification/Semaphore.thy ===== *)
theory Semaphore
  imports Wait_Support
begin

text \<open>
  The kernel semaphores (\<open>KernelSemaPrivate\<close> and the \<open>Kernel*Sema\<close> calls, \<open>kernel/semaphore.cpp\<close>). Every
  method runs under the mutex of the object, so it is one step; \<open>Wait\<close> gives the mutex up while it is parked, so
  it is two: \<open>sema_wait_begin\<close> up to the loop and \<open>sema_wait_pass\<close>, one pass of the loop after the condition
  variable returned, for whatever reason it did. A waiter is the record on the stack of the waiting thread; its
  address is \<open>wt_ref\<close>.
\<close>

section \<open>One semaphore\<close>

datatype sema_result = SemaOk | SemaTimedOut | SemaCanceled | SemaDeleted | SemaInvalCount

datatype sema_status = StatusSet | StatusDeleted

record waiter =
  wt_ref :: nat
  wt_id :: int
  wt_priority :: int
  wt_need :: int
  wt_result :: sema_result
  wt_ready :: bool

record sema =
  sm_name :: string
  sm_status :: sema_status
  sm_waiting :: "waiter list"
  sm_fifo :: bool
  sm_count :: int
  sm_init :: int
  sm_max :: int

definition new_sema :: "string \<Rightarrow> bool \<Rightarrow> int \<Rightarrow> int \<Rightarrow> sema" where
  "new_sema name fifo init_count max_count =
     \<lparr>sm_name = name, sm_status = StatusSet, sm_waiting = [], sm_fifo = fifo, sm_count = init_count,
      sm_init = init_count, sm_max = max_count\<rparr>"

text \<open>The loop that ends every wait that is still open.\<close>

definition release_waiter :: "sema_result \<Rightarrow> waiter \<Rightarrow> waiter" where
  "release_waiter r w = (if \<not> wt_ready w then w\<lparr>wt_result := r, wt_ready := True\<rparr> else w)"

definition sema_close :: "sema \<Rightarrow> sema" where
  "sema_close s =
     (if sm_status s = StatusDeleted then s
      else s\<lparr>sm_status := StatusDeleted, sm_waiting := map (release_waiter SemaDeleted) (sm_waiting s)\<rparr>)"

text \<open>\<open>threads\<close> tells whether the caller asks for the number of waiting threads.\<close>

definition sema_cancel :: "int \<Rightarrow> bool \<Rightarrow> sema \<Rightarrow> sema_result \<times> int option \<times> sema" where
  "sema_cancel set_count threads s =
     (if set_count > sm_max s then (SemaInvalCount, None, s)
      else if sm_status s = StatusDeleted then (SemaDeleted, None, s)
      else (SemaOk,
            if threads then Some (int (length (filter (\<lambda>w. \<not> wt_ready w) (sm_waiting s)))) else None,
            s\<lparr>sm_count := (if set_count < 0 then sm_init s else set_count),
              sm_waiting := map (release_waiter SemaCanceled) (sm_waiting s)\<rparr>))"

fun wake_waiters :: "int \<Rightarrow> waiter list \<Rightarrow> int \<times> waiter list" where
  "wake_waiters count [] = (count, [])"
| "wake_waiters count (w # ws) =
     (if \<not> wt_ready w \<and> wt_need w \<le> count
      then let (count', ws') = wake_waiters (count - wt_need w) ws
           in (count', w\<lparr>wt_result := SemaOk, wt_ready := True\<rparr> # ws')
      else let (count', ws') = wake_waiters count ws in (count', w # ws'))"

definition sema_signal :: "int \<Rightarrow> sema \<Rightarrow> sema_result \<times> sema" where
  "sema_signal signal_count s =
     (if sm_status s = StatusDeleted then (SemaDeleted, s)
      else if signal_count \<le> 0 \<or> signal_count > sm_max s - sm_count s then (SemaInvalCount, s)
      else let (count, ws) = wake_waiters (sm_count s + signal_count) (sm_waiting s)
           in (SemaOk, s\<lparr>sm_count := count, sm_waiting := ws\<rparr>))"

definition add_waiter :: "bool \<Rightarrow> waiter \<Rightarrow> waiter list \<Rightarrow> waiter list" where
  "add_waiter fifo w ws =
     (if fifo then ws @ [w]
      else takeWhile (\<lambda>v. wt_priority v \<le> wt_priority w) ws @ w # dropWhile (\<lambda>v. wt_priority v \<le> wt_priority w) ws)"

definition remove_waiter :: "nat \<Rightarrow> waiter list \<Rightarrow> waiter list" where
  "remove_waiter ref ws = takeWhile (\<lambda>v. wt_ref v \<noteq> ref) ws @ tl (dropWhile (\<lambda>v. wt_ref v \<noteq> ref) ws)"

text \<open>A blocking call either returns or is parked until the next pass of its loop.\<close>

datatype 'r blocking = Returned 'r | Parked deadline

text \<open>
  \<open>tid\<close> and \<open>priority\<close> are what the thread library tells about the calling thread, \<open>now1\<close> and \<open>now2\<close> the two
  readings of the clock, and \<open>micros\<close> the caller's timeout, which the call may write.
\<close>

definition sema_wait_begin ::
  "nat \<Rightarrow> int \<Rightarrow> int \<Rightarrow> int \<Rightarrow> nat option \<Rightarrow> u64 \<Rightarrow> u64 \<Rightarrow> sema \<Rightarrow> (sema_result \<times> nat option) blocking \<times> sema" where
  "sema_wait_begin ref tid priority need_count micros now1 now2 s =
     (if need_count < 1 \<or> need_count > sm_max s then (Returned (SemaInvalCount, micros), s)
      else if sm_status s = StatusDeleted then (Returned (SemaDeleted, micros), s)
      else
        let d = make_deadline now1 micros
        in if sm_count s \<ge> need_count
           then (Returned (SemaOk, update_timeout d now2 micros), s\<lparr>sm_count := sm_count s - need_count\<rparr>)
           else if expired d now2 then (Returned (SemaTimedOut, micros), s)
           else (Parked d,
                 s\<lparr>sm_waiting := add_waiter (sm_fifo s)
                    \<lparr>wt_ref = ref, wt_id = tid, wt_priority = (if sm_fifo s then 0 else priority), wt_need = need_count,
                     wt_result = SemaTimedOut, wt_ready = False\<rparr> (sm_waiting s)\<rparr>))"

text \<open>One pass of the loop of \<open>Wait\<close>; the waiter of a parked call is always in the list.\<close>

definition sema_wait_pass ::
  "nat \<Rightarrow> deadline \<Rightarrow> nat option \<Rightarrow> u64 \<Rightarrow> sema \<Rightarrow> (sema_result \<times> nat option) blocking \<times> sema" where
  "sema_wait_pass ref d micros now s =
     (case find (\<lambda>w. wt_ref w = ref) (sm_waiting s) of
        None \<Rightarrow> (Parked d, s)
      | Some w \<Rightarrow>
          if wt_ready w
          then (Returned (wt_result w, update_timeout d now micros), s\<lparr>sm_waiting := remove_waiter ref (sm_waiting s)\<rparr>)
          else if expired d now
          then (Returned (SemaTimedOut, map_option (\<lambda>_. 0) micros), s\<lparr>sm_waiting := remove_waiter ref (sm_waiting s)\<rparr>)
          else (Parked d, s))"

text \<open>\<open>Poll\<close> waits with a timeout of 0, so it never parks (\<open>poll_returns\<close>).\<close>

definition sema_poll :: "int \<Rightarrow> u64 \<Rightarrow> u64 \<Rightarrow> sema \<Rightarrow> sema_result \<times> sema" where
  "sema_poll need_count now1 now2 s =
     (case sema_wait_begin 0 0 0 need_count (Some 0) now1 now2 s of
        (Returned (r, _), s') \<Rightarrow> (r, s')
      | (Parked _, s') \<Rightarrow> (SemaTimedOut, s'))"

lemma poll_returns:
  "\<exists>r m. fst (sema_wait_begin ref tid priority need (Some 0) now1 now2 s) = Returned (r, m)"
  by (simp add: sema_wait_begin_def Let_def expired_iff make_deadline_def)

section \<open>The calls of the guest\<close>

text \<open>
  The registry maps a handle to an object; the objects are a list that only grows, since a wait keeps the
  object of a deleted handle alive.
\<close>

record sema_world =
  sw_semas :: "nat registry"
  sw_objects :: "sema list"

definition sema_world_init :: sema_world where
  "sema_world_init = \<lparr>sw_semas = reg_empty, sw_objects = []\<rparr>"

definition set_object :: "nat \<Rightarrow> sema \<Rightarrow> sema_world \<Rightarrow> sema_world" where
  "set_object i s w = w\<lparr>sw_objects := (sw_objects w)[i := s]\<rparr>"

text \<open>\<open>sem\<close>, \<open>name\<close> and \<open>opt\<close> are pointers; the result carries the handle that the call writes, if it writes one.\<close>

definition kernel_create_sema ::
  "bool \<Rightarrow> string option \<Rightarrow> nat \<Rightarrow> int \<Rightarrow> int \<Rightarrow> bool \<Rightarrow> sema_world \<Rightarrow> int \<times> nat option \<times> sema_world" where
  "kernel_create_sema sem name attr init max' opt w =
     (case name of
        None \<Rightarrow> (KERNEL_ERROR_EINVAL, None, w)
      | Some name \<Rightarrow>
          if \<not> sem \<or> opt \<or> attr > 2 \<or> init < 0 \<or> max' \<le> 0 \<or> init > max' then (KERNEL_ERROR_EINVAL, None, w)
          else
            let fifo = (attr = 1);
                (h, r) = reg_insert (length (sw_objects w)) (sw_semas w);
                w' = \<lparr>sw_semas = r, sw_objects = sw_objects w @ [new_sema name fifo init max']\<rparr>
            in if h = 0 then (KERNEL_ERROR_ENOMEM, Some h, w') else (OK, Some h, w'))"

definition kernel_delete_sema :: "nat \<Rightarrow> sema_world \<Rightarrow> int \<times> sema_world" where
  "kernel_delete_sema sem w =
     (case reg_remove sem (sw_semas w) of
        (None, _) \<Rightarrow> (KERNEL_ERROR_ESRCH, w)
      | (Some i, r) \<Rightarrow> (OK, set_object i (sema_close (sw_objects w ! i)) (w\<lparr>sw_semas := r\<rparr>)))"

fun wait_sema_code :: "sema_result \<Rightarrow> int" where
  "wait_sema_code SemaOk = OK"
| "wait_sema_code SemaInvalCount = KERNEL_ERROR_EINVAL"
| "wait_sema_code SemaTimedOut = KERNEL_ERROR_ETIMEDOUT"
| "wait_sema_code SemaCanceled = KERNEL_ERROR_ECANCELED"
| "wait_sema_code SemaDeleted = KERNEL_ERROR_EACCES"

fun poll_sema_code :: "sema_result \<Rightarrow> int" where
  "poll_sema_code SemaOk = OK"
| "poll_sema_code SemaInvalCount = KERNEL_ERROR_EINVAL"
| "poll_sema_code SemaTimedOut = KERNEL_ERROR_EBUSY"
| "poll_sema_code SemaCanceled = KERNEL_ERROR_EBUSY"
| "poll_sema_code SemaDeleted = KERNEL_ERROR_EBUSY"

fun signal_sema_code :: "sema_result \<Rightarrow> int" where
  "signal_sema_code SemaOk = OK"
| "signal_sema_code SemaInvalCount = KERNEL_ERROR_EINVAL"
| "signal_sema_code SemaTimedOut = KERNEL_ERROR_EINVAL"
| "signal_sema_code SemaCanceled = KERNEL_ERROR_EINVAL"
| "signal_sema_code SemaDeleted = KERNEL_ERROR_EINVAL"

text \<open>
  \<open>KernelWaitSema\<close> up to the first park, and the pass of a parked call on the object \<open>i\<close> that it has pinned.
\<close>

definition kernel_wait_sema_begin ::
  "nat \<Rightarrow> nat \<Rightarrow> int \<Rightarrow> int \<Rightarrow> int \<Rightarrow> nat option \<Rightarrow> u64 \<Rightarrow> u64 \<Rightarrow> sema_world \<Rightarrow> (int \<times> nat option) blocking \<times> sema_world" where
  "kernel_wait_sema_begin sem ref tid priority need time now1 now2 w =
     (case reg_acquire sem (sw_semas w) of
        None \<Rightarrow> (Returned (KERNEL_ERROR_ESRCH, time), w)
      | Some i \<Rightarrow>
          (case sema_wait_begin ref tid priority need time now1 now2 (sw_objects w ! i) of
             (Returned (r, time'), s) \<Rightarrow> (Returned (wait_sema_code r, time'), set_object i s w)
           | (Parked d, s) \<Rightarrow> (Parked d, set_object i s w)))"

definition kernel_wait_sema_pass ::
  "nat \<Rightarrow> nat \<Rightarrow> deadline \<Rightarrow> nat option \<Rightarrow> u64 \<Rightarrow> sema_world \<Rightarrow> (int \<times> nat option) blocking \<times> sema_world" where
  "kernel_wait_sema_pass i ref d time now w =
     (case sema_wait_pass ref d time now (sw_objects w ! i) of
        (Returned (r, time'), s) \<Rightarrow> (Returned (wait_sema_code r, time'), set_object i s w)
      | (Parked d, s) \<Rightarrow> (Parked d, set_object i s w))"

definition kernel_poll_sema :: "nat \<Rightarrow> int \<Rightarrow> u64 \<Rightarrow> u64 \<Rightarrow> sema_world \<Rightarrow> int \<times> sema_world" where
  "kernel_poll_sema sem need now1 now2 w =
     (case reg_acquire sem (sw_semas w) of
        None \<Rightarrow> (KERNEL_ERROR_ESRCH, w)
      | Some i \<Rightarrow> (case sema_poll need now1 now2 (sw_objects w ! i) of (r, s) \<Rightarrow> (poll_sema_code r, set_object i s w)))"

definition kernel_signal_sema :: "nat \<Rightarrow> int \<Rightarrow> sema_world \<Rightarrow> int \<times> sema_world" where
  "kernel_signal_sema sem count w =
     (case reg_acquire sem (sw_semas w) of
        None \<Rightarrow> (KERNEL_ERROR_ESRCH, w)
      | Some i \<Rightarrow> (case sema_signal count (sw_objects w ! i) of (r, s) \<Rightarrow> (signal_sema_code r, set_object i s w)))"

definition kernel_cancel_sema :: "nat \<Rightarrow> int \<Rightarrow> bool \<Rightarrow> sema_world \<Rightarrow> int \<times> int option \<times> sema_world" where
  "kernel_cancel_sema sem count threads w =
     (case reg_acquire sem (sw_semas w) of
        None \<Rightarrow> (KERNEL_ERROR_ESRCH, None, w)
      | Some i \<Rightarrow>
          (case sema_cancel count threads (sw_objects w ! i) of (r, n, s) \<Rightarrow> (signal_sema_code r, n, set_object i s w)))"

end
