(* ===== verification/Semaphore_Facts.thy ===== *)
theory Semaphore_Facts
  imports Semaphore
begin

text \<open>
  What makes the kernel semaphores correct: over every interleaving of waits, signals, cancellations and the
  deletion, the count stays in its bounds, no waiter that could be served is left asleep, no token is lost or made
  up, every parked call gets out, and a deleted handle is never valid again.
\<close>

section \<open>The list of waiters\<close>

abbreviation refs :: "waiter list \<Rightarrow> nat list" where
  "refs ws \<equiv> map wt_ref ws"

definition granted :: "waiter \<Rightarrow> int" where
  "granted w = (if wt_ready w \<and> wt_result w = SemaOk then wt_need w else 0)"

definition granted_sum :: "waiter list \<Rightarrow> int" where
  "granted_sum ws = sum_list (map granted ws)"

lemma granted_sum_simps [simp]:
  "granted_sum [] = 0" "granted_sum (w # ws) = granted w + granted_sum ws"
  "granted_sum (ws @ vs) = granted_sum ws + granted_sum vs"
  by (simp_all add: granted_sum_def)

lemma remove_waiter_simps [simp]:
  "remove_waiter ref [] = []"
  "remove_waiter ref (w # ws) = (if wt_ref w = ref then ws else w # remove_waiter ref ws)"
  by (simp_all add: remove_waiter_def)

lemma remove_waiter_filter: "distinct (refs ws) \<Longrightarrow> remove_waiter ref ws = filter (\<lambda>w. wt_ref w \<noteq> ref) ws"
proof (induction ws)
  case (Cons w ws)
  show ?case
  proof (cases "wt_ref w = ref")
    case True
    then have "\<forall>v \<in> set ws. wt_ref v \<noteq> ref" using Cons.prems by (force simp: image_iff)
    then show ?thesis using True by (simp add: filter_id_conv)
  next
    case False
    then show ?thesis using Cons by simp
  qed
qed simp

lemma find_waiter:
  assumes "distinct (refs ws)" and "w \<in> set ws"
  shows "find (\<lambda>v. wt_ref v = wt_ref w) ws = Some w"
  using assms by (induction ws) auto

lemma find_waiter_None: "ref \<notin> wt_ref ` set ws \<Longrightarrow> find (\<lambda>v. wt_ref v = ref) ws = None"
  by (auto simp: find_None_iff)

lemma granted_sum_remove:
  "distinct (refs ws) \<Longrightarrow> w \<in> set ws \<Longrightarrow> granted_sum (remove_waiter (wt_ref w) ws) = granted_sum ws - granted w"
  by (induction ws) auto

lemma granted_sum_add: "granted_sum (add_waiter fifo w ws) = granted w + granted_sum ws"
proof -
  have "granted_sum (takeWhile P ws) + granted_sum (dropWhile P ws) = granted_sum ws" for P
    by (metis granted_sum_simps(3) takeWhile_dropWhile_id)
  then show ?thesis by (simp add: add_waiter_def algebra_simps)
qed

lemma set_add_waiter: "set (add_waiter fifo w ws) = insert w (set ws)"
proof -
  have "set (takeWhile P ws) \<union> set (dropWhile P ws) = set ws" for P by (metis set_append takeWhile_dropWhile_id)
  then show ?thesis by (auto simp: add_waiter_def)
qed

lemma distinct_add_waiter:
  assumes "distinct (refs ws)" and "wt_ref w \<notin> wt_ref ` set ws"
  shows "distinct (refs (add_waiter fifo w ws))"
proof -
  have "distinct (map wt_ref (takeWhile P ws @ dropWhile P ws))" for P using assms(1) by simp
  moreover have "wt_ref w \<notin> wt_ref ` set (takeWhile P ws)" "wt_ref w \<notin> wt_ref ` set (dropWhile P ws)" for P
    using assms(2) by (blast dest: set_takeWhileD set_dropWhileD)+
  ultimately show ?thesis using assms by (auto simp: add_waiter_def simp del: takeWhile_dropWhile_id)
qed

lemma sorted_insert_between:
  fixes f :: "'a \<Rightarrow> int"
  assumes "sorted_wrt (\<lambda>u v. f u \<le> f v) xs" and "sorted_wrt (\<lambda>u v. f u \<le> f v) ys"
    and "\<forall>v \<in> set xs. f v \<le> f w" and "\<forall>v \<in> set ys. f w \<le> f v"
  shows "sorted_wrt (\<lambda>u v. f u \<le> f v) (xs @ w # ys)"
  using assms by (auto simp: sorted_wrt_append intro: order_trans)

lemma sorted_add_waiter:
  assumes "sorted_wrt (\<lambda>u v. wt_priority u \<le> wt_priority v) ws"
    and "fifo \<Longrightarrow> wt_priority w = 0 \<and> (\<forall>v \<in> set ws. wt_priority v = 0)"
  shows "sorted_wrt (\<lambda>u v. wt_priority u \<le> wt_priority v) (add_waiter fifo w ws)"
proof (cases fifo)
  case True
  then show ?thesis using assms by (simp add: add_waiter_def sorted_wrt_append)
next
  case False
  let ?P = "\<lambda>v. wt_priority v \<le> wt_priority w"
  have s: "sorted_wrt (\<lambda>u v. wt_priority u \<le> wt_priority v) (takeWhile ?P ws @ dropWhile ?P ws)" using assms(1) by simp
  have t: "\<forall>v \<in> set (takeWhile ?P ws). ?P v" by (auto dest: set_takeWhileD)
  have d: "\<forall>v \<in> set (dropWhile ?P ws). wt_priority w \<le> wt_priority v"
  proof (cases "dropWhile ?P ws")
    case (Cons u us)
    then have "\<not> ?P u" by (metis hd_dropWhile list.sel(1) list.distinct(1))
    moreover have "\<forall>v \<in> set us. wt_priority u \<le> wt_priority v" using s by (simp add: Cons sorted_wrt_append)
    ultimately show ?thesis using Cons by fastforce
  next
    case Nil
    then show ?thesis by (simp only: list.set) simp
  qed
  have parts: "sorted_wrt (\<lambda>u v. wt_priority u \<le> wt_priority v) (takeWhile ?P ws)"
    "sorted_wrt (\<lambda>u v. wt_priority u \<le> wt_priority v) (dropWhile ?P ws)"
    using s unfolding sorted_wrt_append by blast+
  have "sorted_wrt (\<lambda>u v. wt_priority u \<le> wt_priority v) (takeWhile ?P ws @ w # dropWhile ?P ws)"
    by (rule sorted_insert_between [OF parts t d])
  then show ?thesis using False unfolding add_waiter_def by (simp only: if_False)
qed

section \<open>Waking and releasing\<close>

definition same_place :: "waiter \<Rightarrow> waiter \<Rightarrow> bool" where
  "same_place u v \<longleftrightarrow> wt_ref u = wt_ref v \<and> wt_priority u = wt_priority v \<and> wt_need u = wt_need v \<and>
     (wt_ready u \<longrightarrow> v = u)"

lemma same_place_refl [simp]: "same_place w w"
  by (simp add: same_place_def)

lemma places_facts:
  assumes "list_all2 same_place ws vs"
  shows "refs vs = refs ws" "map wt_priority vs = map wt_priority ws" "map wt_need vs = map wt_need ws"
  using assms by (induction rule: list_all2_induct) (simp_all add: same_place_def)

lemma release_places: "list_all2 same_place ws (map (release_waiter r) ws)"
  by (induction ws) (simp_all add: release_waiter_def same_place_def)

lemma release_ready [simp]: "wt_ready (release_waiter r w)"
  by (simp add: release_waiter_def)

lemma release_result [simp]: "wt_result (release_waiter r w) = (if wt_ready w then wt_result w else r)"
  by (simp add: release_waiter_def)

lemma release_granted: "r \<noteq> SemaOk \<Longrightarrow> granted_sum (map (release_waiter r) ws) = granted_sum ws"
  by (induction ws) (simp_all add: granted_def release_waiter_def)

lemma wake_places: "list_all2 same_place ws (snd (wake_waiters count ws))"
  by (induction count ws rule: wake_waiters.induct) (auto simp: same_place_def split: prod.splits)

lemma wake_conserves: "fst (wake_waiters count ws) + granted_sum (snd (wake_waiters count ws)) = count + granted_sum ws"
  by (induction count ws rule: wake_waiters.induct) (auto simp: granted_def split: prod.splits)

lemma wake_bounds:
  "0 \<le> count \<Longrightarrow> \<forall>w \<in> set ws. 1 \<le> wt_need w \<Longrightarrow>
   0 \<le> fst (wake_waiters count ws) \<and> fst (wake_waiters count ws) \<le> count"
  by (induction count ws rule: wake_waiters.induct) (fastforce split: prod.splits)+

lemma wake_serves:
  "0 \<le> count \<Longrightarrow> \<forall>w \<in> set ws. 1 \<le> wt_need w \<Longrightarrow> v \<in> set (snd (wake_waiters count ws)) \<Longrightarrow> \<not> wt_ready v \<Longrightarrow>
   wt_need v > fst (wake_waiters count ws)"
proof (induction count ws rule: wake_waiters.induct)
  case (2 count w ws)
  show ?case
  proof (cases "\<not> wt_ready w \<and> wt_need w \<le> count")
    case True
    then show ?thesis using 2 by (auto split: prod.splits)
  next
    case False
    moreover have "fst (wake_waiters count ws) \<le> count" using wake_bounds [of count ws] 2 by simp
    ultimately show ?thesis using 2 by (auto split: prod.splits)
  qed
qed simp

text \<open>The first waiter in line is served whenever the tokens suffice for it.\<close>

lemma wake_first:
  "\<forall>v \<in> set us. wt_ready v \<Longrightarrow> \<not> wt_ready w \<Longrightarrow> wt_need w \<le> count \<Longrightarrow>
   w\<lparr>wt_result := SemaOk, wt_ready := True\<rparr> \<in> set (snd (wake_waiters count (us @ w # ws)))"
  by (induction us) (auto split: prod.splits)

section \<open>The invariant of a semaphore\<close>

definition waiters_ok :: "sema \<Rightarrow> bool" where
  "waiters_ok s \<longleftrightarrow> distinct (refs (sm_waiting s)) \<and>
     sorted_wrt (\<lambda>u v. wt_priority u \<le> wt_priority v) (sm_waiting s) \<and>
     (\<forall>w \<in> set (sm_waiting s). (sm_fifo s \<longrightarrow> wt_priority w = 0) \<and> 1 \<le> wt_need w \<and> wt_need w \<le> sm_max s)"

definition sema_ok :: "sema \<Rightarrow> bool" where
  "sema_ok s \<longleftrightarrow> 0 \<le> sm_count s \<and> sm_count s \<le> sm_max s \<and> 0 \<le> sm_init s \<and> sm_init s \<le> sm_max s \<and> waiters_ok s \<and>
     (\<forall>w \<in> set (sm_waiting s).
        (wt_ready w \<longrightarrow> wt_result w \<in> {SemaOk, SemaCanceled, SemaDeleted}) \<and>
        (\<not> wt_ready w \<longrightarrow> sm_count s < wt_need w \<and> sm_status s \<noteq> StatusDeleted))"

lemma new_sema_ok: "0 \<le> init \<Longrightarrow> init \<le> max' \<Longrightarrow> sema_ok (new_sema name fifo init max')"
  by (simp add: sema_ok_def waiters_ok_def new_sema_def)

lemma sorted_by_priority: "sorted_wrt (\<lambda>u v. wt_priority u \<le> wt_priority v) ws \<longleftrightarrow> sorted (map wt_priority ws)"
  by (simp add: sorted_map)

lemma waiters_ok_places:
  assumes "waiters_ok s" and "list_all2 same_place (sm_waiting s) ws" and "sm_fifo s' = sm_fifo s" "sm_max s' = sm_max s"
    "sm_waiting s' = ws"
  shows "waiters_ok s'"
proof -
  note f = places_facts [OF assms(2)]
  have pn: "list_all2 (\<lambda>u v. wt_priority v = wt_priority u \<and> wt_need v = wt_need u) (sm_waiting s) ws"
    using assms(2) by (rule list_all2_mono) (simp add: same_place_def)
  have "\<exists>u \<in> set (sm_waiting s). wt_priority v = wt_priority u \<and> wt_need v = wt_need u" if "v \<in> set ws" for v
    using pn that by (induction rule: list_all2_induct) auto
  then show ?thesis using assms f by (fastforce simp: waiters_ok_def sorted_by_priority)
qed

lemma sema_close_ok: "sema_ok s \<Longrightarrow> sema_ok (sema_close s)"
  using waiters_ok_places [of s "map (release_waiter SemaDeleted) (sm_waiting s)" "sema_close s"]
  by (auto simp: sema_ok_def sema_close_def release_places)

lemma sema_cancel_ok: "sema_ok s \<Longrightarrow> sema_ok (snd (snd (sema_cancel n threads s)))"
  using waiters_ok_places [of s "map (release_waiter SemaCanceled) (sm_waiting s)" "snd (snd (sema_cancel n threads s))"]
  by (auto simp: sema_ok_def sema_cancel_def release_places)

lemma wake_ready_result:
  "\<forall>w \<in> set ws. wt_ready w \<longrightarrow> wt_result w \<in> R \<Longrightarrow> SemaOk \<in> R \<Longrightarrow>
   v \<in> set (snd (wake_waiters count ws)) \<Longrightarrow> wt_ready v \<Longrightarrow> wt_result v \<in> R"
  by (induction count ws rule: wake_waiters.induct) (auto split: prod.splits if_splits)

lemma sema_signal_ok:
  assumes "sema_ok s"
  shows "sema_ok (snd (sema_signal n s))"
proof (cases "sm_status s = StatusDeleted \<or> n \<le> 0 \<or> n > sm_max s - sm_count s")
  case True
  then show ?thesis using assms by (auto simp: sema_signal_def)
next
  case False
  let ?c = "sm_count s + n"
  define c ws where "c = fst (wake_waiters ?c (sm_waiting s))" and "ws = snd (wake_waiters ?c (sm_waiting s))"
  have out: "snd (sema_signal n s) = s\<lparr>sm_count := c, sm_waiting := ws\<rparr>"
    using False by (auto simp: sema_signal_def c_def ws_def split: prod.splits)
  have needs: "\<forall>w \<in> set (sm_waiting s). 1 \<le> wt_need w" using assms by (simp add: sema_ok_def waiters_ok_def)
  have nn: "0 \<le> ?c" using assms False by (simp add: sema_ok_def)
  have b: "0 \<le> c \<and> c \<le> ?c" unfolding c_def by (rule wake_bounds [OF nn needs])
  have serve: "c < wt_need v" if "v \<in> set ws" "\<not> wt_ready v" for v
    using wake_serves [OF nn needs] that unfolding c_def ws_def by blast
  have res: "wt_result v \<in> {SemaOk, SemaCanceled, SemaDeleted}" if "v \<in> set ws" "wt_ready v" for v
    using wake_ready_result [of "sm_waiting s" "{SemaOk, SemaCanceled, SemaDeleted}" v ?c] that assms
    unfolding ws_def sema_ok_def by auto
  have "waiters_ok (s\<lparr>sm_count := c, sm_waiting := ws\<rparr>)"
  proof (rule waiters_ok_places [of s ws])
    show "waiters_ok s" using assms by (simp add: sema_ok_def)
    show "list_all2 same_place (sm_waiting s) ws" unfolding ws_def by (rule wake_places)
  qed simp_all
  moreover have "c \<le> sm_max s" using b False by simp
  moreover have "sm_status s \<noteq> StatusDeleted" using False by simp
  moreover have "0 \<le> sm_init s" "sm_init s \<le> sm_max s" using assms by (simp_all add: sema_ok_def)
  ultimately show ?thesis using conjunct1 [OF b] serve res unfolding out sema_ok_def by simp
qed

lemma waiters_ok_remove:
  assumes "waiters_ok s"
  shows "waiters_ok (s\<lparr>sm_waiting := remove_waiter ref (sm_waiting s)\<rparr>)"
  using assms
  by (auto simp: waiters_ok_def remove_waiter_filter sorted_wrt_filter intro: distinct_map_filter)

lemma sema_ok_remove:
  assumes "sema_ok s"
  shows "sema_ok (s\<lparr>sm_waiting := remove_waiter ref (sm_waiting s)\<rparr>)"
proof -
  have "distinct (refs (sm_waiting s))" using assms by (simp add: sema_ok_def waiters_ok_def)
  then show ?thesis using assms waiters_ok_remove [of s ref] by (auto simp: sema_ok_def remove_waiter_filter)
qed

lemma sema_wait_pass_ok: "sema_ok s \<Longrightarrow> sema_ok (snd (sema_wait_pass ref d micros now s))"
  by (simp add: sema_wait_pass_def sema_ok_remove split: option.split)

lemma sema_wait_begin_ok:
  assumes ok: "sema_ok s" and fresh: "ref \<notin> wt_ref ` set (sm_waiting s)"
  shows "sema_ok (snd (sema_wait_begin ref tid priority need micros now1 now2 s))"
proof (cases "need < 1 \<or> need > sm_max s \<or> sm_status s = StatusDeleted \<or> sm_count s \<ge> need")
  case True
  then show ?thesis using ok by (auto simp: sema_wait_begin_def sema_ok_def waiters_ok_def Let_def)
next
  case False
  let ?w = "\<lparr>wt_ref = ref, wt_id = tid, wt_priority = (if sm_fifo s then 0 else priority), wt_need = need,
             wt_result = SemaTimedOut, wt_ready = False\<rparr>"
  let ?ws = "add_waiter (sm_fifo s) ?w (sm_waiting s)"
  have out: "snd (sema_wait_begin ref tid priority need micros now1 now2 s) \<in> {s, s\<lparr>sm_waiting := ?ws\<rparr>}"
    using False by (simp add: sema_wait_begin_def Let_def)
  have "distinct (refs ?ws)" using ok fresh by (intro distinct_add_waiter) (simp_all add: sema_ok_def waiters_ok_def)
  moreover have "sorted_wrt (\<lambda>u v. wt_priority u \<le> wt_priority v) ?ws"
    using ok by (intro sorted_add_waiter) (simp_all add: sema_ok_def waiters_ok_def)
  ultimately have "sema_ok (s\<lparr>sm_waiting := ?ws\<rparr>)"
    using ok False by (auto simp: sema_ok_def waiters_ok_def set_add_waiter)
  then show ?thesis using out ok by auto
qed

section \<open>Histories\<close>

text \<open>
  A history interleaves the steps of any number of callers: \<open>SBegin\<close> enters \<open>Wait\<close> with a waiter record at an
  address not in use, \<open>SPass\<close> runs a pass of a parked call. Beside the semaphore the state keeps the parked
  calls, the calls that returned and the tokens supplied by signals and cancellations.
\<close>

datatype sema_event =
    SBegin nat int int int "nat option" u64 u64
  | SPass nat u64
  | SSignal int
  | SCancel int
  | SClose

record sema_sys =
  ss_sema :: sema
  ss_parked :: "nat \<rightharpoonup> int \<times> deadline \<times> nat option"
  ss_returned :: "(nat \<times> int \<times> sema_result) list"
  ss_supplied :: int

definition sema_sys_init :: "sema \<Rightarrow> sema_sys" where
  "sema_sys_init s = \<lparr>ss_sema = s, ss_parked = Map.empty, ss_returned = [], ss_supplied = 0\<rparr>"

fun sema_step :: "sema_event \<Rightarrow> sema_sys \<Rightarrow> sema_sys" where
  "sema_step (SBegin ref tid priority need micros now1 now2) y =
     (if ss_parked y ref \<noteq> None then y
      else case sema_wait_begin ref tid priority need micros now1 now2 (ss_sema y) of
          (Returned (r, _), s) \<Rightarrow> y\<lparr>ss_sema := s, ss_returned := ss_returned y @ [(ref, need, r)]\<rparr>
        | (Parked d, s) \<Rightarrow> y\<lparr>ss_sema := s, ss_parked := (ss_parked y)(ref \<mapsto> (need, d, micros))\<rparr>)"
| "sema_step (SPass ref now) y =
     (case ss_parked y ref of
        None \<Rightarrow> y
      | Some (need, d, micros) \<Rightarrow>
          (case sema_wait_pass ref d micros now (ss_sema y) of
             (Returned (r, _), s) \<Rightarrow>
               y\<lparr>ss_sema := s, ss_parked := (ss_parked y)(ref := None), ss_returned := ss_returned y @ [(ref, need, r)]\<rparr>
           | (Parked _, s) \<Rightarrow> y\<lparr>ss_sema := s\<rparr>))"
| "sema_step (SSignal n) y =
     (case sema_signal n (ss_sema y) of
        (r, s) \<Rightarrow> y\<lparr>ss_sema := s, ss_supplied := ss_supplied y + (if r = SemaOk then n else 0)\<rparr>)"
| "sema_step (SCancel n) y =
     (case sema_cancel n True (ss_sema y) of
        (_, _, s) \<Rightarrow> y\<lparr>ss_sema := s, ss_supplied := ss_supplied y + (sm_count s - sm_count (ss_sema y))\<rparr>)"
| "sema_step SClose y = y\<lparr>ss_sema := sema_close (ss_sema y)\<rparr>"

definition sema_run :: "sema_event list \<Rightarrow> sema \<Rightarrow> sema_sys" where
  "sema_run es s = fold sema_step es (sema_sys_init s)"

definition tokens_taken :: "(nat \<times> int \<times> sema_result) list \<Rightarrow> int" where
  "tokens_taken rs = sum_list (map (\<lambda>(_, need, r). if r = SemaOk then need else 0) rs)"

lemma tokens_taken_simps [simp]:
  "tokens_taken [] = 0" "tokens_taken (rs @ [(ref, need, r)]) = tokens_taken rs + (if r = SemaOk then need else 0)"
  by (simp_all add: tokens_taken_def)

definition sys_ok :: "int \<Rightarrow> sema_sys \<Rightarrow> bool" where
  "sys_ok init y \<longleftrightarrow> sema_ok (ss_sema y) \<and> dom (ss_parked y) = wt_ref ` set (sm_waiting (ss_sema y)) \<and>
     (\<forall>w \<in> set (sm_waiting (ss_sema y)). \<exists>d m. ss_parked y (wt_ref w) = Some (wt_need w, d, m)) \<and>
     sm_count (ss_sema y) + granted_sum (sm_waiting (ss_sema y)) + tokens_taken (ss_returned y) = init + ss_supplied y"

lemma sema_wait_begin_cases:
  obtains (returned) r m where "sema_wait_begin ref tid priority need micros now1 now2 s = (Returned (r, m), s)" "r \<noteq> SemaOk"
  | (taken) m where "sema_wait_begin ref tid priority need micros now1 now2 s =
      (Returned (SemaOk, m), s\<lparr>sm_count := sm_count s - need\<rparr>)"
  | (parked) d w where "sema_wait_begin ref tid priority need micros now1 now2 s =
      (Parked d, s\<lparr>sm_waiting := add_waiter (sm_fifo s) w (sm_waiting s)\<rparr>)"
      "wt_ref w = ref" "wt_need w = need" "\<not> wt_ready w"
proof -
  define d where "d = make_deadline now1 micros"
  define w where "w = \<lparr>wt_ref = ref, wt_id = tid, wt_priority = (if sm_fifo s then 0 else priority), wt_need = need,
    wt_result = SemaTimedOut, wt_ready = False\<rparr>"
  note unfolded = sema_wait_begin_def [of ref tid priority need micros now1 now2 s, folded d_def, unfolded Let_def, folded d_def w_def]
  consider "need < 1 \<or> need > sm_max s" | "\<not> (need < 1 \<or> need > sm_max s)" "sm_status s = StatusDeleted"
    | "\<not> (need < 1 \<or> need > sm_max s)" "sm_status s \<noteq> StatusDeleted" by blast
  then show thesis
  proof cases
    case 1
    then show thesis by (intro returned [of SemaInvalCount micros]) (simp_all add: unfolded)
  next
    case 2
    then show thesis by (intro returned [of SemaDeleted micros]) (simp_all add: unfolded)
  next
    case 3
    consider "sm_count s \<ge> need" | "\<not> sm_count s \<ge> need" "expired d now2" | "\<not> sm_count s \<ge> need" "\<not> expired d now2" by blast
    then show thesis
    proof cases
      case 1
      then show thesis using 3 by (intro taken [of "update_timeout d now2 micros"]) (simp add: unfolded)
    next
      case 2
      then show thesis using 3 by (intro returned [of SemaTimedOut micros]) (simp_all add: unfolded)
    next
      case a: 3
      then show thesis using 3 by (intro parked [of d w]) (simp_all add: unfolded, simp_all add: w_def)
    qed
  qed
qed

lemma sema_wait_pass_at:
  assumes "distinct (refs (sm_waiting s))" and "w \<in> set (sm_waiting s)" and "wt_ref w = ref"
  shows "sema_wait_pass ref d micros now s =
     (if wt_ready w
      then (Returned (wt_result w, update_timeout d now micros), s\<lparr>sm_waiting := remove_waiter ref (sm_waiting s)\<rparr>)
      else if expired d now
      then (Returned (SemaTimedOut, map_option (\<lambda>_. 0) micros), s\<lparr>sm_waiting := remove_waiter ref (sm_waiting s)\<rparr>)
      else (Parked d, s))"
  using find_waiter [OF assms(1,2)] assms(3) by (simp add: sema_wait_pass_def)

lemma sys_ok_places:
  assumes "sys_ok init y" and "sema_ok s" and "list_all2 same_place (sm_waiting (ss_sema y)) (sm_waiting s)"
    and "sm_count s + granted_sum (sm_waiting s) - given = sm_count (ss_sema y) + granted_sum (sm_waiting (ss_sema y))"
  shows "sys_ok init (y\<lparr>ss_sema := s, ss_supplied := ss_supplied y + given\<rparr>)"
proof -
  have "wt_ref ` set (sm_waiting s) = wt_ref ` set (sm_waiting (ss_sema y))"
    using places_facts(1) [OF assms(3)] by (metis set_map)
  moreover have "\<exists>u \<in> set (sm_waiting (ss_sema y)). wt_ref v = wt_ref u \<and> wt_need v = wt_need u"
    if "v \<in> set (sm_waiting s)" for v
    using assms(3) that by (induction rule: list_all2_induct) (auto simp: same_place_def)
  ultimately show ?thesis using assms(1,2,4) by (fastforce simp: sys_ok_def)
qed

lemma signal_effect:
  "list_all2 same_place (sm_waiting s) (sm_waiting (snd (sema_signal n s))) \<and>
   sm_count (snd (sema_signal n s)) + granted_sum (sm_waiting (snd (sema_signal n s))) -
     (if fst (sema_signal n s) = SemaOk then n else 0) = sm_count s + granted_sum (sm_waiting s)"
  using wake_places [of "sm_waiting s" "sm_count s + n"] wake_conserves [of "sm_count s + n" "sm_waiting s"]
  by (auto simp: sema_signal_def list_all2_refl split: prod.splits)

lemma cancel_effect:
  "list_all2 same_place (sm_waiting s) (sm_waiting (snd (snd (sema_cancel n threads s)))) \<and>
   granted_sum (sm_waiting (snd (snd (sema_cancel n threads s)))) = granted_sum (sm_waiting s)"
  by (simp add: sema_cancel_def release_places release_granted list_all2_refl)

lemma close_effect:
  "list_all2 same_place (sm_waiting s) (sm_waiting (sema_close s)) \<and>
   granted_sum (sm_waiting (sema_close s)) = granted_sum (sm_waiting s) \<and> sm_count (sema_close s) = sm_count s"
  by (simp add: sema_close_def release_places release_granted list_all2_refl)

lemma sys_ok_remove:
  assumes ok: "sys_ok init y" and w: "w \<in> set (sm_waiting (ss_sema y))"
    and r: "granted w = (if r = SemaOk then wt_need w else 0)"
  shows "sys_ok init (y\<lparr>ss_sema := (ss_sema y)\<lparr>sm_waiting := remove_waiter (wt_ref w) (sm_waiting (ss_sema y))\<rparr>,
     ss_parked := (ss_parked y)(wt_ref w := None), ss_returned := ss_returned y @ [(wt_ref w, wt_need w, r)]\<rparr>)"
proof -
  have d: "distinct (refs (sm_waiting (ss_sema y)))" using ok by (simp add: sys_ok_def sema_ok_def waiters_ok_def)
  have "set (remove_waiter (wt_ref w) (sm_waiting (ss_sema y))) = {v \<in> set (sm_waiting (ss_sema y)). wt_ref v \<noteq> wt_ref w}"
    by (auto simp: remove_waiter_filter [OF d])
  then show ?thesis
    using ok sema_ok_remove [of "ss_sema y" "wt_ref w"] granted_sum_remove [OF d w] r by (auto simp: sys_ok_def)
qed

lemma sema_step_ok:
  assumes ok: "sys_ok init y"
  shows "sys_ok init (sema_step e y)"
proof -
  have s: "sema_ok (ss_sema y)" using ok by (simp add: sys_ok_def)
  show ?thesis
  proof (cases e)
    case (SBegin ref tid priority need micros now1 now2)
    show ?thesis
    proof (cases "ss_parked y ref = None")
      case True
      then have fresh: "ref \<notin> wt_ref ` set (sm_waiting (ss_sema y))" using ok by (auto simp: sys_ok_def dom_def)
      have s: "sema_ok (snd (sema_wait_begin ref tid priority need micros now1 now2 (ss_sema y)))"
        using ok fresh by (intro sema_wait_begin_ok) (simp_all add: sys_ok_def)
      show ?thesis
      proof (cases rule: sema_wait_begin_cases [of ref tid priority need micros now1 now2 "ss_sema y"])
        case (returned r m)
        then show ?thesis using ok SBegin True by (simp add: sys_ok_def)
      next
        case (taken m)
        then show ?thesis using ok SBegin True s by (simp add: sys_ok_def)
      next
        case (parked d w)
        then show ?thesis using ok SBegin True s fresh
          by (auto simp: sys_ok_def set_add_waiter granted_sum_add granted_def)
      qed
    next
      case False
      then show ?thesis using ok SBegin by auto
    qed
  next
    case (SPass ref now)
    show ?thesis
    proof (cases "ss_parked y ref")
      case None
      then show ?thesis using ok SPass by simp
    next
      case (Some p)
      then have "ref \<in> dom (ss_parked y)" by blast
      then have "ref \<in> wt_ref ` set (sm_waiting (ss_sema y))" using ok by (simp add: sys_ok_def)
      then obtain w where w: "w \<in> set (sm_waiting (ss_sema y))" "wt_ref w = ref" by blast
      then obtain d m where p: "p = (wt_need w, d, m)" using ok Some by (force simp: sys_ok_def)
      have dist: "distinct (refs (sm_waiting (ss_sema y)))" using ok by (simp add: sys_ok_def sema_ok_def waiters_ok_def)
      note at = sema_wait_pass_at [OF dist w]
      consider "wt_ready w" | "\<not> wt_ready w" "expired d now" | "\<not> wt_ready w" "\<not> expired d now" by blast
      then show ?thesis
      proof cases
        case 1
        then show ?thesis using sys_ok_remove [OF ok w(1), of "wt_result w"] Some p SPass w(2) at by (simp add: granted_def)
      next
        case 2
        then show ?thesis using sys_ok_remove [OF ok w(1), of SemaTimedOut] Some p SPass w(2) at by (simp add: granted_def)
      next
        case 3
        then show ?thesis using ok Some p SPass at by simp
      qed
    qed
  next
    case (SSignal n)
    show ?thesis
      using sys_ok_places [OF ok sema_signal_ok [OF s, of n], of "if fst (sema_signal n (ss_sema y)) = SemaOk then n else 0"]
        signal_effect [of "ss_sema y" n] SSignal
      by (cases "sema_signal n (ss_sema y)") simp
  next
    case (SCancel n)
    show ?thesis
      using sys_ok_places [OF ok sema_cancel_ok [OF s, of n True], of
          "sm_count (snd (snd (sema_cancel n True (ss_sema y)))) - sm_count (ss_sema y)"]
        cancel_effect [of "ss_sema y" n True] SCancel
      by (cases "sema_cancel n True (ss_sema y)") simp
  next
    case SClose
    show ?thesis
      using sys_ok_places [OF ok sema_close_ok [OF s], of 0] close_effect [of "ss_sema y"] SClose by simp
  qed
qed

lemma sema_run_ok:
  assumes "0 \<le> init" "init \<le> max'"
  shows "sys_ok init (sema_run es (new_sema name fifo init max'))"
proof -
  have "sys_ok init (fold sema_step es y)" if "sys_ok init y" for y
    using that by (induction es arbitrary: y) (auto intro: sema_step_ok)
  moreover have "sys_ok init (sema_sys_init (new_sema name fifo init max'))"
    using new_sema_ok [OF assms] by (simp add: sys_ok_def sema_sys_init_def) (simp add: new_sema_def)
  ultimately show ?thesis by (simp add: sema_run_def)
qed

lemma sema_step_fixed:
  "sm_max (ss_sema (sema_step e y)) = sm_max (ss_sema y) \<and> sm_fifo (ss_sema (sema_step e y)) = sm_fifo (ss_sema y)"
proof (cases e)
  case (SBegin ref tid priority need micros now1 now2)
  then show ?thesis
    by (cases rule: sema_wait_begin_cases [of ref tid priority need micros now1 now2 "ss_sema y"]) simp_all
next
  case (SPass ref now)
  then show ?thesis by (auto simp: sema_wait_pass_def split: option.split)
next
  case (SSignal n)
  then show ?thesis by (auto simp: sema_signal_def split: prod.split)
next
  case (SCancel n)
  then show ?thesis by (simp add: sema_cancel_def)
next
  case SClose
  then show ?thesis by (simp add: sema_close_def)
qed

lemma sema_run_fixed:
  "sm_max (ss_sema (sema_run es (new_sema name fifo init max'))) = max' \<and>
   sm_fifo (ss_sema (sema_run es (new_sema name fifo init max'))) = fifo"
proof -
  have "sm_max (ss_sema (fold sema_step es y)) = sm_max (ss_sema y) \<and> sm_fifo (ss_sema (fold sema_step es y)) = sm_fifo (ss_sema y)" for y
    by (induction es arbitrary: y) (simp_all add: sema_step_fixed)
  then show ?thesis by (simp add: sema_run_def sema_sys_init_def new_sema_def)
qed

lemma ready_pass:
  assumes "sema_ok s" and "w \<in> set (sm_waiting s)" and "wt_ref w = ref" and "wt_ready w"
  shows "fst (sema_wait_pass ref d micros now s) = Returned (wt_result w, update_timeout d now micros)"
  using sema_wait_pass_at [OF _ assms(2,3), of d micros now] assms(1,4) by (simp add: sema_ok_def waiters_ok_def)

lemma released_pass:
  assumes ok: "sema_ok s'" and places: "list_all2 same_place ws (sm_waiting s')" and ref: "ref \<in> wt_ref ` set ws"
    and ready: "\<forall>w \<in> set (sm_waiting s'). wt_ready w"
  shows "\<exists>r m. r \<in> {SemaOk, SemaCanceled, SemaDeleted} \<and> fst (sema_wait_pass ref d micros now s') = Returned (r, m)"
proof -
  have "ref \<in> wt_ref ` set (sm_waiting s')" using ref places_facts(1) [OF places] by (metis set_map)
  then obtain w where w: "w \<in> set (sm_waiting s')" "wt_ref w = ref" by blast
  have "wt_result w \<in> {SemaOk, SemaCanceled, SemaDeleted}" using ok w(1) ready by (simp add: sema_ok_def)
  then show ?thesis using ready_pass [OF ok w] ready w(1) by blast
qed

text \<open>C16: Whatever a semaphore goes through, its count stays between 0 and the maximum, the waiters stand in the
  order of their priorities, a waiter is asleep only when the count does not suffice for it, and once the
  semaphore is deleted nobody is asleep. The waiters in the list are exactly the parked calls.\<close>

theorem sema_history_safe:
  assumes "0 \<le> init" and "init \<le> max'"
  shows "0 \<le> sm_count (ss_sema (sema_run es (new_sema name fifo init max'))) \<and>
    sm_count (ss_sema (sema_run es (new_sema name fifo init max'))) \<le> max' \<and>
    sorted (map wt_priority (sm_waiting (ss_sema (sema_run es (new_sema name fifo init max'))))) \<and>
    (\<forall>w \<in> set (sm_waiting (ss_sema (sema_run es (new_sema name fifo init max')))). \<not> wt_ready w \<longrightarrow>
       sm_count (ss_sema (sema_run es (new_sema name fifo init max'))) < wt_need w \<and>
       sm_status (ss_sema (sema_run es (new_sema name fifo init max'))) \<noteq> StatusDeleted) \<and>
    wt_ref ` set (sm_waiting (ss_sema (sema_run es (new_sema name fifo init max')))) =
      dom (ss_parked (sema_run es (new_sema name fifo init max')))"
  using sema_run_ok [OF assms, of es name fifo] sema_run_fixed [of es name fifo init max']
  by (auto simp: sys_ok_def sema_ok_def waiters_ok_def sorted_by_priority)

definition sema_example :: "sema_event list" where
  "sema_example = [SBegin 1 1 700 2 None 0 0, SBegin 2 2 300 1 (Some 50) 0 0, SSignal 1, SPass 2 10, SSignal 1]"

lemma sema_example_eval:
  "sema_run sema_example (new_sema ''s'' False 0 3) =
     \<lparr>ss_sema = (new_sema ''s'' False 0 3)
        \<lparr>sm_count := 1, sm_waiting := [\<lparr>wt_ref = 1, wt_id = 1, wt_priority = 700, wt_need = 2, wt_result = SemaTimedOut, wt_ready = False\<rparr>]\<rparr>,
      ss_parked = Map.empty(1 \<mapsto> (2, make_deadline 0 None, None)),
      ss_returned = [(2, 1, SemaOk)], ss_supplied = 2\<rparr>"
  by (simp add: sema_run_def sema_example_def sema_sys_init_def new_sema_def sema_wait_begin_def sema_wait_pass_def
      sema_signal_def expired_def remaining_def make_deadline_def add_waiter_def Let_def)

lemma sema_history_safe_witness:
  "sm_count (ss_sema (sema_run sema_example (new_sema ''s'' False 0 3))) \<le> 3 \<and>
   {1} = dom (ss_parked (sema_run sema_example (new_sema ''s'' False 0 3)))"
  using sema_history_safe [of 0 3 sema_example "''s''" False] by (simp add: sema_example_eval)

text \<open>C18: Tokens are neither lost nor made up: the count, the tokens granted to calls that have not returned yet and
  the tokens of the calls that returned with success add up to the initial count and what signals and
  cancellations supplied.\<close>

theorem sema_tokens_conserved:
  assumes "0 \<le> init" and "init \<le> max'"
  shows "sm_count (ss_sema (sema_run es (new_sema name fifo init max'))) +
      granted_sum (sm_waiting (ss_sema (sema_run es (new_sema name fifo init max')))) +
      tokens_taken (ss_returned (sema_run es (new_sema name fifo init max'))) =
    init + ss_supplied (sema_run es (new_sema name fifo init max'))"
  using sema_run_ok [OF assms, of es name fifo] by (simp add: sys_ok_def)

lemma sema_tokens_conserved_witness:
  "1 + 0 + tokens_taken [(2, 1, SemaOk)] = ss_supplied (sema_run sema_example (new_sema ''s'' False 0 3))"
  using sema_tokens_conserved [of 0 3 sema_example "''s''" False]
  by (simp add: sema_example_eval granted_def)

text \<open>C23: No parked call is stuck. When its deadline has passed, the next pass returns; after the deletion or an
  accepted cancellation every parked call returns on its next pass and none reports a timeout; and an accepted
  signal that suffices for the first waiter in line lets exactly that call return with success, even when its
  deadline has passed.\<close>

theorem sema_wait_finishes:
  assumes "0 \<le> init" and "init \<le> max'"
    and "y = sema_run es (new_sema name fifo init max')" and "ss_parked y ref = Some (need, d, micros)"
  shows "(expired d now \<longrightarrow> (\<exists>r m. fst (sema_wait_pass ref d micros now (ss_sema y)) = Returned (r, m))) \<and>
    (\<exists>r m. r \<in> {SemaOk, SemaCanceled, SemaDeleted} \<and>
       fst (sema_wait_pass ref d micros now (sema_close (ss_sema y))) = Returned (r, m)) \<and>
    (fst (sema_cancel n threads (ss_sema y)) = SemaOk \<longrightarrow>
       (\<exists>r m. r \<in> {SemaOk, SemaCanceled, SemaDeleted} \<and>
          fst (sema_wait_pass ref d micros now (snd (snd (sema_cancel n threads (ss_sema y))))) = Returned (r, m))) \<and>
    (fst (sema_signal n (ss_sema y)) = SemaOk \<and> need \<le> sm_count (ss_sema y) + n \<and>
       sm_waiting (ss_sema y) = us @ w # vs \<and> wt_ref w = ref \<and> \<not> wt_ready w \<and> (\<forall>u \<in> set us. wt_ready u) \<longrightarrow>
       fst (sema_wait_pass ref d micros now (snd (sema_signal n (ss_sema y)))) =
         Returned (SemaOk, update_timeout d now micros))"
proof -
  let ?s = "ss_sema y"
  have sys: "sys_ok init y" unfolding assms(3) by (rule sema_run_ok [OF assms(1,2)])
  then have ok: "sema_ok ?s" by (simp add: sys_ok_def)
  then have dist: "distinct (refs (sm_waiting ?s))" by (simp add: sema_ok_def waiters_ok_def)
  have "ref \<in> dom (ss_parked y)" using assms(4) by blast
  then have ref: "ref \<in> wt_ref ` set (sm_waiting ?s)" using sys by (simp add: sys_ok_def)
  then obtain v where v: "v \<in> set (sm_waiting ?s)" "wt_ref v = ref" by blast
  have a: "expired d now \<longrightarrow> (\<exists>r m. fst (sema_wait_pass ref d micros now ?s) = Returned (r, m))"
    by (simp add: sema_wait_pass_at [OF dist v])
  have "\<forall>w \<in> set (sm_waiting (sema_close ?s)). wt_ready w"
    using ok by (cases "sm_status ?s = StatusDeleted") (auto simp: sema_close_def sema_ok_def)
  then have b: "\<exists>r m. r \<in> {SemaOk, SemaCanceled, SemaDeleted} \<and>
       fst (sema_wait_pass ref d micros now (sema_close ?s)) = Returned (r, m)"
    by (rule released_pass [OF sema_close_ok [OF ok] conjunct1 [OF close_effect] ref])
  have c: "\<exists>r m. r \<in> {SemaOk, SemaCanceled, SemaDeleted} \<and>
          fst (sema_wait_pass ref d micros now (snd (snd (sema_cancel n threads ?s)))) = Returned (r, m)"
    if "fst (sema_cancel n threads ?s) = SemaOk"
  proof -
    have "\<forall>w \<in> set (sm_waiting (snd (snd (sema_cancel n threads ?s)))). wt_ready w"
      using that by (simp add: sema_cancel_def split: if_splits)
    then show ?thesis by (rule released_pass [OF sema_cancel_ok [OF ok] conjunct1 [OF cancel_effect] ref])
  qed
  have e: "fst (sema_wait_pass ref d micros now (snd (sema_signal n ?s))) = Returned (SemaOk, update_timeout d now micros)"
    if h: "fst (sema_signal n ?s) = SemaOk" "need \<le> sm_count ?s + n" "sm_waiting ?s = us @ w # vs" "wt_ref w = ref"
      "\<not> wt_ready w" "\<forall>u \<in> set us. wt_ready u"
  proof -
    have "\<exists>d' m'. ss_parked y (wt_ref w) = Some (wt_need w, d', m')" using sys h(3) by (simp add: sys_ok_def)
    then have "wt_need w \<le> sm_count ?s + n" using assms(4) h(2,4) by simp
    then have "w\<lparr>wt_result := SemaOk, wt_ready := True\<rparr> \<in> set (snd (wake_waiters (sm_count ?s + n) (us @ w # vs)))"
      using h by (intro wake_first)
    moreover have "sm_waiting (snd (sema_signal n ?s)) = snd (wake_waiters (sm_count ?s + n) (us @ w # vs))"
      using h(1,3) by (auto simp: sema_signal_def split: if_splits prod.splits)
    ultimately show ?thesis using ready_pass [OF sema_signal_ok [OF ok, of n], of _ ref d micros now] h(4) by fastforce
  qed
  show ?thesis using a b c e by blast
qed

lemma sema_wait_finishes_witness:
  "\<exists>w. fst (sema_wait_pass 1 (make_deadline 0 None) None 99
      (snd (sema_signal 1 (ss_sema (sema_run sema_example (new_sema ''s'' False 0 3)))))) = Returned (SemaOk, w)"
proof -
  let ?w = "\<lparr>wt_ref = 1, wt_id = 1, wt_priority = 700, wt_need = 2, wt_result = SemaTimedOut, wt_ready = False\<rparr>"
  have "fst (sema_signal 1 (ss_sema (sema_run sema_example (new_sema ''s'' False 0 3)))) = SemaOk"
    unfolding sema_example_eval by (simp add: sema_signal_def new_sema_def)
  then show ?thesis
    using sema_wait_finishes [of 0 3 "sema_run sema_example (new_sema ''s'' False 0 3)" sema_example "''s''" False 1 2
        "make_deadline 0 None" None 99 1 False "[]" ?w "[]"]
    by (simp add: sema_example_eval)
qed

section \<open>Handles\<close>

datatype kernel_sema_op =
    KCreate bool "string option" nat int int bool
  | KDelete nat
  | KWaitBegin nat nat int int int "nat option" u64 u64
  | KWaitPass nat nat deadline "nat option" u64
  | KPoll nat int u64 u64
  | KSignal nat int
  | KCancel nat int bool

fun kernel_sema_step :: "kernel_sema_op \<Rightarrow> sema_world \<Rightarrow> sema_world" where
  "kernel_sema_step (KCreate sem name attr init max' opt) w = snd (snd (kernel_create_sema sem name attr init max' opt w))"
| "kernel_sema_step (KDelete h) w = snd (kernel_delete_sema h w)"
| "kernel_sema_step (KWaitBegin h ref tid priority need time now1 now2) w =
     snd (kernel_wait_sema_begin h ref tid priority need time now1 now2 w)"
| "kernel_sema_step (KWaitPass i ref d time now) w = snd (kernel_wait_sema_pass i ref d time now w)"
| "kernel_sema_step (KPoll h need now1 now2) w = snd (kernel_poll_sema h need now1 now2 w)"
| "kernel_sema_step (KSignal h n) w = snd (kernel_signal_sema h n w)"
| "kernel_sema_step (KCancel h n threads) w = snd (snd (kernel_cancel_sema h n threads w))"

lemma set_object_semas [simp]: "sw_semas (set_object i s w) = sw_semas w"
  by (simp add: set_object_def)

lemma kernel_sema_step_registry:
  "sw_semas (kernel_sema_step p w) \<in> {sw_semas w} \<union> {snd (reg_insert i (sw_semas w)) |i. True} \<union> {snd (reg_remove h (sw_semas w)) |h. True}"
proof (cases p)
  case (KCreate sem name attr init max' opt)
  have "sw_semas (kernel_sema_step p w) \<in> {sw_semas w, snd (reg_insert (length (sw_objects w)) (sw_semas w))}"
    by (simp add: KCreate kernel_create_sema_def Let_def split: option.splits prod.splits)
  then show ?thesis by blast
next
  case (KDelete h)
  have "sw_semas (kernel_sema_step p w) \<in> {sw_semas w, snd (reg_remove h (sw_semas w))}"
    by (simp add: KDelete kernel_delete_sema_def split: option.splits prod.splits)
  then show ?thesis by blast
next
  case (KWaitBegin h ref tid priority need time now1 now2)
  then show ?thesis by (simp add: kernel_wait_sema_begin_def split: option.splits prod.splits blocking.splits)
next
  case (KWaitPass i ref d time now)
  then show ?thesis by (simp add: kernel_wait_sema_pass_def split: option.splits prod.splits blocking.splits)
next
  case (KPoll h need now1 now2)
  then show ?thesis by (simp add: kernel_poll_sema_def split: option.splits prod.splits)
next
  case (KSignal h n)
  then show ?thesis by (simp add: kernel_signal_sema_def split: option.splits prod.splits)
next
  case (KCancel h n threads)
  then show ?thesis by (simp add: kernel_cancel_sema_def split: option.splits prod.splits)
qed

lemma kernel_sema_step_ok: "reg_ok (sw_semas w) \<Longrightarrow> reg_ok (sw_semas (kernel_sema_step p w))"
  using kernel_sema_step_registry [of p w] reg.put_ok reg.remove_ok by fastforce

lemma kernel_sema_step_stale:
  "reg_ok (sw_semas w) \<Longrightarrow> reg.stale h (sw_semas w) \<Longrightarrow> reg.stale h (sw_semas (kernel_sema_step p w))"
  using kernel_sema_step_registry [of p w] reg.put_keeps_stale reg.remove_keeps_stale by fastforce

lemma kernel_sema_run_stale:
  "reg_ok (sw_semas w) \<Longrightarrow> reg_ok (sw_semas (fold kernel_sema_step ps w)) \<and>
   (reg.stale h (sw_semas w) \<longrightarrow> reg.stale h (sw_semas (fold kernel_sema_step ps w)))"
  by (induction ps arbitrary: w) (simp_all add: kernel_sema_step_ok kernel_sema_step_stale)

text \<open>Handles are never reused. After \<open>KernelDeleteSema\<close> accepted a handle, whatever calls follow, the handle
  stays invalid: every call on it returns \<open>ESRCH\<close> and changes nothing, and no creation returns it again.\<close>

theorem kernel_sema_handles:
  assumes w: "w = fold kernel_sema_step before sema_world_init"
    and deleted: "kernel_delete_sema h w = (OK, w')"
    and later: "w'' = fold kernel_sema_step after w'"
  shows "kernel_signal_sema h n w'' = (KERNEL_ERROR_ESRCH, w'') \<and>
    kernel_cancel_sema h n threads w'' = (KERNEL_ERROR_ESRCH, None, w'') \<and>
    kernel_poll_sema h n now1 now2 w'' = (KERNEL_ERROR_ESRCH, w'') \<and>
    kernel_wait_sema_begin h ref tid priority n time now1 now2 w'' = (Returned (KERNEL_ERROR_ESRCH, time), w'') \<and>
    kernel_delete_sema h w'' = (KERNEL_ERROR_ESRCH, w'') \<and>
    fst (snd (kernel_create_sema sem name attr init max' opt w'')) \<noteq> Some h"
proof -
  have ok: "reg_ok (sw_semas w)" unfolding w using kernel_sema_run_stale [of sema_world_init before]
    by (simp add: sema_world_init_def)
  obtain i where i: "reg_acquire h (sw_semas w) = Some i"
    using deleted by (cases "sw_semas w") (auto simp: kernel_delete_sema_def reg_remove_def reg_acquire_def error_codes split: option.splits)
  have "sw_semas w' = snd (reg_remove h (sw_semas w))"
    using deleted by (auto simp: kernel_delete_sema_def error_codes split: option.splits prod.splits)
  then have "reg.stale h (sw_semas w')" and "reg_ok (sw_semas w')"
    using reg.removed_is_stale [OF ok i] reg.remove_ok [OF ok] by simp_all
  then have st: "reg.stale h (sw_semas w'')" and ok'': "reg_ok (sw_semas w'')"
    unfolding later using kernel_sema_run_stale by blast+
  then have none: "reg_acquire h (sw_semas w'') = None" by (simp add: reg.stale_def)
  have "fst (reg_insert i (sw_semas w'')) \<noteq> h" for i using reg.put_not_stale [OF ok'' st] by blast
  moreover have "h \<noteq> 0" using st reg.no_null [OF ok''] unfolding reg.stale_def by (metis)
  ultimately have "fst (snd (kernel_create_sema sem name attr init max' opt w'')) \<noteq> Some h"
    by (cases "reg_insert (length (sw_objects w'')) (sw_semas w'')")
      (simp add: kernel_create_sema_def Let_def split: option.split, metis fst_conv)
  moreover have "kernel_delete_sema h w'' = (KERNEL_ERROR_ESRCH, w'')"
    using none by (simp add: kernel_delete_sema_def reg_remove_def reg_acquire_def)
  ultimately show ?thesis
    using none
    by (simp add: kernel_signal_sema_def kernel_cancel_sema_def kernel_poll_sema_def kernel_wait_sema_begin_def)
qed

lemma kernel_sema_handles_witness:
  "\<exists>w'. kernel_delete_sema 1 (kernel_sema_step (KCreate True (Some ''a'') 1 0 1 False) sema_world_init) = (OK, w') \<and>
     kernel_signal_sema 1 1 (kernel_sema_step (KCreate True (Some ''b'') 1 0 1 False) w') =
       (KERNEL_ERROR_ESRCH, kernel_sema_step (KCreate True (Some ''b'') 1 0 1 False) w')"
proof -
  let ?w = "kernel_sema_step (KCreate True (Some ''a'') 1 0 1 False) sema_world_init"
  have "reg_acquire 1 (sw_semas ?w) = Some 0"
    by (simp add: kernel_create_sema_def reg_insert_def sema_world_init_def reg_empty_def U64_MAX_def reg_acquire_def)
  then obtain w' where d: "kernel_delete_sema 1 ?w = (OK, w')"
    by (simp add: kernel_delete_sema_def reg_remove_def reg_acquire_def)
  from kernel_sema_handles [of ?w "[KCreate True (Some ''a'') 1 0 1 False]" 1 w' _ "[KCreate True (Some ''b'') 1 0 1 False]" 1]
    d show ?thesis by simp
qed

end
