(* ===== verification/Posix_Sem.thy ===== *)
theory Posix_Sem
  imports Wait_Support "HOL-Library.Signed_Division"
begin

text \<open>
  The POSIX semaphores (\<open>PosixSemPrivate\<close>, \<open>sem_*\<close> and \<open>PthreadSem*\<close>, \<open>kernel/semaphore.cpp\<close>). The guest holds a
  16-byte record that the emulator keeps in step with its own object; \<open>g_posix_sems\<close> finds the object by the
  address of the record. Every method runs under the mutex of its object; \<open>Wait\<close> gives it up while it is parked,
  so it is \<open>posix_wait_head\<close>, the loop up to the park, and \<open>posix_wait_pass\<close>, from the return of the condition
  variable to the next park. Objects have an identity of their own because a call keeps a plain pointer to one:
  using it after the object was deleted is undefined, and is \<open>None\<close> here.
\<close>

definition POSIX_SEM_MAGIC :: nat where "POSIX_SEM_MAGIC = 2554"
definition POSIX_SEM_VALUE_MAX :: int where "POSIX_SEM_VALUE_MAX = 2147483647"
definition U32_MAX :: nat where "U32_MAX = 4294967295"

record posix_guest =
  pg_magic :: nat
  pg_nameid :: nat
  pg_has_waiters :: nat
  pg_count :: nat
  pg_flags :: nat

record psem =
  ps_guest :: nat
  ps_count :: int
  ps_waiters :: nat

type_synonym guest_memory = "nat \<Rightarrow> posix_guest"

definition sync_guest :: "nat \<Rightarrow> psem \<Rightarrow> guest_memory \<Rightarrow> guest_memory" where
  "sync_guest flags s m =
     m(ps_guest s := (m (ps_guest s))
         \<lparr>pg_magic := POSIX_SEM_MAGIC, pg_nameid := 0, pg_has_waiters := (if ps_waiters s > 0 then 1 else 0),
          pg_count := nat (ps_count s mod 4294967296),
          pg_flags := (if flags \<noteq> U32_MAX then flags else pg_flags (m (ps_guest s)))\<rparr>)"

text \<open>The head of the loop of \<open>Wait\<close>; the result is \<open>None\<close> when the call parks.\<close>

definition posix_wait_head :: "nat \<Rightarrow> nat option \<Rightarrow> psem \<Rightarrow> guest_memory \<Rightarrow> int option \<times> psem \<times> guest_memory" where
  "posix_wait_head elapsed micros s m =
     (if ps_count s \<le> 0
      then if (case micros of None \<Rightarrow> False | Some t \<Rightarrow> elapsed \<ge> t)
           then (Some POSIX_ETIMEDOUT, s, sync_guest U32_MAX s m)
           else let s = s\<lparr>ps_waiters := ps_waiters s + 1\<rparr> in (None, s, sync_guest U32_MAX s m)
      else let s = s\<lparr>ps_count := ps_count s - 1\<rparr> in (Some OK, s, sync_guest U32_MAX s m))"

definition posix_wait_pass :: "nat \<Rightarrow> nat option \<Rightarrow> psem \<Rightarrow> guest_memory \<Rightarrow> int option \<times> psem \<times> guest_memory" where
  "posix_wait_pass elapsed micros s m = posix_wait_head elapsed micros (s\<lparr>ps_waiters := ps_waiters s - 1\<rparr>) m"

definition posix_try_wait :: "psem \<Rightarrow> guest_memory \<Rightarrow> int \<times> psem \<times> guest_memory" where
  "posix_try_wait s m =
     (if ps_count s \<le> 0 then (POSIX_EAGAIN, s, sync_guest U32_MAX s m)
      else let s = s\<lparr>ps_count := ps_count s - 1\<rparr> in (OK, s, sync_guest U32_MAX s m))"

definition posix_post :: "psem \<Rightarrow> guest_memory \<Rightarrow> int \<times> psem \<times> guest_memory" where
  "posix_post s m =
     (if ps_count s = POSIX_SEM_VALUE_MAX then (POSIX_EOVERFLOW, s, m)
      else let s = s\<lparr>ps_count := ps_count s + 1\<rparr> in (OK, s, sync_guest U32_MAX s m))"

section \<open>All semaphores\<close>

record posix_world =
  pw_sems :: "nat \<rightharpoonup> nat"
  pw_objects :: "nat \<rightharpoonup> psem"
  pw_next :: nat
  pw_memory :: guest_memory

definition posix_to_kernel :: "int \<Rightarrow> int" where
  "posix_to_kernel e = (if e \<ge> 0 \<and> e \<le> 102 then e - 2147352576 else KERNEL_ERROR_EINVAL)"

text \<open>A null pointer is the address 0.\<close>

definition get_sem :: "nat \<Rightarrow> posix_world \<Rightarrow> nat option" where
  "get_sem sem w = (if sem = 0 then None else pw_sems w sem)"

definition sem_init_impl :: "nat \<Rightarrow> int \<Rightarrow> nat \<Rightarrow> posix_world \<Rightarrow> int \<times> posix_world" where
  "sem_init_impl sem pshared value w =
     (if sem = 0 \<or> int value > POSIX_SEM_VALUE_MAX then (POSIX_EINVAL, w)
      else
        let s = \<lparr>ps_guest = sem, ps_count = int value, ps_waiters = 0\<rparr>
        in (OK, w\<lparr>pw_next := pw_next w + 1,
                  pw_memory := sync_guest (nat (pshared mod 4294967296)) s (pw_memory w),
                  pw_objects := ((case pw_sems w sem of None \<Rightarrow> pw_objects w | Some old \<Rightarrow> (pw_objects w)(old := None)))
                     (pw_next w \<mapsto> s),
                  pw_sems := (pw_sems w)(sem \<mapsto> pw_next w)\<rparr>))"

definition sem_destroy_impl :: "nat \<Rightarrow> posix_world \<Rightarrow> int \<times> posix_world" where
  "sem_destroy_impl sem w =
     (if sem = 0 then (POSIX_EINVAL, w)
      else case pw_sems w sem of
          None \<Rightarrow> (POSIX_EINVAL, w)
        | Some i \<Rightarrow>
            (OK, w\<lparr>pw_sems := (pw_sems w)(sem := None), pw_objects := (pw_objects w)(i := None),
                   pw_memory := (pw_memory w)(sem := (pw_memory w sem)
                      \<lparr>pg_magic := 0, pg_has_waiters := 0, pg_count := 0, pg_flags := 0\<rparr>)\<rparr>))"

text \<open>Runs a method of the object \<open>i\<close>; \<open>None\<close> when the object is gone.\<close>

definition on_object :: "(psem \<Rightarrow> guest_memory \<Rightarrow> 'r \<times> psem \<times> guest_memory) \<Rightarrow> nat \<Rightarrow> posix_world \<Rightarrow> ('r \<times> posix_world) option" where
  "on_object f i w =
     (case pw_objects w i of
        None \<Rightarrow> None
      | Some s \<Rightarrow> (case f s (pw_memory w) of
          (r, s', m) \<Rightarrow> Some (r, w\<lparr>pw_objects := (pw_objects w)(i \<mapsto> s'), pw_memory := m\<rparr>)))"

text \<open>\<open>SemTimedwaitImpl\<close> up to its first park; the second component is the object of a parked call.\<close>

definition sem_timedwait_impl :: "nat \<Rightarrow> nat option \<Rightarrow> posix_world \<Rightarrow> ((int option \<times> nat) \<times> posix_world) option" where
  "sem_timedwait_impl sem micros w =
     (case get_sem sem w of
        None \<Rightarrow> Some ((Some POSIX_EINVAL, 0), w)
      | Some i \<Rightarrow> map_option (\<lambda>(r, w'). ((r, i), w')) (on_object (posix_wait_head 0 micros) i w))"

text \<open>
  \<open>AbsTimespecToMicros\<close>: \<open>abstime\<close> is seconds and nanoseconds, \<open>now\<close> what \<open>KernelClockGettime\<close> reports, \<open>None\<close> its
  failure. The subtraction and the product are assumed not to overflow 64 bits.
\<close>

definition abs_timespec_to_micros :: "(int \<times> int) option \<Rightarrow> (int \<times> int) option \<Rightarrow> nat option" where
  "abs_timespec_to_micros abstime now =
     (case abstime of
        None \<Rightarrow> None
      | Some (sec, nsec) \<Rightarrow>
          if sec < 0 \<or> nsec < 0 \<or> nsec \<ge> 1000000000 then None
          else case now of
              None \<Rightarrow> None
            | Some (now_sec, now_nsec) \<Rightarrow>
                let usec_delta = (sec - now_sec) * 1000000 + (nsec - now_nsec) sdiv 1000
                in Some (if usec_delta \<le> 0 then 0 else if usec_delta > int U32_MAX then U32_MAX else nat usec_delta))"

section \<open>The calls of the guest\<close>

text \<open>\<open>SetErrnoReturn\<close>: the value returned and the \<open>errno\<close> stored, if one is.\<close>

definition errno_return :: "int \<Rightarrow> int \<times> int option" where
  "errno_return result = (if result = OK then (0, None) else (-1, Some result))"

definition sem_init :: "nat \<Rightarrow> int \<Rightarrow> nat \<Rightarrow> posix_world \<Rightarrow> (int \<times> int option) \<times> posix_world" where
  "sem_init sem pshared value w = (case sem_init_impl sem pshared value w of (r, w') \<Rightarrow> (errno_return r, w'))"

definition sem_destroy :: "nat \<Rightarrow> posix_world \<Rightarrow> (int \<times> int option) \<times> posix_world" where
  "sem_destroy sem w = (case sem_destroy_impl sem w of (r, w') \<Rightarrow> (errno_return r, w'))"

definition sem_wait :: "nat \<Rightarrow> posix_world \<Rightarrow> (((int \<times> int option) option \<times> nat) \<times> posix_world) option" where
  "sem_wait sem w = map_option (\<lambda>((r, i), w'). ((map_option errno_return r, i), w')) (sem_timedwait_impl sem None w)"

definition sem_trywait :: "nat \<Rightarrow> posix_world \<Rightarrow> ((int \<times> int option) \<times> posix_world) option" where
  "sem_trywait sem w =
     (case get_sem sem w of
        None \<Rightarrow> Some (errno_return POSIX_EINVAL, w)
      | Some i \<Rightarrow> map_option (\<lambda>(r, w'). (errno_return r, w')) (on_object posix_try_wait i w))"

definition sem_reltimedwait_np :: "nat \<Rightarrow> nat \<Rightarrow> posix_world \<Rightarrow> (((int \<times> int option) option \<times> nat) \<times> posix_world) option" where
  "sem_reltimedwait_np sem usec w =
     map_option (\<lambda>((r, i), w'). ((map_option errno_return r, i), w')) (sem_timedwait_impl sem (Some usec) w)"

definition sem_timedwait ::
  "nat \<Rightarrow> (int \<times> int) option \<Rightarrow> (int \<times> int) option \<Rightarrow> posix_world \<Rightarrow> (((int \<times> int option) option \<times> nat) \<times> posix_world) option" where
  "sem_timedwait sem abstime now w =
     (case abs_timespec_to_micros abstime now of
        None \<Rightarrow> Some ((Some (errno_return POSIX_EINVAL), 0), w)
      | Some micros \<Rightarrow>
          map_option (\<lambda>((r, i), w'). ((map_option errno_return r, i), w')) (sem_timedwait_impl sem (Some micros) w))"

definition sem_post :: "nat \<Rightarrow> posix_world \<Rightarrow> ((int \<times> int option) \<times> posix_world) option" where
  "sem_post sem w =
     (case get_sem sem w of
        None \<Rightarrow> Some (errno_return POSIX_EINVAL, w)
      | Some i \<Rightarrow> map_option (\<lambda>(r, w'). (errno_return r, w')) (on_object posix_post i w))"

text \<open>The value read, when the call stores one; \<open>value\<close> tells whether the pointer is not null.\<close>

definition sem_getvalue :: "nat \<Rightarrow> bool \<Rightarrow> posix_world \<Rightarrow> (int \<times> int option) \<times> int option" where
  "sem_getvalue sem value w =
     (case get_sem sem w of
        None \<Rightarrow> (errno_return POSIX_EINVAL, None)
      | Some i \<Rightarrow> if \<not> value then (errno_return POSIX_EINVAL, None)
                  else ((0, None), map_option ps_count (pw_objects w i)))"

definition kernel_return :: "int \<Rightarrow> int" where
  "kernel_return result = (if result = OK then OK else posix_to_kernel result)"

definition pthread_sem_init :: "nat \<Rightarrow> int \<Rightarrow> nat \<Rightarrow> posix_world \<Rightarrow> int \<times> posix_world" where
  "pthread_sem_init sem flag value w =
     (if flag \<noteq> 0 then (KERNEL_ERROR_EINVAL, w)
      else case sem_init_impl sem 0 value w of (r, w') \<Rightarrow> (kernel_return r, w'))"

definition pthread_sem_destroy :: "nat \<Rightarrow> posix_world \<Rightarrow> int \<times> posix_world" where
  "pthread_sem_destroy sem w = (case sem_destroy_impl sem w of (r, w') \<Rightarrow> (kernel_return r, w'))"

definition pthread_sem_wait :: "nat \<Rightarrow> posix_world \<Rightarrow> ((int option \<times> nat) \<times> posix_world) option" where
  "pthread_sem_wait sem w = map_option (\<lambda>((r, i), w'). ((map_option kernel_return r, i), w')) (sem_timedwait_impl sem None w)"

definition pthread_sem_trywait :: "nat \<Rightarrow> posix_world \<Rightarrow> (int \<times> posix_world) option" where
  "pthread_sem_trywait sem w =
     (case get_sem sem w of
        None \<Rightarrow> Some (KERNEL_ERROR_EINVAL, w)
      | Some i \<Rightarrow> map_option (\<lambda>(r, w'). (kernel_return r, w')) (on_object posix_try_wait i w))"

definition pthread_sem_timedwait :: "nat \<Rightarrow> nat \<Rightarrow> posix_world \<Rightarrow> ((int option \<times> nat) \<times> posix_world) option" where
  "pthread_sem_timedwait sem usec w =
     map_option (\<lambda>((r, i), w'). ((map_option kernel_return r, i), w')) (sem_timedwait_impl sem (Some usec) w)"

definition pthread_sem_post :: "nat \<Rightarrow> posix_world \<Rightarrow> (int \<times> posix_world) option" where
  "pthread_sem_post sem w =
     (case get_sem sem w of
        None \<Rightarrow> Some (KERNEL_ERROR_EINVAL, w)
      | Some i \<Rightarrow> map_option (\<lambda>(r, w'). (kernel_return r, w')) (on_object posix_post i w))"

definition pthread_sem_getvalue :: "nat \<Rightarrow> bool \<Rightarrow> posix_world \<Rightarrow> int \<times> int option" where
  "pthread_sem_getvalue sem value w =
     (case get_sem sem w of
        None \<Rightarrow> (KERNEL_ERROR_EINVAL, None)
      | Some i \<Rightarrow> if \<not> value then (KERNEL_ERROR_EINVAL, None) else (OK, map_option ps_count (pw_objects w i)))"

section \<open>Histories\<close>

text \<open>
  \<open>PWait\<close> enters a wait as the call \<open>c\<close>, \<open>PPass\<close> runs the next pass of the parked call \<open>c\<close>. The history keeps for
  every parked call its object and its timeout.
\<close>

datatype posix_op = PInit nat int nat | PDestroy nat | PWait nat nat "nat option" | PPass nat nat | PTry nat | PPost nat

record posix_sys =
  px_world :: posix_world
  px_parked :: "nat \<rightharpoonup> nat \<times> nat option"

definition posix_sys_init :: "guest_memory \<Rightarrow> posix_sys" where
  "posix_sys_init m =
     \<lparr>px_world = \<lparr>pw_sems = Map.empty, pw_objects = Map.empty, pw_next = 0, pw_memory = m\<rparr>, px_parked = Map.empty\<rparr>"

fun posix_step :: "posix_op \<Rightarrow> posix_sys \<Rightarrow> posix_sys option" where
  "posix_step (PInit sem pshared value) y = Some (y\<lparr>px_world := snd (sem_init_impl sem pshared value (px_world y))\<rparr>)"
| "posix_step (PDestroy sem) y = Some (y\<lparr>px_world := snd (sem_destroy_impl sem (px_world y))\<rparr>)"
| "posix_step (PWait c sem micros) y =
     (if px_parked y c \<noteq> None then Some y
      else case sem_timedwait_impl sem micros (px_world y) of
          None \<Rightarrow> None
        | Some ((Some r, i), w) \<Rightarrow> Some (y\<lparr>px_world := w\<rparr>)
        | Some ((None, i), w) \<Rightarrow> Some (y\<lparr>px_world := w, px_parked := (px_parked y)(c \<mapsto> (i, micros))\<rparr>))"
| "posix_step (PPass c elapsed) y =
     (case px_parked y c of
        None \<Rightarrow> Some y
      | Some (i, micros) \<Rightarrow>
          (case on_object (posix_wait_pass elapsed micros) i (px_world y) of
             None \<Rightarrow> None
           | Some (Some r, w) \<Rightarrow> Some (y\<lparr>px_world := w, px_parked := (px_parked y)(c := None)\<rparr>)
           | Some (None, w) \<Rightarrow> Some (y\<lparr>px_world := w\<rparr>)))"
| "posix_step (PTry sem) y = map_option (\<lambda>(r, w). y\<lparr>px_world := w\<rparr>) (sem_trywait sem (px_world y))"
| "posix_step (PPost sem) y = map_option (\<lambda>(r, w). y\<lparr>px_world := w\<rparr>) (sem_post sem (px_world y))"

fun posix_run :: "posix_op list \<Rightarrow> posix_sys \<Rightarrow> posix_sys option" where
  "posix_run [] y = Some y"
| "posix_run (p # ps) y = (case posix_step p y of None \<Rightarrow> None | Some y' \<Rightarrow> posix_run ps y')"

end
