(* ===== verification/Posix_Sem_Facts.thy ===== *)
theory Posix_Sem_Facts
  imports Posix_Sem
begin

text \<open>
  The guest's record of a POSIX semaphore always shows the state of the emulator's object, over every history of
  calls in which no call uses an object that was deleted under it.
\<close>

definition mirrors :: "psem \<Rightarrow> posix_guest \<Rightarrow> bool" where
  "mirrors s g \<longleftrightarrow> pg_magic g = POSIX_SEM_MAGIC \<and> pg_nameid g = 0 \<and> int (pg_count g) = ps_count s \<and>
     pg_has_waiters g = (if ps_waiters s > 0 then 1 else 0)"

definition parked_on :: "(nat \<rightharpoonup> nat \<times> nat option) \<Rightarrow> nat \<Rightarrow> nat set" where
  "parked_on p i = {c. \<exists>t. p c = Some (i, t)}"

definition count_ok :: "psem \<Rightarrow> bool" where
  "count_ok s \<longleftrightarrow> 0 \<le> ps_count s \<and> ps_count s \<le> POSIX_SEM_VALUE_MAX"

definition posix_ok :: "posix_world \<Rightarrow> (nat \<rightharpoonup> nat \<times> nat option) \<Rightarrow> bool" where
  "posix_ok w p \<longleftrightarrow>
     (\<forall>a i. pw_sems w a = Some i \<longrightarrow> (\<exists>s. pw_objects w i = Some s \<and> ps_guest s = a)) \<and>
     (\<forall>i s. pw_objects w i = Some s \<longrightarrow> i < pw_next w \<and> pw_sems w (ps_guest s) = Some i \<and> count_ok s \<and>
        mirrors s (pw_memory w (ps_guest s)) \<and> ps_waiters s = card (parked_on p i)) \<and>
     finite (dom p) \<and> (\<forall>c i t. p c = Some (i, t) \<longrightarrow> i < pw_next w)"

lemma posix_ok_object:
  "posix_ok w p \<Longrightarrow> pw_objects w i = Some s \<Longrightarrow> i < pw_next w \<and> pw_sems w (ps_guest s) = Some i \<and> count_ok s \<and>
     mirrors s (pw_memory w (ps_guest s)) \<and> ps_waiters s = card (parked_on p i)"
  by (simp add: posix_ok_def)

lemma posix_ok_sem: "posix_ok w p \<Longrightarrow> pw_sems w a = Some i \<Longrightarrow> \<exists>s. pw_objects w i = Some s \<and> ps_guest s = a"
  by (simp add: posix_ok_def)

lemma posix_ok_parked: "posix_ok w p \<Longrightarrow> p c = Some (i, t) \<Longrightarrow> i < pw_next w"
  unfolding posix_ok_def by blast

lemma sync_mirrors: "count_ok s \<Longrightarrow> mirrors s (sync_guest f s m (ps_guest s))"
  by (simp add: mirrors_def sync_guest_def count_ok_def POSIX_SEM_VALUE_MAX_def)

lemma sync_elsewhere: "a \<noteq> ps_guest s \<Longrightarrow> sync_guest f s m a = m a"
  by (simp add: sync_guest_def)

text \<open>What a method does that counts its own calls right.\<close>

definition method_ok :: "psem \<Rightarrow> guest_memory \<Rightarrow> psem \<Rightarrow> guest_memory \<Rightarrow> bool" where
  "method_ok s m s' m' \<longleftrightarrow> ps_guest s' = ps_guest s \<and> count_ok s' \<and> mirrors s' (m' (ps_guest s)) \<and>
     (\<forall>a. a \<noteq> ps_guest s \<longrightarrow> m' a = m a)"

lemma synced_method: "ps_guest s' = ps_guest s \<Longrightarrow> count_ok s' \<Longrightarrow> method_ok s m s' (sync_guest U32_MAX s' m)"
  using sync_mirrors [of s' U32_MAX m] by (simp add: method_ok_def sync_elsewhere)

lemma wait_head_ok:
  assumes "count_ok s" and "posix_wait_head elapsed micros s m = (r, s', m')"
  shows "method_ok s m s' m' \<and> ps_waiters s' = ps_waiters s + (if r = None then 1 else 0)"
proof -
  have a: "method_ok s m s (sync_guest U32_MAX s m)" using assms(1) by (intro synced_method) simp_all
  have b: "method_ok s m (s\<lparr>ps_waiters := n\<rparr>) (sync_guest U32_MAX (s\<lparr>ps_waiters := n\<rparr>) m)" for n
    using assms(1) by (intro synced_method) (simp_all add: count_ok_def)
  have c: "method_ok s m (s\<lparr>ps_count := ps_count s - 1\<rparr>) (sync_guest U32_MAX (s\<lparr>ps_count := ps_count s - 1\<rparr>) m)"
    if "\<not> ps_count s \<le> 0" using assms(1) that by (intro synced_method) (simp_all add: count_ok_def)
  show ?thesis using assms(2) a b c by (auto simp: posix_wait_head_def Let_def split: if_splits)
qed

lemma wait_pass_ok:
  assumes "count_ok s" and "posix_wait_pass elapsed micros s m = (r, s', m')"
  shows "method_ok s m s' m' \<and> ps_waiters s' = ps_waiters s - 1 + (if r = None then 1 else 0)"
  using wait_head_ok [of "s\<lparr>ps_waiters := ps_waiters s - 1\<rparr>" elapsed micros m r s' m'] assms
  by (auto simp: posix_wait_pass_def method_ok_def count_ok_def)

lemma try_wait_ok:
  assumes "count_ok s" and "posix_try_wait s m = (r, s', m')"
  shows "method_ok s m s' m' \<and> ps_waiters s' = ps_waiters s"
proof -
  have a: "method_ok s m s (sync_guest U32_MAX s m)" using assms(1) by (intro synced_method) simp_all
  have c: "method_ok s m (s\<lparr>ps_count := ps_count s - 1\<rparr>) (sync_guest U32_MAX (s\<lparr>ps_count := ps_count s - 1\<rparr>) m)"
    if "\<not> ps_count s \<le> 0" using assms(1) that by (intro synced_method) (simp_all add: count_ok_def)
  show ?thesis using assms(2) a c by (auto simp: posix_try_wait_def Let_def split: if_splits)
qed

lemma post_ok:
  assumes "count_ok s" and "mirrors s (m (ps_guest s))" and "posix_post s m = (r, s', m')"
  shows "method_ok s m s' m' \<and> ps_waiters s' = ps_waiters s"
proof -
  have c: "method_ok s m (s\<lparr>ps_count := ps_count s + 1\<rparr>) (sync_guest U32_MAX (s\<lparr>ps_count := ps_count s + 1\<rparr>) m)"
    if "ps_count s \<noteq> POSIX_SEM_VALUE_MAX" using assms(1) that by (intro synced_method) (simp_all add: count_ok_def)
  show ?thesis using assms c by (auto simp: posix_post_def Let_def method_ok_def split: if_splits)
qed

lemma on_object_ok:
  assumes ok: "posix_ok w p" and obj: "pw_objects w i = Some s" and f: "f s (pw_memory w) = (r, s', m')"
    and meth: "method_ok s (pw_memory w) s' m'" and waiters: "ps_waiters s' = card (parked_on p' i)"
    and others: "\<And>j. j \<noteq> i \<Longrightarrow> parked_on p' j = parked_on p j"
    and fin: "finite (dom p')" and bound: "\<forall>c j t. p' c = Some (j, t) \<longrightarrow> j < pw_next w"
  shows "on_object f i w = Some (r, w\<lparr>pw_objects := (pw_objects w)(i \<mapsto> s'), pw_memory := m'\<rparr>) \<and>
    posix_ok (w\<lparr>pw_objects := (pw_objects w)(i \<mapsto> s'), pw_memory := m'\<rparr>) p'"
proof -
  have g: "ps_guest s' = ps_guest s" using meth by (simp add: method_ok_def)
  have apart: "ps_guest t \<noteq> ps_guest s" if "pw_objects w j = Some t" "j \<noteq> i" for j t
    using ok obj that unfolding posix_ok_def by (metis option.inject)
  have m: "m' (ps_guest t) = pw_memory w (ps_guest t)" if "pw_objects w j = Some t" "j \<noteq> i" for j t
    using apart [OF that] meth by (simp add: method_ok_def)
  have sems: "\<exists>t. ((pw_objects w)(i \<mapsto> s')) j = Some t \<and> ps_guest t = a" if "pw_sems w a = Some j" for a j
    using ok that obj g unfolding posix_ok_def by (cases "j = i") fastforce+
  have objs: "j < pw_next w \<and> pw_sems w (ps_guest t) = Some j \<and> count_ok t \<and> mirrors t (m' (ps_guest t)) \<and>
      ps_waiters t = card (parked_on p' j)" if "((pw_objects w)(i \<mapsto> s')) j = Some t" for j t
  proof (cases "j = i")
    case True
    then have "t = s'" using that by simp
    then show ?thesis using True ok obj meth waiters g by (simp add: posix_ok_def method_ok_def)
  next
    case False
    then have "pw_objects w j = Some t" using that by simp
    then show ?thesis using False ok m others by (simp add: posix_ok_def)
  qed
  show ?thesis using obj f sems objs fin bound by (simp add: on_object_def posix_ok_def)
qed

lemma init_ok:
  assumes ok: "posix_ok w p"
  shows "posix_ok (snd (sem_init_impl sem pshared value w)) p"
proof (cases "sem = 0 \<or> int value > POSIX_SEM_VALUE_MAX")
  case True
  then show ?thesis using ok by (simp add: sem_init_impl_def)
next
  case False
  let ?s = "\<lparr>ps_guest = sem, ps_count = int value, ps_waiters = 0\<rparr>"
  let ?objs = "case pw_sems w sem of None \<Rightarrow> pw_objects w | Some old \<Rightarrow> (pw_objects w)(old := None)"
  have w': "snd (sem_init_impl sem pshared value w) = w\<lparr>pw_next := pw_next w + 1,
      pw_memory := sync_guest (nat (pshared mod 4294967296)) ?s (pw_memory w),
      pw_objects := ?objs(pw_next w \<mapsto> ?s), pw_sems := (pw_sems w)(sem \<mapsto> pw_next w)\<rparr>"
    using False by (simp add: sem_init_impl_def Let_def cong: option.case_cong)
  have cs: "count_ok ?s" using False by (simp add: count_ok_def)
  have mir: "mirrors ?s (sync_guest f ?s (pw_memory w) sem)" for f using sync_mirrors [OF cs, of f "pw_memory w"] by simp
  have none: "parked_on p (pw_next w) = {}" by (auto simp: parked_on_def dest: posix_ok_parked [OF ok])
  have old: "pw_objects w j = Some t \<and> ps_guest t \<noteq> sem" if "?objs j = Some t" for j t
  proof -
    have t: "pw_objects w j = Some t" and no: "pw_sems w sem \<noteq> Some j"
      using that by (auto split: option.splits if_splits)
    have "pw_sems w (ps_guest t) = Some j" using posix_ok_object [OF ok t] by blast
    then show ?thesis using t no by auto
  qed
  have keep: "\<exists>t. ?objs j = Some t \<and> ps_guest t = a" if "pw_sems w a = Some j" "a \<noteq> sem" for a j
  proof -
    obtain t where t: "pw_objects w j = Some t" "ps_guest t = a" using ok \<open>pw_sems w a = Some j\<close> unfolding posix_ok_def by blast
    have "pw_sems w sem \<noteq> Some j" using ok t that(2) unfolding posix_ok_def by (metis option.inject)
    then show ?thesis using t by (auto split: option.split)
  qed
  define w1 where "w1 = snd (sem_init_impl sem pshared value w)"
  have f: "pw_next w1 = pw_next w + 1" "pw_memory w1 = sync_guest (nat (pshared mod 4294967296)) ?s (pw_memory w)"
    "pw_objects w1 = ?objs(pw_next w \<mapsto> ?s)" "pw_sems w1 = (pw_sems w)(sem \<mapsto> pw_next w)"
    unfolding w1_def w' by simp_all
  have sems: "\<exists>t. pw_objects w1 j = Some t \<and> ps_guest t = a" if "pw_sems w1 a = Some j" for a j
  proof (cases "a = sem")
    case True
    then show ?thesis using that by (simp add: f)
  next
    case False
    then have "pw_sems w a = Some j" using that by (simp add: f)
    then obtain t where t: "?objs j = Some t" "ps_guest t = a" using keep False by blast
    then have "j \<noteq> pw_next w" using posix_ok_object [OF ok] old [of j t] by blast
    then show ?thesis using t by (simp add: f)
  qed
  have objs: "j < pw_next w1 \<and> pw_sems w1 (ps_guest t) = Some j \<and> count_ok t \<and> mirrors t (pw_memory w1 (ps_guest t)) \<and>
      ps_waiters t = card (parked_on p j)" if "pw_objects w1 j = Some t" for j t
  proof (cases "j = pw_next w")
    case True
    then have "t = ?s" using that by (simp add: f)
    then show ?thesis using True cs mir none by (simp add: f)
  next
    case False
    then have "?objs j = Some t" using that by (simp add: f)
    with old have t: "pw_objects w j = Some t" "ps_guest t \<noteq> sem" by blast+
    then show ?thesis using posix_ok_object [OF ok t(1)] by (simp add: f sync_elsewhere)
  qed
  have "finite (dom p) \<and> (\<forall>c i t. p c = Some (i, t) \<longrightarrow> i < pw_next w1)"
    using ok unfolding posix_ok_def f by (simp add: less_SucI)
  then show ?thesis using sems objs unfolding posix_ok_def w1_def [symmetric] by blast
qed

lemma destroy_ok:
  assumes ok: "posix_ok w p"
  shows "posix_ok (snd (sem_destroy_impl sem w)) p"
proof (cases "sem = 0 \<or> pw_sems w sem = None")
  case True
  then show ?thesis using ok by (auto simp: sem_destroy_impl_def)
next
  case False
  then obtain i where i: "pw_sems w sem = Some i" "sem \<noteq> 0" by auto
  define w1 where "w1 = snd (sem_destroy_impl sem w)"
  have f: "pw_next w1 = pw_next w" "pw_sems w1 = (pw_sems w)(sem := None)" "pw_objects w1 = (pw_objects w)(i := None)"
    "\<And>a. a \<noteq> sem \<Longrightarrow> pw_memory w1 a = pw_memory w a"
    unfolding w1_def using i by (simp_all add: sem_destroy_impl_def)
  have sems: "\<exists>t. pw_objects w1 j = Some t \<and> ps_guest t = a" if "pw_sems w1 a = Some j" for a j
  proof -
    have a: "pw_sems w a = Some j" "a \<noteq> sem" using that by (simp_all add: f split: if_splits)
    then obtain t where t: "pw_objects w j = Some t" "ps_guest t = a" using posix_ok_sem [OF ok] by blast
    moreover have "j \<noteq> i" using posix_ok_sem [OF ok i(1)] t a(2) by auto
    ultimately show ?thesis by (simp add: f)
  qed
  have objs: "j < pw_next w1 \<and> pw_sems w1 (ps_guest t) = Some j \<and> count_ok t \<and> mirrors t (pw_memory w1 (ps_guest t)) \<and>
      ps_waiters t = card (parked_on p j)" if "pw_objects w1 j = Some t" for j t
  proof -
    have t: "pw_objects w j = Some t" "j \<noteq> i" using that by (simp_all add: f split: if_splits)
    note o = posix_ok_object [OF ok t(1)]
    then have "ps_guest t \<noteq> sem" using i(1) t(2) by auto
    then show ?thesis using o by (simp add: f)
  qed
  have "finite (dom p) \<and> (\<forall>c i t. p c = Some (i, t) \<longrightarrow> i < pw_next w1)"
    using ok unfolding posix_ok_def f by simp
  then show ?thesis using sems objs unfolding posix_ok_def w1_def [symmetric] by blast
qed

lemma get_sem_object: "posix_ok w p \<Longrightarrow> get_sem sem w = Some i \<Longrightarrow> \<exists>s. pw_objects w i = Some s"
  using posix_ok_sem by (fastforce simp: get_sem_def split: if_splits)

text \<open>A method that parks or unparks nobody.\<close>

lemma plain_method:
  assumes ok: "posix_ok w p"
    and f: "\<And>s r s' m'. count_ok s \<Longrightarrow> mirrors s (pw_memory w (ps_guest s)) \<Longrightarrow> f s (pw_memory w) = (r, s', m') \<Longrightarrow>
      method_ok s (pw_memory w) s' m' \<and> ps_waiters s' = ps_waiters s"
    and i: "on_object f i w = Some (r, w')"
  shows "posix_ok w' p"
proof -
  obtain s where s: "pw_objects w i = Some s" using i by (auto simp: on_object_def split: option.splits)
  note o = posix_ok_object [OF ok s]
  obtain r' s' m' where e: "f s (pw_memory w) = (r', s', m')" by (cases "f s (pw_memory w)")
  have "method_ok s (pw_memory w) s' m'" "ps_waiters s' = ps_waiters s" using f [OF _ _ e] o by blast+
  moreover have "finite (dom p)" "\<forall>c j t. p c = Some (j, t) \<longrightarrow> j < pw_next w" using ok unfolding posix_ok_def by blast+
  ultimately have "on_object f i w = Some (r', w\<lparr>pw_objects := (pw_objects w)(i \<mapsto> s'), pw_memory := m'\<rparr>) \<and>
      posix_ok (w\<lparr>pw_objects := (pw_objects w)(i \<mapsto> s'), pw_memory := m'\<rparr>) p"
    using o by (intro on_object_ok [where f = f, OF ok s e]) simp_all
  then show ?thesis using i by simp
qed

lemma parked_on_upd:
  assumes "finite (dom p)" and "p c = None"
  shows "card (parked_on (p(c \<mapsto> (i, t))) i) = card (parked_on p i) + 1" "j \<noteq> i \<Longrightarrow> parked_on (p(c \<mapsto> (i, t))) j = parked_on p j"
proof -
  have "parked_on (p(c \<mapsto> (i, t))) i = insert c (parked_on p i)" by (auto simp: parked_on_def)
  moreover have "finite (parked_on p i)" by (rule finite_subset [OF _ assms(1)]) (auto simp: parked_on_def)
  moreover have "c \<notin> parked_on p i" using assms(2) by (simp add: parked_on_def)
  ultimately show "card (parked_on (p(c \<mapsto> (i, t))) i) = card (parked_on p i) + 1" by simp
  show "j \<noteq> i \<Longrightarrow> parked_on (p(c \<mapsto> (i, t))) j = parked_on p j" using assms(2) by (auto simp: parked_on_def)
qed

lemma parked_on_del:
  assumes "finite (dom p)" and "p c = Some (i, t)"
  shows "card (parked_on (p(c := None)) i) = card (parked_on p i) - 1" "0 < card (parked_on p i)"
    "j \<noteq> i \<Longrightarrow> parked_on (p(c := None)) j = parked_on p j"
proof -
  have "parked_on (p(c := None)) i = parked_on p i - {c}" by (auto simp: parked_on_def)
  moreover have fin: "finite (parked_on p i)" by (rule finite_subset [OF _ assms(1)]) (auto simp: parked_on_def)
  moreover have c: "c \<in> parked_on p i" using assms(2) by (simp add: parked_on_def)
  ultimately show "card (parked_on (p(c := None)) i) = card (parked_on p i) - 1" by simp
  show "0 < card (parked_on p i)" using fin c by (auto simp: card_gt_0_iff)
  show "j \<noteq> i \<Longrightarrow> parked_on (p(c := None)) j = parked_on p j" using assms(2) by (auto simp: parked_on_def)
qed

lemma wait_step_ok:
  assumes ok: "posix_ok w p" and c: "p c = None" and i: "on_object (posix_wait_head elapsed micros) i w = Some (r, w')"
  shows "posix_ok w' (if r = None then p(c \<mapsto> (i, micros)) else p)"
proof -
  let ?p = "if r = None then p(c \<mapsto> (i, micros)) else p"
  obtain s where s: "pw_objects w i = Some s" using i by (auto simp: on_object_def split: option.splits)
  note o = posix_ok_object [OF ok s]
  obtain s' m' where e: "posix_wait_head elapsed micros s (pw_memory w) = (r, s', m')"
    using i s by (auto simp: on_object_def split: prod.splits)
  note h = wait_head_ok [OF _ e]
  have fin: "finite (dom p)" and bound: "\<forall>c j t. p c = Some (j, t) \<longrightarrow> j < pw_next w" using ok unfolding posix_ok_def by blast+
  have "on_object (posix_wait_head elapsed micros) i w = Some (r, w\<lparr>pw_objects := (pw_objects w)(i \<mapsto> s'), pw_memory := m'\<rparr>) \<and>
      posix_ok (w\<lparr>pw_objects := (pw_objects w)(i \<mapsto> s'), pw_memory := m'\<rparr>) ?p"
  proof (rule on_object_ok [where f = "posix_wait_head elapsed micros", OF ok s e])
    show "method_ok s (pw_memory w) s' m'" using h o by blast
    show "ps_waiters s' = card (parked_on ?p i)" using h o parked_on_upd(1) [OF fin c] by simp
    show "parked_on ?p j = parked_on p j" if "j \<noteq> i" for j using parked_on_upd(2) [OF fin c that] by simp
    show "finite (dom ?p)" using fin by simp
    show "\<forall>c j t. ?p c = Some (j, t) \<longrightarrow> j < pw_next w" using bound o by simp
  qed
  then show ?thesis using i by simp
qed

lemma pass_step_ok:
  assumes ok: "posix_ok w p" and c: "p c = Some (i, micros)"
    and i: "on_object (posix_wait_pass elapsed micros) i w = Some (r, w')"
  shows "posix_ok w' (if r = None then p else p(c := None))"
proof -
  let ?p = "if r = None then p else p(c := None)"
  obtain s where s: "pw_objects w i = Some s" using i by (auto simp: on_object_def split: option.splits)
  note o = posix_ok_object [OF ok s]
  obtain s' m' where e: "posix_wait_pass elapsed micros s (pw_memory w) = (r, s', m')"
    using i s by (auto simp: on_object_def split: prod.splits)
  note h = wait_pass_ok [OF _ e]
  have fin: "finite (dom p)" and bound: "\<forall>c j t. p c = Some (j, t) \<longrightarrow> j < pw_next w" using ok unfolding posix_ok_def by blast+
  note d = parked_on_del [OF fin c]
  have "on_object (posix_wait_pass elapsed micros) i w = Some (r, w\<lparr>pw_objects := (pw_objects w)(i \<mapsto> s'), pw_memory := m'\<rparr>) \<and>
      posix_ok (w\<lparr>pw_objects := (pw_objects w)(i \<mapsto> s'), pw_memory := m'\<rparr>) ?p"
  proof (rule on_object_ok [where f = "posix_wait_pass elapsed micros", OF ok s e])
    show "method_ok s (pw_memory w) s' m'" using h o by blast
    show "ps_waiters s' = card (parked_on ?p i)" using h o d(1,2) by simp
    show "parked_on ?p j = parked_on p j" if "j \<noteq> i" for j using d(3) [OF that] by simp
    show "finite (dom ?p)" using fin by simp
    show "\<forall>c j t. ?p c = Some (j, t) \<longrightarrow> j < pw_next w" using bound by simp
  qed
  then show ?thesis using i by simp
qed

lemma posix_step_ok:
  assumes ok: "posix_ok (px_world y) (px_parked y)" and step: "posix_step a y = Some y'"
  shows "posix_ok (px_world y') (px_parked y')"
proof (cases a)
  case (PInit sem pshared n)
  then show ?thesis using step init_ok [OF ok] by auto
next
  case (PDestroy sem)
  then show ?thesis using step destroy_ok [OF ok] by auto
next
  case (PWait c sem micros)
  show ?thesis
  proof (cases "px_parked y c = None \<and> get_sem sem (px_world y) \<noteq> None")
    case False
    then show ?thesis using step PWait ok by (auto simp: sem_timedwait_impl_def split: if_splits)
  next
    case True
    then obtain i where i: "get_sem sem (px_world y) = Some i" by auto
    obtain r w where w: "on_object (posix_wait_head 0 micros) i (px_world y) = Some (r, w)"
      using step PWait True i by (cases "on_object (posix_wait_head 0 micros) i (px_world y)") (auto simp: sem_timedwait_impl_def)
    show ?thesis using wait_step_ok [OF ok conjunct1 [OF True] w] step PWait True i w
      by (cases r) (auto simp: sem_timedwait_impl_def)
  qed
next
  case (PPass c elapsed)
  show ?thesis
  proof (cases "px_parked y c")
    case None
    then show ?thesis using step PPass ok by simp
  next
    case (Some q)
    obtain i micros where q: "q = (i, micros)" by (cases q)
    obtain r w where w: "on_object (posix_wait_pass elapsed micros) i (px_world y) = Some (r, w)"
      using step PPass Some q by (cases "on_object (posix_wait_pass elapsed micros) i (px_world y)") auto
    show ?thesis using pass_step_ok [OF ok Some [unfolded q] w] step PPass Some q w by (cases r) auto
  qed
next
  case (PTry sem)
  show ?thesis
  proof (cases "get_sem sem (px_world y)")
    case None
    then show ?thesis using step PTry ok by (auto simp: sem_trywait_def)
  next
    case (Some i)
    then obtain r w where w: "on_object posix_try_wait i (px_world y) = Some (r, w)" "y' = y\<lparr>px_world := w\<rparr>"
      using step PTry by (auto simp: sem_trywait_def)
    have "posix_ok w (px_parked y)" by (rule plain_method [OF ok _ w(1)]) (rule try_wait_ok)
    then show ?thesis using w(2) by simp
  qed
next
  case (PPost sem)
  show ?thesis
  proof (cases "get_sem sem (px_world y)")
    case None
    then show ?thesis using step PPost ok by (auto simp: sem_post_def)
  next
    case (Some i)
    then obtain r w where w: "on_object posix_post i (px_world y) = Some (r, w)" "y' = y\<lparr>px_world := w\<rparr>"
      using step PPost by (auto simp: sem_post_def)
    have "posix_ok w (px_parked y)" by (rule plain_method [OF ok _ w(1)]) (rule post_ok)
    then show ?thesis using w(2) by simp
  qed
qed

lemma posix_run_ok:
  "posix_ok (px_world y) (px_parked y) \<Longrightarrow> posix_run ops y = Some y' \<Longrightarrow> posix_ok (px_world y') (px_parked y')"
  by (induction ops arbitrary: y) (auto intro: posix_step_ok split: option.splits)

text \<open>C39: The guest's record never disagrees with the emulator: whatever the history, for every live semaphore the
  record at its address shows the magic number, the count, which stays between 0 and \<open>SEM_VALUE_MAX\<close>, and
  whether calls are waiting, which are exactly the calls parked on it; and the table finds the semaphore there.\<close>

theorem posix_sem_mirror:
  assumes "posix_run ops (posix_sys_init m) = Some y" and "pw_objects (px_world y) i = Some s"
  shows "pw_sems (px_world y) (ps_guest s) = Some i \<and>
    0 \<le> ps_count s \<and> ps_count s \<le> POSIX_SEM_VALUE_MAX \<and>
    pg_magic (pw_memory (px_world y) (ps_guest s)) = POSIX_SEM_MAGIC \<and>
    int (pg_count (pw_memory (px_world y) (ps_guest s))) = ps_count s \<and>
    pg_has_waiters (pw_memory (px_world y) (ps_guest s)) = (if {c. \<exists>t. px_parked y c = Some (i, t)} = {} then 0 else 1)"
proof -
  have "posix_ok (px_world (posix_sys_init m)) (px_parked (posix_sys_init m))" by (simp add: posix_ok_def posix_sys_init_def)
  from posix_run_ok [OF this assms(1)] have ok: "posix_ok (px_world y) (px_parked y)" .
  note o = posix_ok_object [OF ok assms(2)]
  have "finite (parked_on (px_parked y) i)"
    by (rule finite_subset [of _ "dom (px_parked y)"]) (use ok in \<open>auto simp: parked_on_def posix_ok_def\<close>)
  then have "card (parked_on (px_parked y) i) = 0 \<longleftrightarrow> parked_on (px_parked y) i = {}" by simp
  then show ?thesis using o by (simp add: mirrors_def count_ok_def parked_on_def [symmetric])
qed

lemma posix_sem_mirror_witness:
  "\<exists>y. posix_run [PInit 64 0 1, PWait 1 64 None, PWait 2 64 (Some 9), PPost 64, PPass 2 3, PWait 3 64 None]
      (posix_sys_init (\<lambda>_. \<lparr>pg_magic = 0, pg_nameid = 0, pg_has_waiters = 0, pg_count = 0, pg_flags = 0\<rparr>)) = Some y \<and>
    pg_has_waiters (pw_memory (px_world y) 64) = 1"
proof -
  let ?m = "\<lambda>_ :: nat. \<lparr>pg_magic = 0, pg_nameid = 0, pg_has_waiters = 0, pg_count = 0, pg_flags = 0\<rparr>"
  let ?ops = "[PInit 64 0 1, PWait 1 64 None, PWait 2 64 (Some 9), PPost 64, PPass 2 3, PWait 3 64 None]"
  obtain y where y: "posix_run ?ops (posix_sys_init ?m) = Some y"
    and o: "pw_objects (px_world y) 0 = Some \<lparr>ps_guest = 64, ps_count = 0, ps_waiters = 1\<rparr>"
    and p: "px_parked y 3 = Some (0, None)"
    by (simp add: posix_sys_init_def sem_init_impl_def sem_timedwait_impl_def on_object_def get_sem_def sem_post_def
        posix_wait_head_def posix_wait_pass_def posix_post_def Let_def POSIX_SEM_VALUE_MAX_def)
  have "{c. \<exists>t. px_parked y c = Some (0, t)} \<noteq> {}" using p by auto
  then show ?thesis using y posix_sem_mirror [OF y o] by simp
qed

end
