(* ===== verification/Pthread_Mutex.thy ===== *)
theory Pthread_Mutex
  imports Wait_Support
begin

text \<open>
  The mutexes of the guest (\<open>PthreadMutex*\<close>, \<open>NativeMutex*\<close> and the \<open>pthread_mutex_*\<close> calls of
  \<open>kernel/pthread.cpp\<close>). A thread is a number. The body of a call runs under the host mutex \<open>m\<close> of the object and gives
  it up while it is parked on \<open>cv\<close>, so a blocking call is \<open>mutex_lock_begin\<close> and, after each return of the condition
  variable, \<open>mutex_lock_head\<close>, the head of its loop; other threads take their steps in between, and so do the signal
  handlers that the loop dispatches. \<open>now\<close> is the host's steady clock in nanoseconds. A guest's mutex variable holds a
  null pointer, the value 1 of a static adaptive mutex, or a pointer to the object, which is its slot here; a call
  given a null pointer has no slot. Where the outer result is an \<open>option\<close>, \<open>None\<close> is the process that stops.
\<close>

section \<open>Result codes\<close>

definition KERNEL_ERROR_EDEADLK :: int where "KERNEL_ERROR_EDEADLK = -2147352565"
definition KERNEL_ERROR_EAGAIN :: int where "KERNEL_ERROR_EAGAIN = -2147352541"

text \<open>The codes of the host that the inner functions return.\<close>

datatype host_result = HOk | HAgain | HDeadlk | HBusy | HPerm | HTimedOut | HInval | HNoMem

definition kernel_to_posix :: "int \<Rightarrow> int" where
  "kernel_to_posix kernel_errno =
     (if kernel_errno > -2147352576 \<and> kernel_errno \<le> -2147352475 then kernel_errno + 2147352576 else 1062)"

definition posix_pthread_call :: "int \<Rightarrow> int" where
  "posix_pthread_call result = (if result \<noteq> OK then kernel_to_posix result else 0)"

section \<open>Attributes\<close>

datatype priority_protocol = PrioNone | PrioInherit | PrioProtect

record mutexattr =
  ma_type :: int
  ma_protocol :: priority_protocol

text \<open>\<open>host\<close> is the result of the host's \<open>pthread_mutexattr_settype\<close>.\<close>

definition mutexattr_settype :: "host_result \<Rightarrow> int \<Rightarrow> mutexattr \<Rightarrow> int \<times> mutexattr" where
  "mutexattr_settype host type a =
     (if type \<notin> {1, 2, 3, 4} then (KERNEL_ERROR_EINVAL, a)
      else if host = HOk then (OK, a\<lparr>ma_type := type\<rparr>)
      else (KERNEL_ERROR_EINVAL, a))"

definition mutexattr_setprotocol :: "int \<Rightarrow> mutexattr \<Rightarrow> (int \<times> mutexattr) option" where
  "mutexattr_setprotocol protocol a =
     (if protocol = 0 then Some (OK, a\<lparr>ma_protocol := PrioNone\<rparr>)
      else if protocol = 1 then Some (OK, a\<lparr>ma_protocol := PrioInherit\<rparr>)
      else if protocol = 2 then Some (OK, a\<lparr>ma_protocol := PrioProtect\<rparr>)
      else None)"

text \<open>The attribute that \<open>PthreadMutexattrInit\<close> makes when the host's initialisation succeeds: zeroed, then type 1 and
  protocol 0.\<close>

definition mutexattr_init :: mutexattr where
  "mutexattr_init = \<lparr>ma_type = 1, ma_protocol = PrioNone\<rparr>"

section \<open>The mutex\<close>

record mutex =
  mx_name :: string
  mx_owner :: "nat option"
  mx_count :: nat
  mx_type :: int
  mx_protocol :: priority_protocol

datatype 'a slot = SNull | SAdaptive | SObject 'a

definition UINT32_MAX :: nat where
  "UINT32_MAX = 4294967295"

text \<open>The longest park, \<open>SIGNAL_APC_POLL_MICROS\<close>, in nanoseconds.\<close>

definition SIGNAL_POLL_NANOS :: nat where
  "SIGNAL_POLL_NANOS = 10000 * 1000"

text \<open>\<open>PthreadMutexInitNamed\<close>: the object made from an attribute.\<close>

definition new_mutex :: "string option \<Rightarrow> mutexattr \<Rightarrow> mutex" where
  "new_mutex name a =
     \<lparr>mx_name = (case name of None \<Rightarrow> [] | Some n \<Rightarrow> n), mx_owner = None, mx_count = 0, mx_type = ma_type a, mx_protocol = ma_protocol a\<rparr>"

text \<open>\<open>da\<close> is the default attribute of the process; \<open>attr\<close> is null or a pointer to one.\<close>

definition pthread_mutex_init :: "mutexattr \<Rightarrow> mutexattr option \<Rightarrow> string option \<Rightarrow> mutex slot option \<Rightarrow> int \<times> mutex slot option" where
  "pthread_mutex_init da attr name sl =
     (case sl of
        None \<Rightarrow> (KERNEL_ERROR_EINVAL, None)
      | Some _ \<Rightarrow> (OK, Some (SObject (new_mutex name (case attr of None \<Rightarrow> da | Some a \<Rightarrow> a)))))"

text \<open>\<open>PthreadStaticObjects::CreateObject\<close> for a mutex: a slot without object gets one, the value 1 an adaptive one.\<close>

definition create_mutex :: "mutexattr \<Rightarrow> string \<Rightarrow> mutex slot \<Rightarrow> mutex" where
  "create_mutex da name sl =
     (case sl of
        SNull \<Rightarrow> new_mutex (Some name) da
      | SAdaptive \<Rightarrow> new_mutex (Some name) \<lparr>ma_type = 4, ma_protocol = PrioNone\<rparr>
      | SObject m \<Rightarrow> m)"

text \<open>How long a lock call waits: as long as it takes, not at all, or until a point of the clock.\<close>

datatype lock_until = Forever | Never | Until nat

definition lock_until :: "nat option \<Rightarrow> nat \<Rightarrow> lock_until" where
  "lock_until timeout_us now =
     (case timeout_us of None \<Rightarrow> Forever | Some t \<Rightarrow> if t = 0 then Never else Until (now + t * 1000))"

text \<open>
  A call is done with a result or parked, for at most the nanoseconds given. \<open>LockSleep\<close> is the wait of a timed
  call whose caller owns the mutex: it returns \<open>ETIMEDOUT\<close> after one park, whatever happens.
\<close>

datatype lock_state = LockDone host_result | LockPark nat | LockSleep nat

definition mutex_lock_head :: "nat \<Rightarrow> lock_until \<Rightarrow> nat \<Rightarrow> mutex \<Rightarrow> lock_state \<times> mutex" where
  "mutex_lock_head self until now m =
     (if mx_owner m = None then (LockDone HOk, m\<lparr>mx_owner := Some self, mx_count := 1\<rparr>)
      else case until of
          Forever \<Rightarrow> (LockPark SIGNAL_POLL_NANOS, m)
        | Never \<Rightarrow> (LockDone HTimedOut, m)
        | Until deadline \<Rightarrow>
            if now \<ge> deadline then (LockDone HTimedOut, m) else (LockPark (min (deadline - now) SIGNAL_POLL_NANOS), m))"

text \<open>\<open>NativeMutexLock\<close> up to its first park: \<open>start\<close> is the reading of the clock that fixes the deadline of a timed call,
  \<open>now\<close> that of the first pass of its loop.\<close>

definition mutex_lock_begin :: "nat \<Rightarrow> nat option \<Rightarrow> nat \<Rightarrow> nat \<Rightarrow> mutex \<Rightarrow> lock_state \<times> mutex" where
  "mutex_lock_begin self timeout_us start now m =
     (if mx_owner m = Some self
      then if mx_type m = 2
           then if mx_count m = UINT32_MAX then (LockDone HAgain, m)
                else (LockDone HOk, m\<lparr>mx_count := mx_count m + 1\<rparr>)
           else case timeout_us of
               Some t \<Rightarrow> (if t > 0 then LockSleep (t * 1000) else LockDone HTimedOut, m)
             | None \<Rightarrow> (LockDone HDeadlk, m)
      else mutex_lock_head self (lock_until timeout_us start) now m)"

definition mutex_trylock :: "nat \<Rightarrow> mutex \<Rightarrow> host_result \<times> mutex" where
  "mutex_trylock self m =
     (if mx_owner m = Some self
      then if mx_type m = 2
           then if mx_count m = UINT32_MAX then (HAgain, m) else (HOk, m\<lparr>mx_count := mx_count m + 1\<rparr>)
           else (HBusy, m)
      else if mx_owner m \<noteq> None then (HBusy, m)
      else (HOk, m\<lparr>mx_owner := Some self, mx_count := 1\<rparr>))"

text \<open>\<open>recurse\<close> tells whether the caller passed a pointer for the recursion count, which is then the second result.\<close>

definition mutex_unlock :: "nat \<Rightarrow> bool \<Rightarrow> mutex \<Rightarrow> host_result \<times> nat \<times> mutex" where
  "mutex_unlock self recurse m =
     (if mx_owner m \<noteq> Some self then (HPerm, 0, m)
      else
        let saved = (if recurse then mx_count m else 0);
            m = (if recurse then m\<lparr>mx_count := 1\<rparr> else m)
        in if mx_type m = 2 \<and> mx_count m > 1 then (HOk, saved, m\<lparr>mx_count := mx_count m - 1\<rparr>)
           else (HOk, saved, m\<lparr>mx_owner := None, mx_count := 0\<rparr>))"

text \<open>The end of \<open>NativeMutexLockRecurse\<close>: the count from before the wait is put back.\<close>

definition mutex_restore :: "nat \<Rightarrow> lock_state \<times> mutex \<Rightarrow> lock_state \<times> mutex" where
  "mutex_restore recurse r =
     (case r of (LockDone HOk, m) \<Rightarrow> (LockDone HOk, m\<lparr>mx_count := max recurse 1\<rparr>) | _ \<Rightarrow> r)"

section \<open>The calls of the guest\<close>

fun lock_code :: "host_result \<Rightarrow> int" where
  "lock_code HOk = OK"
| "lock_code HAgain = KERNEL_ERROR_EAGAIN"
| "lock_code HDeadlk = KERNEL_ERROR_EDEADLK"
| "lock_code _ = KERNEL_ERROR_EINVAL"

fun trylock_code :: "host_result \<Rightarrow> int" where
  "trylock_code HOk = OK"
| "trylock_code HAgain = KERNEL_ERROR_EAGAIN"
| "trylock_code HBusy = KERNEL_ERROR_EBUSY"
| "trylock_code _ = KERNEL_ERROR_EINVAL"

fun timedlock_code :: "host_result \<Rightarrow> int" where
  "timedlock_code HOk = OK"
| "timedlock_code HTimedOut = KERNEL_ERROR_ETIMEDOUT"
| "timedlock_code HAgain = KERNEL_ERROR_EAGAIN"
| "timedlock_code HDeadlk = KERNEL_ERROR_EDEADLK"
| "timedlock_code _ = KERNEL_ERROR_EINVAL"

fun unlock_code :: "host_result \<Rightarrow> int" where
  "unlock_code HOk = OK"
| "unlock_code HPerm = KERNEL_ERROR_EPERM"
| "unlock_code _ = KERNEL_ERROR_EINVAL"

datatype call_state = CallDone int | CallPark nat | CallSleep nat

definition lock_call :: "(host_result \<Rightarrow> int) \<Rightarrow> lock_state \<Rightarrow> call_state" where
  "lock_call code r = (case r of LockDone h \<Rightarrow> CallDone (code h) | LockPark t \<Rightarrow> CallPark t | LockSleep t \<Rightarrow> CallSleep t)"

text \<open>A call on a slot; \<open>name\<close> is the name that a static object gets, made of its address.\<close>

definition on_mutex :: "mutexattr \<Rightarrow> string \<Rightarrow> (mutex \<Rightarrow> call_state \<times> mutex) \<Rightarrow> mutex slot option \<Rightarrow> call_state \<times> mutex slot option" where
  "on_mutex da name f sl =
     (case sl of
        None \<Rightarrow> (CallDone KERNEL_ERROR_EINVAL, None)
      | Some s \<Rightarrow> (case f (create_mutex da name s) of (r, m) \<Rightarrow> (r, Some (SObject m))))"

definition pthread_mutex_lock :: "mutexattr \<Rightarrow> string \<Rightarrow> nat \<Rightarrow> nat \<Rightarrow> mutex slot option \<Rightarrow> call_state \<times> mutex slot option" where
  "pthread_mutex_lock da name self now =
     on_mutex da name (\<lambda>m. case mutex_lock_begin self None now now m of (r, m) \<Rightarrow> (lock_call lock_code r, m))"

definition pthread_mutex_trylock :: "mutexattr \<Rightarrow> string \<Rightarrow> nat \<Rightarrow> mutex slot option \<Rightarrow> call_state \<times> mutex slot option" where
  "pthread_mutex_trylock da name self =
     on_mutex da name (\<lambda>m. case mutex_trylock self m of (r, m) \<Rightarrow> (CallDone (trylock_code r), m))"

definition pthread_mutex_timedlock ::
  "mutexattr \<Rightarrow> string \<Rightarrow> nat \<Rightarrow> nat \<Rightarrow> nat \<Rightarrow> nat \<Rightarrow> mutex slot option \<Rightarrow> call_state \<times> mutex slot option" where
  "pthread_mutex_timedlock da name self usec start now =
     on_mutex da name (\<lambda>m. case mutex_lock_begin self (Some usec) start now m of (r, m) \<Rightarrow> (lock_call timedlock_code r, m))"

definition pthread_mutex_unlock :: "mutexattr \<Rightarrow> string \<Rightarrow> nat \<Rightarrow> mutex slot option \<Rightarrow> call_state \<times> mutex slot option" where
  "pthread_mutex_unlock da name self =
     on_mutex da name (\<lambda>m. case mutex_unlock self False m of (r, _, m) \<Rightarrow> (CallDone (unlock_code r), m))"

text \<open>\<open>PthreadMutexDestroy\<close> reads through the slot; the value 1 is not a pointer to an object.\<close>

definition pthread_mutex_destroy :: "mutex slot option \<Rightarrow> (int \<times> mutex slot option) option" where
  "pthread_mutex_destroy sl =
     (case sl of
        None \<Rightarrow> Some (KERNEL_ERROR_EINVAL, None)
      | Some SNull \<Rightarrow> Some (KERNEL_ERROR_EINVAL, sl)
      | Some SAdaptive \<Rightarrow> None
      | Some (SObject m) \<Rightarrow> if mx_owner m \<noteq> None then Some (KERNEL_ERROR_EBUSY, sl) else Some (OK, Some SNull))"

text \<open>
  The absolute time of \<open>pthread_mutex_timedlock\<close> as the microseconds of the relative call: \<open>None\<close> is an invalid time.
  \<open>abstime\<close> and \<open>clock\<close> hold seconds and nanoseconds; \<open>clock\<close> is \<open>None\<close> when the clock cannot be read. The seconds are
  C \<open>int64_t\<close> values, and the difference of two of them is taken to fit.
\<close>

definition posix_timedlock_usec :: "(int \<times> int) option \<Rightarrow> (int \<times> int) option \<Rightarrow> nat option" where
  "posix_timedlock_usec abstime clock =
     (case abstime of
        None \<Rightarrow> None
      | Some (sec, nsec) \<Rightarrow>
          if sec < 0 \<or> nsec < 0 \<or> nsec \<ge> 1000000000 then None
          else case clock of
              None \<Rightarrow> None
            | Some (now_sec, now_nsec) \<Rightarrow>
                let sec_delta = sec - now_sec; nsec_delta = nsec - now_nsec;
                    (sec_delta, nsec_delta) =
                      (if nsec_delta < 0 then (sec_delta - 1, nsec_delta + 1000000000) else (sec_delta, nsec_delta))
                in if sec_delta > 0 \<or> (sec_delta = 0 \<and> nsec_delta > 0)
                   then let usec = (if nat sec_delta > UINT32_MAX div 1000000 then UINT32_MAX else nat sec_delta * 1000000)
                        in Some (min UINT32_MAX (usec + nat (nsec_delta div 1000)))
                   else Some 0)"

end
