(* ===== verification/Lock_Contract.thy ===== *)
theory Lock_Contract
  imports Main
begin

text \<open>
  What locks of every kind promise: a state says how often each thread holds the lock, and each step of a thread, whatever
  it returned, changes that number for this thread only and by what it reported. Then the number of times a thread holds
  the lock after any interleaving of steps is what its own reported steps add up to.
\<close>

text \<open>A run of steps, each with its event.\<close>

fun steps :: "('s \<Rightarrow> 'e \<Rightarrow> 's \<Rightarrow> bool) \<Rightarrow> 's \<Rightarrow> 'e list \<Rightarrow> 's \<Rightarrow> bool" where
  "steps step s [] s' \<longleftrightarrow> s = s'"
| "steps step s (e # es) s' \<longleftrightarrow> (\<exists>s1. step s e s1 \<and> steps step s1 es s')"

lemma steps_append: "steps step s (es @ es') s' \<longleftrightarrow> (\<exists>s1. steps step s es s1 \<and> steps step s1 es' s')"
  by (induction es arbitrary: s) auto

lemma steps_invariant:
  assumes "\<And>s e s'. I s \<Longrightarrow> step s e s' \<Longrightarrow> I s'" and "steps step s es s'" and "I s"
  shows "I s'"
  using assms(2,3) by (induction es arbitrary: s) (auto intro: assms(1))

text \<open>What the events of one thread add up to.\<close>

definition net :: "('e \<Rightarrow> nat) \<Rightarrow> ('e \<Rightarrow> int) \<Rightarrow> nat \<Rightarrow> 'e list \<Rightarrow> int" where
  "net who change t es = sum_list (map change (filter (\<lambda>e. who e = t) es))"

lemma net_simps [simp]:
  "net who change t [] = 0"
  "net who change t (e # es) = (if who e = t then change e else 0) + net who change t es"
  "net who change t (es @ es') = net who change t es + net who change t es'"
  by (simp_all add: net_def)

locale counted_lock =
  fixes who :: "'e \<Rightarrow> nat"
    and change :: "'e \<Rightarrow> int"
    and held :: "'s \<Rightarrow> nat \<Rightarrow> nat"
    and step :: "'s \<Rightarrow> 'e \<Rightarrow> 's \<Rightarrow> bool"
    and ok :: "'s \<Rightarrow> bool"
  assumes step_ok: "ok s \<Longrightarrow> step s e s' \<Longrightarrow> ok s'"
    and step_held: "ok s \<Longrightarrow> step s e s' \<Longrightarrow> int (held s' t) = int (held s t) + (if who e = t then change e else 0)"
begin

lemma run_ok: "ok s \<Longrightarrow> steps step s es s' \<Longrightarrow> ok s'"
  using steps_invariant [of ok step] step_ok by blast

lemma run_held:
  assumes "ok s" and "steps step s es s'"
  shows "int (held s' t) = int (held s t) + net who change t es"
  using assms
proof (induction es arbitrary: s)
  case (Cons e es)
  then obtain s1 where s1: "step s e s1" "steps step s1 es s'" by auto
  have "ok s1" using step_ok [OF Cons.prems(1) s1(1)] .
  with Cons.IH [OF this s1(2)] step_held [OF Cons.prems(1) s1(1), of t] show ?case by simp
qed simp

lemma never_overreleased: "ok s \<Longrightarrow> steps step s es s' \<Longrightarrow> 0 \<le> int (held s t) + net who change t es"
  using run_held [of s es s' t] by simp

end

end
