(* ===== verification/Pthread_Mutex_Facts.thy ===== *)
theory Pthread_Mutex_Facts
  imports Pthread_Mutex Lock_Contract
begin

text \<open>
  The correctness of the mutexes: one thread at a time under every interleaving of calls, the result of every call, the
  end of every timed wait, and the conversion of absolute times.
\<close>

section \<open>One thread at a time\<close>

definition mutex_held :: "mutex \<Rightarrow> nat \<Rightarrow> nat" where
  "mutex_held m t = (if mx_owner m = Some t then mx_count m else 0)"

definition mutex_ok :: "mutex \<Rightarrow> bool" where
  "mutex_ok m \<longleftrightarrow> (mx_owner m = None \<longleftrightarrow> mx_count m = 0) \<and> mx_count m \<le> UINT32_MAX \<and> (mx_type m \<noteq> 2 \<longrightarrow> mx_count m \<le> 1)"

text \<open>
  The steps of all threads on one mutex, each with the thread and what it reported: 1 for a lock that returned success, -1
  for an unlock that did, 0 for every other result and for a park. A park that ends is a \<open>retry\<close>, at any time and for any
  thread, so handlers that run while a call is parked are covered. \<open>giveup\<close> and \<open>comeback\<close> are the two halves of a wait
  on a condition variable, which releases all levels of the mutex and takes them again.
\<close>

inductive mutex_step :: "mutex \<Rightarrow> nat \<times> int \<Rightarrow> mutex \<Rightarrow> bool" where
  lock: "mutex_lock_begin t u start now m = (r, m') \<Longrightarrow> mutex_step m (t, if r = LockDone HOk then 1 else 0) m'"
| retry: "mutex_lock_head t u now m = (r, m') \<Longrightarrow> mutex_step m (t, if r = LockDone HOk then 1 else 0) m'"
| try_lock: "mutex_trylock t m = (r, m') \<Longrightarrow> mutex_step m (t, if r = HOk then 1 else 0) m'"
| unlock: "mutex_unlock t False m = (r, n, m') \<Longrightarrow> mutex_step m (t, if r = HOk then -1 else 0) m'"
| giveup: "mutex_unlock t True m = (r, n, m') \<Longrightarrow> mutex_step m (t, if r = HOk then - int n else 0) m'"
| comeback: "mx_owner m \<noteq> Some t \<Longrightarrow> n \<le> UINT32_MAX \<Longrightarrow> mx_type m = 2 \<or> n \<le> 1 \<Longrightarrow>
    mutex_restore n (mutex_lock_head t u now m) = (r, m') \<Longrightarrow> mutex_step m (t, if r = LockDone HOk then int (max n 1) else 0) m'"

lemma mutex_lock_head_cases:
  "mutex_lock_head t u now m = (r, m') \<Longrightarrow>
     r = LockDone HOk \<and> mx_owner m = None \<and> m' = m\<lparr>mx_owner := Some t, mx_count := 1\<rparr> \<or>
     r \<noteq> LockDone HOk \<and> mx_owner m \<noteq> None \<and> m' = m"
  by (auto simp: mutex_lock_head_def split: if_splits lock_until.splits)

lemma mutex_lock_begin_cases:
  "mutex_lock_begin t u start now m = (r, m') \<Longrightarrow>
     r = LockDone HOk \<and> mx_owner m = None \<and> m' = m\<lparr>mx_owner := Some t, mx_count := 1\<rparr> \<or>
     r = LockDone HOk \<and> mx_owner m = Some t \<and> mx_type m = 2 \<and> mx_count m \<noteq> UINT32_MAX \<and> m' = m\<lparr>mx_count := mx_count m + 1\<rparr> \<or>
     r \<noteq> LockDone HOk \<and> mx_owner m \<noteq> None \<and> m' = m"
  by (auto simp: mutex_lock_begin_def dest: mutex_lock_head_cases split: if_splits option.splits)

lemma mutex_unlock_cases:
  "mutex_unlock t b m = (r, n, m') \<Longrightarrow>
     r = HPerm \<and> mx_owner m \<noteq> Some t \<and> m' = m \<or>
     r = HOk \<and> mx_owner m = Some t \<and> b \<and> n = mx_count m \<and> m' = m\<lparr>mx_owner := None, mx_count := 0\<rparr> \<or>
     r = HOk \<and> mx_owner m = Some t \<and> \<not> b \<and> mx_type m = 2 \<and> mx_count m > 1 \<and> m' = m\<lparr>mx_count := mx_count m - 1\<rparr> \<or>
     r = HOk \<and> mx_owner m = Some t \<and> \<not> b \<and> \<not> (mx_type m = 2 \<and> mx_count m > 1) \<and> m' = m\<lparr>mx_owner := None, mx_count := 0\<rparr>"
  by (auto simp: mutex_unlock_def Let_def split: if_splits)

lemma mutex_restore_cases:
  "mutex_restore n (mutex_lock_head t u now m) = (r, m') \<Longrightarrow>
     r = LockDone HOk \<and> mx_owner m = None \<and> m' = m\<lparr>mx_owner := Some t, mx_count := max n 1\<rparr> \<or>
     r \<noteq> LockDone HOk \<and> mx_owner m \<noteq> None \<and> m' = m"
  using mutex_lock_head_cases [of t u now m]
  by (cases "mutex_lock_head t u now m")
    (auto simp: mutex_restore_def split: lock_state.splits host_result.splits)

lemma mutex_step_spec:
  assumes "mutex_ok m" and "mutex_step m e m'"
  shows "mutex_ok m' \<and> int (mutex_held m' u) = int (mutex_held m u) + (if fst e = u then snd e else 0)"
  using assms(2,1)
proof (cases rule: mutex_step.cases)
  case (lock t v start now r)
  from mutex_lock_begin_cases [OF lock(2)] assms(1) show ?thesis
    by (auto simp: lock(1) mutex_ok_def mutex_held_def UINT32_MAX_def)
next
  case (retry t v now r)
  from mutex_lock_head_cases [OF retry(2)] assms(1) show ?thesis
    by (auto simp: retry(1) mutex_ok_def mutex_held_def UINT32_MAX_def)
next
  case (try_lock t r)
  with assms(1) show ?thesis
    by (auto simp: mutex_trylock_def mutex_ok_def mutex_held_def UINT32_MAX_def split: if_splits)
next
  case (unlock t r n)
  from mutex_unlock_cases [OF unlock(2)] assms(1) show ?thesis
    by (auto simp: unlock(1) mutex_ok_def mutex_held_def)
next
  case (giveup t r n)
  from mutex_unlock_cases [OF giveup(2)] assms(1) show ?thesis
    by (auto simp: giveup(1) mutex_ok_def mutex_held_def)
next
  case (comeback t n v now r)
  from mutex_restore_cases [OF comeback(5)] assms(1) comeback(2-4) show ?thesis
    by (auto simp: comeback(1) mutex_ok_def mutex_held_def UINT32_MAX_def)
qed

lemma mutex_step_type: "mutex_step m e m' \<Longrightarrow> mx_type m' = mx_type m"
  by (cases rule: mutex_step.cases)
    (auto simp: mutex_trylock_def split: if_splits
      dest: mutex_lock_begin_cases mutex_lock_head_cases mutex_unlock_cases mutex_restore_cases)

text \<open>No step makes another thread the owner.\<close>

lemma mutex_step_owner: "mutex_step m e m' \<Longrightarrow> mx_owner m' = Some t \<Longrightarrow> fst e = t \<or> mx_owner m = Some t"
  by (cases rule: mutex_step.cases)
    (auto simp: mutex_trylock_def split: if_splits
      dest: mutex_lock_begin_cases mutex_lock_head_cases mutex_unlock_cases mutex_restore_cases)

interpretation mx: counted_lock fst snd mutex_held mutex_step mutex_ok
  by unfold_locales (use mutex_step_spec in blast)+

lemma new_mutex_ok: "mutex_ok (new_mutex name a)"
  by (simp add: mutex_ok_def new_mutex_def)

text \<open>C19: Whatever the interleaving of lock, trylock, timed lock and unlock calls, of parks that end and of waits on
  condition variables: at most one thread holds the mutex at a time. The owner field names exactly the thread whose
  successful locks outnumber its successful unlocks, the count field is that number, only a recursive mutex is held more
  than once, and nobody ever unlocks more often than it locked.\<close>

theorem mutex_exclusive:
  assumes "steps mutex_step (new_mutex name a) es m"
  shows "(0 < net fst snd t es \<longleftrightarrow> mx_owner m = Some t) \<and> 0 \<le> net fst snd t es \<and>
    (mx_owner m = Some t \<longrightarrow> int (mx_count m) = net fst snd t es) \<and> \<not> (0 < net fst snd t es \<and> t \<noteq> t' \<and> 0 < net fst snd t' es) \<and>
    (ma_type a \<noteq> 2 \<longrightarrow> net fst snd t es \<le> 1)"
proof -
  have ok: "mutex_ok m" and held: "int (mutex_held m u) = net fst snd u es" for u
    using mx.run_ok [OF new_mutex_ok assms] mx.run_held [OF new_mutex_ok assms] by (auto simp: mutex_held_def new_mutex_def)
  have "mx_type m2 = ma_type a" if "mx_type m1 = ma_type a" "mutex_step m1 e m2" for m1 e m2
    using mutex_step_type [OF that(2)] that(1) by simp
  from steps_invariant [of "\<lambda>m. mx_type m = ma_type a", OF this assms] have ty: "mx_type m = ma_type a"
    by (simp add: new_mutex_def)
  show ?thesis
    using ok held [of t, symmetric] held [of t', symmetric] by (auto simp: mutex_ok_def mutex_held_def ty)
qed

section \<open>Timed waits\<close>

text \<open>The passes of a parked call through its loop: when each happens and what mutex it finds. The call returns at the
  first pass that is done.\<close>

fun lock_passes :: "nat \<Rightarrow> lock_until \<Rightarrow> (nat \<times> mutex) list \<Rightarrow> host_result option" where
  "lock_passes self u [] = None"
| "lock_passes self u ((now, m) # ps) =
     (case fst (mutex_lock_head self u now m) of LockDone r \<Rightarrow> Some r | _ \<Rightarrow> lock_passes self u ps)"

lemma lock_passes_late:
  "lock_passes self (Until d) ps = None \<Longrightarrow> p \<in> set ps \<Longrightarrow> fst p < d"
  by (induction self "Until d" ps rule: lock_passes.induct)
    (auto simp: mutex_lock_head_def split: if_splits)

lemma lock_passes_result:
  "lock_passes self (Until d) ps = Some r \<Longrightarrow>
     r = HOk \<and> (\<exists>p \<in> set ps. mx_owner (snd p) = None) \<or> r = HTimedOut \<and> (\<exists>p \<in> set ps. d \<le> fst p \<and> mx_owner (snd p) \<noteq> None)"
  by (induction self "Until d" ps rule: lock_passes.induct)
    (auto simp: mutex_lock_head_def split: if_splits)

lemma increasing_span:
  "sorted_wrt (<) (x # xs) \<Longrightarrow> x + length xs \<le> last (x # xs)" for x :: nat
proof (induction xs arbitrary: x)
  case (Cons y ys)
  then have "y + length ys \<le> last (y # ys)" "x < y" by auto
  then show ?case by simp
qed simp

text \<open>C26: A timed lock call always comes back. Each park is limited by the time left and by the polling interval, so a
  call whose passes happen at increasing times has returned after as many passes as its timeout has nanoseconds, whatever
  the other threads do with the mutex. It then has either taken the mutex at a pass that found it free, or timed out at a
  pass at or after the deadline that found it taken.\<close>

theorem mutex_timedlock_returns:
  assumes "sorted_wrt (<) (map fst ps)" and "\<forall>p \<in> set ps. now \<le> fst p" and "0 < usec" and "usec * 1000 < length ps"
  shows "\<exists>r. lock_passes self (lock_until (Some usec) now) ps = Some r \<and>
    (r = HOk \<and> (\<exists>p \<in> set ps. mx_owner (snd p) = None) \<or>
     r = HTimedOut \<and> (\<exists>p \<in> set ps. now + usec * 1000 \<le> fst p \<and> mx_owner (snd p) \<noteq> None))"
proof -
  have u: "lock_until (Some usec) now = Until (now + usec * 1000)" using assms(3) by (simp add: lock_until_def)
  obtain p qs where ps: "ps = p # qs" using assms(4) by (cases ps) auto
  have "fst p + length qs \<le> last (map fst ps)" using increasing_span [of "fst p" "map fst qs"] assms(1) by (simp add: ps)
  moreover have "now \<le> fst p" using assms(2) ps by simp
  ultimately have late: "now + usec * 1000 \<le> fst (last ps)" using assms(4) by (simp add: ps last_map split: if_splits)
  have "lock_passes self (Until (now + usec * 1000)) ps \<noteq> None"
  proof
    assume "lock_passes self (Until (now + usec * 1000)) ps = None"
    moreover have "last ps \<in> set ps" using ps by simp
    ultimately have "fst (last ps) < now + usec * 1000" by (rule lock_passes_late)
    with late show False by simp
  qed
  then obtain r where r: "lock_passes self (Until (now + usec * 1000)) ps = Some r" by blast
  show ?thesis using lock_passes_result [OF r] r u by auto
qed

section \<open>Absolute times\<close>

text \<open>The relative timeout that \<open>pthread_mutex_timedlock\<close> computes from an absolute time is the distance to it in
  whole microseconds, zero for a time that has passed and the largest 32-bit value for one that is further away: carries
  between seconds and nanoseconds and the saturation are exact.\<close>

theorem timedlock_relative_exact:
  assumes "0 \<le> sec" and "0 \<le> nsec" and "nsec < 1000000000" and "0 \<le> now_nsec" and "now_nsec < 1000000000"
  shows "posix_timedlock_usec (Some (sec, nsec)) (Some (now_sec, now_nsec)) =
    Some (min UINT32_MAX (nat (((sec - now_sec) * 1000000000 + (nsec - now_nsec)) div 1000)))"
proof -
  define s where "s = (if nsec - now_nsec < 0 then sec - now_sec - 1 else sec - now_sec)"
  define n where "n = (if nsec - now_nsec < 0 then nsec - now_nsec + 1000000000 else nsec - now_nsec)"
  have n: "0 \<le> n" "n < 1000000000" using assms by (auto simp: n_def)
  define d where "d = (sec - now_sec) * 1000000000 + (nsec - now_nsec)"
  have total: "d = s * 1000000000 + n" by (simp add: d_def s_def n_def)
  have micros: "(s * 1000000000 + n) div 1000 = s * 1000000 + n div 1000"
    using div_mult_self3 [of 1000 "s * 1000000" n] by (simp add: algebra_simps)
  define rhs where "rhs = (if s > 0 \<or> (s = 0 \<and> n > 0)
     then Some (min UINT32_MAX ((if nat s > UINT32_MAX div 1000000 then UINT32_MAX else nat s * 1000000) + nat (n div 1000)))
     else Some 0)"
  have res: "posix_timedlock_usec (Some (sec, nsec)) (Some (now_sec, now_nsec)) = rhs"
    using assms by (simp add: posix_timedlock_usec_def Let_def s_def n_def rhs_def)
  have nd: "0 \<le> n div 1000" "n div 1000 < 1000000" using n by auto
  have "rhs = Some (min UINT32_MAX (nat (d div 1000)))"
  proof (cases "s > 0")
    case True
    have sum: "nat (s * 1000000 + n div 1000) = nat s * 1000000 + nat (n div 1000)"
      using True nd by (simp add: nat_add_distrib nat_mult_distrib)
    have "UINT32_MAX < nat s * 1000000" if "nat s > UINT32_MAX div 1000000" using that by (simp add: UINT32_MAX_def)
    then show ?thesis using True by (simp add: rhs_def total micros sum)
  next
    case False
    then have "s < 0 \<Longrightarrow> s * 1000000 + n div 1000 < 0" using nd by linarith
    then show ?thesis using False n nd by (cases "s = 0") (auto simp: rhs_def total micros UINT32_MAX_def)
  qed
  then show ?thesis by (simp only: res d_def)
qed

section \<open>Witnesses\<close>

lemma mutex_exclusive_witness:
  "\<exists>m. steps mutex_step (new_mutex None \<lparr>ma_type = 2, ma_protocol = PrioNone\<rparr>) [(7, 1), (7, 1), (8, 0), (7, -1)] m \<and>
     mx_owner m = Some 7 \<and> mx_count m = 1 \<and> net fst snd 8 [(7, 1), (7, 1), (8, 0), (7, -1)] = 0"
proof -
  let ?a = "\<lparr>ma_type = 2, ma_protocol = PrioNone\<rparr>"
  let ?m = "\<lambda>k. new_mutex None ?a\<lparr>mx_owner := Some 7, mx_count := k\<rparr>"
  have 1: "mutex_step (new_mutex None ?a) (7, 1) (?m 1)"
    using mutex_step.lock [of 7 None 0 0 "new_mutex None ?a" "LockDone HOk" "?m 1"]
    by (simp add: mutex_lock_begin_def mutex_lock_head_def new_mutex_def)
  have 2: "mutex_step (?m 1) (7, 1) (?m 2)"
    using mutex_step.try_lock [of 7 "?m 1" HOk "?m 2"] by (simp add: mutex_trylock_def new_mutex_def UINT32_MAX_def)
  have 3: "mutex_step (?m 2) (8, 0) (?m 2)"
    using mutex_step.unlock [of 8 "?m 2" HPerm 0 "?m 2"] by (simp add: mutex_unlock_def new_mutex_def)
  have 4: "mutex_step (?m 2) (7, -1) (?m 1)"
    using mutex_step.unlock [of 7 "?m 2" HOk 0 "?m 1"] by (simp add: mutex_unlock_def new_mutex_def)
  have run: "steps mutex_step (new_mutex None ?a) [(7, 1), (7, 1), (8, 0), (7, -1)] (?m 1)"
    using 1 2 3 4 by auto
  from mutex_exclusive [OF run, of 7 8] mutex_exclusive [OF run, of 8 7] run show ?thesis
    by (intro exI [of _ "?m 1"]) simp
qed

lemma mutex_timedlock_returns_witness:
  "\<exists>r. lock_passes 1 (lock_until (Some 1) 0) (map (\<lambda>i. (i, new_mutex None mutexattr_init)) [0..<1001]) = Some r \<and> r = HOk"
proof -
  let ?ps = "map (\<lambda>i. (i, new_mutex None mutexattr_init)) [0..<1001]"
  have "sorted_wrt (<) (map fst ?ps)" by (simp add: comp_def)
  from mutex_timedlock_returns [OF this, of 0 1 1] show ?thesis
    by (auto simp: new_mutex_def)
qed

lemma timedlock_relative_exact_witness:
  "posix_timedlock_usec (Some (11, 5000)) (Some (10, 999999000)) = Some 6"
  using timedlock_relative_exact [of 11 5000 999999000 10] by (simp add: UINT32_MAX_def)

end
