(* ===== verification/Pthread_Rwlock.thy ===== *)
theory Pthread_Rwlock
  imports Pthread_Mutex
begin

text \<open>
  The reader-writer locks of the guest (\<open>PthreadRwlock*\<close>, \<open>RwlockLockCooperative\<close> and their helpers in
  \<open>kernel/pthread.cpp\<close>). A blocking call is a sequence of passes through its loop, \<open>rwlock_lock_pass\<close>, each under the
  host mutex of the object; between two passes it is parked and other threads take their steps. The flag of a call says
  whether it is counted among the waiting writers. The counters are unsigned 32-bit words.
\<close>

definition inc32 :: "nat \<Rightarrow> nat" where
  "inc32 x = (x + 1) mod 4294967296"

definition dec32 :: "nat \<Rightarrow> nat" where
  "dec32 x = (x + 4294967295) mod 4294967296"

record rwlock =
  rw_name :: string
  rw_writer :: "nat option"
  rw_writer_count :: nat
  rw_reader_count :: nat
  rw_waiting_writers :: nat
  rw_readers :: "(nat \<times> nat) list"

definition new_rwlock :: "string option \<Rightarrow> rwlock" where
  "new_rwlock name =
     \<lparr>rw_name = (case name of None \<Rightarrow> [] | Some n \<Rightarrow> n), rw_writer = None, rw_writer_count = 0, rw_reader_count = 0,
      rw_waiting_writers = 0, rw_readers = []\<rparr>"

definition is_reader :: "nat \<Rightarrow> rwlock \<Rightarrow> bool" where
  "is_reader thread rw \<longleftrightarrow> find (\<lambda>r. fst r = thread) (rw_readers rw) \<noteq> None"

fun add_reader_entry :: "nat \<Rightarrow> (nat \<times> nat) list \<Rightarrow> (nat \<times> nat) list" where
  "add_reader_entry thread [] = [(thread, 1)]"
| "add_reader_entry thread ((t, c) # rs) =
     (if t = thread then (t, inc32 c) # rs else (t, c) # add_reader_entry thread rs)"

definition rwlock_add_reader :: "nat \<Rightarrow> rwlock \<Rightarrow> rwlock" where
  "rwlock_add_reader thread rw =
     rw\<lparr>rw_readers := add_reader_entry thread (rw_readers rw), rw_reader_count := inc32 (rw_reader_count rw)\<rparr>"

fun remove_reader_entry :: "nat \<Rightarrow> (nat \<times> nat) list \<Rightarrow> (nat \<times> nat) list option" where
  "remove_reader_entry thread [] = None"
| "remove_reader_entry thread ((t, c) # rs) =
     (if t = thread then let c = dec32 c in Some (if c = 0 then rs else (t, c) # rs)
      else map_option (\<lambda>rs. (t, c) # rs) (remove_reader_entry thread rs))"

definition rwlock_remove_reader :: "nat \<Rightarrow> rwlock \<Rightarrow> rwlock option" where
  "rwlock_remove_reader thread rw =
     map_option (\<lambda>rs. rw\<lparr>rw_readers := rs, rw_reader_count := dec32 (rw_reader_count rw)\<rparr>) (remove_reader_entry thread (rw_readers rw))"

section \<open>Locking\<close>

datatype rw_state = RwDone int | RwPark nat

definition unregister_writer_wait :: "bool \<Rightarrow> rwlock \<Rightarrow> rwlock" where
  "unregister_writer_wait registered rw =
     (if registered then rw\<lparr>rw_waiting_writers := dec32 (rw_waiting_writers rw)\<rparr> else rw)"

definition may_read :: "nat \<Rightarrow> rwlock \<Rightarrow> bool" where
  "may_read self rw \<longleftrightarrow>
     rw_writer rw = None \<and> (rw_waiting_writers rw = 0 \<or> is_reader self rw) \<or> rw_writer rw = Some self"

text \<open>The end of a pass that did not get the lock: the call times out or parks.\<close>

definition rwlock_park :: "lock_until \<Rightarrow> nat \<Rightarrow> bool \<Rightarrow> rwlock \<Rightarrow> rw_state \<times> bool \<times> rwlock" where
  "rwlock_park until now registered rw =
     (case until of
        Forever \<Rightarrow> (RwPark SIGNAL_POLL_NANOS, registered, rw)
      | Never \<Rightarrow> (RwDone KERNEL_ERROR_ETIMEDOUT, False, unregister_writer_wait registered rw)
      | Until deadline \<Rightarrow>
          if now \<ge> deadline then (RwDone KERNEL_ERROR_ETIMEDOUT, False, unregister_writer_wait registered rw)
          else (RwPark (min (deadline - now) SIGNAL_POLL_NANOS), registered, rw))"

definition rwlock_lock_pass :: "nat \<Rightarrow> bool \<Rightarrow> lock_until \<Rightarrow> nat \<Rightarrow> bool \<Rightarrow> rwlock \<Rightarrow> rw_state \<times> bool \<times> rwlock" where
  "rwlock_lock_pass self write until now registered rw =
     (if write
      then if rw_writer rw = Some self \<or> is_reader self rw
           then (RwDone KERNEL_ERROR_EDEADLK, False, unregister_writer_wait registered rw)
           else if rw_writer rw = None \<and> rw_reader_count rw = 0
           then (RwDone OK, False, (unregister_writer_wait registered rw)\<lparr>rw_writer := Some self, rw_writer_count := 1\<rparr>)
           else let rw = (if \<not> registered then rw\<lparr>rw_waiting_writers := inc32 (rw_waiting_writers rw)\<rparr> else rw)
                in rwlock_park until now True rw
      else if may_read self rw then (RwDone OK, False, rwlock_add_reader self rw)
           else rwlock_park until now registered rw)"

definition rwlock_tryrdlock :: "nat \<Rightarrow> rwlock \<Rightarrow> int \<times> rwlock" where
  "rwlock_tryrdlock self rw = (if may_read self rw then (OK, rwlock_add_reader self rw) else (KERNEL_ERROR_EBUSY, rw))"

definition rwlock_trywrlock :: "nat \<Rightarrow> rwlock \<Rightarrow> int \<times> rwlock" where
  "rwlock_trywrlock self rw =
     (if rw_writer rw = Some self \<or> is_reader self rw then (KERNEL_ERROR_EDEADLK, rw)
      else if rw_writer rw = None \<and> rw_reader_count rw = 0 then (OK, rw\<lparr>rw_writer := Some self, rw_writer_count := 1\<rparr>)
      else (KERNEL_ERROR_EBUSY, rw))"

text \<open>\<open>None\<close> is the process that stops at \<open>EXIT_IF\<close>.\<close>

definition rwlock_unlock :: "nat \<Rightarrow> rwlock \<Rightarrow> (int \<times> rwlock) option" where
  "rwlock_unlock self rw =
     (case rwlock_remove_reader self rw of
        Some rw \<Rightarrow> Some (OK, rw)
      | None \<Rightarrow>
          if rw_writer rw = Some self
          then if rw_writer_count rw = 0 then None
               else let rw = rw\<lparr>rw_writer_count := rw_writer_count rw - 1\<rparr>
                    in Some (OK, if rw_writer_count rw = 0 then rw\<lparr>rw_writer := None\<rparr> else rw)
          else Some (KERNEL_ERROR_EPERM, rw))"

section \<open>The calls of the guest\<close>

text \<open>
  A guest's lock variable holds a null pointer (\<open>None\<close>) or an object. \<open>CreateObject\<close> makes an object for a null pointer;
  \<open>self\<close> is null for a thread that the guest did not make. The outer \<open>option\<close> is the process that stops.
\<close>

definition create_rwlock :: "string \<Rightarrow> rwlock option \<Rightarrow> rwlock" where
  "create_rwlock name v = (case v of None \<Rightarrow> new_rwlock (Some name) | Some rw \<Rightarrow> rw)"

definition pthread_rwlock_init :: "string option \<Rightarrow> rwlock option option \<Rightarrow> int \<times> rwlock option option" where
  "pthread_rwlock_init name v = (case v of None \<Rightarrow> (KERNEL_ERROR_EINVAL, None) | Some _ \<Rightarrow> (OK, Some (Some (new_rwlock name))))"

definition pthread_rwlock_destroy :: "rwlock option option \<Rightarrow> (int \<times> rwlock option option) option" where
  "pthread_rwlock_destroy v =
     (case v of
        None \<Rightarrow> Some (KERNEL_ERROR_EINVAL, None)
      | Some None \<Rightarrow> None
      | Some (Some rw) \<Rightarrow>
          if rw_writer rw \<noteq> None \<or> rw_reader_count rw \<noteq> 0 then Some (KERNEL_ERROR_EBUSY, v) else Some (OK, Some None))"

text \<open>The first pass of the four blocking calls: \<open>timeout_us\<close> is missing for the calls without a time limit.\<close>

definition pthread_rwlock_lock ::
  "string \<Rightarrow> bool \<Rightarrow> nat option \<Rightarrow> nat option \<Rightarrow> nat \<Rightarrow> rwlock option option \<Rightarrow> rw_state \<times> bool \<times> rwlock option option" where
  "pthread_rwlock_lock name write self timeout_us now v =
     (case v of
        None \<Rightarrow> (RwDone KERNEL_ERROR_EINVAL, False, None)
      | Some o' \<Rightarrow>
          let rw = create_rwlock name o'
          in case self of
               None \<Rightarrow> (RwDone KERNEL_ERROR_EINVAL, False, Some (Some rw))
             | Some t \<Rightarrow>
                 (case rwlock_lock_pass t write (lock_until timeout_us now) now False rw of
                    (r, registered, rw) \<Rightarrow> (r, registered, Some (Some rw))))"

definition pthread_rwlock_tryrdlock :: "string \<Rightarrow> nat option \<Rightarrow> rwlock option option \<Rightarrow> int \<times> rwlock option option" where
  "pthread_rwlock_tryrdlock name self v =
     (case v of
        None \<Rightarrow> (KERNEL_ERROR_EINVAL, None)
      | Some o' \<Rightarrow>
          let rw = create_rwlock name o'
          in case self of
               None \<Rightarrow> (KERNEL_ERROR_EINVAL, Some (Some rw))
             | Some t \<Rightarrow> (case rwlock_tryrdlock t rw of (r, rw) \<Rightarrow> (r, Some (Some rw))))"

text \<open>This call alone does not create an object.\<close>

definition pthread_rwlock_trywrlock :: "nat option \<Rightarrow> rwlock option option \<Rightarrow> (int \<times> rwlock option option) option" where
  "pthread_rwlock_trywrlock self v =
     (case v of
        None \<Rightarrow> Some (KERNEL_ERROR_EINVAL, None)
      | Some None \<Rightarrow> None
      | Some (Some rw) \<Rightarrow>
          (case self of
             None \<Rightarrow> Some (KERNEL_ERROR_EINVAL, v)
           | Some t \<Rightarrow> (case rwlock_trywrlock t rw of (r, rw) \<Rightarrow> Some (r, Some (Some rw)))))"

definition pthread_rwlock_unlock :: "string \<Rightarrow> nat option \<Rightarrow> rwlock option option \<Rightarrow> (int \<times> rwlock option option) option" where
  "pthread_rwlock_unlock name self v =
     (case v of
        None \<Rightarrow> Some (KERNEL_ERROR_EINVAL, None)
      | Some o' \<Rightarrow>
          let rw = create_rwlock name o'
          in case self of
               None \<Rightarrow> Some (KERNEL_ERROR_EINVAL, Some (Some rw))
             | Some t \<Rightarrow> map_option (\<lambda>(r, rw). (r, Some (Some rw))) (rwlock_unlock t rw))"

text \<open>The attributes hold a type that no call interprets; \<open>None\<close> is a null pointer.\<close>

definition rwlockattr_settype :: "int \<Rightarrow> int option \<Rightarrow> int \<times> int option" where
  "rwlockattr_settype type a = (case a of None \<Rightarrow> (KERNEL_ERROR_EINVAL, None) | Some _ \<Rightarrow> (OK, Some type))"

definition rwlockattr_gettype :: "int option \<Rightarrow> bool \<Rightarrow> int \<times> int option" where
  "rwlockattr_gettype a out =
     (case a of None \<Rightarrow> (KERNEL_ERROR_EINVAL, None) | Some type \<Rightarrow> if \<not> out then (KERNEL_ERROR_EINVAL, None) else (OK, Some type))"

end
