(* ===== verification/Pthread_Rwlock_Facts.thy ===== *)
theory Pthread_Rwlock_Facts
  imports Pthread_Rwlock Lock_Contract
begin

text \<open>
  The correctness of the reader-writer locks: writers exclude everybody else under every interleaving, the counters say
  who holds the lock and who waits for it, and readers that come later do not overtake a waiting writer.
\<close>

section \<open>Readers\<close>

definition reads :: "(nat \<times> nat) list \<Rightarrow> nat \<Rightarrow> nat" where
  "reads rs t = (case map_of rs t of None \<Rightarrow> 0 | Some c \<Rightarrow> c)"

definition readers_ok :: "(nat \<times> nat) list \<Rightarrow> bool" where
  "readers_ok rs \<longleftrightarrow> distinct (map fst rs) \<and> (\<forall>r \<in> set rs. 0 < snd r)"

lemma reads_simps [simp]:
  "reads [] t = 0" "reads ((t', c) # rs) t = (if t = t' then c else reads rs t)"
  by (auto simp: reads_def)

lemma is_reader_iff: "is_reader t rw \<longleftrightarrow> t \<in> fst ` set (rw_readers rw)"
  by (force simp: is_reader_def find_None_iff)

lemma reads_pos: "readers_ok rs \<Longrightarrow> 0 < reads rs t \<longleftrightarrow> t \<in> fst ` set rs"
  by (force simp: reads_def readers_ok_def split: option.splits dest: map_of_SomeD simp flip: map_of_eq_None_iff)

lemma reads_le_sum: "reads rs t \<le> sum_list (map snd rs)"
  by (induction rs) auto

lemma sum_zero: "readers_ok rs \<Longrightarrow> sum_list (map snd rs) = 0 \<longleftrightarrow> rs = []"
  by (cases rs) (auto simp: readers_ok_def)

lemma sum_reads: "readers_ok rs \<Longrightarrow> (\<Sum>t \<in> fst ` set rs. int (reads rs t)) = int (sum_list (map snd rs))"
proof (induction rs)
  case (Cons r rs)
  obtain t c where r: "r = (t, c)" by (cases r)
  have rs: "readers_ok rs" "t \<notin> fst ` set rs" using Cons.prems by (auto simp: readers_ok_def r)
  have "(\<Sum>u \<in> fst ` set rs. int (reads (r # rs) u)) = (\<Sum>u \<in> fst ` set rs. int (reads rs u))"
    using rs(2) by (intro sum.cong) (auto simp: r)
  with Cons.IH [OF rs(1)] rs(2) show ?case by (simp add: r)
qed simp

lemma dec32_pos: "0 < c \<Longrightarrow> c \<le> UINT32_MAX \<Longrightarrow> dec32 c = c - 1"
proof -
  assume c: "0 < c" "c \<le> UINT32_MAX"
  then obtain k where k: "c = Suc k" by (cases c) auto
  then have "dec32 c = (k + 4294967296) mod 4294967296" by (simp add: dec32_def)
  moreover have "k < 4294967296" using c k by (simp add: UINT32_MAX_def)
  ultimately show ?thesis using k by simp
qed

lemma inc32_less: "c < UINT32_MAX \<Longrightarrow> inc32 c = c + 1"
  by (simp add: inc32_def UINT32_MAX_def)

lemma add_reader_entry_spec:
  assumes "readers_ok rs" and "sum_list (map snd rs) < UINT32_MAX"
  shows "readers_ok (add_reader_entry t rs) \<and> fst ` set (add_reader_entry t rs) = insert t (fst ` set rs) \<and>
    sum_list (map snd (add_reader_entry t rs)) = sum_list (map snd rs) + 1 \<and>
    reads (add_reader_entry t rs) u = reads rs u + (if u = t then 1 else 0)"
  using assms
proof (induction t rs rule: add_reader_entry.induct)
  case (1 t)
  then show ?case by (simp add: readers_ok_def)
next
  case (2 t t' c rs)
  show ?case
  proof (cases "t' = t")
    case True
    have "inc32 c = c + 1" using 2(3) by (intro inc32_less) simp
    then show ?thesis using 2(2) True by (auto simp: readers_ok_def)
  next
    case False
    have "readers_ok rs" using 2(2) by (auto simp: readers_ok_def)
    moreover have "sum_list (map snd rs) < UINT32_MAX" using 2(3) by simp
    ultimately show ?thesis using 2(1) [OF False] 2(2) False by (auto simp: readers_ok_def)
  qed
qed

lemma remove_reader_entry_None: "remove_reader_entry t rs = None \<longleftrightarrow> t \<notin> fst ` set rs"
  by (induction t rs rule: remove_reader_entry.induct) (auto simp: Let_def)

lemma remove_reader_entry_spec:
  assumes "readers_ok rs" and "sum_list (map snd rs) \<le> UINT32_MAX" and "remove_reader_entry t rs = Some rs'"
  shows "readers_ok rs' \<and> t \<in> fst ` set rs \<and> fst ` set rs' \<subseteq> fst ` set rs \<and> sum_list (map snd rs') + 1 = sum_list (map snd rs) \<and>
    reads rs' u + (if u = t then 1 else 0) = reads rs u"
  using assms
proof (induction t rs arbitrary: rs' rule: remove_reader_entry.induct)
  case (2 t t' c rs)
  show ?case
  proof (cases "t' = t")
    case True
    have c: "0 < c" using 2(2) by (simp add: readers_ok_def)
    have d: "dec32 c = c - 1" using c 2(3) by (intro dec32_pos) simp_all
    have "t \<notin> fst ` set rs" using 2(2) True by (auto simp: readers_ok_def)
    then have "reads rs t = 0" by (simp add: reads_def map_of_eq_None_iff [THEN iffD2] split: option.split)
    then show ?thesis using 2(2,4) True c d by (auto simp: readers_ok_def Let_def split: if_splits)
  next
    case False
    then obtain rs0 where rs0: "remove_reader_entry t rs = Some rs0" "rs' = (t', c) # rs0" using 2(4) by auto
    have "readers_ok rs" using 2(2) by (auto simp: readers_ok_def)
    with 2(1) [OF False this _ rs0(1)] 2(2,3) False rs0(2) show ?thesis by (auto simp: readers_ok_def)
  qed
qed simp

section \<open>Steps\<close>

text \<open>
  The state of a lock and the number of calls that are parked as registered writers. An event is the thread, what it
  reported as read locks taken (1) or given back (-1), and the same for write locks. No more than \<open>2^32 - 1\<close> read locks
  and waiting writers at a time. A \<open>pass\<close> is any pass of a blocking call, the first one or one after a park.
\<close>

type_synonym rw_event = "nat \<times> int \<times> int"

inductive rw_step :: "rwlock \<times> nat \<Rightarrow> rw_event \<Rightarrow> rwlock \<times> nat \<Rightarrow> bool" where
  pass: "rwlock_lock_pass t write u now registered rw = (r, registered', rw') \<Longrightarrow> rw_reader_count rw < UINT32_MAX \<Longrightarrow>
    n < UINT32_MAX \<Longrightarrow> (registered \<longrightarrow> 0 < n \<and> write) \<Longrightarrow> n' + of_bool registered = n + of_bool registered' \<Longrightarrow>
    rw_step (rw, n) (t, of_bool (r = RwDone OK \<and> \<not> write), of_bool (r = RwDone OK \<and> write)) (rw', n')"
| try_read: "rwlock_tryrdlock t rw = (r, rw') \<Longrightarrow> rw_reader_count rw < UINT32_MAX \<Longrightarrow>
    rw_step (rw, n) (t, of_bool (r = OK), 0) (rw', n)"
| try_write: "rwlock_trywrlock t rw = (r, rw') \<Longrightarrow> rw_step (rw, n) (t, 0, of_bool (r = OK)) (rw', n)"
| unlock: "rwlock_unlock t rw = Some (r, rw') \<Longrightarrow>
    rw_step (rw, n)
      (t, if r = OK \<and> is_reader t rw then -1 else 0, if r = OK \<and> \<not> is_reader t rw then -1 else 0) (rw', n)"

definition read_held :: "rwlock \<times> nat \<Rightarrow> nat \<Rightarrow> nat" where
  "read_held s t = reads (rw_readers (fst s)) t"

definition write_held :: "rwlock \<times> nat \<Rightarrow> nat \<Rightarrow> nat" where
  "write_held s t = (if rw_writer (fst s) = Some t then 1 else 0)"

definition rwlock_ok :: "rwlock \<times> nat \<Rightarrow> bool" where
  "rwlock_ok s \<longleftrightarrow>
     readers_ok (rw_readers (fst s)) \<and> rw_reader_count (fst s) = sum_list (map snd (rw_readers (fst s))) \<and>
     rw_reader_count (fst s) \<le> UINT32_MAX \<and> rw_writer_count (fst s) = (if rw_writer (fst s) = None then 0 else 1) \<and>
     (\<forall>w. rw_writer (fst s) = Some w \<longrightarrow> fst ` set (rw_readers (fst s)) \<subseteq> {w}) \<and>
     rw_waiting_writers (fst s) = snd s \<and> snd s \<le> UINT32_MAX"

lemma rwlock_okD:
  assumes "rwlock_ok (rw, n)"
  shows "readers_ok (rw_readers rw)" "rw_reader_count rw = sum_list (map snd (rw_readers rw))" "rw_reader_count rw \<le> UINT32_MAX"
    "rw_writer_count rw = (if rw_writer rw = None then 0 else 1)" "rw_writer rw = Some w \<Longrightarrow> fst ` set (rw_readers rw) \<subseteq> {w}"
    "rw_waiting_writers rw = n" "n \<le> UINT32_MAX"
  using assms by (auto simp: rwlock_ok_def)

lemma add_reader_ok:
  assumes ok: "rwlock_ok (rw, n)" and "rw_reader_count rw < UINT32_MAX" and "may_read t rw"
  shows "rwlock_ok (rwlock_add_reader t rw, n)"
    and "reads (rw_readers (rwlock_add_reader t rw)) u = reads (rw_readers rw) u + (if u = t then 1 else 0)"
proof -
  note okD = rwlock_okD [OF ok]
  have spec: "readers_ok (add_reader_entry t (rw_readers rw)) \<and>
    fst ` set (add_reader_entry t (rw_readers rw)) = insert t (fst ` set (rw_readers rw)) \<and>
    sum_list (map snd (add_reader_entry t (rw_readers rw))) = sum_list (map snd (rw_readers rw)) + 1 \<and>
    reads (add_reader_entry t (rw_readers rw)) u = reads (rw_readers rw) u + (if u = t then 1 else 0)"
    using add_reader_entry_spec [OF okD(1)] assms(2) okD(2) by simp
  then show "reads (rw_readers (rwlock_add_reader t rw)) u = reads (rw_readers rw) u + (if u = t then 1 else 0)"
    by (simp add: rwlock_add_reader_def)
  have "inc32 (rw_reader_count rw) = rw_reader_count rw + 1" using assms(2) by (rule inc32_less)
  then show "rwlock_ok (rwlock_add_reader t rw, n)"
    using spec okD assms(2,3) by (auto simp: rwlock_ok_def rwlock_add_reader_def may_read_def)
qed

lemma rwlock_park_cases:
  "rwlock_park u now registered rw = (r, registered', rw') \<Longrightarrow>
     (\<exists>t. r = RwPark t) \<and> registered' = registered \<and> rw' = rw \<or>
     r = RwDone KERNEL_ERROR_ETIMEDOUT \<and> \<not> registered' \<and> rw' = unregister_writer_wait registered rw"
  by (auto simp: rwlock_park_def split: lock_until.splits if_splits)

lemma unregister_ok:
  assumes "rwlock_ok (rw, n)" and "registered \<longrightarrow> 0 < n" and "n' + of_bool registered = n"
  shows "rwlock_ok (unregister_writer_wait registered rw, n')"
  using assms rwlock_okD [OF assms(1)] dec32_pos [of n]
  by (cases registered) (auto simp: unregister_writer_wait_def rwlock_ok_def)

lemma unregister_same [simp]:
  "rw_readers (unregister_writer_wait b rw) = rw_readers rw" "rw_writer (unregister_writer_wait b rw) = rw_writer rw"
  "rw_reader_count (unregister_writer_wait b rw) = rw_reader_count rw"
  "rw_writer_count (unregister_writer_wait b rw) = rw_writer_count rw"
  by (simp_all add: unregister_writer_wait_def)

lemma take_write_ok:
  assumes "rwlock_ok (rw, n)" and "rw_writer rw = None" and "rw_reader_count rw = 0"
  shows "rwlock_ok (rw\<lparr>rw_writer := Some t, rw_writer_count := 1\<rparr>, n)"
  using assms rwlock_okD [OF assms(1)] sum_zero by (auto simp: rwlock_ok_def)

lemma codes_distinct:
  "KERNEL_ERROR_EDEADLK \<noteq> OK" "KERNEL_ERROR_ETIMEDOUT \<noteq> OK" "KERNEL_ERROR_EBUSY \<noteq> OK" "KERNEL_ERROR_EPERM \<noteq> OK"
  "KERNEL_ERROR_EINVAL \<noteq> OK"
  by (simp_all add: error_codes KERNEL_ERROR_EDEADLK_def)

lemma pass_spec:
  assumes ok: "rwlock_ok (rw, n)" and run: "rwlock_lock_pass t write u now registered rw = (r, registered', rw')"
    and b: "rw_reader_count rw < UINT32_MAX" "n < UINT32_MAX" and reg: "registered \<longrightarrow> 0 < n \<and> write"
    and n': "n' + of_bool registered = n + of_bool registered'"
  shows "rwlock_ok (rw', n') \<and>
    (r = RwDone OK \<and> \<not> write \<and> may_read t rw \<and> rw' = rwlock_add_reader t rw \<or>
     r = RwDone OK \<and> write \<and> rw_writer rw = None \<and> rw_readers rw = [] \<and> rw_writer rw' = Some t \<and> rw_readers rw' = [] \<or>
     r \<noteq> RwDone OK \<and> rw_readers rw' = rw_readers rw \<and> rw_writer rw' = rw_writer rw)"
proof (cases "write")
  case False
  then have nreg: "\<not> registered" using reg by simp
  show ?thesis
  proof (cases "may_read t rw")
    case True
    then have "r = RwDone OK" "\<not> registered'" "rw' = rwlock_add_reader t rw" using run False by (auto simp: rwlock_lock_pass_def)
    then show ?thesis using add_reader_ok(1) [OF ok b(1) True] True False nreg n' by simp
  next
    case False
    then have "rwlock_park u now registered rw = (r, registered', rw')" using run \<open>\<not> write\<close> by (simp add: rwlock_lock_pass_def)
    from rwlock_park_cases [OF this] show ?thesis
      using ok n' nreg codes_distinct by (auto simp: unregister_writer_wait_def)
  qed
next
  case True
  show ?thesis
  proof (cases "rw_writer rw = Some t \<or> is_reader t rw")
    case dead: True
    then have "r = RwDone KERNEL_ERROR_EDEADLK" "\<not> registered'" "rw' = unregister_writer_wait registered rw"
      using run True by (auto simp: rwlock_lock_pass_def)
    then show ?thesis using unregister_ok [OF ok, of registered "n'"] reg n' codes_distinct by auto
  next
    case alive: False
    show ?thesis
    proof (cases "rw_writer rw = None \<and> rw_reader_count rw = 0")
      case free: True
      then have res: "r = RwDone OK" "\<not> registered'"
        "rw' = (unregister_writer_wait registered rw)\<lparr>rw_writer := Some t, rw_writer_count := 1\<rparr>"
        using run True alive by (auto simp: rwlock_lock_pass_def)
      have "rwlock_ok (unregister_writer_wait registered rw, n')" using unregister_ok [OF ok, of registered "n'"] reg n' res by auto
      from take_write_ok [OF this] free have "rwlock_ok (rw', n')" by (simp add: res)
      moreover have "rw_readers rw = []" using free rwlock_okD(1,2) [OF ok] sum_zero by simp
      ultimately show ?thesis using res True free by simp
    next
      case busy: False
      define rw1 where "rw1 = (if \<not> registered then rw\<lparr>rw_waiting_writers := inc32 (rw_waiting_writers rw)\<rparr> else rw)"
      have park: "rwlock_park u now True rw1 = (r, registered', rw')"
        using run True alive busy by (auto simp: rwlock_lock_pass_def Let_def rw1_def)
      define n1 where "n1 = n + of_bool (\<not> registered)"
      have ok1: "rwlock_ok (rw1, n1)" "rw_readers rw1 = rw_readers rw" "rw_writer rw1 = rw_writer rw"
        using ok rwlock_okD(6) [OF ok] b(2) inc32_less [of n] by (auto simp: rw1_def n1_def rwlock_ok_def)
      have pos: "0 < n1" using reg by (auto simp: n1_def)
      from rwlock_park_cases [OF park] show ?thesis
      proof
        assume h: "(\<exists>t. r = RwPark t) \<and> registered' = True \<and> rw' = rw1"
        then have "n' = n1" using n' by (auto simp: n1_def)
        then show ?thesis using h ok1 by auto
      next
        assume h: "r = RwDone KERNEL_ERROR_ETIMEDOUT \<and> \<not> registered' \<and> rw' = unregister_writer_wait True rw1"
        then have "n' + 1 = n1" using n' reg by (auto simp: n1_def)
        then have "rwlock_ok (rw', n')" using unregister_ok [OF ok1(1), of True "n'"] h pos by simp
        then show ?thesis using h ok1 codes_distinct by auto
      qed
    qed
  qed
qed

lemma unlock_spec:
  assumes ok: "rwlock_ok (rw, n)" and run: "rwlock_unlock t rw = Some (r, rw')"
  shows "rwlock_ok (rw', n) \<and>
    (r = OK \<and> is_reader t rw \<and> rw_writer rw' = rw_writer rw \<and> fst ` set (rw_readers rw') \<subseteq> fst ` set (rw_readers rw) \<and>
       reads (rw_readers rw') u + (if u = t then 1 else 0) = reads (rw_readers rw) u \<or>
     r = OK \<and> \<not> is_reader t rw \<and> rw_writer rw = Some t \<and> rw_writer rw' = None \<and> rw_readers rw' = rw_readers rw \<or>
     r \<noteq> OK \<and> \<not> is_reader t rw \<and> rw_writer rw \<noteq> Some t \<and> rw' = rw)"
proof -
  note okD = rwlock_okD [OF ok]
  show ?thesis
  proof (cases "remove_reader_entry t (rw_readers rw)")
    case (Some rs)
    have sum: "sum_list (map snd (rw_readers rw)) \<le> UINT32_MAX" using okD(2,3) by simp
    note spec = remove_reader_entry_spec [OF okD(1) sum Some]
    have res: "r = OK" "rw' = rw\<lparr>rw_readers := rs, rw_reader_count := dec32 (rw_reader_count rw)\<rparr>"
      using run Some by (auto simp: rwlock_unlock_def rwlock_remove_reader_def)
    have count: "rw_reader_count rw = sum_list (map snd rs) + 1" using spec okD(2) by simp
    then have dec: "dec32 (rw_reader_count rw) = sum_list (map snd rs)" using okD(3) dec32_pos [of "rw_reader_count rw"] by simp
    have "fst ` set rs \<subseteq> {w}" if "rw_writer rw = Some w" for w using spec okD(5) [OF that] by blast
    moreover have rw': "rw' = rw\<lparr>rw_readers := rs, rw_reader_count := sum_list (map snd rs)\<rparr>" by (simp only: res dec)
    moreover have "sum_list (map snd rs) \<le> UINT32_MAX" using okD(3) count by simp
    ultimately have "rwlock_ok (rw', n)" using spec okD(4,6,7) by (simp add: rwlock_ok_def rw')
    then show ?thesis using res spec [of u] by (auto simp: is_reader_iff)
  next
    case None
    then have nr: "\<not> is_reader t rw" using remove_reader_entry_None is_reader_iff by simp
    show ?thesis
    proof (cases "rw_writer rw = Some t")
      case True
      then have "r = OK" "rw' = rw\<lparr>rw_writer_count := 0, rw_writer := None\<rparr>"
        using run None okD(4) by (auto simp: rwlock_unlock_def rwlock_remove_reader_def Let_def)
      then show ?thesis using True nr ok by (auto simp: rwlock_ok_def)
    next
      case False
      then have "r = KERNEL_ERROR_EPERM" "rw' = rw" using run None by (auto simp: rwlock_unlock_def rwlock_remove_reader_def)
      then show ?thesis using False nr ok codes_distinct by simp
    qed
  qed
qed


lemma try_read_spec:
  "rwlock_tryrdlock t rw = (r, rw') \<Longrightarrow>
     r = OK \<and> may_read t rw \<and> rw' = rwlock_add_reader t rw \<or> r \<noteq> OK \<and> rw' = rw"
  using codes_distinct by (auto simp: rwlock_tryrdlock_def split: if_splits)

lemma try_write_spec:
  assumes ok: "rwlock_ok (rw, n)" and run: "rwlock_trywrlock t rw = (r, rw')"
  shows "rwlock_ok (rw', n) \<and>
    (r = OK \<and> rw_writer rw = None \<and> rw_readers rw = [] \<and> rw_writer rw' = Some t \<and> rw_readers rw' = [] \<or> r \<noteq> OK \<and> rw' = rw)"
proof (cases "r = OK")
  case True
  then have free: "rw_writer rw = None" "rw_reader_count rw = 0" "rw' = rw\<lparr>rw_writer := Some t, rw_writer_count := 1\<rparr>"
    using run codes_distinct by (auto simp: rwlock_trywrlock_def split: if_splits)
  moreover have "rw_readers rw = []" using free(2) rwlock_okD(1,2) [OF ok] sum_zero by simp
  ultimately show ?thesis using take_write_ok [OF ok free(1,2)] True by simp
next
  case False
  then show ?thesis using run ok by (auto simp: rwlock_trywrlock_def split: if_splits)
qed

section \<open>The contract\<close>

lemma rw_step_ok:
  assumes "rwlock_ok s" and "rw_step s e s'"
  shows "rwlock_ok s' \<and>
    int (read_held s' u) = int (read_held s u) + (if fst e = u then fst (snd e) else 0) \<and>
    int (write_held s' u) = int (write_held s u) + (if fst e = u then snd (snd e) else 0)"
  using assms(2,1)
proof (cases rule: rw_step.cases)
  case (pass t w v now registered rw r registered' rw' n n')
  have ok: "rwlock_ok (rw, n)" using assms(1) pass(1) by simp
  have add: "reads (rw_readers (rwlock_add_reader t rw)) u = reads (rw_readers rw) u + (if u = t then 1 else 0)"
    if "may_read t rw" using add_reader_ok(2) [OF ok pass(5) that] .
  from pass_spec [OF ok pass(4-8)] add show ?thesis
    by (auto simp: pass(1-3) read_held_def write_held_def rwlock_add_reader_def)
next
  case (try_read t rw r rw' n)
  have ok: "rwlock_ok (rw, n)" using assms(1) try_read(1) by simp
  from try_read_spec [OF try_read(4)] add_reader_ok [OF ok try_read(5), of t] ok show ?thesis
    by (auto simp: try_read(1-3) read_held_def write_held_def rwlock_add_reader_def)
next
  case (try_write t rw r rw' n)
  have ok: "rwlock_ok (rw, n)" using assms(1) try_write(1) by simp
  from try_write_spec [OF ok try_write(4)] show ?thesis
    by (auto simp: try_write(1-3) read_held_def write_held_def)
next
  case (unlock t rw r rw' n)
  have ok: "rwlock_ok (rw, n)" using assms(1) unlock(1) by simp
  from unlock_spec [OF ok unlock(4), of u] show ?thesis
    by (cases "u = t") (auto simp: unlock(1-3) read_held_def write_held_def simp flip: of_nat_Suc)
qed

interpretation rd: counted_lock fst "fst \<circ> snd" read_held rw_step rwlock_ok
  by unfold_locales (use rw_step_ok in force)+

interpretation wr: counted_lock fst "snd \<circ> snd" write_held rw_step rwlock_ok
  by unfold_locales (use rw_step_ok in force)+

lemma new_rwlock_ok: "rwlock_ok (new_rwlock name, 0)"
  by (simp add: rwlock_ok_def new_rwlock_def readers_ok_def UINT32_MAX_def)


section \<open>Writers exclude everybody\<close>

text \<open>C20: Whatever the interleaving of read and write lock calls, of timed and trying ones, of parks that end and of unlock
  calls: while one thread holds the write lock, no other thread holds the lock for reading or for writing. The writer field
  names exactly the thread whose successful write locks outnumber its unlocks, the readers list exactly the threads with
  read locks left, the reader count is their total, and the waiting count is the number of registered writers.\<close>

theorem rwlock_exclusive:
  assumes "steps rw_step (new_rwlock name, 0) es (rw, n)"
  shows "(rw_writer rw = Some t \<longleftrightarrow> net fst (snd \<circ> snd) t es = 1) \<and> net fst (snd \<circ> snd) t es \<in> {0, 1} \<and>
    (is_reader t rw \<longleftrightarrow> 0 < net fst (fst \<circ> snd) t es) \<and> 0 \<le> net fst (fst \<circ> snd) t es \<and>
    \<not> (net fst (snd \<circ> snd) t es = 1 \<and> t \<noteq> t' \<and> (net fst (snd \<circ> snd) t' es = 1 \<or> 0 < net fst (fst \<circ> snd) t' es)) \<and>
    int (rw_reader_count rw) = (\<Sum>r \<in> fst ` set (rw_readers rw). net fst (fst \<circ> snd) r es) \<and> rw_waiting_writers rw = n"
proof -
  have ok: "rwlock_ok (rw, n)" using rd.run_ok [OF new_rwlock_ok assms] .
  note okD = rwlock_okD [OF ok]
  have rn: "net fst (fst \<circ> snd) u es = int (reads (rw_readers rw) u)" for u
    using rd.run_held [OF new_rwlock_ok assms, of u] by (simp add: read_held_def new_rwlock_def)
  have wn: "net fst (snd \<circ> snd) u es = (if rw_writer rw = Some u then 1 else 0)" for u
    using wr.run_held [OF new_rwlock_ok assms, of u] by (simp add: write_held_def new_rwlock_def split: if_splits)
  have rd: "is_reader u rw \<longleftrightarrow> 0 < net fst (fst \<circ> snd) u es" for u
    using reads_pos [OF okD(1)] by (simp add: rn is_reader_iff)
  have "\<not> (rw_writer rw = Some t \<and> t \<noteq> t' \<and> 0 < net fst (fst \<circ> snd) t' es)"
    using okD(5) [of t] by (auto simp flip: rd simp: is_reader_iff)
  then have excl: "\<not> (net fst (snd \<circ> snd) t es = 1 \<and> t \<noteq> t' \<and> (net fst (snd \<circ> snd) t' es = 1 \<or> 0 < net fst (fst \<circ> snd) t' es))"
    by (auto simp: wn split: if_splits)
  have total: "int (rw_reader_count rw) = (\<Sum>r \<in> fst ` set (rw_readers rw). net fst (fst \<circ> snd) r es)"
    using sum_reads [OF okD(1)] by (simp add: okD(2) rn)
  show ?thesis
    using excl total okD(6) rd [of t] by (auto simp: wn rn)
qed

section \<open>Writers are not overtaken\<close>

lemma add_reader_keeps: "is_reader t rw \<Longrightarrow> fst ` set (rw_readers (rwlock_add_reader t rw)) = fst ` set (rw_readers rw)"
proof -
  have "t \<in> fst ` set rs \<Longrightarrow> fst ` set (add_reader_entry t rs) = fst ` set rs" for rs
    by (induction t rs rule: add_reader_entry.induct) auto
  then show "is_reader t rw \<Longrightarrow> fst ` set (rw_readers (rwlock_add_reader t rw)) = fst ` set (rw_readers rw)"
    by (simp add: is_reader_iff rwlock_add_reader_def)
qed

lemma waiting_writer_step:
  assumes ok: "rwlock_ok s" and run: "rw_step s e s'" and wait: "0 < snd s" "rw_writer (fst s) = None"
  shows "fst ` set (rw_readers (fst s')) \<subseteq> fst ` set (rw_readers (fst s))"
proof -
  have old: "is_reader t (fst s)" if "may_read t (fst s)" for t
    using that wait rwlock_okD(6) [of "fst s" "snd s"] ok by (auto simp: may_read_def)
  from run show ?thesis
  proof (cases rule: rw_step.cases)
    case (pass t w v now registered rw r registered' rw' n n')
    have "rwlock_ok (rw, n)" using ok pass(1) by simp
    from pass_spec [OF this pass(4-8)] old [of t] add_reader_keeps [of t rw]
    have "fst ` set (rw_readers rw') \<subseteq> fst ` set (rw_readers rw)" by (elim conjE disjE) (simp_all add: pass(1))
    then show ?thesis by (simp add: pass(1,3))
  next
    case (try_read t rw r rw' n)
    from try_read_spec [OF try_read(4)] old [of t] add_reader_keeps [of t rw]
    have "fst ` set (rw_readers rw') \<subseteq> fst ` set (rw_readers rw)" by (elim conjE disjE) (simp_all add: try_read(1))
    then show ?thesis by (simp add: try_read(1,3))
  next
    case (try_write t rw r rw' n)
    have "rwlock_ok (rw, n)" using ok try_write(1) by simp
    from try_write_spec [OF this try_write(4)] show ?thesis by (auto simp: try_write(1,3))
  next
    case (unlock t rw r rw' n)
    have "rwlock_ok (rw, n)" using ok unlock(1) by simp
    from unlock_spec [OF this unlock(4), of t] have "fst ` set (rw_readers rw') \<subseteq> fst ` set (rw_readers rw)"
      by (elim conjE disjE) simp_all
    then show ?thesis by (simp add: unlock(1,3))
  qed
qed

text \<open>C27: Readers do not overtake a waiting writer. From any state that a history of calls reaches, during a period in
  which some writer waits and none is inside, no thread joins the readers: the threads that read at the end read at the
  beginning, for every interleaving. Once they have all left, the next pass of any writer takes the lock.\<close>

theorem rwlock_writers_not_overtaken:
  assumes "steps rw_step (new_rwlock name, 0) es0 s"
    and "steps (\<lambda>s e s'. rw_step s e s' \<and> 0 < snd s \<and> rw_writer (fst s) = None) s es (rw, n)"
  shows "(\<forall>t. is_reader t rw \<longrightarrow> is_reader t (fst s)) \<and>
    (rw_writer rw = None \<and> (\<nexists>t. is_reader t rw) \<longrightarrow> fst (rwlock_lock_pass w True u now registered rw) = RwDone OK)"
proof -
  have "rwlock_ok s" using rd.run_ok [OF new_rwlock_ok assms(1)] .
  from assms(2) this have run: "rwlock_ok (rw, n) \<and> fst ` set (rw_readers rw) \<subseteq> fst ` set (rw_readers (fst s))"
  proof (induction es arbitrary: s)
    case (Cons e es)
    then obtain s1 where s1: "rw_step s e s1" "0 < snd s" "rw_writer (fst s) = None"
      "steps (\<lambda>s e s'. rw_step s e s' \<and> 0 < snd s \<and> rw_writer (fst s) = None) s1 es (rw, n)" by auto
    have "rwlock_ok s1" using rw_step_ok [OF Cons.prems(2) s1(1)] by blast
    with Cons.IH [OF s1(4)] waiting_writer_step [OF Cons.prems(2) s1(1-3)] show ?case by blast
  qed auto
  moreover have "fst (rwlock_lock_pass w True u now registered rw) = RwDone OK" if "rw_writer rw = None" "\<nexists>t. is_reader t rw"
  proof -
    have "rw_readers rw = []" using that(2) by (cases "rw_readers rw") (auto simp: is_reader_iff)
    then have "rw_reader_count rw = 0" using rwlock_okD(2) [of rw n] run by simp
    then show ?thesis using that by (simp add: rwlock_lock_pass_def)
  qed
  ultimately show ?thesis by (auto simp: is_reader_iff)
qed

section \<open>Locks that were never initialised\<close>

text \<open>
  Every locking call creates the object of a lock variable that holds a null pointer, as a statically initialised one
  does, except the trying write lock, which stops the process.
\<close>

lemma trywrlock_static_stops:
  "fst (pthread_rwlock_tryrdlock name (Some t) (Some None)) = OK"
  "fst (pthread_rwlock_lock name w (Some t) u now (Some None)) = RwDone OK"
  "pthread_rwlock_trywrlock (Some t) (Some None) = None"
  by (simp_all add: pthread_rwlock_tryrdlock_def pthread_rwlock_lock_def pthread_rwlock_trywrlock_def create_rwlock_def
      rwlock_tryrdlock_def may_read_def rwlock_lock_pass_def new_rwlock_def is_reader_def unregister_writer_wait_def Let_def)

section \<open>Witnesses\<close>

lemma rw_run_example:
  "\<exists>rw. steps rw_step (new_rwlock None, 0) [(5, 1, 0), (6, 0, 0)] (rw, 1) \<and> rw_writer rw = None \<and> rw_readers rw = [(5, 1)] \<and>
     rw_waiting_writers rw = 1 \<and> rw_reader_count rw = 1"
proof -
  let ?r = "new_rwlock None\<lparr>rw_readers := [(5, 1)], rw_reader_count := 1\<rparr>"
  let ?w = "?r\<lparr>rw_waiting_writers := 1\<rparr>"
  have 1: "rw_step (new_rwlock None, 0) (5, 1, 0) (?r, 0)"
    using rw_step.try_read [of 5 "new_rwlock None" OK ?r 0]
    by (simp add: rwlock_tryrdlock_def may_read_def new_rwlock_def rwlock_add_reader_def inc32_def UINT32_MAX_def)
  have 2: "rw_step (?r, 0) (6, 0, 0) (?w, 1)"
    using rw_step.pass [of 6 True Forever 0 False ?r "RwPark SIGNAL_POLL_NANOS" True ?w 0 1]
    by (simp add: rwlock_lock_pass_def new_rwlock_def is_reader_def rwlock_park_def inc32_def UINT32_MAX_def)
  have "steps rw_step (new_rwlock None, 0) [(5, 1, 0), (6, 0, 0)] (?w, 1)" using 1 2 by auto
  then show ?thesis by (intro exI [of _ ?w]) (simp add: new_rwlock_def)
qed

lemma rwlock_exclusive_witness:
  "\<exists>rw. steps rw_step (new_rwlock None, 0) [(5, 1, 0), (6, 0, 0)] (rw, 1) \<and> is_reader 5 rw \<and> \<not> is_reader 6 rw"
proof -
  obtain rw where run: "steps rw_step (new_rwlock None, 0) [(5, 1, 0), (6, 0, 0)] (rw, 1)" using rw_run_example by blast
  from rwlock_exclusive [OF run, of 5 6] rwlock_exclusive [OF run, of 6 5] run show ?thesis by (intro exI [of _ rw]) simp
qed

lemma rwlock_writers_not_overtaken_witness:
  "\<exists>rw n. steps (\<lambda>s e s'. rw_step s e s' \<and> 0 < snd s \<and> rw_writer (fst s) = None) (rw, 1) [(7, 0, 0)] (rw, n) \<and>
     is_reader 5 rw \<and> \<not> is_reader 7 rw"
proof -
  obtain rw where run: "steps rw_step (new_rwlock None, 0) [(5, 1, 0), (6, 0, 0)] (rw, 1)" and w: "rw_writer rw = None"
    and rs: "rw_readers rw = [(5, 1)]" "rw_waiting_writers rw = 1" "rw_reader_count rw = 1" using rw_run_example by blast
  have "rw_step (rw, 1) (7, 0, 0) (rw, 1)"
    using rw_step.try_read [of 7 rw KERNEL_ERROR_EBUSY rw 1] w rs codes_distinct
    by (simp add: rwlock_tryrdlock_def may_read_def is_reader_def UINT32_MAX_def)
  then have wait: "steps (\<lambda>s e s'. rw_step s e s' \<and> 0 < snd s \<and> rw_writer (fst s) = None) (rw, 1) [(7, 0, 0)] (rw, 1)"
    using w by simp
  from rwlock_writers_not_overtaken [OF run wait] rs wait show ?thesis
    by (intro exI [of _ rw] exI [of _ 1]) (auto simp: is_reader_iff)
qed

end
