(* ===== verification/Pthread_Cond.thy ===== *)
theory Pthread_Cond
  imports Pthread_Mutex
begin

text \<open>
  The condition variables of the guest (\<open>PthreadCond*\<close>, \<open>Cond*Waiter*\<close> and \<open>PthreadCondattr*\<close> in
  \<open>kernel/pthread.cpp\<close>). A thread is a number and keeps a wake-up counter \<open>cond_sequence\<close> and the address of the
  condition variable it is queued on; the condition variable has its own counter for broadcasts and the queue of waiting
  threads. A waiting call remembers both counters and is over as soon as one of them differs. Such a call is a begin, passes
  through its loop, each under the host mutex of the object, and passes through the loop that takes the guest's mutex again.
  The counters are 64-bit words.
\<close>

record cond =
  cd_name :: string
  cd_sequence :: u64
  cd_clock_id :: int
  cd_waiters :: "nat list"

record cond_thread =
  ct_sequence :: u64
  ct_waiting :: "nat option"

type_synonym cond_threads = "nat \<Rightarrow> cond_thread"

definition cond_leave :: "nat \<Rightarrow> cond_thread \<Rightarrow> cond_thread" where
  "cond_leave ca th = (if ct_waiting th = Some ca then th\<lparr>ct_waiting := None\<rparr> else th)"

section \<open>The queue of waiters\<close>

text \<open>\<open>ca\<close> is the address of the object.\<close>

definition cond_add_waiter :: "nat \<Rightarrow> nat \<Rightarrow> cond \<times> cond_threads \<Rightarrow> cond \<times> cond_threads" where
  "cond_add_waiter ca t s =
     ((fst s)\<lparr>cd_waiters := cd_waiters (fst s) @ [t]\<rparr>, (snd s)(t := (snd s t)\<lparr>ct_waiting := Some ca\<rparr>))"

definition cond_remove_waiter :: "nat \<Rightarrow> nat \<Rightarrow> cond \<times> cond_threads \<Rightarrow> bool \<times> cond \<times> cond_threads" where
  "cond_remove_waiter ca t s =
     (if t \<notin> set (cd_waiters (fst s)) then (False, s)
      else (True, (fst s)\<lparr>cd_waiters := remove1 t (cd_waiters (fst s))\<rparr>, (snd s)(t := cond_leave ca (snd s t))))"

definition cond_wake_waiter :: "nat \<Rightarrow> nat option \<Rightarrow> cond \<times> cond_threads \<Rightarrow> bool \<times> cond \<times> cond_threads" where
  "cond_wake_waiter ca thread s =
     (if thread = None \<and> cd_waiters (fst s) = [] then (False, s)
      else
        let t = (case thread of None \<Rightarrow> hd (cd_waiters (fst s)) | Some t \<Rightarrow> t)
        in if t \<notin> set (cd_waiters (fst s)) then (False, s)
           else
             let th = cond_leave ca (snd s t)
             in (True, (fst s)\<lparr>cd_waiters := remove1 t (cd_waiters (fst s))\<rparr>,
                 (snd s)(t := th\<lparr>ct_sequence := add64 (ct_sequence th) 1\<rparr>)))"

definition cond_clear_waiters :: "nat \<Rightarrow> cond \<times> cond_threads \<Rightarrow> cond \<times> cond_threads" where
  "cond_clear_waiters ca s =
     ((fst s)\<lparr>cd_waiters := []\<rparr>, fold (\<lambda>t ths. ths(t := cond_leave ca (ths t))) (cd_waiters (fst s)) (snd s))"

text \<open>The inner blocks of \<open>PthreadCondBroadcast\<close> and \<open>PthreadWakeForSignal\<close>: whether they notify.\<close>

definition cond_broadcast :: "nat \<Rightarrow> cond \<times> cond_threads \<Rightarrow> bool \<times> cond \<times> cond_threads" where
  "cond_broadcast ca s =
     (if cd_waiters (fst s) \<noteq> []
      then (True, cond_clear_waiters ca ((fst s)\<lparr>cd_sequence := add64 (cd_sequence (fst s)) 1\<rparr>, snd s))
      else (False, s))"

definition wake_for_signal :: "nat option \<Rightarrow> cond_threads \<Rightarrow> nat option" where
  "wake_for_signal thread ths = (case thread of None \<Rightarrow> None | Some t \<Rightarrow> ct_waiting (ths t))"

section \<open>Waiting\<close>

datatype cond_until = CondForever | CondUntil int

text \<open>
  Where a waiting call stands: parked in its loop with the two counters it remembers, the recursion count of the mutex and
  its deadline; taking the mutex again with the result of the loop; or returned.
\<close>

datatype cond_call =
  CondParked u64 u64 nat cond_until
| CondRelock host_result nat
| CondReturned int

fun cond_code :: "host_result \<Rightarrow> int" where
  "cond_code HOk = OK"
| "cond_code HTimedOut = KERNEL_ERROR_ETIMEDOUT"
| "cond_code HPerm = KERNEL_ERROR_EPERM"
| "cond_code _ = KERNEL_ERROR_EINVAL"

definition cond_ready :: "u64 \<Rightarrow> u64 \<Rightarrow> nat \<Rightarrow> cond \<times> cond_threads \<Rightarrow> bool" where
  "cond_ready sequence thread_sequence t s \<longleftrightarrow> cd_sequence (fst s) \<noteq> sequence \<or> ct_sequence (snd s t) \<noteq> thread_sequence"

text \<open>The head of the loop at the time \<open>now\<close> of the steady clock, in nanoseconds. The longest park is \<open>cond_poll\<close>.\<close>

definition cond_poll :: "cond_until \<Rightarrow> int \<Rightarrow> int" where
  "cond_poll until now =
     (case until of CondForever \<Rightarrow> int SIGNAL_POLL_NANOS | CondUntil deadline \<Rightarrow> min (deadline - now) (int SIGNAL_POLL_NANOS))"

definition cond_wait_head ::
  "nat \<Rightarrow> nat \<Rightarrow> u64 \<Rightarrow> u64 \<Rightarrow> nat \<Rightarrow> cond_until \<Rightarrow> int \<Rightarrow> cond \<times> cond_threads \<Rightarrow> cond_call \<times> cond \<times> cond_threads" where
  "cond_wait_head ca t sequence thread_sequence recurse until now s =
     (if cond_ready sequence thread_sequence t s then (CondRelock HOk recurse, snd (cond_remove_waiter ca t s))
      else if (case until of CondForever \<Rightarrow> False | CondUntil deadline \<Rightarrow> now \<ge> deadline)
      then (CondRelock HTimedOut recurse, snd (cond_remove_waiter ca t s))
      else (CondParked sequence thread_sequence recurse until, s))"

text \<open>
  The beginning of \<open>PthreadCondWait\<close>, \<open>PthreadCondTimedwait\<close> and \<open>PthreadCondTimedwaitAbs\<close> on existing objects, up to
  the first park. A call with a relative limit of zero has the limit \<open>None\<close>; it never looks at the counters.
\<close>

definition cond_wait_begin ::
  "nat \<Rightarrow> nat \<Rightarrow> cond_until option \<Rightarrow> int \<Rightarrow> (cond \<times> cond_threads) \<times> mutex \<Rightarrow> cond_call \<times> (cond \<times> cond_threads) \<times> mutex" where
  "cond_wait_begin ca t until now w =
     (case w of (s, m) \<Rightarrow>
        if mx_owner m \<noteq> Some t then (CondReturned KERNEL_ERROR_EPERM, s, m)
        else
          let sequence = cd_sequence (fst s); thread_sequence = ct_sequence (snd s t); s = cond_add_waiter ca t s
          in case mutex_unlock t True m of
               (r, recurse, m) \<Rightarrow>
                 if r \<noteq> HOk
                 then (CondReturned (if r = HPerm then KERNEL_ERROR_EPERM else KERNEL_ERROR_EINVAL),
                       snd (cond_remove_waiter ca t s), m)
                 else case until of
                        None \<Rightarrow> (CondRelock HTimedOut recurse, snd (cond_remove_waiter ca t s), m)
                      | Some u \<Rightarrow>
                          (case cond_wait_head ca t sequence thread_sequence recurse u now s of (call, s) \<Rightarrow> (call, s, m)))"

text \<open>A pass of \<open>NativeMutexLockRecurse\<close>, the first one or one after a park, and the end of the call.\<close>

definition cond_relock :: "nat \<Rightarrow> host_result \<Rightarrow> nat \<Rightarrow> lock_state \<times> mutex \<Rightarrow> cond_call \<times> mutex" where
  "cond_relock t result recurse attempt =
     (case mutex_restore recurse attempt of
        (LockDone lock_result, m) \<Rightarrow> (CondReturned (cond_code (if result = HOk then lock_result else result)), m)
      | (_, m) \<Rightarrow> (CondRelock result recurse, m))"

text \<open>
  \<open>NativeCondDeadlineFromAbs\<close>: \<open>clock\<close> is what the clock of the object reads, \<open>None\<close> when it cannot be read, and \<open>now\<close> the
  steady clock. Times are seconds and nanoseconds; the difference is taken to fit in 64-bit nanoseconds.
\<close>

definition cond_deadline_from_abs :: "(int \<times> int) option \<Rightarrow> (int \<times> int) option \<Rightarrow> int \<Rightarrow> int option" where
  "cond_deadline_from_abs abstime clock now =
     (case abstime of
        None \<Rightarrow> None
      | Some (sec, nsec) \<Rightarrow>
          if sec < 0 \<or> nsec < 0 \<or> nsec \<ge> 1000000000 then None
          else case clock of
              None \<Rightarrow> None
            | Some (now_sec, now_nsec) \<Rightarrow> Some (now + ((sec - now_sec) * 1000000000 + (nsec - now_nsec))))"

section \<open>The calls of the guest\<close>

datatype host_clock = ClockRealtime | ClockMonotonic

definition posix_clock_id :: "int \<Rightarrow> host_clock option" where
  "posix_clock_id clock_id =
     (if clock_id \<in> {0, 9, 10, 13} then Some ClockRealtime
      else if clock_id \<in> {4, 5, 7, 8, 11, 12, 16, 17, 18, 19} then Some ClockMonotonic
      else None)"

text \<open>An attribute is its clock. \<open>host\<close> is the answer of the host's \<open>pthread_condattr_setclock\<close>.\<close>

definition condattr_init :: "host_result \<Rightarrow> int \<times> int" where
  "condattr_init host =
     (case host of HOk \<Rightarrow> OK | HNoMem \<Rightarrow> KERNEL_ERROR_ENOMEM | _ \<Rightarrow> KERNEL_ERROR_EINVAL, 0)"

definition condattr_setclock :: "host_result \<Rightarrow> int \<Rightarrow> int option \<Rightarrow> int \<times> int option" where
  "condattr_setclock host clock_id a =
     (case a of
        None \<Rightarrow> (KERNEL_ERROR_EINVAL, None)
      | Some _ \<Rightarrow>
          (case posix_clock_id clock_id of
             None \<Rightarrow> (KERNEL_ERROR_EINVAL, a)
           | Some pclock \<Rightarrow>
               (if host = HInval \<and> pclock = ClockMonotonic then OK else if host = HOk then OK else KERNEL_ERROR_EINVAL,
                Some clock_id)))"

definition new_cond :: "string option \<Rightarrow> int \<Rightarrow> cond" where
  "new_cond name clock_id =
     \<lparr>cd_name = (case name of None \<Rightarrow> [] | Some n \<Rightarrow> n), cd_sequence = 0, cd_clock_id = clock_id, cd_waiters = []\<rparr>"

text \<open>A guest's variable holds a null pointer or an object; \<open>da\<close> is the clock of the default attribute.\<close>

definition pthread_cond_init :: "int \<Rightarrow> int option \<Rightarrow> string option \<Rightarrow> cond option option \<Rightarrow> int \<times> cond option option" where
  "pthread_cond_init da attr name v =
     (case v of
        None \<Rightarrow> (KERNEL_ERROR_EINVAL, None)
      | Some _ \<Rightarrow> (OK, Some (Some (new_cond name (case attr of None \<Rightarrow> da | Some c \<Rightarrow> c)))))"

definition create_cond :: "int \<Rightarrow> string \<Rightarrow> cond option \<Rightarrow> cond" where
  "create_cond da name v = (case v of None \<Rightarrow> new_cond (Some name) da | Some c \<Rightarrow> c)"

text \<open>\<open>None\<close> is the process that stops on a null object.\<close>

definition pthread_cond_destroy :: "cond option option \<Rightarrow> (int \<times> cond option option) option" where
  "pthread_cond_destroy v =
     (case v of None \<Rightarrow> Some (KERNEL_ERROR_EINVAL, None) | Some None \<Rightarrow> None | Some (Some _) \<Rightarrow> Some (OK, Some None))"

definition on_cond ::
  "int \<Rightarrow> string \<Rightarrow> (cond \<times> cond_threads \<Rightarrow> bool \<times> cond \<times> cond_threads) \<Rightarrow> cond option option \<Rightarrow> cond_threads \<Rightarrow>
   int \<times> cond option option \<times> cond_threads" where
  "on_cond da name f v ths =
     (case v of
        None \<Rightarrow> (KERNEL_ERROR_EINVAL, None, ths)
      | Some c \<Rightarrow> (case f (create_cond da name c, ths) of (_, c, ths) \<Rightarrow> (OK, Some (Some c), ths)))"

definition pthread_cond_signal :: "int \<Rightarrow> string \<Rightarrow> nat \<Rightarrow> cond option option \<Rightarrow> cond_threads \<Rightarrow> int \<times> cond option option \<times> cond_threads" where
  "pthread_cond_signal da name ca = on_cond da name (cond_wake_waiter ca None)"

definition pthread_cond_broadcast :: "int \<Rightarrow> string \<Rightarrow> nat \<Rightarrow> cond option option \<Rightarrow> cond_threads \<Rightarrow> int \<times> cond option option \<times> cond_threads" where
  "pthread_cond_broadcast da name ca = on_cond da name (cond_broadcast ca)"

text \<open>The object is created before the thread is looked at.\<close>

definition pthread_cond_signalto ::
  "int \<Rightarrow> string \<Rightarrow> nat \<Rightarrow> nat option \<Rightarrow> cond option option \<Rightarrow> cond_threads \<Rightarrow> int \<times> cond option option \<times> cond_threads" where
  "pthread_cond_signalto da name ca thread v ths =
     (case thread of
        None \<Rightarrow> (KERNEL_ERROR_EINVAL, map_option (\<lambda>c. Some (create_cond da name c)) v, ths)
      | Some t \<Rightarrow> on_cond da name (cond_wake_waiter ca (Some t)) v ths)"

text \<open>How a waiting call says how long it waits; the absolute time is turned into a deadline first of all.\<close>

datatype cond_limit = WaitForever | WaitMicros nat | WaitAbs "(int \<times> int) option"

definition pthread_cond_wait ::
  "int \<Rightarrow> mutexattr \<Rightarrow> string \<Rightarrow> string \<Rightarrow> nat \<Rightarrow> nat \<Rightarrow> cond_limit \<Rightarrow> (int \<Rightarrow> (int \<times> int) option) \<Rightarrow> int \<Rightarrow> int \<Rightarrow>
   cond option option \<Rightarrow> mutex slot option \<Rightarrow> cond_threads \<Rightarrow>
   cond_call \<times> cond option option \<times> mutex slot option \<times> cond_threads" where
  "pthread_cond_wait da mda name mname ca t limit clock now later v sl ths =
     (let v = map_option (\<lambda>c. Some (create_cond da name c)) v;
          sl = map_option (\<lambda>s. SObject (create_mutex mda mname s)) sl
      in case (v, sl) of
           (Some (Some c), Some (SObject m)) \<Rightarrow>
             (let until = (case limit of
                   WaitForever \<Rightarrow> Some (Some CondForever)
                 | WaitMicros usec \<Rightarrow> Some (if usec = 0 then None else Some (CondUntil (now + int usec * 1000)))
                 | WaitAbs abstime \<Rightarrow> map_option (\<lambda>d. Some (CondUntil d)) (cond_deadline_from_abs abstime (clock (cd_clock_id c)) now))
              in case until of
                   None \<Rightarrow> (CondReturned KERNEL_ERROR_EINVAL, v, sl, ths)
                 | Some u \<Rightarrow>
                     (case cond_wait_begin ca t u later ((c, ths), m) of
                        (call, (c, ths), m) \<Rightarrow> (call, Some (Some c), Some (SObject m), ths)))
         | _ \<Rightarrow> (CondReturned KERNEL_ERROR_EINVAL, v, sl, ths))"

end
