(* ===== verification/Pthread_Cond_Facts.thy ===== *)
theory Pthread_Cond_Facts
  imports Pthread_Cond Pthread_Mutex_Facts "HOL-Library.Sublist"
begin

text \<open>
  The correctness of the condition variables: the queue holds exactly the calls that nobody has woken, a signal wakes the
  call that has waited longest and no other, no wake-up is lost, and a call returns with the mutex as it found it.
\<close>

section \<open>What the queue operations change\<close>

lemma add_waiter_effect [simp]:
  "cd_waiters (fst (cond_add_waiter ca t s)) = cd_waiters (fst s) @ [t]"
  "cd_sequence (fst (cond_add_waiter ca t s)) = cd_sequence (fst s)"
  "ct_sequence (snd (cond_add_waiter ca t s) v) = ct_sequence (snd s v)"
  "ct_waiting (snd (cond_add_waiter ca t s) v) = (if v = t then Some ca else ct_waiting (snd s v))"
  by (auto simp: cond_add_waiter_def)

lemma leave_effect [simp]:
  "ct_sequence (cond_leave ca th) = ct_sequence th" "ct_waiting (cond_leave ca th) = Some ca \<longleftrightarrow> False"
  by (auto simp: cond_leave_def)

lemma remove_waiter_effect:
  "cd_waiters (fst (snd (cond_remove_waiter ca t s))) = remove1 t (cd_waiters (fst s))"
  "cd_sequence (fst (snd (cond_remove_waiter ca t s))) = cd_sequence (fst s)"
  "ct_sequence (snd (snd (cond_remove_waiter ca t s)) v) = ct_sequence (snd s v)"
  "ct_waiting (snd (snd (cond_remove_waiter ca t s)) v) = Some ca \<longleftrightarrow>
     ct_waiting (snd s v) = Some ca \<and> \<not> (v = t \<and> t \<in> set (cd_waiters (fst s)))"
  by (auto simp: cond_remove_waiter_def remove1_idem)

lemma wake_waiter_effect:
  assumes "cond_wake_waiter ca thread s = (b, s')"
  shows "b \<and> (\<exists>t. (case thread of None \<Rightarrow> cd_waiters (fst s) \<noteq> [] \<and> t = hd (cd_waiters (fst s)) | Some t' \<Rightarrow> t = t') \<and>
      t \<in> set (cd_waiters (fst s)) \<and> cd_waiters (fst s') = remove1 t (cd_waiters (fst s)) \<and> cd_sequence (fst s') = cd_sequence (fst s) \<and>
      (\<forall>v. ct_sequence (snd s' v) = (if v = t then add64 (ct_sequence (snd s v)) 1 else ct_sequence (snd s v)) \<and>
           (ct_waiting (snd s' v) = Some ca \<longleftrightarrow> v \<noteq> t \<and> ct_waiting (snd s v) = Some ca))) \<or>
    \<not> b \<and> s' = s \<and> (case thread of None \<Rightarrow> cd_waiters (fst s) = [] | Some t \<Rightarrow> t \<notin> set (cd_waiters (fst s)))"
  using assms by (auto simp: cond_wake_waiter_def Let_def split: if_splits option.splits)

lemma clear_fold:
  "ct_sequence (fold (\<lambda>t ths. ths(t := cond_leave ca (ths t))) ts ths v) = ct_sequence (ths v)"
  "ct_waiting (fold (\<lambda>t ths. ths(t := cond_leave ca (ths t))) ts ths v) = Some ca \<longleftrightarrow> v \<notin> set ts \<and> ct_waiting (ths v) = Some ca"
  by (induction ts arbitrary: ths) auto

lemma broadcast_effect:
  assumes "cond_broadcast ca s = (b, s')" and "cd_waiters (fst s) \<noteq> []"
  shows "b \<and> cd_waiters (fst s') = [] \<and> cd_sequence (fst s') = add64 (cd_sequence (fst s)) 1 \<and>
    ct_sequence (snd s' v) = ct_sequence (snd s v) \<and>
    (ct_waiting (snd s' v) = Some ca \<longleftrightarrow> v \<notin> set (cd_waiters (fst s)) \<and> ct_waiting (snd s v) = Some ca)"
  using assms by (auto simp: cond_broadcast_def cond_clear_waiters_def clear_fold)

lemma broadcast_nobody: "cond_broadcast ca s = (b, s') \<Longrightarrow> cd_waiters (fst s) = [] \<Longrightarrow> \<not> b \<and> s' = s"
  by (simp add: cond_broadcast_def)

section \<open>Steps\<close>

text \<open>
  A condition variable at the address \<open>ca\<close>, all threads, the mutex that its callers use and the calls in progress. An
  event is the thread that takes the step and the code when its waiting call returns. The steps of the mutex are those of
  threads without a call in progress; threads that are not in a call may wait on other objects, which is \<open>elsewhere\<close>. No
  counter reaches \<open>2^64 - 1\<close>.
\<close>

record cond_world =
  cw_cv :: "cond \<times> cond_threads"
  cw_mutex :: mutex
  cw_calls :: "nat \<Rightarrow> cond_call option"

type_synonym cond_event = "nat \<times> int option"

fun in_progress :: "cond_call \<Rightarrow> cond_call option" where
  "in_progress (CondReturned code) = None"
| "in_progress call = Some call"

fun returned :: "cond_call \<Rightarrow> int option" where
  "returned (CondReturned code) = Some code"
| "returned call = None"

inductive cond_step :: "nat \<Rightarrow> cond_world \<Rightarrow> cond_event \<Rightarrow> cond_world \<Rightarrow> bool" for ca where
  start: "cw_calls w t = None \<Longrightarrow> cond_wait_begin ca t u now (cw_cv w, cw_mutex w) = (call, s, m) \<Longrightarrow>
    cond_step ca w (t, returned call) \<lparr>cw_cv = s, cw_mutex = m, cw_calls = (cw_calls w)(t := in_progress call)\<rparr>"
| pass: "cw_calls w t = Some (CondParked q tq k u) \<Longrightarrow> cond_wait_head ca t q tq k u now (cw_cv w) = (call, s) \<Longrightarrow>
    cond_step ca w (t, None) \<lparr>cw_cv = s, cw_mutex = cw_mutex w, cw_calls = (cw_calls w)(t := Some call)\<rparr>"
| relock: "cw_calls w t = Some (CondRelock r k) \<Longrightarrow>
    attempt = mutex_lock_begin t None now now (cw_mutex w) \<or> attempt = mutex_lock_head t Forever now (cw_mutex w) \<Longrightarrow>
    cond_relock t r k attempt = (call, m) \<Longrightarrow>
    cond_step ca w (t, returned call) \<lparr>cw_cv = cw_cv w, cw_mutex = m, cw_calls = (cw_calls w)(t := in_progress call)\<rparr>"
| signal: "cond_wake_waiter ca thread (cw_cv w) = (b, s) \<Longrightarrow> (\<forall>v. ct_sequence (snd (cw_cv w) v) < U64_MAX) \<Longrightarrow>
    cond_step ca w (t, None) (w\<lparr>cw_cv := s\<rparr>)"
| broadcast: "cond_broadcast ca (cw_cv w) = (b, s) \<Longrightarrow> cd_sequence (fst (cw_cv w)) < U64_MAX \<Longrightarrow>
    cond_step ca w (t, None) (w\<lparr>cw_cv := s\<rparr>)"
| mutex: "mutex_step (cw_mutex w) e m \<Longrightarrow> cw_calls w (fst e) = None \<Longrightarrow> cond_step ca w (fst e, None) (w\<lparr>cw_mutex := m\<rparr>)"
| elsewhere: "cw_calls w t = None \<Longrightarrow> ct_waiting th \<noteq> Some ca \<Longrightarrow>
    cond_step ca w (t, None) (w\<lparr>cw_cv := (fst (cw_cv w), (snd (cw_cv w))(t := th))\<rparr>)"

section \<open>The invariant\<close>

text \<open>A parked call that nobody has woken, the counters that it remembers, and the recursion count that it keeps.\<close>

fun unwoken :: "cond \<times> cond_threads \<Rightarrow> nat \<Rightarrow> cond_call option \<Rightarrow> bool" where
  "unwoken s t (Some (CondParked q tq k u)) = (\<not> cond_ready q tq t s)"
| "unwoken s t _ = False"

fun counters_seen :: "cond \<times> cond_threads \<Rightarrow> nat \<Rightarrow> cond_call option \<Rightarrow> bool" where
  "counters_seen s t (Some (CondParked q tq k u)) = (q \<le> cd_sequence (fst s) \<and> tq \<le> ct_sequence (snd s t))"
| "counters_seen s t _ = True"

fun kept_count :: "cond_call option \<Rightarrow> nat option" where
  "kept_count (Some (CondParked q tq k u)) = Some k"
| "kept_count (Some (CondRelock r k)) = Some k"
| "kept_count _ = None"

fun proper_result :: "cond_call option \<Rightarrow> bool" where
  "proper_result (Some (CondRelock r k)) = (r = HOk \<or> r = HTimedOut)"
| "proper_result _ = True"

definition cond_queue_ok :: "nat \<Rightarrow> cond \<times> cond_threads \<Rightarrow> (nat \<Rightarrow> cond_call option) \<Rightarrow> bool" where
  "cond_queue_ok ca s calls \<longleftrightarrow> distinct (cd_waiters (fst s)) \<and>
     (\<forall>t. (t \<in> set (cd_waiters (fst s)) \<longleftrightarrow> unwoken s t (calls t)) \<and> counters_seen s t (calls t) \<and>
          (ct_waiting (snd s t) = Some ca \<longleftrightarrow> t \<in> set (cd_waiters (fst s))))"

definition relock_ok :: "mutex \<Rightarrow> (nat \<Rightarrow> cond_call option) \<Rightarrow> bool" where
  "relock_ok m calls \<longleftrightarrow> mutex_ok m \<and>
     (\<forall>t. calls t \<noteq> None \<longrightarrow> mx_owner m \<noteq> Some t \<and>
        (\<exists>k. kept_count (calls t) = Some k \<and> 0 < k \<and> k \<le> UINT32_MAX \<and> (mx_type m = 2 \<or> k \<le> 1)) \<and> proper_result (calls t))"

definition world_ok :: "nat \<Rightarrow> cond_world \<Rightarrow> bool" where
  "world_ok ca w \<longleftrightarrow> cond_queue_ok ca (cw_cv w) (cw_calls w) \<and> relock_ok (cw_mutex w) (cw_calls w)"

lemma cond_queue_okD:
  assumes "cond_queue_ok ca s calls"
  shows "distinct (cd_waiters (fst s))" "t \<in> set (cd_waiters (fst s)) \<longleftrightarrow> unwoken s t (calls t)" "counters_seen s t (calls t)"
    "ct_waiting (snd s t) = Some ca \<longleftrightarrow> t \<in> set (cd_waiters (fst s))"
  using assms by (auto simp: cond_queue_ok_def)

lemma cond_queue_okI:
  assumes "distinct (cd_waiters (fst s))"
    and "\<And>t. (t \<in> set (cd_waiters (fst s)) \<longleftrightarrow> unwoken s t (calls t)) \<and> counters_seen s t (calls t) \<and>
      (ct_waiting (snd s t) = Some ca \<longleftrightarrow> t \<in> set (cd_waiters (fst s)))"
  shows "cond_queue_ok ca s calls"
  using assms by (simp add: cond_queue_ok_def)

text \<open>A thread whose counters did not change stands where it stood.\<close>

lemma same_counters:
  assumes "cd_sequence (fst s') = cd_sequence (fst s)" and "ct_sequence (snd s' t) = ct_sequence (snd s t)"
  shows "unwoken s' t call = unwoken s t call" "counters_seen s' t call = counters_seen s t call"
  using assms by (induction s t call rule: unwoken.induct) (auto simp: cond_ready_def)

lemma cond_queue_ok_drop:
  assumes ok: "cond_queue_ok ca s calls" and "\<not> unwoken s t call" and "counters_seen s t call"
  shows "cond_queue_ok ca (snd (cond_remove_waiter ca t s)) (calls(t := call))"
proof (rule cond_queue_okI)
  note okD = cond_queue_okD [OF ok]
  show "distinct (cd_waiters (fst (snd (cond_remove_waiter ca t s))))" using okD(1) by (simp add: remove_waiter_effect)
  fix v
  show "(v \<in> set (cd_waiters (fst (snd (cond_remove_waiter ca t s)))) \<longleftrightarrow>
      unwoken (snd (cond_remove_waiter ca t s)) v ((calls(t := call)) v)) \<and>
    counters_seen (snd (cond_remove_waiter ca t s)) v ((calls(t := call)) v) \<and>
    (ct_waiting (snd (snd (cond_remove_waiter ca t s)) v) = Some ca \<longleftrightarrow> v \<in> set (cd_waiters (fst (snd (cond_remove_waiter ca t s)))))"
    using okD(1) okD(2-4) [of v] assms(2,3) same_counters [of "snd (cond_remove_waiter ca t s)" s v]
    by (auto simp: remove_waiter_effect)
qed


lemma cond_queue_ok_enter:
  assumes ok: "cond_queue_ok ca s calls" and none: "calls t = None"
  shows "cond_queue_ok ca (cond_add_waiter ca t s) (calls(t := Some (CondParked (cd_sequence (fst s)) (ct_sequence (snd s t)) k u)))"
proof (rule cond_queue_okI)
  note okD = cond_queue_okD [OF ok]
  have new: "t \<notin> set (cd_waiters (fst s))" using okD(2) [of t] none by simp
  then show "distinct (cd_waiters (fst (cond_add_waiter ca t s)))" using okD(1) by simp
  let ?s = "cond_add_waiter ca t s"
  let ?calls = "calls(t := Some (CondParked (cd_sequence (fst s)) (ct_sequence (snd s t)) k u))"
  fix v
  show "(v \<in> set (cd_waiters (fst ?s)) \<longleftrightarrow> unwoken ?s v (?calls v)) \<and> counters_seen ?s v (?calls v) \<and>
    (ct_waiting (snd ?s v) = Some ca \<longleftrightarrow> v \<in> set (cd_waiters (fst ?s)))"
    using okD(2-4) [of v] new same_counters [of ?s s v] by (auto simp: cond_ready_def)
qed

lemma cond_head_ok:
  assumes ok: "cond_queue_ok ca s calls" and at: "calls t = Some (CondParked q tq k u)"
    and run: "cond_wait_head ca t q tq k u now s = (call, s')"
  shows "cond_queue_ok ca s' (calls(t := Some call)) \<and> (call = CondParked q tq k u \<or> call = CondRelock HOk k \<or> call = CondRelock HTimedOut k)"
proof (cases "call = CondParked q tq k u")
  case True
  then have "s' = s" using run by (auto simp: cond_wait_head_def split: if_splits)
  then show ?thesis using ok True at by (simp add: fun_upd_idem)
next
  case False
  then obtain r where r: "call = CondRelock r k" "r = HOk \<or> r = HTimedOut" "s' = snd (cond_remove_waiter ca t s)"
    using run by (auto simp: cond_wait_head_def split: if_splits)
  show ?thesis using cond_queue_ok_drop [OF ok, of t "Some call"] r by auto
qed

text \<open>The ways that a call begins.\<close>

lemma wait_begin_cases:
  assumes "cond_wait_begin ca t u now (s, m) = (call, s', m')"
  shows "mx_owner m \<noteq> Some t \<and> call = CondReturned KERNEL_ERROR_EPERM \<and> s' = s \<and> m' = m \<or>
    mx_owner m = Some t \<and> m' = m\<lparr>mx_owner := None, mx_count := 0\<rparr> \<and>
     (call = CondRelock HTimedOut (mx_count m) \<and> s' = snd (cond_remove_waiter ca t (cond_add_waiter ca t s)) \<or>
      (\<exists>v. cond_wait_head ca t (cd_sequence (fst s)) (ct_sequence (snd s t)) (mx_count m) v now (cond_add_waiter ca t s) = (call, s')))"
proof (cases "mx_owner m = Some t")
  case True
  obtain r k m1 where un: "mutex_unlock t True m = (r, k, m1)" by (metis prod_cases3)
  have un': "r = HOk" "k = mx_count m" "m1 = m\<lparr>mx_owner := None, mx_count := 0\<rparr>" using mutex_unlock_cases [OF un] True by auto
  show ?thesis
  proof (cases u)
    case None
    then show ?thesis using assms True un un' by (auto simp: cond_wait_begin_def Let_def)
  next
    case (Some v)
    obtain call1 s1 where head:
      "cond_wait_head ca t (cd_sequence (fst s)) (ct_sequence (snd s t)) (mx_count m) v now (cond_add_waiter ca t s) = (call1, s1)"
      by (metis surj_pair)
    then show ?thesis using assms True un un' Some by (simp add: cond_wait_begin_def Let_def) blast
  qed
qed (use assms in \<open>simp add: cond_wait_begin_def\<close>)

lemma wait_begin_spec:
  assumes ok: "cond_queue_ok ca s calls" and none: "calls t = None"
    and run: "cond_wait_begin ca t u now (s, m) = (call, s', m')"
  shows "cond_queue_ok ca s' (calls(t := in_progress call)) \<and>
    (mx_owner m \<noteq> Some t \<and> call = CondReturned KERNEL_ERROR_EPERM \<and> m' = m \<or>
     mx_owner m = Some t \<and> kept_count (in_progress call) = Some (mx_count m) \<and> proper_result (in_progress call) \<and>
       returned call = None \<and> m' = m\<lparr>mx_owner := None, mx_count := 0\<rparr>)"
proof -
  note enter = cond_queue_ok_enter [OF ok none, where k = "mx_count m"]
  from wait_begin_cases [OF run] show ?thesis
  proof (elim disjE conjE exE)
    assume "call = CondReturned KERNEL_ERROR_EPERM" "s' = s" "m' = m" "mx_owner m \<noteq> Some t"
    then show ?thesis using ok none by (simp add: fun_upd_idem)
  next
    assume "call = CondRelock HTimedOut (mx_count m)" "s' = snd (cond_remove_waiter ca t (cond_add_waiter ca t s))"
      "mx_owner m = Some t" "m' = m\<lparr>mx_owner := None, mx_count := 0\<rparr>"
    then show ?thesis using cond_queue_ok_drop [OF enter, where t = t and call = "Some call"] by simp
  next
    fix v
    assume head: "cond_wait_head ca t (cd_sequence (fst s)) (ct_sequence (snd s t)) (mx_count m) v now (cond_add_waiter ca t s) = (call, s')"
      and "mx_owner m = Some t" "m' = m\<lparr>mx_owner := None, mx_count := 0\<rparr>"
    then show ?thesis using cond_head_ok [OF enter _ head] by auto
  qed
qed

lemma wake_ok:
  assumes ok: "cond_queue_ok ca s calls" and run: "cond_wake_waiter ca thread s = (b, s')" and bound: "\<forall>v. ct_sequence (snd s v) < U64_MAX"
  shows "cond_queue_ok ca s' calls"
proof -
  note okD = cond_queue_okD [OF ok]
  from wake_waiter_effect [OF run] show ?thesis
  proof (elim disjE conjE exE)
    fix t
    assume eff: "t \<in> set (cd_waiters (fst s))" "cd_waiters (fst s') = remove1 t (cd_waiters (fst s))" "cd_sequence (fst s') = cd_sequence (fst s)"
      "\<forall>v. ct_sequence (snd s' v) = (if v = t then add64 (ct_sequence (snd s v)) 1 else ct_sequence (snd s v)) \<and>
           (ct_waiting (snd s' v) = Some ca \<longleftrightarrow> v \<noteq> t \<and> ct_waiting (snd s v) = Some ca)"
    have add: "add64 (ct_sequence (snd s t)) 1 = ct_sequence (snd s t) + 1" using bound by (simp add: add64_le less_eq_Suc_le Suc_leI)
    obtain q tq k u where call: "calls t = Some (CondParked q tq k u)" "q \<le> cd_sequence (fst s)" "tq \<le> ct_sequence (snd s t)"
      using okD(2,3) [of t] eff(1) by (cases "(s, t, calls t)" rule: unwoken.cases) auto
    show ?thesis
    proof (rule cond_queue_okI)
      show "distinct (cd_waiters (fst s'))" using okD(1) eff(2) by simp
      fix v
      show "(v \<in> set (cd_waiters (fst s')) \<longleftrightarrow> unwoken s' v (calls v)) \<and> counters_seen s' v (calls v) \<and>
        (ct_waiting (snd s' v) = Some ca \<longleftrightarrow> v \<in> set (cd_waiters (fst s')))"
      proof (cases "v = t")
        case True
        then show ?thesis using call eff okD(1) add by (auto simp: cond_ready_def)
      next
        case False
        then show ?thesis using eff okD(1) okD(2-4) [of v] same_counters [of s' s v] by auto
      qed
    qed
  qed (use ok in simp)
qed

lemma broadcast_ok:
  assumes ok: "cond_queue_ok ca s calls" and run: "cond_broadcast ca s = (b, s')" and bound: "cd_sequence (fst s) < U64_MAX"
  shows "cond_queue_ok ca s' calls"
proof (cases "cd_waiters (fst s) = []")
  case True
  then show ?thesis using broadcast_nobody [OF run] ok by simp
next
  case False
  note okD = cond_queue_okD [OF ok]
  note eff = broadcast_effect [OF run False]
  have add: "add64 (cd_sequence (fst s)) 1 = cd_sequence (fst s) + 1" using bound by (simp add: add64_le)
  show ?thesis
  proof (rule cond_queue_okI)
    show "distinct (cd_waiters (fst s'))" using eff by simp
    fix v
    have "\<not> unwoken s' v (calls v) \<and> counters_seen s' v (calls v)"
      using okD(3) [of v] eff [of v] add by (cases "(s, v, calls v)" rule: unwoken.cases) (auto simp: cond_ready_def)
    then show "(v \<in> set (cd_waiters (fst s')) \<longleftrightarrow> unwoken s' v (calls v)) \<and> counters_seen s' v (calls v) \<and>
      (ct_waiting (snd s' v) = Some ca \<longleftrightarrow> v \<in> set (cd_waiters (fst s')))"
      using eff [of v] okD(4) [of v] by auto
  qed
qed


lemma relock_spec:
  assumes "mx_owner m \<noteq> Some t" and "attempt = mutex_lock_begin t None now now m \<or> attempt = mutex_lock_head t Forever now m"
    and "cond_relock t r k attempt = (call, m')"
  shows "mx_owner m = None \<and> call = CondReturned (cond_code r) \<and> m' = m\<lparr>mx_owner := Some t, mx_count := max k 1\<rparr> \<or>
    mx_owner m \<noteq> None \<and> call = CondRelock r k \<and> m' = m"
proof -
  have "attempt = mutex_lock_head t Forever now m"
    using assms(1,2) by (auto simp: mutex_lock_begin_def lock_until_def)
  then show ?thesis
    using assms(3) by (auto simp: cond_relock_def mutex_lock_head_def mutex_restore_def split: if_splits)
qed

section \<open>The contract\<close>

lemma relock_okD:
  assumes "relock_ok m calls" and "calls t = Some call"
  shows "mx_owner m \<noteq> Some t" "proper_result (Some call)"
    "\<exists>k. kept_count (Some call) = Some k \<and> 0 < k \<and> k \<le> UINT32_MAX \<and> (mx_type m = 2 \<or> k \<le> 1)"
  using assms by (auto simp: relock_ok_def dest: spec [of _ t])

lemma relock_ok_upd:
  assumes "relock_ok m calls" and "mutex_ok m'" and "mx_type m' = mx_type m"
    and "\<And>v. v \<noteq> t \<Longrightarrow> calls v \<noteq> None \<Longrightarrow> mx_owner m' \<noteq> Some v"
    and "call \<noteq> None \<Longrightarrow> mx_owner m' \<noteq> Some t \<and> proper_result call \<and>
      (\<exists>k. kept_count call = Some k \<and> 0 < k \<and> k \<le> UINT32_MAX \<and> (mx_type m = 2 \<or> k \<le> 1))"
  shows "relock_ok m' (calls(t := call))"
  using assms by (auto simp: relock_ok_def)

lemma cond_step_ok:
  assumes ok: "world_ok ca w" and step: "cond_step ca w e w'"
  shows "world_ok ca w'"
  using step
proof (cases rule: cond_step.cases)
  case (start t u now call s m)
  have q: "cond_queue_ok ca (cw_cv w) (cw_calls w)" and r: "relock_ok (cw_mutex w) (cw_calls w)" and mok: "mutex_ok (cw_mutex w)"
    using ok by (auto simp: world_ok_def relock_ok_def)
  note spec = wait_begin_spec [OF q start(3,4)]
  have "relock_ok m ((cw_calls w)(t := in_progress call))"
  proof (rule relock_ok_upd [OF r])
    show "mutex_ok m" "mx_type m = mx_type (cw_mutex w)" using spec mok by (auto simp: mutex_ok_def)
    show "mx_owner m \<noteq> Some v" if "cw_calls w v \<noteq> None" for v
      using spec that r by (auto simp: relock_ok_def)
    show "mx_owner m \<noteq> Some t \<and> proper_result (in_progress call) \<and>
      (\<exists>k. kept_count (in_progress call) = Some k \<and> 0 < k \<and> k \<le> UINT32_MAX \<and> (mx_type (cw_mutex w) = 2 \<or> k \<le> 1))"
      if "in_progress call \<noteq> None" using spec that mok by (auto simp: mutex_ok_def)
  qed
  then show ?thesis using spec by (simp add: world_ok_def start(2))
next
  case (pass t q tq k u now call s)
  have qok: "cond_queue_ok ca (cw_cv w) (cw_calls w)" and r: "relock_ok (cw_mutex w) (cw_calls w)" and mok: "mutex_ok (cw_mutex w)"
    using ok by (auto simp: world_ok_def relock_ok_def)
  note spec = cond_head_ok [OF qok pass(3,4)]
  have "relock_ok (cw_mutex w) ((cw_calls w)(t := Some call))"
    using relock_okD [OF r pass(3)] spec r mok by (intro relock_ok_upd [OF r]) (auto simp: relock_ok_def)
  then show ?thesis using spec by (simp add: world_ok_def pass(2))
next
  case (relock t r k attempt now call m)
  have qok: "cond_queue_ok ca (cw_cv w) (cw_calls w)" and rok: "relock_ok (cw_mutex w) (cw_calls w)" and mok: "mutex_ok (cw_mutex w)"
    using ok by (auto simp: world_ok_def relock_ok_def)
  note inv = relock_okD [OF rok relock(3)]
  note spec = relock_spec [OF inv(1) relock(4,5)]
  have "relock_ok m ((cw_calls w)(t := in_progress call))"
    using inv spec rok mok by (intro relock_ok_upd [OF rok]) (auto simp: relock_ok_def mutex_ok_def UINT32_MAX_def)
  moreover have "cond_queue_ok ca (cw_cv w) ((cw_calls w)(t := in_progress call))"
  proof (rule cond_queue_okI)
    show "distinct (cd_waiters (fst (cw_cv w)))" using cond_queue_okD(1) [OF qok] .
    fix v
    show "(v \<in> set (cd_waiters (fst (cw_cv w))) \<longleftrightarrow> unwoken (cw_cv w) v (((cw_calls w)(t := in_progress call)) v)) \<and>
      counters_seen (cw_cv w) v (((cw_calls w)(t := in_progress call)) v) \<and>
      (ct_waiting (snd (cw_cv w) v) = Some ca \<longleftrightarrow> v \<in> set (cd_waiters (fst (cw_cv w))))"
      using cond_queue_okD(2-4) [OF qok, of v] spec relock(3) by auto
  qed
  ultimately show ?thesis by (simp add: world_ok_def relock(2))
next
  case (signal thread b s t)
  then show ?thesis using ok wake_ok [OF _ signal(3,4)] by (simp add: world_ok_def)
next
  case (broadcast b s t)
  then show ?thesis using ok broadcast_ok [OF _ broadcast(3,4)] by (simp add: world_ok_def)
next
  case (mutex e' m)
  have rok: "relock_ok (cw_mutex w) (cw_calls w)" and mok: "mutex_ok (cw_mutex w)"
    using ok by (auto simp: world_ok_def relock_ok_def)
  have "relock_ok m ((cw_calls w)(fst e' := cw_calls w (fst e')))"
  proof (rule relock_ok_upd [OF rok])
    show "mutex_ok m" using mutex_step_spec [OF mok mutex(3)] by blast
    show "mx_type m = mx_type (cw_mutex w)" using mutex_step_type [OF mutex(3)] .
    show "mx_owner m \<noteq> Some v" if "v \<noteq> fst e'" "cw_calls w v \<noteq> None" for v
      using mutex_step_owner [OF mutex(3)] that rok by (auto simp: relock_ok_def)
  qed (use mutex(4) in simp)
  then show ?thesis using ok by (simp add: world_ok_def mutex(2))
next
  case (elsewhere t th)
  have qok: "cond_queue_ok ca (cw_cv w) (cw_calls w)" using ok by (simp add: world_ok_def)
  let ?s = "(fst (cw_cv w), (snd (cw_cv w))(t := th))"
  have "cond_queue_ok ca ?s (cw_calls w)"
  proof (rule cond_queue_okI)
    show "distinct (cd_waiters (fst ?s))" using cond_queue_okD(1) [OF qok] by simp
    fix v
    show "(v \<in> set (cd_waiters (fst ?s)) \<longleftrightarrow> unwoken ?s v (cw_calls w v)) \<and> counters_seen ?s v (cw_calls w v) \<and>
      (ct_waiting (snd ?s v) = Some ca \<longleftrightarrow> v \<in> set (cd_waiters (fst ?s)))"
      using cond_queue_okD(2-4) [OF qok, of v] elsewhere(3,4) same_counters [of ?s "cw_cv w" v] by (cases "v = t") auto
  qed
  then show ?thesis using ok by (simp add: world_ok_def elsewhere(2))
qed

definition world_init :: "string option \<Rightarrow> int \<Rightarrow> string option \<Rightarrow> mutexattr \<Rightarrow> cond_world" where
  "world_init name clock_id mname a =
     \<lparr>cw_cv = (new_cond name clock_id, \<lambda>t. \<lparr>ct_sequence = 0, ct_waiting = None\<rparr>), cw_mutex = new_mutex mname a,
      cw_calls = (\<lambda>t. None)\<rparr>"

lemma world_init_ok: "world_ok ca (world_init name clock_id mname a)"
  using new_mutex_ok [of mname a] by (simp add: world_ok_def world_init_def cond_queue_ok_def relock_ok_def new_cond_def)

lemma world_run_ok: "steps (cond_step ca) (world_init name clock_id mname a) es w \<Longrightarrow> world_ok ca w"
  using steps_invariant [of "world_ok ca" "cond_step ca"] cond_step_ok world_init_ok by blast


section \<open>The queue\<close>

lemma subseq_remove1: "distinct xs \<Longrightarrow> subseq (remove1 x xs) xs"
  by (simp add: distinct_remove1_removeAll removeAll_filter_not_eq subseq_filter_left)

lemma unwoken_iff: "unwoken s t call \<longleftrightarrow> (\<exists>q tq k u. call = Some (CondParked q tq k u) \<and> \<not> cond_ready q tq t s)"
  by (cases "(s, t, call)" rule: unwoken.cases) auto

lemma wait_head_queue:
  "cond_wait_head ca t q tq k u now s = (call, s') \<Longrightarrow> cd_waiters (fst s') = cd_waiters (fst s) \<or> cd_waiters (fst s') = remove1 t (cd_waiters (fst s))"
  by (auto simp: cond_wait_head_def remove_waiter_effect split: if_splits)

lemma wait_begin_queue:
  assumes "cond_wait_begin ca t u now (s, m) = (call, s', m')" and "t \<notin> set (cd_waiters (fst s))"
  shows "cd_waiters (fst s') = cd_waiters (fst s) \<or> cd_waiters (fst s') = cd_waiters (fst s) @ [t]"
proof -
  have undo: "remove1 t (cd_waiters (fst (cond_add_waiter ca t s))) = cd_waiters (fst s)" using assms(2) by (simp add: remove1_append)
  from wait_begin_cases [OF assms(1)] show ?thesis
  proof (elim disjE conjE exE)
    fix v
    assume head: "cond_wait_head ca t (cd_sequence (fst s)) (ct_sequence (snd s t)) (mx_count m) v now (cond_add_waiter ca t s) = (call, s')"
    from wait_head_queue [OF head] undo show ?thesis by (elim disjE) simp_all
  qed (simp_all only: remove_waiter_effect undo simp_thms)
qed

text \<open>C21: Whatever the interleaving of waits, timeouts, signals, broadcasts and steps of the mutex: the queue of a
  condition variable holds exactly the parked calls that have not been woken, each once, and the threads in it are those
  that point to it. The queue is first come, first served: a step appends the thread that begins to wait or takes threads
  out without reordering the others. So no wake-up is lost and a call that timed out leaves nothing behind that could
  swallow a later signal.\<close>

theorem cond_queue_exact:
  assumes "steps (cond_step ca) (world_init name clock_id mname a) es w" and "cond_step ca w e w'"
  shows "distinct (cd_waiters (fst (cw_cv w))) \<and>
    (t \<in> set (cd_waiters (fst (cw_cv w))) \<longleftrightarrow>
       (\<exists>q tq k u. cw_calls w t = Some (CondParked q tq k u) \<and> \<not> cond_ready q tq t (cw_cv w))) \<and>
    (t \<in> set (cd_waiters (fst (cw_cv w))) \<longleftrightarrow> ct_waiting (snd (cw_cv w) t) = Some ca) \<and>
    (cd_waiters (fst (cw_cv w')) = cd_waiters (fst (cw_cv w)) @ [fst e] \<and> cw_calls w (fst e) = None \<or>
     subseq (cd_waiters (fst (cw_cv w'))) (cd_waiters (fst (cw_cv w))))"
proof -
  have ok: "cond_queue_ok ca (cw_cv w) (cw_calls w)" using world_run_ok [OF assms(1)] by (simp add: world_ok_def)
  note okD = cond_queue_okD [OF ok]
  have sub: "subseq (remove1 x (cd_waiters (fst (cw_cv w)))) (cd_waiters (fst (cw_cv w)))" for x
    by (rule subseq_remove1 [OF okD(1)])
  from assms(2) have "cd_waiters (fst (cw_cv w')) = cd_waiters (fst (cw_cv w)) @ [fst e] \<and> cw_calls w (fst e) = None \<or>
     subseq (cd_waiters (fst (cw_cv w'))) (cd_waiters (fst (cw_cv w)))"
  proof (cases rule: cond_step.cases)
    case (start t u now call s m)
    then show ?thesis using wait_begin_queue [OF start(4)] okD(2) [of t] by auto
  next
    case (pass t q tq k u now call s)
    then show ?thesis using wait_head_queue [OF pass(4)] sub by auto
  next
    case (signal thread b s t)
    then show ?thesis using wake_waiter_effect [OF signal(3)] sub by auto
  next
    case (broadcast b s t)
    then show ?thesis using broadcast_effect [OF broadcast(3)] broadcast_nobody [OF broadcast(3)]
      by (cases "cd_waiters (fst (cw_cv w)) = []") auto
  qed auto
  then show ?thesis using okD(1) okD(2,4) [of t] by (simp add: unwoken_iff)
qed

text \<open>C28: In every state that an interleaving reaches, a signal makes the call of the first thread in the queue return and
  leaves every other call as it was; a broadcast makes all of them return. A woken call returns at its next pass, also
  when its deadline has passed by then; with nobody in the queue both leave everything as it is.\<close>

theorem cond_signal_wakes_first:
  assumes "steps (cond_step ca) (world_init name clock_id mname a) es w" and "cw_calls w v = Some (CondParked q tq k u)"
    and "\<forall>v. ct_sequence (snd (cw_cv w) v) < U64_MAX" and "cd_sequence (fst (cw_cv w)) < U64_MAX"
    and "cond_wake_waiter ca None (cw_cv w) = (b, s)" and "cond_broadcast ca (cw_cv w) = (b', s')"
  shows "(cond_ready q tq v s \<longleftrightarrow> cond_ready q tq v (cw_cv w) \<or> (\<exists>ts. cd_waiters (fst (cw_cv w)) = v # ts)) \<and>
    cd_waiters (fst s) = tl (cd_waiters (fst (cw_cv w))) \<and> cd_waiters (fst s') = [] \<and>
    cond_ready q tq v s' \<and> fst (cond_wait_head ca v q tq k u now s') = CondRelock HOk k \<and>
    (b \<longleftrightarrow> cd_waiters (fst (cw_cv w)) \<noteq> []) \<and> (b' \<longleftrightarrow> cd_waiters (fst (cw_cv w)) \<noteq> []) \<and>
    (b \<or> s = cw_cv w) \<and> (b' \<or> s' = cw_cv w)"
proof -
  have ok: "cond_queue_ok ca (cw_cv w) (cw_calls w)" using world_run_ok [OF assms(1)] by (simp add: world_ok_def)
  have ready: "cond_ready q tq v s2 \<longleftrightarrow> v \<notin> set (cd_waiters (fst s2))" if "cond_queue_ok ca s2 (cw_calls w)" for s2
    using cond_queue_okD(2) [OF that, of v] assms(2) by simp
  have s_ok: "cond_queue_ok ca s (cw_calls w)" and s'_ok: "cond_queue_ok ca s' (cw_calls w)"
    using wake_ok [OF ok assms(5,3)] broadcast_ok [OF ok assms(6,4)] .
  have s: "cd_waiters (fst s) = tl (cd_waiters (fst (cw_cv w)))" "b \<longleftrightarrow> cd_waiters (fst (cw_cv w)) \<noteq> []" "b \<or> s = cw_cv w"
    using wake_waiter_effect [OF assms(5)] by (cases "cd_waiters (fst (cw_cv w))"; auto)+
  have s': "cd_waiters (fst s') = []" "b' \<longleftrightarrow> cd_waiters (fst (cw_cv w)) \<noteq> []" "b' \<or> s' = cw_cv w"
    using broadcast_effect [OF assms(6)] broadcast_nobody [OF assms(6)] by (cases "cd_waiters (fst (cw_cv w)) = []"; auto)+
  have r': "cond_ready q tq v s'" using ready [OF s'_ok] s'(1) by simp
  have first: "v \<notin> set (tl xs) \<longleftrightarrow> v \<notin> set xs \<or> (\<exists>ts. xs = v # ts)" if "distinct xs" for xs
    using that by (cases xs) auto
  have "cond_ready q tq v s \<longleftrightarrow> cond_ready q tq v (cw_cv w) \<or> (\<exists>ts. cd_waiters (fst (cw_cv w)) = v # ts)"
    using ready [OF s_ok] ready [OF ok] s(1) first [OF cond_queue_okD(1) [OF ok]] by simp
  moreover have "fst (cond_wait_head ca v q tq k u now s') = CondRelock HOk k" using r' by (simp add: cond_wait_head_def)
  ultimately show ?thesis using s s' r' by blast
qed

section \<open>The mutex of a wait\<close>

lemma call_continues:
  assumes "world_ok ca w" and "cond_step ca w e w'" and "kept_count (cw_calls w t) = Some k"
  shows "fst e = t \<and> snd e \<noteq> None \<or> kept_count (cw_calls w' t) = Some k"
  using assms(2)
proof (cases rule: cond_step.cases)
  case (start t' u now call s m)
  then show ?thesis using assms(3) by auto
next
  case (pass t' q tq k' u now call s)
  have "cond_queue_ok ca (cw_cv w) (cw_calls w)" using assms(1) by (simp add: world_ok_def)
  from cond_head_ok [OF this pass(3,4)] show ?thesis using assms(3) by (auto simp: pass(2,3))
next
  case (relock t' r k' attempt now call m)
  have "mx_owner (cw_mutex w) \<noteq> Some t'" using assms(1) relock(3) by (auto simp: world_ok_def relock_ok_def)
  from relock_spec [OF this relock(4,5)] show ?thesis using assms(3) by (auto simp: relock(1,2,3))
qed (use assms(3) in auto)

text \<open>C29: A waiting call gives the mutex back the way it took it. It releases all levels at once when it parks, so other
  threads can take the mutex meanwhile; and whatever they do and however the wait ends, at the step at which it returns the
  thread owns the mutex with the recursion count that it had, and the result is success or the timeout.\<close>

theorem cond_wait_keeps_mutex:
  assumes "steps (cond_step ca) (world_init name clock_id mname a) es0 w0"
    and "cw_calls w0 t = None" and "mx_owner (cw_mutex w0) = Some t"
    and "cond_wait_begin ca t u now (cw_cv w0, cw_mutex w0) = (call, s, m)"
    and "steps (cond_step ca) \<lparr>cw_cv = s, cw_mutex = m, cw_calls = (cw_calls w0)(t := in_progress call)\<rparr> es w"
    and "\<nexists>code. (t, Some code) \<in> set es" and "cond_step ca w (t, Some code) w'"
  shows "mx_owner m = None \<and> mx_owner (cw_mutex w') = Some t \<and> mx_count (cw_mutex w') = mx_count (cw_mutex w0) \<and>
    (code = OK \<or> code = KERNEL_ERROR_ETIMEDOUT)"
proof -
  let ?w1 = "\<lparr>cw_cv = s, cw_mutex = m, cw_calls = (cw_calls w0)(t := in_progress call)\<rparr>"
  have ok0: "world_ok ca w0" using world_run_ok [OF assms(1)] .
  then have q0: "cond_queue_ok ca (cw_cv w0) (cw_calls w0)" and mok0: "mutex_ok (cw_mutex w0)" by (simp_all add: world_ok_def relock_ok_def)
  define k where "k = mx_count (cw_mutex w0)"
  have entered: "kept_count (in_progress call) = Some k" "returned call = None" "mx_owner m = None"
    using wait_begin_spec [OF q0 assms(2,4)] assms(3) by (auto simp: k_def)
  have ok1: "world_ok ca ?w1" using cond_step_ok [OF ok0 cond_step.start [OF assms(2,4)]] .
  have "world_ok ca w \<and> kept_count (cw_calls w t) = Some k"
    if "steps (cond_step ca) w1 es w" "world_ok ca w1" "kept_count (cw_calls w1 t) = Some k" "\<nexists>code. (t, Some code) \<in> set es" for w1
    using that
  proof (induction es arbitrary: w1)
    case (Cons e es)
    then obtain w2 where w2: "cond_step ca w1 e w2" "steps (cond_step ca) w2 es w" by auto
    have "\<not> (fst e = t \<and> snd e \<noteq> None)" using Cons.prems(4) by (cases e; cases "snd e") auto
    then have "kept_count (cw_calls w2 t) = Some k" using call_continues [OF Cons.prems(2) w2(1) Cons.prems(3)] by blast
    with Cons.IH [OF w2(2) cond_step_ok [OF Cons.prems(2) w2(1)]] Cons.prems(4) show ?case by auto
  qed simp
  from this [OF assms(5) ok1 _ assms(6)] entered(1) have ok: "world_ok ca w" and kept: "kept_count (cw_calls w t) = Some k" by auto
  from assms(7) show ?thesis
  proof (cases rule: cond_step.cases)
    case (relock r k' attempt now call' m')
    have inv: "mx_owner (cw_mutex w) \<noteq> Some t" "proper_result (cw_calls w t)" "0 < k'"
      using ok relock(3) relock_okD [of "cw_mutex w" "cw_calls w" t, OF _ relock(3)] by (auto simp: world_ok_def)
    have "k' = k" using kept relock(3) by simp
    then show ?thesis using relock_spec [OF inv(1) relock(4,5)] inv(2,3) entered(3) relock(1,2,3) by (auto simp: k_def)
  qed (use kept in auto)
qed


section \<open>Witnesses\<close>

text \<open>Thread 5 locks the mutex, waits, is signalled by thread 6 and returns.\<close>

definition example_cv :: "nat list \<Rightarrow> u64 \<Rightarrow> cond \<times> cond_threads" where
  "example_cv ws n =
     ((new_cond None 0)\<lparr>cd_waiters := ws\<rparr>,
      (\<lambda>t. \<lparr>ct_sequence = 0, ct_waiting = None\<rparr>)(5 := \<lparr>ct_sequence = n, ct_waiting = (if ws = [] then None else Some 100)\<rparr>))"

definition example_world :: "(cond \<times> cond_threads) \<Rightarrow> bool \<Rightarrow> cond_call option \<Rightarrow> cond_world" where
  "example_world s locked call =
     \<lparr>cw_cv = s,
      cw_mutex = (if locked then new_mutex None mutexattr_init\<lparr>mx_owner := Some 5, mx_count := 1\<rparr> else new_mutex None mutexattr_init),
      cw_calls = (\<lambda>t. None)(5 := call)\<rparr>"

abbreviation "parked5 \<equiv> CondParked 0 0 1 CondForever"

lemma example_lock: "cond_step 100 (world_init None 0 None mutexattr_init) (5, None) (example_world (example_cv [] 0) True None)"
proof -
  have "mutex_step (new_mutex None mutexattr_init) (5, 1) (new_mutex None mutexattr_init\<lparr>mx_owner := Some 5, mx_count := 1\<rparr>)"
    using mutex_step.try_lock [of 5 "new_mutex None mutexattr_init" HOk] by (simp add: mutex_trylock_def new_mutex_def)
  from cond_step.mutex [of "world_init None 0 None mutexattr_init", unfolded world_init_def, simplified, OF this]
  show ?thesis by (simp add: world_init_def example_world_def example_cv_def new_cond_def fun_upd_idem)
qed

lemma example_start_eval:
  "cond_wait_begin 100 5 (Some CondForever) 0 (example_cv [] 0, new_mutex None mutexattr_init\<lparr>mx_owner := Some 5, mx_count := 1\<rparr>) =
     (parked5, example_cv [5] 0, new_mutex None mutexattr_init)"
  by (simp add: cond_wait_begin_def example_cv_def mutex_unlock_def new_mutex_def mutexattr_init_def cond_add_waiter_def
      cond_wait_head_def cond_ready_def new_cond_def Let_def)

lemma example_start:
  "cond_step 100 (example_world (example_cv [] 0) True None) (5, None) (example_world (example_cv [5] 0) False (Some parked5))"
  using cond_step.start [of "example_world (example_cv [] 0) True None" 5 100 "Some CondForever" 0] example_start_eval
  by (simp add: example_world_def)

lemma example_signal_eval: "cond_wake_waiter 100 None (example_cv [5] 0) = (True, example_cv [] 1)"
  by (simp add: cond_wake_waiter_def example_cv_def new_cond_def cond_leave_def add64_def Let_def)

lemma example_signal:
  "cond_step 100 (example_world (example_cv [5] 0) False (Some parked5)) (6, None) (example_world (example_cv [] 1) False (Some parked5))"
proof -
  have "\<forall>v. ct_sequence (snd (example_cv [5] 0) v) < U64_MAX" by (simp add: example_cv_def U64_MAX_def)
  then show ?thesis
    using cond_step.signal [of 100 None "example_world (example_cv [5] 0) False (Some parked5)" True "example_cv [] 1" 6] example_signal_eval
    by (simp add: example_world_def)
qed

lemma example_pass:
  "cond_step 100 (example_world (example_cv [] 1) False (Some parked5)) (5, None) (example_world (example_cv [] 1) False (Some (CondRelock HOk 1)))"
  using cond_step.pass [of "example_world (example_cv [] 1) False (Some parked5)" 5 0 0 1 CondForever 100 0]
  by (simp add: example_world_def cond_wait_head_def cond_ready_def cond_remove_waiter_def example_cv_def new_cond_def)

lemma example_relock:
  "cond_step 100 (example_world (example_cv [] 1) False (Some (CondRelock HOk 1))) (5, Some OK) (example_world (example_cv [] 1) True None)"
proof -
  let ?w = "example_world (example_cv [] 1) False (Some (CondRelock HOk 1))"
  let ?m = "new_mutex None mutexattr_init\<lparr>mx_owner := Some 5, mx_count := 1\<rparr>"
  have "cond_relock 5 HOk 1 (mutex_lock_head 5 Forever 0 (cw_mutex ?w)) = (CondReturned OK, ?m)"
    by (simp add: example_world_def cond_relock_def mutex_restore_def mutex_lock_head_def new_mutex_def)
  from cond_step.relock [of ?w 5 HOk 1, OF _ _ this, of 0 100] show ?thesis by (simp add: example_world_def)
qed

lemma cond_queue_exact_witness:
  "\<exists>w w'. steps (cond_step 100) (world_init None 0 None mutexattr_init) [(5, None), (5, None)] w \<and> cond_step 100 w (6, None) w' \<and>
     5 \<in> set (cd_waiters (fst (cw_cv w))) \<and> ct_waiting (snd (cw_cv w) 5) = Some 100"
proof -
  let ?w = "example_world (example_cv [5] 0) False (Some parked5)"
  have run: "steps (cond_step 100) (world_init None 0 None mutexattr_init) [(5, None), (5, None)] ?w"
    using example_lock example_start by auto
  from cond_queue_exact [OF run example_signal, of 5] run example_signal show ?thesis
    by (intro exI [of _ ?w] exI [of _ "example_world (example_cv [] 1) False (Some parked5)"])
      (simp add: example_world_def cond_ready_def example_cv_def new_cond_def)
qed

lemma cond_signal_wakes_first_witness:
  "\<exists>s. cond_wake_waiter 100 None (example_cv [5] 0) = (True, s) \<and> cond_ready 0 0 5 s \<and> cd_waiters (fst s) = []"
proof -
  let ?w = "example_world (example_cv [5] 0) False (Some parked5)"
  have run: "steps (cond_step 100) (world_init None 0 None mutexattr_init) [(5, None), (5, None)] ?w"
    using example_lock example_start by auto
  obtain b s' where bc: "cond_broadcast 100 (example_cv [5] 0) = (b, s')" by (cases "cond_broadcast 100 (example_cv [5] 0)")
  have "\<forall>v. ct_sequence (snd (example_cv [5] 0) v) < U64_MAX" "cd_sequence (fst (example_cv [5] 0)) < U64_MAX"
    by (simp_all add: example_cv_def new_cond_def U64_MAX_def)
  with cond_signal_wakes_first [OF run, of 5 0 0 1 CondForever True "example_cv [] 1" b s' 0] example_signal_eval bc
  show ?thesis by (simp add: example_world_def) (simp add: example_cv_def new_cond_def)
qed

lemma cond_wait_keeps_mutex_witness:
  "\<exists>w. cond_step 100 (example_world (example_cv [] 1) False (Some (CondRelock HOk 1))) (5, Some OK) w \<and>
     mx_owner (cw_mutex w) = Some 5 \<and> mx_count (cw_mutex w) = 1"
proof -
  let ?w0 = "example_world (example_cv [] 0) True None"
  have run0: "steps (cond_step 100) (world_init None 0 None mutexattr_init) [(5, None)] ?w0" using example_lock by simp
  have run: "steps (cond_step 100) (example_world (example_cv [5] 0) False (Some parked5)) [(6, None), (5, None)]
      (example_world (example_cv [] 1) False (Some (CondRelock HOk 1)))"
    using example_signal example_pass by auto
  from cond_wait_keeps_mutex [OF run0, of 5 "Some CondForever" 0 parked5 "example_cv [5] 0" "new_mutex None mutexattr_init"
      "[(6, None), (5, None)]", OF _ _ _ _ _ example_relock] run example_start_eval example_relock
  show ?thesis by (intro exI [of _ "example_world (example_cv [] 1) True None"]) (simp add: example_world_def)
qed

end
