(* ===== verification/Pthread_Keys.thy ===== *)
theory Pthread_Keys
  imports Pthread_Mutex
begin

text \<open>
  Thread-specific data (\<open>PthreadKeys\<close> and the calls on keys) and \<open>pthread_once\<close> in \<open>kernel/pthread.cpp\<close>. Every
  method of \<open>PthreadKeys\<close> holds its mutex. A value is an address, 0 the null pointer; a destructor is the address of a guest
  function. What such a function does to the keys is the parameter \<open>run\<close> of \<open>keys_destruct\<close>.
\<close>

section \<open>Thread-specific data\<close>

definition KEYS_MAX :: nat where "KEYS_MAX = 256"
definition DESTRUCTOR_ITERATIONS :: nat where "DESTRUCTOR_ITERATIONS = 4"

record key =
  ky_used :: bool
  ky_destructor :: "nat option"
  ky_values :: "(int \<times> nat) list"

definition keys_init :: "key list" where
  "keys_init = replicate KEYS_MAX \<lparr>ky_used = False, ky_destructor = None, ky_values = []\<rparr>"

fun first_unused :: "nat \<Rightarrow> key list \<Rightarrow> nat option" where
  "first_unused index [] = None"
| "first_unused index (k # ks) = (if \<not> ky_used k then Some index else first_unused (Suc index) ks)"

definition keys_create :: "nat option \<Rightarrow> key list \<Rightarrow> int option \<times> key list" where
  "keys_create destructor ks =
     (case first_unused 0 ks of
        None \<Rightarrow> (None, ks)
      | Some index \<Rightarrow> (Some (int index), ks[index := \<lparr>ky_used = True, ky_destructor = destructor, ky_values = []\<rparr>]))"

definition key_valid :: "int \<Rightarrow> key list \<Rightarrow> bool" where
  "key_valid key ks \<longleftrightarrow> \<not> (key < 0 \<or> key \<ge> int KEYS_MAX \<or> \<not> ky_used (ks ! nat key))"

definition keys_delete :: "int \<Rightarrow> key list \<Rightarrow> bool \<times> key list" where
  "keys_delete key ks =
     (if \<not> key_valid key ks then (False, ks)
      else (True, ks[nat key := \<lparr>ky_used = False, ky_destructor = None, ky_values = []\<rparr>]))"

fun set_specific :: "int \<Rightarrow> nat \<Rightarrow> (int \<times> nat) list \<Rightarrow> (int \<times> nat) list" where
  "set_specific thread_id data [] = [(thread_id, data)]"
| "set_specific thread_id data ((t, d) # vs) = (if t = thread_id then (t, data) # vs else (t, d) # set_specific thread_id data vs)"

definition keys_set :: "int \<Rightarrow> int \<Rightarrow> nat \<Rightarrow> key list \<Rightarrow> bool \<times> key list" where
  "keys_set key thread_id data ks =
     (if \<not> key_valid key ks then (False, ks)
      else (True, ks[nat key := (ks ! nat key)\<lparr>ky_values := set_specific thread_id data (ky_values (ks ! nat key))\<rparr>]))"

definition value_of :: "int \<Rightarrow> (int \<times> nat) list \<Rightarrow> nat" where
  "value_of thread_id vs = (case find (\<lambda>v. fst v = thread_id) vs of None \<Rightarrow> 0 | Some v \<Rightarrow> snd v)"

definition keys_get :: "int \<Rightarrow> int \<Rightarrow> key list \<Rightarrow> nat option" where
  "keys_get key thread_id ks = (if \<not> key_valid key ks then None else Some (value_of thread_id (ky_values (ks ! nat key))))"

subsection \<open>The end of a thread\<close>

text \<open>One round: the values of the thread that have a destructor are set to null and listed with it, in order.\<close>

definition key_calls :: "int \<Rightarrow> key \<Rightarrow> (nat \<times> nat) list" where
  "key_calls thread_id k =
     (case ky_destructor k of
        Some d \<Rightarrow> if ky_used k then map (\<lambda>v. (d, snd v)) (filter (\<lambda>v. fst v = thread_id \<and> snd v \<noteq> 0) (ky_values k)) else []
      | None \<Rightarrow> [])"

definition key_reset :: "int \<Rightarrow> key \<Rightarrow> key" where
  "key_reset thread_id k =
     (if ky_used k \<and> ky_destructor k \<noteq> None
      then k\<lparr>ky_values := map (\<lambda>v. if fst v = thread_id then (fst v, 0) else v) (ky_values k)\<rparr> else k)"

fun destruct_rounds ::
  "(nat \<times> nat \<Rightarrow> key list \<Rightarrow> key list) \<Rightarrow> nat \<Rightarrow> int \<Rightarrow> key list \<Rightarrow> (nat \<times> nat) list list \<times> bool \<times> key list" where
  "destruct_rounds run 0 thread_id ks = ([], False, ks)"
| "destruct_rounds run (Suc n) thread_id ks =
     (let delete_list = concat (map (key_calls thread_id) ks); ks = map (key_reset thread_id) ks
      in if delete_list = [] then ([], True, ks)
         else case destruct_rounds run n thread_id (fold run delete_list ks) of
                (rounds, early, ks) \<Rightarrow> (delete_list # rounds, early, ks))"

text \<open>The calls made, round by round, and the keys at the end. A round that finds nothing returns from the function.\<close>

definition keys_destruct ::
  "(nat \<times> nat \<Rightarrow> key list \<Rightarrow> key list) \<Rightarrow> int \<Rightarrow> key list \<Rightarrow> (nat \<times> nat) list list \<times> key list" where
  "keys_destruct run thread_id ks =
     (case destruct_rounds run DESTRUCTOR_ITERATIONS thread_id ks of
        (rounds, early, ks) \<Rightarrow>
          if early then (rounds, ks)
          else (rounds, map (\<lambda>k. k\<lparr>ky_values := filter (\<lambda>v. fst v \<noteq> thread_id) (ky_values k)\<rparr>) ks))"

subsection \<open>The calls of the guest\<close>



text \<open>\<open>out\<close> tells whether the guest passed a place for the key.\<close>

definition pthread_key_create :: "bool \<Rightarrow> nat option \<Rightarrow> key list \<Rightarrow> int \<times> int option \<times> key list" where
  "pthread_key_create out destructor ks =
     (if \<not> out then (KERNEL_ERROR_EINVAL, None, ks)
      else case keys_create destructor ks of
             (None, ks) \<Rightarrow> (KERNEL_ERROR_EAGAIN, None, ks)
           | (Some key, ks) \<Rightarrow> (OK, Some key, ks))"

definition pthread_key_delete :: "int \<Rightarrow> key list \<Rightarrow> int \<times> key list" where
  "pthread_key_delete key ks = (case keys_delete key ks of (b, ks) \<Rightarrow> (if \<not> b then KERNEL_ERROR_EINVAL else OK, ks))"

definition pthread_setspecific :: "int \<Rightarrow> int \<Rightarrow> nat \<Rightarrow> key list \<Rightarrow> int \<times> key list" where
  "pthread_setspecific thread_id key v ks =
     (case keys_set key thread_id v ks of (b, ks) \<Rightarrow> (if \<not> b then KERNEL_ERROR_EINVAL else OK, ks))"

definition pthread_getspecific :: "int \<Rightarrow> int \<Rightarrow> key list \<Rightarrow> nat" where
  "pthread_getspecific thread_id key ks = (case keys_get key thread_id ks of None \<Rightarrow> 0 | Some v \<Rightarrow> v)"

section \<open>One-time initialisation\<close>

text \<open>
  A pass of \<open>pthread_once\<close> under its mutex, from the head of the outer loop or from a park in the inner loop: it returns,
  goes on to run the initialisation, or parks.
\<close>

datatype once_result = OnceReturn int | OnceRun | OncePark

definition once_enter :: "int \<Rightarrow> once_result \<times> int" where
  "once_enter state =
     (if state = 1 then (OnceReturn OK, state)
      else if state = 0 then (OnceRun, 2)
      else if state = 2 \<or> state = 3 then (OncePark, 3)
      else (OnceReturn POSIX_EINVAL, state))"

definition once_pass :: "int \<Rightarrow> once_result \<times> int" where
  "once_pass state = (if state = 3 then (OncePark, state) else once_enter state)"

definition once_finish :: "int \<Rightarrow> once_result \<times> int" where
  "once_finish state = (OnceReturn OK, 1)"

text \<open>The call with its arguments: \<open>None\<close> is a null pointer for the control variable.\<close>

definition pthread_once :: "int option \<Rightarrow> bool \<Rightarrow> once_result \<times> int option" where
  "pthread_once once has_routine =
     (case once of
        None \<Rightarrow> (OnceReturn POSIX_EINVAL, None)
      | Some state \<Rightarrow>
          if \<not> has_routine then (OnceReturn POSIX_EINVAL, once)
          else case once_enter state of (r, state) \<Rightarrow> (r, Some state))"

end
