(* ===== verification/Pthread_Keys_Facts.thy ===== *)
theory Pthread_Keys_Facts
  imports Pthread_Keys Lock_Contract
begin

text \<open>
  Thread-specific data is a map from keys and threads to values; the destructors at the end of a thread run in at most four
  rounds; \<open>pthread_once\<close> runs its routine once and nobody gets past it before it is over.
\<close>

section \<open>A map of keys\<close>

text \<open>The abstract state: each live key has its destructor and one value for every thread.\<close>

type_synonym key_space = "int \<Rightarrow> (nat option \<times> (int \<Rightarrow> nat)) option"

definition key_space :: "key list \<Rightarrow> key_space" where
  "key_space ks = (\<lambda>k. if key_valid k ks then Some (ky_destructor (ks ! nat k), \<lambda>t. value_of t (ky_values (ks ! nat k))) else None)"

datatype key_op = KeyCreate "nat option" | KeyDelete int | KeySet int int nat | KeyGet int int
datatype key_result = KeyFails | KeyDone | KeyNew int | KeyValue nat

fun keys_step :: "key_op \<Rightarrow> key list \<Rightarrow> key_result \<times> key list" where
  "keys_step (KeyCreate d) ks = (case keys_create d ks of (None, ks) \<Rightarrow> (KeyFails, ks) | (Some k, ks) \<Rightarrow> (KeyNew k, ks))"
| "keys_step (KeyDelete k) ks = (case keys_delete k ks of (b, ks) \<Rightarrow> (if b then KeyDone else KeyFails, ks))"
| "keys_step (KeySet k t v) ks = (case keys_set k t v ks of (b, ks) \<Rightarrow> (if b then KeyDone else KeyFails, ks))"
| "keys_step (KeyGet k t) ks = (case keys_get k t ks of None \<Rightarrow> KeyFails | Some v \<Rightarrow> KeyValue v, ks)"

fun keys_run :: "key_op list \<Rightarrow> key list \<Rightarrow> key_result list \<times> key list" where
  "keys_run [] ks = ([], ks)"
| "keys_run (op # ops) ks = (case keys_step op ks of (r, ks) \<Rightarrow> case keys_run ops ks of (rs, ks) \<Rightarrow> (r # rs, ks))"

fun space_step :: "key_op \<Rightarrow> key_space \<Rightarrow> key_result \<times> key_space" where
  "space_step (KeyCreate d) s =
     (case find (\<lambda>k. s k = None) (map int [0..<256]) of None \<Rightarrow> (KeyFails, s) | Some k \<Rightarrow> (KeyNew k, s(k \<mapsto> (d, \<lambda>t. 0))))"
| "space_step (KeyDelete k) s = (if s k = None then (KeyFails, s) else (KeyDone, s(k := None)))"
| "space_step (KeySet k t v) s = (case s k of None \<Rightarrow> (KeyFails, s) | Some (d, m) \<Rightarrow> (KeyDone, s(k \<mapsto> (d, m(t := v)))))"
| "space_step (KeyGet k t) s = (case s k of None \<Rightarrow> KeyFails | Some (d, m) \<Rightarrow> KeyValue (m t), s)"

fun space_run :: "key_op list \<Rightarrow> key_space \<Rightarrow> key_result list \<times> key_space" where
  "space_run [] s = ([], s)"
| "space_run (op # ops) s = (case space_step op s of (r, s) \<Rightarrow> case space_run ops s of (rs, s) \<Rightarrow> (r # rs, s))"

lemma value_of_simps [simp]:
  "value_of t [] = 0" "value_of t ((t', v) # vs) = (if t' = t then v else value_of t vs)"
  by (simp_all add: value_of_def)

lemma value_of_set_specific: "value_of u (set_specific t v vs) = (if u = t then v else value_of u vs)"
  by (induction t v vs rule: set_specific.induct) auto

lemma first_unused_None: "first_unused n ks = None \<longleftrightarrow> (\<forall>k \<in> set ks. ky_used k)"
  by (induction n ks rule: first_unused.induct) auto

lemma first_unused_Some:
  "first_unused n ks = Some i \<Longrightarrow> n \<le> i \<and> i < n + length ks \<and> \<not> ky_used (ks ! (i - n)) \<and> (\<forall>j < i - n. ky_used (ks ! j))"
proof (induction n ks rule: first_unused.induct)
  case (2 n k ks)
  show ?case
  proof (cases "ky_used k")
    case True
    then have ih: "Suc n \<le> i \<and> i < Suc n + length ks \<and> \<not> ky_used (ks ! (i - Suc n)) \<and> (\<forall>j < i - Suc n. ky_used (ks ! j))"
      using 2 by auto
    then obtain m where m: "i - n = Suc m" "i - Suc n = m" by (metis Suc_diff_Suc Suc_le_eq)
    have "\<forall>j < Suc m. ky_used ((k # ks) ! j)" using ih m True by (auto simp: less_Suc_eq_0_disj)
    then show ?thesis using ih m by simp
  qed (use 2 in auto)
qed simp

section \<open>The refinement\<close>

lemma find_upto:
  assumes "i < m" and "\<not> P i" and "\<forall>j < i. P j"
  shows "find (\<lambda>k. \<not> P (nat k)) (map int [0..<m]) = Some (int i)"
  using assms by (auto simp: find_Some_iff intro!: exI [of _ i])

definition keys_ok :: "key list \<Rightarrow> bool" where
  "keys_ok ks \<longleftrightarrow> length ks = KEYS_MAX"

lemma key_space_None: "key_space ks k = None \<longleftrightarrow> \<not> key_valid k ks"
  by (simp add: key_space_def)

lemma key_space_upd:
  assumes "keys_ok ks" and "0 \<le> k" and "k < int KEYS_MAX"
  shows "key_space (ks[nat k := new]) =
    (key_space ks)(k := (if ky_used new then Some (ky_destructor new, \<lambda>t. value_of t (ky_values new)) else None))"
proof
  fix j
  have "nat j = nat k \<longleftrightarrow> j = k" if "0 \<le> j" using that assms(2) by auto
  then show "key_space (ks[nat k := new]) j =
      ((key_space ks)(k := (if ky_used new then Some (ky_destructor new, \<lambda>t. value_of t (ky_values new)) else None))) j"
    using assms by (cases "j = k") (auto simp: key_space_def key_valid_def keys_ok_def)
qed

lemma keys_step_refines:
  assumes ok: "keys_ok ks" and run: "keys_step op ks = (r, ks')"
  shows "keys_ok ks' \<and> space_step op (key_space ks) = (r, key_space ks')"
proof (cases op)
  case (KeyCreate d)
  show ?thesis
  proof (cases "first_unused 0 ks")
    case None
    then have "key_valid k ks" if "k \<in> set (map int [0..<256])" for k
      using that ok by (auto simp: first_unused_None key_valid_def keys_ok_def KEYS_MAX_def)
    then have "find (\<lambda>k. key_space ks k = None) (map int [0..<256]) = None" by (simp add: find_None_iff key_space_None)
    then show ?thesis using run None KeyCreate ok by (auto simp: keys_create_def)
  next
    case (Some i)
    from first_unused_Some [OF Some] have i: "i < 256" "\<not> ky_used (ks ! i)" "\<forall>j < i. ky_used (ks ! j)"
      using ok by (auto simp: keys_ok_def KEYS_MAX_def)
    have "find (\<lambda>k. \<not> ky_used (ks ! nat k)) (map int [0..<256]) = Some (int i)"
      using find_upto [of i 256 "\<lambda>j. ky_used (ks ! j)"] i by blast
    moreover have "find (\<lambda>k. key_space ks k = None) (map int [0..<256]) = find (\<lambda>k. \<not> ky_used (ks ! nat k)) (map int [0..<256])"
      by (rule find_cong) (auto simp: key_space_None key_valid_def KEYS_MAX_def)
    ultimately have found: "find (\<lambda>k. key_space ks k = None) (map int [0..<256]) = Some (int i)" by simp
    have new: "r = KeyNew (int i)" "ks' = ks[i := \<lparr>ky_used = True, ky_destructor = d, ky_values = []\<rparr>]"
      using run Some KeyCreate by (auto simp: keys_create_def)
    have "key_space ks' = (key_space ks)(int i \<mapsto> (d, \<lambda>t. 0))"
      using key_space_upd [OF ok, of "int i" "\<lparr>ky_used = True, ky_destructor = d, ky_values = []\<rparr>"] i(1)
      by (simp add: new(2) KEYS_MAX_def)
    then show ?thesis using found new ok KeyCreate by (simp add: keys_ok_def)
  qed
next
  case (KeyDelete k)
  then show ?thesis
    using run ok key_space_upd [OF ok, of k "\<lparr>ky_used = False, ky_destructor = None, ky_values = []\<rparr>"]
    by (auto simp: keys_delete_def key_space_None key_valid_def keys_ok_def)
next
  case (KeySet k t v)
  show ?thesis
  proof (cases "key_valid k ks")
    case True
    then have "key_space ks k = Some (ky_destructor (ks ! nat k), \<lambda>t. value_of t (ky_values (ks ! nat k)))" by (simp add: key_space_def)
    then show ?thesis
      using True run KeySet ok key_space_upd [OF ok, of k "(ks ! nat k)\<lparr>ky_values := set_specific t v (ky_values (ks ! nat k))\<rparr>"]
      by (auto simp: keys_set_def key_valid_def keys_ok_def value_of_set_specific fun_upd_def)
  next
    case False
    then show ?thesis using run KeySet ok by (auto simp: keys_set_def key_space_def)
  qed
next
  case (KeyGet k t)
  then show ?thesis using run ok by (auto simp: keys_get_def key_space_def)
qed


lemma key_space_init: "key_space keys_init = (\<lambda>k. None)"
proof
  fix k
  have "\<not> ky_used (keys_init ! nat k)" if "0 \<le> k" "k < int KEYS_MAX" using that by (simp add: keys_init_def nat_less_iff)
  then show "key_space keys_init k = None" by (auto simp: key_space_def key_valid_def)
qed

text \<open>C34: Thread-specific data is a map from keys to one value per thread. For every script of creations, deletions, stores
  and loads, the results are those of the abstract map: a creation returns the least free key with a null value for every
  thread, whatever an earlier key of this number held; a store changes the value of its key and thread only; a deleted or
  unknown key fails; and the 257th key fails.\<close>

theorem keys_history_refines:
  assumes "keys_run ops keys_init = (rs, ks)"
  shows "space_run ops (\<lambda>k. None) = (rs, key_space ks)"
proof -
  have refines: "space_run ops (key_space ks0) = (rs0, key_space ks1)" if "keys_run ops ks0 = (rs0, ks1)" "keys_ok ks0" for ks0 rs0 ks1
    using that
  proof (induction ops arbitrary: ks0 rs0)
    case (Cons op ops)
    obtain r ks2 where r: "keys_step op ks0 = (r, ks2)" by (cases "keys_step op ks0")
    obtain rs2 ks3 where rs2: "keys_run ops ks2 = (rs2, ks3)" by (cases "keys_run ops ks2")
    have rs: "rs0 = r # rs2" "ks1 = ks3" using Cons.prems(1) r rs2 by auto
    from keys_step_refines [OF Cons.prems(2) r] Cons.IH [of ks2 rs2] rs2 rs show ?case by simp
  qed simp
  have "keys_ok keys_init" by (simp add: keys_ok_def keys_init_def)
  from refines [OF assms this] show ?thesis by (simp add: key_space_init)
qed

section \<open>The end of a thread\<close>

lemma key_calls_reset: "key_calls t (key_reset t k) = []"
  by (auto simp: key_calls_def key_reset_def filter_empty_conv split: option.split)

lemma key_calls_nonnull: "c \<in> set (key_calls t k) \<Longrightarrow> snd c \<noteq> 0"
  by (auto simp: key_calls_def split: option.splits if_splits)

lemma destruct_rounds_spec:
  assumes "destruct_rounds run n t ks = (rounds, early, ks')"
  shows "length rounds \<le> n \<and> (\<forall>r \<in> set rounds. r \<noteq> [] \<and> (\<forall>c \<in> set r. snd c \<noteq> 0)) \<and>
    (early \<longrightarrow> (\<forall>k \<in> set ks'. key_calls t k = []))"
  using assms
proof (induction run n t ks arbitrary: rounds rule: destruct_rounds.induct)
  case (2 run n t ks)
  let ?calls = "concat (map (key_calls t) ks)"
  let ?ks = "map (key_reset t) ks"
  show ?case
  proof (cases "?calls = []")
    case True
    then have "rounds = []" "ks' = ?ks" using 2(2) by (auto simp: Let_def)
    then show ?thesis by (auto simp: key_calls_reset)
  next
    case False
    obtain rounds1 early1 ks1 where r: "destruct_rounds run n t (fold run ?calls ?ks) = (rounds1, early1, ks1)" by (metis prod_cases3)
    then have "destruct_rounds run (Suc n) t ks = (?calls # rounds1, early1, ks1)"
      by (simp only: destruct_rounds.simps Let_def if_not_P [OF False] prod.case)
    then have "rounds = ?calls # rounds1" "early = early1" "ks' = ks1" using 2(2) by simp_all
    moreover have "\<forall>c \<in> set ?calls. snd c \<noteq> 0" using key_calls_nonnull by auto
    ultimately show ?thesis using 2(1) [OF refl refl False, of rounds1] r False by simp
  qed
qed simp

lemma fold_same: "\<forall>c ks. run c ks = ks \<Longrightarrow> fold run cs ks = ks"
  by (induction cs) auto

lemma destruct_rounds_quiet:
  assumes "\<forall>c ks. run c ks = ks"
  shows "destruct_rounds run (Suc (Suc n)) t ks =
    (let calls = concat (map (key_calls t) ks); ks = map (key_reset t) ks
     in if calls = [] then ([], True, ks) else ([calls], True, map (key_reset t) ks))"
proof -
  have "concat (map (key_calls t) (map (key_reset t) ks)) = []" by (simp add: key_calls_reset)
  then show ?thesis by (simp only: destruct_rounds.simps fold_same [OF assms] Let_def if_True simp_thms prod.case split: if_split)
qed

lemma reset_value: "u \<noteq> t \<Longrightarrow> value_of u (map (\<lambda>v. if fst v = t then (fst v, 0) else v) vs) = value_of u vs"
  by (induction vs) auto

lemma filter_value: "u \<noteq> t \<Longrightarrow> value_of u (filter (\<lambda>v. fst v \<noteq> t) vs) = value_of u vs"
  by (induction vs) auto

lemma keys_get_map:
  assumes "\<And>k. ky_used (f k) = ky_used k" and "\<And>k. value_of u (ky_values (f k)) = value_of u (ky_values k)" and "length ks = KEYS_MAX"
  shows "keys_get key u (map f ks) = keys_get key u ks"
  using assms by (auto simp: keys_get_def key_valid_def)

text \<open>The end of a thread terminates and leaves nothing to destroy. Whatever the destructors do to the keys, they run in
  at most four rounds, each call gets a value that is not null, and afterwards no key with a destructor has a value of this
  thread. If they leave the keys alone, each value with a destructor gets exactly one call, in the order of the keys, and the
  other threads keep theirs.\<close>

theorem keys_destruct_bounded:
  assumes "keys_destruct run t ks = (rounds, ks')"
  shows "length rounds \<le> DESTRUCTOR_ITERATIONS \<and> (\<forall>r \<in> set rounds. r \<noteq> [] \<and> (\<forall>c \<in> set r. snd c \<noteq> 0)) \<and>
    (\<forall>k \<in> set ks'. key_calls t k = []) \<and>
    ((\<forall>c ks. run c ks = ks) \<and> length ks = KEYS_MAX \<longrightarrow>
       concat rounds = concat (map (key_calls t) ks) \<and> (u \<noteq> t \<longrightarrow> keys_get key u ks' = keys_get key u ks))"
proof -
  obtain early ks1 where r: "destruct_rounds run DESTRUCTOR_ITERATIONS t ks = (rounds, early, ks1)"
    and ks': "ks' = (if early then ks1 else map (\<lambda>k. k\<lparr>ky_values := filter (\<lambda>v. fst v \<noteq> t) (ky_values k)\<rparr>) ks1)"
    using assms by (auto simp: keys_destruct_def split: prod.splits if_splits)
  note spec = destruct_rounds_spec [OF r]
  have clean: "\<forall>k \<in> set ks'. key_calls t k = []"
    using spec ks' by (auto simp: key_calls_def filter_empty_conv split: option.split)
  have "concat rounds = concat (map (key_calls t) ks) \<and> (u \<noteq> t \<longrightarrow> keys_get key u ks' = keys_get key u ks)"
    if same: "\<forall>c ks. run c ks = ks" and len: "length ks = KEYS_MAX"
  proof -
    have two: "DESTRUCTOR_ITERATIONS = Suc (Suc 2)" by (simp add: DESTRUCTOR_ITERATIONS_def)
    have "concat rounds = concat (map (key_calls t) ks) \<and> early \<and> (ks1 = map (key_reset t) ks \<or> ks1 = map (key_reset t) (map (key_reset t) ks))"
      using r unfolding two destruct_rounds_quiet [OF same] by (auto simp: Let_def split: if_splits)
    moreover have "keys_get key u (map (key_reset t) ks) = keys_get key u ks" if "u \<noteq> t" "length ks = KEYS_MAX" for ks
      using that by (intro keys_get_map) (auto simp: key_reset_def reset_value)
    ultimately show ?thesis using ks' len by (auto simp del: map_map)
  qed
  then show ?thesis using spec clean by auto
qed

text \<open>The round that finds nothing returns before the entries of the thread are erased, so on the usual path all of them stay,
  among them the values of keys without destructor.\<close>

lemma destruct_leaves_entries:
  "keys_destruct run 7 [\<lparr>ky_used = True, ky_destructor = None, ky_values = [(7, 5)]\<rparr>] =
     ([], [\<lparr>ky_used = True, ky_destructor = None, ky_values = [(7, 5)]\<rparr>])"
  by (simp add: keys_destruct_def DESTRUCTOR_ITERATIONS_def numeral_eq_Suc key_calls_def key_reset_def)

section \<open>One-time initialisation\<close>

text \<open>
  The control variable, the threads that run the routine, and events: a thread and the result of its pass, or \<open>None\<close> when its
  routine is over. A thread passes at any time, at the head of a call or after a park.
\<close>

inductive once_step :: "int \<times> nat list \<Rightarrow> nat \<times> once_result option \<Rightarrow> int \<times> nat list \<Rightarrow> bool" where
  pass: "once_enter state = (r, state') \<or> once_pass state = (r, state') \<Longrightarrow>
    once_step (state, run) (t, Some r) (state', if r = OnceRun then t # run else run)"
| finish: "t \<in> set run \<Longrightarrow> once_finish state = (r, state') \<Longrightarrow> once_step (state, run) (t, None) (state', remove1 t run)"

definition once_inv :: "(nat \<times> once_result option) list \<Rightarrow> int \<times> nat list \<Rightarrow> bool" where
  "once_inv es s \<longleftrightarrow>
     (let starts = length (filter (\<lambda>e. snd e = Some OnceRun) es); ends = length (filter (\<lambda>e. snd e = None) es);
          returns = length (filter (\<lambda>e. snd e = Some (OnceReturn OK)) es)
      in length (filter (\<lambda>e. snd e = Some (OnceReturn POSIX_EINVAL)) es) = 0 \<and>
         (fst s = 0 \<and> snd s = [] \<and> starts = 0 \<and> ends = 0 \<and> returns = 0 \<or>
          (fst s = 2 \<or> fst s = 3) \<and> (\<exists>t. snd s = [t]) \<and> starts = 1 \<and> ends = 0 \<and> returns = 0 \<or>
          fst s = 1 \<and> snd s = [] \<and> starts = 1 \<and> ends = 1))"

lemma once_step_inv:
  assumes "once_inv es s" and "once_step s e s'"
  shows "once_inv (es @ [e]) s'"
  using assms(2,1)
proof (cases rule: once_step.cases)
  case (pass state r state' run t)
  then show ?thesis using assms(1)
    by (auto simp: once_inv_def once_enter_def once_pass_def Let_def OK_def POSIX_EINVAL_def split: if_splits)
next
  case (finish t run state r state')
  then show ?thesis using assms(1) by (auto simp: once_inv_def once_finish_def Let_def)
qed

lemma once_run_inv: "steps once_step (0, []) es s \<Longrightarrow> once_inv es s"
proof (induction es arbitrary: s rule: rev_induct)
  case Nil
  then show ?case by (auto simp: once_inv_def)
next
  case (snoc e es)
  then obtain s1 where "steps once_step (0, []) es s1" "once_step s1 e s" by (auto simp: steps_append)
  then show ?case using snoc.IH once_step_inv by blast
qed

text \<open>C33: \<open>pthread_once\<close> runs its routine once. Whatever the interleaving of calls and parks on a fresh control variable, at
  most one thread runs the routine, no call returns success before the routine is over, none fails, and from then on every
  call returns at once.\<close>

theorem once_runs_once:
  assumes "steps once_step (0, []) es (state, run)"
  shows "length (filter (\<lambda>e. snd e = Some OnceRun) es) \<le> 1 \<and> length run \<le> 1 \<and>
    ((\<exists>t. (t, Some (OnceReturn OK)) \<in> set es) \<longrightarrow> (\<exists>t. (t, None) \<in> set es)) \<and>
    (\<nexists>t. (t, Some (OnceReturn POSIX_EINVAL)) \<in> set es) \<and>
    ((\<exists>t. (t, None) \<in> set es) \<longleftrightarrow> once_enter state = (OnceReturn OK, state) \<and> once_pass state = (OnceReturn OK, state))"
proof -
  have inv: "once_inv es (state, run)" using once_run_inv [OF assms] .
  have some: "(\<exists>t. (t, x) \<in> set es) \<longleftrightarrow> length (filter (\<lambda>e. snd e = x) es) \<noteq> 0" for x
    by (force simp: filter_empty_conv)
  show ?thesis unfolding some using inv by (auto simp: once_inv_def once_enter_def once_pass_def Let_def)
qed

section \<open>Witnesses\<close>

lemma keys_history_refines_witness:
  "space_run [KeyCreate None, KeySet 0 7 5, KeyGet 0 7, KeyDelete 0, KeyGet 0 7] (\<lambda>k. None) =
     ([KeyNew 0, KeyDone, KeyValue 5, KeyDone, KeyFails], \<lambda>k. None)"
proof -
  let ?free = "\<lparr>ky_used = False, ky_destructor = None, ky_values = []\<rparr>"
  let ?used = "\<lambda>vs. \<lparr>ky_used = True, ky_destructor = None, ky_values = vs\<rparr>"
  let ?r = "replicate 255 ?free"
  have init: "keys_init = ?free # ?r" by (simp add: keys_init_def KEYS_MAX_def flip: replicate_Suc)
  have 1: "keys_step (KeyCreate None) (?free # ?r) = (KeyNew 0, ?used [] # ?r)" by (simp add: keys_create_def)
  have 2: "keys_step (KeySet 0 7 5) (?used [] # ?r) = (KeyDone, ?used [(7, 5)] # ?r)"
    by (simp add: keys_set_def key_valid_def KEYS_MAX_def)
  have 3: "keys_step (KeyGet 0 7) (?used [(7, 5)] # ?r) = (KeyValue 5, ?used [(7, 5)] # ?r)"
    by (simp add: keys_get_def key_valid_def KEYS_MAX_def)
  have 4: "keys_step (KeyDelete 0) (?used [(7, 5)] # ?r) = (KeyDone, ?free # ?r)"
    by (simp add: keys_delete_def key_valid_def KEYS_MAX_def)
  have 5: "keys_step (KeyGet 0 7) (?free # ?r) = (KeyFails, ?free # ?r)"
    by (simp add: keys_get_def key_valid_def KEYS_MAX_def)
  have run: "keys_run [KeyCreate None, KeySet 0 7 5, KeyGet 0 7, KeyDelete 0, KeyGet 0 7] keys_init =
      ([KeyNew 0, KeyDone, KeyValue 5, KeyDone, KeyFails], keys_init)"
    by (simp only: init keys_run.simps 1 2 3 4 5 prod.case)
  from keys_history_refines [OF run] show ?thesis by (simp only: key_space_init)
qed

lemma keys_destruct_bounded_witness:
  "\<exists>rounds ks. keys_destruct (\<lambda>c ks. ks) 7 [\<lparr>ky_used = True, ky_destructor = Some 9, ky_values = [(7, 5), (8, 6)]\<rparr>] = (rounds, ks) \<and>
     rounds = [[(9, 5)]] \<and> map (key_calls 7) ks = [[]]"
proof -
  let ?ks = "[\<lparr>ky_used = True, ky_destructor = Some 9, ky_values = [(7, 5), (8, 6)]\<rparr>]"
  have run: "keys_destruct (\<lambda>c ks. ks) 7 ?ks = ([[(9, 5)]], [\<lparr>ky_used = True, ky_destructor = Some 9, ky_values = [(7, 0), (8, 6)]\<rparr>])"
    by (simp add: keys_destruct_def DESTRUCTOR_ITERATIONS_def numeral_eq_Suc key_calls_def key_reset_def)
  from keys_destruct_bounded [OF run] run show ?thesis by simp
qed

lemma once_runs_once_witness:
  "\<exists>state run. steps once_step (0, []) [(5, Some OnceRun), (6, Some OncePark), (5, None), (6, Some (OnceReturn OK))] (state, run) \<and>
     once_pass state = (OnceReturn OK, state)"
proof -
  have 1: "once_step (0, []) (5, Some OnceRun) (2, [5])" using once_step.pass [of 0 OnceRun 2 "[]" 5] by (simp add: once_enter_def)
  have 2: "once_step (2, [5]) (6, Some OncePark) (3, [5])" using once_step.pass [of 2 OncePark 3 "[5]" 6] by (simp add: once_enter_def)
  have 3: "once_step (3, [5]) (5, None) (1, [])" using once_step.finish [of 5 "[5]" 3 "OnceReturn OK" 1] by (simp add: once_finish_def)
  have 4: "once_step (1, []) (6, Some (OnceReturn OK)) (1, [])" using once_step.pass [of 1 "OnceReturn OK" 1 "[]" 6] by (simp add: once_enter_def)
  have run: "steps once_step (0, []) [(5, Some OnceRun), (6, Some OncePark), (5, None), (6, Some (OnceReturn OK))] (1, [])"
    using 1 2 3 4 by (simp only: steps.simps) blast
  from once_runs_once [OF run] run show ?thesis by (intro exI [of _ 1] exI [of _ "[]"]) auto
qed

end
