(* ===== verification/Pthread_Attr.thy ===== *)
theory Pthread_Attr
  imports Pthread_Mutex
begin

text \<open>
  The thread attributes of the guest (\<open>PthreadAttr*\<close> in \<open>kernel/pthread.cpp\<close>, the Linux build). A guest's variable
  holds a null pointer, a small number that is no pointer, or an object; a call given a null pointer for the variable has
  \<open>None\<close>. The setters look at small numbers, the getters do not and read through them, which stops the process, the outer
  \<open>None\<close>. The host keeps its own attribute beside the object, of which only the scheduling policy is read back. Its
  answers are parameters. A result is a pair of the code and what is written through the output pointer.
\<close>

definition PTHREAD_STACK_DEFAULT :: u64 where "PTHREAD_STACK_DEFAULT = 0x100000"
definition GUEST_PTHREAD_STACK_MIN :: u64 where "GUEST_PTHREAD_STACK_MIN = 0x4000"

datatype host_policy = SchedOther | SchedFifo | SchedRR | SchedUnknown

record attr =
  at_affinity :: u64
  at_guard_size :: u64
  at_stack_addr :: u64
  at_stack_size :: u64
  at_stack_user :: bool
  at_stack_map_addr :: u64
  at_stack_map_size :: u64
  at_policy :: int
  at_guest_priority :: int
  at_inherit_sched :: int
  at_solosched :: int
  at_detached :: bool
  at_host_policy :: host_policy

datatype attr_ptr = AttrNull | AttrSmall | AttrObject attr

section \<open>Reading\<close>

definition attr_get :: "(attr \<Rightarrow> (int \<times> 'v) option) \<Rightarrow> bool \<Rightarrow> attr_ptr option \<Rightarrow> (int \<times> 'v option) option" where
  "attr_get f out v =
     (if \<not> out then Some (KERNEL_ERROR_EINVAL, None)
      else case v of
          None \<Rightarrow> Some (KERNEL_ERROR_EINVAL, None)
        | Some AttrNull \<Rightarrow> Some (KERNEL_ERROR_EINVAL, None)
        | Some AttrSmall \<Rightarrow> None
        | Some (AttrObject a) \<Rightarrow> map_option (\<lambda>(r, x). (r, Some x)) (f a))"

definition attr_getaffinity :: "bool \<Rightarrow> attr_ptr option \<Rightarrow> (int \<times> u64 option) option" where
  "attr_getaffinity = attr_get (\<lambda>a. Some (OK, at_affinity a))"

definition attr_getdetachstate :: "bool \<Rightarrow> attr_ptr option \<Rightarrow> (int \<times> int option) option" where
  "attr_getdetachstate = attr_get (\<lambda>a. Some (OK, if at_detached a then 1 else 0))"

definition attr_getguardsize :: "bool \<Rightarrow> attr_ptr option \<Rightarrow> (int \<times> u64 option) option" where
  "attr_getguardsize = attr_get (\<lambda>a. Some (OK, at_guard_size a))"

definition attr_getinheritsched :: "bool \<Rightarrow> attr_ptr option \<Rightarrow> (int \<times> int option) option" where
  "attr_getinheritsched = attr_get (\<lambda>a. if at_inherit_sched a = 0 \<or> at_inherit_sched a = 4 then Some (OK, at_inherit_sched a) else None)"

definition attr_getschedparam :: "host_result \<Rightarrow> bool \<Rightarrow> attr_ptr option \<Rightarrow> (int \<times> int option) option" where
  "attr_getschedparam host = attr_get (\<lambda>a. Some (if host = HOk then OK else KERNEL_ERROR_EINVAL, at_guest_priority a))"

definition attr_getschedpolicy :: "host_result \<Rightarrow> bool \<Rightarrow> attr_ptr option \<Rightarrow> (int \<times> int option) option" where
  "attr_getschedpolicy host =
     attr_get (\<lambda>a.
       map_option (\<lambda>p. (if host = HOk then OK else KERNEL_ERROR_EINVAL, p))
         (case at_host_policy a of
            SchedOther \<Rightarrow> Some (at_policy a) | SchedFifo \<Rightarrow> Some 1 | SchedRR \<Rightarrow> Some 3 | SchedUnknown \<Rightarrow> None))"

definition attr_getsolosched :: "bool \<Rightarrow> attr_ptr option \<Rightarrow> (int \<times> int option) option" where
  "attr_getsolosched = attr_get (\<lambda>a. Some (OK, at_solosched a))"

definition attr_getstack :: "bool \<Rightarrow> attr_ptr option \<Rightarrow> (int \<times> (u64 \<times> u64) option) option" where
  "attr_getstack = attr_get (\<lambda>a. Some (OK, (at_stack_addr a, at_stack_size a)))"

definition attr_getstackaddr :: "bool \<Rightarrow> attr_ptr option \<Rightarrow> (int \<times> u64 option) option" where
  "attr_getstackaddr = attr_get (\<lambda>a. Some (OK, at_stack_addr a))"

definition attr_getstacksize :: "bool \<Rightarrow> attr_ptr option \<Rightarrow> (int \<times> u64 option) option" where
  "attr_getstacksize = attr_get (\<lambda>a. Some (OK, at_stack_size a))"

section \<open>Writing\<close>

definition attr_value :: "attr_ptr option \<Rightarrow> attr option" where
  "attr_value v = (case v of Some (AttrObject a) \<Rightarrow> Some a | _ \<Rightarrow> None)"

definition attr_set :: "(attr \<Rightarrow> (int \<times> attr) option) \<Rightarrow> attr_ptr option \<Rightarrow> (int \<times> attr_ptr option) option" where
  "attr_set f v =
     (case attr_value v of
        None \<Rightarrow> Some (KERNEL_ERROR_EINVAL, v)
      | Some a \<Rightarrow> map_option (\<lambda>(r, a). (r, Some (AttrObject a))) (f a))"

definition attr_setaffinity :: "u64 \<Rightarrow> attr_ptr option \<Rightarrow> (int \<times> attr_ptr option) option" where
  "attr_setaffinity cpus = attr_set (\<lambda>a. Some (OK, a\<lparr>at_affinity := cpus\<rparr>))"

definition attr_setdetachstate :: "int \<Rightarrow> attr_ptr option \<Rightarrow> (int \<times> attr_ptr option) option" where
  "attr_setdetachstate state =
     attr_set (\<lambda>a. if state = 0 then Some (OK, a\<lparr>at_detached := False\<rparr>)
                   else if state = 1 then Some (OK, a\<lparr>at_detached := True\<rparr>) else None)"

definition attr_setguardsize :: "u64 \<Rightarrow> attr_ptr option \<Rightarrow> (int \<times> attr_ptr option) option" where
  "attr_setguardsize guard_size = attr_set (\<lambda>a. Some (OK, a\<lparr>at_guard_size := guard_size\<rparr>))"

definition attr_setinheritsched :: "int \<Rightarrow> attr_ptr option \<Rightarrow> (int \<times> attr_ptr option) option" where
  "attr_setinheritsched inherit_sched =
     attr_set (\<lambda>a. if inherit_sched = 0 \<or> inherit_sched = 4 then Some (OK, a\<lparr>at_inherit_sched := inherit_sched\<rparr>) else None)"

text \<open>The priority comes from an object that the guest passes, \<open>None\<close> a null pointer.\<close>

definition attr_setschedparam :: "int option \<Rightarrow> attr_ptr option \<Rightarrow> (int \<times> attr_ptr option) option" where
  "attr_setschedparam param v =
     (case param of
        None \<Rightarrow> Some (KERNEL_ERROR_EINVAL, v)
      | Some priority \<Rightarrow> attr_set (\<lambda>a. Some (OK, a\<lparr>at_guest_priority := priority\<rparr>)) v)"

definition attr_setschedpolicy :: "host_result \<Rightarrow> int \<Rightarrow> attr_ptr option \<Rightarrow> (int \<times> attr_ptr option) option" where
  "attr_setschedpolicy host policy =
     attr_set (\<lambda>a.
       let a = a\<lparr>at_policy := policy\<rparr>
       in Some (if host = HOk then (OK, a\<lparr>at_host_policy := SchedOther\<rparr>) else (KERNEL_ERROR_EINVAL, a)))"

definition attr_setsolosched :: "int \<Rightarrow> attr_ptr option \<Rightarrow> (int \<times> attr_ptr option) option" where
  "attr_setsolosched solosched = attr_set (\<lambda>a. Some (OK, a\<lparr>at_solosched := solosched\<rparr>))"

definition use_stack_at :: "u64 \<Rightarrow> attr \<Rightarrow> attr" where
  "use_stack_at addr a = a\<lparr>at_stack_addr := addr, at_stack_user := True, at_stack_map_addr := 0, at_stack_map_size := 0\<rparr>"

definition attr_setstack :: "u64 \<Rightarrow> u64 \<Rightarrow> attr_ptr option \<Rightarrow> (int \<times> attr_ptr option) option" where
  "attr_setstack addr bytes v =
     (if addr = 0 \<or> bytes < GUEST_PTHREAD_STACK_MIN then Some (KERNEL_ERROR_EINVAL, v)
      else attr_set (\<lambda>a. Some (OK, (use_stack_at addr a)\<lparr>at_stack_size := bytes\<rparr>)) v)"

definition attr_setstackaddr :: "u64 \<Rightarrow> attr_ptr option \<Rightarrow> (int \<times> attr_ptr option) option" where
  "attr_setstackaddr addr v =
     (if addr = 0 then Some (KERNEL_ERROR_EINVAL, v) else attr_set (\<lambda>a. Some (OK, use_stack_at addr a)) v)"

definition attr_setstacksize :: "u64 \<Rightarrow> attr_ptr option \<Rightarrow> (int \<times> attr_ptr option) option" where
  "attr_setstacksize stack_size v =
     (if stack_size < GUEST_PTHREAD_STACK_MIN then Some (KERNEL_ERROR_EINVAL, v)
      else attr_set (\<lambda>a. Some (OK, a\<lparr>at_stack_size := stack_size\<rparr>)) v)"

section \<open>Making, copying and destroying\<close>

text \<open>A chain \<open>result = (result == 0 ? step : result)\<close>.\<close>

definition attr_then ::
  "(int \<times> attr_ptr option) option \<Rightarrow> (attr_ptr option \<Rightarrow> (int \<times> attr_ptr option) option) \<Rightarrow> (int \<times> attr_ptr option) option" where
  "attr_then r f = (case r of None \<Rightarrow> None | Some (code, v) \<Rightarrow> if code = 0 then f v else r)"

text \<open>
  \<open>PthreadAttrInit\<close> with the host's answers to its two calls. The fields of a fresh object are zero; the host's fresh
  attribute has the policy \<open>SchedOther\<close>. The result of the chain is reported as \<open>OK\<close>, \<open>ENOMEM\<close> or \<open>EINVAL\<close>.
\<close>

definition fresh_attr :: attr where
  "fresh_attr =
     \<lparr>at_affinity = 0x7f, at_guard_size = 0x1000, at_stack_addr = 0, at_stack_size = PTHREAD_STACK_DEFAULT, at_stack_user = False,
      at_stack_map_addr = 0, at_stack_map_size = 0, at_policy = 0, at_guest_priority = 0, at_inherit_sched = 0, at_solosched = 0,
      at_detached = False, at_host_policy = SchedOther\<rparr>"

definition pthread_attr_init :: "host_result \<Rightarrow> host_result \<Rightarrow> (int \<times> attr_ptr option) option" where
  "pthread_attr_init host_init host_policy =
     (if host_init = HNoMem then Some (KERNEL_ERROR_ENOMEM, Some (AttrObject fresh_attr))
      else if host_init \<noteq> HOk then Some (KERNEL_ERROR_EINVAL, Some (AttrObject fresh_attr))
      else
        let r = attr_setinheritsched 4 (Some (AttrObject fresh_attr));
            r = attr_then r (attr_setschedparam (Some 700));
            r = attr_then r (attr_setschedpolicy host_policy 1);
            r = attr_then r (attr_setdetachstate 0);
            r = attr_then r (attr_setstacksize PTHREAD_STACK_DEFAULT)
        in map_option (\<lambda>(code, v). (if code = 0 then OK else KERNEL_ERROR_EINVAL, v)) r)"

text \<open>\<open>host\<close> is the answer of the host's destructor; the object goes in any case.\<close>

definition pthread_attr_destroy :: "host_result \<Rightarrow> attr_ptr option \<Rightarrow> int \<times> attr_ptr option" where
  "pthread_attr_destroy host v =
     (case attr_value v of
        None \<Rightarrow> (KERNEL_ERROR_EINVAL, v)
      | Some _ \<Rightarrow> (if host = HOk then OK else KERNEL_ERROR_EINVAL, Some AttrNull))"

text \<open>The results of the nine reads of a copy, which stop at the first that fails.\<close>

definition attr_read_all :: "host_result \<Rightarrow> host_result \<Rightarrow> attr_ptr option \<Rightarrow> (int \<times> attr option) option" where
  "attr_read_all host_param host_policy src =
     (case attr_value src of
        None \<Rightarrow> None
      | Some a \<Rightarrow>
          if attr_getinheritsched True src = None then None
          else if host_param \<noteq> HOk then Some (KERNEL_ERROR_EINVAL, None)
          else case attr_getschedpolicy host_policy True src of
                 None \<Rightarrow> None
               | Some (code, policy) \<Rightarrow>
                   if code \<noteq> 0 then Some (code, None)
                   else Some (OK, map_option (\<lambda>p. a\<lparr>at_policy := p\<rparr>) policy))"

definition pthread_attr_copy ::
  "host_result \<Rightarrow> host_result \<Rightarrow> host_result \<Rightarrow> attr_ptr option \<Rightarrow> attr_ptr option \<Rightarrow> (int \<times> attr_ptr option) option" where
  "pthread_attr_copy host_param host_policy host_set dst src =
     (if dst = None \<or> dst = Some AttrNull \<or> src = None \<or> src = Some AttrNull then Some (KERNEL_ERROR_EINVAL, dst)
      else case attr_read_all host_param host_policy src of
             None \<Rightarrow> None
           | Some (code, None) \<Rightarrow> Some (code, dst)
           | Some (code, Some a) \<Rightarrow>
               let r = attr_setaffinity (at_affinity a) dst;
                   r = attr_then r (attr_setdetachstate (if at_detached a then 1 else 0));
                   r = attr_then r (attr_setguardsize (at_guard_size a));
                   r = attr_then r (attr_setinheritsched (at_inherit_sched a));
                   r = attr_then r (attr_setschedparam (Some (at_guest_priority a)));
                   r = attr_then r (attr_setschedpolicy host_set (at_policy a));
                   r = attr_then r (attr_setsolosched (at_solosched a));
                   r = (if at_stack_addr a \<noteq> 0 then attr_then r (attr_setstackaddr (at_stack_addr a)) else r);
                   r = (if at_stack_size a \<noteq> 0 then attr_then r (attr_setstacksize (at_stack_size a)) else r)
               in r)"

end
