(* ===== verification/Guest_Threads.thy ===== *)
theory Guest_Threads
  imports Pthread_Attr
begin

text \<open>
  The threads of the guest and their stacks (\<open>PthreadPool\<close>, \<open>CreateGuestStack\<close>, \<open>FreeGuestStack\<close>, \<open>PthreadCreate\<close>,
  \<open>PthreadJoin\<close>, \<open>PthreadDetach\<close> in \<open>kernel/pthread.cpp\<close>). A thread is its place in the pool. The stacks of ended threads
  are cached for later ones. The memory of a new stack and the protection of its guard are calls to the memory manager,
  the thread itself is a thread of the host library; their answers are parameters, collected in \<open>create_os\<close>.
\<close>

definition PTHREAD_STACK_PAGE :: u64 where "PTHREAD_STACK_PAGE = 0x4000"
definition PTHREAD_STACK_INITIAL :: u64 where "PTHREAD_STACK_INITIAL = 0x200000"
definition PTHREAD_STACK_EXTRA :: u64 where "PTHREAD_STACK_EXTRA = 0x100000"
definition PTHREAD_STACK_TOP :: u64 where "PTHREAD_STACK_TOP = 0x7efff8000"
definition PTHREAD_STACK_BOTTOM :: u64 where "PTHREAD_STACK_BOTTOM = 0x40000"

section \<open>Stacks\<close>

record cached_stack =
  cs_address :: u64
  cs_map_size :: u64
  cs_guard_size :: u64

record guest_stacks =
  gs_last :: u64
  gs_cache :: "cached_stack list"

definition round_stack_size :: "u64 \<Rightarrow> u64" where
  "round_stack_size bytes = sub64 (add64 bytes PTHREAD_STACK_PAGE) 1 div PTHREAD_STACK_PAGE * PTHREAD_STACK_PAGE"

text \<open>The place for a stack: a cached one of the same sizes, or the next one below the last. \<open>None\<close> is a full range.\<close>

fun take_cached :: "u64 \<Rightarrow> u64 \<Rightarrow> cached_stack list \<Rightarrow> (cached_stack \<times> cached_stack list) option" where
  "take_cached map_size guard_size [] = None"
| "take_cached map_size guard_size (c # cs) =
     (if cs_map_size c = map_size \<and> cs_guard_size c = guard_size then Some (c, cs)
      else map_option (\<lambda>(d, ds). (d, c # ds)) (take_cached map_size guard_size cs))"

definition place_stack :: "u64 \<Rightarrow> u64 \<Rightarrow> guest_stacks \<Rightarrow> (u64 \<times> bool \<times> guest_stacks) option" where
  "place_stack map_size guard_size g =
     (case take_cached map_size guard_size (gs_cache g) of
        Some (c, cs) \<Rightarrow> Some (cs_address c, True, g\<lparr>gs_cache := cs\<rparr>)
      | None \<Rightarrow>
          let g = (if gs_last g = 0 then g\<lparr>gs_last := PTHREAD_STACK_TOP - PTHREAD_STACK_INITIAL - PTHREAD_STACK_PAGE\<rparr> else g)
          in if map_size > sub64 (gs_last g) PTHREAD_STACK_BOTTOM then None
             else Some (sub64 (gs_last g) map_size, False, g\<lparr>gs_last := sub64 (gs_last g) map_size\<rparr>))"

text \<open>
  \<open>alloc\<close> is the address that the memory manager gives for the place asked for, 0 when it fails, and \<open>protect\<close> whether the
  guard could be protected. A stack whose guard fails is unmapped.
\<close>

definition create_guest_stack :: "(u64 \<Rightarrow> u64 \<Rightarrow> u64) \<Rightarrow> bool \<Rightarrow> attr \<Rightarrow> guest_stacks \<Rightarrow> int \<times> attr \<times> guest_stacks" where
  "create_guest_stack alloc protect a g =
     (if at_stack_addr a \<noteq> 0
      then (OK, a\<lparr>at_guard_size := 0, at_stack_user := True, at_stack_map_addr := 0, at_stack_map_size := 0\<rparr>, g)
      else
        let stack_size = round_stack_size (at_stack_size a);
            guard_size = round_stack_size (at_guard_size a);
            map_size = add64 stack_size guard_size
        in case place_stack map_size guard_size g of
             None \<Rightarrow> (KERNEL_ERROR_EAGAIN, a, if gs_last g = 0
                then g\<lparr>gs_last := PTHREAD_STACK_TOP - PTHREAD_STACK_INITIAL - PTHREAD_STACK_PAGE\<rparr> else g)
           | Some (place, cached, g) \<Rightarrow>
               let addr = (if cached then place else alloc place map_size)
               in if \<not> cached \<and> addr = 0 then (KERNEL_ERROR_EAGAIN, a, g)
                  else if guard_size \<noteq> 0 \<and> \<not> protect then (KERNEL_ERROR_EAGAIN, a, g)
                  else (OK, a\<lparr>at_stack_addr := add64 addr guard_size, at_stack_size := stack_size, at_stack_user := False,
                              at_stack_map_addr := addr, at_stack_map_size := map_size\<rparr>, g))"

definition owns_stack :: "attr \<Rightarrow> bool" where
  "owns_stack a \<longleftrightarrow> \<not> (at_stack_user a \<or> at_stack_map_addr a = 0 \<or> at_stack_map_size a = 0)"

definition free_guest_stack :: "attr \<Rightarrow> guest_stacks \<Rightarrow> attr \<times> guest_stacks" where
  "free_guest_stack a g =
     (if \<not> owns_stack a then (a, g)
      else (a\<lparr>at_stack_addr := 0, at_stack_map_addr := 0, at_stack_map_size := 0\<rparr>,
            g\<lparr>gs_cache := gs_cache g @ [\<lparr>cs_address = at_stack_map_addr a, cs_map_size = at_stack_map_size a,
                                         cs_guard_size = sub64 (at_stack_map_size a) (at_stack_size a)\<rparr>]\<rparr>))"

section \<open>The pool\<close>

record gthread =
  gt_name :: string
  gt_attr :: attr_ptr
  gt_entry :: u64
  gt_arg :: u64
  gt_unique_id :: int
  gt_guest_id :: int
  gt_detached :: bool
  gt_almost_done :: bool
  gt_free :: bool

definition blank_thread :: gthread where
  "blank_thread =
     \<lparr>gt_name = [], gt_attr = AttrNull, gt_entry = 0, gt_arg = 0, gt_unique_id = 0, gt_guest_id = 0, gt_detached = False,
      gt_almost_done = False, gt_free = False\<rparr>"

fun pool_create :: "gthread list \<Rightarrow> nat \<times> gthread list" where
  "pool_create [] = (0, [blank_thread])"
| "pool_create (p # ps) =
     (if gt_free p then (0, p\<lparr>gt_free := False\<rparr> # ps) else case pool_create ps of (i, ps) \<Rightarrow> (Suc i, p # ps))"

record threads_world =
  tw_pool :: "gthread list"
  tw_stacks :: guest_stacks
  tw_last_id :: int

record create_os =
  co_destroy :: host_result
  co_init :: host_result
  co_init_policy :: host_result
  co_param :: host_result
  co_policy :: host_result
  co_set :: host_result
  co_alloc :: "u64 \<Rightarrow> u64 \<Rightarrow> u64"
  co_protect :: bool
  co_create :: host_result

fun create_code :: "host_result \<Rightarrow> int" where
  "create_code HOk = OK"
| "create_code HNoMem = KERNEL_ERROR_ENOMEM"
| "create_code HAgain = KERNEL_ERROR_EAGAIN"
| "create_code HDeadlk = KERNEL_ERROR_EDEADLK"
| "create_code HPerm = KERNEL_ERROR_EPERM"
| "create_code _ = KERNEL_ERROR_EINVAL"

text \<open>\<open>PthreadJoin\<close>: the host's answer, and the attribute loses its stack.\<close>

datatype join_result = JoinOk | JoinNoThread | JoinDeadlock | JoinUnsupported | JoinInvalid

definition KERNEL_ERROR_EOPNOTSUPP :: int where "KERNEL_ERROR_EOPNOTSUPP = -2147352531"

fun join_code :: "join_result \<Rightarrow> int" where
  "join_code JoinOk = OK"
| "join_code JoinNoThread = KERNEL_ERROR_ESRCH"
| "join_code JoinDeadlock = KERNEL_ERROR_EDEADLK"
| "join_code JoinUnsupported = KERNEL_ERROR_EOPNOTSUPP"
| "join_code JoinInvalid = KERNEL_ERROR_EINVAL"

definition free_thread_stack :: "attr_ptr \<Rightarrow> guest_stacks \<Rightarrow> attr_ptr \<times> guest_stacks" where
  "free_thread_stack v g =
     (case v of AttrObject a \<Rightarrow> (case free_guest_stack a g of (a, g) \<Rightarrow> (AttrObject a, g)) | _ \<Rightarrow> (v, g))"

definition thread_update :: "nat \<Rightarrow> (gthread \<Rightarrow> gthread) \<Rightarrow> threads_world \<Rightarrow> threads_world" where
  "thread_update i f w = w\<lparr>tw_pool := (tw_pool w)[i := f (tw_pool w ! i)]\<rparr>"

definition pthread_join :: "join_result \<Rightarrow> nat option \<Rightarrow> threads_world \<Rightarrow> int \<times> threads_world" where
  "pthread_join host thread w =
     (case thread of
        None \<Rightarrow> (KERNEL_ERROR_EINVAL, w)
      | Some i \<Rightarrow>
          (join_code host,
           if host = JoinOk
           then case free_thread_stack (gt_attr (tw_pool w ! i)) (tw_stacks w) of
                  (v, g) \<Rightarrow> thread_update i (\<lambda>t. t\<lparr>gt_attr := v, gt_almost_done := False, gt_free := True\<rparr>) (w\<lparr>tw_stacks := g\<rparr>)
           else w))"

definition pthread_detach :: "nat option \<Rightarrow> threads_world \<Rightarrow> int \<times> threads_world" where
  "pthread_detach thread w =
     (case thread of None \<Rightarrow> (KERNEL_ERROR_EINVAL, w) | Some i \<Rightarrow> (OK, thread_update i (\<lambda>t. t\<lparr>gt_detached := True\<rparr>) w))"

text \<open>\<open>FreeDetachedThreads\<close>: the answers of the host to the joins are given for each place.\<close>

definition free_detached_threads :: "(nat \<Rightarrow> join_result) \<Rightarrow> threads_world \<Rightarrow> threads_world" where
  "free_detached_threads host w =
     fold (\<lambda>i w. let p = tw_pool w ! i
                 in if gt_detached p \<and> gt_almost_done p \<and> \<not> gt_free p then snd (pthread_join (host i) (Some i) w) else w)
       [0..<length (tw_pool w)] w"

text \<open>The end of \<open>CleanupThread\<close>, and the beginning of \<open>RunThread\<close> with the number that the host gives the thread.\<close>

definition thread_begins :: "int \<Rightarrow> nat \<Rightarrow> threads_world \<Rightarrow> threads_world" where
  "thread_begins tid i = thread_update i (\<lambda>t. t\<lparr>gt_unique_id := tid\<rparr>)"

definition thread_ends :: "nat \<Rightarrow> threads_world \<Rightarrow> threads_world" where
  "thread_ends i = thread_update i (\<lambda>t. t\<lparr>gt_almost_done := True\<rparr>)"

section \<open>Creating a thread\<close>

text \<open>The attribute of the new thread: the old one goes, a fresh one is made and the given one copied onto it.\<close>

definition new_thread_attr :: "create_os \<Rightarrow> attr_ptr \<Rightarrow> attr_ptr option \<Rightarrow> (int \<times> attr_ptr) option" where
  "new_thread_attr os old src =
     (case pthread_attr_init (co_init os) (co_init_policy os) of
        Some (_, Some v) \<Rightarrow>
          (case pthread_attr_copy (co_param os) (co_policy os) (co_set os) (Some v) src of
             Some (r, Some v) \<Rightarrow> Some (r, v)
           | _ \<Rightarrow> None)
      | _ \<Rightarrow> None)"

text \<open>
  \<open>PthreadCreate\<close>: \<open>attr\<close> is null, a null object, a small number or an object; the first three give the default. The
  result is the code and the place of the new thread, which is written also when the creation fails.
\<close>

definition pthread_create ::
  "create_os \<Rightarrow> attr \<Rightarrow> bool \<Rightarrow> attr_ptr option \<Rightarrow> u64 \<Rightarrow> u64 \<Rightarrow> string option \<Rightarrow> threads_world \<Rightarrow>
   (int \<times> nat option \<times> threads_world) option" where
  "pthread_create os default_attr out attr entry arg name w =
     (if \<not> out then Some (KERNEL_ERROR_EINVAL, None, w)
      else
        let src = (if attr_value attr = None then Some (AttrObject default_attr) else attr)
        in case pool_create (tw_pool w) of
          (i, pool) \<Rightarrow>
            (case new_thread_attr os (gt_attr (pool ! i)) src of
               None \<Rightarrow> None
             | Some (r, v) \<Rightarrow>
                 let w = w\<lparr>tw_pool := pool[i := (pool ! i)\<lparr>gt_attr := v\<rparr>]\<rparr>
                 in case v of
                      AttrObject a \<Rightarrow>
                        if r \<noteq> 0 then Some (r, Some i, thread_update i (\<lambda>t. t\<lparr>gt_free := True\<rparr>) w)
                        else
                          let a = (if at_stack_addr a = 0 then a\<lparr>at_stack_size := add64 (at_stack_size a) PTHREAD_STACK_EXTRA\<rparr> else a)
                          in (case create_guest_stack (co_alloc os) (co_protect os) a (tw_stacks w) of
                                (r, a, g) \<Rightarrow>
                                  let w = (thread_update i (\<lambda>t. t\<lparr>gt_attr := AttrObject a\<rparr>) w)\<lparr>tw_stacks := g\<rparr>
                                  in if r \<noteq> 0 then Some (r, Some i, thread_update i (\<lambda>t. t\<lparr>gt_free := True\<rparr>) w)
                                     else
                                       let next_id = tw_last_id w + 1;
                                           w = thread_update i (\<lambda>t. t\<lparr>gt_name := (case name of None \<Rightarrow> [] | Some n \<Rightarrow> n),
                                                 gt_entry := entry, gt_arg := arg, gt_guest_id := next_id, gt_almost_done := False,
                                                 gt_detached := at_detached a, gt_unique_id := -1\<rparr>) (w\<lparr>tw_last_id := next_id\<rparr>)
                                       in if co_create os = HOk then Some (OK, Some i, w)
                                          else case free_guest_stack a (tw_stacks w) of
                                                 (a, g) \<Rightarrow> Some (create_code (co_create os), Some i,
                                                   thread_update i (\<lambda>t. t\<lparr>gt_attr := AttrObject a, gt_free := True\<rparr>) (w\<lparr>tw_stacks := g\<rparr>)))
                    | _ \<Rightarrow> None))"

end
