(* ===== verification/Pthread_Attr_Facts.thy ===== *)
theory Pthread_Attr_Facts
  imports Pthread_Attr
begin

text \<open>
  The thread attributes are well typed: setters called with defined arguments never stop the process and keep every field in
  the range that the getters and the copy accept, so these never stop it either.
\<close>

section \<open>Scripts of setter calls\<close>

datatype attr_op =
  SetAffinity u64 | SetDetach int | SetGuard u64 | SetInherit int | SetParam "int option" | SetPolicy host_result int | SetSolo int
| SetStack u64 u64 | SetStackAddr u64 | SetStackSize u64

fun attr_apply :: "attr_op \<Rightarrow> attr_ptr option \<Rightarrow> (int \<times> attr_ptr option) option" where
  "attr_apply (SetAffinity cpus) v = attr_setaffinity cpus v"
| "attr_apply (SetDetach state) v = attr_setdetachstate state v"
| "attr_apply (SetGuard bytes) v = attr_setguardsize bytes v"
| "attr_apply (SetInherit inherit) v = attr_setinheritsched inherit v"
| "attr_apply (SetParam param) v = attr_setschedparam param v"
| "attr_apply (SetPolicy host policy) v = attr_setschedpolicy host policy v"
| "attr_apply (SetSolo solosched) v = attr_setsolosched solosched v"
| "attr_apply (SetStack addr bytes) v = attr_setstack addr bytes v"
| "attr_apply (SetStackAddr addr) v = attr_setstackaddr addr v"
| "attr_apply (SetStackSize bytes) v = attr_setstacksize bytes v"

fun attr_run :: "attr_op list \<Rightarrow> attr_ptr option \<Rightarrow> attr_ptr option option" where
  "attr_run [] v = Some v"
| "attr_run (op # ops) v = (case attr_apply op v of None \<Rightarrow> None | Some (code, v) \<Rightarrow> attr_run ops v)"

text \<open>The arguments that the code has a case for.\<close>

fun op_defined :: "attr_op \<Rightarrow> bool" where
  "op_defined (SetDetach state) \<longleftrightarrow> state = 0 \<or> state = 1"
| "op_defined (SetInherit inherit) \<longleftrightarrow> inherit = 0 \<or> inherit = 4"
| "op_defined _ \<longleftrightarrow> True"

definition attr_ok :: "attr \<Rightarrow> bool" where
  "attr_ok a \<longleftrightarrow>
     (at_inherit_sched a = 0 \<or> at_inherit_sched a = 4) \<and> at_host_policy a = SchedOther \<and> GUEST_PTHREAD_STACK_MIN \<le> at_stack_size a \<and>
     (at_stack_user a \<longrightarrow> at_stack_addr a \<noteq> 0 \<and> at_stack_map_addr a = 0 \<and> at_stack_map_size a = 0)"

lemmas attr_setters =
  attr_setaffinity_def attr_setdetachstate_def attr_setguardsize_def attr_setinheritsched_def attr_setschedparam_def
  attr_setschedpolicy_def attr_setsolosched_def attr_setstack_def attr_setstackaddr_def attr_setstacksize_def

lemmas attr_getters =
  attr_getaffinity_def attr_getdetachstate_def attr_getguardsize_def attr_getinheritsched_def attr_getschedparam_def
  attr_getschedpolicy_def attr_getsolosched_def attr_getstack_def attr_getstackaddr_def attr_getstacksize_def

lemma attr_set_object [simp]:
  "attr_set f (Some (AttrObject a)) = map_option (\<lambda>(r, a). (r, Some (AttrObject a))) (f a)"
  by (simp add: attr_set_def attr_value_def)

lemma attr_get_object [simp]:
  "attr_get f True (Some (AttrObject a)) = map_option (\<lambda>(r, x). (r, Some x)) (f a)"
  by (simp add: attr_get_def)

lemma attr_then_simps [simp]:
  "attr_then None f = None" "attr_then (Some (code, v)) f = (if code = 0 then f v else Some (code, v))"
  by (simp_all add: attr_then_def)

lemma attr_apply_ok:
  assumes "attr_ok a" and "op_defined op"
  shows "\<exists>code a'. attr_apply op (Some (AttrObject a)) = Some (code, Some (AttrObject a')) \<and> attr_ok a'"
  using assms by (cases op) (auto simp: attr_setters attr_ok_def use_stack_at_def Let_def split: option.split)

lemma attr_run_ok:
  "attr_ok a \<Longrightarrow> \<forall>op \<in> set ops. op_defined op \<Longrightarrow> \<exists>a'. attr_run ops (Some (AttrObject a)) = Some (Some (AttrObject a')) \<and> attr_ok a'"
proof (induction ops arbitrary: a)
  case (Cons op ops)
  then obtain code a1 where a1: "attr_apply op (Some (AttrObject a)) = Some (code, Some (AttrObject a1))" "attr_ok a1"
    using attr_apply_ok [of a op] by auto
  with Cons.IH [OF a1(2)] Cons.prems(2) show ?case by auto
qed simp

lemma attr_init_eval:
  "pthread_attr_init HOk host =
     (let a = fresh_attr\<lparr>at_inherit_sched := 4, at_guest_priority := 700, at_policy := 1\<rparr>
      in Some (if host = HOk then OK else KERNEL_ERROR_EINVAL, Some (AttrObject a)))"
  by (cases "host = HOk")
    (simp_all add: pthread_attr_init_def attr_setters fresh_attr_def OK_def KERNEL_ERROR_EINVAL_def Let_def
      PTHREAD_STACK_DEFAULT_def GUEST_PTHREAD_STACK_MIN_def)

lemma attr_init_ok:
  "pthread_attr_init HOk host = Some (code, v) \<Longrightarrow> \<exists>a. v = Some (AttrObject a) \<and> attr_ok a \<and> at_stack_addr a = 0"
  by (auto simp: attr_init_eval fresh_attr_def attr_ok_def Let_def PTHREAD_STACK_DEFAULT_def GUEST_PTHREAD_STACK_MIN_def)

text \<open>What a guest reads of an attribute through the getters.\<close>

definition attr_view :: "attr \<Rightarrow> (int \<times> u64 option) option \<times> (int \<times> int option) option \<times> (int \<times> u64 option) option \<times>
    (int \<times> int option) option \<times> (int \<times> int option) option \<times> (int \<times> int option) option \<times> (int \<times> int option) option \<times>
    (int \<times> (u64 \<times> u64) option) option" where
  "attr_view a =
     (let v = Some (AttrObject a)
      in (attr_getaffinity True v, attr_getdetachstate True v, attr_getguardsize True v, attr_getinheritsched True v,
          attr_getschedparam HOk True v, attr_getschedpolicy HOk True v, attr_getsolosched True v, attr_getstack True v))"

lemma attr_copy_exact:
  assumes a: "attr_ok a" and d: "attr_ok d" "at_stack_addr d = 0"
  shows "\<exists>d'. pthread_attr_copy HOk HOk HOk (Some (AttrObject d)) (Some (AttrObject a)) = Some (OK, Some (AttrObject d')) \<and>
    attr_ok d' \<and> attr_view d' = attr_view a"
proof -
  have size: "0 < at_stack_size a" "\<not> at_stack_size a < GUEST_PTHREAD_STACK_MIN"
    using a by (auto simp: attr_ok_def GUEST_PTHREAD_STACK_MIN_def)
  define d1 where "d1 = d\<lparr>at_affinity := at_affinity a, at_detached := at_detached a, at_guard_size := at_guard_size a,
    at_inherit_sched := at_inherit_sched a, at_guest_priority := at_guest_priority a, at_policy := at_policy a,
    at_host_policy := SchedOther, at_solosched := at_solosched a\<rparr>"
  define d' where "d' = (if at_stack_addr a \<noteq> 0 then use_stack_at (at_stack_addr a) d1 else d1)\<lparr>at_stack_size := at_stack_size a\<rparr>"
  have inherit: "at_inherit_sched a = 0 \<or> at_inherit_sched a = 4" "at_host_policy a = SchedOther" using a by (auto simp: attr_ok_def)
  have "attr_read_all HOk HOk (Some (AttrObject a)) = Some (OK, Some a)"
    using inherit by (auto simp: attr_read_all_def attr_value_def attr_getters OK_def)
  then have "pthread_attr_copy HOk HOk HOk (Some (AttrObject d)) (Some (AttrObject a)) = Some (OK, Some (AttrObject d'))"
    using inherit size by (auto simp: pthread_attr_copy_def attr_setters OK_def Let_def d'_def d1_def use_stack_at_def)
  moreover have "attr_ok d'" using a d by (auto simp: attr_ok_def d'_def d1_def use_stack_at_def)
  moreover have "attr_view d' = attr_view a"
    using a d(2) by (auto simp: attr_view_def attr_getters attr_ok_def d'_def d1_def use_stack_at_def Let_def)
  ultimately show ?thesis by blast
qed

section \<open>Type safety\<close>

text \<open>C35: Thread attributes are type safe. From an initialised attribute, every script of setter calls whose enumeration
  arguments are defined runs to its end without stopping the process, whatever else its arguments are and whatever the host
  answers. It leaves an attribute with a defined inheritance mode, the policy of the host that was set and a stack size of
  at least the minimum, on which no getter stops the process; and copying it onto an initialised attribute succeeds and reads the
  same through every getter.\<close>

theorem attr_type_safe:
  assumes "pthread_attr_init HOk host = Some (code, v)" and "\<forall>op \<in> set ops. op_defined op"
    and "pthread_attr_init HOk host' = Some (code', Some (AttrObject d))"
  shows "\<exists>a d'. attr_run ops v = Some (Some (AttrObject a)) \<and> attr_ok a \<and>
    attr_getinheritsched True (Some (AttrObject a)) \<noteq> None \<and> attr_getschedpolicy h True (Some (AttrObject a)) \<noteq> None \<and>
    pthread_attr_copy HOk HOk HOk (Some (AttrObject d)) (Some (AttrObject a)) = Some (OK, Some (AttrObject d')) \<and>
    attr_view d' = attr_view a"
proof -
  obtain a0 where a0: "v = Some (AttrObject a0)" "attr_ok a0" using attr_init_ok [OF assms(1)] by blast
  obtain a where a: "attr_run ops v = Some (Some (AttrObject a))" "attr_ok a" using attr_run_ok [OF a0(2) assms(2)] a0(1) by blast
  have d: "attr_ok d" "at_stack_addr d = 0" using attr_init_ok [OF assms(3)] by auto
  have "attr_getinheritsched True (Some (AttrObject a)) \<noteq> None" "attr_getschedpolicy h True (Some (AttrObject a)) \<noteq> None"
    using a(2) by (auto simp: attr_getters attr_ok_def)
  with a attr_copy_exact [OF a(2) d] show ?thesis by blast
qed

lemma attr_type_safe_witness:
  "\<exists>a. attr_run [SetDetach 1, SetStack 0x10000 0x8000] (Some (AttrObject (fresh_attr\<lparr>at_inherit_sched := 4, at_guest_priority := 700, at_policy := 1\<rparr>))) =
     Some (Some (AttrObject a)) \<and> attr_ok a"
proof -
  let ?d = "fresh_attr\<lparr>at_inherit_sched := 4, at_guest_priority := 700, at_policy := 1\<rparr>"
  have init: "pthread_attr_init HOk HOk = Some (OK, Some (AttrObject ?d))"
    by (simp add: attr_init_eval Let_def)
  from attr_type_safe [OF init _ init, of "[SetDetach 1, SetStack 0x10000 0x8000]" HOk] show ?thesis by auto
qed

end
