(* ===== verification/Guest_Threads_Facts.thy ===== *)
theory Guest_Threads_Facts
  imports Guest_Threads Pthread_Attr_Facts Shares
begin

text \<open>
  No two threads ever share a stack: the stacks of the threads that are not free and the cached ones lie apart, whatever
  the order in which threads are created, end, and are joined or detached.
\<close>

section \<open>What an attribute owns\<close>

definition stack_range :: "attr \<Rightarrow> (u64 \<times> u64) list" where
  "stack_range a = (if owns_stack a then [(at_stack_map_addr a, at_stack_map_size a)] else [])"

fun attr_range :: "attr_ptr \<Rightarrow> (u64 \<times> u64) list" where
  "attr_range (AttrObject a) = stack_range a"
| "attr_range _ = []"

text \<open>The guard is below the stack, and both fill the mapping.\<close>

definition stack_layout :: "attr \<Rightarrow> bool" where
  "stack_layout a \<longleftrightarrow> (owns_stack a \<longrightarrow>
     at_stack_map_addr a \<le> at_stack_addr a \<and> at_stack_addr a + at_stack_size a = at_stack_map_addr a + at_stack_map_size a \<and>
     at_stack_map_addr a + at_stack_map_size a \<le> U64_MAX)"

fun layout_ok :: "attr_ptr \<Rightarrow> bool" where
  "layout_ok (AttrObject a) = stack_layout a"
| "layout_ok _ = True"

definition cache_range :: "cached_stack \<Rightarrow> u64 \<times> u64" where
  "cache_range c = (cs_address c, cs_map_size c)"

definition cache_ok :: "guest_stacks \<Rightarrow> bool" where
  "cache_ok g \<longleftrightarrow> (\<forall>c \<in> set (gs_cache g). cs_guard_size c \<le> cs_map_size c \<and> cs_address c + cs_map_size c \<le> U64_MAX)"

definition cache_ranges :: "guest_stacks \<Rightarrow> (u64 \<times> u64) list" where
  "cache_ranges g = map cache_range (gs_cache g)"

definition pool_ranges :: "gthread list \<Rightarrow> (u64 \<times> u64) list" where
  "pool_ranges ps = concat (map (attr_range \<circ> gt_attr) ps)"

lemma pool_ranges_update:
  "i < length ps \<Longrightarrow>
     mset (pool_ranges (ps[i := t])) + mset (attr_range (gt_attr (ps ! i))) = mset (pool_ranges ps) + mset (attr_range (gt_attr t))"
proof (induction ps arbitrary: i)
  case (Cons p ps)
  then show ?case by (cases i) (auto simp: pool_ranges_def)
qed simp

lemma round_stack_size:
  assumes "n \<le> U64_MAX - PTHREAD_STACK_PAGE"
  shows "round_stack_size n = (n + PTHREAD_STACK_PAGE - 1) div PTHREAD_STACK_PAGE * PTHREAD_STACK_PAGE"
proof -
  have "add64 n PTHREAD_STACK_PAGE = n + PTHREAD_STACK_PAGE" using assms by (simp add: add64_le PTHREAD_STACK_PAGE_def U64_MAX_def)
  moreover have "sub64 (n + PTHREAD_STACK_PAGE) 1 = n + PTHREAD_STACK_PAGE - 1"
    using assms by (intro sub64_le) (auto simp: PTHREAD_STACK_PAGE_def U64_MAX_def)
  ultimately show ?thesis by (simp add: round_stack_size_def)
qed

lemma round_stack_bound: "n \<le> 2 ^ 62 \<Longrightarrow> round_stack_size n \<le> 2 ^ 62 + 0x4000"
proof -
  assume n: "n \<le> 2 ^ 62"
  then have "round_stack_size n = (n + 0x4000 - 1) div 0x4000 * 0x4000"
    by (subst round_stack_size) (simp_all add: PTHREAD_STACK_PAGE_def U64_MAX_def)
  also have "\<dots> \<le> n + 0x4000 - 1" by (simp add: div_times_less_eq_dividend)
  also have "\<dots> \<le> 2 ^ 62 + 0x4000" using n by simp
  finally show ?thesis .
qed

section \<open>The effect of the stack operations\<close>

lemma take_cached_spec:
  "take_cached n k cs = Some (c, ds) \<Longrightarrow> cs_map_size c = n \<and> cs_guard_size c = k \<and> mset cs = add_mset c (mset ds)"
  by (induction n k cs arbitrary: ds rule: take_cached.induct) (auto split: if_splits)

lemma free_stack_spec:
  assumes "free_guest_stack a g = (a', g')" and "stack_layout a" and "cache_ok g"
  shows "mset (cache_ranges g') = mset (cache_ranges g) + mset (stack_range a) \<and> stack_range a' = [] \<and> stack_layout a' \<and> cache_ok g'"
proof (cases "owns_stack a")
  case True
  then have lay: "at_stack_size a \<le> at_stack_map_size a" "at_stack_map_addr a + at_stack_map_size a \<le> U64_MAX"
    using assms(2) by (auto simp: stack_layout_def)
  then have "sub64 (at_stack_map_size a) (at_stack_size a) = at_stack_map_size a - at_stack_size a" by (intro sub64_le) auto
  then show ?thesis using assms True lay
    by (auto simp: free_guest_stack_def cache_ranges_def cache_range_def stack_range_def owns_stack_def stack_layout_def cache_ok_def)
qed (use assms in \<open>auto simp: free_guest_stack_def stack_range_def\<close>)

text \<open>
  What the memory manager promises: the memory of a new stack is nobody's, in particular not that of another stack.
\<close>

definition alloc_ok :: "(u64 \<Rightarrow> u64 \<Rightarrow> u64) \<Rightarrow> (u64 \<times> u64) list \<Rightarrow> bool" where
  "alloc_ok alloc ranges \<longleftrightarrow>
     (\<forall>place n. alloc place n \<noteq> 0 \<longrightarrow> alloc place n + n \<le> U64_MAX \<and> span (alloc place n) n \<inter> owned fst snd ranges = {})"

lemma create_stack_spec:
  assumes run: "create_guest_stack alloc protect a g = (r, a', g')"
    and size: "at_stack_size a \<le> 2 ^ 62" "at_guard_size a \<le> 2 ^ 62"
    and ok: "cache_ok g" "stack_range a = []" and alloc: "alloc_ok alloc ranges"
  shows "cache_ok g' \<and> stack_layout a' \<and> (r \<noteq> OK \<longrightarrow> stack_range a' = []) \<and>
    (\<exists>new. mset (cache_ranges g' @ stack_range a') \<subseteq># mset (cache_ranges g @ new) \<and>
       (new = [] \<or> (\<exists>x n. new = [(x, n)] \<and> span x n \<inter> owned fst snd ranges = {})))"
proof (cases "at_stack_addr a = 0")
  case False
  then show ?thesis using run ok
    by (auto simp: create_guest_stack_def stack_layout_def owns_stack_def stack_range_def intro!: exI [of _ "[]"])
next
  case True
  define s k n where "s = round_stack_size (at_stack_size a)" and "k = round_stack_size (at_guard_size a)" and "n = s + k"
  have "s \<le> 2 ^ 62 + 0x4000" "k \<le> 2 ^ 62 + 0x4000" using round_stack_bound size by (simp_all add: s_def k_def)
  then have n: "add64 s k = n" by (simp add: n_def add64_le U64_MAX_def)
  have quiet: "stack_layout a" "stack_range a = []" using ok by (auto simp: stack_range_def stack_layout_def split: if_splits)
  show ?thesis
  proof (cases "place_stack n k g")
    case None
    then have "r = KERNEL_ERROR_EAGAIN" "a' = a" "gs_cache g' = gs_cache g"
      using run True n by (auto simp: create_guest_stack_def s_def [symmetric] k_def [symmetric] Let_def split: if_splits)
    then show ?thesis using quiet ok by (auto simp: cache_ok_def cache_ranges_def intro!: exI [of _ "[]"])
  next
    case (Some p)
    obtain place cached g1 where p: "p = (place, cached, g1)" by (cases p)
    define x where "x = (if cached then place else alloc place n)"
    have place: "place_stack n k g = Some (place, cached, g1)" using Some p by simp
    have cases: "r = KERNEL_ERROR_EAGAIN \<and> a' = a \<and> g' = g1 \<or>
      (cached \<or> x \<noteq> 0) \<and> g' = g1 \<and> r = OK \<and> a' = a\<lparr>at_stack_addr := add64 x k, at_stack_size := s, at_stack_user := False,
         at_stack_map_addr := x, at_stack_map_size := n\<rparr>"
      using run True n place by (auto simp: create_guest_stack_def s_def [symmetric] k_def [symmetric] x_def Let_def split: if_splits)
    have "OK \<noteq> KERNEL_ERROR_EAGAIN" by (simp add: OK_def KERNEL_ERROR_EAGAIN_def)
    show ?thesis
    proof (cases cached)
      case c: True
      then obtain d ds where d: "take_cached n k (gs_cache g) = Some (d, ds)" "place = cs_address d" "g1 = g\<lparr>gs_cache := ds\<rparr>"
        using place by (auto simp: place_stack_def Let_def split: option.splits if_splits)
      from take_cached_spec [OF d(1)] have t: "cs_map_size d = n" "cs_guard_size d = k" "mset (gs_cache g) = add_mset d (mset ds)" by auto
      then have "set (gs_cache g) = insert d (set ds)" by (metis set_mset_add_mset_insert set_mset_mset)
      then have g1: "cache_ok g1" "cs_address d + n \<le> U64_MAX" using ok(1) t d(3) by (auto simp: cache_ok_def)
      have "mset (cache_ranges g) = add_mset (cs_address d, n) (mset (cache_ranges g1))"
        using t d(3) by (simp add: cache_ranges_def cache_range_def)
      moreover have "add64 (cs_address d) k = cs_address d + k" using g1(2) by (simp add: n_def add64_le)
      moreover have "x = cs_address d" using c d(2) by (simp add: x_def)
      ultimately show ?thesis using cases g1 quiet
        by (auto simp: stack_layout_def stack_range_def owns_stack_def n_def intro!: exI [of _ "[]"])
    next
      case c: False
      then have g1: "gs_cache g1 = gs_cache g" using place by (auto simp: place_stack_def Let_def split: option.splits if_splits)
      have law: "x \<noteq> 0 \<Longrightarrow> x + n \<le> U64_MAX \<and> span x n \<inter> owned fst snd ranges = {}" using alloc c by (auto simp: alloc_ok_def x_def)
      then have add: "x \<noteq> 0 \<Longrightarrow> add64 x k = x + k" by (simp add: n_def add64_le)
      from cases show ?thesis
      proof (elim disjE conjE)
        assume "r = KERNEL_ERROR_EAGAIN" "a' = a" "g' = g1"
        then show ?thesis using g1 ok(1) quiet by (auto simp: cache_ok_def cache_ranges_def intro!: exI [of _ "[]"])
      next
        assume "cached" then show ?thesis using c by simp
      next
        assume x: "x \<noteq> 0" and "g' = g1" and "r = OK" and a': "a' = a\<lparr>at_stack_addr := add64 x k, at_stack_size := s, at_stack_user := False,
         at_stack_map_addr := x, at_stack_map_size := n\<rparr>"
        have "stack_layout a'" using x law add by (simp add: stack_layout_def a' n_def)
        moreover have "mset (stack_range a') \<subseteq># mset [(x, n)]" by (simp add: stack_range_def owns_stack_def a')
        ultimately show ?thesis using \<open>g' = g1\<close> \<open>r = OK\<close> g1 ok(1) law [OF x]
          by (auto simp: cache_ok_def cache_ranges_def intro!: exI [of _ "[(x, n)]"])
      qed
    qed
  qed
qed


section \<open>The attribute of a new thread\<close>

text \<open>An attribute that owns no stack and asks for one of a sensible size.\<close>

definition asks_stack :: "attr \<Rightarrow> bool" where
  "asks_stack a \<longleftrightarrow> at_stack_map_addr a = 0 \<and> at_stack_size a \<le> 2 ^ 61 \<and> at_guard_size a \<le> 2 ^ 61"

definition result_ok :: "(attr \<Rightarrow> bool) \<Rightarrow> (int \<times> attr_ptr option) option \<Rightarrow> bool" where
  "result_ok P r \<longleftrightarrow> (\<forall>c v. r = Some (c, v) \<longrightarrow> (\<exists>a. v = Some (AttrObject a) \<and> P a))"

lemma result_ok_then:
  assumes "result_ok P r" and "\<And>a. P a \<Longrightarrow> result_ok P (f (Some (AttrObject a)))"
  shows "result_ok P (attr_then r f)"
proof (cases r)
  case (Some p)
  obtain c v where p: "p = (c, v)" by (cases p)
  obtain a where "v = Some (AttrObject a)" "P a" using assms(1) Some p by (auto simp: result_ok_def)
  then show ?thesis using assms(2) [of a] Some p by (cases "c = 0") (simp_all add: result_ok_def)
qed (simp add: result_ok_def)

lemma setters_ask:
  assumes "asks_stack a"
  shows "result_ok asks_stack (attr_setaffinity c (Some (AttrObject a)))" "result_ok asks_stack (attr_setdetachstate d (Some (AttrObject a)))"
    "result_ok asks_stack (attr_setinheritsched d (Some (AttrObject a)))" "result_ok asks_stack (attr_setschedparam p (Some (AttrObject a)))"
    "result_ok asks_stack (attr_setschedpolicy h d (Some (AttrObject a)))" "result_ok asks_stack (attr_setsolosched d (Some (AttrObject a)))"
    "result_ok asks_stack (attr_setstackaddr c (Some (AttrObject a)))"
    "n \<le> 2 ^ 61 \<Longrightarrow> result_ok asks_stack (attr_setguardsize n (Some (AttrObject a)))"
    "n \<le> 2 ^ 61 \<Longrightarrow> result_ok asks_stack (attr_setstacksize n (Some (AttrObject a)))"
  using assms by (auto simp: attr_setters asks_stack_def result_ok_def use_stack_at_def Let_def split: option.splits if_splits)

lemma init_asks: "result_ok asks_stack (pthread_attr_init h h')"
proof -
  have fresh: "asks_stack fresh_attr" by (simp add: asks_stack_def fresh_attr_def PTHREAD_STACK_DEFAULT_def)
  show ?thesis
  proof (cases "h = HOk")
    case True
    have "asks_stack (fresh_attr\<lparr>at_inherit_sched := 4, at_guest_priority := 700, at_policy := 1\<rparr>)"
      using fresh by (simp add: asks_stack_def)
    then show ?thesis by (simp add: True attr_init_eval result_ok_def Let_def)
  next
    case False
    then show ?thesis using fresh by (simp add: pthread_attr_init_def result_ok_def)
  qed
qed

lemma copy_asks:
  assumes d: "asks_stack d" and src: "src = Some (AttrObject b)" "at_stack_size b \<le> 2 ^ 61" "at_guard_size b \<le> 2 ^ 61"
  shows "result_ok asks_stack (pthread_attr_copy h h' h'' (Some (AttrObject d)) src)"
proof (cases "attr_read_all h h' src")
  case None
  then show ?thesis using src(1) by (simp add: pthread_attr_copy_def result_ok_def)
next
  case (Some p)
  obtain c x where p: "p = (c, x)" by (cases p)
  show ?thesis
  proof (cases x)
    case None
    then show ?thesis using Some p src(1) d by (simp add: pthread_attr_copy_def result_ok_def)
  next
    case (Some a)
    have "at_stack_size a \<le> 2 ^ 61" "at_guard_size a \<le> 2 ^ 61"
      using \<open>attr_read_all h h' src = Some p\<close> Some p src
      by (auto simp: attr_read_all_def attr_value_def split: if_splits option.splits)
    note ask = setters_ask(1-7) setters_ask(8,9) [OF _ this(2)] setters_ask(8,9) [OF _ this(1)]
    have "pthread_attr_copy h h' h'' (Some (AttrObject d)) src =
      (let r = attr_setaffinity (at_affinity a) (Some (AttrObject d));
           r = attr_then r (attr_setdetachstate (if at_detached a then 1 else 0));
           r = attr_then r (attr_setguardsize (at_guard_size a));
           r = attr_then r (attr_setinheritsched (at_inherit_sched a));
           r = attr_then r (attr_setschedparam (Some (at_guest_priority a)));
           r = attr_then r (attr_setschedpolicy h'' (at_policy a));
           r = attr_then r (attr_setsolosched (at_solosched a));
           r = (if at_stack_addr a \<noteq> 0 then attr_then r (attr_setstackaddr (at_stack_addr a)) else r);
           r = (if at_stack_size a \<noteq> 0 then attr_then r (attr_setstacksize (at_stack_size a)) else r)
       in r)"
      using \<open>attr_read_all h h' src = Some p\<close> Some p src(1) by (simp add: pthread_attr_copy_def)
    then show ?thesis unfolding Let_def by (simp add: result_ok_then ask d)
  qed
qed

lemma new_attr_asks:
  assumes "new_thread_attr os old src = Some (r, v)"
    and "src = Some (AttrObject b)" "at_stack_size b \<le> 2 ^ 61" "at_guard_size b \<le> 2 ^ 61"
  shows "\<exists>a. v = AttrObject a \<and> asks_stack a"
proof -
  obtain c v1 where i: "pthread_attr_init (co_init os) (co_init_policy os) = Some (c, Some v1)"
    "pthread_attr_copy (co_param os) (co_policy os) (co_set os) (Some v1) src = Some (r, Some v)"
    using assms(1) by (auto simp: new_thread_attr_def split: option.splits)
  obtain d where d: "v1 = AttrObject d" "asks_stack d" using init_asks i(1) by (fastforce simp: result_ok_def)
  from copy_asks [OF d(2) assms(2-4), of "co_param os" "co_policy os" "co_set os"] i(2) d(1) show ?thesis
    by (simp add: result_ok_def)
qed

section \<open>The invariant\<close>

definition threads_ok :: "gthread list \<Rightarrow> guest_stacks \<Rightarrow> bool" where
  "threads_ok ps g \<longleftrightarrow> unshared_blocks fst snd (cache_ranges g @ pool_ranges ps) \<and> cache_ok g \<and>
     (\<forall>t \<in> set ps. layout_ok (gt_attr t) \<and> (gt_free t \<longrightarrow> attr_range (gt_attr t) = []))"

lemma threads_okD:
  assumes "threads_ok ps g"
  shows "cache_ok g" "i < length ps \<Longrightarrow> layout_ok (gt_attr (ps ! i))" "i < length ps \<Longrightarrow> gt_free (ps ! i) \<Longrightarrow> attr_range (gt_attr (ps ! i)) = []"
  using assms by (auto simp: threads_ok_def)

lemma threads_ok_update:
  assumes ok: "threads_ok ps g" and i: "i < length ps"
    and sub: "mset (cache_ranges g' @ attr_range (gt_attr t)) \<subseteq># mset (cache_ranges g @ attr_range (gt_attr (ps ! i)) @ new)"
    and new: "new = [] \<or> (\<exists>x n. new = [(x, n)] \<and> span x n \<inter> owned fst snd (cache_ranges g @ pool_ranges ps) = {})"
    and g': "cache_ok g'" and t: "layout_ok (gt_attr t)" "gt_free t \<Longrightarrow> attr_range (gt_attr t) = []"
  shows "threads_ok (ps[i := t]) g'"
proof -
  have "mset (cache_ranges g') + mset (pool_ranges (ps[i := t])) + mset (attr_range (gt_attr (ps ! i))) =
      mset (cache_ranges g' @ attr_range (gt_attr t)) + mset (pool_ranges ps)"
    using pool_ranges_update [OF i, of t] by (simp add: ac_simps)
  also have "\<dots> \<subseteq># mset (new @ cache_ranges g @ pool_ranges ps) + mset (attr_range (gt_attr (ps ! i)))"
    using mset_subset_eq_mono_add [OF sub subset_mset.order_refl [of "mset (pool_ranges ps)"]] by (simp add: ac_simps)
  finally have "mset (cache_ranges g' @ pool_ranges (ps[i := t])) \<subseteq># mset (new @ cache_ranges g @ pool_ranges ps)"
    by (simp only: mset_append mset_subset_eq_mono_add_right_cancel)
  moreover have "unshared_blocks fst snd (new @ cache_ranges g @ pool_ranges ps)" using ok new by (auto simp: threads_ok_def)
  ultimately have "unshared_blocks fst snd (cache_ranges g' @ pool_ranges (ps[i := t]))" by (rule unshared_subset)
  moreover have "\<forall>u \<in> set (ps[i := t]). layout_ok (gt_attr u) \<and> (gt_free u \<longrightarrow> attr_range (gt_attr u) = [])"
    using ok t set_update_subset_insert [of ps i t] by (auto simp: threads_ok_def)
  ultimately show ?thesis using g' by (simp add: threads_ok_def)
qed

lemma pool_create_spec:
  assumes "pool_create ps = (i, ps')" and "threads_ok ps g"
  shows "threads_ok ps' g \<and> i < length ps' \<and> attr_range (gt_attr (ps' ! i)) = [] \<and> \<not> gt_free (ps' ! i) \<and> pool_ranges ps' = pool_ranges ps"
proof -
  have "i < length ps' \<and> attr_range (gt_attr (ps' ! i)) = [] \<and> \<not> gt_free (ps' ! i) \<and> pool_ranges ps' = pool_ranges ps \<and>
      (\<forall>t \<in> set ps'. layout_ok (gt_attr t) \<and> (gt_free t \<longrightarrow> attr_range (gt_attr t) = []))"
    if "pool_create ps = (i, ps')" "\<forall>t \<in> set ps. layout_ok (gt_attr t) \<and> (gt_free t \<longrightarrow> attr_range (gt_attr t) = [])" for ps i ps'
    using that
    by (induction ps arbitrary: i ps' rule: pool_create.induct)
      (auto simp: pool_ranges_def blank_thread_def split: if_splits prod.splits)
  with assms show ?thesis by (auto simp: threads_ok_def)
qed


section \<open>Histories\<close>

abbreviation threads_world_ok :: "threads_world \<Rightarrow> bool" where
  "threads_world_ok w \<equiv> threads_ok (tw_pool w) (tw_stacks w)"

lemma thread_update_same:
  assumes "threads_world_ok w" and "i < length (tw_pool w)" and "\<And>t. gt_attr (f t) = gt_attr t" and "\<And>t. gt_free (f t) \<Longrightarrow> gt_free t"
  shows "threads_world_ok (thread_update i f w)"
  using threads_ok_update [OF assms(1,2), of "tw_stacks w" "f (tw_pool w ! i)" "[]"] threads_okD [OF assms(1)] assms(2-4)
  by (simp add: thread_update_def)

lemma join_ok:
  assumes ok: "threads_world_ok w" and i: "i < length (tw_pool w)" and run: "pthread_join h (Some i) w = (r, w')"
  shows "threads_world_ok w' \<and> length (tw_pool w') = length (tw_pool w)"
proof (cases "h = JoinOk")
  case True
  obtain v g where f: "free_thread_stack (gt_attr (tw_pool w ! i)) (tw_stacks w) = (v, g)" by (cases "free_thread_stack (gt_attr (tw_pool w ! i)) (tw_stacks w)")
  have "mset (cache_ranges g) = mset (cache_ranges (tw_stacks w)) + mset (attr_range (gt_attr (tw_pool w ! i))) \<and>
      attr_range v = [] \<and> layout_ok v \<and> cache_ok g"
    using f threads_okD(1,2) [OF ok] i free_stack_spec
    by (cases "gt_attr (tw_pool w ! i)") (fastforce simp: free_thread_stack_def split: prod.splits)+
  with threads_ok_update [OF ok i, of g "(tw_pool w ! i)\<lparr>gt_attr := v, gt_almost_done := False, gt_free := True\<rparr>" "[]"] True run f
  show ?thesis by (auto simp: pthread_join_def thread_update_def)
qed (use assms in \<open>auto simp: pthread_join_def\<close>)

lemma free_detached_ok:
  assumes "threads_world_ok w"
  shows "threads_world_ok (free_detached_threads h w)"
proof -
  let ?step = "\<lambda>i w. let p = tw_pool w ! i
     in if gt_detached p \<and> gt_almost_done p \<and> \<not> gt_free p then snd (pthread_join (h i) (Some i) w) else w"
  have "threads_world_ok (fold ?step is w) \<and> length (tw_pool (fold ?step is w)) = length (tw_pool w)"
    if "threads_world_ok w" "\<forall>i \<in> set is. i < length (tw_pool w)" for "is" w
    using that
  proof (induction "is" arbitrary: w)
    case (Cons i "is")
    have "threads_world_ok (?step i w) \<and> length (tw_pool (?step i w)) = length (tw_pool w)"
      using join_ok [OF Cons.prems(1), of i "h i"] Cons.prems by (cases "pthread_join (h i) (Some i) w") (auto simp: Let_def)
    with Cons.IH [of "?step i w"] Cons.prems(2) show ?case by simp
  qed simp
  from this [OF assms] show ?thesis by (simp add: free_detached_threads_def)
qed

lemma create_ok:
  assumes ok: "threads_world_ok w" and alloc: "alloc_ok (co_alloc os) (cache_ranges (tw_stacks w) @ pool_ranges (tw_pool w))"
    and src: "\<And>b. attr_value attr = Some b \<Longrightarrow> at_stack_size b \<le> 2 ^ 61 \<and> at_guard_size b \<le> 2 ^ 61"
    and da: "at_stack_size da \<le> 2 ^ 61" "at_guard_size da \<le> 2 ^ 61"
    and run: "pthread_create os da True attr entry arg name w = Some (r, p, w')"
  shows "threads_world_ok w'"
proof -
  define src where "src = (if attr_value attr = None then Some (AttrObject da) else attr)"
  have "\<exists>b. src = Some (AttrObject b) \<and> at_stack_size b \<le> 2 ^ 61 \<and> at_guard_size b \<le> 2 ^ 61"
    using assms(3) da by (cases "attr_value attr") (auto simp: src_def attr_value_def split: option.splits attr_ptr.splits)
  then obtain b where b: "src = Some (AttrObject b)" "at_stack_size b \<le> 2 ^ 61" "at_guard_size b \<le> 2 ^ 61" by blast
  obtain i pool where pool: "pool_create (tw_pool w) = (i, pool)" by (cases "pool_create (tw_pool w)")
  note P = pool_create_spec [OF pool ok]
  obtain r1 v where new: "new_thread_attr os (gt_attr (pool ! i)) src = Some (r1, v)"
    using run pool by (auto simp: pthread_create_def src_def [symmetric] Let_def split: option.splits)
  obtain a where a: "v = AttrObject a" "asks_stack a" using new_attr_asks [OF new b] by blast
  define a1 where "a1 = (if at_stack_addr a = 0 then a\<lparr>at_stack_size := add64 (at_stack_size a) PTHREAD_STACK_EXTRA\<rparr> else a)"
  obtain r2 a2 g2 where cs: "create_guest_stack (co_alloc os) (co_protect os) a1 (tw_stacks w) = (r2, a2, g2)" by (metis prod_cases3)
  obtain a3 g3 where fs: "free_guest_stack a2 g2 = (a3, g3)" by (cases "free_guest_stack a2 g2")
  have sizes: "at_stack_size a1 \<le> 2 ^ 62" "at_guard_size a1 \<le> 2 ^ 62"
    using a(2) by (auto simp: a1_def asks_stack_def add64_le PTHREAD_STACK_EXTRA_def U64_MAX_def)
  have none: "stack_range a = []" "stack_range a1 = []" "stack_layout a"
    using a(2) by (auto simp: a1_def asks_stack_def stack_range_def stack_layout_def owns_stack_def)
  note C = create_stack_spec [OF cs sizes threads_okD(1) [OF ok] none(2) alloc]
  obtain t where t: "tw_pool w' = pool[i := t]"
    "gt_attr t = AttrObject a \<and> tw_stacks w' = tw_stacks w \<or> r2 \<noteq> OK \<and> gt_attr t = AttrObject a2 \<and> tw_stacks w' = g2 \<or>
     r2 = OK \<and> \<not> gt_free t \<and> gt_attr t = AttrObject a2 \<and> tw_stacks w' = g2 \<or> gt_attr t = AttrObject a3 \<and> tw_stacks w' = g3"
    using run P pool new a(1) cs fs
    by (auto simp: pthread_create_def src_def [symmetric] a1_def [symmetric] thread_update_def Let_def OK_def split: if_splits)
  have c2: "cache_ok g2" "stack_layout a2" "r2 \<noteq> OK \<Longrightarrow> stack_range a2 = []" using C by blast+
  obtain nr where nr: "mset (cache_ranges g2) + mset (stack_range a2) \<subseteq># mset (cache_ranges (tw_stacks w)) + mset nr"
    "nr = [] \<or> (\<exists>x n. nr = [(x, n)] \<and> span x n \<inter> owned fst snd (cache_ranges (tw_stacks w) @ pool_ranges pool) = {})"
    using C P unfolding mset_append by metis
  have lay3: "mset (cache_ranges g3) = mset (cache_ranges g2) + mset (stack_range a2)" "stack_range a3 = []" "stack_layout a3" "cache_ok g3"
    using free_stack_spec [OF fs c2(2,1)] by auto
  have "\<exists>new. mset (cache_ranges (tw_stacks w') @ attr_range (gt_attr t)) \<subseteq># mset (cache_ranges (tw_stacks w) @ attr_range (gt_attr (pool ! i)) @ new) \<and>
      (new = [] \<or> (\<exists>x n. new = [(x, n)] \<and> span x n \<inter> owned fst snd (cache_ranges (tw_stacks w) @ pool_ranges pool) = {})) \<and>
      cache_ok (tw_stacks w') \<and> layout_ok (gt_attr t) \<and> (gt_free t \<longrightarrow> attr_range (gt_attr t) = [])"
    using t(2)
  proof (elim disjE conjE)
    assume "gt_attr t = AttrObject a" "tw_stacks w' = tw_stacks w"
    then show ?thesis using none threads_okD(1) [OF ok] P by (intro exI [of _ "[]"]) simp
  next
    assume "r2 \<noteq> OK" "gt_attr t = AttrObject a2" "tw_stacks w' = g2"
    then show ?thesis using c2 nr P by (intro exI [of _ nr]) simp
  next
    assume "\<not> gt_free t" "gt_attr t = AttrObject a2" "tw_stacks w' = g2"
    then show ?thesis using c2 nr P by (intro exI [of _ nr]) simp
  next
    assume "gt_attr t = AttrObject a3" "tw_stacks w' = g3"
    then show ?thesis using lay3 nr P by (intro exI [of _ nr]) simp
  qed
  then show ?thesis using P threads_ok_update [of pool "tw_stacks w" i "tw_stacks w'" t] by (auto simp: t(1))
qed

text \<open>
  The histories of all threads: creations with attributes of sensible sizes under a memory manager that keeps its promise,
  the beginning and the end of threads, joins, detaching, and the rounds of the cleaner. The main thread, whose stack is set up
  apart, is not in the pool.
\<close>

inductive threads_reach :: "threads_world \<Rightarrow> bool" where
  empty: "threads_reach \<lparr>tw_pool = [], tw_stacks = \<lparr>gs_last = 0, gs_cache = []\<rparr>, tw_last_id = n\<rparr>"
| create: "threads_reach w \<Longrightarrow> alloc_ok (co_alloc os) (cache_ranges (tw_stacks w) @ pool_ranges (tw_pool w)) \<Longrightarrow>
    (\<forall>b. attr_value attr = Some b \<longrightarrow> at_stack_size b \<le> 2 ^ 61 \<and> at_guard_size b \<le> 2 ^ 61) \<Longrightarrow>
    at_stack_size da \<le> 2 ^ 61 \<and> at_guard_size da \<le> 2 ^ 61 \<Longrightarrow>
    pthread_create os da True attr entry arg name w = Some (r, p, w') \<Longrightarrow> threads_reach w'"
| join: "threads_reach w \<Longrightarrow> i < length (tw_pool w) \<Longrightarrow> pthread_join h (Some i) w = (r, w') \<Longrightarrow> threads_reach w'"
| detach: "threads_reach w \<Longrightarrow> i < length (tw_pool w) \<Longrightarrow> pthread_detach (Some i) w = (r, w') \<Longrightarrow> threads_reach w'"
| clean: "threads_reach w \<Longrightarrow> threads_reach (free_detached_threads h' w)"
| begins: "threads_reach w \<Longrightarrow> i < length (tw_pool w) \<Longrightarrow> threads_reach (thread_begins tid i w)"
| ends: "threads_reach w \<Longrightarrow> i < length (tw_pool w) \<Longrightarrow> threads_reach (thread_ends i w)"

lemma threads_reach_ok: "threads_reach w \<Longrightarrow> threads_world_ok w"
proof (induction rule: threads_reach.induct)
  case (empty n)
  then show ?case by (simp add: threads_ok_def cache_ranges_def pool_ranges_def cache_ok_def)
next
  case (create w os attr da entry arg name r p w')
  then show ?case using create_ok by blast
next
  case (join w i h r w')
  then show ?case using join_ok by blast
next
  case (detach w i r w')
  then show ?case using thread_update_same [of w i "\<lambda>t. t\<lparr>gt_detached := True\<rparr>"] by (simp add: pthread_detach_def)
next
  case (clean w h')
  then show ?case using free_detached_ok by blast
next
  case (begins w i tid)
  then show ?case using thread_update_same [of w i "\<lambda>t. t\<lparr>gt_unique_id := tid\<rparr>"] by (simp add: thread_begins_def)
next
  case (ends w i)
  then show ?case using thread_update_same [of w i "\<lambda>t. t\<lparr>gt_almost_done := True\<rparr>"] by (simp add: thread_ends_def)
qed

lemma pool_ranges_at:
  assumes "i < length ps"
  shows "pool_ranges ps = pool_ranges (take i ps) @ attr_range (gt_attr (ps ! i)) @ pool_ranges (drop (Suc i) ps)"
  by (subst id_take_nth_drop [OF assms]) (simp add: pool_ranges_def)

lemma pool_ranges_mem: "j < length ps \<Longrightarrow> r \<in> set (attr_range (gt_attr (ps ! j))) \<Longrightarrow> r \<in> set (pool_ranges ps)"
  by (auto simp: pool_ranges_def intro!: bexI [of _ "ps ! j"])

lemma span_owned: "r \<in> set rs \<Longrightarrow> span (fst r) (snd r) \<subseteq> owned fst snd rs"
  by (force simp: owned_iff span_iff)

text \<open>C22: No two threads share a stack. In every history of creations, failed ones included, of ends, joins, detached threads
  and reuse of cached stacks: the mappings of the stacks that threads own share no byte with each other and none with a cached
  stack, so a stack is handed out again only after its thread was joined. Each stack lies in its mapping right above its
  guard, and a thread that is free for reuse owns none. The host is taken to hand out new memory that overlaps no stack in
  use or in the cache, and stack and guard sizes are at most \<open>2 ^ 61\<close> (see \<open>threads_reach\<close>).\<close>

theorem thread_stacks_disjoint:
  assumes "threads_reach w" and "i < j" and "j < length (tw_pool w)"
    and "gt_attr (tw_pool w ! i) = AttrObject a" and "owns_stack a" and "gt_attr (tw_pool w ! j) = AttrObject b" and "owns_stack b"
  shows "span (at_stack_map_addr a) (at_stack_map_size a) \<inter> span (at_stack_map_addr b) (at_stack_map_size b) = {} \<and>
    (\<nexists>c. c \<in> set (gs_cache (tw_stacks w)) \<and>
       span (at_stack_map_addr a) (at_stack_map_size a) \<inter> span (cs_address c) (cs_map_size c) \<noteq> {}) \<and>
    at_stack_map_addr a \<le> at_stack_addr a \<and> at_stack_addr a + at_stack_size a = at_stack_map_addr a + at_stack_map_size a \<and>
    \<not> gt_free (tw_pool w ! i)"
proof -
  have ok: "threads_world_ok w" using threads_reach_ok [OF assms(1)] .
  have i: "i < length (tw_pool w)" using assms(2,3) by simp
  have ra: "attr_range (gt_attr (tw_pool w ! i)) = [(at_stack_map_addr a, at_stack_map_size a)]"
    and rb: "attr_range (gt_attr (tw_pool w ! j)) = [(at_stack_map_addr b, at_stack_map_size b)]"
    using assms(4-7) by (simp_all add: stack_range_def)
  have "gt_attr (tw_pool w ! j) = gt_attr (drop (Suc i) (tw_pool w) ! (j - Suc i))" "j - Suc i < length (drop (Suc i) (tw_pool w))"
    using assms(2,3) by auto
  then have "(at_stack_map_addr b, at_stack_map_size b) \<in> set (pool_ranges (drop (Suc i) (tw_pool w)))"
    using pool_ranges_mem [of "j - Suc i" "drop (Suc i) (tw_pool w)"] rb by simp
  from span_owned [OF this]
  have b: "span (at_stack_map_addr b) (at_stack_map_size b) \<subseteq> owned fst snd (pool_ranges (drop (Suc i) (tw_pool w)))" by simp
  have un: "unshared_blocks fst snd (cache_ranges (tw_stacks w) @ pool_ranges (take i (tw_pool w)) @
      (at_stack_map_addr a, at_stack_map_size a) # pool_ranges (drop (Suc i) (tw_pool w)))"
    using ok pool_ranges_at [OF i] ra by (simp add: threads_ok_def)
  have cache: "span (cs_address c) (cs_map_size c) \<subseteq> owned fst snd (cache_ranges (tw_stacks w))"
    if "c \<in> set (gs_cache (tw_stacks w))" for c
    using span_owned [of "cache_range c" "cache_ranges (tw_stacks w)"] that by (simp add: cache_ranges_def cache_range_def)
  have "stack_layout a" using threads_okD(2) [OF ok i] assms(4) by simp
  moreover have "\<not> gt_free (tw_pool w ! i)" using threads_okD(3) [OF ok i] ra by auto
  ultimately show ?thesis using un b cache assms(5) by (auto simp: stack_layout_def) blast+
qed


text \<open>Without the bound on the sizes the sums wrap: a stack size near \<open>2^64\<close> that the setter accepts becomes a stack of no bytes.\<close>

lemma oversized_stack_wraps:
  "attr_setstacksize 0xFFFFFFFFFFF00000 (Some (AttrObject a)) = Some (OK, Some (AttrObject (a\<lparr>at_stack_size := 0xFFFFFFFFFFF00000\<rparr>)))"
  "round_stack_size (add64 0xFFFFFFFFFFF00000 PTHREAD_STACK_EXTRA) = 0"
  by (simp_all add: attr_setters GUEST_PTHREAD_STACK_MIN_def round_stack_size_def PTHREAD_STACK_EXTRA_def PTHREAD_STACK_PAGE_def
      add64_def sub64_def)

section \<open>Witness\<close>

definition example_attr :: attr where
  "example_attr = fresh_attr\<lparr>at_inherit_sched := 4, at_guest_priority := 700, at_policy := 1\<rparr>"

definition example_os :: "u64 \<Rightarrow> create_os" where
  "example_os x =
     \<lparr>co_destroy = HOk, co_init = HOk, co_init_policy = HOk, co_param = HOk, co_policy = HOk, co_set = HOk,
      co_alloc = (\<lambda>p n. if p = x \<and> n = 0x204000 then x else 0), co_protect = True, co_create = HOk\<rparr>"

definition example_owner :: "u64 \<Rightarrow> attr" where
  "example_owner x = example_attr\<lparr>at_stack_addr := x + 0x4000, at_stack_size := 0x200000, at_stack_map_addr := x, at_stack_map_size := 0x204000\<rparr>"

definition example_thread :: "u64 \<Rightarrow> int \<Rightarrow> gthread" where
  "example_thread x n = blank_thread\<lparr>gt_attr := AttrObject (example_owner x), gt_guest_id := n, gt_unique_id := -1\<rparr>"

lemma example_new_attr: "new_thread_attr (example_os x) old (Some (AttrObject example_attr)) = Some (OK, AttrObject example_attr)"
  by (simp add: new_thread_attr_def example_os_def attr_init_eval Let_def pthread_attr_copy_def attr_read_all_def attr_value_def
      attr_getters attr_setters example_attr_def fresh_attr_def OK_def PTHREAD_STACK_DEFAULT_def GUEST_PTHREAD_STACK_MIN_def)

lemma example_place:
  "create_guest_stack (co_alloc (example_os x)) True (example_attr\<lparr>at_stack_size := 0x200000\<rparr>) \<lparr>gs_last = x + 0x204000, gs_cache = []\<rparr> =
     (OK, example_owner x, \<lparr>gs_last = x, gs_cache = []\<rparr>)" if "0x40000 \<le> x" "x \<le> 0x7EFDF4000"
proof -
  have r: "round_stack_size 0x200000 = 0x200000" "round_stack_size 0x1000 = 0x4000" "add64 0x200000 0x4000 = 0x204000"
    by (simp_all add: round_stack_size_def PTHREAD_STACK_PAGE_def add64_def sub64_def)
  have x: "sub64 (x + 0x204000) 0x40000 = x + 0x1C4000" "sub64 (x + 0x204000) 0x204000 = x" "add64 x 0x4000 = x + 0x4000"
    using that by (simp_all add: sub64_le add64_le U64_MAX_def)
  show ?thesis using that r x
    by (simp add: create_guest_stack_def place_stack_def example_attr_def fresh_attr_def example_os_def example_owner_def
        PTHREAD_STACK_BOTTOM_def Let_def)
qed


lemma example_first_place:
  "create_guest_stack (co_alloc (example_os 0x7EFBF0000)) True (example_attr\<lparr>at_stack_size := 0x200000\<rparr>) \<lparr>gs_last = 0, gs_cache = []\<rparr> =
     (OK, example_owner 0x7EFBF0000, \<lparr>gs_last = 0x7EFBF0000, gs_cache = []\<rparr>)"
  by (simp add: create_guest_stack_def place_stack_def example_attr_def fresh_attr_def example_os_def example_owner_def Let_def
      PTHREAD_STACK_BOTTOM_def PTHREAD_STACK_TOP_def PTHREAD_STACK_INITIAL_def round_stack_size_def PTHREAD_STACK_PAGE_def
      add64_def sub64_def)

text \<open>A creation in a pool without free threads.\<close>

lemma example_create:
  assumes pool: "pool_create ps = (length ps, ps @ [blank_thread])"
    and place: "create_guest_stack (co_alloc (example_os x)) True (example_attr\<lparr>at_stack_size := 0x200000\<rparr>) g = (OK, example_owner x, g')"
  shows "pthread_create (example_os x) example_attr True None 0 0 None \<lparr>tw_pool = ps, tw_stacks = g, tw_last_id = n\<rparr> =
    Some (OK, Some (length ps), \<lparr>tw_pool = ps @ [example_thread x (n + 1)], tw_stacks = g', tw_last_id = n + 1\<rparr>)"
proof -
  have fields: "co_protect (example_os x)" "co_create (example_os x) = HOk" "at_stack_addr example_attr = 0"
    "at_detached (example_owner x) = False" "add64 (at_stack_size example_attr) PTHREAD_STACK_EXTRA = 0x200000"
    by (simp_all add: example_os_def example_attr_def example_owner_def fresh_attr_def PTHREAD_STACK_EXTRA_def PTHREAD_STACK_DEFAULT_def add64_def)
  have src: "attr_value None = None" by (simp add: attr_value_def)
  show ?thesis
    using pool place
    by (simp add: pthread_create_def src example_new_attr fields thread_update_def example_thread_def Let_def OK_def blank_thread_def)
qed

lemma thread_stacks_disjoint_witness:
  "\<exists>w. threads_reach w \<and> map gt_attr (tw_pool w) = [AttrObject (example_owner 0x7EFBF0000), AttrObject (example_owner 0x7EF9EC000)] \<and>
     span 0x7EFBF0000 0x204000 \<inter> span 0x7EF9EC000 (0x204000 :: nat) = {}"
proof -
  let ?g = "\<lambda>x. \<lparr>gs_last = x, gs_cache = []\<rparr>"
  let ?w0 = "\<lparr>tw_pool = [], tw_stacks = ?g 0, tw_last_id = 0\<rparr>"
  let ?w1 = "\<lparr>tw_pool = [example_thread 0x7EFBF0000 1], tw_stacks = ?g 0x7EFBF0000, tw_last_id = 1\<rparr>"
  let ?w2 = "\<lparr>tw_pool = [example_thread 0x7EFBF0000 1, example_thread 0x7EF9EC000 2], tw_stacks = ?g 0x7EF9EC000, tw_last_id = 2\<rparr>"
  have sizes: "at_stack_size example_attr \<le> 2 ^ 61 \<and> at_guard_size example_attr \<le> 2 ^ 61"
    by (simp add: example_attr_def fresh_attr_def PTHREAD_STACK_DEFAULT_def)
  have none: "\<forall>b. attr_value None = Some b \<longrightarrow> at_stack_size b \<le> 2 ^ 61 \<and> at_guard_size b \<le> 2 ^ 61" by (simp add: attr_value_def)
  have r1: "threads_reach ?w1"
  proof (rule threads_reach.create [OF threads_reach.empty _ none sizes])
    show "alloc_ok (co_alloc (example_os 0x7EFBF0000)) (cache_ranges (tw_stacks ?w0) @ pool_ranges (tw_pool ?w0))"
      by (simp add: alloc_ok_def example_os_def cache_ranges_def pool_ranges_def U64_MAX_def)
    show "pthread_create (example_os 0x7EFBF0000) example_attr True None 0 0 None ?w0 = Some (OK, Some 0, ?w1)"
      using example_create [of "[]" "0x7EFBF0000" "?g 0" "?g 0x7EFBF0000" 0] example_first_place by simp
  qed
  have r2: "threads_reach ?w2"
  proof (rule threads_reach.create [OF r1 _ none sizes])
    show "alloc_ok (co_alloc (example_os 0x7EF9EC000)) (cache_ranges (tw_stacks ?w1) @ pool_ranges (tw_pool ?w1))"
      by (auto simp: alloc_ok_def example_os_def cache_ranges_def pool_ranges_def U64_MAX_def example_thread_def stack_range_def
          owns_stack_def example_owner_def example_attr_def fresh_attr_def span_disjoint blank_thread_def)
    have "create_guest_stack (co_alloc (example_os 0x7EF9EC000)) True (example_attr\<lparr>at_stack_size := 0x200000\<rparr>) (?g 0x7EFBF0000) =
        (OK, example_owner 0x7EF9EC000, ?g 0x7EF9EC000)"
      using example_place [of "0x7EF9EC000"] by simp
    then show "pthread_create (example_os 0x7EF9EC000) example_attr True None 0 0 None ?w1 = Some (OK, Some 1, ?w2)"
      using example_create [of "[example_thread 0x7EFBF0000 1]" "0x7EF9EC000" "?g 0x7EFBF0000" "?g 0x7EF9EC000" 1]
      by (simp add: example_thread_def blank_thread_def)
  qed
  have owns: "owns_stack (example_owner 0x7EFBF0000)" "owns_stack (example_owner 0x7EF9EC000)"
    by (simp_all add: owns_stack_def example_owner_def example_attr_def fresh_attr_def)
  from thread_stacks_disjoint [OF r2, where i = 0 and j = 1, OF _ _ _ owns(1) _ owns(2)] r2 show ?thesis
    by (intro exI [of _ ?w2]) (simp add: example_thread_def example_owner_def)
qed

end
