(* ===== verification/Event_Flag.thy ===== *)
theory Event_Flag
  imports Wait_Support "HOL-Library.Word"
begin

text \<open>
  The kernel event flags (\<open>KernelEventFlagPrivate\<close> and the \<open>Kernel*EventFlag\<close> calls, \<open>kernel/eventFlag.cpp\<close>).
  Each method runs under the mutex of the flag; \<open>Wait\<close> gives it up while it is parked, so it is
  \<open>flag_wait_begin\<close> and, after each return of the condition variable, \<open>flag_wait_pass\<close>.
\<close>

unbundle bit_operations_syntax

datatype flag_result = FlagOk | FlagAlreadyWaiting | FlagTimedOut | FlagCanceled | FlagDeleted
datatype clear_mode = ClearNone | ClearAll | ClearBits
datatype wait_mode = WaitAnd | WaitOr

record event_flag =
  ef_name :: string
  ef_single :: bool
  ef_fifo :: bool
  ef_closed :: bool
  ef_waiters :: nat
  ef_status :: flag_result
  ef_bits :: "64 word"

definition new_flag :: "string \<Rightarrow> bool \<Rightarrow> bool \<Rightarrow> 64 word \<Rightarrow> event_flag" where
  "new_flag n s f b =
     \<lparr>ef_name = n, ef_single = s, ef_fifo = f, ef_closed = False, ef_waiters = 0, ef_status = FlagOk, ef_bits = b\<rparr>"

definition flag_close :: "event_flag \<Rightarrow> event_flag" where
  "flag_close f = (if ef_closed f then f else f\<lparr>ef_closed := True, ef_status := FlagDeleted\<rparr>)"

definition flag_set :: "64 word \<Rightarrow> event_flag \<Rightarrow> event_flag" where
  "flag_set b f = (if \<not> ef_closed f then f\<lparr>ef_bits := ef_bits f OR b, ef_status := FlagOk\<rparr> else f)"

definition flag_clear :: "64 word \<Rightarrow> event_flag \<Rightarrow> event_flag" where
  "flag_clear b f = (if \<not> ef_closed f then f\<lparr>ef_bits := ef_bits f AND b\<rparr> else f)"

text \<open>The number of waiting calls, which is stored when the caller passed a pointer, and the flag after \<open>Cancel\<close>.\<close>

definition flag_cancel :: "64 word \<Rightarrow> event_flag \<Rightarrow> nat \<times> event_flag" where
  "flag_cancel b f = (ef_waiters f, if \<not> ef_closed f then f\<lparr>ef_bits := b, ef_status := FlagCanceled\<rparr> else f)"

definition flag_match :: "64 word \<Rightarrow> wait_mode \<Rightarrow> event_flag \<Rightarrow> bool" where
  "flag_match want wm f =
     (case wm of WaitAnd \<Rightarrow> ef_bits f AND want = want | WaitOr \<Rightarrow> ef_bits f AND want \<noteq> 0)"

text \<open>
  What a returning wait leaves: the result, the bits it stores, if it stores any, and the caller's timeout. A call
  that does not return is parked with its deadline.
\<close>

datatype flag_wait = FlagReturned flag_result "64 word option" "nat option" | FlagParked deadline

text \<open>The loop of \<open>Wait\<close> up to the park, and what follows it; \<open>now1\<close> and \<open>now2\<close> are the readings of the clock.\<close>

definition flag_wait_head ::
  "64 word \<Rightarrow> wait_mode \<Rightarrow> clear_mode \<Rightarrow> nat option \<Rightarrow> deadline \<Rightarrow> u64 \<Rightarrow> u64 \<Rightarrow> event_flag \<Rightarrow> flag_wait \<times> event_flag" where
  "flag_wait_head want wm cm micros d now1 now2 f =
     (if \<not> flag_match want wm f
      then if ef_closed f then (FlagReturned FlagDeleted (Some (ef_bits f)) (update_timeout d now2 micros), f)
           else if ef_status f = FlagCanceled
           then (FlagReturned FlagCanceled (Some (ef_bits f)) (update_timeout d now2 micros), f\<lparr>ef_status := FlagOk\<rparr>)
           else if expired d now1
           then (FlagReturned FlagTimedOut (Some (ef_bits f)) (update_timeout d now2 micros), f)
           else (FlagParked d, f\<lparr>ef_waiters := ef_waiters f + 1\<rparr>)
      else (FlagReturned FlagOk (Some (ef_bits f)) (update_timeout d now2 micros),
            case cm of
              ClearAll \<Rightarrow> f\<lparr>ef_bits := 0\<rparr>
            | ClearBits \<Rightarrow> f\<lparr>ef_bits := ef_bits f AND NOT want\<rparr>
            | ClearNone \<Rightarrow> f))"

definition flag_wait_begin ::
  "64 word \<Rightarrow> wait_mode \<Rightarrow> clear_mode \<Rightarrow> nat option \<Rightarrow> u64 \<Rightarrow> u64 \<Rightarrow> u64 \<Rightarrow> event_flag \<Rightarrow> flag_wait \<times> event_flag" where
  "flag_wait_begin want wm cm micros now0 now1 now2 f =
     (if ef_single f \<and> ef_waiters f > 0 then (FlagReturned FlagAlreadyWaiting None micros, f)
      else flag_wait_head want wm cm micros (make_deadline now0 micros) now1 now2 f)"

definition flag_wait_pass ::
  "64 word \<Rightarrow> wait_mode \<Rightarrow> clear_mode \<Rightarrow> nat option \<Rightarrow> deadline \<Rightarrow> u64 \<Rightarrow> u64 \<Rightarrow> event_flag \<Rightarrow> flag_wait \<times> event_flag" where
  "flag_wait_pass want wm cm micros d now1 now2 f =
     flag_wait_head want wm cm micros d now1 now2 (f\<lparr>ef_waiters := ef_waiters f - 1\<rparr>)"

definition flag_poll ::
  "64 word \<Rightarrow> wait_mode \<Rightarrow> clear_mode \<Rightarrow> u64 \<Rightarrow> u64 \<Rightarrow> u64 \<Rightarrow> event_flag \<Rightarrow> flag_wait \<times> event_flag" where
  "flag_poll want wm cm now0 now1 now2 f = flag_wait_begin want wm cm (Some 0) now0 now1 now2 f"

section \<open>The calls of the guest\<close>

definition decode_mode :: "32 word \<Rightarrow> (wait_mode \<times> clear_mode) option" where
  "decode_mode v =
     (case (if v AND 0xf = 1 then Some WaitAnd else if v AND 0xf = 2 then Some WaitOr else None) of
        None \<Rightarrow> None
      | Some wm \<Rightarrow>
          if v AND 0xf0 = 0 then Some (wm, ClearNone)
          else if v AND 0xf0 = 0x10 then Some (wm, ClearAll)
          else if v AND 0xf0 = 0x20 then Some (wm, ClearBits)
          else None)"

record flag_world =
  fw_flags :: "nat registry"
  fw_objects :: "event_flag list"

definition set_flag :: "nat \<Rightarrow> event_flag \<Rightarrow> flag_world \<Rightarrow> flag_world" where
  "set_flag i f w = w\<lparr>fw_objects := (fw_objects w)[i := f]\<rparr>"

text \<open>\<open>e\<close>, \<open>n\<close> and \<open>p\<close> are the pointers of the call. When the handles have run out the call stores a null handle.\<close>

definition kernel_create_event_flag ::
  "bool \<Rightarrow> string option \<Rightarrow> 32 word \<Rightarrow> 64 word \<Rightarrow> bool \<Rightarrow> flag_world \<Rightarrow> int \<times> nat option \<times> flag_world" where
  "kernel_create_event_flag e n a b p w =
     (case n of
        None \<Rightarrow> (KERNEL_ERROR_EINVAL, None, w)
      | Some n \<Rightarrow>
          if \<not> e \<or> p \<or> a AND NOT 0x33 \<noteq> 0 then (KERNEL_ERROR_EINVAL, None, w)
          else
            let s = (a AND 0xf0 \<noteq> 0x20); f = (a AND 0xf \<noteq> 2)
            in if a AND 0xf > 2 \<or> a AND 0xf0 > 0x20 then (KERNEL_ERROR_EINVAL, None, w)
               else case reg_insert (length (fw_objects w)) (fw_flags w) of
                   (h, r) \<Rightarrow> (OK, Some h, \<lparr>fw_flags = r, fw_objects = fw_objects w @ [new_flag n s f b]\<rparr>))"

definition kernel_delete_event_flag :: "nat \<Rightarrow> flag_world \<Rightarrow> int \<times> flag_world" where
  "kernel_delete_event_flag e w =
     (case reg_remove e (fw_flags w) of
        (None, _) \<Rightarrow> (KERNEL_ERROR_ESRCH, w)
      | (Some i, r) \<Rightarrow> (OK, set_flag i (flag_close (fw_objects w ! i)) (w\<lparr>fw_flags := r\<rparr>)))"

fun wait_flag_code :: "flag_result \<Rightarrow> int" where
  "wait_flag_code FlagOk = OK"
| "wait_flag_code FlagAlreadyWaiting = KERNEL_ERROR_EPERM"
| "wait_flag_code FlagTimedOut = KERNEL_ERROR_ETIMEDOUT"
| "wait_flag_code FlagCanceled = KERNEL_ERROR_ECANCELED"
| "wait_flag_code FlagDeleted = KERNEL_ERROR_EACCES"

definition poll_flag_code :: "flag_result \<Rightarrow> int" where
  "poll_flag_code r =
     (if r = FlagOk then OK else if r = FlagAlreadyWaiting then KERNEL_ERROR_EPERM else KERNEL_ERROR_EBUSY)"

text \<open>The result, the stored bits and the timeout of a call that returned, or the deadline of a parked one.\<close>

datatype flag_call = FlagCallReturned int "64 word option" "nat option" | FlagCallParked nat deadline

fun flag_call_of :: "(flag_result \<Rightarrow> int) \<Rightarrow> nat \<Rightarrow> flag_wait \<Rightarrow> flag_call" where
  "flag_call_of code i (FlagReturned r out micros) = FlagCallReturned (code r) out micros"
| "flag_call_of code i (FlagParked d) = FlagCallParked i d"

definition kernel_wait_event_flag ::
  "nat \<Rightarrow> 64 word \<Rightarrow> 32 word \<Rightarrow> nat option \<Rightarrow> u64 \<Rightarrow> u64 \<Rightarrow> u64 \<Rightarrow> flag_world \<Rightarrow> flag_call \<times> flag_world" where
  "kernel_wait_event_flag e b v t now0 now1 now2 w =
     (if b = 0 then (FlagCallReturned KERNEL_ERROR_EINVAL None t, w)
      else case reg_acquire e (fw_flags w) of
          None \<Rightarrow> (FlagCallReturned KERNEL_ERROR_ESRCH None t, w)
        | Some i \<Rightarrow>
            (case decode_mode v of
               None \<Rightarrow> (FlagCallReturned KERNEL_ERROR_EINVAL None t, w)
             | Some (wm, cm) \<Rightarrow>
                 (case flag_wait_begin b wm cm t now0 now1 now2 (fw_objects w ! i) of
                    (r, f) \<Rightarrow> (flag_call_of wait_flag_code i r, set_flag i f w))))"

definition kernel_wait_event_flag_pass ::
  "nat \<Rightarrow> 64 word \<Rightarrow> wait_mode \<Rightarrow> clear_mode \<Rightarrow> nat option \<Rightarrow> deadline \<Rightarrow> u64 \<Rightarrow> u64 \<Rightarrow> flag_world \<Rightarrow> flag_call \<times> flag_world" where
  "kernel_wait_event_flag_pass i b wm cm t d now1 now2 w =
     (case flag_wait_pass b wm cm t d now1 now2 (fw_objects w ! i) of
        (r, f) \<Rightarrow> (flag_call_of wait_flag_code i r, set_flag i f w))"

definition kernel_poll_event_flag ::
  "nat \<Rightarrow> 64 word \<Rightarrow> 32 word \<Rightarrow> u64 \<Rightarrow> u64 \<Rightarrow> u64 \<Rightarrow> flag_world \<Rightarrow> flag_call \<times> flag_world" where
  "kernel_poll_event_flag e b v now0 now1 now2 w =
     (if b = 0 then (FlagCallReturned KERNEL_ERROR_EINVAL None None, w)
      else case reg_acquire e (fw_flags w) of
          None \<Rightarrow> (FlagCallReturned KERNEL_ERROR_ESRCH None None, w)
        | Some i \<Rightarrow>
            (case decode_mode v of
               None \<Rightarrow> (FlagCallReturned KERNEL_ERROR_EINVAL None None, w)
             | Some (wm, cm) \<Rightarrow>
                 (case flag_poll b wm cm now0 now1 now2 (fw_objects w ! i) of
                    (r, f) \<Rightarrow> (flag_call_of poll_flag_code i r, set_flag i f w))))"

definition kernel_set_event_flag :: "nat \<Rightarrow> 64 word \<Rightarrow> flag_world \<Rightarrow> int \<times> flag_world" where
  "kernel_set_event_flag e b w =
     (case reg_acquire e (fw_flags w) of
        None \<Rightarrow> (KERNEL_ERROR_ESRCH, w)
      | Some i \<Rightarrow> (OK, set_flag i (flag_set b (fw_objects w ! i)) w))"

definition kernel_clear_event_flag :: "nat \<Rightarrow> 64 word \<Rightarrow> flag_world \<Rightarrow> int \<times> flag_world" where
  "kernel_clear_event_flag e b w =
     (case reg_acquire e (fw_flags w) of
        None \<Rightarrow> (KERNEL_ERROR_ESRCH, w)
      | Some i \<Rightarrow> (OK, set_flag i (flag_clear b (fw_objects w ! i)) w))"

definition kernel_cancel_event_flag :: "nat \<Rightarrow> 64 word \<Rightarrow> flag_world \<Rightarrow> int \<times> nat option \<times> flag_world" where
  "kernel_cancel_event_flag e b w =
     (case reg_acquire e (fw_flags w) of
        None \<Rightarrow> (KERNEL_ERROR_ESRCH, None, w)
      | Some i \<Rightarrow> (case flag_cancel b (fw_objects w ! i) of (n, f) \<Rightarrow> (OK, Some n, set_flag i f w)))"

section \<open>Waiting and waking\<close>

lemma poll_never_parks: "\<exists>r out t. fst (flag_poll want wm cm now0 now1 now2 f) = FlagReturned r out t"
  by (auto simp: flag_poll_def flag_wait_begin_def flag_wait_head_def expired_iff make_deadline_def)

text \<open>A wait succeeds exactly when the wanted bits are there: a call that is not refused because another one
  waits on a single-waiter flag returns success iff the pattern matches, with the bits as they were before they
  are cleared, and then the flag has the bits of its clear mode; a poll returns at once on every branch.\<close>

theorem flag_wait_exact:
  "(fst (flag_wait_begin want wm cm micros now0 now1 now2 f) = FlagReturned FlagOk out t \<longrightarrow>
      flag_match want wm f \<and> out = Some (ef_bits f) \<and>
      ef_bits (snd (flag_wait_begin want wm cm micros now0 now1 now2 f)) =
        (case cm of ClearAll \<Rightarrow> 0 | ClearBits \<Rightarrow> ef_bits f AND NOT want | ClearNone \<Rightarrow> ef_bits f)) \<and>
   (flag_match want wm f \<and> \<not> (ef_single f \<and> ef_waiters f > 0) \<longrightarrow>
      (\<exists>out t. fst (flag_wait_begin want wm cm micros now0 now1 now2 f) = FlagReturned FlagOk out t)) \<and>
   (\<exists>r out t. fst (flag_poll want wm cm now0 now1 now2 f) = FlagReturned r out t) \<and>
   (want \<noteq> 0 \<and> cm = ClearBits \<longrightarrow>
      \<not> flag_match want wm (snd (flag_wait_begin want wm cm micros now0 now1 now2 f)) \<or>
      fst (flag_wait_begin want wm cm micros now0 now1 now2 f) = FlagReturned FlagAlreadyWaiting None micros)"
proof -
  have "\<not> flag_match want wm (f\<lparr>ef_bits := ef_bits f AND NOT want\<rparr>)" if "want \<noteq> 0"
    using that by (cases wm) (simp_all add: flag_match_def and.assoc)
  moreover have "\<not> flag_match want wm (f\<lparr>ef_status := s\<rparr>)" "\<not> flag_match want wm (f\<lparr>ef_waiters := n\<rparr>)"
    if "\<not> flag_match want wm f" for s n
    using that by (cases wm; simp add: flag_match_def)+
  ultimately show ?thesis
    using poll_never_parks [of want wm cm now0 now1 now2 f]
    by (auto simp: flag_wait_begin_def flag_wait_head_def split: clear_mode.splits if_splits)
qed

lemma flag_wait_exact_witness:
  "\<exists>out t. fst (flag_wait_begin 3 WaitAnd ClearBits None 0 0 0 (new_flag ''f'' True True 7)) = FlagReturned FlagOk out t \<and>
     out = Some 7 \<and> ef_bits (snd (flag_wait_begin 3 WaitAnd ClearBits None 0 0 0 (new_flag ''f'' True True 7))) = 4"
proof -
  have m: "flag_match 3 WaitAnd (new_flag ''f'' True True 7) \<and>
      \<not> (ef_single (new_flag ''f'' True True 7) \<and> ef_waiters (new_flag ''f'' True True 7) > 0)"
    by (simp add: flag_match_def new_flag_def)
  from flag_wait_exact [of 3 WaitAnd ClearBits None 0 0 0 "new_flag ''f'' True True 7"] m
  obtain out t where r: "fst (flag_wait_begin 3 WaitAnd ClearBits None 0 0 0 (new_flag ''f'' True True 7)) = FlagReturned FlagOk out t"
    by blast
  with flag_wait_exact [of 3 WaitAnd ClearBits None 0 0 0 "new_flag ''f'' True True 7" out t] show ?thesis
    by (simp add: new_flag_def)
qed

lemma closed_pass:
  assumes "ef_closed f"
  shows "\<exists>out t. fst (flag_wait_pass want wm cm t0 d now now' f) \<in> {FlagReturned FlagOk out t, FlagReturned FlagDeleted out t}"
    and "ef_closed (snd (flag_wait_pass want wm cm t0 d now now' f))"
  using assms by (auto simp: flag_wait_pass_def flag_wait_head_def split: clear_mode.splits)

text \<open>C40: A cancellation reaches one call only. Two calls are parked on a flag and \<open>Cancel\<close> stores bits that neither
  is waiting for. The first to run again returns \<open>Canceled\<close> and takes the mark off the flag; the second finds no
  trace of the cancellation that counted it and parks again. A deletion, in contrast, reaches both: the first call to run returns, and
  so does the second on the flag that the first has left.\<close>

theorem flag_cancel_reaches_one:
  assumes "\<not> ef_closed f" and "ef_waiters f = 2" and "flag_cancel b f = (n, f')"
    and "\<not> flag_match want1 wm1 f'" and "\<not> flag_match want2 wm2 f'"
    and "flag_wait_pass want1 wm1 cm1 t1 d1 now1 now2 f' = (r1, f'')" and "\<not> expired d2 now3"
  shows "n = 2 \<and> r1 = FlagReturned FlagCanceled (Some b) (update_timeout d1 now2 t1) \<and>
    fst (flag_wait_pass want2 wm2 cm2 t2 d2 now3 now4 f'') = FlagParked d2 \<and>
    (\<exists>out t. fst (flag_wait_pass want1 wm1 cm1 t1 d1 now1 now2 (flag_close f)) \<in>
       {FlagReturned FlagOk out t, FlagReturned FlagDeleted out t}) \<and>
    (\<exists>out t. fst (flag_wait_pass want2 wm2 cm2 t2 d2 now3 now4 (snd (flag_wait_pass want1 wm1 cm1 t1 d1 now1 now2 (flag_close f)))) \<in>
       {FlagReturned FlagOk out t, FlagReturned FlagDeleted out t})"
proof -
  have c: "ef_closed (flag_close f)" by (simp add: flag_close_def)
  have "n = 2 \<and> r1 = FlagReturned FlagCanceled (Some b) (update_timeout d1 now2 t1) \<and>
      fst (flag_wait_pass want2 wm2 cm2 t2 d2 now3 now4 f'') = FlagParked d2"
    using assms by (auto simp: flag_cancel_def flag_wait_pass_def flag_wait_head_def flag_match_def split: wait_mode.splits)
  then show ?thesis using closed_pass(1) [OF c] closed_pass(1) [OF closed_pass(2) [OF c]] by (intro conjI) simp_all
qed

lemma flag_cancel_reaches_one_witness:
  "fst (flag_wait_pass 2 WaitOr ClearNone None (make_deadline 0 None) 0 0
      (snd (flag_wait_pass 1 WaitOr ClearNone None (make_deadline 0 None) 0 0
        (snd (flag_cancel 0 (new_flag ''f'' False True 0\<lparr>ef_waiters := 2\<rparr>)))))) = FlagParked (make_deadline 0 None)"
proof -
  let ?f = "new_flag ''f'' False True 0\<lparr>ef_waiters := 2\<rparr>"
  let ?d = "make_deadline 0 None"
  have "\<not> flag_match 1 WaitOr (snd (flag_cancel 0 ?f))" "\<not> flag_match 2 WaitOr (snd (flag_cancel 0 ?f))"
    by (simp_all add: flag_match_def flag_cancel_def new_flag_def)
  then show ?thesis
    using flag_cancel_reaches_one [of ?f 0 "fst (flag_cancel 0 ?f)" "snd (flag_cancel 0 ?f)" 1 WaitOr 2 WaitOr ClearNone None ?d 0 0
        "fst (flag_wait_pass 1 WaitOr ClearNone None ?d 0 0 (snd (flag_cancel 0 ?f)))"
        "snd (flag_wait_pass 1 WaitOr ClearNone None ?d 0 0 (snd (flag_cancel 0 ?f)))" ?d 0 ClearNone None 0]
    by (simp add: infinite_never_expires new_flag_def)
qed

end
