(* ===== verification/Event_Queue.thy ===== *)
theory Event_Queue
  imports Wait_Support "HOL-Library.Word"
begin

text \<open>
  The kernel event queues (\<open>KernelEqueuePrivate\<close> and the calls of \<open>kernel/eventQueue.cpp\<close>). Every method runs
  under the mutex of its queue. Function pointers are names: the trigger and reset functions of this file are
  constructors, those that graphics code registers are looked up in \<open>callbacks\<close>, a parameter. A stopped process
  (\<open>EXIT_IF\<close>) is \<open>None\<close>.
\<close>

unbundle bit_operations_syntax

definition EV_ADD :: "16 word" where "EV_ADD = 0x01"
definition EV_ONESHOT :: "16 word" where "EV_ONESHOT = 0x10"
definition EV_CLEAR :: "16 word" where "EV_CLEAR = 0x20"
definition EV_ERROR :: "16 word" where "EV_ERROR = 0x4000"
definition KERNEL_EVFILT_USER :: int where "KERNEL_EVFILT_USER = -11"
definition KERNEL_EVFILT_HRTIMER :: int where "KERNEL_EVFILT_HRTIMER = -15"
definition KERNEL_EQUEUE_INVALID :: nat where "KERNEL_EQUEUE_INVALID = 0"
definition I64_MAX :: nat where "I64_MAX = 9223372036854775807"
definition EQ_U32_MAX :: nat where "EQ_U32_MAX = 4294967295"

lemmas event_flags = EV_ADD_def EV_ONESHOT_def EV_CLEAR_def EV_ERROR_def

record kernel_event =
  ke_ident :: nat
  ke_filter :: int
  ke_flags :: "16 word"
  ke_fflags :: nat
  ke_data :: int
  ke_udata :: nat

datatype trigger_func = UserEventTrigger | AmprEventTrigger | OtherTrigger nat
datatype reset_func = UserEventReset | OtherReset nat

record equeue_event =
  ee_triggered :: bool
  ee_deadline :: u64
  ee_event :: kernel_event
  ee_filter_data :: nat
  ee_trigger :: "trigger_func option"
  ee_reset :: "reset_func option"
  ee_delete :: "nat option"
  ee_pending :: "kernel_event list"

record callbacks =
  cb_trigger :: "nat \<Rightarrow> nat \<Rightarrow> equeue_event \<Rightarrow> equeue_event"
  cb_reset :: "nat \<Rightarrow> equeue_event \<Rightarrow> equeue_event"

record equeue =
  eq_events :: "equeue_event list"
  eq_name :: string
  eq_handle :: nat
  eq_closed :: bool

text \<open>A pointer stored as \<open>intptr_t\<close>.\<close>

definition to_intptr :: "nat \<Rightarrow> int" where
  "to_intptr p = (if p > I64_MAX then int p - 18446744073709551616 else int p)"

definition user_event_trigger :: "nat \<Rightarrow> equeue_event \<Rightarrow> equeue_event" where
  "user_event_trigger trigger_data e =
     e\<lparr>ee_triggered := True, ee_event := (ee_event e)\<lparr>ke_data := to_intptr trigger_data, ke_udata := trigger_data\<rparr>\<rparr>"

definition ampr_event_trigger :: "nat \<Rightarrow> equeue_event \<Rightarrow> equeue_event" where
  "ampr_event_trigger trigger_data e =
     (let triggered_event = (ee_event e)\<lparr>ke_data := to_intptr trigger_data\<rparr>
      in if ee_triggered e then e\<lparr>ee_pending := ee_pending e @ [triggered_event]\<rparr>
         else e\<lparr>ee_event := triggered_event, ee_triggered := True\<rparr>)"

definition user_event_reset :: "equeue_event \<Rightarrow> equeue_event" where
  "user_event_reset e =
     (if ke_flags (ee_event e) AND EV_CLEAR \<noteq> 0
      then e\<lparr>ee_triggered := False, ee_event := (ee_event e)\<lparr>ke_fflags := 0, ke_data := 0\<rparr>\<rparr> else e)"

fun run_trigger :: "callbacks \<Rightarrow> trigger_func \<Rightarrow> nat \<Rightarrow> equeue_event \<Rightarrow> equeue_event" where
  "run_trigger cb UserEventTrigger d e = user_event_trigger d e"
| "run_trigger cb AmprEventTrigger d e = ampr_event_trigger d e"
| "run_trigger cb (OtherTrigger n) d e = cb_trigger cb n d e"

fun run_reset :: "callbacks \<Rightarrow> reset_func \<Rightarrow> equeue_event \<Rightarrow> equeue_event" where
  "run_reset cb UserEventReset e = user_event_reset e"
| "run_reset cb (OtherReset n) e = cb_reset cb n e"

section \<open>One queue\<close>

definition trigger_expired_timers :: "u64 \<Rightarrow> equeue_event list \<Rightarrow> equeue_event list" where
  "trigger_expired_timers now_ns es =
     map (\<lambda>e. if \<not> ee_triggered e \<and> ee_deadline e \<noteq> 0 \<and> ee_deadline e \<le> now_ns then e\<lparr>ee_triggered := True\<rparr> else e) es"

text \<open>What follows the delivery of an event that is not one-shot.\<close>

definition after_delivery :: "callbacks \<Rightarrow> equeue_event \<Rightarrow> equeue_event" where
  "after_delivery cb e =
     (let e = (case ee_reset e of
                 Some f \<Rightarrow> run_reset cb f e
               | None \<Rightarrow> if ke_flags (ee_event e) AND EV_CLEAR \<noteq> 0
                         then e\<lparr>ee_triggered := False, ee_event := (ee_event e)\<lparr>ke_fflags := 0, ke_data := 0\<rparr>\<rparr> else e)
      in case ee_pending e of
           [] \<Rightarrow> e
         | p # ps \<Rightarrow> e\<lparr>ee_event := p, ee_pending := ps, ee_triggered := True\<rparr>)"

text \<open>
  The inner loop of \<open>GetTriggeredEvents\<close>: \<open>room\<close> is what is left of the caller's array. The result holds the
  events written, whether the event leaves the queue, and the event.
\<close>

fun drain :: "callbacks \<Rightarrow> nat \<Rightarrow> equeue_event \<Rightarrow> kernel_event list \<times> bool \<times> equeue_event" where
  "drain cb 0 e = ([], False, e)"
| "drain cb (Suc room) e =
     (if \<not> ee_triggered e then ([], False, e)
      else if ke_flags (ee_event e) AND EV_ONESHOT \<noteq> 0 then ([ee_event e], True, e)
      else case drain cb room (after_delivery cb e) of (out, erase, e') \<Rightarrow> (ee_event e # out, erase, e'))"

fun collect :: "callbacks \<Rightarrow> nat \<Rightarrow> equeue_event list \<Rightarrow> kernel_event list \<times> equeue_event list" where
  "collect cb room [] = ([], [])"
| "collect cb room (e # es) =
     (case drain cb room e of
        (out, erase, e') \<Rightarrow>
          if length out \<ge> room then (out, if erase then es else e' # es)
          else case collect cb (room - length out) es of
              (outs, es') \<Rightarrow> (out @ outs, if erase then es' else e' # es'))"

text \<open>The value returned, the events written to the caller's array and the queue.\<close>

definition get_triggered_events :: "callbacks \<Rightarrow> int \<Rightarrow> u64 \<Rightarrow> equeue \<Rightarrow> (int \<times> kernel_event list \<times> equeue) option" where
  "get_triggered_events cb num now_ns q =
     (if num < 1 then None
      else if eq_closed q then Some (KERNEL_ERROR_EBADF, [], q)
      else case collect cb (nat num) (trigger_expired_timers now_ns (eq_events q)) of
          (out, es) \<Rightarrow> Some (int (length out), out, q\<lparr>eq_events := es\<rparr>))"

fun nearest_deadline :: "equeue_event list \<Rightarrow> u64" where
  "nearest_deadline [] = U64_MAX"
| "nearest_deadline (e # es) =
     (if \<not> ee_triggered e \<and> ee_deadline e \<noteq> 0 then min (ee_deadline e) (nearest_deadline es) else nearest_deadline es)"

definition get_next_timer_wait_micros :: "u64 \<Rightarrow> equeue_event list \<Rightarrow> nat option" where
  "get_next_timer_wait_micros now_ns es =
     (let nearest = nearest_deadline es
      in if nearest = U64_MAX then None
         else let remaining_ns = (if nearest > now_ns then nearest - now_ns else 0);
                  rounded_us = max 1 (add64 remaining_ns 999 div 1000)
              in Some (min rounded_us EQ_U32_MAX))"

text \<open>
  One round of \<open>WaitForEvents\<close>: it returns, or parks for the given microseconds. \<open>now_ns\<close> is the clock of the
  timers, \<open>now1\<close>, \<open>now2\<close> that of the deadline, in the order of the readings.
\<close>

datatype equeue_wait = EqReturned int "kernel_event list" | EqParked deadline nat

definition wait_round ::
  "callbacks \<Rightarrow> int \<Rightarrow> deadline \<Rightarrow> u64 \<Rightarrow> u64 \<Rightarrow> u64 \<Rightarrow> u64 \<Rightarrow> equeue \<Rightarrow> (equeue_wait \<times> equeue) option" where
  "wait_round cb num d now_ns now1 now_ns' now2 q =
     (case get_triggered_events cb num now_ns q of
        None \<Rightarrow> None
      | Some (ret, out, q') \<Rightarrow>
          if ret \<noteq> 0 \<or> expired d now1 then Some (EqReturned ret out, q')
          else Some (EqParked d (case get_next_timer_wait_micros now_ns' (eq_events q') of
                                   Some timer_wait \<Rightarrow> min (park_slice d now2) timer_wait
                                 | None \<Rightarrow> park_slice d now2), q'))"

definition wait_for_events_begin ::
  "callbacks \<Rightarrow> int \<Rightarrow> nat \<Rightarrow> u64 \<Rightarrow> u64 \<Rightarrow> u64 \<Rightarrow> u64 \<Rightarrow> u64 \<Rightarrow> equeue \<Rightarrow> (equeue_wait \<times> equeue) option" where
  "wait_for_events_begin cb num micros now0 now_ns now1 now_ns' now2 q =
     (if num < 1 then None
      else if eq_closed q then Some (EqReturned KERNEL_ERROR_EBADF [], q)
      else wait_round cb num (make_deadline now0 (if micros = 0 then None else Some micros)) now_ns now1 now_ns' now2 q)"

definition same_key :: "nat \<Rightarrow> int \<Rightarrow> equeue_event \<Rightarrow> bool" where
  "same_key ident filter' e \<longleftrightarrow> ke_ident (ee_event e) = ident \<and> ke_filter (ee_event e) = filter'"

text \<open>Updates the first event of a key.\<close>

fun update_first :: "(equeue_event \<Rightarrow> bool) \<Rightarrow> (equeue_event \<Rightarrow> equeue_event) \<Rightarrow> equeue_event list \<Rightarrow> equeue_event list" where
  "update_first P f [] = []"
| "update_first P f (e # es) = (if P e then f e # es else e # update_first P f es)"

definition refresh_event :: "equeue_event \<Rightarrow> equeue_event \<Rightarrow> equeue_event" where
  "refresh_event event e =
     e\<lparr>ee_deadline := ee_deadline event,
       ee_event := (ee_event e)\<lparr>ke_udata := ke_udata (ee_event event)\<rparr>,
       ee_pending := map (\<lambda>p. p\<lparr>ke_udata := ke_udata (ee_event event)\<rparr>) (ee_pending e)\<rparr>"

definition add_event :: "equeue_event \<Rightarrow> equeue \<Rightarrow> int \<times> equeue" where
  "add_event event q =
     (let key = same_key (ke_ident (ee_event event)) (ke_filter (ee_event event))
      in if eq_closed q then (KERNEL_ERROR_EBADF, q)
         else if \<exists>e \<in> set (eq_events q). key e
         then (OK, q\<lparr>eq_events := update_first key (refresh_event event) (eq_events q)\<rparr>)
         else (OK, q\<lparr>eq_events := eq_events q @ [event]\<rparr>))"

definition trigger_event :: "callbacks \<Rightarrow> nat \<Rightarrow> int \<Rightarrow> nat \<Rightarrow> equeue \<Rightarrow> int \<times> equeue" where
  "trigger_event cb ident filter' trigger_data q =
     (if eq_closed q then (KERNEL_ERROR_EBADF, q)
      else if \<exists>e \<in> set (eq_events q). same_key ident filter' e
      then (OK, q\<lparr>eq_events := update_first (same_key ident filter')
                 (\<lambda>e. case ee_trigger e of Some f \<Rightarrow> run_trigger cb f trigger_data e | None \<Rightarrow> e\<lparr>ee_triggered := True\<rparr>) (eq_events q)\<rparr>)
      else (KERNEL_ERROR_ENOENT, q))"

text \<open>\<open>DeleteEvent\<close> and \<open>Close\<close> call the delete function of what they removed; the calls are a result.\<close>

definition delete_calls :: "nat \<Rightarrow> equeue_event list \<Rightarrow> (nat \<times> nat \<times> equeue_event) list" where
  "delete_calls handle es = concat (map (\<lambda>e. case ee_delete e of Some f \<Rightarrow> [(f, handle, e)] | None \<Rightarrow> []) es)"

definition delete_event :: "nat \<Rightarrow> int \<Rightarrow> equeue \<Rightarrow> int \<times> (nat \<times> nat \<times> equeue_event) list \<times> equeue" where
  "delete_event ident filter' q =
     (if eq_closed q then (KERNEL_ERROR_EBADF, [], q)
      else case dropWhile (\<lambda>e. \<not> same_key ident filter' e) (eq_events q) of
          [] \<Rightarrow> (KERNEL_ERROR_ENOENT, [], q)
        | e # es \<Rightarrow> (OK, delete_calls (eq_handle q) [e],
                     q\<lparr>eq_events := takeWhile (\<lambda>e. \<not> same_key ident filter' e) (eq_events q) @ es\<rparr>))"

definition close_equeue :: "equeue \<Rightarrow> (nat \<times> nat \<times> equeue_event) list \<times> equeue" where
  "close_equeue q =
     (if eq_closed q then ([], q)
      else (delete_calls (eq_handle q) (eq_events q), q\<lparr>eq_closed := True, eq_events := []\<rparr>))"

section \<open>The calls of the guest\<close>

record equeue_world =
  qw_queues :: "nat registry"
  qw_objects :: "equeue list"

definition set_queue :: "nat \<Rightarrow> equeue \<Rightarrow> equeue_world \<Rightarrow> equeue_world" where
  "set_queue i q w = w\<lparr>qw_objects := (qw_objects w)[i := q]\<rparr>"

definition equeue_world_init :: equeue_world where
  "equeue_world_init = \<lparr>qw_queues = reg_empty, qw_objects = []\<rparr>"

text \<open>\<open>g_equeues\<close> is a handle table of its own: handles are positive 64-bit numbers.\<close>

definition pin_equeue :: "nat \<Rightarrow> equeue_world \<Rightarrow> nat option" where
  "pin_equeue eq w = (if eq = KERNEL_EQUEUE_INVALID then None else reg_objects (qw_queues w) eq)"

definition kernel_create_equeue :: "bool \<Rightarrow> string option \<Rightarrow> equeue_world \<Rightarrow> int \<times> nat option \<times> equeue_world" where
  "kernel_create_equeue eq name w =
     (case name of
        None \<Rightarrow> (KERNEL_ERROR_EINVAL, None, w)
      | Some name \<Rightarrow>
          if \<not> eq then (KERNEL_ERROR_EINVAL, None, w)
          else
            let r = qw_queues w; h = reg_next r
            in if h > I64_MAX then (KERNEL_ERROR_ENOMEM, None, w)
               else (OK, Some h,
                 \<lparr>qw_queues = r\<lparr>reg_next := h + 1, reg_objects := (reg_objects r)(h \<mapsto> length (qw_objects w))\<rparr>,
                  qw_objects = qw_objects w @ [\<lparr>eq_events = [], eq_name = name, eq_handle = h, eq_closed = False\<rparr>]\<rparr>))"

definition kernel_add_event :: "nat \<Rightarrow> equeue_event \<Rightarrow> equeue_world \<Rightarrow> int \<times> equeue_world" where
  "kernel_add_event eq event w =
     (case pin_equeue eq w of
        None \<Rightarrow> (KERNEL_ERROR_EBADF, w)
      | Some i \<Rightarrow> (case add_event event (qw_objects w ! i) of (r, q) \<Rightarrow> (r, set_queue i q w)))"

definition kernel_trigger_event :: "callbacks \<Rightarrow> nat \<Rightarrow> nat \<Rightarrow> int \<Rightarrow> nat \<Rightarrow> equeue_world \<Rightarrow> int \<times> equeue_world" where
  "kernel_trigger_event cb eq ident filter' trigger_data w =
     (case pin_equeue eq w of
        None \<Rightarrow> (KERNEL_ERROR_EBADF, w)
      | Some i \<Rightarrow> (case trigger_event cb ident filter' trigger_data (qw_objects w ! i) of (r, q) \<Rightarrow> (r, set_queue i q w)))"

definition kernel_delete_event :: "nat \<Rightarrow> nat \<Rightarrow> int \<Rightarrow> equeue_world \<Rightarrow> int \<times> (nat \<times> nat \<times> equeue_event) list \<times> equeue_world" where
  "kernel_delete_event eq ident filter' w =
     (case pin_equeue eq w of
        None \<Rightarrow> (KERNEL_ERROR_EBADF, [], w)
      | Some i \<Rightarrow> (case delete_event ident filter' (qw_objects w ! i) of (r, calls, q) \<Rightarrow> (r, calls, set_queue i q w)))"

definition kernel_delete_equeue :: "nat \<Rightarrow> equeue_world \<Rightarrow> int \<times> (nat \<times> nat \<times> equeue_event) list \<times> equeue_world" where
  "kernel_delete_equeue eq w =
     (case reg_objects (qw_queues w) eq of
        None \<Rightarrow> (KERNEL_ERROR_EBADF, [], w)
      | Some i \<Rightarrow>
          (case close_equeue (qw_objects w ! i) of
             (calls, q) \<Rightarrow>
               (OK, calls, set_queue i q (w\<lparr>qw_queues := (qw_queues w)\<lparr>reg_objects := (reg_objects (qw_queues w))(eq := None)\<rparr>\<rparr>))))"

text \<open>
  \<open>KernelWaitEqueue\<close>: \<open>finish_wait\<close> turns the value of the queue into the result, with what is stored in \<open>*out\<close>;
  \<open>ev\<close> and \<open>out\<close> tell whether the pointers are not null. A parked call keeps its queue.
\<close>

definition finish_wait :: "int \<Rightarrow> int" where
  "finish_wait out =
     (if out = KERNEL_ERROR_EBADF then KERNEL_ERROR_EBADF else if out = 0 then KERNEL_ERROR_ETIMEDOUT else OK)"

datatype equeue_call = EqCallReturned int "int option" "kernel_event list" | EqCallParked nat deadline nat

fun equeue_call_of :: "nat \<Rightarrow> equeue_wait \<Rightarrow> equeue_call" where
  "equeue_call_of i (EqReturned ret out) = EqCallReturned (finish_wait ret) (Some ret) out"
| "equeue_call_of i (EqParked d micros) = EqCallParked i d micros"

definition kernel_wait_equeue ::
  "callbacks \<Rightarrow> nat \<Rightarrow> bool \<Rightarrow> int \<Rightarrow> bool \<Rightarrow> nat option \<Rightarrow> u64 \<Rightarrow> u64 \<Rightarrow> u64 \<Rightarrow> u64 \<Rightarrow> u64 \<Rightarrow> equeue_world \<Rightarrow>
   (equeue_call \<times> equeue_world) option" where
  "kernel_wait_equeue cb eq ev num out timo now0 now_ns now1 now_ns' now2 w =
     (case pin_equeue eq w of
        None \<Rightarrow> Some (EqCallReturned KERNEL_ERROR_EBADF None [], w)
      | Some i \<Rightarrow>
          if \<not> ev then Some (EqCallReturned KERNEL_ERROR_EFAULT None [], w)
          else if num < 1 then Some (EqCallReturned KERNEL_ERROR_EINVAL None [], w)
          else if \<not> out then Some (EqCallReturned KERNEL_ERROR_EFAULT None [], w)
          else if timo = Some 0
          then map_option (\<lambda>(ret, evs, q). (EqCallReturned (finish_wait ret) (Some ret) evs, set_queue i q w))
                 (get_triggered_events cb num now_ns (qw_objects w ! i))
          else map_option (\<lambda>(r, q). (equeue_call_of i r, set_queue i q w))
                 (wait_for_events_begin cb num (case timo of None \<Rightarrow> 0 | Some t \<Rightarrow> t) now0 now_ns now1 now_ns' now2 (qw_objects w ! i)))"

definition uintptr :: "int \<Rightarrow> nat" where
  "uintptr i = nat (i mod 18446744073709551616)"

definition new_event :: "int \<Rightarrow> int \<Rightarrow> 16 word \<Rightarrow> nat \<Rightarrow> equeue_event" where
  "new_event ident filter' flags udata =
     \<lparr>ee_triggered = False, ee_deadline = 0,
      ee_event = \<lparr>ke_ident = uintptr ident, ke_filter = filter', ke_flags = flags, ke_fflags = 0, ke_data = 0, ke_udata = udata\<rparr>,
      ee_filter_data = 0, ee_trigger = None, ee_reset = None, ee_delete = None, ee_pending = []\<rparr>"

definition kernel_add_user_event :: "nat \<Rightarrow> int \<Rightarrow> equeue_world \<Rightarrow> int \<times> equeue_world" where
  "kernel_add_user_event eq ident w =
     kernel_add_event eq ((new_event ident KERNEL_EVFILT_USER EV_ADD 0)
        \<lparr>ee_trigger := Some UserEventTrigger, ee_reset := Some UserEventReset\<rparr>) w"

definition kernel_add_user_event_edge :: "nat \<Rightarrow> int \<Rightarrow> equeue_world \<Rightarrow> int \<times> equeue_world" where
  "kernel_add_user_event_edge eq ident w =
     kernel_add_event eq ((new_event ident KERNEL_EVFILT_USER (EV_ADD OR EV_CLEAR) 0)
        \<lparr>ee_trigger := Some UserEventTrigger, ee_reset := Some UserEventReset\<rparr>) w"

definition kernel_trigger_user_event :: "callbacks \<Rightarrow> nat \<Rightarrow> int \<Rightarrow> nat \<Rightarrow> equeue_world \<Rightarrow> int \<times> equeue_world" where
  "kernel_trigger_user_event cb eq ident udata w = kernel_trigger_event cb eq (uintptr ident) KERNEL_EVFILT_USER udata w"

text \<open>The order in which an unordered map is walked does not matter: each queue is triggered for itself.\<close>

definition kernel_trigger_user_event_for_all :: "callbacks \<Rightarrow> int \<Rightarrow> nat \<Rightarrow> equeue_world \<Rightarrow> int \<times> equeue_world" where
  "kernel_trigger_user_event_for_all cb ident udata w =
     (let queues = concat (map (\<lambda>h. case reg_objects (qw_queues w) h of Some i \<Rightarrow> [i] | None \<Rightarrow> []) [1..<reg_next (qw_queues w)]);
          step = (\<lambda>i (triggered, w). case trigger_event cb (uintptr ident) KERNEL_EVFILT_USER udata (qw_objects w ! i) of
                    (r, q) \<Rightarrow> (if r = OK then triggered + 1 else triggered, set_queue i q w));
          (triggered, w) = fold step queues (0 :: nat, w)
      in (if triggered > 0 then OK else KERNEL_ERROR_ENOENT, w))"

definition kernel_delete_user_event :: "nat \<Rightarrow> int \<Rightarrow> equeue_world \<Rightarrow> int \<times> (nat \<times> nat \<times> equeue_event) list \<times> equeue_world" where
  "kernel_delete_user_event eq ident w = kernel_delete_event eq (uintptr ident) KERNEL_EVFILT_USER w"

text \<open>\<open>ts\<close> is seconds and nanoseconds.\<close>

definition kernel_add_hr_timer_event :: "nat \<Rightarrow> int \<Rightarrow> (int \<times> int) option \<Rightarrow> nat \<Rightarrow> u64 \<Rightarrow> equeue_world \<Rightarrow> int \<times> equeue_world" where
  "kernel_add_hr_timer_event eq ident ts udata now_ns w =
     (case ts of
        None \<Rightarrow> (KERNEL_ERROR_EFAULT, w)
      | Some (sec, nsec) \<Rightarrow>
          if sec < 0 \<or> nsec < 0 \<or> nsec \<ge> 1000000000 \<or> nat sec > (U64_MAX - nat nsec) div 1000000000
          then (KERNEL_ERROR_EINVAL, w)
          else
            let delay_ns = nat sec * 1000000000 + nat nsec
            in kernel_add_event eq ((new_event ident KERNEL_EVFILT_HRTIMER (EV_ADD OR EV_ONESHOT) udata)
                 \<lparr>ee_deadline := (if delay_ns \<le> U64_MAX - now_ns then now_ns + delay_ns else U64_MAX)\<rparr>) w)"

definition kernel_delete_hr_timer_event :: "nat \<Rightarrow> int \<Rightarrow> equeue_world \<Rightarrow> int \<times> (nat \<times> nat \<times> equeue_event) list \<times> equeue_world" where
  "kernel_delete_hr_timer_event eq ident w = kernel_delete_event eq (uintptr ident) KERNEL_EVFILT_HRTIMER w"

definition ampr_event :: "int \<Rightarrow> nat \<Rightarrow> equeue_event" where
  "ampr_event ident udata =
     (new_event ident KERNEL_EVFILT_USER (EV_ADD OR EV_CLEAR) udata)
       \<lparr>ee_trigger := Some AmprEventTrigger, ee_reset := Some UserEventReset\<rparr>"

definition kernel_add_ampr_event :: "nat \<Rightarrow> int \<Rightarrow> nat \<Rightarrow> equeue_world \<Rightarrow> int \<times> equeue_world" where
  "kernel_add_ampr_event eq ident udata w =
     (if eq \<noteq> KERNEL_EQUEUE_INVALID then (OK, snd (kernel_add_event eq (ampr_event ident udata) w)) else (OK, w))"

definition kernel_delete_ampr_event :: "nat \<Rightarrow> int \<Rightarrow> equeue_world \<Rightarrow> int \<times> (nat \<times> nat \<times> equeue_event) list \<times> equeue_world" where
  "kernel_delete_ampr_event eq ident w =
     (if eq \<noteq> KERNEL_EQUEUE_INVALID
      then (OK, snd (kernel_delete_event eq (uintptr ident) KERNEL_EVFILT_USER w)) else (OK, [], w))"

definition kernel_get_event_data :: "kernel_event option \<Rightarrow> int" where
  "kernel_get_event_data ev = (case ev of Some e \<Rightarrow> ke_data e | None \<Rightarrow> 0)"

definition kernel_get_event_fflags :: "kernel_event option \<Rightarrow> nat" where
  "kernel_get_event_fflags ev = (case ev of Some e \<Rightarrow> ke_fflags e | None \<Rightarrow> 0)"

definition kernel_get_event_filter :: "kernel_event option \<Rightarrow> int" where
  "kernel_get_event_filter ev = (case ev of Some e \<Rightarrow> ke_filter e | None \<Rightarrow> 0)"

definition kernel_get_event_id :: "kernel_event option \<Rightarrow> nat" where
  "kernel_get_event_id ev = (case ev of Some e \<Rightarrow> ke_ident e | None \<Rightarrow> 0)"

definition kernel_get_event_user_data :: "kernel_event option \<Rightarrow> nat" where
  "kernel_get_event_user_data ev = (case ev of Some e \<Rightarrow> ke_udata e | None \<Rightarrow> 0)"

definition kernel_get_event_error :: "kernel_event option \<Rightarrow> int" where
  "kernel_get_event_error ev =
     (case ev of
        Some e \<Rightarrow> if ke_flags e AND EV_ERROR \<noteq> 0 then (let d = ke_data e mod 4294967296 in if d \<ge> 2147483648 then d - 4294967296 else d) else 0
      | None \<Rightarrow> 0)"

end
