(* ===== verification/Event_Queue_Facts.thy ===== *)
theory Event_Queue_Facts
  imports Event_Queue
begin

text \<open>
  The event queues: what a read writes stays within the caller's array and misses nothing that is due, completions
  are delivered exactly once and in order, a wait never sleeps past a timer, and a level-triggered event fills
  the whole array.
\<close>

section \<open>Reading a queue\<close>


lemma drain_idle: "\<not> ee_triggered e \<Longrightarrow> drain cb room e = ([], False, e)"
  by (cases room) simp_all










section \<open>Sleeping\<close>






section \<open>Level-triggered events\<close>

lemma drain_level:
  assumes "ee_triggered e" and "ee_reset e = Some UserEventReset" and "ke_flags (ee_event e) = EV_ADD" and "ee_pending e = []"
  shows "drain cb room e = (replicate room (ee_event e), False, e)"
proof (induction room)
  case (Suc room)
  have "after_delivery cb e = e" using assms by (simp add: after_delivery_def user_event_reset_def event_flags)
  then show ?case using Suc assms by (simp add: event_flags)
qed simp

text \<open>A user event without \<open>EV_CLEAR\<close> stays triggered, and one read does not report it once: it writes the event
  into every free place of the caller's array, so events behind it in the queue are not reported at all.\<close>

theorem level_event_fills_array:
  assumes "\<not> eq_closed q" and "eq_events q = e # es" and "1 \<le> num"
    and "ee_triggered e" and "ee_reset e = Some UserEventReset" and "ke_flags (ee_event e) = EV_ADD" and "ee_pending e = []"
  shows "\<exists>q'. get_triggered_events cb num now_ns q = Some (num, replicate (nat num) (ee_event e), q') \<and>
    eq_events q' = e # trigger_expired_timers now_ns es"
proof -
  have "trigger_expired_timers now_ns (e # es) = e # trigger_expired_timers now_ns es"
    using assms(4) by (simp add: trigger_expired_timers_def)
  then show ?thesis using assms by (simp add: get_triggered_events_def drain_level [OF assms(4-7)])
qed


lemma level_event_fills_array_witness:
  "\<exists>q' ev. get_triggered_events \<lparr>cb_trigger = \<lambda>_ _ e. e, cb_reset = \<lambda>_ e. e\<rparr> 3 0
     \<lparr>eq_events = [(new_event 4 KERNEL_EVFILT_USER EV_ADD 0)
        \<lparr>ee_triggered := True, ee_trigger := Some UserEventTrigger, ee_reset := Some UserEventReset\<rparr>],
      eq_name = [], eq_handle = 1, eq_closed = False\<rparr> = Some (3, [ev, ev, ev], q')"
proof -
  let ?e = "(new_event 4 KERNEL_EVFILT_USER EV_ADD 0)
        \<lparr>ee_triggered := True, ee_trigger := Some UserEventTrigger, ee_reset := Some UserEventReset\<rparr>"
  let ?q = "\<lparr>eq_events = [?e], eq_name = [], eq_handle = 1, eq_closed = False\<rparr>"
  have "replicate (nat 3) x = [x, x, x]" for x :: kernel_event by (simp add: numeral_3_eq_3)
  then show ?thesis
    using level_event_fills_array [of ?q ?e "[]" 3 "\<lparr>cb_trigger = \<lambda>_ _ e. e, cb_reset = \<lambda>_ e. e\<rparr>" 0]
    by (auto simp: new_event_def)
qed

section \<open>Completions\<close>

text \<open>
  The contract of a source of completions: \<open>post\<close> appends to the backlog, \<open>take_some n\<close> hands over its first \<open>n\<close>.
\<close>

locale completion_source =
  fixes ok :: "'s \<Rightarrow> bool"
    and backlog :: "'s \<Rightarrow> 'a list"
    and post :: "'d \<Rightarrow> 's \<Rightarrow> 's"
    and payload :: "'d \<Rightarrow> 'a"
    and take_some :: "nat \<Rightarrow> 's \<Rightarrow> 'a list \<times> 's"
  assumes post_ok: "ok s \<Longrightarrow> ok (post d s)"
    and post_backlog: "ok s \<Longrightarrow> backlog (post d s) = backlog s @ [payload d]"
    and take_ok: "ok s \<Longrightarrow> ok (snd (take_some n s))"
    and take_out: "ok s \<Longrightarrow> fst (take_some n s) = take n (backlog s)"
    and take_backlog: "ok s \<Longrightarrow> backlog (snd (take_some n s)) = drop n (backlog s)"
begin

lemma take_conserves: "ok s \<Longrightarrow> fst (take_some n s) @ backlog (snd (take_some n s)) = backlog s"
  by (simp add: take_out take_backlog)

lemma take_all: "ok s \<Longrightarrow> length (backlog s) \<le> n \<Longrightarrow> fst (take_some n s) = backlog s \<and> backlog (snd (take_some n s)) = []"
  by (simp add: take_out take_backlog)

end

definition backlog :: "equeue_event \<Rightarrow> int list" where
  "backlog e = (if ee_triggered e then map ke_data (ee_event e # ee_pending e) else [])"

definition event_key :: "kernel_event \<Rightarrow> nat \<times> int" where
  "event_key p = (ke_ident p, ke_filter p)"

abbreviation ekey :: "equeue_event \<Rightarrow> nat \<times> int" where
  "ekey e \<equiv> event_key (ee_event e)"

definition ampr_ok :: "equeue_event \<Rightarrow> bool" where
  "ampr_ok e \<longleftrightarrow> ee_trigger e = Some AmprEventTrigger \<and> ee_reset e = Some UserEventReset \<and> ee_deadline e = 0 \<and>
     (\<forall>p \<in> set (ee_event e # ee_pending e). ke_flags p = (EV_ADD OR EV_CLEAR) \<and> event_key p = ekey e) \<and>
     (\<not> ee_triggered e \<longrightarrow> ee_pending e = [])"

lemma ampr_event_ok: "ampr_ok (ampr_event ident udata)"
  by (simp add: ampr_ok_def ampr_event_def new_event_def)

lemma event_key_simps [simp]:
  "event_key (p\<lparr>ke_data := d\<rparr>) = event_key p" "event_key (p\<lparr>ke_fflags := n, ke_data := d\<rparr>) = event_key p"
  "event_key (p\<lparr>ke_udata := u\<rparr>) = event_key p" "event_key (p\<lparr>ke_fflags := n\<rparr>) = event_key p"
  by (simp_all add: event_key_def)

lemma ampr_post_ok:
  assumes "ampr_ok e"
  shows "ampr_ok (ampr_event_trigger d e)"
proof (cases "ee_triggered e")
  case True
  then show ?thesis using assms by (simp add: ampr_ok_def ampr_event_trigger_def Let_def)
next
  case False
  then have "ee_pending e = []" using assms by (simp add: ampr_ok_def)
  then show ?thesis using False assms by (simp add: ampr_ok_def ampr_event_trigger_def Let_def)
qed

lemma ampr_post_backlog: "ampr_ok e \<Longrightarrow> backlog (ampr_event_trigger d e) = backlog e @ [to_intptr d]"
  by (auto simp: ampr_ok_def ampr_event_trigger_def Let_def backlog_def)

lemma ampr_delivery:
  assumes ok: "ampr_ok e" and t: "ee_triggered e"
  shows "ampr_ok (after_delivery cb e) \<and> backlog (after_delivery cb e) = tl (backlog e) \<and> ekey (after_delivery cb e) = ekey e"
proof -
  obtain k where k: "ekey e = k" by blast
  have f: "ke_flags (ee_event e) = (EV_ADD OR EV_CLEAR)" and fn: "ee_trigger e = Some AmprEventTrigger"
      "ee_reset e = Some UserEventReset" "ee_deadline e = 0"
    and p: "\<forall>p \<in> set (ee_pending e). ke_flags p = (EV_ADD OR EV_CLEAR) \<and> event_key p = k"
    using ok unfolding ampr_ok_def k by simp_all
  have c: "ke_flags (ee_event e) AND EV_CLEAR \<noteq> 0" by (simp add: f event_flags)
  have r: "after_delivery cb e = (case ee_pending e of
      [] \<Rightarrow> user_event_reset e
    | q # ps \<Rightarrow> (user_event_reset e)\<lparr>ee_event := q, ee_pending := ps, ee_triggered := True\<rparr>)"
    by (simp add: after_delivery_def fn user_event_reset_def c split: list.split)
  show ?thesis
  proof (cases "ee_pending e")
    case Nil
    moreover have "EV_CLEAR \<noteq> 0" by (simp add: event_flags)
    ultimately show ?thesis using t unfolding r by (simp add: ampr_ok_def user_event_reset_def c fn f backlog_def)
  next
    case (Cons q ps)
    then show ?thesis using p t unfolding r
      by (simp add: ampr_ok_def user_event_reset_def c fn k backlog_def)
  qed
qed

lemma ampr_drain:
  "ampr_ok e \<Longrightarrow> \<exists>out e'. drain cb n e = (out, False, e') \<and> map ke_data out = take n (backlog e) \<and>
     backlog e' = drop n (backlog e) \<and> ampr_ok e' \<and> ekey e' = ekey e \<and> (\<forall>p \<in> set out. event_key p = ekey e)"
proof (induction n arbitrary: e)
  case (Suc n)
  show ?case
  proof (cases "ee_triggered e")
    case True
    have flags: "ke_flags (ee_event e) AND EV_ONESHOT = 0" using Suc.prems by (simp add: ampr_ok_def event_flags)
    note d = ampr_delivery [OF Suc.prems True, of cb]
    obtain out e' where i: "drain cb n (after_delivery cb e) = (out, False, e')"
      "map ke_data out = take n (backlog (after_delivery cb e))" "backlog e' = drop n (backlog (after_delivery cb e))"
      "ampr_ok e'" "ekey e' = ekey (after_delivery cb e)" "\<forall>p \<in> set out. event_key p = ekey (after_delivery cb e)"
      using Suc.IH [of "after_delivery cb e"] d by blast
    have b: "backlog e = ke_data (ee_event e) # tl (backlog e)" using True by (simp add: backlog_def)
    have "map ke_data (ee_event e # out) = take (Suc n) (backlog e)" using i(2) d by (subst b) simp
    moreover have "backlog e' = drop (Suc n) (backlog e)" using i(3) d by (subst b) simp
    ultimately show ?thesis using True flags i d by (simp add: event_flags)
  next
    case False
    then show ?thesis using Suc.prems drain_idle [OF False, of cb "Suc n"] by (simp add: backlog_def)
  qed
qed simp

interpretation ampr: completion_source ampr_ok backlog ampr_event_trigger to_intptr
  "\<lambda>n e. (map ke_data (fst (drain cb n e)), snd (snd (drain cb n e)))" for cb
proof unfold_locales
  fix s :: equeue_event and d n
  assume ok: "ampr_ok s"
  show "ampr_ok (ampr_event_trigger d s)" by (rule ampr_post_ok [OF ok])
  show "backlog (ampr_event_trigger d s) = backlog s @ [to_intptr d]" by (rule ampr_post_backlog [OF ok])
  show "ampr_ok (snd (map ke_data (fst (drain cb n s)), snd (snd (drain cb n s))))" using ampr_drain [OF ok, of cb n] by auto
  show "fst (map ke_data (fst (drain cb n s)), snd (snd (drain cb n s))) = take n (backlog s)"
    using ampr_drain [OF ok, of cb n] by auto
  show "backlog (snd (map ke_data (fst (drain cb n s)), snd (snd (drain cb n s)))) = drop n (backlog s)"
    using ampr_drain [OF ok, of cb n] by auto
qed

section \<open>Completions through a queue\<close>

definition tidy :: "equeue_event \<Rightarrow> bool" where
  "tidy e \<longleftrightarrow> (\<forall>p \<in> set (ee_pending e). event_key p = ekey e)"

text \<open>What is relied on of the functions that other code registers: they do not turn an event into another one.\<close>

definition callbacks_ok :: "callbacks \<Rightarrow> bool" where
  "callbacks_ok cb \<longleftrightarrow> (\<forall>n d e. tidy e \<longrightarrow>
     tidy (cb_trigger cb n d e) \<and> ekey (cb_trigger cb n d e) = ekey e \<and> tidy (cb_reset cb n e) \<and> ekey (cb_reset cb n e) = ekey e)"

definition good :: "nat \<times> int \<Rightarrow> equeue_event \<Rightarrow> bool" where
  "good k e \<longleftrightarrow> tidy e \<and> (ekey e = k \<longrightarrow> ampr_ok e)"

definition data_of :: "nat \<times> int \<Rightarrow> kernel_event list \<Rightarrow> int list" where
  "data_of k out = map ke_data (filter (\<lambda>p. event_key p = k) out)"

definition backlog_of :: "nat \<times> int \<Rightarrow> equeue_event list \<Rightarrow> int list" where
  "backlog_of k es = concat (map backlog (filter (\<lambda>e. ekey e = k) es))"

lemma data_of_simps [simp]: "data_of k [] = []" "data_of k (xs @ ys) = data_of k xs @ data_of k ys"
  by (simp_all add: data_of_def)

lemma backlog_of_simps [simp]:
  "backlog_of k [] = []" "backlog_of k (e # es) = (if ekey e = k then backlog e else []) @ backlog_of k es"
  "backlog_of k (es @ fs) = backlog_of k es @ backlog_of k fs"
  by (simp_all add: backlog_of_def)

lemma backlog_of_absent: "k \<notin> set (map ekey es) \<Longrightarrow> backlog_of k es = []"
  by (induction es) auto

lemma data_of_all: "\<forall>p \<in> set out. event_key p = k \<Longrightarrow> data_of k out = map ke_data out"
  by (simp add: data_of_def filter_id_conv)

lemma data_of_none: "\<forall>p \<in> set out. event_key p \<noteq> k \<Longrightarrow> data_of k out = []"
  by (simp add: data_of_def filter_empty_conv)

lemma ampr_tidy: "ampr_ok e \<Longrightarrow> tidy e"
  by (simp add: ampr_ok_def tidy_def)

lemma user_reset_tidy: "tidy e \<Longrightarrow> tidy (user_event_reset e) \<and> ekey (user_event_reset e) = ekey e"
  by (simp add: tidy_def user_event_reset_def)

lemma run_reset_tidy: "callbacks_ok cb \<Longrightarrow> tidy e \<Longrightarrow> tidy (run_reset cb f e) \<and> ekey (run_reset cb f e) = ekey e"
  by (cases f) (simp_all add: user_reset_tidy callbacks_ok_def)

lemma run_trigger_tidy: "callbacks_ok cb \<Longrightarrow> tidy e \<Longrightarrow> tidy (run_trigger cb f d e) \<and> ekey (run_trigger cb f d e) = ekey e"
proof (cases f)
  case UserEventTrigger
  moreover have "event_key (p\<lparr>ke_data := x, ke_udata := u\<rparr>) = event_key p" for p x u by (simp add: event_key_def)
  moreover assume "tidy e"
  ultimately show ?thesis by (simp add: tidy_def user_event_trigger_def)
next
  case AmprEventTrigger
  moreover assume "tidy e"
  ultimately show ?thesis by (auto simp: tidy_def ampr_event_trigger_def Let_def)
next
  case (OtherTrigger n)
  moreover assume "tidy e" "callbacks_ok cb"
  ultimately show ?thesis by (simp add: callbacks_ok_def)
qed

lemma after_delivery_tidy:
  assumes "callbacks_ok cb" and "tidy e"
  shows "tidy (after_delivery cb e) \<and> ekey (after_delivery cb e) = ekey e"
proof -
  let ?e = "case ee_reset e of
      Some f \<Rightarrow> run_reset cb f e
    | None \<Rightarrow> if ke_flags (ee_event e) AND EV_CLEAR \<noteq> 0
              then e\<lparr>ee_triggered := False, ee_event := (ee_event e)\<lparr>ke_fflags := 0, ke_data := 0\<rparr>\<rparr> else e"
  obtain e1 where e1: "?e = e1" by blast
  have t: "tidy e1 \<and> ekey e1 = ekey e"
    unfolding e1 [symmetric] using run_reset_tidy [OF assms] assms(2) by (auto simp: tidy_def split: option.split)
  have "after_delivery cb e = (case ee_pending e1 of [] \<Rightarrow> e1 | p # ps \<Rightarrow> e1\<lparr>ee_event := p, ee_pending := ps, ee_triggered := True\<rparr>)"
    by (simp only: after_delivery_def Let_def e1)
  then show ?thesis using t by (cases "ee_pending e1") (simp_all add: tidy_def)
qed

lemma drain_tidy:
  assumes "callbacks_ok cb"
  shows "tidy e \<Longrightarrow> drain cb n e = (out, erase, e') \<Longrightarrow> tidy e' \<and> ekey e' = ekey e \<and> (\<forall>p \<in> set out. event_key p = ekey e)"
proof (induction n arbitrary: e out)
  case (Suc n)
  note a = after_delivery_tidy [OF assms Suc.prems(1)]
  consider "\<not> ee_triggered e" | "ee_triggered e" "ke_flags (ee_event e) AND EV_ONESHOT \<noteq> 0"
    | "ee_triggered e" "ke_flags (ee_event e) AND EV_ONESHOT = 0" by blast
  then show ?case
  proof cases
    case 3
    obtain out' where d: "drain cb n (after_delivery cb e) = (out', erase, e')" "out = ee_event e # out'"
      using Suc.prems(2) 3 by (auto split: prod.splits)
    then show ?thesis using Suc.IH [OF conjunct1 [OF a] d(1)] a by simp
  qed (use Suc.prems in auto)
qed simp

lemma collect_conserves:
  assumes cb: "callbacks_ok cb"
  shows "distinct (map ekey es) \<Longrightarrow> \<forall>e \<in> set es. good k e \<Longrightarrow> collect cb room es = (out, es') \<Longrightarrow>
    event_key ` set out \<subseteq> ekey ` set es \<and> ekey ` set es' \<subseteq> ekey ` set es \<and> distinct (map ekey es') \<and>
    (\<forall>e \<in> set es'. good k e) \<and> data_of k out @ backlog_of k es' = backlog_of k es"
proof (induction es arbitrary: room out es')
  case (Cons e es)
  obtain o1 erase e1 where d: "drain cb room e = (o1, erase, e1)" by (cases "drain cb room e")
  obtain o2 es2 where c: "collect cb (room - length o1) es = (o2, es2)" by (cases "collect cb (room - length o1) es")
  have tidy: "tidy e" and dist: "distinct (map ekey es)" and new: "ekey e \<notin> ekey ` set es"
    and rest: "\<forall>e \<in> set es. good k e" and ge: "good k e"
    using Cons.prems(1,2) by (simp_all add: good_def)
  note t = drain_tidy [OF cb tidy d]
  note IH = Cons.IH [OF dist rest c]
  show ?case
  proof (cases "ekey e = k")
    case True
    then have ok: "ampr_ok e" using ge by (simp add: good_def)
    have a: "erase = False" "map ke_data o1 = take room (backlog e)" "backlog e1 = drop room (backlog e)" "ampr_ok e1"
      using ampr_drain [OF ok, of cb room] d by auto
    have g1: "good k e1" using a(4) t by (simp add: good_def)
    have o1: "data_of k o1 = take room (backlog e)" using data_of_all [of o1 k] t True a(2) by simp
    have no: "backlog_of k es = []" using backlog_of_absent [of k es] new True by simp
    show ?thesis
    proof (cases "length o1 \<ge> room")
      case full: True
      then have "out = o1" "es' = e1 # es" using Cons.prems(3) d a(1) by simp_all
      then show ?thesis using t g1 rest dist new o1 a(3) True no by auto
    next
      case False
      then have out: "out = o1 @ o2" "es' = e1 # es2" using Cons.prems(3) d c a(1) by simp_all
      have "length (take room (backlog e)) < room" using False a(2) by (metis length_map not_le)
      then have all: "take room (backlog e) = backlog e" "backlog e1 = []" using a(3) by simp_all
      have "k \<notin> event_key ` set o2" using IH new True by blast
      then have "data_of k o2 = []" by (intro data_of_none) auto
      then show ?thesis using out t g1 IH new o1 all True no by auto
    qed
  next
    case False
    have g1: "good k e1" using t False by (simp add: good_def)
    have o1: "data_of k o1 = []" using t False by (intro data_of_none) auto
    show ?thesis
    proof (cases "length o1 \<ge> room")
      case full: True
      then have "out = o1" "es' = (if erase then es else e1 # es)" using Cons.prems(3) d by simp_all
      then show ?thesis using t g1 rest dist new o1 False by auto
    next
      case more: False
      then have "out = o1 @ o2" "es' = (if erase then es2 else e1 # es2)" using Cons.prems(3) d c by simp_all
      then show ?thesis using t g1 IH new o1 False by auto
    qed
  qed
qed simp

lemma update_first_split:
  assumes "\<exists>e \<in> set es. P e"
  obtains us e vs where "es = us @ e # vs" "P e" "\<forall>u \<in> set us. \<not> P u" "update_first P f es = us @ f e # vs"
  using assms
proof (induction es arbitrary: thesis)
  case (Cons x xs)
  show ?case
  proof (cases "P x")
    case True
    then show ?thesis using Cons.prems(1) [of "[]" x xs] by simp
  next
    case False
    then have "\<exists>e \<in> set xs. P e" using Cons.prems(2) by simp
    then obtain us e vs where s: "xs = us @ e # vs" "P e" "\<forall>u \<in> set us. \<not> P u" "update_first P f xs = us @ f e # vs"
      using Cons.IH by blast
    then show ?thesis using Cons.prems(1) [of "x # us" e vs] False by simp
  qed
qed simp

text \<open>
  A history of one queue: registrations, triggers, reads, deletions and the end of the queue. It keeps the keys and
  data of the triggers that were accepted, the events that the reads delivered, and the fate of what is no longer
  held, in order: \<open>True\<close> for data that a read delivered, \<open>False\<close> for data that \<open>DeleteEvent\<close> or \<open>Close\<close> threw away.
\<close>

datatype queue_op = QAdd equeue_event | QTrigger nat int nat | QGet int u64 | QDelete nat int | QClose

record queue_sys =
  ex_queue :: equeue
  ex_posted :: "((nat \<times> int) \<times> int) list"
  ex_delivered :: "kernel_event list"
  ex_settled :: "(bool \<times> (nat \<times> int) \<times> int) list"

text \<open>What a queue holds and has not handed over.\<close>

definition undelivered :: "equeue_event list \<Rightarrow> ((nat \<times> int) \<times> int) list" where
  "undelivered es = concat (map (\<lambda>e. map (Pair (ekey e)) (backlog e)) es)"

fun queue_step :: "callbacks \<Rightarrow> queue_op \<Rightarrow> queue_sys \<Rightarrow> queue_sys" where
  "queue_step cb (QAdd e) y = y\<lparr>ex_queue := snd (add_event e (ex_queue y))\<rparr>"
| "queue_step cb (QTrigger ident filter' d) y =
     (case trigger_event cb ident filter' d (ex_queue y) of
        (r, q) \<Rightarrow> y\<lparr>ex_queue := q, ex_posted := ex_posted y @ (if r = OK then [((ident, filter'), to_intptr d)] else [])\<rparr>)"
| "queue_step cb (QGet num now_ns) y =
     (case get_triggered_events cb num now_ns (ex_queue y) of
        None \<Rightarrow> y
      | Some (ret, out, q) \<Rightarrow> y\<lparr>ex_queue := q, ex_delivered := ex_delivered y @ out,
          ex_settled := ex_settled y @ map (\<lambda>p. (True, event_key p, ke_data p)) out\<rparr>)"
| "queue_step cb (QDelete ident filter') y =
     (case delete_event ident filter' (ex_queue y) of
        (r, calls, q) \<Rightarrow> y\<lparr>ex_queue := q, ex_settled := ex_settled y @
          (if r = OK then map (Pair False) (filter (\<lambda>p. fst p = (ident, filter')) (undelivered (eq_events (ex_queue y)))) else [])\<rparr>)"
| "queue_step cb QClose y =
     (case close_equeue (ex_queue y) of
        (calls, q) \<Rightarrow> y\<lparr>ex_queue := q, ex_settled := ex_settled y @
          (if eq_closed (ex_queue y) then [] else map (Pair False) (undelivered (eq_events (ex_queue y))))\<rparr>)"

text \<open>An event as the calls of the guest register it; those with the key \<open>k\<close> are completion events.\<close>

definition registers :: "nat \<times> int \<Rightarrow> queue_op \<Rightarrow> bool" where
  "registers k p \<longleftrightarrow> (case p of QAdd e \<Rightarrow> \<not> ee_triggered e \<and> ee_pending e = [] \<and> (ekey e = k \<longrightarrow> ampr_ok e) | _ \<Rightarrow> True)"

definition empty_sys :: "string \<Rightarrow> nat \<Rightarrow> queue_sys" where
  "empty_sys name h = \<lparr>ex_queue = \<lparr>eq_events = [], eq_name = name, eq_handle = h, eq_closed = False\<rparr>, ex_posted = [], ex_delivered = [], ex_settled = []\<rparr>"

definition posted_data :: "nat \<times> int \<Rightarrow> ((nat \<times> int) \<times> int) list \<Rightarrow> int list" where
  "posted_data k ps = map snd (filter (\<lambda>p. fst p = k) ps)"

text \<open>The data of a key that has left the queue, and what of it was delivered.\<close>

definition settled_data :: "nat \<times> int \<Rightarrow> (bool \<times> (nat \<times> int) \<times> int) list \<Rightarrow> int list" where
  "settled_data k xs = map (\<lambda>x. snd (snd x)) (filter (\<lambda>x. fst (snd x) = k) xs)"

definition discards :: "nat \<times> int \<Rightarrow> queue_op \<Rightarrow> bool" where
  "discards k p \<longleftrightarrow> p = QDelete (fst k) (snd k) \<or> p = QClose"

lemma settled_simps [simp]:
  "settled_data k [] = []" "settled_data k (xs @ ys) = settled_data k xs @ settled_data k ys"
  "settled_data k (map (\<lambda>p. (True, event_key p, ke_data p)) out) = data_of k out"
  "filter fst (map (Pair False) ps) = []" "filter fst (map (\<lambda>p. (True, event_key p, ke_data p)) out) = map (\<lambda>p. (True, event_key p, ke_data p)) out"
  by (simp_all add: settled_data_def data_of_def filter_map comp_def)

lemma settled_undelivered:
  "settled_data k (map (Pair False) (undelivered es)) = backlog_of k es"
  "settled_data k (map (Pair False) (filter (\<lambda>p. fst p = j) (undelivered es))) = (if j = k then backlog_of k es else [])"
proof -
  have "map snd (filter (\<lambda>p. fst p = k) (undelivered es)) = backlog_of k es"
    by (induction es) (auto simp: undelivered_def filter_map comp_def)
  then show "settled_data k (map (Pair False) (undelivered es)) = backlog_of k es"
    "settled_data k (map (Pair False) (filter (\<lambda>p. fst p = j) (undelivered es))) = (if j = k then backlog_of k es else [])"
    by (auto simp: settled_data_def filter_map comp_def filter_empty_conv)
qed

definition queue_ok :: "nat \<times> int \<Rightarrow> queue_sys \<Rightarrow> bool" where
  "queue_ok k y \<longleftrightarrow> distinct (map ekey (eq_events (ex_queue y))) \<and>
     (\<forall>e \<in> set (eq_events (ex_queue y)). good k e) \<and>
     settled_data k (ex_settled y) @ backlog_of k (eq_events (ex_queue y)) = posted_data k (ex_posted y) \<and>
     settled_data k (filter fst (ex_settled y)) = data_of k (ex_delivered y)"

lemma same_key_ekey: "same_key (ke_ident (ee_event e)) (ke_filter (ee_event e)) e' \<longleftrightarrow> ekey e' = ekey e"
  "same_key ident filter' e' \<longleftrightarrow> ekey e' = (ident, filter')"
  by (simp_all add: same_key_def event_key_def)

lemma refresh_good:
  assumes "good k e" and "ekey e' = ekey e" and "ekey e' = k \<longrightarrow> ampr_ok e'"
  shows "good k (refresh_event e' e) \<and> ekey (refresh_event e' e) = ekey e \<and>
    backlog (refresh_event e' e) = backlog e"
proof -
  have k: "ekey (refresh_event e' e) = ekey e" by (simp add: refresh_event_def)
  have b: "backlog (refresh_event e' e) = backlog e" by (simp add: backlog_def refresh_event_def)
  have t: "tidy (refresh_event e' e)" using assms(1) by (simp add: good_def tidy_def refresh_event_def)
  have "ampr_ok (refresh_event e' e)" if "ekey e = k"
  proof -
    have a: "ampr_ok e" "ampr_ok e'" using that assms by (simp_all add: good_def)
    have d: "ee_deadline e' = 0" using a(2) by (simp add: ampr_ok_def)
    have p: "\<forall>p \<in> set (ee_pending e). ke_flags p = (EV_ADD OR EV_CLEAR) \<and> event_key p = k"
      using a(1) that by (simp add: ampr_ok_def)
    show ?thesis using a(1) d p that by (simp add: ampr_ok_def refresh_event_def)
  qed
  then show ?thesis using k b t by (simp add: good_def)
qed

lemma timers_keep:
  assumes "\<forall>e \<in> set es. good k e"
  shows "map ekey (trigger_expired_timers now_ns es) = map ekey es \<and>
    (\<forall>e \<in> set (trigger_expired_timers now_ns es). good k e) \<and>
    backlog_of k (trigger_expired_timers now_ns es) = backlog_of k es"
proof -
  let ?t = "\<lambda>e. if \<not> ee_triggered e \<and> ee_deadline e \<noteq> 0 \<and> ee_deadline e \<le> now_ns then e\<lparr>ee_triggered := True\<rparr> else e"
  have same: "?t e = e" if "good k e" "ekey e = k" for e using that by (simp add: good_def ampr_ok_def)
  have key: "ekey (?t e) = ekey e" for e by simp
  have g: "good k (?t e)" if "good k e" for e
    using that same [OF that] by (cases "ekey e = k") (simp_all add: good_def tidy_def)
  have "map ekey (map ?t es) = map ekey es" using key by simp
  moreover have "\<forall>e \<in> set (map ?t es). good k e" using assms g unfolding set_map ball_simps by blast
  moreover have "backlog_of k (map ?t es) = backlog_of k es"
    using assms
  proof (induction es)
    case (Cons e es)
    show ?case
    proof (cases "ekey e = k")
      case True
      then have "?t e = e" using same Cons.prems by (simp only: list.set_intros(1))
      then show ?thesis using Cons by (simp only: list.map(2) backlog_of_simps(2)) simp
    next
      case False
      then have "ekey (?t e) \<noteq> k" by (simp only: key) simp
      then show ?thesis using False Cons by (simp only: list.map(2) backlog_of_simps(2)) simp
    qed
  qed simp
  ultimately show ?thesis unfolding trigger_expired_timers_def by blast
qed

lemma closed_step: "eq_closed (ex_queue y) \<Longrightarrow> queue_step cb p y = y"
  by (cases p) (simp_all add: add_event_def trigger_event_def get_triggered_events_def delete_event_def close_equeue_def error_codes)

lemma live_step_ok:
  assumes cb: "callbacks_ok cb" and ok: "queue_ok k y" and fits: "registers k p" and live: "\<not> eq_closed (ex_queue y)"
  shows "queue_ok k (queue_step cb p y)"
proof (cases p)
  case (QAdd e)
  let ?es = "eq_events (ex_queue y)"
  have e: "\<not> ee_triggered e" "ee_pending e = []" "ekey e = k \<longrightarrow> ampr_ok e" using fits by (simp_all add: QAdd registers_def)
  let ?key = "same_key (ke_ident (ee_event e)) (ke_filter (ee_event e))"
  show ?thesis
  proof (cases "\<exists>e' \<in> set ?es. ?key e'")
    case True
    then obtain us e' vs where s: "?es = us @ e' # vs" "?key e'" "update_first ?key (refresh_event e) ?es = us @ refresh_event e e' # vs"
      by (rule update_first_split)
    have "ekey e = ekey e'" using s(2) by (simp only: same_key_ekey(1))
    moreover have "good k e'" using ok s(1) by (simp add: queue_ok_def)
    ultimately have "good k e'" "ekey e = ekey e'" by simp_all
    note r = refresh_good [OF this e(3)]
    show ?thesis using ok live r True s(1,3) by (cases "ekey e' = k") (simp_all add: QAdd add_event_def queue_ok_def)
  next
    case False
    then have "ekey e \<notin> ekey ` set ?es" by (auto simp: same_key_ekey(1))
    moreover have "good k e" "backlog e = []" using e by (simp_all add: good_def tidy_def backlog_def)
    ultimately show ?thesis using ok live False by (simp add: QAdd add_event_def queue_ok_def)
  qed
next
  case (QTrigger ident filter' d)
  let ?es = "eq_events (ex_queue y)"
  let ?key = "same_key ident filter'"
  let ?f = "\<lambda>e. case ee_trigger e of Some f \<Rightarrow> run_trigger cb f d e | None \<Rightarrow> e\<lparr>ee_triggered := True\<rparr>"
  show ?thesis
  proof (cases "\<exists>e' \<in> set ?es. ?key e'")
    case True
    then obtain us e vs where s: "?es = us @ e # vs" "?key e" "update_first ?key ?f ?es = us @ ?f e # vs"
      by (rule update_first_split)
    have g: "good k e" using ok s(1) by (simp add: queue_ok_def)
    have key: "ekey e = (ident, filter')" using s(2) by (simp only: same_key_ekey(2))
    have t: "tidy (?f e) \<and> ekey (?f e) = ekey e"
      using g run_trigger_tidy [OF cb, of e _ d] by (auto simp: good_def tidy_def split: option.split)
    have a: "good k (?f e) \<and> (ekey e = k \<longrightarrow> backlog (?f e) = backlog e @ [to_intptr d])"
    proof (cases "ekey e = k")
      case True
      then have "ampr_ok e" using g by (simp add: good_def)
      then have "?f e = ampr_event_trigger d e" by (simp add: ampr_ok_def)
      then show ?thesis using t ampr_post_ok [OF \<open>ampr_ok e\<close>] ampr_post_backlog [OF \<open>ampr_ok e\<close>] by (simp add: good_def)
    next
      case False
      then show ?thesis using t by (simp add: good_def)
    qed
    have step: "queue_step cb p y = y\<lparr>ex_queue := (ex_queue y)\<lparr>eq_events := us @ ?f e # vs\<rparr>,
        ex_posted := ex_posted y @ [((ident, filter'), to_intptr d)]\<rparr>"
      using live True s(3) by (simp add: QTrigger trigger_event_def)
    have nil: "backlog_of k us = [] \<and> backlog_of k vs = []" if "ekey e = k"
      using ok s(1) that by (auto simp: queue_ok_def intro!: backlog_of_absent)
    have "settled_data k (ex_settled y) @ backlog_of k (us @ ?f e # vs) = posted_data k (ex_posted y @ [((ident, filter'), to_intptr d)])"
    proof (cases "ekey e = k")
      case True
      then show ?thesis using ok s(1) a t nil key by (simp add: queue_ok_def posted_data_def)
    next
      case False
      then show ?thesis using ok s(1) t key by (simp add: queue_ok_def posted_data_def)
    qed
    moreover have "distinct (map ekey (us @ ?f e # vs))" using ok s(1) t by (simp add: queue_ok_def)
    moreover have "\<forall>e \<in> set (us @ ?f e # vs). good k e" using ok s(1) a by (simp add: queue_ok_def)
    ultimately show ?thesis using ok unfolding step queue_ok_def by simp
  next
    case False
    then show ?thesis using ok live by (simp add: QTrigger trigger_event_def queue_ok_def error_codes)
  qed
next
  case (QGet num now_ns)
  let ?es = "eq_events (ex_queue y)"
  show ?thesis
  proof (cases "num < 1")
    case True
    then show ?thesis using ok by (simp add: QGet get_triggered_events_def)
  next
    case False
    obtain out es' where c: "collect cb (nat num) (trigger_expired_timers now_ns ?es) = (out, es')"
      by (cases "collect cb (nat num) (trigger_expired_timers now_ns ?es)")
    have all: "\<forall>e \<in> set ?es. good k e" and dist: "distinct (map ekey ?es)" using ok by (simp_all add: queue_ok_def)
    note t = timers_keep [OF all, of now_ns]
    note r = collect_conserves [OF cb _ _ c, of k]
    have "distinct (map ekey es') \<and> (\<forall>e \<in> set es'. good k e) \<and> data_of k out @ backlog_of k es' = backlog_of k ?es"
      using r t dist by simp
    then show ?thesis using ok live c False by (simp add: QGet get_triggered_events_def queue_ok_def)
  qed
next
  case (QDelete ident filter')
  let ?es = "eq_events (ex_queue y)"
  let ?key = "same_key ident filter'"
  show ?thesis
  proof (cases "dropWhile (\<lambda>e. \<not> ?key e) ?es")
    case Nil
    then have "delete_event ident filter' (ex_queue y) = (KERNEL_ERROR_ENOENT, [], ex_queue y)"
      using live by (simp only: delete_event_def if_False list.case)
    then show ?thesis using ok by (simp add: QDelete error_codes)
  next
    case (Cons e vs)
    define us where "us = takeWhile (\<lambda>e. \<not> ?key e) ?es"
    have s: "?es = us @ e # vs" using takeWhile_dropWhile_id [of "\<lambda>e. \<not> ?key e" ?es] by (simp add: us_def Cons)
    have "?key e" using hd_dropWhile [of "\<lambda>e. \<not> ?key e" ?es] Cons by (metis list.distinct(1) list.sel(1))
    then have key: "ekey e = (ident, filter')" by (simp only: same_key_ekey(2))
    have nil: "backlog_of k us = [] \<and> backlog_of k vs = []" if "ekey e = k"
      using ok s that by (auto simp: queue_ok_def intro!: backlog_of_absent)
    define gone where "gone = map (Pair False) (filter (\<lambda>p. fst p = (ident, filter')) (undelivered ?es))"
    have step: "queue_step cb p y = y\<lparr>ex_queue := (ex_queue y)\<lparr>eq_events := us @ vs\<rparr>, ex_settled := ex_settled y @ gone\<rparr>"
      using live Cons by (simp add: QDelete delete_event_def us_def gone_def)
    have "settled_data k gone = (if ekey e = k then backlog_of k ?es else [])" "filter fst gone = []"
      unfolding gone_def settled_undelivered(2) key settled_simps by (rule refl)+
    moreover have "backlog_of k ?es = (if ekey e = k then backlog e else backlog_of k us @ backlog_of k vs)" using nil by (simp add: s)
    ultimately have "settled_data k gone @ backlog_of k (us @ vs) = backlog_of k ?es" "filter fst gone = []"
      using nil by (cases "ekey e = k"; simp)+
    moreover have "distinct (map ekey (us @ vs))" "\<forall>e \<in> set (us @ vs). good k e" using ok s by (simp_all add: queue_ok_def)
    ultimately show ?thesis using ok unfolding step queue_ok_def by simp
  qed
next
  case QClose
  then show ?thesis using ok live by (simp add: close_equeue_def queue_ok_def settled_undelivered)
qed

lemma queue_step_ok:
  assumes "callbacks_ok cb" and "queue_ok k y" and "registers k p"
  shows "queue_ok k (queue_step cb p y)"
  using live_step_ok [OF assms] assms(2) closed_step by (cases "eq_closed (ex_queue y)") simp_all

text \<open>Only a deletion of its key or the end of the queue throws data away.\<close>

lemma keeps_settled:
  "\<not> discards k p \<Longrightarrow> settled_data k (filter fst (ex_settled y)) = settled_data k (ex_settled y) \<Longrightarrow>
    settled_data k (filter fst (ex_settled (queue_step cb p y))) = settled_data k (ex_settled (queue_step cb p y))"
  by (cases p; cases k) (auto simp: discards_def settled_undelivered split: prod.split option.split)

text \<open>C14: Completions are delivered exactly once and in order, over any history of registrations, triggers, reads and
  deletions of a queue and its end. The data of the accepted triggers of a completion event, in their order, are what
  has left the queue followed by what the event still holds: none is lost, repeated or overtaken, whatever the size of
  the arrays. What has left the queue was delivered by a read or, only by a deletion of the event or the end of the
  queue, thrown away; the delivered part is what the guest's reads got. So without a deletion or a close the
  reads have delivered a prefix of the posted data, and all of it once no event is triggered.\<close>

theorem completions_exactly_once:
  assumes "callbacks_ok cb" and "\<forall>p \<in> set ops. registers k p"
    and "y = fold (queue_step cb) ops (empty_sys name h)"
  shows "settled_data k (ex_settled y) @ backlog_of k (eq_events (ex_queue y)) = posted_data k (ex_posted y) \<and>
    data_of k (ex_delivered y) = settled_data k (filter fst (ex_settled y)) \<and>
    ((\<forall>p \<in> set ops. \<not> discards k p) \<longrightarrow>
      data_of k (ex_delivered y) @ backlog_of k (eq_events (ex_queue y)) = posted_data k (ex_posted y) \<and>
      ((\<forall>e \<in> set (eq_events (ex_queue y)). \<not> ee_triggered e) \<longrightarrow> data_of k (ex_delivered y) = posted_data k (ex_posted y)))"
proof -
  have "queue_ok k (fold (queue_step cb) ops z)" if "queue_ok k z" for z
    using that assms(2) by (induction ops arbitrary: z) (simp_all add: queue_step_ok [OF assms(1)])
  moreover have "queue_ok k (empty_sys name h)" by (simp add: queue_ok_def empty_sys_def posted_data_def data_of_def)
  ultimately have ok: "queue_ok k y" using assms(3) by simp
  have keep: "settled_data k (filter fst (ex_settled (fold (queue_step cb) ops z))) = settled_data k (ex_settled (fold (queue_step cb) ops z))"
    if "\<forall>p \<in> set ops. \<not> discards k p" "settled_data k (filter fst (ex_settled z)) = settled_data k (ex_settled z)" for z
    using that by (induction ops arbitrary: z) (simp_all add: keeps_settled)
  have all: "data_of k (ex_delivered y) = settled_data k (ex_settled y)" if "\<forall>p \<in> set ops. \<not> discards k p"
    using keep [OF that, of "empty_sys name h"] ok assms(3) by (simp add: queue_ok_def empty_sys_def)
  have "backlog_of k es = []" if "\<forall>e \<in> set es. \<not> ee_triggered e" for es
    using that by (induction es) (simp_all add: backlog_def)
  then show ?thesis using ok all by (auto simp: queue_ok_def)
qed

lemma completions_exactly_once_witness:
  "\<exists>y. y = fold (queue_step \<lparr>cb_trigger = \<lambda>_ _ e. e, cb_reset = \<lambda>_ e. e\<rparr>)
       [QAdd (ampr_event 5 9), QTrigger 5 KERNEL_EVFILT_USER 1, QTrigger 5 KERNEL_EVFILT_USER 2, QGet 1 0,
        QTrigger 5 KERNEL_EVFILT_USER 3, QDelete 5 KERNEL_EVFILT_USER] (empty_sys ''q'' 1) \<and>
     posted_data (5, KERNEL_EVFILT_USER) (ex_posted y) = [1, 2, 3] \<and>
     settled_data (5, KERNEL_EVFILT_USER) (ex_settled y) @ backlog_of (5, KERNEL_EVFILT_USER) (eq_events (ex_queue y)) = [1, 2, 3] \<and>
     data_of (5, KERNEL_EVFILT_USER) (ex_delivered y) = settled_data (5, KERNEL_EVFILT_USER) (filter fst (ex_settled y))"
proof -
  let ?cb = "\<lparr>cb_trigger = \<lambda>_ _ e. e, cb_reset = \<lambda>_ e. e\<rparr>"
  let ?ops = "[QAdd (ampr_event 5 9), QTrigger 5 KERNEL_EVFILT_USER 1, QTrigger 5 KERNEL_EVFILT_USER 2, QGet 1 0,
        QTrigger 5 KERNEL_EVFILT_USER 3, QDelete 5 KERNEL_EVFILT_USER]"
  let ?y = "fold (queue_step ?cb) ?ops (empty_sys ''q'' 1)"
  have cb: "callbacks_ok ?cb" by (simp add: callbacks_ok_def)
  have reg: "\<forall>p \<in> set ?ops. registers (5, KERNEL_EVFILT_USER) p"
    using ampr_event_ok [of 5 9] by (simp add: registers_def ampr_event_def new_event_def)
  have key: "same_key 5 KERNEL_EVFILT_USER e \<longleftrightarrow> ekey e = (5, KERNEL_EVFILT_USER)" for e by (rule same_key_ekey(2))
  have step: "drain cb n e = (if n = 0 \<or> \<not> ee_triggered e then ([], False, e)
      else if ke_flags (ee_event e) AND EV_ONESHOT \<noteq> 0 then ([ee_event e], True, e)
      else case drain cb (n - 1) (after_delivery cb e) of (out, erase, e') \<Rightarrow> (ee_event e # out, erase, e'))" for cb n e
    by (cases n) simp_all
  have u: "uintptr 5 = 5" by (simp add: uintptr_def)
  have posted: "posted_data (5, KERNEL_EVFILT_USER) (ex_posted ?y) = [1, 2, 3]"
    by (simp add: empty_sys_def add_event_def trigger_event_def get_triggered_events_def ampr_event_def new_event_def
        u same_key_def ampr_event_trigger_def Let_def posted_data_def to_intptr_def I64_MAX_def step
        trigger_expired_timers_def after_delivery_def user_event_reset_def event_flags OK_def delete_event_def)
  note once = completions_exactly_once [OF cb reg refl, of "''q''" 1, unfolded posted]
  show ?thesis by (intro exI [of _ ?y] conjI refl posted conjunct1 [OF once] conjunct1 [OF conjunct2 [OF once]])
qed

end
