(* ===== verification/Bit_Array.thy ===== *)
theory Bit_Array
  imports Intervals "HOL-Library.Word"
begin

text \<open>
  The bit arrays of the GPU memory tracking (\<open>BitArray\<close> in \<open>common/bitArray.h\<close>): \<open>N\<close> bits in 64-bit words. An array is
  the list of its words, \<open>N\<close> is 64 times its length. The counting functions of \<open><bit>\<close> are \<open>countr_zero\<close> and its kin.
\<close>

unbundle bit_operations_syntax

type_synonym bit_words = "64 word list"

definition countr_zero :: "64 word \<Rightarrow> nat" where "countr_zero w = length (takeWhile (\<lambda>i. \<not> bit w i) [0..<64])"
definition countr_one :: "64 word \<Rightarrow> nat" where "countr_one w = length (takeWhile (\<lambda>i. bit w i) [0..<64])"
definition countl_zero :: "64 word \<Rightarrow> nat" where "countl_zero w = length (takeWhile (\<lambda>i. \<not> bit w (63 - i)) [0..<64])"
definition countl_one :: "64 word \<Rightarrow> nat" where "countl_one w = length (takeWhile (\<lambda>i. bit w (63 - i)) [0..<64])"

section \<open>Single bits and ranges\<close>

definition ba_get :: "bit_words \<Rightarrow> nat \<Rightarrow> bool" where
  "ba_get ws index \<longleftrightarrow> (ws ! (index div 64) AND push_bit (index mod 64) 1) \<noteq> 0"

definition ba_set :: "nat \<Rightarrow> bit_words \<Rightarrow> bit_words" where
  "ba_set index ws = ws[index div 64 := ws ! (index div 64) OR push_bit (index mod 64) 1]"

definition ba_unset :: "nat \<Rightarrow> bit_words \<Rightarrow> bit_words" where
  "ba_unset index ws = ws[index div 64 := ws ! (index div 64) AND NOT (push_bit (index mod 64) 1)]"

text \<open>
  The range operations change a first word, a last word and those between, or one word that is both. The functions tell what
  becomes of a word at an index.
\<close>

definition edit_words ::
  "nat \<Rightarrow> nat \<Rightarrow> (nat \<Rightarrow> 64 word \<Rightarrow> 64 word) \<Rightarrow> (nat \<Rightarrow> 64 word \<Rightarrow> 64 word) \<Rightarrow> (nat \<Rightarrow> 64 word \<Rightarrow> 64 word) \<Rightarrow>
   (nat \<Rightarrow> 64 word \<Rightarrow> 64 word) \<Rightarrow> bit_words \<Rightarrow> bit_words" where
  "edit_words first_word last_word only first between lst ws =
     (if first_word = last_word then ws[first_word := only first_word (ws ! first_word)]
      else
        let ws = ws[first_word := first first_word (ws ! first_word)];
            ws = fold (\<lambda>w ws. ws[w := between w (ws ! w)]) [first_word + 1..<last_word] ws
        in ws[last_word := lst last_word (ws ! last_word)])"

definition start_mask :: "nat \<Rightarrow> 64 word" where
  "start_mask start_bit = push_bit start_bit (NOT 0)"

definition end_mask :: "nat \<Rightarrow> 64 word" where
  "end_mask end_bit = (if end_bit = 63 then NOT 0 else push_bit (end_bit + 1) 1 - 1)"

definition ba_copy_range :: "bit_words \<Rightarrow> nat \<Rightarrow> nat \<Rightarrow> bit_words" where
  "ba_copy_range other start endd =
     (let zero = replicate (length other) 0
      in if start \<ge> endd \<or> endd > 64 * length other then zero
         else let sm = start_mask (start mod 64); em = end_mask ((endd - 1) mod 64)
              in edit_words (start div 64) ((endd - 1) div 64) (\<lambda>w _. other ! w AND sm AND em) (\<lambda>w _. other ! w AND sm)
                   (\<lambda>w _. other ! w) (\<lambda>w _. other ! w AND em) zero)"

definition ba_set_range :: "nat \<Rightarrow> nat \<Rightarrow> bit_words \<Rightarrow> bit_words" where
  "ba_set_range start endd ws =
     (if start \<ge> endd \<or> endd > 64 * length ws then ws
      else let sm = start_mask (start mod 64); em = end_mask ((endd - 1) mod 64)
           in edit_words (start div 64) ((endd - 1) div 64) (\<lambda>_ v. v OR (sm AND em)) (\<lambda>_ v. v OR sm) (\<lambda>_ _. NOT 0) (\<lambda>_ v. v OR em) ws)"

definition ba_unset_range :: "nat \<Rightarrow> nat \<Rightarrow> bit_words \<Rightarrow> bit_words" where
  "ba_unset_range start endd ws =
     (if start \<ge> endd \<or> endd > 64 * length ws then ws
      else let end_bit = (endd - 1) mod 64; sm = push_bit (start mod 64) 1 - 1;
               em = (if end_bit = 63 then 0 else NOT (push_bit (end_bit + 1) 1 - 1))
           in edit_words (start div 64) ((endd - 1) div 64) (\<lambda>_ v. v AND (sm OR em)) (\<lambda>_ v. v AND sm) (\<lambda>_ _. 0) (\<lambda>_ v. v AND em) ws)"

definition ba_clear :: "bit_words \<Rightarrow> bit_words" where "ba_clear ws = replicate (length ws) 0"
definition ba_fill :: "bit_words \<Rightarrow> bit_words" where "ba_fill ws = replicate (length ws) (NOT 0)"
definition ba_none :: "bit_words \<Rightarrow> bool" where "ba_none ws \<longleftrightarrow> fold (\<lambda>w combined. combined OR w) ws 0 = 0"
definition ba_xor :: "bit_words \<Rightarrow> bit_words \<Rightarrow> bit_words" where "ba_xor ws vs = map2 (\<lambda>w v. w XOR v) ws vs"
definition ba_not :: "bit_words \<Rightarrow> bit_words" where "ba_not ws = map (\<lambda>w. NOT w) ws"

section \<open>Runs of set bits\<close>

text \<open>The loop to the next word with a set bit, over the words after the current one, and the one that follows a run.\<close>

fun skip_zero :: "nat \<Rightarrow> 64 word \<Rightarrow> bit_words \<Rightarrow> (nat \<times> 64 word) option" where
  "skip_zero i w rest = (if w \<noteq> 0 then Some (i, w) else case rest of [] \<Rightarrow> None | v # vs \<Rightarrow> skip_zero (i + 1) v vs)"

fun run_end :: "nat \<Rightarrow> bit_words \<Rightarrow> nat \<Rightarrow> nat" where
  "run_end i [] n = n"
| "run_end i (w # ws) n = (if w \<noteq> NOT 0 then i * 64 + countr_one w else run_end (i + 1) ws n)"

definition ba_first_range_from :: "nat \<Rightarrow> bit_words \<Rightarrow> nat \<times> nat" where
  "ba_first_range_from start ws =
     (let n = 64 * length ws
      in if start \<ge> n then (n, n)
         else let wi = start div 64; word = ws ! wi AND push_bit (start mod 64) (NOT 0)
              in case skip_zero wi word (drop (wi + 1) ws) of
                   None \<Rightarrow> (n, n)
                 | Some (wi, word) \<Rightarrow>
                     let fst_bit = wi * 64 + countr_zero word; first_bit = fst_bit mod 64;
                         first_ones = countr_one (drop_bit first_bit (ws ! wi))
                     in if first_bit + first_ones < 64 then (fst_bit, fst_bit + first_ones)
                        else (fst_bit, run_end (wi + 1) (drop (wi + 1) ws) n))"

text \<open>The loops of the search from the end run over the words before the current one, the nearest first.\<close>

fun skip_zero_back :: "64 word \<Rightarrow> bit_words \<Rightarrow> (nat \<times> 64 word) option" where
  "skip_zero_back w before = (if w \<noteq> 0 then Some (length before, w) else case before of [] \<Rightarrow> None | v # vs \<Rightarrow> skip_zero_back v vs)"

fun run_start :: "bit_words \<Rightarrow> nat" where
  "run_start [] = 0"
| "run_start (w # ws) = (if w \<noteq> NOT 0 then (length ws + 1) * 64 - countl_one w else run_start ws)"

definition ba_last_range_from :: "nat \<Rightarrow> bit_words \<Rightarrow> nat \<times> nat" where
  "ba_last_range_from endd ws =
     (if endd = 0 then (0, 0)
      else let endd = min endd (64 * length ws); wi = (endd - 1) div 64; word = ws ! wi AND end_mask ((endd - 1) mod 64)
           in case skip_zero_back word (rev (take wi ws)) of
                None \<Rightarrow> (0, 0)
              | Some (wi, word) \<Rightarrow>
                  let empty_bits = countl_zero word; ones = countl_one (push_bit empty_bits word); lst = (wi + 1) * 64 - empty_bits
                  in if empty_bits + ones < 64 then (lst - ones, lst) else (run_start (rev (take wi ws)), lst))"

end
