(* ===== verification/Page_Manager.thy ===== *)
theory Page_Manager
  imports Prelude Bit_Array
begin

text \<open>
  The page manager (\<open>PageManager\<close> in \<open>graphics/host_gpu/pageManager.cpp\<close>): for each page of 4 KB of the guest's memory it
  counts the watchers of writes and those of every access, and keeps the protection of the page in the host at what the counts
  ask for. A page with access watchers cannot be touched, one with write watchers only cannot be written. Pages are kept in
  regions of 4 MB that are made when they are first watched. The protection of the host's pages is part of the state, changed by
  \<open>protect\<close>; where the host refuses, the program ends, so the model has only the calls that work. \<open>None\<close> is the program
  ended by \<open>Fatal\<close> or \<open>FailFast\<close>.
\<close>

definition TRACKER_PAGE_SIZE :: u64 where "TRACKER_PAGE_SIZE = 4096"
definition TRACKER_REGION_SIZE :: u64 where "TRACKER_REGION_SIZE = 4194304"
definition TRACKER_ADDRESS_SIZE :: u64 where "TRACKER_ADDRESS_SIZE = 1099511627776"
definition TRACKER_REGION_PAGES :: nat where "TRACKER_REGION_PAGES = TRACKER_REGION_SIZE div TRACKER_PAGE_SIZE"

definition guest_range_valid :: "u64 \<Rightarrow> u64 \<Rightarrow> bool" where
  "guest_range_valid address bytes \<longleftrightarrow> address \<noteq> 0 \<and> bytes \<noteq> 0 \<and> address < TRACKER_ADDRESS_SIZE \<and> bytes \<le> TRACKER_ADDRESS_SIZE - address"

datatype page_prot = NoAccess | ReadOnly | ReadWrite

record page_state =
  write_watchers :: nat
  access_watchers :: nat

definition blank_page :: page_state where
  "blank_page = \<lparr>write_watchers = 0, access_watchers = 0\<rparr>"

definition page_perms :: "page_state \<Rightarrow> page_prot" where
  "page_perms p = (if access_watchers p \<noteq> 0 then NoAccess else if write_watchers p \<noteq> 0 then ReadOnly else ReadWrite)"

text \<open>The counters are bytes; the overflow checks keep them at most 255 and 127. \<open>add_delta\<close> is for the deltas \<open>1\<close> (\<open>track\<close>) and \<open>-1\<close>.\<close>

definition add_delta :: "bool \<Rightarrow> bool \<Rightarrow> page_state \<Rightarrow> (nat \<times> page_state) option" where
  "add_delta track is_read p =
     (if is_read
      then if track then if access_watchers p = 255 then None
                         else Some (access_watchers p + 1, p\<lparr>access_watchers := access_watchers p + 1\<rparr>)
           else if access_watchers p = 0 then None
                else Some (access_watchers p - 1, p\<lparr>access_watchers := access_watchers p - 1\<rparr>)
      else if track then if write_watchers p = 127 then None
                         else Some (write_watchers p + 1, p\<lparr>write_watchers := write_watchers p + 1\<rparr>)
           else if write_watchers p = 0 then None
                else Some (write_watchers p - 1, p\<lparr>write_watchers := write_watchers p - 1\<rparr>))"

definition watcher_count :: "bool \<Rightarrow> page_state \<Rightarrow> nat" where
  "watcher_count is_read p = (if is_read then access_watchers p else write_watchers p)"

type_synonym page_region = "nat \<Rightarrow> page_state"
type_synonym host_pages = "nat \<Rightarrow> page_prot"

text \<open>A region is the array of its 1024 pages, by index; the host's pages are numbered through the address space.\<close>

definition protect :: "u64 \<Rightarrow> u64 \<Rightarrow> page_prot \<Rightarrow> host_pages \<Rightarrow> host_pages" where
  "protect vaddr bytes protection host =
     (\<lambda>page. if vaddr \<le> page * TRACKER_PAGE_SIZE \<and> page * TRACKER_PAGE_SIZE < vaddr + bytes then protection else host page)"

section \<open>The loop over the pages of a region\<close>

text \<open>
  Pages whose protection changes are collected into one call as long as the protection wanted stays the same; pages in between
  that already have it are taken in, but a call never reaches past the last page that changes.
\<close>

record watch_loop =
  wl_pages :: page_region
  wl_host :: host_pages
  wl_perms :: page_prot
  wl_range_begin :: nat
  wl_range_bytes :: u64
  wl_potential :: u64

definition release_pending :: "u64 \<Rightarrow> watch_loop \<Rightarrow> watch_loop" where
  "release_pending base_addr l =
     (if wl_range_bytes l \<noteq> 0
      then l\<lparr>wl_host := protect (base_addr + wl_range_begin l * TRACKER_PAGE_SIZE) (wl_range_bytes l) (wl_perms l) (wl_host l),
             wl_range_bytes := 0, wl_potential := 0\<rparr>
      else l)"

definition watch_page :: "bool \<Rightarrow> bool \<Rightarrow> bit_words option \<Rightarrow> u64 \<Rightarrow> nat \<Rightarrow> watch_loop \<Rightarrow> watch_loop option" where
  "watch_page track is_read wmask base_addr page_index l =
     (let page = wl_pages l page_index; update = (case wmask of None \<Rightarrow> True | Some ws \<Rightarrow> ba_get ws page_index); old_perms = page_perms page
      in do {
        (new_count, page) \<leftarrow> (if update then add_delta track is_read page else Some (watcher_count is_read page, page));
        let new_perms = page_perms page;
        let l = l\<lparr>wl_pages := (wl_pages l)(page_index := page)\<rparr>;
        let l = (if new_perms \<noteq> wl_perms l then (release_pending base_addr l)\<lparr>wl_perms := new_perms\<rparr>
                 else if wl_range_bytes l \<noteq> 0 then l\<lparr>wl_potential := wl_potential l + TRACKER_PAGE_SIZE\<rparr> else l);
        let watcher_edge = (track \<and> new_count = 1 \<or> \<not> track \<and> new_count = 0);
        Some (if update \<and> watcher_edge \<and> old_perms \<noteq> new_perms
              then let l = (if wl_range_bytes l = 0 then l\<lparr>wl_range_begin := page_index, wl_potential := TRACKER_PAGE_SIZE\<rparr> else l)
                   in l\<lparr>wl_range_bytes := wl_potential l\<rparr>
              else l)
      })"

fun watch_pages :: "bool \<Rightarrow> bool \<Rightarrow> bit_words option \<Rightarrow> u64 \<Rightarrow> nat list \<Rightarrow> watch_loop \<Rightarrow> watch_loop option" where
  "watch_pages track is_read wmask base_addr [] l = Some l"
| "watch_pages track is_read wmask base_addr (page_index # rest) l = do {
     l \<leftarrow> watch_page track is_read wmask base_addr page_index l;
     watch_pages track is_read wmask base_addr rest l
   }"

definition update_region_watchers ::
  "bool \<Rightarrow> bool \<Rightarrow> bit_words option \<Rightarrow> u64 \<Rightarrow> nat \<Rightarrow> nat \<Rightarrow> page_region \<Rightarrow> host_pages \<Rightarrow> (page_region \<times> host_pages) option" where
  "update_region_watchers track is_read wmask base_addr fst_page last_page region host =
     map_option (\<lambda>l. let l = release_pending base_addr l in (wl_pages l, wl_host l))
       (watch_pages track is_read wmask base_addr [fst_page..<last_page]
          \<lparr>wl_pages = region, wl_host = host, wl_perms = page_perms (region fst_page), wl_range_begin = 0, wl_range_bytes = 0,
           wl_potential = 0\<rparr>)"

section \<open>The page manager\<close>

record page_manager =
  pm_regions :: "nat \<rightharpoonup> page_region"
  pm_host :: host_pages

definition page_manager_new :: page_manager where
  "page_manager_new = \<lparr>pm_regions = Map.empty, pm_host = (\<lambda>_. ReadWrite)\<rparr>"

definition pm_find_region :: "u64 \<Rightarrow> page_manager \<Rightarrow> page_region option" where
  "pm_find_region vaddr pm = (if vaddr < TRACKER_ADDRESS_SIZE then pm_regions pm (vaddr div TRACKER_REGION_SIZE) else None)"

definition pm_get_or_create_region :: "u64 \<Rightarrow> page_manager \<Rightarrow> page_region \<times> page_manager" where
  "pm_get_or_create_region vaddr pm =
     (let index = vaddr div TRACKER_REGION_SIZE
      in case pm_regions pm index of
           Some region \<Rightarrow> (region, pm)
         | None \<Rightarrow> (\<lambda>_. blank_page, pm\<lparr>pm_regions := (pm_regions pm)(index \<mapsto> (\<lambda>_. blank_page))\<rparr>))"

text \<open>The region of an address, and the update of some of its pages.\<close>

definition pm_region_for :: "bool \<Rightarrow> u64 \<Rightarrow> page_manager \<Rightarrow> (page_region \<times> page_manager) option" where
  "pm_region_for track vaddr pm =
     (if track then Some (pm_get_or_create_region vaddr pm) else map_option (\<lambda>region. (region, pm)) (pm_find_region vaddr pm))"

definition pm_update_region :: "bool \<Rightarrow> bool \<Rightarrow> bit_words option \<Rightarrow> u64 \<Rightarrow> nat \<Rightarrow> nat \<Rightarrow> page_region \<Rightarrow> page_manager \<Rightarrow> page_manager option" where
  "pm_update_region track is_read wmask base_addr fst_page last_page region pm = do {
     (region, host) \<leftarrow> update_region_watchers track is_read wmask base_addr fst_page last_page region (pm_host pm);
     Some \<lparr>pm_regions = (pm_regions pm)(base_addr div TRACKER_REGION_SIZE \<mapsto> region), pm_host = host\<rparr>
   }"

definition page_start :: "u64 \<Rightarrow> u64" where
  "page_start vaddr = vaddr - vaddr mod TRACKER_PAGE_SIZE"

definition page_end :: "u64 \<Rightarrow> u64 \<Rightarrow> u64 option" where
  "page_end vaddr bytes = (if guest_range_valid vaddr bytes then Some (page_start (vaddr + bytes - 1) + TRACKER_PAGE_SIZE) else None)"

function update_chunks :: "bool \<Rightarrow> bool \<Rightarrow> u64 \<Rightarrow> u64 \<Rightarrow> page_manager \<Rightarrow> page_manager option" where
  "update_chunks track is_read chunk_begin endd pm =
     (if chunk_begin < endd
      then let chunk_end = min endd ((chunk_begin div TRACKER_REGION_SIZE + 1) * TRACKER_REGION_SIZE);
               region_base = chunk_begin div TRACKER_REGION_SIZE * TRACKER_REGION_SIZE;
               fst_page = (chunk_begin - region_base) div TRACKER_PAGE_SIZE; last_page = (chunk_end - region_base) div TRACKER_PAGE_SIZE
           in (case pm_region_for track chunk_begin pm of
                 None \<Rightarrow> None
               | Some (region, pm) \<Rightarrow>
                   (case pm_update_region track is_read None region_base fst_page last_page region pm of
                      None \<Rightarrow> None
                    | Some pm \<Rightarrow> update_chunks track is_read chunk_end endd pm))
      else Some pm)"
  by pat_completeness auto
termination
  by (relation "measure (\<lambda>(track, is_read, chunk_begin, endd, pm). endd - chunk_begin)")
    (auto simp: TRACKER_REGION_SIZE_def min_def dividend_less_div_times intro: diff_less_mono2)

declare update_chunks.simps [simp del]

definition update_page_watchers :: "bool \<Rightarrow> bool \<Rightarrow> u64 \<Rightarrow> u64 \<Rightarrow> page_manager \<Rightarrow> page_manager option" where
  "update_page_watchers track is_read vaddr bytes pm = do {
     endd \<leftarrow> page_end vaddr bytes;
     update_chunks track is_read (page_start vaddr) endd pm
   }"

definition update_page_watchers_for_region :: "bool \<Rightarrow> bool \<Rightarrow> u64 \<Rightarrow> bit_words \<Rightarrow> page_manager \<Rightarrow> page_manager option" where
  "update_page_watchers_for_region track is_read base_addr wmask pm =
     (if base_addr mod TRACKER_REGION_SIZE \<noteq> 0 \<or> base_addr \<ge> TRACKER_ADDRESS_SIZE \<or> TRACKER_REGION_SIZE > TRACKER_ADDRESS_SIZE - base_addr
      then None
      else let start_range = ba_first_range_from 0 wmask; end_range = ba_last_range_from (64 * length wmask) wmask;
               fst_page = fst start_range; last_page = snd end_range
           in if fst start_range = TRACKER_REGION_PAGES then None
              else if snd start_range = snd end_range
              then update_page_watchers track is_read (base_addr + fst_page * TRACKER_PAGE_SIZE) ((last_page - fst_page) * TRACKER_PAGE_SIZE) pm
              else do {
                (region, pm) \<leftarrow> pm_region_for track base_addr pm;
                pm_update_region track is_read (Some wmask) base_addr fst_page last_page region pm
              })"

end
