(* ===== verification/Bit_Array_Facts.thy ===== *)
theory Bit_Array_Facts
  imports Bit_Array
begin

text \<open>
  A bit array as the set of its set positions: what each operation does to the set (\<open>bits_set_range\<close>, \<open>bits_unset_range\<close>,
  \<open>bits_copy_range\<close>, \<open>bits_single\<close>, \<open>bits_whole\<close>), what the two searches find, and that iterating over an array lists the
  maximal runs of its set.
\<close>

unbundle bit_operations_syntax

section \<open>The bits as a set\<close>

definition bits :: "bit_words \<Rightarrow> nat set" where
  "bits ws = {i. i div 64 < length ws \<and> bit (ws ! (i div 64)) (i mod 64)}"

lemma bits_iff: "i \<in> bits ws \<longleftrightarrow> i < 64 * length ws \<and> bit (ws ! (i div 64)) (i mod 64)"
  by (auto simp: bits_def less_mult_imp_div_less)

lemma bits_bound: "bits ws \<subseteq> {0..<64 * length ws}"
  by (auto simp: bits_iff)

lemma bits_at: "k < 64 \<Longrightarrow> 64 * w + k \<in> bits ws \<longleftrightarrow> w < length ws \<and> bit (ws ! w) k"
  by (simp add: bits_def)

text \<open>Positions in words and positions in the array.\<close>

lemma le_by_words: "(a :: nat) \<le> b \<longleftrightarrow> a div 64 < b div 64 \<or> a div 64 = b div 64 \<and> a mod 64 \<le> b mod 64"
proof -
  define p q r s where "p = a div 64" and "q = b div 64" and "r = a mod 64" and "s = b mod 64"
  have "a = 64 * p + r" "b = 64 * q + s" "r < 64" "s < 64" by (simp_all add: p_def q_def r_def s_def)
  then have "a \<le> b \<longleftrightarrow> p < q \<or> p = q \<and> r \<le> s" by arith
  then show ?thesis by (simp only: p_def q_def r_def s_def)
qed

lemma bit_small: "bit (w :: 64 word) k \<Longrightarrow> k < 64"
  using bit_imp_le_length [of w k] by simp

lemma push_bit_minus_1: "push_bit n 1 - 1 = (mask n :: 64 word)"
  by (simp add: mask_eq_exp_minus_1 push_bit_of_1)

lemma bit_start_mask: "k < 64 \<Longrightarrow> bit (start_mask s) k \<longleftrightarrow> s \<le> k"
  by (auto simp: start_mask_def bit_simps)

lemma bit_end_mask: "k < 64 \<Longrightarrow> e < 64 \<Longrightarrow> bit (end_mask e) k \<longleftrightarrow> k \<le> e"
  unfolding end_mask_def push_bit_minus_1 by (auto simp: bit_simps)

text \<open>What becomes of each word.\<close>

lemma fold_between:
  "length (fold (\<lambda>w ws. ws[w := f w (ws ! w)]) [a..<b] ws) = length ws"
  "b \<le> length ws \<Longrightarrow> fold (\<lambda>w ws. ws[w := f w (ws ! w)]) [a..<b] ws ! w = (if a \<le> w \<and> w < b then f w (ws ! w) else ws ! w)"
proof (induction b)
  case (Suc b)
  { case 1
    show ?case using Suc(1) by simp }
  { case 2
    show ?case
    proof (cases "a \<le> b")
      case True
      with Suc(2) 2 Suc(1) show ?thesis by (auto simp: nth_list_update)
    qed auto }
qed simp_all

lemma edit_words_length [simp]: "length (edit_words fw lw a b c d ws) = length ws"
  by (simp add: edit_words_def Let_def fold_between)

lemma edit_words_nth:
  assumes "fw \<le> lw" and "lw < length ws"
  shows "edit_words fw lw a b c d ws ! w =
    (if w < fw \<or> lw < w then ws ! w
     else if fw = lw then a w (ws ! w) else if w = fw then b w (ws ! w) else if w = lw then d w (ws ! w) else c w (ws ! w))"
  using assms by (auto simp: edit_words_def Let_def fold_between nth_list_update)

text \<open>The words of a range, and the bits in them.\<close>

lemma in_range_by_words:
  fixes s e i :: nat
  assumes "s < e"
  shows "i \<in> {s..<e} \<longleftrightarrow>
    (s div 64 < i div 64 \<or> s div 64 = i div 64 \<and> s mod 64 \<le> i mod 64) \<and>
    (i div 64 < (e - 1) div 64 \<or> i div 64 = (e - 1) div 64 \<and> i mod 64 \<le> (e - 1) mod 64)"
proof -
  have "i \<in> {s..<e} \<longleftrightarrow> s \<le> i \<and> i \<le> e - 1" using assms by auto
  then show ?thesis by (simp only: le_by_words [of s i] le_by_words [of i "e - 1"])
qed

lemma range_words:
  assumes "s < e" and "e \<le> 64 * length ws"
  shows "s div 64 \<le> (e - 1) div 64" and "(e - 1) div 64 < length ws"
  using assms by (auto intro: div_le_mono less_mult_imp_div_less)

lemma bits_set_range:
  assumes "s < e" and "e \<le> 64 * length ws"
  shows "bits (ba_set_range s e ws) = bits ws \<union> {s..<e}" and "length (ba_set_range s e ws) = length ws"
proof -
  have op: "ba_set_range s e ws = edit_words (s div 64) ((e - 1) div 64)
      (\<lambda>_ v. v OR (start_mask (s mod 64) AND end_mask ((e - 1) mod 64))) (\<lambda>_ v. v OR start_mask (s mod 64)) (\<lambda>_ _. NOT 0)
      (\<lambda>_ v. v OR end_mask ((e - 1) mod 64)) ws"
    using assms by (simp add: ba_set_range_def Let_def)
  then show "length (ba_set_range s e ws) = length ws" by simp
  show "bits (ba_set_range s e ws) = bits ws \<union> {s..<e}"
  proof (rule set_eqI)
    fix i
    show "i \<in> bits (ba_set_range s e ws) \<longleftrightarrow> i \<in> bits ws \<union> {s..<e}"
      using range_words [OF assms]
      by (auto simp: bits_def op edit_words_nth in_range_by_words [OF assms(1)] bit_simps bit_start_mask bit_end_mask simp del: atLeastLessThan_iff)
  qed
qed

lemma bits_unset_range:
  assumes "s < e" and "e \<le> 64 * length ws"
  shows "bits (ba_unset_range s e ws) = bits ws - {s..<e}" and "length (ba_unset_range s e ws) = length ws"
proof -
  define em where "em = (if (e - 1) mod 64 = 63 then 0 else NOT (push_bit ((e - 1) mod 64 + 1) 1 - 1) :: 64 word)"
  have em: "bit em k \<longleftrightarrow> (e - 1) mod 64 < k" if "k < 64" for k
    using that unfolding em_def push_bit_minus_1 by (auto simp: bit_simps)
  have op: "ba_unset_range s e ws = edit_words (s div 64) ((e - 1) div 64)
      (\<lambda>_ v. v AND (mask (s mod 64) OR em)) (\<lambda>_ v. v AND mask (s mod 64)) (\<lambda>_ _. 0) (\<lambda>_ v. v AND em) ws"
    using assms unfolding ba_unset_range_def em_def push_bit_minus_1 by (simp add: Let_def)
  then show "length (ba_unset_range s e ws) = length ws" by simp
  show "bits (ba_unset_range s e ws) = bits ws - {s..<e}"
  proof (rule set_eqI)
    fix i
    show "i \<in> bits (ba_unset_range s e ws) \<longleftrightarrow> i \<in> bits ws - {s..<e}"
      using range_words [OF assms]
      by (auto simp: bits_def op edit_words_nth in_range_by_words [OF assms(1)] bit_simps em simp del: atLeastLessThan_iff)
  qed
qed

lemma bits_copy_range:
  assumes "s < e" and "e \<le> 64 * length ws"
  shows "bits (ba_copy_range ws s e) = bits ws \<inter> {s..<e}" and "length (ba_copy_range ws s e) = length ws"
proof -
  define z where "z = (replicate (length ws) 0 :: bit_words)"
  have z: "length z = length ws" "w < length ws \<Longrightarrow> z ! w = 0" for w by (simp_all add: z_def)
  have op: "ba_copy_range ws s e = edit_words (s div 64) ((e - 1) div 64)
      (\<lambda>w _. ws ! w AND start_mask (s mod 64) AND end_mask ((e - 1) mod 64)) (\<lambda>w _. ws ! w AND start_mask (s mod 64)) (\<lambda>w _. ws ! w)
      (\<lambda>w _. ws ! w AND end_mask ((e - 1) mod 64)) z"
    using assms by (simp add: ba_copy_range_def z_def Let_def)
  then show "length (ba_copy_range ws s e) = length ws" by (simp add: z)
  show "bits (ba_copy_range ws s e) = bits ws \<inter> {s..<e}"
  proof (rule set_eqI)
    fix i
    show "i \<in> bits (ba_copy_range ws s e) \<longleftrightarrow> i \<in> bits ws \<inter> {s..<e}"
      using range_words [OF assms]
      by (auto simp: bits_def op edit_words_nth z in_range_by_words [OF assms(1)] bit_simps bit_start_mask bit_end_mask simp del: atLeastLessThan_iff)
  qed
qed

lemma bits_single:
  assumes "i < 64 * length ws"
  shows "ba_get ws i \<longleftrightarrow> i \<in> bits ws" and "bits (ba_set i ws) = insert i (bits ws)" and "bits (ba_unset i ws) = bits ws - {i}"
proof -
  have i: "i div 64 < length ws" "i mod 64 < 64" using assms by (simp_all add: less_mult_imp_div_less)
  have same: "j = i" if "j div 64 = i div 64" "j mod 64 = i mod 64" for j :: nat
    using that by (metis div_mult_mod_eq)
  have same': "j = i" if "i div 64 = j div 64" "j mod 64 = i mod 64" for j :: nat
    using that same by simp
  have b: "bit (2 ^ (i mod 64) :: 64 word) k \<longleftrightarrow> k = i mod 64" for k
    using i(2) by (auto simp: bit_simps)
  show "ba_get ws i \<longleftrightarrow> i \<in> bits ws"
    using i by (simp add: ba_get_def bits_def push_bit_of_1 and_exp_eq_0_iff_not_bit)
  show "bits (ba_set i ws) = insert i (bits ws)"
    using i by (auto simp: ba_set_def push_bit_of_1 bits_def nth_list_update bit_or_iff b dest: same same')
  show "bits (ba_unset i ws) = bits ws - {i}"
    using i by (auto simp: ba_unset_def push_bit_of_1 bits_def nth_list_update bit_and_iff bit_not_iff b dest: same same' bit_small)
qed

lemma bits_whole:
  "bits (ba_clear ws) = {}" "bits (ba_fill ws) = {0..<64 * length ws}" "bits (ba_not ws) = {0..<64 * length ws} - bits ws"
  "length vs = length ws \<Longrightarrow> bits (ba_xor ws vs) = bits ws - bits vs \<union> (bits vs - bits ws)"
  by (auto simp: bits_def ba_clear_def ba_fill_def ba_not_def ba_xor_def bit_simps less_mult_imp_div_less div_less_iff_less_mult mult.commute)

lemma ba_none_iff: "ba_none ws \<longleftrightarrow> bits ws = {}"
proof -
  have "fold (\<lambda>w combined. combined OR w) ws a = 0 \<longleftrightarrow> a = 0 \<and> (\<forall>w \<in> set ws. w = 0)" for a
    by (induction ws arbitrary: a) (auto simp: or_eq_0_iff)
  then have "ba_none ws \<longleftrightarrow> (\<forall>w \<in> set ws. w = 0)" by (simp add: ba_none_def)
  also have "\<dots> \<longleftrightarrow> bits ws = {}"
  proof
    assume "bits ws = {}"
    then have "\<not> bit (ws ! w) k" if "w < length ws" for w k
      using that bits_at [of k w ws] bit_small [of "ws ! w" k] by blast
    then show "\<forall>w \<in> set ws. w = 0" by (metis bit_eq_iff bit_0_eq bot_apply bot_bool_def in_set_conv_nth)
  next
    assume zero: "\<forall>w \<in> set ws. w = 0"
    then have "ws ! w = 0" if "w < length ws" for w using that by simp
    then show "bits ws = {}" by (auto simp: bits_def)
  qed
  finally show ?thesis .
qed


section \<open>The runs\<close>

lemma takeWhile_count:
  assumes "n = length (takeWhile P [0..<m])"
  shows "n \<le> m" and "i < n \<Longrightarrow> P i" and "n < m \<Longrightarrow> \<not> P n"
proof -
  show "n \<le> m" using length_takeWhile_le [of P "[0..<m]"] assms by simp
  show "P i" if "i < n"
  proof -
    have "takeWhile P [0..<m] ! i = i" using that assms length_takeWhile_le [of P "[0..<m]"] by (simp add: takeWhile_nth)
    then show ?thesis using that assms nth_mem [of i "takeWhile P [0..<m]"] set_takeWhileD by metis
  qed
  show "\<not> P n" if "n < m" using that assms nth_length_takeWhile [of P "[0..<m]"] by simp
qed

lemma countr_zero_spec: "w \<noteq> 0 \<Longrightarrow> countr_zero w < 64 \<and> bit w (countr_zero w) \<and> (\<forall>k < countr_zero w. \<not> bit w k)"
proof -
  assume "w \<noteq> 0"
  note c = takeWhile_count [OF countr_zero_def [of w]]
  have "countr_zero w \<noteq> 64"
  proof
    assume "countr_zero w = 64"
    then have "\<not> bit w k" for k using c(2) [of k] bit_small [of w k] by auto
    then show False using \<open>w \<noteq> 0\<close> by (simp add: bit_eq_iff)
  qed
  with c show ?thesis by auto
qed

lemma countl_zero_spec: "w \<noteq> 0 \<Longrightarrow> countl_zero w < 64 \<and> bit w (63 - countl_zero w) \<and> (\<forall>k. 63 - countl_zero w < k \<longrightarrow> \<not> bit w k)"
proof -
  assume "w \<noteq> 0"
  note c = takeWhile_count [OF countl_zero_def [of w]]
  have above: "\<not> bit w k" if "63 - countl_zero w < k" for k
  proof (cases "k < 64")
    case True
    then have "63 - k < countl_zero w" using that by simp
    with c(2) [OF this] True show ?thesis by simp
  qed (use bit_small [of w k] in auto)
  have "countl_zero w \<noteq> 64"
  proof
    assume all: "countl_zero w = 64"
    have "\<not> bit w k" for k using c(2) [of "63 - k"] all bit_small [of w k] by (cases "k < 64") auto
    then show False using \<open>w \<noteq> 0\<close> by (simp add: bit_eq_iff)
  qed
  with c above show ?thesis by auto
qed

lemma countr_one_spec:
  "countr_one w \<le> 64" "k < countr_one w \<Longrightarrow> bit w k" "countr_one w < 64 \<Longrightarrow> \<not> bit w (countr_one w)"
  using takeWhile_count [OF countr_one_def [of w]] by auto

lemma countl_one_spec:
  "countl_one w \<le> 64" "k < countl_one w \<Longrightarrow> bit w (63 - k)" "countl_one w < 64 \<Longrightarrow> \<not> bit w (63 - countl_one w)"
  using takeWhile_count [OF countl_one_def [of w]] by auto

lemma countr_one_full: "w \<noteq> NOT 0 \<Longrightarrow> countr_one w < 64"
proof (rule ccontr)
  assume "w \<noteq> NOT 0" "\<not> countr_one w < 64"
  then have "bit w k" if "k < 64" for k using that countr_one_spec(2) [of k w] by simp
  then show False using \<open>w \<noteq> NOT 0\<close> by (auto simp: bit_eq_iff bit_simps)
qed

lemma countl_one_full: "w \<noteq> NOT 0 \<Longrightarrow> countl_one w < 64"
proof (rule ccontr)
  assume "w \<noteq> NOT 0" "\<not> countl_one w < 64"
  then have "bit w k" if "k < 64" for k using that countl_one_spec(2) [of "63 - k" w] by simp
  then show False using \<open>w \<noteq> NOT 0\<close> by (auto simp: bit_eq_iff bit_simps)
qed

lemma skip_zero_None: "skip_zero i w rest = None \<longleftrightarrow> w = 0 \<and> (\<forall>v \<in> set rest. v = 0)"
  by (induction i w rest rule: skip_zero.induct) (auto split: list.splits)

lemma skip_zero_Some:
  "skip_zero i w rest = Some (j, v) \<Longrightarrow>
     v \<noteq> 0 \<and> i \<le> j \<and> j \<le> i + length rest \<and> v = (w # rest) ! (j - i) \<and> (\<forall>m < j - i. (w # rest) ! m = 0)"
proof (induction i w rest rule: skip_zero.induct)
  case (1 i w rest)
  show ?case
  proof (cases "w = 0")
    case True
    then obtain u us where rest: "rest = u # us" "skip_zero (i + 1) u us = Some (j, v)" using 1(2) by (cases rest) auto
    from 1(1) [OF _ rest(1,2)] True have ih: "v \<noteq> 0" "i + 1 \<le> j" "j \<le> i + 1 + length us" "v = (u # us) ! (j - (i + 1))"
      "\<forall>m < j - (i + 1). (u # us) ! m = 0" by auto
    then obtain n where n: "j = i + 1 + n" by (auto simp: le_iff_add)
    have "\<forall>m < Suc n. (w # u # us) ! m = 0" using ih(5) n True by (auto simp: less_Suc_eq_0_disj)
    then show ?thesis using ih n rest(1) by simp
  qed (use 1(2) in auto)
qed

text \<open>What a search promises: nothing set before the run, everything set in it, and it cannot be extended.\<close>

definition is_run :: "nat set \<Rightarrow> nat \<Rightarrow> nat \<Rightarrow> bool" where
  "is_run S a b \<longleftrightarrow> a < b \<and> {a..<b} \<subseteq> S \<and> b \<notin> S"

lemma bits_in_word:
  assumes "w < length ws" and "64 * w \<le> j" and "j < 64 * w + 64"
  shows "j \<in> bits ws \<longleftrightarrow> bit (ws ! w) (j - 64 * w)"
  using bits_at [of "j - 64 * w" w ws] assms by simp

lemma run_end_spec:
  "drop i ws = vs \<Longrightarrow> i \<le> length ws \<Longrightarrow> r = run_end i vs (64 * length ws) \<Longrightarrow>
     64 * i \<le> r \<and> r \<le> 64 * length ws \<and> {64 * i..<r} \<subseteq> bits ws \<and> r \<notin> bits ws"
proof (induction vs arbitrary: i r)
  case Nil
  then show ?case by (auto simp: bits_iff)
next
  case (Cons v vs)
  have "i < length ws" using Cons.prems(1) by (metis drop_eq_Nil list.distinct(1) not_le)
  then have i: "i < length ws" "ws ! i = v" "drop (i + 1) ws = vs"
    using Cons.prems(1) Cons_nth_drop_Suc [of i ws] by auto
  show ?case
  proof (cases "v = NOT 0")
    case True
    have word: "{64 * i..<64 * (i + 1)} \<subseteq> bits ws"
      using bits_in_word [OF i(1)] i(2) True by (auto simp: bit_simps)
    from Cons.IH [OF i(3)] i(1) Cons.prems(3) True
    have ih: "64 * (i + 1) \<le> r" "r \<le> 64 * length ws" "{64 * (i + 1)..<r} \<subseteq> bits ws" "r \<notin> bits ws" by auto
    have "{64 * i..<r} = {64 * i..<64 * (i + 1)} \<union> {64 * (i + 1)..<r}" using ih(1) by auto
    with word ih show ?thesis by simp
  next
    case False
    then have r: "r = 64 * i + countr_one v" "countr_one v < 64" using Cons.prems(3) countr_one_full by auto
    have "{64 * i..<r} \<subseteq> bits ws" and "r \<notin> bits ws"
      using bits_in_word [OF i(1)] i(2) r countr_one_spec [where w = v] by auto
    then show ?thesis using r i(1) by auto
  qed
qed

lemma first_range_none:
  assumes start: "start < 64 * length ws" and none: "{start..<64 * length ws} \<inter> bits ws = {}"
  shows "ba_first_range_from start ws = (64 * length ws, 64 * length ws)"
proof -
  define wi where "wi = start div 64"
  have wi: "wi < length ws" using start by (simp add: wi_def less_mult_imp_div_less)
  have start_eq: "start = 64 * wi + start mod 64" by (simp add: wi_def)
  have zero: "bit (ws ! w) k \<Longrightarrow> 64 * w + k < start" if "w < length ws" for w k
  proof (rule ccontr)
    assume b: "bit (ws ! w) k" "\<not> 64 * w + k < start"
    then have "64 * w + k \<in> bits ws" using bits_at [OF bit_small] that by blast
    moreover have "64 * w + k < 64 * length ws" using that bit_small [OF b(1)] by simp
    ultimately show False using none b(2) by (simp add: disjoint_iff)
  qed
  have "ws ! wi AND push_bit (start mod 64) (NOT 0) = 0"
  proof (rule bit_eqI)
    fix k
    show "bit (ws ! wi AND push_bit (start mod 64) (NOT 0)) k = bit 0 k"
      using zero [OF wi, of k] start_eq by (auto simp: bit_simps)
  qed
  moreover have "\<forall>v \<in> set (drop (wi + 1) ws). v = 0"
  proof
    fix v assume "v \<in> set (drop (wi + 1) ws)"
    then obtain m where "m < length (drop (wi + 1) ws)" "drop (wi + 1) ws ! m = v" unfolding in_set_conv_nth by blast
    then have m: "m + (wi + 1) < length ws" "v = ws ! (wi + 1 + m)" by (auto simp: nth_drop)
    have "\<not> bit v k" for k using zero [of "wi + 1 + m" k] m by (auto simp: wi_def)
    then show "v = 0" by (simp add: bit_eq_iff)
  qed
  ultimately have "skip_zero wi (ws ! wi AND push_bit (start mod 64) (NOT 0)) (drop (wi + 1) ws) = None"
    by (simp only: skip_zero_None simp_thms)
  then show ?thesis using start by (simp add: ba_first_range_from_def Let_def wi_def del: skip_zero.simps)
qed

lemma first_range_some:
  assumes start: "start < 64 * length ws" and x: "x \<in> bits ws" "start \<le> x"
  shows "\<exists>a b. ba_first_range_from start ws = (a, b) \<and> start \<le> a \<and> {start..<a} \<inter> bits ws = {} \<and> is_run (bits ws) a b"
proof -
  define wi where "wi = start div 64"
  define m where "m = (push_bit (start mod 64) (NOT 0) :: 64 word)"
  have wi: "wi < length ws" using start by (simp add: wi_def less_mult_imp_div_less)
  have s: "start = 64 * wi + start mod 64" by (simp add: wi_def)
  have bm: "bit (ws ! wi AND m) k \<longleftrightarrow> bit (ws ! wi) k \<and> start \<le> 64 * wi + k" for k
    using bit_small [of "ws ! wi" k] s by (auto simp: m_def bit_simps)
  define ws' where "ws' = (ws ! wi AND m) # drop (wi + 1) ws"
  have ws': "bit (ws' ! n) k \<longleftrightarrow> bit (ws ! (wi + n)) k \<and> start \<le> 64 * (wi + n) + k" if "wi + n < length ws" for n k
    using that s by (cases n) (auto simp: ws'_def bm)
  show ?thesis
  proof (cases "skip_zero wi (ws ! wi AND m) (drop (wi + 1) ws)")
    case None
    have "bit (ws ! (x div 64)) (x mod 64)" "x div 64 < length ws" using x(1) by (auto simp: bits_def)
    moreover have "wi \<le> x div 64" using x(2) by (simp add: wi_def div_le_mono)
    ultimately have "ws' ! (x div 64 - wi) \<noteq> 0" using ws' [of "x div 64 - wi" "x mod 64"] x(2) by auto
    moreover have "x div 64 - wi < length ws'" using \<open>x div 64 < length ws\<close> wi by (simp add: ws'_def)
    ultimately have "\<exists>v \<in> set ws'. v \<noteq> 0" using nth_mem by blast
    then show ?thesis using None by (simp only: skip_zero_None ws'_def) auto
  next
    case (Some jv)
    obtain j v where jv: "jv = (j, v)" by (cases jv)
    from skip_zero_Some [OF Some [unfolded jv]] wi
    have j: "v \<noteq> 0" "wi \<le> j" "j < length ws" "v = ws' ! (j - wi)" and before: "\<And>n. n < j - wi \<Longrightarrow> ws' ! n = 0"
      by (auto simp: ws'_def)
    define c where "c = countr_zero v"
    have c: "c < 64" "bit v c" "\<And>k. k < c \<Longrightarrow> \<not> bit v k" using countr_zero_spec [OF j(1)] by (auto simp: c_def)
    define a where "a = 64 * j + c"
    have v: "bit v k \<longleftrightarrow> bit (ws ! j) k \<and> start \<le> 64 * j + k" for k using ws' [of "j - wi" k] j by simp
    have a: "start \<le> a" "a \<in> bits ws" using c(2) v [of c] bits_at [OF c(1)] j(3) by (auto simp: a_def)
    have empty: "y \<notin> bits ws" if y: "start \<le> y" "y < a" for y
    proof
      assume yb: "y \<in> bits ws"
      have "wi \<le> y div 64" using y(1) by (simp add: wi_def div_le_mono)
      have split: "y = 64 * (y div 64) + y mod 64" by simp
      show False
      proof (cases "y div 64 = j")
        case True
        then have "y mod 64 < c" using y(2) split by (simp add: a_def)
        with c(3) v [of "y mod 64"] yb y(1) split True show False by (auto simp: bits_def)
      next
        case False
        have "y div 64 \<le> j" using y(2) c(1) by (simp add: a_def) 
        then have lt: "y div 64 - wi < j - wi" using False \<open>wi \<le> y div 64\<close> by simp
        have "bit (ws' ! (y div 64 - wi)) (y mod 64)"
          using ws' [of "y div 64 - wi" "y mod 64"] \<open>wi \<le> y div 64\<close> yb y(1) by (auto simp: bits_def)
        with before [OF lt] show False by simp
      qed
    qed
    define o1 where "o1 = countr_one (drop_bit c (ws ! j))"
    have o1: "k < o1 \<Longrightarrow> bit (ws ! j) (c + k)" for k
      using countr_one_spec(2) [of k "drop_bit c (ws ! j)"] by (simp add: o1_def bit_drop_bit_eq)
    have o1_end: "c + o1 < 64 \<Longrightarrow> \<not> bit (ws ! j) (c + o1)"
      using countr_one_spec(3) [of "drop_bit c (ws ! j)"] by (simp add: o1_def bit_drop_bit_eq)
    have o1_pos: "0 < o1"
    proof (rule ccontr)
      assume "\<not> 0 < o1"
      then show False using o1_end c v [of c] by simp
    qed
    have am: "a mod 64 = c" using c(1) by (simp add: a_def)
    have ran: "ba_first_range_from start ws =
        (if c + o1 < 64 then (a, a + o1) else (a, run_end (j + 1) (drop (j + 1) ws) (64 * length ws)))"
      unfolding ba_first_range_from_def Let_def wi_def [symmetric] m_def [symmetric] Some jv option.case prod.case c_def [symmetric]
      using start am by (simp add: a_def o1_def mult.commute)
    show ?thesis
    proof (cases "c + o1 < 64")
      case True
      have "{a..<a + o1} \<subseteq> bits ws" and "a + o1 \<notin> bits ws"
        using bits_in_word [OF j(3)] o1 o1_end True o1_pos by (auto simp: a_def nat_le_iff_add ac_simps)
      then have "is_run (bits ws) a (a + o1)" using o1_pos by (simp add: is_run_def)
      then show ?thesis using ran True a empty by auto
    next
      case False
      define r where "r = run_end (j + 1) (drop (j + 1) ws) (64 * length ws)"
      have r: "64 * (j + 1) \<le> r" "{64 * (j + 1)..<r} \<subseteq> bits ws" "r \<notin> bits ws"
        using run_end_spec [OF refl _ r_def] j(3) by auto
      have "{a..<64 * (j + 1)} \<subseteq> bits ws"
      proof
        fix y assume y: "y \<in> {a..<64 * (j + 1)}"
        then obtain k where k: "y = a + k" by (auto simp: nat_le_iff_add)
        then have "k < o1" using y False by (simp add: a_def)
        then show "y \<in> bits ws" using bits_in_word [OF j(3), of y] o1 [of k] y k by (simp add: a_def)
      qed
      moreover have "{a..<r} = {a..<64 * (j + 1)} \<union> {64 * (j + 1)..<r}" using r(1) c(1) by (auto simp: a_def)
      ultimately have "is_run (bits ws) a r" using r c(1) by (simp add: is_run_def a_def)
      then show ?thesis using ran False a empty by (auto simp: r_def)
    qed
  qed
qed

text \<open>The search from the end.\<close>

lemma skip_zero_back_None: "skip_zero_back w vs = None \<longleftrightarrow> w = 0 \<and> (\<forall>v \<in> set vs. v = 0)"
  by (induction w vs rule: skip_zero_back.induct) (auto split: list.splits)

lemma skip_zero_back_Some:
  "skip_zero_back w vs = Some (j, v) \<Longrightarrow>
     v \<noteq> 0 \<and> j \<le> length vs \<and> v = (rev vs @ [w]) ! j \<and> (\<forall>m. j < m \<and> m \<le> length vs \<longrightarrow> (rev vs @ [w]) ! m = 0)"
proof (induction w vs rule: skip_zero_back.induct)
  case (1 w vs)
  show ?case
  proof (cases "w = 0")
    case True
    then obtain u us where vs: "vs = u # us" "skip_zero_back u us = Some (j, v)" using 1(2) by (cases vs) auto
    from 1(1) [OF _ vs(1,2)] True have ih: "v \<noteq> 0" "j \<le> length us" "v = (rev us @ [u]) ! j"
      "\<And>m. j < m \<and> m \<le> length us \<Longrightarrow> (rev us @ [u]) ! m = 0" by auto
    have last: "(rev vs @ [w]) ! m = (if m = length vs then w else (rev us @ [u]) ! m)" if "m \<le> length vs" for m
      using that vs(1) by (auto simp: nth_append)
    show ?thesis using ih vs(1) True last by auto
  next
    case False
    then show ?thesis using 1(2) by (auto simp: nth_append)
  qed
qed

lemma run_start_spec:
  "i \<le> length ws \<Longrightarrow> r = run_start (rev (take i ws)) \<Longrightarrow>
     r \<le> 64 * i \<and> {r..<64 * i} \<subseteq> bits ws \<and> (r = 0 \<or> r - 1 \<notin> bits ws)"
proof (induction i arbitrary: r)
  case (Suc i)
  have i: "i < length ws" using Suc.prems(1) by simp
  have tk: "rev (take (Suc i) ws) = ws ! i # rev (take i ws)" "length (rev (take i ws)) = i"
    using i by (simp_all add: take_Suc_conv_app_nth)
  show ?case
  proof (cases "ws ! i = NOT 0")
    case True
    have word: "{64 * i..<64 * Suc i} \<subseteq> bits ws"
      using bits_in_word [OF i] True by (auto simp: bit_simps)
    have "r = run_start (rev (take i ws))" using Suc.prems(2) tk True by simp
    from Suc.IH [OF _ this] i have ih: "r \<le> 64 * i" "{r..<64 * i} \<subseteq> bits ws" "r = 0 \<or> r - 1 \<notin> bits ws" by auto
    have "{r..<64 * Suc i} = {r..<64 * i} \<union> {64 * i..<64 * Suc i}" using ih(1) by auto
    then show ?thesis using word ih by auto
  next
    case False
    define c where "c = countl_one (ws ! i)"
    have c: "c < 64" "\<not> bit (ws ! i) (63 - c)" "\<And>k. k < c \<Longrightarrow> bit (ws ! i) (63 - k)"
      using countl_one_full [OF False] countl_one_spec [where w = "ws ! i"] by (auto simp: c_def)
    have r: "r = 64 * i + (64 - c)" using Suc.prems(2) tk False c(1) by (simp add: c_def)
    have "{r..<64 * Suc i} \<subseteq> bits ws"
    proof
      fix y assume y: "y \<in> {r..<64 * Suc i}"
      then have "y - 64 * i < 64" "63 - (63 - (y - 64 * i)) = y - 64 * i" "63 - (y - 64 * i) < c" using r c(1) by auto
      then show "y \<in> bits ws" using bits_in_word [OF i, of y] c(3) [of "63 - (y - 64 * i)"] y r by auto
    qed
    moreover have "r - 1 \<notin> bits ws" using bits_in_word [OF i, of "r - 1"] c(1,2) r by simp
    ultimately show ?thesis using r by simp
  qed
qed simp

lemma last_range_none:
  assumes "ws \<noteq> []" and none: "\<And>y. y < endd \<Longrightarrow> y \<notin> bits ws"
  shows "ba_last_range_from endd ws = (0, 0)"
proof (cases "endd = 0")
  case True
  then show ?thesis by (simp add: ba_last_range_from_def)
next
  case False
  define e where "e = min endd (64 * length ws)"
  have e: "0 < e" "e \<le> endd" "e \<le> 64 * length ws" using False assms(1) by (auto simp: e_def)
  define wi where "wi = (e - 1) div 64"
  have wi: "wi < length ws" using e by (simp add: wi_def less_mult_imp_div_less)
  have e1: "e - 1 = 64 * wi + (e - 1) mod 64" by (simp add: wi_def)
  have zero: "\<not> bit (ws ! w) k" if "w < length ws" "64 * w + k < e" for w k
    using bits_at [OF bit_small, of "ws ! w" k w ws] none [of "64 * w + k"] that e(2) by auto
  have "ws ! wi AND end_mask ((e - 1) mod 64) = 0"
  proof (rule bit_word_eqI)
    fix k assume k: "k < LENGTH(64)"
    have le: "k \<le> (e - 1) mod 64 \<Longrightarrow> 64 * wi + k < e" using e1 e(1) by linarith
    from k show "bit (ws ! wi AND end_mask ((e - 1) mod 64)) k = bit 0 k"
      using zero [OF wi, of k] le e(1) by (auto simp: bit_simps bit_end_mask)
  qed
  moreover have "\<forall>v \<in> set (rev (take wi ws)). v = 0"
  proof
    fix v assume "v \<in> set (rev (take wi ws))"
    then obtain m where m: "m < wi" "v = ws ! m" using wi by (auto simp: in_set_conv_nth)
    have "64 * m + 64 \<le> 64 * wi" "64 * wi \<le> e - 1" using m(1) e1 by linarith+
    then have "k < 64 \<Longrightarrow> 64 * m + k < e" for k using e(1) by linarith
    then have "\<not> bit v k" for k using zero [of m k] m wi bit_small [of v k] by auto
    then show "v = 0" by (simp add: bit_eq_iff)
  qed
  ultimately have "skip_zero_back (ws ! wi AND end_mask ((e - 1) mod 64)) (rev (take wi ws)) = None"
    by (simp only: skip_zero_back_None simp_thms)
  then show ?thesis using False
    unfolding ba_last_range_from_def Let_def e_def [symmetric] wi_def [symmetric] by (simp del: skip_zero_back.simps)
qed

lemma last_range_some:
  assumes x: "x \<in> bits ws" "x < endd"
  shows "\<exists>a b. ba_last_range_from endd ws = (a, b) \<and> b \<le> endd \<and> {b..<endd} \<inter> bits ws = {} \<and> a < b \<and> {a..<b} \<subseteq> bits ws \<and>
    (a = 0 \<or> a - 1 \<notin> bits ws)"
proof -
  define e where "e = min endd (64 * length ws)"
  have e: "x < e" "e \<le> endd" "e \<le> 64 * length ws" using x by (auto simp: e_def bits_iff)
  define wi where "wi = (e - 1) div 64"
  define m where "m = end_mask ((e - 1) mod 64)"
  have wi: "wi < length ws" using e by (simp add: wi_def less_mult_imp_div_less)
  have e1: "e - 1 = 64 * wi + (e - 1) mod 64" by (simp add: wi_def)
  have bm: "bit (ws ! wi AND m) k \<longleftrightarrow> bit (ws ! wi) k \<and> 64 * wi + k < e" for k
    using bit_small [of "ws ! wi" k] e1 e(1) by (cases "k < 64") (auto simp: m_def bit_and_iff bit_end_mask)
  define ws' where "ws' = take wi ws @ [ws ! wi AND m]"
  have ws': "bit (ws' ! n) k \<longleftrightarrow> bit (ws ! n) k \<and> 64 * n + k < e" if "n \<le> wi" "k < 64" for n k
    using that wi e1 by (auto simp: ws'_def nth_append bm)
  have len: "length (rev (take wi ws)) = wi" using wi by simp
  show ?thesis
  proof (cases "skip_zero_back (ws ! wi AND m) (rev (take wi ws))")
    case None
    have "x div 64 \<le> wi" using e(1) unfolding wi_def by (intro div_le_mono) simp
    then have "ws' ! (x div 64) \<noteq> 0" using ws' [of "x div 64" "x mod 64"] x(1) e(1) by (auto simp: bits_def)
    moreover have "x div 64 < length ws'" using \<open>x div 64 \<le> wi\<close> wi by (simp add: ws'_def)
    ultimately have "\<exists>v \<in> set ws'. v \<noteq> 0" using nth_mem by blast
    then show ?thesis using None by (simp only: skip_zero_back_None ws'_def) auto
  next
    case (Some jv)
    obtain j v where jv: "jv = (j, v)" by (cases jv)
    from skip_zero_back_Some [OF Some [unfolded jv]]
    have j: "v \<noteq> 0" "j \<le> wi" "v = ws' ! j" and after: "\<And>n. j < n \<Longrightarrow> n \<le> wi \<Longrightarrow> ws' ! n = 0"
      unfolding len rev_rev_ident ws'_def by auto
    have jl: "j < length ws" using j(2) wi by simp
    define c where "c = countl_zero v"
    have c: "c < 64" "bit v (63 - c)" "\<And>k. 63 - c < k \<Longrightarrow> \<not> bit v k" using countl_zero_spec [OF j(1)] by (auto simp: c_def)
    define l where "l = (j + 1) * 64 - c"
    have l: "l = 64 * j + (64 - c)" using c(1) by (simp add: l_def)
    have v: "bit v k \<longleftrightarrow> bit (ws ! j) k \<and> 64 * j + k < e" if "k < 64" for k using ws' [OF j(2) that] j(3) by simp
    have "bit (ws ! j) (63 - c)" "64 * j + (63 - c) < e" using c(2) v [of "63 - c"] by auto
    then have le: "l \<le> e" using l c(1) by simp
    have empty: "y \<notin> bits ws" if y: "l \<le> y" "y < endd" for y
    proof
      assume yb: "y \<in> bits ws"
      then have ye: "y < e" using y(2) by (simp add: e_def bits_iff)
      have yw: "y div 64 \<le> wi" using ye unfolding wi_def by (intro div_le_mono) simp
      have split: "y = 64 * (y div 64) + y mod 64" by simp
      have bit': "bit (ws' ! (y div 64)) (y mod 64)" using ws' [OF yw, of "y mod 64"] yb ye by (auto simp: bits_def)
      show False
      proof (cases "y div 64 = j")
        case True
        then have "63 - c < y mod 64" using y(1) split l c(1) by simp
        with c(3) bit' True j(3) show False by simp
      next
        case False
        have "j \<le> y div 64" using y(1) l c(1) by simp
        with False after [OF _ yw] bit' show False by simp
      qed
    qed
    define o1 where "o1 = countl_one (push_bit c v)"
    have pb: "bit (push_bit c v) (63 - k) \<longleftrightarrow> c + k \<le> 63 \<and> bit v (63 - (c + k))" if "k < 64" for k
      using that by (auto simp: bit_push_bit_iff le_diff_conv2 diff_diff_left ac_simps)
    have o1: "c + o1 \<le> 64" "\<And>k. k < o1 \<Longrightarrow> bit v (63 - (c + k))" "c + o1 < 64 \<Longrightarrow> \<not> bit v (63 - (c + o1))"
    proof -
      have sp: "o1 \<le> 64" "\<And>k. k < o1 \<Longrightarrow> bit (push_bit c v) (63 - k)" "o1 < 64 \<Longrightarrow> \<not> bit (push_bit c v) (63 - o1)"
        using countl_one_spec [where w = "push_bit c v"] by (auto simp: o1_def)
      have all: "c + k \<le> 63 \<and> bit v (63 - (c + k))" if "k < o1" for k using sp(1) sp(2) [OF that] pb [of k] that by simp
      show "c + o1 \<le> 64"
      proof (cases o1)
        case (Suc k)
        then show ?thesis using all [of k] by simp
      qed (use c(1) in simp)
      show "bit v (63 - (c + k))" if "k < o1" for k using all [OF that] by simp
      show "\<not> bit v (63 - (c + o1))" if "c + o1 < 64" using sp(3) pb [of o1] that by simp
    qed
    have o1_pos: "0 < o1"
    proof (rule ccontr)
      assume "\<not> 0 < o1"
      then show False using o1(3) c(1,2) by simp
    qed
    have inw: "{l - o1..<l} \<subseteq> bits ws"
    proof
      fix y assume y: "y \<in> {l - o1..<l}"
      then have k: "l - 1 - y < o1" "63 - (c + (l - 1 - y)) = y - 64 * j" "64 * j \<le> y" "y < 64 * j + 64"
        using l c(1) o1(1) by auto
      then have "bit v (y - 64 * j)" using o1(2) [OF k(1)] by simp
      then show "y \<in> bits ws" using bits_in_word [OF jl k(3,4)] v [of "y - 64 * j"] k(3,4) by simp
    qed
    have "e \<noteq> 0" "endd \<noteq> 0" using e x by auto
    then have ran: "ba_last_range_from endd ws = (if c + o1 < 64 then (l - o1, l) else (run_start (rev (take j ws)), l))"
      unfolding ba_last_range_from_def Let_def e_def [symmetric] wi_def [symmetric] m_def [symmetric] Some jv option.case prod.case
        c_def [symmetric] o1_def [symmetric] l_def [symmetric] by simp
    have rest: "l \<le> endd" "{l..<endd} \<inter> bits ws = {}" using le e(2) empty by auto
    show ?thesis
    proof (cases "c + o1 < 64")
      case True
      have "l - o1 - 1 = 64 * j + (63 - (c + o1))" "l - o1 < l" using True l o1_pos by auto
      moreover have "\<not> bit (ws ! j) (63 - (c + o1))"
        using o1(3) [OF True] v [of "63 - (c + o1)"] le l True by auto
      ultimately have "l - o1 - 1 \<notin> bits ws" using bits_in_word [OF jl, of "l - o1 - 1"] by simp
      then show ?thesis using ran True rest inw o1_pos l c(1) by auto
    next
      case False
      define r where "r = run_start (rev (take j ws))"
      have r: "r \<le> 64 * j" "{r..<64 * j} \<subseteq> bits ws" "r = 0 \<or> r - 1 \<notin> bits ws"
        using run_start_spec [OF _ r_def] jl by auto
      have "l - o1 = 64 * j" using False o1(1) l c(1) by simp
      then have "{r..<l} \<subseteq> bits ws" using inw r(1,2) ivl_disj_un_two(3) [of r "64 * j" l] l by auto
      then show ?thesis using ran False rest r l c(1) by (auto simp: r_def)
    qed
  qed
qed

section \<open>Iteration over the runs\<close>

text \<open>Where a search arrives: past all of the array, or at the end of a run after \<open>start\<close>.\<close>

lemma first_range_cases:
  obtains (nothing) "ba_first_range_from start ws = (64 * length ws, 64 * length ws)" "bits ws \<inter> {start..} = {}"
  | (run) a b where "ba_first_range_from start ws = (a, b)" "start \<le> a" "a < b" "b \<le> 64 * length ws" "{a..<b} \<subseteq> bits ws" "b \<notin> bits ws"
      "bits ws \<inter> {start..<a} = {}"
proof (cases "\<exists>x \<in> bits ws. start \<le> x")
  case True
  then obtain x where x: "x \<in> bits ws" "start \<le> x" by blast
  then have "start < 64 * length ws" by (simp add: bits_iff)
  from first_range_some [OF this x] obtain a b where r: "ba_first_range_from start ws = (a, b)" "start \<le> a"
    "{start..<a} \<inter> bits ws = {}" "a < b" "{a..<b} \<subseteq> bits ws" "b \<notin> bits ws" by (auto simp: is_run_def)
  have "b - 1 \<in> bits ws" using r(4,5) by (simp add: subset_iff)
  then have "b \<le> 64 * length ws" using r(4) by (auto simp: bits_iff)
  then show thesis using r run by blast
next
  case False
  have "ba_first_range_from start ws = (64 * length ws, 64 * length ws)"
  proof (cases "start < 64 * length ws")
    case True
    then show ?thesis using False by (intro first_range_none) auto
  qed (simp add: ba_first_range_from_def Let_def)
  moreover have "bits ws \<inter> {start..} = {}" using False by auto
  ultimately show thesis by (rule nothing)
qed

text \<open>
  A range-based \<open>for\<close>: from the search at \<open>start\<close> to searches at the ends of the runs found, until the range is that of
  \<open>end()\<close>, \<open>(N, N)\<close>.
\<close>

function ba_ranges_from :: "bit_words \<Rightarrow> nat \<Rightarrow> (nat \<times> nat) list" where
  "ba_ranges_from ws start =
     (let r = ba_first_range_from start ws
      in if r = (64 * length ws, 64 * length ws) then [] else r # ba_ranges_from ws (snd r))"
  by pat_completeness auto
termination
proof (relation "measure (\<lambda>(ws, start). 64 * length ws - start)", simp)
  fix ws start r
  assume r: "r = ba_first_range_from start ws" "r \<noteq> (64 * length ws, 64 * length ws)"
  then show "((ws, snd r), ws, start) \<in> measure (\<lambda>(ws, start). 64 * length ws - start)"
    by (cases rule: first_range_cases [of start ws]) auto
qed

declare ba_ranges_from.simps [simp del]

definition ba_ranges :: "bit_words \<Rightarrow> (nat \<times> nat) list" where
  "ba_ranges ws = ba_ranges_from ws 0"

lemma ba_ranges_from_spec:
  "apart (ba_ranges_from ws start) \<and> bytes_of (ba_ranges_from ws start) = bits ws \<inter> {start..} \<and>
   (\<forall>p \<in> set (ba_ranges_from ws start). start \<le> fst p)"
proof (induction ws start rule: ba_ranges_from.induct)
  case (1 ws start)
  show ?case
  proof (cases rule: first_range_cases [of start ws])
    case nothing
    then show ?thesis by (simp add: ba_ranges_from.simps [of ws start])
  next
    case (run a b)
    then have ne: "(a, b) \<noteq> (64 * length ws, 64 * length ws)" by auto
    then have ran: "ba_ranges_from ws start = (a, b) # ba_ranges_from ws b"
      using run(1) by (simp add: ba_ranges_from.simps [of ws start] Let_def)
    from 1 [OF run(1) [symmetric] ne]
    have ih: "apart (ba_ranges_from ws b)" "bytes_of (ba_ranges_from ws b) = bits ws \<inter> {b..}"
      "\<forall>p \<in> set (ba_ranges_from ws b). b \<le> fst p" by simp_all
    have "b < fst p" if "p \<in> set (ba_ranges_from ws b)" for p
    proof -
      have "fst p < snd p" using apart_nonempty [OF ih(1) that] .
      then have "fst p \<in> bytes_of (ba_ranges_from ws b)" using that by (auto simp: bytes_of_iff)
      then show ?thesis using ih(2) run(6) by (auto simp: le_less)
    qed
    then have "apart ((a, b) # ba_ranges_from ws b)" using ih(1) run(3) by simp
    moreover have "{a..<b} \<union> bits ws \<inter> {b..} = bits ws \<inter> {start..}"
    proof -
      have "{start..} = {start..<a} \<union> {a..<b} \<union> {b..}" using run(2,3) by auto
      then show ?thesis using run(5,7) by auto
    qed
    moreover have "\<forall>p \<in> set ((a, b) # ba_ranges_from ws b). start \<le> fst p" using ih(3) run(2,3) by auto
    ultimately show ?thesis by (simp add: ran ih(2))
  qed
qed

lemma ba_ranges_apart: "apart (ba_ranges ws)" and bytes_of_ba_ranges: "bytes_of (ba_ranges ws) = bits ws"
  using ba_ranges_from_spec [of ws 0] by (auto simp: ba_ranges_def)

text \<open>C24: Going through a bit array lists the runs of its set bits: the ranges are in order, none is empty, no two touch, and a
  position lies in one of them exactly when its bit is set. The scan by words (masking the first word, counting zeros and ones,
  carrying a run over full words) agrees with looking at the bits one by one.\<close>
theorem bit_array_ranges:
  "apart (ba_ranges ws) \<and> bytes_of (ba_ranges ws) = {i. i < 64 * length ws \<and> ba_get ws i}"
proof -
  have "i \<in> bits ws \<longleftrightarrow> i < 64 * length ws \<and> ba_get ws i" for i
    using bits_single(1) [of i ws] bits_iff [of i ws] by blast
  then show ?thesis by (simp add: ba_ranges_apart bytes_of_ba_ranges set_eq_iff)
qed

end
