(* ===== verification/Memory_Tracker.thy ===== *)
theory Memory_Tracker
  imports Page_Manager Bit_Array_Facts
begin

text \<open>
  The tracking of guest memory shared with the GPU: \<open>RegionManager\<close> (\<open>graphics/host_gpu/regionManager.h\<close>), which says for each page
  of a region of 4 MB whether the CPU or the GPU has written it last, and \<open>MemoryTracker\<close> (\<open>memoryTracker.h\<close>, \<open>memoryTracker.cpp\<close>),
  which has a region manager for each region in use. A change of the dirty pages is turned into watchers of the page manager, so
  that the host stops the guest where its access has to be noticed. \<open>None\<close> is the program ended by \<open>EXIT\<close>.

  The work on a region is done under its lock, so it is one step here; the functions that callers pass are lists of what they
  are called with, except the flush of \<open>InvalidateRegion\<close>, which calls the tracker again and is a function on its state.
\<close>

datatype dirty_source = Cpu | Gpu

record region =
  rm_cpu_dirty :: bit_words
  rm_gpu_dirty :: bit_words
  rm_writable :: bit_words
  rm_readable :: bit_words

definition region_manager_new :: region where
  "region_manager_new =
     (let blank = replicate (TRACKER_REGION_PAGES div 64) 0
      in \<lparr>rm_cpu_dirty = ba_fill blank, rm_gpu_dirty = blank, rm_writable = ba_fill blank, rm_readable = ba_fill blank\<rparr>)"

definition rm_bits :: "dirty_source \<Rightarrow> region \<Rightarrow> bit_words" where
  "rm_bits source r = (case source of Cpu \<Rightarrow> rm_cpu_dirty r | Gpu \<Rightarrow> rm_gpu_dirty r)"

definition rm_set_bits :: "dirty_source \<Rightarrow> bit_words \<Rightarrow> region \<Rightarrow> region" where
  "rm_set_bits source ws r = (case source of Cpu \<Rightarrow> r\<lparr>rm_cpu_dirty := ws\<rparr> | Gpu \<Rightarrow> r\<lparr>rm_gpu_dirty := ws\<rparr>)"

definition get_page_range :: "u64 \<Rightarrow> u64 \<Rightarrow> u64 \<Rightarrow> (nat \<times> nat) option" where
  "get_page_range cpu_addr vaddr bytes =
     (if bytes = 0 \<or> vaddr < cpu_addr \<or> vaddr \<ge> cpu_addr + TRACKER_REGION_SIZE \<or> bytes > cpu_addr + TRACKER_REGION_SIZE - vaddr
      then None
      else let offset = vaddr - cpu_addr in Some (offset div TRACKER_PAGE_SIZE, (offset + bytes + TRACKER_PAGE_SIZE - 1) div TRACKER_PAGE_SIZE))"

definition rm_is_modified :: "dirty_source \<Rightarrow> u64 \<Rightarrow> u64 \<Rightarrow> u64 \<Rightarrow> region \<Rightarrow> bool option" where
  "rm_is_modified source cpu_addr offset bytes r = do {
     (start, endd) \<leftarrow> get_page_range cpu_addr (cpu_addr + offset) bytes;
     Some (\<not> ba_none (ba_copy_range (rm_bits source r) start endd))
   }"

definition update_cpu_protection :: "bool \<Rightarrow> u64 \<Rightarrow> region \<Rightarrow> page_manager \<Rightarrow> (region \<times> page_manager) option" where
  "update_cpu_protection track cpu_addr r pm =
     (let changed = ba_xor (rm_cpu_dirty r) (rm_writable r); r = r\<lparr>rm_writable := rm_cpu_dirty r\<rparr>
      in if ba_none changed then Some (r, pm)
         else map_option (Pair r) (update_page_watchers_for_region track False cpu_addr changed pm))"

definition update_gpu_protection :: "bool \<Rightarrow> u64 \<Rightarrow> region \<Rightarrow> page_manager \<Rightarrow> (region \<times> page_manager) option" where
  "update_gpu_protection track cpu_addr r pm =
     (let readable = ba_not (rm_gpu_dirty r); changed = ba_xor readable (rm_readable r); r = r\<lparr>rm_readable := readable\<rparr>
      in if ba_none changed then Some (r, pm)
         else map_option (Pair r) (update_page_watchers_for_region track True cpu_addr changed pm))"

definition rm_change_state ::
  "dirty_source \<Rightarrow> bool \<Rightarrow> u64 \<Rightarrow> u64 \<Rightarrow> u64 \<Rightarrow> region \<Rightarrow> page_manager \<Rightarrow> (region \<times> page_manager) option" where
  "rm_change_state source enable cpu_addr vaddr bytes r pm = do {
     (start, endd) \<leftarrow> get_page_range cpu_addr vaddr bytes;
     if source = Cpu \<and> enable \<and> \<not> ba_none (ba_copy_range (rm_gpu_dirty r) start endd) then None
     else if source = Gpu \<and> enable \<and> \<not> ba_none (ba_copy_range (rm_cpu_dirty r) start endd) then None
     else let ws = rm_bits source r;
              r = rm_set_bits source (if enable then ba_set_range start endd ws else ba_unset_range start endd ws) r
          in if source = Cpu then update_cpu_protection (\<not> enable) cpu_addr r pm else update_gpu_protection enable cpu_addr r pm
   }"

definition rm_ranges :: "u64 \<Rightarrow> bit_words \<Rightarrow> (u64 \<times> u64) list" where
  "rm_ranges cpu_addr ws =
     map (\<lambda>(start, endd). (cpu_addr + start * TRACKER_PAGE_SIZE, (endd - start) * TRACKER_PAGE_SIZE)) (ba_ranges ws)"

definition rm_for_each_modified_range ::
  "dirty_source \<Rightarrow> bool \<Rightarrow> u64 \<Rightarrow> u64 \<Rightarrow> u64 \<Rightarrow> region \<Rightarrow> page_manager \<Rightarrow> ((u64 \<times> u64) list \<times> region \<times> page_manager) option" where
  "rm_for_each_modified_range source clear cpu_addr vaddr bytes r pm = do {
     (start, endd) \<leftarrow> get_page_range cpu_addr vaddr bytes;
     let modified = ba_copy_range (rm_bits source r) start endd;
     let r = (if clear then rm_set_bits source (ba_unset_range start endd (rm_bits source r)) r else r);
     (r, pm) \<leftarrow> (if \<not> clear then Some (r, pm)
                 else if source = Cpu then update_cpu_protection True cpu_addr r pm
                 else update_gpu_protection False cpu_addr r pm);
     Some (rm_ranges cpu_addr modified, r, pm)
   }"

section \<open>The regions of the tracker\<close>

record tracker =
  tk_regions :: "nat \<rightharpoonup> region"
  tk_pages :: page_manager

definition tracker_new :: tracker where
  "tracker_new = \<lparr>tk_regions = Map.empty, tk_pages = page_manager_new\<rparr>"

definition tk_get_or_create_region :: "nat \<Rightarrow> tracker \<Rightarrow> tracker" where
  "tk_get_or_create_region index t =
     (if tk_regions t index \<noteq> None then t else t\<lparr>tk_regions := (tk_regions t)(index \<mapsto> region_manager_new)\<rparr>)"

text \<open>
  \<open>Iterate\<close> calls a function for each region of a range that exists, or that it makes, with the part of the range in it, until one
  says to stop. The function has its own results in \<open>acc\<close>. The offset is always below the region's size, so \<open>bytes\<close> is not 0.
\<close>

type_synonym 'a region_func = "nat \<Rightarrow> region \<Rightarrow> u64 \<Rightarrow> u64 \<Rightarrow> 'a \<Rightarrow> tracker \<Rightarrow> (bool \<times> 'a \<times> tracker) option"

function iterate :: "bool \<Rightarrow> 'a region_func \<Rightarrow> nat \<Rightarrow> u64 \<Rightarrow> u64 \<Rightarrow> 'a \<Rightarrow> tracker \<Rightarrow> (bool \<times> 'a \<times> tracker) option" where
  "iterate create func index offset remaining acc t =
     (let bytes = min (TRACKER_REGION_SIZE - offset) remaining
      in if remaining = 0 \<or> bytes = 0 then Some (False, acc, t)
         else let t = (if tk_regions t index = None \<and> create then tk_get_or_create_region index t else t)
              in case tk_regions t index of
                   None \<Rightarrow> iterate create func (index + 1) 0 (remaining - bytes) acc t
                 | Some r \<Rightarrow>
                     (case func index r offset bytes acc t of
                        None \<Rightarrow> None
                      | Some (stop, acc, t) \<Rightarrow>
                          if stop then Some (True, acc, t) else iterate create func (index + 1) 0 (remaining - bytes) acc t))"
  by pat_completeness auto
termination
  by (relation "measure (\<lambda>(create, func, index, offset, remaining, acc, t). remaining)") auto

declare iterate.simps [simp del]

definition tk_iterate :: "bool \<Rightarrow> 'a region_func \<Rightarrow> u64 \<Rightarrow> u64 \<Rightarrow> 'a \<Rightarrow> tracker \<Rightarrow> (bool \<times> 'a \<times> tracker) option" where
  "tk_iterate create func vaddr bytes acc t =
     (if guest_range_valid vaddr bytes
      then iterate create func (vaddr div TRACKER_REGION_SIZE) (vaddr mod TRACKER_REGION_SIZE) bytes acc t
      else None)"

text \<open>The region of an index, and what becomes of it.\<close>

abbreviation tk_addr :: "nat \<Rightarrow> u64" where "tk_addr index \<equiv> index * TRACKER_REGION_SIZE"

definition tk_put :: "nat \<Rightarrow> region \<Rightarrow> page_manager \<Rightarrow> tracker \<Rightarrow> tracker" where
  "tk_put index r pm t = t\<lparr>tk_regions := (tk_regions t)(index \<mapsto> r), tk_pages := pm\<rparr>"

definition tk_query :: "dirty_source \<Rightarrow> unit region_func" where
  "tk_query source index r offset bytes acc t = map_option (\<lambda>modified. (modified, acc, t)) (rm_is_modified source (tk_addr index) offset bytes r)"

definition tk_change :: "dirty_source \<Rightarrow> bool \<Rightarrow> 'a region_func" where
  "tk_change source enable index r offset bytes acc t =
     map_option (\<lambda>(r, pm). (False, acc, tk_put index r pm t))
       (rm_change_state source enable (tk_addr index) (tk_addr index + offset) bytes r (tk_pages t))"

definition tk_collect :: "dirty_source \<Rightarrow> bool \<Rightarrow> (u64 \<times> u64) list region_func" where
  "tk_collect source clear index r offset bytes acc t =
     map_option (\<lambda>(ranges, r, pm). (False, acc @ ranges, tk_put index r pm t))
       (rm_for_each_modified_range source clear (tk_addr index) (tk_addr index + offset) bytes r (tk_pages t))"

definition is_region_cpu_modified :: "u64 \<Rightarrow> u64 \<Rightarrow> tracker \<Rightarrow> (bool \<times> tracker) option" where
  "is_region_cpu_modified vaddr bytes t = map_option (\<lambda>(m, _, t). (m, t)) (tk_iterate True (tk_query Cpu) vaddr bytes () t)"

definition is_region_gpu_modified :: "u64 \<Rightarrow> u64 \<Rightarrow> tracker \<Rightarrow> (bool \<times> tracker) option" where
  "is_region_gpu_modified vaddr bytes t = map_option (\<lambda>(m, _, t). (m, t)) (tk_iterate False (tk_query Gpu) vaddr bytes () t)"

definition mark_region_as_cpu_modified :: "u64 \<Rightarrow> u64 \<Rightarrow> tracker \<Rightarrow> tracker option" where
  "mark_region_as_cpu_modified vaddr bytes t = map_option (\<lambda>(_, _, t). t) (tk_iterate True (tk_change Cpu True) vaddr bytes () t)"

definition mark_region_as_gpu_modified :: "u64 \<Rightarrow> u64 \<Rightarrow> tracker \<Rightarrow> tracker option" where
  "mark_region_as_gpu_modified vaddr bytes t = map_option (\<lambda>(_, _, t). t) (tk_iterate True (tk_change Gpu True) vaddr bytes () t)"

definition unmark_region_as_gpu_modified :: "u64 \<Rightarrow> u64 \<Rightarrow> tracker \<Rightarrow> tracker option" where
  "unmark_region_as_gpu_modified vaddr bytes t = map_option (\<lambda>(_, _, t). t) (tk_iterate False (tk_change Gpu False) vaddr bytes () t)"

definition untrack_memory :: "u64 \<Rightarrow> u64 \<Rightarrow> tracker \<Rightarrow> tracker option" where
  "untrack_memory vaddr bytes t = do {
     (dirty, _, t) \<leftarrow> tk_iterate False (tk_query Gpu) vaddr bytes () t;
     if dirty then None else map_option (\<lambda>(_, _, t). t) (tk_iterate False (tk_change Cpu True) vaddr bytes () t)
   }"

text \<open>
  In a region with pages the GPU wrote the flush is called, and is what makes the pages the CPU's again. The flush calls the
  tracker and has a state of its own, \<open>acc\<close>.
\<close>

definition tk_invalidate :: "('a \<Rightarrow> tracker \<Rightarrow> ('a \<times> tracker) option) \<Rightarrow> 'a region_func" where
  "tk_invalidate on_flush index r offset bytes acc t =
     (case rm_is_modified Gpu (tk_addr index) offset bytes r of
        None \<Rightarrow> None
      | Some should_flush \<Rightarrow>
          if should_flush then map_option (\<lambda>(acc, t). (False, acc, t)) (on_flush acc t)
          else map_option (\<lambda>(r, pm). (False, acc, tk_put index r pm t))
                 (rm_change_state Cpu True (tk_addr index) (tk_addr index + offset) bytes r (tk_pages t)))"

definition invalidate_region :: "u64 \<Rightarrow> u64 \<Rightarrow> ('a \<Rightarrow> tracker \<Rightarrow> ('a \<times> tracker) option) \<Rightarrow> 'a \<Rightarrow> tracker \<Rightarrow> ('a \<times> tracker) option" where
  "invalidate_region vaddr bytes on_flush acc t =
     map_option (\<lambda>(_, acc, t). (acc, t)) (tk_iterate False (tk_invalidate on_flush) vaddr bytes acc t)"

text \<open>The ranges given to \<open>preflight\<close>, those given to \<open>func\<close>, and the state after.\<close>

definition for_each_download_range :: "bool \<Rightarrow> u64 \<Rightarrow> u64 \<Rightarrow> tracker \<Rightarrow> ((u64 \<times> u64) list \<times> (u64 \<times> u64) list \<times> tracker) option" where
  "for_each_download_range clear vaddr bytes t = do {
     (_, preflight, t) \<leftarrow> tk_iterate False (tk_collect Gpu False) vaddr bytes [] t;
     (_, ranges, t) \<leftarrow> tk_iterate False (tk_collect Gpu False) vaddr bytes [] t;
     t \<leftarrow> (if clear then map_option (\<lambda>(_, _, t). t) (tk_iterate False (tk_collect Gpu True) vaddr bytes [] t) else Some t);
     Some (preflight, ranges, t)
   }"

text \<open>The ranges given to \<open>range_func\<close>, then the upload itself, then the pages the GPU is about to write become its own.\<close>

definition for_each_upload_range :: "u64 \<Rightarrow> u64 \<Rightarrow> bool \<Rightarrow> tracker \<Rightarrow> ((u64 \<times> u64) list \<times> tracker) option" where
  "for_each_upload_range vaddr bytes is_written t = do {
     (_, _, t) \<leftarrow> tk_iterate True (\<lambda>_ _ _ _ acc t. Some (False, acc, t)) vaddr bytes () t;
     (_, ranges, t) \<leftarrow> tk_iterate False (tk_collect Cpu True) vaddr bytes [] t;
     t \<leftarrow> (if is_written then map_option (\<lambda>(_, _, t). t) (tk_iterate False (tk_change Gpu True) vaddr bytes () t) else Some t);
     Some (ranges, t)
   }"

end
