(* ===== verification/Gpu_Ownership.thy ===== *)
theory Gpu_Ownership
  imports Memory_Tracker Range_Set
begin

text \<open>
  Who has the current contents of guest memory, as \<open>BufferCache\<close> keeps it (\<open>renderer/cache/bufferCache.cpp\<close>): the memory tracker, by
  pages, and \<open>m_gpu_modified_ranges\<close>, the exact bytes the GPU has written. Modelled is what the cache does to these two when a
  buffer is obtained, when guest memory that the GPU wrote is read or written, and when buffers are given up. The buffers of the
  host, the copies on the GPU and the bookkeeping of buffers (their creation, joining and the order of last use) are not: where the
  code asks for a buffer's bounds, whether memory is in one, or which buffers are old, the answer is an argument.
\<close>

definition CACHING_PAGESIZE :: u64 where "CACHING_PAGESIZE = 16384"

text \<open>The ranges written by the GPU in those that the tracker reports, and what is left when they have been copied back.\<close>

fun collect_copies :: "(u64 \<times> u64) list \<Rightarrow> range_set \<Rightarrow> (u64 \<times> u64) list option" where
  "collect_copies [] ranges = Some []"
| "collect_copies ((address, bytes) # rs) ranges = do {
     here \<leftarrow> rs_intersections address bytes ranges;
     others \<leftarrow> collect_copies rs ranges;
     Some (here @ others)
   }"

fun subtract_copies :: "(u64 \<times> u64) list \<Rightarrow> range_set \<Rightarrow> range_set option" where
  "subtract_copies [] ranges = Some ranges"
| "subtract_copies ((address, bytes) # copies) ranges = do { ranges \<leftarrow> rs_subtract address bytes ranges; subtract_copies copies ranges }"

section \<open>Obtaining a buffer\<close>

text \<open>
  A small read of memory the GPU has not written is served from guest memory if that can be read (\<open>streamed\<close>); otherwise the
  buffer is brought up to date, and what will be written in it becomes the GPU's. The result has the ranges that are uploaded.
\<close>

definition obtain_buffer :: "bool \<Rightarrow> u64 \<Rightarrow> u64 \<Rightarrow> bool \<Rightarrow> range_set \<Rightarrow> tracker \<Rightarrow> ((u64 \<times> u64) list \<times> range_set \<times> tracker) option" where
  "obtain_buffer streamed vaddr bytes is_written ranges t =
     (if \<not> guest_range_valid vaddr bytes then None
      else do {
        (direct, t) \<leftarrow> (if \<not> is_written \<and> bytes \<le> CACHING_PAGESIZE
                        then do {
                          (gpu, t) \<leftarrow> is_region_gpu_modified vaddr bytes t;
                          if gpu then Some (False, t) else is_region_cpu_modified vaddr bytes t
                        }
                        else Some (False, t));
        if direct \<and> streamed then Some ([], ranges, t)
        else do {
          (uploads, t) \<leftarrow> for_each_upload_range vaddr bytes is_written t;
          ranges \<leftarrow> (if is_written then rs_add vaddr bytes ranges else Some ranges);
          Some (uploads, ranges, t)
        }
      })"

section \<open>Checks of debug builds\<close>

text \<open>
  The checks that the tracker and the exact bytes agree; other builds leave them out. \<open>ValidateGpuDirtyPages\<close> is called for each range
  that the tracker reports: every page of it has bytes the GPU wrote.
\<close>

fun validate_dirty_pages :: "nat list \<Rightarrow> range_set \<Rightarrow> unit option" where
  "validate_dirty_pages [] ranges = Some ()"
| "validate_dirty_pages (page # pages) ranges = do {
     dirty \<leftarrow> rs_intersects (page * TRACKER_PAGE_SIZE) TRACKER_PAGE_SIZE ranges;
     if \<not> dirty then None else validate_dirty_pages pages ranges
   }"

definition validate_gpu_dirty_pages :: "u64 \<Rightarrow> u64 \<Rightarrow> range_set \<Rightarrow> unit option" where
  "validate_gpu_dirty_pages vaddr bytes ranges =
     (if \<not> guest_range_valid vaddr bytes \<or> vaddr mod TRACKER_PAGE_SIZE \<noteq> 0 \<or> bytes mod TRACKER_PAGE_SIZE \<noteq> 0 then None
      else validate_dirty_pages [vaddr div TRACKER_PAGE_SIZE..<(vaddr + bytes) div TRACKER_PAGE_SIZE] ranges)"

fun validate_reported :: "(u64 \<times> u64) list \<Rightarrow> range_set \<Rightarrow> unit option" where
  "validate_reported [] ranges = Some ()"
| "validate_reported ((address, bytes) # rs) ranges = do {
     _ \<leftarrow> validate_gpu_dirty_pages address bytes ranges;
     validate_reported rs ranges
   }"

fun validate_pages :: "nat list \<Rightarrow> range_set \<Rightarrow> tracker \<Rightarrow> tracker option" where
  "validate_pages [] ranges t = Some t"
| "validate_pages (page # pages) ranges t = do {
     has_dirty_bytes \<leftarrow> rs_intersects (page * TRACKER_PAGE_SIZE) TRACKER_PAGE_SIZE ranges;
     (modified, t) \<leftarrow> is_region_gpu_modified (page * TRACKER_PAGE_SIZE) TRACKER_PAGE_SIZE t;
     if modified \<noteq> has_dirty_bytes then None else validate_pages pages ranges t
   }"

text \<open>\<open>ValidateGpuDirtyOwnership\<close>: every page of the range is dirty in the tracker exactly when it has bytes the GPU wrote.\<close>

definition validate_gpu_dirty_ownership :: "u64 \<Rightarrow> u64 \<Rightarrow> range_set \<Rightarrow> tracker \<Rightarrow> tracker option" where
  "validate_gpu_dirty_ownership vaddr bytes ranges t =
     (if \<not> guest_range_valid vaddr bytes then None
      else validate_pages [vaddr div TRACKER_PAGE_SIZE..<(vaddr + bytes + TRACKER_PAGE_SIZE - 1) div TRACKER_PAGE_SIZE] ranges t)"

section \<open>Reading back\<close>

definition READ_WINDOW :: u64 where "READ_WINDOW = 524288"

definition read_window :: "u64 \<Rightarrow> u64 \<Rightarrow> u64 \<Rightarrow> u64 \<Rightarrow> u64 \<times> u64" where
  "read_window buffer_begin buffer_end vaddr bytes =
     (let window_begin = max (vaddr - vaddr mod READ_WINDOW) buffer_begin;
          window_end = min (max (add64 window_begin READ_WINDOW) (add64 vaddr bytes)) buffer_end
      in (window_begin, sub64 window_end window_begin))"

text \<open>\<open>registered\<close> is the answer of \<open>IsRegionRegistered\<close>; the bounds are those of the buffer found for the range.\<close>

definition read_memory_on_gpu ::
  "bool \<Rightarrow> u64 \<Rightarrow> u64 \<Rightarrow> u64 \<Rightarrow> u64 \<Rightarrow> bool \<Rightarrow> range_set \<Rightarrow> tracker \<Rightarrow> (range_set \<times> tracker) option" where
  "read_memory_on_gpu registered buffer_begin buffer_end vaddr bytes is_write ranges t =
     (if is_write \<and> \<not> registered then Some (ranges, t)
      else let (window, window_bytes) = read_window buffer_begin buffer_end vaddr bytes
           in do {
             (preflight, reported, t) \<leftarrow> for_each_download_range False window window_bytes t;
             _ \<leftarrow> validate_reported preflight ranges;
             copies \<leftarrow> collect_copies reported ranges;
             (ranges, t) \<leftarrow> (if copies \<noteq> []
                              then do {
                                ranges \<leftarrow> subtract_copies copies ranges;
                                t \<leftarrow> unmark_region_as_gpu_modified window window_bytes t;
                                Some (ranges, t)
                              }
                              else Some (ranges, t));
             if is_write then map_option (Pair ranges) (mark_region_as_cpu_modified vaddr bytes t) else Some (ranges, t)
           })"

definition invalidate_memory :: "bool \<Rightarrow> u64 \<Rightarrow> u64 \<Rightarrow> u64 \<Rightarrow> u64 \<Rightarrow> range_set \<Rightarrow> tracker \<Rightarrow> (range_set \<times> tracker) option" where
  "invalidate_memory registered buffer_begin buffer_end vaddr bytes ranges t =
     (if \<not> guest_range_valid vaddr bytes then None
      else invalidate_region vaddr bytes (read_memory_on_gpu registered buffer_begin buffer_end vaddr bytes True) ranges t)"

section \<open>Giving up buffers\<close>

text \<open>
  The pass over the buffers that have not been used for long: a clean one is given up at once, a dirty one, when memory is
  critically low, after its data has been copied back. The pass ends when \<open>limit\<close> buffers are done.
\<close>

fun gc_scan ::
  "bool \<Rightarrow> nat \<Rightarrow> nat \<Rightarrow> (u64 \<times> u64) list \<Rightarrow> range_set \<Rightarrow> (u64 \<times> u64) list \<Rightarrow> (u64 \<times> u64) list \<Rightarrow> tracker \<Rightarrow>
   ((u64 \<times> u64) list \<times> (u64 \<times> u64) list \<times> tracker) option" where
  "gc_scan aggressive limit retired [] ranges dirty_buffers copies t = Some (dirty_buffers, copies, t)"
| "gc_scan aggressive limit retired ((address, bytes) # buffers) ranges dirty_buffers copies t = do {
     t \<leftarrow> validate_gpu_dirty_ownership address bytes ranges t;
     (dirty, t) \<leftarrow> is_region_gpu_modified address bytes t;
     if dirty \<and> \<not> aggressive then gc_scan aggressive limit retired buffers ranges dirty_buffers copies t
     else do {
       (dirty_buffers, copies, t) \<leftarrow>
         (if dirty
          then do {
            (preflight, reported, t) \<leftarrow> for_each_download_range False address bytes t;
            _ \<leftarrow> validate_reported preflight ranges;
            here \<leftarrow> collect_copies reported ranges;
            Some (dirty_buffers @ [(address, bytes)], copies @ here, t)
          }
          else do { t \<leftarrow> untrack_memory address bytes t; Some (dirty_buffers, copies, t) });
       if retired + 1 = limit then Some (dirty_buffers, copies, t)
       else gc_scan aggressive limit (retired + 1) buffers ranges dirty_buffers copies t
     }
   }"

fun gc_retire :: "(u64 \<times> u64) list \<Rightarrow> range_set \<Rightarrow> tracker \<Rightarrow> tracker option" where
  "gc_retire [] ranges t = Some t"
| "gc_retire ((address, bytes) # buffers) ranges t = do {
     t \<leftarrow> unmark_region_as_gpu_modified address bytes t;
     (modified, t) \<leftarrow> is_region_gpu_modified address bytes t;
     kept \<leftarrow> (if modified then Some True else rs_intersects address bytes ranges);
     if kept then None
     else do { t \<leftarrow> untrack_memory address bytes t; gc_retire buffers ranges t }
   }"

definition run_garbage_collector :: "bool \<Rightarrow> (u64 \<times> u64) list \<Rightarrow> range_set \<Rightarrow> tracker \<Rightarrow> (range_set \<times> tracker) option" where
  "run_garbage_collector aggressive buffers ranges t = do {
     (dirty_buffers, copies, t) \<leftarrow> gc_scan aggressive (if aggressive then 64 else 32) 0 buffers ranges [] [] t;
     if dirty_buffers = [] then Some (ranges, t)
     else if copies = [] then None
     else do {
       ranges \<leftarrow> subtract_copies copies ranges;
       t \<leftarrow> gc_retire dirty_buffers ranges t;
       Some (ranges, t)
     }
   }"

end
