(* ===== verification/Page_Manager_Facts.thy ===== *)
theory Page_Manager_Facts
  imports Page_Manager Bit_Array_Facts
begin

text \<open>
  What the page manager does, page by page: an update adds or removes one watcher of each page it is for, and the host's
  protection of every page stays what its counts ask for, although the calls to the host are collected over several pages.
\<close>

section \<open>One page\<close>

definition can_bump :: "bool \<Rightarrow> bool \<Rightarrow> page_state \<Rightarrow> bool" where
  "can_bump track is_read p \<longleftrightarrow> watcher_count is_read p \<noteq> (if track then if is_read then 255 else 127 else 0)"

definition bump :: "bool \<Rightarrow> bool \<Rightarrow> page_state \<Rightarrow> page_state" where
  "bump track is_read p =
     (let n = (if track then watcher_count is_read p + 1 else watcher_count is_read p - 1)
      in if is_read then p\<lparr>access_watchers := n\<rparr> else p\<lparr>write_watchers := n\<rparr>)"

lemma add_delta_eq:
  "add_delta track is_read p =
     (if can_bump track is_read p then Some (watcher_count is_read (bump track is_read p), bump track is_read p) else None)"
  by (auto simp: add_delta_def can_bump_def bump_def watcher_count_def)

lemma perms_edge:
  "can_bump track is_read p \<Longrightarrow> page_perms (bump track is_read p) \<noteq> page_perms p \<Longrightarrow>
     track \<and> watcher_count is_read (bump track is_read p) = 1 \<or> \<not> track \<and> watcher_count is_read (bump track is_read p) = 0"
  by (auto simp: can_bump_def bump_def watcher_count_def page_perms_def split: if_splits)

lemma protect_pages:
  "protect (b * TRACKER_PAGE_SIZE + s * TRACKER_PAGE_SIZE) (n * TRACKER_PAGE_SIZE) pr host p =
     (if b + s \<le> p \<and> p < b + s + n then pr else host p)"
proof -
  have "b * TRACKER_PAGE_SIZE + s * TRACKER_PAGE_SIZE \<le> p * TRACKER_PAGE_SIZE \<longleftrightarrow> b + s \<le> p"
    unfolding TRACKER_PAGE_SIZE_def by linarith
  moreover have "p * TRACKER_PAGE_SIZE < b * TRACKER_PAGE_SIZE + s * TRACKER_PAGE_SIZE + n * TRACKER_PAGE_SIZE \<longleftrightarrow> p < b + s + n"
    unfolding TRACKER_PAGE_SIZE_def by linarith
  ultimately show ?thesis by (simp add: protect_def)
qed

section \<open>The loop\<close>

definition wanted :: "bit_words option \<Rightarrow> nat \<Rightarrow> bool" where
  "wanted wmask i = (case wmask of None \<Rightarrow> True | Some ws \<Rightarrow> ba_get ws i)"

definition bumped_pages :: "bool \<Rightarrow> bool \<Rightarrow> bit_words option \<Rightarrow> nat \<Rightarrow> nat \<Rightarrow> page_region \<Rightarrow> page_region" where
  "bumped_pages track is_read wmask f k region = (\<lambda>i. if f \<le> i \<and> i < k \<and> wanted wmask i then bump track is_read (region i) else region i)"

text \<open>
  After the pages before \<open>k\<close>: the pages are updated, the host agrees with them except on the pages collected but not yet
  changed, and all pages since the first collected one have the protection that is being collected.
\<close>

definition watch_inv :: "bool \<Rightarrow> bool \<Rightarrow> bit_words option \<Rightarrow> nat \<Rightarrow> nat \<Rightarrow> page_region \<Rightarrow> host_pages \<Rightarrow> nat \<Rightarrow> watch_loop \<Rightarrow> bool" where
  "watch_inv track is_read wmask b f region host k l \<longleftrightarrow>
     wl_pages l = bumped_pages track is_read wmask f k region \<and>
     (\<exists>n m. wl_range_bytes l = n * TRACKER_PAGE_SIZE \<and>
        (n \<noteq> 0 \<longrightarrow> wl_potential l = m * TRACKER_PAGE_SIZE \<and> f \<le> wl_range_begin l \<and> n \<le> m \<and> wl_range_begin l + m = k \<and>
           (\<forall>i. wl_range_begin l \<le> i \<and> i < k \<longrightarrow> page_perms (wl_pages l i) = wl_perms l)) \<and>
        (\<forall>p. \<not> (b + f \<le> p \<and> p < b + k) \<longrightarrow> wl_host l p = host p) \<and>
        (\<forall>i. f \<le> i \<and> i < k \<and> \<not> (wl_range_begin l \<le> i \<and> i < wl_range_begin l + n) \<longrightarrow> wl_host l (b + i) = page_perms (wl_pages l i)))"

lemma watch_invI:
  assumes "wl_pages l = bumped_pages track is_read wmask f k region" and "wl_range_bytes l = n * TRACKER_PAGE_SIZE"
    and "n \<noteq> 0 \<Longrightarrow> wl_potential l = m * TRACKER_PAGE_SIZE \<and> f \<le> wl_range_begin l \<and> n \<le> m \<and> wl_range_begin l + m = k"
    and "\<And>i. n \<noteq> 0 \<Longrightarrow> wl_range_begin l \<le> i \<Longrightarrow> i < k \<Longrightarrow> page_perms (wl_pages l i) = wl_perms l"
    and "\<And>p. \<not> (b + f \<le> p \<and> p < b + k) \<Longrightarrow> wl_host l p = host p"
    and "\<And>i. f \<le> i \<Longrightarrow> i < k \<Longrightarrow> \<not> (wl_range_begin l \<le> i \<and> i < wl_range_begin l + n) \<Longrightarrow> wl_host l (b + i) = page_perms (wl_pages l i)"
  shows "watch_inv track is_read wmask b f region host k l"
  unfolding watch_inv_def
proof (rule conjI [OF assms(1)], rule exI [of _ n], rule exI [of _ m], rule conjI [OF assms(2)], intro conjI impI allI, goal_cases)
qed (use assms in simp_all)

lemma watch_invE:
  assumes "watch_inv track is_read wmask b f region host k l"
  obtains n m where "wl_pages l = bumped_pages track is_read wmask f k region" and "wl_range_bytes l = n * TRACKER_PAGE_SIZE"
    and "n \<noteq> 0 \<Longrightarrow> wl_potential l = m * TRACKER_PAGE_SIZE \<and> f \<le> wl_range_begin l \<and> n \<le> m \<and> wl_range_begin l + m = k"
    and "\<And>i. n \<noteq> 0 \<Longrightarrow> wl_range_begin l \<le> i \<Longrightarrow> i < k \<Longrightarrow> page_perms (wl_pages l i) = wl_perms l"
    and "\<And>p. \<not> (b + f \<le> p \<and> p < b + k) \<Longrightarrow> wl_host l p = host p"
    and "\<And>i. f \<le> i \<Longrightarrow> i < k \<Longrightarrow> \<not> (wl_range_begin l \<le> i \<and> i < wl_range_begin l + n) \<Longrightarrow> wl_host l (b + i) = page_perms (wl_pages l i)"
proof -
  note inv = assms [unfolded watch_inv_def]
  obtain n m where a: "wl_range_bytes l = n * TRACKER_PAGE_SIZE \<and>
      (n \<noteq> 0 \<longrightarrow> wl_potential l = m * TRACKER_PAGE_SIZE \<and> f \<le> wl_range_begin l \<and> n \<le> m \<and> wl_range_begin l + m = k \<and>
         (\<forall>i. wl_range_begin l \<le> i \<and> i < k \<longrightarrow> page_perms (wl_pages l i) = wl_perms l)) \<and>
      (\<forall>p. \<not> (b + f \<le> p \<and> p < b + k) \<longrightarrow> wl_host l p = host p) \<and>
      (\<forall>i. f \<le> i \<and> i < k \<and> \<not> (wl_range_begin l \<le> i \<and> i < wl_range_begin l + n) \<longrightarrow> wl_host l (b + i) = page_perms (wl_pages l i))"
    using conjunct2 [OF inv] by (elim exE) (rule that)
  show ?thesis by (rule that [of n m]) (use conjunct1 [OF inv] a in simp_all)
qed

lemma TRACKER_PAGE_SIZE_pos [simp]: "TRACKER_PAGE_SIZE \<noteq> 0" "0 < TRACKER_PAGE_SIZE"
  by (simp_all add: TRACKER_PAGE_SIZE_def)

lemma release_inv:
  assumes inv: "watch_inv track is_read wmask b f region host k l" and l': "l' = release_pending (b * TRACKER_PAGE_SIZE) l"
  shows "wl_pages l' = bumped_pages track is_read wmask f k region" and "wl_range_bytes l' = 0" and "wl_perms l' = wl_perms l"
    and "\<And>p. \<not> (b + f \<le> p \<and> p < b + k) \<Longrightarrow> wl_host l' p = host p"
    and "\<And>i. f \<le> i \<Longrightarrow> i < k \<Longrightarrow> wl_host l' (b + i) = page_perms (wl_pages l' i)"
proof -
  have "wl_pages l' = bumped_pages track is_read wmask f k region \<and> wl_range_bytes l' = 0 \<and> wl_perms l' = wl_perms l \<and>
    (\<forall>p. \<not> (b + f \<le> p \<and> p < b + k) \<longrightarrow> wl_host l' p = host p) \<and>
    (\<forall>i. f \<le> i \<longrightarrow> i < k \<longrightarrow> wl_host l' (b + i) = page_perms (wl_pages l' i))"
    using inv
  proof (cases rule: watch_invE)
    case (1 n m)
    show ?thesis
  proof (cases "n = 0")
    case True
    then have "l' = l" "wl_range_bytes l = 0" using 1(2) l' by (simp_all add: release_pending_def)
    then show ?thesis using 1(1,5,6) True by simp
  next
    case False
    note pend = 1(3) [OF False]
    have e: "wl_pages l' = wl_pages l" "wl_range_bytes l' = 0" "wl_perms l' = wl_perms l"
        "\<And>p. wl_host l' p = (if b + wl_range_begin l \<le> p \<and> p < b + wl_range_begin l + n then wl_perms l else wl_host l p)"
      using False 1(2) by (simp_all add: l' release_pending_def protect_pages)
    have "wl_host l' p = host p" if "\<not> (b + f \<le> p \<and> p < b + k)" for p
    proof -
      have "\<not> (b + wl_range_begin l \<le> p \<and> p < b + wl_range_begin l + n)" using that pend by linarith
      then show ?thesis using 1(5) [OF that] e(4) [of p] by (simp only: if_False)
    qed
    moreover have "wl_host l' (b + i) = page_perms (wl_pages l' i)" if "f \<le> i" "i < k" for i
    proof (cases "wl_range_begin l \<le> i \<and> i < wl_range_begin l + n")
      case True
      then show ?thesis using 1(4) [OF False, of i] that e(1) e(4) [of "b + i"] by simp
    next
      case out: False
      then show ?thesis using 1(6) [OF that out] e(1) e(4) [of "b + i"] by auto
    qed
    ultimately show ?thesis using e(1-3) 1(1) by auto
    qed
  qed
  then show "wl_pages l' = bumped_pages track is_read wmask f k region" "wl_range_bytes l' = 0" "wl_perms l' = wl_perms l"
    "\<And>p. \<not> (b + f \<le> p \<and> p < b + k) \<Longrightarrow> wl_host l' p = host p"
    "\<And>i. f \<le> i \<Longrightarrow> i < k \<Longrightarrow> wl_host l' (b + i) = page_perms (wl_pages l' i)"
    by blast+
qed

text \<open>One page, with the condition on the edges in its simple form, in two stages.\<close>

definition watch_turn :: "u64 \<Rightarrow> nat \<Rightarrow> page_state \<Rightarrow> watch_loop \<Rightarrow> watch_loop" where
  "watch_turn base_addr k page l =
     (let l = l\<lparr>wl_pages := (wl_pages l)(k := page)\<rparr>
      in if page_perms page \<noteq> wl_perms l then (release_pending base_addr l)\<lparr>wl_perms := page_perms page\<rparr>
         else if wl_range_bytes l \<noteq> 0 then l\<lparr>wl_potential := wl_potential l + TRACKER_PAGE_SIZE\<rparr> else l)"

definition watch_edge :: "nat \<Rightarrow> watch_loop \<Rightarrow> watch_loop" where
  "watch_edge k l =
     (let l = (if wl_range_bytes l = 0 then l\<lparr>wl_range_begin := k, wl_potential := TRACKER_PAGE_SIZE\<rparr> else l)
      in l\<lparr>wl_range_bytes := wl_potential l\<rparr>)"

definition watch_next :: "u64 \<Rightarrow> nat \<Rightarrow> page_state \<Rightarrow> watch_loop \<Rightarrow> watch_loop" where
  "watch_next base_addr k page l =
     (let l' = watch_turn base_addr k page l in if page_perms (wl_pages l k) \<noteq> page_perms page then watch_edge k l' else l')"

lemma watch_page_eq:
  "watch_page track is_read wmask base_addr k l =
     (if wanted wmask k
      then if can_bump track is_read (wl_pages l k) then Some (watch_next base_addr k (bump track is_read (wl_pages l k)) l) else None
      else Some (watch_next base_addr k (wl_pages l k) l))"
proof (cases "wanted wmask k")
  case True
  then have u: "(case wmask of None \<Rightarrow> True | Some ws \<Rightarrow> ba_get ws k) = True" by (simp add: wanted_def)
  show ?thesis
  proof (cases "can_bump track is_read (wl_pages l k)")
    case bump: True
    note edge = perms_edge [OF bump]
    show ?thesis using True bump edge
      by (auto simp: watch_page_def u add_delta_eq watch_next_def watch_turn_def watch_edge_def Let_def)
  next
    case False
    then show ?thesis using True by (simp add: watch_page_def u add_delta_eq Let_def)
  qed
next
  case False
  then have u: "(case wmask of None \<Rightarrow> True | Some ws \<Rightarrow> ba_get ws k) = False" by (simp add: wanted_def)
  show ?thesis using False by (simp add: watch_page_def u watch_next_def watch_turn_def Let_def)
qed

text \<open>Between the stages: the host still has the old protection of page \<open>k\<close>.\<close>

definition turn_inv :: "u64 \<Rightarrow> nat \<Rightarrow> page_region \<Rightarrow> host_pages \<Rightarrow> nat \<Rightarrow> page_prot \<Rightarrow> nat \<Rightarrow> nat \<Rightarrow> watch_loop \<Rightarrow> bool" where
  "turn_inv b f pages host k old n m l \<longleftrightarrow>
     wl_pages l = pages \<and> wl_range_bytes l = n * TRACKER_PAGE_SIZE \<and> page_perms (pages k) = wl_perms l \<and>
     (n \<noteq> 0 \<longrightarrow> wl_potential l = m * TRACKER_PAGE_SIZE \<and> f \<le> wl_range_begin l \<and> n < m \<and> wl_range_begin l + m = Suc k) \<and>
     (\<forall>i. n \<noteq> 0 \<and> wl_range_begin l \<le> i \<and> i \<le> k \<longrightarrow> page_perms (pages i) = wl_perms l) \<and>
     (\<forall>p. \<not> (b + f \<le> p \<and> p < b + k) \<longrightarrow> wl_host l p = host p) \<and>
     (\<forall>i. f \<le> i \<and> i < k \<and> \<not> (wl_range_begin l \<le> i \<and> i < wl_range_begin l + n) \<longrightarrow> wl_host l (b + i) = page_perms (pages i)) \<and>
     wl_host l (b + k) = old"

lemma watch_turn_inv:
  assumes inv: "watch_inv track is_read wmask b f region host k l" and fk: "f \<le> k"
    and page: "page = (if wanted wmask k then bump track is_read (region k) else region k)"
    and host: "host (b + k) = page_perms (region k)"
  shows "\<exists>n m. turn_inv b f (bumped_pages track is_read wmask f (Suc k) region) host k (page_perms (region k)) n m
    (watch_turn (b * TRACKER_PAGE_SIZE) k page l)"
proof -
  define P where "P = bumped_pages track is_read wmask f (Suc k) region"
  have P: "P k = page" "\<And>i. i < k \<Longrightarrow> P i = bumped_pages track is_read wmask f k region i"
    using fk by (simp_all add: P_def bumped_pages_def page)
  have upd: "(bumped_pages track is_read wmask f k region)(k := page) = P"
    using fk by (auto simp: P_def bumped_pages_def page fun_eq_iff less_Suc_eq)
  show ?thesis using inv
  proof (cases rule: watch_invE)
    case i: (1 n m)
    show ?thesis
  proof (cases "page_perms page = wl_perms l")
    case True
    show ?thesis
    proof (cases "n = 0")
      case none: True
      then have w: "watch_turn (b * TRACKER_PAGE_SIZE) k page l = l\<lparr>wl_pages := P\<rparr>"
        using True i(1,2) upd by (simp add: watch_turn_def Let_def)
      have "turn_inv b f P host k (page_perms (region k)) 0 0 (l\<lparr>wl_pages := P\<rparr>)"
        using none i True host P by (simp add: turn_inv_def)
      then show ?thesis unfolding w P_def by blast
    next
      case False
      then have w: "watch_turn (b * TRACKER_PAGE_SIZE) k page l = l\<lparr>wl_pages := P, wl_potential := wl_potential l + TRACKER_PAGE_SIZE\<rparr>"
        using True i(1,2) upd by (simp add: watch_turn_def Let_def)
      have pend: "page_perms (P j) = wl_perms l" if "wl_range_begin l \<le> j" "j \<le> k" for j
      proof (cases "j = k")
        case last: False
        then have "j < k" using that(2) by simp
        then show ?thesis using i(4) [OF False that(1)] i(1) P(2) by simp
      qed (simp add: P True)
      have "turn_inv b f P host k (page_perms (region k)) n (Suc m)
          (l\<lparr>wl_pages := P, wl_potential := wl_potential l + TRACKER_PAGE_SIZE\<rparr>)"
        using False i(1,2,3,5,6) True host P pend by (simp add: turn_inv_def)
      then show ?thesis unfolding w P_def by blast
    qed
  next
    case False
    define r where "r = release_pending (b * TRACKER_PAGE_SIZE) l"
    note rel = release_inv [OF inv r_def]
    have w: "watch_turn (b * TRACKER_PAGE_SIZE) k page l = r\<lparr>wl_pages := P, wl_perms := page_perms page\<rparr>"
      using False i(1) upd by (simp add: watch_turn_def Let_def r_def release_pending_def)
    have "turn_inv b f P host k (page_perms (region k)) 0 0 (r\<lparr>wl_pages := P, wl_perms := page_perms page\<rparr>)"
      using rel host P by (simp add: turn_inv_def)
    then show ?thesis unfolding w P_def by blast
  qed
  qed
qed

lemma watch_next_inv:
  assumes inv: "watch_inv track is_read wmask b f region host k l" and fk: "f \<le> k"
    and page: "page = (if wanted wmask k then bump track is_read (region k) else region k)"
    and host: "host (b + k) = page_perms (region k)"
  shows "watch_inv track is_read wmask b f region host (Suc k) (watch_next (b * TRACKER_PAGE_SIZE) k page l)"
proof -
  define P where "P = bumped_pages track is_read wmask f (Suc k) region"
  define l' where "l' = watch_turn (b * TRACKER_PAGE_SIZE) k page l"
  have old: "wl_pages l k = region k" using inv by (simp add: watch_inv_def bumped_pages_def)
  have pk: "P k = page" using fk by (simp add: P_def bumped_pages_def page)
  obtain n m where t: "turn_inv b f P host k (page_perms (region k)) n m l'"
    using watch_turn_inv [OF assms] unfolding P_def l'_def by blast
  note t = t [unfolded turn_inv_def]
  from t have t1: "wl_pages l' = P" "wl_range_bytes l' = n * TRACKER_PAGE_SIZE" "page_perms page = wl_perms l'"
      "wl_host l' (b + k) = page_perms (region k)" using pk by simp_all
  from t have t2: "\<And>i. n \<noteq> 0 \<Longrightarrow> wl_range_begin l' \<le> i \<Longrightarrow> i \<le> k \<Longrightarrow> page_perms (P i) = wl_perms l'"
      "\<And>p. \<not> (b + f \<le> p \<and> p < b + k) \<Longrightarrow> wl_host l' p = host p"
      "\<And>i. f \<le> i \<Longrightarrow> i < k \<Longrightarrow> \<not> (wl_range_begin l' \<le> i \<and> i < wl_range_begin l' + n) \<Longrightarrow> wl_host l' (b + i) = page_perms (P i)"
    by blast+
  from t have t3: "n \<noteq> 0 \<Longrightarrow> wl_potential l' = m * TRACKER_PAGE_SIZE \<and> f \<le> wl_range_begin l' \<and> n < m \<and> wl_range_begin l' + m = Suc k"
    by blast
  have outside: "wl_host l' p = host p" if "\<not> (b + f \<le> p \<and> p < b + Suc k)" for p
    using that by (intro t2(2)) linarith
  show ?thesis
  proof (cases "page_perms (region k) = page_perms page")
    case True
    then have w: "watch_next (b * TRACKER_PAGE_SIZE) k page l = l'" by (simp add: watch_next_def old l'_def)
    show ?thesis unfolding w
    proof (rule watch_invI [where n = n and m = m])
      fix i assume i: "f \<le> i" "i < Suc k" "\<not> (wl_range_begin l' \<le> i \<and> i < wl_range_begin l' + n)"
      show "wl_host l' (b + i) = page_perms (wl_pages l' i)"
        using i t1 t2(3) [of i] True pk by (cases "i = k") auto
    qed (use t1 t2(1) t3 outside in \<open>auto simp: P_def\<close>)
  next
    case diff: False
    show ?thesis
    proof (cases "n = 0")
      case True
      then have w: "watch_next (b * TRACKER_PAGE_SIZE) k page l =
          l'\<lparr>wl_range_begin := k, wl_potential := TRACKER_PAGE_SIZE, wl_range_bytes := TRACKER_PAGE_SIZE\<rparr>"
        using diff t1(2) by (simp add: watch_next_def old l'_def [symmetric] watch_edge_def Let_def)
      show ?thesis unfolding w
        by (rule watch_invI [where n = 1 and m = 1]) (use t1 t2(3) True fk outside pk in \<open>auto simp: P_def less_Suc_eq\<close>)
    next
      case False
      then have w: "watch_next (b * TRACKER_PAGE_SIZE) k page l = l'\<lparr>wl_range_bytes := m * TRACKER_PAGE_SIZE\<rparr>"
        using diff t1(2) t3 by (simp add: watch_next_def old l'_def [symmetric] watch_edge_def Let_def)
      show ?thesis unfolding w
        by (rule watch_invI [where n = m and m = m]) (use t1 t2(1,3) t3 [OF False] False outside in \<open>auto simp: P_def\<close>)
    qed
  qed
qed

lemma watch_pages_inv:
  assumes "watch_inv track is_read wmask b f region host k l" and "f \<le> k" and "k \<le> e"
    and "\<forall>i. f \<le> i \<and> i < e \<longrightarrow> host (b + i) = page_perms (region i)"
  shows "if \<forall>i. k \<le> i \<and> i < e \<and> wanted wmask i \<longrightarrow> can_bump track is_read (region i)
    then \<exists>l'. watch_pages track is_read wmask (b * TRACKER_PAGE_SIZE) [k..<e] l = Some l' \<and> watch_inv track is_read wmask b f region host e l'
    else watch_pages track is_read wmask (b * TRACKER_PAGE_SIZE) [k..<e] l = None"
  using assms
proof (induction "e - k" arbitrary: k l)
  case 0
  then show ?case by auto
next
  case (Suc d)
  have ke: "k < e" "[k..<e] = k # [Suc k..<e]" using Suc.hyps(2) by (simp_all add: upt_rec)
  have old: "wl_pages l k = region k" using Suc.prems(1) by (simp add: watch_inv_def bumped_pages_def)
  define page where "page = (if wanted wmask k then bump track is_read (region k) else region k)"
  note nxt = watch_next_inv [OF Suc.prems(1,2) page_def] 
  show ?case
  proof (cases "wanted wmask k \<and> \<not> can_bump track is_read (region k)")
    case True
    then have "watch_pages track is_read wmask (b * TRACKER_PAGE_SIZE) [k..<e] l = None" by (simp add: ke(2) watch_page_eq old)
    moreover have "\<not> (\<forall>i. k \<le> i \<and> i < e \<and> wanted wmask i \<longrightarrow> can_bump track is_read (region i))" using True ke(1) by blast
    ultimately show ?thesis by simp
  next
    case False
    then have step: "watch_pages track is_read wmask (b * TRACKER_PAGE_SIZE) [k..<e] l =
        watch_pages track is_read wmask (b * TRACKER_PAGE_SIZE) [Suc k..<e] (watch_next (b * TRACKER_PAGE_SIZE) k page l)"
      by (auto simp: ke(2) watch_page_eq old page_def)
    have all: "(\<forall>i. k \<le> i \<and> i < e \<and> wanted wmask i \<longrightarrow> can_bump track is_read (region i)) \<longleftrightarrow>
        (\<forall>i. Suc k \<le> i \<and> i < e \<and> wanted wmask i \<longrightarrow> can_bump track is_read (region i))"
      using False by (metis Suc_leD Suc_leI le_neq_implies_less)
    have "host (b + k) = page_perms (region k)" using Suc.prems(2,4) ke(1) by simp
    from Suc.hyps(1) [OF _ nxt [OF this] _ _ Suc.prems(4)] Suc.hyps(2) Suc.prems(2) ke(1)
    show ?thesis by (simp only: step all) simp
  qed
qed

text \<open>The update of a region: one watcher more or less for each page wanted, and the host follows.\<close>

lemma update_region_spec:
  assumes "\<forall>i. f \<le> i \<and> i < e \<longrightarrow> host (b + i) = page_perms (region i)" and "f \<le> e"
  shows "update_region_watchers track is_read wmask (b * TRACKER_PAGE_SIZE) f e region host =
    (if \<forall>i. f \<le> i \<and> i < e \<and> wanted wmask i \<longrightarrow> can_bump track is_read (region i)
     then Some (bumped_pages track is_read wmask f e region,
       \<lambda>p. if b + f \<le> p \<and> p < b + e then page_perms (bumped_pages track is_read wmask f e region (p - b)) else host p)
     else None)"
proof -
  define l where "l = \<lparr>wl_pages = region, wl_host = host, wl_perms = page_perms (region f), wl_range_begin = 0, wl_range_bytes = 0,
      wl_potential = 0\<rparr>"
  have "watch_inv track is_read wmask b f region host f l"
    unfolding watch_inv_def by (intro conjI exI [of _ 0]) (auto simp: l_def bumped_pages_def)
  note run = watch_pages_inv [OF this order_refl assms(2,1)]
  show ?thesis
  proof (cases "\<forall>i. f \<le> i \<and> i < e \<and> wanted wmask i \<longrightarrow> can_bump track is_read (region i)")
    case True
    with run obtain l' where l': "watch_pages track is_read wmask (b * TRACKER_PAGE_SIZE) [f..<e] l = Some l'"
      "watch_inv track is_read wmask b f region host e l'" by auto
    note rel = release_inv [OF l'(2) refl]
    have "wl_host (release_pending (b * TRACKER_PAGE_SIZE) l') =
        (\<lambda>p. if b + f \<le> p \<and> p < b + e then page_perms (bumped_pages track is_read wmask f e region (p - b)) else host p)"
    proof
      fix p
      show "wl_host (release_pending (b * TRACKER_PAGE_SIZE) l') p =
          (if b + f \<le> p \<and> p < b + e then page_perms (bumped_pages track is_read wmask f e region (p - b)) else host p)"
      proof (cases "b + f \<le> p \<and> p < b + e")
        case inside: True
        then show ?thesis using rel(5) [of "p - b"] rel(1) by auto
      qed (use rel(4) in auto)
    qed
    then show ?thesis using True l'(1) rel(1) by (simp add: update_region_watchers_def l_def [symmetric] Let_def)
  next
    case False
    then show ?thesis using run by (simp add: update_region_watchers_def l_def [symmetric])
  qed
qed

section \<open>The pages of the address space\<close>

lemma region_consts: "TRACKER_REGION_PAGES = 1024" "TRACKER_REGION_SIZE = 1024 * TRACKER_PAGE_SIZE"
  "TRACKER_ADDRESS_SIZE = 268435456 * TRACKER_PAGE_SIZE"
  by (simp_all add: TRACKER_REGION_PAGES_def TRACKER_REGION_SIZE_def TRACKER_PAGE_SIZE_def TRACKER_ADDRESS_SIZE_def)

lemma page_split:
  assumes "B * 1024 \<le> p" and "p < B * 1024 + (1024 :: nat)"
  shows "p div 1024 = B" and "p mod 1024 = p - B * 1024"
proof -
  show d: "p div 1024 = B" using assms by (intro div_nat_eqI) auto
  show "p mod 1024 = p - B * 1024" by (simp add: modulo_nat_def d)
qed

definition page_at :: "page_manager \<Rightarrow> nat \<Rightarrow> page_state" where
  "page_at pm p = (case pm_regions pm (p div 1024) of None \<Rightarrow> blank_page | Some region \<Rightarrow> region (p mod 1024))"

text \<open>The host's protection of each page is the one its counts ask for.\<close>

definition pm_ok :: "page_manager \<Rightarrow> bool" where
  "pm_ok pm \<longleftrightarrow> (\<forall>p. pm_host pm p = page_perms (page_at pm p))"

definition bump_on :: "bool \<Rightarrow> bool \<Rightarrow> nat set \<Rightarrow> (nat \<Rightarrow> page_state) \<Rightarrow> nat \<Rightarrow> page_state" where
  "bump_on track is_read S view = (\<lambda>p. if p \<in> S then bump track is_read (view p) else view p)"

text \<open>What every update does: one watcher more or less for the pages of a set, or the end of the program if that is not possible.\<close>

definition pm_step :: "bool \<Rightarrow> bool \<Rightarrow> nat set \<Rightarrow> page_manager \<Rightarrow> page_manager option \<Rightarrow> bool" where
  "pm_step track is_read S pm result \<longleftrightarrow>
     (if \<forall>p \<in> S. can_bump track is_read (page_at pm p)
      then \<exists>pm'. result = Some pm' \<and> pm_ok pm' \<and> page_at pm' = bump_on track is_read S (page_at pm)
      else result = None)"

lemma pm_stepI:
  assumes "\<forall>p \<in> S. can_bump track is_read (page_at pm p) \<Longrightarrow>
      \<exists>pm'. result = Some pm' \<and> pm_ok pm' \<and> page_at pm' = bump_on track is_read S (page_at pm)"
    and "\<exists>p \<in> S. \<not> can_bump track is_read (page_at pm p) \<Longrightarrow> result = None"
  shows "pm_step track is_read S pm result"
  using assms by (auto simp: pm_step_def)

lemma page_manager_new_ok: "pm_ok page_manager_new" "page_at page_manager_new p = blank_page"
  by (simp_all add: pm_ok_def page_at_def page_manager_new_def blank_page_def page_perms_def)

lemma blank_not_less: "\<not> can_bump False is_read blank_page"
  by (simp add: can_bump_def watcher_count_def blank_page_def)

lemma pm_region_for_cases:
  assumes "vaddr div TRACKER_REGION_SIZE = B" and "vaddr < TRACKER_ADDRESS_SIZE" and "pm_ok pm"
  shows "\<not> track \<and> pm_region_for track vaddr pm = None \<and> pm_regions pm B = None \<or>
    (\<exists>region pm'. pm_region_for track vaddr pm = Some (region, pm') \<and> pm_regions pm' B = Some region \<and> pm_host pm' = pm_host pm \<and>
       page_at pm' = page_at pm \<and> pm_ok pm')"
proof (cases "pm_regions pm B")
  case None
  then show ?thesis
  proof (cases track)
    case True
    have "page_at (pm\<lparr>pm_regions := (pm_regions pm)(B \<mapsto> \<lambda>_. blank_page)\<rparr>) = page_at pm"
      using None by (auto simp: page_at_def fun_eq_iff)
    then show ?thesis using None True assms(1,3) by (auto simp: pm_region_for_def pm_get_or_create_region_def pm_ok_def)
  qed (use assms(1,2) None in \<open>simp add: pm_region_for_def pm_find_region_def\<close>)
next
  case (Some region)
  then show ?thesis using assms by (auto simp: pm_region_for_def pm_get_or_create_region_def pm_find_region_def)
qed

lemma pm_update_region_step:
  assumes ok: "pm_ok pm" and region: "pm_regions pm B = Some region" and fe: "f \<le> e" "e \<le> 1024"
  shows "pm_step track is_read {p. p div 1024 = B \<and> f \<le> p mod 1024 \<and> p mod 1024 < e \<and> wanted wmask (p mod 1024)} pm
    (pm_update_region track is_read wmask (B * TRACKER_REGION_SIZE) f e region pm)"
proof -
  define S where "S = {p. p div 1024 = B \<and> f \<le> p mod 1024 \<and> p mod 1024 < e \<and> wanted wmask (p mod 1024)}"
  have at: "page_at pm (B * 1024 + i) = region i" if "i < 1024" for i using that region by (simp add: page_at_def)
  have host: "\<forall>i. f \<le> i \<and> i < e \<longrightarrow> pm_host pm (B * 1024 + i) = page_perms (region i)"
    using ok at fe(2) by (auto simp: pm_ok_def)
  have base: "B * TRACKER_REGION_SIZE = (B * 1024) * TRACKER_PAGE_SIZE" "B * TRACKER_REGION_SIZE div TRACKER_REGION_SIZE = B"
      "B * 1024 * TRACKER_PAGE_SIZE div TRACKER_REGION_SIZE = B"
    by (simp_all add: region_consts TRACKER_PAGE_SIZE_def)
  have S: "p \<in> S \<longleftrightarrow> (\<exists>i. p = B * 1024 + i \<and> f \<le> i \<and> i < e \<and> wanted wmask i)" for p
  proof
    assume "p \<in> S"
    then show "\<exists>i. p = B * 1024 + i \<and> f \<le> i \<and> i < e \<and> wanted wmask i"
      using div_mult_mod_eq [of p 1024] by (auto simp: S_def intro!: exI [of _ "p mod 1024"])
  qed (use fe(2) in \<open>auto simp: S_def\<close>)
  have cond: "(\<forall>p \<in> S. can_bump track is_read (page_at pm p)) \<longleftrightarrow> (\<forall>i. f \<le> i \<and> i < e \<and> wanted wmask i \<longrightarrow> can_bump track is_read (region i))"
  proof (intro iffI allI impI ballI)
    fix i assume all: "\<forall>p \<in> S. can_bump track is_read (page_at pm p)" and i: "f \<le> i \<and> i < e \<and> wanted wmask i"
    then have "B * 1024 + i \<in> S" by (auto simp: S)
    then show "can_bump track is_read (region i)" using all at [of i] i fe(2) by fastforce
  next
    fix p assume all: "\<forall>i. f \<le> i \<and> i < e \<and> wanted wmask i \<longrightarrow> can_bump track is_read (region i)" and "p \<in> S"
    then obtain i where "p = B * 1024 + i" "f \<le> i" "i < e" "wanted wmask i" by (auto simp: S)
    then show "can_bump track is_read (page_at pm p)" using all at [of i] fe(2) by simp
  qed
  note run = update_region_spec [OF host fe(1), of track is_read wmask]
  show ?thesis unfolding S_def [symmetric]
  proof (rule pm_stepI)
    assume can: "\<forall>p \<in> S. can_bump track is_read (page_at pm p)"
    define region' where "region' = bumped_pages track is_read wmask f e region"
    define host' where "host' = (\<lambda>p. if B * 1024 + f \<le> p \<and> p < B * 1024 + e then page_perms (region' (p - B * 1024)) else pm_host pm p)"
    define pm' where "pm' = \<lparr>pm_regions = (pm_regions pm)(B \<mapsto> region'), pm_host = host'\<rparr>"
    have res: "pm_update_region track is_read wmask (B * TRACKER_REGION_SIZE) f e region pm = Some pm'"
      unfolding pm_update_region_def pm'_def host'_def region'_def base(1) base(3) using run can cond by simp
    have view: "page_at pm' p = bump_on track is_read S (page_at pm) p" for p
      using region by (auto simp: page_at_def pm'_def bump_on_def S_def region'_def bumped_pages_def)
    have "pm_host pm' p = page_perms (page_at pm' p)" for p
    proof (cases "B * 1024 + f \<le> p \<and> p < B * 1024 + e")
      case True
      then have d: "p div 1024 = B" "p - B * 1024 = p mod 1024" using page_split [of B p] fe(2) by auto
      then show ?thesis using True d by (simp add: pm'_def host'_def page_at_def)
    next
      case False
      then have "p \<notin> S" by (auto simp: S)
      then have "page_at pm' p = page_at pm p" using view [of p] by (simp add: bump_on_def)
      moreover have "pm_host pm' p = pm_host pm p" using False by (auto simp: pm'_def host'_def)
      ultimately show ?thesis using ok by (simp add: pm_ok_def)
    qed
    then show "\<exists>pm'. pm_update_region track is_read wmask (B * TRACKER_REGION_SIZE) f e region pm = Some pm' \<and> pm_ok pm' \<and>
        page_at pm' = bump_on track is_read S (page_at pm)"
      using res view by (auto simp: pm_ok_def)
  next
    assume "\<exists>p \<in> S. \<not> can_bump track is_read (page_at pm p)"
    then have c: "\<not> (\<forall>i. f \<le> i \<and> i < e \<and> wanted wmask i \<longrightarrow> can_bump track is_read (region i))" using cond by blast
    show "pm_update_region track is_read wmask (B * TRACKER_REGION_SIZE) f e region pm = None"
      unfolding pm_update_region_def base(1) run if_not_P [OF c] by simp
  qed
qed

lemma pm_region_step:
  assumes ok: "pm_ok pm" and v: "vaddr div TRACKER_REGION_SIZE = B" "vaddr < TRACKER_ADDRESS_SIZE" and fe: "f \<le> e" "e \<le> 1024"
    and some: "f \<le> i" "i < e" "wanted wmask i"
  shows "pm_step track is_read {p. p div 1024 = B \<and> f \<le> p mod 1024 \<and> p mod 1024 < e \<and> wanted wmask (p mod 1024)} pm
    (case pm_region_for track vaddr pm of None \<Rightarrow> None
     | Some (region, pm) \<Rightarrow> pm_update_region track is_read wmask (B * TRACKER_REGION_SIZE) f e region pm)"
  using pm_region_for_cases [OF v ok, of track]
proof
  assume none: "\<not> track \<and> pm_region_for track vaddr pm = None \<and> pm_regions pm B = None"
  then have "\<not> can_bump track is_read (page_at pm (B * 1024 + i))"
    using some fe by (simp add: page_at_def blank_not_less)
  moreover have "(B * 1024 + i) div 1024 = B" "(B * 1024 + i) mod 1024 = i" using some(2) fe(2) by auto
  ultimately show ?thesis using none some by (intro pm_stepI) auto
next
  assume "\<exists>region pm'. pm_region_for track vaddr pm = Some (region, pm') \<and> pm_regions pm' B = Some region \<and> pm_host pm' = pm_host pm \<and>
    page_at pm' = page_at pm \<and> pm_ok pm'"
  then obtain region pm' where r: "pm_region_for track vaddr pm = Some (region, pm')" "pm_regions pm' B = Some region"
    "page_at pm' = page_at pm" "pm_ok pm'" by blast
  from pm_update_region_step [OF r(4,2) fe, of track is_read wmask] show ?thesis
    unfolding pm_step_def r(1,3) by simp
qed

text \<open>Two updates after each other, of pages that are not the same.\<close>

lemma pm_step_then:
  assumes "pm_step track is_read S pm r1" and "\<And>pm'. r1 = Some pm' \<Longrightarrow> pm_ok pm' \<Longrightarrow> pm_step track is_read T pm' (f pm')" and "S \<inter> T = {}"
  shows "pm_step track is_read (S \<union> T) pm (case r1 of None \<Rightarrow> None | Some pm' \<Rightarrow> f pm')"
proof (cases "\<forall>p \<in> S. can_bump track is_read (page_at pm p)")
  case True
  then obtain pm1 where pm1: "r1 = Some pm1" "pm_ok pm1" "page_at pm1 = bump_on track is_read S (page_at pm)"
    using assms(1) by (auto simp: pm_step_def)
  have t: "page_at pm1 p = page_at pm p" if "p \<in> T" for p using that assms(3) pm1(3) by (auto simp: bump_on_def)
  have view: "bump_on track is_read T (page_at pm1) = bump_on track is_read (S \<union> T) (page_at pm)"
    using assms(3) by (auto simp: pm1(3) bump_on_def fun_eq_iff)
  have can: "(\<forall>p \<in> T. can_bump track is_read (page_at pm1 p)) \<longleftrightarrow> (\<forall>p \<in> T. can_bump track is_read (page_at pm p))" using t by simp
  show ?thesis using assms(2) [OF pm1(1,2), unfolded pm_step_def view can] True pm1(1) by (simp add: pm_step_def ball_Un)
next
  case False
  then have "r1 = None" using assms(1) by (simp add: pm_step_def)
  then show ?thesis using False by (auto simp: pm_step_def)
qed

text \<open>A range of pages, over the regions it lies in.\<close>

lemma update_chunks_step:
  "pm_ok pm \<Longrightarrow> chunk_begin = x * TRACKER_PAGE_SIZE \<Longrightarrow> endd = y * TRACKER_PAGE_SIZE \<Longrightarrow> endd \<le> TRACKER_ADDRESS_SIZE \<Longrightarrow>
     pm_step track is_read {x..<y} pm (update_chunks track is_read chunk_begin endd pm)"
proof (induction track is_read chunk_begin endd pm arbitrary: x rule: update_chunks.induct)
  case (1 track is_read chunk_begin endd pm)
  show ?case
  proof (cases "x < y")
    case False
    then have "\<not> chunk_begin < endd" by (simp add: 1(3,4))
    then have "update_chunks track is_read chunk_begin endd pm = Some pm" by (subst update_chunks.simps) simp
    then show ?thesis using False 1(2) by (simp add: pm_step_def bump_on_def)
  next
    case True
    define B where "B = x div 1024"
    define z where "z = min y ((B + 1) * 1024)"
    have lt: "chunk_begin < endd" using True by (simp add: 1(3,4))
    have z: "x < z" "z \<le> y" "z \<le> B * 1024 + 1024" "B * 1024 \<le> x" using True by (auto simp: z_def B_def dividend_less_div_times)
    have B: "chunk_begin div TRACKER_REGION_SIZE = B" unfolding 1(3) region_consts B_def by (simp add: mult.commute [of _ TRACKER_PAGE_SIZE])
    have chunk_end: "min endd ((B + 1) * TRACKER_REGION_SIZE) = z * TRACKER_PAGE_SIZE"
      unfolding 1(4) z_def nat_mult_min_left by (simp add: region_consts add_mult_distrib)
    have f: "(chunk_begin - B * TRACKER_REGION_SIZE) div TRACKER_PAGE_SIZE = x - B * 1024"
      "(z * TRACKER_PAGE_SIZE - B * TRACKER_REGION_SIZE) div TRACKER_PAGE_SIZE = z - B * 1024"
      unfolding 1(3) region_consts mult.assoc [symmetric] diff_mult_distrib [symmetric] by simp_all
    have pages: "{p. p div 1024 = B \<and> x - B * 1024 \<le> p mod 1024 \<and> p mod 1024 < z - B * 1024 \<and> wanted None (p mod 1024)} = {x..<z}"
    proof (intro set_eqI iffI)
      fix p assume "p \<in> {x..<z}"
      then have p: "B * 1024 \<le> p" "p < B * 1024 + 1024" "x \<le> p" "p < z" using z(3,4) by auto
      then have "p div 1024 = B" "p mod 1024 = p - B * 1024" using page_split [of B p] by auto
      then show "p \<in> {p. p div 1024 = B \<and> x - B * 1024 \<le> p mod 1024 \<and> p mod 1024 < z - B * 1024 \<and> wanted None (p mod 1024)}"
        using p by (simp add: wanted_def) linarith
    next
      fix p assume "p \<in> {p. p div 1024 = B \<and> x - B * 1024 \<le> p mod 1024 \<and> p mod 1024 < z - B * 1024 \<and> wanted None (p mod 1024)}"
      then have "p = B * 1024 + p mod 1024" "x - B * 1024 \<le> p mod 1024" "p mod 1024 < z - B * 1024" by auto
      then have "x \<le> p" "p < z" using z(4) by linarith+
      then show "p \<in> {x..<z}" by simp
    qed
    have step: "update_chunks track is_read chunk_begin endd pm =
      (case (case pm_region_for track chunk_begin pm of None \<Rightarrow> None
             | Some (region, pm) \<Rightarrow> pm_update_region track is_read None (B * TRACKER_REGION_SIZE) (x - B * 1024) (z - B * 1024) region pm) of
         None \<Rightarrow> None | Some pm \<Rightarrow> update_chunks track is_read (z * TRACKER_PAGE_SIZE) endd pm)"
      unfolding update_chunks.simps [of track is_read chunk_begin] Let_def B chunk_end f if_P [OF lt]
      by (simp split: option.split prod.split)
    have one: "pm_step track is_read {x..<z} pm (case pm_region_for track chunk_begin pm of None \<Rightarrow> None
       | Some (region, pm) \<Rightarrow> pm_update_region track is_read None (B * TRACKER_REGION_SIZE) (x - B * 1024) (z - B * 1024) region pm)"
      unfolding pages [symmetric]
      by (rule pm_region_step [OF 1(2) B, where i = "x - B * 1024"]) (use lt 1(5) z in \<open>auto simp: wanted_def\<close>)
    have two: "pm_step track is_read {z..<y} pm'' (update_chunks track is_read (z * TRACKER_PAGE_SIZE) endd pm'')"
      if res: "(case pm_region_for track chunk_begin pm of None \<Rightarrow> None
       | Some (region, pm) \<Rightarrow> pm_update_region track is_read None (B * TRACKER_REGION_SIZE) (x - B * 1024) (z - B * 1024) region pm) = Some pm''"
        and ok: "pm_ok pm''" for pm''
    proof -
      from res obtain region pm' where r: "pm_region_for track chunk_begin pm = Some (region, pm')"
        "pm_update_region track is_read None (B * TRACKER_REGION_SIZE) (x - B * 1024) (z - B * 1024) region pm' = Some pm''"
        by (auto split: option.splits prod.splits)
      show ?thesis
        by (rule 1(1) [OF lt refl refl refl refl r(1) refl, unfolded B chunk_end f, OF r(2) ok refl 1(4,5)])
    qed
    have "{x..<z} \<union> {z..<y} = {x..<y}" using z by auto
    then show ?thesis using pm_step_then [OF one two] unfolding step by auto
  qed
qed

lemma page_start_mult: "page_start v = v div TRACKER_PAGE_SIZE * TRACKER_PAGE_SIZE"
  by (simp add: page_start_def minus_mod_eq_div_mult)

lemma update_page_watchers_step:
  assumes "pm_ok pm" and "guest_range_valid v s"
  shows "pm_step track is_read {v div TRACKER_PAGE_SIZE..<(v + s - 1) div TRACKER_PAGE_SIZE + 1} pm (update_page_watchers track is_read v s pm)"
proof -
  have v: "v + s - 1 < TRACKER_ADDRESS_SIZE" using assms(2) by (auto simp: guest_range_valid_def)
  then have "(v + s - 1) div TRACKER_PAGE_SIZE < 268435456" by (simp add: region_consts less_mult_imp_div_less)
  then have "((v + s - 1) div TRACKER_PAGE_SIZE + 1) * TRACKER_PAGE_SIZE \<le> 268435456 * TRACKER_PAGE_SIZE" by (intro mult_le_mono1) simp
  then have e: "((v + s - 1) div TRACKER_PAGE_SIZE + 1) * TRACKER_PAGE_SIZE \<le> TRACKER_ADDRESS_SIZE" by (simp only: region_consts)
  have "update_page_watchers track is_read v s pm =
      update_chunks track is_read (v div TRACKER_PAGE_SIZE * TRACKER_PAGE_SIZE) (((v + s - 1) div TRACKER_PAGE_SIZE + 1) * TRACKER_PAGE_SIZE) pm"
    using assms(2) by (simp add: update_page_watchers_def page_end_def page_start_mult algebra_simps)
  then show ?thesis using update_chunks_step [OF assms(1) refl refl e] by simp
qed

text \<open>The pages marked in a mask, of one region.\<close>

lemma update_for_region_step:
  assumes ok: "pm_ok pm" and B: "B < 262144" and len: "length ws = 16" and some: "bits ws \<noteq> {}" and zero: "0 < B * 1024 + Min (bits ws)"
  shows "pm_step track is_read ((+) (B * 1024) ` bits ws) pm (update_page_watchers_for_region track is_read (B * TRACKER_REGION_SIZE) ws pm)"
proof -
  have fin: "finite (bits ws)" "\<And>p. p \<in> bits ws \<Longrightarrow> p < 1024" using bits_bound [of ws] len by (auto intro: finite_subset)
  obtain a b where first: "ba_first_range_from 0 ws = (a, b)" "a < b" "{a..<b} \<subseteq> bits ws" "b \<notin> bits ws" "bits ws \<inter> {0..<a} = {}"
    using some by (cases rule: first_range_cases [of 0 ws]) auto
  obtain c d where last: "ba_last_range_from (64 * length ws) ws = (c, d)" "d \<le> 1024" "{d..<1024} \<inter> bits ws = {}" "c < d" "{c..<d} \<subseteq> bits ws"
    using some last_range_some [of _ ws "64 * length ws"] fin(2) len by fastforce
  have a: "a \<in> bits ws" "a < 1024" using first(2,3) fin(2) by auto
  have min: "Min (bits ws) = a" using first(5) a(1) fin(1) by (intro Min_eqI) (auto simp: disjoint_iff not_less)
  have ad: "a < d"
  proof (rule ccontr)
    assume "\<not> a < d"
    then have "a \<in> {d..<1024} \<inter> bits ws" using a by simp
    then show False using last(3) by blast
  qed
  have within: "bits ws \<subseteq> {a..<d}"
  proof
    fix p assume p: "p \<in> bits ws"
    then have "p \<notin> {0..<a}" "p \<notin> {d..<1024}" using first(5) last(3) by blast+
    then show "p \<in> {a..<d}" using fin(2) [OF p] by simp
  qed
  have base: "B * TRACKER_REGION_SIZE mod TRACKER_REGION_SIZE = 0" "B * TRACKER_REGION_SIZE < TRACKER_ADDRESS_SIZE"
    "\<not> TRACKER_REGION_SIZE > TRACKER_ADDRESS_SIZE - B * TRACKER_REGION_SIZE"
    using B by (simp_all add: TRACKER_REGION_SIZE_def TRACKER_ADDRESS_SIZE_def)
  show ?thesis
  proof (cases "b = d")
    case True
    define v where "v = B * TRACKER_REGION_SIZE + a * TRACKER_PAGE_SIZE"
    define s where "s = (d - a) * TRACKER_PAGE_SIZE"
    have v: "v = (B * 1024 + a) * TRACKER_PAGE_SIZE" by (simp add: v_def region_consts algebra_simps)
    have vs: "v + s = (B * 1024 + d) * TRACKER_PAGE_SIZE" unfolding v s_def add_mult_distrib [symmetric] using ad by simp
    have run: "update_page_watchers_for_region track is_read (B * TRACKER_REGION_SIZE) ws pm = update_page_watchers track is_read v s pm"
      using base first(1) last(1) len a(2) True by (simp add: update_page_watchers_for_region_def region_consts(1) v_def s_def)
    have "(B * 1024 + d) * TRACKER_PAGE_SIZE \<le> TRACKER_ADDRESS_SIZE" unfolding region_consts using B last(2) by (intro mult_le_mono1) simp
    then have "v + s \<le> TRACKER_ADDRESS_SIZE" "0 < s" "v \<noteq> 0" using vs ad zero min by (auto simp: v s_def)
    then have valid: "guest_range_valid v s" by (auto simp: guest_range_valid_def)
    have "v div TRACKER_PAGE_SIZE = B * 1024 + a" by (simp add: v)
    moreover have "(v + s - 1) div TRACKER_PAGE_SIZE + 1 = B * 1024 + d"
    proof -
      have "v + s - 1 = (B * 1024 + d - 1) * TRACKER_PAGE_SIZE + (TRACKER_PAGE_SIZE - 1)"
        using vs ad by (simp add: diff_mult_distrib TRACKER_PAGE_SIZE_def)
      then have "(v + s - 1) div TRACKER_PAGE_SIZE = B * 1024 + d - 1" by (simp add: TRACKER_PAGE_SIZE_def)
      then show ?thesis using ad by simp
    qed
    moreover have "bits ws = {a..<d}" using within first(3) True by auto
    ultimately show ?thesis using update_page_watchers_step [OF ok valid, of track is_read]
      by (simp add: run image_add_atLeastLessThan add.commute)
  next
    case False
    have run: "update_page_watchers_for_region track is_read (B * TRACKER_REGION_SIZE) ws pm =
      (case pm_region_for track (B * TRACKER_REGION_SIZE) pm of None \<Rightarrow> None
       | Some (region, pm) \<Rightarrow> pm_update_region track is_read (Some ws) (B * TRACKER_REGION_SIZE) a d region pm)"
      using base first(1) last(1) len a(2) False
      by (simp add: update_page_watchers_for_region_def region_consts(1) split: option.split)
    have get: "wanted (Some ws) i \<longleftrightarrow> i \<in> bits ws" if "i < 1024" for i using that bits_single(1) [of i ws] len by (simp add: wanted_def)
    have pages: "{p. p div 1024 = B \<and> a \<le> p mod 1024 \<and> p mod 1024 < d \<and> wanted (Some ws) (p mod 1024)} = (+) (B * 1024) ` bits ws"
    proof (intro set_eqI iffI)
      fix p assume "p \<in> (+) (B * 1024) ` bits ws"
      then obtain i where i: "p = B * 1024 + i" "i \<in> bits ws" by auto
      then have "p div 1024 = B" "p mod 1024 = i" "a \<le> i" "i < d" using fin(2) within by auto
      then show "p \<in> {p. p div 1024 = B \<and> a \<le> p mod 1024 \<and> p mod 1024 < d \<and> wanted (Some ws) (p mod 1024)}"
        using i(2) get [of i] fin(2) [of i] by simp
    next
      fix p assume "p \<in> {p. p div 1024 = B \<and> a \<le> p mod 1024 \<and> p mod 1024 < d \<and> wanted (Some ws) (p mod 1024)}"
      then have "p = B * 1024 + p mod 1024" "p mod 1024 \<in> bits ws" using get [of "p mod 1024"] by auto
      then show "p \<in> (+) (B * 1024) ` bits ws" by blast
    qed
    have "B * TRACKER_REGION_SIZE div TRACKER_REGION_SIZE = B" by (simp add: TRACKER_REGION_SIZE_def)
    from pm_region_step [OF ok this base(2) less_imp_le [OF ad] last(2) order_refl ad, of "Some ws" track is_read]
    show ?thesis using get [of a] a by (simp add: pages run)
  qed
qed

section \<open>Property\<close>

text \<open>C15:
  The loop over the pages of a region, which gathers neighbouring pages into as few host calls as it can, does what handling each page
  on its own would: every page wanted has one watcher more or less, every page of the range ends with the host protection that its counts ask
  for, no other page changes, and the program ends exactly when a counter would leave its range.
\<close>

theorem region_watchers_exact:
  assumes "\<forall>i. f \<le> i \<and> i < e \<longrightarrow> host (b + i) = page_perms (region i)" and "f \<le> e"
  shows "update_region_watchers track is_read wmask (b * TRACKER_PAGE_SIZE) f e region host =
    (if \<forall>i. f \<le> i \<and> i < e \<and> wanted wmask i \<longrightarrow> can_bump track is_read (region i)
     then Some (bumped_pages track is_read wmask f e region,
       \<lambda>p. if b + f \<le> p \<and> p < b + e then page_perms (bumped_pages track is_read wmask f e region (p - b)) else host p)
     else None)"
  by (rule update_region_spec [OF assms])

theorem region_watchers_exact_witness:
  "\<exists>region host. update_region_watchers True False (Some [5]) (1024 * TRACKER_PAGE_SIZE) 0 3 (\<lambda>_. blank_page) (\<lambda>_. ReadWrite) = Some (region, host) \<and>
    map host [1024, 1025, 1026, 1027] = [ReadOnly, ReadWrite, ReadOnly, ReadWrite]"
proof -
  have h: "\<forall>i. 0 \<le> i \<and> i < 3 \<longrightarrow> ReadWrite = page_perms blank_page" by (simp add: page_perms_def blank_page_def)
  have can: "can_bump True False blank_page" by (simp add: can_bump_def watcher_count_def blank_page_def)
  show ?thesis
    using region_watchers_exact [where host = "\<lambda>_. ReadWrite" and region = "\<lambda>_. blank_page" and f = 0 and e = 3 and b = 1024 and track = True
      and is_read = False and wmask = "Some [5]", OF h] can
    by (simp add: bumped_pages_def wanted_def ba_get_def bump_def watcher_count_def page_perms_def blank_page_def)
qed

end
