(* ===== verification/Tracker_Regions.thy ===== *)
theory Tracker_Regions
  imports Memory_Tracker Page_Manager_Facts
begin

text \<open>
  The tracker as two sets of pages, those the CPU wrote last (\<open>cpu_pages\<close>) and those the GPU wrote last (\<open>gpu_pages\<close>), over all
  regions whether they exist yet or not, and what the work on one region does to them: \<open>tk_inv\<close> says that the bits of each region
  are consistent and that every page has the watchers its place in the sets asks for, \<open>tk_change_step\<close> that a change of state keeps
  it.
\<close>

section \<open>The state\<close>

definition cpu_pages :: "tracker \<Rightarrow> nat set" where
  "cpu_pages t = {p. case tk_regions t (p div 1024) of None \<Rightarrow> True | Some r \<Rightarrow> p mod 1024 \<in> bits (rm_cpu_dirty r)}"

definition gpu_pages :: "tracker \<Rightarrow> nat set" where
  "gpu_pages t = {p. case tk_regions t (p div 1024) of None \<Rightarrow> False | Some r \<Rightarrow> p mod 1024 \<in> bits (rm_gpu_dirty r)}"

definition region_ok :: "region \<Rightarrow> bool" where
  "region_ok r \<longleftrightarrow> length (rm_cpu_dirty r) = 16 \<and> length (rm_gpu_dirty r) = 16 \<and> length (rm_writable r) = 16 \<and> length (rm_readable r) = 16 \<and>
     bits (rm_writable r) = bits (rm_cpu_dirty r) \<and> bits (rm_readable r) = {0..<1024} - bits (rm_gpu_dirty r) \<and>
     bits (rm_cpu_dirty r) \<inter> bits (rm_gpu_dirty r) = {}"

text \<open>The watchers of a page: those of others (\<open>ww\<close> of writes, \<open>aw\<close> of every access), and the tracker's.\<close>

definition page_for :: "(nat \<Rightarrow> nat) \<Rightarrow> (nat \<Rightarrow> nat) \<Rightarrow> nat set \<Rightarrow> nat set \<Rightarrow> nat \<Rightarrow> page_state" where
  "page_for ww aw C G p = \<lparr>write_watchers = ww p + (if p \<in> C then 0 else 1), access_watchers = aw p + (if p \<in> G then 1 else 0)\<rparr>"

definition watchers_fit :: "(nat \<Rightarrow> nat) \<Rightarrow> (nat \<Rightarrow> nat) \<Rightarrow> bool" where
  "watchers_fit ww aw \<longleftrightarrow> (\<forall>p. ww p < 127 \<and> aw p < 255)"

definition tk_inv :: "(nat \<Rightarrow> nat) \<Rightarrow> (nat \<Rightarrow> nat) \<Rightarrow> tracker \<Rightarrow> bool" where
  "tk_inv ww aw t \<longleftrightarrow> (\<forall>B r. tk_regions t B = Some r \<longrightarrow> region_ok r \<and> B < 262144) \<and> pm_ok (tk_pages t) \<and>
     page_at (tk_pages t) = page_for ww aw (cpu_pages t) (gpu_pages t)"

lemma tk_invD:
  assumes "tk_inv ww aw t"
  shows "tk_regions t B = Some r \<Longrightarrow> region_ok r" and "tk_regions t B = Some r \<Longrightarrow> B < 262144" and "pm_ok (tk_pages t)"
    and "page_at (tk_pages t) = page_for ww aw (cpu_pages t) (gpu_pages t)"
  using assms unfolding tk_inv_def by blast+

lemma tk_pages_disjoint:
  assumes "tk_inv ww aw t"
  shows "cpu_pages t \<inter> gpu_pages t = {}"
proof -
  have "p \<notin> cpu_pages t" if p: "p \<in> gpu_pages t" for p
  proof -
    obtain r where r: "tk_regions t (p div 1024) = Some r" "p mod 1024 \<in> bits (rm_gpu_dirty r)"
      using p by (cases "tk_regions t (p div 1024)") (auto simp: gpu_pages_def)
    then have "p mod 1024 \<notin> bits (rm_cpu_dirty r)" using tk_invD(1) [OF assms r(1)] unfolding region_ok_def by blast
    then show ?thesis using r(1) by (simp add: cpu_pages_def)
  qed
  then show ?thesis by blast
qed

text \<open>The pages of a region, by their indices in it.\<close>

definition blk :: "nat \<Rightarrow> nat set \<Rightarrow> nat set" where
  "blk B S = (+) (B * 1024) ` S"

lemma blk_iff: "S \<subseteq> {0..<1024} \<Longrightarrow> p \<in> blk B S \<longleftrightarrow> p div 1024 = B \<and> p mod 1024 \<in> S"
proof
  assume S: "S \<subseteq> {0..<1024}" and "p \<in> blk B S"
  then obtain i where i: "i \<in> S" "p = B * 1024 + i" by (auto simp: blk_def)
  then have "i < 1024" using S by auto
  then show "p div 1024 = B \<and> p mod 1024 \<in> S" using i by simp
next
  assume "p div 1024 = B \<and> p mod 1024 \<in> S"
  then have "p = B * 1024 + p mod 1024" "p mod 1024 \<in> S" by auto
  then show "p \<in> blk B S" unfolding blk_def by blast
qed

lemma region_bits_bound:
  assumes "region_ok r"
  shows "bits (rm_cpu_dirty r) \<subseteq> {0..<1024}" and "bits (rm_gpu_dirty r) \<subseteq> {0..<1024}"
  using assms bits_bound [of "rm_cpu_dirty r"] bits_bound [of "rm_gpu_dirty r"] by (simp_all add: region_ok_def)

text \<open>What the sets become when one region changes.\<close>

lemma tk_put_sets:
  assumes "tk_regions t B = Some r"
  shows "cpu_pages (tk_put B r' pm t) = {p. if p div 1024 = B then p mod 1024 \<in> bits (rm_cpu_dirty r') else p \<in> cpu_pages t}"
    and "gpu_pages (tk_put B r' pm t) = {p. if p div 1024 = B then p mod 1024 \<in> bits (rm_gpu_dirty r') else p \<in> gpu_pages t}"
  using assms by (auto simp: cpu_pages_def gpu_pages_def tk_put_def)

lemma tk_put_regions [simp]: "tk_regions (tk_put B r pm t) = (tk_regions t)(B \<mapsto> r)" "tk_pages (tk_put B r pm t) = pm"
  by (simp_all add: tk_put_def)

lemma in_region:
  assumes "tk_regions t (p div 1024) = Some r"
  shows "p \<in> cpu_pages t \<longleftrightarrow> p mod 1024 \<in> bits (rm_cpu_dirty r)" and "p \<in> gpu_pages t \<longleftrightarrow> p mod 1024 \<in> bits (rm_gpu_dirty r)"
  using assms by (simp_all add: cpu_pages_def gpu_pages_def)

section \<open>Dirty pages and watchers\<close>

text \<open>A watcher more or less for pages of which the tracker has none, or one.\<close>

lemma region_watchers:
  assumes ok: "pm_ok pm" and fit: "watchers_fit ww aw" and B: "B < 262144" and ws: "length ws = 16" "bits ws \<noteq> {}"
    and zero: "0 \<notin> blk B (bits ws)"
    and can: "\<And>p. p \<in> blk B (bits ws) \<Longrightarrow> can_bump track is_read (page_at pm p)"
  shows "\<exists>pm'. update_page_watchers_for_region track is_read (B * TRACKER_REGION_SIZE) ws pm = Some pm' \<and> pm_ok pm' \<and>
    page_at pm' = bump_on track is_read (blk B (bits ws)) (page_at pm)"
proof -
  have "finite (bits ws)" using bits_bound [of ws] by (rule finite_subset) simp
  then have "Min (bits ws) \<in> bits ws" using ws(2) by simp
  then have "B * 1024 + Min (bits ws) \<in> blk B (bits ws)" unfolding blk_def by blast
  then have "0 < B * 1024 + Min (bits ws)" using zero by (metis neq0_conv)
  from update_for_region_step [OF ok B ws this, of track is_read] can
  show ?thesis by (simp add: pm_step_def blk_def)
qed

lemma bump_page_for:
  assumes "watchers_fit ww aw"
  shows "p \<notin> C \<Longrightarrow> can_bump False False (page_for ww aw C G p)" "p \<in> C \<Longrightarrow> can_bump True False (page_for ww aw C G p)"
    "p \<in> G \<Longrightarrow> can_bump False True (page_for ww aw C G p)" "p \<notin> G \<Longrightarrow> can_bump True True (page_for ww aw C G p)"
  using assms by (auto simp: can_bump_def watcher_count_def page_for_def watchers_fit_def dest!: spec [of _ p])

lemma bump_on_page_for:
  "D \<inter> C = {} \<Longrightarrow> bump_on False False D (page_for ww aw C G) = page_for ww aw (C \<union> D) G"
  "D \<subseteq> C \<Longrightarrow> bump_on True False D (page_for ww aw C G) = page_for ww aw (C - D) G"
  "D \<subseteq> G \<Longrightarrow> bump_on False True D (page_for ww aw C G) = page_for ww aw C (G - D)"
  "D \<inter> G = {} \<Longrightarrow> bump_on True True D (page_for ww aw C G) = page_for ww aw C (G \<union> D)"
  by (auto simp: fun_eq_iff bump_on_def page_for_def bump_def watcher_count_def)

text \<open>
  The updates of the protection of a region whose dirty pages of one kind have changed from \<open>r\<close> to those of \<open>r'\<close>: the tracker
  is consistent again.
\<close>

lemma update_cpu_protection_step:
  assumes inv: "tk_inv ww aw t" and fit: "watchers_fit ww aw" and r: "tk_regions t B = Some r"
    and r': "r' = r\<lparr>rm_cpu_dirty := ws\<rparr>" "length ws = 16" "bits ws \<inter> bits (rm_gpu_dirty r) = {}"
    and dir: "if track then bits ws \<subseteq> bits (rm_cpu_dirty r) else bits (rm_cpu_dirty r) \<subseteq> bits ws"
    and zero: "0 \<notin> blk B (bits ws - bits (rm_cpu_dirty r) \<union> (bits (rm_cpu_dirty r) - bits ws))"
  shows "\<exists>r2 pm. update_cpu_protection track (B * TRACKER_REGION_SIZE) r' (tk_pages t) = Some (r2, pm) \<and> tk_inv ww aw (tk_put B r2 pm t) \<and>
    rm_cpu_dirty r2 = ws \<and> rm_gpu_dirty r2 = rm_gpu_dirty r"
proof -
  note ok = tk_invD(1) [OF inv r]
  define D where "D = bits ws - bits (rm_cpu_dirty r) \<union> (bits (rm_cpu_dirty r) - bits ws)"
  define changed where "changed = ba_xor (rm_cpu_dirty r') (rm_writable r')"
  define r2 where "r2 = r'\<lparr>rm_writable := rm_cpu_dirty r'\<rparr>"
  have ch: "bits changed = D" "length changed = 16"
    using ok r' bits_whole(4) [of "rm_writable r" ws] by (auto simp: changed_def D_def region_ok_def ba_xor_def)
  have r2: "region_ok r2" "rm_cpu_dirty r2 = ws" "rm_gpu_dirty r2 = rm_gpu_dirty r"
    using ok r' by (simp_all add: r2_def region_ok_def)
  have bound: "bits ws \<subseteq> {0..<1024}" using bits_bound [of ws] r'(2) by simp
  then have D: "D \<subseteq> {0..<1024}" using region_bits_bound [OF ok] by (auto simp: D_def)
  have bd: "p \<in> blk B D \<longleftrightarrow> p div 1024 = B \<and> (p mod 1024 \<in> bits ws) \<noteq> (p mod 1024 \<in> bits (rm_cpu_dirty r))" for p
    unfolding blk_iff [OF D] unfolding D_def by blast
  define C' where "C' = (if track then cpu_pages t - blk B D else cpu_pages t \<union> blk B D)"
  have C': "cpu_pages (tk_put B r2 pm t) = C'" for pm
  proof -
    have "p \<in> C' \<longleftrightarrow> (if p div 1024 = B then p mod 1024 \<in> bits ws else p \<in> cpu_pages t)" for p
      using bd [of p] dir in_region(1) [of t p r] r by (cases "p div 1024 = B"; cases track) (auto simp: C'_def)
    then show ?thesis unfolding tk_put_sets(1) [OF r] r2(2) by blast
  qed
  have G': "gpu_pages (tk_put B r2 pm t) = gpu_pages t" for pm
    using in_region(2) [of t _ r] r by (auto simp: tk_put_sets(2) [OF r] r2(3))
  have inC: "p \<in> blk B D \<Longrightarrow> p \<in> cpu_pages t \<longleftrightarrow> track" for p
    using in_region(1) [of t p r] r dir by (auto simp: bd split: if_splits)
  have regs: "(tk_regions (tk_put B r2 pm t)) B' = Some q \<Longrightarrow> region_ok q \<and> B' < 262144" for pm B' q
    using tk_invD(1,2) [OF inv] r2(1) r by (auto split: if_splits)
  have result: "tk_inv ww aw (tk_put B r2 pm t)" if "pm_ok pm" "page_at pm = page_for ww aw C' (gpu_pages t)" for pm
    unfolding tk_inv_def C' G' using regs that by auto
  have "\<exists>pm. update_cpu_protection track (B * TRACKER_REGION_SIZE) r' (tk_pages t) = Some (r2, pm) \<and> pm_ok pm \<and>
      page_at pm = page_for ww aw C' (gpu_pages t)"
  proof (cases "D = {}")
    case True
    then have "C' = cpu_pages t" by (simp add: C'_def blk_def)
    then show ?thesis using True tk_invD(3,4) [OF inv] ch(1)
      by (auto simp: update_cpu_protection_def Let_def changed_def [symmetric] r2_def ba_none_iff)
  next
    case False
    have can: "can_bump track False (page_at (tk_pages t) p)" if "p \<in> blk B D" for p
      using inC [OF that] bump_page_for(1,2) [OF fit, of p "cpu_pages t" "gpu_pages t"] tk_invD(4) [OF inv] by (cases track) simp_all
    obtain pm' where pm': "update_page_watchers_for_region track False (B * TRACKER_REGION_SIZE) changed (tk_pages t) = Some pm'" "pm_ok pm'"
        "page_at pm' = bump_on track False (blk B D) (page_at (tk_pages t))"
      using region_watchers [OF tk_invD(3) [OF inv] fit tk_invD(2) [OF inv r] ch(2), of track False] ch(1) False can zero [folded D_def] by auto
    have "page_at pm' = page_for ww aw C' (gpu_pages t)"
    proof (cases track)
      case True
      then have "blk B D \<subseteq> cpu_pages t" using inC by blast
      then show ?thesis using True bump_on_page_for(2) by (simp add: pm'(3) tk_invD(4) [OF inv] C'_def)
    next
      case untrack: False
      then have "blk B D \<inter> cpu_pages t = {}" using inC by blast
      then show ?thesis using untrack bump_on_page_for(1) by (simp add: pm'(3) tk_invD(4) [OF inv] C'_def)
    qed
    then show ?thesis using False pm' ch(1)
      by (auto simp: update_cpu_protection_def Let_def changed_def [symmetric] r2_def ba_none_iff)
  qed
  then show ?thesis using result r2(2,3) by blast
qed


lemma update_gpu_protection_step:
  assumes inv: "tk_inv ww aw t" and fit: "watchers_fit ww aw" and r: "tk_regions t B = Some r"
    and r': "r' = r\<lparr>rm_gpu_dirty := ws\<rparr>" "length ws = 16" "bits ws \<inter> bits (rm_cpu_dirty r) = {}"
    and dir: "if track then bits (rm_gpu_dirty r) \<subseteq> bits ws else bits ws \<subseteq> bits (rm_gpu_dirty r)"
    and zero: "0 \<notin> blk B (bits ws - bits (rm_gpu_dirty r) \<union> (bits (rm_gpu_dirty r) - bits ws))"
  shows "\<exists>r2 pm. update_gpu_protection track (B * TRACKER_REGION_SIZE) r' (tk_pages t) = Some (r2, pm) \<and> tk_inv ww aw (tk_put B r2 pm t) \<and>
    rm_gpu_dirty r2 = ws \<and> rm_cpu_dirty r2 = rm_cpu_dirty r"
proof -
  note ok = tk_invD(1) [OF inv r]
  define D where "D = bits ws - bits (rm_gpu_dirty r) \<union> (bits (rm_gpu_dirty r) - bits ws)"
  define changed where "changed = ba_xor (ba_not (rm_gpu_dirty r')) (rm_readable r')"
  define r2 where "r2 = r'\<lparr>rm_readable := ba_not (rm_gpu_dirty r')\<rparr>"
  have bound: "bits ws \<subseteq> {0..<1024}" using bits_bound [of ws] r'(2) by simp
  have "bits changed = {0..<1024} - bits ws - ({0..<1024} - bits (rm_gpu_dirty r)) \<union> ({0..<1024} - bits (rm_gpu_dirty r) - ({0..<1024} - bits ws))"
    using ok r' bits_whole(3) [of ws] bits_whole(4) [of "rm_readable r" "ba_not ws"] by (simp add: changed_def region_ok_def ba_not_def)
  also have "\<dots> = D" using bound region_bits_bound(2) [OF ok] unfolding D_def by blast
  finally have ch: "bits changed = D" "length changed = 16" using ok r' by (simp_all add: changed_def region_ok_def ba_xor_def ba_not_def)
  have r2: "region_ok r2" "rm_gpu_dirty r2 = ws" "rm_cpu_dirty r2 = rm_cpu_dirty r"
    using ok r' by (simp_all add: r2_def region_ok_def bits_whole Int_commute) (simp_all add: ba_not_def)
  have D: "D \<subseteq> {0..<1024}" using region_bits_bound [OF ok] bound by (auto simp: D_def)
  have bd: "p \<in> blk B D \<longleftrightarrow> p div 1024 = B \<and> (p mod 1024 \<in> bits ws) \<noteq> (p mod 1024 \<in> bits (rm_gpu_dirty r))" for p
    unfolding blk_iff [OF D] unfolding D_def by blast
  define G' where "G' = (if track then gpu_pages t \<union> blk B D else gpu_pages t - blk B D)"
  have G': "gpu_pages (tk_put B r2 pm t) = G'" for pm
  proof -
    have "p \<in> G' \<longleftrightarrow> (if p div 1024 = B then p mod 1024 \<in> bits ws else p \<in> gpu_pages t)" for p
      using bd [of p] dir in_region(2) [of t p r] r by (cases "p div 1024 = B"; cases track) (auto simp: G'_def)
    then show ?thesis unfolding tk_put_sets(2) [OF r] r2(2) by blast
  qed
  have C': "cpu_pages (tk_put B r2 pm t) = cpu_pages t" for pm
    using in_region(1) [of t _ r] r by (auto simp: tk_put_sets(1) [OF r] r2(3))
  have inG: "p \<in> blk B D \<Longrightarrow> p \<in> gpu_pages t \<longleftrightarrow> \<not> track" for p
    using in_region(2) [of t p r] r dir by (auto simp: bd split: if_splits)
  have regs: "(tk_regions (tk_put B r2 pm t)) B' = Some q \<Longrightarrow> region_ok q \<and> B' < 262144" for pm B' q
    using tk_invD(1,2) [OF inv] r2(1) r by (auto split: if_splits)
  have result: "tk_inv ww aw (tk_put B r2 pm t)" if "pm_ok pm" "page_at pm = page_for ww aw (cpu_pages t) G'" for pm
    unfolding tk_inv_def C' G' using regs that by auto
  have "\<exists>pm. update_gpu_protection track (B * TRACKER_REGION_SIZE) r' (tk_pages t) = Some (r2, pm) \<and> pm_ok pm \<and>
      page_at pm = page_for ww aw (cpu_pages t) G'"
  proof (cases "D = {}")
    case True
    then have "G' = gpu_pages t" by (simp add: G'_def blk_def)
    then show ?thesis using True tk_invD(3,4) [OF inv] ch(1)
      by (auto simp: update_gpu_protection_def Let_def changed_def [symmetric] r2_def ba_none_iff)
  next
    case False
    have can: "can_bump track True (page_at (tk_pages t) p)" if "p \<in> blk B D" for p
      using inG [OF that] bump_page_for(3,4) [OF fit, of p "gpu_pages t" "cpu_pages t"] tk_invD(4) [OF inv] by (cases track) simp_all
    obtain pm' where pm': "update_page_watchers_for_region track True (B * TRACKER_REGION_SIZE) changed (tk_pages t) = Some pm'" "pm_ok pm'"
        "page_at pm' = bump_on track True (blk B D) (page_at (tk_pages t))"
      using region_watchers [OF tk_invD(3) [OF inv] fit tk_invD(2) [OF inv r] ch(2), of track True] ch(1) False can zero [folded D_def] by auto
    have "page_at pm' = page_for ww aw (cpu_pages t) G'"
    proof (cases track)
      case True
      then have "blk B D \<inter> gpu_pages t = {}" using inG by blast
      then show ?thesis using True bump_on_page_for(4) by (simp add: pm'(3) tk_invD(4) [OF inv] G'_def)
    next
      case untrack: False
      then have "blk B D \<subseteq> gpu_pages t" using inG by blast
      then show ?thesis using untrack bump_on_page_for(3) by (simp add: pm'(3) tk_invD(4) [OF inv] G'_def)
    qed
    then show ?thesis using False pm' ch(1)
      by (auto simp: update_gpu_protection_def Let_def changed_def [symmetric] r2_def ba_none_iff)
  qed
  then show ?thesis using result r2(2,3) by blast
qed

section \<open>One region\<close>

text \<open>The pages of a range, and of the part of a range in a region.\<close>

definition pages_of :: "u64 \<Rightarrow> u64 \<Rightarrow> nat set" where
  "pages_of v n = {v div TRACKER_PAGE_SIZE..<(v + n + TRACKER_PAGE_SIZE - 1) div TRACKER_PAGE_SIZE}"

lemma page_range:
  assumes "0 < n" and "off + n \<le> TRACKER_REGION_SIZE"
  obtains s e where "get_page_range (tk_addr B) (tk_addr B + off) n = Some (s, e)" and "s < e" and "e \<le> 1024"
    and "pages_of (tk_addr B + off) n = blk B {s..<e}"
proof -
  define s where "s = off div TRACKER_PAGE_SIZE"
  define e where "e = (off + n + TRACKER_PAGE_SIZE - 1) div TRACKER_PAGE_SIZE"
  have range: "get_page_range (tk_addr B) (tk_addr B + off) n = Some (s, e)"
    using assms by (simp add: get_page_range_def s_def e_def Let_def)
  have "s < e"
  proof -
    have "off + TRACKER_PAGE_SIZE \<le> off + n + TRACKER_PAGE_SIZE - 1" using assms(1) by simp
    then have "(off + TRACKER_PAGE_SIZE) div TRACKER_PAGE_SIZE \<le> e" unfolding e_def by (rule div_le_mono)
    then show ?thesis by (simp add: s_def div_add_self2)
  qed
  have "off + n + TRACKER_PAGE_SIZE - 1 < 1025 * TRACKER_PAGE_SIZE" using assms by (simp add: TRACKER_REGION_SIZE_def TRACKER_PAGE_SIZE_def)
  then have "e < 1025" unfolding e_def by (simp add: less_mult_imp_div_less)
  have addr: "tk_addr B = B * 1024 * TRACKER_PAGE_SIZE" by (simp add: region_consts)
  have "(tk_addr B + off) div TRACKER_PAGE_SIZE = B * 1024 + s" unfolding addr s_def by simp
  moreover have "(tk_addr B + off + n + TRACKER_PAGE_SIZE - 1) div TRACKER_PAGE_SIZE = B * 1024 + e"
  proof -
    have "tk_addr B + off + n + TRACKER_PAGE_SIZE - 1 = B * 1024 * TRACKER_PAGE_SIZE + (off + n + TRACKER_PAGE_SIZE - 1)"
      unfolding addr using assms(1) by simp
    then show ?thesis by (simp add: e_def)
  qed
  ultimately have "pages_of (tk_addr B + off) n = blk B {s..<e}" by (simp add: pages_of_def blk_def image_add_atLeastLessThan add.commute)
  then show thesis using range \<open>s < e\<close> \<open>e < 1025\<close> that by simp
qed

lemma any_in_range: "s < e \<Longrightarrow> e \<le> 64 * length ws \<Longrightarrow> \<not> ba_none (ba_copy_range ws s e) \<longleftrightarrow> bits ws \<inter> {s..<e} \<noteq> {}"
  by (simp add: ba_none_iff bits_copy_range)

definition source_pages :: "dirty_source \<Rightarrow> tracker \<Rightarrow> nat set" where
  "source_pages source t = (case source of Cpu \<Rightarrow> cpu_pages t | Gpu \<Rightarrow> gpu_pages t)"

lemma source_pages_simps [simp]: "source_pages Cpu t = cpu_pages t" "source_pages Gpu t = gpu_pages t"
  by (simp_all add: source_pages_def)

lemma blk_meets:
  assumes "tk_inv ww aw t" and "tk_regions t B = Some r" and "e \<le> 1024"
  shows "source_pages source t \<inter> blk B {s..<e} \<noteq> {} \<longleftrightarrow> bits (rm_bits source r) \<inter> {s..<e} \<noteq> {}"
proof -
  have b: "{s..<e} \<subseteq> {0..<1024}" using assms(3) by auto
  have i: "p \<in> blk B {s..<e} \<Longrightarrow> p \<in> source_pages source t \<longleftrightarrow> p mod 1024 \<in> bits (rm_bits source r)" for p
    using in_region [of t p r] assms(2) by (cases source) (auto simp: blk_iff [OF b] rm_bits_def)
  show ?thesis
  proof
    assume "source_pages source t \<inter> blk B {s..<e} \<noteq> {}"
    then obtain p where p: "p \<in> source_pages source t" "p \<in> blk B {s..<e}" by blast
    then have "p mod 1024 \<in> bits (rm_bits source r) \<inter> {s..<e}" using i [OF p(2)] unfolding blk_iff [OF b] by blast
    then show "bits (rm_bits source r) \<inter> {s..<e} \<noteq> {}" by blast
  next
    assume "bits (rm_bits source r) \<inter> {s..<e} \<noteq> {}"
    then obtain q where q: "q \<in> bits (rm_bits source r)" "q \<in> {s..<e}" by blast
    then have p: "B * 1024 + q \<in> blk B {s..<e}" "(B * 1024 + q) mod 1024 = q" using assms(3) by (auto simp: blk_def)
    then have "B * 1024 + q \<in> source_pages source t" using i [OF p(1)] q(1) by simp
    then show "source_pages source t \<inter> blk B {s..<e} \<noteq> {}" using p(1) by blast
  qed
qed

lemma tk_query_step:
  assumes inv: "tk_inv ww aw t" and r: "tk_regions t B = Some r" and n: "0 < n" "off + n \<le> TRACKER_REGION_SIZE"
  shows "rm_is_modified source (tk_addr B) off n r = Some (source_pages source t \<inter> pages_of (tk_addr B + off) n \<noteq> {})"
proof -
  obtain s e where se: "get_page_range (tk_addr B) (tk_addr B + off) n = Some (s, e)" "s < e" "e \<le> 1024"
    "pages_of (tk_addr B + off) n = blk B {s..<e}" using page_range [OF n] .
  have len: "length (rm_bits source r) = 16" using tk_invD(1) [OF inv r] by (cases source) (simp_all add: region_ok_def rm_bits_def)
  show ?thesis using any_in_range [OF se(2), of "rm_bits source r"] len se blk_meets [OF inv r se(3), of source s]
    by (simp add: rm_is_modified_def)
qed

text \<open>What a change does to the two sets: a page of one source may not become dirty for the other.\<close>

definition mark_conflict :: "dirty_source \<Rightarrow> bool \<Rightarrow> nat set \<Rightarrow> tracker \<Rightarrow> bool" where
  "mark_conflict source enable S t \<longleftrightarrow> enable \<and> source_pages (case source of Cpu \<Rightarrow> Gpu | Gpu \<Rightarrow> Cpu) t \<inter> S \<noteq> {}"

definition marked :: "dirty_source \<Rightarrow> bool \<Rightarrow> nat set \<Rightarrow> tracker \<Rightarrow> tracker \<Rightarrow> bool" where
  "marked source enable S t t' \<longleftrightarrow>
     source_pages source t' = (if enable then source_pages source t \<union> S else source_pages source t - S) \<and>
     (\<forall>other. other \<noteq> source \<longrightarrow> source_pages other t' = source_pages other t)"

lemma blk_sets:
  assumes "blk B S \<union> blk B T \<subseteq> U"
  shows "0 \<notin> U \<Longrightarrow> 0 \<notin> blk B (S \<union> T)"
  using assms by (auto simp: blk_def)

lemma tk_change_step:
  assumes inv: "tk_inv ww aw t" and fit: "watchers_fit ww aw" and r: "tk_regions t B = Some r"
    and n: "0 < n" "off + n \<le> TRACKER_REGION_SIZE" and zero: "0 \<notin> pages_of (tk_addr B + off) n"
  shows "if mark_conflict source enable (pages_of (tk_addr B + off) n) t
    then rm_change_state source enable (tk_addr B) (tk_addr B + off) n r (tk_pages t) = None
    else \<exists>r2 pm. rm_change_state source enable (tk_addr B) (tk_addr B + off) n r (tk_pages t) = Some (r2, pm) \<and>
      tk_inv ww aw (tk_put B r2 pm t) \<and> marked source enable (pages_of (tk_addr B + off) n) t (tk_put B r2 pm t)"
proof -
  obtain s e where se: "get_page_range (tk_addr B) (tk_addr B + off) n = Some (s, e)" "s < e" "e \<le> 1024"
    "pages_of (tk_addr B + off) n = blk B {s..<e}" using page_range [OF n] .
  note ok = tk_invD(1) [OF inv r]
  have len: "length (rm_cpu_dirty r) = 16" "length (rm_gpu_dirty r) = 16" using ok by (simp_all add: region_ok_def)
  have b: "{s..<e} \<subseteq> {0..<1024}" using se(3) by auto
  have disj: "bits (rm_cpu_dirty r) \<inter> bits (rm_gpu_dirty r) = {}" using ok by (simp add: region_ok_def)
  define other where "other = (case source of Cpu \<Rightarrow> rm_gpu_dirty r | Gpu \<Rightarrow> rm_cpu_dirty r)"
  have conflict: "mark_conflict source enable (blk B {s..<e}) t \<longleftrightarrow> enable \<and> bits other \<inter> {s..<e} \<noteq> {}"
    using blk_meets [OF inv r se(3), of Cpu s] blk_meets [OF inv r se(3), of Gpu s]
    by (cases source) (simp_all add: mark_conflict_def other_def rm_bits_def)
  define ws where "ws = (if enable then ba_set_range s e (rm_bits source r) else ba_unset_range s e (rm_bits source r))"
  have ws: "length ws = 16" "bits ws = (if enable then bits (rm_bits source r) \<union> {s..<e} else bits (rm_bits source r) - {s..<e})"
    using bits_set_range [OF se(2)] bits_unset_range [OF se(2)] se(3) len by (cases source; simp add: ws_def rm_bits_def)+
  have run: "rm_change_state source enable (tk_addr B) (tk_addr B + off) n r (tk_pages t) =
      (if enable \<and> bits other \<inter> {s..<e} \<noteq> {} then None
       else if source = Cpu then update_cpu_protection (\<not> enable) (tk_addr B) (r\<lparr>rm_cpu_dirty := ws\<rparr>) (tk_pages t)
       else update_gpu_protection enable (tk_addr B) (r\<lparr>rm_gpu_dirty := ws\<rparr>) (tk_pages t))"
    using any_in_range [OF se(2), of other] len se(3)
    by (cases source) (auto simp: rm_change_state_def se(1) other_def ws_def rm_bits_def rm_set_bits_def)
  have diff: "bits ws - bits (rm_bits source r) \<union> (bits (rm_bits source r) - bits ws) \<subseteq> {s..<e}" using ws(2) by auto
  then have z: "0 \<notin> blk B (bits ws - bits (rm_bits source r) \<union> (bits (rm_bits source r) - bits ws))"
    using zero unfolding se(4) blk_def by blast
  show ?thesis
  proof (cases "mark_conflict source enable (blk B {s..<e}) t")
    case True
    then show ?thesis using conflict run by (simp add: se(4))
  next
    case False
    then have free: "\<not> (enable \<and> bits other \<inter> {s..<e} \<noteq> {})" using conflict by blast
    have sets: "marked source enable (blk B {s..<e}) t (tk_put B r2 pm t)"
      if that: "rm_bits source r2 = ws" and others: "\<And>x. x \<noteq> source \<Longrightarrow> rm_bits x r2 = rm_bits x r" for r2 pm
    proof -
      have mem: "p \<in> source_pages x (tk_put B r2 pm t) \<longleftrightarrow>
          (if p div 1024 = B then p mod 1024 \<in> bits (rm_bits x r2) else p \<in> source_pages x t)" for x p
        by (cases x) (simp_all add: tk_put_sets [OF r] rm_bits_def)
      have old: "p div 1024 = B \<Longrightarrow> p \<in> source_pages x t \<longleftrightarrow> p mod 1024 \<in> bits (rm_bits x r)" for x p
        using in_region [of t p r] r by (cases x) (simp_all add: rm_bits_def)
      have "p \<in> source_pages source (tk_put B r2 pm t) \<longleftrightarrow>
          p \<in> (if enable then source_pages source t \<union> blk B {s..<e} else source_pages source t - blk B {s..<e})" for p
        using mem [of p source] old [of p source] blk_iff [OF b, of p B] ws(2) that by (cases "p div 1024 = B") auto
      moreover have "source_pages x (tk_put B r2 pm t) = source_pages x t" if "x \<noteq> source" for x
      proof (rule set_eqI)
        fix p
        show "p \<in> source_pages x (tk_put B r2 pm t) \<longleftrightarrow> p \<in> source_pages x t"
          using mem [of p x] old [of p x] others [OF that] by (cases "p div 1024 = B") auto
      qed
      ultimately show ?thesis unfolding marked_def by blast
    qed
    have "\<exists>r2 pm. rm_change_state source enable (tk_addr B) (tk_addr B + off) n r (tk_pages t) = Some (r2, pm) \<and>
        tk_inv ww aw (tk_put B r2 pm t) \<and> rm_bits source r2 = ws \<and> (\<forall>x. x \<noteq> source \<longrightarrow> rm_bits x r2 = rm_bits x r)"
    proof (cases source)
      case Cpu
      have other: "bits ws \<inter> bits (rm_gpu_dirty r) = {}" using ws(2) disj free Cpu by (auto simp: other_def rm_bits_def)
      have dir: "if \<not> enable then bits ws \<subseteq> bits (rm_cpu_dirty r) else bits (rm_cpu_dirty r) \<subseteq> bits ws" using ws(2) Cpu by (auto simp: rm_bits_def)
      have z': "0 \<notin> blk B (bits ws - bits (rm_cpu_dirty r) \<union> (bits (rm_cpu_dirty r) - bits ws))" using z Cpu by (simp add: rm_bits_def)
      from update_cpu_protection_step [OF inv fit r refl ws(1) other dir z']
      obtain r2 pm where u: "update_cpu_protection (\<not> enable) (tk_addr B) (r\<lparr>rm_cpu_dirty := ws\<rparr>) (tk_pages t) = Some (r2, pm)"
        "tk_inv ww aw (tk_put B r2 pm t)" "rm_cpu_dirty r2 = ws" "rm_gpu_dirty r2 = rm_gpu_dirty r" by blast
      have "rm_bits x r2 = rm_bits x r" if "x \<noteq> Cpu" for x using that u(4) by (cases x) (simp_all add: rm_bits_def)
      then show ?thesis using run u free Cpu by (auto simp: rm_bits_def)
    next
      case Gpu
      have other: "bits ws \<inter> bits (rm_cpu_dirty r) = {}" using ws(2) disj free Gpu by (auto simp: other_def rm_bits_def)
      have dir: "if enable then bits (rm_gpu_dirty r) \<subseteq> bits ws else bits ws \<subseteq> bits (rm_gpu_dirty r)" using ws(2) Gpu by (auto simp: rm_bits_def)
      have z': "0 \<notin> blk B (bits ws - bits (rm_gpu_dirty r) \<union> (bits (rm_gpu_dirty r) - bits ws))" using z Gpu by (simp add: rm_bits_def)
      from update_gpu_protection_step [OF inv fit r refl ws(1) other dir z']
      obtain r2 pm where u: "update_gpu_protection enable (tk_addr B) (r\<lparr>rm_gpu_dirty := ws\<rparr>) (tk_pages t) = Some (r2, pm)"
        "tk_inv ww aw (tk_put B r2 pm t)" "rm_gpu_dirty r2 = ws" "rm_cpu_dirty r2 = rm_cpu_dirty r" by blast
      have "rm_bits x r2 = rm_bits x r" if "x \<noteq> Gpu" for x using that u(4) by (cases x) (simp_all add: rm_bits_def)
      then show ?thesis using run u free Gpu by (auto simp: rm_bits_def)
    qed
    then show ?thesis using False sets by (auto simp: se(4))
  qed
qed

end
