(* ===== verification/Memory_Tracker_Facts.thy ===== *)
theory Memory_Tracker_Facts
  imports Tracker_Regions
begin

text \<open>
  The operations of the tracker over all regions of a range: \<open>region_walk\<close> is the interface between \<open>Iterate\<close> and the functions it is
  given, and each operation's function is an instance of it. Then every operation is an operation on the two sets of pages, and
  the protection of the host's pages follows from the sets: a page can be written by the guest only when it is in the first, and
  read only when it is not in the second.
\<close>

section \<open>All regions of a range\<close>

definition part :: "nat \<Rightarrow> u64 \<Rightarrow> u64 \<Rightarrow> bool" where
  "part B off n \<longleftrightarrow> B < 262144 \<and> 0 < n \<and> off + n \<le> TRACKER_REGION_SIZE \<and> 0 \<notin> pages_of (tk_addr B + off) n"

lemma pages_of_split:
  assumes "TRACKER_PAGE_SIZE dvd v + n"
  shows "pages_of v (n + m) = pages_of v n \<union> pages_of (v + n) m" and "x \<in> pages_of v n \<Longrightarrow> y \<in> pages_of (v + n) m \<Longrightarrow> x < y"
proof -
  obtain k where k: "v + n = TRACKER_PAGE_SIZE * k" using assms by (auto elim: dvdE)
  have a: "pages_of v n = {v div TRACKER_PAGE_SIZE..<k}"
    by (simp add: pages_of_def k TRACKER_PAGE_SIZE_def)
  have "v div TRACKER_PAGE_SIZE \<le> (v + n) div TRACKER_PAGE_SIZE" by (rule div_le_mono) simp
  then have "v div TRACKER_PAGE_SIZE \<le> k" by (simp add: k)
  moreover have b: "pages_of (v + n) m = {k..<(v + n + m + TRACKER_PAGE_SIZE - 1) div TRACKER_PAGE_SIZE}"
    by (simp add: pages_of_def k)
  moreover have "k \<le> (v + n + m + TRACKER_PAGE_SIZE - 1) div TRACKER_PAGE_SIZE"
  proof -
    have "(v + n) div TRACKER_PAGE_SIZE \<le> (v + n + m + TRACKER_PAGE_SIZE - 1) div TRACKER_PAGE_SIZE"
      using TRACKER_PAGE_SIZE_pos(2) by (intro div_le_mono) linarith
    then show ?thesis by (simp add: k)
  qed
  ultimately show "pages_of v (n + m) = pages_of v n \<union> pages_of (v + n) m"
    using a unfolding pages_of_def [of v "n + m"] by (simp add: ivl_disj_un add.assoc [symmetric])
  show "x < y" if "x \<in> pages_of v n" "y \<in> pages_of (v + n) m" using that a b by auto
qed

text \<open>
  The interface between \<open>Iterate\<close> and the functions it is given: what \<open>func\<close> does to the pages of one region, and what it means to
  do it for two sets of pages one after the other, give what it does to all pages of a range. \<open>I\<close> is kept on the way.
\<close>

locale region_walk =
  fixes create :: bool and func :: "'a region_func" and R :: "nat set" and I :: "'a \<Rightarrow> tracker \<Rightarrow> bool"
    and P :: "nat set \<Rightarrow> 'a \<Rightarrow> tracker \<Rightarrow> (bool \<times> 'a \<times> tracker) option \<Rightarrow> bool"
  assumes no_pages: "I acc t \<Longrightarrow> P {} acc t (Some (False, acc, t))"
    and skip: "I acc t \<Longrightarrow> \<not> create \<Longrightarrow> tk_regions t B = None \<Longrightarrow> part B off n \<Longrightarrow> pages_of (tk_addr B + off) n \<subseteq> R \<Longrightarrow>
      P (pages_of (tk_addr B + off) n) acc t (Some (False, acc, t))"
    and made: "I acc t \<Longrightarrow> create \<Longrightarrow> tk_regions t B = None \<Longrightarrow> B < 262144 \<Longrightarrow> I acc (tk_get_or_create_region B t)"
    and made_result: "I acc t \<Longrightarrow> create \<Longrightarrow> tk_regions t B = None \<Longrightarrow> B < 262144 \<Longrightarrow> P S acc (tk_get_or_create_region B t) res \<Longrightarrow> P S acc t res"
    and call: "I acc t \<Longrightarrow> tk_regions t B = Some r \<Longrightarrow> part B off n \<Longrightarrow> pages_of (tk_addr B + off) n \<subseteq> R \<Longrightarrow>
      P (pages_of (tk_addr B + off) n) acc t (func B r off n acc t)"
    and keeps: "I acc t \<Longrightarrow> S \<subseteq> R \<Longrightarrow> P S acc t (Some (stop, acc', t')) \<Longrightarrow> I acc' t'"
    and seq: "I acc t \<Longrightarrow> P S acc t res \<Longrightarrow> (\<And>acc' t'. res = Some (False, acc', t') \<Longrightarrow> P T acc' t' (f acc' t')) \<Longrightarrow>
      (\<And>x y. x \<in> S \<Longrightarrow> y \<in> T \<Longrightarrow> x < y) \<Longrightarrow>
      P (S \<union> T) acc t (case res of None \<Rightarrow> None | Some (stop, acc', t') \<Rightarrow> if stop then Some (True, acc', t') else f acc' t')"
begin

lemma walk:
  "I acc t \<Longrightarrow> offset < TRACKER_REGION_SIZE \<Longrightarrow> tk_addr index + offset + remaining \<le> TRACKER_ADDRESS_SIZE \<Longrightarrow>
     (remaining = 0 \<longrightarrow> offset = 0) \<Longrightarrow> 0 \<notin> pages_of (tk_addr index + offset) remaining \<Longrightarrow> pages_of (tk_addr index + offset) remaining \<subseteq> R \<Longrightarrow>
     P (pages_of (tk_addr index + offset) remaining) acc t (iterate create func index offset remaining acc t)"
proof (induction remaining arbitrary: index offset acc t rule: less_induct)
  case (less remaining)
  define n where "n = min (TRACKER_REGION_SIZE - offset) remaining"
  define S where "S = pages_of (tk_addr index + offset) n"
  define T where "T = pages_of (tk_addr (index + 1)) (remaining - n)"
  define f where "f = iterate create func (index + 1) 0 (remaining - n)"
  show ?case
  proof (cases "remaining = 0")
    case True
    then have none: "pages_of (tk_addr index + offset) remaining = {}" using less.prems(4) by (auto simp: pages_of_def region_consts TRACKER_PAGE_SIZE_def)
    have stop: "iterate create func index offset remaining acc t = Some (False, acc, t)" using True by (simp add: iterate.simps)
    show ?thesis unfolding none stop by (rule no_pages [OF less.prems(1)])
  next
    case False
    then have n: "0 < n" "n \<le> remaining" "offset + n \<le> TRACKER_REGION_SIZE" using less.prems(2) by (auto simp: n_def)
    have index: "index < 262144" using less.prems(3) False unfolding TRACKER_REGION_SIZE_def TRACKER_ADDRESS_SIZE_def by linarith
    have over: "tk_addr (index + 1) \<le> TRACKER_ADDRESS_SIZE" using index by (simp add: TRACKER_REGION_SIZE_def TRACKER_ADDRESS_SIZE_def)
    have whole: "pages_of (tk_addr index + offset) remaining = S \<union> T \<and> (\<forall>x \<in> S. \<forall>y \<in> T. x < y)"
    proof (cases "remaining = n")
      case True
      then have "T = {}" by (simp add: T_def pages_of_def region_consts TRACKER_PAGE_SIZE_def)
      then show ?thesis using True by (simp add: S_def)
    next
      case more: False
      then have e: "tk_addr index + offset + n = tk_addr (index + 1)" using less.prems(2) n by (simp add: n_def min_def split: if_splits)
      have d: "TRACKER_PAGE_SIZE dvd tk_addr index + offset + n" unfolding e by (simp add: region_consts)
      have "n + (remaining - n) = remaining" using n(2) by simp
      then show ?thesis using pages_of_split(1) [OF d, of "remaining - n"] pages_of_split(2) [OF d] unfolding S_def T_def e by auto
    qed
    have rest: "P T acc' t' (f acc' t')" if "I acc' t'" for acc' t'
      unfolding T_def f_def
    proof (rule less.IH [where y = "remaining - n" and index = "index + 1" and offset = 0, unfolded add_0_right])
      show "tk_addr (index + 1) + (remaining - n) \<le> TRACKER_ADDRESS_SIZE"
      proof (cases "remaining = n")
        case more: False
        then have "tk_addr index + offset + n = tk_addr (index + 1)" using less.prems(2) n by (simp add: n_def min_def split: if_splits)
        then show ?thesis using less.prems(3) n(2) by simp
      qed (use over in simp)
      show "0 \<notin> pages_of (tk_addr (index + 1)) (remaining - n)" using whole less.prems(5) by (simp add: T_def)
      show "pages_of (tk_addr (index + 1)) (remaining - n) \<subseteq> R" using whole less.prems(6) by (simp add: T_def)
    qed (use n that in \<open>simp_all add: TRACKER_REGION_SIZE_def\<close>)
    have p: "part index offset n" using index n whole less.prems(5) by (simp add: part_def S_def)
    have sub: "S \<subseteq> R" using whole less.prems(6) by blast
    have lt: "x < y" if "x \<in> S" "y \<in> T" for x y using whole that by blast
    have step: "iterate create func index offset remaining acc t =
      (let t = (if tk_regions t index = None \<and> create then tk_get_or_create_region index t else t)
       in case tk_regions t index of None \<Rightarrow> f acc t
          | Some r \<Rightarrow> (case func index r offset n acc t of None \<Rightarrow> None | Some (stop, acc, t) \<Rightarrow> if stop then Some (True, acc, t) else f acc t))"
    proof -
      have c: "\<not> (remaining = 0 \<or> n = 0)" using False n(1) by simp
      show ?thesis unfolding iterate.simps [of create func index offset] Let_def n_def [symmetric] if_not_P [OF c] f_def ..
    qed
    have on_region: "P (S \<union> T) acc t' (case func index r offset n acc t' of None \<Rightarrow> None | Some (stop, acc, t) \<Rightarrow> if stop then Some (True, acc, t) else f acc t)"
      if t': "I acc t'" "tk_regions t' index = Some r" for t' r
    proof (rule seq [OF t'(1) call [OF t' p, folded S_def, OF sub] _ lt])
      show "P T acc' t'' (f acc' t'')" if res: "func index r offset n acc t' = Some (False, acc', t'')" for acc' t''
        using keeps [OF t'(1) sub call [OF t' p, folded S_def, OF sub, unfolded res]] by (rule rest)
    qed
    show ?thesis
    proof (cases "tk_regions t index")
      case None
      show ?thesis
      proof (cases create)
        case True
        note mk = made [OF less.prems(1) True None index]
        have "tk_regions (tk_get_or_create_region index t) index = Some region_manager_new" using None by (simp add: tk_get_or_create_region_def)
        note run = made_result [OF less.prems(1) True None index on_region [OF mk this]]
        have "iterate create func index offset remaining acc t =
            (case func index region_manager_new offset n acc (tk_get_or_create_region index t) of None \<Rightarrow> None
             | Some (stop, acc, t) \<Rightarrow> if stop then Some (True, acc, t) else f acc t)"
          using None True \<open>tk_regions (tk_get_or_create_region index t) index = Some region_manager_new\<close> unfolding step by (simp add: Let_def)
        then show ?thesis using run whole by simp
      next
        case False
        have run: "iterate create func index offset remaining acc t = f acc t" using False None unfolding step by (simp add: Let_def)
        from seq [OF less.prems(1) skip [OF less.prems(1) False None p, folded S_def, OF sub], of T f] rest less.prems(1) lt
        have "P (S \<union> T) acc t (f acc t)" by simp
        then show ?thesis using whole by (simp add: run)
      qed
    next
      case (Some r)
      then have run: "iterate create func index offset remaining acc t =
          (case func index r offset n acc t of None \<Rightarrow> None | Some (stop, acc, t) \<Rightarrow> if stop then Some (True, acc, t) else f acc t)"
        unfolding step by (simp add: Let_def)
      show ?thesis using on_region [OF less.prems(1) Some] whole unfolding run by simp
    qed
  qed
qed

lemma walk_range:
  assumes "I acc t" and "guest_range_valid v n" and "0 \<notin> pages_of v n" and "pages_of v n \<subseteq> R"
  shows "P (pages_of v n) acc t (tk_iterate create func v n acc t)"
proof -
  have v: "tk_addr (v div TRACKER_REGION_SIZE) + v mod TRACKER_REGION_SIZE = v" by simp
  from assms(2) have "v + n \<le> TRACKER_ADDRESS_SIZE" "n \<noteq> 0" by (auto simp: guest_range_valid_def)
  then show ?thesis
    using walk [OF assms(1), of "v mod TRACKER_REGION_SIZE" "v div TRACKER_REGION_SIZE" n, unfolded v] assms(2-4)
    by (simp add: tk_iterate_def TRACKER_REGION_SIZE_def)
qed

end

section \<open>The operations of the tracker on regions\<close>

definition tk_good :: "(nat \<Rightarrow> nat) \<Rightarrow> (nat \<Rightarrow> nat) \<Rightarrow> tracker \<Rightarrow> bool" where
  "tk_good ww aw t \<longleftrightarrow> tk_inv ww aw t \<and> watchers_fit ww aw"

lemma region_manager_new_ok:
  "region_ok region_manager_new" "bits (rm_cpu_dirty region_manager_new) = {0..<1024}" "bits (rm_gpu_dirty region_manager_new) = {}"
  by (auto simp: region_manager_new_def Let_def region_ok_def bits_whole region_consts(1)) (auto simp: ba_fill_def bits_def)

lemma made_same:
  assumes "tk_good ww aw t" and "tk_regions t B = None" and "B < 262144"
  shows "tk_good ww aw (tk_get_or_create_region B t)" and "source_pages source (tk_get_or_create_region B t) = source_pages source t"
proof -
  have sets: "cpu_pages (tk_get_or_create_region B t) = cpu_pages t" "gpu_pages (tk_get_or_create_region B t) = gpu_pages t"
    using assms(2) by (auto simp: tk_get_or_create_region_def cpu_pages_def gpu_pages_def region_manager_new_ok split: option.splits)
  then show "source_pages source (tk_get_or_create_region B t) = source_pages source t" by (cases source) simp_all
  show "tk_good ww aw (tk_get_or_create_region B t)"
    using assms sets unfolding tk_good_def tk_inv_def by (auto simp: tk_get_or_create_region_def region_manager_new_ok split: if_splits)
qed

definition query_spec :: "(nat \<Rightarrow> nat) \<Rightarrow> (nat \<Rightarrow> nat) \<Rightarrow> dirty_source \<Rightarrow> nat set \<Rightarrow> unit \<Rightarrow> tracker \<Rightarrow> (bool \<times> unit \<times> tracker) option \<Rightarrow> bool" where
  "query_spec ww aw source S acc t res \<longleftrightarrow>
     (\<exists>t'. res = Some (source_pages source t \<inter> S \<noteq> {}, acc, t') \<and> tk_good ww aw t' \<and> (\<forall>x. source_pages x t' = source_pages x t))"

lemma query_call:
  assumes "tk_good ww aw t" and "tk_regions t B = Some r" and "part B off n"
  shows "query_spec ww aw source (pages_of (tk_addr B + off) n) acc t (tk_query source B r off n acc t)"
  using tk_query_step [of ww aw t B r n off source] assms by (auto simp: query_spec_def tk_query_def part_def tk_good_def)

lemma query_seq:
  assumes "query_spec ww aw source S acc t res" and "\<And>acc' t'. res = Some (False, acc', t') \<Longrightarrow> query_spec ww aw source T acc' t' (f acc' t')"
  shows "query_spec ww aw source (S \<union> T) acc t
    (case res of None \<Rightarrow> None | Some (stop, acc', t') \<Rightarrow> if stop then Some (True, acc', t') else f acc' t')"
proof -
  obtain t' where t': "res = Some (source_pages source t \<inter> S \<noteq> {}, acc, t')" "tk_good ww aw t'" "\<forall>x. source_pages x t' = source_pages x t"
    using assms(1) unfolding query_spec_def by blast
  show ?thesis
  proof (cases "source_pages source t \<inter> S = {}")
    case True
    then have "query_spec ww aw source T acc t' (f acc t')" using assms(2) t'(1) by simp
    then show ?thesis using True t' by (auto simp: query_spec_def Int_Un_distrib)
  next
    case False
    then show ?thesis using t' by (auto simp: query_spec_def Int_Un_distrib)
  qed
qed

lemma skipped_sets:
  assumes "tk_regions t B = None" and "part B off n"
  shows "gpu_pages t \<inter> pages_of (tk_addr B + off) n = {}" and "pages_of (tk_addr B + off) n \<subseteq> cpu_pages t"
proof -
  obtain s e where se: "e \<le> 1024" "pages_of (tk_addr B + off) n = blk B {s..<e}"
    using page_range [of n off B] assms(2) unfolding part_def by blast
  then have "{s..<e} \<subseteq> {0..<1024}" by auto
  then have "p div 1024 = B" if "p \<in> blk B {s..<e}" for p using that by (simp add: blk_iff)
  then show "gpu_pages t \<inter> pages_of (tk_addr B + off) n = {}" "pages_of (tk_addr B + off) n \<subseteq> cpu_pages t"
    using assms(1) unfolding se(2) by (auto simp: gpu_pages_def cpu_pages_def)
qed

lemmas made_cpu = made_same(2) [where source = Cpu, simplified] and made_gpu = made_same(2) [where source = Gpu, simplified]

interpretation cpu_query: region_walk True "tk_query Cpu" UNIV "\<lambda>_. tk_good ww aw" "query_spec ww aw Cpu" for ww aw
  by unfold_locales (auto simp: made_same query_call intro: query_seq, auto simp: query_spec_def made_same made_cpu)

interpretation gpu_query: region_walk False "tk_query Gpu" UNIV "\<lambda>_. tk_good ww aw" "query_spec ww aw Gpu" for ww aw
  by unfold_locales (auto simp: query_call intro: query_seq, auto simp: query_spec_def dest: skipped_sets(1))

text \<open>A change fails exactly when a page that becomes dirty for one is dirty for the other.\<close>

definition change_spec ::
  "(nat \<Rightarrow> nat) \<Rightarrow> (nat \<Rightarrow> nat) \<Rightarrow> dirty_source \<Rightarrow> bool \<Rightarrow> nat set \<Rightarrow> 'a \<Rightarrow> tracker \<Rightarrow> (bool \<times> 'a \<times> tracker) option \<Rightarrow> bool" where
  "change_spec ww aw source enable S acc t res \<longleftrightarrow>
     (if mark_conflict source enable S t then res = None
      else \<exists>t'. res = Some (False, acc, t') \<and> tk_good ww aw t' \<and> marked source enable S t t')"

lemma change_call:
  assumes "tk_good ww aw t" and "tk_regions t B = Some r" and "part B off n"
  shows "change_spec ww aw source enable (pages_of (tk_addr B + off) n) acc t (tk_change source enable B r off n acc t)"
proof -
  have "if mark_conflict source enable (pages_of (tk_addr B + off) n) t
    then rm_change_state source enable (tk_addr B) (tk_addr B + off) n r (tk_pages t) = None
    else \<exists>r2 pm. rm_change_state source enable (tk_addr B) (tk_addr B + off) n r (tk_pages t) = Some (r2, pm) \<and>
      tk_inv ww aw (tk_put B r2 pm t) \<and> marked source enable (pages_of (tk_addr B + off) n) t (tk_put B r2 pm t)"
    using assms by (intro tk_change_step) (simp_all add: tk_good_def part_def)
  then show ?thesis using assms(1) by (auto simp: change_spec_def tk_change_def tk_good_def)
qed

lemma marked_then: "marked source enable S t t1 \<Longrightarrow> marked source enable T t1 t2 \<Longrightarrow> marked source enable (S \<union> T) t t2"
  by (auto simp: marked_def)

lemma marked_conflict:
  assumes "marked source enable S t t'"
  shows "mark_conflict source enable T t' \<longleftrightarrow> mark_conflict source enable T t"
proof -
  have "source_pages (case source of Cpu \<Rightarrow> Gpu | Gpu \<Rightarrow> Cpu) t' = source_pages (case source of Cpu \<Rightarrow> Gpu | Gpu \<Rightarrow> Cpu) t"
    using assms unfolding marked_def by (cases source) (metis dirty_source.distinct dirty_source.simps)+
  then show ?thesis by (simp add: mark_conflict_def)
qed

lemma mark_conflict_Un: "mark_conflict source enable (S \<union> T) t \<longleftrightarrow> mark_conflict source enable S t \<or> mark_conflict source enable T t"
  by (auto simp: mark_conflict_def)

lemma change_seq:
  assumes "change_spec ww aw source enable S acc t res"
    and "\<And>acc' t'. res = Some (False, acc', t') \<Longrightarrow> change_spec ww aw source enable T acc' t' (f acc' t')"
  shows "change_spec ww aw source enable (S \<union> T) acc t
    (case res of None \<Rightarrow> None | Some (stop, acc', t') \<Rightarrow> if stop then Some (True, acc', t') else f acc' t')"
proof (cases "mark_conflict source enable S t")
  case True
  then show ?thesis using assms(1) by (simp add: change_spec_def mark_conflict_Un)
next
  case False
  then obtain t' where t': "res = Some (False, acc, t')" "tk_good ww aw t'" "marked source enable S t t'"
    using assms(1) by (auto simp: change_spec_def)
  have "change_spec ww aw source enable T acc t' (f acc t')" using assms(2) [OF t'(1)] .
  then show ?thesis using False t' marked_conflict [OF t'(3), of T] marked_then [OF t'(3), of T]
    by (auto simp: change_spec_def mark_conflict_Un split: if_splits)
qed

lemma change_nothing: "tk_good ww aw t \<Longrightarrow> change_spec ww aw source enable {} acc t (Some (False, acc, t))"
  by (simp add: change_spec_def mark_conflict_def marked_def)

lemma change_made:
  assumes "tk_good ww aw t" "tk_regions t B = None" "B < 262144"
    and "change_spec ww aw source enable S acc (tk_get_or_create_region B t) res"
  shows "change_spec ww aw source enable S acc t res"
  using assms(4) unfolding change_spec_def mark_conflict_def marked_def made_same(2) [OF assms(1-3)] .

lemma change_keeps: "change_spec ww aw source enable S acc t (Some (stop, acc', t')) \<Longrightarrow> tk_good ww aw t'"
  by (auto simp: change_spec_def split: if_splits)

lemmas change_laws = change_nothing change_call made_same(1)

interpretation change: region_walk True "tk_change source enable" UNIV "\<lambda>_. tk_good ww aw" "change_spec ww aw source enable" for ww aw source enable
  by unfold_locales (auto simp: change_laws intro: change_seq change_made change_keeps)

text \<open>Where a region does not exist, nothing is to be done to make its pages the CPU's, or not the GPU's.\<close>

lemma change_skip:
  assumes "tk_good ww aw t" "tk_regions t B = None" "part B off n"
  shows "change_spec ww aw Cpu True (pages_of (tk_addr B + off) n) acc t (Some (False, acc, t))"
    and "change_spec ww aw Gpu False (pages_of (tk_addr B + off) n) acc t (Some (False, acc, t))"
proof -
  have same: "cpu_pages t \<union> pages_of (tk_addr B + off) n = cpu_pages t" "gpu_pages t - pages_of (tk_addr B + off) n = gpu_pages t"
    using skipped_sets [OF assms(2,3)] by auto
  show "change_spec ww aw Cpu True (pages_of (tk_addr B + off) n) acc t (Some (False, acc, t))"
    using assms(1) same skipped_sets [OF assms(2,3)] by (simp add: change_spec_def mark_conflict_def marked_def)
  show "change_spec ww aw Gpu False (pages_of (tk_addr B + off) n) acc t (Some (False, acc, t))"
    using assms(1) same by (simp add: change_spec_def mark_conflict_def marked_def)
qed

interpretation to_cpu: region_walk False "tk_change Cpu True" UNIV "\<lambda>_. tk_good ww aw" "change_spec ww aw Cpu True" for ww aw
  by unfold_locales (auto simp: change_laws change_skip intro: change_seq change_keeps)

interpretation off_gpu: region_walk False "tk_change Gpu False" UNIV "\<lambda>_. tk_good ww aw" "change_spec ww aw Gpu False" for ww aw
  by unfold_locales (auto simp: change_laws change_skip intro: change_seq change_keeps)

section \<open>The ranges that are reported\<close>

definition page_ivals :: "(u64 \<times> u64) list \<Rightarrow> (nat \<times> nat) list" where
  "page_ivals rs = map (\<lambda>(v, n). (v div TRACKER_PAGE_SIZE, (v + n) div TRACKER_PAGE_SIZE)) rs"

text \<open>Ranges of whole pages, in order and without overlap, that make up a set of pages.\<close>

definition tiles :: "(u64 \<times> u64) list \<Rightarrow> nat set \<Rightarrow> bool" where
  "tiles rs S \<longleftrightarrow> (\<forall>p \<in> set rs. TRACKER_PAGE_SIZE dvd fst p \<and> TRACKER_PAGE_SIZE dvd snd p \<and> 0 < snd p) \<and>
     sorted_wrt (\<lambda>p q. fst p + snd p \<le> fst q) rs \<and> bytes_of (page_ivals rs) = S"

lemma tiles_Nil: "tiles [] {}"
  by (simp add: tiles_def page_ivals_def)

lemma tiles_page:
  assumes "tiles rs S" and "p \<in> set rs"
  shows "fst p div TRACKER_PAGE_SIZE \<in> S" and "(fst p + snd p) div TRACKER_PAGE_SIZE - 1 \<in> S"
    and "fst p = fst p div TRACKER_PAGE_SIZE * TRACKER_PAGE_SIZE" and "fst p + snd p = (fst p + snd p) div TRACKER_PAGE_SIZE * TRACKER_PAGE_SIZE"
    and "0 < (fst p + snd p) div TRACKER_PAGE_SIZE"
proof -
  have d: "TRACKER_PAGE_SIZE dvd fst p" "TRACKER_PAGE_SIZE dvd snd p" "0 < snd p" using assms by (auto simp: tiles_def)
  then obtain a b where ab: "fst p = TRACKER_PAGE_SIZE * a" "snd p = TRACKER_PAGE_SIZE * b" "0 < b" by (auto elim!: dvdE)
  have q: "fst p div TRACKER_PAGE_SIZE = a" "(fst p + snd p) div TRACKER_PAGE_SIZE = a + b"
    by (simp_all add: ab add_mult_distrib2 [symmetric])
  then have "(a, a + b) \<in> set (page_ivals rs)" using assms(2) unfolding page_ivals_def by (force simp: case_prod_beta)
  then have "{a..<a + b} \<subseteq> S" using assms(1) by (force simp: tiles_def bytes_of_def)
  moreover have "a \<in> {a..<a + b}" "a + b - 1 \<in> {a..<a + b}" using ab(3) by auto
  ultimately show "fst p div TRACKER_PAGE_SIZE \<in> S" "(fst p + snd p) div TRACKER_PAGE_SIZE - 1 \<in> S" unfolding q by blast+
  show "fst p = fst p div TRACKER_PAGE_SIZE * TRACKER_PAGE_SIZE" "fst p + snd p = (fst p + snd p) div TRACKER_PAGE_SIZE * TRACKER_PAGE_SIZE"
    "0 < (fst p + snd p) div TRACKER_PAGE_SIZE"
    using q ab by (simp_all add: algebra_simps)
qed

lemma tiles_append:
  assumes "tiles rs S" and "tiles rs' T" and "\<And>x y. x \<in> S \<Longrightarrow> y \<in> T \<Longrightarrow> x < y"
  shows "tiles (rs @ rs') (S \<union> T)"
proof -
  have "fst p + snd p \<le> fst q" if "p \<in> set rs" "q \<in> set rs'" for p q
  proof -
    note P = tiles_page [OF assms(1) that(1)] and Q = tiles_page [OF assms(2) that(2)]
    have "(fst p + snd p) div TRACKER_PAGE_SIZE \<le> fst q div TRACKER_PAGE_SIZE" using assms(3) [OF P(2) Q(1)] by simp
    then show ?thesis using P(4) Q(3) by (metis mult_le_mono1)
  qed
  then show ?thesis using assms(1,2) by (auto simp: tiles_def sorted_wrt_append page_ivals_def)
qed

lemma rm_ranges_tiles:
  assumes "length ws = 16"
  shows "tiles (rm_ranges (tk_addr B) ws) (blk B (bits ws))"
proof -
  have addr: "tk_addr B = B * 1024 * TRACKER_PAGE_SIZE" by (simp add: region_consts)
  have ap: "apart (ba_ranges ws)" by (rule ba_ranges_apart)
  have pos: "s < e" if "(s, e) \<in> set (ba_ranges ws)" for s e using apart_nonempty [OF ap that] by simp
  have iv: "page_ivals (rm_ranges (tk_addr B) ws) = map (\<lambda>(s, e). (B * 1024 + s, B * 1024 + e)) (ba_ranges ws)"
  proof -
    have elem: "(tk_addr B + s * TRACKER_PAGE_SIZE) div TRACKER_PAGE_SIZE = B * 1024 + s"
        "(tk_addr B + s * TRACKER_PAGE_SIZE + (e - s) * TRACKER_PAGE_SIZE) div TRACKER_PAGE_SIZE = B * 1024 + e"
      if "(s, e) \<in> set (ba_ranges ws)" for s e
    proof -
      have "tk_addr B + s * TRACKER_PAGE_SIZE = (B * 1024 + s) * TRACKER_PAGE_SIZE" unfolding addr by (simp add: add_mult_distrib)
      moreover have "(B * 1024 + s) * TRACKER_PAGE_SIZE + (e - s) * TRACKER_PAGE_SIZE = (B * 1024 + e) * TRACKER_PAGE_SIZE"
        using pos [OF that] by (simp add: add_mult_distrib [symmetric] diff_mult_distrib [symmetric])
      ultimately show "(tk_addr B + s * TRACKER_PAGE_SIZE) div TRACKER_PAGE_SIZE = B * 1024 + s"
        "(tk_addr B + s * TRACKER_PAGE_SIZE + (e - s) * TRACKER_PAGE_SIZE) div TRACKER_PAGE_SIZE = B * 1024 + e" by simp_all
    qed
    show ?thesis unfolding page_ivals_def rm_ranges_def map_map
    proof (rule map_cong [OF refl])
      fix p assume p: "p \<in> set (ba_ranges ws)"
      obtain s e where "p = (s, e)" by (rule prod.exhaust)
      with p have "p = (s, e)" "(s, e) \<in> set (ba_ranges ws)" by simp_all
      then show "((\<lambda>(v, n). (v div TRACKER_PAGE_SIZE, (v + n) div TRACKER_PAGE_SIZE)) \<circ>
          (\<lambda>(s, e). (tk_addr B + s * TRACKER_PAGE_SIZE, (e - s) * TRACKER_PAGE_SIZE))) p = (case p of (s, e) \<Rightarrow> (B * 1024 + s, B * 1024 + e))"
        by (simp only: o_apply prod.case elem)
    qed
  qed
  have "bytes_of (map (\<lambda>(s, e). (B * 1024 + s, B * 1024 + e)) xs) = blk B (bytes_of xs)" for xs
    by (induction xs) (auto simp: blk_def image_Un add.commute)
  then have "bytes_of (page_ivals (rm_ranges (tk_addr B) ws)) = blk B (bits ws)" by (simp add: iv bytes_of_ba_ranges)
  moreover have "sorted_wrt (\<lambda>p q. fst p + snd p \<le> fst q) (rm_ranges (tk_addr B) ws)"
  proof -
    have "sorted_wrt (\<lambda>p q. snd p < fst q) (ba_ranges ws)" using ap by (simp add: apart_def)
    then have "sorted_wrt (\<lambda>p q. fst p + (snd p - fst p) \<le> fst q) (ba_ranges ws)"
      by (auto dest: pos elim!: sorted_wrt_mono_rel [rotated])
    then show ?thesis unfolding rm_ranges_def sorted_wrt_map case_prod_beta fst_conv snd_conv
      by (rule sorted_wrt_mono_rel [rotated]) (simp add: add_mult_distrib [symmetric] add.assoc)
  qed
  moreover have "\<forall>p \<in> set (rm_ranges (tk_addr B) ws). TRACKER_PAGE_SIZE dvd fst p \<and> TRACKER_PAGE_SIZE dvd snd p \<and> 0 < snd p"
    using pos by (auto simp: rm_ranges_def addr)
  ultimately show ?thesis by (simp add: tiles_def)
qed

lemma collect_call:
  assumes good: "tk_good ww aw t" and r: "tk_regions t B = Some r" and p: "part B off n"
  shows "\<exists>rs r2 pm. rm_for_each_modified_range source clear (tk_addr B) (tk_addr B + off) n r (tk_pages t) = Some (rs, r2, pm) \<and>
      tiles rs (source_pages source t \<inter> pages_of (tk_addr B + off) n) \<and> tk_good ww aw (tk_put B r2 pm t) \<and>
      (if clear then marked source False (pages_of (tk_addr B + off) n) t (tk_put B r2 pm t) else tk_put B r2 pm t = t)"
proof -
  have inv: "tk_inv ww aw t" and fit: "watchers_fit ww aw" using good by (simp_all add: tk_good_def)
  obtain s e where se: "get_page_range (tk_addr B) (tk_addr B + off) n = Some (s, e)" "s < e" "e \<le> 1024"
    "pages_of (tk_addr B + off) n = blk B {s..<e}" using page_range [of n off B] p unfolding part_def by blast
  have len: "length (rm_bits source r) = 16" using tk_invD(1) [OF inv r] by (cases source) (simp_all add: region_ok_def rm_bits_def)
  define m where "m = ba_copy_range (rm_bits source r) s e"
  have m: "bits m = bits (rm_bits source r) \<inter> {s..<e}" "length m = 16"
    using bits_copy_range [OF se(2), of "rm_bits source r"] se(3) len by (simp_all add: m_def)
  have sub: "{s..<e} \<subseteq> {0..<1024}" "bits m \<subseteq> {0..<1024}" using se(3) m(1) by auto
  have "source_pages source t \<inter> pages_of (tk_addr B + off) n = blk B (bits m)"
  proof (rule set_eqI)
    fix x
    show "x \<in> source_pages source t \<inter> pages_of (tk_addr B + off) n \<longleftrightarrow> x \<in> blk B (bits m)"
      using in_region [of t x r] r blk_iff [OF sub(1), of x B] blk_iff [OF sub(2), of x B]
      unfolding se(4) m(1) by (cases source; cases "x div 1024 = B") (auto simp: rm_bits_def)
  qed
  then have til: "tiles (rm_ranges (tk_addr B) m) (source_pages source t \<inter> pages_of (tk_addr B + off) n)" using rm_ranges_tiles [OF m(2)] by simp
  show ?thesis
  proof (cases clear)
    case False
    have "tk_put B r (tk_pages t) t = t" using r by (simp add: tk_put_def map_upd_triv)
    then show ?thesis using False good til by (simp add: rm_for_each_modified_range_def se(1) m_def)
  next
    case True
    have "\<not> mark_conflict source False (pages_of (tk_addr B + off) n) t" by (simp add: mark_conflict_def)
    with tk_change_step [OF inv fit r, of n off source False] p obtain r2 pm
      where c: "rm_change_state source False (tk_addr B) (tk_addr B + off) n r (tk_pages t) = Some (r2, pm)"
        "tk_inv ww aw (tk_put B r2 pm t)" "marked source False (pages_of (tk_addr B + off) n) t (tk_put B r2 pm t)" by (auto simp: part_def)
    have "rm_for_each_modified_range source True (tk_addr B) (tk_addr B + off) n r (tk_pages t) = Some (rm_ranges (tk_addr B) m, r2, pm)"
      using c(1) by (cases source) (simp_all add: rm_for_each_modified_range_def rm_change_state_def se(1) m_def)
    then show ?thesis using True c(2,3) fit til by (simp add: tk_good_def)
  qed
qed

text \<open>What is collected over several regions. Where nothing is cleared, nothing changes at all.\<close>

definition collect_spec ::
  "(nat \<Rightarrow> nat) \<Rightarrow> (nat \<Rightarrow> nat) \<Rightarrow> dirty_source \<Rightarrow> bool \<Rightarrow> nat set \<Rightarrow> (u64 \<times> u64) list \<Rightarrow> tracker \<Rightarrow>
   (bool \<times> (u64 \<times> u64) list \<times> tracker) option \<Rightarrow> bool" where
  "collect_spec ww aw source clear S acc t res \<longleftrightarrow>
     (\<exists>rs t'. res = Some (False, acc @ rs, t') \<and> tk_good ww aw t' \<and> tiles rs (source_pages source t \<inter> S) \<and>
        marked source False (if clear then S else {}) t t' \<and> (clear \<or> t' = t))"

lemma collect_seq:
  assumes "collect_spec ww aw source clear S acc t res"
    and "\<And>acc' t'. res = Some (False, acc', t') \<Longrightarrow> collect_spec ww aw source clear T acc' t' (f acc' t')"
    and "\<And>x y. x \<in> S \<Longrightarrow> y \<in> T \<Longrightarrow> x < y"
  shows "collect_spec ww aw source clear (S \<union> T) acc t
    (case res of None \<Rightarrow> None | Some (stop, acc', t') \<Rightarrow> if stop then Some (True, acc', t') else f acc' t')"
proof -
  obtain rs t' where a: "res = Some (False, acc @ rs, t')" "tiles rs (source_pages source t \<inter> S)"
    "marked source False (if clear then S else {}) t t'" "clear \<or> t' = t" using assms(1) by (auto simp: collect_spec_def)
  obtain rs' t2 where b: "f (acc @ rs) t' = Some (False, (acc @ rs) @ rs', t2)" "tk_good ww aw t2" "tiles rs' (source_pages source t' \<inter> T)"
    "marked source False (if clear then T else {}) t' t2" "clear \<or> t2 = t'" using assms(2) [OF a(1)] unfolding collect_spec_def by blast
  have "S \<inter> T = {}" using assms(3) by (force simp: disjoint_iff)
  then have "source_pages source t' \<inter> T = source_pages source t \<inter> T" using a(3) by (auto simp: marked_def split: if_splits)
  then have "tiles (rs @ rs') (source_pages source t \<inter> S \<union> source_pages source t \<inter> T)"
    using tiles_append [OF a(2) b(3)] assms(3) by auto
  moreover have "marked source False (if clear then S \<union> T else {}) t t2"
    using marked_then [OF a(3) b(4)] by (auto split: if_splits)
  ultimately show ?thesis using a(1,4) b(1,2,5) by (auto simp: collect_spec_def Int_Un_distrib)
qed

lemma collect_none: "tk_good ww aw t \<Longrightarrow> source_pages source t \<inter> S = {} \<Longrightarrow> collect_spec ww aw source clear S acc t (Some (False, acc, t))"
  by (auto simp: collect_spec_def marked_def tiles_Nil intro!: exI [of _ "[]"])

lemma collect_call_spec:
  assumes "tk_good ww aw t" and "tk_regions t B = Some r" and "part B off n"
  shows "collect_spec ww aw source clear (pages_of (tk_addr B + off) n) acc t (tk_collect source clear B r off n acc t)"
proof -
  obtain rs r2 pm where c: "rm_for_each_modified_range source clear (tk_addr B) (tk_addr B + off) n r (tk_pages t) = Some (rs, r2, pm)"
    "tiles rs (source_pages source t \<inter> pages_of (tk_addr B + off) n)" "tk_good ww aw (tk_put B r2 pm t)"
    "if clear then marked source False (pages_of (tk_addr B + off) n) t (tk_put B r2 pm t) else tk_put B r2 pm t = t"
    using collect_call [OF assms] by blast
  then show ?thesis by (auto simp: tk_collect_def collect_spec_def marked_def)
qed

lemma collect_keeps: "collect_spec ww aw source clear S acc t (Some (stop, acc', t')) \<Longrightarrow> tk_good ww aw t'"
  by (auto simp: collect_spec_def)

lemma collect_made:
  assumes "tk_good ww aw t" "tk_regions t B = None" "B < 262144"
    and "collect_spec ww aw source True S acc (tk_get_or_create_region B t) res"
  shows "collect_spec ww aw source True S acc t res"
  using assms(4) unfolding collect_spec_def marked_def made_same(2) [OF assms(1-3)] by simp

interpretation gpu_collect: region_walk False "tk_collect Gpu clear" UNIV "\<lambda>_. tk_good ww aw" "collect_spec ww aw Gpu clear" for ww aw clear
  by unfold_locales
    (auto simp: collect_call_spec collect_none intro: collect_seq collect_keeps, auto simp: collect_none skipped_sets(1))

interpretation cpu_collect: region_walk True "tk_collect Cpu True" UNIV "\<lambda>_. tk_good ww aw" "collect_spec ww aw Cpu True" for ww aw
  by unfold_locales (auto simp: collect_call_spec collect_none made_same(1) intro: collect_seq collect_keeps collect_made)

section \<open>Regions that exist\<close>

definition touch_spec :: "(nat \<Rightarrow> nat) \<Rightarrow> (nat \<Rightarrow> nat) \<Rightarrow> nat set \<Rightarrow> 'a \<Rightarrow> tracker \<Rightarrow> (bool \<times> 'a \<times> tracker) option \<Rightarrow> bool" where
  "touch_spec ww aw S acc t res \<longleftrightarrow>
     (\<exists>t'. res = Some (False, acc, t') \<and> tk_good ww aw t' \<and> (\<forall>x. source_pages x t' = source_pages x t) \<and>
        dom (tk_regions t) \<subseteq> dom (tk_regions t') \<and> (\<forall>p \<in> S. p div 1024 \<in> dom (tk_regions t')))"

lemma touch_call:
  assumes "tk_regions t B = Some r" and "part B off n" and "p \<in> pages_of (tk_addr B + off) n"
  shows "p div 1024 \<in> dom (tk_regions t)"
proof -
  obtain s e where se: "e \<le> 1024" "pages_of (tk_addr B + off) n = blk B {s..<e}"
    using page_range [of n off B] assms(2) unfolding part_def by blast
  then have "{s..<e} \<subseteq> {0..<1024}" by auto
  then have "p div 1024 = B" using assms(3) se(2) by (simp add: blk_iff)
  then show ?thesis using assms(1) by auto
qed

lemma touch_seq:
  assumes "touch_spec ww aw S acc t res" and "\<And>acc' t'. res = Some (False, acc', t') \<Longrightarrow> touch_spec ww aw T acc' t' (f acc' t')"
  shows "touch_spec ww aw (S \<union> T) acc t (case res of None \<Rightarrow> None | Some (stop, acc', t') \<Rightarrow> if stop then Some (True, acc', t') else f acc' t')"
proof -
  obtain t' where a: "res = Some (False, acc, t')" "\<forall>x. source_pages x t' = source_pages x t" "dom (tk_regions t) \<subseteq> dom (tk_regions t')"
    "\<forall>p \<in> S. p div 1024 \<in> dom (tk_regions t')" using assms(1) unfolding touch_spec_def by blast
  obtain t2 where b: "f acc t' = Some (False, acc, t2)" "tk_good ww aw t2" "\<forall>x. source_pages x t2 = source_pages x t'"
    "dom (tk_regions t') \<subseteq> dom (tk_regions t2)" "\<forall>p \<in> T. p div 1024 \<in> dom (tk_regions t2)"
    using assms(2) [OF a(1)] unfolding touch_spec_def by blast
  have "dom (tk_regions t) \<subseteq> dom (tk_regions t2)" "\<forall>p \<in> S \<union> T. p div 1024 \<in> dom (tk_regions t2)" using a(3,4) b(4,5) by blast+
  then show ?thesis using a(1,2) b(1-3) unfolding touch_spec_def by simp
qed

lemma touch_made:
  assumes "tk_good ww aw t" "tk_regions t B = None" "B < 262144" and "touch_spec ww aw S acc (tk_get_or_create_region B t) res"
  shows "touch_spec ww aw S acc t res"
proof -
  have "dom (tk_regions t) \<subseteq> dom (tk_regions (tk_get_or_create_region B t))" by (auto simp: tk_get_or_create_region_def)
  then show ?thesis using assms(4) unfolding touch_spec_def made_same(2) [OF assms(1-3)] by blast
qed

interpretation touch: region_walk True "\<lambda>_ _ _ _ acc t. Some (False, acc, t)" UNIV "\<lambda>_. tk_good ww aw" "touch_spec ww aw" for ww aw
  by unfold_locales (auto simp: made_same(1) intro: touch_seq touch_made, auto simp: touch_spec_def dest: touch_call)

end
