(* ===== verification/Tracker_Operations.thy ===== *)
theory Tracker_Operations
  imports Memory_Tracker_Facts
begin

text \<open>
  Each operation of the memory tracker as an operation on its two sets of pages (\<open>cpu_query_exact\<close> to \<open>invalidate_exact\<close>), with the
  cases where it ends the program; and the watchers of other users of the page manager beside the tracker's (\<open>watch_exact\<close>).
  \<open>flush_contract\<close> is the interface between \<open>InvalidateRegion\<close> and the function that brings the GPU's data back.
\<close>

section \<open>Regions that exist already\<close>

definition keeps_regions :: "'a region_func \<Rightarrow> bool" where
  "keeps_regions func \<longleftrightarrow>
     (\<forall>B r off n acc t s acc' t'. func B r off n acc t = Some (s, acc', t') \<longrightarrow> dom (tk_regions t) \<subseteq> dom (tk_regions t'))"

lemma put_keeps: "dom (tk_regions t) \<subseteq> dom (tk_regions (tk_put B r pm t))"
  by auto

lemma funcs_keep_regions: "keeps_regions (tk_change source enable)" "keeps_regions (tk_collect source' clear)"
  unfolding keeps_regions_def tk_change_def tk_collect_def by auto

lemma iterate_step:
  assumes "0 < remaining" and "offset < TRACKER_REGION_SIZE" and "n = min (TRACKER_REGION_SIZE - offset) remaining"
  shows "iterate c func index offset remaining acc t =
    (let t = (if tk_regions t index = None \<and> c then tk_get_or_create_region index t else t)
     in case tk_regions t index of
          None \<Rightarrow> iterate c func (index + 1) 0 (remaining - n) acc t
        | Some r \<Rightarrow> (case func index r offset n acc t of None \<Rightarrow> None
            | Some (stop, acc, t) \<Rightarrow> if stop then Some (True, acc, t) else iterate c func (index + 1) 0 (remaining - n) acc t))"
proof -
  have c: "\<not> (remaining = 0 \<or> n = 0)" using assms by auto
  show ?thesis unfolding iterate.simps [of c func index offset] Let_def assms(3) [symmetric] if_not_P [OF c] ..
qed

lemma iterate_keeps_regions:
  assumes "keeps_regions func"
  shows "offset < TRACKER_REGION_SIZE \<Longrightarrow> iterate c func index offset remaining acc t = Some (s, acc', t') \<Longrightarrow> dom (tk_regions t) \<subseteq> dom (tk_regions t')"
proof (induction remaining arbitrary: index offset acc t rule: less_induct)
  case (less remaining)
  show ?case
  proof (cases "remaining = 0")
    case True
    then show ?thesis using less.prems(2) by (simp add: iterate.simps)
  next
    case False
    define n where "n = min (TRACKER_REGION_SIZE - offset) remaining"
    define t1 where "t1 = (if tk_regions t index = None \<and> c then tk_get_or_create_region index t else t)"
    have t1: "dom (tk_regions t) \<subseteq> dom (tk_regions t1)" by (auto simp: t1_def tk_get_or_create_region_def)
    have n: "remaining - n < remaining" "0 < TRACKER_REGION_SIZE" using False less.prems(1) by (auto simp: n_def TRACKER_REGION_SIZE_def)
    note step = iterate_step [OF _ less.prems(1) n_def, of c func index acc t, unfolded Let_def, folded t1_def]
    show ?thesis
    proof (cases "tk_regions t1 index")
      case None
      then have "dom (tk_regions t1) \<subseteq> dom (tk_regions t')"
        using less.IH [OF n(1,2), of "index + 1" acc t1] less.prems(2) step False by simp
      then show ?thesis using t1 by blast
    next
      case (Some r)
      then obtain s1 acc1 t2 where f: "func index r offset n acc t1 = Some (s1, acc1, t2)"
          "(if s1 then Some (True, acc1, t2) else iterate c func (index + 1) 0 (remaining - n) acc1 t2) = Some (s, acc', t')"
        using less.prems(2) step False by (auto split: option.splits prod.splits)
      have "dom (tk_regions t1) \<subseteq> dom (tk_regions t2)" using assms f(1) unfolding keeps_regions_def by blast
      moreover have "dom (tk_regions t2) \<subseteq> dom (tk_regions t')"
        using f(2) less.IH [OF n(1,2), of "index + 1" acc1 t2] by (cases s1) auto
      ultimately show ?thesis using t1 by blast
    qed
  qed
qed

lemma iterate_existing:
  assumes "keeps_regions func"
  shows "offset < TRACKER_REGION_SIZE \<Longrightarrow> (\<And>B. index \<le> B \<Longrightarrow> tk_addr B < tk_addr index + offset + remaining \<Longrightarrow> B \<in> dom (tk_regions t)) \<Longrightarrow>
    iterate False func index offset remaining acc t = iterate True func index offset remaining acc t"
proof (induction remaining arbitrary: index offset acc t rule: less_induct)
  case (less remaining)
  show ?case
  proof (cases "remaining = 0")
    case False
    define n where "n = min (TRACKER_REGION_SIZE - offset) remaining"
    have n: "remaining - n < remaining" "0 < TRACKER_REGION_SIZE" using False less.prems(1) by (auto simp: n_def TRACKER_REGION_SIZE_def)
    obtain r where r: "tk_regions t index = Some r" using less.prems(2) [of index] False by auto
    have rest: "iterate False func (index + 1) 0 (remaining - n) acc' t' = iterate True func (index + 1) 0 (remaining - n) acc' t'"
      if f: "func index r offset n acc t = Some (s, acc', t')" for s acc' t'
    proof (rule less.IH [OF n(1,2)])
      fix B assume B: "index + 1 \<le> B" "tk_addr B < tk_addr (index + 1) + 0 + (remaining - n)"
      have "remaining - n = 0 \<or> offset + n = TRACKER_REGION_SIZE" using less.prems(1) by (auto simp: n_def)
      then have "tk_addr B < tk_addr index + offset + remaining"
      proof
        assume "remaining - n = 0"
        then have "tk_addr B < tk_addr (index + 1)" using B(2) by simp
        then have "B < index + 1" by (rule mult_less_cancel2 [THEN iffD1, THEN conjunct2])
        then show ?thesis using B(1) by simp
      qed (use B(2) in \<open>simp add: n_def\<close>)
      then have "B \<in> dom (tk_regions t)" using less.prems(2) [of B] B(1) by simp
      then show "B \<in> dom (tk_regions t')" using assms f unfolding keeps_regions_def by blast
    qed
    show ?thesis unfolding iterate_step [OF _ less.prems(1) n_def] using False r rest
      by (simp add: iterate_step [OF _ less.prems(1) n_def] Let_def split: option.split prod.split)
  qed (simp add: iterate.simps)
qed

section \<open>Each operation on the sets\<close>

definition track_ok :: "u64 \<Rightarrow> u64 \<Rightarrow> bool" where
  "track_ok v n \<longleftrightarrow> guest_range_valid v n \<and> TRACKER_PAGE_SIZE \<le> v"

lemma track_ok_pages: "track_ok v n \<Longrightarrow> guest_range_valid v n \<and> 0 \<notin> pages_of v n"
  by (auto simp: track_ok_def pages_of_def div_eq_0_iff)

lemma range_regions:
  assumes "guest_range_valid v n" and "v div TRACKER_REGION_SIZE \<le> B" and "tk_addr B < tk_addr (v div TRACKER_REGION_SIZE) + v mod TRACKER_REGION_SIZE + n"
  obtains p where "p \<in> pages_of v n" and "p div 1024 = B"
proof -
  have lt: "tk_addr B < v + n" using assms(3) by simp
  have v: "v < (B + 1) * TRACKER_REGION_SIZE"
  proof -
    have "v < (v div TRACKER_REGION_SIZE + 1) * TRACKER_REGION_SIZE" by (simp add: dividend_less_div_times TRACKER_REGION_SIZE_def)
    also have "\<dots> \<le> (B + 1) * TRACKER_REGION_SIZE" using assms(2) by (intro mult_le_mono1) simp
    finally show ?thesis .
  qed
  define p where "p = max (v div TRACKER_PAGE_SIZE) (B * 1024)"
  have "v div TRACKER_PAGE_SIZE < (B + 1) * 1024" using v by (simp add: region_consts less_mult_imp_div_less mult.commute mult.left_commute)
  then have "p div 1024 = B" by (intro div_nat_eqI) (auto simp: p_def)
  moreover have "p \<in> pages_of v n"
  proof -
    have up: "x * TRACKER_PAGE_SIZE < v + n \<Longrightarrow> x < (v + n + TRACKER_PAGE_SIZE - 1) div TRACKER_PAGE_SIZE" for x
    proof -
      assume "x * TRACKER_PAGE_SIZE < v + n"
      then have "(x + 1) * TRACKER_PAGE_SIZE \<le> v + n + TRACKER_PAGE_SIZE - 1" by simp
      then have "(x + 1) * TRACKER_PAGE_SIZE div TRACKER_PAGE_SIZE \<le> (v + n + TRACKER_PAGE_SIZE - 1) div TRACKER_PAGE_SIZE" by (rule div_le_mono)
      then show ?thesis by simp
    qed
    have "v div TRACKER_PAGE_SIZE * TRACKER_PAGE_SIZE < v + n"
      by (rule le_less_trans [OF div_times_less_eq_dividend]) (use assms(1) in \<open>simp add: guest_range_valid_def\<close>)
    moreover have "B * 1024 * TRACKER_PAGE_SIZE < v + n" using lt by (simp add: region_consts mult.assoc)
    ultimately show ?thesis using up unfolding pages_of_def p_def by (simp add: max_def)
  qed
  ultimately show thesis by (rule that [rotated])
qed

lemma cpu_query_exact:
  assumes "tk_good ww aw t" "track_ok v n"
  shows "\<exists>t'. is_region_cpu_modified v n t = Some (cpu_pages t \<inter> pages_of v n \<noteq> {}, t') \<and> tk_good ww aw t' \<and> (\<forall>x. source_pages x t' = source_pages x t)"
  using cpu_query.walk_range [OF assms(1), of v n "()"] track_ok_pages [OF assms(2)]
  by (auto simp: query_spec_def is_region_cpu_modified_def)

lemma gpu_query_exact:
  assumes "tk_good ww aw t" "track_ok v n"
  shows "\<exists>t'. is_region_gpu_modified v n t = Some (gpu_pages t \<inter> pages_of v n \<noteq> {}, t') \<and> tk_good ww aw t' \<and> (\<forall>x. source_pages x t' = source_pages x t)"
  using gpu_query.walk_range [OF assms(1), of v n "()"] track_ok_pages [OF assms(2)]
  by (auto simp: query_spec_def is_region_gpu_modified_def)

lemma change_result:
  assumes "change_spec ww aw source enable S () t res"
  shows "map_option (\<lambda>(_, _, t). t) res = None \<and> mark_conflict source enable S t \<or>
    \<not> mark_conflict source enable S t \<and> (\<exists>t'. map_option (\<lambda>(_, _, t). t) res = Some t' \<and> tk_good ww aw t' \<and> marked source enable S t t')"
  using assms by (auto simp: change_spec_def split: if_splits)

lemma mark_cpu_exact:
  assumes "tk_good ww aw t" "track_ok v n"
  shows "if gpu_pages t \<inter> pages_of v n \<noteq> {} then mark_region_as_cpu_modified v n t = None
    else \<exists>t'. mark_region_as_cpu_modified v n t = Some t' \<and> tk_good ww aw t' \<and> cpu_pages t' = cpu_pages t \<union> pages_of v n \<and> gpu_pages t' = gpu_pages t"
  using change_result [OF change.walk_range [OF assms(1)], of v n Cpu True] track_ok_pages [OF assms(2)]
  unfolding mark_region_as_cpu_modified_def by (auto simp: mark_conflict_def marked_def dest: spec [of _ Gpu])

lemma mark_gpu_exact:
  assumes "tk_good ww aw t" "track_ok v n"
  shows "if cpu_pages t \<inter> pages_of v n \<noteq> {} then mark_region_as_gpu_modified v n t = None
    else \<exists>t'. mark_region_as_gpu_modified v n t = Some t' \<and> tk_good ww aw t' \<and> cpu_pages t' = cpu_pages t \<and> gpu_pages t' = gpu_pages t \<union> pages_of v n"
  using change_result [OF change.walk_range [OF assms(1)], of v n Gpu True] track_ok_pages [OF assms(2)]
  unfolding mark_region_as_gpu_modified_def by (auto simp: mark_conflict_def marked_def dest: spec [of _ Cpu])

lemma unmark_gpu_exact:
  assumes "tk_good ww aw t" "track_ok v n"
  shows "\<exists>t'. unmark_region_as_gpu_modified v n t = Some t' \<and> tk_good ww aw t' \<and> cpu_pages t' = cpu_pages t \<and> gpu_pages t' = gpu_pages t - pages_of v n"
  using change_result [OF off_gpu.walk_range [OF assms(1)], of v n] track_ok_pages [OF assms(2)]
  unfolding unmark_region_as_gpu_modified_def by (auto simp: mark_conflict_def marked_def dest: spec [of _ Cpu])

lemma untrack_exact:
  assumes "tk_good ww aw t" "track_ok v n"
  shows "if gpu_pages t \<inter> pages_of v n \<noteq> {} then untrack_memory v n t = None
    else \<exists>t'. untrack_memory v n t = Some t' \<and> tk_good ww aw t' \<and> cpu_pages t' = cpu_pages t \<union> pages_of v n \<and> gpu_pages t' = gpu_pages t"
proof -
  note ok = track_ok_pages [OF assms(2)]
  obtain t1 where q: "tk_iterate False (tk_query Gpu) v n () t = Some (gpu_pages t \<inter> pages_of v n \<noteq> {}, (), t1)" "tk_good ww aw t1"
    "\<forall>x. source_pages x t1 = source_pages x t"
    using gpu_query.walk_range [OF assms(1), of v n "()"] ok by (auto simp: query_spec_def)
  then have same: "gpu_pages t1 = gpu_pages t" "cpu_pages t1 = cpu_pages t" by (metis source_pages_simps)+
  show ?thesis
    using change_result [OF to_cpu.walk_range [OF q(2)], of v n] ok same
    unfolding untrack_memory_def q(1) by (auto simp: mark_conflict_def marked_def dest: spec [of _ Gpu])
qed

text \<open>A download reports the pages the GPU wrote, the same for both functions, and may give them back.\<close>

lemma download_exact:
  assumes "tk_good ww aw t" "track_ok v n"
  shows "\<exists>rs t'. for_each_download_range clear v n t = Some (rs, rs, t') \<and> tiles rs (gpu_pages t \<inter> pages_of v n) \<and> tk_good ww aw t' \<and>
    cpu_pages t' = cpu_pages t \<and> gpu_pages t' = (if clear then gpu_pages t - pages_of v n else gpu_pages t)"
proof -
  note ok = track_ok_pages [OF assms(2)]
  obtain rs where a: "tk_iterate False (tk_collect Gpu False) v n [] t = Some (False, rs, t)" "tiles rs (gpu_pages t \<inter> pages_of v n)"
    using gpu_collect.walk_range [OF assms(1), of v n False "[]"] ok by (auto simp: collect_spec_def)
  obtain rs' t' where b: "tk_iterate False (tk_collect Gpu True) v n [] t = Some (False, rs', t')" "tk_good ww aw t'"
    "marked Gpu False (pages_of v n) t t'"
    using gpu_collect.walk_range [OF assms(1), of v n True "[]"] ok by (auto simp: collect_spec_def)
  show ?thesis
  proof (cases clear)
    case True
    then show ?thesis using a b by (auto simp: for_each_download_range_def marked_def dest: spec [of _ Cpu])
  next
    case False
    then show ?thesis using a assms(1) by (simp add: for_each_download_range_def)
  qed
qed

text \<open>An upload reports the pages the CPU wrote and gives them up; what the GPU is about to write becomes its own.\<close>

lemma upload_exact:
  assumes "tk_good ww aw t" "track_ok v n"
  shows "\<exists>rs t'. for_each_upload_range v n is_written t = Some (rs, t') \<and> tiles rs (cpu_pages t \<inter> pages_of v n) \<and> tk_good ww aw t' \<and>
    cpu_pages t' = cpu_pages t - pages_of v n \<and> gpu_pages t' = (if is_written then gpu_pages t \<union> pages_of v n else gpu_pages t)"
proof -
  have ok: "guest_range_valid v n" "0 \<notin> pages_of v n" using track_ok_pages [OF assms(2)] by simp_all
  obtain t1 where t1: "tk_iterate True (\<lambda>_ _ _ _ acc t. Some (False, acc, t)) v n () t = Some (False, (), t1)" "tk_good ww aw t1"
      "\<forall>x. source_pages x t1 = source_pages x t" "\<forall>p \<in> pages_of v n. p div 1024 \<in> dom (tk_regions t1)"
    using touch.walk_range [OF assms(1) ok, of "()"] unfolding touch_spec_def by blast
  have same1: "gpu_pages t1 = gpu_pages t" "cpu_pages t1 = cpu_pages t" using t1(3) by (metis source_pages_simps)+
  have exists1: "v div TRACKER_REGION_SIZE \<le> B \<Longrightarrow> tk_addr B < tk_addr (v div TRACKER_REGION_SIZE) + v mod TRACKER_REGION_SIZE + n \<Longrightarrow>
      B \<in> dom (tk_regions t1)" for B
    using t1(4) range_regions [OF ok(1)] by metis
  have off: "v mod TRACKER_REGION_SIZE < TRACKER_REGION_SIZE" by (simp add: TRACKER_REGION_SIZE_def)
  have as_true: "tk_iterate False f v n acc t' = tk_iterate True f v n acc t'"
    if "keeps_regions f" "dom (tk_regions t1) \<subseteq> dom (tk_regions t')" for f :: "'b region_func" and acc t'
    using iterate_existing [OF that(1) off, of "v div TRACKER_REGION_SIZE" n t' acc] exists1 that(2) by (simp add: tk_iterate_def subset_iff)
  obtain rs t2 where t2: "tk_iterate True (tk_collect Cpu True) v n [] t1 = Some (False, rs, t2)" "tk_good ww aw t2"
      "tiles rs (cpu_pages t1 \<inter> pages_of v n)" "marked Cpu False (pages_of v n) t1 t2"
    using cpu_collect.walk_range [OF t1(2) ok, of "[]"] by (auto simp: collect_spec_def)
  have same2: "gpu_pages t2 = gpu_pages t" "cpu_pages t2 = cpu_pages t - pages_of v n"
    using t2(4) same1 by (auto simp: marked_def dest: spec [of _ Gpu])
  have c: "tk_iterate False (tk_collect Cpu True) v n [] t1 = Some (False, rs, t2)"
    using as_true [OF funcs_keep_regions(2)] t2(1) by simp
  have dom2: "dom (tk_regions t1) \<subseteq> dom (tk_regions t2)"
    by (rule iterate_keeps_regions [OF funcs_keep_regions(2) off t2(1) [unfolded tk_iterate_def if_P [OF ok(1)]]])
  show ?thesis
  proof (cases is_written)
    case False
    then show ?thesis using t1(1) c t2 same1 same2 by (auto simp: for_each_upload_range_def)
  next
    case True
    have "\<not> mark_conflict Gpu True (pages_of v n) t2" using same2 by (auto simp: mark_conflict_def)
    then obtain t3 where t3: "tk_iterate True (tk_change Gpu True) v n () t2 = Some (False, (), t3)" "tk_good ww aw t3" "marked Gpu True (pages_of v n) t2 t3"
      using change.walk_range [OF t2(2) ok, of Gpu True "()"] by (auto simp: change_spec_def)
    have "tk_iterate False (tk_change Gpu True) v n () t2 = Some (False, (), t3)"
      by (subst as_true [OF funcs_keep_regions(1) dom2]) (rule t3(1))
    then show ?thesis using True t1(1) c t2 t3 same1 same2 by (auto simp: for_each_upload_range_def marked_def dest: spec [of _ Cpu])
  qed
qed

section \<open>Invalidation\<close>

text \<open>
  The contract of a flush: it gives the pages of \<open>W\<close> back to the CPU and marks those of \<open>V\<close> in it, and takes the bytes on \<open>W\<close> out of
  what its own state \<open>acc\<close> says the GPU has written.
\<close>

definition page_bytes :: "nat set \<Rightarrow> nat set" where
  "page_bytes S = {b. b div TRACKER_PAGE_SIZE \<in> S}"

definition invalidate_spec ::
  "('a \<Rightarrow> tracker \<Rightarrow> bool) \<Rightarrow> nat set \<Rightarrow> nat set \<Rightarrow> ('a \<Rightarrow> nat set) \<Rightarrow> nat set \<Rightarrow> 'a \<Rightarrow> tracker \<Rightarrow> (bool \<times> 'a \<times> tracker) option \<Rightarrow> bool" where
  "invalidate_spec I V W owned S acc t res \<longleftrightarrow>
     (S \<subseteq> V \<longrightarrow> (\<exists>acc' t'. res = Some (False, acc', t') \<and> I acc' t' \<and> cpu_pages t \<union> S \<subseteq> cpu_pages t' \<and> cpu_pages t' \<subseteq> cpu_pages t \<union> V \<and>
        gpu_pages t' = (if gpu_pages t \<inter> S = {} then gpu_pages t else gpu_pages t - W) \<and>
        owned acc' = (if gpu_pages t \<inter> S = {} then owned acc else owned acc - page_bytes W)))"

locale flush_contract =
  fixes ww aw :: "nat \<Rightarrow> nat" and I :: "'a \<Rightarrow> tracker \<Rightarrow> bool" and V W :: "nat set" and owned :: "'a \<Rightarrow> nat set"
    and on_flush :: "'a \<Rightarrow> tracker \<Rightarrow> ('a \<times> tracker) option"
  assumes good: "I acc t \<Longrightarrow> tk_good ww aw t" and within: "I acc t \<Longrightarrow> V \<subseteq> W"
    and stable: "I acc t \<Longrightarrow> tk_good ww aw t' \<Longrightarrow> gpu_pages t' = gpu_pages t \<Longrightarrow> I acc t'"
    and flush: "I acc t \<Longrightarrow> gpu_pages t \<inter> V \<noteq> {} \<Longrightarrow> \<exists>acc' t'. on_flush acc t = Some (acc', t') \<and> I acc' t' \<and>
      cpu_pages t' = cpu_pages t \<union> V \<and> gpu_pages t' = gpu_pages t - W \<and> owned acc' = owned acc - page_bytes W"
begin

lemma invalidate_call:
  assumes "I acc t" and "tk_regions t B = Some r" and "part B off n"
  shows "invalidate_spec I V W owned (pages_of (tk_addr B + off) n) acc t (tk_invalidate on_flush B r off n acc t)"
proof -
  define S where "S = pages_of (tk_addr B + off) n"
  have m: "rm_is_modified Gpu (tk_addr B) off n r = Some (gpu_pages t \<inter> S \<noteq> {})"
    using tk_query_step [of ww aw t B r n off Gpu] good [OF assms(1)] assms(2,3) by (simp add: tk_good_def part_def S_def)
  show ?thesis
  proof (cases "gpu_pages t \<inter> S = {}")
    case True
    then have "\<not> mark_conflict Cpu True S t" by (simp add: mark_conflict_def)
    with change_call [OF good [OF assms(1)] assms(2,3), of Cpu True acc] obtain t'
      where c: "tk_change Cpu True B r off n acc t = Some (False, acc, t')" "tk_good ww aw t'" "marked Cpu True S t t'"
      by (auto simp: change_spec_def S_def)
    have sets: "cpu_pages t' = cpu_pages t \<union> S" "gpu_pages t' = gpu_pages t" using c(3) by (auto simp: marked_def dest: spec [of _ Gpu])
    have "tk_invalidate on_flush B r off n acc t = Some (False, acc, t')"
      using True m c(1) by (simp add: tk_invalidate_def tk_change_def)
    then show ?thesis using True sets stable [OF assms(1) c(2) sets(2)] by (auto simp: invalidate_spec_def S_def)
  next
    case False
    show ?thesis unfolding invalidate_spec_def
    proof
      assume "pages_of (tk_addr B + off) n \<subseteq> V"
      then have "gpu_pages t \<inter> V \<noteq> {}" using False by (auto simp: S_def)
      from flush [OF assms(1) this] obtain acc' t' where f: "on_flush acc t = Some (acc', t')" "I acc' t'" "cpu_pages t' = cpu_pages t \<union> V"
        "gpu_pages t' = gpu_pages t - W" "owned acc' = owned acc - page_bytes W" by blast
      have "tk_invalidate on_flush B r off n acc t = Some (False, acc', t')" using False m f(1) by (simp add: tk_invalidate_def)
      then show "\<exists>acc' t'. tk_invalidate on_flush B r off n acc t = Some (False, acc', t') \<and> I acc' t' \<and>
          cpu_pages t \<union> pages_of (tk_addr B + off) n \<subseteq> cpu_pages t' \<and> cpu_pages t' \<subseteq> cpu_pages t \<union> V \<and>
          gpu_pages t' = (if gpu_pages t \<inter> pages_of (tk_addr B + off) n = {} then gpu_pages t else gpu_pages t - W) \<and>
          owned acc' = (if gpu_pages t \<inter> pages_of (tk_addr B + off) n = {} then owned acc else owned acc - page_bytes W)"
        using False f \<open>pages_of (tk_addr B + off) n \<subseteq> V\<close> by (auto simp: S_def)
    qed
  qed
qed

lemma invalidate_seq:
  assumes "I acc t" and "invalidate_spec I V W owned S acc t res"
    and "\<And>acc' t'. res = Some (False, acc', t') \<Longrightarrow> invalidate_spec I V W owned T acc' t' (f acc' t')"
  shows "invalidate_spec I V W owned (S \<union> T) acc t
    (case res of None \<Rightarrow> None | Some (stop, acc', t') \<Rightarrow> if stop then Some (True, acc', t') else f acc' t')"
proof (cases "S \<union> T \<subseteq> V")
  case True
  then obtain acc1 t1 where a: "res = Some (False, acc1, t1)" "I acc1 t1" "cpu_pages t \<union> S \<subseteq> cpu_pages t1" "cpu_pages t1 \<subseteq> cpu_pages t \<union> V"
      "gpu_pages t1 = (if gpu_pages t \<inter> S = {} then gpu_pages t else gpu_pages t - W)"
      "owned acc1 = (if gpu_pages t \<inter> S = {} then owned acc else owned acc - page_bytes W)"
    using assms(2) unfolding invalidate_spec_def by auto
  obtain acc2 t2 where b: "f acc1 t1 = Some (False, acc2, t2)" "I acc2 t2" "cpu_pages t1 \<union> T \<subseteq> cpu_pages t2" "cpu_pages t2 \<subseteq> cpu_pages t1 \<union> V"
      "gpu_pages t2 = (if gpu_pages t1 \<inter> T = {} then gpu_pages t1 else gpu_pages t1 - W)"
      "owned acc2 = (if gpu_pages t1 \<inter> T = {} then owned acc1 else owned acc1 - page_bytes W)"
    using assms(3) [OF a(1)] True unfolding invalidate_spec_def by auto
  have "T \<subseteq> W" using True within [OF assms(1)] by blast
  then have "gpu_pages t2 = (if gpu_pages t \<inter> (S \<union> T) = {} then gpu_pages t else gpu_pages t - W) \<and>
      owned acc2 = (if gpu_pages t \<inter> (S \<union> T) = {} then owned acc else owned acc - page_bytes W)"
    unfolding b(5,6) a(5,6) by (cases "gpu_pages t \<inter> S = {}") auto
  then show ?thesis using a(1,3,4) b(1-4) unfolding invalidate_spec_def by auto
next
  case False
  then show ?thesis unfolding invalidate_spec_def by blast
qed

end

text \<open>A flush that keeps its contract makes \<open>InvalidateRegion\<close> a walk over the regions of the range.\<close>

sublocale flush_contract \<subseteq> walk: region_walk False "tk_invalidate on_flush" V I "invalidate_spec I V W owned"
proof (unfold_locales, goal_cases)
  case (1 acc t)
  then show ?case by (simp add: invalidate_spec_def)
next
  case (2 acc t B off m)
  then show ?case using skipped_sets [of t B off m] by (auto simp: invalidate_spec_def)
next
  case (5 acc t B r off m)
  show ?case by (rule invalidate_call [OF 5(1-3)])
next
  case (6 acc t S stop acc' t')
  then show ?case by (auto simp: invalidate_spec_def)
next
  case (7 acc t S res T f)
  show ?case by (rule invalidate_seq [OF 7(1-3)])
qed simp_all

context flush_contract
begin

lemma invalidate_exact:
  assumes "I acc t" and "track_ok v n" and "V = pages_of v n"
  shows "\<exists>acc' t'. invalidate_region v n on_flush acc t = Some (acc', t') \<and> I acc' t' \<and> cpu_pages t' = cpu_pages t \<union> V \<and>
    gpu_pages t' = (if gpu_pages t \<inter> V = {} then gpu_pages t else gpu_pages t - W) \<and>
    owned acc' = (if gpu_pages t \<inter> V = {} then owned acc else owned acc - page_bytes W)"
proof -
  have v: "guest_range_valid v n" "0 \<notin> pages_of v n" "pages_of v n \<subseteq> V" using track_ok_pages [OF assms(2)] assms(3) by blast+
  from walk.walk_range [OF assms(1) v] assms(3) obtain acc' t'
    where "tk_iterate False (tk_invalidate on_flush) v n acc t = Some (False, acc', t')" "I acc' t'"
      "cpu_pages t \<union> V \<subseteq> cpu_pages t'" "cpu_pages t' \<subseteq> cpu_pages t \<union> V"
      "gpu_pages t' = (if gpu_pages t \<inter> V = {} then gpu_pages t else gpu_pages t - W)"
      "owned acc' = (if gpu_pages t \<inter> V = {} then owned acc else owned acc - page_bytes W)"
    by (auto simp: invalidate_spec_def)
  then show ?thesis by (auto simp: invalidate_region_def)
qed

end

section \<open>Other watchers\<close>

text \<open>Other users of the page manager: their watchers are counted beside the tracker's.\<close>

definition watched :: "bool \<Rightarrow> nat set \<Rightarrow> (nat \<Rightarrow> nat) \<Rightarrow> nat \<Rightarrow> nat" where
  "watched track S w = (\<lambda>p. if p \<in> S then if track then w p + 1 else w p - 1 else w p)"

lemma pages_of_end: "0 < n \<Longrightarrow> pages_of v n = {v div TRACKER_PAGE_SIZE..<(v + n - 1) div TRACKER_PAGE_SIZE + 1}"
proof -
  assume "0 < n"
  then have "v + n + TRACKER_PAGE_SIZE - 1 = (v + n - 1) + TRACKER_PAGE_SIZE" by simp
  then show ?thesis unfolding pages_of_def by (simp add: div_add_self2)
qed

lemma watch_exact:
  assumes "tk_good ww aw t" and "guest_range_valid v n"
    and "\<And>p. p \<in> pages_of v n \<Longrightarrow> if track then (if is_read then aw p < 254 else ww p < 126) else 0 < (if is_read then aw p else ww p)"
  shows "\<exists>pm. update_page_watchers track is_read v n (tk_pages t) = Some pm \<and>
    tk_good (if is_read then ww else watched track (pages_of v n) ww) (if is_read then watched track (pages_of v n) aw else aw) (t\<lparr>tk_pages := pm\<rparr>)"
proof -
  define S where "S = pages_of v n"
  have inv: "tk_inv ww aw t" and fit: "watchers_fit ww aw" using assms(1) by (simp_all add: tk_good_def)
  have "0 < n" using assms(2) by (simp add: guest_range_valid_def)
  then have step: "pm_step track is_read S (tk_pages t) (update_page_watchers track is_read v n (tk_pages t))"
    using update_page_watchers_step [OF tk_invD(3) [OF inv] assms(2)] by (simp add: S_def pages_of_end)
  have page: "page_at (tk_pages t) p = page_for ww aw (cpu_pages t) (gpu_pages t) p" for p using tk_invD(4) [OF inv] by simp
  have can: "can_bump track is_read (page_at (tk_pages t) p)" if "p \<in> S" for p
    using assms(3) [of p] that by (cases track; cases is_read) (simp_all add: S_def page can_bump_def watcher_count_def page_for_def)
  then obtain pm where pm: "update_page_watchers track is_read v n (tk_pages t) = Some pm" "pm_ok pm"
    "page_at pm = bump_on track is_read S (page_at (tk_pages t))" using step by (auto simp: pm_step_def)
  have sets: "cpu_pages (t\<lparr>tk_pages := pm\<rparr>) = cpu_pages t" "gpu_pages (t\<lparr>tk_pages := pm\<rparr>) = gpu_pages t"
    by (simp_all add: cpu_pages_def gpu_pages_def)
  have "bump track is_read (page_for ww aw C G p) =
      page_for (if is_read then ww else watched track S ww) (if is_read then watched track S aw else aw) C G p" if "p \<in> S" for p C G
    using assms(3) [of p] that by (cases track; cases is_read) (auto simp: S_def bump_def watcher_count_def page_for_def watched_def)
  moreover have "page_for ww aw C G p = page_for (if is_read then ww else watched track S ww) (if is_read then watched track S aw else aw) C G p"
    if "p \<notin> S" for p C G using that by (simp add: page_for_def watched_def)
  ultimately have view: "page_at pm = page_for (if is_read then ww else watched track S ww) (if is_read then watched track S aw else aw) (cpu_pages t) (gpu_pages t)"
    by (auto simp: fun_eq_iff pm(3) bump_on_def page)
  have "watchers_fit (if is_read then ww else watched track S ww) (if is_read then watched track S aw else aw)"
    unfolding watchers_fit_def
  proof
    fix p
    have "ww p < 127" "aw p < 255" using fit by (simp_all add: watchers_fit_def)
    then show "(if is_read then ww else watched track S ww) p < 127 \<and> (if is_read then watched track S aw else aw) p < 255"
      using assms(3) [of p] by (cases track; cases is_read) (auto simp: S_def watched_def)
  qed
  then show ?thesis
    using inv pm(1,2) view sets unfolding S_def [symmetric] tk_good_def tk_inv_def by (intro exI [of _ pm]) simp
qed

end
