(* ===== verification/Gpu_Ownership_Facts.thy ===== *)
theory Gpu_Ownership_Facts
  imports Gpu_Ownership Tracker_Operations
begin

text \<open>
  The two records of what the GPU owns agree: a page is the GPU's in the tracker exactly when some byte on it is among the bytes
  the GPU has written (\<open>own_inv\<close>), through every operation of the buffer cache. From it follow that none of the checks of the
  operations fails, and the operations as changes of the set of bytes that the GPU owns and of the pages the CPU wrote.
\<close>

section \<open>Ranges and pages\<close>

definition byte_page :: "nat \<Rightarrow> nat" where
  "byte_page b = b div TRACKER_PAGE_SIZE"

lemma page_bytes_iff: "b \<in> page_bytes S \<longleftrightarrow> byte_page b \<in> S"
  by (simp add: page_bytes_def byte_page_def)

definition spans :: "(u64 \<times> u64) list \<Rightarrow> nat set" where
  "spans rs = (\<Union>r \<in> set rs. span (fst r) (snd r))"

lemma spans_simps [simp]: "spans [] = {}" "spans (r # rs) = span (fst r) (snd r) \<union> spans rs" "spans (rs @ rs') = spans rs \<union> spans rs'"
  by (auto simp: spans_def)

lemma pages_of_span:
  assumes "0 < n"
  shows "pages_of v n = byte_page ` span v n"
proof (intro set_eqI iffI)
  fix p assume "p \<in> byte_page ` span v n"
  then obtain b where b: "p = byte_page b" "v \<le> b" "b \<le> v + n - 1" by (auto simp: span_def)
  then show "p \<in> pages_of v n" using div_le_mono [of v b TRACKER_PAGE_SIZE] div_le_mono [of b "v + n - 1" TRACKER_PAGE_SIZE]
    unfolding pages_of_end [OF assms] by (simp add: byte_page_def)
next
  fix p assume p: "p \<in> pages_of v n"
  define b where "b = max v (p * TRACKER_PAGE_SIZE)"
  have le: "v div TRACKER_PAGE_SIZE \<le> p" "p \<le> (v + n - 1) div TRACKER_PAGE_SIZE" using p unfolding pages_of_end [OF assms] by auto
  have "p * TRACKER_PAGE_SIZE \<le> (v + n - 1) div TRACKER_PAGE_SIZE * TRACKER_PAGE_SIZE" using le(2) by (rule mult_le_mono1)
  then have "p * TRACKER_PAGE_SIZE \<le> v + n - 1" using div_times_less_eq_dividend le_trans by blast
  then have "b \<in> span v n" using assms by (auto simp: b_def span_def)
  moreover have "v < (p + 1) * TRACKER_PAGE_SIZE"
  proof -
    have "v < (v div TRACKER_PAGE_SIZE + 1) * TRACKER_PAGE_SIZE" by (simp add: dividend_less_div_times)
    also have "\<dots> \<le> (p + 1) * TRACKER_PAGE_SIZE" using le(1) by (intro mult_le_mono1) simp
    finally show ?thesis .
  qed
  then have "byte_page b = p" unfolding byte_page_def b_def by (intro div_nat_eqI) (auto simp: mult.commute)
  ultimately show "p \<in> byte_page ` span v n" by blast
qed

lemma pages_of_bound:
  assumes "guest_range_valid v n"
  shows "pages_of v n \<subseteq> {..<268435456}"
proof -
  have "v + n - 1 < 268435456 * TRACKER_PAGE_SIZE" "0 < n" using assms by (auto simp: guest_range_valid_def region_consts)
  then have "(v + n - 1) div TRACKER_PAGE_SIZE < 268435456" by (simp add: less_mult_imp_div_less)
  then show ?thesis unfolding pages_of_end [OF \<open>0 < n\<close>] by auto
qed

lemma track_ok_range: "guest_range_valid v n \<Longrightarrow> range_ok v n"
  by (auto simp: guest_range_valid_def range_ok_def TRACKER_ADDRESS_SIZE_def U64_MAX_def)

lemma tiles_spans:
  assumes "tiles rs S"
  shows "spans rs = page_bytes S"
proof -
  have mem: "b \<in> span (fst r) (snd r) \<longleftrightarrow> byte_page b \<in> {fst r div TRACKER_PAGE_SIZE..<(fst r + snd r) div TRACKER_PAGE_SIZE}" if r: "r \<in> set rs" for r b
  proof -
    define a e where "a = fst r div TRACKER_PAGE_SIZE" and "e = (fst r + snd r) div TRACKER_PAGE_SIZE"
    have ae: "fst r = a * TRACKER_PAGE_SIZE" "fst r + snd r = e * TRACKER_PAGE_SIZE" using tiles_page(3,4) [OF assms r] by (simp_all add: a_def e_def)
    have "b \<in> span (fst r) (snd r) \<longleftrightarrow> a * TRACKER_PAGE_SIZE \<le> b \<and> b < e * TRACKER_PAGE_SIZE" unfolding span_iff ae(2) by (simp add: ae(1))
    also have "\<dots> \<longleftrightarrow> a \<le> byte_page b \<and> byte_page b < e"
      by (simp add: byte_page_def less_eq_div_iff_mult_less_eq div_less_iff_less_mult)
    finally show ?thesis by (simp add: a_def e_def)
  qed
  have "bytes_of (page_ivals rs) = S" using assms by (simp add: tiles_def)
  then have "byte_page b \<in> S \<longleftrightarrow> (\<exists>r \<in> set rs. byte_page b \<in> {fst r div TRACKER_PAGE_SIZE..<(fst r + snd r) div TRACKER_PAGE_SIZE})" for b
    by (simp add: bytes_of_iff page_ivals_def case_prod_beta flip: \<open>bytes_of (page_ivals rs) = S\<close>)
  then have "b \<in> spans rs \<longleftrightarrow> b \<in> page_bytes S" for b
    unfolding page_bytes_iff spans_def UN_iff by (simp only:) (intro bex_cong refl mem)
  then show ?thesis by blast
qed

lemma tiles_ranges_ok:
  assumes "tiles rs S" and "S \<subseteq> {..<268435456}" and "r \<in> set rs"
  shows "range_ok (fst r) (snd r)"
proof -
  define e where "e = (fst r + snd r) div TRACKER_PAGE_SIZE"
  have "e - 1 \<in> S" "0 < e" "fst r + snd r = e * TRACKER_PAGE_SIZE" using tiles_page(2,4,5) [OF assms(1,3)] by (simp_all add: e_def)
  then have "e \<le> 268435456" "fst r + snd r = e * TRACKER_PAGE_SIZE" using assms(2) by auto
  moreover have "0 < snd r" using assms(1,3) by (auto simp: tiles_def)
  ultimately show ?thesis by (simp add: range_ok_def TRACKER_PAGE_SIZE_def U64_MAX_def)
qed

lemma intersect_loop_ok: "e \<le> U64_MAX \<Longrightarrow> r \<in> set (intersect_loop a e it) \<Longrightarrow> range_ok (fst r) (snd r)"
  by (induction a e it rule: intersect_loop.induct) (auto simp: range_ok_def Let_def split: if_splits)

lemma intersections_ok:
  assumes "apart m" and "range_ok a n"
  obtains rs where "rs_intersections a n m = Some rs" and "spans rs = bytes_of m \<inter> span a n" and "\<forall>r \<in> set rs. range_ok (fst r) (snd r)"
proof -
  obtain rs where rs: "rs_intersections a n m = Some rs" "spans rs = bytes_of m \<inter> span a n"
    using rs_intersections_correct [OF assms] by (auto simp: spans_def)
  have "\<forall>r \<in> set rs. range_ok (fst r) (snd r)"
    using rs(1) assms(2) intersect_loop_ok [of "a + n"] by (auto simp: rs_intersections_def rs_end_ok range_ok_def Let_def)
  with rs that show thesis by blast
qed

lemma collect_copies_correct:
  assumes "apart m"
  shows "\<forall>r \<in> set rs. range_ok (fst r) (snd r) \<Longrightarrow>
    \<exists>cs. collect_copies rs m = Some cs \<and> spans cs = bytes_of m \<inter> spans rs \<and> (\<forall>r \<in> set cs. range_ok (fst r) (snd r))"
proof (induction rs)
  case (Cons r rs)
  obtain a n where r: "r = (a, n)" by (cases r)
  obtain cs where cs: "collect_copies rs m = Some cs" "spans cs = bytes_of m \<inter> spans rs" "\<forall>r \<in> set cs. range_ok (fst r) (snd r)" using Cons by auto
  obtain xs where xs: "rs_intersections a n m = Some xs" "spans xs = bytes_of m \<inter> span a n" "\<forall>r \<in> set xs. range_ok (fst r) (snd r)"
    using intersections_ok [OF assms, of a n] Cons.prems r by auto
  show ?case using cs xs by (auto simp: r)
qed simp

lemma subtract_copies_correct:
  "apart m \<Longrightarrow> \<forall>r \<in> set cs. range_ok (fst r) (snd r) \<Longrightarrow> \<exists>m'. subtract_copies cs m = Some m' \<and> apart m' \<and> bytes_of m' = bytes_of m - spans cs"
proof (induction cs arbitrary: m)
  case (Cons r cs)
  obtain a n where r: "r = (a, n)" "range_ok a n" using Cons.prems(2) by (cases r) auto
  define m1 where "m1 = rs_subtract_at a (a + n) m"
  have "apart m1" "bytes_of m1 = bytes_of m - span a n" using rs.cut_inv_any [OF Cons.prems(1) r(2)] rs.cut_bytes_any [OF Cons.prems(1) r(2)] by (simp_all add: m1_def)
  moreover obtain m' where "subtract_copies cs m1 = Some m'" "apart m'" "bytes_of m' = bytes_of m1 - spans cs"
    using Cons.IH [OF \<open>apart m1\<close>] Cons.prems(2) by auto
  ultimately show ?case using rs_subtract_ok [OF r(2), of m] by (auto simp: r(1) m1_def)
qed simp

section \<open>The agreement\<close>

definition own_inv :: "(nat \<Rightarrow> nat) \<Rightarrow> (nat \<Rightarrow> nat) \<Rightarrow> range_set \<Rightarrow> tracker \<Rightarrow> bool" where
  "own_inv ww aw ranges t \<longleftrightarrow> tk_good ww aw t \<and> apart ranges \<and> gpu_pages t = byte_page ` bytes_of ranges"

lemma own_invD:
  assumes "own_inv ww aw ranges t"
  shows "tk_good ww aw t" and "apart ranges" and "gpu_pages t = byte_page ` bytes_of ranges"
  using assms by (simp_all add: own_inv_def)

lemma own_meets:
  assumes "own_inv ww aw ranges t"
  shows "gpu_pages t \<inter> S = {} \<longleftrightarrow> bytes_of ranges \<inter> page_bytes S = {}"
  by (auto simp: own_invD(3) [OF assms] page_bytes_iff)

lemma pages_left: "byte_page ` (B - page_bytes W) = byte_page ` B - W"
  by (auto simp: page_bytes_iff)

text \<open>What the checks look at: the bytes of a page, and the pages of the ranges reported.\<close>

lemma page_range_ok:
  assumes "0 < p" and "p < 268435456"
  shows "track_ok (p * TRACKER_PAGE_SIZE) TRACKER_PAGE_SIZE" and "pages_of (p * TRACKER_PAGE_SIZE) TRACKER_PAGE_SIZE = {p}"
    and "range_ok (p * TRACKER_PAGE_SIZE) TRACKER_PAGE_SIZE"
proof -
  have "Suc p * TRACKER_PAGE_SIZE \<le> 268435456 * TRACKER_PAGE_SIZE" using assms(2) by (intro mult_le_mono1) simp
  then show *: "track_ok (p * TRACKER_PAGE_SIZE) TRACKER_PAGE_SIZE"
    using assms(1) unfolding track_ok_def guest_range_valid_def TRACKER_ADDRESS_SIZE_def TRACKER_PAGE_SIZE_def by simp
  then show "range_ok (p * TRACKER_PAGE_SIZE) TRACKER_PAGE_SIZE" by (simp add: track_ok_def track_ok_range)
  have "(p * TRACKER_PAGE_SIZE + TRACKER_PAGE_SIZE - 1) div TRACKER_PAGE_SIZE = p"
    unfolding TRACKER_PAGE_SIZE_def by simp
  then show "pages_of (p * TRACKER_PAGE_SIZE) TRACKER_PAGE_SIZE = {p}" by (simp add: pages_of_end)
qed

lemma page_dirty:
  assumes own: "own_inv ww aw ranges t" and p: "0 < p" "p < 268435456"
  shows "rs_intersects (p * TRACKER_PAGE_SIZE) TRACKER_PAGE_SIZE ranges = Some (p \<in> gpu_pages t)"
proof -
  have "byte_page ` span (p * TRACKER_PAGE_SIZE) TRACKER_PAGE_SIZE = {p}" using page_range_ok(2) [OF p] by (simp add: pages_of_span)
  moreover have "b \<in> span (p * TRACKER_PAGE_SIZE) TRACKER_PAGE_SIZE" if b: "byte_page b = p" for b
  proof -
    have "p * TRACKER_PAGE_SIZE \<le> b" "b < (p + 1) * TRACKER_PAGE_SIZE"
      using b by (auto simp: byte_page_def dividend_less_div_times [of TRACKER_PAGE_SIZE b, simplified])
    then show ?thesis by (auto simp: span_def)
  qed
  ultimately have "span (p * TRACKER_PAGE_SIZE) TRACKER_PAGE_SIZE = {b. byte_page b = p}" by (auto simp: image_iff)
  then have "bytes_of ranges \<inter> span (p * TRACKER_PAGE_SIZE) TRACKER_PAGE_SIZE \<noteq> {} \<longleftrightarrow> p \<in> gpu_pages t"
    unfolding own_invD(3) [OF own] by auto
  then show ?thesis unfolding rs_intersects_correct [OF own_invD(2) [OF own] page_range_ok(3) [OF p]] by simp
qed

lemma validate_dirty_pages_ok:
  assumes "own_inv ww aw ranges t" and "set ps \<subseteq> gpu_pages t" and "\<forall>p \<in> set ps. 0 < p \<and> p < 268435456"
  shows "validate_dirty_pages ps ranges = Some ()"
  using assms(2,3) by (induction ps) (auto simp: page_dirty [OF assms(1)])

lemma validate_reported_ok:
  assumes own: "own_inv ww aw ranges t" and t: "tiles rs S" and S: "S \<subseteq> gpu_pages t" "0 \<notin> S" "S \<subseteq> {..<268435456}"
  shows "set xs \<subseteq> set rs \<Longrightarrow> validate_reported xs ranges = Some ()"
proof (induction xs)
  case (Cons r xs)
  obtain v n where r: "r = (v, n)" by (cases r)
  then have mem: "(v, n) \<in> set rs" using Cons.prems by simp
  define a e where "a = v div TRACKER_PAGE_SIZE" and "e = (v + n) div TRACKER_PAGE_SIZE"
  have ae: "v = a * TRACKER_PAGE_SIZE" "v + n = e * TRACKER_PAGE_SIZE" "a \<in> S" "e - 1 \<in> S" "0 < e"
    using tiles_page [OF t mem] by (simp_all add: a_def e_def)
  have "{a..<e} \<subseteq> bytes_of (page_ivals rs)" using mem unfolding bytes_of_def page_ivals_def a_def e_def by force
  then have sub: "set [a..<e] \<subseteq> S" using t by (simp add: tiles_def)
  have n: "0 < n" "n mod TRACKER_PAGE_SIZE = 0" using t mem by (auto simp: tiles_def)
  have "0 < a" "e \<le> 268435456" using ae(3-5) S(2,3) by (cases a; auto)+
  have "TRACKER_PAGE_SIZE \<le> v" using \<open>0 < a\<close> by (simp add: ae(1))
  moreover have "v + n \<le> 268435456 * TRACKER_PAGE_SIZE" using \<open>e \<le> 268435456\<close> unfolding ae(2) by (rule mult_le_mono1)
  ultimately have "guest_range_valid v n" using n(1) unfolding guest_range_valid_def TRACKER_ADDRESS_SIZE_def TRACKER_PAGE_SIZE_def by simp
  moreover have "validate_dirty_pages [a..<e] ranges = Some ()"
    using sub S by (intro validate_dirty_pages_ok [OF own]) (auto simp: subset_iff intro: gr0I)
  ultimately have "validate_gpu_dirty_pages v n ranges = Some ()"
    using n(2) by (simp add: validate_gpu_dirty_pages_def flip: a_def e_def) (simp add: ae(1))
  then show ?case using Cons by (simp add: r)
qed simp

lemma validate_pages_ok:
  assumes "own_inv ww aw ranges t" and "\<forall>p \<in> set ps. 0 < p \<and> p < 268435456"
  shows "\<exists>t'. validate_pages ps ranges t = Some t' \<and> tk_good ww aw t' \<and> cpu_pages t' = cpu_pages t \<and> gpu_pages t' = gpu_pages t"
  using assms
proof (induction ps arbitrary: t)
  case Nil
  then show ?case using own_invD(1) by auto
next
  case (Cons p ps)
  have p: "0 < p" "p < 268435456" using Cons.prems(2) by simp_all
  obtain t1 where t1: "is_region_gpu_modified (p * TRACKER_PAGE_SIZE) TRACKER_PAGE_SIZE t = Some (p \<in> gpu_pages t, t1)" "tk_good ww aw t1"
    "\<forall>x. source_pages x t1 = source_pages x t"
    using gpu_query_exact [OF own_invD(1) [OF Cons.prems(1)] page_range_ok(1) [OF p]] page_range_ok(2) [OF p] by auto
  have same: "cpu_pages t1 = cpu_pages t" "gpu_pages t1 = gpu_pages t" using t1(3) by (metis source_pages_simps)+
  then have "own_inv ww aw ranges t1" using Cons.prems(1) t1(2) by (simp only: own_inv_def)
  from Cons.IH [OF this] show ?case using Cons.prems(2) same by (simp add: page_dirty [OF Cons.prems(1) p] t1(1))
qed

lemma validate_gpu_dirty_ownership_ok:
  assumes "own_inv ww aw ranges t" and "track_ok v n"
  shows "\<exists>t'. validate_gpu_dirty_ownership v n ranges t = Some t' \<and> own_inv ww aw ranges t' \<and> cpu_pages t' = cpu_pages t \<and> gpu_pages t' = gpu_pages t"
proof -
  have v: "guest_range_valid v n" "0 \<notin> pages_of v n" using track_ok_pages [OF assms(2)] by simp_all
  have "\<forall>p \<in> pages_of v n. 0 < p \<and> p < 268435456" using v(2) pages_of_bound [OF v(1)] by (auto intro: gr0I)
  from validate_pages_ok [OF assms(1), of "[v div TRACKER_PAGE_SIZE..<(v + n + TRACKER_PAGE_SIZE - 1) div TRACKER_PAGE_SIZE]"] this obtain t'
    where t': "validate_pages [v div TRACKER_PAGE_SIZE..<(v + n + TRACKER_PAGE_SIZE - 1) div TRACKER_PAGE_SIZE] ranges t = Some t'"
      "tk_good ww aw t'" "cpu_pages t' = cpu_pages t" "gpu_pages t' = gpu_pages t" by (auto simp: pages_of_def)
  then have "own_inv ww aw ranges t'" using assms(1) by (simp only: own_inv_def)
  then show ?thesis using t' v(1) by (simp add: validate_gpu_dirty_ownership_def)
qed

text \<open>Bringing back what the GPU wrote on the pages of a range: the ranges collected are the bytes on them.\<close>

lemma collected:
  assumes own: "own_inv ww aw ranges t" and v: "track_ok v n"
  obtains reported copies where "for_each_download_range False v n t = Some (reported, reported, t)" and "validate_reported reported ranges = Some ()"
    and "collect_copies reported ranges = Some copies"
    and "spans copies = bytes_of ranges \<inter> page_bytes (pages_of v n)" and "\<forall>r \<in> set copies. range_ok (fst r) (snd r)"
proof -
  have same: "for_each_download_range False v n t = Some (rs, rs', t') \<Longrightarrow> t' = t" for rs rs' t'
  proof -
    assume d: "for_each_download_range False v n t = Some (rs, rs', t')"
    have "guest_range_valid v n" "0 \<notin> pages_of v n" using track_ok_pages [OF v] by auto
    from gpu_collect.walk_range [OF own_invD(1) [OF own] this subset_UNIV, of False "[]"] obtain xs
      where "tk_iterate False (tk_collect Gpu False) v n [] t = Some (False, xs, t)" by (auto simp: collect_spec_def)
    then show "t' = t" using d by (simp add: for_each_download_range_def)
  qed
  obtain reported t' where r: "for_each_download_range False v n t = Some (reported, reported, t')" "tiles reported (gpu_pages t \<inter> pages_of v n)"
    using download_exact [OF own_invD(1) [OF own] v, of False] by blast
  have "guest_range_valid v n" using track_ok_pages [OF v] by blast
  then have "\<forall>r \<in> set reported. range_ok (fst r) (snd r)"
    using tiles_ranges_ok [OF r(2)] pages_of_bound by blast
  from collect_copies_correct [OF own_invD(2) [OF own] this] obtain copies
    where c: "collect_copies reported ranges = Some copies" "spans copies = bytes_of ranges \<inter> spans reported"
      "\<forall>r \<in> set copies. range_ok (fst r) (snd r)" by blast
  have "spans copies = bytes_of ranges \<inter> page_bytes (pages_of v n)"
    unfolding c(2) tiles_spans [OF r(2)] using own_invD(3) [OF own] by (auto simp: page_bytes_iff)
  moreover have "validate_reported reported ranges = Some ()"
    using track_ok_pages [OF v] pages_of_bound [OF \<open>guest_range_valid v n\<close>] by (intro validate_reported_ok [OF own r(2)]) auto
  ultimately show thesis using that r(1) same [OF r(1)] c(1,3) by blast
qed

lemma no_copies: "\<forall>r \<in> set copies. range_ok (fst r) (snd r) \<Longrightarrow> copies = [] \<longleftrightarrow> spans copies = {}"
  by (cases copies) (auto simp: span_def range_ok_def)

text \<open>The bounds of the buffer that a range is in, and the window around the range in it.\<close>

definition buffer_ok :: "u64 \<Rightarrow> u64 \<Rightarrow> u64 \<Rightarrow> u64 \<Rightarrow> bool" where
  "buffer_ok bb be v n \<longleftrightarrow> 0 < n \<and> TRACKER_PAGE_SIZE \<le> bb \<and> bb \<le> v \<and> v + n \<le> be \<and> be \<le> TRACKER_ADDRESS_SIZE"

definition window_pages :: "u64 \<Rightarrow> u64 \<Rightarrow> u64 \<Rightarrow> u64 \<Rightarrow> nat set" where
  "window_pages bb be v n = pages_of (fst (read_window bb be v n)) (snd (read_window bb be v n))"

lemma window_ok:
  assumes "buffer_ok bb be v n"
  shows "track_ok v n" and "track_ok (fst (read_window bb be v n)) (snd (read_window bb be v n))" and "pages_of v n \<subseteq> window_pages bb be v n"
proof -
  have b: "0 < n" "TRACKER_PAGE_SIZE \<le> bb" "bb \<le> v" "v + n \<le> be" "be \<le> TRACKER_ADDRESS_SIZE" using assms by (simp_all add: buffer_ok_def)
  then show "track_ok v n" by (auto simp: track_ok_def guest_range_valid_def TRACKER_PAGE_SIZE_def)
  define w where "w = max (v - v mod READ_WINDOW) bb"
  define e where "e = min (max (w + READ_WINDOW) (v + n)) be"
  have w: "bb \<le> w" "w \<le> v" using b(3) by (auto simp: w_def)
  have e: "v + n \<le> e" "e \<le> be" using b(4) by (auto simp: e_def)
  have "add64 w READ_WINDOW = w + READ_WINDOW" "add64 v n = v + n"
    using w(2) b by (auto intro!: add64_le simp: READ_WINDOW_def TRACKER_ADDRESS_SIZE_def U64_MAX_def)
  then have win: "read_window bb be v n = (w, e - w)"
    using e w b unfolding read_window_def Let_def w_def [symmetric]
    by (simp add: e_def [symmetric]) (intro sub64_le, auto simp: TRACKER_ADDRESS_SIZE_def U64_MAX_def)
  show "track_ok (fst (read_window bb be v n)) (snd (read_window bb be v n))"
    using b w e by (auto simp: win track_ok_def guest_range_valid_def TRACKER_PAGE_SIZE_def)
  have "span v n \<subseteq> span w (e - w)" using w e b(1) by (auto simp: span_def)
  then show "pages_of v n \<subseteq> window_pages bb be v n"
    using b(1) e w by (auto simp: window_pages_def win pages_of_span)
qed

lemma window_bound: "buffer_ok bb be v n \<Longrightarrow> 0 \<notin> window_pages bb be v n"
  using track_ok_pages [OF window_ok(2)] by (simp add: window_pages_def)

section \<open>Each operation\<close>

text \<open>Reading back takes the bytes on the window's pages from the GPU, whether there are any or not.\<close>

lemma read_memory_exact:
  assumes own: "own_inv ww aw ranges t" and buf: "buffer_ok bb be v n" and reg: "is_write \<longrightarrow> registered"
  shows "\<exists>ranges' t'. read_memory_on_gpu registered bb be v n is_write ranges t = Some (ranges', t') \<and> own_inv ww aw ranges' t' \<and>
    cpu_pages t' = (if is_write then cpu_pages t \<union> pages_of v n else cpu_pages t) \<and>
    bytes_of ranges' = bytes_of ranges - page_bytes (window_pages bb be v n) \<and> gpu_pages t' = gpu_pages t - window_pages bb be v n"
proof -
  note ok = window_ok [OF buf]
  obtain w wn where win: "read_window bb be v n = (w, wn)" by (cases "read_window bb be v n")
  define W where "W = pages_of w wn"
  have W: "window_pages bb be v n = W" "track_ok w wn" "pages_of v n \<subseteq> W" using ok by (simp_all add: window_pages_def win W_def)
  obtain reported copies where c: "for_each_download_range False w wn t = Some (reported, reported, t)" "validate_reported reported ranges = Some ()"
    "collect_copies reported ranges = Some copies" "spans copies = bytes_of ranges \<inter> page_bytes W" "\<forall>r \<in> set copies. range_ok (fst r) (snd r)"
    by (rule collected [OF own W(2), folded W_def])
  have "\<exists>ranges1 t1. (if copies \<noteq> [] then do { ranges \<leftarrow> subtract_copies copies ranges; t \<leftarrow> unmark_region_as_gpu_modified w wn t; Some (ranges, t) }
        else Some (ranges, t)) = Some (ranges1, t1) \<and> own_inv ww aw ranges1 t1 \<and> cpu_pages t1 = cpu_pages t \<and>
        bytes_of ranges1 = bytes_of ranges - page_bytes W \<and> gpu_pages t1 = gpu_pages t - W"
  proof (cases "copies = []")
    case True
    then have e: "bytes_of ranges \<inter> page_bytes W = {}" using c(4) by simp
    then have "gpu_pages t \<inter> W = {}" using own_meets [OF own] by simp
    then show ?thesis using True own e by auto
  next
    case False
    obtain ranges1 where r1: "subtract_copies copies ranges = Some ranges1" "apart ranges1" "bytes_of ranges1 = bytes_of ranges - page_bytes W"
      using subtract_copies_correct [OF own_invD(2) [OF own] c(5)] c(4) by auto
    obtain t1 where t1: "unmark_region_as_gpu_modified w wn t = Some t1" "tk_good ww aw t1" "cpu_pages t1 = cpu_pages t" "gpu_pages t1 = gpu_pages t - W"
      using unmark_gpu_exact [OF own_invD(1) [OF own] W(2)] unfolding W_def by blast
    have "own_inv ww aw ranges1 t1" using r1 t1 own_invD(3) [OF own] by (simp add: own_inv_def pages_left)
    then show ?thesis using False r1 t1 by simp
  qed
  then obtain ranges1 t1 where s: "(if copies \<noteq> [] then do { ranges \<leftarrow> subtract_copies copies ranges; t \<leftarrow> unmark_region_as_gpu_modified w wn t;
        Some (ranges, t) } else Some (ranges, t)) = Some (ranges1, t1)" "own_inv ww aw ranges1 t1" "cpu_pages t1 = cpu_pages t"
      "bytes_of ranges1 = bytes_of ranges - page_bytes W" "gpu_pages t1 = gpu_pages t - W" by blast
  have run: "read_memory_on_gpu registered bb be v n is_write ranges t =
      (if is_write then map_option (Pair ranges1) (mark_region_as_cpu_modified v n t1) else Some (ranges1, t1))"
    using reg by (simp add: read_memory_on_gpu_def win Let_def c(1-3) s(1))
  show ?thesis
  proof (cases is_write)
    case True
    have "gpu_pages t1 \<inter> pages_of v n = {}" using s(5) W(3) by blast
    then obtain t2 where t2: "mark_region_as_cpu_modified v n t1 = Some t2" "tk_good ww aw t2" "cpu_pages t2 = cpu_pages t1 \<union> pages_of v n" "gpu_pages t2 = gpu_pages t1"
      using mark_cpu_exact [OF own_invD(1) [OF s(2)] ok(1)] by auto
    then have "own_inv ww aw ranges1 t2" using s(2) by (simp add: own_inv_def)
    then show ?thesis using True run t2 s W(1) by simp
  next
    case False
    then show ?thesis using run s W(1) by simp
  qed
qed

text \<open>The flush of \<open>InvalidateMemory\<close> keeps the contract of the tracker.\<close>

interpretation bc: flush_contract ww aw
    "\<lambda>ranges t. own_inv ww aw ranges t \<and> buffer_ok bb be v n \<and> (registered \<or> gpu_pages t \<inter> pages_of v n = {})"
    "pages_of v n" "window_pages bb be v n" bytes_of "read_memory_on_gpu registered bb be v n True"
  for ww aw bb be v n registered
proof (unfold_locales, goal_cases)
  case (1 ranges t)
  then show ?case using own_invD(1) by blast
next
  case (2 ranges t)
  then show ?case using window_ok(3) by simp
next
  case (3 ranges t t')
  then have "own_inv ww aw ranges t'" by (simp only: own_inv_def)
  then show ?case using 3 by (simp only:)
next
  case (4 ranges t)
  then show ?case using read_memory_exact [of ww aw ranges t bb be v n True registered] by auto
qed

lemma invalidate_memory_exact:
  assumes "own_inv ww aw ranges t" and "buffer_ok bb be v n" and "registered \<or> gpu_pages t \<inter> pages_of v n = {}"
  shows "\<exists>ranges' t'. invalidate_memory registered bb be v n ranges t = Some (ranges', t') \<and> own_inv ww aw ranges' t' \<and>
    cpu_pages t' = cpu_pages t \<union> pages_of v n \<and>
    bytes_of ranges' = (if bytes_of ranges \<inter> page_bytes (pages_of v n) = {} then bytes_of ranges
      else bytes_of ranges - page_bytes (window_pages bb be v n))"
proof -
  have v: "track_ok v n" "guest_range_valid v n" using window_ok(1) [OF assms(2)] by (simp_all add: track_ok_def)
  from bc.invalidate_exact [OF conjI [OF assms(1) conjI [OF assms(2,3)]] v(1) refl] obtain ranges' t'
    where r: "invalidate_region v n (read_memory_on_gpu registered bb be v n True) ranges t = Some (ranges', t')" "own_inv ww aw ranges' t'"
      "cpu_pages t' = cpu_pages t \<union> pages_of v n"
      "bytes_of ranges' = (if gpu_pages t \<inter> pages_of v n = {} then bytes_of ranges else bytes_of ranges - page_bytes (window_pages bb be v n))"
    by blast
  then show ?thesis using v(2) unfolding invalidate_memory_def own_meets [OF assms(1)] by simp
qed

lemma obtain_buffer_exact:
  assumes own: "own_inv ww aw ranges t" and v: "track_ok v n"
  shows "\<exists>uploads ranges' t'. obtain_buffer streamed v n is_written ranges t = Some (uploads, ranges', t') \<and> own_inv ww aw ranges' t' \<and>
    (if \<not> is_written \<and> n \<le> CACHING_PAGESIZE \<and> streamed \<and> gpu_pages t \<inter> pages_of v n = {} \<and> cpu_pages t \<inter> pages_of v n \<noteq> {}
     then uploads = [] \<and> cpu_pages t' = cpu_pages t
     else tiles uploads (cpu_pages t \<inter> pages_of v n) \<and> cpu_pages t' = cpu_pages t - pages_of v n) \<and>
    bytes_of ranges' = (if is_written then bytes_of ranges \<union> span v n else bytes_of ranges)"
proof -
  have valid: "guest_range_valid v n" "0 < n" using v by (auto simp: track_ok_def guest_range_valid_def)
  define small where "small \<longleftrightarrow> \<not> is_written \<and> n \<le> CACHING_PAGESIZE"
  define direct where "direct \<longleftrightarrow> small \<and> gpu_pages t \<inter> pages_of v n = {} \<and> cpu_pages t \<inter> pages_of v n \<noteq> {}"
  have "\<exists>t1. (if small then do { (gpu, t) \<leftarrow> is_region_gpu_modified v n t; if gpu then Some (False, t) else is_region_cpu_modified v n t }
      else Some (False, t)) = Some (direct, t1) \<and> tk_good ww aw t1 \<and> (\<forall>x. source_pages x t1 = source_pages x t)"
  proof (cases small)
    case True
    obtain t1 where t1: "is_region_gpu_modified v n t = Some (gpu_pages t \<inter> pages_of v n \<noteq> {}, t1)" "tk_good ww aw t1" "\<forall>x. source_pages x t1 = source_pages x t"
      using gpu_query_exact [OF own_invD(1) [OF own] v] by blast
    obtain t2 where t2: "is_region_cpu_modified v n t1 = Some (cpu_pages t1 \<inter> pages_of v n \<noteq> {}, t2)" "tk_good ww aw t2" "\<forall>x. source_pages x t2 = source_pages x t1"
      using cpu_query_exact [OF t1(2) v] by blast
    have "cpu_pages t1 = cpu_pages t" using t1(3) by (metis source_pages_simps(1))
    then show ?thesis using True t1 t2 by (cases "gpu_pages t \<inter> pages_of v n = {}") (auto simp: direct_def)
  qed (use own_invD(1) [OF own] in \<open>simp add: direct_def\<close>)
  then obtain t1 where q: "(if small then do { (gpu, t) \<leftarrow> is_region_gpu_modified v n t; if gpu then Some (False, t) else is_region_cpu_modified v n t }
      else Some (False, t)) = Some (direct, t1)" "tk_good ww aw t1" "\<forall>x. source_pages x t1 = source_pages x t" by blast
  have same: "cpu_pages t1 = cpu_pages t" "gpu_pages t1 = gpu_pages t" using q(3) by (metis source_pages_simps)+
  have run: "obtain_buffer streamed v n is_written ranges t =
      (if direct \<and> streamed then Some ([], ranges, t1)
       else do { (uploads, t) \<leftarrow> for_each_upload_range v n is_written t1; ranges \<leftarrow> (if is_written then rs_add v n ranges else Some ranges);
         Some (uploads, ranges, t) })"
    using valid(1) q(1) unfolding obtain_buffer_def small_def [symmetric] by simp
  show ?thesis
  proof (cases "direct \<and> streamed")
    case True
    then have "own_inv ww aw ranges t1" "\<not> is_written" using own q(2) same by (auto simp: own_inv_def direct_def small_def)
    then show ?thesis using True run same by (auto simp: direct_def small_def)
  next
    case False
    obtain uploads t2 where u: "for_each_upload_range v n is_written t1 = Some (uploads, t2)" "tiles uploads (cpu_pages t1 \<inter> pages_of v n)" "tk_good ww aw t2"
      "cpu_pages t2 = cpu_pages t1 - pages_of v n" "gpu_pages t2 = (if is_written then gpu_pages t1 \<union> pages_of v n else gpu_pages t1)"
      using upload_exact [OF q(2) v] by blast
    define ranges' where "ranges' = (if is_written then rs_add_at v (v + n) ranges else ranges)"
    have r: "(if is_written then rs_add v n ranges else Some ranges) = Some ranges'" "apart ranges'"
      "bytes_of ranges' = (if is_written then bytes_of ranges \<union> span v n else bytes_of ranges)"
      using own_invD(2) [OF own] track_ok_range [OF valid(1)] rs_add_ok rs.put_inv_any rs.put_bytes_any by (auto simp: ranges'_def)
    have "own_inv ww aw ranges' t2"
      using u r(2,3) same own_invD(3) [OF own] by (auto simp: own_inv_def pages_of_span [OF valid(2)])
    moreover have "obtain_buffer streamed v n is_written ranges t = Some (uploads, ranges', t2)" unfolding run if_not_P [OF False] using u(1) r(1) by simp
    ultimately show ?thesis using False u(2,4) r(3) same by (auto simp: direct_def small_def)
  qed
qed

section \<open>Giving up buffers\<close>

definition bufs_pages :: "(u64 \<times> u64) list \<Rightarrow> nat set" where
  "bufs_pages bs = (\<Union>b \<in> set bs. pages_of (fst b) (snd b))"

lemma bufs_pages_simps [simp]: "bufs_pages [] = {}" "bufs_pages (b # bs) = pages_of (fst b) (snd b) \<union> bufs_pages bs"
  "bufs_pages (bs @ bs') = bufs_pages bs \<union> bufs_pages bs'"
  by (auto simp: bufs_pages_def)

lemma page_bytes_union [simp]: "page_bytes (S \<union> T) = page_bytes S \<union> page_bytes T" "page_bytes {} = {}"
  by (auto simp: page_bytes_def)

text \<open>The buffers that a pass gives up, of those it looks at; \<open>B\<close> is what the GPU owns.\<close>

definition is_dirty :: "nat set \<Rightarrow> u64 \<times> u64 \<Rightarrow> bool" where
  "is_dirty B b \<longleftrightarrow> B \<inter> page_bytes (pages_of (fst b) (snd b)) \<noteq> {}"

definition gc_chosen :: "bool \<Rightarrow> nat \<Rightarrow> nat set \<Rightarrow> (u64 \<times> u64) list \<Rightarrow> (u64 \<times> u64) list" where
  "gc_chosen aggressive k B bs = take k (filter (\<lambda>b. aggressive \<or> \<not> is_dirty B b) bs)"

lemma gc_chosen_simps:
  "gc_chosen aggressive k B [] = []" "\<not> aggressive \<and> is_dirty B b \<Longrightarrow> gc_chosen aggressive k B (b # bs) = gc_chosen aggressive k B bs"
  "aggressive \<or> \<not> is_dirty B b \<Longrightarrow> gc_chosen aggressive (Suc k) B (b # bs) = b # gc_chosen aggressive k B bs" "gc_chosen aggressive 0 B bs = []"
  by (auto simp: gc_chosen_def)

definition pending_ok :: "nat set \<Rightarrow> (u64 \<times> u64) list \<Rightarrow> (u64 \<times> u64) list \<Rightarrow> bool" where
  "pending_ok B dirty copies \<longleftrightarrow> spans copies = B \<inter> page_bytes (bufs_pages dirty) \<and> (\<forall>r \<in> set copies. range_ok (fst r) (snd r)) \<and>
     (\<forall>b \<in> set dirty. is_dirty B b)"

definition gc_scanned :: "(nat \<Rightarrow> nat) \<Rightarrow> (nat \<Rightarrow> nat) \<Rightarrow> range_set \<Rightarrow> tracker \<Rightarrow> (u64 \<times> u64) list \<Rightarrow> (u64 \<times> u64) list \<Rightarrow>
    ((u64 \<times> u64) list \<times> (u64 \<times> u64) list \<times> tracker) option \<Rightarrow> bool" where
  "gc_scanned ww aw ranges t dirty chosen res \<longleftrightarrow>
     (\<exists>copies' t'. res = Some (dirty @ filter (is_dirty (bytes_of ranges)) chosen, copies', t') \<and> own_inv ww aw ranges t' \<and>
        cpu_pages t' = cpu_pages t \<union> bufs_pages (filter (\<lambda>b. \<not> is_dirty (bytes_of ranges) b) chosen) \<and>
        pending_ok (bytes_of ranges) (dirty @ filter (is_dirty (bytes_of ranges)) chosen) copies')"

lemma gc_scanned_stop: "own_inv ww aw ranges t \<Longrightarrow> pending_ok (bytes_of ranges) dirty copies \<Longrightarrow> gc_scanned ww aw ranges t dirty [] (Some (dirty, copies, t))"
  by (simp add: gc_scanned_def)

text \<open>What is done for one buffer, after the checks.\<close>

lemma gc_visit:
  assumes own: "own_inv ww aw ranges t" and v: "track_ok a n" and pend: "pending_ok (bytes_of ranges) dirty copies"
    and c: "chosen = (a, n) # rest" and after: "\<And>dirty copies t. own_inv ww aw ranges t \<Longrightarrow> pending_ok (bytes_of ranges) dirty copies \<Longrightarrow>
      gc_scanned ww aw ranges t dirty rest (f dirty copies t)"
  shows "gc_scanned ww aw ranges t dirty chosen
    (do { (dirty, copies, t) \<leftarrow>
         (if is_dirty (bytes_of ranges) (a, n)
          then do {
            (preflight, reported, t) \<leftarrow> for_each_download_range False a n t;
            _ \<leftarrow> validate_reported preflight ranges;
            here \<leftarrow> collect_copies reported ranges;
            Some (dirty @ [(a, n)], copies @ here, t)
          }
          else do { t \<leftarrow> untrack_memory a n t; Some (dirty, copies, t) });
       f dirty copies t })"
proof (cases "is_dirty (bytes_of ranges) (a, n)")
  case True
  obtain reported here where d: "for_each_download_range False a n t = Some (reported, reported, t)" "validate_reported reported ranges = Some ()"
    "collect_copies reported ranges = Some here" "spans here = bytes_of ranges \<inter> page_bytes (pages_of a n)" "\<forall>r \<in> set here. range_ok (fst r) (snd r)"
    by (rule collected [OF own v])
  have "pending_ok (bytes_of ranges) (dirty @ [(a, n)]) (copies @ here)" using pend d(4,5) True by (auto simp: pending_ok_def)
  from after [OF own this] True c d(1-3) show ?thesis by (simp add: gc_scanned_def)
next
  case False
  then have "gpu_pages t \<inter> pages_of a n = {}" using own_meets [OF own] by (simp add: is_dirty_def)
  then obtain t1 where t1: "untrack_memory a n t = Some t1" "tk_good ww aw t1" "cpu_pages t1 = cpu_pages t \<union> pages_of a n" "gpu_pages t1 = gpu_pages t"
    using untrack_exact [OF own_invD(1) [OF own] v] by auto
  then have "own_inv ww aw ranges t1" using own by (simp only: own_inv_def)
  from after [OF this pend] False c t1(1,3) show ?thesis by (simp add: gc_scanned_def Un_assoc)
qed

lemma gc_scan_exact:
  "own_inv ww aw ranges t \<Longrightarrow> \<forall>b \<in> set buffers. track_ok (fst b) (snd b) \<Longrightarrow> pending_ok (bytes_of ranges) dirty copies \<Longrightarrow> retired < limit \<Longrightarrow>
   gc_scanned ww aw ranges t dirty (gc_chosen aggressive (limit - retired) (bytes_of ranges) buffers)
     (gc_scan aggressive limit retired buffers ranges dirty copies t)"
proof (induction buffers arbitrary: retired dirty copies t)
  case Nil
  then show ?case by (simp add: gc_chosen_simps gc_scanned_stop)
next
  case (Cons b buffers)
  obtain a n where b: "b = (a, n)" by (cases b)
  have v: "track_ok a n" using Cons.prems(2) b by simp
  obtain t1 where t1: "validate_gpu_dirty_ownership a n ranges t = Some t1" "own_inv ww aw ranges t1" "cpu_pages t1 = cpu_pages t"
    using validate_gpu_dirty_ownership_ok [OF Cons.prems(1) v] by blast
  obtain t2 where t2: "is_region_gpu_modified a n t1 = Some (gpu_pages t1 \<inter> pages_of a n \<noteq> {}, t2)" "tk_good ww aw t2" "\<forall>x. source_pages x t2 = source_pages x t1"
    using gpu_query_exact [OF own_invD(1) [OF t1(2)] v] by blast
  have same: "cpu_pages t2 = cpu_pages t1" "gpu_pages t2 = gpu_pages t1" using t2(3) by (metis source_pages_simps)+
  then have own2: "own_inv ww aw ranges t2" using t1(2) t2(2) by (simp only: own_inv_def)
  have dirty: "gpu_pages t1 \<inter> pages_of a n \<noteq> {} \<longleftrightarrow> is_dirty (bytes_of ranges) b" using own_meets [OF t1(2)] by (simp add: is_dirty_def b)
  have from_t2: "gc_scanned ww aw ranges t2 d c r \<Longrightarrow> gc_scanned ww aw ranges t d c r" for d c r using same t1(3) by (simp add: gc_scanned_def)
  show ?case
  proof (cases "is_dirty (bytes_of ranges) b \<and> \<not> aggressive")
    case True
    then show ?thesis using Cons.IH [OF own2 _ Cons.prems(3,4)] Cons.prems(2) t1(1) t2(1) dirty
      by (auto intro!: from_t2 simp: b gc_chosen_simps)
  next
    case False
    obtain k where k: "limit - retired = Suc k" using Cons.prems(4) by (cases "limit - retired") auto
    have chosen: "gc_chosen aggressive (limit - retired) (bytes_of ranges) (b # buffers) = (a, n) # gc_chosen aggressive k (bytes_of ranges) buffers"
      using False k gc_chosen_simps(3) [of aggressive "bytes_of ranges" b k buffers] by (auto simp: b)
    have after: "gc_scanned ww aw ranges t dirty (gc_chosen aggressive k (bytes_of ranges) buffers)
        (if retired + 1 = limit then Some (dirty, copies, t) else gc_scan aggressive limit (retired + 1) buffers ranges dirty copies t)"
      if "own_inv ww aw ranges t" "pending_ok (bytes_of ranges) dirty copies" for dirty copies t
    proof (cases "retired + 1 = limit")
      case True
      then have "k = 0" using k by simp
      then show ?thesis using True that by (simp add: gc_chosen_simps gc_scanned_stop)
    next
      case False
      then have "limit - (retired + 1) = k" "retired + 1 < limit" using k Cons.prems(4) by auto
      then show ?thesis using Cons.IH [OF that(1) _ that(2), of "retired + 1"] Cons.prems(2) False by simp
    qed
    have run: "gc_scan aggressive limit retired (b # buffers) ranges dirty copies t =
      (do { (dirty, copies, t) \<leftarrow>
         (if is_dirty (bytes_of ranges) (a, n)
          then do {
            (preflight, reported, t) \<leftarrow> for_each_download_range False a n t2;
            _ \<leftarrow> validate_reported preflight ranges;
            here \<leftarrow> collect_copies reported ranges;
            Some (dirty @ [(a, n)], copies @ here, t)
          }
          else do { t \<leftarrow> untrack_memory a n t2; Some (dirty, copies, t) });
       if retired + 1 = limit then Some (dirty, copies, t) else gc_scan aggressive limit (retired + 1) buffers ranges dirty copies t })"
      by (simp only: b gc_scan.simps t1(1) t2(1) [unfolded dirty b] bind.bind_lunit prod.case if_not_P [OF False [unfolded b]])
    show ?thesis unfolding run by (rule from_t2, rule gc_visit [OF own2 v Cons.prems(3) chosen after])
  qed
qed

lemma gc_retire_exact:
  "tk_good ww aw t \<Longrightarrow> apart ranges \<Longrightarrow> \<forall>b \<in> set ds. track_ok (fst b) (snd b) \<Longrightarrow> bytes_of ranges \<inter> page_bytes (bufs_pages ds) = {} \<Longrightarrow>
   \<exists>t'. gc_retire ds ranges t = Some t' \<and> tk_good ww aw t' \<and> cpu_pages t' = cpu_pages t \<union> bufs_pages ds \<and> gpu_pages t' = gpu_pages t - bufs_pages ds"
proof (induction ds arbitrary: t)
  case (Cons b ds)
  obtain a n where b: "b = (a, n)" by (cases b)
  have v: "track_ok a n" "range_ok a n" "0 < n" using Cons.prems(3) b track_ok_range by (auto simp: track_ok_def guest_range_valid_def)
  obtain t1 where t1: "unmark_region_as_gpu_modified a n t = Some t1" "tk_good ww aw t1" "cpu_pages t1 = cpu_pages t" "gpu_pages t1 = gpu_pages t - pages_of a n"
    using unmark_gpu_exact [OF Cons.prems(1) v(1)] by blast
  obtain t2 where t2: "is_region_gpu_modified a n t1 = Some (gpu_pages t1 \<inter> pages_of a n \<noteq> {}, t2)" "tk_good ww aw t2" "\<forall>x. source_pages x t2 = source_pages x t1"
    using gpu_query_exact [OF t1(2) v(1)] by blast
  have same: "cpu_pages t2 = cpu_pages t1" "gpu_pages t2 = gpu_pages t1" using t2(3) by (metis source_pages_simps)+
  have clean: "gpu_pages t1 \<inter> pages_of a n = {}" using t1(4) by blast
  obtain t3 where t3: "untrack_memory a n t2 = Some t3" "tk_good ww aw t3" "cpu_pages t3 = cpu_pages t2 \<union> pages_of a n" "gpu_pages t3 = gpu_pages t2"
    using untrack_exact [OF t2(2) v(1)] clean same by auto
  have "span a n \<subseteq> page_bytes (pages_of a n)" unfolding pages_of_span [OF v(3)] by (auto simp: page_bytes_iff)
  then have "rs_intersects a n ranges = Some False"
    unfolding rs_intersects_correct [OF Cons.prems(2) v(2)] using Cons.prems(4) b by auto
  moreover obtain t' where "gc_retire ds ranges t3 = Some t'" "tk_good ww aw t'" "cpu_pages t' = cpu_pages t3 \<union> bufs_pages ds"
      "gpu_pages t' = gpu_pages t3 - bufs_pages ds"
    using Cons.IH [OF t3(2) Cons.prems(2)] Cons.prems(3,4) by auto
  ultimately show ?case using t1 t2(1) t3 same clean by (auto simp: b)
qed auto

lemma run_garbage_collector_exact:
  fixes aggressive :: bool
  assumes own: "own_inv ww aw ranges t" and bufs: "\<forall>b \<in> set buffers. track_ok (fst b) (snd b)"
  defines "P \<equiv> bufs_pages (gc_chosen aggressive (if aggressive then 64 else 32) (bytes_of ranges) buffers)"
  shows "\<exists>ranges' t'. run_garbage_collector aggressive buffers ranges t = Some (ranges', t') \<and> own_inv ww aw ranges' t' \<and>
    cpu_pages t' = cpu_pages t \<union> P \<and> bytes_of ranges' = bytes_of ranges - page_bytes P"
proof -
  define B where "B = bytes_of ranges"
  define limit :: nat where "limit = (if aggressive then 64 else 32)"
  define chosen where "chosen = gc_chosen aggressive limit B buffers"
  define ds where "ds = filter (is_dirty B) chosen"
  define cs where "cs = filter (\<lambda>b. \<not> is_dirty B b) chosen"
  have P: "P = bufs_pages cs \<union> bufs_pages ds" by (auto simp: P_def cs_def ds_def chosen_def limit_def B_def bufs_pages_def)
  have "page_bytes (bufs_pages cs) = (\<Union>b \<in> set cs. page_bytes (pages_of (fst b) (snd b)))" unfolding bufs_pages_def page_bytes_def by blast
  moreover have "B \<inter> page_bytes (pages_of (fst b) (snd b)) = {}" if "b \<in> set cs" for b using that by (simp add: cs_def is_dirty_def)
  ultimately have clean: "B \<inter> page_bytes (bufs_pages cs) = {}" by blast
  have "set chosen \<subseteq> set buffers" unfolding chosen_def gc_chosen_def by (auto dest: in_set_takeD)
  then have ok: "\<forall>b \<in> set ds. track_ok (fst b) (snd b)" using bufs unfolding ds_def set_filter by blast
  have "pending_ok B [] []" "0 < limit" by (simp_all add: pending_ok_def limit_def)
  from gc_scan_exact [OF own bufs this [unfolded B_def], of aggressive] obtain copies t1
    where s: "gc_scan aggressive limit 0 buffers ranges [] [] t = Some (ds, copies, t1)" "own_inv ww aw ranges t1"
      "cpu_pages t1 = cpu_pages t \<union> bufs_pages cs" "pending_ok B ds copies"
    by (auto simp: gc_scanned_def ds_def cs_def chosen_def B_def)
  have sp: "spans copies = B \<inter> page_bytes (bufs_pages ds)" "\<forall>r \<in> set copies. range_ok (fst r) (snd r)" using s(4) by (simp_all add: pending_ok_def)
  show ?thesis
  proof (cases "ds = []")
    case True
    then show ?thesis using s P clean by (auto simp: run_garbage_collector_def limit_def B_def)
  next
    case False
    then obtain b where "b \<in> set ds" by (cases ds) auto
    then have "is_dirty B b" "pages_of (fst b) (snd b) \<subseteq> bufs_pages ds" by (auto simp: ds_def bufs_pages_def)
    then have "spans copies \<noteq> {}" unfolding sp(1) is_dirty_def page_bytes_def by blast
    then have ne: "copies \<noteq> []" by auto
    obtain ranges' where r: "subtract_copies copies ranges = Some ranges'" "apart ranges'" "bytes_of ranges' = B - spans copies"
      using subtract_copies_correct [OF own_invD(2) [OF own] sp(2)] by (auto simp: B_def)
    then have left: "bytes_of ranges' = B - page_bytes (bufs_pages ds)" using sp(1) by auto
    obtain t' where t': "gc_retire ds ranges' t1 = Some t'" "tk_good ww aw t'" "cpu_pages t' = cpu_pages t1 \<union> bufs_pages ds"
        "gpu_pages t' = gpu_pages t1 - bufs_pages ds"
      using gc_retire_exact [OF own_invD(1) [OF s(2)] r(2) ok] left by auto
    have "own_inv ww aw ranges' t'" using r(2) t'(2,4) own_invD(3) [OF s(2)] by (simp add: own_inv_def left B_def pages_left)
    then show ?thesis using False ne s(1,3) r(1) t' left clean P by (auto simp: run_garbage_collector_def limit_def B_def)
  qed
qed

end
