(* ===== verification/Gpu_History.thy ===== *)
theory Gpu_History
  imports Gpu_Ownership_Facts
begin

text \<open>
  The buffer cache over any history: obtaining buffers, reading back and invalidating memory, collecting buffers, and the image
  cache's watchers on the same page manager. The specification (\<open>spec_step\<close>) knows only which pages the CPU has written since
  their last upload, which bytes the GPU owns, and how many watchers the image cache has on each page.
\<close>

datatype own_op =
    ObtainBuffer bool u64 u64 bool
  | ReadMemory bool u64 u64 u64 u64 bool
  | InvalidateMemory bool u64 u64 u64 u64
  | RunGarbageCollector bool "(u64 \<times> u64) list"
  | WatchPages bool bool u64 u64

fun own_step :: "own_op \<Rightarrow> range_set \<times> tracker \<Rightarrow> (range_set \<times> tracker) option" where
  "own_step (ObtainBuffer streamed v n is_written) (ranges, t) = map_option snd (obtain_buffer streamed v n is_written ranges t)"
| "own_step (ReadMemory registered bb be v n is_write) (ranges, t) = read_memory_on_gpu registered bb be v n is_write ranges t"
| "own_step (InvalidateMemory registered bb be v n) (ranges, t) = invalidate_memory registered bb be v n ranges t"
| "own_step (RunGarbageCollector aggressive buffers) (ranges, t) = run_garbage_collector aggressive buffers ranges t"
| "own_step (WatchPages track is_read v n) (ranges, t) =
     map_option (\<lambda>pm. (ranges, t\<lparr>tk_pages := pm\<rparr>)) (update_page_watchers track is_read v n (tk_pages t))"

primrec own_run :: "own_op list \<Rightarrow> range_set \<times> tracker \<Rightarrow> (range_set \<times> tracker) option" where
  "own_run [] s = Some s"
| "own_run (x # xs) s = do { s \<leftarrow> own_step x s; own_run xs s }"

section \<open>The specification\<close>

record ownership =
  os_cpu :: "nat set"
  os_bytes :: "nat set"
  os_write_watch :: "nat \<Rightarrow> nat"
  os_access_watch :: "nat \<Rightarrow> nat"

definition ownership_new :: ownership where
  "ownership_new = \<lparr>os_cpu = UNIV, os_bytes = {}, os_write_watch = (\<lambda>_. 0), os_access_watch = (\<lambda>_. 0)\<rparr>"

text \<open>A small range written by the CPU only is read where it is, without an upload.\<close>

definition read_directly :: "bool \<Rightarrow> u64 \<Rightarrow> u64 \<Rightarrow> bool \<Rightarrow> nat set \<Rightarrow> nat set \<Rightarrow> bool" where
  "read_directly streamed v n is_written C B \<longleftrightarrow>
     streamed \<and> \<not> is_written \<and> n \<le> CACHING_PAGESIZE \<and> B \<inter> page_bytes (pages_of v n) = {} \<and> C \<inter> pages_of v n \<noteq> {}"

fun spec_step :: "own_op \<Rightarrow> ownership \<Rightarrow> ownership" where
  "spec_step (ObtainBuffer streamed v n is_written) s =
     (if read_directly streamed v n is_written (os_cpu s) (os_bytes s) then s
      else s\<lparr>os_cpu := os_cpu s - pages_of v n, os_bytes := (if is_written then os_bytes s \<union> span v n else os_bytes s)\<rparr>)"
| "spec_step (ReadMemory registered bb be v n is_write) s =
     (if is_write \<and> \<not> registered then s
      else s\<lparr>os_cpu := (if is_write then os_cpu s \<union> pages_of v n else os_cpu s),
             os_bytes := os_bytes s - page_bytes (window_pages bb be v n)\<rparr>)"
| "spec_step (InvalidateMemory registered bb be v n) s =
     s\<lparr>os_cpu := os_cpu s \<union> pages_of v n,
       os_bytes := (if os_bytes s \<inter> page_bytes (pages_of v n) = {} then os_bytes s else os_bytes s - page_bytes (window_pages bb be v n))\<rparr>"
| "spec_step (RunGarbageCollector aggressive buffers) s =
     (let P = bufs_pages (gc_chosen aggressive (if aggressive then 64 else 32) (os_bytes s) buffers)
      in s\<lparr>os_cpu := os_cpu s \<union> P, os_bytes := os_bytes s - page_bytes P\<rparr>)"
| "spec_step (WatchPages track is_read v n) s =
     (if is_read then s\<lparr>os_access_watch := watched track (pages_of v n) (os_access_watch s)\<rparr>
      else s\<lparr>os_write_watch := watched track (pages_of v n) (os_write_watch s)\<rparr>)"

text \<open>
  What callers keep to: ranges and buffers are in the guest's memory above its first page, a range is in the buffer found for it, memory
  the GPU owns is in a registered buffer, and the image cache takes back only watchers it has set, and has fewer than the counters hold.
\<close>

fun op_legal :: "own_op \<Rightarrow> ownership \<Rightarrow> bool" where
  "op_legal (ObtainBuffer streamed v n is_written) s \<longleftrightarrow> track_ok v n"
| "op_legal (ReadMemory registered bb be v n is_write) s \<longleftrightarrow> buffer_ok bb be v n"
| "op_legal (InvalidateMemory registered bb be v n) s \<longleftrightarrow> buffer_ok bb be v n \<and> (registered \<or> os_bytes s \<inter> page_bytes (pages_of v n) = {})"
| "op_legal (RunGarbageCollector aggressive buffers) s \<longleftrightarrow> (\<forall>b \<in> set buffers. track_ok (fst b) (snd b))"
| "op_legal (WatchPages track is_read v n) s \<longleftrightarrow> guest_range_valid v n \<and>
     (\<forall>p \<in> pages_of v n. if track then (if is_read then os_access_watch s p < 254 else os_write_watch s p < 126)
       else 0 < (if is_read then os_access_watch s p else os_write_watch s p))"

fun spec_run :: "own_op list \<Rightarrow> ownership \<Rightarrow> ownership" where
  "spec_run [] s = s"
| "spec_run (x # xs) s = spec_run xs (spec_step x s)"

fun legal_run :: "own_op list \<Rightarrow> ownership \<Rightarrow> bool" where
  "legal_run [] s \<longleftrightarrow> True"
| "legal_run (x # xs) s \<longleftrightarrow> op_legal x s \<and> legal_run xs (spec_step x s)"

section \<open>The history\<close>

definition os_rel :: "ownership \<Rightarrow> range_set \<times> tracker \<Rightarrow> bool" where
  "os_rel s st \<longleftrightarrow> (case st of (ranges, t) \<Rightarrow> own_inv (os_write_watch s) (os_access_watch s) ranges t \<and>
     cpu_pages t = os_cpu s \<and> bytes_of ranges = os_bytes s)"

lemma own_inv_new: "own_inv (\<lambda>_. 0) (\<lambda>_. 0) [] tracker_new"
  by (auto simp: own_inv_def tk_good_def tk_inv_def watchers_fit_def gpu_pages_def cpu_pages_def tracker_new_def page_manager_new_def pm_ok_def
    page_at_def page_for_def blank_page_def page_perms_def fun_eq_iff)

lemma os_rel_new: "os_rel ownership_new ([], tracker_new)"
  by (simp add: os_rel_def ownership_new_def own_inv_new) (simp add: cpu_pages_def tracker_new_def)

lemma obtain_buffer_result:
  assumes "own_inv ww aw ranges t" and "track_ok v n"
  obtains uploads ranges' t' where "obtain_buffer streamed v n is_written ranges t = Some (uploads, ranges', t')" and "own_inv ww aw ranges' t'"
    and "if read_directly streamed v n is_written (cpu_pages t) (bytes_of ranges) then uploads = [] \<and> cpu_pages t' = cpu_pages t \<and> bytes_of ranges' = bytes_of ranges
      else tiles uploads (cpu_pages t \<inter> pages_of v n) \<and> cpu_pages t' = cpu_pages t - pages_of v n \<and>
        bytes_of ranges' = (if is_written then bytes_of ranges \<union> span v n else bytes_of ranges)"
proof -
  have d: "read_directly streamed v n is_written (cpu_pages t) (bytes_of ranges) \<longleftrightarrow>
      \<not> is_written \<and> n \<le> CACHING_PAGESIZE \<and> streamed \<and> gpu_pages t \<inter> pages_of v n = {} \<and> cpu_pages t \<inter> pages_of v n \<noteq> {}"
    unfolding read_directly_def own_meets [OF assms(1)] by blast
  obtain uploads ranges' t' where r: "obtain_buffer streamed v n is_written ranges t = Some (uploads, ranges', t')" "own_inv ww aw ranges' t'"
      "if read_directly streamed v n is_written (cpu_pages t) (bytes_of ranges) then uploads = [] \<and> cpu_pages t' = cpu_pages t
       else tiles uploads (cpu_pages t \<inter> pages_of v n) \<and> cpu_pages t' = cpu_pages t - pages_of v n"
      "bytes_of ranges' = (if is_written then bytes_of ranges \<union> span v n else bytes_of ranges)"
    using obtain_buffer_exact [OF assms, of streamed is_written] unfolding d [symmetric] by blast
  show thesis
  proof (rule that [OF r(1,2)], goal_cases)
    case 1
    show ?case
    proof (cases "read_directly streamed v n is_written (cpu_pages t) (bytes_of ranges)")
      case True
      then have "\<not> is_written" by (simp add: read_directly_def)
      then show ?thesis using r(3,4) True by simp
    qed (use r(3,4) in simp)
  qed
qed

lemma own_step_refines:
  assumes "os_rel s st" and "op_legal x s"
  shows "\<exists>st'. own_step x st = Some st' \<and> os_rel (spec_step x s) st'"
proof -
  obtain ranges t where st: "st = (ranges, t)" by (cases st)
  have own: "own_inv (os_write_watch s) (os_access_watch s) ranges t" and cpu: "cpu_pages t = os_cpu s" and bytes: "bytes_of ranges = os_bytes s"
    using assms(1) by (simp_all add: os_rel_def st)
  show ?thesis
  proof (cases x)
    case (ObtainBuffer streamed v n is_written)
    then have v: "track_ok v n" using assms(2) by simp
    obtain uploads ranges' t' where r: "obtain_buffer streamed v n is_written ranges t = Some (uploads, ranges', t')"
        "own_inv (os_write_watch s) (os_access_watch s) ranges' t'"
        "if read_directly streamed v n is_written (os_cpu s) (os_bytes s) then uploads = [] \<and> cpu_pages t' = os_cpu s \<and> bytes_of ranges' = os_bytes s
         else tiles uploads (os_cpu s \<inter> pages_of v n) \<and> cpu_pages t' = os_cpu s - pages_of v n \<and>
           bytes_of ranges' = (if is_written then os_bytes s \<union> span v n else os_bytes s)"
      by (rule obtain_buffer_result [OF own v, of streamed is_written, unfolded cpu bytes])
    then show ?thesis
      by (cases "read_directly streamed v n is_written (os_cpu s) (os_bytes s)") (simp_all add: ObtainBuffer st os_rel_def)
  next
    case (ReadMemory registered bb be v n is_write)
    show ?thesis
    proof (cases "is_write \<and> \<not> registered")
      case True
      then show ?thesis using assms(1) by (simp add: ReadMemory st read_memory_on_gpu_def)
    next
      case False
      then have "is_write \<longrightarrow> registered" by blast
      from read_memory_exact [OF own _ this, of bb be v n] assms(2) False show ?thesis
        unfolding cpu bytes ReadMemory st by (auto simp: os_rel_def)
    qed
  next
    case (InvalidateMemory registered bb be v n)
    then have l: "buffer_ok bb be v n" "registered \<or> gpu_pages t \<inter> pages_of v n = {}" using assms(2) own_meets [OF own] bytes by simp_all
    from invalidate_memory_exact [OF own l] show ?thesis unfolding cpu bytes InvalidateMemory st by (auto simp: os_rel_def)
  next
    case (RunGarbageCollector aggressive buffers)
    then have "\<forall>b \<in> set buffers. track_ok (fst b) (snd b)" using assms(2) by simp
    from run_garbage_collector_exact [OF own this, of aggressive] show ?thesis
      unfolding cpu bytes RunGarbageCollector st by (auto simp: os_rel_def Let_def)
  next
    case (WatchPages track is_read v n)
    then have l: "guest_range_valid v n" "\<And>p. p \<in> pages_of v n \<Longrightarrow> if track then (if is_read then os_access_watch s p < 254 else os_write_watch s p < 126)
       else 0 < (if is_read then os_access_watch s p else os_write_watch s p)" using assms(2) by simp_all
    from watch_exact [OF own_invD(1) [OF own] l] obtain pm
      where pm: "update_page_watchers track is_read v n (tk_pages t) = Some pm"
        "tk_good (if is_read then os_write_watch s else watched track (pages_of v n) (os_write_watch s))
           (if is_read then watched track (pages_of v n) (os_access_watch s) else os_access_watch s) (t\<lparr>tk_pages := pm\<rparr>)" by blast
    have "gpu_pages (t\<lparr>tk_pages := pm\<rparr>) = gpu_pages t" "cpu_pages (t\<lparr>tk_pages := pm\<rparr>) = cpu_pages t" by (simp_all add: gpu_pages_def cpu_pages_def)
    then show ?thesis using pm own cpu bytes by (cases is_read) (simp_all add: WatchPages st os_rel_def own_inv_def)
  qed
qed

lemma own_run_refines:
  "os_rel s st \<Longrightarrow> legal_run xs s \<Longrightarrow> \<exists>st'. own_run xs st = Some st' \<and> os_rel (spec_run xs s) st'"
proof (induction xs arbitrary: s st)
  case (Cons x xs)
  have legal: "op_legal x s" "legal_run xs (spec_step x s)" using Cons.prems(2) by simp_all
  obtain st1 where st1: "own_step x st = Some st1" "os_rel (spec_step x s) st1" using own_step_refines [OF Cons.prems(1) legal(1)] by blast
  from Cons.IH [OF st1(2) legal(2)] show ?case by (simp add: st1(1))
qed simp

lemma reached:
  assumes "legal_run xs ownership_new" and "own_run xs ([], tracker_new) = Some (ranges, t)"
  shows "own_inv (os_write_watch (spec_run xs ownership_new)) (os_access_watch (spec_run xs ownership_new)) ranges t"
    and "cpu_pages t = os_cpu (spec_run xs ownership_new)" and "bytes_of ranges = os_bytes (spec_run xs ownership_new)"
  using own_run_refines [OF os_rel_new assms(1)] assms(2) by (auto simp: os_rel_def)

section \<open>Properties\<close>

definition host_for :: "ownership \<Rightarrow> nat \<Rightarrow> page_prot" where
  "host_for s p =
     (if p \<in> byte_page ` os_bytes s \<or> os_access_watch s p \<noteq> 0 then NoAccess
      else if p \<notin> os_cpu s \<or> os_write_watch s p \<noteq> 0 then ReadOnly else ReadWrite)"

text \<open>C3:
  The buffer cache and the memory tracker together implement the specification: over any legal history no check of the code fails, the
  pages the CPU has to upload are those of the specification, and the bytes that the GPU owns, as kept by the exact ranges and by
  the tracker's pages, too.
\<close>

theorem gpu_ownership_refines:
  assumes "legal_run xs ownership_new"
  shows "\<exists>ranges t. own_run xs ([], tracker_new) = Some (ranges, t) \<and> cpu_pages t = os_cpu (spec_run xs ownership_new) \<and>
    apart ranges \<and> bytes_of ranges = os_bytes (spec_run xs ownership_new) \<and> gpu_pages t = byte_page ` os_bytes (spec_run xs ownership_new)"
  using own_run_refines [OF os_rel_new assms] by (auto simp: os_rel_def own_inv_def)

text \<open>A history for the examples: a buffer the GPU writes, a watched image, and the CPU writing into the buffer.\<close>

abbreviation example_ops :: "own_op list" where
  "example_ops \<equiv> [ObtainBuffer False 65536 100 True, WatchPages True False 131072 4096, InvalidateMemory True 65536 81920 65540 10]"

lemma example_legal: "legal_run example_ops ownership_new"
  by (simp add: ownership_new_def track_ok_def guest_range_valid_def buffer_ok_def TRACKER_PAGE_SIZE_def TRACKER_ADDRESS_SIZE_def watched_def)

lemma example_pages: "pages_of 65536 100 = {16}" "pages_of 65540 10 = {16}" "pages_of 131072 4096 = {32}"
  by (auto simp: pages_of_def TRACKER_PAGE_SIZE_def)

lemma example_state:
  "os_cpu (spec_run (take 2 example_ops) ownership_new) = UNIV - {16}" "os_bytes (spec_run (take 2 example_ops) ownership_new) = span 65536 100"
  "os_write_watch (spec_run (take 2 example_ops) ownership_new) = watched True {32} (\<lambda>_. 0)" "os_access_watch (spec_run (take 2 example_ops) ownership_new) = (\<lambda>_. 0)"
  by (simp_all add: ownership_new_def example_pages read_directly_def)

theorem gpu_ownership_refines_witness:
  "legal_run example_ops ownership_new \<and> (\<exists>ranges t. own_run example_ops ([], tracker_new) = Some (ranges, t) \<and> bytes_of ranges = {} \<and> cpu_pages t = UNIV)"
proof -
  have "read_window 65536 81920 65540 10 = (65536, 16384)"
    by (simp add: read_window_def READ_WINDOW_def add64_def sub64_def U64_MAX_def Let_def)
  then have "16 \<in> window_pages 65536 81920 65540 10" by (simp add: window_pages_def pages_of_def TRACKER_PAGE_SIZE_def)
  moreover have "byte_page b = 16" if "b \<in> span 65536 100" for b
    using that pages_of_span [of 100 65536] example_pages(1) by auto
  ultimately have "span 65536 100 \<subseteq> page_bytes (window_pages 65536 81920 65540 10)" by (auto simp: page_bytes_iff)
  moreover have "65536 \<in> span 65536 100 \<inter> page_bytes {16}" by (simp add: span_def page_bytes_def TRACKER_PAGE_SIZE_def)
  moreover define s where "s = spec_run (take 2 example_ops) ownership_new"
  have "spec_run example_ops ownership_new = spec_step (InvalidateMemory True 65536 81920 65540 10) s" by (simp add: s_def)
  moreover have "os_bytes s = span 65536 100" "os_cpu s = UNIV - {16}" unfolding s_def by (rule example_state)+
  ultimately have "os_bytes (spec_run example_ops ownership_new) = {}" "os_cpu (spec_run example_ops ownership_new) = UNIV"
    by (auto simp: example_pages simp del: spec_run.simps split: if_splits)
  with gpu_ownership_refines [OF example_legal] obtain ranges t
    where "own_run example_ops ([], tracker_new) = Some (ranges, t)" "bytes_of ranges = {}" "cpu_pages t = UNIV" by metis
  with example_legal show ?thesis by blast
qed

text \<open>C5:
  The protection of the host's pages makes every access that matters stop the guest: a page with bytes of the GPU cannot be touched, a
  page whose contents the GPU has a copy of cannot be written, and a page is open exactly when neither the tracker nor the image cache watches it.
  No page is both the CPU's and the GPU's.
\<close>

theorem gpu_ownership_protects:
  assumes "legal_run xs ownership_new" and "own_run xs ([], tracker_new) = Some (ranges, t)"
  shows "pm_host (tk_pages t) p = host_for (spec_run xs ownership_new) p \<and>
    (pm_host (tk_pages t) p = ReadWrite \<longrightarrow> p \<in> cpu_pages t) \<and>
    (pm_host (tk_pages t) p \<noteq> NoAccess \<longrightarrow> bytes_of ranges \<inter> page_bytes {p} = {}) \<and>
    cpu_pages t \<inter> byte_page ` bytes_of ranges = {}"
proof -
  define s where "s = spec_run xs ownership_new"
  note r = reached [OF assms, folded s_def]
  have inv: "tk_inv (os_write_watch s) (os_access_watch s) t" using own_invD(1) [OF r(1)] by (simp add: tk_good_def)
  have gpu: "gpu_pages t = byte_page ` os_bytes s" using own_invD(3) [OF r(1)] r(3) by simp
  have "pm_host (tk_pages t) p = page_perms (page_for (os_write_watch s) (os_access_watch s) (os_cpu s) (byte_page ` os_bytes s) p)"
    using tk_invD(3,4) [OF inv] r(2) gpu by (simp add: pm_ok_def)
  then have host: "pm_host (tk_pages t) p = host_for s p" by (simp add: page_perms_def page_for_def host_for_def)
  have "host_for s p = ReadWrite \<Longrightarrow> p \<in> cpu_pages t" by (auto simp: host_for_def r(2) split: if_splits)
  moreover have "host_for s p \<noteq> NoAccess \<Longrightarrow> bytes_of ranges \<inter> page_bytes {p} = {}" by (auto simp: host_for_def r(3) page_bytes_iff split: if_splits)
  moreover have "cpu_pages t \<inter> byte_page ` bytes_of ranges = {}" using tk_pages_disjoint [OF inv] unfolding gpu r(3) .
  ultimately show ?thesis unfolding host s_def by blast
qed

lemma example_run: "\<exists>ranges t. own_run (take 2 example_ops) ([], tracker_new) = Some (ranges, t)" and example_legal2: "legal_run (take 2 example_ops) ownership_new"
proof -
  show l: "legal_run (take 2 example_ops) ownership_new" using example_legal by simp
  show "\<exists>ranges t. own_run (take 2 example_ops) ([], tracker_new) = Some (ranges, t)" using own_run_refines [OF os_rel_new l] by auto
qed

lemma example_owned: "byte_page ` span 65536 100 = {16}"
  using pages_of_span [of 100 65536] example_pages(1) by simp

theorem gpu_ownership_protects_witness:
  "\<exists>ranges t. own_run (take 2 example_ops) ([], tracker_new) = Some (ranges, t) \<and>
    pm_host (tk_pages t) 16 = NoAccess \<and> pm_host (tk_pages t) 32 = ReadOnly \<and> pm_host (tk_pages t) 64 = ReadWrite"
proof -
  obtain ranges t where run: "own_run (take 2 example_ops) ([], tracker_new) = Some (ranges, t)" using example_run by blast
  have h: "host_for (spec_run (take 2 example_ops) ownership_new) p = (if p = 16 then NoAccess else if p = 32 then ReadOnly else ReadWrite)" for p
    unfolding host_for_def example_state example_owned by (simp add: watched_def)
  note use = gpu_ownership_protects [OF example_legal2 run, unfolded h]
  show ?thesis using run use [of 16] use [of 32] use [of 64] by auto
qed

text \<open>C8:
  No write of the CPU is lost to the GPU: a buffer that is obtained has been given, in whole pages and each once, exactly the pages of its
  range that the CPU has written since their last upload, and after that none is left, unless the range is read where it is.
\<close>

theorem upload_reports_dirty:
  assumes "legal_run xs ownership_new" and "own_run xs ([], tracker_new) = Some (ranges, t)" and "track_ok v n"
  shows "\<exists>uploads ranges' t'. obtain_buffer streamed v n is_written ranges t = Some (uploads, ranges', t') \<and>
    (if read_directly streamed v n is_written (cpu_pages t) (bytes_of ranges) then uploads = [] \<and> cpu_pages t' = cpu_pages t
     else tiles uploads (cpu_pages t \<inter> pages_of v n) \<and> cpu_pages t' \<inter> pages_of v n = {})"
proof -
  obtain uploads ranges' t' where r: "obtain_buffer streamed v n is_written ranges t = Some (uploads, ranges', t')"
      "if read_directly streamed v n is_written (cpu_pages t) (bytes_of ranges) then uploads = [] \<and> cpu_pages t' = cpu_pages t \<and> bytes_of ranges' = bytes_of ranges
       else tiles uploads (cpu_pages t \<inter> pages_of v n) \<and> cpu_pages t' = cpu_pages t - pages_of v n \<and>
         bytes_of ranges' = (if is_written then bytes_of ranges \<union> span v n else bytes_of ranges)"
    by (rule obtain_buffer_result [OF reached(1) [OF assms(1,2)] assms(3), of streamed is_written])
  then show ?thesis
    by (cases "read_directly streamed v n is_written (cpu_pages t) (bytes_of ranges)") auto
qed

theorem upload_reports_dirty_witness:
  "\<exists>ranges t uploads ranges' t'. own_run (take 2 example_ops) ([], tracker_new) = Some (ranges, t) \<and>
    obtain_buffer False 131072 4096 False ranges t = Some (uploads, ranges', t') \<and> tiles uploads {32} \<and> 32 \<notin> cpu_pages t'"
proof -
  obtain ranges t where run: "own_run (take 2 example_ops) ([], tracker_new) = Some (ranges, t)" using example_run by blast
  have "track_ok 131072 4096" by (simp add: track_ok_def guest_range_valid_def TRACKER_PAGE_SIZE_def TRACKER_ADDRESS_SIZE_def)
  from upload_reports_dirty [OF example_legal2 run this, of False False] show ?thesis
    using run unfolding read_directly_def reached(2) [OF example_legal2 run] example_state example_pages by auto
qed

end
