(* ===== verification/Guest_Space_Facts.thy ===== *)
theory Guest_Space_Facts
  imports Guest_Space Backing_Views
begin

text \<open>
  The guest's address space as a map: every address that was reserved from the host is a free placeholder, private memory, or a view
  of the backing file. Each operation changes exactly the addresses of its range or none.
\<close>

section \<open>The mapped regions\<close>

abbreviation mr_sz :: "u64 \<times> mregion \<Rightarrow> u64" where
  "mr_sz p \<equiv> mr_size (snd p)"

definition mapped_ok :: "mregion omap \<Rightarrow> bool" where
  "mapped_ok m \<longleftrightarrow> tiled fst mr_sz m \<and> (\<forall>p \<in> set m. mr_vaddr (snd p) = fst p)"

definition kind_bytes :: "mapping_type \<Rightarrow> mregion omap \<Rightarrow> nat set" where
  "kind_bytes k m = (\<Union>p \<in> {p \<in> set m. mr_type (snd p) = k}. span (fst p) (mr_sz p))"

abbreviation all_mapped :: "mregion omap \<Rightarrow> nat set" where
  "all_mapped \<equiv> owned fst mr_sz"

lemma mapped_okD:
  assumes "mapped_ok m" and "p \<in> set m"
  shows "mr_vaddr (snd p) = fst p" and "range_ok (fst p) (mr_sz p)" and "mr_end (snd p) = fst p + mr_sz p"
proof -
  show v: "mr_vaddr (snd p) = fst p" using assms by (simp add: mapped_ok_def)
  show r: "range_ok (fst p) (mr_sz p)" using assms tiled_range [of fst mr_sz m p] by (simp add: mapped_ok_def)
  show "mr_end (snd p) = fst p + mr_sz p" using r by (simp add: mr_end_def v add64_le range_ok_def)
qed

lemma all_mapped_kinds: "all_mapped m = kind_bytes BackingMapping m \<union> kind_bytes PrivateMapping m"
proof -
  have "mr_type r = BackingMapping \<or> mr_type r = PrivateMapping" for r by (cases "mr_type r") auto
  then show ?thesis by (auto simp: owned_def cover_def kind_bytes_def)
qed

lemma kind_bytes_iff: "x \<in> kind_bytes k m \<longleftrightarrow> (\<exists>p \<in> set m. mr_type (snd p) = k \<and> x \<in> span (fst p) (mr_sz p))"
  unfolding kind_bytes_def by blast

lemma kinds_disjoint: "mapped_ok m \<Longrightarrow> kind_bytes BackingMapping m \<inter> kind_bytes PrivateMapping m = {}"
  using tiled_unique [of fst mr_sz m] by (fastforce simp: kind_bytes_iff mapped_ok_def)

lemma find_mapped_spec:
  assumes ok: "mapped_ok m"
  shows "find_mapped_containing c m = Some it \<longleftrightarrow> it \<in> set m \<and> c \<in> span (fst it) (mr_sz it)"
proof -
  have t: "tiled fst mr_sz m" using ok by (simp add: mapped_ok_def)
  obtain bs fs where ub: "upper_bound c m = (bs, fs)" by fastforce
  note U = upper_split [OF t upper_bound_tiled [OF ub]]
  have eq: "find_mapped_containing c m = (if bs \<noteq> [] \<and> c < fst (last bs) + mr_sz (last bs) then Some (last bs) else None)"
  proof (cases "bs = []")
    case False
    then have "last bs \<in> set m" using U(1) by simp
    then show ?thesis using False ub mapped_okD(3) [OF ok] by (simp add: find_mapped_containing_def Let_def)
  qed (simp add: find_mapped_containing_def ub)
  show ?thesis
  proof
    assume "find_mapped_containing c m = Some it"
    then show "it \<in> set m \<and> c \<in> span (fst it) (mr_sz it)" using U eq by (auto simp: span_iff split: if_splits)
  next
    assume it: "it \<in> set m \<and> c \<in> span (fst it) (mr_sz it)"
    then have "bs \<noteq> []" "last bs = it" using upper_split_last [OF t upper_bound_tiled [OF ub], of it] by (auto simp: span_iff)
    then show "find_mapped_containing c m = Some it" using eq it by (auto simp: span_iff)
  qed
qed

lemma find_mapped_None: "mapped_ok m \<Longrightarrow> find_mapped_containing c m = None \<longleftrightarrow> c \<notin> all_mapped m"
  using find_mapped_spec [of m c] by (cases "find_mapped_containing c m") (auto simp: owned_iff span_iff)

text \<open>The region at an address reaches to its end, and all of it is of one kind.\<close>

lemma region_at:
  assumes "mapped_ok m" and "find_mapped_containing c m = Some it"
  shows "c \<in> kind_bytes k m \<longleftrightarrow> mr_type (snd it) = k" and "c < mr_end (snd it)" and "{c..<mr_end (snd it)} \<subseteq> span (fst it) (mr_sz it)"
    and "mr_type (snd it) = k \<Longrightarrow> {c..<mr_end (snd it)} \<subseteq> kind_bytes k m"
proof -
  have it: "it \<in> set m" "c \<in> span (fst it) (mr_sz it)" using find_mapped_spec [OF assms(1)] assms(2) by simp_all
  have e: "mr_end (snd it) = fst it + mr_sz it" using mapped_okD(3) [OF assms(1) it(1)] .
  show "c \<in> kind_bytes k m \<longleftrightarrow> mr_type (snd it) = k"
    using it tiled_unique [of fst mr_sz m _ it c] assms(1) unfolding kind_bytes_def mapped_ok_def by blast
  show "c < mr_end (snd it)" and sub: "{c..<mr_end (snd it)} \<subseteq> span (fst it) (mr_sz it)" using it(2) e by (auto simp: span_iff)
  show "mr_type (snd it) = k \<Longrightarrow> {c..<mr_end (snd it)} \<subseteq> kind_bytes k m" using sub it(1) unfolding kind_bytes_def by blast
qed

lemma mapped_walk_correct:
  assumes "mapped_ok m"
  shows "mapped_walk c e k m \<longleftrightarrow> {c..<e} \<subseteq> kind_bytes k m"
  using assms
proof (induction c e k m rule: mapped_walk.induct)
  case (1 c e k m)
  show ?case
  proof (cases "c < e")
    case c: True
    show ?thesis
    proof (cases "find_mapped_containing c m")
      case None
      then have "c \<notin> kind_bytes k m" using find_mapped_None [OF 1(2)] all_mapped_kinds [of m] by (cases k) auto
      then show ?thesis using c None by (auto simp: mapped_walk.simps [of c e])
    next
      case (Some it)
      note R = region_at [OF 1(2) Some]
      show ?thesis
      proof (cases "mr_type (snd it) = k")
        case True
        define d where "d = min e (mr_end (snd it))"
        have d: "c < d" "d \<le> e" using c R(2) by (auto simp: d_def)
        have "{c..<d} \<subseteq> kind_bytes k m" using R(4) [OF True] by (auto simp: d_def)
        moreover have "{c..<e} = {c..<d} \<union> {d..<e}" using d by auto
        moreover have "mapped_walk c e k m \<longleftrightarrow> mapped_walk d e k m" using c Some True by (simp add: mapped_walk.simps [of c e] d_def)
        ultimately show ?thesis using "1.IH" [OF c Some _ 1(2)] True by (simp add: d_def)
      next
        case False
        then have "c \<notin> kind_bytes k m" using R(1) by simp
        then show ?thesis using c Some False by (auto simp: mapped_walk.simps [of c e])
      qed
    qed
  qed (simp add: mapped_walk.simps [of c e])
qed

lemma contains_mapped_iff: "mapped_ok m \<Longrightarrow> range_ok v n \<Longrightarrow> contains_mapped_unlocked v n k m \<longleftrightarrow> span v n \<subseteq> kind_bytes k m"
  using mapped_walk_correct [of m v "v + n" k] by (auto simp: contains_mapped_unlocked_def range_ok_def span_def)

lemma contains_mapped_range: "contains_mapped_unlocked v n k m \<Longrightarrow> v \<le> U64_MAX \<Longrightarrow> range_ok v n"
  by (auto simp: contains_mapped_unlocked_def range_ok_def split: if_splits)

lemma add_mapped_spec:
  assumes ok: "mapped_ok m" and r: "range_ok v n" and free: "span v n \<inter> all_mapped m = {}"
  obtains m' where "add_mapped_unlocked v n k m = Some m'" and "mapped_ok m'" and "set m' = insert (v, \<lparr>mr_vaddr = v, mr_size = n, mr_type = k\<rparr>) (set m)"
proof -
  define p where "p = (v, \<lparr>mr_vaddr = v, mr_size = n, mr_type = k\<rparr>)"
  have t: "tiled fst mr_sz m" using ok by (simp add: mapped_ok_def)
  obtain bs fs where m: "m = bs @ fs" and e: "emplace v (snd p) m = bs @ (v, snd p) # fs" and te: "tiled fst mr_sz (emplace v (snd p) m)"
    using tiled_emplace [OF t, of v "snd p"] r free by (auto simp: p_def)
  obtain xs ys where lb: "lower_bound v m = (xs, ys)" by fastforce
  note L = lower_split [OF t lb [unfolded lower_bound_def]]
  have te': "tiled fst mr_sz (bs @ p # fs)" using te e by (simp add: p_def)
  have keys: "\<forall>q \<in> set bs. fst q + mr_sz q \<le> v" "\<forall>q \<in> set fs. v + n \<le> fst q" using te' by (auto simp: p_def)
  have n: "0 < n" "v + n \<le> U64_MAX" using r by (simp_all add: range_ok_def)
  have "fst q \<noteq> v" if q: "q \<in> set m" for q using keys n(1) mapped_okD(2) [OF ok q] q unfolding m by (auto simp: range_ok_def)
  then have fresh: "v \<notin> fst ` set m" by blast
  have next_ok: "ys \<noteq> [] \<Longrightarrow> \<not> mr_vaddr (snd (hd ys)) < v + n"
  proof -
    assume "ys \<noteq> []"
    then have h: "hd ys \<in> set m" "v \<le> fst (hd ys)" using L by auto
    then have "hd ys \<in> set fs" using keys(1) mapped_okD(2) [OF ok h(1)] by (auto simp: m range_ok_def)
    then show ?thesis using keys(2) mapped_okD(1) [OF ok h(1)] by auto
  qed
  have prev_ok: "xs \<noteq> [] \<Longrightarrow> \<not> mr_end (snd (last xs)) > v"
  proof -
    assume "xs \<noteq> []"
    then have h: "last xs \<in> set m" "fst (last xs) < v" using L by auto
    then have "last xs \<in> set bs" using keys(2) by (auto simp: m)
    then show ?thesis using keys(1) mapped_okD(3) [OF ok h(1)] by auto
  qed
  have g: "\<not> (n = 0 \<or> U64_MAX - v < n)" "\<not> (ys \<noteq> [] \<and> mr_vaddr (snd (hd ys)) < v + n)" "\<not> (xs \<noteq> [] \<and> mr_end (snd (last xs)) > v)"
    using n next_ok prev_ok by auto
  have "add_mapped_unlocked v n k m = Some (emplace v (snd p) m)"
    unfolding add_mapped_unlocked_def Let_def lb prod.case if_not_P [OF g(1)] if_not_P [OF g(2)] if_not_P [OF g(3)] if_not_P [OF fresh] by (simp add: p_def)
  moreover have "set (emplace v (snd p) m) = insert p (set m)" using emplace_fresh_set [OF fresh] by (simp add: p_def)
  moreover have "mapped_ok (emplace v (snd p) m)" using te calculation(2) ok by (auto simp: mapped_ok_def p_def)
  ultimately show thesis using that by (simp add: p_def)
qed

text \<open>Taking a region out, and putting a remainder back when there is one.\<close>

lemma erase_region:
  assumes ok: "mapped_ok m" and it: "it \<in> set m"
  shows "mapped_ok (erase_key (fst it) m)" and "set (erase_key (fst it) m) = set m - {it}"
proof -
  have t: "tiled fst mr_sz m" using ok by (simp add: mapped_ok_def)
  obtain bs fs where m: "m = bs @ it # fs" using split_list [OF it] by blast
  have er: "erase_key (fst it) m = bs @ fs" using erase_key_middle [of bs "fst it" "snd it" fs] tiled_omap_wf [OF t] m by simp
  have "distinct m" using tiled_distinct [OF t] by (simp add: distinct_map)
  then show "set (erase_key (fst it) m) = set m - {it}" by (subst er) (auto simp: m)
  show "mapped_ok (erase_key (fst it) m)" using ok by (subst er) (auto simp: mapped_ok_def m)
qed

lemma kind_bytes_set: "set m' = insert (v, \<lparr>mr_vaddr = v, mr_size = n, mr_type = k\<rparr>) (set m) \<Longrightarrow>
    kind_bytes j m' = kind_bytes j m \<union> (if j = k then span v n else {})"
proof -
  assume s: "set m' = insert (v, \<lparr>mr_vaddr = v, mr_size = n, mr_type = k\<rparr>) (set m)"
  have "{p \<in> set m'. mr_type (snd p) = j} =
      (if j = k then insert (v, \<lparr>mr_vaddr = v, mr_size = n, mr_type = k\<rparr>) {p \<in> set m. mr_type (snd p) = j} else {p \<in> set m. mr_type (snd p) = j})"
    unfolding s by auto
  then show ?thesis by (auto simp: kind_bytes_def)
qed

lemma erased_kinds:
  assumes ok: "mapped_ok m" and it: "it \<in> set m" and s: "set m' = set m - {it}"
  shows "kind_bytes j m' = kind_bytes j m - span (fst it) (mr_sz it)"
proof -
  have t: "tiled fst mr_sz m" using ok by (simp add: mapped_ok_def)
  show ?thesis using tiled_unique [OF t _ it] it unfolding kind_bytes_def s by blast
qed

lemma put_remainder:
  assumes ok: "mapped_ok m" and r: "c \<Longrightarrow> range_ok v n \<and> span v n \<inter> all_mapped m = {}"
  obtains m' where "(if c then add_mapped_unlocked v n k m else Some m) = Some m'" and "mapped_ok m'"
    and "\<And>j. kind_bytes j m' = kind_bytes j m \<union> (if c \<and> j = k then span v n else {})"
proof (cases c)
  case True
  then have "range_ok v n" "span v n \<inter> all_mapped m = {}" using r by simp_all
  from add_mapped_spec [OF ok this, of k] obtain m' where m': "add_mapped_unlocked v n k m = Some m'" "mapped_ok m'"
    "set m' = insert (v, \<lparr>mr_vaddr = v, mr_size = n, mr_type = k\<rparr>) (set m)" by blast
  show thesis by (rule that [of m']) (use True m' kind_bytes_set [OF m'(3)] in simp_all)
next
  case False
  then show thesis using that [of m] ok by simp
qed

lemma cut_region_spec:
  assumes ok: "mapped_ok m" and it: "it \<in> set m" "c \<in> span (fst it) (mr_sz it)" and e: "c < e"
  defines "d \<equiv> min e (fst it + mr_sz it)"
  obtains m' where "cut_region c e it m = Some (d, m')" and "mapped_ok m'" and "\<And>j. kind_bytes j m' = kind_bytes j m - {c..<d}"
proof -
  define k where "k = mr_type (snd it)"
  define m0 where "m0 = erase_key (fst it) m"
  have m0: "mapped_ok m0" "\<And>j. kind_bytes j m0 = kind_bytes j m - span (fst it) (mr_sz it)"
    using erase_region [OF ok it(1)] erased_kinds [OF ok it(1)] by (simp_all add: m0_def)
  have I: "mr_vaddr (snd it) = fst it" "range_ok (fst it) (mr_sz it)" "mr_end (snd it) = fst it + mr_sz it" by (rule mapped_okD [OF ok it(1)])+
  have c: "fst it \<le> c" "c < fst it + mr_sz it" using it(2) by (auto simp: span_iff)
  have bound: "fst it + mr_sz it \<le> U64_MAX" using I(2) by (simp add: range_ok_def)
  have out: "span (fst it) (mr_sz it) \<inter> all_mapped m0 = {}" unfolding all_mapped_kinds m0(2) by blast
  have "span (fst it) (c - fst it) \<subseteq> span (fst it) (mr_sz it)" using c by (auto simp: span_iff)
  with out have l: "fst it < c \<Longrightarrow> range_ok (fst it) (c - fst it) \<and> span (fst it) (c - fst it) \<inter> all_mapped m0 = {}"
    using c bound by (auto simp: range_ok_def)
  obtain m1 where m1: "(if fst it < c then add_mapped_unlocked (fst it) (c - fst it) k m0 else Some m0) = Some m1" "mapped_ok m1"
      "\<And>j. kind_bytes j m1 = kind_bytes j m0 \<union> (if fst it < c \<and> j = k then span (fst it) (c - fst it) else {})"
    using put_remainder [OF m0(1) l] by blast
  have d: "c < d" "d \<le> fst it + mr_sz it" using c e by (auto simp: d_def)
  have "span d (fst it + mr_sz it - d) \<subseteq> span (fst it) (mr_sz it)" "span d (fst it + mr_sz it - d) \<inter> span (fst it) (c - fst it) = {}"
    using c d by (auto simp: span_iff)
  with out have "span d (fst it + mr_sz it - d) \<inter> all_mapped m1 = {}" unfolding all_mapped_kinds m1(3) by auto
  then have r: "d < fst it + mr_sz it \<Longrightarrow> range_ok d (fst it + mr_sz it - d) \<and> span d (fst it + mr_sz it - d) \<inter> all_mapped m1 = {}"
    using bound by (auto simp: range_ok_def)
  obtain m2 where m2: "(if d < fst it + mr_sz it then add_mapped_unlocked d (fst it + mr_sz it - d) k m1 else Some m1) = Some m2" "mapped_ok m2"
      "\<And>j. kind_bytes j m2 = kind_bytes j m1 \<union> (if d < fst it + mr_sz it \<and> j = k then span d (fst it + mr_sz it - d) else {})"
    using put_remainder [OF m1(2) r] by blast
  have sub: "sub64 c (fst it) = c - fst it" "sub64 (fst it + mr_sz it) d = fst it + mr_sz it - d" using c d bound by (auto intro!: sub64_le)
  have cut: "cut_region c e it m = Some (d, m2)"
    unfolding cut_region_def Let_def I m0_def [symmetric] k_def [symmetric] d_def [symmetric] sub by (simp only: m1(1) m2(1) bind.bind_lunit)
  have rest: "span (fst it) (mr_sz it) = span (fst it) (c - fst it) \<union> {c..<d} \<union> span d (fst it + mr_sz it - d)" using c d by (auto simp: span_iff)
  have own: "span (fst it) (mr_sz it) \<subseteq> kind_bytes k m" using it(1) unfolding kind_bytes_def k_def by blast
  have other: "j \<noteq> k \<Longrightarrow> kind_bytes j m \<inter> span (fst it) (mr_sz it) = {}" for j
    using kinds_disjoint [OF ok] own by (cases j; cases k) auto
  have "kind_bytes j m2 = kind_bytes j m - {c..<d}" for j
  proof (cases "j = k")
    case True
    have "kind_bytes j m2 = (kind_bytes j m - span (fst it) (mr_sz it)) \<union> (span (fst it) (c - fst it) \<union> span d (fst it + mr_sz it - d))"
      unfolding m2(3) m1(3) m0(2) using True by (auto simp: span_iff)
    moreover have "{c..<d} \<inter> (span (fst it) (c - fst it) \<union> span d (fst it + mr_sz it - d)) = {}" using c d by (auto simp: span_iff)
    ultimately show ?thesis using True own rest by blast
  next
    case False
    then have "kind_bytes j m2 = kind_bytes j m - span (fst it) (mr_sz it)" unfolding m2(3) m1(3) m0(2) by simp
    then show ?thesis using other [OF False] rest by blast
  qed
  with that cut m2(2) show thesis by blast
qed

lemma remove_walk_spec:
  assumes "mapped_ok m" and "{c..<e} \<subseteq> all_mapped m"
  shows "\<exists>m'. remove_mapped_walk c e m = Some m' \<and> mapped_ok m' \<and> (\<forall>j. kind_bytes j m' = kind_bytes j m - {c..<e})"
  using assms
proof (induction c e m rule: remove_mapped_walk.induct)
  case (1 c e m)
  show ?case
  proof (cases "c < e")
    case c: True
    then obtain it where it: "find_mapped_containing c m = Some it" using find_mapped_None [OF 1(2), of c] 1(3) by (cases "find_mapped_containing c m") auto
    then have i: "it \<in> set m" "c \<in> span (fst it) (mr_sz it)" using find_mapped_spec [OF 1(2)] by simp_all
    define d where "d = min e (fst it + mr_sz it)"
    obtain m1 where m1: "cut_region c e it m = Some (d, m1)" "mapped_ok m1" "\<And>j. kind_bytes j m1 = kind_bytes j m - {c..<d}"
      using cut_region_spec [OF 1(2) i c] unfolding d_def by blast
    have d: "c < d" "d \<le> e" using c i(2) by (auto simp: d_def span_iff)
    have "{d..<e} \<subseteq> {c..<e} - {c..<d}" using d by auto
    then have "{d..<e} \<subseteq> all_mapped m1" using 1(3) unfolding all_mapped_kinds m1(3) by blast
    from "1.IH" [OF c it m1(1) refl m1(2) this] obtain m' where m': "remove_mapped_walk d e m1 = Some m'" "mapped_ok m'"
      "\<forall>j. kind_bytes j m' = kind_bytes j m1 - {d..<e}" by blast
    have "kind_bytes j m' = kind_bytes j m - {c..<e}" for j using m' m1(3) d by auto
    then show ?thesis using c it m1(1) m' by (simp add: remove_mapped_walk.simps [of c e])
  next
    case False
    then show ?thesis using 1(2) by (simp add: remove_mapped_walk.simps [of c e])
  qed
qed

lemma remove_mapped_spec:
  assumes "mapped_ok m" and "range_ok v n"
  shows "if span v n \<subseteq> kind_bytes k m
    then \<exists>m'. remove_mapped_unlocked v n k m = Some (True, m') \<and> mapped_ok m' \<and> (\<forall>j. kind_bytes j m' = kind_bytes j m - span v n)
    else remove_mapped_unlocked v n k m = Some (False, m)"
proof (cases "span v n \<subseteq> kind_bytes k m")
  case True
  have "kind_bytes k m \<subseteq> all_mapped m" unfolding all_mapped_kinds by (cases k) auto
  then have "{v..<v + n} \<subseteq> all_mapped m" using True by (auto simp: span_def)
  from remove_walk_spec [OF assms(1) this] True show ?thesis
    by (auto simp: remove_mapped_unlocked_def contains_mapped_iff [OF assms] span_def)
qed (simp add: remove_mapped_unlocked_def contains_mapped_iff [OF assms])

section \<open>The free placeholders\<close>

lemma find_free_spec:
  assumes inv: "free_inv m" and r: "range_ok v n"
  shows "find_containing_free v n m = Some it \<Longrightarrow> it \<in> set m \<and> fst it \<le> v \<and> v + n \<le> fst it + snd it"
    and "find_containing_free v n m = None \<longleftrightarrow> \<not> span v n \<subseteq> free_bytes m"
proof -
  obtain bs fs where ub: "upper_bound v m = (bs, fs)" by fastforce
  note U = upper_boundD [OF ub free_inv_omap_wf [OF inv]]
  have n: "0 < n" "v + n \<le> U64_MAX" using r by (simp_all add: range_ok_def)
  have eq: "find_containing_free v n m = (if bs \<noteq> [] \<and> v + n \<le> fst (last bs) + snd (last bs) then Some (last bs) else None)"
  proof (cases "bs = []")
    case False
    then have l: "last bs \<in> set m" "fst (last bs) \<le> v" using U by simp_all
    then have "add64 (fst (last bs)) (snd (last bs)) = fst (last bs) + snd (last bs)"
      using free_inv_range [OF inv l(1)] by (intro add64_le) (simp add: range_ok_def)
    then show ?thesis using False ub l(2) add64_le [OF n(2)] by (simp add: find_containing_free_def Let_def)
  qed (simp add: find_containing_free_def ub)
  show "find_containing_free v n m = Some it \<Longrightarrow> it \<in> set m \<and> fst it \<le> v \<and> v + n \<le> fst it + snd it"
    using eq U by (auto split: if_splits)
  show "find_containing_free v n m = None \<longleftrightarrow> \<not> span v n \<subseteq> free_bytes m"
  proof
    assume none: "find_containing_free v n m = None"
    show "\<not> span v n \<subseteq> free_bytes m"
    proof
      assume "span v n \<subseteq> free_bytes m"
      from free_range_at_contains [OF inv n(1) this] obtain x where "free_range_at v m = Some x" "v + n \<le> fst x + snd x" by blast
      then show False using none eq ub by (auto simp: free_range_at_def split: if_splits)
    qed
  next
    assume out: "\<not> span v n \<subseteq> free_bytes m"
    show "find_containing_free v n m = None"
    proof (rule ccontr)
      assume "\<not> ?thesis"
      then have "bs \<noteq> []" "v + n \<le> fst (last bs) + snd (last bs)" using eq by (auto split: if_splits)
      moreover have "fst (last bs) \<le> v" "last bs \<in> set m" using U calculation(1) by simp_all
      ultimately have "span v n \<subseteq> span (fst (last bs)) (snd (last bs))" "last bs \<in> set m" by (auto simp: span_iff)
      then have "span v n \<subseteq> free_bytes m" unfolding subset_iff free_bytes_iff by blast
      then show False using out by simp
    qed
  qed
qed

lemma set_value_middle: "omap_wf (bs @ (k, v) # fs) \<Longrightarrow> set_value k v' (bs @ (k, v) # fs) = bs @ (k, v') # fs"
proof -
  assume "omap_wf (bs @ (k, v) # fs)"
  then have "\<forall>p \<in> set bs. fst p < k" "\<forall>p \<in> set fs. k < fst p" by auto
  then show ?thesis by (auto simp: set_value_def intro!: map_idI)
qed

lemma split_unlocked_spec:
  assumes inv: "free_inv m" and m: "m = bs @ it # fs" and r: "range_ok v n" and it: "fst it \<le> v" "v + n \<le> fst it + snd it"
  shows "split_unlocked it v n m = bs @ (if fst it < v then [(fst it, v - fst it)] else []) @ (v, n) #
    (if v + n < fst it + snd it then [(v + n, fst it + snd it - (v + n))] else []) @ fs"
proof -
  define b e where "b = fst it" and "e = fst it + snd it"
  have itd: "it = (b, e - b)" by (simp add: b_def e_def)
  have wf: "omap_wf (bs @ (b, x) # fs)" for x using free_inv_omap_wf [OF inv] by (auto simp: m b_def)
  have keys: "\<forall>p \<in> set bs. fst p < b" "\<forall>q \<in> set fs. e < fst q"
    using wf [of 0] inv by (auto simp: m free_inv_def e_def set_ivals_of)
  have bnd: "e \<le> U64_MAX" "0 < n" using inv r by (auto simp: m free_inv_def e_def range_ok_def)
  have le: "b \<le> v" "v + n \<le> e" using it by (simp_all add: b_def e_def)
  have u: "add64 b (e - b) = e" "add64 v n = v + n" "sub64 v b = v - b" "sub64 e v = e - v" "sub64 (e - v) n = e - (v + n)" "sub64 (e - b) n = e - b - n"
    using le bnd by (auto intro!: add64_le sub64_le simp: add64_le sub64_le)
  show ?thesis
  proof (cases "b = v")
    case True
    have s: "set_value v n (bs @ (v, e - v) # fs) = bs @ (v, n) # fs" using set_value_middle [OF wf, of n] True by simp
    have "emplace (v + n) (e - (v + n)) (bs @ (v, n) # fs) = bs @ (v, n) # (v + n, e - (v + n)) # fs"
      using emplace_middle [of "bs @ [(v, n)]" "v + n" fs] keys le bnd(2) True by fastforce
    then show ?thesis using True u s le by (auto simp: split_unlocked_def Let_def m itd)
  next
    case False
    then have lt: "b < v" using le by simp
    have s: "set_value b (v - b) (bs @ (b, e - b) # fs) = bs @ (b, v - b) # fs" by (rule set_value_middle [OF wf])
    have p: "emplace v (e - v) (bs @ (b, v - b) # fs) = bs @ (b, v - b) # (v, e - v) # fs"
      using emplace_middle [of "bs @ [(b, v - b)]" v fs] keys le bnd(2) lt by fastforce
    have wf2: "omap_wf ((bs @ [(b, v - b)]) @ (v, x) # fs)" for x using wf [of x] keys lt le bnd(2) by fastforce
    then have look: "map_of (bs @ (b, v - b) # (v, e - v) # fs) v = Some (e - v)" using map_of_wf [OF wf2] by simp
    have s2: "set_value v n (bs @ (b, v - b) # (v, e - v) # fs) = bs @ (b, v - b) # (v, n) # fs" using set_value_middle [OF wf2, of n "e - v"] by simp
    have p2: "emplace (v + n) (e - (v + n)) (bs @ (b, v - b) # (v, n) # fs) = bs @ (b, v - b) # (v, n) # (v + n, e - (v + n)) # fs"
      using emplace_middle [of "bs @ [(b, v - b), (v, n)]" "v + n" fs] keys le bnd(2) lt by fastforce
    have eqn: "e - v \<noteq> n \<longleftrightarrow> v + n < e" using le by auto
    show ?thesis using False lt u le look p s s2 p2 eqn by (auto simp: split_unlocked_def Let_def m itd)
  qed
qed

lemma consume_unlocked_spec:
  assumes inv: "free_inv m" and r: "range_ok v n"
  shows "if span v n \<subseteq> free_bytes m
    then \<exists>m'. consume_unlocked v n m = (True, m') \<and> free_inv m' \<and> free_bytes m' = free_bytes m - span v n
    else consume_unlocked v n m = (False, m)"
proof (cases "span v n \<subseteq> free_bytes m")
  case True
  then obtain it where f: "find_containing_free v n m = Some it" using find_free_spec(2) [OF inv r] by (cases "find_containing_free v n m") auto
  then have it: "it \<in> set m" "fst it \<le> v" "v + n \<le> fst it + snd it" using find_free_spec(1) [OF inv r] by auto
  obtain bs fs where m: "m = bs @ it # fs" using split_list [OF it(1)] by blast
  have n: "0 < n" using r by (simp add: range_ok_def)
  define L where "L = (if fst it < v then [(fst it, v - fst it)] else [])"
  define R where "R = (if v + n < fst it + snd it then [(v + n, fst it + snd it - (v + n))] else [])"
  have s: "split_unlocked it v n m = bs @ L @ (v, n) # R @ fs" using split_unlocked_spec [OF inv m r it(2,3)] by (simp add: L_def R_def)
  have "\<forall>p \<in> set bs. fst p < fst it" "\<forall>q \<in> set fs. fst it + snd it < fst q" "omap_wf bs" "omap_wf fs"
    using free_inv_omap_wf [OF inv] inv by (auto simp: m free_inv_def set_ivals_of)
  then have wf: "omap_wf ((bs @ L) @ (v, n) # R @ fs)" using it n by (force simp: L_def R_def)
  have s': "split_unlocked it v n m = (bs @ L) @ (v, n) # R @ fs" using s by simp
  have look: "map_of ((bs @ L) @ (v, n) # R @ fs) v = Some n" unfolding map_of_wf [OF wf] by simp
  have c: "consume_unlocked v n m = (True, (bs @ L) @ R @ fs)"
    unfolding consume_unlocked_def f option.case Let_def s' look erase_key_middle [OF wf] by simp
  have "consume_free_range it v n m = bs @ L @ R @ fs"
    using consume_free_range_split [OF inv m n it(2,3)] by (simp add: L_def R_def)
  then show ?thesis using c True consume_free_range_correct [OF inv it(1) n it(2,3)] by simp
next
  case False
  then have "find_containing_free v n m = None" using find_free_spec(2) [OF inv r] by simp
  then show ?thesis using False by (simp add: consume_unlocked_def)
qed

text \<open>At most one neighbour on each side can be joined, because the ranges of the list do not touch.\<close>

lemma join_before_spec:
  assumes "free_inv bs"
  shows "join_before v (rev bs) = (if bs \<noteq> [] \<and> fst (last bs) + snd (last bs) = v then (fst (last bs), rev (butlast bs)) else (v, rev bs))"
proof (cases bs rule: rev_cases)
  case (snoc ys y)
  have ends: "add64 (fst p) (snd p) = fst p + snd p" if "p \<in> set bs" for p
    using free_inv_range [OF assms that] by (intro add64_le) (simp add: range_ok_def)
  have "join_before (fst y) (rev ys) = (fst y, rev ys)"
  proof (cases ys rule: rev_cases)
    case (snoc zs z)
    then have "fst z + snd z < fst y" using assms \<open>bs = ys @ [y]\<close> by (auto simp: free_inv_def)
    then show ?thesis using ends [of z] snoc \<open>bs = ys @ [y]\<close> by simp
  qed simp
  then show ?thesis using ends [of y] snoc by simp
qed simp

lemma join_after_spec:
  assumes "free_inv fs"
  shows "join_after e fs = (if fs \<noteq> [] \<and> fst (hd fs) = e then (fst (hd fs) + snd (hd fs), tl fs) else (e, fs))"
proof (cases fs)
  case (Cons y ys)
  have ends: "add64 (fst y) (snd y) = fst y + snd y" using free_inv_range [OF assms] Cons by (intro add64_le) (simp add: range_ok_def)
  have "join_after (fst y + snd y) ys = (fst y + snd y, ys)"
    using assms Cons by (cases ys) (auto simp: free_inv_def)
  then show ?thesis using ends Cons by auto
qed simp

lemma free_inv_middle:
  assumes "free_inv bs" and "free_inv fs" and "\<forall>p \<in> set bs. fst p + snd p < b" and "\<forall>q \<in> set fs. b + k < fst q"
    and "0 < k" and "b + k \<le> U64_MAX"
  shows "free_inv (bs @ (b, k) # fs)"
proof -
  have "fst p + snd p < fst q" if "p \<in> set bs" "q \<in> set fs" for p q using assms(3,4) that by (meson le_add1 less_le_trans order.strict_trans)
  then show ?thesis using assms by (auto simp: free_inv_def set_ivals_of)
qed

lemma add_free_spec:
  assumes inv: "free_inv m" and r: "range_ok v n" and v: "v \<noteq> 0" and d: "span v n \<inter> free_bytes m = {}"
  shows "free_inv (add_free_unlocked v n m)" and "free_bytes (add_free_unlocked v n m) = free_bytes m \<union> span v n"
proof -
  have n: "0 < n" "v + n \<le> U64_MAX" using r by (simp_all add: range_ok_def)
  obtain bs fs where lb: "lower_bound v m = (bs, fs)" by fastforce
  note L = lower_boundD [OF lb free_inv_omap_wf [OF inv]]
  have out: "fst p + snd p \<le> v \<or> v + n \<le> fst p" and pos: "0 < snd p" "fst p + snd p \<le> U64_MAX" if "p \<in> set m" for p
  proof -
    show "0 < snd p" "fst p + snd p \<le> U64_MAX" using free_inv_range [OF inv that] by (auto simp: range_ok_def)
    show "fst p + snd p \<le> v \<or> v + n \<le> fst p"
    proof (rule ccontr)
      assume "\<not> ?thesis"
      then have "max v (fst p) \<in> span v n" "max v (fst p) \<in> span (fst p) (snd p)" using n(1) \<open>0 < snd p\<close> by (auto simp: span_iff)
      then show False using d that unfolding free_bytes_iff disjoint_iff by blast
    qed
  qed
  have B: "\<forall>p \<in> set bs. fst p + snd p \<le> v" using out L n(1) by fastforce
  have F: "\<forall>q \<in> set fs. v + n \<le> fst q" using out L pos(1) n(1) by fastforce
  have ib: "free_inv bs" "free_inv fs" using inv L(1) by (auto simp: free_inv_def)
  have em: "emplace v n m = bs @ (v, n) # fs" unfolding L(1) by (rule emplace_middle) (use L F n(1) in \<open>auto dest!: bspec\<close>)
  have wf: "omap_wf (bs @ (v, n) # fs)" using free_inv_omap_wf [OF ib(1)] free_inv_omap_wf [OF ib(2)] L(2) F n(1) by fastforce
  have "filter (\<lambda>p. fst p < v) bs = bs" "filter (\<lambda>p. fst p < v) fs = []" "filter (\<lambda>p. v < fst p) bs = []" "filter (\<lambda>p. v < fst p) fs = fs"
    using L(2) F n(1) by (fastforce simp: filter_id_conv filter_empty_conv)+
  then have fl: "filter (\<lambda>p. fst p < v) (bs @ (v, n) # fs) = bs" "filter (\<lambda>p. v < fst p) (bs @ (v, n) # fs) = fs" by simp_all
  define jb where "jb \<longleftrightarrow> bs \<noteq> [] \<and> fst (last bs) + snd (last bs) = v"
  define ja where "ja \<longleftrightarrow> fs \<noteq> [] \<and> fst (hd fs) = v + n"
  define b where "b = (if jb then fst (last bs) else v)"
  define e where "e = (if ja then fst (hd fs) + snd (hd fs) else v + n)"
  define bs' where "bs' = (if jb then butlast bs else bs)"
  define fs' where "fs' = (if ja then tl fs else fs)"
  have "join_before v (rev bs) = (b, rev bs')" "join_after (v + n) fs = (e, fs')"
    using join_before_spec [OF ib(1), of v] join_after_spec [OF ib(2), of "v + n"] by (auto simp: jb_def ja_def b_def e_def bs'_def fs'_def)
  note joined = this
  have bsx: "bs = bs' @ [(b, v - b)]" if jb
  proof -
    have "last bs = (b, v - b)" using that by (intro prod_eqI) (auto simp: jb_def b_def)
    then show ?thesis using that append_butlast_last_id [of bs] by (simp add: jb_def bs'_def)
  qed
  have fsx: "fs = (v + n, e - (v + n)) # fs'" if ja
  proof -
    have "hd fs = (v + n, e - (v + n))" using that by (intro prod_eqI) (auto simp: ja_def e_def)
    then show ?thesis using that hd_Cons_tl [of fs] by (simp add: ja_def fs'_def)
  qed
  have bv: "b \<le> v" "jb \<Longrightarrow> b < v" "\<not> jb \<Longrightarrow> b = v" using pos(1) [of "last bs"] L(1) by (auto simp: b_def jb_def)
  have ev: "v + n \<le> e" "ja \<Longrightarrow> v + n < e" "\<not> ja \<Longrightarrow> e = v + n" "e \<le> U64_MAX"
    using pos [of "hd fs"] L(1) n(2) by (auto simp: e_def ja_def)
  have lt: "\<forall>p \<in> set bs'. fst p + snd p < b"
  proof (cases jb)
    case True
    then show ?thesis using ib(1) unfolding bsx [OF True] by (auto simp: free_inv_def set_ivals_of)
  next
    case False
    have "fst p + snd p \<noteq> v" if p: "p \<in> set bs" for p
    proof
      assume eq: "fst p + snd p = v"
      have ne: "bs \<noteq> []" using p by auto
      have "apart (ivals_of bs)" "(fst p, fst p + snd p) \<in> set (ivals_of bs)" using ib(1) p by (auto simp: free_inv_def set_ivals_of)
      from apart_last [OF this] have "v \<le> fst (last bs) + snd (last bs)" using ne eq by (simp add: last_ivals_of)
      then show False using False B ne by (auto simp: jb_def intro: antisym)
    qed
    then show ?thesis using False B by (auto simp: bs'_def b_def intro!: le_neq_trans)
  qed
  have gt: "\<forall>q \<in> set fs'. e < fst q"
  proof (cases ja)
    case True
    then show ?thesis using ib(2) ev(1) unfolding fsx [OF True] by (auto simp: free_inv_def set_ivals_of)
  next
    case False
    have "fst q \<noteq> v + n" if q: "q \<in> set fs" for q
    proof
      assume eq: "fst q = v + n"
      obtain y ys where fs: "fs = y # ys" using q by (cases fs) auto
      have "fst y < fst q \<or> q = y" using ib(2) q by (force simp: fs free_inv_def set_ivals_of)
      moreover have "v + n \<le> fst y" using F by (simp add: fs)
      ultimately show False using False eq by (auto simp: ja_def fs)
    qed
    then have "v + n < fst q" if "q \<in> set fs" for q using F that le_neq_implies_less [of "v + n" "fst q"] by fastforce
    then show ?thesis using False by (simp add: fs'_def e_def)
  qed
  have "free_inv (xs @ ys) \<Longrightarrow> free_inv xs \<and> free_inv ys" for xs ys by (auto simp: free_inv_def)
  note parts = this
  have ib'1: "free_inv bs'"
  proof (cases jb)
    case True
    then show ?thesis using parts [of bs' "[(b, v - b)]"] ib(1) by (simp only: bsx [OF True, symmetric])
  qed (simp add: bs'_def ib(1))
  have ib'2: "free_inv fs'"
  proof (cases ja)
    case True
    have "fs = [(v + n, e - (v + n))] @ fs'" using fsx [OF True] by simp
    then show ?thesis using parts [of "[(v + n, e - (v + n))]" fs'] ib(2) by simp
  qed (simp add: fs'_def ib(2))
  note ib' = ib'1 ib'2
  have res: "add_free_unlocked v n m = bs' @ (b, e - b) # fs'"
  proof (cases "jb \<or> ja")
    case True
    have c: "b \<noteq> v \<or> e \<noteq> add64 v n" using True bv(2) ev(2) add64_le [OF n(2)] by auto
    have "emplace b (sub64 e b) (bs' @ fs') = bs' @ (b, sub64 e b) # fs'"
      using lt gt bv(1) ev(1) n(1) by (intro emplace_middle) (auto dest!: bspec)
    moreover have "sub64 e b = e - b" using bv(1) ev(1,4) by (intro sub64_le) auto
    ultimately show ?thesis
      using v n joined c em set_value_middle [OF wf, of n] fl add64_le [OF n(2)] by (simp add: add_free_unlocked_def Let_def)
  next
    case False
    then have "b = v" "e = v + n" "bs' = bs" "fs' = fs" using bv(3) ev(3) by (auto simp: bs'_def fs'_def)
    then show ?thesis
      using v n joined em set_value_middle [OF wf, of n] fl add64_le [OF n(2)] by (simp add: add_free_unlocked_def Let_def)
  qed
  have le: "b < e" "b + (e - b) = e" using bv(1) ev(1) n(1) by simp_all
  show "free_inv (add_free_unlocked v n m)" unfolding res by (rule free_inv_middle [OF ib' lt]) (use gt le ev(4) in simp_all)
  define B F where "B = (if jb then span b (v - b) else {})" and "F = (if ja then span (v + n) (e - (v + n)) else {})"
  have "free_bytes bs = free_bytes bs' \<union> B"
  proof (cases jb)
    case True
    show ?thesis by (subst bsx [OF True]) (simp add: True B_def)
  qed (simp add: bs'_def B_def)
  moreover have "free_bytes fs = free_bytes fs' \<union> F"
  proof (cases ja)
    case True
    show ?thesis by (subst fsx [OF True]) (simp add: True F_def Un_commute)
  qed (simp add: fs'_def F_def)
  moreover have "span b (e - b) = B \<union> span v n \<union> F"
    using bv ev unfolding B_def F_def by (cases jb; cases ja) (auto simp: span_iff)
  ultimately show "free_bytes (add_free_unlocked v n m) = free_bytes m \<union> span v n"
    unfolding res by (simp add: Un_ac L(1))
qed

end
