(* ===== verification/Guest_Space_History.thy ===== *)
theory Guest_Space_History
  imports Guest_Space_Facts
begin

text \<open>
  The operations of \<open>GuestAddressSpace\<close> on the map of the guest's addresses (\<open>guest_map\<close>), alone and over whole histories that
  begin with the reservation of the guest regions.
\<close>

section \<open>The invariant and the map\<close>

definition reserved_bytes :: "guest_space \<Rightarrow> nat set" where
  "reserved_bytes g = (\<Union>r \<in> set (gs_owned g). span (fst r) (snd r))"

record guest_map =
  gm_free :: "nat set"
  gm_private :: "nat set"
  gm_views :: "(nat \<times> nat \<times> vm_mode) set"

definition guest_map_of :: "guest_space \<Rightarrow> guest_map" where
  "guest_map_of g = \<lparr>gm_free = free_bytes (gs_free g), gm_private = kind_bytes PrivateMapping (gs_mapped g), gm_views = views (gs_backing g)\<rparr>"

definition gs_inv :: "guest_space \<Rightarrow> bool" where
  "gs_inv g \<longleftrightarrow> free_inv (gs_free g) \<and> mapped_ok (gs_mapped g) \<and> bk_inv (gs_backing g) \<and>
     free_bytes (gs_free g) \<inter> all_mapped (gs_mapped g) = {} \<and>
     free_bytes (gs_free g) \<union> all_mapped (gs_mapped g) = reserved_bytes g \<and> 0 \<notin> reserved_bytes g \<and>
     kind_bytes BackingMapping (gs_mapped g) = fst ` views (gs_backing g)"

lemma gs_invD:
  assumes "gs_inv g"
  shows "free_inv (gs_free g)" and "mapped_ok (gs_mapped g)" and "bk_inv (gs_backing g)"
    and "free_bytes (gs_free g) \<inter> all_mapped (gs_mapped g) = {}"
    and "free_bytes (gs_free g) \<union> all_mapped (gs_mapped g) = reserved_bytes g" and "0 \<notin> reserved_bytes g"
    and "kind_bytes BackingMapping (gs_mapped g) = fst ` views (gs_backing g)"
  using assms by (simp_all add: gs_inv_def)

lemma gs_inv_zero:
  assumes "gs_inv g"
  shows "0 \<notin> free_bytes (gs_free g)" and "0 \<notin> all_mapped (gs_mapped g)"
proof -
  have "0 \<notin> free_bytes (gs_free g) \<union> all_mapped (gs_mapped g)" using gs_invD(5,6) [OF assms] by simp
  then show "0 \<notin> free_bytes (gs_free g)" and "0 \<notin> all_mapped (gs_mapped g)" by simp_all
qed

lemma viewed_fst: "bk_inv s \<Longrightarrow> viewed (gb_maps s) = fst ` views s"
  using fst_view_pts [of "gb_size s" "gb_maps s"] by (simp add: views_def bk_inv_def)

text \<open>A later state with given components of the map, of the same ranges and file.\<close>

definition shows_map :: "guest_space \<Rightarrow> guest_space \<Rightarrow> guest_map \<Rightarrow> bool" where
  "shows_map g g' M \<longleftrightarrow> gs_inv g' \<and> guest_map_of g' = M \<and> gs_owned g' = gs_owned g \<and> same_store (gs_backing g) (gs_backing g')"

lemma shows_map_same: "gs_inv g \<Longrightarrow> shows_map g g (guest_map_of g)"
  by (simp add: shows_map_def)

lemma views_calls [simp]: "views (s\<lparr>gb_calls := c\<rparr>) = views s" "bk_inv (s\<lparr>gb_calls := c\<rparr>) = bk_inv s"
  by (simp_all add: views_def bk_inv_def)

lemma gs_call_spec:
  assumes "gs_inv g"
  obtains g' where "gs_call os g = (os (gb_calls (gs_backing g)), g')" and "shows_map g g' (guest_map_of g)"
    and "gs_free g' = gs_free g" and "gs_mapped g' = gs_mapped g"
proof -
  define g' where "g' = g\<lparr>gs_backing := (gs_backing g)\<lparr>gb_calls := Suc (gb_calls (gs_backing g))\<rparr>\<rparr>"
  have "gs_call os g = (os (gb_calls (gs_backing g)), g')" by (simp add: gs_call_def os_call_def g'_def)
  moreover have "shows_map g g' (guest_map_of g)"
    using assms by (simp add: shows_map_def gs_inv_def g'_def guest_map_of_def reserved_bytes_def)
  ultimately show thesis using that by (simp add: g'_def)
qed

text \<open>Bytes that move between the free placeholders and the mapped regions stay owned.\<close>

lemma gs_inv_moved:
  assumes "gs_inv g" and "free_inv (gs_free g')" and "mapped_ok (gs_mapped g')" and "bk_inv (gs_backing g')" and "gs_owned g' = gs_owned g"
    and f: "free_bytes (gs_free g') = F" and p: "kind_bytes PrivateMapping (gs_mapped g') = P" and b: "kind_bytes BackingMapping (gs_mapped g') = B"
    and "fst ` views (gs_backing g') = B" and "F \<inter> (B \<union> P) = {}"
    and "F \<union> (B \<union> P) = free_bytes (gs_free g) \<union> (kind_bytes BackingMapping (gs_mapped g) \<union> kind_bytes PrivateMapping (gs_mapped g))"
  shows "gs_inv g'"
proof -
  have "reserved_bytes g' = reserved_bytes g" using assms(5) by (simp add: reserved_bytes_def)
  then show ?thesis using gs_invD(5,6) [OF assms(1)] assms(2-) unfolding gs_inv_def all_mapped_kinds by simp
qed

section \<open>The operations\<close>

text \<open>A placeholder that was taken for a mapping and is put back.\<close>

lemma consume_add_back:
  assumes "free_inv m" and r: "range_ok v n" and "consume_unlocked v n m = (True, m')" and z: "v \<noteq> 0"
  shows "add_free_unlocked v n m' = m"
proof -
  have sub: "span v n \<subseteq> free_bytes m" and m': "free_inv m'" "free_bytes m' = free_bytes m - span v n"
    using consume_unlocked_spec [OF assms(1) r] assms(3) by (auto split: if_splits)
  have "span v n \<inter> free_bytes m' = {}" using m'(2) by blast
  note A = add_free_spec [OF m'(1) r z this]
  have "free_bytes (add_free_unlocked v n m') = free_bytes m" using A(2) m'(2) sub by blast
  then show ?thesis using A(1) assms(1) by (intro free_inv_canonical)
qed

lemma gs_map_backing_spec:
  assumes inv: "gs_inv g" and r: "range_ok v n"
  shows "if span v n \<subseteq> free_bytes (gs_free g) \<and> off + n \<le> gb_size (gs_backing g)
    then \<exists>reason g'. gs_map_backing os v n off mode g = Some (reason, g') \<and>
      (if reason = FrNone
       then shows_map g g' (guest_map_of g\<lparr>gm_free := free_bytes (gs_free g) - span v n,
         gm_views := views (gs_backing g) \<union> (\<lambda>a. (a, off + (a - v), host_mode mode)) ` span v n\<rparr>)
       else shows_map g g' (guest_map_of g) \<and> (\<exists>j. \<not> os j))
    else \<exists>reason. gs_map_backing os v n off mode g = Some (reason, g) \<and> reason \<noteq> FrNone"
proof -
  note I = gs_invD [OF inv]
  have n: "0 < n" "v + n \<le> U64_MAX" using r by (simp_all add: range_ok_def)
  show ?thesis
  proof (cases "span v n \<subseteq> free_bytes (gs_free g)")
    case False
    then have "consume_unlocked v n (gs_free g) = (False, gs_free g)" using consume_unlocked_spec [OF I(1) r] by simp
    then show ?thesis using False by (simp add: gs_map_backing_def)
  next
    case sub: True
    then obtain free where c: "consume_unlocked v n (gs_free g) = (True, free)" "free_inv free" "free_bytes free = free_bytes (gs_free g) - span v n"
      using consume_unlocked_spec [OF I(1) r, unfolded if_P [OF sub]] by blast
    have "v \<in> span v n" using n by (simp add: span_iff)
    then have "v \<in> free_bytes (gs_free g)" using sub by (rule subsetD [rotated])
    with gs_inv_zero(1) [OF inv] have z: "v \<noteq> 0" by metis
    note put = consume_add_back [OF I(1) r c(1) z]
    show ?thesis
    proof (cases "off + n \<le> gb_size (gs_backing g)")
      case False
      then have "\<not> backing_range_ok off n (gs_backing g)" by (auto simp: backing_range_ok_def)
      then show ?thesis using False c(1) put I(3) by (simp add: gs_map_backing_def gb_map_fixed_def bk_inv_def)
    next
      case True
      define e where "e = \<lparr>me_vaddr = v, me_size = n, me_offset = off, me_mode = host_mode mode\<rparr>"
      have d: "span v n \<inter> all_mapped (gs_mapped g) = {}" using sub I(4) by blast
      then have "span v n \<inter> viewed (gb_maps (gs_backing g)) = {}"
        unfolding viewed_fst [OF I(3)] I(7) [symmetric] all_mapped_kinds by blast
      note M = gb_map_fixed_spec [OF I(3) r True this e_def]
      show ?thesis
      proof (cases "os (gb_calls (gs_backing g))")
        case False
        have "gs_map_backing os v n off mode g = Some (FixedMapViewFailed, g\<lparr>gs_backing := (gs_backing g)\<lparr>gb_calls := Suc (gb_calls (gs_backing g))\<rparr>\<rparr>)"
          using c(1) put M(1) [where os = os] False by (simp add: gs_map_backing_def)
        moreover have "shows_map g (g\<lparr>gs_backing := (gs_backing g)\<lparr>gb_calls := Suc (gb_calls (gs_backing g))\<rparr>\<rparr>) (guest_map_of g)"
          using inv by (simp add: shows_map_def gs_inv_def guest_map_of_def reserved_bytes_def)
        ultimately show ?thesis using sub True False by auto
      next
        case host: True
        obtain mapped where m: "add_mapped_unlocked v n BackingMapping (gs_mapped g) = Some mapped" "mapped_ok mapped"
          "set mapped = insert (v, \<lparr>mr_vaddr = v, mr_size = n, mr_type = BackingMapping\<rparr>) (set (gs_mapped g))"
          using add_mapped_spec [OF I(2) r d] by blast
        note K = kind_bytes_set [OF m(3)]
        define s where "s = at_maps (gs_backing g) (emplace v e (gb_maps (gs_backing g))) (Suc (gb_calls (gs_backing g)))"
        define g' where "g' = g\<lparr>gs_free := free, gs_mapped := mapped, gs_backing := s\<rparr>"
        have run: "gs_map_backing os v n off mode g = Some (FrNone, g')"
          using c(1) M(1) [where os = os] host m(1) by (simp add: gs_map_backing_def g'_def s_def)
        have pts: "me_pts e = (\<lambda>a. (a, off + (a - v), host_mode mode)) ` span v n" by (simp add: me_pts_def e_def)
        have vs: "views s = views (gs_backing g) \<union> (\<lambda>a. (a, off + (a - v), host_mode mode)) ` span v n"
          using M(3) by (simp add: views_def s_def pts)
        then have fs: "fst ` views s = fst ` views (gs_backing g) \<union> span v n" by (simp add: image_Un image_image)
        have D: "free_bytes (gs_free g) \<inter> (kind_bytes BackingMapping (gs_mapped g) \<union> kind_bytes PrivateMapping (gs_mapped g)) = {}"
          using I(4) by (simp add: all_mapped_kinds)
        have "gs_inv g'"
        proof (rule gs_inv_moved [OF inv])
          show "free_bytes (gs_free g') = free_bytes (gs_free g) - span v n" "kind_bytes PrivateMapping (gs_mapped g') = kind_bytes PrivateMapping (gs_mapped g)"
            "kind_bytes BackingMapping (gs_mapped g') = kind_bytes BackingMapping (gs_mapped g) \<union> span v n" "fst ` views (gs_backing g') = kind_bytes BackingMapping (gs_mapped g) \<union> span v n"
            using c(3) K fs I(7) by (simp_all add: g'_def)
        qed (use D sub c(2) m(2) M(2) in \<open>auto simp: g'_def s_def\<close>)
        then have "shows_map g g' (guest_map_of g\<lparr>gm_free := free_bytes (gs_free g) - span v n,
            gm_views := views (gs_backing g) \<union> (\<lambda>a. (a, off + (a - v), host_mode mode)) ` span v n\<rparr>)"
          using c(3) K vs by (simp add: shows_map_def guest_map_of_def g'_def same_store_def s_def)
        then show ?thesis using run sub True by simp
      qed
    qed
  qed
qed

lemma gs_inv_pos: "gs_inv g \<Longrightarrow> range_ok v n \<Longrightarrow> span v n \<subseteq> kind_bytes k (gs_mapped g) \<Longrightarrow> v \<noteq> 0"
proof -
  assume inv: "gs_inv g" and r: "range_ok v n" and sub: "span v n \<subseteq> kind_bytes k (gs_mapped g)"
  have "v \<in> kind_bytes k (gs_mapped g)" using r by (intro subsetD [OF sub]) (simp add: span_iff range_ok_def)
  then have "v \<in> all_mapped (gs_mapped g)" by (cases k) (simp_all add: all_mapped_kinds)
  then show "v \<noteq> 0" using gs_inv_zero(2) [OF inv] by metis
qed

text \<open>A mapped range that becomes a free placeholder.\<close>

lemma released_range:
  assumes inv: "gs_inv g" and r: "range_ok v n" and sub: "span v n \<subseteq> kind_bytes k (gs_mapped g)"
    and m: "mapped_ok (gs_mapped g')" "\<And>j. kind_bytes j (gs_mapped g') = kind_bytes j (gs_mapped g) - span v n"
    and f: "gs_free g' = add_free_unlocked v n (gs_free g)"
    and b: "bk_inv (gs_backing g')" "fst ` views (gs_backing g') = fst ` views (gs_backing g) - span v n" and w: "gs_owned g' = gs_owned g"
  shows "gs_inv g'" and "free_bytes (gs_free g') = free_bytes (gs_free g) \<union> span v n"
proof -
  note I = gs_invD [OF inv]
  have all: "span v n \<subseteq> kind_bytes BackingMapping (gs_mapped g) \<union> kind_bytes PrivateMapping (gs_mapped g)" using sub by (cases k) auto
  have D: "free_bytes (gs_free g) \<inter> (kind_bytes BackingMapping (gs_mapped g) \<union> kind_bytes PrivateMapping (gs_mapped g)) = {}"
    using I(4) by (simp add: all_mapped_kinds)
  have "span v n \<inter> free_bytes (gs_free g) = {}" using all D by blast
  note A = add_free_spec [OF I(1) r gs_inv_pos [OF inv r sub] this]
  show fb: "free_bytes (gs_free g') = free_bytes (gs_free g) \<union> span v n" using A(2) by (simp add: f)
  show "gs_inv g'"
  proof (rule gs_inv_moved [OF inv _ m(1) b(1) w fb m(2) m(2)])
    show "free_inv (gs_free g')" using A(1) by (simp add: f)
    show "fst ` views (gs_backing g') = kind_bytes BackingMapping (gs_mapped g) - span v n" using b(2) I(7) by simp
  qed (use D all in auto)
qed

lemma gs_unmap_backing_spec:
  assumes inv: "gs_inv g" and r: "range_ok v n"
  shows "if span v n \<subseteq> fst ` views (gs_backing g)
    then case gs_unmap_backing os v n g of
        None \<Rightarrow> \<exists>j. \<not> os j
      | Some (b, g') \<Rightarrow>
          if b then shows_map g g' (guest_map_of g\<lparr>gm_free := free_bytes (gs_free g) \<union> span v n,
            gm_views := {x \<in> views (gs_backing g). fst x \<notin> span v n}\<rparr>)
          else shows_map g g' (guest_map_of g) \<and> (\<exists>j. \<not> os j)
    else gs_unmap_backing os v n g = Some (False, g)"
proof -
  note I = gs_invD [OF inv]
  show ?thesis
  proof (cases "span v n \<subseteq> fst ` views (gs_backing g)")
    case False
    then show ?thesis using contains_mapped_iff [OF I(2) r, of BackingMapping] by (simp add: gs_unmap_backing_def I(7))
  next
    case sub: True
    then have ks: "span v n \<subseteq> kind_bytes BackingMapping (gs_mapped g)" by (simp add: I(7))
    have c: "contains_mapped_unlocked v n BackingMapping (gs_mapped g)" using contains_mapped_iff [OF I(2) r] ks by simp
    have sv: "span v n \<subseteq> viewed (gb_maps (gs_backing g))" using sub by (simp add: viewed_fst [OF I(3)])
    note U = gb_unmap_spec [OF I(3) r, of os, unfolded if_P [OF sv]]
    obtain mapped where m: "remove_mapped_unlocked v n BackingMapping (gs_mapped g) = Some (True, mapped)" "mapped_ok mapped"
        "\<And>j. kind_bytes j mapped = kind_bytes j (gs_mapped g) - span v n"
      using remove_mapped_spec [OF I(2) r, of BackingMapping, unfolded if_P [OF ks]] by blast
    show ?thesis
    proof (cases "gb_unmap os v n (gs_backing g)")
      case None
      then show ?thesis using U c sub by (simp add: gs_unmap_backing_def)
    next
      case (Some x)
      obtain b s where x: "x = (b, s)" by fastforce
      show ?thesis
      proof (cases b)
        case False
        then have s: "bk_inv s" "same_store (gs_backing g) s" "views s = views (gs_backing g)" "\<exists>j. \<not> os j" using U Some x by (simp_all add: shows_views_def)
        have "shows_map g (g\<lparr>gs_backing := s\<rparr>) (guest_map_of g)"
          using inv s by (simp add: shows_map_def gs_inv_def guest_map_of_def reserved_bytes_def)
        then show ?thesis using Some x False c sub s(4) by (simp add: gs_unmap_backing_def)
      next
        case True
        then have s: "bk_inv s" "same_store (gs_backing g) s" "views s = {x \<in> views (gs_backing g). fst x \<notin> span v n}" using U Some x by (simp_all add: shows_views_def)
        define g' where "g' = g\<lparr>gs_mapped := mapped, gs_free := add_free_unlocked v n (gs_free g), gs_backing := s\<rparr>"
        have "fst ` views s = fst ` views (gs_backing g) - span v n" unfolding s(3) by auto
        then have "gs_inv g'" "free_bytes (gs_free g') = free_bytes (gs_free g) \<union> span v n"
          using released_range [OF inv r ks, of g'] m s(1) by (simp_all add: g'_def)
        moreover have "kind_bytes PrivateMapping mapped = kind_bytes PrivateMapping (gs_mapped g)"
          using m(3) [of PrivateMapping] ks kinds_disjoint [OF I(2)] by blast
        ultimately have "shows_map g g' (guest_map_of g\<lparr>gm_free := free_bytes (gs_free g) \<union> span v n,
            gm_views := {x \<in> views (gs_backing g). fst x \<notin> span v n}\<rparr>)"
          using s(2,3) by (simp add: shows_map_def guest_map_of_def g'_def)
        then show ?thesis using Some x True c sub m(1) by (simp add: gs_unmap_backing_def g'_def)
      qed
    qed
  qed
qed

lemma gs_commit_spec:
  assumes inv: "gs_inv g" and r: "range_ok v n"
  shows "if span v n \<subseteq> free_bytes (gs_free g)
    then \<exists>b g'. gs_commit os v n g = Some (b, g') \<and>
      (if b then shows_map g g' (guest_map_of g\<lparr>gm_free := free_bytes (gs_free g) - span v n,
         gm_private := kind_bytes PrivateMapping (gs_mapped g) \<union> span v n\<rparr>)
       else shows_map g g' (guest_map_of g) \<and> (\<exists>j. \<not> os j))
    else gs_commit os v n g = Some (False, g)"
proof -
  note I = gs_invD [OF inv]
  show ?thesis
  proof (cases "span v n \<subseteq> free_bytes (gs_free g)")
    case False
    then have "consume_unlocked v n (gs_free g) = (False, gs_free g)" using consume_unlocked_spec [OF I(1) r] by simp
    then show ?thesis using False by (simp add: gs_commit_def)
  next
    case sub: True
    then obtain free where c: "consume_unlocked v n (gs_free g) = (True, free)" "free_inv free" "free_bytes free = free_bytes (gs_free g) - span v n"
      using consume_unlocked_spec [OF I(1) r, unfolded if_P [OF sub]] by blast
    have "v \<in> free_bytes (gs_free g)" using r by (intro subsetD [OF sub]) (simp add: span_iff range_ok_def)
    with gs_inv_zero(1) [OF inv] have z: "v \<noteq> 0" by metis
    note put = consume_add_back [OF I(1) r c(1) z]
    define s where "s = (gs_backing g)\<lparr>gb_calls := Suc (gb_calls (gs_backing g))\<rparr>"
    have s: "views s = views (gs_backing g)" "bk_inv s" "same_store (gs_backing g) s" using I(3) by (simp_all add: s_def)
    show ?thesis
    proof (cases "os (gb_calls (gs_backing g))")
      case False
      then have "gs_commit os v n g = Some (False, g\<lparr>gs_backing := s\<rparr>)" using c(1) put by (simp add: gs_commit_def gs_call_def os_call_def s_def)
      moreover have "shows_map g (g\<lparr>gs_backing := s\<rparr>) (guest_map_of g)"
        using inv s by (simp add: shows_map_def gs_inv_def guest_map_of_def reserved_bytes_def)
      ultimately show ?thesis using sub False by auto
    next
      case True
      have d: "span v n \<inter> all_mapped (gs_mapped g) = {}" using sub I(4) by blast
      obtain mapped where m: "add_mapped_unlocked v n PrivateMapping (gs_mapped g) = Some mapped" "mapped_ok mapped"
        "set mapped = insert (v, \<lparr>mr_vaddr = v, mr_size = n, mr_type = PrivateMapping\<rparr>) (set (gs_mapped g))"
        using add_mapped_spec [OF I(2) r d] by blast
      note K = kind_bytes_set [OF m(3)]
      define g' where "g' = g\<lparr>gs_free := free, gs_mapped := mapped, gs_backing := s\<rparr>"
      have run: "gs_commit os v n g = Some (True, g')" using c(1) m(1) True by (simp add: gs_commit_def gs_call_def os_call_def s_def g'_def)
      have D: "free_bytes (gs_free g) \<inter> (kind_bytes BackingMapping (gs_mapped g) \<union> kind_bytes PrivateMapping (gs_mapped g)) = {}"
        using I(4) by (simp add: all_mapped_kinds)
      have "gs_inv g'"
      proof (rule gs_inv_moved [OF inv])
        show "free_bytes (gs_free g') = free_bytes (gs_free g) - span v n" "kind_bytes PrivateMapping (gs_mapped g') = kind_bytes PrivateMapping (gs_mapped g) \<union> span v n"
          "kind_bytes BackingMapping (gs_mapped g') = kind_bytes BackingMapping (gs_mapped g)" "fst ` views (gs_backing g') = kind_bytes BackingMapping (gs_mapped g)"
          using c(3) K s(1) I(7) by (simp_all add: g'_def)
      qed (use D sub c(2) m(2) s(2) in \<open>auto simp: g'_def\<close>)
      then have "shows_map g g' (guest_map_of g\<lparr>gm_free := free_bytes (gs_free g) - span v n,
          gm_private := kind_bytes PrivateMapping (gs_mapped g) \<union> span v n\<rparr>)"
        using c(3) K s by (simp add: shows_map_def guest_map_of_def g'_def)
      then show ?thesis using run sub by auto
    qed
  qed
qed

text \<open>Calls of the host that change no map.\<close>

definition only_calls :: "guest_space \<Rightarrow> guest_space \<Rightarrow> bool" where
  "only_calls g g' \<longleftrightarrow> (\<exists>c. g' = g\<lparr>gs_backing := (gs_backing g)\<lparr>gb_calls := c\<rparr>\<rparr>)"

lemma only_calls_refl: "only_calls g g"
  unfolding only_calls_def by (intro exI [of _ "gb_calls (gs_backing g)"]) simp

lemma only_calls_step: "gs_call os g = (b, g1) \<Longrightarrow> only_calls g1 g' \<Longrightarrow> only_calls g g'"
  by (auto simp: only_calls_def gs_call_def os_call_def)

lemma only_calls_map:
  assumes "only_calls g g'" and "gs_inv g"
  shows "shows_map g g' (guest_map_of g)" and "gs_free g' = gs_free g" and "gs_mapped g' = gs_mapped g"
proof -
  obtain c where g': "g' = g\<lparr>gs_backing := (gs_backing g)\<lparr>gb_calls := c\<rparr>\<rparr>" using assms(1) by (auto simp: only_calls_def)
  show "shows_map g g' (guest_map_of g)" using assms(2) by (simp add: g' shows_map_def gs_inv_def guest_map_of_def reserved_bytes_def)
  show "gs_free g' = gs_free g" "gs_mapped g' = gs_mapped g" by (simp_all add: g')
qed

lemma gs_call_result: "fst (gs_call os g) = os (gb_calls (gs_backing g))"
  by (simp add: gs_call_def os_call_def)

lemma restore_placeholders_spec:
  "case restore_placeholders os regions g of None \<Rightarrow> \<exists>j. \<not> os j | Some g' \<Rightarrow> only_calls g g'"
proof (induction regions arbitrary: g)
  case (Cons r regions)
  obtain b g1 where c: "gs_call os g = (b, g1)" by fastforce
  show ?case
  proof (cases b)
    case True
    then show ?thesis using Cons.IH [of g1] c only_calls_step [OF c] by (auto split: option.splits)
  next
    case False
    then show ?thesis using c gs_call_result [of os g] by auto
  qed
qed (simp add: only_calls_refl)

lemma protect_calls_spec:
  "protect_calls os regions g = (b, g') \<Longrightarrow> only_calls g g' \<and> (b \<or> (\<exists>j. \<not> os j))"
proof (induction regions arbitrary: g)
  case (Cons r regions)
  obtain c g1 where c: "gs_call os g = (c, g1)" by fastforce
  show ?case
  proof (cases c)
    case True
    then show ?thesis using Cons.IH [of g1] Cons.prems c only_calls_step [OF c] by auto
  next
    case False
    then show ?thesis using c Cons.prems gs_call_result [of os g] only_calls_step [OF c only_calls_refl] by auto
  qed
qed (simp add: only_calls_refl)

lemma gs_release_committed_spec:
  assumes inv: "gs_inv g" and r: "range_ok v n"
  shows "if is_page_aligned v \<and> is_page_aligned n \<and> span v n \<subseteq> kind_bytes PrivateMapping (gs_mapped g)
    then case gs_release_committed os v n g of
        None \<Rightarrow> \<exists>j. \<not> os j
      | Some (b, g') \<Rightarrow> b \<and> shows_map g g' (guest_map_of g\<lparr>gm_free := free_bytes (gs_free g) \<union> span v n,
          gm_private := kind_bytes PrivateMapping (gs_mapped g) - span v n\<rparr>)
    else gs_release_committed os v n g = Some (False, g)"
proof -
  note I = gs_invD [OF inv]
  have n: "n \<noteq> 0" using r by (simp add: range_ok_def)
  note C = contains_mapped_iff [OF I(2) r, of PrivateMapping]
  show ?thesis
  proof (cases "is_page_aligned v \<and> is_page_aligned n \<and> span v n \<subseteq> kind_bytes PrivateMapping (gs_mapped g)")
    case False
    then show ?thesis using C by (auto simp: gs_release_committed_def)
  next
    case True
    then have ks: "span v n \<subseteq> kind_bytes PrivateMapping (gs_mapped g)" by simp
    note z = gs_inv_pos [OF inv r ks]
    obtain mapped where m: "remove_mapped_unlocked v n PrivateMapping (gs_mapped g) = Some (True, mapped)" "mapped_ok mapped"
        "\<And>j. kind_bytes j mapped = kind_bytes j (gs_mapped g) - span v n"
      using remove_mapped_spec [OF I(2) r, of PrivateMapping, unfolded if_P [OF ks]] by blast
    define rest where "rest = restore_placeholders os (region_parts v (v + n) (gs_mapped g)) g"
    have run: "gs_release_committed os v n g = rest \<bind> (\<lambda>g. remove_mapped_unlocked v n PrivateMapping (gs_mapped g) \<bind>
        (\<lambda>(removed, mapped). if \<not> removed then None
          else Some (True, g\<lparr>gs_mapped := mapped, gs_free := add_free_unlocked v n (gs_free g)\<rparr>)))"
      using True z n C by (simp add: gs_release_committed_def rest_def)
    show ?thesis
    proof (cases rest)
      case None
      then show ?thesis using restore_placeholders_spec [of os g "region_parts v (v + n) (gs_mapped g)"] run True by (simp add: rest_def)
    next
      case (Some g1)
      then have oc: "only_calls g g1" using restore_placeholders_spec [of os g "region_parts v (v + n) (gs_mapped g)"] by (simp add: rest_def)
      note same = only_calls_map [OF oc inv]
      have s: "bk_inv (gs_backing g1)" "views (gs_backing g1) = views (gs_backing g)" "same_store (gs_backing g) (gs_backing g1)" "gs_owned g1 = gs_owned g"
        using oc I(3) by (auto simp: only_calls_def)
      define g' where "g' = g1\<lparr>gs_mapped := mapped, gs_free := add_free_unlocked v n (gs_free g)\<rparr>"
      have res: "gs_release_committed os v n g = Some (True, g')" using Some m(1) same by (simp add: run g'_def)
      have other: "kind_bytes BackingMapping (gs_mapped g) \<inter> span v n = {}" using ks kinds_disjoint [OF I(2)] by blast
      have "fst ` views (gs_backing g') = fst ` views (gs_backing g) - span v n" using s(2) other I(7) by (auto simp: g'_def)
      then have "gs_inv g'" "free_bytes (gs_free g') = free_bytes (gs_free g) \<union> span v n"
        using released_range [OF inv r ks, of g'] m s by (simp_all add: g'_def)
      then have "shows_map g g' (guest_map_of g\<lparr>gm_free := free_bytes (gs_free g) \<union> span v n,
          gm_private := kind_bytes PrivateMapping (gs_mapped g) - span v n\<rparr>)"
        using s m(3) by (simp add: shows_map_def guest_map_of_def g'_def)
      then show ?thesis using res True by simp
    qed
  qed
qed

lemma gs_protect_spec:
  assumes "gs_inv g" and "gs_protect os v n g = (b, g')" and "range_ok v n"
  shows "shows_map g g' (guest_map_of g)" and "\<not> b \<Longrightarrow> \<exists>j. \<not> os j"
proof -
  have "protect_calls os (protect_parts v (v + n) (gs_mapped g)) g = (b, g')"
    using assms(2,3) by (simp add: gs_protect_def range_ok_def split: if_splits)
  from protect_calls_spec [OF this] show "shows_map g g' (guest_map_of g)" and "\<not> b \<Longrightarrow> \<exists>j. \<not> os j"
    using only_calls_map(1) [OF _ assms(1)] by auto
qed

section \<open>Histories\<close>

datatype gs_op =
    GsMap u64 u64 u64 vm_mode
  | GsUnmap u64 u64
  | GsCommit u64 u64
  | GsRelease u64 u64
  | GsProtect u64 u64

fun gs_step :: "(nat \<Rightarrow> bool) \<Rightarrow> gs_op \<Rightarrow> guest_space \<Rightarrow> (bool \<times> guest_space) option" where
  "gs_step os (GsMap v n off mode) g = map_option (\<lambda>(reason, g). (reason = FrNone, g)) (gs_map_backing os v n off mode g)"
| "gs_step os (GsUnmap v n) g = gs_unmap_backing os v n g"
| "gs_step os (GsCommit v n) g = gs_commit os v n g"
| "gs_step os (GsRelease v n) g = gs_release_committed os v n g"
| "gs_step os (GsProtect v n) g = Some (gs_protect os v n g)"

fun gs_run :: "(nat \<Rightarrow> bool) \<Rightarrow> gs_op list \<Rightarrow> guest_space \<Rightarrow> (bool list \<times> guest_space) option" where
  "gs_run os [] g = Some ([], g)"
| "gs_run os (x # xs) g = do { (b, g) \<leftarrow> gs_step os x g; (bs, g) \<leftarrow> gs_run os xs g; Some (b # bs, g) }"

text \<open>The specification: when an operation is possible, and what it does to the map. The callers pass ranges that are
  neither empty nor wrap around.\<close>

fun op_range :: "gs_op \<Rightarrow> u64 \<times> u64" where
  "op_range (GsMap v n off mode) = (v, n)"
| "op_range (GsUnmap v n) = (v, n)"
| "op_range (GsCommit v n) = (v, n)"
| "op_range (GsRelease v n) = (v, n)"
| "op_range (GsProtect v n) = (v, n)"

fun possible :: "u64 \<Rightarrow> gs_op \<Rightarrow> guest_map \<Rightarrow> bool" where
  "possible sz (GsMap v n off mode) M \<longleftrightarrow> span v n \<subseteq> gm_free M \<and> off + n \<le> sz"
| "possible sz (GsUnmap v n) M \<longleftrightarrow> span v n \<subseteq> fst ` gm_views M"
| "possible sz (GsCommit v n) M \<longleftrightarrow> span v n \<subseteq> gm_free M"
| "possible sz (GsRelease v n) M \<longleftrightarrow> is_page_aligned v \<and> is_page_aligned n \<and> span v n \<subseteq> gm_private M"
| "possible sz (GsProtect v n) M \<longleftrightarrow> True"

fun apply_op :: "gs_op \<Rightarrow> guest_map \<Rightarrow> guest_map" where
  "apply_op (GsMap v n off mode) M = M\<lparr>gm_free := gm_free M - span v n,
     gm_views := gm_views M \<union> (\<lambda>a. (a, off + (a - v), host_mode mode)) ` span v n\<rparr>"
| "apply_op (GsUnmap v n) M = M\<lparr>gm_free := gm_free M \<union> span v n, gm_views := {x \<in> gm_views M. fst x \<notin> span v n}\<rparr>"
| "apply_op (GsCommit v n) M = M\<lparr>gm_free := gm_free M - span v n, gm_private := gm_private M \<union> span v n\<rparr>"
| "apply_op (GsRelease v n) M = M\<lparr>gm_free := gm_free M \<union> span v n, gm_private := gm_private M - span v n\<rparr>"
| "apply_op (GsProtect v n) M = M"

text \<open>The results of a history and the map at its end. An operation is refused when it is not possible, and may be refused when
  the host fails (\<open>faulty\<close>); then it changes nothing.\<close>

fun gs_explained :: "bool \<Rightarrow> u64 \<Rightarrow> gs_op list \<Rightarrow> bool list \<Rightarrow> guest_map \<Rightarrow> guest_map \<Rightarrow> bool" where
  "gs_explained faulty sz [] bs M M' \<longleftrightarrow> bs = [] \<and> M' = M"
| "gs_explained faulty sz (x # xs) [] M M' \<longleftrightarrow> False"
| "gs_explained faulty sz (x # xs) (b # bs) M M' \<longleftrightarrow>
     (if b then possible sz x M \<and> gs_explained faulty sz xs bs (apply_op x M) M'
      else (faulty \<or> \<not> possible sz x M) \<and> gs_explained faulty sz xs bs M M')"

lemma gs_step_spec:
  assumes inv: "gs_inv g" and r: "range_ok (fst (op_range x)) (snd (op_range x))"
  shows "case gs_step os x g of
      None \<Rightarrow> \<exists>j. \<not> os j
    | Some (b, g') \<Rightarrow>
        if b then possible (gb_size (gs_backing g)) x (guest_map_of g) \<and> shows_map g g' (apply_op x (guest_map_of g))
        else shows_map g g' (guest_map_of g) \<and> ((\<exists>j. \<not> os j) \<or> \<not> possible (gb_size (gs_backing g)) x (guest_map_of g))"
proof (cases x)
  case (GsMap v n off mode)
  have r': "range_ok v n" using r GsMap by simp
  note S = gs_map_backing_spec [OF inv r', of off os mode]
  show ?thesis
  proof (cases "span v n \<subseteq> free_bytes (gs_free g) \<and> off + n \<le> gb_size (gs_backing g)")
    case True
    from S [unfolded if_P [OF True]] obtain reason g' where R: "gs_map_backing os v n off mode g = Some (reason, g')"
      "if reason = FrNone
       then shows_map g g' (guest_map_of g\<lparr>gm_free := free_bytes (gs_free g) - span v n,
         gm_views := views (gs_backing g) \<union> (\<lambda>a. (a, off + (a - v), host_mode mode)) ` span v n\<rparr>)
       else shows_map g g' (guest_map_of g) \<and> (\<exists>j. \<not> os j)" by blast
    then show ?thesis using True by (cases "reason = FrNone") (simp_all add: GsMap guest_map_of_def)
  next
    case False
    from S [unfolded if_not_P [OF False]] obtain reason where "gs_map_backing os v n off mode g = Some (reason, g)" "reason \<noteq> FrNone" by blast
    then show ?thesis using False shows_map_same [OF inv] by (auto simp: GsMap guest_map_of_def)
  qed
next
  case (GsUnmap v n)
  have r': "range_ok v n" using r GsUnmap by simp
  note S = gs_unmap_backing_spec [OF inv r', of os]
  show ?thesis
  proof (cases "span v n \<subseteq> fst ` views (gs_backing g)")
    case True
    from S [unfolded if_P [OF True]] show ?thesis using True
      by (cases "gs_unmap_backing os v n g") (auto simp: GsUnmap guest_map_of_def)
  next
    case False
    from S [unfolded if_not_P [OF False]] show ?thesis using False shows_map_same [OF inv] by (simp add: GsUnmap guest_map_of_def)
  qed
next
  case (GsCommit v n)
  have r': "range_ok v n" using r GsCommit by simp
  note S = gs_commit_spec [OF inv r', of os]
  show ?thesis
  proof (cases "span v n \<subseteq> free_bytes (gs_free g)")
    case True
    from S [unfolded if_P [OF True]] show ?thesis using True by (auto simp: GsCommit guest_map_of_def)
  next
    case False
    from S [unfolded if_not_P [OF False]] show ?thesis using False shows_map_same [OF inv] by (simp add: GsCommit guest_map_of_def)
  qed
next
  case (GsRelease v n)
  have r': "range_ok v n" using r GsRelease by simp
  note S = gs_release_committed_spec [OF inv r', of os]
  show ?thesis
  proof (cases "is_page_aligned v \<and> is_page_aligned n \<and> span v n \<subseteq> kind_bytes PrivateMapping (gs_mapped g)")
    case True
    from S [unfolded if_P [OF True]] show ?thesis using True
      by (cases "gs_release_committed os v n g") (auto simp: GsRelease guest_map_of_def)
  next
    case False
    from S [unfolded if_not_P [OF False]] show ?thesis using False shows_map_same [OF inv] by (simp add: GsRelease guest_map_of_def)
  qed
next
  case (GsProtect v n)
  have r': "range_ok v n" using r GsProtect by simp
  obtain b g' where p: "gs_protect os v n g = (b, g')" by fastforce
  show ?thesis using gs_protect_spec [OF inv p r'] p by (cases b) (simp_all add: GsProtect)
qed

lemma gs_run_spec:
  assumes "gs_inv g" and "list_all (\<lambda>x. range_ok (fst (op_range x)) (snd (op_range x))) xs" and "gb_size (gs_backing g) = sz"
  shows "case gs_run os xs g of
      None \<Rightarrow> \<exists>j. \<not> os j
    | Some (bs, g') \<Rightarrow> gs_inv g' \<and> gs_explained (\<exists>j. \<not> os j) sz xs bs (guest_map_of g) (guest_map_of g') \<and>
        reserved_bytes g' = reserved_bytes g \<and> same_store (gs_backing g) (gs_backing g')"
  using assms
proof (induction xs arbitrary: g)
  case (Cons x xs)
  have r: "range_ok (fst (op_range x)) (snd (op_range x))" using Cons.prems(2) by simp
  note S = gs_step_spec [OF Cons.prems(1) r, of os]
  show ?case
  proof (cases "gs_step os x g")
    case None
    then show ?thesis using S by simp
  next
    case (Some y)
    obtain b g1 where y: "y = (b, g1)" by fastforce
    obtain M where M: "shows_map g g1 M" "if b then possible sz x (guest_map_of g) \<and> M = apply_op x (guest_map_of g)
        else M = guest_map_of g \<and> ((\<exists>j. \<not> os j) \<or> \<not> possible sz x (guest_map_of g))"
      using S Cons.prems(3) by (cases b) (simp_all add: Some y)
    have g1: "gs_inv g1" "guest_map_of g1 = M" "reserved_bytes g1 = reserved_bytes g" "same_store (gs_backing g) (gs_backing g1)"
      using M(1) by (simp_all add: shows_map_def reserved_bytes_def)
    have sz: "gb_size (gs_backing g1) = sz" using g1(4) Cons.prems(3) by (simp add: same_store_def)
    have "list_all (\<lambda>x. range_ok (fst (op_range x)) (snd (op_range x))) xs" using Cons.prems(2) by simp
    note IH = Cons.IH [OF g1(1) this sz]
    show ?thesis
    proof (cases "gs_run os xs g1")
      case None
      then show ?thesis using IH by (simp add: Some y)
    next
      case (Some z)
      obtain bs g' where z: "z = (bs, g')" by fastforce
      have "gs_explained (\<exists>j. \<not> os j) sz (x # xs) (b # bs) (guest_map_of g) (guest_map_of g')"
        using IH M(2) by (cases b) (simp_all add: Some z g1(2))
      then show ?thesis using IH g1(3) same_store_trans [OF g1(4)] by (simp add: Some z \<open>gs_step os x g = Some y\<close> y)
    qed
  qed
qed simp

end
