(* ===== verification/Guest_Space_Regions.thy ===== *)
theory Guest_Space_Regions
  imports Guest_Space_History
begin

text \<open>
  Where \<open>GuestAddressSpace\<close> finds addresses: the regions it reserves from the host at the start, and the first fit of its searches
  for free addresses.
\<close>

section \<open>The gaps between the mappings of the host\<close>

text \<open>What the kernel lists: mappings that are not empty, in address order.\<close>

definition host_list :: "(u64 \<times> u64) list \<Rightarrow> bool" where
  "host_list occupied \<longleftrightarrow> sorted_wrt (\<lambda>p q. fst p \<le> fst q) occupied \<and> (\<forall>p \<in> set occupied. fst p < snd p)"

lemma region_gaps_above: "p \<in> set (region_gaps c e occ) \<Longrightarrow> c \<le> fst p \<and> fst p < snd p \<and> snd p \<le> e"
proof (induction c e occ rule: region_gaps.induct)
  case (2 c e ms me occ)
  show ?case
  proof (cases "me \<le> c \<or> ms \<ge> e \<or> max c me \<ge> e")
    case True
    then show ?thesis using 2 by (auto simp: Let_def split: if_splits)
  next
    case False
    then consider "ms > c" "p = (c, min ms e)" | "p \<in> set (region_gaps (max c me) e occ)" using "2.prems" by (auto simp: Let_def split: if_splits)
    then show ?thesis
    proof cases
      case 2
      then have "max c me \<le> fst p \<and> fst p < snd p \<and> snd p \<le> e" using "2.IH"(2) [OF _ _ refl refl] False by (auto simp: max_def split: if_splits)
      then show ?thesis by simp
    qed (use False in auto)
  qed
qed (auto split: if_splits)

lemma region_gaps_exact:
  assumes "host_list occ"
  shows "apart (region_gaps c e occ) \<and> bytes_of (region_gaps c e occ) = {c..<e} - bytes_of occ"
  using assms
proof (induction c e occ rule: region_gaps.induct)
  case (2 c e ms me occ)
  have h: "host_list occ" "ms < me" "\<And>p. p \<in> set occ \<Longrightarrow> ms \<le> fst p" using 2(3) by (auto simp: host_list_def)
  have later: "x \<in> bytes_of occ \<Longrightarrow> ms \<le> x" for x using h(3) by (fastforce simp: bytes_of_iff)
  show ?case
  proof (cases "me \<le> c")
    case True
    then show ?thesis using "2.IH"(1) [OF True h(1)] by auto
  next
    case c: False
    show ?thesis
    proof (cases "ms \<ge> e")
      case True
      then show ?thesis using c later by force
    next
      case e: False
      define d where "d = max c me"
      define gap where "gap = (if ms > c then [(c, ms)] else [])"
      have gap: "apart gap" "bytes_of gap = {c..<ms}" by (auto simp: gap_def)
      show ?thesis
      proof (cases "d \<ge> e")
        case True
        then have eq: "region_gaps c e ((ms, me) # occ) = gap" using c e by (simp add: d_def gap_def Let_def min_def)
        have diff: "{c..<e} - bytes_of ((ms, me) # occ) = {c..<ms}" using True c e later by (force simp: d_def)
        show ?thesis unfolding eq diff using gap by simp
      next
        case False
        then have eq: "region_gaps c e ((ms, me) # occ) = gap @ region_gaps d e occ" using c e by (simp add: d_def gap_def Let_def min_def)
        have IH: "apart (region_gaps d e occ)" "bytes_of (region_gaps d e occ) = {d..<e} - bytes_of occ"
          using "2.IH"(2) [OF c e refl refl _ h(1)] False by (simp_all add: d_def gap_def)
        have "snd p < fst q" if "p \<in> set gap" "q \<in> set (region_gaps d e occ)" for p q
          using that region_gaps_above [OF that(2)] h(2) by (auto simp: gap_def d_def split: if_splits)
        then have "apart (gap @ region_gaps d e occ)" using gap(1) IH(1) by simp
        moreover have diff: "{c..<e} - bytes_of ((ms, me) # occ) = {c..<ms} \<union> ({d..<e} - bytes_of occ)" using c e False later h(2) by (force simp: d_def)
        ultimately show ?thesis unfolding eq diff using gap(2) IH(2) by simp
      qed
    qed
  qed
qed simp

section \<open>The reservation\<close>

text \<open>The whole pages of a gap.\<close>

definition whole_pages :: "u64 \<times> u64 \<Rightarrow> nat set" where
  "whole_pages r = {align_up (fst r) GUEST_PAGE_SIZE..<gs_align_down (snd r) GUEST_PAGE_SIZE}"

lemma gs_align_up_eq: "0 < k \<Longrightarrow> v \<le> U64_MAX \<Longrightarrow> gs_align_up v k = (if align_up v k \<le> U64_MAX then align_up v k else 0)"
  by (auto simp: gs_align_up_def align_up_def Let_def)

lemma gs_align_down_le: "gs_align_down v k \<le> v"
  by (simp add: gs_align_down_def)

lemma gs_align_down_dvd: "k dvd gs_align_down v k"
  by (simp add: gs_align_down_def minus_mod_eq_mult_div)

lemma gs_align_down_greatest: "0 < k \<Longrightarrow> k dvd x \<Longrightarrow> x \<le> v \<Longrightarrow> x \<le> gs_align_down v k"
  unfolding gs_align_down_def minus_mod_eq_mult_div by (auto simp: less_eq_div_iff_mult_less_eq mult.commute)

lemma page_size_pos [simp]: "0 < GUEST_PAGE_SIZE"
  by (simp add: GUEST_PAGE_SIZE_def)

lemma whole_pages_sub: "whole_pages r \<subseteq> {fst r..<snd r}"
  using align_up_ge [of "fst r" GUEST_PAGE_SIZE] gs_align_down_le [of "snd r" GUEST_PAGE_SIZE] by (auto simp: whole_pages_def)

lemma whole_page_in:
  assumes "GUEST_PAGE_SIZE dvd p" and "fst r \<le> p" and "p + GUEST_PAGE_SIZE \<le> snd r"
  shows "span p GUEST_PAGE_SIZE \<subseteq> whole_pages r"
proof -
  have "align_up (fst r) GUEST_PAGE_SIZE \<le> p" by (rule align_up_least) (use assms in simp_all)
  moreover have "p + GUEST_PAGE_SIZE \<le> gs_align_down (snd r) GUEST_PAGE_SIZE" by (rule gs_align_down_greatest) (use assms in simp_all)
  ultimately show ?thesis by (auto simp: whole_pages_def span_iff)
qed

text \<open>What a reservation leaves alone, and the ranges it may add.\<close>

definition page_range :: "u64 \<times> u64 \<Rightarrow> bool" where
  "page_range r \<longleftrightarrow> is_page_aligned (fst r) \<and> is_page_aligned (snd r) \<and> 0 < snd r"

lemma reserve_range_spec:
  assumes inv: "gs_inv g" and p: "0 < fst r" "fst r < snd r" "snd r \<le> U64_MAX" and d: "{fst r..<snd r} \<inter> reserved_bytes g = {}"
  obtains g' where "reserve_range os r g = g'" and "gs_inv g'" and "gs_mapped g' = gs_mapped g" and "list_all page_range (gs_owned g) \<longrightarrow> list_all page_range (gs_owned g')"
    and "reserved_bytes g' = reserved_bytes g \<or> reserved_bytes g' = reserved_bytes g \<union> whole_pages r" and "(\<forall>j. os j) \<longrightarrow> reserved_bytes g' = reserved_bytes g \<union> whole_pages r"
    and "views (gs_backing g') = views (gs_backing g)" and "same_store (gs_backing g) (gs_backing g')"
proof -
  define a e where "a = align_up (fst r) GUEST_PAGE_SIZE" and "e = gs_align_down (snd r) GUEST_PAGE_SIZE"
  have w: "whole_pages r = {a..<e}" by (simp add: whole_pages_def a_def e_def)
  have a: "fst r \<le> a" by (simp add: a_def align_up_ge)
  have e: "e \<le> U64_MAX" using gs_align_down_le [of "snd r" GUEST_PAGE_SIZE] p(3) by (simp add: e_def)
  have up: "gs_align_up (fst r) GUEST_PAGE_SIZE = (if a \<le> U64_MAX then a else 0)"
    unfolding a_def using p by (intro gs_align_up_eq) simp_all
  show thesis
  proof (cases "a < e")
    case False
    then have "reserve_range os r g = g" using up e by (auto simp: reserve_range_def Let_def e_def [symmetric])
    then show thesis by (rule that) (use inv False w in simp_all)
  next
    case True
    obtain b g1 where c: "gs_call os g = (b, g1)" by fastforce
    have oc: "only_calls g g1" using only_calls_step [OF c only_calls_refl] .
    have g1: "gs_inv g1" "gs_free g1 = gs_free g" "gs_mapped g1 = gs_mapped g" "gs_owned g1 = gs_owned g"
      "views (gs_backing g1) = views (gs_backing g)" "same_store (gs_backing g) (gs_backing g1)"
      using only_calls_map [OF oc inv] by (simp_all add: shows_map_def guest_map_of_def)
    then have o1: "reserved_bytes g1 = reserved_bytes g" by (simp add: reserved_bytes_def)
    have run: "reserve_range os r g = (if b then g1\<lparr>gs_free := add_free_unlocked a (e - a) (gs_free g), gs_owned := gs_owned g @ [(a, e - a)]\<rparr> else g1)"
      using up e True a p(1) c g1 by (simp add: reserve_range_def Let_def e_def [symmetric])
    show thesis
    proof (cases b)
      case False
      then have "\<not> os (gb_calls (gs_backing g))" using c gs_call_result [of os g] by simp
      then show thesis using that [of g1] run False g1 o1 by auto
    next
      case b: True
      define g' where "g' = g1\<lparr>gs_free := add_free_unlocked a (e - a) (gs_free g), gs_owned := gs_owned g @ [(a, e - a)]\<rparr>"
      note I = gs_invD [OF inv]
      have sp: "span a (e - a) = {a..<e}" using True by (auto simp: span_iff)
      have dj: "span a (e - a) \<inter> reserved_bytes g = {}" using whole_pages_sub [of r] d w sp by blast
      then have "span a (e - a) \<inter> free_bytes (gs_free g) = {}" using I(5) by blast
      note A = add_free_spec [OF I(1) _ _ this]
      have r: "range_ok a (e - a)" using True e by (auto simp: range_ok_def)
      have z: "a \<noteq> 0" using a p(1) by simp
      have own: "reserved_bytes g' = reserved_bytes g \<union> {a..<e}" using sp by (auto simp: reserved_bytes_def g'_def)
      have fb: "free_bytes (gs_free g') = free_bytes (gs_free g) \<union> {a..<e}" using A(2) [OF r z] sp by (simp add: g'_def)
      have "gs_inv g'"
      proof -
        have "free_bytes (gs_free g') \<inter> all_mapped (gs_mapped g') = {}" using I(4) I(5) dj sp g1(3) unfolding fb by (auto simp: g'_def)
        moreover have "free_bytes (gs_free g') \<union> all_mapped (gs_mapped g') = reserved_bytes g'" unfolding fb own I(5) [symmetric] using g1(3) by (simp add: g'_def Un_ac)
        moreover have "0 \<notin> reserved_bytes g'" unfolding own using I(6) z by simp
        moreover have "free_inv (gs_free g')" using A(1) [OF r z] by (simp add: g'_def)
        ultimately show ?thesis using I g1 gs_invD(3) [OF g1(1)] by (simp add: gs_inv_def g'_def)
      qed
      moreover have "page_range (a, e - a)"
        using align_up_dvd [of GUEST_PAGE_SIZE "fst r"] gs_align_down_dvd [of GUEST_PAGE_SIZE "snd r"] True
        by (simp add: page_range_def is_page_aligned_def a_def e_def mod_eq_0_iff_dvd dvd_diff_nat)
      ultimately show thesis using that [of g'] run b g1 own w by (simp add: g'_def)
    qed
  qed
qed

lemma reserve_gaps_spec:
  assumes "gs_inv g" and "list_all page_range (gs_owned g)"
    and "\<forall>r \<in> set gaps. 0 < fst r \<and> fst r < snd r \<and> snd r \<le> U64_MAX" and "sorted_wrt (\<lambda>p q. snd p \<le> fst q) gaps"
    and "bytes_of gaps \<inter> reserved_bytes g = {}"
  shows "\<exists>g'. fold (reserve_range os) gaps g = g' \<and> gs_inv g' \<and> gs_mapped g' = gs_mapped g \<and> list_all page_range (gs_owned g') \<and>
    reserved_bytes g' \<subseteq> reserved_bytes g \<union> bytes_of gaps \<and> ((\<forall>j. os j) \<longrightarrow> reserved_bytes g' = reserved_bytes g \<union> (\<Union>r \<in> set gaps. whole_pages r)) \<and>
    views (gs_backing g') = views (gs_backing g) \<and> same_store (gs_backing g) (gs_backing g')"
  using assms
proof (induction gaps arbitrary: g)
  case (Cons r gaps)
  have r: "0 < fst r" "fst r < snd r" "snd r \<le> U64_MAX" "{fst r..<snd r} \<inter> reserved_bytes g = {}" using Cons.prems by auto
  obtain g1 where g1: "reserve_range os r g = g1" "gs_inv g1" "gs_mapped g1 = gs_mapped g" "list_all page_range (gs_owned g) \<longrightarrow> list_all page_range (gs_owned g1)"
    "reserved_bytes g1 = reserved_bytes g \<or> reserved_bytes g1 = reserved_bytes g \<union> whole_pages r" "(\<forall>j. os j) \<longrightarrow> reserved_bytes g1 = reserved_bytes g \<union> whole_pages r"
    "views (gs_backing g1) = views (gs_backing g)" "same_store (gs_backing g) (gs_backing g1)"
    by (rule reserve_range_spec [OF Cons.prems(1) r, where os = os])
  have sub: "reserved_bytes g1 \<subseteq> reserved_bytes g \<union> {fst r..<snd r}" using g1(5) whole_pages_sub [of r] by blast
  have "{fst r..<snd r} \<inter> bytes_of gaps = {}" using Cons.prems(4) by (fastforce simp: bytes_of_iff)
  moreover have "bytes_of gaps \<inter> reserved_bytes g = {}" using Cons.prems(5) by auto
  ultimately have "bytes_of gaps \<inter> reserved_bytes g1 = {}" using sub by blast
  from Cons.IH [OF g1(2) mp [OF g1(4) Cons.prems(2)] _ _ this] Cons.prems(3,4) obtain g' where
    g': "fold (reserve_range os) gaps g1 = g'" "gs_inv g'" "gs_mapped g' = gs_mapped g1" "list_all page_range (gs_owned g')"
      "reserved_bytes g' \<subseteq> reserved_bytes g1 \<union> bytes_of gaps" "(\<forall>j. os j) \<longrightarrow> reserved_bytes g' = reserved_bytes g1 \<union> (\<Union>r \<in> set gaps. whole_pages r)"
      "views (gs_backing g') = views (gs_backing g1)" "same_store (gs_backing g1) (gs_backing g')" by auto
  have "reserved_bytes g' \<subseteq> reserved_bytes g \<union> bytes_of (r # gaps)" using g'(5) sub by auto
  moreover have "(\<forall>j. os j) \<longrightarrow> reserved_bytes g' = reserved_bytes g \<union> (\<Union>r \<in> set (r # gaps). whole_pages r)"
    using g'(6) g1(6) by (simp add: Un_assoc)
  ultimately show ?case using g' g1(1,3,7) same_store_trans [OF g1(8) g'(8)] by simp
qed simp

text \<open>All gaps of the three regions.\<close>

definition guest_gaps :: "(u64 \<times> u64) list \<Rightarrow> (u64 \<times> u64) list" where
  "guest_gaps occ = concat (map (\<lambda>r. region_gaps (fst r) (snd r) occ) guest_regions)"

lemma apart_sorted: "apart xs \<Longrightarrow> sorted_wrt (\<lambda>p q. snd p \<le> fst q) xs"
  by (auto simp: apart_def intro: sorted_wrt_mono_rel [of xs "\<lambda>p q. snd p < fst q"])

lemmas region_bounds = HOST_SYSTEM_MANAGED_MIN_def HOST_SYSTEM_MANAGED_MAX_def HOST_SYSTEM_RESERVED_MIN_def HOST_SYSTEM_RESERVED_MAX_def
  HOST_USER_MIN_def HOST_USER_MAX_def

lemma guest_gaps_spec:
  assumes "host_list occ"
  shows "bytes_of (guest_gaps occ) = bytes_of guest_regions - bytes_of occ" and "sorted_wrt (\<lambda>p q. snd p \<le> fst q) (guest_gaps occ)"
    and "\<forall>r \<in> set (guest_gaps occ). 0 < fst r \<and> fst r < snd r \<and> snd r \<le> U64_MAX"
proof -
  note X = region_gaps_exact [OF assms]
  have b: "bytes_of (region_gaps c e occ) = {c..<e} - bytes_of occ" for c e using X by simp
  show "bytes_of (guest_gaps occ) = bytes_of guest_regions - bytes_of occ" by (simp add: guest_gaps_def guest_regions_def b Un_Diff)
  have s: "sorted_wrt (\<lambda>p q. snd p \<le> fst q) (region_gaps c e occ)" for c e using X by (simp add: apart_sorted)
  have "snd p \<le> fst q" if "p \<in> set (region_gaps c e occ)" "q \<in> set (region_gaps d f occ)" "e \<le> d" for p q c d e f
    using region_gaps_above [OF that(1)] region_gaps_above [OF that(2)] that(3) by simp
  note across = this
  show "sorted_wrt (\<lambda>p q. snd p \<le> fst q) (guest_gaps occ)"
    by (auto simp: guest_gaps_def guest_regions_def sorted_wrt_append s intro!: across) (simp_all add: region_bounds)
  show "\<forall>r \<in> set (guest_gaps occ). 0 < fst r \<and> fst r < snd r \<and> snd r \<le> U64_MAX"
    by (auto simp: guest_gaps_def guest_regions_def region_bounds U64_MAX_def dest!: region_gaps_above)
qed

lemma whole_page_reserved:
  assumes "host_list occ" and r: "r \<in> set guest_regions" and p: "GUEST_PAGE_SIZE dvd p" "span p GUEST_PAGE_SIZE \<subseteq> {fst r..<snd r} - bytes_of occ"
  shows "\<exists>q \<in> set (guest_gaps occ). span p GUEST_PAGE_SIZE \<subseteq> whole_pages q"
proof -
  have X: "apart (region_gaps (fst r) (snd r) occ)" "bytes_of (region_gaps (fst r) (snd r) occ) = {fst r..<snd r} - bytes_of occ"
    using region_gaps_exact [OF assms(1), of "fst r" "snd r"] by simp_all
  have "{p..<p + GUEST_PAGE_SIZE} \<subseteq> bytes_of (region_gaps (fst r) (snd r) occ)" unfolding X(2) using p(2) by (simp add: span_def)
  then obtain q where q: "q \<in> set (region_gaps (fst r) (snd r) occ)" "fst q \<le> p" "p + GUEST_PAGE_SIZE \<le> snd q"
    using apart_contains_one [OF X(1), of p "p + GUEST_PAGE_SIZE"] by auto
  have "q \<in> set (guest_gaps occ)" using q(1) r by (auto simp: guest_gaps_def)
  with whole_page_in [OF p(1) q(2,3)] show ?thesis by blast
qed

text \<open>The space before the reservation.\<close>

definition fresh_space :: "guest_space \<Rightarrow> bool" where
  "fresh_space g \<longleftrightarrow> gs_free g = [] \<and> gs_mapped g = [] \<and> gs_owned g = [] \<and> bk_inv (gs_backing g) \<and> gb_maps (gs_backing g) = []"

lemma fresh_space_inv:
  assumes "fresh_space g"
  shows "gs_inv g" and "reserved_bytes g = {}"
proof -
  show "reserved_bytes g = {}" using assms by (simp add: fresh_space_def reserved_bytes_def)
  then show "gs_inv g" using assms
    by (simp add: fresh_space_def gs_inv_def views_def free_inv_def mapped_ok_def free_bytes_def kind_bytes_def)
qed

lemma reserve_guest_regions_spec:
  assumes occ: "host_list occ" and f: "fresh_space g"
  obtains g' where "reserve_guest_regions os occ g = g'" and "gs_inv g'" and "gs_mapped g' = []" and "list_all page_range (gs_owned g')"
    and "reserved_bytes g' \<subseteq> bytes_of guest_regions - bytes_of occ"
    and "(\<forall>j. os j) \<longrightarrow> reserved_bytes g' = (\<Union>r \<in> set (guest_gaps occ). whole_pages r)"
    and "views (gs_backing g') = {}" and "same_store (gs_backing g) (gs_backing g')"
proof -
  note I = fresh_space_inv [OF f] and G = guest_gaps_spec [OF occ]
  have m: "gs_mapped g = []" "list_all page_range (gs_owned g)" "views (gs_backing g) = {}" using f by (simp_all add: fresh_space_def views_def)
  have "bytes_of (guest_gaps occ) \<inter> reserved_bytes g = {}" using I(2) by simp
  from reserve_gaps_spec [OF I(1) m(2) G(3,2) this, of os, unfolded I(2) m(1,3) G(1) Un_empty_left]
  obtain g' where "fold (reserve_range os) (guest_gaps occ) g = g'" "gs_inv g'" "gs_mapped g' = []" "list_all page_range (gs_owned g')"
    "reserved_bytes g' \<subseteq> bytes_of guest_regions - bytes_of occ" "(\<forall>j. os j) \<longrightarrow> reserved_bytes g' = (\<Union>r \<in> set (guest_gaps occ). whole_pages r)"
    "views (gs_backing g') = {}" "same_store (gs_backing g) (gs_backing g')" by blast
  then show thesis using that [of g'] by (simp add: reserve_guest_regions_def guest_gaps_def)
qed

section \<open>The searches\<close>

text \<open>The places a search may return, and that it returns the lowest.\<close>

definition fits :: "free_list \<Rightarrow> u64 \<Rightarrow> u64 \<Rightarrow> u64 \<Rightarrow> u64 \<Rightarrow> u64 \<Rightarrow> bool" where
  "fits m lo hi n al x \<longleftrightarrow> lo \<le> x \<and> x + n \<le> hi \<and> al dvd x \<and> span x n \<subseteq> free_bytes m"

definition lowest_fit :: "free_list \<Rightarrow> u64 \<Rightarrow> u64 \<Rightarrow> u64 \<Rightarrow> u64 \<Rightarrow> u64 \<Rightarrow> bool" where
  "lowest_fit m lo hi n al x \<longleftrightarrow> (if x = 0 then (\<forall>y. \<not> fits m lo hi n al y) else fits m lo hi n al x \<and> (\<forall>y. fits m lo hi n al y \<longrightarrow> x \<le> y))"

definition block_fits :: "u64 \<times> u64 \<Rightarrow> u64 \<Rightarrow> u64 \<Rightarrow> u64 \<Rightarrow> u64 \<Rightarrow> u64 \<Rightarrow> bool" where
  "block_fits r lo hi n al x \<longleftrightarrow> lo \<le> x \<and> x + n \<le> hi \<and> al dvd x \<and> fst r \<le> x \<and> x + n \<le> fst r + snd r"

lemma free_aligned_search_spec:
  assumes "free_inv m" and "0 \<notin> fst ` set m" and "0 < al" and "0 < n" and "hi \<le> U64_MAX" and "lo \<le> U64_MAX"
  shows "if free_aligned_search lo hi n al m = 0 then \<forall>r \<in> set m. \<forall>y. \<not> block_fits r lo hi n al y
    else (\<exists>r \<in> set m. block_fits r lo hi n al (free_aligned_search lo hi n al m)) \<and>
      (\<forall>r \<in> set m. \<forall>y. block_fits r lo hi n al y \<longrightarrow> free_aligned_search lo hi n al m \<le> y)"
  using assms(1,2)
proof (induction m)
  case (Cons r m)
  obtain b k where r: "r = (b, k)" by fastforce
  have bk: "0 < b" "0 < k" "b + k \<le> U64_MAX" using Cons.prems free_inv_range [OF Cons.prems(1), of r] by (auto simp: r range_ok_def)
  have m: "free_inv m" "0 \<notin> fst ` set m" and beyond: "\<And>q. q \<in> set m \<Longrightarrow> b + k < fst q" using Cons.prems by (auto simp: r free_inv_def set_ivals_of)
  note IH = Cons.IH [OF m]
  define c where "c = align_up (max b lo) al"
  have c: "b \<le> c" "lo \<le> c" "al dvd c" "0 < c" using align_up_ge [of "max b lo" al] align_up_dvd [OF assms(3)] bk(1) by (auto simp: c_def)
  have low: "c \<le> y" if "block_fits r lo hi n al y" for y
    unfolding c_def by (rule align_up_least) (use that in \<open>auto simp: block_fits_def r\<close>)
  define c' where "c' = gs_align_up (max b lo) al"
  have c': "c' = (if c \<le> U64_MAX then c else 0)" unfolding c'_def c_def using assms bk by (intro gs_align_up_eq) auto
  have test: "c' < hi \<and> n \<le> hi - c' \<and> guest_free_range_contains b k c' n \<longleftrightarrow> block_fits r lo hi n al c"
    using c c' bk assms(4,5) by (auto simp: guest_free_range_contains_def block_fits_def r Let_def)
  show ?case
  proof (cases "block_fits r lo hi n al c")
    case True
    then have "c \<le> U64_MAX" using bk(3) by (simp add: block_fits_def r)
    then have s: "free_aligned_search lo hi n al (r # m) = c" using test True c' by (simp add: r c'_def [symmetric] Let_def)
    have "c \<le> y" if "q \<in> set m" "block_fits q lo hi n al y" for q y
      using beyond [OF that(1)] that(2) True by (simp add: block_fits_def r)
    then show ?thesis unfolding s using True c(4) low by auto
  next
    case False
    then have s: "free_aligned_search lo hi n al (r # m) = free_aligned_search lo hi n al m"
      using test by (auto simp: r c'_def [symmetric] Let_def)
    have "\<not> block_fits r lo hi n al y" for y
    proof
      assume y: "block_fits r lo hi n al y"
      then have "c \<le> y" by (rule low)
      then show False using y False c by (auto simp: block_fits_def r)
    qed
    then show ?thesis unfolding s using IH by (auto split: if_splits)
  qed
qed simp

lemma fits_block:
  assumes "free_inv m" and "0 < n"
  shows "fits m lo hi n al x \<longleftrightarrow> (\<exists>r \<in> set m. block_fits r lo hi n al x)"
proof
  assume f: "fits m lo hi n al x"
  then obtain r where "r \<in> set m" "fst r \<le> x" "x + n \<le> fst r + snd r" using free_contains_one [OF assms, of x] by (auto simp: fits_def)
  then show "\<exists>r \<in> set m. block_fits r lo hi n al x" using f by (auto simp: block_fits_def fits_def)
next
  assume "\<exists>r \<in> set m. block_fits r lo hi n al x"
  then obtain r where r: "r \<in> set m" "block_fits r lo hi n al x" by blast
  then have "span x n \<subseteq> span (fst r) (snd r)" by (auto simp: block_fits_def span_iff)
  then have "span x n \<subseteq> free_bytes m" using r(1) unfolding subset_iff free_bytes_iff by blast
  then show "fits m lo hi n al x" using r(2) by (simp add: fits_def block_fits_def)
qed

lemma find_free_aligned_spec:
  assumes inv: "gs_inv g" and "0 < al" and n: "0 < n" and "hi \<le> U64_MAX" and "lo \<le> U64_MAX"
  shows "lowest_fit (gs_free g) lo hi n al (find_free_aligned_unlocked lo hi n al (gs_free g))"
proof -
  note I = gs_invD(1) [OF inv]
  have nz: "0 \<notin> fst ` set (gs_free g)"
  proof
    assume "0 \<in> fst ` set (gs_free g)"
    then obtain r where r: "r \<in> set (gs_free g)" "fst r = 0" by auto
    then have "0 \<in> free_bytes (gs_free g)" using free_inv_range [OF I r(1)] by (auto simp: free_bytes_iff span_iff range_ok_def intro!: bexI [of _ r])
    then show False using gs_inv_zero(1) [OF inv] by simp
  qed
  note S = free_aligned_search_spec [OF I nz assms(2,3,4,5)] and F = fits_block [OF I n]
  show ?thesis
  proof (cases "lo \<ge> hi \<or> n > hi - lo")
    case True
    then have "\<not> fits (gs_free g) lo hi n al y" for y using n by (auto simp: fits_def)
    then show ?thesis using True by (simp add: find_free_aligned_unlocked_def lowest_fit_def)
  next
    case False
    then have eq: "find_free_aligned_unlocked lo hi n al (gs_free g) = free_aligned_search lo hi n al (gs_free g)"
      unfolding find_free_aligned_unlocked_def by (simp only: if_False)
    show ?thesis using S unfolding eq lowest_fit_def F by (cases "free_aligned_search lo hi n al (gs_free g) = 0") (simp_all, blast+)
  qed
qed

section \<open>The properties\<close>

text \<open>C12: Before the first guest call \<open>GuestAddressSpace\<close> reserves memory of the guest regions only, and none that the process
  already uses. The reserved ranges consist of whole pages. If the host grants what it is asked for, every page of a region that
  touches no mapping of the process is reserved.\<close>

theorem reserve_guest_regions_safe:
  assumes occ: "host_list occ" and f: "fresh_space g"
  shows "reserved_bytes (reserve_guest_regions os occ g) \<subseteq> bytes_of guest_regions - bytes_of occ \<and>
    list_all page_range (gs_owned (reserve_guest_regions os occ g)) \<and>
    free_bytes (gs_free (reserve_guest_regions os occ g)) = reserved_bytes (reserve_guest_regions os occ g) \<and>
    ((\<forall>j. os j) \<longrightarrow> (\<forall>r \<in> set guest_regions. \<forall>p. GUEST_PAGE_SIZE dvd p \<and> span p GUEST_PAGE_SIZE \<subseteq> {fst r..<snd r} - bytes_of occ \<longrightarrow>
      span p GUEST_PAGE_SIZE \<subseteq> reserved_bytes (reserve_guest_regions os occ g)))"
proof -
  obtain g' where g': "reserve_guest_regions os occ g = g'" "gs_inv g'" "gs_mapped g' = []" "list_all page_range (gs_owned g')"
    "reserved_bytes g' \<subseteq> bytes_of guest_regions - bytes_of occ"
    "(\<forall>j. os j) \<longrightarrow> reserved_bytes g' = (\<Union>r \<in> set (guest_gaps occ). whole_pages r)"
    by (rule reserve_guest_regions_spec [OF occ f, where os = os])
  have "free_bytes (gs_free g') = reserved_bytes g'" using gs_invD(5) [OF g'(2)] g'(3) by simp
  moreover have "span p GUEST_PAGE_SIZE \<subseteq> reserved_bytes g'"
    if "\<forall>j. os j" "r \<in> set guest_regions" "GUEST_PAGE_SIZE dvd p" "span p GUEST_PAGE_SIZE \<subseteq> {fst r..<snd r} - bytes_of occ" for r p
    using whole_page_reserved [OF occ that(2-4)] unfolding mp [OF g'(6) that(1)] by blast
  ultimately show ?thesis unfolding g'(1) using g'(4,5) by blast
qed

text \<open>C4: \<open>GuestAddressSpace\<close> over any history of calls and under every pattern of host failures. The free placeholders, the private
  memory and the views of the backing file always share out exactly the reserved addresses. A call succeeds only when it is possible
  on this map, and then changes the map as specified; a refused call changes nothing and is refused because it was not possible or
  because the host failed; the process stops only when a host call has failed. The file keeps its contents and the free ranges
  stay ordered and merged.\<close>

theorem guest_space_refines:
  assumes occ: "host_list occ" and f: "fresh_space g" and xs: "list_all (\<lambda>x. range_ok (fst (op_range x)) (snd (op_range x))) xs"
  shows "case gs_run os xs (reserve_guest_regions os occ g) of
      None \<Rightarrow> \<exists>j. \<not> os j
    | Some (bs, g') \<Rightarrow>
        gs_explained (\<exists>j. \<not> os j) (gb_size (gs_backing g)) xs bs (guest_map_of (reserve_guest_regions os occ g)) (guest_map_of g') \<and>
        gm_free (guest_map_of g') \<union> gm_private (guest_map_of g') \<union> fst ` gm_views (guest_map_of g') =
          reserved_bytes (reserve_guest_regions os occ g) \<and>
        gm_free (guest_map_of g') \<inter> gm_private (guest_map_of g') = {} \<and>
        gm_free (guest_map_of g') \<inter> fst ` gm_views (guest_map_of g') = {} \<and>
        gm_private (guest_map_of g') \<inter> fst ` gm_views (guest_map_of g') = {} \<and>
        free_inv (gs_free g') \<and> gb_bytes (gs_backing g') = gb_bytes (gs_backing g)"
proof -
  obtain g0 where g0: "reserve_guest_regions os occ g = g0" "gs_inv g0" "same_store (gs_backing g) (gs_backing g0)"
    by (rule reserve_guest_regions_spec [OF occ f, where os = os])
  have sz: "gb_size (gs_backing g0) = gb_size (gs_backing g)" using g0(3) by (simp add: same_store_def)
  note R = gs_run_spec [OF g0(2) xs sz, of os]
  show ?thesis
  proof (cases "gs_run os xs g0")
    case None
    then show ?thesis using R by (simp add: g0(1))
  next
    case (Some y)
    obtain bs g' where y: "y = (bs, g')" by fastforce
    have g': "gs_inv g'" "gs_explained (\<exists>j. \<not> os j) (gb_size (gs_backing g)) xs bs (guest_map_of g0) (guest_map_of g')"
      "reserved_bytes g' = reserved_bytes g0" "same_store (gs_backing g0) (gs_backing g')" using R by (simp_all add: Some y)
    note I = gs_invD [OF g'(1)]
    define F P V where "F = free_bytes (gs_free g')" and "P = kind_bytes PrivateMapping (gs_mapped g')" and "V = fst ` views (gs_backing g')"
    have M: "gm_free (guest_map_of g') = F" "gm_private (guest_map_of g') = P" "fst ` gm_views (guest_map_of g') = V"
      by (simp_all add: guest_map_of_def F_def P_def V_def)
    have "F \<inter> (V \<union> P) = {}" "F \<union> (V \<union> P) = reserved_bytes g0" using I(4,5) unfolding all_mapped_kinds I(7) g'(3) F_def P_def V_def by simp_all
    moreover have "V \<inter> P = {}" using kinds_disjoint [OF I(2)] unfolding I(7) V_def P_def .
    moreover have "gb_bytes (gs_backing g') = gb_bytes (gs_backing g)" using g0(3) g'(4) by (simp add: same_store_def)
    ultimately show ?thesis using g'(2) I(1) unfolding g0(1) Some y option.case prod.case M by blast
  qed
qed

text \<open>C17: \<open>ReserveAligned\<close> is first fit: it returns the lowest address of the search window where the whole range is a free placeholder and that
  has the alignment asked for, at least a page, and zero when there is none. Without a hint it searches the system-managed region
  first and then the user region.\<close>

theorem reserve_aligned_first_fit:
  assumes inv: "gs_inv g" and n: "0 < n" and s: "search_addr \<le> U64_MAX"
  shows "if search_addr = 0
    then (if \<exists>y. fits (gs_free g) HOST_SYSTEM_MANAGED_MIN (HOST_SYSTEM_MANAGED_MAX + 1) n (max al GUEST_PAGE_SIZE) y
          then lowest_fit (gs_free g) HOST_SYSTEM_MANAGED_MIN (HOST_SYSTEM_MANAGED_MAX + 1) n (max al GUEST_PAGE_SIZE) (gs_reserve_aligned search_addr n al g)
          else lowest_fit (gs_free g) HOST_USER_MIN (HOST_USER_MAX + 1) n (max al GUEST_PAGE_SIZE) (gs_reserve_aligned search_addr n al g))
    else lowest_fit (gs_free g) search_addr (HOST_USER_MAX + 1) n (max al GUEST_PAGE_SIZE) (gs_reserve_aligned search_addr n al g)"
proof -
  define a where "a = max al GUEST_PAGE_SIZE"
  have a: "0 < a" using page_size_pos by (simp add: a_def less_max_iff_disj)
  have al: "max (if al \<noteq> 0 then al else GUEST_PAGE_SIZE) GUEST_PAGE_SIZE = a" by (simp add: a_def)
  note L = find_free_aligned_spec [OF inv a n]
  have b: "HOST_SYSTEM_MANAGED_MAX + 1 \<le> U64_MAX" "HOST_SYSTEM_MANAGED_MIN \<le> U64_MAX" "HOST_USER_MAX + 1 \<le> U64_MAX" "HOST_USER_MIN \<le> U64_MAX"
    by (simp_all add: region_bounds U64_MAX_def)
  define m where "m = find_free_aligned_unlocked HOST_SYSTEM_MANAGED_MIN (HOST_SYSTEM_MANAGED_MAX + 1) n a (gs_free g)"
  have res: "gs_reserve_aligned search_addr n al g = (if search_addr = 0
      then (if m \<noteq> 0 then m else find_free_aligned_unlocked HOST_USER_MIN (HOST_USER_MAX + 1) n a (gs_free g))
      else find_free_aligned_unlocked search_addr (HOST_USER_MAX + 1) n a (gs_free g))"
    unfolding gs_reserve_aligned_def al Let_def m_def using n by simp
  have M: "lowest_fit (gs_free g) HOST_SYSTEM_MANAGED_MIN (HOST_SYSTEM_MANAGED_MAX + 1) n a m" unfolding m_def by (rule L [OF b(1,2)])
  then have found: "(\<exists>y. fits (gs_free g) HOST_SYSTEM_MANAGED_MIN (HOST_SYSTEM_MANAGED_MAX + 1) n a y) \<longleftrightarrow> m \<noteq> 0"
    by (auto simp: lowest_fit_def split: if_splits)
  show ?thesis unfolding a_def [symmetric] found res using M L [OF b(3,4)] L [OF b(3) s] by simp
qed

section \<open>Witnesses\<close>

definition space_example :: guest_space where
  "space_example = \<lparr>gs_free = [], gs_mapped = [], gs_owned = [], gs_backing = \<lparr>gb_available = True, gb_size = 0x100000, gb_maps = [], gb_bytes = (\<lambda>_. 0), gb_calls = 0\<rparr>\<rparr>"

lemma space_example_fresh: "fresh_space space_example"
  by (simp add: fresh_space_def space_example_def bk_inv_def maps_ok_def U64_MAX_def)

definition host_example :: "(u64 \<times> u64) list" where
  "host_example = [(0x400000, 0x480000), (0x7f0000000000, 0x7f0000004000)]"

lemma host_example_list: "host_list host_example"
  by (simp add: host_list_def host_example_def)

theorem reserve_guest_regions_safe_witness:
  "span 0x40000 GUEST_PAGE_SIZE \<subseteq> reserved_bytes (reserve_guest_regions (\<lambda>_. True) host_example space_example) \<and>
    0x400000 \<notin> reserved_bytes (reserve_guest_regions (\<lambda>_. True) host_example space_example)"
proof -
  note R = reserve_guest_regions_safe [OF host_example_list space_example_fresh, of "\<lambda>_. True"]
  have "(HOST_SYSTEM_MANAGED_MIN, HOST_SYSTEM_MANAGED_MAX + 1) \<in> set guest_regions" by (simp add: guest_regions_def)
  moreover have "GUEST_PAGE_SIZE dvd 0x40000" by (simp add: GUEST_PAGE_SIZE_def)
  moreover have "span 0x40000 GUEST_PAGE_SIZE \<subseteq> {HOST_SYSTEM_MANAGED_MIN..<HOST_SYSTEM_MANAGED_MAX + 1} - bytes_of host_example"
    by (auto simp: span_iff GUEST_PAGE_SIZE_def region_bounds host_example_def)
  ultimately have "span 0x40000 GUEST_PAGE_SIZE \<subseteq> reserved_bytes (reserve_guest_regions (\<lambda>_. True) host_example space_example)"
    using R by (metis fst_conv snd_conv)
  moreover have "0x400000 \<in> bytes_of host_example" by (simp add: host_example_def)
  ultimately show ?thesis using R by blast
qed

definition ops_example :: "gs_op list" where
  "ops_example = [GsMap 0x40000 0x8000 0 ReadWrite, GsUnmap 0x44000 0x4000, GsCommit 0x44000 0x4000, GsMap 0x44000 0x4000 0 Read]"

lemma gs_explained_Cons:
  "gs_explained faulty sz (x # xs) bs M M' \<longleftrightarrow> (\<exists>b bs'. bs = b # bs' \<and>
     (if b then possible sz x M \<and> gs_explained faulty sz xs bs' (apply_op x M) M' else (faulty \<or> \<not> possible sz x M) \<and> gs_explained faulty sz xs bs' M M'))"
  by (cases bs) auto

lemma ops_example_results:
  assumes "gs_explained False 0x100000 ops_example bs M M'" and "span 0x40000 0x8000 \<subseteq> gm_free M"
  shows "bs = [True, True, True, False]"
proof -
  have s: "span 0x44000 0x4000 \<subseteq> span 0x40000 0x8000" "\<not> span 0x44000 0x4000 \<subseteq> {}" by (auto simp: span_iff)
  have v: "fst ` (A \<union> (\<lambda>a. (a, f a, w)) ` S) = fst ` A \<union> S" for A :: "(nat \<times> nat \<times> vm_mode) set" and f S w by (auto simp: image_Un image_image)
  have d: "span 0x44000 0x4000 \<subseteq> A \<union> span 0x40000 0x8000" for A using s(1) by blast
  have n: "\<not> span 0x44000 0x4000 \<subseteq> A - span 0x44000 0x4000" for A using s(2) by blast
  show ?thesis using assms by (auto simp: ops_example_def gs_explained_Cons v d n split: if_splits)
qed

text \<open>The example after its reservation.\<close>

definition reserved_example :: guest_space where
  "reserved_example = reserve_guest_regions (\<lambda>_. True) host_example space_example"

lemma reserved_example_spec: "gs_inv reserved_example" "span 0x40000 0x8000 \<subseteq> free_bytes (gs_free reserved_example)"
proof -
  obtain g' where g': "reserve_guest_regions (\<lambda>_. True) host_example space_example = g'" "gs_inv g'" "gs_mapped g' = []"
    "(\<forall>j::nat. True) \<longrightarrow> reserved_bytes g' = (\<Union>r \<in> set (guest_gaps host_example). whole_pages r)"
    by (rule reserve_guest_regions_spec [OF host_example_list space_example_fresh, where os = "\<lambda>_. True"])
  have "(HOST_SYSTEM_MANAGED_MIN, HOST_SYSTEM_MANAGED_MAX + 1) \<in> set guest_regions" by (simp add: guest_regions_def)
  note W = whole_page_reserved [OF host_example_list this]
  have "GUEST_PAGE_SIZE dvd 0x40000" "GUEST_PAGE_SIZE dvd 0x44000" by (simp_all add: GUEST_PAGE_SIZE_def)
  note W = W [OF this(1)] W [OF this(2)]
  have "span 0x40000 GUEST_PAGE_SIZE \<subseteq> {HOST_SYSTEM_MANAGED_MIN..<HOST_SYSTEM_MANAGED_MAX + 1} - bytes_of host_example"
    "span 0x44000 GUEST_PAGE_SIZE \<subseteq> {HOST_SYSTEM_MANAGED_MIN..<HOST_SYSTEM_MANAGED_MAX + 1} - bytes_of host_example"
    by (auto simp: span_iff GUEST_PAGE_SIZE_def region_bounds host_example_def)
  note W = W(1) [unfolded fst_conv snd_conv, OF this(1)] W(2) [unfolded fst_conv snd_conv, OF this(2)]
  have "span 0x40000 0x8000 = span 0x40000 GUEST_PAGE_SIZE \<union> span 0x44000 GUEST_PAGE_SIZE" by (auto simp: span_iff GUEST_PAGE_SIZE_def)
  then have "span 0x40000 0x8000 \<subseteq> reserved_bytes g'" using g'(4) W by auto
  moreover have "free_bytes (gs_free g') = reserved_bytes g'" using gs_invD(5) [OF g'(2)] g'(3) by simp
  ultimately show "gs_inv reserved_example" "span 0x40000 0x8000 \<subseteq> free_bytes (gs_free reserved_example)" using g'(1,2) by (simp_all add: reserved_example_def)
qed

theorem guest_space_refines_witness:
  "\<exists>g'. gs_run (\<lambda>_. True) ops_example (reserve_guest_regions (\<lambda>_. True) host_example space_example) = Some ([True, True, True, False], g') \<and> free_inv (gs_free g')"
proof -
  have r: "list_all (\<lambda>x. range_ok (fst (op_range x)) (snd (op_range x))) ops_example" by (simp add: ops_example_def range_ok_def U64_MAX_def)
  note R = guest_space_refines [OF host_example_list space_example_fresh r, of "\<lambda>_. True", folded reserved_example_def]
  then obtain bs g' where run: "gs_run (\<lambda>_. True) ops_example reserved_example = Some (bs, g')"
    by (cases "gs_run (\<lambda>_. True) ops_example reserved_example") auto
  have e: "gs_explained False 0x100000 ops_example bs (guest_map_of reserved_example) (guest_map_of g')" "free_inv (gs_free g')"
    using R unfolding run by (simp_all add: space_example_def)
  have "bs = [True, True, True, False]"
    by (rule ops_example_results [OF e(1)]) (use reserved_example_spec(2) in \<open>simp add: guest_map_of_def\<close>)
  then show ?thesis using run e(2) unfolding reserved_example_def by blast
qed

theorem reserve_aligned_first_fit_witness: "gs_reserve_aligned 0 0x4000 0 reserved_example = 0x40000"
proof -
  let ?fits = "fits (gs_free reserved_example) HOST_SYSTEM_MANAGED_MIN (HOST_SYSTEM_MANAGED_MAX + 1) 0x4000 (max 0 GUEST_PAGE_SIZE)"
  have "span 0x40000 0x4000 \<subseteq> span 0x40000 0x8000" by (auto simp: span_iff)
  then have f: "?fits 0x40000" using reserved_example_spec(2)
    by (auto simp: fits_def region_bounds GUEST_PAGE_SIZE_def)
  define r where "r = gs_reserve_aligned 0 0x4000 0 reserved_example"
  have "lowest_fit (gs_free reserved_example) HOST_SYSTEM_MANAGED_MIN (HOST_SYSTEM_MANAGED_MAX + 1) 0x4000 (max 0 GUEST_PAGE_SIZE) r"
    using reserve_aligned_first_fit [OF reserved_example_spec(1), where n = "0x4000" and search_addr = 0 and al = 0] f unfolding r_def [symmetric] by (auto split: if_splits)
  then have "r \<noteq> 0 \<and> ?fits r \<and> r \<le> 0x40000" using f unfolding lowest_fit_def by (cases "r = 0") auto
  then have "r = 0x40000" by (auto simp: fits_def region_bounds)
  then show ?thesis by (simp add: r_def)
qed

end
