(* ===== verification/Spec2Isabelle.thy ===== *)
theory Spec2Isabelle
  imports Physical_Mappings Range_Map Backing_Views Flexible_History Pooled_Facts Rtc_Facts Semaphore_Facts Posix_Sem_Facts Pthread_Mutex_Facts Pthread_Rwlock_Facts Pthread_Cond_Facts Pthread_Keys_Facts Guest_Threads_Facts Event_Flag Event_Queue_Facts Gpu_History Guest_Space_Regions
begin

text \<open>
  The guest memory, the kernel objects, the threads, the clock and the tracking of GPU-owned memory of the emulator, modelled
  from the C++ sources under \<open>src/src/\<close>.

  \<^bold>\<open>The program.\<close> The emulator runs a guest program natively and answers its system calls. The kernel calls on
  memory (\<open>kernel/memory.cpp\<close>) keep four books: the direct memory handed out by physical offset (\<open>PhysicalMemory\<close>),
  the flexible memory (\<open>FlexibleMemory\<close>), the pools, and the ranges of the guest's address space (\<open>VirtualRanges\<close>).
  Both kinds of memory live in one file (\<open>GuestBackingStore\<close> in \<open>kernel/memoryAddressSpace.inc\<close>) whose views are
  mapped at guest addresses by \<open>GuestAddressSpace\<close>. The kernel objects a guest thread waits on are semaphores of two
  kinds, event flags and event queues (\<open>kernel/semaphore.cpp\<close>, \<open>eventFlag.cpp\<close>, \<open>eventQueue.cpp\<close>), all found by
  handle in a registry. Guest threads, their mutexes, reader-writer locks, condition variables, attributes and keys are in
  \<open>kernel/pthread.cpp\<close>. \<open>libs/libRtc.cpp\<close> and \<open>common/dateTime.cpp\<close> hold two calendars. On the GPU side
  (\<open>graphics/host_gpu/\<close>) memory is shared with the guest: the page manager (\<open>pageManager.cpp\<close>) guards pages of the host, the
  memory tracker (\<open>regionManager.h\<close>, \<open>memoryTracker.h\<close>, on \<open>common/bitArray.h\<close>) says for each page who wrote it last, and the
  buffer cache (\<open>renderer/cache/bufferCache.cpp\<close>) keeps beside it the exact bytes the GPU owns (\<open>rangeSet.h\<close>).

  \<^bold>\<open>Conventions.\<close> An unsigned 64-bit value is a natural number, and every sum or difference that may leave the width
  is written \<open>add64\<close> or \<open>sub64\<close>, which wrap (\<open>Prelude\<close>). A function that may stop the process (\<open>EXIT\<close>, \<open>EXIT_IF\<close>)
  returns an \<open>option\<close> whose \<open>None\<close> is the stopped process; a function with a result and an output parameter returns
  the pair. \<open>std::map\<close> is the list of its entries in key order and an iterator the split of the list where it stands
  (\<open>Ordered_Map\<close>). Each public method of a manager holds the mutex of its class for its whole body, so it is one step.
  Host calls that may fail take their answers from a parameter \<open>os\<close>, one for each call, so a theorem holds under every
  pattern of failures. A wait is a sequence of steps, parking and waking up, and theorems quantify over every
  interleaving of them. Guest threads have numbers; a guest object is what its handle points to. The code of a Linux host and of
  a debug build is modelled. In the GPU part the work on a region runs under its lock and is one step, the protection of the host's
  pages is state, and functions that callers pass are the list of their calls, but for the flush that calls back. Logging and the fault-injection hooks of the test build are left out.

  \<^bold>\<open>The library.\<close> \<open>Prelude\<close>: widths, intervals, alignment, binary search. \<open>Ordered_Map\<close>: \<open>std::map\<close>. \<open>Intervals\<close>: lists
  of separated intervals and that such a list is determined by its bytes. \<open>Range_Store\<close>: the locale of everything that
  stores a set of bytes in a canonical form; \<open>Range_Set\<close> and \<open>Free_List\<close> interpret it. \<open>Tiling\<close>: lists of adjacent or
  disjoint blocks and lookups in them. \<open>Wait_Support\<close>: error codes, deadlines and the locale of handle tables.

  \<^bold>\<open>The components.\<close>
  \<open>Range_Set\<close> is \<open>RangeSet\<close>: after any script of calls it holds exactly the owned bytes, merged.
  \<open>Free_List\<close> holds \<open>AddFreeRange\<close> and \<open>ConsumeFreeRange\<close> of the two memory managers.
  \<open>Mem_Types\<close> holds modes, protection words, names and saturating overlap.
  \<open>Physical_Memory\<close> is \<open>PhysicalMemory\<close>; \<open>Physical_Arena\<close> shows that free ranges and blocks always share out the arena, that
  allocation is first fit and release exact; \<open>Physical_Mappings\<close> shows what mapping, unmapping and protection do to the
  address translation.
  \<open>Virtual_Ranges\<close> is \<open>VirtualRanges\<close>; \<open>Range_Map\<close> refines it to a map from addresses to attributes.
  \<open>Guest_Backing\<close> is \<open>GuestBackingStore\<close>; \<open>Backing_Views\<close> shows that unmapping is a transaction under host failures and
  that transfers read and write exactly the bytes behind the views. \<open>Guest_Space\<close> is \<open>GuestAddressSpace\<close>; \<open>Guest_Space_Facts\<close>
  has its two tables, \<open>Guest_Space_History\<close> each operation on the map of the guest's addresses and whole histories, and
  \<open>Guest_Space_Regions\<close> the reservation at the start, the searches and the properties: placeholders, private memory and views
  always share out the reserved addresses.
  \<open>Flexible_Memory\<close> is \<open>FlexibleMemory\<close>, with the calls it makes on \<open>Guest_Space\<close>; \<open>Flexible_Facts\<close> has the effect of
  each operation and \<open>Flexible_History\<close> whole histories and the snapshot round trip. \<open>Pooled_Memory\<close>, \<open>Pooled_Facts\<close> are
  \<open>PooledMemory\<close>: its expansions stay shared out between free ranges and committed addresses. \<open>Shares\<close> holds what both
  use of blocks that share no byte and of the translation they stand for.
  \<open>Calendar\<close>, \<open>Calendar_Facts\<close> are \<open>common/dateTime.cpp\<close>; \<open>Rtc\<close>, \<open>Rtc_Facts\<close> are \<open>libs/libRtc.cpp\<close>.
  \<open>Bit_Array\<close>, \<open>Bit_Array_Facts\<close> are \<open>BitArray\<close>: the runs of set bits found word by word are the maximal runs.
  \<open>Page_Manager\<close>, \<open>Page_Manager_Facts\<close> are \<open>PageManager\<close>: the loop that gathers pages into few host calls does what handling
  each on its own does. \<open>Memory_Tracker\<close> is \<open>RegionManager\<close> and \<open>MemoryTracker\<close>; \<open>Tracker_Regions\<close> has one region,
  \<open>Memory_Tracker_Facts\<close> the walk over regions (the locale \<open>region_walk\<close>, interpreted for each kind of walk) and
  \<open>Tracker_Operations\<close> each operation on sets of pages, and the contract of a flush. \<open>Gpu_Ownership\<close> is the ownership that
  \<open>BufferCache\<close> keeps; \<open>Gpu_Ownership_Facts\<close> has each operation and \<open>Gpu_History\<close> whole histories against a specification with
  pages and bytes only: no check of the code fails and the host's protection is the one needed.
  \<open>Pthread_Mutex\<close>, \<open>Pthread_Rwlock\<close>, \<open>Pthread_Cond\<close> and their facts are the guest's locks, with \<open>Lock_Contract\<close> the shared
  interface of histories of steps; \<open>Pthread_Attr\<close> the attributes of threads, \<open>Pthread_Keys\<close> thread-specific data and
  one-time initialisation, \<open>Guest_Threads\<close> the pool of threads with the creation, caching and reuse of stacks.
  \<open>Semaphore\<close>, \<open>Semaphore_Facts\<close> are the kernel semaphores, \<open>Posix_Sem\<close>, \<open>Posix_Sem_Facts\<close> the POSIX ones, \<open>Event_Flag\<close>
  the event flags, \<open>Event_Queue\<close>, \<open>Event_Queue_Facts\<close> the event queues.

  \<^bold>\<open>Bounds and fuel.\<close> The loops are structural recursions over the list that the code iterates over, or functions with a
  measure. \<open>unmap_one\<close> of \<open>Guest_Backing\<close> takes fuel 2: its error path calls itself on a remainder that it has just
  mapped and that is unmapped whole, so the second level never calls a third; \<open>gb_unmap_transactional\<close> holds with that
  fuel. \<open>iterate\<close> of \<open>Memory_Tracker\<close> and \<open>update_chunks\<close> of \<open>Page_Manager\<close> decrease what is left of their range, \<open>ba_ranges_from\<close>
  advances to the end of a run. A wait is not a loop of the model but steps, with \<open>park_slice\<close> the longest time a single park may take.

  \<^bold>\<open>Not modelled.\<close> The GPU command processor, the shader recompiler, the renderer and the texture cache, and the presentation:
  they build Vulkan and SPIR-V objects, and their behaviour is defined by those interfaces and the hardware. Of the buffer cache
  the buffers themselves, their joining, the copies on the GPU and the order of last use: the bounds of a buffer, whether memory is
  registered and which buffers are old are arguments. Of \<open>pthread.cpp\<close> the entry on the guest stack, cancellation, names,
  priorities, clocks, signals and the set-up of the main thread, which are host calls and assembly. The network,
  audio, input, dialog, save-data and font libraries: they wrap host libraries. The loader: it parses executables and links them
  against host functions. The file system: host files. The launcher: a user interface. In \<open>memory.cpp\<close> the kernel calls
  above the managers, which combine them with the guest page tables of the host.
\<close>

end
